(* ===== verification/Prelude.thy ===== *)
theory Prelude
  imports Complex_Main "HOL-Library.Word" "HOL-Library.Signed_Division"
begin

text \<open>
  Shared vocabulary of the development: the 64-bit integer range with the overflow-checked
  operations of the C compilers (\<open>__builtin_add_overflow\<close> and its kin), C's truncating
  division, linear probing over a power-of-two table, and generic list facts.
\<close>

named_theorems checked_arith \<open>unfolding rules of the overflow-checked operations\<close>

type_synonym u32 = "32 word"
type_synonym u64 = "64 word"


section \<open>64-bit integers\<close>

definition INT64_MIN :: int where "INT64_MIN = - 9223372036854775808"

definition INT64_MAX :: int where "INT64_MAX = 9223372036854775807"

definition in64 :: "int \<Rightarrow> bool" where
  "in64 x \<longleftrightarrow> INT64_MIN \<le> x \<and> x \<le> INT64_MAX"

text \<open>
  The result of an overflow-checked builtin: the exact value when it fits, None when the
  builtin reports an overflow.
\<close>

definition chk64 :: "int \<Rightarrow> int option" where
  "chk64 x = (if in64 x then Some x else None)"

definition add_ovf :: "int \<Rightarrow> int \<Rightarrow> int option" where
  [checked_arith]: "add_ovf a b = chk64 (a + b)"

definition sub_ovf :: "int \<Rightarrow> int \<Rightarrow> int option" where
  [checked_arith]: "sub_ovf a b = chk64 (a - b)"

definition mul_ovf :: "int \<Rightarrow> int \<Rightarrow> int option" where
  [checked_arith]: "mul_ovf a b = chk64 (a * b)"

lemma chk64_Some [simp]: "chk64 x = Some y \<longleftrightarrow> in64 x \<and> y = x"
  by (auto simp: chk64_def)

lemma add_ovf_Some [simp]: "add_ovf a b = Some c \<longleftrightarrow> in64 (a + b) \<and> c = a + b"
  by (auto simp: add_ovf_def)

lemma sub_ovf_Some [simp]: "sub_ovf a b = Some c \<longleftrightarrow> in64 (a - b) \<and> c = a - b"
  by (auto simp: sub_ovf_def)

lemma mul_ovf_Some [simp]: "mul_ovf a b = Some c \<longleftrightarrow> in64 (a * b) \<and> c = a * b"
  by (auto simp: mul_ovf_def)

lemma in64_0 [simp]: "in64 0" and in64_1 [simp]: "in64 1"
  by (simp_all add: in64_def INT64_MIN_def INT64_MAX_def)


section \<open>C's truncating division\<close>

text \<open>
  The library's \<open>sdiv\<close> and \<open>smod\<close> round towards zero, as C's \<open>/\<close> and \<open>%\<close> do.
\<close>

lemma sdiv_smod_decomp: "(a::int) = b * (a sdiv b) + a smod b"
  by (simp add: mult_sdiv_smod_eq)

lemma smod_nonneg: "0 \<le> (a::int) \<Longrightarrow> b \<noteq> 0 \<Longrightarrow> 0 \<le> a smod b \<and> a smod b \<le> \<bar>b\<bar> - 1"
  by (cases "a = 0") (auto simp: signed_modulo_int_def zle_diff1_eq)

lemma smod_neg: "(a::int) < 0 \<Longrightarrow> b \<noteq> 0 \<Longrightarrow> - (\<bar>b\<bar> - 1) \<le> a smod b \<and> a smod b \<le> 0"
proof -
  assume a: "a < 0" and b: "b \<noteq> 0"
  have "\<bar>a\<bar> mod \<bar>b\<bar> < \<bar>b\<bar>" and "0 \<le> \<bar>a\<bar> mod \<bar>b\<bar>" using b by simp_all
  with a show ?thesis by (simp add: signed_modulo_int_def sgn_if)
qed

lemma smod_abs_bounds: "b \<noteq> 0 \<Longrightarrow> - (\<bar>b\<bar> - 1) \<le> (a::int) smod b \<and> a smod b \<le> \<bar>b\<bar> - 1"
  using smod_nonneg [of a b] smod_neg [of a b] by (cases "0 \<le> a") auto


section \<open>Linear probing\<close>

text \<open>
  The loop \<open>while (!stop(s)) s = (s + 1) & (cap - 1)\<close> of the open-addressing tables, with
  fuel. The tables have a power-of-two capacity, where masking with \<open>cap - 1\<close> is taking the
  remainder (\<open>and_mask_mod\<close>).
\<close>

fun probe :: "nat \<Rightarrow> nat \<Rightarrow> (nat \<Rightarrow> bool) \<Rightarrow> nat \<Rightarrow> nat option" where
  "probe 0 cap stop s = None"
| "probe (Suc fuel) cap stop s =
     (if stop s then Some s else probe fuel cap stop ((s + 1) mod cap))"

lemma and_mask_mod: "and (s::nat) (2 ^ k - 1) = s mod 2 ^ k"
  by (metis mask_eq_exp_minus_1 take_bit_eq_mask take_bit_eq_mod)

lemma probe_stop: "probe fuel cap stop s = Some t \<Longrightarrow> stop t"
  by (induction fuel cap stop s rule: probe.induct) (auto split: if_splits)

lemma probe_bound: "probe fuel cap stop s = Some t \<Longrightarrow> s < cap \<Longrightarrow> t < cap"
  by (induction fuel cap stop s rule: probe.induct) (auto split: if_splits)

text \<open>The probed slots before the one found did not stop the loop.\<close>

lemma probe_path:
  "probe fuel cap stop s = Some t \<Longrightarrow> s < cap \<Longrightarrow>
   \<exists>d<fuel. t = (s + d) mod cap \<and> (\<forall>e<d. \<not> stop ((s + e) mod cap))"
proof (induction fuel arbitrary: s)
  case 0
  then show ?case by simp
next
  case (Suc fuel)
  show ?case
  proof (cases "stop s")
    case True
    with Suc.prems show ?thesis by (intro exI [of _ 0]) simp
  next
    case False
    with Suc.prems have p: "probe fuel cap stop ((s + 1) mod cap) = Some t" and c: "(s + 1) mod cap < cap" by auto
    obtain d where d: "d < fuel" "t = ((s + 1) mod cap + d) mod cap"
        "\<forall>e<d. \<not> stop (((s + 1) mod cap + e) mod cap)"
      using Suc.IH [OF p c] by blast
    have m: "((s + 1) mod cap + e) mod cap = (s + Suc e) mod cap" for e by (simp add: mod_add_left_eq)
    have "\<not> stop ((s + e) mod cap)" if "e < Suc d" for e
      using that False Suc.prems(2) d(3) m by (cases e) auto
    with d m show ?thesis by (intro exI [of _ "Suc d"]) simp
  qed
qed

lemma probe_distance:
  assumes "d < fuel" and "stop ((s + d) mod cap)" and "s < cap"
  shows "\<exists>t. probe fuel cap stop s = Some t"
  using assms
proof (induction fuel arbitrary: s d)
  case 0
  then show ?case by simp
next
  case (Suc fuel)
  show ?case
  proof (cases "stop s")
    case True
    then show ?thesis by simp
  next
    case False
    with Suc.prems have d: "d \<noteq> 0" by (cases d) auto
    then obtain d' where d': "d = Suc d'" by (cases d) auto
    have pos: "(s + 1) mod cap < cap" using Suc.prems by simp
    have "((s + 1) mod cap + d') mod cap = (s + d) mod cap"
      by (simp add: d' mod_add_left_eq)
    with Suc.prems Suc.IH [of d' "(s + 1) mod cap"] pos d' False show ?thesis by simp
  qed
qed

text \<open>Fuel \<open>cap\<close> is enough as soon as some slot of the table stops the loop.\<close>

lemma probe_total:
  assumes "s < cap" and "t < cap" and "stop t"
  shows "\<exists>u. probe cap cap stop s = Some u"
proof -
  let ?d = "(t + cap - s) mod cap"
  have "(s + ?d) mod cap = (s + (t + cap - s)) mod cap" by (simp add: mod_add_right_eq)
  also have "\<dots> = (t + cap) mod cap" using assms by simp
  also have "\<dots> = t" using assms by simp
  finally have "stop ((s + ?d) mod cap)" using assms by simp
  moreover have "?d < cap" using assms by simp
  ultimately show ?thesis using probe_distance [of ?d cap stop s cap] assms(1) by blast
qed


section \<open>Lists\<close>

text \<open>The first element satisfying a predicate, with the lists before and after it.\<close>

fun split_first :: "('a \<Rightarrow> bool) \<Rightarrow> 'a list \<Rightarrow> ('a list \<times> 'a \<times> 'a list) option" where
  "split_first P [] = None"
| "split_first P (x # xs) =
     (if P x then Some ([], x, xs)
      else map_option (\<lambda>(ys, y, zs). (x # ys, y, zs)) (split_first P xs))"

lemma split_first_None: "split_first P xs = None \<longleftrightarrow> (\<forall>x\<in>set xs. \<not> P x)"
  by (induction xs) auto

lemma split_first_Some:
  "split_first P xs = Some (ys, x, zs) \<Longrightarrow> xs = ys @ x # zs \<and> P x \<and> (\<forall>y\<in>set ys. \<not> P y)"
  by (induction xs arbitrary: ys) (auto split: if_splits)

end
