(* ===== verification/Double64.thy ===== *)
theory Double64
  imports Prelude
begin

text \<open>
  C's \<open>double\<close>, as far as the refinement solver uses it: exact rationals for the finite values,
  the two infinities and NaN, with round-to-nearest-even after every operation. The two zeros
  are one value: the hash-consing of \<open>refine_vc.c\<close> compares real literals with \<open>==\<close>
  (\<open>term_eq\<close>), so it never tells them apart, and every division by a zero is guarded.
\<close>

datatype f64 = Fin rat | PInf | NInf | NaN

text \<open>Powers of two with an integer exponent, and the bit length of a natural number.\<close>

definition pow2 :: "int \<Rightarrow> rat" where
  "pow2 e = (if 0 \<le> e then of_int (2 ^ nat e) else 1 / of_int (2 ^ nat (- e)))"

fun bitlen :: "nat \<Rightarrow> nat" where
  "bitlen n = (if n = 0 then 0 else Suc (bitlen (n div 2)))"

declare bitlen.simps [simp del]

definition rne :: "rat \<Rightarrow> int" where
  "rne x = (let f = \<lfloor>x\<rfloor>; r = x - of_int f in
     if r < 1 / 2 then f else if r > 1 / 2 then f + 1 else if even f then f else f + 1)"

text \<open>
  Rounding an exact result: the exponent of the last kept bit is chosen so that the quotient
  has 53 bits, and at least \<open>-1074\<close> (the subnormal range); a result of \<open>2 ^ 1024\<close> or more
  overflows to an infinity.
\<close>

definition fl_exp :: "rat \<Rightarrow> int" where
  "fl_exp q = (let (n, d) = quotient_of \<bar>q\<bar>;
                   e = int (bitlen (nat n)) - int (bitlen (nat d)) - 53
               in max (-1074) (if \<bar>q\<bar> / pow2 e \<ge> of_int (2 ^ 53) then e + 1 else e))"

definition fl :: "rat \<Rightarrow> f64" where
  "fl q = (if q = 0 then Fin 0
           else let e = fl_exp q; r = of_int (rne (\<bar>q\<bar> / pow2 e)) * pow2 e
                in if r \<ge> of_int (2 ^ 1024) then (if q > 0 then PInf else NInf)
                   else Fin (sgn q * r))"

text \<open>\<open>(double)i\<close> for a 64-bit \<open>i\<close>, and the arithmetic operations.\<close>

definition f64_of_int :: "int \<Rightarrow> f64" where
  "f64_of_int i = fl (of_int i)"

fun f64_neg :: "f64 \<Rightarrow> f64" where
  "f64_neg (Fin x) = Fin (- x)"
| "f64_neg PInf = NInf"
| "f64_neg NInf = PInf"
| "f64_neg NaN = NaN"

fun f64_add :: "f64 \<Rightarrow> f64 \<Rightarrow> f64" where
  "f64_add (Fin x) (Fin y) = fl (x + y)"
| "f64_add NaN _ = NaN"
| "f64_add _ NaN = NaN"
| "f64_add PInf NInf = NaN"
| "f64_add NInf PInf = NaN"
| "f64_add PInf _ = PInf"
| "f64_add _ PInf = PInf"
| "f64_add NInf _ = NInf"
| "f64_add _ NInf = NInf"

definition f64_sub :: "f64 \<Rightarrow> f64 \<Rightarrow> f64" where
  "f64_sub x y = f64_add x (f64_neg y)"

fun f64_pos :: "f64 \<Rightarrow> bool" where
  "f64_pos (Fin x) = (0 < x)"
| "f64_pos PInf = True"
| "f64_pos _ = False"

fun f64_mul :: "f64 \<Rightarrow> f64 \<Rightarrow> f64" where
  "f64_mul (Fin x) (Fin y) = fl (x * y)"
| "f64_mul NaN _ = NaN"
| "f64_mul _ NaN = NaN"
| "f64_mul x y = (if x = Fin 0 \<or> y = Fin 0 then NaN
                  else if f64_pos x = f64_pos y then PInf else NInf)"

text \<open>Division, for a divisor other than zero (every caller tests for zero first).\<close>

fun f64_div :: "f64 \<Rightarrow> f64 \<Rightarrow> f64" where
  "f64_div (Fin x) (Fin y) = fl (x / y)"
| "f64_div NaN _ = NaN"
| "f64_div _ NaN = NaN"
| "f64_div (Fin x) _ = Fin 0"
| "f64_div x (Fin y) = (if f64_pos x = (0 \<le> y) then PInf else NInf)"
| "f64_div _ _ = NaN"

text \<open>The comparisons: false as soon as one side is NaN.\<close>

fun f64_eq :: "f64 \<Rightarrow> f64 \<Rightarrow> bool" where
  "f64_eq NaN _ = False"
| "f64_eq _ NaN = False"
| "f64_eq x y = (x = y)"

fun f64_lt :: "f64 \<Rightarrow> f64 \<Rightarrow> bool" where
  "f64_lt (Fin x) (Fin y) = (x < y)"
| "f64_lt NaN _ = False"
| "f64_lt _ NaN = False"
| "f64_lt NInf y = (y \<noteq> NInf)"
| "f64_lt (Fin _) y = (y = PInf)"
| "f64_lt PInf _ = False"

definition f64_le :: "f64 \<Rightarrow> f64 \<Rightarrow> bool" where
  "f64_le x y = (f64_lt x y \<or> f64_eq x y)"

text \<open>The value of a finite double; a double is representable when rounding keeps it.\<close>

fun f64_val :: "f64 \<Rightarrow> rat" where
  "f64_val (Fin x) = x"
| "f64_val _ = 0"

definition representable :: "rat \<Rightarrow> bool" where
  "representable q \<longleftrightarrow> fl q = Fin q"

lemma f64_of_int_exact: "representable (of_int i) \<Longrightarrow> f64_of_int i = Fin (of_int i)"
  by (simp add: representable_def f64_of_int_def)

section \<open>Integers up to \<open>2 ^ 53\<close> are exact\<close>

lemma bitlen_pos: "0 < n \<Longrightarrow> 0 < bitlen n"
  by (subst bitlen.simps) simp

lemma bitlen_bounds: "0 < n \<Longrightarrow> 2 ^ (bitlen n - 1) \<le> n \<and> n < 2 ^ bitlen n"
proof (induction n rule: bitlen.induct)
  case (1 n)
  have b: "bitlen n = Suc (bitlen (n div 2))" using "1.prems" by (subst bitlen.simps) simp
  show ?case
  proof (cases "n = 1")
    case True
    then have "bitlen n = 1" by (subst bitlen.simps) (simp add: bitlen.simps)
    with True show ?thesis by simp
  next
    case False
    with "1.prems" have h: "0 < n div 2" by simp
    then have IH: "2 ^ (bitlen (n div 2) - 1) \<le> n div 2 \<and> n div 2 < 2 ^ bitlen (n div 2)"
      using "1.IH" "1.prems" by simp
    have "(2::nat) ^ bitlen (n div 2) = 2 * 2 ^ (bitlen (n div 2) - 1)"
      using bitlen_pos [OF h] by (cases "bitlen (n div 2)") simp_all
    with IH b show ?thesis by simp arith
  qed
qed

lemma bitlen_le: "0 < n \<Longrightarrow> n < 2 ^ k \<Longrightarrow> bitlen n \<le> k"
proof (rule ccontr)
  assume n: "0 < n" and k: "n < 2 ^ k" and "\<not> bitlen n \<le> k"
  then have "k \<le> bitlen n - 1" by simp
  then have "(2::nat) ^ k \<le> 2 ^ (bitlen n - 1)" by (rule power_increasing) simp
  with bitlen_bounds [OF n] k show False by linarith
qed

lemma rne_of_int [simp]: "rne (of_int k) = k"
  by (simp add: rne_def Let_def)

lemma pow2_pos: "0 < pow2 e"
  by (simp add: pow2_def)

lemma fl_exactI:
  assumes q: "q \<noteq> 0" and k: "\<bar>q\<bar> = of_int k * pow2 (fl_exp q)" and b: "\<bar>q\<bar> < of_int (2 ^ 1024)"
  shows "representable q"
proof -
  have "\<bar>q\<bar> / pow2 (fl_exp q) = of_int k" using k pow2_pos [of "fl_exp q"] by (simp add: field_simps)
  then have "of_int (rne (\<bar>q\<bar> / pow2 (fl_exp q))) * pow2 (fl_exp q) = \<bar>q\<bar>" using k by simp
  moreover have "\<not> \<bar>q\<bar> \<ge> of_int (2 ^ 1024)" using b by simp
  ultimately show ?thesis using q
    by (simp only: representable_def fl_def Let_def if_False sgn_mult_abs f64.inject refl)
qed

lemma fl_exp_small_int:
  assumes "i \<noteq> 0" and "\<bar>i\<bar> \<le> 2 ^ 53"
  shows "fl_exp (of_int i) = int (bitlen (nat \<bar>i\<bar>)) - 53"
proof -
  let ?n = "nat \<bar>i\<bar>" and ?L = "bitlen (nat \<bar>i\<bar>)"
  have n: "0 < ?n" using assms by simp
  have L: "1 \<le> ?L" using bitlen_pos [OF n] by simp
  have "?n < 2 ^ 54" using assms by simp
  then have L2: "?L \<le> 54" by (rule bitlen_le [OF n])
  have q: "quotient_of \<bar>rat_of_int i\<bar> = (\<bar>i\<bar>, 1)"
    using quotient_of_int [of "\<bar>i\<bar>"] by (simp only: of_int_abs [symmetric] Rat.of_int_def)
  have one: "bitlen 1 = 1" by (simp add: bitlen.simps)
  have e: "int ?L - int (bitlen (nat 1)) - 53 = int ?L - 54" using one by simp
  have ge: "of_int (2 ^ 53) \<le> \<bar>rat_of_int i\<bar> / pow2 (int ?L - 54)"
  proof -
    have "pow2 (int ?L - 54) = 1 / of_int (2 ^ (54 - ?L))"
    proof (cases "?L = 54")
      case True
      then show ?thesis by (simp add: pow2_def)
    next
      case False
      then have "nat (- (int ?L - 54)) = 54 - ?L" using L2 by arith
      with False L2 show ?thesis by (simp add: pow2_def)
    qed
    then have "\<bar>rat_of_int i\<bar> / pow2 (int ?L - 54) = of_int (\<bar>i\<bar> * 2 ^ (54 - ?L))" by simp
    moreover have "(2::int) ^ 53 \<le> \<bar>i\<bar> * 2 ^ (54 - ?L)"
    proof -
      have "(2::nat) ^ 53 = 2 ^ (?L - 1) * 2 ^ (54 - ?L)" using L L2 by (simp flip: power_add)
      also have "\<dots> \<le> ?n * 2 ^ (54 - ?L)" using bitlen_bounds [OF n] by simp
      finally have "int (2 ^ 53) \<le> int (?n * 2 ^ (54 - ?L))" by (simp only: of_nat_le_iff)
      then show ?thesis by simp
    qed
    ultimately show ?thesis by (simp only: of_int_le_iff)
  qed
  then show ?thesis using L by (simp only: fl_exp_def Let_def q case_prod_conv e if_True) simp
qed

lemma representable_small_int:
  assumes "\<bar>i\<bar> \<le> 2 ^ 53"
  shows "representable (of_int i)"
proof (cases "i = 0")
  case True
  then show ?thesis by (simp add: representable_def fl_def)
next
  case False
  let ?n = "nat \<bar>i\<bar>" and ?L = "bitlen (nat \<bar>i\<bar>)"
  have n: "0 < ?n" using False by simp
  have "?n < 2 ^ 54" using assms by simp
  then have L2: "?L \<le> 54" by (rule bitlen_le [OF n])
  have "\<exists>k. \<bar>rat_of_int i\<bar> = of_int k * pow2 (int ?L - 53)"
  proof (cases "?L = 54")
    case True
    then have "2 ^ 53 \<le> ?n" using bitlen_bounds [OF n] by simp
    then have "\<bar>i\<bar> = 2 ^ 53" using assms by simp
    then have "\<bar>rat_of_int i\<bar> = of_int (2 ^ 53)" by (simp only: of_int_abs [symmetric])
    then have "\<bar>rat_of_int i\<bar> = of_int (2 ^ 52) * pow2 (int ?L - 53)" using True by (simp add: pow2_def)
    then show ?thesis by blast
  next
    case False
    then have "pow2 (int ?L - 53) = 1 / of_int (2 ^ (53 - ?L))"
    proof (cases "?L = 53")
      case True
      then show ?thesis by (simp add: pow2_def)
    next
      case ne: False
      then have "nat (- (int ?L - 53)) = 53 - ?L" using L2 False by arith
      with ne False L2 show ?thesis by (simp add: pow2_def)
    qed
    then have "\<bar>rat_of_int i\<bar> = of_int (\<bar>i\<bar> * 2 ^ (53 - ?L)) * pow2 (int ?L - 53)" by simp
    then show ?thesis by blast
  qed
  then obtain k where "\<bar>rat_of_int i\<bar> = of_int k * pow2 (fl_exp (of_int i))"
    using fl_exp_small_int [OF False assms] by metis
  moreover have "\<bar>rat_of_int i\<bar> < of_int (2 ^ 1024)"
  proof -
    have "\<bar>i\<bar> < 2 ^ 1024" using assms by (rule le_less_trans) (rule power_strict_increasing; simp)
    then have "rat_of_int \<bar>i\<bar> < of_int (2 ^ 1024)" by (simp only: of_int_less_iff)
    then show ?thesis by (simp only: of_int_abs)
  qed
  ultimately show ?thesis using False by (intro fl_exactI) auto
qed

lemma f64_of_small_int: "\<bar>i\<bar> \<le> 2 ^ 53 \<Longrightarrow> f64_of_int i = Fin (of_int i)"
  by (rule f64_of_int_exact) (rule representable_small_int)

end
