(* ===== verification/VCTerm.thy ===== *)
theory VCTerm
  imports Double64
begin

text \<open>
  The terms of a verification condition (\<open>src/compiler/refine_vc.h\<close>, \<open>refine_vc.c\<close>): sorts,
  operators, the uniform node of \<open>struct VCTerm\<close>, the normalising and folding constructor
  \<open>vc_mk\<close>, the condition record, and the division axioms. Terms are hash-consed in C, so that
  pointer equality is structural equality; here a term is a tree and \<open>=\<close> is that equality.
\<close>

section \<open>Data\<close>

datatype vcsort = VS_INT | VS_REAL | VS_BOOL

datatype vcop =
    VC_CONST_INT | VC_CONST_REAL | VC_VAR | VC_APP
  | VC_ADD | VC_SUB | VC_MUL | VC_DIV | VC_MOD | VC_NEG
  | VC_EQ | VC_LT | VC_LE
  | VC_AND | VC_OR | VC_NOT | VC_IMPLIES | VC_TRUE | VC_FALSE

text \<open>The numbers of the operators in \<open>enum VCOp\<close>.\<close>

fun op_code :: "vcop \<Rightarrow> nat" where
  "op_code VC_CONST_INT = 0" | "op_code VC_CONST_REAL = 1" | "op_code VC_VAR = 2" | "op_code VC_APP = 3"
| "op_code VC_ADD = 4" | "op_code VC_SUB = 5" | "op_code VC_MUL = 6" | "op_code VC_DIV = 7"
| "op_code VC_MOD = 8" | "op_code VC_NEG = 9" | "op_code VC_EQ = 10" | "op_code VC_LT = 11"
| "op_code VC_LE = 12" | "op_code VC_AND = 13" | "op_code VC_OR = 14" | "op_code VC_NOT = 15"
| "op_code VC_IMPLIES = 16" | "op_code VC_TRUE = 17" | "op_code VC_FALSE = 18"

text \<open>The union \<open>as\<close> of a node: an int64 literal, a double literal, a symbol index.\<close>

datatype payload = PNone | PInt int | PReal f64 | PIdx nat

datatype vcterm = Node (t_op: vcop) (t_sort: vcsort) (t_kids: "vcterm list") (t_as: payload)

record vcvar =
  v_name :: string
  v_sort :: vcsort

record vcufunc =
  u_name :: string
  u_arity :: nat
  u_sort :: vcsort
  u_nonlinear :: bool
  u_ctor :: bool
  u_reflected :: bool

record refinevc =
  vars :: "vcvar list"
  ufuncs :: "vcufunc list"
  hyps :: "vcterm list"
  goal :: "vcterm option"
  hyps_dropped :: bool
  n_divmod_splits :: nat
  ctor_consts :: "nat list"
  reflect_model_ok :: bool

fun as_int :: "payload \<Rightarrow> int" where
  "as_int (PInt i) = i" | "as_int _ = 0"

fun as_real :: "payload \<Rightarrow> f64" where
  "as_real (PReal r) = r" | "as_real _ = Fin 0"

fun as_idx :: "payload \<Rightarrow> nat" where
  "as_idx (PIdx i) = i" | "as_idx _ = 0"

definition kid :: "vcterm \<Rightarrow> nat \<Rightarrow> vcterm" where
  "kid t i = t_kids t ! i"

definition vc_new :: refinevc where
  "vc_new = \<lparr>vars = [], ufuncs = [], hyps = [], goal = None, hyps_dropped = False,
             n_divmod_splits = 0, ctor_consts = [], reflect_model_ok = False\<rparr>"

section \<open>Symbol tables\<close>

fun find_index :: "('a \<Rightarrow> bool) \<Rightarrow> 'a list \<Rightarrow> nat option" where
  "find_index P [] = None"
| "find_index P (x # xs) = (if P x then Some 0 else map_option Suc (find_index P xs))"

definition vc_declare_var :: "refinevc \<Rightarrow> string \<Rightarrow> vcsort \<Rightarrow> refinevc \<times> nat" where
  "vc_declare_var vc name s =
     (case find_index (\<lambda>v. v_name v = name) (vars vc) of
        Some i \<Rightarrow> (if s = VS_REAL then vc\<lparr>vars := (vars vc)[i := (vars vc ! i)\<lparr>v_sort := VS_REAL\<rparr>]\<rparr>
                   else vc, i)
      | None \<Rightarrow> (vc\<lparr>vars := vars vc @ [\<lparr>v_name = name, v_sort = s\<rparr>]\<rparr>, length (vars vc)))"

definition vc_declare_ufunc ::
  "refinevc \<Rightarrow> string \<Rightarrow> nat \<Rightarrow> vcsort \<Rightarrow> bool \<Rightarrow> refinevc \<times> nat" where
  "vc_declare_ufunc vc name arity s nonlinear =
     (case find_index (\<lambda>u. u_arity u = arity \<and> u_name u = name) (ufuncs vc) of
        Some i \<Rightarrow> (vc, i)
      | None \<Rightarrow> (vc\<lparr>ufuncs := ufuncs vc @ [\<lparr>u_name = name, u_arity = arity, u_sort = s,
                     u_nonlinear = nonlinear, u_ctor = False, u_reflected = False\<rparr>]\<rparr>,
                 length (ufuncs vc)))"

section \<open>Leaf constructors\<close>

definition vc_int :: "int \<Rightarrow> vcterm" where
  "vc_int v = Node VC_CONST_INT VS_INT [] (PInt v)"

definition vc_real :: "f64 \<Rightarrow> vcterm" where
  "vc_real v = Node VC_CONST_REAL VS_REAL [] (PReal v)"

definition vc_bool :: "bool \<Rightarrow> vcterm" where
  "vc_bool v = Node (if v then VC_TRUE else VC_FALSE) VS_BOOL [] PNone"

definition vc_var_ref :: "refinevc \<Rightarrow> nat \<Rightarrow> vcterm" where
  "vc_var_ref vc idx =
     Node VC_VAR (if idx < length (vars vc) then v_sort (vars vc ! idx) else VS_INT) [] (PIdx idx)"

definition ufunc_sort :: "refinevc \<Rightarrow> nat \<Rightarrow> vcsort" where
  "ufunc_sort vc fn = (if fn < length (ufuncs vc) then u_sort (ufuncs vc ! fn) else VS_INT)"

definition vc_app :: "refinevc \<Rightarrow> nat \<Rightarrow> vcterm list \<Rightarrow> vcterm" where
  "vc_app vc fn args = Node VC_APP (ufunc_sort vc fn) args (PIdx fn)"

definition vc_is_arith :: "vcterm \<Rightarrow> bool" where
  "vc_is_arith t \<longleftrightarrow> t_sort t \<noteq> VS_BOOL"

section \<open>Folding helpers\<close>

definition is_int_lit :: "vcterm \<Rightarrow> bool" where
  "is_int_lit t \<longleftrightarrow> t_op t = VC_CONST_INT"

definition is_real_lit :: "vcterm \<Rightarrow> bool" where
  "is_real_lit t \<longleftrightarrow> t_op t = VC_CONST_REAL"

definition is_num_lit :: "vcterm \<Rightarrow> bool" where
  "is_num_lit t \<longleftrightarrow> is_int_lit t \<or> is_real_lit t"

definition num_of :: "vcterm \<Rightarrow> f64" where
  "num_of t = (if is_int_lit t then f64_of_int (as_int (t_as t)) else as_real (t_as t))"

definition arith_sort :: "vcterm \<Rightarrow> vcterm \<Rightarrow> vcsort" where
  "arith_sort a b = (if t_sort a = VS_REAL \<or> t_sort b = VS_REAL then VS_REAL else VS_INT)"

definition fold_int :: "vcop \<Rightarrow> int \<Rightarrow> int \<Rightarrow> int option" where
  "fold_int op a b =
     (case op of
        VC_ADD \<Rightarrow> add_ovf a b
      | VC_SUB \<Rightarrow> sub_ovf a b
      | VC_MUL \<Rightarrow> mul_ovf a b
      | VC_DIV \<Rightarrow> (if b = 0 \<or> (a = INT64_MIN \<and> b = -1) then None else Some (a sdiv b))
      | VC_MOD \<Rightarrow> (if b = 0 \<or> (a = INT64_MIN \<and> b = -1) then None else Some (a smod b))
      | _ \<Rightarrow> None)"

section \<open>The folding constructor\<close>

definition vc_mk_neg :: "vcterm \<Rightarrow> vcterm" where
  "vc_mk_neg a =
     (if is_int_lit a then
        (case sub_ovf 0 (as_int (t_as a)) of
           Some r \<Rightarrow> vc_int r
         | None \<Rightarrow> Node VC_NEG (t_sort a) [a] PNone)
      else if is_real_lit a then vc_real (f64_neg (as_real (t_as a)))
      else Node VC_NEG (t_sort a) [a] PNone)"

definition fold_real :: "vcop \<Rightarrow> f64 \<Rightarrow> f64 \<Rightarrow> f64 option" where
  "fold_real op x y =
     (case op of
        VC_ADD \<Rightarrow> Some (f64_add x y)
      | VC_SUB \<Rightarrow> Some (f64_sub x y)
      | VC_MUL \<Rightarrow> Some (f64_mul x y)
      | VC_DIV \<Rightarrow> (if \<not> f64_eq y (Fin 0) then Some (f64_div x y) else None)
      | _ \<Rightarrow> None)"

definition is_lit_val :: "vcterm \<Rightarrow> int \<Rightarrow> bool" where
  "is_lit_val t v \<longleftrightarrow> is_int_lit t \<and> as_int (t_as t) = v"

definition mk_unit_arith :: "vcop \<Rightarrow> vcterm \<Rightarrow> vcterm \<Rightarrow> vcterm" where
  "mk_unit_arith op a b =
     (if op = VC_ADD \<and> is_lit_val b 0 then a
      else if op = VC_ADD \<and> is_lit_val a 0 then b
      else if op = VC_SUB \<and> is_lit_val b 0 then a
      else if op = VC_MUL \<and> is_lit_val b 1 then a
      else if op = VC_MUL \<and> is_lit_val a 1 then b
      else if op = VC_DIV \<and> is_lit_val b 1 then a
      else Node op (arith_sort a b) [a, b] PNone)"

definition vc_mk_arith :: "vcop \<Rightarrow> vcterm \<Rightarrow> vcterm \<Rightarrow> vcterm" where
  "vc_mk_arith op a b =
     (if is_int_lit a \<and> is_int_lit b then
        (case fold_int op (as_int (t_as a)) (as_int (t_as b)) of
           Some r \<Rightarrow> vc_int r
         | None \<Rightarrow> mk_unit_arith op a b)
      else if is_num_lit a \<and> is_num_lit b \<and> op \<noteq> VC_MOD then
        (case fold_real op (num_of a) (num_of b) of
           Some r \<Rightarrow> vc_real r
         | None \<Rightarrow> mk_unit_arith op a b)
      else mk_unit_arith op a b)"

definition vc_mk_rel :: "vcop \<Rightarrow> vcterm \<Rightarrow> vcterm \<Rightarrow> vcterm" where
  "vc_mk_rel op a b =
     (if a = b then vc_bool (op \<noteq> VC_LT)
      else if is_num_lit a \<and> is_num_lit b then
        (let x = num_of a; y = num_of b
         in vc_bool (if op = VC_EQ then f64_eq x y else if op = VC_LT then f64_lt x y
                     else f64_le x y))
      else Node op VS_BOOL [a, b] PNone)"

definition vc_mk_not :: "vcterm \<Rightarrow> vcterm" where
  "vc_mk_not a =
     (if t_op a = VC_TRUE then vc_bool False
      else if t_op a = VC_FALSE then vc_bool True
      else if t_op a = VC_NOT then kid a 0
      else Node VC_NOT VS_BOOL [a] PNone)"

text \<open>
  \<open>and\<close> and \<open>or\<close>: flatten one level, drop units and duplicates, stop at the annihilator
  (None). The kept kids are in order of first occurrence.
\<close>

definition flat_kids :: "vcop \<Rightarrow> vcterm list \<Rightarrow> vcterm list" where
  "flat_kids op ks = concat (map (\<lambda>k. if t_op k = op then t_kids k else [k]) ks)"

fun andor_loop :: "vcop \<Rightarrow> vcop \<Rightarrow> vcterm list \<Rightarrow> vcterm list \<Rightarrow> vcterm list option" where
  "andor_loop unit_op zero_op acc [] = Some acc"
| "andor_loop unit_op zero_op acc (x # xs) =
     (if t_op x = zero_op then None
      else if t_op x = unit_op then andor_loop unit_op zero_op acc xs
      else if x \<in> set acc then andor_loop unit_op zero_op acc xs
      else andor_loop unit_op zero_op (acc @ [x]) xs)"

definition vc_mk_andor :: "vcop \<Rightarrow> vcterm list \<Rightarrow> vcterm" where
  "vc_mk_andor op ks =
     (case andor_loop (if op = VC_AND then VC_TRUE else VC_FALSE)
                      (if op = VC_AND then VC_FALSE else VC_TRUE) [] (flat_kids op ks) of
        None \<Rightarrow> vc_bool (op \<noteq> VC_AND)
      | Some [] \<Rightarrow> vc_bool (op = VC_AND)
      | Some [x] \<Rightarrow> x
      | Some flat \<Rightarrow> Node op VS_BOOL flat PNone)"

definition vc_mk :: "vcop \<Rightarrow> vcterm list \<Rightarrow> vcterm" where
  "vc_mk op ks =
     (case op of
        VC_TRUE \<Rightarrow> vc_bool True
      | VC_FALSE \<Rightarrow> vc_bool False
      | VC_NEG \<Rightarrow> vc_mk_neg (ks ! 0)
      | VC_ADD \<Rightarrow> vc_mk_arith VC_ADD (ks ! 0) (ks ! 1)
      | VC_SUB \<Rightarrow> vc_mk_arith VC_SUB (ks ! 0) (ks ! 1)
      | VC_MUL \<Rightarrow> vc_mk_arith VC_MUL (ks ! 0) (ks ! 1)
      | VC_DIV \<Rightarrow> vc_mk_arith VC_DIV (ks ! 0) (ks ! 1)
      | VC_MOD \<Rightarrow> vc_mk_arith VC_MOD (ks ! 0) (ks ! 1)
      | VC_EQ \<Rightarrow> vc_mk_rel VC_EQ (ks ! 0) (ks ! 1)
      | VC_LT \<Rightarrow> vc_mk_rel VC_LT (ks ! 0) (ks ! 1)
      | VC_LE \<Rightarrow> vc_mk_rel VC_LE (ks ! 0) (ks ! 1)
      | VC_NOT \<Rightarrow> vc_mk_not (ks ! 0)
      | VC_AND \<Rightarrow> vc_mk_andor VC_AND ks
      | VC_OR \<Rightarrow> vc_mk_andor VC_OR ks
      | VC_IMPLIES \<Rightarrow> vc_mk_andor VC_OR [vc_mk_not (ks ! 0), ks ! 1]
      | _ \<Rightarrow> Node op VS_BOOL ks PNone)"

definition vc_mk1 :: "vcop \<Rightarrow> vcterm \<Rightarrow> vcterm" where
  "vc_mk1 op a = vc_mk op [a]"

definition vc_mk2 :: "vcop \<Rightarrow> vcterm \<Rightarrow> vcterm \<Rightarrow> vcterm" where
  "vc_mk2 op a b = vc_mk op [a, b]"

definition vc_not :: "vcterm \<Rightarrow> vcterm" where
  "vc_not a = vc_mk1 VC_NOT a"

section \<open>Hypotheses, goal and the division axioms\<close>

definition vc_add_hyp :: "refinevc \<Rightarrow> vcterm \<Rightarrow> refinevc" where
  "vc_add_hyp vc t =
     (if t_op t = VC_TRUE \<or> t \<in> set (hyps vc) then vc else vc\<lparr>hyps := hyps vc @ [t]\<rparr>)"

definition vc_set_goal :: "refinevc \<Rightarrow> vcterm \<Rightarrow> refinevc" where
  "vc_set_goal vc t = vc\<lparr>goal := Some t\<rparr>"

definition VC_MAX_DIVMOD_SPLITS :: nat where "VC_MAX_DIVMOD_SPLITS = 4"

definition vc_add_divmod_axioms :: "refinevc \<Rightarrow> vcterm \<Rightarrow> vcterm \<Rightarrow> refinevc" where
  "vc_add_divmod_axioms vc a k =
     (if t_op k \<noteq> VC_CONST_INT \<or> as_int (t_as k) = 0 \<or> t_sort a \<noteq> VS_INT then vc
      else if t_op a = VC_CONST_INT \<or> t_op a = VC_CONST_REAL then vc
      else if as_int (t_as k) = INT64_MIN then vc
      else
        let K = \<bar>as_int (t_as k)\<bar>;
            q = vc_mk2 VC_DIV a k;
            r = vc_mk2 VC_MOD a k;
            zero = vc_int 0;
            rel = vc_mk2 VC_EQ a (vc_mk2 VC_ADD (vc_mk2 VC_MUL k q) r)
        in if rel \<in> set (hyps vc) then vc
           else
             let vc1 = vc_add_hyp vc rel; km1 = vc_int (K - 1); nkm1 = vc_int (- (K - 1))
             in if n_divmod_splits vc1 < VC_MAX_DIVMOD_SPLITS then
                  vc_add_hyp (vc1\<lparr>n_divmod_splits := n_divmod_splits vc1 + 1\<rparr>)
                    (vc_mk2 VC_OR
                      (vc_mk VC_AND [vc_mk2 VC_LE zero a, vc_mk2 VC_LE zero r, vc_mk2 VC_LE r km1])
                      (vc_mk VC_AND [vc_mk2 VC_LT a zero, vc_mk2 VC_LE nkm1 r, vc_mk2 VC_LE r zero]))
                else vc_add_hyp (vc_add_hyp vc1 (vc_mk2 VC_LE nkm1 r)) (vc_mk2 VC_LE r km1))"

end
