(* ===== verification/VCSem.thy ===== *)
theory VCSem
  imports VCTerm
begin

text \<open>
  The meaning of a verification condition, the contract the solver is held to: interpretations
  of variables and uninterpreted functions, the value of a term, entailment. Propositions have
  the values 0 and 1, so that \<open>=\<close> between propositions is their equivalence. The section on
  \<open>vc_mk\<close> shows that the folding constructor keeps the value of the node it is asked for.
\<close>

section \<open>Interpretations and values\<close>

record interp =
  i_var :: "nat \<Rightarrow> real"
  i_app :: "nat \<Rightarrow> real list \<Rightarrow> real"
  i_undef :: "vcop \<Rightarrow> real \<Rightarrow> real \<Rightarrow> real"

text \<open>An interpretation is read at the sort of the symbol: an int-sorted symbol is an integer.\<close>

definition coerce :: "vcsort \<Rightarrow> real \<Rightarrow> real" where
  "coerce s r = (case s of VS_INT \<Rightarrow> of_int \<lfloor>r\<rfloor> | VS_REAL \<Rightarrow> r | VS_BOOL \<Rightarrow> of_bool (r \<noteq> 0))"

definition arg :: "real list \<Rightarrow> nat \<Rightarrow> real" where
  "arg vs i = (if i < length vs then vs ! i else 0)"

text \<open>
  Division truncates on ints and is exact on reals; a zero divisor (and a real \<open>mod\<close>) has
  whatever value the interpretation gives it.
\<close>

definition div_sem :: "interp \<Rightarrow> vcsort \<Rightarrow> real \<Rightarrow> real \<Rightarrow> real" where
  "div_sem I s a b =
     (if b = 0 then coerce s (i_undef I VC_DIV a b)
      else if s = VS_REAL then a / b else of_int (\<lfloor>a\<rfloor> sdiv \<lfloor>b\<rfloor>))"

definition mod_sem :: "interp \<Rightarrow> vcsort \<Rightarrow> real \<Rightarrow> real \<Rightarrow> real" where
  "mod_sem I s a b =
     (if b = 0 \<or> s = VS_REAL then coerce s (i_undef I VC_MOD a b)
      else of_int (\<lfloor>a\<rfloor> smod \<lfloor>b\<rfloor>))"

definition op_sem :: "interp \<Rightarrow> vcop \<Rightarrow> vcsort \<Rightarrow> payload \<Rightarrow> real list \<Rightarrow> real" where
  "op_sem I op s p vs =
     (case op of
        VC_CONST_INT \<Rightarrow> of_int (as_int p)
      | VC_CONST_REAL \<Rightarrow> of_rat (f64_val (as_real p))
      | VC_VAR \<Rightarrow> coerce s (i_var I (as_idx p))
      | VC_APP \<Rightarrow> coerce s (i_app I (as_idx p) vs)
      | VC_ADD \<Rightarrow> arg vs 0 + arg vs 1
      | VC_SUB \<Rightarrow> arg vs 0 - arg vs 1
      | VC_MUL \<Rightarrow> arg vs 0 * arg vs 1
      | VC_DIV \<Rightarrow> div_sem I s (arg vs 0) (arg vs 1)
      | VC_MOD \<Rightarrow> mod_sem I s (arg vs 0) (arg vs 1)
      | VC_NEG \<Rightarrow> - arg vs 0
      | VC_EQ \<Rightarrow> of_bool (arg vs 0 = arg vs 1)
      | VC_LT \<Rightarrow> of_bool (arg vs 0 < arg vs 1)
      | VC_LE \<Rightarrow> of_bool (arg vs 0 \<le> arg vs 1)
      | VC_AND \<Rightarrow> of_bool (\<forall>v\<in>set vs. v \<noteq> 0)
      | VC_OR \<Rightarrow> of_bool (\<exists>v\<in>set vs. v \<noteq> 0)
      | VC_NOT \<Rightarrow> of_bool (arg vs 0 = 0)
      | VC_IMPLIES \<Rightarrow> of_bool (arg vs 0 \<noteq> 0 \<longrightarrow> arg vs 1 \<noteq> 0)
      | VC_TRUE \<Rightarrow> 1
      | VC_FALSE \<Rightarrow> 0)"

fun eval :: "interp \<Rightarrow> vcterm \<Rightarrow> real" where
  "eval I (Node op s ks p) = op_sem I op s p (map (eval I) ks)"

definition holds :: "interp \<Rightarrow> vcterm \<Rightarrow> bool" where
  "holds I t \<longleftrightarrow> eval I t \<noteq> 0"

definition holds_all :: "interp \<Rightarrow> vcterm list \<Rightarrow> bool" where
  "holds_all I ts \<longleftrightarrow> (\<forall>t\<in>set ts. holds I t)"

definition entailed :: "refinevc \<Rightarrow> bool" where
  "entailed vc \<longleftrightarrow> (\<exists>g. goal vc = Some g \<and> (\<forall>I. holds_all I (hyps vc) \<longrightarrow> holds I g))"

lemma holds_all_simps [simp]:
  "holds_all I []" "holds_all I (t # ts) \<longleftrightarrow> holds I t \<and> holds_all I ts"
  "holds_all I (ts @ us) \<longleftrightarrow> holds_all I ts \<and> holds_all I us"
  by (auto simp: holds_all_def)

lemma arg_simps [simp]:
  "arg [a] 0 = a" "arg [a, b] 0 = a" "arg [a, b] 1 = b" "arg [a, b] (Suc 0) = b"
  by (simp_all add: arg_def)

lemma eval_leaf [simp]:
  "eval I (vc_int i) = of_int i"
  "eval I (vc_bool b) = of_bool b"
  "eval I (vc_real r) = of_rat (f64_val r)"
  by (simp_all add: vc_int_def vc_bool_def vc_real_def op_sem_def)

section \<open>Well-formed terms\<close>

text \<open>
  What the builder guarantees of every node, relative to the result sorts \<open>fs\<close> of the
  uninterpreted functions: arities, sorts, and that no relation between two literals or between
  a term and itself is left unfolded.
\<close>

fun all_nodes :: "(vcterm \<Rightarrow> bool) \<Rightarrow> vcterm \<Rightarrow> bool" where
  "all_nodes P (Node op s ks p) \<longleftrightarrow> P (Node op s ks p) \<and> (\<forall>k\<in>set ks. all_nodes P k)"

lemma all_nodes_root: "all_nodes P t \<Longrightarrow> P t"
  by (cases t) simp

lemma all_nodes_kid: "all_nodes P t \<Longrightarrow> k \<in> set (t_kids t) \<Longrightarrow> all_nodes P k"
  by (cases t) auto

definition conn_kids :: "vcterm list \<Rightarrow> bool" where
  "conn_kids ks \<longleftrightarrow> (\<forall>k\<in>set ks. t_sort k = VS_BOOL)"

definition node_ok :: "(nat \<Rightarrow> vcsort) \<Rightarrow> vcterm \<Rightarrow> bool" where
  "node_ok fs t =
     (let ks = t_kids t; n = length ks; s = t_sort t in
      case t_op t of
        VC_CONST_INT \<Rightarrow> n = 0 \<and> s = VS_INT
      | VC_CONST_REAL \<Rightarrow> n = 0 \<and> s = VS_REAL
      | VC_VAR \<Rightarrow> n = 0
      | VC_APP \<Rightarrow> s = fs (as_idx (t_as t))
      | VC_NEG \<Rightarrow> n = 1 \<and> s = t_sort (ks ! 0) \<and> s \<noteq> VS_BOOL
      | VC_EQ \<Rightarrow> n = 2 \<and> s = VS_BOOL \<and> ks ! 0 \<noteq> ks ! 1
                 \<and> \<not> (is_num_lit (ks ! 0) \<and> is_num_lit (ks ! 1))
      | VC_LT \<Rightarrow> n = 2 \<and> s = VS_BOOL
      | VC_LE \<Rightarrow> n = 2 \<and> s = VS_BOOL
      | VC_AND \<Rightarrow> s = VS_BOOL \<and> conn_kids ks
      | VC_OR \<Rightarrow> s = VS_BOOL \<and> conn_kids ks
      | VC_NOT \<Rightarrow> n = 1 \<and> s = VS_BOOL \<and> conn_kids ks
      | VC_IMPLIES \<Rightarrow> n = 2 \<and> s = VS_BOOL \<and> conn_kids ks
      | VC_TRUE \<Rightarrow> n = 0 \<and> s = VS_BOOL
      | VC_FALSE \<Rightarrow> n = 0 \<and> s = VS_BOOL
      | _ \<Rightarrow> n = 2 \<and> s = arith_sort (ks ! 0) (ks ! 1))"

definition wf_term :: "(nat \<Rightarrow> vcsort) \<Rightarrow> vcterm \<Rightarrow> bool" where
  "wf_term fs t = all_nodes (node_ok fs) t"

definition wf_vc :: "refinevc \<Rightarrow> bool" where
  "wf_vc vc \<longleftrightarrow> (\<forall>h\<in>set (hyps vc). wf_term (ufunc_sort vc) h \<and> t_sort h = VS_BOOL)
     \<and> (\<forall>g. goal vc = Some g \<longrightarrow> wf_term (ufunc_sort vc) g \<and> t_sort g = VS_BOOL)"

lemma wf_term_node: "wf_term fs t \<Longrightarrow> node_ok fs t"
  by (simp add: wf_term_def all_nodes_root)

lemma wf_term_kid: "wf_term fs t \<Longrightarrow> k \<in> set (t_kids t) \<Longrightarrow> wf_term fs k"
  by (auto simp: wf_term_def intro: all_nodes_kid)

lemma length_1_conv: "length xs = Suc 0 \<longleftrightarrow> (\<exists>a. xs = [a])"
  by (cases xs) auto

lemma length_2_conv: "length xs = 2 \<longleftrightarrow> (\<exists>a b. xs = [a, b])"
  by (auto simp: numeral_2_eq_2 length_Suc_conv)

text \<open>A proposition is 0 or 1; an int-sorted term is an integer.\<close>

lemma bool_value:
  assumes "wf_term fs t" and "t_sort t = VS_BOOL"
  shows "eval I t = 0 \<or> eval I t = 1"
proof (cases t)
  case (Node op s ks p)
  with assms wf_term_node [OF assms(1)] show ?thesis
    by (cases op) (auto simp: node_ok_def op_sem_def coerce_def Let_def arith_sort_def split: if_splits)
qed

lemma int_value:
  assumes "wf_term fs t" and "t_sort t \<noteq> VS_REAL"
  shows "eval I t \<in> \<int>"
  using assms
proof (induction t)
  case (Node op s ks p)
  have ok: "node_ok fs (Node op s ks p)" using Node.prems(1) by (rule wf_term_node)
  have IH: "k \<in> set ks \<Longrightarrow> t_sort k \<noteq> VS_REAL \<Longrightarrow> eval I k \<in> \<int>" for k
    using Node.IH [of k] wf_term_kid [OF Node.prems(1), of k] by simp
  show ?case
  proof (cases "op \<in> {VC_ADD, VC_SUB, VC_MUL, VC_NEG}")
    case True
    with ok Node.prems(2) IH show ?thesis
      by (auto simp: node_ok_def op_sem_def Let_def length_1_conv length_2_conv arith_sort_def
          split: if_splits)
  next
    case False
    with ok Node.prems(2) show ?thesis
      by (cases op; cases s)
        (auto simp: node_ok_def op_sem_def Let_def div_sem_def mod_sem_def coerce_def)
  qed
qed

lemma int_value_floor:
  "wf_term fs t \<Longrightarrow> t_sort t \<noteq> VS_REAL \<Longrightarrow> of_int \<lfloor>eval I t\<rfloor> = eval I t"
  using int_value Ints_cases floor_of_int by metis

section \<open>The folding constructor keeps the value\<close>

text \<open>
  Literals are compared and folded through \<open>double\<close>: \<open>lit_exact\<close> says that the conversion keeps
  the literal's value, \<open>fold_exact\<close> that this one fold does. For int arithmetic nothing is needed
  (\<open>fold_int\<close> is overflow-checked); a relation between two int literals goes through
  \<open>num_of\<close> and needs both to be exact as doubles.
\<close>

definition lit_exact :: "vcterm \<Rightarrow> bool" where
  "lit_exact t \<longleftrightarrow>
     (if is_int_lit t then num_of t = Fin (of_int (as_int (t_as t)))
      else \<exists>q. as_real (t_as t) = Fin q)"

definition lit_rat :: "vcterm \<Rightarrow> rat" where
  "lit_rat t = (if is_int_lit t then of_int (as_int (t_as t)) else f64_val (as_real (t_as t)))"

definition arith_rat :: "vcop \<Rightarrow> rat \<Rightarrow> rat \<Rightarrow> rat" where
  "arith_rat op x y =
     (case op of VC_ADD \<Rightarrow> x + y | VC_SUB \<Rightarrow> x - y | VC_MUL \<Rightarrow> x * y | _ \<Rightarrow> x / y)"

definition fold_exact :: "vcop \<Rightarrow> vcterm list \<Rightarrow> bool" where
  "fold_exact op ks =
     (if op \<in> {VC_EQ, VC_LT, VC_LE} then
        is_num_lit (ks ! 0) \<and> is_num_lit (ks ! 1) \<longrightarrow> lit_exact (ks ! 0) \<and> lit_exact (ks ! 1)
      else if op \<in> {VC_ADD, VC_SUB, VC_MUL, VC_DIV} then
        is_num_lit (ks ! 0) \<and> is_num_lit (ks ! 1) \<and> \<not> (is_int_lit (ks ! 0) \<and> is_int_lit (ks ! 1))
          \<longrightarrow> lit_exact (ks ! 0) \<and> lit_exact (ks ! 1) \<and>
              (\<forall>r. fold_real op (num_of (ks ! 0)) (num_of (ks ! 1)) = Some r
                 \<longrightarrow> r = Fin (arith_rat op (lit_rat (ks ! 0)) (lit_rat (ks ! 1))))
      else if op = VC_NEG then is_real_lit (ks ! 0) \<longrightarrow> lit_exact (ks ! 0)
      else True)"

definition mk_sort :: "vcop \<Rightarrow> vcterm list \<Rightarrow> vcsort" where
  "mk_sort op ks =
     (if op \<in> {VC_ADD, VC_SUB, VC_MUL, VC_DIV, VC_MOD} then arith_sort (ks ! 0) (ks ! 1)
      else if op = VC_NEG then t_sort (ks ! 0) else VS_BOOL)"

definition mk_args_ok :: "(nat \<Rightarrow> vcsort) \<Rightarrow> vcop \<Rightarrow> vcterm list \<Rightarrow> bool" where
  "mk_args_ok fs op ks \<longleftrightarrow>
     (\<forall>k\<in>set ks. wf_term fs k) \<and>
     (if op \<in> {VC_ADD, VC_SUB, VC_MUL, VC_DIV, VC_MOD, VC_EQ, VC_LT, VC_LE} then length ks = 2
      else if op = VC_NEG then length ks = 1 \<and> t_sort (ks ! 0) \<noteq> VS_BOOL
      else if op = VC_NOT then length ks = 1 \<and> conn_kids ks
      else if op = VC_IMPLIES then length ks = 2 \<and> conn_kids ks
      else if op \<in> {VC_AND, VC_OR} then conn_kids ks
      else op \<in> {VC_TRUE, VC_FALSE} \<and> ks = [])"

lemma num_lit_eval:
  "is_num_lit t \<Longrightarrow> wf_term fs t \<Longrightarrow> eval I t = of_rat (lit_rat t)"
  by (cases t) (auto simp: is_num_lit_def is_int_lit_def is_real_lit_def lit_rat_def op_sem_def)

lemma int_lit_eval: "is_int_lit t \<Longrightarrow> eval I t = of_int (as_int (t_as t))"
  by (cases t) (auto simp: is_int_lit_def op_sem_def)

lemma lit_exact_num_of:
  "is_num_lit t \<Longrightarrow> lit_exact t \<Longrightarrow> num_of t = Fin (lit_rat t)"
  by (auto simp: is_num_lit_def lit_exact_def lit_rat_def num_of_def split: if_splits)

lemma fold_int_eval:
  assumes "fold_int op x y = Some r" and "op \<in> {VC_ADD, VC_SUB, VC_MUL, VC_DIV, VC_MOD}"
    and "s = VS_INT"
  shows "op_sem I op s p [of_int x, of_int y] = of_int r"
  using assms
  by (auto simp: fold_int_def op_sem_def div_sem_def mod_sem_def split: if_splits)

lemma mk_unit_arith_eval:
  assumes "op \<in> {VC_ADD, VC_SUB, VC_MUL, VC_DIV, VC_MOD}" and "wf_term fs a" and "wf_term fs b"
  shows "eval I (mk_unit_arith op a b) = op_sem I op (arith_sort a b) PNone [eval I a, eval I b]"
proof -
  have lit: "is_lit_val t v \<Longrightarrow> eval I t = of_int v" for t v
    by (auto simp: is_lit_val_def int_lit_eval)
  have div: "t_sort a \<noteq> VS_REAL \<Longrightarrow> real_of_int (\<lfloor>eval I a\<rfloor> sdiv 1) = eval I a"
    using int_value_floor [OF assms(2)] by simp
  show ?thesis
    using assms(1) div lit [of a 0] lit [of b 0] lit [of a 1] lit [of b 1]
    by (auto simp: mk_unit_arith_def op_sem_def div_sem_def arith_sort_def is_lit_val_def is_int_lit_def
        split: if_splits)
qed

lemma vc_mk_arith_eval:
  assumes op: "op \<in> {VC_ADD, VC_SUB, VC_MUL, VC_DIV, VC_MOD}"
    and wf: "wf_term fs a" "wf_term fs b" and ex: "fold_exact op [a, b]"
  shows "eval I (vc_mk_arith op a b) = op_sem I op (arith_sort a b) PNone [eval I a, eval I b]"
proof -
  note unit = mk_unit_arith_eval [OF op wf, of I]
  consider (ints) "is_int_lit a \<and> is_int_lit b"
    | (reals) "is_num_lit a \<and> is_num_lit b \<and> \<not> (is_int_lit a \<and> is_int_lit b) \<and> op \<noteq> VC_MOD"
    | (other) "\<not> (is_int_lit a \<and> is_int_lit b) \<and> \<not> (is_num_lit a \<and> is_num_lit b \<and> op \<noteq> VC_MOD)"
    by blast
  then show ?thesis
  proof cases
    case ints
    then have s: "arith_sort a b = VS_INT"
      using wf [THEN wf_term_node] by (auto simp: node_ok_def is_int_lit_def arith_sort_def)
    show ?thesis
      using ints unit fold_int_eval [OF _ op s]
      by (auto simp: vc_mk_arith_def int_lit_eval split: option.split)
  next
    case reals
    then have e: "lit_exact a" "lit_exact b"
      and r: "\<And>r. fold_real op (num_of a) (num_of b) = Some r \<Longrightarrow> r = Fin (arith_rat op (lit_rat a) (lit_rat b))"
      using ex op by (auto simp: fold_exact_def)
    have s: "arith_sort a b = VS_REAL"
      using reals wf [THEN wf_term_node]
      by (auto simp: node_ok_def is_num_lit_def is_int_lit_def is_real_lit_def arith_sort_def)
    have v: "eval I a = of_rat (lit_rat a)" "eval I b = of_rat (lit_rat b)"
      using reals num_lit_eval wf by blast+
    show ?thesis
    proof (cases "fold_real op (num_of a) (num_of b)")
      case None
      with reals unit show ?thesis by (auto simp: vc_mk_arith_def)
    next
      case (Some x)
      have "lit_rat b \<noteq> 0" if "op = VC_DIV"
        using Some that lit_exact_num_of [of b] reals e by (auto simp: fold_real_def split: if_splits)
      with Some r [OF Some] reals op s v show ?thesis
        by (auto simp: vc_mk_arith_def op_sem_def div_sem_def arith_rat_def of_rat_add of_rat_diff
            of_rat_mult of_rat_divide of_rat_minus)
    qed
  next
    case other
    with unit show ?thesis by (auto simp: vc_mk_arith_def)
  qed
qed

lemma f64_rel_Fin [simp]:
  "f64_eq (Fin x) (Fin y) \<longleftrightarrow> x = y" "f64_lt (Fin x) (Fin y) \<longleftrightarrow> x < y"
  "f64_le (Fin x) (Fin y) \<longleftrightarrow> x \<le> y"
  by (auto simp: f64_le_def)

lemma vc_mk_rel_eval:
  assumes op: "op \<in> {VC_EQ, VC_LT, VC_LE}" and wf: "wf_term fs a" "wf_term fs b"
    and ex: "fold_exact op [a, b]"
  shows "eval I (vc_mk_rel op a b) = op_sem I op VS_BOOL PNone [eval I a, eval I b]"
proof (cases "a = b")
  case True
  with op show ?thesis by (auto simp: vc_mk_rel_def op_sem_def)
next
  case neq: False
  show ?thesis
  proof (cases "is_num_lit a \<and> is_num_lit b")
    case True
    then have "num_of a = Fin (lit_rat a)" "num_of b = Fin (lit_rat b)"
      using ex op by (auto simp: fold_exact_def lit_exact_num_of)
    moreover have "eval I a = of_rat (lit_rat a)" "eval I b = of_rat (lit_rat b)"
      using True num_lit_eval wf by blast+
    ultimately show ?thesis
      using op neq True by (auto simp: vc_mk_rel_def op_sem_def of_rat_less of_rat_less_eq)
  next
    case False
    with neq op show ?thesis by (auto simp: vc_mk_rel_def)
  qed
qed

lemma vc_mk_not_eval:
  assumes "wf_term fs a" and "t_sort a = VS_BOOL"
  shows "eval I (vc_mk_not a) = of_bool (eval I a = 0)"
proof (cases a)
  case (Node op s ks p)
  show ?thesis
  proof (cases "op = VC_NOT")
    case True
    then obtain b where ks: "ks = [b]"
      using wf_term_node [OF assms(1)] Node by (auto simp: node_ok_def length_1_conv)
    have "t_sort b = VS_BOOL" using wf_term_node [OF assms(1)] Node True ks
      by (simp add: node_ok_def conn_kids_def)
    moreover have "wf_term fs b" using wf_term_kid [OF assms(1), of b] Node ks by simp
    ultimately have "eval I b = 0 \<or> eval I b = 1" using bool_value by blast
    with Node True ks show ?thesis by (auto simp: vc_mk_not_def kid_def op_sem_def)
  next
    case False
    with Node show ?thesis by (auto simp: vc_mk_not_def op_sem_def)
  qed
qed

section \<open>Conjunction and disjunction\<close>

definition conn_sem :: "vcop \<Rightarrow> interp \<Rightarrow> vcterm list \<Rightarrow> bool" where
  "conn_sem op I ks = (if op = VC_AND then \<forall>k\<in>set ks. holds I k else \<exists>k\<in>set ks. holds I k)"

lemma holds_vc_bool [simp]: "holds I (vc_bool b) = b"
  by (simp add: holds_def)

lemma holds_conn [simp]:
  "holds I (Node VC_AND s ks p) \<longleftrightarrow> (\<forall>k\<in>set ks. holds I k)"
  "holds I (Node VC_OR s ks p) \<longleftrightarrow> (\<exists>k\<in>set ks. holds I k)"
  "holds I (Node VC_TRUE s ks p)" "\<not> holds I (Node VC_FALSE s ks p)"
  "holds I (Node VC_NOT s [t] p) \<longleftrightarrow> \<not> holds I t"
  by (auto simp: holds_def op_sem_def)

lemma holds_TRUE: "t_op t = VC_TRUE \<Longrightarrow> holds I t" and holds_FALSE: "t_op t = VC_FALSE \<Longrightarrow> \<not> holds I t"
  by (cases t; simp)+

lemma conn_sem_simps:
  "conn_sem VC_AND I ks \<longleftrightarrow> (\<forall>k\<in>set ks. holds I k)"
  "conn_sem VC_OR I ks \<longleftrightarrow> (\<exists>k\<in>set ks. holds I k)"
  by (simp_all add: conn_sem_def)

lemma flat_kid_sem:
  "op \<in> {VC_AND, VC_OR} \<Longrightarrow> conn_sem op I (if t_op k = op then t_kids k else [k]) = holds I k"
  by (cases k) (elim insertE emptyE; simp add: conn_sem_simps)

lemma flat_kids_sem:
  assumes "op \<in> {VC_AND, VC_OR}"
  shows "conn_sem op I (flat_kids op ks) = conn_sem op I ks"
proof (induction ks)
  case Nil
  show ?case by (simp add: flat_kids_def)
next
  case (Cons k ks)
  have app: "conn_sem op I (xs @ ys) = (if op = VC_AND then conn_sem op I xs \<and> conn_sem op I ys
      else conn_sem op I xs \<or> conn_sem op I ys)" for xs ys
    by (auto simp: conn_sem_def)
  have "flat_kids op (k # ks) = (if t_op k = op then t_kids k else [k]) @ flat_kids op ks"
    by (simp add: flat_kids_def)
  then have "conn_sem op I (flat_kids op (k # ks)) =
      (if op = VC_AND then holds I k \<and> conn_sem op I ks else holds I k \<or> conn_sem op I ks)"
    by (simp only: app flat_kid_sem [OF assms, of I k] Cons.IH)
  then show ?case by (simp add: conn_sem_def)
qed

lemma andor_loop_and:
  "case andor_loop VC_TRUE VC_FALSE acc xs of
     None \<Rightarrow> \<not> conn_sem VC_AND I (acc @ xs)
   | Some r \<Rightarrow> conn_sem VC_AND I r = conn_sem VC_AND I (acc @ xs)"
proof (induction xs arbitrary: acc)
  case (Cons x xs)
  have "t_op x = VC_FALSE \<Longrightarrow> \<not> holds I x" "t_op x = VC_TRUE \<Longrightarrow> holds I x"
    by (simp_all add: holds_TRUE holds_FALSE)
  with Cons.IH [of acc] Cons.IH [of "acc @ [x]"] show ?case
    by (auto simp: conn_sem_simps split: option.splits)
qed simp

lemma andor_loop_or:
  "case andor_loop VC_FALSE VC_TRUE acc xs of
     None \<Rightarrow> conn_sem VC_OR I (acc @ xs)
   | Some r \<Rightarrow> conn_sem VC_OR I r = conn_sem VC_OR I (acc @ xs)"
proof (induction xs arbitrary: acc)
  case (Cons x xs)
  have "t_op x = VC_FALSE \<Longrightarrow> \<not> holds I x" "t_op x = VC_TRUE \<Longrightarrow> holds I x"
    by (simp_all add: holds_TRUE holds_FALSE)
  with Cons.IH [of acc] Cons.IH [of "acc @ [x]"] show ?case
    by (auto simp: conn_sem_simps split: option.splits)
qed simp

lemma andor_loop_set:
  "andor_loop u z acc xs = Some r \<Longrightarrow> set r \<subseteq> set acc \<union> set xs"
  by (induction u z acc xs rule: andor_loop.induct) (auto split: if_splits)

lemma conn_sem_single [simp]: "conn_sem op I [k] = holds I k"
  by (simp add: conn_sem_def)

lemma vc_mk_andor_holds:
  assumes "op \<in> {VC_AND, VC_OR}"
  shows "holds I (vc_mk_andor op ks) = conn_sem op I ks"
proof -
  note f = flat_kids_sem [OF assms, of I ks]
  consider "op = VC_AND" | "op = VC_OR" using assms by auto
  then show ?thesis
  proof cases
    case 1
    then show ?thesis
      using andor_loop_and [where acc = "[]" and xs = "flat_kids op ks" and I = I] f
      by (auto simp: vc_mk_andor_def conn_sem_simps split: option.splits list.splits)
  next
    case 2
    then show ?thesis
      using andor_loop_or [where acc = "[]" and xs = "flat_kids op ks" and I = I] f
      by (auto simp: vc_mk_andor_def conn_sem_simps split: option.splits list.splits)
  qed
qed

lemma flat_kids_wf:
  "\<forall>k\<in>set ks. wf_term fs k \<Longrightarrow> \<forall>k\<in>set (flat_kids op ks). wf_term fs k"
  by (auto simp: flat_kids_def wf_term_kid split: if_splits)

lemma flat_kids_conn:
  assumes "\<forall>k\<in>set ks. wf_term fs k" and "conn_kids ks" and "op \<in> {VC_AND, VC_OR}"
  shows "conn_kids (flat_kids op ks)"
proof -
  have "conn_kids (t_kids k)" if "k \<in> set ks" "t_op k = op" for k
    using wf_term_node [of fs k] assms that by (auto simp: node_ok_def Let_def)
  with assms(2) show ?thesis by (auto simp: flat_kids_def conn_kids_def split: if_splits)
qed

lemma vc_mk_andor_wf:
  assumes "\<forall>k\<in>set ks. wf_term fs k" and "conn_kids ks" and "op \<in> {VC_AND, VC_OR}"
  shows "wf_term fs (vc_mk_andor op ks) \<and> t_sort (vc_mk_andor op ks) = VS_BOOL"
proof -
  note w = flat_kids_wf [OF assms(1), of op] and c = flat_kids_conn [OF assms]
  have b: "wf_term fs (vc_bool x) \<and> t_sort (vc_bool x) = VS_BOOL" for x
    by (simp add: vc_bool_def wf_term_def node_ok_def)
  show ?thesis
  proof (cases "andor_loop (if op = VC_AND then VC_TRUE else VC_FALSE)
                  (if op = VC_AND then VC_FALSE else VC_TRUE) [] (flat_kids op ks)")
    case None
    with b show ?thesis by (simp add: vc_mk_andor_def)
  next
    case (Some r)
    have r: "\<forall>k\<in>set r. wf_term fs k" "conn_kids r"
      using andor_loop_set [OF Some] w c by (auto simp: conn_kids_def)
    then have "wf_term fs (Node op VS_BOOL r PNone)"
      using assms(3) by (auto simp: wf_term_def node_ok_def)
    with Some r b show ?thesis
      by (auto simp: vc_mk_andor_def conn_kids_def split: list.split)
  qed
qed

lemma vc_mk_andor_eval:
  assumes "\<forall>k\<in>set ks. wf_term fs k" and "conn_kids ks" and "op \<in> {VC_AND, VC_OR}"
  shows "eval I (vc_mk_andor op ks) = op_sem I op VS_BOOL PNone (map (eval I) ks)"
proof -
  have "eval I (vc_mk_andor op ks) = of_bool (holds I (vc_mk_andor op ks))"
    using vc_mk_andor_wf [OF assms] bool_value [of fs "vc_mk_andor op ks" I] by (auto simp: holds_def)
  also have "\<dots> = of_bool (conn_sem op I ks)"
    by (simp only: vc_mk_andor_holds [OF assms(3)])
  also have "\<dots> = op_sem I op VS_BOOL PNone (map (eval I) ks)"
  proof (cases "op = VC_AND")
    case True
    then show ?thesis by (simp add: conn_sem_simps op_sem_def holds_def)
  next
    case False
    then have "op = VC_OR" using assms(3) by simp
    then show ?thesis by (simp add: conn_sem_simps op_sem_def holds_def)
  qed
  finally show ?thesis .
qed

lemma vc_mk_not_wf:
  assumes "wf_term fs a" and "t_sort a = VS_BOOL"
  shows "wf_term fs (vc_mk_not a) \<and> t_sort (vc_mk_not a) = VS_BOOL"
proof -
  have "t_op a = VC_NOT \<Longrightarrow> kid a 0 \<in> set (t_kids a) \<and> t_sort (kid a 0) = VS_BOOL"
    using wf_term_node [OF assms(1)] by (auto simp: node_ok_def Let_def kid_def length_1_conv conn_kids_def)
  with assms wf_term_kid [OF assms(1), of "kid a 0"] show ?thesis
    by (auto simp: vc_mk_not_def vc_bool_def wf_term_def node_ok_def conn_kids_def)
qed

text \<open>The value of every node the builder returns is the value of the node asked for.\<close>

lemma vc_mk_value:
  assumes "mk_args_ok fs op ks" and "fold_exact op ks"
  shows "eval I (vc_mk op ks) = op_sem I op (mk_sort op ks) PNone (map (eval I) ks)"
proof -
  consider (arith) "op \<in> {VC_ADD, VC_SUB, VC_MUL, VC_DIV, VC_MOD}" | (rel) "op \<in> {VC_EQ, VC_LT, VC_LE}"
    | (neg) "op = VC_NEG" | (conn) "op \<in> {VC_AND, VC_OR}" | (nt) "op = VC_NOT"
    | (imp) "op = VC_IMPLIES" | (const) "op \<in> {VC_TRUE, VC_FALSE} \<and> ks = []"
    using assms(1) by (cases op) (auto simp: mk_args_ok_def)
  then show ?thesis
  proof cases
    case arith
    with assms obtain a b where ks: "ks = [a, b]" and wf: "wf_term fs a" "wf_term fs b"
      by (auto simp: mk_args_ok_def length_2_conv)
    have m: "vc_mk op ks = vc_mk_arith op a b" using arith ks by (auto simp: vc_mk_def)
    have s: "mk_sort op ks = arith_sort a b" using arith ks by (auto simp: mk_sort_def)
    show ?thesis using vc_mk_arith_eval [OF arith wf, of I] assms(2) ks m s by simp
  next
    case rel
    with assms obtain a b where ks: "ks = [a, b]" and wf: "wf_term fs a" "wf_term fs b"
      by (auto simp: mk_args_ok_def length_2_conv)
    have m: "vc_mk op ks = vc_mk_rel op a b" using rel ks by (auto simp: vc_mk_def)
    have s: "mk_sort op ks = VS_BOOL" using rel ks by (auto simp: mk_sort_def)
    show ?thesis using vc_mk_rel_eval [OF rel wf, of I] assms(2) ks m s by simp
  next
    case neg
    with assms obtain a where ks: "ks = [a]" and wf: "wf_term fs a"
      by (auto simp: mk_args_ok_def length_1_conv)
    have "is_real_lit a \<Longrightarrow> \<exists>q. as_real (t_as a) = Fin q"
      using assms(2) neg ks by (auto simp: fold_exact_def lit_exact_def is_int_lit_def is_real_lit_def)
    moreover have "is_real_lit a \<Longrightarrow> eval I a = of_rat (f64_val (as_real (t_as a)))"
      by (cases a) (simp add: is_real_lit_def op_sem_def)
    ultimately show ?thesis
      using neg ks by (auto simp: vc_mk_def vc_mk_neg_def op_sem_def int_lit_eval of_rat_minus
          split: option.split)
  next
    case conn
    with assms(1) have "\<forall>k\<in>set ks. wf_term fs k" "conn_kids ks" by (auto simp: mk_args_ok_def)
    with conn vc_mk_andor_eval [of ks fs op I] show ?thesis by (auto simp: vc_mk_def mk_sort_def)
  next
    case nt
    with assms obtain a where ks: "ks = [a]" and wf: "wf_term fs a" "t_sort a = VS_BOOL"
      by (auto simp: mk_args_ok_def length_1_conv conn_kids_def)
    with nt vc_mk_not_eval [OF wf, of I] show ?thesis by (simp add: vc_mk_def op_sem_def)
  next
    case imp
    with assms obtain a b where ks: "ks = [a, b]" and wf: "wf_term fs a" "wf_term fs b"
      and s: "t_sort a = VS_BOOL" "t_sort b = VS_BOOL"
      by (auto simp: mk_args_ok_def length_2_conv conn_kids_def)
    have n: "wf_term fs (vc_mk_not a)" "t_sort (vc_mk_not a) = VS_BOOL"
      using vc_mk_not_wf [OF wf(1) s(1)] by auto
    have "eval I (vc_mk op ks) = op_sem I VC_OR VS_BOOL PNone [eval I (vc_mk_not a), eval I b]"
      using imp ks wf n s vc_mk_andor_eval [of "[vc_mk_not a, b]" fs VC_OR I]
      by (simp add: vc_mk_def conn_kids_def)
    with vc_mk_not_eval [OF wf(1) s(1), of I] imp ks show ?thesis
      by (auto simp: op_sem_def)
  next
    case const
    then show ?thesis by (auto simp: vc_mk_def op_sem_def)
  qed
qed

end
