(* ===== verification/Cubes.thy ===== *)
theory Cubes
  imports VCSem
begin

text \<open>
  The refutation front end shared by every stage (\<open>src/compiler/refine_solver.c\<close>): to prove
  \<open>hyps |= goal\<close>, the formula \<open>hyps AND (not goal)\<close> is put in negation normal form and
  expanded to a small disjunctive normal form, a set of cubes. Every cap answers "overflow".
  The recursion depth the C counts in \<open>acc->depth\<close> (restored on every exit) is the fuel here.
\<close>

definition REFINE_MAX_CUBES :: nat where "REFINE_MAX_CUBES = 64"
definition REFINE_MAX_CUBE_LITS :: nat where "REFINE_MAX_CUBE_LITS = 64"
definition REFINE_MAX_EXPAND_DEPTH :: nat where "REFINE_MAX_EXPAND_DEPTH = 256"

section \<open>Negation normal form\<close>

definition nnf_leaf :: "vcterm \<Rightarrow> bool \<Rightarrow> vcterm" where
  "nnf_leaf t neg =
     (if neg \<and> t_op t = VC_EQ \<and> length (t_kids t) = 2
         \<and> vc_is_arith (kid t 0) \<and> vc_is_arith (kid t 1) then
        vc_mk2 VC_AND (vc_not t)
          (vc_mk2 VC_OR (vc_mk2 VC_LT (kid t 0) (kid t 1)) (vc_mk2 VC_LT (kid t 1) (kid t 0)))
      else if neg then vc_not t else t)"

definition dual :: "vcop \<Rightarrow> vcop" where
  "dual op = (if op = VC_AND then VC_OR else VC_AND)"

fun nnf :: "vcterm \<Rightarrow> bool \<Rightarrow> vcterm" where
  "nnf (Node VC_NOT s [k] p) neg = nnf k (\<not> neg)"
| "nnf (Node op s ks p) neg =
     (if op = VC_AND \<or> op = VC_OR then
        vc_mk (if neg then dual op else op) (map (\<lambda>k. nnf k neg) ks)
      else nnf_leaf (Node op s ks p) neg)"

section \<open>Cube expansion\<close>

type_synonym cube = "vcterm list"

record cubeacc =
  acc_cubes :: "cube list"
  acc_overflow :: bool

definition acc_push :: "cubeacc \<Rightarrow> cube \<Rightarrow> cubeacc" where
  "acc_push acc lits =
     (if acc_overflow acc then acc
      else if REFINE_MAX_CUBES \<le> length (acc_cubes acc) then acc\<lparr>acc_overflow := True\<rparr>
      else acc\<lparr>acc_cubes := acc_cubes acc @ [lits]\<rparr>)"

text \<open>The last step of an expansion: no conjunction and no disjunction is pending any more.\<close>

definition collect_cube :: "vcterm list \<Rightarrow> cube \<Rightarrow> cubeacc \<Rightarrow> cubeacc" where
  "collect_cube pending cj acc =
     (if REFINE_MAX_CUBE_LITS < length cj + length pending then acc\<lparr>acc_overflow := True\<rparr>
      else if \<exists>x\<in>set pending. t_op x = VC_AND \<or> t_op x = VC_OR then acc\<lparr>acc_overflow := True\<rparr>
      else if \<exists>x\<in>set pending. t_op x = VC_FALSE then acc
      else acc_push acc (cj @ filter (\<lambda>x. t_op x \<noteq> VC_TRUE) pending))"

fun expand :: "nat \<Rightarrow> vcterm list \<Rightarrow> cube \<Rightarrow> cubeacc \<Rightarrow> cubeacc" where
  "expand 0 pending cj acc = acc\<lparr>acc_overflow := True\<rparr>"
| "expand (Suc fuel) pending cj acc =
     (if acc_overflow acc then acc
      else
        case split_first (\<lambda>t. t_op t = VC_AND) pending of
          Some (pre, t, post) \<Rightarrow>
            (if REFINE_MAX_CUBE_LITS * 4 < length pending - 1 + length (t_kids t)
             then acc\<lparr>acc_overflow := True\<rparr>
             else expand fuel (pre @ t_kids t @ post) cj acc)
        | None \<Rightarrow>
            (case split_first (\<lambda>t. t_op t = VC_OR) pending of
               Some (pre, t, post) \<Rightarrow>
                 fold (\<lambda>k a. if acc_overflow a then a else expand fuel (pre @ post @ [k]) cj a)
                   (t_kids t) acc
             | None \<Rightarrow> collect_cube pending cj acc))"

record vccubeset =
  cs_cubes :: "cube list"
  cs_overflow :: bool
  cs_trivial :: bool

definition refine_cubes_build :: "refinevc \<Rightarrow> bool \<times> vccubeset" where
  "refine_cubes_build vc =
     (case goal vc of
        None \<Rightarrow> (False, \<lparr>cs_cubes = [], cs_overflow = True, cs_trivial = False\<rparr>)
      | Some g \<Rightarrow>
          let parts = map (\<lambda>h. nnf h False) (hyps vc) @ [nnf g True]
          in if \<exists>t\<in>set parts. t_op t = VC_FALSE
             then (True, \<lparr>cs_cubes = [], cs_overflow = False, cs_trivial = True\<rparr>)
             else
               let acc = expand REFINE_MAX_EXPAND_DEPTH parts []
                           \<lparr>acc_cubes = [], acc_overflow = False\<rparr>
               in if acc_overflow acc
                  then (False, \<lparr>cs_cubes = [], cs_overflow = True, cs_trivial = False\<rparr>)
                  else (True, \<lparr>cs_cubes = acc_cubes acc, cs_overflow = False, cs_trivial = False\<rparr>))"

text \<open>One chain run's cube set, built on the first ask.\<close>

record cubecache =
  cc_tried :: bool
  cc_ok :: bool
  cc_set :: vccubeset

definition cc_empty :: cubecache where
  "cc_empty = \<lparr>cc_tried = False, cc_ok = False,
               cc_set = \<lparr>cs_cubes = [], cs_overflow = False, cs_trivial = False\<rparr>\<rparr>"

definition refine_cubes_get :: "refinevc \<Rightarrow> cubecache \<Rightarrow> bool \<times> vccubeset \<times> cubecache" where
  "refine_cubes_get vc cc =
     (let cc1 = (if cc_tried cc then cc
                 else let (ok, cs) = refine_cubes_build vc
                      in \<lparr>cc_tried = True, cc_ok = ok, cc_set = cs\<rparr>)
      in (cc_ok cc1, cc_set cc1, cc1))"

text \<open>Literals: an atom, or the negation of one.\<close>

definition refine_lit_is_neg :: "vcterm \<Rightarrow> bool" where
  "refine_lit_is_neg l \<longleftrightarrow> t_op l = VC_NOT"

definition refine_lit_atom :: "vcterm \<Rightarrow> vcterm" where
  "refine_lit_atom l = (if refine_lit_is_neg l then kid l 0 else l)"

section \<open>Negation normal form keeps the meaning\<close>

lemma holds_not: "wf_term fs t \<Longrightarrow> holds I (vc_not t) = (\<not> holds I t)"
  if "t_sort t = VS_BOOL" for t
  using vc_mk_not_eval [of fs t I] that by (simp add: vc_not_def vc_mk1_def vc_mk_def holds_def)

lemma vc_not_wf:
  "wf_term fs t \<Longrightarrow> t_sort t = VS_BOOL \<Longrightarrow> wf_term fs (vc_not t) \<and> t_sort (vc_not t) = VS_BOOL"
  using vc_mk_not_wf [of fs t] by (simp add: vc_not_def vc_mk1_def vc_mk_def)

text \<open>The order atoms a disequality is split into are never folded: its sides are not both literals.\<close>

lemma vc_mk_lt_plain:
  assumes "a \<noteq> b" and "\<not> (is_num_lit a \<and> is_num_lit b)"
  shows "vc_mk2 VC_LT a b = Node VC_LT VS_BOOL [a, b] PNone"
  using assms by (auto simp: vc_mk2_def vc_mk_def vc_mk_rel_def)

lemma nnf_leaf_ok:
  assumes wf: "wf_term fs t" and s: "t_sort t = VS_BOOL"
  shows "holds I (nnf_leaf t neg) = (if neg then \<not> holds I t else holds I t)
       \<and> wf_term fs (nnf_leaf t neg) \<and> t_sort (nnf_leaf t neg) = VS_BOOL"
proof (cases "neg \<and> t_op t = VC_EQ \<and> length (t_kids t) = 2
         \<and> vc_is_arith (kid t 0) \<and> vc_is_arith (kid t 1)")
  case False
  then show ?thesis
    using holds_not [OF s wf, of I] vc_not_wf [OF wf s] wf s by (auto simp: nnf_leaf_def)
next
  case True
  then obtain a b where k: "t_kids t = [a, b]" by (auto simp: length_2_conv)
  have t: "t = Node VC_EQ VS_BOOL [a, b] (t_as t)"
    using True k s by (cases t) simp
  have ab: "a \<noteq> b" "\<not> (is_num_lit a \<and> is_num_lit b)"
    using wf_term_node [OF wf] True k by (auto simp: node_ok_def)
  have w: "wf_term fs a" "wf_term fs b"
    using wf_term_kid [OF wf] k by auto
  let ?lt = "Node VC_LT VS_BOOL [a, b] PNone" and ?gt = "Node VC_LT VS_BOOL [b, a] PNone"
  have l: "wf_term fs ?lt" "wf_term fs ?gt"
    using w by (auto simp: wf_term_def node_ok_def)
  define d where "d = vc_mk_andor VC_OR [?lt, ?gt]"
  have d: "wf_term fs d \<and> t_sort d = VS_BOOL"
    unfolding d_def using l by (intro vc_mk_andor_wf) (auto simp: conn_kids_def)
  have "holds I d = (holds I ?lt \<or> holds I ?gt)"
    unfolding d_def by (simp add: vc_mk_andor_holds conn_sem_simps)
  then have dh: "holds I d = (eval I a < eval I b \<or> eval I b < eval I a)"
    by (simp add: holds_def op_sem_def)
  have n: "nnf_leaf t neg = vc_mk_andor VC_AND [vc_not t, d]"
    using True k ab vc_mk_lt_plain [of a b] vc_mk_lt_plain [of b a]
    by (auto simp: nnf_leaf_def d_def kid_def vc_mk2_def [of VC_AND] vc_mk2_def [of VC_OR] vc_mk_def)
  have th: "holds I t = (eval I a = eval I b)"
    by (subst t) (simp add: holds_def op_sem_def)
  have "holds I (nnf_leaf t neg) = (\<not> holds I t)"
    using n dh holds_not [OF s wf, of I] th by (auto simp: vc_mk_andor_holds conn_sem_simps)
  moreover have "wf_term fs (nnf_leaf t neg) \<and> t_sort (nnf_leaf t neg) = VS_BOOL"
    unfolding n using d vc_not_wf [OF wf s] by (intro vc_mk_andor_wf) (auto simp: conn_kids_def)
  ultimately show ?thesis using True by simp
qed

lemma nnf_ok:
  assumes "wf_term fs t" and "t_sort t = VS_BOOL"
  shows "holds I (nnf t neg) = (if neg then \<not> holds I t else holds I t)
       \<and> wf_term fs (nnf t neg) \<and> t_sort (nnf t neg) = VS_BOOL"
  using assms
proof (induction t arbitrary: neg)
  case (Node op s ks p)
  note ok = wf_term_node [OF Node.prems(1)]
  have kid: "k \<in> set ks \<Longrightarrow> wf_term fs k" for k
    using wf_term_kid [OF Node.prems(1), of k] by simp
  consider (nt) k where "op = VC_NOT" "ks = [k]" | (conn) "op \<in> {VC_AND, VC_OR}"
    | (leaf) "op \<noteq> VC_NOT" "op \<notin> {VC_AND, VC_OR}"
    using ok by (cases op) (auto simp: node_ok_def length_1_conv)
  then show ?case
  proof cases
    case nt
    then have "t_sort k = VS_BOOL" using ok by (simp add: node_ok_def conn_kids_def)
    with nt Node.IH [of k "\<not> neg"] kid [of k] show ?thesis by simp
  next
    case conn
    let ?op = "if neg then dual op else op" and ?ks = "map (\<lambda>k. nnf k neg) ks"
    have c: "conn_kids ks" using ok conn by (auto simp: node_ok_def)
    have IH: "holds I (nnf k neg) = (if neg then \<not> holds I k else holds I k)"
        "wf_term fs (nnf k neg)" "t_sort (nnf k neg) = VS_BOOL" if "k \<in> set ks" for k
      using Node.IH [OF that kid [OF that]] c that by (auto simp: conn_kids_def)
    have o: "?op \<in> {VC_AND, VC_OR}" using conn by (auto simp: dual_def)
    have n: "nnf (Node op s ks p) neg = vc_mk_andor ?op ?ks"
      using conn by (auto simp: vc_mk_def dual_def)
    have "wf_term fs (vc_mk_andor ?op ?ks) \<and> t_sort (vc_mk_andor ?op ?ks) = VS_BOOL"
      using IH o by (intro vc_mk_andor_wf) (auto simp: conn_kids_def)
    moreover have "holds I (vc_mk_andor ?op ?ks) =
        (if neg then \<not> holds I (Node op s ks p) else holds I (Node op s ks p))"
      using vc_mk_andor_holds [OF o, of I ?ks] IH(1) conn
      by (auto simp: conn_sem_def dual_def)
    ultimately show ?thesis unfolding n by blast
  next
    case leaf
    then have "nnf (Node op s ks p) neg = nnf_leaf (Node op s ks p) neg"
      by (cases op) auto
    with nnf_leaf_ok [OF Node.prems, of I neg] show ?thesis by simp
  qed
qed

section \<open>The cubes are the formula\<close>

definition cubes_hold :: "interp \<Rightarrow> cube list \<Rightarrow> bool" where
  "cubes_hold I cs \<longleftrightarrow> (\<exists>c\<in>set cs. holds_all I c)"

lemma cubes_hold_append [simp]:
  "cubes_hold I (cs @ ds) = (cubes_hold I cs \<or> cubes_hold I ds)" "\<not> cubes_hold I []"
  "cubes_hold I (c # cs) = (holds_all I c \<or> cubes_hold I cs)"
  by (auto simp: cubes_hold_def)

lemma holds_all_conn:
  "t_op t = VC_AND \<Longrightarrow> holds I t = holds_all I (t_kids t)"
  "t_op t = VC_OR \<Longrightarrow> holds I t = (\<exists>k\<in>set (t_kids t). holds I k)"
  by (cases t; auto simp: holds_all_def)+

lemma holds_all_filter_TRUE: "holds_all I (filter (\<lambda>x. t_op x \<noteq> VC_TRUE) ts) = holds_all I ts"
  by (induction ts) (auto simp: holds_TRUE)

text \<open>
  What one expansion contributes: \<open>adds acc F acc'\<close> says that \<open>acc'\<close> holds the cubes of \<open>acc\<close> and
  cubes equivalent to the formula \<open>F\<close>, whenever no cap was hit.
\<close>

definition adds :: "cubeacc \<Rightarrow> (interp \<Rightarrow> bool) \<Rightarrow> cubeacc \<Rightarrow> bool" where
  "adds acc F acc' \<longleftrightarrow> (\<not> acc_overflow acc' \<longrightarrow> \<not> acc_overflow acc \<and>
     (\<forall>I. cubes_hold I (acc_cubes acc') = (cubes_hold I (acc_cubes acc) \<or> F I)))"

lemma adds_overflow: "acc_overflow acc' \<Longrightarrow> adds acc F acc'"
  by (simp add: adds_def)

lemma adds_trans: "adds acc F acc1 \<Longrightarrow> adds acc1 G acc2 \<Longrightarrow> adds acc (\<lambda>I. F I \<or> G I) acc2"
  by (auto simp: adds_def)

lemma adds_fold:
  assumes "\<And>k a. k \<in> set ks \<Longrightarrow> adds a (F k) (f k a)"
  shows "adds acc (\<lambda>I. \<exists>k\<in>set ks. F k I) (fold (\<lambda>k a. if acc_overflow a then a else f k a) ks acc)"
  using assms
proof (induction ks arbitrary: acc)
  case Nil
  then show ?case by (simp add: adds_def)
next
  case (Cons k ks)
  let ?a = "if acc_overflow acc then acc else f k acc"
  have "adds acc (F k) ?a" using Cons.prems [of k acc] by (auto simp: adds_def)
  from adds_trans [OF this Cons.IH [OF Cons.prems, of ?a]] show ?case by simp
qed

lemma adds_cong: "adds acc F acc' \<Longrightarrow> (\<And>I. F I = G I) \<Longrightarrow> adds acc G acc'"
  by (simp add: adds_def)

lemma collect_cube_adds: "adds acc (\<lambda>I. holds_all I cj \<and> holds_all I pending) (collect_cube pending cj acc)"
proof -
  have "\<exists>x\<in>set pending. t_op x = VC_FALSE \<Longrightarrow> \<not> holds_all I pending" for I
    using holds_FALSE unfolding holds_all_def by blast
  then show ?thesis
    by (auto simp: collect_cube_def acc_push_def adds_def holds_all_filter_TRUE)
qed

lemma expand_adds: "adds acc (\<lambda>I. holds_all I cj \<and> holds_all I pending) (expand fuel pending cj acc)"
proof (induction fuel arbitrary: pending acc)
  case 0
  then show ?case by (simp add: adds_overflow)
next
  case (Suc fuel)
  let ?F = "\<lambda>I. holds_all I cj \<and> holds_all I pending"
  show ?case
  proof (cases "acc_overflow acc")
    case True
    then show ?thesis by (simp add: adds_overflow)
  next
    case ov: False
    show ?thesis
    proof (cases "split_first (\<lambda>t. t_op t = VC_AND) pending")
      case (Some r)
      then obtain pre t post where r: "split_first (\<lambda>t. t_op t = VC_AND) pending = Some (pre, t, post)"
        by (cases r) auto
      note p = split_first_Some [OF r]
      have "adds acc ?F (expand fuel (pre @ t_kids t @ post) cj acc)"
        using p by (intro adds_cong [OF Suc.IH]) (auto simp: holds_all_conn)
      with r ov show ?thesis by (simp add: adds_overflow)
    next
      case noand: None
      show ?thesis
      proof (cases "split_first (\<lambda>t. t_op t = VC_OR) pending")
        case (Some r)
        then obtain pre t post where r: "split_first (\<lambda>t. t_op t = VC_OR) pending = Some (pre, t, post)"
          by (cases r) auto
        note p = split_first_Some [OF r]
        have "adds acc (\<lambda>I. \<exists>k\<in>set (t_kids t). holds_all I cj \<and> holds_all I (pre @ post @ [k]))
            (fold (\<lambda>k a. if acc_overflow a then a else expand fuel (pre @ post @ [k]) cj a) (t_kids t) acc)"
          by (rule adds_fold) (rule Suc.IH)
        then have "adds acc ?F
            (fold (\<lambda>k a. if acc_overflow a then a else expand fuel (pre @ post @ [k]) cj a) (t_kids t) acc)"
          using p by (elim adds_cong) (auto simp: holds_all_conn)
        with r noand ov show ?thesis by simp
      next
        case None
        with noand ov collect_cube_adds show ?thesis by simp
      qed
    qed
  qed
qed

text \<open>The shape of the cubes: literals only, within the caps.\<close>

definition lit_ok :: "(nat \<Rightarrow> vcsort) \<Rightarrow> vcterm \<Rightarrow> bool" where
  "lit_ok fs l \<longleftrightarrow> wf_term fs l \<and> t_sort l = VS_BOOL \<and> t_op l \<notin> {VC_AND, VC_OR, VC_TRUE, VC_FALSE}"

definition acc_ok :: "(vcterm \<Rightarrow> bool) \<Rightarrow> cubeacc \<Rightarrow> bool" where
  "acc_ok P acc \<longleftrightarrow> length (acc_cubes acc) \<le> REFINE_MAX_CUBES \<and>
     (\<forall>c\<in>set (acc_cubes acc). length c \<le> REFINE_MAX_CUBE_LITS \<and>
        (\<forall>l\<in>set c. P l \<and> t_op l \<notin> {VC_AND, VC_OR, VC_TRUE, VC_FALSE}))"

text \<open>A predicate on terms that survives taking a connective apart.\<close>

definition conn_closed :: "(vcterm \<Rightarrow> bool) \<Rightarrow> bool" where
  "conn_closed P \<longleftrightarrow> (\<forall>t. P t \<longrightarrow> t_op t = VC_AND \<or> t_op t = VC_OR \<longrightarrow> (\<forall>k\<in>set (t_kids t). P k))"

lemma acc_ok_overflow [simp]: "acc_ok P (acc\<lparr>acc_overflow := b\<rparr>) = acc_ok P acc"
  by (simp add: acc_ok_def)

lemma acc_ok_fold:
  assumes "\<And>k a. k \<in> set ks \<Longrightarrow> acc_ok P a \<Longrightarrow> acc_ok P (f k a)" and "acc_ok P acc"
  shows "acc_ok P (fold (\<lambda>k a. if acc_overflow a then a else f k a) ks acc)"
  using assms by (induction ks arbitrary: acc) auto

lemma acc_ok_push:
  assumes "acc_ok P acc" and "length c \<le> REFINE_MAX_CUBE_LITS"
    and "\<forall>l\<in>set c. P l \<and> t_op l \<notin> {VC_AND, VC_OR, VC_TRUE, VC_FALSE}"
  shows "acc_ok P (acc_push acc c)"
  using assms by (simp add: acc_push_def acc_ok_def)

lemma collect_cube_acc_ok:
  assumes "acc_ok P acc" and "\<forall>t\<in>set pending. P t"
  shows "acc_ok P (collect_cube pending [] acc)"
proof -
  let ?c = "filter (\<lambda>x. t_op x \<noteq> VC_TRUE) pending"
  have "\<not> REFINE_MAX_CUBE_LITS < length pending \<Longrightarrow> length ?c \<le> REFINE_MAX_CUBE_LITS"
    using length_filter_le [of "\<lambda>x. t_op x \<noteq> VC_TRUE" pending] by linarith
  then have "acc_ok P (acc_push acc ?c)" if "\<not> REFINE_MAX_CUBE_LITS < length pending"
      "\<not> (\<exists>x\<in>set pending. t_op x = VC_AND \<or> t_op x = VC_OR)" "\<not> (\<exists>x\<in>set pending. t_op x = VC_FALSE)"
    using that assms by (intro acc_ok_push) auto
  with assms(1) show ?thesis by (simp add: collect_cube_def)
qed

lemma expand_acc_ok:
  assumes "conn_closed P" and "acc_ok P acc" and "\<forall>t\<in>set pending. P t"
  shows "acc_ok P (expand fuel pending [] acc)"
  using assms(2,3)
proof (induction fuel arbitrary: pending acc)
  case 0
  then show ?case by simp
next
  case (Suc fuel)
  have K: "\<forall>k\<in>set (t_kids t). P k" if "t \<in> set pending" "t_op t = VC_AND \<or> t_op t = VC_OR" for t
    using assms(1) Suc.prems(2) that unfolding conn_closed_def by blast
  have A: "acc_ok P (expand fuel (pre @ t_kids t @ post) [] acc)"
    if "split_first (\<lambda>t. t_op t = VC_AND) pending = Some (pre, t, post)" for pre t post
    using split_first_Some [OF that] Suc.prems K [of t] by (intro Suc.IH) auto
  have O: "acc_ok P (fold (\<lambda>k a. if acc_overflow a then a else expand fuel (pre @ post @ [k]) [] a) (t_kids t) acc)"
    if "split_first (\<lambda>t. t_op t = VC_OR) pending = Some (pre, t, post)" for pre t post
  proof (rule acc_ok_fold [OF _ Suc.prems(1)])
    fix k a assume "k \<in> set (t_kids t)" "acc_ok P a"
    then show "acc_ok P (expand fuel (pre @ post @ [k]) [] a)"
      using split_first_Some [OF that] Suc.prems(2) K [of t] by (intro Suc.IH) auto
  qed
  show ?case
  proof (cases "acc_overflow acc")
    case True
    then show ?thesis using Suc.prems by simp
  next
    case False
    then show ?thesis using A O Suc.prems(1) collect_cube_acc_ok [OF Suc.prems]
      by (simp split: option.split)
  qed
qed

text \<open>
  Well-formed propositions are closed under taking connectives apart, and so is any property of
  all nodes of a term; the nodes the normal form creates are connectives and order atoms.
\<close>

definition wf_prop :: "(nat \<Rightarrow> vcsort) \<Rightarrow> vcterm \<Rightarrow> bool" where
  "wf_prop fs t \<longleftrightarrow> wf_term fs t \<and> t_sort t = VS_BOOL"

lemma conn_closed_wf_prop: "conn_closed (wf_prop fs)"
proof -
  have "conn_kids (t_kids t)" if "wf_term fs t" "t_op t = VC_AND \<or> t_op t = VC_OR" for t
    using wf_term_node [OF that(1)] that(2) by (auto simp: node_ok_def Let_def)
  then show ?thesis by (auto simp: conn_closed_def wf_prop_def conn_kids_def wf_term_kid)
qed

lemma conn_closed_all_nodes: "conn_closed (all_nodes Q)"
  by (auto simp: conn_closed_def intro: all_nodes_kid)

definition conn_free :: "(vcterm \<Rightarrow> bool) \<Rightarrow> bool" where
  "conn_free Q \<longleftrightarrow> (\<forall>t. t_op t \<in> {VC_AND, VC_OR, VC_NOT, VC_LT, VC_TRUE, VC_FALSE} \<longrightarrow> Q t)"

lemma conn_freeD: "conn_free Q \<Longrightarrow> op \<in> {VC_AND, VC_OR, VC_NOT, VC_LT, VC_TRUE, VC_FALSE} \<Longrightarrow> Q (Node op s ks p)"
  unfolding conn_free_def by (metis vcterm.sel(1))

lemma vc_bool_all_nodes: "conn_free Q \<Longrightarrow> all_nodes Q (vc_bool b)"
  by (auto simp: vc_bool_def intro: conn_freeD)

lemma vc_not_all_nodes: "conn_free Q \<Longrightarrow> all_nodes Q t \<Longrightarrow> wf_term fs t \<Longrightarrow> all_nodes Q (vc_not t)"
proof -
  assume Q: "conn_free Q" and a: "all_nodes Q t" and w: "wf_term fs t"
  have "t_op t = VC_NOT \<Longrightarrow> kid t 0 \<in> set (t_kids t)"
    using wf_term_node [OF w] by (auto simp: node_ok_def Let_def kid_def length_1_conv)
  then have k: "t_op t = VC_NOT \<Longrightarrow> all_nodes Q (kid t 0)" using all_nodes_kid [OF a] by blast
  have "all_nodes Q (Node VC_NOT VS_BOOL [t] PNone)" using a conn_freeD [OF Q] by simp
  with k vc_bool_all_nodes [OF Q] show ?thesis by (auto simp: vc_not_def vc_mk1_def vc_mk_def vc_mk_not_def)
qed

lemma vc_mk_andor_all_nodes:
  assumes Q: "conn_free Q" and k: "\<forall>k\<in>set ks. all_nodes Q k" and op: "op \<in> {VC_AND, VC_OR}"
  shows "all_nodes Q (vc_mk_andor op ks)"
proof -
  have f: "\<forall>k\<in>set (flat_kids op ks). all_nodes Q k"
    using k by (auto simp: flat_kids_def intro: all_nodes_kid split: if_splits)
  show ?thesis
  proof (cases "andor_loop (if op = VC_AND then VC_TRUE else VC_FALSE)
                  (if op = VC_AND then VC_FALSE else VC_TRUE) [] (flat_kids op ks)")
    case None
    then show ?thesis by (simp add: vc_mk_andor_def vc_bool_all_nodes [OF Q])
  next
    case (Some r)
    have "\<forall>k\<in>set r. all_nodes Q k" using andor_loop_set [OF Some] f by auto
    moreover have "Q (Node op VS_BOOL r PNone)" using conn_freeD [OF Q] op by blast
    ultimately show ?thesis using Some vc_bool_all_nodes [OF Q]
      by (auto simp: vc_mk_andor_def split: list.split)
  qed
qed

lemma nnf_leaf_all_nodes:
  assumes Q: "conn_free Q" and a: "all_nodes Q t" and w: "wf_term fs t"
  shows "all_nodes Q (nnf_leaf t neg)"
proof (cases "neg \<and> t_op t = VC_EQ \<and> length (t_kids t) = 2
         \<and> vc_is_arith (kid t 0) \<and> vc_is_arith (kid t 1)")
  case False
  then show ?thesis using vc_not_all_nodes [OF Q a w] a by (auto simp: nnf_leaf_def)
next
  case True
  then obtain x y where k: "t_kids t = [x, y]" by (auto simp: length_2_conv)
  have xy: "x \<noteq> y" "\<not> (is_num_lit x \<and> is_num_lit y)"
    using wf_term_node [OF w] True k by (auto simp: node_ok_def)
  have "all_nodes Q x" "all_nodes Q y" using all_nodes_kid [OF a] k by auto
  then have l: "all_nodes Q (Node VC_LT VS_BOOL [x, y] PNone)" "all_nodes Q (Node VC_LT VS_BOOL [y, x] PNone)"
    using conn_freeD [OF Q] by auto
  have "nnf_leaf t neg = vc_mk_andor VC_AND [vc_not t,
      vc_mk_andor VC_OR [Node VC_LT VS_BOOL [x, y] PNone, Node VC_LT VS_BOOL [y, x] PNone]]"
    using True k xy vc_mk_lt_plain [of x y] vc_mk_lt_plain [of y x]
    by (auto simp: nnf_leaf_def kid_def vc_mk2_def [of VC_AND] vc_mk2_def [of VC_OR] vc_mk_def)
  with l vc_not_all_nodes [OF Q a w] show ?thesis
    by (simp add: vc_mk_andor_all_nodes [OF Q])
qed

lemma nnf_all_nodes:
  assumes Q: "conn_free Q" and "all_nodes Q t" and "wf_term fs t"
  shows "all_nodes Q (nnf t neg)"
  using assms(2,3)
proof (induction t arbitrary: neg)
  case (Node op s ks p)
  have kid: "wf_term fs k \<and> all_nodes Q k" if "k \<in> set ks" for k
    using wf_term_kid [OF Node.prems(2), of k] Node.prems(1) that by simp
  consider (nt) k where "op = VC_NOT" "ks = [k]" | (conn) "op \<in> {VC_AND, VC_OR}"
    | (leaf) "op \<noteq> VC_NOT" "op \<notin> {VC_AND, VC_OR}"
    using wf_term_node [OF Node.prems(2)] by (cases op) (auto simp: node_ok_def length_1_conv)
  then show ?case
  proof cases
    case nt
    with Node.IH [of k] kid [of k] show ?thesis by simp
  next
    case conn
    have o: "(if neg then dual op else op) \<in> {VC_AND, VC_OR}" using conn by (auto simp: dual_def)
    have "\<forall>k\<in>set (map (\<lambda>k. nnf k neg) ks). all_nodes Q k" using Node.IH kid by auto
    from vc_mk_andor_all_nodes [OF Q this o] show ?thesis
      using conn by (auto simp: vc_mk_def dual_def)
  next
    case leaf
    then have "nnf (Node op s ks p) neg = nnf_leaf (Node op s ks p) neg" by (cases op) auto
    with nnf_leaf_all_nodes [OF Q Node.prems] show ?thesis by simp
  qed
qed

definition vc_all_nodes :: "(vcterm \<Rightarrow> bool) \<Rightarrow> refinevc \<Rightarrow> bool" where
  "vc_all_nodes Q vc \<longleftrightarrow> (\<forall>h\<in>set (hyps vc). all_nodes Q h) \<and> (\<forall>g. goal vc = Some g \<longrightarrow> all_nodes Q g)"

section \<open>Refutation is complete and sound for the cube set\<close>

lemma refine_cubes_build_ok:
  assumes b: "refine_cubes_build vc = (True, cs)" and wf: "wf_vc vc"
  shows "\<exists>g. goal vc = Some g \<and>
     (cs_trivial cs \<longrightarrow> (\<forall>I. \<not> (holds_all I (hyps vc) \<and> \<not> holds I g))) \<and>
     (\<not> cs_trivial cs \<longrightarrow> (\<forall>I. cubes_hold I (cs_cubes cs) = (holds_all I (hyps vc) \<and> \<not> holds I g))) \<and>
     length (cs_cubes cs) \<le> REFINE_MAX_CUBES \<and>
     (\<forall>c\<in>set (cs_cubes cs). length c \<le> REFINE_MAX_CUBE_LITS \<and> (\<forall>l\<in>set c. lit_ok (ufunc_sort vc) l)) \<and>
     (\<forall>Q. conn_free Q \<longrightarrow> vc_all_nodes Q vc \<longrightarrow> (\<forall>c\<in>set (cs_cubes cs). \<forall>l\<in>set c. all_nodes Q l))"
proof -
  obtain g where g: "goal vc = Some g"
    using b by (auto simp: refine_cubes_build_def split: option.splits)
  let ?fs = "ufunc_sort vc"
  define parts where "parts = map (\<lambda>h. nnf h False) (hyps vc) @ [nnf g True]"
  have hok: "\<And>h. h \<in> set (hyps vc) \<Longrightarrow> wf_term ?fs h \<and> t_sort h = VS_BOOL"
    and gok: "wf_term ?fs g" "t_sort g = VS_BOOL"
    using wf g by (auto simp: wf_vc_def)
  have ph: "holds_all I parts = (holds_all I (hyps vc) \<and> \<not> holds I g)" for I
    using nnf_ok [of ?fs _ I False] nnf_ok [OF gok, of I True] hok
    by (auto simp: parts_def holds_all_def)
  have pok: "\<forall>t\<in>set parts. wf_prop ?fs t"
    using nnf_ok [of ?fs _ undefined False] nnf_ok [OF gok, of undefined True] hok
    by (auto simp: parts_def wf_prop_def)
  have pQ: "\<forall>t\<in>set parts. all_nodes Q t" if "conn_free Q" "vc_all_nodes Q vc" for Q
    using nnf_all_nodes [OF that(1), of _ ?fs] that(2) g hok gok by (auto simp: parts_def vc_all_nodes_def)
  let ?acc0 = "\<lparr>acc_cubes = [], acc_overflow = False\<rparr>"
  define acc where "acc = expand REFINE_MAX_EXPAND_DEPTH parts [] ?acc0"
  have ads: "adds ?acc0 (\<lambda>I. holds_all I [] \<and> holds_all I parts) acc"
    unfolding acc_def by (rule expand_adds)
  have aok: "acc_ok (wf_prop ?fs) acc"
    unfolding acc_def using pok by (intro expand_acc_ok conn_closed_wf_prop) (auto simp: acc_ok_def)
  have aQ: "acc_ok (all_nodes Q) acc" if "conn_free Q" "vc_all_nodes Q vc" for Q
    unfolding acc_def using pQ [OF that] by (intro expand_acc_ok conn_closed_all_nodes) (auto simp: acc_ok_def)
  show ?thesis
  proof (cases "\<exists>t\<in>set parts. t_op t = VC_FALSE")
    case True
    then have "\<not> holds_all I parts" for I using holds_FALSE unfolding holds_all_def by blast
    moreover have "cs = \<lparr>cs_cubes = [], cs_overflow = False, cs_trivial = True\<rparr>"
      using b g True by (simp add: refine_cubes_build_def Let_def flip: parts_def)
    ultimately show ?thesis using ph g by (auto simp: REFINE_MAX_CUBES_def)
  next
    case False
    then have c: "\<not> acc_overflow acc" "cs = \<lparr>cs_cubes = acc_cubes acc, cs_overflow = False, cs_trivial = False\<rparr>"
      using b g by (auto simp: refine_cubes_build_def Let_def split: if_splits simp flip: parts_def acc_def)
    have "cubes_hold I (acc_cubes acc) = (holds_all I (hyps vc) \<and> \<not> holds I g)" for I
      using ads c(1) ph by (simp add: adds_def)
    moreover have "\<forall>Q. conn_free Q \<longrightarrow> vc_all_nodes Q vc \<longrightarrow> (\<forall>c\<in>set (acc_cubes acc). \<forall>l\<in>set c. all_nodes Q l)"
      using aQ by (auto simp: acc_ok_def)
    moreover have "length (acc_cubes acc) \<le> REFINE_MAX_CUBES \<and> (\<forall>c\<in>set (acc_cubes acc).
        length c \<le> REFINE_MAX_CUBE_LITS \<and> (\<forall>l\<in>set c. lit_ok ?fs l))"
      using aok by (auto simp: acc_ok_def lit_ok_def wf_prop_def)
    ultimately show ?thesis using c(2) g by simp
  qed
qed

text \<open>Validity is the refutation of every cube.\<close>

lemma refine_cubes_build_entailed:
  assumes "refine_cubes_build vc = (True, cs)" and "wf_vc vc"
  shows "entailed vc \<longleftrightarrow> cs_trivial cs \<or> (\<forall>c\<in>set (cs_cubes cs). \<forall>I. \<not> holds_all I c)"
proof -
  obtain g where g: "goal vc = Some g"
    and triv: "cs_trivial cs \<Longrightarrow> \<forall>I. \<not> (holds_all I (hyps vc) \<and> \<not> holds I g)"
    and eq: "\<not> cs_trivial cs \<Longrightarrow> \<forall>I. cubes_hold I (cs_cubes cs) = (holds_all I (hyps vc) \<and> \<not> holds I g)"
    using refine_cubes_build_ok [OF assms] by blast
  have "entailed vc \<longleftrightarrow> (\<forall>I. \<not> (holds_all I (hyps vc) \<and> \<not> holds I g))"
    using g by (auto simp: entailed_def)
  with triv eq show ?thesis by (cases "cs_trivial cs") (auto simp: cubes_hold_def)
qed

end
