(* ===== verification/Backend.thy ===== *)
theory Backend
  imports Cubes
begin

text \<open>
  The solver seam (\<open>RefineBackend\<close> in \<open>src/compiler/refine_vc.h\<close>) as a contract, the loop over
  the cube set that stages S1 to S3 share, the chain driver of
  \<open>src/compiler/refine_discharge.c\<close>, and stage S0 (\<open>refine_solver_s0.c\<close>), which decides without
  any theory. The contract is the one-directional invariant of the header: a stage may answer
  \<open>RT_VALID\<close> only for a goal its hypotheses entail.
\<close>

datatype verdict = RT_UNKNOWN | RT_VALID | RT_INVALID

type_synonym stage = "refinevc \<Rightarrow> cubecache \<Rightarrow> verdict \<times> cubecache"

section \<open>The chain\<close>

fun run_stages :: "stage list \<Rightarrow> refinevc \<Rightarrow> cubecache \<Rightarrow> verdict" where
  "run_stages [] vc cc = RT_UNKNOWN"
| "run_stages (s # ss) vc cc =
     (let (v, cc') = s vc cc in if v \<noteq> RT_UNKNOWN then v else run_stages ss vc cc')"

definition cache_ok :: "refinevc \<Rightarrow> cubecache \<Rightarrow> bool" where
  "cache_ok vc cc \<longleftrightarrow> (cc_tried cc \<longrightarrow> (cc_ok cc, cc_set cc) = refine_cubes_build vc)"

lemma cache_ok_empty [simp]: "cache_ok vc cc_empty"
  by (simp add: cache_ok_def cc_empty_def)

lemma refine_cubes_get_ok:
  "cache_ok vc cc \<Longrightarrow> refine_cubes_get vc cc = (ok, cs, cc') \<Longrightarrow>
   refine_cubes_build vc = (ok, cs) \<and> cache_ok vc cc'"
  by (auto simp: refine_cubes_get_def cache_ok_def Let_def split: prod.splits if_splits)

text \<open>
  A sound backend on the conditions \<open>frag\<close> describes: it never answers invalid, answers valid
  only for an entailed goal, and leaves the shared cube cache consistent.
\<close>

locale backend =
  fixes frag :: "refinevc \<Rightarrow> bool"
    and decide :: "refinevc \<Rightarrow> cubecache \<Rightarrow> verdict \<times> cubecache"
  assumes decide_cache: "cache_ok vc cc \<Longrightarrow> cache_ok vc (snd (decide vc cc))"
    and decide_sound: "frag vc \<Longrightarrow> cache_ok vc cc \<Longrightarrow> fst (decide vc cc) = RT_VALID \<Longrightarrow> entailed vc"
    and decide_not_invalid: "fst (decide vc cc) \<noteq> RT_INVALID"
begin

text \<open>Putting a sound stage in front of a sound chain is sound.\<close>

lemma run_cons_sound:
  assumes "frag vc" and "cache_ok vc cc"
    and rest: "\<And>cc. cache_ok vc cc \<Longrightarrow> run_stages ss vc cc = RT_VALID \<Longrightarrow> entailed vc"
    and "run_stages (decide # ss) vc cc = RT_VALID"
  shows "entailed vc"
  using assms decide_cache [of vc cc] decide_sound [of vc cc] rest [of "snd (decide vc cc)"]
  by (auto simp: Let_def split: prod.splits if_splits)

lemma run_cons_not_invalid:
  assumes "\<And>cc. run_stages ss vc cc \<noteq> RT_INVALID"
  shows "run_stages (decide # ss) vc cc \<noteq> RT_INVALID"
  using assms decide_not_invalid [of vc cc] by (auto simp: Let_def split: prod.splits)

end

section \<open>Refuting every cube\<close>

text \<open>
  Stages S1, S2 and S3 answer valid when every cube is refuted and give up at the first cube
  that is not. \<open>refute\<close> decides one cube and passes on the state the stage keeps across cubes.
\<close>

fun refute_all :: "('s \<Rightarrow> cube \<Rightarrow> bool \<times> 's) \<Rightarrow> 's \<Rightarrow> cube list \<Rightarrow> bool" where
  "refute_all refute st [] = True"
| "refute_all refute st (c # cs) =
     (let (r, st') = refute st c in if r then refute_all refute st' cs else False)"

definition decide_by_cubes ::
  "(refinevc \<Rightarrow> 's) \<Rightarrow> (refinevc \<Rightarrow> 's \<Rightarrow> cube \<Rightarrow> bool \<times> 's) \<Rightarrow> stage" where
  "decide_by_cubes init_st refute vc cc =
     (if goal vc = None then (RT_UNKNOWN, cc)
      else let (ok, cs, cc') = refine_cubes_get vc cc
           in if \<not> ok then (RT_UNKNOWN, cc')
              else if cs_trivial cs \<or> cs_cubes cs = [] then (RT_VALID, cc')
              else if refute_all (refute vc) (init_st vc) (cs_cubes cs) then (RT_VALID, cc')
              else (RT_UNKNOWN, cc'))"

text \<open>
  What such a stage promises: on cubes whose nodes all satisfy \<open>nodeP\<close>, a refuted cube holds
  under no interpretation.
\<close>

locale cube_refuter =
  fixes nodeP :: "refinevc \<Rightarrow> vcterm \<Rightarrow> bool"
    and init_st :: "refinevc \<Rightarrow> 's"
    and refute :: "refinevc \<Rightarrow> 's \<Rightarrow> cube \<Rightarrow> bool \<times> 's"
    and inv :: "refinevc \<Rightarrow> 's \<Rightarrow> bool"
  assumes nodeP_free: "conn_free (nodeP vc)"
    and inv_init: "inv vc (init_st vc)"
    and refute_ok: "inv vc st \<Longrightarrow> \<forall>l\<in>set c. lit_ok (ufunc_sort vc) l \<Longrightarrow> \<forall>l\<in>set c. all_nodes (nodeP vc) l \<Longrightarrow>
      refute vc st c = (r, st') \<Longrightarrow> inv vc st' \<and> (r \<longrightarrow> \<not> holds_all I c)"
begin

lemma refute_all_sound:
  assumes "inv vc st" and "\<forall>c\<in>set cs. \<forall>l\<in>set c. lit_ok (ufunc_sort vc) l \<and> all_nodes (nodeP vc) l"
    and "refute_all (refute vc) st cs"
  shows "\<forall>c\<in>set cs. \<not> holds_all I c"
  using assms
proof (induction cs arbitrary: st)
  case Nil
  then show ?case by simp
next
  case (Cons c cs)
  obtain r st' where r: "refute vc st c = (r, st')" by fastforce
  with Cons.prems(3) have "r" "refute_all (refute vc) st' cs" by (auto split: if_splits)
  moreover have "inv vc st' \<and> (r \<longrightarrow> \<not> holds_all I c)"
    using Cons.prems by (intro refute_ok [OF Cons.prems(1) _ _ r]) auto
  ultimately show ?case using Cons.IH [of st'] Cons.prems(2) by simp
qed

lemma decide_by_cubes_sound:
  assumes "wf_vc vc" and "vc_all_nodes (nodeP vc) vc" and "cache_ok vc cc"
    and v: "fst (decide_by_cubes init_st refute vc cc) = RT_VALID"
  shows "entailed vc"
proof -
  obtain ok cs cc' where g: "refine_cubes_get vc cc = (ok, cs, cc')" by (metis prod_cases3)
  from v g have ok: "ok" by (auto simp: decide_by_cubes_def split: if_splits)
  then have b: "refine_cubes_build vc = (True, cs)" using refine_cubes_get_ok [OF assms(3) g] by simp
  note ent = refine_cubes_build_entailed [OF b assms(1)]
  show ?thesis
  proof (cases "cs_trivial cs \<or> cs_cubes cs = []")
    case True
    with ent show ?thesis by auto
  next
    case False
    with v g ok have ra: "refute_all (refute vc) (init_st vc) (cs_cubes cs)"
      by (auto simp: decide_by_cubes_def split: if_splits)
    have lits: "\<forall>c\<in>set (cs_cubes cs). \<forall>l\<in>set c. lit_ok (ufunc_sort vc) l \<and> all_nodes (nodeP vc) l"
      using refine_cubes_build_ok [OF b assms(1)] nodeP_free [of vc] assms(2) by blast
    show ?thesis using ent refute_all_sound [OF inv_init lits ra] by blast
  qed
qed

end

sublocale cube_refuter \<subseteq> backend "\<lambda>vc. wf_vc vc \<and> vc_all_nodes (nodeP vc) vc" "decide_by_cubes init_st refute"
proof
  fix vc cc
  assume c: "cache_ok vc cc"
  obtain ok cs cc' where g: "refine_cubes_get vc cc = (ok, cs, cc')" by (metis prod_cases3)
  show "cache_ok vc (snd (decide_by_cubes init_st refute vc cc))"
    using g c refine_cubes_get_ok [OF c g] by (auto simp: decide_by_cubes_def)
next
  fix vc cc
  assume "wf_vc vc \<and> vc_all_nodes (nodeP vc) vc" "cache_ok vc cc"
    "fst (decide_by_cubes init_st refute vc cc) = RT_VALID"
  then show "entailed vc" using decide_by_cubes_sound by blast
next
  fix vc cc
  show "fst (decide_by_cubes init_st refute vc cc) \<noteq> RT_INVALID"
    by (auto simp: decide_by_cubes_def split: prod.splits)
qed

section \<open>S0: normalise and discharge the trivial\<close>

definition hyp_contains :: "refinevc \<Rightarrow> vcterm \<Rightarrow> bool" where
  "hyp_contains vc t \<longleftrightarrow>
     (\<exists>h\<in>set (hyps vc). h = t \<or> (t_op h = VC_AND \<and> t \<in> set (t_kids h)))"

fun cube_trivially_unsat :: "cube \<Rightarrow> bool" where
  "cube_trivially_unsat [] = False"
| "cube_trivially_unsat (l # ls) =
     (t_op l = VC_FALSE \<or> (t_op l = VC_NOT \<and> t_op (kid l 0) = VC_TRUE)
      \<or> (\<exists>m\<in>set ls. refine_lit_atom l = refine_lit_atom m \<and> refine_lit_is_neg l \<noteq> refine_lit_is_neg m)
      \<or> cube_trivially_unsat ls)"

definition refine_s0_decide_cc :: stage where
  "refine_s0_decide_cc vc cc =
     (case goal vc of
        None \<Rightarrow> (RT_UNKNOWN, cc)
      | Some g \<Rightarrow>
          if t_op g = VC_TRUE then (RT_VALID, cc)
          else if hyp_contains vc g then (RT_VALID, cc)
          else if t_op g = VC_AND \<and> (\<forall>k\<in>set (t_kids g). hyp_contains vc k) then (RT_VALID, cc)
          else if \<exists>h\<in>set (hyps vc). t_op h = VC_FALSE then (RT_VALID, cc)
          else let (ok, cs, cc') = refine_cubes_get vc cc
               in if \<not> ok then (RT_UNKNOWN, cc')
                  else if cs_trivial cs \<or> cs_cubes cs = [] then (RT_VALID, cc')
                  else if \<forall>c\<in>set (cs_cubes cs). cube_trivially_unsat c then (RT_VALID, cc')
                  else (RT_UNKNOWN, cc'))"

lemma hyp_contains_holds: "hyp_contains vc t \<Longrightarrow> holds_all I (hyps vc) \<Longrightarrow> holds I t"
  by (auto simp: hyp_contains_def holds_all_def holds_all_conn)

text \<open>A literal is a negated atom or an atom, and its truth is the atom's.\<close>

lemma holds_lit:
  assumes "lit_ok fs l"
  shows "holds I l = (if refine_lit_is_neg l then \<not> holds I (refine_lit_atom l) else holds I (refine_lit_atom l))"
proof (cases "t_op l = VC_NOT")
  case True
  then have "length (t_kids l) = 1"
    using assms wf_term_node [of fs l] by (auto simp: lit_ok_def node_ok_def Let_def)
  then obtain k where "t_kids l = [k]" by (auto simp: length_1_conv)
  with True have "l = Node VC_NOT (t_sort l) [k] (t_as l)" by (cases l) simp
  then show ?thesis using True
    by (metis One_nat_def holds_conn(5) kid_def nth_Cons_0 refine_lit_atom_def refine_lit_is_neg_def vcterm.sel(3))
next
  case False
  then show ?thesis by (simp add: refine_lit_is_neg_def refine_lit_atom_def)
qed

lemma cube_trivially_unsat_sound:
  "cube_trivially_unsat c \<Longrightarrow> \<forall>l\<in>set c. lit_ok fs l \<Longrightarrow> \<not> holds_all I c"
proof (induction c)
  case Nil
  then show ?case by simp
next
  case (Cons l ls)
  have l: "lit_ok fs l" using Cons.prems(2) by simp
  consider "t_op l = VC_NOT" "t_op (kid l 0) = VC_TRUE"
    | m where "m \<in> set ls" "refine_lit_atom l = refine_lit_atom m" "refine_lit_is_neg l \<noteq> refine_lit_is_neg m"
    | "cube_trivially_unsat ls"
    using Cons.prems(1) l by (auto simp: lit_ok_def)
  then show ?case
  proof cases
    case 1
    then show ?thesis using holds_lit [OF l, of I]
      by (simp add: refine_lit_is_neg_def refine_lit_atom_def holds_TRUE)
  next
    case 2
    then show ?thesis using holds_lit [OF l, of I] holds_lit [of fs m I] Cons.prems(2)
      by (auto simp: holds_all_def)
  next
    case 3
    then show ?thesis using Cons by simp
  qed
qed

interpretation s0: backend wf_vc refine_s0_decide_cc
proof
  fix vc cc
  assume c: "cache_ok vc cc"
  obtain ok cs cc' where g: "refine_cubes_get vc cc = (ok, cs, cc')" by (metis prod_cases3)
  show "cache_ok vc (snd (refine_s0_decide_cc vc cc))"
    using g c refine_cubes_get_ok [OF c g] by (auto simp: refine_s0_decide_cc_def split: option.split)
next
  fix vc cc
  assume wf: "wf_vc vc" and c: "cache_ok vc cc" and v: "fst (refine_s0_decide_cc vc cc) = RT_VALID"
  obtain ok cs cc' where get: "refine_cubes_get vc cc = (ok, cs, cc')" by (metis prod_cases3)
  obtain g where g: "goal vc = Some g"
    using v by (auto simp: refine_s0_decide_cc_def split: option.splits)
  consider "t_op g = VC_TRUE" | "hyp_contains vc g" | "t_op g = VC_AND" "\<forall>k\<in>set (t_kids g). hyp_contains vc k"
    | h where "h \<in> set (hyps vc)" "t_op h = VC_FALSE"
    | "ok" "cs_trivial cs \<or> (\<forall>x\<in>set (cs_cubes cs). cube_trivially_unsat x)"
    using v g get by (auto simp: refine_s0_decide_cc_def split: if_splits)
  then show "entailed vc"
  proof cases
    case 1
    with g show ?thesis by (auto simp: entailed_def holds_TRUE)
  next
    case 2
    with g show ?thesis by (auto simp: entailed_def hyp_contains_holds)
  next
    case 3
    with g show ?thesis by (auto simp: entailed_def holds_all_conn holds_all_def [of _ "t_kids g"] hyp_contains_holds)
  next
    case 4
    with g show ?thesis by (auto simp: entailed_def holds_all_def dest: holds_FALSE)
  next
    case 5
    then have b: "refine_cubes_build vc = (True, cs)" using refine_cubes_get_ok [OF c get] by simp
    have "\<forall>x\<in>set (cs_cubes cs). \<forall>l\<in>set x. lit_ok (ufunc_sort vc) l"
      using refine_cubes_build_ok [OF b wf] by blast
    with 5 show ?thesis
      using refine_cubes_build_entailed [OF b wf] cube_trivially_unsat_sound by blast
  qed
next
  fix vc cc
  show "fst (refine_s0_decide_cc vc cc) \<noteq> RT_INVALID"
    by (auto simp: refine_s0_decide_cc_def split: option.split prod.splits)
qed

end
