(* ===== verification/LinArith.thy ===== *)
theory LinArith
  imports Backend
begin

text \<open>
  Stage S2, linear arithmetic (\<open>src/compiler/refine_solver_arith.c\<close>): overflow-checked exact
  rationals, linear expressions and constraints, purification of opaque terms, the integer
  normalisation and equality elimination of the Omega test, Fourier-Motzkin elimination. C leaves
  the negation of \<open>INT64_MIN\<close> in \<open>igcd\<close> undefined; the model takes its mathematical value.
  The two arguments of a C call whose order of evaluation is unspecified are linearised left to
  right.
\<close>

definition REFINE_MAX_LA_VARS :: nat where "REFINE_MAX_LA_VARS = 32"
definition REFINE_MAX_LA_CONSTR :: nat where "REFINE_MAX_LA_CONSTR = 512"
definition LA_MAX_LINEARIZE_DEPTH :: nat where "LA_MAX_LINEARIZE_DEPTH = 500"

section \<open>Exact rationals\<close>

datatype crat = CRat (r_num: int) (r_den: int) (r_bad: bool)

function euclid :: "int \<Rightarrow> int \<Rightarrow> int" where
  "euclid a b = (if b = 0 then a else euclid b (a smod b))"
  by pat_completeness auto
termination
proof (relation "measure (\<lambda>(a, b). nat \<bar>b\<bar>)")
  show "wf (measure (\<lambda>(a, b). nat \<bar>b\<bar>))" by simp
next
  fix a b :: int
  assume "b \<noteq> 0"
  then show "((b, a smod b), a, b) \<in> measure (\<lambda>(a, b). nat \<bar>b\<bar>)"
    using smod_abs_bounds [of b a] by auto
qed

declare euclid.simps [simp del]

definition igcd0 :: "int \<Rightarrow> int \<Rightarrow> int" where
  "igcd0 a b = euclid \<bar>a\<bar> \<bar>b\<bar>"

definition igcd :: "int \<Rightarrow> int \<Rightarrow> int" where
  "igcd a b = (let g = euclid \<bar>a\<bar> \<bar>b\<bar> in if g \<noteq> 0 then g else 1)"

definition rat_bad :: crat where "rat_bad = CRat 0 1 True"

definition rat_of :: "int \<Rightarrow> crat" where "rat_of v = CRat v 1 False"

definition rat_norm :: "int \<Rightarrow> int \<Rightarrow> crat" where
  "rat_norm n d =
     (if d = 0 then rat_bad
      else if d < 0 \<and> (n = INT64_MIN \<or> d = INT64_MIN) then rat_bad
      else let n' = (if d < 0 then - n else n); d' = (if d < 0 then - d else d); g = igcd n' d'
           in CRat (n' sdiv g) (d' sdiv g) False)"

definition rat_add :: "crat \<Rightarrow> crat \<Rightarrow> crat" where
  "rat_add a b =
     (if r_bad a \<or> r_bad b then rat_bad
      else case mul_ovf (r_num a) (r_den b) of None \<Rightarrow> rat_bad | Some t1 \<Rightarrow>
        (case mul_ovf (r_num b) (r_den a) of None \<Rightarrow> rat_bad | Some t2 \<Rightarrow>
          (case add_ovf t1 t2 of None \<Rightarrow> rat_bad | Some n \<Rightarrow>
            (case mul_ovf (r_den a) (r_den b) of None \<Rightarrow> rat_bad | Some d \<Rightarrow> rat_norm n d))))"

definition rat_mul :: "crat \<Rightarrow> crat \<Rightarrow> crat" where
  "rat_mul a b =
     (if r_bad a \<or> r_bad b then rat_bad
      else
        let g1 = igcd (r_num a) (r_den b); g2 = igcd (r_num b) (r_den a);
            an = r_num a sdiv g1; bd = r_den b sdiv g1; bn = r_num b sdiv g2; ad = r_den a sdiv g2
        in case mul_ovf an bn of None \<Rightarrow> rat_bad | Some n \<Rightarrow>
             (case mul_ovf ad bd of None \<Rightarrow> rat_bad | Some d \<Rightarrow> rat_norm n d))"

definition rat_neg :: "crat \<Rightarrow> crat" where
  "rat_neg a = (if r_bad a \<or> r_num a = INT64_MIN then rat_bad else CRat (- r_num a) (r_den a) False)"

definition rat_zero :: "crat \<Rightarrow> bool" where "rat_zero a \<longleftrightarrow> \<not> r_bad a \<and> r_num a = 0"
definition rat_pos :: "crat \<Rightarrow> bool" where "rat_pos a \<longleftrightarrow> \<not> r_bad a \<and> r_num a > 0"
definition rat_neg_p :: "crat \<Rightarrow> bool" where "rat_neg_p a \<longleftrightarrow> \<not> r_bad a \<and> r_num a < 0"
definition rat_is_int :: "crat \<Rightarrow> bool" where "rat_is_int a \<longleftrightarrow> \<not> r_bad a \<and> r_den a = 1"

definition rat_floor :: "crat \<Rightarrow> int" where
  "rat_floor a = (let q = r_num a sdiv r_den a; r = r_num a smod r_den a
                  in if r \<noteq> 0 \<and> r_num a < 0 then q - 1 else q)"

definition rat_ceil :: "crat \<Rightarrow> int" where
  "rat_ceil a = (let q = r_num a sdiv r_den a; r = r_num a smod r_den a
                 in if r \<noteq> 0 \<and> r_num a > 0 then q + 1 else q)"

definition ilcm :: "int \<Rightarrow> int \<Rightarrow> int" where
  "ilcm a b = (let g = igcd0 a b in
     if g = 0 then 0 else case mul_ovf (a sdiv g) b of None \<Rightarrow> 0 | Some r \<Rightarrow> r)"

text \<open>A double literal as an exact rational: the first power of ten that makes it an integer.\<close>

definition rat_trunc :: "rat \<Rightarrow> int" where
  "rat_trunc q = (if q < 0 then - \<lfloor>- q\<rfloor> else \<lfloor>q\<rfloor>)"

definition try_den :: "f64 \<Rightarrow> int \<Rightarrow> crat option" where
  "try_den d den =
     (case f64_mul d (f64_of_int den) of
        Fin q \<Rightarrow> (if \<bar>q\<bar> < 9000000000000000000 \<and> f64_eq (Fin q) (f64_of_int (rat_trunc q))
                  then Some (rat_norm (rat_trunc q) den) else None)
      | _ \<Rightarrow> None)"

fun first_some :: "('a \<Rightarrow> 'b option) \<Rightarrow> 'a list \<Rightarrow> 'b option" where
  "first_some f [] = None"
| "first_some f (x # xs) = (case f x of None \<Rightarrow> first_some f xs | Some y \<Rightarrow> Some y)"

definition rat_of_double :: "f64 \<Rightarrow> crat" where
  "rat_of_double d =
     (if d = NaN \<or> f64_lt (Fin 1000000000000000) d \<or> f64_lt d (Fin (- 1000000000000000)) then rat_bad
      else case first_some (try_den d) [1, 10, 100, 1000, 10000, 100000, 1000000] of
             None \<Rightarrow> rat_bad | Some r \<Rightarrow> r)"

section \<open>Linear expressions and constraints\<close>

record linexp =
  le_coef :: "crat list"
  le_konst :: crat
  le_bad :: bool

record linc =
  lc_coef :: "crat list"
  lc_konst :: crat
  lc_strict :: bool
  lc_eq :: bool
  lc_bad :: bool

record lastate =
  la_vars :: "vcterm list"
  la_cs :: "linc list"
  la_gave_up :: bool

definition la_new :: lastate where
  "la_new = \<lparr>la_vars = [], la_cs = [], la_gave_up = False\<rparr>"

definition la_is_shared_term :: "vcterm \<Rightarrow> bool" where
  "la_is_shared_term t \<longleftrightarrow> t_op t = VC_VAR \<or> t_op t = VC_APP"

definition la_var :: "lastate \<Rightarrow> vcterm \<Rightarrow> nat option \<times> lastate" where
  "la_var st t =
     (case find_index (\<lambda>v. v = t) (la_vars st) of
        Some i \<Rightarrow> (Some i, st)
      | None \<Rightarrow>
          if REFINE_MAX_LA_VARS \<le> length (la_vars st) then (None, st\<lparr>la_gave_up := True\<rparr>)
          else (Some (length (la_vars st)), st\<lparr>la_vars := la_vars st @ [t]\<rparr>))"

definition lin_zero :: linexp where
  "lin_zero = \<lparr>le_coef = replicate REFINE_MAX_LA_VARS (rat_of 0), le_konst = rat_of 0, le_bad = False\<rparr>"

definition lin_const :: "crat \<Rightarrow> linexp" where
  "lin_const k = lin_zero\<lparr>le_konst := k, le_bad := r_bad k\<rparr>"

definition lin_scale :: "linexp \<Rightarrow> crat \<Rightarrow> linexp" where
  "lin_scale e k =
     (if le_bad e \<or> r_bad k then e\<lparr>le_bad := True\<rparr>
      else let cs = map (\<lambda>c. rat_mul c k) (le_coef e); c0 = rat_mul (le_konst e) k
           in if (\<exists>c\<in>set cs. r_bad c) \<or> r_bad c0 then e\<lparr>le_bad := True\<rparr>
              else e\<lparr>le_coef := cs, le_konst := c0\<rparr>)"

definition lin_add :: "linexp \<Rightarrow> linexp \<Rightarrow> linexp" where
  "lin_add a b =
     (if le_bad a \<or> le_bad b then a\<lparr>le_bad := True\<rparr>
      else let cs = map2 rat_add (le_coef a) (le_coef b); c0 = rat_add (le_konst a) (le_konst b)
           in if (\<exists>c\<in>set cs. r_bad c) \<or> r_bad c0 then a\<lparr>le_bad := True\<rparr>
              else a\<lparr>le_coef := cs, le_konst := c0\<rparr>)"

definition lit_crat :: "vcterm \<Rightarrow> crat" where
  "lit_crat t = (if is_int_lit t then rat_of (as_int (t_as t)) else rat_of_double (as_real (t_as t)))"

definition lin_bad :: linexp where
  "lin_bad = lin_zero\<lparr>le_bad := True\<rparr>"

definition lin_opaque :: "vcterm \<Rightarrow> lastate \<Rightarrow> linexp \<times> lastate" where
  "lin_opaque t st =
     (case la_var st t of
        (None, st') \<Rightarrow> (lin_bad, st')
      | (Some v, st') \<Rightarrow> (lin_zero\<lparr>le_coef := (le_coef lin_zero)[v := rat_of 1]\<rparr>, st'))"

fun linearize :: "vcterm \<Rightarrow> nat \<Rightarrow> lastate \<Rightarrow> linexp \<times> lastate" where
  "linearize (Node op s ks p) depth st =
     (if LA_MAX_LINEARIZE_DEPTH < depth then (lin_bad, st)
      else
        case (op, ks) of
          (VC_CONST_INT, _) \<Rightarrow> (lin_const (rat_of (as_int p)), st)
        | (VC_CONST_REAL, _) \<Rightarrow> (lin_const (rat_of_double (as_real p)), st)
        | (VC_ADD, [a, b]) \<Rightarrow>
            (let (ea, st1) = linearize a (depth + 1) st; (eb, st2) = linearize b (depth + 1) st1
             in (lin_add ea eb, st2))
        | (VC_SUB, [a, b]) \<Rightarrow>
            (let (ea, st1) = linearize a (depth + 1) st; (eb, st2) = linearize b (depth + 1) st1
             in (lin_add ea (lin_scale eb (rat_of (-1))), st2))
        | (VC_NEG, [a]) \<Rightarrow>
            (let (ea, st1) = linearize a (depth + 1) st in (lin_scale ea (rat_of (-1)), st1))
        | (VC_MUL, [a, b]) \<Rightarrow>
            (if is_num_lit a then
               (if r_bad (lit_crat a) then (lin_bad, st)
                else let (eb, st1) = linearize b (depth + 1) st in (lin_scale eb (lit_crat a), st1))
             else if is_num_lit b then
               (if r_bad (lit_crat b) then (lin_bad, st)
                else let (ea, st1) = linearize a (depth + 1) st in (lin_scale ea (lit_crat b), st1))
             else lin_opaque (Node op s ks p) st)
        | (VC_DIV, [a, b]) \<Rightarrow>
            (if is_num_lit b then
               (let k = lit_crat b
                in if r_bad k \<or> rat_zero k then (lin_bad, st)
                   else
                     let i = rat_norm (r_den k) (r_num k)
                     in if r_bad i then (lin_bad, st)
                        else if s \<noteq> VS_REAL then lin_opaque (Node op s ks p) st
                        else let (ea, st1) = linearize a (depth + 1) st in (lin_scale ea i, st1))
             else lin_opaque (Node op s ks p) st)
        | _ \<Rightarrow> lin_opaque (Node op s ks p) st)"

definition constant_false :: "linc \<Rightarrow> nat \<Rightarrow> bool" where
  "constant_false c n_vars =
     (if \<exists>a\<in>set (take n_vars (lc_coef c)). \<not> rat_zero a then False
      else if r_bad (lc_konst c) then False
      else if lc_eq c then r_num (lc_konst c) \<noteq> 0
      else if lc_strict c then r_num (lc_konst c) \<ge> 0 else r_num (lc_konst c) > 0)"

definition make_false :: "linc \<Rightarrow> linc" where
  "make_false c = \<lparr>lc_coef = replicate REFINE_MAX_LA_VARS (rat_of 0), lc_konst = rat_of 0,
                   lc_strict = True, lc_eq = False, lc_bad = False\<rparr>"

section \<open>Integer normalisation\<close>

text \<open>
  The scan over the coefficients: None when the constraint is to be left alone, else the least
  common multiple of the denominators and whether any variable occurs.
\<close>

fun norm_scan :: "vcsort list \<Rightarrow> crat list \<Rightarrow> int \<Rightarrow> bool \<Rightarrow> (int \<times> bool) option" where
  "norm_scan (s # ss) (c # cs) L any =
     (if rat_zero c then norm_scan ss cs L any
      else if r_bad c then None
      else if s \<noteq> VS_INT then None
      else let L' = ilcm L (r_den c) in if L' = 0 then None else norm_scan ss cs L' True)"
| "norm_scan _ _ L any = Some (L, any)"

definition norm_apply :: "nat \<Rightarrow> crat list \<Rightarrow> int \<Rightarrow> int \<Rightarrow> linc \<Rightarrow> linc" where
  "norm_apply n coef g bound c =
     c\<lparr>lc_coef := map (\<lambda>a. rat_of (r_num a sdiv g)) coef
                 @ replicate (REFINE_MAX_LA_VARS - n) (rat_of 0),
       lc_konst := rat_of (- bound), lc_strict := False\<rparr>"

definition int_bound :: "bool \<Rightarrow> crat \<Rightarrow> int \<Rightarrow> int option" where
  "int_bound strict b g =
     (let bi0 = (if strict then rat_ceil b else rat_floor b)
      in if strict \<and> bi0 = INT64_MIN then None
         else let bi = (if strict then bi0 - 1 else bi0); q = bi sdiv g
              in Some (if bi smod g \<noteq> 0 \<and> bi < 0 then q - 1 else q))"

definition int_normalize :: "vcsort list \<Rightarrow> linc \<Rightarrow> bool \<times> linc" where
  "int_normalize sorts c =
     (if lc_bad c \<or> r_bad (lc_konst c) then (True, c)
      else case norm_scan sorts (lc_coef c) 1 False of
        None \<Rightarrow> (True, c)
      | Some (L, any) \<Rightarrow>
          if \<not> any then (True, c)
          else
            let n = length sorts; coef = map (\<lambda>a. rat_mul a (rat_of L)) (take n (lc_coef c))
            in if \<exists>a\<in>set coef. r_bad a then (True, c)
               else
                 let g = fold (\<lambda>a g. igcd0 g (r_num a)) coef 0
                 in if g \<le> 0 then (True, c)
                    else
                      let b = rat_neg (rat_mul (lc_konst c) (rat_of L))
                      in if r_bad b then (True, c)
                         else if lc_eq c then
                           (if \<not> rat_is_int b then (False, make_false c)
                            else if r_num b smod g \<noteq> 0 then (False, make_false c)
                            else if r_num b sdiv g = INT64_MIN then (True, c)
                            else (True, norm_apply n coef g (r_num b sdiv g) c))
                         else
                           (case int_bound (lc_strict c) b g of
                              None \<Rightarrow> (True, c)
                            | Some bound \<Rightarrow>
                                if bound = INT64_MIN then (True, c)
                                else (True, norm_apply n coef g bound c)))"

section \<open>Assertions\<close>

definition la_sorts :: "lastate \<Rightarrow> vcsort list" where
  "la_sorts st = map t_sort (la_vars st)"

definition la_push :: "lastate \<Rightarrow> linexp \<Rightarrow> bool \<Rightarrow> bool \<Rightarrow> lastate" where
  "la_push st e strict is_eq =
     (if le_bad e then st
      else if REFINE_MAX_LA_CONSTR \<le> length (la_cs st) then st\<lparr>la_gave_up := True\<rparr>
      else
        let c = \<lparr>lc_coef = le_coef e, lc_konst = le_konst e, lc_strict = strict \<and> \<not> is_eq,
                 lc_eq = is_eq, lc_bad = False\<rparr>
        in if is_eq \<and> (\<forall>a\<in>set (take (length (la_vars st)) (lc_coef c)). rat_zero a)
           then (if rat_zero (lc_konst c) then st else st\<lparr>la_cs := la_cs st @ [c]\<rparr>)
           else st\<lparr>la_cs := la_cs st @ [snd (int_normalize (la_sorts st) c)]\<rparr>)"

definition lin_diff :: "lastate \<Rightarrow> vcterm \<Rightarrow> vcterm \<Rightarrow> linexp \<times> lastate" where
  "lin_diff st x y =
     (let (ex, st1) = linearize x 0 st; (ey, st2) = linearize y 0 st1
      in (lin_add ex (lin_scale ey (rat_of (-1))), st2))"

definition la_assert_le :: "lastate \<Rightarrow> vcterm \<Rightarrow> vcterm \<Rightarrow> bool \<Rightarrow> bool \<times> lastate" where
  "la_assert_le st lhs rhs strict =
     (let (e, st1) = lin_diff st lhs rhs in (\<not> le_bad e, la_push st1 e strict False))"

definition la_assert_eq :: "lastate \<Rightarrow> vcterm \<Rightarrow> vcterm \<Rightarrow> bool \<times> lastate" where
  "la_assert_eq st x y =
     (let (e, st1) = lin_diff st x y in (\<not> le_bad e, la_push st1 e False True))"

definition la_assert_lit :: "vcterm \<Rightarrow> lastate \<Rightarrow> lastate" where
  "la_assert_lit lit st =
     (let atm = refine_lit_atom lit; neg = refine_lit_is_neg lit; x = kid atm 0; y = kid atm 1
      in if length (t_kids atm) \<noteq> 2 then st
         else if \<not> vc_is_arith x \<or> \<not> vc_is_arith y then st
         else case t_op atm of
                VC_LT \<Rightarrow> snd (if neg then la_assert_le st y x False else la_assert_le st x y True)
              | VC_LE \<Rightarrow> snd (if neg then la_assert_le st y x True else la_assert_le st x y False)
              | VC_EQ \<Rightarrow> (if neg then st else snd (la_assert_eq st x y))
              | _ \<Rightarrow> st)"

definition la_assert_cube :: "lastate \<Rightarrow> cube \<Rightarrow> bool \<times> lastate" where
  "la_assert_cube st c = (let st' = fold la_assert_lit c st in (\<not> la_gave_up st', st'))"

section \<open>Equality elimination\<close>

definition find_pivot :: "vcsort list \<Rightarrow> linc \<Rightarrow> nat option" where
  "find_pivot sorts E =
     (let n = length sorts;
          allint = (\<forall>j<n. rat_zero (lc_coef E ! j) \<or> sorts ! j = VS_INT)
      in find_index (\<lambda>j. \<not> rat_zero (lc_coef E ! j) \<and> \<not> r_bad (lc_coef E ! j) \<and>
            (\<not> allint \<or> (r_den (lc_coef E ! j) = 1 \<and> (r_num (lc_coef E ! j) = 1 \<or> r_num (lc_coef E ! j) = -1))))
          [0..<n])"

definition upd_first :: "nat \<Rightarrow> (crat \<Rightarrow> crat \<Rightarrow> crat) \<Rightarrow> crat list \<Rightarrow> crat list \<Rightarrow> crat list" where
  "upd_first n f cs ds = map2 f (take n cs) (take n ds) @ drop n cs"

definition negate_linc :: "nat \<Rightarrow> linc \<Rightarrow> linc option" where
  "negate_linc n c =
     (let cs = map rat_neg (take n (lc_coef c)); k = rat_neg (lc_konst c)
      in if (\<exists>a\<in>set cs. r_bad a) \<or> r_bad k then None
         else Some (c\<lparr>lc_coef := cs @ drop n (lc_coef c), lc_konst := k\<rparr>))"

text \<open>
  Substituting through the pivot in one other constraint: None when the integer phase finds a
  contradiction, a constraint marked bad when a coefficient overflows.
\<close>

definition subst_linc :: "vcsort list \<Rightarrow> linc \<Rightarrow> nat \<Rightarrow> linc \<Rightarrow> linc option" where
  "subst_linc sorts E p c =
     (if rat_zero (lc_coef c ! p) then Some c
      else
        let n = length sorts;
            f = rat_mul (lc_coef c ! p) (rat_norm (r_den (lc_coef E ! p)) (r_num (lc_coef E ! p)));
            cs = upd_first n (\<lambda>a e. rat_add a (rat_neg (rat_mul f e))) (lc_coef c) (lc_coef E);
            k = rat_add (lc_konst c) (rat_neg (rat_mul f (lc_konst E)))
        in if r_bad f \<or> (\<exists>a\<in>set (take n cs). r_bad a) \<or> r_bad k then Some (c\<lparr>lc_bad := True\<rparr>)
           else
             let (ok, out) = int_normalize sorts (c\<lparr>lc_coef := cs[p := rat_of 0], lc_konst := k\<rparr>)
             in if \<not> ok \<or> constant_false out n then None else Some out)"

fun map_opt :: "('a \<Rightarrow> 'b option) \<Rightarrow> 'a list \<Rightarrow> 'b list option" where
  "map_opt f [] = Some []"
| "map_opt f (x # xs) =
     (case f x of None \<Rightarrow> None | Some y \<Rightarrow> map_option (\<lambda>ys. y # ys) (map_opt f xs))"

text \<open>Flags the elimination preserves, used for its termination.\<close>

lemma int_normalize_eq: "int_normalize sorts c = (True, c') \<Longrightarrow> lc_eq c' = lc_eq c"
  by (auto simp: int_normalize_def norm_apply_def Let_def split: option.splits prod.splits if_splits)

lemma subst_linc_eq: "subst_linc sorts E p c = Some c' \<Longrightarrow> lc_eq c' = lc_eq c"
  by (auto simp: subst_linc_def Let_def split: if_splits prod.splits dest!: int_normalize_eq)

lemma map_opt_subst_eq:
  "map_opt (subst_linc sorts E p) cs = Some cs' \<Longrightarrow> map lc_eq cs' = map lc_eq cs"
  by (induction cs arbitrary: cs') (auto split: option.splits dest: subst_linc_eq)

lemma length_filter_map_eq: "map f xs = map f ys \<Longrightarrow> length (filter f xs) = length (filter f ys)"
proof (induction xs arbitrary: ys)
  case (Cons x xs)
  then show ?case by (cases ys) auto
qed simp

lemma length_filter_filter_le: "length (filter P (filter Q xs)) \<le> length (filter P xs)"
  by (induction xs) auto

lemma negate_linc_eq: "negate_linc n c = Some c' \<Longrightarrow> lc_eq c' = lc_eq c"
  by (auto simp: negate_linc_def Let_def split: if_splits)

definition opt_list :: "'a option \<Rightarrow> 'a list" where
  "opt_list x = (case x of None \<Rightarrow> [] | Some y \<Rightarrow> [y])"

function eq_eliminate :: "vcsort list \<Rightarrow> linc list \<Rightarrow> linc list option" where
  "eq_eliminate sorts cur =
     (case split_first lc_eq cur of
        None \<Rightarrow> Some cur
      | Some (pre, E, post) \<Rightarrow>
          (case find_pivot sorts E of
             None \<Rightarrow>
               let E' = E\<lparr>lc_eq := False, lc_strict := False\<rparr>
               in eq_eliminate sorts (pre @ E' # post @ opt_list (negate_linc (length sorts) E'))
           | Some p \<Rightarrow>
               (case map_opt (subst_linc sorts E p) (pre @ post) of
                  None \<Rightarrow> None
                | Some cs \<Rightarrow> eq_eliminate sorts (filter (\<lambda>c. \<not> lc_bad c) cs))))"
  by pat_completeness auto
termination
proof (relation "measure (\<lambda>(sorts, cur). length (filter lc_eq cur))", goal_cases)
  case 1
  then show ?case by simp
next
  case (2 sorts cur r pre r2 E post E')
  then have c: "cur = pre @ E # post \<and> lc_eq E" using split_first_Some [of lc_eq cur pre E post] by simp
  have "filter lc_eq (opt_list (negate_linc (length sorts) E')) = []"
    using 2 by (auto simp: opt_list_def split: option.split dest: negate_linc_eq)
  with c 2 show ?case by simp
next
  case (3 sorts cur r pre r2 E post p cs)
  then have c: "cur = pre @ E # post \<and> lc_eq E" using split_first_Some [of lc_eq cur pre E post] by simp
  have "length (filter lc_eq cs) = length (filter lc_eq (pre @ post))"
    using 3 by (intro length_filter_map_eq map_opt_subst_eq) simp
  with c length_filter_filter_le [of lc_eq "\<lambda>c. \<not> lc_bad c" cs] show ?case by simp
qed

declare eq_eliminate.simps [simp del]

section \<open>Fourier-Motzkin\<close>

definition fm_combine :: "vcsort list \<Rightarrow> nat \<Rightarrow> linc \<Rightarrow> linc \<Rightarrow> linc option" where
  "fm_combine sorts v ci cj =
     (let n = length sorts; si = rat_neg (lc_coef cj ! v); sj = lc_coef ci ! v;
          cs = map2 (\<lambda>a b. rat_add (rat_mul a si) (rat_mul b sj)) (take n (lc_coef ci)) (take n (lc_coef cj));
          k = rat_add (rat_mul (lc_konst ci) si) (rat_mul (lc_konst cj) sj)
      in if (\<exists>a\<in>set cs. r_bad a) \<or> r_bad k then None
         else Some (snd (int_normalize sorts
                \<lparr>lc_coef = cs @ replicate (REFINE_MAX_LA_VARS - n) (rat_of 0), lc_konst = k,
                 lc_strict = lc_strict ci \<or> lc_strict cj, lc_eq = False, lc_bad = False\<rparr>)))"

text \<open>
  The inner loops: None when a combination is a contradiction (\<open>la_unsat\<close> then returns true).
\<close>

fun fm_row :: "vcsort list \<Rightarrow> nat \<Rightarrow> nat \<Rightarrow> linc \<Rightarrow> linc list \<Rightarrow> linc list \<Rightarrow> linc list option" where
  "fm_row sorts v nmax ci [] nxt = Some nxt"
| "fm_row sorts v nmax ci (cj # cjrest) nxt =
     (if \<not> rat_neg_p (lc_coef cj ! v) then fm_row sorts v nmax ci cjrest nxt
      else case fm_combine sorts v ci cj of
             None \<Rightarrow> fm_row sorts v nmax ci cjrest nxt
           | Some out \<Rightarrow>
               if constant_false out (length sorts) then None
               else fm_row sorts v nmax ci cjrest (if length nxt < nmax then nxt @ [out] else nxt))"

fun fm_rows :: "vcsort list \<Rightarrow> nat \<Rightarrow> nat \<Rightarrow> linc list \<Rightarrow> linc list \<Rightarrow> linc list \<Rightarrow> linc list option" where
  "fm_rows sorts v nmax cur [] nxt = Some nxt"
| "fm_rows sorts v nmax cur (ci # cirest) nxt =
     (if nmax < length nxt then Some nxt
      else if \<not> rat_pos (lc_coef ci ! v) then fm_rows sorts v nmax cur cirest nxt
      else case fm_row sorts v nmax ci cur nxt of
             None \<Rightarrow> None
           | Some nxt' \<Rightarrow> fm_rows sorts v nmax cur cirest nxt')"

fun fm_elim :: "vcsort list \<Rightarrow> nat list \<Rightarrow> linc list \<Rightarrow> bool" where
  "fm_elim sorts [] cur = (\<exists>c\<in>set cur. constant_false c (length sorts))"
| "fm_elim sorts (v # vs) cur =
     (let n_pos = length (filter (\<lambda>c. rat_pos (lc_coef c ! v)) cur);
          n_neg = length (filter (\<lambda>c. rat_neg_p (lc_coef c ! v)) cur);
          nmax = (length cur - n_pos - n_neg) + n_pos * n_neg
      in if REFINE_MAX_LA_CONSTR < nmax then False
         else case fm_rows sorts v nmax cur cur (filter (\<lambda>c. rat_zero (lc_coef c ! v)) cur) of
                None \<Rightarrow> True
              | Some nxt \<Rightarrow>
                  if \<exists>c\<in>set nxt. constant_false c (length sorts) then True
                  else if nxt = [] then False
                  else fm_elim sorts vs nxt)"

definition la_unsat :: "lastate \<Rightarrow> bool" where
  "la_unsat st =
     (if la_gave_up st then False
      else if la_cs st = [] then False
      else
        let sorts = la_sorts st; n = length (la_vars st)
        in if \<exists>c\<in>set (la_cs st). constant_false c n then True
           else case eq_eliminate sorts (la_cs st) of
                  None \<Rightarrow> True
                | Some cur \<Rightarrow>
                    if cur = [] then False
                    else if \<exists>c\<in>set cur. constant_false c n then True
                    else fm_elim sorts [0..<n] cur)"

definition la_set_is_int_multivar :: "lastate \<Rightarrow> bool" where
  "la_set_is_int_multivar st \<longleftrightarrow>
     la_cs st \<noteq> [] \<and> (\<forall>v\<in>set (la_vars st). t_sort v = VS_INT) \<and>
     (\<exists>c\<in>set (la_cs st). 2 \<le> length (filter (\<lambda>a. \<not> rat_zero a) (take (length (la_vars st)) (lc_coef c))))"

definition la_entails_eq :: "lastate \<Rightarrow> vcterm \<Rightarrow> vcterm \<Rightarrow> bool \<times> lastate" where
  "la_entails_eq st x y =
     (if la_gave_up st then (False, st)
      else
        let saved = length (la_cs st);
            st1 = snd (la_assert_le st x y True);
            lt_unsat = la_unsat st1;
            st2 = st1\<lparr>la_cs := take saved (la_cs st1)\<rparr>
        in if \<not> lt_unsat then (False, st2)
           else
             let st3 = snd (la_assert_le st2 y x True);
                 gt_unsat = la_unsat st3
             in (gt_unsat, st3\<lparr>la_cs := take saved (la_cs st3)\<rparr>))"

text \<open>The stage: one fresh state per cube.\<close>

definition s2_refute :: "refinevc \<Rightarrow> unit \<Rightarrow> cube \<Rightarrow> bool \<times> unit" where
  "s2_refute vc u c = (la_unsat (snd (la_assert_cube la_new c)), u)"

definition refine_s2_decide_cc :: stage where
  "refine_s2_decide_cc = decide_by_cubes (\<lambda>vc. ()) s2_refute"

end
