(* ===== verification/LinRatSound.thy ===== *)
theory LinRatSound
  imports LinArith
begin

text \<open>
  The exact rationals of stage S2 compute the right values: a result that is not marked bad is a
  reduced fraction with the value of the mathematical operation. \<open>rsem r x\<close> says that \<open>r\<close> is bad
  or is the value \<open>x\<close>; every operation preserves it, so that it composes without side conditions.
\<close>

named_theorems rat_intros \<open>the relation rsem is preserved\<close>

section \<open>Values\<close>

definition rok :: "crat \<Rightarrow> bool" where
  "rok r \<longleftrightarrow> \<not> r_bad r \<and> r_den r > 0 \<and> coprime (r_num r) (r_den r)"

definition rval :: "crat \<Rightarrow> real" where
  "rval r = of_int (r_num r) / of_int (r_den r)"

definition rsem :: "crat \<Rightarrow> real \<Rightarrow> bool" where
  "rsem r x \<longleftrightarrow> r_bad r \<or> (rok r \<and> rval r = x)"

lemma rsem_val: "rsem r x \<Longrightarrow> \<not> r_bad r \<Longrightarrow> rok r \<and> rval r = x"
  by (simp add: rsem_def)

lemma rok_rsem [rat_intros]: "rok r \<Longrightarrow> rsem r (rval r)"
  by (simp add: rsem_def)

lemma rsem_bad [simp]: "rsem rat_bad x"
  by (simp add: rsem_def rat_bad_def)

lemma rok_not_bad [simp]: "rok r \<Longrightarrow> \<not> r_bad r"
  by (simp add: rok_def)

lemma rok_rat_of [simp]: "rok (rat_of v)"
  by (simp add: rok_def rat_of_def)

lemma rval_rat_of [simp]: "rval (rat_of v) = of_int v"
  by (simp add: rval_def rat_of_def)

lemma rsem_rat_of [rat_intros]: "rsem (rat_of v) (of_int v)"
  by (simp add: rsem_def)

lemma rok_zero: "rok r \<Longrightarrow> rat_zero r \<longleftrightarrow> rval r = 0"
  by (simp add: rok_def rat_zero_def rval_def)

lemma rok_pos: "rok r \<Longrightarrow> rat_pos r \<longleftrightarrow> rval r > 0"
  by (auto simp: rok_def rat_pos_def rval_def zero_less_divide_iff)

lemma rok_neg: "rok r \<Longrightarrow> rat_neg_p r \<longleftrightarrow> rval r < 0"
  by (auto simp: rok_def rat_neg_p_def rval_def divide_less_0_iff)

lemma rat_zero_rval: "rat_zero r \<Longrightarrow> rval r = 0"
  by (simp add: rat_zero_def rval_def)

lemma rval_num_sign:
  assumes "rok r"
  shows "r_num r = 0 \<longleftrightarrow> rval r = 0" "r_num r \<ge> 0 \<longleftrightarrow> rval r \<ge> 0" "r_num r > 0 \<longleftrightarrow> rval r > 0"
  using assms by (auto simp: rok_def rval_def zero_le_divide_iff zero_less_divide_iff)

section \<open>Euclid\<close>

lemma smod_nonneg_mod: "0 \<le> a \<Longrightarrow> 0 < b \<Longrightarrow> a smod b = a mod (b::int)"
  by (cases "a = 0") (auto simp: signed_modulo_int_def)

lemma euclid_gcd: "0 \<le> a \<Longrightarrow> 0 \<le> b \<Longrightarrow> euclid a b = gcd a b"
proof (induction a b rule: euclid.induct)
  case (1 a b)
  show ?case
  proof (cases "b = 0")
    case True
    with 1 show ?thesis by (simp add: euclid.simps)
  next
    case False
    with 1 have "a smod b = a mod b" by (simp add: smod_nonneg_mod)
    with False 1 show ?thesis by (simp add: euclid.simps [of a b] gcd_red_int [of a b])
  qed
qed

lemma igcd0_gcd: "igcd0 a b = gcd a b"
  by (simp add: igcd0_def euclid_gcd)

lemma igcd_gcd: "igcd a b = (if gcd a b = 0 then 1 else gcd a b)"
  by (simp add: igcd_def euclid_gcd Let_def)

lemma sdiv_dvd:
  assumes "g dvd (a::int)" and "g > 0"
  shows "a sdiv g = a div g"
proof -
  obtain k where a: "a = g * k" using assms(1) by blast
  have "\<bar>g * k\<bar> div g = \<bar>k\<bar>" using assms(2) by (simp add: abs_mult)
  moreover have "sgn (g * k) = sgn k" using assms(2) by (simp add: sgn_mult)
  ultimately have "(g * k) sdiv g = sgn k * \<bar>k\<bar>"
    using assms(2) by (simp add: signed_divide_int_def mult.assoc)
  with a assms(2) show ?thesis by (simp add: sgn_mult_abs)
qed

section \<open>The operations\<close>

lemma rat_norm_pos:
  assumes "d > 0"
  shows "rat_norm n d = CRat (n div gcd n d) (d div gcd n d) False"
proof -
  have "gcd n d > 0" "gcd n d dvd n" "gcd n d dvd d" using assms by simp_all
  with assms show ?thesis by (simp add: rat_norm_def Let_def igcd_gcd sdiv_dvd)
qed

lemma rat_norm_pos_ok:
  assumes "d > 0"
  shows "rok (rat_norm n d) \<and> rval (rat_norm n d) = of_int n / of_int d"
proof -
  have g: "gcd n d > 0" "gcd n d dvd n" "gcd n d dvd d" using assms by simp_all
  have "coprime (n div gcd n d) (d div gcd n d)"
    using assms by (intro div_gcd_coprime) auto
  moreover have "d div gcd n d > 0"
    using g assms by (simp add: pos_imp_zdiv_pos_iff zdvd_imp_le)
  moreover have "real_of_int (n div gcd n d) / of_int (d div gcd n d) = of_int n / of_int d"
    using g assms by (simp add: real_of_int_div)
  ultimately show ?thesis using assms by (simp add: rat_norm_pos rok_def rval_def)
qed

lemma rat_norm_ok:
  assumes "\<not> r_bad (rat_norm n d)"
  shows "d \<noteq> 0 \<and> rok (rat_norm n d) \<and> rval (rat_norm n d) = of_int n / of_int d"
proof (cases "d < 0")
  case True
  with assms have "rat_norm n d = rat_norm (- n) (- d)"
    by (auto simp: rat_norm_def rat_bad_def split: if_splits)
  with True rat_norm_pos_ok [of "- d" "- n"] show ?thesis by simp
next
  case False
  with assms have "d > 0" by (auto simp: rat_norm_def rat_bad_def split: if_splits)
  then show ?thesis using rat_norm_pos_ok by simp
qed

lemma rsem_norm [rat_intros]: "x = of_int n / of_int d \<Longrightarrow> rsem (rat_norm n d) x"
  using rat_norm_ok by (auto simp: rsem_def)

lemma rsem_add [rat_intros]:
  assumes "rsem a x" and "rsem b y"
  shows "rsem (rat_add a b) (x + y)"
proof (cases "r_bad a \<or> r_bad b")
  case True
  then show ?thesis by (auto simp: rat_add_def)
next
  case False
  with assms have "x + y = of_int (r_num a * r_den b + r_num b * r_den a) / of_int (r_den a * r_den b)"
    by (auto simp: rsem_def rok_def rval_def add_frac_eq)
  with False show ?thesis
    by (auto simp: rat_add_def intro!: rat_intros split: option.split)
qed

lemma rsem_mul [rat_intros]:
  assumes "rsem a x" and "rsem b y"
  shows "rsem (rat_mul a b) (x * y)"
proof (cases "r_bad a \<or> r_bad b")
  case True
  then show ?thesis by (auto simp: rat_mul_def)
next
  case False
  define g1 where "g1 = igcd (r_num a) (r_den b)"
  define g2 where "g2 = igcd (r_num b) (r_den a)"
  from False assms have den: "r_den a > 0" "r_den b > 0" by (auto simp: rsem_def rok_def)
  have g: "g1 > 0" "g1 dvd r_num a" "g1 dvd r_den b" "g2 > 0" "g2 dvd r_num b" "g2 dvd r_den a"
    using den by (auto simp: g1_def g2_def igcd_gcd)
  have "x * y = of_int ((r_num a sdiv g1) * (r_num b sdiv g2)) / of_int ((r_den a sdiv g2) * (r_den b sdiv g1))"
    using False assms g den
    by (auto simp: rsem_def rval_def sdiv_dvd real_of_int_div field_simps)
  with False show ?thesis
    by (auto simp: rat_mul_def Let_def g1_def [symmetric] g2_def [symmetric] intro!: rat_intros split: option.split)
qed

lemma rsem_neg [rat_intros]: "rsem a x \<Longrightarrow> rsem (rat_neg a) (- x)"
  by (auto simp: rat_neg_def rsem_def rok_def rval_def rat_bad_def)

lemma rsem_sub_scaled:
  "rsem a x \<Longrightarrow> rsem f z \<Longrightarrow> rsem e y \<Longrightarrow> rsem (rat_add a (rat_neg (rat_mul f e))) (x - z * y)"
  using rsem_add [of a x "rat_neg (rat_mul f e)" "- (z * y)"] by (auto intro: rat_intros)

lemma rat_is_int_iff:
  assumes "rok a"
  shows "rat_is_int a \<longleftrightarrow> rval a \<in> \<int>"
proof
  assume "rval a \<in> \<int>"
  then obtain k where k: "rval a = of_int k" by (rule Ints_cases)
  have d: "r_den a > 0" "coprime (r_num a) (r_den a)" "\<not> r_bad a" using assms by (auto simp: rok_def)
  have "real_of_int (r_num a) = of_int (k * r_den a)" using k d by (simp add: rval_def field_simps)
  then have "r_num a = k * r_den a" using of_int_eq_iff by blast
  then have "r_den a dvd r_num a" by simp
  with d have "is_unit (r_den a)" by (metis coprime_common_divisor dvd_refl)
  with d show "rat_is_int a" by (simp add: rat_is_int_def)
qed (auto simp: rat_is_int_def rval_def)

lemma rat_is_int_val: "rok a \<Longrightarrow> rat_is_int a \<Longrightarrow> rval a = of_int (r_num a)"
  by (auto simp: rat_is_int_def rval_def)

lemma sdiv_floor:
  assumes "(g::int) > 0"
  shows "(if n smod g \<noteq> 0 \<and> n < 0 then n sdiv g - 1 else n sdiv g) = n div g"
proof -
  have decomp: "n = g * (n sdiv g) + n smod g" by (rule sdiv_smod_decomp)
  show ?thesis
  proof (cases "n < 0 \<and> n smod g \<noteq> 0")
    case True
    then have "- (g - 1) \<le> n smod g \<and> n smod g < 0" using smod_neg [of n g] assms by auto
    moreover have "n = g * (n sdiv g - 1) + (n smod g + g)"
      using decomp by (simp add: algebra_simps)
    ultimately have "n div g = n sdiv g - 1"
      using assms int_div_pos_eq [of n g "n sdiv g - 1" "n smod g + g"] by auto
    with True show ?thesis by simp
  next
    case False
    then have "0 \<le> n smod g \<and> n smod g < g"
      using smod_nonneg [of n g] assms by (cases "0 \<le> n") auto
    then have "n div g = n sdiv g"
      using decomp assms int_div_pos_eq [of n g "n sdiv g" "n smod g"] by auto
    with False show ?thesis by auto
  qed
qed

lemma rat_floor_ok: "rok a \<Longrightarrow> rat_floor a = \<lfloor>rval a\<rfloor>"
  using sdiv_floor [of "r_den a" "r_num a"]
  by (simp add: rok_def rat_floor_def Let_def rval_def floor_divide_of_int_eq)

lemma smod_minus: "(- a) smod b = - (a smod (b::int))"
  by (simp add: signed_modulo_int_def)

lemma sdiv_minus: "(- a) sdiv b = - (a sdiv (b::int))"
  by (simp add: signed_divide_int_def)

lemma rat_ceil_ok:
  assumes "rok a"
  shows "rat_ceil a = \<lceil>rval a\<rceil>"
proof -
  have "rat_ceil a = - rat_floor (CRat (- r_num a) (r_den a) False)"
    by (simp add: rat_ceil_def rat_floor_def Let_def smod_minus sdiv_minus)
  also have "\<dots> = - \<lfloor>- rval a\<rfloor>"
    using assms by (subst rat_floor_ok) (auto simp: rok_def rval_def)
  finally show ?thesis by (simp add: ceiling_def)
qed

lemma ilcm_ok:
  assumes "L > 0" and "d > 0" and "ilcm L d \<noteq> 0"
  shows "ilcm L d > 0 \<and> L dvd ilcm L d \<and> d dvd ilcm L d"
proof -
  have g: "gcd L d > 0" using assms by simp
  then have e: "ilcm L d = (L div gcd L d) * d"
    using assms by (auto simp: ilcm_def igcd0_gcd Let_def sdiv_dvd split: option.splits if_splits)
  have "(L div gcd L d) * d = L * (d div gcd L d)"
    by (metis div_mult_swap dvd_div_mult gcd_dvd1 gcd_dvd2)
  then have "L dvd ilcm L d" using e by simp
  moreover have "ilcm L d > 0"
    using e g assms by (simp add: pos_imp_zdiv_pos_iff zdvd_imp_le)
  ultimately show ?thesis using e by simp
qed

end
