(* ===== verification/LinNormSound.thy ===== *)
theory LinNormSound
  imports LinRatSound
begin

text \<open>
  Linear expressions under a valuation of the variables, the invariants of constraints, and the
  integer normalisation of \<open>int_normalize\<close>: an equivalence over the valuations that give
  int-sorted variables integer values.
\<close>

section \<open>Constraints under a valuation\<close>

fun dot :: "crat list \<Rightarrow> real list \<Rightarrow> real" where
  "dot (c # cs) (v # vs) = rval c * v + dot cs vs"
| "dot _ _ = 0"

definition lhs :: "real list \<Rightarrow> linc \<Rightarrow> real" where
  "lhs vs c = dot (lc_coef c) vs + rval (lc_konst c)"

definition csat :: "real list \<Rightarrow> linc \<Rightarrow> bool" where
  "csat vs c \<longleftrightarrow> (if lc_eq c then lhs vs c = 0 else if lc_strict c then lhs vs c < 0 else lhs vs c \<le> 0)"

text \<open>Every coefficient is a reduced fraction, and only the first \<open>n\<close> variables occur.\<close>

definition coefs_ok :: "nat \<Rightarrow> crat list \<Rightarrow> bool" where
  "coefs_ok n cs \<longleftrightarrow> length cs = REFINE_MAX_LA_VARS \<and> (\<forall>c\<in>set cs. rok c) \<and> (\<forall>c\<in>set (drop n cs). rval c = 0)"

definition cok :: "nat \<Rightarrow> linc \<Rightarrow> bool" where
  "cok n c \<longleftrightarrow> coefs_ok n (lc_coef c) \<and> rok (lc_konst c)"

definition ivals :: "vcsort list \<Rightarrow> real list \<Rightarrow> bool" where
  "ivals sorts vs \<longleftrightarrow> list_all2 (\<lambda>s v. s = VS_INT \<longrightarrow> v \<in> \<int>) sorts vs"

lemma ivals_length: "ivals sorts vs \<Longrightarrow> length sorts = length vs"
  by (simp add: ivals_def list_all2_lengthD)

lemma dot_Nil2 [simp]: "dot cs [] = 0"
  by (cases cs) auto

lemma dot_append2:
  "dot cs (vs @ ws) = dot cs vs + dot (drop (length vs) cs) ws"
  by (induction cs vs rule: dot.induct) auto

lemma dot_zero: "\<forall>c\<in>set cs. rval c = 0 \<Longrightarrow> dot cs vs = 0"
  by (induction cs vs rule: dot.induct) auto

lemma dot_take: "length vs \<le> n \<Longrightarrow> dot (take n cs) vs = dot cs vs"
proof (induction cs vs arbitrary: n rule: dot.induct)
  case (1 c cs v vs)
  then show ?case by (cases n) auto
qed auto

lemma dot_append1: "length vs \<le> length cs \<Longrightarrow> dot (cs @ ds) vs = dot cs vs"
  by (induction cs vs rule: dot.induct) auto

lemma dot_map_scale:
  "\<forall>c\<in>set cs. rval (f c) = k * rval c \<Longrightarrow> dot (map f cs) vs = k * dot cs vs"
  by (induction cs vs rule: dot.induct) (auto simp: algebra_simps)

lemma dot_map2:
  "length cs = length ds \<Longrightarrow> \<forall>(c, d)\<in>set (zip cs ds). rval (f c d) = k * rval c + l * rval d \<Longrightarrow>
   dot (map2 f cs ds) vs = k * dot cs vs + l * dot ds vs"
proof (induction cs ds arbitrary: vs rule: list_induct2)
  case Nil
  then show ?case by simp
next
  case (Cons c cs d ds)
  then show ?case by (cases vs) (auto simp: algebra_simps)
qed

lemma dot_update:
  "p < length cs \<Longrightarrow> p < length vs \<Longrightarrow> dot (cs[p := c]) vs = dot cs vs + (rval c - rval (cs ! p)) * vs ! p"
proof (induction cs vs arbitrary: p rule: dot.induct)
  case (1 c cs v vs)
  then show ?case by (cases p) (auto simp: algebra_simps)
qed auto

lemma coefs_ok_mono: "coefs_ok n cs \<Longrightarrow> n \<le> m \<Longrightarrow> coefs_ok m cs"
  using set_drop_subset_set_drop [of n m cs] by (auto simp: coefs_ok_def)

lemma cok_mono: "cok n c \<Longrightarrow> n \<le> m \<Longrightarrow> cok m c"
  by (auto simp: cok_def intro: coefs_ok_mono)

lemma dot_extend: "coefs_ok (length vs) cs \<Longrightarrow> dot cs (vs @ ws) = dot cs vs"
  by (simp add: dot_append2 coefs_ok_def dot_zero)

lemma csat_extend: "cok (length vs) c \<Longrightarrow> csat (vs @ ws) c = csat vs c"
  by (simp add: csat_def lhs_def cok_def dot_extend)

lemma coefs_ok_replicate [simp]: "coefs_ok n (replicate REFINE_MAX_LA_VARS (rat_of 0))"
  by (simp add: coefs_ok_def)

lemma coefs_okD: "coefs_ok n cs \<Longrightarrow> c \<in> set cs \<Longrightarrow> rok c"
  by (simp add: coefs_ok_def)

lemma coefs_ok_pad:
  assumes "length cs = n" and "n \<le> REFINE_MAX_LA_VARS" and "\<forall>c\<in>set cs. rok c"
  shows "coefs_ok n (cs @ replicate (REFINE_MAX_LA_VARS - n) (rat_of 0))"
  using assms by (auto simp: coefs_ok_def)

lemma coefs_ok_keep:
  assumes "coefs_ok n ds" and "length cs = n" and "n \<le> REFINE_MAX_LA_VARS" and "\<forall>c\<in>set cs. rok c"
  shows "coefs_ok n (cs @ drop n ds)"
  using assms by (auto simp: coefs_ok_def dest: in_set_dropD)

text \<open>A variable-free constraint that \<open>constant_false\<close> reports holds under no valuation.\<close>

lemma constant_false_sound:
  assumes "constant_false c (length vs)" and "cok (length vs) c"
  shows "\<not> csat vs c"
proof -
  have z: "\<forall>a\<in>set (take (length vs) (lc_coef c)). rval a = 0"
    using assms(1) rat_zero_rval by (auto simp: constant_false_def split: if_splits)
  have "dot (lc_coef c) vs = dot (take (length vs) (lc_coef c)) vs" by (simp add: dot_take)
  then have "lhs vs c = rval (lc_konst c)" using dot_zero [OF z] by (simp add: lhs_def)
  moreover have k: "rok (lc_konst c)" using assms(2) by (simp add: cok_def)
  ultimately show ?thesis
    using assms(1) rval_num_sign [OF k] by (auto simp: constant_false_def csat_def split: if_splits)
qed

lemma make_false_unsat: "\<not> csat vs (make_false c) \<and> cok n (make_false c)"
  by (simp add: make_false_def csat_def lhs_def cok_def dot_zero)

section \<open>Integer normalisation\<close>

lemma norm_scan_ok:
  assumes "norm_scan sorts cs L any = Some (L', any')" and "L > 0"
    and "length sorts \<le> length cs" and "\<forall>c\<in>set cs. rok c"
  shows "L' > 0 \<and> L dvd L' \<and>
    (\<forall>i<length sorts. \<not> rat_zero (cs ! i) \<longrightarrow> sorts ! i = VS_INT \<and> r_den (cs ! i) dvd L')"
  using assms
proof (induction sorts cs L any rule: norm_scan.induct)
  case (1 s ss c cs L any)
  show ?case
  proof (cases "rat_zero c")
    case True
    with 1 show ?thesis by (auto simp: less_Suc_eq_0_disj)
  next
    case False
    define l where "l = ilcm L (r_den c)"
    have c: "rok c" using 1 by simp
    from False c 1(3) have l0: "s = VS_INT" "l \<noteq> 0" "norm_scan ss cs l True = Some (L', any')"
      by (auto simp: l_def Let_def split: if_splits)
    have l: "l > 0" "L dvd l" "r_den c dvd l"
      using ilcm_ok [of L "r_den c"] l0 c 1(4) by (auto simp: l_def rok_def)
    have "L' > 0 \<and> l dvd L' \<and>
      (\<forall>i<length ss. \<not> rat_zero (cs ! i) \<longrightarrow> ss ! i = VS_INT \<and> r_den (cs ! i) dvd L')"
      using 1(2) [OF False] l0 l 1 c unfolding l_def by auto
    with l l0 show ?thesis by (auto simp: less_Suc_eq_0_disj intro: dvd_trans)
  qed
qed auto

text \<open>The gcd loop: it divides every numerator.\<close>

lemma gcd_fold:
  "0 \<le> g \<Longrightarrow> (let r = fold (\<lambda>a g. igcd0 g (r_num a)) cs g in 0 \<le> r \<and> r dvd g \<and> (\<forall>a\<in>set cs. r dvd r_num a))"
proof (induction cs arbitrary: g)
  case Nil
  then show ?case by simp
next
  case (Cons a cs)
  show ?case
    using Cons.IH [of "igcd0 g (r_num a)"] by (auto simp: Let_def igcd0_gcd)
qed

text \<open>A sum with integer coefficients over the int variables is an integer.\<close>

lemma dot_int:
  assumes "list_all2 (\<lambda>c v. rval c = 0 \<or> (rval c \<in> \<int> \<and> v \<in> \<int>)) cs vs"
  shows "dot cs vs \<in> \<int>"
  using assms by (induction cs vs rule: list_all2_induct) auto

lemma le_div_int_iff:
  assumes "(g::int) > 0"
  shows "S \<le> bi div g \<longleftrightarrow> g * S \<le> bi"
proof
  assume "S \<le> bi div g"
  then have "g * S \<le> g * (bi div g)" using assms by simp
  also have "\<dots> \<le> bi" using mult_div_mod_eq [of g bi] pos_mod_sign [OF assms, of bi] by linarith
  finally show "g * S \<le> bi" .
next
  assume "g * S \<le> bi"
  then have "(g * S) div g \<le> bi div g" using assms by (rule zdiv_mono1)
  then show "S \<le> bi div g" using assms by simp
qed

lemma int_bound_le:
  assumes "g > 0" and "rok b" and "int_bound strict b g = Some q"
  shows "(if strict then of_int (g * S) < rval b else of_int (g * S) \<le> rval b) \<longleftrightarrow> S \<le> q"
proof -
  define bi where "bi = (if strict then \<lceil>rval b\<rceil> - 1 else \<lfloor>rval b\<rfloor>)"
  have q: "q = bi div g"
    using assms sdiv_floor [OF assms(1), of bi]
    by (auto simp: int_bound_def bi_def Let_def rat_ceil_ok rat_floor_ok split: if_splits)
  have "(if strict then of_int (g * S) < rval b else of_int (g * S) \<le> rval b) \<longleftrightarrow> g * S \<le> bi"
    by (auto simp: bi_def le_floor_iff less_ceiling_iff)
  also have "\<dots> \<longleftrightarrow> S \<le> q"
    using assms(1) by (simp add: q le_div_int_iff)
  finally show ?thesis .
qed

text \<open>
  Scaled by the common denominator \<open>L\<close>, the variable part of the constraint is \<open>g\<close> times an
  integer, and that integer is the variable part of the normalised constraint.
\<close>

lemma norm_scaled:
  assumes c: "coefs_ok (length vs) (lc_coef c)" and iv: "ivals sorts vs"
    and n: "length vs \<le> REFINE_MAX_LA_VARS"
    and scan: "norm_scan sorts (lc_coef c) 1 False = Some (L, any)"
    and coef: "coef = map (\<lambda>a. rat_mul a (rat_of L)) (take (length vs) (lc_coef c))"
    and nb: "\<forall>a\<in>set coef. \<not> r_bad a"
    and g: "g = fold (\<lambda>a g. igcd0 g (r_num a)) coef 0" "g > 0"
  shows "L > 0" and "\<exists>S::int. of_int L * dot (lc_coef c) vs = of_int (g * S) \<and>
      dot (lc_coef (norm_apply (length vs) coef g bound c)) vs = of_int S"
    and "cok (length vs) (norm_apply (length vs) coef g bound c)"
proof -
  have len: "length sorts = length vs" using iv by (rule ivals_length)
  have lc: "length (lc_coef c) = REFINE_MAX_LA_VARS" "\<forall>a\<in>set (lc_coef c). rok a"
    using c by (auto simp: coefs_ok_def)
  have L: "L > 0" "\<And>i. i < length vs \<Longrightarrow> \<not> rat_zero (lc_coef c ! i) \<Longrightarrow>
      sorts ! i = VS_INT \<and> r_den (lc_coef c ! i) dvd L"
    using norm_scan_ok [OF scan] lc len n by auto
  show "L > 0" by fact
  have lcoef: "length coef = length vs" using lc n by (simp add: coef)
  have ci: "rok (coef ! i) \<and> rval (coef ! i) = of_int L * rval (lc_coef c ! i)" if "i < length vs" for i
  proof -
    have "rsem (coef ! i) (rval (lc_coef c ! i) * of_int L)"
      using that lc n by (auto simp: coef intro!: rat_intros)
    then show ?thesis using nb that lcoef rsem_val by (auto simp: mult.commute)
  qed
  have cint: "rval (coef ! i) = of_int (r_num (coef ! i))" if i: "i < length vs" for i
  proof (cases "rat_zero (lc_coef c ! i)")
    case True
    then have "rval (coef ! i) = 0" using ci [OF i] rat_zero_rval by simp
    then show ?thesis using rval_num_sign(1) [of "coef ! i"] ci [OF i] by simp
  next
    case False
    then obtain k where "L = r_den (lc_coef c ! i) * k" using L(2) [OF i] by blast
    moreover have "r_den (lc_coef c ! i) > 0" using lc i n by (auto simp: rok_def)
    ultimately have "rval (coef ! i) = of_int (k * r_num (lc_coef c ! i))"
      using ci [OF i] by (simp add: rval_def)
    then have "rval (coef ! i) \<in> \<int>" using Ints_of_int by metis
    then show ?thesis using rat_is_int_iff rat_is_int_val ci [OF i] by blast
  qed
  have gd: "g dvd r_num a" if "a \<in> set coef" for a
    using gcd_fold [of 0 coef] that g(1) by (simp add: Let_def)
  define ncoef where "ncoef = map (\<lambda>a. rat_of (r_num a sdiv g)) coef"
  have nc: "rval (ncoef ! i) = of_int (r_num (coef ! i) div g)" if "i < length vs" for i
    using that lcoef gd [of "coef ! i"] g(2) by (simp add: ncoef_def sdiv_dvd)
  have "dot ncoef vs \<in> \<int>"
  proof (rule dot_int, rule list_all2_all_nthI)
    fix i
    assume "i < length ncoef"
    then have i: "i < length vs" using lcoef by (simp add: ncoef_def)
    show "rval (ncoef ! i) = 0 \<or> rval (ncoef ! i) \<in> \<int> \<and> vs ! i \<in> \<int>"
    proof (cases "rat_zero (lc_coef c ! i)")
      case True
      then have "rval (coef ! i) = 0" using ci [OF i] rat_zero_rval by simp
      then show ?thesis using rval_num_sign(1) [of "coef ! i"] ci [OF i] nc [OF i] by simp
    next
      case False
      then have "sorts ! i = VS_INT" using L(2) [OF i] by simp
      then have "vs ! i \<in> \<int>" using iv i by (auto simp: ivals_def list_all2_conv_all_nth)
      then show ?thesis using nc [OF i] by simp
    qed
  qed (simp add: ncoef_def lcoef)
  then obtain S where S: "dot ncoef vs = of_int S" by (rule Ints_cases)
  have "of_int L * dot (lc_coef c) vs = dot coef vs"
  proof -
    have "dot coef vs = of_int L * dot (take (length vs) (lc_coef c)) vs"
      unfolding coef using ci lcoef by (intro dot_map_scale) (auto simp: coef in_set_conv_nth)
    then show ?thesis by (simp add: dot_take)
  qed
  also have "dot coef vs = of_int g * dot ncoef vs"
  proof -
    have "rval (rat_of (r_num a sdiv g)) = 1 / of_int g * rval a" if "a \<in> set coef" for a
      using gd [OF that] that cint g(2) lcoef
      by (auto simp: in_set_conv_nth sdiv_dvd real_of_int_div)
    then have "dot ncoef vs = 1 / of_int g * dot coef vs"
      unfolding ncoef_def by (intro dot_map_scale) auto
    then show ?thesis using g(2) by simp
  qed
  finally have eq: "of_int L * dot (lc_coef c) vs = of_int (g * S)" using S by simp
  have na: "lc_coef (norm_apply (length vs) coef g bound c) =
      ncoef @ replicate (REFINE_MAX_LA_VARS - length vs) (rat_of 0)"
    by (simp add: norm_apply_def ncoef_def)
  have "dot (lc_coef (norm_apply (length vs) coef g bound c)) vs = of_int S"
    using S lcoef by (simp add: na dot_append1 ncoef_def)
  with eq show "\<exists>S::int. of_int L * dot (lc_coef c) vs = of_int (g * S) \<and>
      dot (lc_coef (norm_apply (length vs) coef g bound c)) vs = of_int S" by blast
  have "coefs_ok (length vs) (lc_coef (norm_apply (length vs) coef g bound c))"
    unfolding na using lcoef n by (intro coefs_ok_pad) (auto simp: ncoef_def)
  then show "cok (length vs) (norm_apply (length vs) coef g bound c)"
    by (simp add: cok_def norm_apply_def)
qed

lemma int_normalize_ok:
  assumes c: "cok (length vs) c" and iv: "ivals sorts vs" and n: "length vs \<le> REFINE_MAX_LA_VARS"
    and e: "int_normalize sorts c = (ok, c')"
  shows "cok (length vs) c' \<and> csat vs c' = csat vs c \<and> (\<not> ok \<longrightarrow> \<not> csat vs c)"
proof (cases "c' = c \<and> ok")
  case True
  with c show ?thesis by simp
next
  case changed: False
  have len: "length sorts = length vs" using iv by (rule ivals_length)
  obtain L any coef g b where
    scan: "norm_scan sorts (lc_coef c) 1 False = Some (L, any)"
    and coef: "coef = map (\<lambda>a. rat_mul a (rat_of L)) (take (length vs) (lc_coef c))"
    and nb: "\<forall>a\<in>set coef. \<not> r_bad a"
    and g: "g = fold (\<lambda>a g. igcd0 g (r_num a)) coef 0" "g > 0"
    and b: "b = rat_neg (rat_mul (lc_konst c) (rat_of L))" "\<not> r_bad b"
    and res: "(lc_eq c \<and> \<not> rat_is_int b \<and> \<not> ok \<and> c' = make_false c)
      \<or> (lc_eq c \<and> rat_is_int b \<and> r_num b smod g \<noteq> 0 \<and> \<not> ok \<and> c' = make_false c)
      \<or> (lc_eq c \<and> rat_is_int b \<and> r_num b smod g = 0 \<and> ok
          \<and> c' = norm_apply (length vs) coef g (r_num b sdiv g) c)
      \<or> (\<exists>q. \<not> lc_eq c \<and> int_bound (lc_strict c) b g = Some q \<and> ok \<and> c' = norm_apply (length vs) coef g q c)"
    using e changed
    by (simp add: int_normalize_def Let_def len split: if_splits option.splits prod.splits; blast)
  note sc = norm_scaled [OF _ iv n scan coef nb g]
  have cc: "coefs_ok (length vs) (lc_coef c)" "rok (lc_konst c)" using c by (simp_all add: cok_def)
  have L: "L > 0" using sc(1) [OF cc(1)] .
  have "rsem b (- (rval (lc_konst c) * of_int L))"
    unfolding b(1) using cc(2) by (intro rat_intros)
  then have bv: "rok b" "rval b = - (rval (lc_konst c) * of_int L)" using b(2) rsem_val by blast+
  obtain S :: int where S: "of_int L * dot (lc_coef c) vs = of_int (g * S)"
    using sc(2) [OF cc(1)] by blast
  have lhsL: "of_int L * lhs vs c = of_int (g * S) - rval b"
    using S bv(2) by (simp add: lhs_def algebra_simps)
  have sat: "csat vs c \<longleftrightarrow> (if lc_eq c then of_int (g * S) = rval b
      else if lc_strict c then of_int (g * S) < rval b else of_int (g * S) \<le> rval b)"
  proof -
    have r: "real_of_int L > 0" using L by simp
    have "lhs vs c = 0 \<longleftrightarrow> of_int L * lhs vs c = 0" "lhs vs c < 0 \<longleftrightarrow> of_int L * lhs vs c < 0"
      "lhs vs c \<le> 0 \<longleftrightarrow> of_int L * lhs vs c \<le> 0"
      using r by (simp_all add: mult_less_0_iff mult_le_0_iff)
    then show ?thesis unfolding csat_def lhsL by auto
  qed
  have app: "csat vs (norm_apply (length vs) coef g q c) \<longleftrightarrow> (if lc_eq c then S = q else S \<le> q)"
    "cok (length vs) (norm_apply (length vs) coef g q c)" for q
  proof -
    obtain S' :: int where S': "of_int L * dot (lc_coef c) vs = of_int (g * S')"
        "dot (lc_coef (norm_apply (length vs) coef g q c)) vs = of_int S'"
      using sc(2) [OF cc(1)] by blast
    then have "g * S' = g * S" using S of_int_eq_iff by metis
    then have "S' = S" using g(2) by simp
    then have "lhs vs (norm_apply (length vs) coef g q c) = of_int (S - q)"
      using S' by (simp add: lhs_def norm_apply_def)
    then show "csat vs (norm_apply (length vs) coef g q c) \<longleftrightarrow> (if lc_eq c then S = q else S \<le> q)"
      unfolding csat_def by (simp add: norm_apply_def)
    show "cok (length vs) (norm_apply (length vs) coef g q c)" using sc(3) [OF cc(1)] .
  qed
  from res consider (frac) "lc_eq c" "\<not> rat_is_int b" "\<not> ok" "c' = make_false c"
    | (gcd) "lc_eq c" "rat_is_int b" "r_num b smod g \<noteq> 0" "\<not> ok" "c' = make_false c"
    | (eq) "lc_eq c" "rat_is_int b" "r_num b smod g = 0" "ok" "c' = norm_apply (length vs) coef g (r_num b sdiv g) c"
    | (le) q where "\<not> lc_eq c" "int_bound (lc_strict c) b g = Some q" "ok" "c' = norm_apply (length vs) coef g q c"
    by blast
  then show ?thesis
  proof cases
    case frac
    then have "rval b \<noteq> of_int (g * S)" using rat_is_int_iff [OF bv(1)] Ints_of_int by metis
    then have "\<not> csat vs c" using frac sat by auto
    with frac make_false_unsat show ?thesis by blast
  next
    case gcd
    then have "rval b = of_int (r_num b)" using rat_is_int_val bv(1) by blast
    moreover have "r_num b \<noteq> g * S"
    proof
      assume "r_num b = g * S"
      then have "(g * S) sdiv g = S" using sdiv_dvd [of g "g * S"] g(2) by simp
      then show False using gcd(3) sdiv_smod_decomp [of "g * S" g] \<open>r_num b = g * S\<close> by simp
    qed
    ultimately have "\<not> csat vs c" using gcd sat of_int_eq_iff by metis
    with gcd make_false_unsat show ?thesis by blast
  next
    case eq
    then have "rval b = of_int (r_num b)" using rat_is_int_val bv(1) by blast
    then have "csat vs c \<longleftrightarrow> g * S = r_num b" using eq sat of_int_eq_iff by metis
    moreover have "r_num b = g * (r_num b sdiv g)" using eq sdiv_smod_decomp [of "r_num b" g] by simp
    moreover have "g * S = g * (r_num b sdiv g) \<longleftrightarrow> S = r_num b sdiv g" using g(2) by simp
    ultimately have "csat vs c \<longleftrightarrow> S = r_num b sdiv g" by metis
    with eq app show ?thesis by simp
  next
    case le
    with app int_bound_le [OF g(2) bv(1) le(2), of S] sat show ?thesis by simp
  qed
qed

end
