(* ===== verification/LinArithSound.thy ===== *)
theory LinArithSound
  imports LinNormSound
begin

text \<open>
  Stage S2 refutes only unsatisfiable cubes: the linear encoding keeps the value of a term, the
  assertions keep every model, elimination keeps every integer model, and Fourier-Motzkin reports
  a contradiction only for a set without one. The stage is an instance of \<open>cube_refuter\<close>.
\<close>

section \<open>States with a model\<close>

text \<open>
  The decimal reading of a real literal is exact, or refused. S2 needs nothing else of a term.
\<close>

definition real_lit_exact :: "vcterm \<Rightarrow> bool" where
  "real_lit_exact t \<longleftrightarrow> (t_op t = VC_CONST_REAL \<longrightarrow>
     (let r = rat_of_double (as_real (t_as t))
      in r_bad r \<or> (rok r \<and> f64_val (as_real (t_as t)) * of_int (r_den r) = of_int (r_num r))))"

definition la_vals :: "interp \<Rightarrow> lastate \<Rightarrow> real list" where
  "la_vals I st = map (eval I) (la_vars st)"

definition la_ok :: "(nat \<Rightarrow> vcsort) \<Rightarrow> lastate \<Rightarrow> bool" where
  "la_ok fs st \<longleftrightarrow> length (la_vars st) \<le> REFINE_MAX_LA_VARS \<and> (\<forall>v\<in>set (la_vars st). wf_term fs v)
     \<and> (\<forall>c\<in>set (la_cs st). cok (length (la_vars st)) c)"

definition la_sat :: "interp \<Rightarrow> lastate \<Rightarrow> bool" where
  "la_sat I st \<longleftrightarrow> (\<forall>c\<in>set (la_cs st). csat (la_vals I st) c)"

definition la_ext :: "lastate \<Rightarrow> lastate \<Rightarrow> bool" where
  "la_ext st st' \<longleftrightarrow> (\<exists>ws. la_vars st' = la_vars st @ ws) \<and> la_cs st' = la_cs st"

lemma la_vals_length [simp]: "length (la_vals I st) = length (la_vars st)"
  by (simp add: la_vals_def)

lemma la_ext_refl [simp]: "la_ext st st"
  by (simp add: la_ext_def)

lemma la_ext_trans: "la_ext st st1 \<Longrightarrow> la_ext st1 st2 \<Longrightarrow> la_ext st st2"
  by (auto simp: la_ext_def)

lemma la_ext_length: "la_ext st st' \<Longrightarrow> length (la_vars st) \<le> length (la_vars st')"
  by (auto simp: la_ext_def)

lemma la_ext_sat:
  assumes "la_ext st st'" and "la_ok fs st"
  shows "la_sat I st' = la_sat I st"
proof -
  obtain ws where "la_vars st' = la_vars st @ ws" and cs: "la_cs st' = la_cs st"
    using assms(1) by (auto simp: la_ext_def)
  then have v: "la_vals I st' = la_vals I st @ map (eval I) ws" by (simp add: la_vals_def)
  have "csat (la_vals I st') c = csat (la_vals I st) c" if "c \<in> set (la_cs st)" for c
    using assms(2) that unfolding v by (intro csat_extend) (simp add: la_ok_def)
  then show ?thesis by (simp add: la_sat_def cs)
qed

lemma la_ivals:
  assumes "la_ok fs st"
  shows "ivals (la_sorts st) (la_vals I st)"
proof -
  have "t_sort v = VS_INT \<longrightarrow> eval I v \<in> \<int>" if "v \<in> set (la_vars st)" for v
    using assms that int_value by (auto simp: la_ok_def)
  then show ?thesis by (auto simp: ivals_def la_sorts_def la_vals_def list_all2_conv_all_nth)
qed

section \<open>The linear encoding\<close>

text \<open>What an encoded term promises: the right value under every interpretation, unless bad.\<close>

definition le_ok :: "lastate \<Rightarrow> (interp \<Rightarrow> real) \<Rightarrow> linexp \<Rightarrow> bool" where
  "le_ok st F e \<longleftrightarrow> le_bad e \<or> (coefs_ok (length (la_vars st)) (le_coef e) \<and> rok (le_konst e)
     \<and> (\<forall>I. dot (le_coef e) (la_vals I st) + rval (le_konst e) = F I))"

lemma le_ok_bad [simp]: "le_ok st F (e\<lparr>le_bad := True\<rparr>)" "le_ok st F lin_bad"
  by (simp_all add: le_ok_def lin_bad_def)

lemma le_ok_ext:
  assumes "le_ok st F e" and "la_ext st st'"
  shows "le_ok st' F e"
proof (cases "le_bad e")
  case False
  obtain ws where "la_vars st' = la_vars st @ ws" using assms(2) by (auto simp: la_ext_def)
  then have v: "la_vals I st' = la_vals I st @ map (eval I) ws" for I by (simp add: la_vals_def)
  have c: "coefs_ok (length (la_vars st)) (le_coef e)" using assms(1) False by (simp add: le_ok_def)
  then have "dot (le_coef e) (la_vals I st') = dot (le_coef e) (la_vals I st)" for I
    unfolding v by (intro dot_extend) simp
  moreover have "coefs_ok (length (la_vars st')) (le_coef e)"
    using c la_ext_length [OF assms(2)] by (rule coefs_ok_mono)
  ultimately show ?thesis using assms(1) False by (simp add: le_ok_def)
qed (simp add: le_ok_def)

lemma le_ok_const: "rsem k x \<Longrightarrow> le_ok st (\<lambda>I. x) (lin_const k)"
  using rsem_val [of k x]
  by (auto simp: le_ok_def lin_const_def lin_zero_def dot_zero)

lemma le_ok_scale:
  assumes e: "le_ok st F e" and k: "rsem k x"
  shows "le_ok st (\<lambda>I. F I * x) (lin_scale e k)"
proof (cases "le_bad e \<or> r_bad k")
  case True
  then show ?thesis by (auto simp: lin_scale_def)
next
  case False
  define cs where "cs = map (\<lambda>c. rat_mul c k) (le_coef e)"
  define c0 where "c0 = rat_mul (le_konst e) k"
  show ?thesis
  proof (cases "(\<exists>c\<in>set cs. r_bad c) \<or> r_bad c0")
    case True
    then show ?thesis using False by (simp add: lin_scale_def Let_def cs_def c0_def)
  next
    case nb: False
    have c: "coefs_ok (length (la_vars st)) (le_coef e)" "rok (le_konst e)"
      and v: "\<And>I. dot (le_coef e) (la_vals I st) + rval (le_konst e) = F I"
      using e False by (auto simp: le_ok_def)
    have m: "rok (rat_mul a k) \<and> rval (rat_mul a k) = x * rval a" if "a \<in> set (le_coef e)" for a
      using rsem_mul [OF rok_rsem k, of a] c(1) that nb rsem_val
      by (force simp: cs_def coefs_ok_def mult.commute)
    have z: "rok c0 \<and> rval c0 = x * rval (le_konst e)"
      using rsem_mul [OF rok_rsem [OF c(2)] k] nb rsem_val by (force simp: c0_def mult.commute)
    have "coefs_ok (length (la_vars st)) cs"
      using c(1) m m [OF in_set_dropD] by (auto simp: cs_def coefs_ok_def drop_map)
    moreover have "dot cs (la_vals I st) = x * dot (le_coef e) (la_vals I st)" for I
      unfolding cs_def using m by (intro dot_map_scale) auto
    then have "dot cs (la_vals I st) + rval c0 = F I * x" for I
      using z by (simp add: v [symmetric] algebra_simps)
    ultimately show ?thesis
      using z False nb by (simp add: lin_scale_def Let_def cs_def [symmetric] c0_def [symmetric] le_ok_def)
  qed
qed

lemma le_ok_add:
  assumes a: "le_ok st F a" and b: "le_ok st G b"
  shows "le_ok st (\<lambda>I. F I + G I) (lin_add a b)"
proof (cases "le_bad a \<or> le_bad b")
  case True
  then show ?thesis by (auto simp: lin_add_def)
next
  case False
  define cs where "cs = map2 rat_add (le_coef a) (le_coef b)"
  define c0 where "c0 = rat_add (le_konst a) (le_konst b)"
  show ?thesis
  proof (cases "(\<exists>c\<in>set cs. r_bad c) \<or> r_bad c0")
    case True
    then show ?thesis using False by (simp add: lin_add_def Let_def cs_def c0_def)
  next
    case nb: False
    have ca: "coefs_ok (length (la_vars st)) (le_coef a)" "rok (le_konst a)"
      and va: "\<And>I. dot (le_coef a) (la_vals I st) + rval (le_konst a) = F I"
      using a False by (auto simp: le_ok_def)
    have cb: "coefs_ok (length (la_vars st)) (le_coef b)" "rok (le_konst b)"
      and vb: "\<And>I. dot (le_coef b) (la_vals I st) + rval (le_konst b) = G I"
      using b False by (auto simp: le_ok_def)
    have len: "length (le_coef a) = length (le_coef b)" using ca cb by (simp add: coefs_ok_def)
    have m: "rok (rat_add u w) \<and> rval (rat_add u w) = rval u + rval w"
      if "(u, w) \<in> set (zip (le_coef a) (le_coef b))" for u w
    proof -
      have "rat_add u w \<in> set cs" using that by (force simp: cs_def)
      moreover have "rsem (rat_add u w) (rval u + rval w)"
        using that ca cb by (intro rat_intros) (auto dest: set_zip_leftD set_zip_rightD coefs_okD)
      ultimately show ?thesis using nb rsem_val by blast
    qed
    have "rsem c0 (rval (le_konst a) + rval (le_konst b))"
      unfolding c0_def using ca cb by (intro rat_intros)
    then have z: "rok c0 \<and> rval c0 = rval (le_konst a) + rval (le_konst b)" using nb rsem_val by blast
    have "\<forall>c\<in>set (drop (length (la_vars st)) cs). rval c = 0"
    proof
      fix c
      assume "c \<in> set (drop (length (la_vars st)) cs)"
      then obtain u w where uw: "(u, w) \<in> set (drop (length (la_vars st)) (zip (le_coef a) (le_coef b)))"
          "c = rat_add u w"
        by (auto simp: cs_def drop_map)
      then have "u \<in> set (drop (length (la_vars st)) (le_coef a))" "w \<in> set (drop (length (la_vars st)) (le_coef b))"
        by (auto simp: drop_zip dest: set_zip_leftD set_zip_rightD)
      then show "rval c = 0" using m [of u w] uw ca cb by (auto simp: coefs_ok_def dest: in_set_dropD)
    qed
    moreover have "\<forall>c\<in>set cs. rok c" using m by (auto simp: cs_def)
    ultimately have "coefs_ok (length (la_vars st)) cs"
      using ca len by (simp add: coefs_ok_def cs_def)
    moreover have "dot cs (la_vals I st) = 1 * dot (le_coef a) (la_vals I st) + 1 * dot (le_coef b) (la_vals I st)" for I
      unfolding cs_def using m len by (intro dot_map2) auto
    then have "dot cs (la_vals I st) + rval c0 = F I + G I" for I
      using z by (simp add: va [symmetric] vb [symmetric])
    ultimately show ?thesis
      using z False nb by (simp add: lin_add_def Let_def cs_def [symmetric] c0_def [symmetric] le_ok_def)
  qed
qed

lemma find_index_Some: "find_index P xs = Some i \<Longrightarrow> i < length xs \<and> P (xs ! i)"
  by (induction xs arbitrary: i) (auto split: if_splits)

lemma cok_Suc: "cok n c \<Longrightarrow> cok (Suc n) c"
  by (rule cok_mono [of n]) simp_all

lemma la_var_ok:
  assumes "la_var st t = (r, st')" and "la_ok fs st" and "wf_term fs t"
  shows "la_ext st st' \<and> la_ok fs st' \<and> (\<forall>v. r = Some v \<longrightarrow> v < length (la_vars st') \<and> la_vars st' ! v = t)"
proof -
  have c: "\<forall>c\<in>set (la_cs st). cok (Suc (length (la_vars st))) c"
    using assms(2) cok_Suc by (simp add: la_ok_def)
  show ?thesis
    using assms c find_index_Some [of "\<lambda>v. v = t" "la_vars st"]
    by (auto simp: la_var_def la_ok_def la_ext_def split: option.splits if_splits)
qed

lemma lin_opaque_ok:
  assumes "lin_opaque t st = (e, st')" and "la_ok fs st" and "wf_term fs t"
  shows "la_ext st st' \<and> la_ok fs st' \<and> le_ok st' (\<lambda>I. eval I t) e"
proof -
  obtain r where r: "la_var st t = (r, st')"
    using assms(1) by (auto simp: lin_opaque_def split: prod.splits option.splits)
  note ok = la_var_ok [OF r assms(2,3)]
  show ?thesis
  proof (cases r)
    case None
    with assms(1) r ok show ?thesis by (auto simp: lin_opaque_def)
  next
    case (Some v)
    with ok have v: "v < length (la_vars st')" "la_vars st' ! v = t" by auto
    have b: "length (la_vars st') \<le> REFINE_MAX_LA_VARS" using ok by (simp add: la_ok_def)
    let ?z = "replicate REFINE_MAX_LA_VARS (rat_of 0)"
    have e: "e = lin_zero\<lparr>le_coef := ?z[v := rat_of 1]\<rparr>"
      using assms(1) r Some by (auto simp: lin_opaque_def lin_zero_def)
    have "dot (?z[v := rat_of 1]) (la_vals I st') = eval I t" for I
      using v b by (subst dot_update) (auto simp: dot_zero la_vals_def)
    moreover have "coefs_ok (length (la_vars st')) (?z[v := rat_of 1])"
    proof -
      have "set (?z[v := rat_of 1]) \<subseteq> {rat_of 0, rat_of 1}"
        using set_update_subset_insert [of ?z v "rat_of 1"] by auto
      moreover have "drop (length (la_vars st')) (?z[v := rat_of 1]) = drop (length (la_vars st')) ?z"
        using v by simp
      ultimately show ?thesis by (auto simp: coefs_ok_def)
    qed
    ultimately show ?thesis using ok by (simp add: e lin_zero_def le_ok_def)
  qed
qed

text \<open>The encoding of a term, the heart of the stage.\<close>

lemma lit_crat_rsem:
  assumes "is_num_lit t" and "real_lit_exact t"
  shows "rsem (lit_crat t) (eval I t)"
proof (cases t)
  case (Node op s ks p)
  show ?thesis
  proof (cases "op = VC_CONST_INT")
    case True
    then show ?thesis
      using Node rsem_rat_of by (simp add: lit_crat_def is_int_lit_def op_sem_def)
  next
    case False
    then have op: "op = VC_CONST_REAL" using assms(1) Node by (simp add: is_num_lit_def is_int_lit_def is_real_lit_def)
    define r where "r = rat_of_double (as_real p)"
    have "r_bad r \<or> (rok r \<and> f64_val (as_real p) * of_int (r_den r) = of_int (r_num r))"
      using assms(2) Node op by (simp add: real_lit_exact_def Let_def r_def)
    moreover have "rval r = of_rat (f64_val (as_real p))"
      if "rok r" "f64_val (as_real p) * of_int (r_den r) = of_int (r_num r)"
    proof -
      have "of_rat (f64_val (as_real p) * of_int (r_den r)) = (of_rat (of_int (r_num r)) :: real)"
        using that(2) by simp
      then have "of_rat (f64_val (as_real p)) * real_of_int (r_den r) = real_of_int (r_num r)"
        by (simp add: of_rat_mult)
      then show ?thesis using that(1) by (simp add: rval_def rok_def field_simps)
    qed
    ultimately show ?thesis
      using Node op by (auto simp: rsem_def lit_crat_def is_int_lit_def op_sem_def r_def [symmetric])
  qed
qed

definition lin_res :: "(nat \<Rightarrow> vcsort) \<Rightarrow> lastate \<Rightarrow> vcterm \<Rightarrow> linexp \<times> lastate \<Rightarrow> bool" where
  "lin_res fs st t r \<longleftrightarrow> la_ext st (snd r) \<and> la_ok fs (snd r) \<and> le_ok (snd r) (\<lambda>I. eval I t) (fst r)"

lemma lin_res_bad: "la_ok fs st \<Longrightarrow> lin_res fs st t (lin_bad, st)"
  by (simp add: lin_res_def)

lemma lin_res_opaque: "la_ok fs st \<Longrightarrow> wf_term fs t \<Longrightarrow> lin_res fs st t (lin_opaque t st)"
  using lin_opaque_ok [of t st "fst (lin_opaque t st)" "snd (lin_opaque t st)" fs]
  by (simp add: lin_res_def)

lemma le_ok_cong: "le_ok st F e \<Longrightarrow> (\<And>I. F I = G I) \<Longrightarrow> le_ok st G e"
  by (auto simp: le_ok_def)

lemma lin_res_scale:
  assumes "lin_res fs st t (e, st')" and "\<And>I. rsem k (x I)" and "\<And>I. eval I u = eval I t * x I"
  shows "lin_res fs st u (lin_scale e k, st')"
proof (cases "r_bad k")
  case True
  then show ?thesis using assms(1) by (simp add: lin_res_def lin_scale_def)
next
  case False
  then have "rsem k (rval k)" "x I = rval k" for I using assms(2) by (auto simp: rsem_def)
  then show ?thesis
    using assms(1,3) le_ok_scale [of st' "\<lambda>I. eval I t" e k "rval k"]
    by (auto simp: lin_res_def intro: le_ok_cong)
qed

lemma rsem_minus1: "rsem (rat_of (- 1)) (- 1)"
  using rsem_rat_of [of "- 1"] by simp

lemma lin_res_add:
  assumes "lin_res fs st t (e, st1)" and "lin_res fs st1 u (f, st2)" and "\<And>I. eval I w = eval I t + eval I u"
  shows "lin_res fs st w (lin_add e f, st2)"
  using assms le_ok_add [of st2 "\<lambda>I. eval I t" e "\<lambda>I. eval I u" f] le_ok_ext
  by (auto simp: lin_res_def intro: la_ext_trans le_ok_cong)

lemma lin_res_const:
  "la_ok fs st \<Longrightarrow> (\<And>I. rsem k (x I)) \<Longrightarrow> (\<And>I. eval I t = x I) \<Longrightarrow> lin_res fs st t (lin_const k, st)"
  using le_ok_const by (auto simp: lin_res_def le_ok_def lin_const_def lin_zero_def rsem_def dot_zero)

lemma lin_res_okD: "lin_res fs st t (e, st') \<Longrightarrow> la_ok fs st'"
  by (simp add: lin_res_def)

lemma linearize_opaque:
  assumes "op \<noteq> VC_CONST_INT" "op \<noteq> VC_CONST_REAL" "op = VC_NEG \<Longrightarrow> length ks \<noteq> Suc 0"
    and "op \<in> {VC_ADD, VC_SUB, VC_MUL, VC_DIV} \<Longrightarrow> length ks \<noteq> 2" and "\<not> LA_MAX_LINEARIZE_DEPTH < depth"
  shows "linearize (Node op s ks p) depth st = lin_opaque (Node op s ks p) st"
  using assms by (cases op) (auto split: list.split)

lemma linearize_ok:
  assumes "wf_term fs t" and "all_nodes real_lit_exact t" and "la_ok fs st"
  shows "lin_res fs st t (linearize t depth st)"
  using assms
proof (induction t arbitrary: depth st)
  case (Node op s ks p)
  let ?t = "Node op s ks p"
  have kid: "wf_term fs k" "all_nodes real_lit_exact k" if "k \<in> set ks" for k
    using Node.prems that wf_term_kid [of fs ?t k] by auto
  have IH: "lin_res fs st k (linearize k d st)" if "k \<in> set ks" "la_ok fs st" for k d st
    using Node.IH [OF that(1)] kid [OF that(1)] that(2) by blast
  have root: "real_lit_exact ?t" using Node.prems(2) by simp
  note opq = lin_res_opaque [OF Node.prems(3,1)]
  note bad = lin_res_bad [OF Node.prems(3), of ?t]
  have lit: "rsem (lit_crat k) (eval I k)" if "k \<in> set ks" "is_num_lit k" for k I
    using lit_crat_rsem [OF that(2)] kid(2) [OF that(1)] all_nodes_root by blast
  show ?case
  proof (cases "LA_MAX_LINEARIZE_DEPTH < depth")
    case True
    then show ?thesis using bad by simp
  next
    case depth: False
    consider (int) "op = VC_CONST_INT" | (real) "op = VC_CONST_REAL"
      | (add) a b where "op \<in> {VC_ADD, VC_SUB}" "ks = [a, b]" | (neg) a where "op = VC_NEG" "ks = [a]"
      | (mul) a b where "op = VC_MUL" "ks = [a, b]" | (div) a b where "op = VC_DIV" "ks = [a, b]"
      | (opaque) "linearize ?t depth st = lin_opaque ?t st"
      using linearize_opaque [of op ks depth s p st, unfolded length_1_conv length_2_conv] depth by blast
    then show ?thesis
    proof cases
      case int
      then show ?thesis
        using depth Node.prems(3) rsem_rat_of by (auto simp: op_sem_def intro!: lin_res_const)
    next
      case real
      then show ?thesis
        using depth Node.prems(3) lit_crat_rsem [OF _ root]
        by (auto simp: is_num_lit_def is_real_lit_def is_int_lit_def lit_crat_def intro!: lin_res_const)
    next
      case add
      obtain ea st1 where a: "linearize a (depth + 1) st = (ea, st1)" by fastforce
      obtain eb st2 where b: "linearize b (depth + 1) st1 = (eb, st2)" by fastforce
      have ra: "lin_res fs st a (ea, st1)" using IH [of a st "depth + 1"] add Node.prems(3) a by simp
      have rb: "lin_res fs st1 b (eb, st2)" using IH [of b st1 "depth + 1"] add b lin_res_okD [OF ra] by simp
      show ?thesis
      proof (cases "op = VC_ADD")
        case True
        then show ?thesis using depth add a b lin_res_add [OF ra rb, of ?t] by (simp add: op_sem_def)
      next
        case False
        then have op: "op = VC_SUB" using add by simp
        define nb where "nb = Node VC_NEG s [b] p"
        have "lin_res fs st1 nb (lin_scale eb (rat_of (- 1)), st2)"
          using rb by (rule lin_res_scale [where x = "\<lambda>I. of_int (- 1)"]) (auto simp: nb_def op_sem_def rsem_minus1)
        then show ?thesis
          using depth add op a b lin_res_add [OF ra, of nb _ st2 ?t] by (simp add: op_sem_def nb_def)
      qed
    next
      case neg
      obtain ea st1 where a: "linearize a (depth + 1) st = (ea, st1)" by fastforce
      have ra: "lin_res fs st a (ea, st1)" using IH [of a st "depth + 1"] neg Node.prems(3) a by simp
      have "lin_res fs st ?t (lin_scale ea (rat_of (- 1)), st1)"
        using ra by (rule lin_res_scale [where x = "\<lambda>I. of_int (- 1)"]) (auto simp: neg op_sem_def rsem_minus1)
      then show ?thesis using depth neg a by simp
    next
      case mul
      obtain ea st1 where a: "linearize a (depth + 1) st = (ea, st1)" by fastforce
      obtain eb st1' where b: "linearize b (depth + 1) st = (eb, st1')" by fastforce
      have ra: "lin_res fs st a (ea, st1)" using IH [of a st "depth + 1"] mul Node.prems(3) a by simp
      have rb: "lin_res fs st b (eb, st1')" using IH [of b st "depth + 1"] mul Node.prems(3) b by simp
      have sa: "is_num_lit b \<Longrightarrow> lin_res fs st ?t (lin_scale ea (lit_crat b), st1)"
        using mul by (intro lin_res_scale [OF ra, of _ "\<lambda>I. eval I b"] lit) (auto simp: op_sem_def)
      have sb: "is_num_lit a \<Longrightarrow> lin_res fs st ?t (lin_scale eb (lit_crat a), st1')"
        using mul by (intro lin_res_scale [OF rb, of _ "\<lambda>I. eval I a"] lit) (auto simp: op_sem_def)
      show ?thesis using depth mul a b sa sb opq bad by simp
    next
      case div
      obtain ea st1 where a: "linearize a (depth + 1) st = (ea, st1)" by fastforce
      have ra: "lin_res fs st a (ea, st1)" using IH [of a st "depth + 1"] div Node.prems(3) a by simp
      define k where "k = lit_crat b"
      define i where "i = rat_norm (r_den k) (r_num k)"
      have sc: "lin_res fs st ?t (lin_scale ea i, st1)"
        if l: "is_num_lit b" "s = VS_REAL" "\<not> r_bad k" "\<not> rat_zero k"
      proof (rule lin_res_scale [OF ra])
        fix I
        have kv: "rok k" "rval k = eval I b" using lit [of b I] l div rsem_val by (auto simp: k_def)
        then show "rsem i (1 / eval I b)"
          unfolding i_def by (intro rat_intros) (simp add: rval_def flip: kv(2))
        have "eval I b \<noteq> 0" using kv l rok_zero by auto
        then show "eval I ?t = eval I a * (1 / eval I b)"
          using div l by (simp add: op_sem_def div_sem_def)
      qed
      show ?thesis
        using depth div a sc opq bad
        by (simp add: Let_def k_def [symmetric] i_def [symmetric])
    next
      case opaque
      then show ?thesis using opq by simp
    qed
  qed
qed

end
