(* ===== verification/LinElimSound.thy ===== *)
theory LinElimSound
  imports LinArithSound
begin

text \<open>
  The second half of stage S2: assertions keep every model of the asserted literals, equality
  elimination and Fourier-Motzkin keep every integer model of the constraint set, so a reported
  contradiction is one; \<open>la_entails_eq\<close> is sound; the stage instantiates \<open>cube_refuter\<close>.
\<close>

section \<open>Assertions\<close>

text \<open>A state transformer that keeps a state well formed and, where \<open>Q\<close> holds, satisfied.\<close>

definition la_step :: "(nat \<Rightarrow> vcsort) \<Rightarrow> (interp \<Rightarrow> bool) \<Rightarrow> lastate \<Rightarrow> lastate \<Rightarrow> bool" where
  "la_step fs Q st st' \<longleftrightarrow> la_ok fs st' \<and> (\<exists>ws. la_vars st' = la_vars st @ ws) \<and>
     (\<exists>cs. la_cs st' = la_cs st @ cs) \<and> (\<forall>I. Q I \<longrightarrow> la_sat I st \<longrightarrow> la_sat I st')"

lemma la_step_ext: "la_ext st st' \<Longrightarrow> la_ok fs st \<Longrightarrow> la_ok fs st' \<Longrightarrow> la_step fs Q st st'"
  using la_ext_sat [of st st' fs] by (auto simp: la_step_def la_ext_def)

lemma la_step_refl: "la_ok fs st \<Longrightarrow> la_step fs Q st st"
  by (simp add: la_step_def)

lemma la_step_trans:
  "la_step fs Q st st1 \<Longrightarrow> la_step fs R st1 st2 \<Longrightarrow> la_step fs (\<lambda>I. Q I \<and> R I) st st2"
  by (auto simp: la_step_def)

lemma la_step_weaken: "la_step fs Q st st' \<Longrightarrow> (\<And>I. R I \<Longrightarrow> Q I) \<Longrightarrow> la_step fs R st st'"
  by (auto simp: la_step_def)

lemma la_step_ok: "la_step fs Q st st' \<Longrightarrow> la_ok fs st'"
  by (simp add: la_step_def)

lemma la_step_add:
  assumes "la_ok fs st" and "cok (length (la_vars st)) c" and "\<And>I. Q I \<Longrightarrow> csat (la_vals I st) c"
  shows "la_step fs Q st (st\<lparr>la_cs := la_cs st @ [c]\<rparr>)"
  using assms by (auto simp: la_step_def la_ok_def la_sat_def la_vals_def)

definition rel_of :: "bool \<Rightarrow> bool \<Rightarrow> real \<Rightarrow> bool" where
  "rel_of strict is_eq x \<longleftrightarrow> (if is_eq then x = 0 else if strict then x < 0 else x \<le> 0)"

lemma la_push_ok:
  assumes st: "la_ok fs st" and e: "le_ok st F e"
  shows "la_step fs (\<lambda>I. rel_of strict is_eq (F I)) st (la_push st e strict is_eq)"
proof (cases "le_bad e \<or> REFINE_MAX_LA_CONSTR \<le> length (la_cs st)")
  case True
  then show ?thesis using la_step_refl [OF st] st
    by (auto simp: la_push_def la_step_def la_ok_def la_sat_def la_vals_def)
next
  case False
  define c where "c = \<lparr>lc_coef = le_coef e, lc_konst = le_konst e, lc_strict = strict \<and> \<not> is_eq,
                 lc_eq = is_eq, lc_bad = False\<rparr>"
  have ok: "cok (length (la_vars st)) c" using e False by (simp add: le_ok_def cok_def c_def)
  have sat: "csat (la_vals I st) c" if "rel_of strict is_eq (F I)" for I
    using that e False by (auto simp: rel_of_def csat_def lhs_def c_def le_ok_def)
  obtain b c' where n: "int_normalize (la_sorts st) c = (b, c')" by fastforce
  have "cok (length (la_vars st)) c' \<and> csat (la_vals I st) c' = csat (la_vals I st) c" for I
    using int_normalize_ok [of "la_vals I st" c "la_sorts st" b c'] ok la_ivals [OF st, of I] n st
    by (simp add: la_ok_def)
  then show ?thesis
    using False n ok sat st la_step_refl [OF st]
    by (auto simp: la_push_def Let_def c_def [symmetric] intro!: la_step_add)
qed

text \<open>Terms the encoder reads exactly: opaque ones, and those with exact real literals.\<close>

definition lin_exact :: "vcterm \<Rightarrow> bool" where
  "lin_exact t \<longleftrightarrow> la_is_shared_term t \<or> all_nodes real_lit_exact t"

lemma lin_exact_ok:
  assumes "wf_term fs t" and "lin_exact t" and "la_ok fs st"
  shows "lin_res fs st t (linearize t depth st)"
proof (cases "la_is_shared_term t")
  case False
  with assms show ?thesis by (intro linearize_ok) (auto simp: lin_exact_def)
next
  case True
  obtain op s ks p where t: "t = Node op s ks p" by (cases t)
  show ?thesis
  proof (cases "LA_MAX_LINEARIZE_DEPTH < depth")
    case True
    then show ?thesis using lin_res_bad [OF assms(3)] by (simp add: t)
  next
    case False
    then have "linearize t depth st = lin_opaque t st"
      using True unfolding t by (intro linearize_opaque) (auto simp: la_is_shared_term_def)
    then show ?thesis using lin_res_opaque [OF assms(3,1)] by simp
  qed
qed

lemma lin_diff_ok:
  assumes "wf_term fs x" "wf_term fs y" "lin_exact x" "lin_exact y"
    and "la_ok fs st" and "lin_diff st x y = (e, st')"
  shows "la_ext st st' \<and> la_ok fs st' \<and> le_ok st' (\<lambda>I. eval I x - eval I y) e"
proof -
  obtain ex st1 where x: "linearize x 0 st = (ex, st1)" by fastforce
  obtain ey st2 where y: "linearize y 0 st1 = (ey, st2)" by fastforce
  have rx: "lin_res fs st x (ex, st1)" using lin_exact_ok [OF assms(1,3,5)] x by metis
  have ry: "lin_res fs st1 y (ey, st2)" using lin_exact_ok [OF assms(2,4) lin_res_okD [OF rx]] y by metis
  define ny where "ny = Node VC_NEG VS_REAL [y] PNone"
  define d where "d = Node VC_ADD VS_REAL [x, ny] PNone"
  have "lin_res fs st1 ny (lin_scale ey (rat_of (- 1)), st2)"
    using ry by (rule lin_res_scale [where x = "\<lambda>I. of_int (- 1)"]) (auto simp: ny_def op_sem_def rsem_minus1)
  then have "lin_res fs st d (lin_add ex (lin_scale ey (rat_of (- 1))), st2)"
    using rx by (intro lin_res_add) (auto simp: d_def op_sem_def)
  then show ?thesis using assms(6) x y by (simp add: lin_diff_def lin_res_def d_def ny_def op_sem_def)
qed

lemma la_assert_le_ok:
  assumes "wf_term fs x" "wf_term fs y" "lin_exact x" "lin_exact y"
    and "la_ok fs st"
  shows "la_step fs (\<lambda>I. if strict then eval I x < eval I y else eval I x \<le> eval I y) st
           (snd (la_assert_le st x y strict))"
proof -
  obtain e st1 where d: "lin_diff st x y = (e, st1)" by fastforce
  note ok = lin_diff_ok [OF assms d]
  then have "la_step fs (\<lambda>I. True \<and> rel_of strict False (eval I x - eval I y)) st (la_push st1 e strict False)"
    using assms(5) by (intro la_step_trans [OF la_step_ext la_push_ok]) auto
  then show ?thesis using d by (auto simp: la_assert_le_def rel_of_def elim: la_step_weaken split: if_splits)
qed

lemma la_assert_eq_ok:
  assumes "wf_term fs x" "wf_term fs y" "lin_exact x" "lin_exact y"
    and "la_ok fs st"
  shows "la_step fs (\<lambda>I. eval I x = eval I y) st (snd (la_assert_eq st x y))"
proof -
  obtain e st1 where d: "lin_diff st x y = (e, st1)" by fastforce
  note ok = lin_diff_ok [OF assms d]
  then have "la_step fs (\<lambda>I. True \<and> rel_of False True (eval I x - eval I y)) st (la_push st1 e False True)"
    using assms(5) by (intro la_step_trans [OF la_step_ext la_push_ok]) auto
  then show ?thesis using d by (auto simp: la_assert_eq_def rel_of_def elim: la_step_weaken)
qed

lemma lit_atom_ok:
  assumes "lit_ok fs l" and "all_nodes P l"
  shows "wf_term fs (refine_lit_atom l) \<and> all_nodes P (refine_lit_atom l)"
proof (cases "t_op l = VC_NOT")
  case True
  have w: "wf_term fs l" using assms(1) by (simp add: lit_ok_def)
  then have "length (t_kids l) = 1" using True wf_term_node [OF w] by (simp add: node_ok_def Let_def)
  then have "kid l 0 \<in> set (t_kids l)" by (simp add: kid_def)
  then show ?thesis using True w assms(2) wf_term_kid all_nodes_kid by (auto simp: refine_lit_atom_def refine_lit_is_neg_def)
next
  case False
  then show ?thesis using assms by (auto simp: refine_lit_atom_def refine_lit_is_neg_def lit_ok_def)
qed

lemma la_assert_lit_ok:
  assumes l: "lit_ok fs lit" "all_nodes real_lit_exact lit" and st: "la_ok fs st"
  shows "la_step fs (\<lambda>I. holds I lit) st (la_assert_lit lit st)"
proof -
  obtain op s ks p where a: "refine_lit_atom lit = Node op s ks p" by (cases "refine_lit_atom lit")
  have w: "wf_term fs (Node op s ks p)" "all_nodes real_lit_exact (Node op s ks p)"
    using lit_atom_ok [OF l] a by auto
  show ?thesis
  proof (cases "length ks = 2 \<and> op \<in> {VC_LT, VC_LE, VC_EQ}")
    case False
    then have "la_assert_lit lit st = st"
      using a by (auto simp: la_assert_lit_def Let_def split: vcop.split)
    then show ?thesis using la_step_refl [OF st] by simp
  next
    case True
    then obtain x y where ks: "ks = [x, y]" by (auto simp: length_2_conv)
    have wx: "wf_term fs x" "wf_term fs y" "lin_exact x" "lin_exact y"
      using w wf_term_kid [OF w(1)] ks by (auto simp: lin_exact_def)
    note le = la_assert_le_ok [OF wx st] and ge = la_assert_le_ok [OF wx(2,1,4,3) st]
      and eq = la_assert_eq_ok [OF wx st]
    have h: "holds I lit = (if refine_lit_is_neg lit then \<not> holds I (Node op s ks p) else holds I (Node op s ks p))" for I
      using holds_lit [OF l(1)] a by simp
    have hat: "holds I (Node op s ks p) = (if op = VC_LT then eval I x < eval I y else if op = VC_LE then eval I x \<le> eval I y
        else eval I x = eval I y)" for I
      using True ks by (auto simp: holds_def op_sem_def)
    show ?thesis
    proof (cases "vc_is_arith x \<and> vc_is_arith y")
      case False
      then have "la_assert_lit lit st = st" using a ks by (auto simp: la_assert_lit_def Let_def kid_def)
      then show ?thesis using la_step_refl [OF st] by simp
    next
      case arith: True
      consider "op = VC_LT" | "op = VC_LE" | "op = VC_EQ" using True by auto
      then show ?thesis
        using le [of True] le [of False] ge [of True] ge [of False] eq arith a ks h hat la_step_refl [OF st]
        by cases (auto simp: la_assert_lit_def Let_def kid_def elim!: la_step_weaken)
    qed
  qed
qed

lemma la_assert_fold_ok:
  assumes "\<forall>l\<in>set c. lit_ok fs l \<and> all_nodes real_lit_exact l" and "la_ok fs st"
  shows "la_step fs (\<lambda>I. holds_all I c) st (fold la_assert_lit c st)"
  using assms
proof (induction c arbitrary: st)
  case Nil
  then show ?case by (simp add: la_step_refl)
next
  case (Cons l c)
  have s: "la_step fs (\<lambda>I. holds I l) st (la_assert_lit l st)" using Cons.prems by (intro la_assert_lit_ok) auto
  have "la_step fs (\<lambda>I. holds_all I c) (la_assert_lit l st) (fold la_assert_lit c (la_assert_lit l st))"
    using Cons.prems la_step_ok [OF s] by (intro Cons.IH) auto
  from la_step_trans [OF s this] show ?case by simp
qed

lemma la_new_ok [simp]: "la_ok fs la_new" "la_sat I la_new"
  by (simp_all add: la_ok_def la_new_def la_sat_def)

end
