(* ===== verification/LinRefute.thy ===== *)
theory LinRefute
  imports LinElimSound
begin

text \<open>
  Elimination in stage S2: a valuation of the constraint set that gives int variables integer
  values survives equality elimination and every round of Fourier-Motzkin, so \<open>la_unsat\<close> answers
  true only for a set without one.
\<close>

definition all_sat :: "real list \<Rightarrow> linc list \<Rightarrow> bool" where
  "all_sat vs cs \<longleftrightarrow> (\<forall>c\<in>set cs. cok (length vs) c \<and> csat vs c)"

lemma all_sat_simps [simp]:
  "all_sat vs []" "all_sat vs (c # cs) \<longleftrightarrow> cok (length vs) c \<and> csat vs c \<and> all_sat vs cs"
  "all_sat vs (cs @ ds) \<longleftrightarrow> all_sat vs cs \<and> all_sat vs ds"
  by (auto simp: all_sat_def)

lemma all_sat_filter: "all_sat vs cs \<Longrightarrow> all_sat vs (filter P cs)"
  by (auto simp: all_sat_def)

lemma all_sat_not_false: "all_sat vs cs \<Longrightarrow> c \<in> set cs \<Longrightarrow> \<not> constant_false c (length vs)"
  using constant_false_sound by (auto simp: all_sat_def)

section \<open>Equality elimination\<close>

lemma negate_ok:
  assumes "negate_linc (length vs) c = Some c'" and "cok (length vs) c" and "length vs \<le> REFINE_MAX_LA_VARS"
  shows "cok (length vs) c' \<and> lhs vs c' = - lhs vs c \<and> lc_strict c' = lc_strict c \<and> lc_eq c' = lc_eq c"
proof -
  let ?n = "length vs"
  define cs where "cs = map rat_neg (take ?n (lc_coef c))"
  define k where "k = rat_neg (lc_konst c)"
  have c': "c' = c\<lparr>lc_coef := cs @ drop ?n (lc_coef c), lc_konst := k\<rparr>"
    and nb: "\<forall>a\<in>set cs. \<not> r_bad a" "\<not> r_bad k"
    using assms(1) by (auto simp: negate_linc_def Let_def cs_def k_def split: if_splits)
  have cc: "coefs_ok ?n (lc_coef c)" "rok (lc_konst c)" using assms(2) by (simp_all add: cok_def)
  have m: "rok (rat_neg a) \<and> rval (rat_neg a) = - 1 * rval a" if "a \<in> set (take ?n (lc_coef c))" for a
  proof -
    have "rsem (rat_neg a) (- rval a)" using that cc by (intro rat_intros) (auto simp: coefs_ok_def dest: in_set_takeD)
    then show ?thesis using nb that rsem_val by (force simp: cs_def)
  qed
  have "rsem k (- rval (lc_konst c))" unfolding k_def using cc by (intro rat_intros)
  then have k: "rok k \<and> rval k = - rval (lc_konst c)" using nb rsem_val by blast
  have lcs: "length cs = ?n" using cc assms(3) by (simp add: cs_def coefs_ok_def)
  have "coefs_ok ?n (cs @ drop ?n (lc_coef c))"
    using m by (intro coefs_ok_keep [OF cc(1) lcs assms(3)]) (auto simp: cs_def)
  moreover have "dot cs vs = - 1 * dot (take ?n (lc_coef c)) vs"
    unfolding cs_def using m by (intro dot_map_scale) blast
  ultimately show ?thesis using k lcs by (simp add: c' cok_def lhs_def dot_append1 dot_take)
qed

lemma upd_first_ok:
  assumes f: "\<And>a e. rok a \<Longrightarrow> rok e \<Longrightarrow> rsem (f a e) (rval a + m * rval e)"
    and c: "coefs_ok (length vs) cs" "coefs_ok (length vs) ds" and n: "length vs \<le> REFINE_MAX_LA_VARS"
    and nb: "\<forall>a\<in>set (take (length vs) (upd_first (length vs) f cs ds)). \<not> r_bad a"
  shows "coefs_ok (length vs) (upd_first (length vs) f cs ds)
       \<and> dot (upd_first (length vs) f cs ds) vs = dot cs vs + m * dot ds vs"
proof -
  let ?n = "length vs" and ?us = "map2 f (take (length vs) cs) (take (length vs) ds)"
  have len: "length ?us = ?n" using c n by (simp add: coefs_ok_def)
  then have t: "take ?n (upd_first ?n f cs ds) = ?us" by (simp add: upd_first_def)
  have m: "rok (f a e) \<and> rval (f a e) = 1 * rval a + m * rval e" if "(a, e) \<in> set (zip (take ?n cs) (take ?n ds))" for a e
  proof -
    have "f a e \<in> set ?us" using that by force
    moreover have "rsem (f a e) (rval a + m * rval e)"
      using set_zip_leftD [OF that] set_zip_rightD [OF that] c
      by (intro f) (auto dest!: in_set_takeD intro: coefs_okD)
    ultimately show ?thesis using nb t rsem_val by fastforce
  qed
  have "coefs_ok ?n (?us @ drop ?n cs)"
    using m by (intro coefs_ok_keep [OF c(1) len n]) auto
  moreover have "dot ?us vs = 1 * dot (take ?n cs) vs + m * dot (take ?n ds) vs"
    using m c n by (intro dot_map2) (auto simp: coefs_ok_def)
  ultimately show ?thesis using len by (simp add: upd_first_def dot_append1 dot_take)
qed

text \<open>One substitution through an equality that holds.\<close>

lemma lc_fields_simps [simp]:
  "lhs vs (c\<lparr>lc_bad := b\<rparr>) = lhs vs c" "csat vs (c\<lparr>lc_bad := b\<rparr>) = csat vs c" "cok n (c\<lparr>lc_bad := b\<rparr>) = cok n c"
  by (simp_all add: lhs_def csat_def cok_def)

lemma subst_linc_ok:
  assumes E: "cok (length vs) E" "lhs vs E = 0" and p: "p < length vs" "rval (lc_coef E ! p) \<noteq> 0"
    and c: "cok (length vs) c" "csat vs c"
    and iv: "ivals sorts vs" and n: "length vs \<le> REFINE_MAX_LA_VARS"
  shows "\<exists>c'. subst_linc sorts E p c = Some c' \<and> cok (length vs) c' \<and> csat vs c'"
proof (cases "rat_zero (lc_coef c ! p)")
  case True
  then show ?thesis using c by (simp add: subst_linc_def)
next
  case False
  have len: "length sorts = length vs" using iv by (rule ivals_length)
  define ep where "ep = lc_coef E ! p"
  define f where "f = rat_mul (lc_coef c ! p) (rat_norm (r_den ep) (r_num ep))"
  define cs where "cs = upd_first (length vs) (\<lambda>a e. rat_add a (rat_neg (rat_mul f e))) (lc_coef c) (lc_coef E)"
  define k where "k = rat_add (lc_konst c) (rat_neg (rat_mul f (lc_konst E)))"
  define out where "out = c\<lparr>lc_coef := cs[p := rat_of 0], lc_konst := k\<rparr>"
  obtain b c' where norm: "int_normalize sorts out = (b, c')" by fastforce
  have sub: "subst_linc sorts E p c =
      (if r_bad f \<or> (\<exists>a\<in>set (take (length vs) cs). r_bad a) \<or> r_bad k then Some (c\<lparr>lc_bad := True\<rparr>)
       else if \<not> b \<or> constant_false c' (length vs) then None else Some c')"
    using False norm by (simp add: subst_linc_def Let_def len ep_def f_def cs_def k_def out_def)
  show ?thesis
  proof (cases "r_bad f \<or> (\<exists>a\<in>set (take (length vs) cs). r_bad a) \<or> r_bad k")
    case True
    then show ?thesis using sub c by simp
  next
    case nb: False
    have lens: "p < length (lc_coef c)" "p < length (lc_coef E)"
      using c(1) E(1) p n by (auto simp: cok_def coefs_ok_def)
    have rk: "rok ep" "rok (lc_coef c ! p)" "rok (lc_konst c)" "rok (lc_konst E)"
      using c(1) E(1) lens by (auto simp: cok_def coefs_ok_def ep_def)
    have "rsem f (rval (lc_coef c ! p) * (1 / rval ep))"
      unfolding f_def using rk by (intro rat_intros) (simp_all add: rval_def)
    then have fv: "rok f" "rval f = rval (lc_coef c ! p) / rval ep" using nb rsem_val by auto
    have cf: "rsem (rat_add a (rat_neg (rat_mul f e))) (rval a + - rval f * rval e)" if "rok a" "rok e" for a e
      using rsem_sub_scaled [OF rok_rsem [OF that(1)] rok_rsem [OF fv(1)] rok_rsem [OF that(2)]] by simp
    have cc: "coefs_ok (length vs) cs" "dot cs vs = dot (lc_coef c) vs + - rval f * dot (lc_coef E) vs"
      using upd_first_ok [OF cf _ _ n] c(1) E(1) nb by (auto simp: cs_def cok_def)
    have kv: "rok k" "rval k = rval (lc_konst c) + - rval f * rval (lc_konst E)"
      using rsem_val [OF cf [OF rk(3,4)]] nb by (auto simp: k_def)
    have csp: "cs ! p = rat_add (lc_coef c ! p) (rat_neg (rat_mul f ep))"
      using p lens by (simp add: cs_def upd_first_def nth_append ep_def)
    have "rval (cs ! p) = 0"
    proof -
      have "cs ! p \<in> set cs" using cc(1) p n by (simp add: coefs_ok_def)
      then have "\<not> r_bad (cs ! p)" using cc(1) coefs_okD by auto
      then have "rval (cs ! p) = rval (lc_coef c ! p) + - rval f * rval ep"
        using rsem_val [OF cf [OF rk(2,1)]] csp by simp
      then show ?thesis using fv p(2) by (simp add: ep_def)
    qed
    moreover have "p < length cs" using cc(1) p n by (simp add: coefs_ok_def)
    ultimately have d: "dot (cs[p := rat_of 0]) vs = dot cs vs" using p by (simp add: dot_update)
    have "coefs_ok (length vs) (cs[p := rat_of 0])"
      using cc(1) p set_update_subset_insert [of cs p "rat_of 0"] by (auto simp: coefs_ok_def)
    then have ok: "cok (length vs) out" using kv by (simp add: out_def cok_def)
    have "lhs vs out = lhs vs c - rval f * lhs vs E"
      using d cc(2) kv by (simp add: lhs_def out_def algebra_simps)
    then have "csat vs out" using c(2) E(2) by (simp add: csat_def out_def)
    then show ?thesis
      using sub nb int_normalize_ok [OF ok iv n norm] constant_false_sound by auto
  qed
qed

lemma map_opt_ok:
  "(\<And>c. c \<in> set cs \<Longrightarrow> \<exists>c'. f c = Some c' \<and> P c') \<Longrightarrow> \<exists>cs'. map_opt f cs = Some cs' \<and> (\<forall>c\<in>set cs'. P c)"
proof (induction cs)
  case (Cons c cs)
  obtain c' where "f c = Some c'" "P c'" using Cons.prems by auto
  moreover obtain cs' where "map_opt f cs = Some cs'" "\<forall>c\<in>set cs'. P c" using Cons by auto
  ultimately show ?case by auto
qed simp

lemma find_pivot_Some:
  assumes "find_pivot sorts E = Some p"
  shows "p < length sorts \<and> \<not> rat_zero (lc_coef E ! p)"
  using find_index_Some [OF assms [unfolded find_pivot_def Let_def]] by auto

theorem eq_eliminate_ok:
  assumes "all_sat vs cur" and "ivals sorts vs" and "length vs \<le> REFINE_MAX_LA_VARS"
  shows "\<exists>cs. eq_eliminate sorts cur = Some cs \<and> all_sat vs cs"
  using assms
proof (induction sorts cur rule: eq_eliminate.induct)
  case (1 sorts cur)
  have len: "length sorts = length vs" using 1(4) by (rule ivals_length)
  show ?case
  proof (cases "split_first lc_eq cur")
    case None
    then show ?thesis using 1(3) by (simp add: eq_eliminate.simps [of sorts cur])
  next
    case (Some r)
    obtain pre E post where r: "r = (pre, E, post)" by (cases r)
    with Some have cur: "cur = pre @ E # post" "lc_eq E" using split_first_Some by metis+
    have E: "cok (length vs) E" "csat vs E" using 1(3) cur by simp_all
    then have E0: "lhs vs E = 0" using cur by (simp add: csat_def)
    show ?thesis
    proof (cases "find_pivot sorts E")
      case None
      define E' where "E' = E\<lparr>lc_eq := False, lc_strict := False\<rparr>"
      have l: "lhs vs E' = 0" using E0 by (simp add: E'_def lhs_def)
      have E': "cok (length vs) E'" "csat vs E'" using E l by (simp_all add: E'_def cok_def csat_def)
      have "all_sat vs (opt_list (negate_linc (length sorts) E'))"
        using negate_ok [OF _ E'(1) 1(5)] l by (auto simp: opt_list_def len csat_def E'_def split: option.split)
      then have "all_sat vs (pre @ E' # post @ opt_list (negate_linc (length sorts) E'))"
        using E' 1(3) cur by simp
      then show ?thesis
        using 1(1) [OF Some r [symmetric] refl None E'_def] 1(4,5) Some r None
        by (simp add: eq_eliminate.simps [of sorts cur] Let_def E'_def)
    next
      case (Some p)
      have p: "p < length vs" "\<not> rat_zero (lc_coef E ! p)" using find_pivot_Some [OF Some] len by auto
      have "rok (lc_coef E ! p)" using E(1) p 1(5) by (auto simp: cok_def coefs_ok_def)
      then have "rval (lc_coef E ! p) \<noteq> 0" using p rok_zero by simp
      note sub = subst_linc_ok [OF E(1) E0 p(1) this _ _ 1(4,5)]
      obtain cs where cs: "map_opt (subst_linc sorts E p) (pre @ post) = Some cs" "all_sat vs cs"
        using map_opt_ok [of "pre @ post" "subst_linc sorts E p" "\<lambda>c. cok (length vs) c \<and> csat vs c"]
          sub 1(3) cur unfolding all_sat_def by auto
      then show ?thesis
        using 1(2) [OF \<open>split_first lc_eq cur = Some r\<close> r [symmetric] refl Some cs(1)] 1(4,5)
          \<open>split_first lc_eq cur = Some r\<close> r Some all_sat_filter
        by (simp add: eq_eliminate.simps [of sorts cur])
    qed
  qed
qed

section \<open>Fourier-Motzkin\<close>

definition ineqs :: "linc list \<Rightarrow> bool" where
  "ineqs cs \<longleftrightarrow> (\<forall>c\<in>set cs. \<not> lc_eq c)"

lemma eq_eliminate_ineqs: "eq_eliminate sorts cur = Some cs \<Longrightarrow> ineqs cs"
proof (induction sorts cur rule: eq_eliminate.induct)
  case (1 sorts cur)
  show ?case
  proof (cases "split_first lc_eq cur")
    case None
    then show ?thesis using 1(3) split_first_None [of lc_eq cur]
      by (auto simp: eq_eliminate.simps [of sorts cur] ineqs_def)
  next
    case (Some r)
    obtain pre E post where r: "r = (pre, E, post)" by (cases r)
    show ?thesis
      using 1(3) 1(1) [OF Some r [symmetric] refl _ refl] 1(2) [OF Some r [symmetric] refl] Some r
      by (auto simp: eq_eliminate.simps [of sorts cur] Let_def split: option.splits)
  qed
qed

lemma fm_combine_ok:
  assumes v: "v < length vs" and ci: "cok (length vs) ci" "csat vs ci" "\<not> lc_eq ci" "rat_pos (lc_coef ci ! v)"
    and cj: "cok (length vs) cj" "csat vs cj" "\<not> lc_eq cj" "rat_neg_p (lc_coef cj ! v)"
    and iv: "ivals sorts vs" and n: "length vs \<le> REFINE_MAX_LA_VARS"
    and r: "fm_combine sorts v ci cj = Some out"
  shows "cok (length vs) out \<and> csat vs out \<and> \<not> lc_eq out"
proof -
  have len: "length sorts = length vs" using iv by (rule ivals_length)
  define si where "si = rat_neg (lc_coef cj ! v)"
  define sj where "sj = lc_coef ci ! v"
  define f where "f = (\<lambda>a b. rat_add (rat_mul a si) (rat_mul b sj))"
  define cs where "cs = map2 f (take (length vs) (lc_coef ci)) (take (length vs) (lc_coef cj))"
  define k where "k = f (lc_konst ci) (lc_konst cj)"
  define c where "c = \<lparr>lc_coef = cs @ replicate (REFINE_MAX_LA_VARS - length vs) (rat_of 0), lc_konst = k,
                 lc_strict = lc_strict ci \<or> lc_strict cj, lc_eq = False, lc_bad = False\<rparr>"
  have nb: "\<forall>a\<in>set cs. \<not> r_bad a" "\<not> r_bad k" and out: "out = snd (int_normalize sorts c)"
    using r by (auto simp: fm_combine_def Let_def si_def sj_def f_def cs_def k_def c_def len split: if_splits)
  have cc: "coefs_ok (length vs) (lc_coef ci)" "coefs_ok (length vs) (lc_coef cj)"
      "rok (lc_konst ci)" "rok (lc_konst cj)"
    using ci cj by (simp_all add: cok_def)
  have rs: "rok (lc_coef ci ! v)" "rok (lc_coef cj ! v)"
    using cc v n by (auto simp: coefs_ok_def)
  define x where "x = - rval (lc_coef cj ! v)"
  define y where "y = rval sj"
  have pos: "x > 0" "y > 0" using rs ci(4) cj(4) rok_pos rok_neg by (auto simp: x_def y_def sj_def)
  have s: "rsem si x" "rsem sj y"
    using rsem_neg [OF rok_rsem [OF rs(2)]] rok_rsem [OF rs(1)] by (simp_all add: si_def sj_def x_def y_def)
  have fv: "rsem (f a b) (x * rval a + y * rval b)" if "rok a" "rok b" for a b
    using rsem_add [OF rsem_mul [OF rok_rsem [OF that(1)] s(1)] rsem_mul [OF rok_rsem [OF that(2)] s(2)]]
    by (simp add: f_def mult.commute)
  have m: "rok (f a b) \<and> rval (f a b) = x * rval a + y * rval b"
    if "(a, b) \<in> set (zip (take (length vs) (lc_coef ci)) (take (length vs) (lc_coef cj)))" for a b
  proof -
    have "f a b \<in> set cs" using that by (force simp: cs_def)
    moreover have "rok a" "rok b"
      using set_zip_leftD [OF that] set_zip_rightD [OF that] cc by (auto dest!: in_set_takeD intro: coefs_okD)
    ultimately show ?thesis using fv [of a b] nb rsem_val by blast
  qed
  have kv: "rok k" "rval k = x * rval (lc_konst ci) + y * rval (lc_konst cj)"
    using rsem_val [OF fv [OF cc(3,4)]] nb by (auto simp: k_def)
  have lcs: "length cs = length vs" using cc n by (simp add: cs_def coefs_ok_def)
  have "coefs_ok (length vs) (cs @ replicate (REFINE_MAX_LA_VARS - length vs) (rat_of 0))"
    using m lcs n by (intro coefs_ok_pad) (auto simp: cs_def)
  then have ok: "cok (length vs) c" using kv by (simp add: c_def cok_def)
  have "dot cs vs = x * dot (take (length vs) (lc_coef ci)) vs + y * dot (take (length vs) (lc_coef cj)) vs"
    unfolding cs_def using m cc by (intro dot_map2) (auto simp: coefs_ok_def)
  then have l: "lhs vs c = x * lhs vs ci + y * lhs vs cj"
    using lcs kv by (simp add: c_def lhs_def dot_append1 dot_take algebra_simps)
  have "csat vs c"
  proof -
    have "lhs vs ci \<le> 0" "lhs vs cj \<le> 0" using ci cj by (auto simp: csat_def split: if_splits)
    then have le: "x * lhs vs ci \<le> 0" "y * lhs vs cj \<le> 0" using pos by (auto simp: mult_le_0_iff)
    moreover have "lc_strict ci \<Longrightarrow> x * lhs vs ci < 0" "lc_strict cj \<Longrightarrow> y * lhs vs cj < 0"
      using ci cj pos by (auto simp: csat_def mult_less_0_iff)
    ultimately show ?thesis unfolding csat_def l by (auto simp: c_def)
  qed
  moreover obtain b c' where norm: "int_normalize sorts c = (b, c')" by fastforce
  ultimately have "cok (length vs) c' \<and> csat vs c' \<and> b" using int_normalize_ok [OF ok iv n norm] by auto
  moreover from this have "lc_eq c' = lc_eq c" using int_normalize_eq norm by auto
  ultimately show ?thesis using out norm by (simp add: c_def)
qed

definition fm_ok :: "real list \<Rightarrow> linc list \<Rightarrow> bool" where
  "fm_ok vs cs \<longleftrightarrow> all_sat vs cs \<and> ineqs cs"

lemma fm_ok_simps [simp]:
  "fm_ok vs []" "fm_ok vs (c # cs) \<longleftrightarrow> (cok (length vs) c \<and> csat vs c \<and> \<not> lc_eq c) \<and> fm_ok vs cs"
  "fm_ok vs (cs @ ds) \<longleftrightarrow> fm_ok vs cs \<and> fm_ok vs ds"
  by (auto simp: fm_ok_def ineqs_def)

lemma fm_ok_filter: "fm_ok vs cs \<Longrightarrow> fm_ok vs (filter P cs)"
  by (auto simp: fm_ok_def ineqs_def all_sat_filter)

lemma fm_row_ok:
  assumes iv: "ivals sorts vs" and n: "length vs \<le> REFINE_MAX_LA_VARS" and v: "v < length vs"
    and ci: "cok (length vs) ci" "csat vs ci" "\<not> lc_eq ci" "rat_pos (lc_coef ci ! v)"
    and "fm_ok vs cs" and "fm_ok vs nxt"
  shows "\<exists>r. fm_row sorts v nmax ci cs nxt = Some r \<and> fm_ok vs r"
  using assms(8,9)
proof (induction cs arbitrary: nxt)
  case Nil
  then show ?case by simp
next
  case (Cons cj cs)
  show ?case
  proof (cases "rat_neg_p (lc_coef cj ! v)")
    case False
    with Cons show ?thesis by simp
  next
    case True
    have cj: "cok (length vs) cj" "csat vs cj" "\<not> lc_eq cj" using Cons.prems by simp_all
    show ?thesis
    proof (cases "fm_combine sorts v ci cj")
      case None
      with Cons show ?thesis by simp
    next
      case (Some out)
      note o = fm_combine_ok [OF v ci cj True iv n Some]
      then have "\<not> constant_false out (length sorts)"
        using constant_false_sound ivals_length [OF iv] by metis
      with Some True o Cons show ?thesis by simp
    qed
  qed
qed

lemma fm_rows_ok:
  assumes iv: "ivals sorts vs" and n: "length vs \<le> REFINE_MAX_LA_VARS" and v: "v < length vs"
    and "fm_ok vs rows" and "fm_ok vs cur" and "fm_ok vs nxt"
  shows "\<exists>r. fm_rows sorts v nmax cur rows nxt = Some r \<and> fm_ok vs r"
  using assms(4,6)
proof (induction rows arbitrary: nxt)
  case Nil
  then show ?case by simp
next
  case (Cons ci rows)
  then have ci: "cok (length vs) ci" "csat vs ci" "\<not> lc_eq ci" by simp_all
  show ?case
  proof (cases "rat_pos (lc_coef ci ! v)")
    case False
    with Cons show ?thesis by simp
  next
    case True
    with Cons.prems obtain r where "fm_row sorts v nmax ci cur nxt = Some r" "fm_ok vs r"
      using fm_row_ok [OF iv n v ci True assms(5)] by blast
    with Cons True show ?thesis by simp
  qed
qed

lemma fm_elim_ok:
  assumes iv: "ivals sorts vs" and n: "length vs \<le> REFINE_MAX_LA_VARS"
    and "\<forall>v\<in>set ws. v < length vs" and "fm_ok vs cur"
  shows "\<not> fm_elim sorts ws cur"
  using assms(3,4)
proof (induction ws arbitrary: cur)
  case Nil
  then show ?case using all_sat_not_false ivals_length [OF iv] by (auto simp: fm_ok_def)
next
  case (Cons v ws)
  let ?f = "\<lambda>nmax. fm_rows sorts v nmax cur cur (filter (\<lambda>c. rat_zero (lc_coef c ! v)) cur)"
  have v: "v < length vs" using Cons.prems by simp
  have "\<exists>r. ?f nmax = Some r \<and> fm_ok vs r" for nmax
    using fm_rows_ok [OF iv n v Cons.prems(2,2)] fm_ok_filter Cons.prems(2) by blast
  then obtain R where R: "\<And>nmax. ?f nmax = Some (R nmax) \<and> fm_ok vs (R nmax)" by metis
  have ok: "\<not> (\<exists>c\<in>set r. constant_false c (length sorts))" "\<not> fm_elim sorts ws r" if "fm_ok vs r" for r
    using all_sat_not_false [of vs r] that ivals_length [OF iv] Cons.IH Cons.prems by (auto simp: fm_ok_def)
  show ?case using R ok by (auto simp: Let_def)
qed

text \<open>The refuter on a state with a model answers false.\<close>

theorem la_unsat_sound:
  assumes "la_ok fs st" and "la_sat I st"
  shows "\<not> la_unsat st"
proof -
  define vs where "vs = la_vals I st"
  have iv: "ivals (la_sorts st) vs" using la_ivals [OF assms(1)] by (simp add: vs_def)
  have len: "length vs = length (la_vars st)" "length vs \<le> REFINE_MAX_LA_VARS"
    using assms(1) by (simp_all add: vs_def la_ok_def)
  have s: "all_sat vs (la_cs st)" using assms by (simp add: all_sat_def la_ok_def la_sat_def vs_def)
  obtain cs where cs: "eq_eliminate (la_sorts st) (la_cs st) = Some cs" "all_sat vs cs"
    using eq_eliminate_ok [OF s iv len(2)] by blast
  have f: "fm_ok vs cs" using cs eq_eliminate_ineqs by (simp add: fm_ok_def)
  have "\<not> fm_elim (la_sorts st) [0..<length (la_vars st)] cs"
    using len by (intro fm_elim_ok [OF iv len(2) _ f]) auto
  moreover have "\<not> (\<exists>c\<in>set xs. constant_false c (length (la_vars st)))" if "all_sat vs xs" for xs
    using all_sat_not_false [OF that] len by auto
  ultimately show ?thesis using cs s by (auto simp: la_unsat_def Let_def)
qed

section \<open>Entailed equalities and the stage\<close>

lemma la_ok_take: "la_ok fs st \<Longrightarrow> la_ok fs (st\<lparr>la_cs := take k (la_cs st)\<rparr>)"
  by (auto simp: la_ok_def dest: in_set_takeD)

lemma la_sat_take: "la_step fs Q st st' \<Longrightarrow> la_ok fs st \<Longrightarrow>
  la_cs (st'\<lparr>la_cs := take (length (la_cs st)) (la_cs st')\<rparr>) = la_cs st
  \<and> la_sat I (st'\<lparr>la_cs := take (length (la_cs st)) (la_cs st')\<rparr>) = la_sat I st"
proof -
  assume s: "la_step fs Q st st'" and ok: "la_ok fs st"
  then have e: "la_ext st (st'\<lparr>la_cs := take (length (la_cs st)) (la_cs st')\<rparr>)"
    by (auto simp: la_step_def la_ext_def)
  show ?thesis using la_ext_sat [OF e ok] e by (simp add: la_ext_def)
qed

text \<open>
  \<open>la_entails_eq\<close> answers true only for an equality that holds in every model of the state, and
  leaves the constraints as they were.
\<close>

lemma la_entails_eq_ok:
  assumes w: "wf_term fs x" "wf_term fs y" "lin_exact x" "lin_exact y"
    and st: "la_ok fs st" and r: "la_entails_eq st x y = (b, st')"
  shows "la_ok fs st' \<and> (\<forall>I. la_sat I st' = la_sat I st) \<and> (b \<longrightarrow> (\<forall>I. la_sat I st \<longrightarrow> eval I x = eval I y))"
proof (cases "la_gave_up st")
  case True
  then show ?thesis using r st by (simp add: la_entails_eq_def)
next
  case False
  define st1 where "st1 = snd (la_assert_le st x y True)"
  define st2 where "st2 = st1\<lparr>la_cs := take (length (la_cs st)) (la_cs st1)\<rparr>"
  define st3 where "st3 = snd (la_assert_le st2 y x True)"
  define st4 where "st4 = st3\<lparr>la_cs := take (length (la_cs st)) (la_cs st3)\<rparr>"
  have s1: "la_step fs (\<lambda>I. eval I x < eval I y) st st1"
    using la_assert_le_ok [OF w st, of True] by (simp add: st1_def)
  have ok2: "la_ok fs st2" using la_ok_take [OF la_step_ok [OF s1]] by (simp add: st2_def)
  have c2: "la_cs st2 = la_cs st \<and> la_sat I st2 = la_sat I st" for I
    using la_sat_take [OF s1 st, of I] unfolding st2_def .
  have s3: "la_step fs (\<lambda>I. eval I y < eval I x) st2 st3"
    using la_assert_le_ok [OF w(2,1,4,3) ok2, of True] by (simp add: st3_def)
  have ok4: "la_ok fs st4" using la_ok_take [OF la_step_ok [OF s3]] by (simp add: st4_def)
  have c4: "la_sat I st4 = la_sat I st" for I
    using la_sat_take [OF s3 ok2, of I] c2 [of I] unfolding st4_def by metis
  have res: "(b, st') = (if \<not> la_unsat st1 then (False, st2) else (la_unsat st3, st4))"
    using r False unfolding la_entails_eq_def Let_def st4_def st3_def st2_def st1_def by simp
  have lt: "la_unsat st1 \<Longrightarrow> la_sat I st \<Longrightarrow> \<not> eval I x < eval I y" for I
    using la_unsat_sound [OF la_step_ok [OF s1]] s1 by (auto simp: la_step_def)
  have gt: "la_unsat st3 \<Longrightarrow> la_sat I st \<Longrightarrow> \<not> eval I y < eval I x" for I
    using la_unsat_sound [OF la_step_ok [OF s3]] s3 c2 [of I] by (auto simp: la_step_def)
  show ?thesis
  proof (cases "la_unsat st1")
    case True
    then show ?thesis using res ok4 c4 lt gt by (metis linorder_less_linear prod.inject)
  next
    case False
    then show ?thesis using res ok2 c2 by auto
  qed
qed

lemma la_assert_cube_ok:
  assumes "\<forall>l\<in>set c. lit_ok fs l \<and> all_nodes real_lit_exact l" and "la_ok fs st"
  shows "la_step fs (\<lambda>I. holds_all I c) st (snd (la_assert_cube st c))"
  using la_assert_fold_ok [OF assms] by (simp add: la_assert_cube_def Let_def)

lemma s2_refute_sound:
  assumes "\<forall>l\<in>set c. lit_ok fs l \<and> all_nodes real_lit_exact l" and "la_unsat (snd (la_assert_cube la_new c))"
  shows "\<not> holds_all I c"
proof
  assume "holds_all I c"
  moreover have s: "la_step fs (\<lambda>I. holds_all I c) la_new (snd (la_assert_cube la_new c))"
    using la_assert_cube_ok [OF assms(1)] by simp
  ultimately have "la_sat I (snd (la_assert_cube la_new c))" by (simp add: la_step_def)
  then show False using la_unsat_sound [OF la_step_ok [OF s]] assms(2) by blast
qed

lemma real_lit_exact_free: "conn_free real_lit_exact"
  by (auto simp: conn_free_def real_lit_exact_def)

interpretation s2: cube_refuter "\<lambda>vc. real_lit_exact" "\<lambda>vc. ()" s2_refute "\<lambda>vc u. True"
proof
  fix vc
  show "conn_free real_lit_exact" by (rule real_lit_exact_free)
next
  fix vc :: refinevc and st c I r st'
  assume "\<forall>l\<in>set c. lit_ok (ufunc_sort vc) l" "\<forall>l\<in>set c. all_nodes real_lit_exact l"
    and "s2_refute vc st c = (r, st')"
  then show "True \<and> (r \<longrightarrow> \<not> holds_all I c)"
    using s2_refute_sound [of c "ufunc_sort vc" I] by (auto simp: s2_refute_def)
qed simp

end
