(* ===== verification/TrailC.thy ===== *)
theory TrailC
  imports Prelude
begin

text \<open>
  The compiler's value trail (\<open>src/compiler/trail_c.h\<close>): old values of the slots of an array,
  recorded once per level through a stamp array, replayed in reverse by an undo. Growth of the
  entry array is not modelled; levels are natural numbers (the C counter wraps after \<open>2 ^ 32\<close>
  marks). The interface the theory states gives what the congruence closure relies on: undoing to
  a mark restores the slots the array had then.
\<close>

section \<open>Operations\<close>

record trailc =
  tr_e :: "(nat \<times> nat) list"
  tr_level :: nat

definition trailc_init :: trailc where
  "trailc_init = \<lparr>tr_e = [], tr_level = 1\<rparr>"

text \<open>A mark is the trail length and the fresh level.\<close>

definition trailc_mark :: "trailc \<Rightarrow> (nat \<times> nat) \<times> trailc" where
  "trailc_mark t = (let t' = t\<lparr>tr_level := tr_level t + 1\<rparr> in ((length (tr_e t'), tr_level t'), t'))"

text \<open>Returns whether an entry was appended, the trail and the new stamp of the slot.\<close>

definition trailc_note :: "trailc \<Rightarrow> nat \<Rightarrow> nat \<Rightarrow> nat \<Rightarrow> bool \<times> trailc \<times> nat" where
  "trailc_note t idx old stamp =
     (if stamp = tr_level t then (False, t, stamp)
      else (True, t\<lparr>tr_e := tr_e t @ [(idx, old)]\<rparr>, tr_level t))"

definition restore_slot :: "nat \<Rightarrow> nat \<times> nat \<Rightarrow> nat list \<Rightarrow> nat list" where
  "restore_slot n_slots e slots = (if fst e < n_slots then slots[fst e := snd e] else slots)"

definition trailc_undo_to :: "trailc \<Rightarrow> nat \<Rightarrow> nat list \<Rightarrow> nat \<Rightarrow> trailc \<times> nat list" where
  "trailc_undo_to t len slots n_slots =
     (t\<lparr>tr_e := take len (tr_e t)\<rparr>, fold (restore_slot n_slots) (rev (drop len (tr_e t))) slots)"

section \<open>Replaying\<close>

lemma restore_slot_length [simp]: "length (restore_slot n e slots) = length slots"
  by (simp add: restore_slot_def)

lemma fold_restore_length [simp]: "length (fold (restore_slot n) es slots) = length slots"
  by (induction es arbitrary: slots) auto

text \<open>Only the slots below the bound matter, and a slot with an entry forgets its value.\<close>

lemma fold_restore_cong:
  assumes "\<forall>i<n. i \<notin> fst ` set es \<longrightarrow> xs ! i = ys ! i" and "n \<le> length xs" and "n \<le> length ys" and "i < n"
  shows "fold (restore_slot n) es xs ! i = fold (restore_slot n) es ys ! i"
  using assms
proof (induction es arbitrary: xs ys)
  case Nil
  then show ?case by simp
next
  case (Cons e es)
  have "restore_slot n e xs ! j = restore_slot n e ys ! j" if "j < n" "j \<notin> fst ` set es" for j
    using Cons.prems that by (cases "j = fst e") (auto simp: restore_slot_def nth_list_update)
  then show ?case using Cons by simp
qed

lemma fold_restore_untouched:
  "n \<le> length xs \<Longrightarrow> i \<notin> fst ` set es \<Longrightarrow> fold (restore_slot n) es xs ! i = xs ! i"
  by (induction es arbitrary: xs) (auto simp: restore_slot_def)

section \<open>What a mark promises\<close>

text \<open>
  \<open>since len slots0 t slots stamps\<close>: the array was \<open>slots0\<close> when the trail had length \<open>len\<close> and
  a mark was taken, and what happened since can be undone. Stamps never exceed the level, and a
  slot stamped with the level in force has an entry above the mark.
\<close>

definition since :: "nat \<Rightarrow> nat list \<Rightarrow> trailc \<Rightarrow> nat list \<Rightarrow> nat list \<Rightarrow> bool" where
  "since len slots0 t slots stamps \<longleftrightarrow>
     len \<le> length (tr_e t) \<and> length slots0 \<le> length slots \<and> length stamps = length slots
     \<and> (\<forall>s\<in>set stamps. s \<le> tr_level t)
     \<and> (\<forall>i<length slots0. stamps ! i = tr_level t \<longrightarrow> i \<in> fst ` set (drop len (tr_e t)))
     \<and> take (length slots0) (snd (trailc_undo_to t len slots (length slots0))) = slots0"

lemma since_mark:
  assumes "length stamps = length slots" and "\<forall>s\<in>set stamps. s \<le> tr_level t" and "trailc_mark t = (m, t')"
  shows "since (fst m) slots t' slots stamps"
proof -
  have "stamps ! i \<noteq> Suc (tr_level t)" if "i < length slots" for i
    using that assms(1,2) by (metis Suc_n_not_le_n nth_mem)
  moreover have "s \<le> Suc (tr_level t)" if "s \<in> set stamps" for s using that assms(2) by (simp add: le_SucI)
  ultimately show ?thesis
    using assms by (auto simp: since_def trailc_mark_def Let_def trailc_undo_to_def)
qed

text \<open>A write through the trail: note the old value, then store.\<close>

definition trail_write :: "trailc \<Rightarrow> nat list \<Rightarrow> nat list \<Rightarrow> nat \<Rightarrow> nat \<Rightarrow> trailc \<times> nat list \<times> nat list" where
  "trail_write t slots stamps i v =
     (let (_, t', s') = trailc_note t i (slots ! i) (stamps ! i)
      in (t', slots[i := v], stamps[i := s']))"

lemma since_write:
  assumes s: "since len slots0 t slots stamps" and i: "i < length slots"
    and w: "trail_write t slots stamps i v = (t', slots', stamps')"
  shows "since len slots0 t' slots' stamps'"
proof -
  let ?n = "length slots0" and ?es = "rev (drop len (tr_e t))"
  have l: "len \<le> length (tr_e t)" "?n \<le> length slots" "length stamps = length slots"
    "\<forall>s\<in>set stamps. s \<le> tr_level t"
    and e: "\<And>j. j < ?n \<Longrightarrow> stamps ! j = tr_level t \<Longrightarrow> j \<in> fst ` set (drop len (tr_e t))"
    and u: "take ?n (fold (restore_slot ?n) ?es slots) = slots0"
    using s by (simp_all add: since_def trailc_undo_to_def)
  have ui: "fold (restore_slot ?n) ?es slots ! j = slots0 ! j" if "j < ?n" for j
    using u that by (metis nth_take)
  show ?thesis
  proof (cases "stamps ! i = tr_level t")
    case True
    then have w': "t' = t" "slots' = slots[i := v]" "stamps' = stamps"
      using w True list_update_id [of stamps i] by (auto simp: trail_write_def trailc_note_def)
    have "fold (restore_slot ?n) ?es (slots[i := v]) ! j = slots0 ! j" if "j < ?n" for j
    proof -
      have "fold (restore_slot ?n) ?es (slots[i := v]) ! j = fold (restore_slot ?n) ?es slots ! j"
      proof (rule fold_restore_cong [OF _ _ _ that])
        show "\<forall>k<?n. k \<notin> fst ` set ?es \<longrightarrow> slots[i := v] ! k = slots ! k"
        proof (intro allI impI)
          fix k
          assume "k < ?n" "k \<notin> fst ` set ?es"
          then have "k \<noteq> i" using e [of i] True by auto
          then show "slots[i := v] ! k = slots ! k" by simp
        qed
      qed (use l in auto)
      then show ?thesis using ui that by simp
    qed
    then have "take ?n (fold (restore_slot ?n) ?es (slots[i := v])) = slots0"
      using l(2) by (intro nth_equalityI) auto
    then show ?thesis using l e by (simp add: w' since_def trailc_undo_to_def)
  next
    case False
    then have w': "t' = t\<lparr>tr_e := tr_e t @ [(i, slots ! i)]\<rparr>" "slots' = slots[i := v]" "stamps' = stamps[i := tr_level t]"
      using w by (auto simp: trail_write_def trailc_note_def)
    have d: "drop len (tr_e t') = drop len (tr_e t) @ [(i, slots ! i)]" using l(1) by (simp add: w')
    have r: "restore_slot ?n (i, slots ! i) (slots[i := v]) = (if i < ?n then slots else slots[i := v])"
      by (simp add: restore_slot_def)
    have "fold (restore_slot ?n) ?es (restore_slot ?n (i, slots ! i) (slots[i := v])) ! j = slots0 ! j" if "j < ?n" for j
    proof -
      have "fold (restore_slot ?n) ?es (restore_slot ?n (i, slots ! i) (slots[i := v])) ! j
          = fold (restore_slot ?n) ?es slots ! j"
        using l that by (intro fold_restore_cong) (auto simp: r nth_list_update)
      then show ?thesis using ui that by simp
    qed
    then have "take ?n (fold (restore_slot ?n) ?es (restore_slot ?n (i, slots ! i) (slots[i := v]))) = slots0"
      using l(2) by (intro nth_equalityI) auto
    moreover have "\<forall>s\<in>set (stamps[i := tr_level t]). s \<le> tr_level t"
      using l(4) set_update_subset_insert [of stamps i "tr_level t"] by auto
    moreover have "j \<in> fst ` set (drop len (tr_e t'))" if "j < ?n" "stamps[i := tr_level t] ! j = tr_level t" for j
      using that e [of j] l(2,3) i by (cases "j = i") (auto simp: d image_Un)
    ultimately show ?thesis using l by (simp add: since_def trailc_undo_to_def d) (simp add: w')
  qed
qed

text \<open>Appending a slot with the resting stamp 0 keeps the promise.\<close>

lemma since_append:
  assumes s: "since len slots0 t slots stamps"
  shows "since len slots0 t (slots @ [v]) (stamps @ [0])"
proof -
  let ?n = "length slots0" and ?es = "rev (drop len (tr_e t))"
  have l: "?n \<le> length slots" "length stamps = length slots" using s by (simp_all add: since_def)
  have a: "fold (restore_slot ?n) es (xs @ [v]) = fold (restore_slot ?n) es xs @ [v]" if "?n \<le> length xs" for es xs
    using that by (induction es arbitrary: xs) (auto simp: restore_slot_def list_update_append1)
  show ?thesis using s l a [OF l(1), of ?es] by (auto simp: since_def trailc_undo_to_def nth_append)
qed

lemma since_undo:
  "since len slots0 t slots stamps \<Longrightarrow>
   take (length slots0) (snd (trailc_undo_to t len slots (length slots0))) = slots0"
  by (simp add: since_def)

text \<open>
  Marks nest: undoing to an inner mark and taking a fresh mark keeps the promise of the outer
  one. The fresh mark is needed (\<open>undo_without_mark_loses_write\<close>): the undo leaves the stamps, so
  that a write at the same level is not recorded.
\<close>

lemma undo_without_mark_loses_write:
  "(let (_, t1) = trailc_mark trailc_init; (k, t2) = trailc_mark t1;
        (t3, sl3, st3) = trail_write t2 [5] [0] 0 6; (t4, sl4) = trailc_undo_to t3 (fst k) sl3 1;
        (t5, sl5, st5) = trail_write t4 sl4 st3 0 7
    in (sl4, snd (trailc_undo_to t5 0 sl5 1))) = ([5], [7])"
  by code_simp

lemma fold_restore_bound:
  "n \<le> n2 \<Longrightarrow> n2 \<le> length slots \<Longrightarrow> i < n \<Longrightarrow>
   fold (restore_slot n) es slots ! i = fold (restore_slot n2) es slots ! i"
proof (induction es arbitrary: slots)
  case (Cons e es)
  have "fold (restore_slot n) es (restore_slot n e slots) ! i = fold (restore_slot n) es (restore_slot n2 e slots) ! i"
    using Cons.prems by (intro fold_restore_cong) (auto simp: restore_slot_def nth_list_update)
  then show ?case using Cons by simp
qed simp

lemma since_inner_undo:
  assumes s: "since len slots0 t slots stamps" and k: "len \<le> k" "k \<le> length (tr_e t)"
    and n: "length slots0 \<le> n2" "n2 \<le> length slots" and u: "trailc_undo_to t k slots n2 = (t', slots')"
    and m: "trailc_mark t' = (mk, t'')"
  shows "since len slots0 t'' (take n2 slots') (take n2 stamps)"
proof -
  let ?n = "length slots0"
  have t': "tr_e t' = take k (tr_e t)" "tr_level t' = tr_level t" "slots' = fold (restore_slot n2) (rev (drop k (tr_e t))) slots"
    using u by (auto simp: trailc_undo_to_def)
  have t'': "tr_e t'' = take k (tr_e t)" "tr_level t'' = Suc (tr_level t)"
    using m t' by (auto simp: trailc_mark_def Let_def)
  have e: "drop len (tr_e t) = drop len (take k (tr_e t)) @ drop k (tr_e t)"
    using k by (metis append_take_drop_id drop_append drop_take length_take min_absorb2 diff_is_0_eq drop_0)
  have st: "length stamps = length slots" "\<forall>s\<in>set stamps. s \<le> tr_level t" using s by (simp_all add: since_def)
  have lev: "s < Suc (tr_level t)" if "s \<in> set (take n2 stamps)" for s
    using that st by (auto dest!: in_set_takeD)
  have ne: "stamps ! i \<noteq> Suc (tr_level t)" if "i < ?n" for i
    using lev [of "stamps ! i"] that n st by (metis in_set_conv_nth length_take less_irrefl min_less_iff_conj nth_take order_less_le_trans)
  have "take ?n (fold (restore_slot ?n) (rev (drop len (take k (tr_e t)))) (take n2 slots')) = slots0"
  proof (intro nth_equalityI)
    show "length (take ?n (fold (restore_slot ?n) (rev (drop len (take k (tr_e t)))) (take n2 slots'))) = length slots0"
      using n t' by simp
  next
    fix i
    assume "i < length (take ?n (fold (restore_slot ?n) (rev (drop len (take k (tr_e t)))) (take n2 slots')))"
    then have i: "i < ?n" by simp
    let ?a = "rev (drop len (take k (tr_e t)))" and ?b = "rev (drop k (tr_e t))"
    have "fold (restore_slot ?n) ?a (take n2 slots') ! i = fold (restore_slot ?n) ?a (fold (restore_slot ?n) ?b slots) ! i"
      using n i t' fold_restore_bound [OF n, of _ ?b] by (intro fold_restore_cong) auto
    also have "\<dots> = slots0 ! i"
      using s i e by (metis (no_types, lifting) fold_append comp_apply nth_take rev_append since_def snd_conv trailc_undo_to_def)
    finally show "take ?n (fold (restore_slot ?n) ?a (take n2 slots')) ! i = slots0 ! i" using i by simp
  qed
  then show ?thesis
    using lev ne k n st t' by (auto simp: since_def trailc_undo_to_def t'' less_imp_le)
qed

end
