(* ===== verification/Euf.thy ===== *)
theory Euf
  imports LinRefute TrailC
begin

text \<open>
  Stage S1, congruence closure (\<open>src/compiler/refine_solver_euf.c\<close>): the registry of terms with
  its open-addressing index, the trailed union-find, the signature-table fixpoint, the literal
  conflict check and the assertion of a cube. Arrays of live terms are lists of their length; an
  undo shortens them, where C leaves the truncated slots to be overwritten. The hash-cons id of a
  term, on which only the layout of the index depends, is the parameter \<open>idf\<close>.
\<close>

definition REFINE_MAX_EUF_TERMS :: nat where "REFINE_MAX_EUF_TERMS = 512"

record eufstate =
  e_terms :: "vcterm list"
  e_parent :: "nat list"
  e_pstamp :: "nat list"
  e_hslot :: "nat list"
  e_cap :: nat
  e_unsat :: bool
  e_trail :: trailc
  e_htab :: "nat list"
  e_shared :: "nat list"

definition euf_new :: eufstate where
  "euf_new = \<lparr>e_terms = [], e_parent = [], e_pstamp = [], e_hslot = [], e_cap = 0, e_unsat = False,
              e_trail = trailc_init, e_htab = [], e_shared = []\<rparr>"

definition e_hcap :: "eufstate \<Rightarrow> nat" where "e_hcap st = length (e_htab st)"

definition e_n :: "eufstate \<Rightarrow> nat" where "e_n st = length (e_terms st)"

definition euf_pset :: "eufstate \<Rightarrow> nat \<Rightarrow> nat \<Rightarrow> eufstate" where
  "euf_pset st i v =
     (let (t, p, s) = trail_write (e_trail st) (e_parent st) (e_pstamp st) i v
      in st\<lparr>e_trail := t, e_parent := p, e_pstamp := s\<rparr>)"

section \<open>Term registry\<close>

definition euf_hash_id :: "u32 \<Rightarrow> nat" where
  "euf_hash_id i = unat (i * 2654435761)"

text \<open>Masking with \<open>hcap - 1\<close>, a power of two, is the remainder (\<open>and_mask_mod\<close>).\<close>

definition euf_home :: "(vcterm \<Rightarrow> u32) \<Rightarrow> nat \<Rightarrow> vcterm \<Rightarrow> nat" where
  "euf_home idf hcap t = euf_hash_id (idf t) mod hcap"

definition euf_hinsert :: "(vcterm \<Rightarrow> u32) \<Rightarrow> vcterm list \<Rightarrow> nat \<Rightarrow> nat list \<times> nat list \<Rightarrow> nat list \<times> nat list" where
  "euf_hinsert idf terms idx h =
     (let (htab, hslot) = h; hcap = length htab
      in case probe hcap hcap (\<lambda>s. htab ! s = 0) (euf_home idf hcap (terms ! idx)) of
           None \<Rightarrow> (htab, hslot @ [0])
         | Some s \<Rightarrow> (htab[s := idx + 1], hslot @ [s]))"

definition euf_lookup :: "(vcterm \<Rightarrow> u32) \<Rightarrow> eufstate \<Rightarrow> vcterm \<Rightarrow> nat option" where
  "euf_lookup idf st t =
     (let hcap = e_hcap st
      in if hcap = 0 then None
         else case probe hcap hcap (\<lambda>s. e_htab st ! s = 0 \<or> e_terms st ! (e_htab st ! s - 1) = t)
                     (euf_home idf hcap t) of
                None \<Rightarrow> None
              | Some s \<Rightarrow> if e_htab st ! s = 0 then None else Some (e_htab st ! s - 1))"

definition euf_grow :: "(vcterm \<Rightarrow> u32) \<Rightarrow> eufstate \<Rightarrow> eufstate" where
  "euf_grow idf st =
     (if e_n st = e_cap st then
        let ncap = (if e_cap st \<noteq> 0 then e_cap st * 2 else 32);
            (htab, hslot) = fold (euf_hinsert idf (e_terms st)) [0..<e_n st] (replicate (ncap * 2) 0, [])
        in st\<lparr>e_cap := ncap, e_htab := htab, e_hslot := hslot\<rparr>
      else st)"

text \<open>The terms both theories see, which \<open>euf_add\<close> collects as it registers them.\<close>

definition euf_eligible :: "vcterm \<Rightarrow> bool" where
  "euf_eligible t \<longleftrightarrow> t_sort t \<noteq> VS_BOOL \<and> la_is_shared_term t"

definition euf_add :: "(vcterm \<Rightarrow> u32) \<Rightarrow> eufstate \<Rightarrow> vcterm \<Rightarrow> eufstate" where
  "euf_add idf st t =
     (if REFINE_MAX_EUF_TERMS \<le> e_n st then st\<lparr>e_unsat := False\<rparr>
      else
        let st1 = euf_grow idf st; n = e_n st; terms = e_terms st1 @ [t];
            (htab, hslot) = euf_hinsert idf terms n (e_htab st1, e_hslot st1)
        in st1\<lparr>e_terms := terms, e_parent := e_parent st1 @ [n], e_pstamp := e_pstamp st1 @ [0],
               e_htab := htab, e_hslot := hslot,
               e_shared := (if euf_eligible t then e_shared st1 @ [n] else e_shared st1)\<rparr>)"

fun euf_index :: "(vcterm \<Rightarrow> u32) \<Rightarrow> vcterm \<Rightarrow> eufstate \<Rightarrow> nat option \<times> eufstate" where
  "euf_index idf (Node op s ks p) st =
     (case euf_lookup idf st (Node op s ks p) of
        Some i \<Rightarrow> (Some i, st)
      | None \<Rightarrow>
          let st1 = fold (\<lambda>k a. snd (euf_index idf k a)) ks st
          in if REFINE_MAX_EUF_TERMS \<le> e_n st1 then (None, st1)
             else let st2 = euf_add idf st1 (Node op s ks p) in (Some (e_n st2 - 1), st2))"

section \<open>Union-find\<close>

text \<open>
  Path halving. The fuel is the number of terms, which is enough for every chain of parents
  (\<open>uf_find_root\<close>).
\<close>

fun uf_walk :: "nat \<Rightarrow> eufstate \<Rightarrow> nat \<Rightarrow> nat \<times> eufstate" where
  "uf_walk 0 st i = (i, st)"
| "uf_walk (Suc k) st i =
     (if e_parent st ! i = i then (i, st)
      else let gp = e_parent st ! (e_parent st ! i) in uf_walk k (euf_pset st i gp) gp)"

definition uf_find :: "eufstate \<Rightarrow> nat \<Rightarrow> nat \<times> eufstate" where
  "uf_find st i = uf_walk (e_n st) st i"

definition uf_union :: "eufstate \<Rightarrow> nat \<Rightarrow> nat \<Rightarrow> bool \<times> eufstate" where
  "uf_union st i j =
     (let (ri, st1) = uf_find st i; (rj, st2) = uf_find st1 j
      in if ri = rj then (False, st2) else (True, euf_pset st2 rj ri))"

section \<open>Closure\<close>

fun congruent_kids :: "(vcterm \<Rightarrow> u32) \<Rightarrow> vcterm list \<Rightarrow> vcterm list \<Rightarrow> eufstate \<Rightarrow> bool \<times> eufstate" where
  "congruent_kids idf (x # xs) (y # ys) st =
     (case (euf_lookup idf st x, euf_lookup idf st y) of
        (Some a, Some b) \<Rightarrow>
          (let (ra, st1) = uf_find st a; (rb, st2) = uf_find st1 b
           in if ra \<noteq> rb then (False, st2) else congruent_kids idf xs ys st2)
      | _ \<Rightarrow> (False, st))"
| "congruent_kids idf _ _ st = (True, st)"

definition congruent :: "(vcterm \<Rightarrow> u32) \<Rightarrow> eufstate \<Rightarrow> vcterm \<Rightarrow> vcterm \<Rightarrow> bool \<times> eufstate" where
  "congruent idf st x y =
     (if t_op x \<noteq> t_op y \<or> length (t_kids x) \<noteq> length (t_kids y) \<or> t_kids x = [] then (False, st)
      else if t_op x = VC_APP \<and> as_idx (t_as x) \<noteq> as_idx (t_as y) then (False, st)
      else congruent_kids idf (t_kids x) (t_kids y) st)"

fun sig_kids :: "(vcterm \<Rightarrow> u32) \<Rightarrow> vcterm list \<Rightarrow> u32 \<Rightarrow> eufstate \<Rightarrow> u32 option \<times> eufstate" where
  "sig_kids idf [] h st = (Some h, st)"
| "sig_kids idf (k # ks) h st =
     (case euf_lookup idf st k of
        None \<Rightarrow> (None, st)
      | Some a \<Rightarrow>
          let (r, st1) = uf_find st a
          in sig_kids idf ks (xor h (of_nat r) * 0x27d4eb2f) st1)"

definition euf_signature :: "(vcterm \<Rightarrow> u32) \<Rightarrow> eufstate \<Rightarrow> vcterm \<Rightarrow> u32 option \<times> eufstate" where
  "euf_signature idf st x =
     (if t_kids x = [] then (None, st)
      else
        let h0 = xor (of_nat (op_code (t_op x)) * 0x9e3779b1) (of_nat (length (t_kids x)) * 0x85ebca6b);
            h = (if t_op x = VC_APP then xor h0 (of_nat (as_idx (t_as x))) * 0xc2b2ae35 else h0)
        in sig_kids idf (t_kids x) h st)"

text \<open>
  Probing the signature table for term \<open>i\<close>: the first free slot takes it, a slot with a
  congruent term merges the two.
\<close>

fun close_probe :: "nat \<Rightarrow> (vcterm \<Rightarrow> u32) \<Rightarrow> nat \<Rightarrow> nat \<Rightarrow> nat list \<Rightarrow> eufstate \<Rightarrow> bool \<times> nat list \<times> eufstate" where
  "close_probe 0 idf i s sig st = (False, sig, st)"
| "close_probe (Suc k) idf i s sig st =
     (if sig ! s = 0 then (False, sig[s := i + 1], st)
      else
        let j = sig ! s - 1; (c, st1) = congruent idf st (e_terms st ! j) (e_terms st ! i)
        in if \<not> c then close_probe k idf i ((s + 1) mod length sig) sig st1
           else let (u, st2) = uf_union st1 j i in (u, sig, st2))"

definition close_term :: "(vcterm \<Rightarrow> u32) \<Rightarrow> nat \<Rightarrow> bool \<times> nat list \<times> eufstate \<Rightarrow> bool \<times> nat list \<times> eufstate" where
  "close_term idf i a =
     (let (changed, sig, st) = a; (h, st1) = euf_signature idf st (e_terms st ! i)
      in case h of
           None \<Rightarrow> (changed, sig, st1)
         | Some h \<Rightarrow>
             let (c, sig', st2) = close_probe (length sig) idf i (unat h mod length sig) sig st1
             in (changed \<or> c, sig', st2))"

definition close_round :: "(vcterm \<Rightarrow> u32) \<Rightarrow> eufstate \<Rightarrow> bool \<times> eufstate" where
  "close_round idf st =
     (let (c, _, st') = fold (close_term idf) [0..<e_n st] (False, replicate (e_hcap st) 0, st)
      in (c, st'))"

fun close_rounds :: "nat \<Rightarrow> (vcterm \<Rightarrow> u32) \<Rightarrow> eufstate \<Rightarrow> eufstate" where
  "close_rounds 0 idf st = st"
| "close_rounds (Suc k) idf st =
     (if e_n st = 0 then st
      else let (c, st') = close_round idf st in if c then close_rounds k idf st' else st')"

definition euf_close :: "(vcterm \<Rightarrow> u32) \<Rightarrow> eufstate \<Rightarrow> eufstate" where
  "euf_close idf st = close_rounds 64 idf st"

section \<open>Literals\<close>

definition lit_values_differ :: "vcterm \<Rightarrow> vcterm \<Rightarrow> bool" where
  "lit_values_differ x y =
     (if t_op x = t_op y then True
      else
        let iv = (if t_op x = VC_CONST_INT then x else y); rv = (if t_op x = VC_CONST_INT then y else x)
        in \<not> f64_eq (f64_of_int (as_int (t_as iv))) (as_real (t_as rv)))"

text \<open>The map from roots to the first literal seen in their class.\<close>

fun lit_scan :: "nat list \<Rightarrow> (nat \<Rightarrow> nat option) \<Rightarrow> eufstate \<Rightarrow> bool \<times> eufstate" where
  "lit_scan [] litroot st = (False, st)"
| "lit_scan (i # is) litroot st =
     (let x = e_terms st ! i
      in if \<not> is_num_lit x then lit_scan is litroot st
         else
           let (r, st1) = uf_find st i
           in case litroot r of
                Some j \<Rightarrow>
                  if lit_values_differ (e_terms st1 ! j) x then (True, st1) else lit_scan is litroot st1
              | None \<Rightarrow> lit_scan is (litroot(r := Some i)) st1)"

definition literal_conflict :: "eufstate \<Rightarrow> bool \<times> eufstate" where
  "literal_conflict st = lit_scan [0..<e_n st] (\<lambda>_. None) st"

section \<open>Marks and assertions\<close>

record eufmark =
  m_trail_len :: nat
  m_trail_level :: nat
  m_n :: nat
  m_n_shared :: nat
  m_unsat :: bool

definition euf_mark :: "eufstate \<Rightarrow> eufmark \<times> eufstate" where
  "euf_mark st =
     (let (tm, t) = trailc_mark (e_trail st)
      in (\<lparr>m_trail_len = fst tm, m_trail_level = snd tm, m_n = e_n st, m_n_shared = length (e_shared st),
           m_unsat = e_unsat st\<rparr>, st\<lparr>e_trail := t\<rparr>))"

definition euf_undo_to :: "eufstate \<Rightarrow> eufmark \<Rightarrow> eufstate" where
  "euf_undo_to st m =
     (let (t, p) = trailc_undo_to (e_trail st) (m_trail_len m) (e_parent st) (m_n m);
          htab = fold (\<lambda>i h. h[(e_hslot st ! i) := 0]) (rev [m_n m..<e_n st]) (e_htab st)
      in st\<lparr>e_trail := t, e_parent := take (m_n m) p, e_pstamp := take (m_n m) (e_pstamp st),
            e_hslot := take (m_n m) (e_hslot st), e_terms := take (m_n m) (e_terms st), e_htab := htab,
            e_shared := take (m_n_shared m) (e_shared st), e_unsat := m_unsat m\<rparr>)"

definition check_literals :: "eufstate \<Rightarrow> bool \<times> eufstate" where
  "check_literals st =
     (let (c, st') = literal_conflict st in if c then (False, st'\<lparr>e_unsat := True\<rparr>) else (True, st'))"

definition euf_assert_eq :: "(vcterm \<Rightarrow> u32) \<Rightarrow> eufstate \<Rightarrow> vcterm \<Rightarrow> vcterm \<Rightarrow> bool \<times> eufstate" where
  "euf_assert_eq idf st x y =
     (let (i, st1) = euf_index idf x st; (j, st2) = euf_index idf y st1
      in case (i, j) of
           (Some i, Some j) \<Rightarrow> check_literals (euf_close idf (snd (uf_union st2 i j)))
         | _ \<Rightarrow> (True, st2))"

definition euf_equal :: "(vcterm \<Rightarrow> u32) \<Rightarrow> eufstate \<Rightarrow> vcterm \<Rightarrow> vcterm \<Rightarrow> bool \<times> eufstate" where
  "euf_equal idf st x y =
     (let (i, st1) = euf_index idf x st; (j, st2) = euf_index idf y st1
      in case (i, j) of
           (Some i, Some j) \<Rightarrow> (let (ri, st3) = uf_find st2 i; (rj, st4) = uf_find st3 j in (ri = rj, st4))
         | _ \<Rightarrow> (False, st2))"

definition euf_shared_at :: "eufstate \<Rightarrow> vcterm list" where
  "euf_shared_at st = map (\<lambda>i. e_terms st ! i) (e_shared st)"

definition euf_pass1 :: "(vcterm \<Rightarrow> u32) \<Rightarrow> vcterm \<Rightarrow> eufstate \<Rightarrow> eufstate" where
  "euf_pass1 idf lit st =
     (let atm = refine_lit_atom lit; st0 = snd (euf_index idf atm st)
      in if \<not> refine_lit_is_neg lit \<and> t_op atm = VC_EQ then
           let (x, st1) = euf_index idf (kid atm 0) st0; (y, st2) = euf_index idf (kid atm 1) st1
           in case (x, y) of (Some x, Some y) \<Rightarrow> snd (uf_union st2 x y) | _ \<Rightarrow> st2
         else st0)"

text \<open>The pair scan of pass 2: a literal against the literals after it.\<close>

fun euf_pairs :: "(vcterm \<Rightarrow> u32) \<Rightarrow> vcterm \<Rightarrow> vcterm list \<Rightarrow> eufstate \<Rightarrow> bool \<times> eufstate" where
  "euf_pairs idf lit [] st = (False, st)"
| "euf_pairs idf lit (lit2 # ls) st =
     (if refine_lit_is_neg lit = refine_lit_is_neg lit2 then euf_pairs idf lit ls st
      else if refine_lit_atom lit = refine_lit_atom lit2 then (True, st)
      else
        let (c, st1) = congruent idf st (refine_lit_atom lit) (refine_lit_atom lit2)
        in if c then (True, st1) else euf_pairs idf lit ls st1)"

fun euf_pass2 :: "(vcterm \<Rightarrow> u32) \<Rightarrow> vcterm list \<Rightarrow> eufstate \<Rightarrow> bool \<times> eufstate" where
  "euf_pass2 idf [] st = (True, st)"
| "euf_pass2 idf (lit # ls) st =
     (let atm = refine_lit_atom lit;
          (d, st1) = (if refine_lit_is_neg lit \<and> t_op atm = VC_EQ then euf_equal idf st (kid atm 0) (kid atm 1)
                      else (False, st))
      in if d then (False, st1\<lparr>e_unsat := True\<rparr>)
         else let (c, st2) = euf_pairs idf lit ls st1
              in if c then (False, st2\<lparr>e_unsat := True\<rparr>) else euf_pass2 idf ls st2)"

definition euf_assert_cube :: "(vcterm \<Rightarrow> u32) \<Rightarrow> eufstate \<Rightarrow> cube \<Rightarrow> bool \<times> eufstate" where
  "euf_assert_cube idf st c =
     (let (ok, st1) = check_literals (euf_close idf (fold (euf_pass1 idf) c st))
      in if \<not> ok then (False, st1) else euf_pass2 idf c st1)"

section \<open>The stage\<close>

text \<open>
  The two modes of \<open>euf_incremental_mode\<close>: one state with a mark per cube, or a fresh state per
  cube (\<open>TUR_REFINE_EUF=rebuild\<close>, None).
\<close>

definition s1_init :: "bool \<Rightarrow> refinevc \<Rightarrow> eufstate option" where
  "s1_init incremental vc = (if incremental then Some euf_new else None)"

definition s1_refute :: "(vcterm \<Rightarrow> u32) \<Rightarrow> refinevc \<Rightarrow> eufstate option \<Rightarrow> cube \<Rightarrow> bool \<times> eufstate option" where
  "s1_refute idf vc inc c =
     (case inc of
        Some st \<Rightarrow>
          (let (m, st1) = euf_mark st; (survived, st2) = euf_assert_cube idf st1 c
           in (\<not> survived, Some (euf_undo_to st2 m)))
      | None \<Rightarrow> (\<not> fst (euf_assert_cube idf euf_new c), None))"

definition refine_s1_decide_cc :: "(vcterm \<Rightarrow> u32) \<Rightarrow> bool \<Rightarrow> stage" where
  "refine_s1_decide_cc idf incremental = decide_by_cubes (s1_init incremental) (s1_refute idf)"

end
