(* ===== verification/EufInv.thy ===== *)
theory EufInv
  imports Euf
begin

text \<open>
  The data structures of stage S1 keep their invariants: the open-addressing index finds exactly
  the registered terms, insertion and truncation keep it (the probe path of a term only meets
  older terms), and undoing to a mark restores the partition and the registry exactly, whatever
  was registered and merged since.
\<close>

section \<open>The term index\<close>

definition on_path :: "nat list \<Rightarrow> nat \<Rightarrow> nat \<Rightarrow> nat \<Rightarrow> bool" where
  "on_path htab h d i \<longleftrightarrow> d < length htab \<and> htab ! ((h + d) mod length htab) = Suc i
     \<and> (\<forall>e<d. 0 < htab ! ((h + e) mod length htab) \<and> htab ! ((h + e) mod length htab) \<le> i)"

definition tab_ok :: "(vcterm \<Rightarrow> u32) \<Rightarrow> vcterm list \<Rightarrow> nat list \<Rightarrow> nat list \<Rightarrow> bool" where
  "tab_ok idf terms htab hslot \<longleftrightarrow> length hslot = length terms \<and>
     (\<forall>i<length terms. \<exists>d. on_path htab (euf_home idf (length htab) (terms ! i)) d i
        \<and> hslot ! i = (euf_home idf (length htab) (terms ! i) + d) mod length htab) \<and>
     (\<forall>s<length htab. htab ! s \<noteq> 0 \<longrightarrow> htab ! s \<le> length terms \<and> hslot ! (htab ! s - 1) = s)"

lemma tab_ok_slot:
  assumes "tab_ok idf terms htab hslot" and "i < length terms"
  shows "hslot ! i < length htab \<and> htab ! (hslot ! i) = Suc i"
proof -
  obtain d where "on_path htab (euf_home idf (length htab) (terms ! i)) d i"
      "hslot ! i = (euf_home idf (length htab) (terms ! i) + d) mod length htab"
    using assms by (auto simp: tab_ok_def)
  moreover from this have "0 < length htab" by (auto simp: on_path_def)
  ultimately show ?thesis by (simp add: on_path_def)
qed

lemma tab_ok_empty: "tab_ok idf [] (replicate k 0) []"
  by (simp add: tab_ok_def)

text \<open>A table with fewer terms than slots has a free slot.\<close>

lemma tab_free:
  assumes t: "tab_ok idf terms htab hslot" and n: "length terms < length htab"
  shows "\<exists>s<length htab. htab ! s = 0"
proof (rule ccontr)
  assume "\<not> ?thesis"
  then have nz: "htab ! s \<noteq> 0" if "s < length htab" for s using that by auto
  let ?f = "\<lambda>s. htab ! s - 1"
  have "inj_on ?f {..<length htab}"
    using t nz by (intro inj_on_inverseI [where g = "\<lambda>i. hslot ! i"]) (auto simp: tab_ok_def)
  moreover have "?f s < length terms" if "s < length htab" for s
  proof -
    have "htab ! s \<le> length terms" using t nz [OF that] that by (simp add: tab_ok_def)
    then show ?thesis using nz [OF that] by simp
  qed
  then have "?f ` {..<length htab} \<subseteq> {..<length terms}" by auto
  ultimately have "length htab \<le> length terms"
    using card_inj_on_le [of ?f "{..<length htab}" "{..<length terms}"] by simp
  with n show False by simp
qed

lemma euf_home_less: "0 < hcap \<Longrightarrow> euf_home idf hcap t < hcap"
  by (simp add: euf_home_def)

lemma on_path_at:
  assumes "on_path htab h d i" and "e \<le> d"
  shows "0 < htab ! ((h + e) mod length htab) \<and> htab ! ((h + e) mod length htab) \<le> Suc i"
proof (cases "e = d")
  case False
  with assms(2) have "e < d" by simp
  with assms(1) show ?thesis unfolding on_path_def using le_SucI by blast
qed (use assms in \<open>simp add: on_path_def\<close>)

lemma on_path_update:
  assumes "on_path htab h d i" and "\<And>e. e \<le> d \<Longrightarrow> (h + e) mod length htab \<noteq> s"
  shows "on_path (htab[s := v]) h d i"
proof -
  have "htab[s := v] ! ((h + e) mod length htab) = htab ! ((h + e) mod length htab)" if "e \<le> d" for e
    using assms(2) [OF that] by (metis nth_list_update_neq)
  with assms(1) show ?thesis by (simp add: on_path_def)
qed

lemma on_path_insert: "on_path htab h d i \<Longrightarrow> htab ! s = 0 \<Longrightarrow> on_path (htab[s := v]) h d i"
  by (rule on_path_update, assumption) (metis less_irrefl on_path_at)

lemma tab_insert:
  assumes t: "tab_ok idf (take n terms) htab hslot" and n: "n < length terms" "n < length htab"
  shows "case euf_hinsert idf terms n (htab, hslot) of (htab', hslot') \<Rightarrow>
    tab_ok idf (take (Suc n) terms) htab' hslot' \<and> length htab' = length htab \<and>
    (\<exists>s<length htab. htab ! s = 0 \<and> htab' = htab[s := Suc n] \<and> hslot' = hslot @ [s])"
proof -
  let ?c = "length htab" and ?h = "euf_home idf (length htab) (terms ! n)"
  have h: "?h < ?c" using n by (intro euf_home_less) linarith
  obtain u where u: "u < ?c" "htab ! u = 0" using tab_free [OF t] n by auto
  then obtain s where s: "probe ?c ?c (\<lambda>s. htab ! s = 0) ?h = Some s"
    using probe_total [OF h, of u "\<lambda>s. htab ! s = 0"] by auto
  have s0: "htab ! s = 0" "s < ?c" using probe_stop [OF s] probe_bound [OF s h] by auto
  obtain d where d: "d < ?c" "s = (?h + d) mod ?c" "\<forall>e<d. htab ! ((?h + e) mod ?c) \<noteq> 0"
    using probe_path [OF s h] by blast
  have len: "length hslot = n" using t n by (simp add: tab_ok_def)
  have val: "htab ! x \<le> n \<and> (htab ! x \<noteq> 0 \<longrightarrow> hslot ! (htab ! x - 1) = x)" if "x < ?c" for x
    using t n that by (cases "htab ! x = 0") (auto simp: tab_ok_def)
  have new: "on_path (htab[s := Suc n]) ?h d n"
  proof -
    have "(?h + e) mod ?c \<noteq> s" if "e < d" for e using d(3) s0(1) that by auto
    then have "htab[s := Suc n] ! ((?h + e) mod ?c) = htab ! ((?h + e) mod ?c)" if "e < d" for e
      using that by (metis nth_list_update_neq)
    moreover have "htab ! ((?h + e) mod ?c) \<le> n" for e
      using val [of "(?h + e) mod ?c"] h mod_less_divisor [of ?c "?h + e"] by linarith
    ultimately show ?thesis using d s0 by (simp add: on_path_def)
  qed
  have "tab_ok idf (take (Suc n) terms) (htab[s := Suc n]) (hslot @ [s])"
    unfolding tab_ok_def
  proof (intro conjI allI impI)
    show "length (hslot @ [s]) = length (take (Suc n) terms)" using n len by simp
  next
    fix i
    assume "i < length (take (Suc n) terms)"
    then have i: "i < Suc n" using n by simp
    show "\<exists>d. on_path (htab[s := Suc n]) (euf_home idf (length (htab[s := Suc n])) (take (Suc n) terms ! i)) d i
        \<and> (hslot @ [s]) ! i = (euf_home idf (length (htab[s := Suc n])) (take (Suc n) terms ! i) + d) mod length (htab[s := Suc n])"
    proof (cases "i = n")
      case True
      with new d len n show ?thesis by (intro exI [of _ d]) (simp add: nth_append)
    next
      case False
      with i n have "i < length (take n terms)" by simp
      then obtain d where "on_path htab (euf_home idf ?c (take n terms ! i)) d i"
          "hslot ! i = (euf_home idf ?c (take n terms ! i) + d) mod ?c"
        using t unfolding tab_ok_def by blast
      with False i len show ?thesis
        using on_path_insert [OF _ s0(1)] by (intro exI [of _ d]) (simp add: nth_append)
    qed
  next
    fix x
    assume x: "x < length (htab[s := Suc n])" "(htab[s := Suc n]) ! x \<noteq> 0"
    show "(htab[s := Suc n]) ! x \<le> length (take (Suc n) terms)"
      using val [of x] x n by (cases "x = s") auto
    show "(hslot @ [s]) ! ((htab[s := Suc n]) ! x - 1) = x"
    proof (cases "x = s")
      case True
      with s0 len show ?thesis by (simp add: nth_append)
    next
      case False
      with x have "htab ! x \<noteq> 0" "x < ?c" by auto
      with val [of x] have "hslot ! (htab ! x - 1) = x" "htab ! x - 1 < n" by auto
      with False len show ?thesis by (simp add: nth_append)
    qed
  qed
  with s s0 show ?thesis by (auto simp: euf_hinsert_def Let_def)
qed

text \<open>Clearing the slot of the newest term undoes its insertion.\<close>

lemma tab_remove:
  assumes t: "tab_ok idf terms htab hslot" and n: "length terms = Suc n"
  shows "tab_ok idf (take n terms) (htab[(hslot ! n) := 0]) (take n hslot)"
proof -
  let ?s = "hslot ! n"
  have s: "?s < length htab" "htab ! ?s = Suc n" using tab_ok_slot [OF t] n by auto
  have len: "length hslot = Suc n" using t n by (simp add: tab_ok_def)
  show ?thesis
    unfolding tab_ok_def
  proof (intro conjI allI impI)
    show "length (take n hslot) = length (take n terms)" using n len by simp
  next
    fix i
    assume "i < length (take n terms)"
    then have i: "i < n" by simp
    then obtain d where d: "on_path htab (euf_home idf (length htab) (terms ! i)) d i"
        "hslot ! i = (euf_home idf (length htab) (terms ! i) + d) mod length htab"
      using t n unfolding tab_ok_def by (metis less_Suc_eq)
    have "(euf_home idf (length htab) (terms ! i) + e) mod length htab \<noteq> ?s" if "e \<le> d" for e
      using on_path_at [OF d(1) that] s(2) i by auto
    then have "on_path (htab[?s := 0]) (euf_home idf (length htab) (terms ! i)) d i"
      using d(1) by (intro on_path_update) auto
    with d i show "\<exists>d. on_path (htab[?s := 0]) (euf_home idf (length (htab[?s := 0])) (take n terms ! i)) d i
        \<and> take n hslot ! i = (euf_home idf (length (htab[?s := 0])) (take n terms ! i) + d) mod length (htab[?s := 0])"
      by auto
  next
    fix x
    assume x: "x < length (htab[?s := 0])" "(htab[?s := 0]) ! x \<noteq> 0"
    then have x': "x \<noteq> ?s" "htab ! x \<noteq> 0" "x < length htab" using s by (auto simp: nth_list_update split: if_splits)
    with t n have v: "htab ! x \<le> Suc n" "hslot ! (htab ! x - 1) = x" by (auto simp: tab_ok_def)
    with x' have "htab ! x \<noteq> Suc n" by auto
    with v x' n show "(htab[?s := 0]) ! x \<le> length (take n terms)"
      "take n hslot ! ((htab[?s := 0]) ! x - 1) = x" by auto
  qed
qed

lemma tab_truncate:
  assumes "tab_ok idf terms htab hslot" and "m \<le> length terms"
  shows "tab_ok idf (take m terms) (fold (\<lambda>i h. h[(hslot ! i) := 0]) (rev [m..<length terms]) htab) (take m hslot)"
  using assms
proof (induction "length terms" arbitrary: terms htab hslot)
  case 0
  then show ?case by (simp add: tab_ok_def)
next
  case (Suc n)
  show ?case
  proof (cases "m = Suc n")
    case True
    then show ?thesis using Suc.prems Suc.hyps(2) by (simp add: tab_ok_def)
  next
    case False
    let ?T = "take n terms" and ?H = "htab[(hslot ! n) := 0]" and ?S = "take n hslot"
    have r: "tab_ok idf ?T ?H ?S" using tab_remove [OF Suc.prems(1)] Suc.hyps(2) by simp
    have mn: "m \<le> n" using False Suc.prems(2) Suc.hyps(2) by simp
    have "tab_ok idf (take m ?T) (fold (\<lambda>i h. h[(?S ! i) := 0]) (rev [m..<length ?T]) ?H) (take m ?S)"
      using Suc.hyps(2) r mn by (intro Suc.hyps(1)) auto
    moreover have "fold (\<lambda>i h. h[(?S ! i) := 0]) (rev [m..<length ?T]) ?H
        = fold (\<lambda>i h. h[(hslot ! i) := 0]) (rev [m..<length ?T]) ?H"
      using Suc.hyps(2) by (intro fold_cong) auto
    moreover have "rev [m..<length terms] = n # rev [m..<length ?T]"
      using mn by (simp flip: Suc.hyps(2))
    ultimately show ?thesis using mn by simp
  qed
qed

lemma fold_clear_length [simp]: "length (fold (\<lambda>i h. h[f i := 0]) xs htab) = length htab"
  by (induction xs arbitrary: htab) auto

lemma tab_rehash:
  assumes "k \<le> length terms" and "length terms \<le> c"
  shows "case fold (euf_hinsert idf terms) [0..<k] (replicate c 0, []) of (htab, hslot) \<Rightarrow>
    tab_ok idf (take k terms) htab hslot \<and> length htab = c"
  using assms(1)
proof (induction k)
  case 0
  then show ?case by (simp add: tab_ok_empty)
next
  case (Suc k)
  obtain htab hslot where f: "fold (euf_hinsert idf terms) [0..<k] (replicate c 0, []) = (htab, hslot)" by fastforce
  then show ?case using Suc assms(2) tab_insert [of idf k terms htab hslot] by (auto split: prod.splits)
qed

text \<open>The lookup finds exactly the registered terms.\<close>

lemma tab_lookup:
  assumes t: "tab_ok idf (e_terms st) (e_htab st) (e_hslot st)" and dist: "distinct (e_terms st)"
  shows "euf_lookup idf st t = Some i \<longleftrightarrow> i < length (e_terms st) \<and> e_terms st ! i = t"
proof -
  let ?c = "length (e_htab st)" and ?h = "euf_home idf (length (e_htab st)) t"
  let ?stop = "\<lambda>s. e_htab st ! s = 0 \<or> e_terms st ! (e_htab st ! s - 1) = t"
  have e: "euf_lookup idf st t = (if ?c = 0 then None else case probe ?c ?c ?stop ?h of None \<Rightarrow> None
      | Some s \<Rightarrow> if e_htab st ! s = 0 then None else Some (e_htab st ! s - 1))"
    by (simp add: euf_lookup_def Let_def e_hcap_def)
  show ?thesis
  proof
    assume "euf_lookup idf st t = Some i"
    then obtain s where c: "?c > 0" and s: "probe ?c ?c ?stop ?h = Some s" "e_htab st ! s \<noteq> 0" "i = e_htab st ! s - 1"
      using e by (auto split: if_splits option.splits)
    have "s < ?c" using probe_bound [OF s(1)] euf_home_less [OF c] by auto
    then have "e_htab st ! s \<le> length (e_terms st)" using t s(2) by (simp add: tab_ok_def)
    then show "i < length (e_terms st) \<and> e_terms st ! i = t" using probe_stop [OF s(1)] s by auto
  next
    assume i: "i < length (e_terms st) \<and> e_terms st ! i = t"
    then obtain d where d: "on_path (e_htab st) ?h d i" using t by (auto simp: tab_ok_def)
    then have c: "?c > 0" by (auto simp: on_path_def)
    then have h: "?h < ?c" by (rule euf_home_less)
    have "?stop ((?h + d) mod ?c)" using d i by (simp add: on_path_def)
    then obtain s where s: "probe ?c ?c ?stop ?h = Some s"
      using probe_distance [of d ?c ?stop ?h ?c] d h by (auto simp: on_path_def)
    obtain d' where d': "s = (?h + d') mod ?c" "\<forall>e<d'. \<not> ?stop ((?h + e) mod ?c)"
      using probe_path [OF s h] by blast
    have "d' \<le> d" using d'(2) d i by (metis add_diff_cancel_left' linorder_not_less on_path_def plus_1_eq_Suc)
    then have v: "0 < e_htab st ! s" "e_htab st ! s \<le> Suc i"
      using d d'(1) by (cases "d' = d"; auto simp: on_path_def le_SucI)+
    then have "e_terms st ! (e_htab st ! s - 1) = e_terms st ! i" using probe_stop [OF s] i by auto
    moreover have "e_htab st ! s - 1 < length (e_terms st)" using v i by linarith
    ultimately have "e_htab st ! s - 1 = i" using dist i nth_eq_iff_index_eq by blast
    then show "euf_lookup idf st t = Some i" using e c s v by simp
  qed
qed


section \<open>States\<close>

definition shared_idx :: "vcterm list \<Rightarrow> nat list" where
  "shared_idx terms = filter (\<lambda>i. euf_eligible (terms ! i)) [0..<length terms]"

lemma shared_idx_snoc: "shared_idx (terms @ [t]) = (if euf_eligible t then shared_idx terms @ [length terms] else shared_idx terms)"
proof -
  have "filter (\<lambda>i. euf_eligible ((terms @ [t]) ! i)) [0..<length terms] = shared_idx terms"
    unfolding shared_idx_def by (intro filter_cong) (auto simp: nth_append)
  then show ?thesis by (simp add: shared_idx_def [of "terms @ [t]"])
qed

definition euf_wf :: "(vcterm \<Rightarrow> u32) \<Rightarrow> eufstate \<Rightarrow> bool" where
  "euf_wf idf st \<longleftrightarrow> tab_ok idf (e_terms st) (e_htab st) (e_hslot st) \<and> distinct (e_terms st)
     \<and> length (e_parent st) = e_n st \<and> length (e_pstamp st) = e_n st
     \<and> e_n st \<le> e_cap st \<and> e_hcap st = 2 * e_cap st
     \<and> (\<forall>s\<in>set (e_pstamp st). s \<le> tr_level (e_trail st))
     \<and> e_shared st = shared_idx (e_terms st)"

lemma euf_new_wf [simp]: "euf_wf idf euf_new"
  by (simp add: euf_wf_def euf_new_def e_n_def e_hcap_def tab_ok_def shared_idx_def)

lemma euf_pset_simps [simp]:
  "e_terms (euf_pset st i v) = e_terms st" "e_hslot (euf_pset st i v) = e_hslot st"
  "e_cap (euf_pset st i v) = e_cap st" "e_unsat (euf_pset st i v) = e_unsat st"
  "e_htab (euf_pset st i v) = e_htab st" "e_shared (euf_pset st i v) = e_shared st"
  "e_n (euf_pset st i v) = e_n st" "e_hcap (euf_pset st i v) = e_hcap st"
  "e_parent (euf_pset st i v) = (e_parent st)[i := v]"
  by (simp_all add: euf_pset_def trail_write_def e_n_def e_hcap_def split: prod.split)

lemma euf_pset_wf:
  assumes "euf_wf idf st"
  shows "euf_wf idf (euf_pset st i v)"
proof -
  obtain t p s where w: "trail_write (e_trail st) (e_parent st) (e_pstamp st) i v = (t, p, s)" by (metis prod_cases3)
  have l: "\<forall>s\<in>set (e_pstamp st). s \<le> tr_level (e_trail st)" using assms by (simp add: euf_wf_def)
  have s: "tr_level t = tr_level (e_trail st)" "set s \<subseteq> insert (tr_level t) (set (e_pstamp st))" "length s = length (e_pstamp st)"
    using w by (auto simp: trail_write_def trailc_note_def split: if_splits dest: set_update_subset_insert [THEN subsetD])
  have "\<forall>s'\<in>set s. s' \<le> tr_level t" using s(1,2) l by auto
  moreover have "e_pstamp (euf_pset st i v) = s" "e_trail (euf_pset st i v) = t" using w by (simp_all add: euf_pset_def)
  ultimately show ?thesis using assms s(3) unfolding euf_wf_def by simp
qed

text \<open>The single conjuncts.\<close>

lemma euf_wfD:
  assumes "euf_wf idf st"
  shows "tab_ok idf (e_terms st) (e_htab st) (e_hslot st)" and "distinct (e_terms st)"
    and "length (e_parent st) = e_n st" and "length (e_pstamp st) = e_n st"
    and "length (e_htab st) = 2 * e_cap st" and "\<forall>s\<in>set (e_pstamp st). s \<le> tr_level (e_trail st)"
    and "e_shared st = shared_idx (e_terms st)"
  using assms by (simp_all add: euf_wf_def e_hcap_def)

lemma euf_unsat_wf [simp]: "euf_wf idf (st\<lparr>e_unsat := b\<rparr>) = euf_wf idf st"
  by (simp add: euf_wf_def e_n_def e_hcap_def)

lemma euf_trail_wf:
  "euf_wf idf st \<Longrightarrow> tr_level (e_trail st) \<le> tr_level t \<Longrightarrow> euf_wf idf (st\<lparr>e_trail := t\<rparr>)"
  by (auto simp: euf_wf_def e_n_def e_hcap_def)

text \<open>Growing rebuilds the index; everything else is copied.\<close>

lemma euf_grow_frame:
  "e_terms (euf_grow idf st) = e_terms st" "e_parent (euf_grow idf st) = e_parent st"
  "e_pstamp (euf_grow idf st) = e_pstamp st" "e_trail (euf_grow idf st) = e_trail st"
  "e_shared (euf_grow idf st) = e_shared st" "e_unsat (euf_grow idf st) = e_unsat st"
  by (simp_all add: euf_grow_def Let_def split: prod.split)

lemma euf_grow_wf:
  assumes "euf_wf idf st"
  shows "euf_wf idf (euf_grow idf st) \<and> e_n (euf_grow idf st) < e_cap (euf_grow idf st)"
proof (cases "e_n st = e_cap st")
  case False
  with assms show ?thesis by (simp add: euf_grow_def euf_wf_def)
next
  case True
  define ncap where "ncap = (if e_cap st \<noteq> 0 then e_cap st * 2 else 32)"
  obtain htab hslot where f: "fold (euf_hinsert idf (e_terms st)) [0..<e_n st] (replicate (ncap * 2) 0, []) = (htab, hslot)"
    by fastforce
  have c: "e_n st < ncap" using True by (auto simp: ncap_def)
  have "tab_ok idf (e_terms st) htab hslot \<and> length htab = ncap * 2"
    using tab_rehash [of "e_n st" "e_terms st" "ncap * 2" idf] c f by (simp add: e_n_def)
  moreover have "euf_grow idf st = st\<lparr>e_cap := ncap, e_htab := htab, e_hslot := hslot\<rparr>"
    using True f by (simp add: euf_grow_def Let_def ncap_def)
  ultimately show ?thesis using assms c by (simp add: euf_wf_def e_n_def e_hcap_def)
qed

lemma euf_add_ok:
  assumes wf: "euf_wf idf st" and n: "e_n st < REFINE_MAX_EUF_TERMS" and t: "t \<notin> set (e_terms st)"
  shows "euf_wf idf (euf_add idf st t) \<and> e_terms (euf_add idf st t) = e_terms st @ [t]
    \<and> e_parent (euf_add idf st t) = e_parent st @ [e_n st] \<and> e_pstamp (euf_add idf st t) = e_pstamp st @ [0]
    \<and> e_trail (euf_add idf st t) = e_trail st \<and> e_unsat (euf_add idf st t) = e_unsat st
    \<and> (\<exists>is. e_shared (euf_add idf st t) = e_shared st @ is)"
proof -
  define g where "g = euf_grow idf st"
  have g: "euf_wf idf g" "e_n g < e_cap g" "e_terms g = e_terms st" "e_parent g = e_parent st"
      "e_pstamp g = e_pstamp st" "e_trail g = e_trail st" "e_shared g = e_shared st" "e_unsat g = e_unsat st" "e_n g = e_n st"
    using euf_grow_wf [OF wf] by (simp_all add: g_def euf_grow_frame e_n_def)
  obtain htab hslot where h: "euf_hinsert idf (e_terms st @ [t]) (e_n st) (e_htab g, e_hslot g) = (htab, hslot)"
    by fastforce
  have "e_n st < length (e_htab g)" using g by (simp add: euf_wf_def e_hcap_def)
  moreover have "tab_ok idf (take (e_n st) (e_terms st @ [t])) (e_htab g) (e_hslot g)"
    using g(1,3) by (simp add: euf_wf_def e_n_def)
  ultimately have tab: "tab_ok idf (e_terms st @ [t]) htab hslot \<and> length htab = length (e_htab g)"
    using tab_insert [of idf "e_n st" "e_terms st @ [t]" "e_htab g" "e_hslot g"] h by (simp add: e_n_def)
  have add: "euf_add idf st t = g\<lparr>e_terms := e_terms st @ [t], e_parent := e_parent st @ [e_n st],
      e_pstamp := e_pstamp st @ [0], e_htab := htab, e_hslot := hslot,
      e_shared := (if euf_eligible t then e_shared st @ [e_n st] else e_shared st)\<rparr>"
    using n h g by (simp add: euf_add_def Let_def g_def [symmetric])
  have lh: "length htab = 2 * e_cap g" using tab euf_wfD(5) [OF g(1)] by simp
  have dist: "distinct (e_terms st @ [t])" using euf_wfD(2) [OF wf] t by simp
  have stamps: "\<forall>s\<in>set (e_pstamp st @ [0]). s \<le> tr_level (e_trail g)" using euf_wfD(6) [OF wf] g(6) by simp
  have "euf_wf idf (g\<lparr>e_terms := e_terms st @ [t], e_parent := e_parent st @ [e_n st],
      e_pstamp := e_pstamp st @ [0], e_htab := htab, e_hslot := hslot,
      e_shared := (if euf_eligible t then e_shared st @ [e_n st] else e_shared st)\<rparr>)"
    using tab lh dist stamps g(2) euf_wfD(3,4) [OF wf] euf_wfD(7) [OF wf]
    unfolding euf_wf_def by (simp add: e_n_def e_hcap_def g(3) shared_idx_snoc)
  then have "euf_wf idf (euf_add idf st t)" unfolding add .
  then show ?thesis using g by (simp add: add)
qed

lemma euf_lookup_ok:
  "euf_wf idf st \<Longrightarrow> euf_lookup idf st t = Some i \<longleftrightarrow> i < e_n st \<and> e_terms st ! i = t"
  using tab_lookup by (simp add: euf_wf_def e_n_def)

lemma euf_lookup_None:
  assumes "euf_wf idf st"
  shows "euf_lookup idf st t = None \<longleftrightarrow> t \<notin> set (e_terms st)"
proof -
  have "euf_lookup idf st t \<noteq> None \<longleftrightarrow> (\<exists>i<e_n st. e_terms st ! i = t)"
    using euf_lookup_ok [OF assms] by (metis not_None_eq)
  then show ?thesis by (auto simp: in_set_conv_nth e_n_def)
qed

section \<open>What the operations can do, and undoing it\<close>

text \<open>
  Every operation of the closure is a sequence of writes through the trail, registrations and
  changes of the flag.
\<close>

inductive euf_reach :: "(vcterm \<Rightarrow> u32) \<Rightarrow> eufstate \<Rightarrow> eufstate \<Rightarrow> bool" for idf st where
  reach_refl: "euf_reach idf st st"
| reach_pset: "euf_reach idf st st1 \<Longrightarrow> i < e_n st1 \<Longrightarrow> euf_reach idf st (euf_pset st1 i v)"
| reach_add: "euf_reach idf st st1 \<Longrightarrow> e_n st1 < REFINE_MAX_EUF_TERMS \<Longrightarrow> t \<notin> set (e_terms st1) \<Longrightarrow>
    euf_reach idf st (euf_add idf st1 t)"
| reach_unsat: "euf_reach idf st st1 \<Longrightarrow> euf_reach idf st (st1\<lparr>e_unsat := b\<rparr>)"

lemma euf_reach_trans: "euf_reach idf st1 st2 \<Longrightarrow> euf_reach idf st st1 \<Longrightarrow> euf_reach idf st st2"
  by (induction rule: euf_reach.induct) (auto intro: euf_reach.intros)

lemma euf_reach_wf: "euf_reach idf st st' \<Longrightarrow> euf_wf idf st \<Longrightarrow> euf_wf idf st'"
  by (induction rule: euf_reach.induct) (auto simp: euf_pset_wf euf_add_ok)

definition euf_since :: "eufmark \<Rightarrow> eufstate \<Rightarrow> eufstate \<Rightarrow> bool" where
  "euf_since m st st' \<longleftrightarrow> since (m_trail_len m) (e_parent st) (e_trail st') (e_parent st') (e_pstamp st')
     \<and> (\<exists>ts. e_terms st' = e_terms st @ ts) \<and> (\<exists>is. e_shared st' = e_shared st @ is)"

lemma euf_reach_since:
  assumes "euf_reach idf st1 st'" and "euf_wf idf st1" and "euf_since m st st1"
  shows "euf_since m st st'"
  using assms
proof (induction rule: euf_reach.induct)
  case reach_refl
  then show ?case by simp
next
  case (reach_pset st' i v)
  have s: "euf_since m st st'" using reach_pset by simp
  have wf: "euf_wf idf st'" using reach_pset euf_reach_wf by blast
  obtain t p ps where w: "trail_write (e_trail st') (e_parent st') (e_pstamp st') i v = (t, p, ps)" by (metis prod_cases3)
  have "since (m_trail_len m) (e_parent st) t p ps"
    using since_write [OF _ _ w] s wf reach_pset(2) by (auto simp: euf_since_def euf_wf_def)
  then show ?case using s w by (simp add: euf_since_def euf_pset_def)
next
  case (reach_add st' t)
  then have s: "euf_since m st st'" and wf: "euf_wf idf st'" using euf_reach_wf by blast+
  note a = euf_add_ok [OF wf reach_add(2,3)]
  have "since (m_trail_len m) (e_parent st) (e_trail st') (e_parent st' @ [e_n st']) (e_pstamp st' @ [0])"
    using s by (intro since_append) (simp add: euf_since_def)
  then show ?case using a s by (auto simp: euf_since_def)
next
  case (reach_unsat st' b)
  then show ?case by (simp add: euf_since_def)
qed

text \<open>Undoing to a mark restores the state the mark was taken on.\<close>

theorem euf_undo_exact:
  assumes wf: "euf_wf idf st" and m: "euf_mark st = (m, st1)" and r: "euf_reach idf st1 st2"
  shows "e_terms (euf_undo_to st2 m) = e_terms st" and "e_parent (euf_undo_to st2 m) = e_parent st"
    and "e_shared (euf_undo_to st2 m) = e_shared st" and "e_unsat (euf_undo_to st2 m) = e_unsat st"
    and "euf_wf idf (euf_undo_to st2 m)"
proof -
  obtain tm t where tm: "trailc_mark (e_trail st) = (tm, t)" by fastforce
  have m': "m_trail_len m = fst tm" "m_n m = e_n st" "m_n_shared m = length (e_shared st)" "m_unsat m = e_unsat st"
    and st1: "st1 = st\<lparr>e_trail := t\<rparr>"
    using m tm by (auto simp: euf_mark_def)
  have lev: "tr_level (e_trail st) \<le> tr_level t" using tm by (auto simp: trailc_mark_def Let_def)
  have wf1: "euf_wf idf st1" unfolding st1 using wf lev by (rule euf_trail_wf)
  have "since (fst tm) (e_parent st) t (e_parent st) (e_pstamp st)"
    using since_mark [OF _ _ tm] wf by (simp add: euf_wf_def)
  then have "euf_since m st st1" by (simp add: euf_since_def st1 m')
  then have s: "euf_since m st st2" using euf_reach_since [OF r wf1] by blast
  have wf2: "euf_wf idf st2" using euf_reach_wf [OF r wf1] .
  have len: "length (e_parent st) = e_n st" using wf by (simp add: euf_wf_def)
  have n: "e_n st \<le> length (e_terms st2)" "e_n st \<le> length (e_parent st2)" "length (e_parent st2) = e_n st2"
    using s wf2 len by (auto simp: euf_since_def e_n_def euf_wf_def)
  show T: "e_terms (euf_undo_to st2 m) = e_terms st"
    using s by (auto simp: euf_undo_to_def Let_def m' euf_since_def e_n_def split: prod.split)
  show P: "e_parent (euf_undo_to st2 m) = e_parent st"
    using since_undo s len by (auto simp: euf_undo_to_def Let_def m' euf_since_def split: prod.split) (metis snd_conv)
  show S: "e_shared (euf_undo_to st2 m) = e_shared st"
    using s by (auto simp: euf_undo_to_def Let_def m' euf_since_def split: prod.split)
  show "e_unsat (euf_undo_to st2 m) = e_unsat st"
    by (simp add: euf_undo_to_def Let_def m' split: prod.split)
  have tab: "tab_ok idf (e_terms (euf_undo_to st2 m)) (e_htab (euf_undo_to st2 m)) (e_hslot (euf_undo_to st2 m))"
    using tab_truncate [of idf "e_terms st2" "e_htab st2" "e_hslot st2" "e_n st"] wf2 n
    by (simp add: euf_undo_to_def Let_def m' e_n_def euf_wf_def split: prod.split)
  have "e_cap (euf_undo_to st2 m) = e_cap st2" "e_hcap (euf_undo_to st2 m) = e_hcap st2"
    "e_pstamp (euf_undo_to st2 m) = take (e_n st) (e_pstamp st2)"
    "tr_level (e_trail (euf_undo_to st2 m)) = tr_level (e_trail st2)"
    by (simp_all add: euf_undo_to_def Let_def m' e_hcap_def trailc_undo_to_def)
  then show "euf_wf idf (euf_undo_to st2 m)"
    using tab wf wf2 n T P S by (auto simp: euf_wf_def e_n_def dest: in_set_takeD)
qed

end
