(* ===== verification/EufSound.thy ===== *)
theory EufSound
  imports EufInv
begin

text \<open>
  Stage S1 refutes only unsatisfiable cubes: path halving finds the root and keeps every class,
  the closure merges only terms that are equal in every model of the asserted equalities, and a
  reported conflict leaves no model. The stage instantiates \<open>cube_refuter\<close> in both its modes.
\<close>

section \<open>Union-find\<close>

definition uf_rel :: "nat list \<Rightarrow> (nat \<times> nat) set" where
  "uf_rel p = {(i, p ! i) |i. i < length p \<and> p ! i \<noteq> i}"

definition uf_ok :: "nat list \<Rightarrow> bool" where
  "uf_ok p \<longleftrightarrow> (\<forall>i<length p. p ! i < length p) \<and> acyclic (uf_rel p)"

text \<open>A labelling the parent links respect.\<close>

definition uf_same :: "(nat \<Rightarrow> 'a) \<Rightarrow> nat list \<Rightarrow> bool" where
  "uf_same f p \<longleftrightarrow> (\<forall>i<length p. f (p ! i) = f i)"

lemma uf_rel_bound: "uf_ok p \<Longrightarrow> (i, j) \<in> (uf_rel p)\<^sup>+ \<Longrightarrow> j < length p"
  by (erule trancl.cases) (auto simp: uf_rel_def uf_ok_def)

lemma uf_halve:
  assumes p: "uf_ok p" and i: "i < length p" "p ! i \<noteq> i"
  shows "uf_rel (p[i := p ! (p ! i)]) \<subseteq> (uf_rel p)\<^sup>+ \<and> uf_ok (p[i := p ! (p ! i)])
    \<and> (i, p ! (p ! i)) \<in> (uf_rel p)\<^sup>+"
proof -
  let ?g = "p ! (p ! i)"
  have pi: "p ! i < length p" using p i by (simp add: uf_ok_def)
  have e: "(i, p ! i) \<in> uf_rel p" using i by (auto simp: uf_rel_def)
  have g: "(i, ?g) \<in> (uf_rel p)\<^sup>+"
  proof (cases "?g = p ! i")
    case True
    then show ?thesis using e by auto
  next
    case False
    then have "(p ! i, ?g) \<in> uf_rel p" using pi by (auto simp: uf_rel_def)
    with e show ?thesis by (meson trancl.r_into_trancl trancl.trancl_into_trancl)
  qed
  have sub: "uf_rel (p[i := ?g]) \<subseteq> (uf_rel p)\<^sup>+"
  proof
    fix x
    assume "x \<in> uf_rel (p[i := ?g])"
    then obtain j where x: "x = (j, p[i := ?g] ! j)" "j < length p" "p[i := ?g] ! j \<noteq> j" by (auto simp: uf_rel_def)
    show "x \<in> (uf_rel p)\<^sup>+"
    proof (cases "j = i")
      case True
      then show ?thesis using x g i by simp
    next
      case False
      then have "x \<in> uf_rel p" using x by (auto simp: uf_rel_def)
      then show ?thesis by (rule r_into_trancl')
    qed
  qed
  have "acyclic ((uf_rel p)\<^sup>+)" using p by (simp add: uf_ok_def acyclic_def)
  then have "acyclic (uf_rel (p[i := ?g]))" using sub by (rule acyclic_subset)
  moreover have "\<forall>j<length p. p[i := ?g] ! j < length p"
    using p pi i by (auto simp: uf_ok_def nth_list_update)
  ultimately show ?thesis using sub g by (simp add: uf_ok_def)
qed

lemma uf_halve_same:
  "uf_ok p \<Longrightarrow> i < length p \<Longrightarrow> uf_same f p \<Longrightarrow> uf_same f (p[i := p ! (p ! i)])"
  by (auto simp: uf_same_def uf_ok_def nth_list_update)

definition uf_reachable :: "nat list \<Rightarrow> nat \<Rightarrow> nat set" where
  "uf_reachable p i = (uf_rel p)\<^sup>* `` {i}"

lemma uf_reachable_finite: "uf_ok p \<Longrightarrow> i < length p \<Longrightarrow> uf_reachable p i \<subseteq> {..<length p}"
  by (auto simp: uf_reachable_def rtrancl_eq_or_trancl dest: uf_rel_bound)

lemma uf_reachable_less:
  assumes p: "uf_ok p" and i: "i < length p" "p ! i \<noteq> i"
  shows "card (uf_reachable (p[i := p ! (p ! i)]) (p ! (p ! i))) < card (uf_reachable p i)"
proof -
  let ?g = "p ! (p ! i)" and ?q = "p[i := p ! (p ! i)]"
  note h = uf_halve [OF p i]
  have sub: "(uf_rel ?q)\<^sup>* \<subseteq> (uf_rel p)\<^sup>*"
    using h by (intro rtrancl_subset_rtrancl) (auto dest: trancl_into_rtrancl)
  have gi: "(?g, j) \<in> (uf_rel p)\<^sup>* \<Longrightarrow> (i, j) \<in> (uf_rel p)\<^sup>+" for j using h by auto
  have "i \<notin> uf_reachable ?q ?g"
    using gi [of i] sub p by (auto simp: uf_reachable_def uf_ok_def acyclic_def)
  moreover have "uf_reachable ?q ?g \<subseteq> uf_reachable p i"
    using gi sub by (auto simp: uf_reachable_def dest: trancl_into_rtrancl)
  moreover have "i \<in> uf_reachable p i" by (simp add: uf_reachable_def)
  ultimately have "uf_reachable ?q ?g \<subset> uf_reachable p i" by blast
  moreover have "finite (uf_reachable p i)"
    using uf_reachable_finite [OF p i(1)] finite_subset by blast
  ultimately show ?thesis by (rule psubset_card_mono [rotated])
qed

text \<open>The state a find leaves: the root, the same classes, only the trail and the parents touched.\<close>

definition found :: "(vcterm \<Rightarrow> u32) \<Rightarrow> eufstate \<Rightarrow> nat \<Rightarrow> nat \<Rightarrow> eufstate \<Rightarrow> bool" where
  "found idf st i r st' \<longleftrightarrow> euf_reach idf st st' \<and> e_terms st' = e_terms st \<and> e_unsat st' = e_unsat st \<and> e_htab st' = e_htab st
     \<and> length (e_parent st') = length (e_parent st) \<and> uf_ok (e_parent st') \<and> r < length (e_parent st)
     \<and> (\<forall>f :: nat \<Rightarrow> real. uf_same f (e_parent st) \<longrightarrow> uf_same f (e_parent st') \<and> f r = f i)"

lemma uf_walk_ok:
  assumes "uf_ok (e_parent st)" and "i < length (e_parent st)" and "length (e_parent st) = e_n st"
    and "card (uf_reachable (e_parent st) i) \<le> k"
  shows "case uf_walk k st i of (r, st') \<Rightarrow> found idf st i r st' \<and> e_parent st' ! r = r"
  using assms
proof (induction k arbitrary: st i)
  case 0
  have "i \<in> uf_reachable (e_parent st) i" by (simp add: uf_reachable_def)
  moreover have "finite (uf_reachable (e_parent st) i)"
    using uf_reachable_finite [OF 0(1,2)] finite_subset by blast
  ultimately show ?case using 0(4) by auto
next
  case (Suc k)
  show ?case
  proof (cases "e_parent st ! i = i")
    case True
    then show ?thesis using Suc.prems by (simp add: found_def reach_refl)
  next
    case False
    let ?p = "e_parent st"
    let ?g = "?p ! (?p ! i)"
    let ?st = "euf_pset st i ?g"
    note h = uf_halve [OF Suc.prems(1,2) False]
    have g: "?g < length ?p" using h uf_rel_bound [OF Suc.prems(1)] by blast
    have "card (uf_reachable (?p[i := ?g]) ?g) \<le> k"
      using uf_reachable_less [OF Suc.prems(1,2) False] Suc.prems(4) by simp
    then have IH: "case uf_walk k ?st ?g of (r, st') \<Rightarrow> found idf ?st ?g r st' \<and> e_parent st' ! r = r"
      using Suc.prems g h by (intro Suc.IH) auto
    have r: "euf_reach idf st ?st" using Suc.prems by (intro reach_pset reach_refl) simp
    obtain x s where w: "uf_walk k ?st ?g = (x, s)" by fastforce
    have s: "found idf ?st ?g x s" "e_parent s ! x = x" using IH w by simp_all
    have "uf_same f (e_parent s) \<and> f x = f i" if f: "uf_same f ?p" for f :: "nat \<Rightarrow> real"
    proof -
      have "uf_same f (e_parent ?st)" using uf_halve_same [OF Suc.prems(1,2) f] by simp
      then have "uf_same f (e_parent s) \<and> f x = f ?g" using s(1) by (simp add: found_def)
      moreover have "f ?g = f i" using f Suc.prems(1,2) by (simp add: uf_same_def uf_ok_def)
      ultimately show ?thesis by simp
    qed
    moreover have "euf_reach idf st s" using s(1) euf_reach_trans [OF _ r] by (simp add: found_def)
    ultimately have "found idf st i x s" using s(1) unfolding found_def by simp
    then show ?thesis using False w s(2) by (simp add: Let_def)
  qed
qed

lemma uf_find_ok:
  assumes "uf_ok (e_parent st)" and "i < length (e_parent st)" and "length (e_parent st) = e_n st"
    and "uf_find st i = (r, st')"
  shows "found idf st i r st' \<and> e_parent st' ! r = r"
proof -
  have "card (uf_reachable (e_parent st) i) \<le> card {..<length (e_parent st)}"
    using uf_reachable_finite [OF assms(1,2)] by (intro card_mono) auto
  then show ?thesis using uf_walk_ok [OF assms(1-3), of "e_n st" idf] assms(3,4) by (simp add: uf_find_def)
qed

lemma uf_link:
  assumes p: "uf_ok p" and r: "ri < length p" "rj < length p" "p ! ri = ri" "p ! rj = rj" "ri \<noteq> rj"
  shows "uf_ok (p[rj := ri])"
proof -
  have rel: "uf_rel (p[rj := ri]) = insert (rj, ri) (uf_rel p)"
    using r by (auto simp: uf_rel_def nth_list_update)
  have "(ri, rj) \<notin> (uf_rel p)\<^sup>*"
    using r by (auto elim: converse_rtranclE simp: uf_rel_def)
  then have "acyclic (uf_rel (p[rj := ri]))" using p unfolding rel by (simp add: acyclic_insert uf_ok_def)
  then show ?thesis using p r by (auto simp: uf_ok_def nth_list_update)
qed

section \<open>States with a model\<close>

definition es_inv :: "(vcterm \<Rightarrow> u32) \<Rightarrow> (vcterm \<Rightarrow> bool) \<Rightarrow> eufstate \<Rightarrow> bool" where
  "es_inv idf G st \<longleftrightarrow> euf_wf idf st \<and> uf_ok (e_parent st) \<and> (\<forall>t\<in>set (e_terms st). G t)"

definition val :: "interp \<Rightarrow> eufstate \<Rightarrow> nat \<Rightarrow> real" where
  "val I st j = eval I (e_terms st ! j)"

definition es_sat :: "interp \<Rightarrow> eufstate \<Rightarrow> bool" where
  "es_sat I st \<longleftrightarrow> uf_same (val I st) (e_parent st)"

text \<open>
  One operation: reachable by trailed writes and registrations, invariant kept, and a model of
  the state before that satisfies \<open>Q\<close> is a model of the state after.
\<close>

definition es_step :: "(vcterm \<Rightarrow> u32) \<Rightarrow> (vcterm \<Rightarrow> bool) \<Rightarrow> (interp \<Rightarrow> bool) \<Rightarrow> eufstate \<Rightarrow> eufstate \<Rightarrow> bool" where
  "es_step idf G Q st st' \<longleftrightarrow> euf_reach idf st st' \<and> es_inv idf G st' \<and> (\<exists>ts. e_terms st' = e_terms st @ ts)
     \<and> (\<forall>I. Q I \<longrightarrow> es_sat I st \<longrightarrow> es_sat I st')"

lemma es_invD:
  "es_inv idf G st \<Longrightarrow> euf_wf idf st" "es_inv idf G st \<Longrightarrow> uf_ok (e_parent st)"
  "es_inv idf G st \<Longrightarrow> length (e_parent st) = e_n st" "es_inv idf G st \<Longrightarrow> t \<in> set (e_terms st) \<Longrightarrow> G t"
  using euf_wfD(3) by (auto simp: es_inv_def)

lemma es_step_refl: "es_inv idf G st \<Longrightarrow> es_step idf G Q st st"
  by (simp add: es_step_def reach_refl)

lemma es_step_trans: "es_step idf G Q st st1 \<Longrightarrow> es_step idf G R st1 st2 \<Longrightarrow> es_step idf G (\<lambda>I. Q I \<and> R I) st st2"
  by (auto simp: es_step_def intro: euf_reach_trans)

lemma es_step_weaken: "es_step idf G Q st st' \<Longrightarrow> (\<And>I. R I \<Longrightarrow> Q I) \<Longrightarrow> es_step idf G R st st'"
  by (auto simp: es_step_def)

lemma es_step_trans': "es_step idf G Q st st1 \<Longrightarrow> es_step idf G Q st1 st2 \<Longrightarrow> es_step idf G Q st st2"
  by (drule (1) es_step_trans) (auto elim: es_step_weaken)

lemma es_step_inv: "es_step idf G Q st st' \<Longrightarrow> es_inv idf G st'"
  by (simp add: es_step_def)

lemma val_unsat [simp]: "val I (st\<lparr>e_unsat := b\<rparr>) = val I st"
  by (simp add: val_def fun_eq_iff)

lemma es_step_unsat: "es_inv idf G st \<Longrightarrow> es_step idf G Q st (st\<lparr>e_unsat := b\<rparr>)"
  by (auto simp: es_step_def es_inv_def es_sat_def intro: reach_unsat reach_refl)

lemma es_step_n: "es_step idf G Q st st' \<Longrightarrow> e_n st \<le> e_n st'"
  by (auto simp: es_step_def e_n_def)

lemma es_step_nth: "es_step idf G Q st st' \<Longrightarrow> i < e_n st \<Longrightarrow> e_terms st' ! i = e_terms st ! i"
  by (auto simp: es_step_def e_n_def nth_append)

lemma es_find:
  assumes "es_inv idf G st" and "i < e_n st" and "uf_find st i = (r, st')"
  shows "es_step idf G Q st st' \<and> e_terms st' = e_terms st \<and> r < e_n st \<and> e_parent st' ! r = r
    \<and> (\<forall>I. es_sat I st \<longrightarrow> val I st r = val I st i)"
proof -
  have f: "found idf st i r st'" "e_parent st' ! r = r"
    using uf_find_ok [OF es_invD(2) [OF assms(1)] _ es_invD(3) [OF assms(1)] assms(3)] assms(2) es_invD(3) [OF assms(1)]
    by (metis, metis)
  have fr: "euf_reach idf st st'" "e_terms st' = e_terms st" "uf_ok (e_parent st')" "r < e_n st"
    using f(1) es_invD(3) [OF assms(1)] unfolding found_def by (blast, blast, blast, metis)
  have wf: "euf_wf idf st'" using euf_reach_wf [OF fr(1) es_invD(1) [OF assms(1)]] .
  have v: "val I st' = val I st" for I by (simp add: fr(2) val_def fun_eq_iff)
  have same: "uf_same (val I st) (e_parent st') \<and> val I st r = val I st i" if "es_sat I st" for I
    using f(1) that unfolding found_def es_sat_def by blast
  then have "es_sat I st'" if "es_sat I st" for I
    using that unfolding es_sat_def v by blast
  then have "es_step idf G Q st st'"
    using fr wf assms(1) by (simp add: es_step_def es_inv_def)
  then show ?thesis using fr f(2) same by blast
qed

lemma es_union:
  assumes inv: "es_inv idf G st" and ij: "i < e_n st" "j < e_n st" and u: "uf_union st i j = (b, st')"
  shows "es_step idf G (\<lambda>I. val I st i = val I st j) st st' \<and> e_terms st' = e_terms st"
proof -
  obtain ri st1 where fi: "uf_find st i = (ri, st1)" by fastforce
  obtain rj st2 where fj: "uf_find st1 j = (rj, st2)" by fastforce
  note a = es_find [OF inv ij(1) fi, where Q = "\<lambda>I. True"]
  then have a: "es_step idf G (\<lambda>I. True) st st1" "e_terms st1 = e_terms st" "ri < e_n st" "e_parent st1 ! ri = ri"
      "\<And>I. es_sat I st \<Longrightarrow> val I st ri = val I st i"
    by blast+
  have i1: "es_inv idf G st1" and n1: "e_n st1 = e_n st" using es_step_inv [OF a(1)] a(2) by (auto simp: e_n_def)
  have "j < e_n st1" using ij n1 by simp
  note b = es_find [OF i1 this fj, where Q = "\<lambda>I. True"]
  then have b: "es_step idf G (\<lambda>I. True) st1 st2" "e_terms st2 = e_terms st1" "rj < e_n st1" "e_parent st2 ! rj = rj"
      "\<And>I. es_sat I st1 \<Longrightarrow> val I st1 rj = val I st1 j"
    by blast+
  have s2: "es_step idf G (\<lambda>I. True) st st2" using es_step_trans' [OF a(1) b(1)] .
  have i2: "es_inv idf G st2" using es_step_inv [OF s2] .
  show ?thesis
  proof (cases "ri = rj")
    case True
    then show ?thesis using u fi fj es_step_weaken [OF s2] a(2) b(2) by (simp add: uf_union_def)
  next
    case False
    then have st': "st' = euf_pset st2 rj ri" using u fi fj by (simp add: uf_union_def)
    have n2: "e_n st2 = e_n st" "length (e_parent st2) = e_n st" using a(2) b(2) es_invD(3) [OF i2] by (simp_all add: e_n_def)
    have v: "val I st1 = val I st" "val I st2 = val I st" for I using a(2) b(2) by (auto simp: val_def fun_eq_iff)
    have ri: "e_parent st2 ! ri = ri"
    proof -
      have "uf_walk k s x = (y, s') \<Longrightarrow> e_parent s ! ri = ri \<Longrightarrow> e_parent s' ! ri = ri" for k s x y s'
      proof (induction k arbitrary: s x)
        case (Suc k)
        show ?case
        proof (cases "e_parent s ! x = x")
          case False
          then have "x \<noteq> ri" using Suc.prems(2) by auto
          then show ?thesis using Suc.prems False Suc.IH [of "euf_pset s x (e_parent s ! (e_parent s ! x))"]
            by (simp add: Let_def)
        qed (use Suc in auto)
      qed auto
      then show ?thesis using fj a(4) unfolding uf_find_def by blast
    qed
    have "uf_ok (e_parent st')"
      using uf_link [OF es_invD(2) [OF i2], of ri rj] a(3) b(3,4) n1 n2 False ri by (simp add: st')
    then have inv': "es_inv idf G st'" using i2 euf_pset_wf by (simp add: es_inv_def st')
    have r: "euf_reach idf st2 st'" unfolding st' using b(3) n1 n2 by (intro reach_pset reach_refl) simp
    have "es_sat I st'" if I: "val I st i = val I st j" "es_sat I st" for I
    proof -
      have "es_sat I st1" using a(1) I(2) by (auto simp: es_step_def)
      then have "val I st rj = val I st j" using b(5) [of I] v(1) by simp
      then have "val I st ri = val I st rj" using a(5) [OF I(2)] I(1) by simp
      moreover have "es_sat I st2" using s2 I(2) by (auto simp: es_step_def)
      ultimately show ?thesis
        using a(2) b(2,3) n1 n2 by (auto simp: es_sat_def uf_same_def st' val_def nth_list_update)
    qed
    then show ?thesis
      using s2 inv' a(2) b(2) euf_reach_trans [OF r] by (simp add: es_step_def st')
  qed
qed

end
