(* ===== verification/EufRefute.thy ===== *)
theory EufRefute
  imports EufSound
begin

text \<open>
  The operations of stage S1 on states with a model: registration, congruence, the closure, the
  literal check, the assertion of a cube, and the stage itself. The closure ignores sorts, so the
  conditions S1 is sound on have one result sort for \<open>div\<close> and one for \<open>mod\<close> (\<open>op_uniform\<close>).
\<close>

section \<open>The terms S1 handles soundly\<close>

definition op_uniform :: "vcsort \<times> vcsort \<Rightarrow> vcterm \<Rightarrow> bool" where
  "op_uniform d t \<longleftrightarrow> (t_op t = VC_DIV \<longrightarrow> t_sort t = fst d) \<and> (t_op t = VC_MOD \<longrightarrow> t_sort t = snd d)"

text \<open>A literal is its value: an int, or a double that is a finite number.\<close>

definition lit_canon :: "vcterm \<Rightarrow> bool" where
  "lit_canon t \<longleftrightarrow>
     (t_op t = VC_CONST_INT \<longrightarrow> (case t_as t of PInt i \<Rightarrow> True | _ \<Rightarrow> False)) \<and>
     (t_op t = VC_CONST_REAL \<longrightarrow> (case t_as t of PReal (Fin q) \<Rightarrow> fl q = Fin q | _ \<Rightarrow> False))"

definition s1_node :: "vcsort \<times> vcsort \<Rightarrow> vcterm \<Rightarrow> bool" where
  "s1_node d t \<longleftrightarrow> op_uniform d t \<and> lit_canon t"

text \<open>The result sorts of \<open>div\<close> and \<open>mod\<close> in a condition: those of the first occurrences.\<close>

fun subterms :: "vcterm \<Rightarrow> vcterm list" where
  "subterms (Node op s ks p) = Node op s ks p # concat (map subterms ks)"

definition vc_terms :: "refinevc \<Rightarrow> vcterm list" where
  "vc_terms vc = concat (map subterms (hyps vc @ (case goal vc of None \<Rightarrow> [] | Some g \<Rightarrow> [g])))"

definition op_sort :: "vcop \<Rightarrow> refinevc \<Rightarrow> vcsort" where
  "op_sort op vc = (case filter (\<lambda>t. t_op t = op) (vc_terms vc) of [] \<Rightarrow> VS_INT | t # _ \<Rightarrow> t_sort t)"

definition op_sorts :: "refinevc \<Rightarrow> vcsort \<times> vcsort" where
  "op_sorts vc = (op_sort VC_DIV vc, op_sort VC_MOD vc)"

definition goodt :: "(nat \<Rightarrow> vcsort) \<Rightarrow> vcsort \<times> vcsort \<Rightarrow> vcterm \<Rightarrow> bool" where
  "goodt fs d t \<longleftrightarrow> wf_term fs t \<and> all_nodes (s1_node d) t"

lemma goodt_kid: "goodt fs d t \<Longrightarrow> k \<in> set (t_kids t) \<Longrightarrow> goodt fs d k"
  by (auto simp: goodt_def wf_term_kid all_nodes_kid)

lemma goodt_kids: "goodt fs d (Node op s ks p) \<Longrightarrow> k \<in> set ks \<Longrightarrow> goodt fs d k"
  using goodt_kid by fastforce

text \<open>Congruence is sound for such terms.\<close>

lemma goodt_congruent:
  assumes g: "goodt fs d x" "goodt fs d y" and op: "t_op x = t_op y" "t_kids x \<noteq> []"
    and app: "t_op x = VC_APP \<Longrightarrow> as_idx (t_as x) = as_idx (t_as y)"
    and kids: "map (eval I) (t_kids x) = map (eval I) (t_kids y)"
  shows "eval I x = eval I y"
proof -
  obtain o1 s1 k1 p1 where x: "x = Node o1 s1 k1 p1" by (cases x)
  obtain o2 s2 k2 p2 where y: "y = Node o2 s2 k2 p2" by (cases y)
  have ok: "node_ok fs x" "node_ok fs y" "s1_node d x" "s1_node d y"
    using g by (auto simp: goodt_def intro: wf_term_node all_nodes_root)
  show ?thesis
    using ok op app kids unfolding x y
    by (cases o1) (auto simp: op_sem_def node_ok_def Let_def s1_node_def op_uniform_def)
qed

text \<open>Two literals of one value are one term, or an int and the real of its value.\<close>

lemma lit_values_differ_ok:
  assumes g: "goodt fs d x" "goodt fs d y" and l: "is_num_lit x" "is_num_lit y" and n: "x \<noteq> y"
    and e: "eval I x = eval I y"
  shows "\<not> lit_values_differ x y"
proof -
  obtain o1 s1 k1 p1 where x: "x = Node o1 s1 k1 p1" by (cases x)
  obtain o2 s2 k2 p2 where y: "y = Node o2 s2 k2 p2" by (cases y)
  have ok: "node_ok fs x" "node_ok fs y" "lit_canon x" "lit_canon y"
    using g by (auto simp: goodt_def s1_node_def intro: wf_term_node dest: all_nodes_root)
  consider (ii) "o1 = VC_CONST_INT" "o2 = VC_CONST_INT" | (rr) "o1 = VC_CONST_REAL" "o2 = VC_CONST_REAL"
    | (ir) "o1 = VC_CONST_INT" "o2 = VC_CONST_REAL" | (ri) "o1 = VC_CONST_REAL" "o2 = VC_CONST_INT"
    using l x y by (auto simp: is_num_lit_def is_int_lit_def is_real_lit_def)
  then show ?thesis
  proof cases
    case ii
    with ok e n show ?thesis unfolding x y
      by (auto simp: node_ok_def lit_canon_def op_sem_def split: payload.splits)
  next
    case rr
    with ok e n show ?thesis unfolding x y
      by (auto simp: node_ok_def lit_canon_def op_sem_def split: payload.splits f64.splits)
  next
    case ir
    then obtain i q where p: "p1 = PInt i" "p2 = PReal (Fin q)" "fl q = Fin q"
      using ok unfolding x y by (auto simp: lit_canon_def split: payload.splits f64.splits)
    have "of_rat (of_int i) = (of_rat q :: real)" using e ir p unfolding x y by (simp add: op_sem_def)
    then have "of_int i = q" using of_rat_eq_iff by blast
    with ir p show ?thesis unfolding x y by (simp add: lit_values_differ_def Let_def f64_of_int_def)
  next
    case ri
    then obtain i q where p: "p2 = PInt i" "p1 = PReal (Fin q)" "fl q = Fin q"
      using ok unfolding x y by (auto simp: lit_canon_def split: payload.splits f64.splits)
    have "of_rat (of_int i) = (of_rat q :: real)" using e ri p unfolding x y by (simp add: op_sem_def)
    then have "of_int i = q" using of_rat_eq_iff by blast
    with ri p show ?thesis unfolding x y by (simp add: lit_values_differ_def Let_def f64_of_int_def)
  qed
qed

section \<open>Registration\<close>

lemma uf_ok_append:
  assumes "uf_ok p"
  shows "uf_ok (p @ [length p])"
proof -
  have "uf_rel (p @ [length p]) = uf_rel p"
    by (auto simp: uf_rel_def nth_append split: if_splits)
  with assms show ?thesis by (auto simp: uf_ok_def nth_append less_Suc_eq)
qed

lemma es_add:
  assumes inv: "es_inv idf G st" and t: "G t" "t \<notin> set (e_terms st)" "e_n st < REFINE_MAX_EUF_TERMS"
  shows "es_step idf G Q st (euf_add idf st t) \<and> e_terms (euf_add idf st t) = e_terms st @ [t]"
proof -
  note a = euf_add_ok [OF es_invD(1) [OF inv] t(3,2)]
  have len: "length (e_parent st) = e_n st" using es_invD(3) [OF inv] .
  have "uf_ok (e_parent (euf_add idf st t))"
    using uf_ok_append [OF es_invD(2) [OF inv]] a len by simp
  then have i: "es_inv idf G (euf_add idf st t)" using a inv t(1) by (auto simp: es_inv_def)
  have "es_sat I (euf_add idf st t)" if "es_sat I st" for I
    unfolding es_sat_def uf_same_def
  proof (intro allI impI)
    fix j
    assume "j < length (e_parent (euf_add idf st t))"
    then have j: "j < Suc (e_n st)" using a len by simp
    show "val I (euf_add idf st t) (e_parent (euf_add idf st t) ! j) = val I (euf_add idf st t) j"
    proof (cases "j = e_n st")
      case True
      then show ?thesis using a len by (simp add: nth_append)
    next
      case False
      then have j: "j < e_n st" using j by simp
      then have "e_parent st ! j < e_n st" using es_invD(2) [OF inv] len by (simp add: uf_ok_def)
      moreover have "val I st (e_parent st ! j) = val I st j" using that j len by (simp add: es_sat_def uf_same_def)
      ultimately show ?thesis using j a len by (simp add: val_def nth_append e_n_def)
    qed
  qed
  moreover have "euf_reach idf st (euf_add idf st t)" using t by (intro reach_add reach_refl) auto
  ultimately show ?thesis using i a by (simp add: es_step_def)
qed

lemma size_kid: "k \<in> set ks \<Longrightarrow> size k < size (Node op s ks p)"
  by (induction ks) auto

definition index_ok :: "(vcterm \<Rightarrow> u32) \<Rightarrow> (vcterm \<Rightarrow> bool) \<Rightarrow> nat \<Rightarrow> eufstate \<Rightarrow> eufstate \<Rightarrow> bool" where
  "index_ok idf G n st st' \<longleftrightarrow> es_step idf G (\<lambda>I. True) st st' \<and> (\<forall>u\<in>set (e_terms st'). u \<in> set (e_terms st) \<or> size u < n)"

lemma es_index:
  assumes "es_inv idf (goodt fs d) st" and "goodt fs d t" and "euf_index idf t st = (r, st')"
  shows "index_ok idf (goodt fs d) (Suc (size t)) st st' \<and> (\<forall>i. r = Some i \<longrightarrow> i < e_n st' \<and> e_terms st' ! i = t)"
  using assms
proof (induction t arbitrary: st r st')
  case (Node op s ks p)
  let ?t = "Node op s ks p"
  show ?case
  proof (cases "euf_lookup idf st ?t")
    case (Some i)
    then have "r = Some i" "st' = st" using Node.prems(3) by simp_all
    then show ?thesis
      using Some euf_lookup_ok [OF es_invD(1) [OF Node.prems(1)], of ?t i] es_step_refl [OF Node.prems(1)]
      by (simp add: index_ok_def)
  next
    case None
    let ?f = "\<lambda>k a. snd (euf_index idf k a)"
    have fold: "index_ok idf (goodt fs d) (size ?t) s1 (fold ?f us s1)"
      if "set us \<subseteq> set ks" "es_inv idf (goodt fs d) s1" for us s1
      using that
    proof (induction us arbitrary: s1)
      case Nil
      then show ?case by (simp add: index_ok_def es_step_refl)
    next
      case (Cons u us)
      have u: "u \<in> set ks" "goodt fs d u" using Cons.prems goodt_kids [OF Node.prems(2)] by auto
      have a: "index_ok idf (goodt fs d) (Suc (size u)) s1 (?f u s1)"
        using Node.IH [OF u(1) Cons.prems(2) u(2), of "fst (euf_index idf u s1)" "?f u s1"] by simp
      then have i: "es_inv idf (goodt fs d) (?f u s1)" using es_step_inv by (auto simp: index_ok_def)
      have b: "index_ok idf (goodt fs d) (size ?t) (?f u s1) (fold ?f us (?f u s1))"
        using Cons.prems i by (intro Cons.IH) auto
      have "size u < size ?t" using size_kid [OF u(1)] .
      then show ?case using a b es_step_trans' unfolding index_ok_def by (fastforce intro: less_le_trans)
    qed
    define st1 where "st1 = fold ?f ks st"
    have i1: "index_ok idf (goodt fs d) (size ?t) st st1" using fold [OF order_refl Node.prems(1)] by (simp add: st1_def)
    then have inv1: "es_inv idf (goodt fs d) st1" using es_step_inv by (auto simp: index_ok_def)
    have nt: "?t \<notin> set (e_terms st1)"
      using i1 None euf_lookup_None [OF es_invD(1) [OF Node.prems(1)]] by (auto simp: index_ok_def)
    show ?thesis
    proof (cases "REFINE_MAX_EUF_TERMS \<le> e_n st1")
      case True
      then show ?thesis using Node.prems None i1 by (auto simp: st1_def [symmetric] index_ok_def less_Suc_eq)
    next
      case False
      have r: "st' = euf_add idf st1 ?t" "r = Some (e_n st' - 1)"
        using Node.prems(3) None False by (auto simp: st1_def [symmetric] Let_def)
      have a: "es_step idf (goodt fs d) (\<lambda>I. True) st1 st' \<and> e_terms st' = e_terms st1 @ [?t]"
        using es_add [OF inv1 Node.prems(2) nt] False r by auto
      have "es_step idf (goodt fs d) (\<lambda>I. True) st st'" using a i1 es_step_trans' by (auto simp: index_ok_def)
      then show ?thesis using a i1 r by (auto simp: index_ok_def e_n_def less_Suc_eq nth_append)
    qed
  qed
qed

lemma es_index':
  assumes "es_inv idf (goodt fs d) st" and "goodt fs d t" and "euf_index idf t st = (r, st')"
  shows "es_step idf (goodt fs d) (\<lambda>I. True) st st'" and "r = Some i \<Longrightarrow> i < e_n st' \<and> e_terms st' ! i = t"
  using es_index [OF assms] by (auto simp: index_ok_def)

section \<open>Congruence and closure\<close>

text \<open>An operation that keeps every model (no assumption on it) and changes no term.\<close>

definition es_pure :: "(vcterm \<Rightarrow> u32) \<Rightarrow> (vcterm \<Rightarrow> bool) \<Rightarrow> eufstate \<Rightarrow> eufstate \<Rightarrow> bool" where
  "es_pure idf G st st' \<longleftrightarrow> es_step idf G (\<lambda>I. True) st st' \<and> e_terms st' = e_terms st"

lemma es_pure_refl: "es_inv idf G st \<Longrightarrow> es_pure idf G st st"
  by (simp add: es_pure_def es_step_refl)

lemma es_pure_trans: "es_pure idf G st st1 \<Longrightarrow> es_pure idf G st1 st2 \<Longrightarrow> es_pure idf G st st2"
  unfolding es_pure_def using es_step_trans' by metis

lemma es_pureD:
  "es_pure idf G st st' \<Longrightarrow> es_inv idf G st'" "es_pure idf G st st' \<Longrightarrow> e_terms st' = e_terms st"
  "es_pure idf G st st' \<Longrightarrow> e_n st' = e_n st" "es_pure idf G st st' \<Longrightarrow> es_sat I st \<Longrightarrow> es_sat I st'"
  by (auto simp: es_pure_def es_step_def e_n_def)

lemma es_find_pure:
  assumes "es_inv idf G st" and "i < e_n st" and "uf_find st i = (r, st')"
  shows "es_pure idf G st st'" and "r < e_n st" and "es_sat I st \<Longrightarrow> eval I (e_terms st ! r) = eval I (e_terms st ! i)"
  using es_find [OF assms, of "\<lambda>I. True"] by (auto simp: es_pure_def val_def)

lemma es_equal_roots:
  assumes inv: "es_inv idf G st" and i: "i < e_n st" "j < e_n st"
    and f: "uf_find st i = (ri, st1)" "uf_find st1 j = (rj, st2)"
  shows "es_pure idf G st st2" and "ri = rj \<Longrightarrow> es_sat I st \<Longrightarrow> eval I (e_terms st ! i) = eval I (e_terms st ! j)"
proof -
  note a = es_find_pure [OF inv i(1) f(1)]
  have j: "j < e_n st1" using i es_pureD(3) [OF a(1)] by simp
  note b = es_find_pure [OF es_pureD(1) [OF a(1)] j f(2)]
  show "es_pure idf G st st2" using es_pure_trans [OF a(1) b(1)] .
  show "eval I (e_terms st ! i) = eval I (e_terms st ! j)" if "ri = rj" "es_sat I st"
    using a(3) [OF that(2)] b(3) [OF es_pureD(4) [OF a(1) that(2)]] es_pureD(2) [OF a(1)] that(1) by simp
qed

lemma es_lookup:
  "es_inv idf G st \<Longrightarrow> euf_lookup idf st t = Some i \<Longrightarrow> i < e_n st \<and> e_terms st ! i = t"
  using euf_lookup_ok es_invD(1) by blast

lemma es_congruent_kids:
  assumes "es_inv idf G st" and "congruent_kids idf xs ys st = (b, st')" and "length xs = length ys"
  shows "es_pure idf G st st' \<and> (b \<longrightarrow> (\<forall>I. es_sat I st \<longrightarrow> map (eval I) xs = map (eval I) ys))"
  using assms
proof (induction idf xs ys st rule: congruent_kids.induct)
  case (1 idf x xs y ys st)
  show ?case
  proof (cases "euf_lookup idf st x = None \<or> euf_lookup idf st y = None")
    case True
    then show ?thesis using 1 es_pure_refl by (auto split: option.splits)
  next
    case False
    then obtain i j where l: "euf_lookup idf st x = Some i" "euf_lookup idf st y = Some j" by auto
    note li = es_lookup [OF 1(2) l(1)] and lj = es_lookup [OF 1(2) l(2)]
    obtain ri st1 where fi: "uf_find st i = (ri, st1)" by fastforce
    obtain rj st2 where fj: "uf_find st1 j = (rj, st2)" by fastforce
    note eq = es_equal_roots [OF 1(2) conjunct1 [OF li] conjunct1 [OF lj] fi fj]
    show ?thesis
    proof (cases "ri = rj")
      case False
      then show ?thesis using 1(3) l fi fj eq(1) by auto
    next
      case True
      then have c: "congruent_kids idf xs ys st2 = (b, st')" using 1(3) l fi fj by simp
      have IH: "es_pure idf G st2 st' \<and> (b \<longrightarrow> (\<forall>I. es_sat I st2 \<longrightarrow> map (eval I) xs = map (eval I) ys))"
        using 1(1) [OF _ l fi [symmetric] refl fj [symmetric] refl] True es_pureD(1) [OF eq(1)] c 1(4) by simp
      then show ?thesis
        using eq(2) [OF True] li lj es_pureD(4) [OF eq(1)] es_pure_trans [OF eq(1)] by auto
    qed
  qed
qed (auto simp: es_pure_refl)

lemma es_congruent:
  assumes inv: "es_inv idf G st" and c: "congruent idf st x y = (b, st')" and g: "goodt fs d x" "goodt fs d y"
  shows "es_pure idf G st st' \<and> (b \<longrightarrow> (\<forall>I. es_sat I st \<longrightarrow> eval I x = eval I y))"
proof (cases "t_op x = t_op y \<and> length (t_kids x) = length (t_kids y) \<and> t_kids x \<noteq> []
    \<and> (t_op x = VC_APP \<longrightarrow> as_idx (t_as x) = as_idx (t_as y))")
  case False
  then have "b = False" "st' = st" using c by (auto simp: congruent_def split: if_splits)
  then show ?thesis using es_pure_refl [OF inv] by simp
next
  case True
  then have "congruent_kids idf (t_kids x) (t_kids y) st = (b, st')" using c by (auto simp: congruent_def)
  then have "es_pure idf G st st' \<and> (b \<longrightarrow> (\<forall>I. es_sat I st \<longrightarrow> map (eval I) (t_kids x) = map (eval I) (t_kids y)))"
    using es_congruent_kids [OF inv] True by blast
  then show ?thesis using goodt_congruent [OF g] True by blast
qed

lemma es_sig_kids:
  "es_inv idf G st \<Longrightarrow> sig_kids idf ks h st = (r, st') \<Longrightarrow> es_pure idf G st st'"
proof (induction idf ks h st rule: sig_kids.induct)
  case (2 idf k ks h st)
  show ?case
  proof (cases "euf_lookup idf st k")
    case None
    then show ?thesis using 2 es_pure_refl by simp
  next
    case (Some i)
    obtain x st1 where f: "uf_find st i = (x, st1)" by fastforce
    have "es_pure idf G st st1" using es_find_pure(1) [OF 2(2) _ f] es_lookup [OF 2(2) Some] by simp
    then show ?thesis
      using 2(1) [OF Some f [symmetric] refl] 2(3) Some f es_pureD(1) es_pure_trans by simp
  qed
qed (simp add: es_pure_refl)

lemma es_signature: "es_inv idf G st \<Longrightarrow> euf_signature idf st x = (r, st') \<Longrightarrow> es_pure idf G st st'"
  using es_sig_kids es_pure_refl by (fastforce simp: euf_signature_def Let_def split: if_splits)

text \<open>The signature table holds indices of registered terms.\<close>

definition sig_ok :: "nat \<Rightarrow> nat list \<Rightarrow> bool" where
  "sig_ok n sig \<longleftrightarrow> (\<forall>x\<in>set sig. x \<le> n)"

lemma es_close_probe:
  assumes "es_inv idf (goodt fs d) st" and "i < e_n st" and "sig_ok (e_n st) sig" and "s < length sig"
    and "close_probe k idf i s sig st = (b, sig', st')"
  shows "es_pure idf (goodt fs d) st st' \<and> sig_ok (e_n st) sig' \<and> length sig' = length sig"
  using assms
proof (induction k idf i s sig st arbitrary: b rule: close_probe.induct)
  case (1 idf i s sig st)
  then show ?case using es_pure_refl by auto
next
  case (2 k idf i s sig st)
  show ?case
  proof (cases "sig ! s = 0")
    case True
    then show ?thesis
      using 2(2-) es_pure_refl set_update_subset_insert [of sig s "Suc i"] by (auto simp: sig_ok_def)
  next
    case False
    let ?j = "sig ! s - 1"
    have "sig ! s \<le> e_n st" using 2(4,5) by (simp add: sig_ok_def)
    then have j: "?j < e_n st" using False by simp
    obtain c st1 where c: "congruent idf st (e_terms st ! ?j) (e_terms st ! i) = (c, st1)" by fastforce
    have g: "goodt fs d (e_terms st ! ?j)" "goodt fs d (e_terms st ! i)"
      using es_invD(4) [OF 2(2)] j 2(3) by (simp_all add: e_n_def)
    note cg = es_congruent [OF 2(2) c g]
    have p1: "es_pure idf (goodt fs d) st st1" using cg by simp
    have i1: "es_inv idf (goodt fs d) st1" and n1: "e_n st1 = e_n st" and t1: "e_terms st1 = e_terms st"
      using es_pureD [OF p1] by auto
    show ?thesis
    proof (cases c)
      case False
      then have r: "close_probe k idf i ((s + 1) mod length sig) sig st1 = (b, sig', st')"
        using 2(6) \<open>sig ! s \<noteq> 0\<close> c by simp
      have "(s + 1) mod length sig < length sig" using 2(5) by (intro mod_less_divisor) linarith
      then show ?thesis
        using 2(1) [OF \<open>sig ! s \<noteq> 0\<close> refl refl c [symmetric] False i1 _ _ _ r] 2(3,4) n1 es_pure_trans [OF p1] by simp
    next
      case True
      obtain u st2 where u: "uf_union st1 ?j i = (u, st2)" by fastforce
      have r: "st' = st2" "sig' = sig" using 2(6) \<open>sig ! s \<noteq> 0\<close> c True u by auto
      have un: "es_step idf (goodt fs d) (\<lambda>I. val I st1 ?j = val I st1 i) st1 st2 \<and> e_terms st2 = e_terms st1"
        using es_union [OF i1 _ _ u] j 2(3) n1 by simp
      have eq: "es_sat I st \<Longrightarrow> val I st1 ?j = val I st1 i" for I using cg True t1 by (simp add: val_def)
      have "es_step idf (goodt fs d) (\<lambda>I. True \<and> val I st1 ?j = val I st1 i) st st2"
        using p1 un unfolding es_pure_def by (intro es_step_trans) auto
      then have "es_pure idf (goodt fs d) st st2"
        using eq t1 un unfolding es_pure_def es_step_def by auto
      then show ?thesis using r 2(4) by simp
    qed
  qed
qed

lemma es_close_term:
  assumes "es_inv idf (goodt fs d) st" and "i < e_n st" and "sig_ok (e_n st) sig" and "0 < length sig"
    and "close_term idf i (b, sig, st) = (b', sig', st')"
  shows "es_pure idf (goodt fs d) st st' \<and> sig_ok (e_n st) sig' \<and> length sig' = length sig"
proof -
  obtain h st1 where h: "euf_signature idf st (e_terms st ! i) = (h, st1)" by fastforce
  have p: "es_pure idf (goodt fs d) st st1" using es_signature [OF assms(1) h] .
  show ?thesis
  proof (cases h)
    case None
    then show ?thesis using assms h p by (simp add: close_term_def)
  next
    case (Some x)
    obtain c s2 st2 where c: "close_probe (length sig) idf i (unat x mod length sig) sig st1 = (c, s2, st2)"
      by (metis prod_cases3)
    have "es_pure idf (goodt fs d) st1 st2 \<and> sig_ok (e_n st1) s2 \<and> length s2 = length sig"
      using es_pureD [OF p] assms(2-4) by (intro es_close_probe [OF _ _ _ _ c]) auto
    then show ?thesis
      using assms(5) h Some c es_pure_trans [OF p] es_pureD(3) [OF p] by (simp add: close_term_def)
  qed
qed

lemma es_close_fold:
  assumes "es_inv idf (goodt fs d) st" and "\<forall>i\<in>set is. i < e_n st" and "sig_ok (e_n st) sig" and "0 < length sig"
    and "fold (close_term idf) is (b, sig, st) = (b', sig', st')"
  shows "es_pure idf (goodt fs d) st st'"
  using assms
proof (induction "is" arbitrary: b sig st)
  case Nil
  then show ?case by (simp add: es_pure_refl)
next
  case (Cons i "is")
  obtain b1 sig1 st1 where c: "close_term idf i (b, sig, st) = (b1, sig1, st1)" by (metis prod_cases3)
  have "es_pure idf (goodt fs d) st st1 \<and> sig_ok (e_n st) sig1 \<and> length sig1 = length sig"
    using Cons.prems by (intro es_close_term [OF _ _ _ _ c]) auto
  moreover from this have "es_pure idf (goodt fs d) st1 st'"
    using Cons.prems c es_pureD [of idf "goodt fs d" st st1] by (intro Cons.IH) auto
  ultimately show ?case using es_pure_trans by blast
qed

lemma es_close_round:
  assumes "es_inv idf (goodt fs d) st" and "e_n st \<noteq> 0" and "close_round idf st = (b, st')"
  shows "es_pure idf (goodt fs d) st st'"
proof -
  obtain sig where f: "fold (close_term idf) [0..<e_n st] (False, replicate (e_hcap st) 0, st) = (b, sig, st')"
    using assms(3) by (auto simp: close_round_def split: prod.splits)
  have "0 < e_hcap st" using es_invD(1) [OF assms(1)] assms(2) by (auto simp: euf_wf_def)
  then show ?thesis using assms(1) by (intro es_close_fold [OF _ _ _ _ f]) (auto simp: sig_ok_def)
qed

lemma es_close_rounds: "es_inv idf (goodt fs d) st \<Longrightarrow> es_pure idf (goodt fs d) st (close_rounds k idf st)"
proof (induction k idf st rule: close_rounds.induct)
  case (1 idf st)
  then show ?case by (simp add: es_pure_refl)
next
  case (2 k idf st)
  show ?case
  proof (cases "e_n st = 0")
    case True
    then show ?thesis using 2(2) by (simp add: es_pure_refl)
  next
    case False
    obtain c st1 where c: "close_round idf st = (c, st1)" by fastforce
    have p: "es_pure idf (goodt fs d) st st1" using es_close_round [OF 2(2) False c] .
    show ?thesis
      using 2(1) [OF False c [symmetric] refl] False c p es_pureD(1) [OF p] es_pure_trans [OF p] by (cases c) auto
  qed
qed

lemma es_close: "es_inv idf (goodt fs d) st \<Longrightarrow> es_pure idf (goodt fs d) st (euf_close idf st)"
  by (simp add: euf_close_def es_close_rounds)

section \<open>Conflicts\<close>

lemma es_lit_scan:
  assumes "es_inv idf G st" and "\<forall>i\<in>set is. i < e_n st" and "lit_scan is lr st = (b, st')"
  shows "es_pure idf G st st'"
  using assms
proof (induction "is" lr st rule: lit_scan.induct)
  case (1 litroot st)
  then show ?case by (simp add: es_pure_refl)
next
  case (2 i "is" lr st)
  show ?case
  proof (cases "is_num_lit (e_terms st ! i)")
    case False
    then show ?thesis using 2(1) [OF refl] 2(4-) by simp
  next
    case True
    obtain r st1 where f: "uf_find st i = (r, st1)" by fastforce
    have p: "es_pure idf G st st1" using es_find_pure(1) [OF 2(4) _ f] 2(5) by simp
    have n: "es_inv idf G st1" "\<forall>i\<in>set is. i < e_n st1" using es_pureD [OF p] 2(5) by simp_all
    show ?thesis
    proof (cases "lr r")
      case None
      then show ?thesis
        using 2(2) [OF refl _ refl f [symmetric] None n] True f 2(6) None es_pure_trans [OF p]
        by (simp del: fun_upd_apply)
    next
      case (Some j)
      then show ?thesis
        using 2(3) [OF refl _ refl f [symmetric] Some _ n] True f 2(6) p es_pure_trans [OF p]
        by (auto split: if_splits)
    qed
  qed
qed

definition litroot_ok :: "interp \<Rightarrow> eufstate \<Rightarrow> nat list \<Rightarrow> (nat \<Rightarrow> nat option) \<Rightarrow> bool" where
  "litroot_ok I st is lr \<longleftrightarrow> (\<forall>r j. lr r = Some j \<longrightarrow> j < e_n st \<and> j \<notin> set is \<and> is_num_lit (e_terms st ! j)
     \<and> eval I (e_terms st ! r) = eval I (e_terms st ! j))"

lemma es_lit_scan_sat:
  assumes "es_inv idf (goodt fs d) st" and "\<forall>i\<in>set is. i < e_n st" and "distinct is" and "es_sat I st"
    and "litroot_ok I st is lr"
  shows "\<not> fst (lit_scan is lr st)"
  using assms
proof (induction "is" lr st rule: lit_scan.induct)
  case (1 litroot st)
  then show ?case by simp
next
  case (2 i "is" lr st)
  let ?x = "e_terms st ! i"
  have tail: "litroot_ok I st is lr" using 2(8) by (auto simp: litroot_ok_def)
  show ?case
  proof (cases "is_num_lit ?x")
    case False
    then show ?thesis using 2(1) [OF refl] 2(4-7) tail by simp
  next
    case True
    have i: "i < e_n st" using 2(5) by simp
    obtain r st1 where f: "uf_find st i = (r, st1)" by fastforce
    note fi = es_find_pure [OF 2(4) i f]
    have n: "es_inv idf (goodt fs d) st1" "\<forall>i\<in>set is. i < e_n st1" "distinct is" "es_sat I st1"
      and t1: "e_terms st1 = e_terms st" and n1: "e_n st1 = e_n st"
      using es_pureD [OF fi(1)] 2(5-7) by simp_all
    have ri: "eval I (e_terms st ! r) = eval I ?x" using fi(3) [OF 2(7)] .
    show ?thesis
    proof (cases "lr r")
      case None
      have "litroot_ok I st1 is (lr(r := Some i))"
        using tail i True 2(6) ri by (auto simp: litroot_ok_def t1 n1)
      then show ?thesis
        using 2(2) [OF refl _ refl f [symmetric] None n] True f None by (simp del: fun_upd_apply)
    next
      case (Some j)
      have j: "j < e_n st" "j \<noteq> i" "is_num_lit (e_terms st ! j)" "eval I (e_terms st ! j) = eval I ?x"
        using 2(8) Some ri by (auto simp: litroot_ok_def)
      have "goodt fs d (e_terms st ! j)" "goodt fs d ?x"
        using es_invD(4) [OF 2(4)] j i by (simp_all add: e_n_def)
      moreover have "e_terms st ! j \<noteq> ?x"
        using es_invD(1) [OF 2(4)] i j by (auto simp: euf_wf_def e_n_def nth_eq_iff_index_eq)
      ultimately have "\<not> lit_values_differ (e_terms st1 ! j) ?x"
        using lit_values_differ_ok [of fs d "e_terms st ! j" ?x I] j True t1 by simp
      moreover have "litroot_ok I st1 is lr" using tail by (simp add: litroot_ok_def t1 n1)
      ultimately show ?thesis
        using 2(3) [OF refl _ refl f [symmetric] Some _ n] True f Some by simp
    qed
  qed
qed

lemma es_check_literals:
  assumes inv: "es_inv idf (goodt fs d) st" and c: "check_literals st = (ok, st')"
  shows "es_step idf (goodt fs d) (\<lambda>I. True) st st' \<and> e_terms st' = e_terms st \<and> (\<not> ok \<longrightarrow> (\<forall>I. \<not> es_sat I st))"
proof -
  obtain b st1 where l: "literal_conflict st = (b, st1)" by fastforce
  have p: "es_pure idf (goodt fs d) st st1"
    using l inv by (intro es_lit_scan [OF inv]) (auto simp: literal_conflict_def)
  have "\<not> b" if "es_sat I st" for I
    using es_lit_scan_sat [OF inv _ _ that, of "[0..<e_n st]" "\<lambda>_. None"] l
    by (simp add: literal_conflict_def litroot_ok_def)
  moreover have "st' = (if b then st1\<lparr>e_unsat := True\<rparr> else st1)" "ok = (\<not> b)"
    using c l by (auto simp: check_literals_def split: if_splits)
  moreover have "es_step idf (goodt fs d) (\<lambda>I. True) st (st1\<lparr>e_unsat := True\<rparr>)"
    using p es_step_trans' [OF _ es_step_unsat [OF es_pureD(1) [OF p]]] by (simp add: es_pure_def)
  ultimately show ?thesis using p by (auto simp: es_pure_def)
qed

section \<open>The client operations\<close>

lemma es_equal:
  assumes inv: "es_inv idf (goodt fs d) st" and g: "goodt fs d x" "goodt fs d y" and e: "euf_equal idf st x y = (b, st')"
  shows "es_step idf (goodt fs d) (\<lambda>I. True) st st' \<and> (b \<longrightarrow> (\<forall>I. es_sat I st \<longrightarrow> eval I x = eval I y))"
proof -
  obtain i st1 where i: "euf_index idf x st = (i, st1)" by fastforce
  obtain j st2 where j: "euf_index idf y st1 = (j, st2)" by fastforce
  note ii = es_index' [OF inv g(1) i]
  note ij = es_index' [OF es_step_inv [OF ii(1)] g(2) j]
  have s2: "es_step idf (goodt fs d) (\<lambda>I. True) st st2" using es_step_trans' [OF ii(1) ij(1)] .
  show ?thesis
  proof (cases "i = None \<or> j = None")
    case True
    then have "b = False" "st' = st2" using e i j by (auto simp: euf_equal_def split: option.splits)
    then show ?thesis using s2 by simp
  next
    case False
    then obtain a b' where ab: "i = Some a" "j = Some b'" by auto
    obtain ra st3 where fa: "uf_find st2 a = (ra, st3)" by fastforce
    obtain rb st4 where fb: "uf_find st3 b' = (rb, st4)" by fastforce
    have a: "a < e_n st2" "e_terms st2 ! a = x"
      using ii(2) [OF ab(1)] es_step_n [OF ij(1)] es_step_nth [OF ij(1)] by auto
    note r = es_equal_roots [OF es_step_inv [OF s2] a(1) conjunct1 [OF ij(2) [OF ab(2)]] fa fb]
    have res: "b = (ra = rb)" "st' = st4" using e i j ab fa fb by (simp_all add: euf_equal_def)
    have "es_step idf (goodt fs d) (\<lambda>I. True) st st'"
      using es_step_trans' [OF s2] r(1) by (simp add: es_pure_def res)
    moreover have "eval I x = eval I y" if "b" "es_sat I st" for I
    proof -
      have "es_sat I st2" using s2 that(2) by (simp add: es_step_def)
      then show ?thesis using r(2) [of I] that(1) a ij(2) [OF ab(2)] by (simp add: res)
    qed
    ultimately show ?thesis by blast
  qed
qed

lemma es_index_union:
  assumes inv: "es_inv idf (goodt fs d) st" and g: "goodt fs d x" "goodt fs d y"
    and i: "euf_index idf x st = (i, st1)" and j: "euf_index idf y st1 = (j, st2)"
  shows "es_step idf (goodt fs d) (\<lambda>I. True) st st2"
    and "i = Some a \<Longrightarrow> j = Some b \<Longrightarrow> es_step idf (goodt fs d) (\<lambda>I. eval I x = eval I y) st (snd (uf_union st2 a b))"
proof -
  note ii = es_index' [OF inv g(1) i]
  note ij = es_index' [OF es_step_inv [OF ii(1)] g(2) j]
  show s2: "es_step idf (goodt fs d) (\<lambda>I. True) st st2" using es_step_trans' [OF ii(1) ij(1)] .
  assume ab: "i = Some a" "j = Some b"
  have a: "a < e_n st2" "e_terms st2 ! a = x"
    using ii(2) [OF ab(1)] es_step_n [OF ij(1)] es_step_nth [OF ij(1)] by auto
  obtain u st3 where u: "uf_union st2 a b = (u, st3)" by fastforce
  have "es_step idf (goodt fs d) (\<lambda>I. eval I x = eval I y) st2 st3"
    using es_union [OF es_step_inv [OF s2] a(1) conjunct1 [OF ij(2) [OF ab(2)]] u] a ij(2) [OF ab(2)]
    by (simp add: val_def)
  then show "es_step idf (goodt fs d) (\<lambda>I. eval I x = eval I y) st (snd (uf_union st2 a b))"
    using es_step_weaken [OF es_step_trans [OF s2]] u by simp
qed

lemma es_assert_eq:
  assumes inv: "es_inv idf (goodt fs d) st" and g: "goodt fs d x" "goodt fs d y" and e: "euf_assert_eq idf st x y = (ok, st')"
  shows "es_step idf (goodt fs d) (\<lambda>I. eval I x = eval I y) st st'
     \<and> (\<not> ok \<longrightarrow> (\<forall>I. es_sat I st \<longrightarrow> eval I x \<noteq> eval I y))"
proof -
  obtain i st1 where i: "euf_index idf x st = (i, st1)" by fastforce
  obtain j st2 where j: "euf_index idf y st1 = (j, st2)" by fastforce
  note iu = es_index_union [OF inv g i j]
  show ?thesis
  proof (cases "i = None \<or> j = None")
    case True
    then have "ok = True" "st' = st2" using e i j by (auto simp: euf_assert_eq_def split: option.splits)
    then show ?thesis using es_step_weaken [OF iu(1)] by simp
  next
    case False
    then obtain a b where ab: "i = Some a" "j = Some b" by auto
    define st3 where "st3 = snd (uf_union st2 a b)"
    have s3: "es_step idf (goodt fs d) (\<lambda>I. eval I x = eval I y) st st3" using iu(2) [OF ab] by (simp add: st3_def)
    have p4: "es_pure idf (goodt fs d) st3 (euf_close idf st3)" using es_close es_step_inv [OF s3] by blast
    have c: "check_literals (euf_close idf st3) = (ok, st')" using e i j ab by (simp add: euf_assert_eq_def st3_def)
    note cl = es_check_literals [OF es_pureD(1) [OF p4] c]
    have "es_step idf (goodt fs d) (\<lambda>I. (eval I x = eval I y \<and> True) \<and> True) st st'"
      using es_step_trans [OF es_step_trans [OF s3 conjunct1 [OF p4 [unfolded es_pure_def]]] conjunct1 [OF cl]] .
    moreover have "es_sat I st \<Longrightarrow> eval I x = eval I y \<Longrightarrow> es_sat I (euf_close idf st3)" for I
      using s3 es_pureD(4) [OF p4] by (simp add: es_step_def)
    ultimately show ?thesis using cl by auto
  qed
qed

section \<open>Asserting a cube\<close>

definition lit_good :: "(nat \<Rightarrow> vcsort) \<Rightarrow> vcsort \<times> vcsort \<Rightarrow> vcterm \<Rightarrow> bool" where
  "lit_good fs d l \<longleftrightarrow> lit_ok fs l \<and> all_nodes (s1_node d) l"

lemma lit_good_atom: "lit_good fs d l \<Longrightarrow> goodt fs d (refine_lit_atom l)"
  using lit_atom_ok by (auto simp: lit_good_def goodt_def)

lemma lit_good_eq:
  assumes "lit_good fs d l" and "t_op (refine_lit_atom l) = VC_EQ"
  shows "goodt fs d (kid (refine_lit_atom l) 0) \<and> goodt fs d (kid (refine_lit_atom l) 1)
    \<and> holds I (refine_lit_atom l) = (eval I (kid (refine_lit_atom l) 0) = eval I (kid (refine_lit_atom l) 1))"
proof -
  let ?a = "refine_lit_atom l"
  have g: "goodt fs d ?a" using lit_good_atom [OF assms(1)] .
  then have "length (t_kids ?a) = 2"
    using wf_term_node [of fs ?a] assms(2) by (simp add: goodt_def node_ok_def Let_def)
  then obtain x y where k: "t_kids ?a = [x, y]" by (auto simp: length_2_conv)
  have "holds I ?a = (eval I x = eval I y)"
    using k assms(2) by (cases ?a) (simp add: holds_def op_sem_def)
  then show ?thesis using goodt_kid [OF g] k by (simp add: kid_def)
qed

lemma es_pass1:
  assumes inv: "es_inv idf (goodt fs d) st" and l: "lit_good fs d lit"
  shows "es_step idf (goodt fs d) (\<lambda>I. holds I lit) st (euf_pass1 idf lit st)"
proof -
  let ?a = "refine_lit_atom lit"
  obtain r st0 where r: "euf_index idf ?a st = (r, st0)" by fastforce
  note i0 = es_index' [OF inv lit_good_atom [OF l] r]
  show ?thesis
  proof (cases "\<not> refine_lit_is_neg lit \<and> t_op ?a = VC_EQ")
    case False
    then have "euf_pass1 idf lit st = st0" using r by (auto simp: euf_pass1_def Let_def)
    then show ?thesis using es_step_weaken [OF i0(1)] by simp
  next
    case True
    note e = lit_good_eq [OF l conjunct2 [OF True]]
    obtain x st1 where x: "euf_index idf (kid ?a 0) st0 = (x, st1)" by fastforce
    obtain y st2 where y: "euf_index idf (kid ?a 1) st1 = (y, st2)" by fastforce
    note iu = es_index_union [OF es_step_inv [OF i0(1)] _ _ x y]
    have h: "holds I lit = (eval I (kid ?a 0) = eval I (kid ?a 1))" for I
      using holds_lit [of fs lit I] l True e by (simp add: lit_good_def)
    have s: "es_step idf (goodt fs d) (\<lambda>I. holds I lit) st0 (euf_pass1 idf lit st)"
    proof (cases "x = None \<or> y = None")
      case none: True
      then have "euf_pass1 idf lit st = st2" using r x y True by (auto simp: euf_pass1_def Let_def split: option.splits)
      then show ?thesis using es_step_weaken [OF iu(1)] e by simp
    next
      case False
      then obtain a b where ab: "x = Some a" "y = Some b" by auto
      then have "euf_pass1 idf lit st = snd (uf_union st2 a b)" using r x y True by (simp add: euf_pass1_def Let_def)
      then show ?thesis using es_step_weaken [OF iu(2) [OF _ _ ab]] e h by simp
    qed
    show ?thesis using es_step_weaken [OF es_step_trans [OF i0(1) s]] by simp
  qed
qed

lemma es_pass1_fold:
  assumes "es_inv idf (goodt fs d) st" and "\<forall>l\<in>set c. lit_good fs d l"
  shows "es_step idf (goodt fs d) (\<lambda>I. holds_all I c) st (fold (euf_pass1 idf) c st)"
  using assms
proof (induction c arbitrary: st)
  case Nil
  then show ?case by (simp add: es_step_refl)
next
  case (Cons l c)
  have s: "es_step idf (goodt fs d) (\<lambda>I. holds I l) st (euf_pass1 idf l st)" using Cons.prems by (intro es_pass1) auto
  have "es_step idf (goodt fs d) (\<lambda>I. holds_all I c) (euf_pass1 idf l st) (fold (euf_pass1 idf) c (euf_pass1 idf l st))"
    using Cons.prems es_step_inv [OF s] by (intro Cons.IH) auto
  from es_step_trans [OF s this] show ?case by simp
qed

lemma es_pairs:
  assumes "es_inv idf (goodt fs d) st" and "lit_good fs d l" and "\<forall>m\<in>set ls. lit_good fs d m"
    and "euf_pairs idf l ls st = (b, st')"
  shows "es_pure idf (goodt fs d) st st' \<and> (b \<longrightarrow> (\<forall>I. es_sat I st \<longrightarrow> holds I l \<longrightarrow> \<not> holds_all I ls))"
  using assms
proof (induction ls arbitrary: st)
  case Nil
  then show ?case by (simp add: es_pure_refl)
next
  case (Cons m ls)
  have h: "holds I l = (if refine_lit_is_neg l then \<not> holds I (refine_lit_atom l) else holds I (refine_lit_atom l))"
    "holds I m = (if refine_lit_is_neg m then \<not> holds I (refine_lit_atom m) else holds I (refine_lit_atom m))" for I
    using holds_lit [of fs l I] holds_lit [of fs m I] Cons.prems by (simp_all add: lit_good_def)
  consider (same) "refine_lit_is_neg l = refine_lit_is_neg m"
    | (eq) "refine_lit_is_neg l \<noteq> refine_lit_is_neg m" "refine_lit_atom l = refine_lit_atom m"
    | (diff) "refine_lit_is_neg l \<noteq> refine_lit_is_neg m" "refine_lit_atom l \<noteq> refine_lit_atom m" by blast
  then show ?case
  proof cases
    case same
    then show ?thesis using Cons.IH [OF Cons.prems(1,2)] Cons.prems(3,4) by auto
  next
    case eq
    then have "b" "st' = st" using Cons.prems(4) by simp_all
    then show ?thesis using eq h es_pure_refl [OF Cons.prems(1)] by auto
  next
    case diff
    obtain c st1 where c: "congruent idf st (refine_lit_atom l) (refine_lit_atom m) = (c, st1)" by fastforce
    have g: "goodt fs d (refine_lit_atom l)" "goodt fs d (refine_lit_atom m)"
      using Cons.prems lit_good_atom by auto
    note cg = es_congruent [OF Cons.prems(1) c g]
    show ?thesis
    proof (cases c)
      case True
      then have "b" "st' = st1" using Cons.prems(4) diff c by simp_all
      then show ?thesis using cg True diff h by (auto simp: holds_def)
    next
      case False
      then have e: "euf_pairs idf l ls st1 = (b, st')" using Cons.prems(4) diff c by simp
      have p: "es_pure idf (goodt fs d) st st1" using cg by simp
      have "es_pure idf (goodt fs d) st1 st' \<and> (b \<longrightarrow> (\<forall>I. es_sat I st1 \<longrightarrow> holds I l \<longrightarrow> \<not> holds_all I ls))"
        using Cons.IH [OF es_pureD(1) [OF p] Cons.prems(2) _ e] Cons.prems(3) by simp
      then show ?thesis using es_pure_trans [OF p] es_pureD(4) [OF p] by auto
    qed
  qed
qed

lemma es_pass2:
  assumes "es_inv idf (goodt fs d) st" and "\<forall>l\<in>set c. lit_good fs d l" and "euf_pass2 idf c st = (ok, st')"
  shows "es_step idf (goodt fs d) (\<lambda>I. True) st st' \<and> (\<not> ok \<longrightarrow> (\<forall>I. es_sat I st \<longrightarrow> \<not> holds_all I c))"
  using assms
proof (induction c arbitrary: st)
  case Nil
  then show ?case by (simp add: es_step_refl)
next
  case (Cons l ls)
  let ?a = "refine_lit_atom l"
  have l: "lit_good fs d l" using Cons.prems by simp
  define q where "q = (if refine_lit_is_neg l \<and> t_op ?a = VC_EQ then euf_equal idf st (kid ?a 0) (kid ?a 1) else (False, st))"
  obtain e st1 where q: "q = (e, st1)" by (cases q)
  have s1: "es_step idf (goodt fs d) (\<lambda>I. True) st st1 \<and> (e \<longrightarrow> (\<forall>I. es_sat I st \<longrightarrow> \<not> holds I l))"
  proof (cases "refine_lit_is_neg l \<and> t_op ?a = VC_EQ")
    case False
    then show ?thesis using q es_step_refl [OF Cons.prems(1)] by (auto simp: q_def)
  next
    case True
    note g = lit_good_eq [OF l conjunct2 [OF True]]
    have "euf_equal idf st (kid ?a 0) (kid ?a 1) = (e, st1)" using q True by (simp add: q_def)
    note eq = es_equal [OF Cons.prems(1) conjunct1 [OF g] conjunct1 [OF conjunct2 [OF g]] this]
    have "holds I l = (eval I (kid ?a 0) \<noteq> eval I (kid ?a 1))" for I
      using holds_lit [of fs l I] g [of I] l True by (simp add: lit_good_def)
    then show ?thesis using eq by blast
  qed
  have i1: "es_inv idf (goodt fs d) st1" using es_step_inv s1 by blast
  have sat1: "es_sat I st \<Longrightarrow> es_sat I st1" for I using s1 by (simp add: es_step_def)
  show ?case
  proof (cases e)
    case True
    then have "ok = False" "st' = st1\<lparr>e_unsat := True\<rparr>" using Cons.prems(3) q by (simp_all add: q_def [symmetric] Let_def)
    then show ?thesis using s1 True es_step_trans' [OF _ es_step_unsat [OF i1]] by auto
  next
    case False
    obtain b st2 where b: "euf_pairs idf l ls st1 = (b, st2)" by fastforce
    have p: "es_pure idf (goodt fs d) st1 st2 \<and> (b \<longrightarrow> (\<forall>I. es_sat I st1 \<longrightarrow> holds I l \<longrightarrow> \<not> holds_all I ls))"
      using es_pairs [OF i1 l _ b] Cons.prems(2) by simp
    have s2: "es_step idf (goodt fs d) (\<lambda>I. True) st st2"
      using s1 p es_step_trans' by (auto simp: es_pure_def)
    have i2: "es_inv idf (goodt fs d) st2" using es_step_inv [OF s2] .
    show ?thesis
    proof (cases b)
      case True
      then have "ok = False" "st' = st2\<lparr>e_unsat := True\<rparr>" using Cons.prems(3) q b False by (simp_all add: q_def [symmetric] Let_def)
      then show ?thesis using p True sat1 es_step_trans' [OF s2 es_step_unsat [OF i2]] by auto
    next
      case nb: False
      then have r: "euf_pass2 idf ls st2 = (ok, st')" using Cons.prems(3) q b False by (simp add: q_def [symmetric] Let_def)
      have "es_step idf (goodt fs d) (\<lambda>I. True) st2 st' \<and> (\<not> ok \<longrightarrow> (\<forall>I. es_sat I st2 \<longrightarrow> \<not> holds_all I ls))"
        using Cons.IH [OF i2 _ r] Cons.prems(2) by simp
      moreover have "es_sat I st \<Longrightarrow> es_sat I st2" for I using s2 by (simp add: es_step_def)
      ultimately show ?thesis using es_step_trans' [OF s2] by auto
    qed
  qed
qed

lemma es_assert_cube:
  assumes inv: "es_inv idf (goodt fs d) st" and c: "\<forall>l\<in>set c. lit_good fs d l" and a: "euf_assert_cube idf st c = (ok, st')"
  shows "es_step idf (goodt fs d) (\<lambda>I. holds_all I c) st st' \<and> (\<not> ok \<longrightarrow> (\<forall>I. es_sat I st \<longrightarrow> \<not> holds_all I c))"
proof -
  define st1 where "st1 = fold (euf_pass1 idf) c st"
  have s1: "es_step idf (goodt fs d) (\<lambda>I. holds_all I c) st st1" using es_pass1_fold [OF inv c] by (simp add: st1_def)
  have p: "es_pure idf (goodt fs d) st1 (euf_close idf st1)" using es_close es_step_inv [OF s1] by blast
  obtain b st2 where b: "check_literals (euf_close idf st1) = (b, st2)" by fastforce
  note cl = es_check_literals [OF es_pureD(1) [OF p] b]
  have s2: "es_step idf (goodt fs d) (\<lambda>I. holds_all I c) st st2"
    using es_step_weaken [OF es_step_trans [OF es_step_trans [OF s1 conjunct1 [OF p [unfolded es_pure_def]]] conjunct1 [OF cl]]] by simp
  have sat: "es_sat I st \<Longrightarrow> holds_all I c \<Longrightarrow> es_sat I (euf_close idf st1)" for I
    using s1 es_pureD(4) [OF p] by (simp add: es_step_def)
  show ?thesis
  proof (cases b)
    case False
    then have "ok = False" "st' = st2" using a b by (simp_all add: euf_assert_cube_def st1_def [symmetric])
    then show ?thesis using s2 cl False sat by blast
  next
    case True
    then have r: "euf_pass2 idf c st2 = (ok, st')" using a b by (simp add: euf_assert_cube_def st1_def [symmetric])
    note p2 = es_pass2 [OF es_step_inv [OF s2] c r]
    have "es_sat I st \<Longrightarrow> holds_all I c \<Longrightarrow> es_sat I st2" for I using s2 by (simp add: es_step_def)
    then show ?thesis
      using p2 es_step_weaken [OF es_step_trans [OF s2 conjunct1 [OF p2]]] by auto
  qed
qed

section \<open>The stage\<close>

lemma conn_free_s1_node: "conn_free (s1_node d)"
  by (auto simp: conn_free_def s1_node_def op_uniform_def lit_canon_def)

text \<open>Between two cubes the shared state is empty again: marks are taken on the empty state.\<close>

definition euf_empty :: "(vcterm \<Rightarrow> u32) \<Rightarrow> eufstate \<Rightarrow> bool" where
  "euf_empty idf st \<longleftrightarrow> euf_wf idf st \<and> e_terms st = []"

lemma euf_empty_new [simp]: "euf_empty idf euf_new"
  by (simp add: euf_empty_def) (simp add: euf_new_def)

lemma euf_empty_mark:
  assumes "euf_empty idf st" and "euf_mark st = (m, st1)"
  shows "es_inv idf G st1" and "es_sat I st1"
proof -
  obtain tm t where tm: "trailc_mark (e_trail st) = (tm, t)" by fastforce
  have st1: "st1 = st\<lparr>e_trail := t\<rparr>" using assms(2) tm by (auto simp: euf_mark_def)
  have "tr_level (e_trail st) \<le> tr_level t" using tm by (auto simp: trailc_mark_def Let_def)
  then have wf: "euf_wf idf st1" using assms(1) euf_trail_wf by (simp add: st1 euf_empty_def)
  have p: "e_parent st1 = []" using euf_wfD(3) [of idf st] assms(1) by (simp add: euf_empty_def st1 e_n_def)
  show "es_inv idf G st1"
    using wf p assms(1) by (simp add: es_inv_def uf_ok_def uf_rel_def acyclic_def st1 euf_empty_def)
  show "es_sat I st1" by (simp add: es_sat_def uf_same_def p)
qed

lemma euf_empty_undo:
  assumes "euf_empty idf st" and "euf_mark st = (m, st1)" and "euf_reach idf st1 st2"
  shows "euf_empty idf (euf_undo_to st2 m)"
  using euf_undo_exact(1,5) [of idf st m st1 st2] assms by (simp add: euf_empty_def)

lemma es_new: "es_inv idf G euf_new" "es_sat I euf_new"
  by (simp_all add: es_inv_def uf_ok_def uf_rel_def acyclic_def es_sat_def uf_same_def)
    (simp_all add: euf_new_def)

definition s1_inv :: "(vcterm \<Rightarrow> u32) \<Rightarrow> eufstate option \<Rightarrow> bool" where
  "s1_inv idf inc \<longleftrightarrow> (case inc of None \<Rightarrow> True | Some st \<Rightarrow> euf_empty idf st)"

lemma s1_refute_ok:
  assumes inv: "s1_inv idf inc" and c: "\<forall>l\<in>set c. lit_good (ufunc_sort vc) d l"
    and r: "s1_refute idf vc inc c = (b, inc')"
  shows "s1_inv idf inc' \<and> (b \<longrightarrow> \<not> holds_all I c)"
proof (cases inc)
  case None
  obtain ok st where a: "euf_assert_cube idf euf_new c = (ok, st)" by fastforce
  show ?thesis
    using es_assert_cube [OF es_new(1) c a] es_new(2) [of I] None r a by (auto simp: s1_refute_def s1_inv_def)
next
  case (Some st)
  then have e: "euf_empty idf st" using inv by (simp add: s1_inv_def)
  obtain m st1 where m: "euf_mark st = (m, st1)" by fastforce
  obtain ok st2 where a: "euf_assert_cube idf st1 c = (ok, st2)" by fastforce
  note s = es_assert_cube [OF euf_empty_mark(1) [OF e m] c a]
  have "euf_empty idf (euf_undo_to st2 m)"
    using s by (intro euf_empty_undo [OF e m]) (simp add: es_step_def)
  then show ?thesis
    using s euf_empty_mark(2) [OF e m, of I] Some r m a by (auto simp: s1_refute_def s1_inv_def)
qed

interpretation s1: cube_refuter "\<lambda>vc. s1_node (op_sorts vc)" "s1_init incremental" "s1_refute idf" "\<lambda>vc. s1_inv idf"
  for incremental idf
proof
  fix vc
  show "conn_free (s1_node (op_sorts vc))" by (rule conn_free_s1_node)
  show "s1_inv idf (s1_init incremental vc)" by (simp add: s1_inv_def s1_init_def)
next
  fix vc st c r st' I
  assume "s1_inv idf st" "\<forall>l\<in>set c. lit_ok (ufunc_sort vc) l" "\<forall>l\<in>set c. all_nodes (s1_node (op_sorts vc)) l"
    "s1_refute idf vc st c = (r, st')"
  then show "s1_inv idf st' \<and> (r \<longrightarrow> \<not> holds_all I c)"
    by (intro s1_refute_ok [where d = "op_sorts vc" and vc = vc]) (auto simp: lit_good_def)
qed

end
