(* ===== verification/NelsonOppen.thy ===== *)
theory NelsonOppen
  imports EufRefute
begin

text \<open>
  Stage S3 (\<open>src/compiler/refine_solver_no.c\<close>): one congruence closure and one linear state per
  cube exchange the equalities each entails over the shared terms. Soundness: both states keep
  every model of the cube, so an equality one entails may be asserted in the other.
\<close>

definition NO_MAX_ROUNDS :: nat where "NO_MAX_ROUNDS = 4"
definition NO_MAX_SHARED :: nat where "NO_MAX_SHARED = 16"

definition collect_shared :: "eufstate \<Rightarrow> nat \<Rightarrow> vcterm list" where
  "collect_shared euf cap = take cap (euf_shared_at euf)"

text \<open>The pairs \<open>i < j\<close> in the order of the nested loops.\<close>

fun pairs :: "'a list \<Rightarrow> ('a \<times> 'a) list" where
  "pairs [] = []"
| "pairs (x # xs) = map (\<lambda>y. (x, y)) xs @ pairs xs"

text \<open>From the closure to the arithmetic, one pair; the flag records progress.\<close>

definition no_euf_to_la ::
  "(vcterm \<Rightarrow> u32) \<Rightarrow> vcterm \<times> vcterm \<Rightarrow> bool \<times> eufstate \<times> lastate \<Rightarrow> bool \<times> eufstate \<times> lastate" where
  "no_euf_to_la idf xy a =
     (let (progress, euf, la) = a; (x, y) = xy; (e, euf1) = euf_equal idf euf x y
      in if \<not> e then (progress, euf1, la)
         else let (known, la1) = la_entails_eq la x y
              in if known then (progress, euf1, la1) else (True, euf1, snd (la_assert_eq la1 x y)))"

text \<open>From the arithmetic to the closure: the first component says that a conflict was found.\<close>

fun no_la_to_euf ::
  "(vcterm \<Rightarrow> u32) \<Rightarrow> (vcterm \<times> vcterm) list \<Rightarrow> bool \<Rightarrow> eufstate \<Rightarrow> lastate \<Rightarrow> bool \<times> bool \<times> eufstate \<times> lastate" where
  "no_la_to_euf idf [] progress euf la = (False, progress, euf, la)"
| "no_la_to_euf idf ((x, y) # ps) progress euf la =
     (let (e, euf1) = euf_equal idf euf x y
      in if e then no_la_to_euf idf ps progress euf1 la
         else let (ent, la1) = la_entails_eq la x y
              in if \<not> ent then no_la_to_euf idf ps progress euf1 la1
                 else let (ok, euf2) = euf_assert_eq idf euf1 x y
                      in if \<not> ok then (True, True, euf2, la1) else no_la_to_euf idf ps True euf2 la1)"

fun no_recheck :: "(vcterm \<Rightarrow> u32) \<Rightarrow> cube \<Rightarrow> eufstate \<Rightarrow> bool \<times> eufstate" where
  "no_recheck idf [] euf = (False, euf)"
| "no_recheck idf (lit # ls) euf =
     (let atm = refine_lit_atom lit
      in if refine_lit_is_neg lit \<and> t_op atm = VC_EQ then
           let (e, euf1) = euf_equal idf euf (kid atm 0) (kid atm 1)
           in if e then (True, euf1) else no_recheck idf ls euf1
         else no_recheck idf ls euf)"

fun no_rounds :: "nat \<Rightarrow> (vcterm \<Rightarrow> u32) \<Rightarrow> cube \<Rightarrow> vcterm list \<Rightarrow> eufstate \<Rightarrow> lastate \<Rightarrow> bool \<times> eufstate" where
  "no_rounds 0 idf c shared euf la = (False, euf)"
| "no_rounds (Suc k) idf c shared euf la =
     (let (p1, euf1, la1) = fold (no_euf_to_la idf) (pairs shared) (False, euf, la)
      in if la_unsat la1 then (True, euf1)
         else let (conflict, p2, euf2, la2) = no_la_to_euf idf (pairs shared) p1 euf1 la1
              in if conflict then (True, euf2)
                 else let (r, euf3) = no_recheck idf c euf2
                      in if r then (True, euf3)
                         else if \<not> p2 then (False, euf3) else no_rounds k idf c shared euf3 la2)"

definition no_cube_unsat :: "(vcterm \<Rightarrow> u32) \<Rightarrow> eufstate \<Rightarrow> cube \<Rightarrow> bool \<times> eufstate" where
  "no_cube_unsat idf euf c =
     (let (ok, euf1) = euf_assert_cube idf euf c
      in if \<not> ok then (True, euf1)
         else let la = snd (la_assert_cube la_new c)
              in if la_unsat la then (True, euf1)
                 else let shared = collect_shared euf1 NO_MAX_SHARED
                      in if length shared < 2 then (False, euf1)
                         else no_rounds NO_MAX_ROUNDS idf c shared euf1 la)"

definition s3_refute :: "(vcterm \<Rightarrow> u32) \<Rightarrow> refinevc \<Rightarrow> eufstate option \<Rightarrow> cube \<Rightarrow> bool \<times> eufstate option" where
  "s3_refute idf vc inc c =
     (case inc of
        Some st \<Rightarrow>
          (let (m, st1) = euf_mark st; (refuted, st2) = no_cube_unsat idf st1 c
           in (refuted, Some (euf_undo_to st2 m)))
      | None \<Rightarrow> (fst (no_cube_unsat idf euf_new c), None))"

definition refine_s3_decide_cc :: "(vcterm \<Rightarrow> u32) \<Rightarrow> bool \<Rightarrow> stage" where
  "refine_s3_decide_cc idf incremental = decide_by_cubes (s1_init incremental) (s3_refute idf)"

section \<open>Soundness\<close>

text \<open>The two states of a cube under one interpretation.\<close>

definition no_ok :: "(vcterm \<Rightarrow> u32) \<Rightarrow> (nat \<Rightarrow> vcsort) \<Rightarrow> vcsort \<times> vcsort \<Rightarrow> eufstate \<Rightarrow> lastate \<Rightarrow> bool" where
  "no_ok idf fs d euf la \<longleftrightarrow> es_inv idf (goodt fs d) euf \<and> la_ok fs la"

definition no_sat :: "interp \<Rightarrow> eufstate \<Rightarrow> lastate \<Rightarrow> bool" where
  "no_sat I euf la \<longleftrightarrow> es_sat I euf \<and> la_sat I la"

text \<open>A step of the exchange: the closure moves by its own operations, no model is lost.\<close>

definition no_step ::
  "(vcterm \<Rightarrow> u32) \<Rightarrow> (nat \<Rightarrow> vcsort) \<Rightarrow> vcsort \<times> vcsort \<Rightarrow> eufstate \<Rightarrow> lastate \<Rightarrow> eufstate \<Rightarrow> lastate \<Rightarrow> bool" where
  "no_step idf fs d euf la euf' la' \<longleftrightarrow> no_ok idf fs d euf' la' \<and> euf_reach idf euf euf'
     \<and> (\<forall>I. no_sat I euf la \<longrightarrow> no_sat I euf' la')"

lemma no_step_refl: "no_ok idf fs d euf la \<Longrightarrow> no_step idf fs d euf la euf la"
  by (simp add: no_step_def reach_refl)

lemma no_step_trans:
  "no_step idf fs d euf la euf1 la1 \<Longrightarrow> no_step idf fs d euf1 la1 euf2 la2 \<Longrightarrow> no_step idf fs d euf la euf2 la2"
  by (auto simp: no_step_def intro: euf_reach_trans)

lemma no_step_ok: "no_step idf fs d euf la euf' la' \<Longrightarrow> no_ok idf fs d euf' la'"
  by (simp add: no_step_def)

text \<open>What the exchange needs of a shared term.\<close>

definition no_shared :: "(nat \<Rightarrow> vcsort) \<Rightarrow> vcsort \<times> vcsort \<Rightarrow> vcterm \<Rightarrow> bool" where
  "no_shared fs d t \<longleftrightarrow> goodt fs d t \<and> la_is_shared_term t"

lemma no_sharedD: "no_shared fs d t \<Longrightarrow> goodt fs d t \<and> wf_term fs t \<and> lin_exact t"
  by (simp add: no_shared_def goodt_def lin_exact_def)

lemma no_equal:
  assumes ok: "no_ok idf fs d euf la" and g: "goodt fs d x" "goodt fs d y" and e: "euf_equal idf euf x y = (b, euf')"
  shows "no_step idf fs d euf la euf' la" and "b \<Longrightarrow> no_sat I euf la \<Longrightarrow> eval I x = eval I y"
  using es_equal [OF _ g e] ok by (auto simp: no_ok_def no_step_def no_sat_def es_step_def)

lemma no_entails:
  assumes ok: "no_ok idf fs d euf la" and g: "no_shared fs d x" "no_shared fs d y" and e: "la_entails_eq la x y = (b, la')"
  shows "no_step idf fs d euf la euf la'" and "b \<Longrightarrow> no_sat I euf la \<Longrightarrow> eval I x = eval I y"
  using la_entails_eq_ok [of fs x y la b la'] no_sharedD [OF g(1)] no_sharedD [OF g(2)] ok e
  by (auto simp: no_ok_def no_step_def no_sat_def reach_refl)

lemma no_euf_to_la_ok:
  assumes ok: "no_ok idf fs d euf la" and g: "no_shared fs d x" "no_shared fs d y"
    and r: "no_euf_to_la idf (x, y) (p, euf, la) = (p', euf', la')"
  shows "no_step idf fs d euf la euf' la'"
proof -
  obtain e euf1 where e: "euf_equal idf euf x y = (e, euf1)" by fastforce
  note eq = no_equal [OF ok _ _ e] and gx = no_sharedD [OF g(1)] and gy = no_sharedD [OF g(2)]
  have s1: "no_step idf fs d euf la euf1 la" using eq(1) gx gy by blast
  show ?thesis
  proof (cases e)
    case False
    then show ?thesis using r e s1 by (simp add: no_euf_to_la_def)
  next
    case True
    obtain k la1 where k: "la_entails_eq la x y = (k, la1)" by fastforce
    have s2: "no_step idf fs d euf la euf1 la1"
      using no_step_trans [OF s1 no_entails(1) [OF no_step_ok [OF s1] g k]] .
    show ?thesis
    proof (cases k)
      case True
      then show ?thesis using r e k \<open>e\<close> s2 by (simp add: no_euf_to_la_def)
    next
      case False
      then have la': "la' = snd (la_assert_eq la1 x y)" "euf' = euf1" using r e k \<open>e\<close> by (simp_all add: no_euf_to_la_def)
      have "la_step fs (\<lambda>I. eval I x = eval I y) la1 la'"
        using la_assert_eq_ok [of fs x y la1] gx gy no_step_ok [OF s2] by (simp add: la' no_ok_def)
      then show ?thesis
        using s2 eq(2) gx gy True la' by (auto simp: no_step_def no_ok_def no_sat_def la_step_def)
    qed
  qed
qed

lemma no_euf_to_la_fold:
  assumes "no_ok idf fs d euf la" and "\<forall>(x, y)\<in>set ps. no_shared fs d x \<and> no_shared fs d y"
    and "fold (no_euf_to_la idf) ps (p, euf, la) = (p', euf', la')"
  shows "no_step idf fs d euf la euf' la'"
  using assms
proof (induction ps arbitrary: p euf la)
  case Nil
  then show ?case by (simp add: no_step_refl)
next
  case (Cons q ps)
  obtain x y where q: "q = (x, y)" by (cases q)
  obtain p1 euf1 la1 where f: "no_euf_to_la idf (x, y) (p, euf, la) = (p1, euf1, la1)" by (metis prod_cases3)
  have s: "no_step idf fs d euf la euf1 la1" using Cons.prems q by (intro no_euf_to_la_ok [OF _ _ _ f]) auto
  have "no_step idf fs d euf1 la1 euf' la'"
    using Cons.prems q f no_step_ok [OF s] by (intro Cons.IH) auto
  then show ?case using no_step_trans [OF s] by blast
qed

lemma no_la_to_euf_ok:
  assumes "no_ok idf fs d euf la" and "\<forall>(x, y)\<in>set ps. no_shared fs d x \<and> no_shared fs d y"
    and "no_la_to_euf idf ps p euf la = (b, p', euf', la')"
  shows "euf_reach idf euf euf' \<and> es_inv idf (goodt fs d) euf'" and "\<not> b \<Longrightarrow> no_step idf fs d euf la euf' la'"
    and "b \<Longrightarrow> \<not> no_sat I euf la"
proof -
  have "(b \<longrightarrow> euf_reach idf euf euf' \<and> (\<forall>I. \<not> no_sat I euf la)) \<and> (\<not> b \<longrightarrow> no_step idf fs d euf la euf' la')
      \<and> es_inv idf (goodt fs d) euf'"
    using assms
  proof (induction idf ps p euf la rule: no_la_to_euf.induct)
    case (1 idf p euf la)
    then show ?case by (simp add: no_step_refl no_ok_def)
  next
    case (2 idf x y ps p euf la)
    have g: "no_shared fs d x" "no_shared fs d y" using 2(5) by auto
    obtain e euf1 where e: "euf_equal idf euf x y = (e, euf1)" by fastforce
    note eq = no_equal [OF 2(4) _ _ e] and gx = no_sharedD [OF g(1)] and gy = no_sharedD [OF g(2)]
    have s1: "no_step idf fs d euf la euf1 la" using eq(1) gx gy by blast
    have lift: "(b \<longrightarrow> euf_reach idf euf euf' \<and> (\<forall>I. \<not> no_sat I euf la)) \<and> (\<not> b \<longrightarrow> no_step idf fs d euf la euf' la')
        \<and> es_inv idf (goodt fs d) euf'"
      if "no_step idf fs d euf la euf2 la2" "(b \<longrightarrow> euf_reach idf euf2 euf' \<and> (\<forall>I. \<not> no_sat I euf2 la2))
        \<and> (\<not> b \<longrightarrow> no_step idf fs d euf2 la2 euf' la') \<and> es_inv idf (goodt fs d) euf'" for euf2 la2
      using that no_step_trans [OF that(1)] euf_reach_trans unfolding no_step_def by blast
    show ?case
    proof (cases e)
      case True
      then show ?thesis
        using lift [OF s1] 2(1) [OF refl e [symmetric] True no_step_ok [OF s1]] 2(5,6) e by simp
    next
      case ne: False
      obtain n la1 where n: "la_entails_eq la x y = (n, la1)" by fastforce
      note en = no_entails [OF no_step_ok [OF s1] g n]
      have s2: "no_step idf fs d euf la euf1 la1" using no_step_trans [OF s1 en(1)] .
      show ?thesis
      proof (cases n)
        case False
        then show ?thesis
          using lift [OF s2] 2(2) [OF refl e [symmetric] ne refl n [symmetric] False no_step_ok [OF s2]] 2(5,6) e n ne by simp
      next
        case True
        obtain ok euf2 where a: "euf_assert_eq idf euf1 x y = (ok, euf2)" by fastforce
        have i1: "es_inv idf (goodt fs d) euf1" "la_ok fs la1" using no_step_ok [OF s2] by (simp_all add: no_ok_def)
        note as = es_assert_eq [OF i1(1) conjunct1 [OF gx] conjunct1 [OF gy] a]
        have xy: "no_sat I euf la \<Longrightarrow> eval I x = eval I y" for I
          using en(2) [OF True] s1 by (auto simp: no_step_def)
        have s3: "no_step idf fs d euf la euf2 la1" 
          using s2 as xy i1(2) euf_reach_trans by (auto simp: no_step_def no_ok_def no_sat_def es_step_def)
        show ?thesis
        proof (cases ok)
          case False
          then have "b" "euf' = euf2" using 2(6) e n a True ne by simp_all
          moreover have "\<not> no_sat I euf la" for I
            using as False xy [of I] s2 by (auto simp: no_step_def no_sat_def)
          ultimately show ?thesis using s3 by (simp add: no_step_def no_ok_def)
        next
          case o: True
          then show ?thesis
            using lift [OF s3] 2(3) [OF refl e [symmetric] ne refl n [symmetric] _ refl a [symmetric] _ no_step_ok [OF s3]] 2(5,6) e n a True ne
            by simp
        qed
      qed
    qed
  qed
  then show "euf_reach idf euf euf' \<and> es_inv idf (goodt fs d) euf'" "\<not> b \<Longrightarrow> no_step idf fs d euf la euf' la'"
    "b \<Longrightarrow> \<not> no_sat I euf la"
    by (auto simp: no_step_def)
qed

lemma no_recheck_ok:
  assumes "no_ok idf fs d euf la" and "\<forall>l\<in>set c. lit_good fs d l" and "no_recheck idf c euf = (b, euf')"
  shows "no_step idf fs d euf la euf' la \<and> (b \<longrightarrow> (\<forall>I. no_sat I euf la \<longrightarrow> \<not> holds_all I c))"
  using assms
proof (induction c arbitrary: euf)
  case Nil
  then show ?case by (simp add: no_step_refl)
next
  case (Cons l ls)
  let ?a = "refine_lit_atom l"
  show ?case
  proof (cases "refine_lit_is_neg l \<and> t_op ?a = VC_EQ")
    case False
    then have "no_recheck idf ls euf = (b, euf')" using Cons.prems(3) by (auto simp: Let_def)
    then show ?thesis using Cons.IH [OF Cons.prems(1)] Cons.prems(2) by auto
  next
    case True
    have l: "lit_good fs d l" using Cons.prems(2) by simp
    note g = lit_good_eq [OF l conjunct2 [OF True]]
    obtain e euf1 where e: "euf_equal idf euf (kid ?a 0) (kid ?a 1) = (e, euf1)" by fastforce
    note eq = no_equal [OF Cons.prems(1) conjunct1 [OF g] conjunct1 [OF conjunct2 [OF g]] e]
    have h: "holds I l = (eval I (kid ?a 0) \<noteq> eval I (kid ?a 1))" for I
      using holds_lit [of fs l I] g [of I] l True by (simp add: lit_good_def)
    show ?thesis
    proof (cases e)
      case True
      then have "b" "euf' = euf1" using Cons.prems(3) \<open>refine_lit_is_neg l \<and> t_op ?a = VC_EQ\<close> e by (simp_all add: Let_def)
      then show ?thesis using eq True h by simp
    next
      case False
      then have r: "no_recheck idf ls euf1 = (b, euf')" using Cons.prems(3) True e by (simp add: Let_def)
      have "no_step idf fs d euf1 la euf' la \<and> (b \<longrightarrow> (\<forall>I. no_sat I euf1 la \<longrightarrow> \<not> holds_all I ls))"
        using Cons.IH [OF no_step_ok [OF eq(1)] _ r] Cons.prems(2) by simp
      moreover have "no_sat I euf la \<Longrightarrow> no_sat I euf1 la" for I using eq(1) by (simp add: no_step_def)
      ultimately show ?thesis using no_step_trans [OF eq(1)] by auto
    qed
  qed
qed

lemma no_rounds_ok:
  assumes "no_ok idf fs d euf la" and "\<forall>l\<in>set c. lit_good fs d l" and "\<forall>x\<in>set shared. no_shared fs d x"
    and "no_rounds k idf c shared euf la = (b, euf')"
  shows "euf_reach idf euf euf' \<and> (b \<longrightarrow> (\<forall>I. no_sat I euf la \<longrightarrow> \<not> holds_all I c))"
  using assms
proof (induction k idf c shared euf la rule: no_rounds.induct)
  case (1 idf c shared euf la)
  then show ?case by (simp add: reach_refl)
next
  case (2 k idf c shared euf la)
  have "set (pairs xs) \<subseteq> set xs \<times> set xs" for xs :: "vcterm list" by (induction xs) auto
  then have ps: "\<forall>(x, y)\<in>set (pairs shared). no_shared fs d x \<and> no_shared fs d y" using 2(4) by blast
  obtain p1 euf1 la1 where f: "fold (no_euf_to_la idf) (pairs shared) (False, euf, la) = (p1, euf1, la1)" by (metis prod_cases3)
  have s1: "no_step idf fs d euf la euf1 la1" using no_euf_to_la_fold [OF 2(2) ps f] .
  have sat1: "no_sat I euf la \<Longrightarrow> no_sat I euf1 la1" for I using s1 by (simp add: no_step_def)
  show ?case
  proof (cases "la_unsat la1")
    case True
    then have "b" "euf' = euf1" using 2(5) f by simp_all
    moreover have "\<not> no_sat I euf la" for I
      using la_unsat_sound [of fs la1 I] sat1 [of I] True no_step_ok [OF s1] by (auto simp: no_ok_def no_sat_def)
    ultimately show ?thesis using s1 by (simp add: no_step_def)
  next
    case nu: False
    obtain cf p2 euf2 la2 where g: "no_la_to_euf idf (pairs shared) p1 euf1 la1 = (cf, p2, euf2, la2)" by (metis prod_cases4)
    note lt = no_la_to_euf_ok [OF no_step_ok [OF s1] ps g]
    show ?thesis
    proof (cases cf)
      case True
      then have "b" "euf' = euf2" using 2(5) f g nu by simp_all
      moreover have "euf_reach idf euf euf2" using lt(1) s1 euf_reach_trans by (auto simp: no_step_def)
      ultimately show ?thesis using lt(3) [OF True] sat1 by blast
    next
      case nc: False
      have s2: "no_step idf fs d euf la euf2 la2" using no_step_trans [OF s1 lt(2) [OF nc]] .
      obtain r euf3 where r: "no_recheck idf c euf2 = (r, euf3)" by fastforce
      note rc = no_recheck_ok [OF no_step_ok [OF s2] 2(3) r]
      have s3: "no_step idf fs d euf la euf3 la2" using no_step_trans [OF s2] rc by blast
      have sat2: "no_sat I euf la \<Longrightarrow> no_sat I euf2 la2" for I using s2 by (simp add: no_step_def)
      show ?thesis
      proof (cases "r \<or> \<not> p2")
        case True
        then have "b = r" "euf' = euf3" using 2(5) f g nu nc r by (auto split: if_splits)
        then show ?thesis using rc sat2 s3 by (auto simp: no_step_def)
      next
        case False
        then have e: "no_rounds k idf c shared euf3 la2 = (b, euf')" using 2(5) f g nu nc r by simp
        have "euf_reach idf euf3 euf' \<and> (b \<longrightarrow> (\<forall>I. no_sat I euf3 la2 \<longrightarrow> \<not> holds_all I c))"
          using 2(1) [OF f [symmetric] refl refl nu g [symmetric] refl refl refl nc r [symmetric] refl _ _ no_step_ok [OF s3] 2(3,4) e] False
          by simp
        then show ?thesis using s3 euf_reach_trans by (auto simp: no_step_def)
      qed
    qed
  qed
qed

lemma collect_shared_ok:
  assumes "es_inv idf (goodt fs d) st"
  shows "\<forall>x\<in>set (collect_shared st cap). no_shared fs d x"
proof
  fix x
  assume "x \<in> set (collect_shared st cap)"
  then have "x \<in> set (euf_shared_at st)" by (auto simp: collect_shared_def dest: in_set_takeD)
  then obtain i where i: "x = e_terms st ! i" "i < length (e_terms st)" "euf_eligible (e_terms st ! i)"
    using euf_wfD(7) [OF es_invD(1) [OF assms]] by (auto simp: euf_shared_at_def shared_idx_def)
  then show "no_shared fs d x" using es_invD(4) [OF assms] by (simp add: no_shared_def euf_eligible_def)
qed

lemma no_cube_unsat_ok:
  assumes inv: "es_inv idf (goodt fs d) st" and c: "\<forall>l\<in>set c. lit_good fs d l \<and> all_nodes real_lit_exact l"
    and r: "no_cube_unsat idf st c = (b, st')"
  shows "euf_reach idf st st' \<and> (b \<longrightarrow> (\<forall>I. es_sat I st \<longrightarrow> \<not> holds_all I c))"
proof -
  obtain ok st1 where a: "euf_assert_cube idf st c = (ok, st1)" by fastforce
  have cg: "\<forall>l\<in>set c. lit_good fs d l" using c by simp
  note ac = es_assert_cube [OF inv cg a]
  define la where "la = snd (la_assert_cube la_new c)"
  have cl: "\<forall>l\<in>set c. lit_ok fs l \<and> all_nodes real_lit_exact l" using c by (simp add: lit_good_def)
  have la: "la_step fs (\<lambda>I. holds_all I c) la_new la" using la_assert_cube_ok [OF cl] by (simp add: la_def)
  have ok1: "no_ok idf fs d st1 la" using es_step_inv ac la_step_ok [OF la] by (auto simp: no_ok_def)
  have sat: "es_sat I st \<Longrightarrow> holds_all I c \<Longrightarrow> no_sat I st1 la" for I
    using ac la by (simp add: no_sat_def es_step_def la_step_def)
  have reach: "euf_reach idf st st1" using ac by (simp add: es_step_def)
  define shared where "shared = collect_shared st1 NO_MAX_SHARED"
  have sh: "\<forall>x\<in>set shared. no_shared fs d x"
    unfolding shared_def by (rule collect_shared_ok [OF conjunct1 [OF ok1 [unfolded no_ok_def]]])
  consider (no) "\<not> ok" | (la) "ok" "la_unsat la" | (few) "ok" "\<not> la_unsat la" "length shared < 2"
    | (rounds) "ok" "\<not> la_unsat la" "\<not> length shared < 2" by blast
  then show ?thesis
  proof cases
    case no
    then show ?thesis using r a ac reach by (auto simp: no_cube_unsat_def)
  next
    case la
    then have "b" "st' = st1" using r a by (simp_all add: no_cube_unsat_def la_def [symmetric] Let_def)
    then show ?thesis using reach sat la_unsat_sound [of fs la] ok1 la by (auto simp: no_ok_def no_sat_def)
  next
    case few
    then show ?thesis using r a reach by (simp add: no_cube_unsat_def la_def [symmetric] shared_def [symmetric] Let_def)
  next
    case rounds
    then have "no_rounds NO_MAX_ROUNDS idf c shared st1 la = (b, st')"
      using r a by (simp add: no_cube_unsat_def la_def [symmetric] shared_def [symmetric] Let_def)
    then show ?thesis using no_rounds_ok [OF ok1 cg sh] reach sat euf_reach_trans by blast
  qed
qed

definition s3_node :: "vcsort \<times> vcsort \<Rightarrow> vcterm \<Rightarrow> bool" where
  "s3_node d t \<longleftrightarrow> s1_node d t \<and> real_lit_exact t"

lemma all_nodes_conj: "all_nodes (\<lambda>t. P t \<and> Q t) t \<longleftrightarrow> all_nodes P t \<and> all_nodes Q t"
  by (induction t) auto

lemma all_nodes_s3: "all_nodes (s3_node d) t \<longleftrightarrow> all_nodes (s1_node d) t \<and> all_nodes real_lit_exact t"
  using all_nodes_conj [of "s1_node d" real_lit_exact t] by (simp add: s3_node_def [abs_def])

lemma s3_refute_ok:
  assumes inv: "s1_inv idf inc"
    and c: "\<forall>l\<in>set c. lit_good (ufunc_sort vc) d l \<and> all_nodes real_lit_exact l"
    and r: "s3_refute idf vc inc c = (b, inc')"
  shows "s1_inv idf inc' \<and> (b \<longrightarrow> \<not> holds_all I c)"
proof (cases inc)
  case None
  obtain b1 st where a: "no_cube_unsat idf euf_new c = (b1, st)" by fastforce
  show ?thesis
    using no_cube_unsat_ok [OF es_new(1) c a] es_new(2) [of I] None r a by (auto simp: s3_refute_def s1_inv_def)
next
  case (Some st)
  then have e: "euf_empty idf st" using inv by (simp add: s1_inv_def)
  obtain m st1 where m: "euf_mark st = (m, st1)" by fastforce
  obtain b1 st2 where a: "no_cube_unsat idf st1 c = (b1, st2)" by fastforce
  note s = no_cube_unsat_ok [OF euf_empty_mark(1) [OF e m] c a]
  have "euf_empty idf (euf_undo_to st2 m)" using s by (intro euf_empty_undo [OF e m]) simp
  then show ?thesis
    using s euf_empty_mark(2) [OF e m, of I] Some r m a by (auto simp: s3_refute_def s1_inv_def)
qed

interpretation s3: cube_refuter "\<lambda>vc. s3_node (op_sorts vc)" "s1_init incremental" "s3_refute idf" "\<lambda>vc. s1_inv idf"
  for incremental idf
proof
  fix vc
  show "conn_free (s3_node (op_sorts vc))"
    using conn_free_s1_node [of "op_sorts vc"] real_lit_exact_free by (simp add: conn_free_def s3_node_def)
  show "s1_inv idf (s1_init incremental vc)" by (simp add: s1_inv_def s1_init_def)
next
  fix vc st c r st' I
  assume "s1_inv idf st" "\<forall>l\<in>set c. lit_ok (ufunc_sort vc) l" "\<forall>l\<in>set c. all_nodes (s3_node (op_sorts vc)) l"
    "s3_refute idf vc st c = (r, st')"
  then show "s1_inv idf st' \<and> (r \<longrightarrow> \<not> holds_all I c)"
    by (intro s3_refute_ok [where d = "op_sorts vc" and vc = vc]) (auto simp: lit_good_def all_nodes_s3)
qed

end
