(* ===== verification/Chain.thy ===== *)
theory Chain
  imports NelsonOppen
begin

text \<open>
  The chain driver and the hint search of the discharge pass (\<open>src/compiler/refine_discharge.c\<close>):
  the four stages in ascending cost, the loop that stops at the first answer, and the search for
  a strengthening of the hypotheses that would make the goal provable. \<open>idf\<close> gives the interning
  number of a term and \<open>inc\<close> says whether the congruence closure runs incrementally
  (\<open>TUR_REFINE_EUF\<close>); no result depends on either.
\<close>

section \<open>The chain\<close>

definition CHAIN_NAMES :: "string list" where
  "CHAIN_NAMES = [''S0 (trivial)'', ''S1 (EUF)'', ''S2 (arithmetic)'', ''S3 (Nelson-Oppen)'']"

definition CHAIN_CC :: "(vcterm \<Rightarrow> u32) \<Rightarrow> bool \<Rightarrow> stage list" where
  "CHAIN_CC idf inc =
     [refine_s0_decide_cc, refine_s1_decide_cc idf inc, refine_s2_decide_cc, refine_s3_decide_cc idf inc]"

definition run_chain :: "(vcterm \<Rightarrow> u32) \<Rightarrow> bool \<Rightarrow> refinevc \<Rightarrow> verdict" where
  "run_chain idf inc vc = run_stages (CHAIN_CC idf inc) vc cc_empty"

text \<open>
  The conditions the chain is sound on: well-sorted, congruence never mixes the integer and the
  real reading of a division, and real literals are exactly their decimal rational.
\<close>

definition chain_frag :: "refinevc \<Rightarrow> bool" where
  "chain_frag vc \<longleftrightarrow> wf_vc vc \<and> vc_all_nodes (s3_node (op_sorts vc)) vc"

lemma vc_all_nodes_mono: "vc_all_nodes P vc \<Longrightarrow> (\<And>t. all_nodes P t \<Longrightarrow> all_nodes Q t) \<Longrightarrow> vc_all_nodes Q vc"
  by (auto simp: vc_all_nodes_def split: option.splits)

lemma chain_frag_stages:
  assumes "chain_frag vc"
  shows "wf_vc vc" "vc_all_nodes (s1_node (op_sorts vc)) vc" "vc_all_nodes real_lit_exact vc"
    "vc_all_nodes (s3_node (op_sorts vc)) vc"
  using assms by (auto simp: chain_frag_def all_nodes_s3 elim: vc_all_nodes_mono)

lemma run_chain_sound:
  assumes f: "chain_frag vc" and v: "run_chain idf inc vc = RT_VALID"
  shows "entailed vc"
proof -
  note fr = chain_frag_stages [OF f]
  have r3: "run_stages [refine_s3_decide_cc idf inc] vc cc = RT_VALID \<Longrightarrow> entailed vc" if "cache_ok vc cc" for cc
    using s3.run_cons_sound [of vc cc "[]" inc idf] fr that by (simp add: refine_s3_decide_cc_def)
  have r2: "run_stages [refine_s2_decide_cc, refine_s3_decide_cc idf inc] vc cc = RT_VALID \<Longrightarrow> entailed vc"
    if "cache_ok vc cc" for cc
    using s2.run_cons_sound [of vc cc "[refine_s3_decide_cc idf inc]"] fr that r3
    unfolding refine_s2_decide_cc_def by blast
  have r1: "run_stages [refine_s1_decide_cc idf inc, refine_s2_decide_cc, refine_s3_decide_cc idf inc] vc cc = RT_VALID
      \<Longrightarrow> entailed vc" if "cache_ok vc cc" for cc
    using s1.run_cons_sound [of vc cc "[refine_s2_decide_cc, refine_s3_decide_cc idf inc]" inc idf] fr that r2
    unfolding refine_s1_decide_cc_def by blast
  show ?thesis
    by (rule s0.run_cons_sound [OF fr(1) cache_ok_empty _ v [unfolded run_chain_def CHAIN_CC_def]]) (rule r1)
qed

lemma run_stages_Nil_not_invalid: "run_stages [] vc cc \<noteq> RT_INVALID"
  by simp

lemma run_chain_not_invalid: "run_chain idf inc vc \<noteq> RT_INVALID"
  unfolding run_chain_def CHAIN_CC_def refine_s1_decide_cc_def refine_s2_decide_cc_def refine_s3_decide_cc_def
  by (intro s0.run_cons_not_invalid s1.run_cons_not_invalid s2.run_cons_not_invalid s3.run_cons_not_invalid
        run_stages_Nil_not_invalid)

text \<open>
  The loop of the discharge pass: also how many stages ran, and the number of the one that
  answered.
\<close>

fun run_counted :: "stage list \<Rightarrow> nat \<Rightarrow> refinevc \<Rightarrow> cubecache \<Rightarrow> verdict \<times> nat \<times> nat option" where
  "run_counted [] i vc cc = (RT_UNKNOWN, 0, None)"
| "run_counted (s # ss) i vc cc =
     (let (v, cc') = s vc cc
      in if v \<noteq> RT_UNKNOWN then (v, 1, Some i)
         else let (v', n, d) = run_counted ss (i + 1) vc cc' in (v', n + 1, d))"

lemma run_counted_verdict: "fst (run_counted ss i vc cc) = run_stages ss vc cc"
proof (induction ss arbitrary: i cc)
  case (Cons s ss)
  obtain v cc' where s: "s vc cc = (v, cc')" by fastforce
  obtain v' n d where r: "run_counted ss (i + 1) vc cc' = (v', n, d)" by (metis prod_cases3)
  then show ?case using Cons.IH [of "i + 1" cc'] s by simp
qed simp

lemma run_counted_calls:
  "run_counted ss i vc cc = (v, n, d) \<Longrightarrow>
   n \<le> length ss \<and> (case d of None \<Rightarrow> v = RT_UNKNOWN \<and> n = length ss | Some k \<Rightarrow> v \<noteq> RT_UNKNOWN \<and> k + 1 = i + n \<and> 0 < n)"
  by (induction ss arbitrary: i cc v n d) (fastforce simp: Let_def split: prod.splits if_splits option.splits)+

section \<open>Hints\<close>

definition HINT_MAX_VARS :: nat where "HINT_MAX_VARS = 4"
definition HINT_MAX_LITS :: nat where "HINT_MAX_LITS = 4"
definition HINT_MAX_TRIES :: nat where "HINT_MAX_TRIES = 96"

fun hint_collect_lits :: "vcterm \<Rightarrow> int list \<Rightarrow> int list" where
  "hint_collect_lits (Node op s ks p) out =
     (if HINT_MAX_LITS \<le> length out then out
      else if op = VC_CONST_INT then (if as_int p \<in> set out then out else out @ [as_int p])
      else fold hint_collect_lits ks out)"

text \<open>The operators by their source spelling, as in \<open>hint_build\<close>.\<close>

datatype hintop = HGt | HGe | HNe | HLt | HLe

definition hint_build :: "hintop \<Rightarrow> vcterm \<Rightarrow> vcterm \<Rightarrow> vcterm" where
  "hint_build op x k =
     (case op of
        HGt \<Rightarrow> vc_mk2 VC_LT k x
      | HGe \<Rightarrow> vc_mk2 VC_LE k x
      | HLt \<Rightarrow> vc_mk2 VC_LT x k
      | HLe \<Rightarrow> vc_mk2 VC_LE x k
      | HNe \<Rightarrow> vc_not (vc_mk2 VC_EQ x k))"

text \<open>
  Whether the candidate, added as a hypothesis, makes the goal provable without contradicting
  what is known. The condition is restored afterwards, so it is not part of the result.
\<close>

definition hint_discharges :: "(vcterm \<Rightarrow> u32) \<Rightarrow> bool \<Rightarrow> refinevc \<Rightarrow> vcterm \<Rightarrow> bool" where
  "hint_discharges idf inc vc cand =
     (let vc1 = vc_add_hyp vc cand
      in if length (hyps vc1) = length (hyps vc) then False
         else let contradictory = (run_chain idf inc (vc_set_goal vc1 (vc_bool False)) = RT_VALID)
              in \<not> contradictory \<and> run_chain idf inc vc1 = RT_VALID)"

text \<open>
  A hint before it is formatted: the operator, the number of the variable it constrains, and
  what that is compared with, a literal bound or another variable.
\<close>

datatype hintarg = HLit int | HVar nat

record hint =
  h_op :: hintop
  h_var :: nat
  h_arg :: hintarg

definition hint_bounds :: "refinevc \<Rightarrow> vcterm \<Rightarrow> int list" where
  "hint_bounds vc g =
     0 # filter (\<lambda>l. l \<noteq> 0) (hint_collect_lits g (fold hint_collect_lits (hyps vc) []))"

definition hint_n_vars :: "refinevc \<Rightarrow> nat" where
  "hint_n_vars vc = min (length (vars vc)) HINT_MAX_VARS"

definition hint_family1 :: "refinevc \<Rightarrow> vcterm \<Rightarrow> hint list" where
  "hint_family1 vc g =
     concat (map (\<lambda>b. concat (map (\<lambda>op. map (\<lambda>v. \<lparr>h_op = op, h_var = v, h_arg = HLit b\<rparr>) [0..<hint_n_vars vc])
       [HGt, HGe, HNe, HLt, HLe])) (hint_bounds vc g))"

definition hint_family2 :: "refinevc \<Rightarrow> hint list" where
  "hint_family2 vc =
     concat (map (\<lambda>op. concat (map (\<lambda>vi. map (\<lambda>vj. \<lparr>h_op = op, h_var = vi, h_arg = HVar vj\<rparr>)
         (filter (\<lambda>vj. vi \<noteq> vj \<and> v_sort (vars vc ! vi) = v_sort (vars vc ! vj)) [0..<hint_n_vars vc]))
       [0..<hint_n_vars vc])) [HLt, HLe, HGt, HGe])"

definition hint_cand :: "refinevc \<Rightarrow> hint \<Rightarrow> vcterm" where
  "hint_cand vc h =
     hint_build (h_op h) (vc_var_ref vc (h_var h))
       (case h_arg h of
          HLit b \<Rightarrow> if v_sort (vars vc ! h_var h) = VS_REAL then vc_real (f64_of_int b) else vc_int b
        | HVar vj \<Rightarrow> vc_var_ref vc vj)"

fun hint_scan :: "(vcterm \<Rightarrow> u32) \<Rightarrow> bool \<Rightarrow> refinevc \<Rightarrow> nat \<Rightarrow> hint list \<Rightarrow> hint option" where
  "hint_scan idf inc vc tries [] = None"
| "hint_scan idf inc vc tries (h # hs) =
     (if HINT_MAX_TRIES \<le> tries then None
      else if t_sort (hint_cand vc h) \<noteq> VS_BOOL then hint_scan idf inc vc (tries + 1) hs
      else if \<not> hint_discharges idf inc vc (hint_cand vc h) then hint_scan idf inc vc (tries + 1) hs
      else Some h)"

definition refine_hint_search :: "(vcterm \<Rightarrow> u32) \<Rightarrow> bool \<Rightarrow> refinevc \<Rightarrow> hint option" where
  "refine_hint_search idf inc vc =
     (case goal vc of
        None \<Rightarrow> None
      | Some g \<Rightarrow>
          if run_chain idf inc vc = RT_VALID then None
          else hint_scan idf inc vc 0 (hint_family1 vc g @ hint_family2 vc))"

lemma hint_scan_Some:
  "hint_scan idf inc vc tries hs = Some h \<Longrightarrow> h \<in> set hs \<and> hint_discharges idf inc vc (hint_cand vc h)"
  by (induction hs arbitrary: tries) (auto split: if_splits)

lemma hint_discharges_iff:
  "hint_discharges idf inc vc c \<longleftrightarrow>
     t_op c \<noteq> VC_TRUE \<and> c \<notin> set (hyps vc) \<and> run_chain idf inc (vc_add_hyp vc c) = RT_VALID
     \<and> run_chain idf inc (vc_set_goal (vc_add_hyp vc c) (vc_bool False)) \<noteq> RT_VALID"
  by (auto simp: hint_discharges_def Let_def vc_add_hyp_def split: if_splits)

text \<open>Literals collected for the bounds stay within their cap.\<close>

lemma hint_collect_lits_bound: "length out \<le> HINT_MAX_LITS \<Longrightarrow> length (hint_collect_lits t out) \<le> HINT_MAX_LITS"
proof (induction t arbitrary: out)
  case (Node op s ks p)
  have "length out \<le> HINT_MAX_LITS \<Longrightarrow> length (fold hint_collect_lits ks' out) \<le> HINT_MAX_LITS"
    if "set ks' \<subseteq> set ks" for ks' out
    using that by (induction ks' arbitrary: out) (auto simp: Node.IH)
  then show ?case using Node.prems by auto
qed

end
