(* ===== verification/VCIdentity.thy ===== *)
theory VCIdentity
  imports VCSem
begin

text \<open>
  The identity of a verification condition (\<open>refine_vc_fingerprint\<close> and \<open>refine_vc_equal\<close> in
  \<open>src/compiler/refine_vc.c\<close>): conditions are compared up to a renaming of variables and
  uninterpreted functions, through tables that number the symbols in the order they are met.
  Equal conditions have the same verdict, which is what lets the memo of the discharge pass reuse
  one. Real literals are compared by bit pattern in C; the model has one zero and one NaN, where
  the comparison of the values is that of the patterns.
\<close>

definition VCID_MAX_SYMS :: nat where "VCID_MAX_SYMS = 256"

section \<open>Numbering the symbols\<close>

record vcidmap =
  var_of :: "nat \<Rightarrow> nat option"
  fn_of :: "nat \<Rightarrow> nat option"
  n_var :: nat
  n_fn :: nat
  id_overflow :: bool

definition vcid_init :: vcidmap where
  "vcid_init = \<lparr>var_of = (\<lambda>_. None), fn_of = (\<lambda>_. None), n_var = 0, n_fn = 0, id_overflow = False\<rparr>"

definition vcid_var :: "vcidmap \<Rightarrow> nat \<Rightarrow> nat \<times> vcidmap" where
  "vcid_var m idx =
     (if VCID_MAX_SYMS \<le> idx then (0, m\<lparr>id_overflow := True\<rparr>)
      else case var_of m idx of
             Some k \<Rightarrow> (k, m)
           | None \<Rightarrow> (n_var m, m\<lparr>var_of := (var_of m)(idx := Some (n_var m)), n_var := n_var m + 1\<rparr>))"

definition vcid_fn :: "vcidmap \<Rightarrow> nat \<Rightarrow> nat \<times> vcidmap" where
  "vcid_fn m idx =
     (if VCID_MAX_SYMS \<le> idx then (0, m\<lparr>id_overflow := True\<rparr>)
      else case fn_of m idx of
             Some k \<Rightarrow> (k, m)
           | None \<Rightarrow> (n_fn m, m\<lparr>fn_of := (fn_of m)(idx := Some (n_fn m)), n_fn := n_fn m + 1\<rparr>))"

section \<open>Fingerprint\<close>

unbundle bit_operations_syntax

definition fp_mix :: "u64 \<Rightarrow> u64 \<Rightarrow> u64" where
  "fp_mix h v = h XOR (v + 0x9e3779b97f4a7c15 + push_bit 6 h + drop_bit 2 h)"

text \<open>The bit pattern of a double: sign, biased exponent, mantissa.\<close>

definition f64_bits :: "f64 \<Rightarrow> u64" where
  "f64_bits d =
     (case d of
        PInf \<Rightarrow> 0x7ff0000000000000
      | NInf \<Rightarrow> 0xfff0000000000000
      | NaN \<Rightarrow> 0x7ff8000000000000
      | Fin q \<Rightarrow>
          (if q = 0 then 0
           else
             let e = fl_exp q; m = \<lfloor>\<bar>q\<bar> / pow2 e\<rfloor>;
                 body = (if m < 2 ^ 52 then m else (e + 1075) * 2 ^ 52 + (m - 2 ^ 52))
             in of_int (body + (if q < 0 then 2 ^ 63 else 0))))"

fun sort_code :: "vcsort \<Rightarrow> nat" where
  "sort_code VS_INT = 0" | "sort_code VS_REAL = 1" | "sort_code VS_BOOL = 2"

fun fp_term :: "refinevc \<Rightarrow> vcterm \<Rightarrow> vcidmap \<times> u64 \<Rightarrow> vcidmap \<times> u64" where
  "fp_term vc (Node op s ks p) (m, h) =
     (let h1 = fp_mix (fp_mix h (of_nat (op_code op))) (of_nat (sort_code s));
          (m2, h2) =
            (case op of
               VC_CONST_INT \<Rightarrow> (m, fp_mix h1 (of_int (as_int p)))
             | VC_CONST_REAL \<Rightarrow> (m, fp_mix h1 (f64_bits (as_real p)))
             | VC_VAR \<Rightarrow> (let (k, m') = vcid_var m (as_idx p) in (m', fp_mix h1 (1 + of_nat k)))
             | VC_APP \<Rightarrow>
                 (let (k, m') = vcid_fn m (as_idx p); h' = fp_mix h1 (2 + of_nat k)
                  in if as_idx p < length (ufuncs vc) then
                       (m', fp_mix (fp_mix h' (of_nat (u_arity (ufuncs vc ! as_idx p))))
                              (of_nat (sort_code (u_sort (ufuncs vc ! as_idx p)))))
                     else (m', h'))
             | _ \<Rightarrow> (m, h1))
      in fold (fp_term vc) ks (m2, fp_mix h2 (of_nat (length ks))))"

text \<open>A condition with no goal is hashed as the marker \<open>0xdead\<close>; 0 is never a key.\<close>

definition refine_vc_fingerprint :: "refinevc \<Rightarrow> u64" where
  "refine_vc_fingerprint vc =
     (let (m, h) = fold (fp_term vc) (hyps vc) (vcid_init, fp_mix 0xcbf29ce484222325 (of_nat (length (hyps vc))));
          h1 = fp_mix h 0x60a1;
          (m', h') = (case goal vc of None \<Rightarrow> (m, fp_mix h1 0xdead) | Some g \<Rightarrow> fp_term vc g (m, h1))
      in if id_overflow m' then 0 else if h' = 0 then 1 else h')"

section \<open>Equality up to renaming\<close>

text \<open>The check of one node, before its kids: the two tables after it, or None for a mismatch.\<close>

definition eq_head ::
  "refinevc \<Rightarrow> refinevc \<Rightarrow> vcterm \<Rightarrow> vcterm \<Rightarrow> vcidmap \<Rightarrow> vcidmap \<Rightarrow> (vcidmap \<times> vcidmap) option" where
  "eq_head va vb a b ma mb =
     (if t_op a \<noteq> t_op b \<or> t_sort a \<noteq> t_sort b \<or> length (t_kids a) \<noteq> length (t_kids b) then None
      else case t_op a of
             VC_CONST_INT \<Rightarrow> (if as_int (t_as a) \<noteq> as_int (t_as b) then None else Some (ma, mb))
           | VC_CONST_REAL \<Rightarrow> (if as_real (t_as a) \<noteq> as_real (t_as b) then None else Some (ma, mb))
           | VC_VAR \<Rightarrow>
               (let (i, ma') = vcid_var ma (as_idx (t_as a)); (j, mb') = vcid_var mb (as_idx (t_as b))
                in if i \<noteq> j then None else Some (ma', mb'))
           | VC_APP \<Rightarrow>
               (let x = as_idx (t_as a); y = as_idx (t_as b); (i, ma') = vcid_fn ma x; (j, mb') = vcid_fn mb y
                in if i \<noteq> j then None
                   else if length (ufuncs va) \<le> x \<or> length (ufuncs vb) \<le> y then None
                   else if u_arity (ufuncs va ! x) \<noteq> u_arity (ufuncs vb ! y) then None
                   else if u_sort (ufuncs va ! x) \<noteq> u_sort (ufuncs vb ! y) then None
                   else Some (ma', mb'))
           | _ \<Rightarrow> Some (ma, mb))"

fun eq_term :: "refinevc \<Rightarrow> refinevc \<Rightarrow> vcterm \<Rightarrow> vcterm \<Rightarrow> vcidmap \<Rightarrow> vcidmap \<Rightarrow> (vcidmap \<times> vcidmap) option"
  and eq_terms :: "refinevc \<Rightarrow> refinevc \<Rightarrow> vcterm list \<Rightarrow> vcterm list \<Rightarrow> vcidmap \<Rightarrow> vcidmap \<Rightarrow> (vcidmap \<times> vcidmap) option" where
  "eq_term va vb (Node op s ks p) b ma mb =
     (case eq_head va vb (Node op s ks p) b ma mb of
        None \<Rightarrow> None
      | Some (ma', mb') \<Rightarrow> eq_terms va vb ks (t_kids b) ma' mb')"
| "eq_terms va vb (a # as) (b # bs) ma mb =
     (case eq_term va vb a b ma mb of None \<Rightarrow> None | Some (ma', mb') \<Rightarrow> eq_terms va vb as bs ma' mb')"
| "eq_terms va vb _ _ ma mb = Some (ma, mb)"

text \<open>
  The two conditions are objects, and the comparison starts with the question whether they are one
  object. That answer is the argument \<open>same\<close>; a caller that passes it has \<open>same \<longrightarrow> a = b\<close>.
\<close>

definition refine_vc_equal :: "bool \<Rightarrow> refinevc \<Rightarrow> refinevc \<Rightarrow> bool" where
  "refine_vc_equal same a b =
     (if same then True
      else if length (hyps a) \<noteq> length (hyps b) then False
      else case eq_terms a b (hyps a) (hyps b) vcid_init vcid_init of
             None \<Rightarrow> False
           | Some (ma, mb) \<Rightarrow>
               (case (goal a, goal b) of
                  (None, None) \<Rightarrow> \<not> id_overflow ma \<and> \<not> id_overflow mb
                | (Some g, Some g') \<Rightarrow>
                    (case eq_term a b g g' ma mb of
                       None \<Rightarrow> False
                     | Some (ma', mb') \<Rightarrow> \<not> id_overflow ma' \<and> \<not> id_overflow mb')
                | _ \<Rightarrow> False))"

section \<open>Equal conditions are entailed together\<close>

text \<open>The numbering only grows, and numbers symbols injectively below its counter.\<close>

definition num_le :: "(nat \<Rightarrow> nat option) \<Rightarrow> (nat \<Rightarrow> nat option) \<Rightarrow> bool" where
  "num_le f g \<longleftrightarrow> (\<forall>i k. f i = Some k \<longrightarrow> g i = Some k)"

definition num_ok :: "(nat \<Rightarrow> nat option) \<Rightarrow> nat \<Rightarrow> bool" where
  "num_ok f n \<longleftrightarrow> (\<forall>i k. f i = Some k \<longrightarrow> k < n) \<and> (\<forall>i j k. f i = Some k \<longrightarrow> f j = Some k \<longrightarrow> i = j)"

definition id_le :: "vcidmap \<Rightarrow> vcidmap \<Rightarrow> bool" where
  "id_le m m' \<longleftrightarrow> num_le (var_of m) (var_of m') \<and> num_le (fn_of m) (fn_of m') \<and> (id_overflow m \<longrightarrow> id_overflow m')"

definition id_ok :: "vcidmap \<Rightarrow> bool" where
  "id_ok m \<longleftrightarrow> num_ok (var_of m) (n_var m) \<and> num_ok (fn_of m) (n_fn m)"

lemma num_le_refl [simp]: "num_le f f"
  by (simp add: num_le_def)

lemma id_le_refl [simp]: "id_le m m"
  by (simp add: id_le_def)

lemma id_le_trans: "id_le m m1 \<Longrightarrow> id_le m1 m2 \<Longrightarrow> id_le m m2"
  by (auto simp: id_le_def num_le_def)

lemma id_ok_init [simp]: "id_ok vcid_init"
  by (simp add: id_ok_def num_ok_def vcid_init_def)

lemma num_fresh: "num_ok f n \<Longrightarrow> f i = None \<Longrightarrow> num_le f (f(i := Some n)) \<and> num_ok (f(i := Some n)) (Suc n)"
  by (auto simp: num_ok_def num_le_def less_Suc_eq split: if_splits)

lemma vcid_var_ok:
  "vcid_var m i = (k, m') \<Longrightarrow> id_ok m \<Longrightarrow>
   id_le m m' \<and> id_ok m' \<and> (\<not> id_overflow m' \<longrightarrow> var_of m' i = Some k)"
  using num_fresh [of "var_of m" "n_var m" i]
  by (auto simp: vcid_var_def id_le_def id_ok_def split: if_splits option.splits)

lemma vcid_fn_ok:
  "vcid_fn m i = (k, m') \<Longrightarrow> id_ok m \<Longrightarrow>
   id_le m m' \<and> id_ok m' \<and> (\<not> id_overflow m' \<longrightarrow> fn_of m' i = Some k)"
  using num_fresh [of "fn_of m" "n_fn m" i]
  by (auto simp: vcid_fn_def id_le_def id_ok_def split: if_splits option.splits)

text \<open>
  Two interpretations agree through two numberings when symbols with the same number have the
  same meaning.
\<close>

definition agree :: "vcidmap \<Rightarrow> vcidmap \<Rightarrow> interp \<Rightarrow> interp \<Rightarrow> bool" where
  "agree ma mb I J \<longleftrightarrow> i_undef I = i_undef J
     \<and> (\<forall>i j k. var_of ma i = Some k \<longrightarrow> var_of mb j = Some k \<longrightarrow> i_var I i = i_var J j)
     \<and> (\<forall>i j k. fn_of ma i = Some k \<longrightarrow> fn_of mb j = Some k \<longrightarrow> i_app I i = i_app J j)"

lemma agree_le: "agree ma' mb' I J \<Longrightarrow> id_le ma ma' \<Longrightarrow> id_le mb mb' \<Longrightarrow> agree ma mb I J"
  by (auto simp: agree_def id_le_def num_le_def)

text \<open>Every interpretation of the second condition has a counterpart for the first.\<close>

definition renamed :: "vcidmap \<Rightarrow> vcidmap \<Rightarrow> interp \<Rightarrow> interp" where
  "renamed ma mb J =
     \<lparr>i_var = (\<lambda>i. i_var J (SOME j. \<exists>k. var_of ma i = Some k \<and> var_of mb j = Some k)),
      i_app = (\<lambda>i. i_app J (SOME j. \<exists>k. fn_of ma i = Some k \<and> fn_of mb j = Some k)),
      i_undef = i_undef J\<rparr>"

lemma agree_renamed:
  assumes "id_ok mb"
  shows "agree ma mb (renamed ma mb J) J"
proof -
  have "(SOME j'. \<exists>k. var_of ma i = Some k \<and> var_of mb j' = Some k) = j"
    if "var_of ma i = Some k" "var_of mb j = Some k" for i j k
    using that assms by (intro some_equality) (auto simp: id_ok_def num_ok_def)
  moreover have "(SOME j'. \<exists>k. fn_of ma i = Some k \<and> fn_of mb j' = Some k) = j"
    if "fn_of ma i = Some k" "fn_of mb j = Some k" for i j k
    using that assms by (intro some_equality) (auto simp: id_ok_def num_ok_def)
  ultimately show ?thesis by (auto simp: agree_def renamed_def)
qed

lemma eq_head_ok:
  assumes "eq_head va vb a b ma mb = Some (ma', mb')" and "id_ok ma" "id_ok mb"
  shows "id_le ma ma' \<and> id_ok ma' \<and> id_le mb mb' \<and> id_ok mb'"
  using assms vcid_var_ok [of ma "as_idx (t_as a)"] vcid_var_ok [of mb "as_idx (t_as b)"]
    vcid_fn_ok [of ma "as_idx (t_as a)"] vcid_fn_ok [of mb "as_idx (t_as b)"]
  by (auto simp: eq_head_def Let_def split: if_splits prod.splits vcop.splits)

lemma eq_head_eval:
  assumes h: "eq_head va vb (Node op s ks p) (Node op' s' ks' p') ma mb = Some (ma', mb')"
    and ok: "id_ok ma" "id_ok mb" and no: "\<not> id_overflow ma'" "\<not> id_overflow mb'"
    and ag: "agree ma' mb' I J" and kids: "map (eval I) ks = map (eval J) ks'"
  shows "eval I (Node op s ks p) = eval J (Node op' s' ks' p')"
proof -
  have op: "op' = op" "s' = s" using h by (auto simp: eq_head_def split: if_splits)
  have u: "i_undef I = i_undef J" using ag by (simp add: agree_def)
  show ?thesis
  proof (cases "op = VC_VAR \<or> op = VC_APP")
    case False
    then show ?thesis
      using h kids op u
      by (cases op) (auto simp: eq_head_def op_sem_def div_sem_def mod_sem_def split: if_splits simp del: map_eq_conv)
  next
    case True
    then show ?thesis
    proof
      assume v: "op = VC_VAR"
      obtain i m1 where i: "vcid_var ma (as_idx p) = (i, m1)" by fastforce
      obtain j m2 where j: "vcid_var mb (as_idx p') = (j, m2)" by fastforce
      have "i = j" "m1 = ma'" "m2 = mb'" using h v op i j by (auto simp: eq_head_def split: if_splits)
      then have "i_var I (as_idx p) = i_var J (as_idx p')"
        using ag vcid_var_ok [OF i ok(1)] vcid_var_ok [OF j ok(2)] no by (auto simp: agree_def)
      then show ?thesis using v op by (simp add: op_sem_def)
    next
      assume v: "op = VC_APP"
      obtain i m1 where i: "vcid_fn ma (as_idx p) = (i, m1)" by fastforce
      obtain j m2 where j: "vcid_fn mb (as_idx p') = (j, m2)" by fastforce
      have "i = j" "m1 = ma'" "m2 = mb'" using h v op i j by (auto simp: eq_head_def Let_def split: if_splits)
      then have "i_app I (as_idx p) = i_app J (as_idx p')"
        using ag vcid_fn_ok [OF i ok(1)] vcid_fn_ok [OF j ok(2)] no by (auto simp: agree_def)
      then show ?thesis using v op kids by (simp add: op_sem_def)
    qed
  qed
qed

lemma eq_term_ok:
  "eq_term va vb a b ma mb = Some (ma', mb') \<Longrightarrow> id_ok ma \<Longrightarrow> id_ok mb \<Longrightarrow>
     id_le ma ma' \<and> id_ok ma' \<and> id_le mb mb' \<and> id_ok mb' \<and>
     (\<not> id_overflow ma' \<longrightarrow> \<not> id_overflow mb' \<longrightarrow> agree ma' mb' I J \<longrightarrow> eval I a = eval J b)"
  and eq_terms_ok:
  "eq_terms va vb as bs ma mb = Some (ma', mb') \<Longrightarrow> length as = length bs \<Longrightarrow> id_ok ma \<Longrightarrow> id_ok mb \<Longrightarrow>
     id_le ma ma' \<and> id_ok ma' \<and> id_le mb mb' \<and> id_ok mb' \<and>
     (\<not> id_overflow ma' \<longrightarrow> \<not> id_overflow mb' \<longrightarrow> agree ma' mb' I J \<longrightarrow> map (eval I) as = map (eval J) bs)"
proof (induction va vb a b ma mb and va vb as bs ma mb arbitrary: ma' mb' and ma' mb' rule: eq_term_eq_terms.induct)
  case (1 va vb op s ks p b ma mb)
  obtain op' s' ks' p' where b: "b = Node op' s' ks' p'" by (cases b)
  obtain m1 m2 where h: "eq_head va vb (Node op s ks p) b ma mb = Some (m1, m2)"
    and e: "eq_terms va vb ks ks' m1 m2 = Some (ma', mb')"
    using 1(2) b by (auto split: option.splits)
  have len: "length ks = length ks'" using h b by (auto simp: eq_head_def split: if_splits)
  note ho = eq_head_ok [OF h 1(3,4)]
  note IH = 1(1) [OF h refl, unfolded b vcterm.sel, OF e len]
  have "eval I (Node op s ks p) = eval J b"
    if no: "\<not> id_overflow ma'" "\<not> id_overflow mb'" and ag: "agree ma' mb' I J"
  proof -
    have k: "map (eval I) ks = map (eval J) ks'" and le: "id_le m1 ma'" "id_le m2 mb'" using IH ho no ag by auto
    have "\<not> id_overflow m1" "\<not> id_overflow m2" using le no by (auto simp: id_le_def)
    then show ?thesis using eq_head_eval [OF h [unfolded b] 1(3,4) _ _ agree_le [OF ag le] k] b by simp
  qed
  then show ?case using IH ho id_le_trans by blast
next
  case (2 va vb a as b bs ma mb)
  obtain m1 m2 where h: "eq_term va vb a b ma mb = Some (m1, m2)"
    and e: "eq_terms va vb as bs m1 m2 = Some (ma', mb')"
    using 2(3) by (auto split: option.splits)
  note A = 2(1) [OF h 2(5,6)]
  note B = 2(2) [OF h refl e]
  have "map (eval I) (a # as) = map (eval J) (b # bs)"
    if no: "\<not> id_overflow ma'" "\<not> id_overflow mb'" and ag: "agree ma' mb' I J"
  proof -
    have B': "map (eval I) as = map (eval J) bs" "id_le m1 ma'" "id_le m2 mb'" using A B 2(4) no ag by auto
    have "\<not> id_overflow m1" "\<not> id_overflow m2" "agree m1 m2 I J"
      using B' no agree_le [OF ag] by (auto simp: id_le_def)
    then show ?thesis using A B' by simp
  qed
  then show ?case using A B 2(4) id_le_trans by (metis Suc_inject length_Cons)
qed auto

lemma eval_eq_holds_all: "map (eval I) as = map (eval J) bs \<Longrightarrow> holds_all I as = holds_all J bs"
proof (induction as arbitrary: bs)
  case (Cons a as)
  then show ?case by (cases bs) (auto simp: holds_def)
qed simp

lemma refine_vc_equal_transfer:
  assumes "refine_vc_equal False a b" and "entailed a"
  shows "entailed b"
proof -
  obtain g where g: "goal a = Some g" "\<And>I. holds_all I (hyps a) \<Longrightarrow> holds I g" using assms(2) by (auto simp: entailed_def)
  have len: "length (hyps a) = length (hyps b)" using assms(1) by (simp add: refine_vc_equal_def split: if_splits)
  obtain ma mb where hy: "eq_terms a b (hyps a) (hyps b) vcid_init vcid_init = Some (ma, mb)"
    using assms(1) len by (cases "eq_terms a b (hyps a) (hyps b) vcid_init vcid_init") (auto simp: refine_vc_equal_def)
  obtain g' where g': "goal b = Some g'"
    using assms(1) len hy g(1) by (cases "goal b") (simp_all add: refine_vc_equal_def)
  obtain ma' mb' where gl: "eq_term a b g g' ma mb = Some (ma', mb')" and no: "\<not> id_overflow ma'" "\<not> id_overflow mb'"
    using assms(1) len hy g(1) g' by (cases "eq_term a b g g' ma mb") (auto simp: refine_vc_equal_def)
  have "holds J g'" if "holds_all J (hyps b)" for J
  proof -
    define I where "I = renamed ma' mb' J"
    note H = eq_terms_ok [OF hy len id_ok_init id_ok_init, of I J]
    note G = eq_term_ok [OF gl, of I J]
    have ok: "id_ok mb'" "id_le ma ma'" "id_le mb mb'" using H G by auto
    have ag: "agree ma' mb' I J" unfolding I_def using ok(1) by (rule agree_renamed)
    have "agree ma mb I J" "\<not> id_overflow ma" "\<not> id_overflow mb"
      using agree_le [OF ag ok(2,3)] ok no by (auto simp: id_le_def)
    then have "map (eval I) (hyps a) = map (eval J) (hyps b)" using H by simp
    then have "holds_all I (hyps a)" using eval_eq_holds_all that by blast
    then have "holds I g" by (rule g(2))
    then show ?thesis using G H ag no by (simp add: holds_def)
  qed
  then show ?thesis using g' by (simp add: entailed_def)
qed

text \<open>The comparison is symmetric, so the transfer goes both ways.\<close>

lemma eq_head_sym:
  "eq_head va vb a b ma mb = Some (ma', mb') \<Longrightarrow> eq_head vb va b a mb ma = Some (mb', ma')"
  by (cases "t_op b") (auto simp: eq_head_def Let_def split: if_splits prod.splits)

lemma eq_term_sym:
  "eq_term va vb a b ma mb = Some (ma', mb') \<Longrightarrow> eq_term vb va b a mb ma = Some (mb', ma')"
  and eq_terms_sym:
  "eq_terms va vb as bs ma mb = Some (ma', mb') \<Longrightarrow> length as = length bs \<Longrightarrow> eq_terms vb va bs as mb ma = Some (mb', ma')"
proof (induction va vb a b ma mb and va vb as bs ma mb arbitrary: ma' mb' and ma' mb' rule: eq_term_eq_terms.induct)
  case (1 va vb op s ks p b ma mb)
  obtain m1 m2 where e: "eq_head va vb (Node op s ks p) b ma mb = Some (m1, m2)"
    and k: "eq_terms va vb ks (t_kids b) m1 m2 = Some (ma', mb')"
    using "1.prems" by (auto split: option.splits)
  have "length ks = length (t_kids b)" using e by (auto simp: eq_head_def split: if_splits)
  then show ?case using "1.IH" [OF e refl k] eq_head_sym [OF e] by (cases b) simp
next
  case (2 va vb a as b bs ma mb)
  obtain m1 m2 where e: "eq_term va vb a b ma mb = Some (m1, m2)"
    and k: "eq_terms va vb as bs m1 m2 = Some (ma', mb')"
    using 2(3) by (cases "eq_term va vb a b ma mb") auto
  show ?case using 2(1) [OF e] 2(2) [OF e refl k] 2(4) by simp
qed auto

lemma refine_vc_equal_sym: "refine_vc_equal False a b \<Longrightarrow> refine_vc_equal False b a"
proof -
  assume eq: "refine_vc_equal False a b"
  have len: "length (hyps a) = length (hyps b)" using eq by (simp add: refine_vc_equal_def split: if_splits)
  obtain ma mb where hy: "eq_terms a b (hyps a) (hyps b) vcid_init vcid_init = Some (ma, mb)"
    using eq len by (cases "eq_terms a b (hyps a) (hyps b) vcid_init vcid_init") (auto simp: refine_vc_equal_def)
  note hy' = eq_terms_sym [OF hy len]
  show ?thesis
  proof (cases "goal a")
    case None
    then show ?thesis using eq len hy hy' by (cases "goal b") (simp_all add: refine_vc_equal_def)
  next
    case (Some g)
    then obtain g' where g': "goal b = Some g'" using eq len hy by (cases "goal b") (auto simp: refine_vc_equal_def)
    obtain m1 m2 where gl: "eq_term a b g g' ma mb = Some (m1, m2)"
      using eq len hy Some g' by (cases "eq_term a b g g' ma mb") (auto simp: refine_vc_equal_def)
    show ?thesis using eq len hy hy' Some g' gl eq_term_sym [OF gl] by (simp add: refine_vc_equal_def)
  qed
qed

lemma refine_vc_equal_entailed:
  assumes "refine_vc_equal same a b" and "same \<longrightarrow> a = b"
  shows "entailed a \<longleftrightarrow> entailed b"
proof (cases same)
  case False
  then have "refine_vc_equal False a b" using assms(1) by simp
  then show ?thesis using refine_vc_equal_transfer refine_vc_equal_sym by blast
qed (use assms(2) in simp)

end
