(* ===== verification/Memo.thy ===== *)
theory Memo
  imports Chain VCIdentity
begin

text \<open>
  The memo of the discharge pass (\<open>src/compiler/refine_discharge.c\<close>): an open-addressing table
  from fingerprints to decided conditions. A hit is confirmed by structural comparison before its
  verdict is reused. A slot also remembers the hint found for its condition.
\<close>

section \<open>The fingerprint and the comparison agree\<close>

lemma eq_head_len: "eq_head va vb a b ma mb = Some r \<Longrightarrow> length (t_kids a) = length (t_kids b)"
  by (auto simp: eq_head_def split: if_splits)

text \<open>The part of \<open>fp_term\<close> before the kids.\<close>

definition fp_head :: "refinevc \<Rightarrow> vcterm \<Rightarrow> vcidmap \<times> u64 \<Rightarrow> vcidmap \<times> u64" where
  "fp_head vc t mh =
     (let (m, h) = mh; p = t_as t;
          h1 = fp_mix (fp_mix h (of_nat (op_code (t_op t)))) (of_nat (sort_code (t_sort t)));
          (m2, h2) =
            (case t_op t of
               VC_CONST_INT \<Rightarrow> (m, fp_mix h1 (of_int (as_int p)))
             | VC_CONST_REAL \<Rightarrow> (m, fp_mix h1 (f64_bits (as_real p)))
             | VC_VAR \<Rightarrow> (let (k, m') = vcid_var m (as_idx p) in (m', fp_mix h1 (1 + of_nat k)))
             | VC_APP \<Rightarrow>
                 (let (k, m') = vcid_fn m (as_idx p); h' = fp_mix h1 (2 + of_nat k)
                  in if as_idx p < length (ufuncs vc) then
                       (m', fp_mix (fp_mix h' (of_nat (u_arity (ufuncs vc ! as_idx p))))
                              (of_nat (sort_code (u_sort (ufuncs vc ! as_idx p)))))
                     else (m', h'))
             | _ \<Rightarrow> (m, h1))
      in (m2, fp_mix h2 (of_nat (length (t_kids t)))))"

lemma fp_term_head: "fp_term vc t mh = fold (fp_term vc) (t_kids t) (fp_head vc t mh)"
proof (cases t; cases mh)
  fix op s ks p m h
  assume "t = Node op s ks p" "mh = (m, h)"
  then show ?thesis by (cases op) (simp_all add: fp_head_def Let_def split: prod.split)
qed

declare fp_term.simps [simp del]

lemma eq_head_fp:
  assumes "eq_head va vb a b ma mb = Some (ma', mb')"
  shows "\<exists>h'. fp_head va a (ma, h) = (ma', h') \<and> fp_head vb b (mb, h) = (mb', h')"
  using assms
  by (cases "t_op b") (auto simp: eq_head_def fp_head_def Let_def split: if_splits prod.splits)

lemma eq_term_fp:
  "eq_term va vb a b ma mb = Some (ma', mb') \<Longrightarrow>
     \<exists>h'. fp_term va a (ma, h) = (ma', h') \<and> fp_term vb b (mb, h) = (mb', h')"
  and eq_terms_fp:
  "eq_terms va vb as bs ma mb = Some (ma', mb') \<Longrightarrow> length as = length bs \<Longrightarrow>
     \<exists>h'. fold (fp_term va) as (ma, h) = (ma', h') \<and> fold (fp_term vb) bs (mb, h) = (mb', h')"
proof (induction va vb a b ma mb and va vb as bs ma mb arbitrary: ma' mb' h and ma' mb' h rule: eq_term_eq_terms.induct)
  case (1 va vb op s ks p b ma mb)
  then obtain m1 m2 where e: "eq_head va vb (Node op s ks p) b ma mb = Some (m1, m2)"
    and k: "eq_terms va vb ks (t_kids b) m1 m2 = Some (ma', mb')"
    by (cases "eq_head va vb (Node op s ks p) b ma mb") auto
  obtain h1 where "fp_head va (Node op s ks p) (ma, h) = (m1, h1)" "fp_head vb b (mb, h) = (m2, h1)"
    using eq_head_fp [OF e] by blast
  then show ?case
    using 1(1) [OF e refl k] eq_head_len [OF e]
    by (simp add: fp_term_head [of va "Node op s ks p"] fp_term_head [of vb b])
next
  case (2 va vb a as b bs ma mb)
  obtain m1 m2 where e: "eq_term va vb a b ma mb = Some (m1, m2)"
    and k: "eq_terms va vb as bs m1 m2 = Some (ma', mb')"
    using 2(3) by (cases "eq_term va vb a b ma mb") auto
  obtain h1 where "fp_term va a (ma, h) = (m1, h1)" "fp_term vb b (mb, h) = (m2, h1)" using 2(1) [OF e] by blast
  then show ?case using 2(2) [OF e refl k] 2(4) by simp
qed auto

lemma refine_vc_equal_fingerprint:
  assumes "refine_vc_equal False a b"
  shows "refine_vc_fingerprint a = refine_vc_fingerprint b \<and> refine_vc_fingerprint a \<noteq> 0"
proof -
  have len: "length (hyps a) = length (hyps b)" using assms by (simp add: refine_vc_equal_def split: if_splits)
  obtain ma mb where hy: "eq_terms a b (hyps a) (hyps b) vcid_init vcid_init = Some (ma, mb)"
    using assms len by (cases "eq_terms a b (hyps a) (hyps b) vcid_init vcid_init") (auto simp: refine_vc_equal_def)
  obtain h where h: "fold (fp_term a) (hyps a) (vcid_init, fp_mix 0xcbf29ce484222325 (of_nat (length (hyps a)))) = (ma, h)"
      "fold (fp_term b) (hyps b) (vcid_init, fp_mix 0xcbf29ce484222325 (of_nat (length (hyps a)))) = (mb, h)"
    using eq_terms_fp [OF hy len] by blast
  show ?thesis
  proof (cases "goal a")
    case None
    then show ?thesis using assms len hy h by (cases "goal b") (auto simp: refine_vc_equal_def refine_vc_fingerprint_def Let_def)
  next
    case (Some g)
    then obtain g' where g': "goal b = Some g'" using assms len hy by (cases "goal b") (auto simp: refine_vc_equal_def)
    obtain ma' mb' where gl: "eq_term a b g g' ma mb = Some (ma', mb')" and no: "\<not> id_overflow ma'" "\<not> id_overflow mb'"
      using assms len hy Some g' by (cases "eq_term a b g g' ma mb") (auto simp: refine_vc_equal_def)
    obtain h2 where "fp_term a g (ma, fp_mix h 0x60a1) = (ma', h2)" "fp_term b g' (mb, fp_mix h 0x60a1) = (mb', h2)"
      using eq_term_fp [OF gl] by blast
    then show ?thesis using Some g' h len no by (auto simp: refine_vc_fingerprint_def Let_def)
  qed
qed

text \<open>A condition whose applications name declared functions equals itself.\<close>

definition apps_declared :: "refinevc \<Rightarrow> vcterm \<Rightarrow> bool" where
  "apps_declared vc t \<longleftrightarrow> (t_op t = VC_APP \<longrightarrow> as_idx (t_as t) < length (ufuncs vc))"

lemma eq_head_refl: "apps_declared vc t \<Longrightarrow> \<exists>m'. eq_head vc vc t t m m = Some (m', m') \<and> fst (fp_head vc t (m, h)) = m'"
  by (cases "t_op t") (auto simp: eq_head_def fp_head_def apps_declared_def Let_def split: prod.split)

lemma eq_terms_refl_step:
  assumes "\<And>t m h. t \<in> set ts \<Longrightarrow> \<exists>m' h'. eq_term vc vc t t m m = Some (m', m') \<and> fp_term vc t (m, h) = (m', h')"
  shows "\<exists>m' h'. eq_terms vc vc ts ts m m = Some (m', m') \<and> fold (fp_term vc) ts (m, h) = (m', h')"
  using assms
proof (induction ts arbitrary: m h)
  case (Cons t ts)
  obtain m1 h1 where 1: "eq_term vc vc t t m m = Some (m1, m1)" "fp_term vc t (m, h) = (m1, h1)"
    using Cons.prems [of t m h] by auto
  have "\<exists>m' h'. eq_terms vc vc ts ts m1 m1 = Some (m', m') \<and> fold (fp_term vc) ts (m1, h1) = (m', h')"
    using Cons.prems by (intro Cons.IH) simp
  with 1 show ?case by simp
qed simp

lemma eq_term_refl:
  "all_nodes (apps_declared vc) t \<Longrightarrow>
   \<exists>m' h'. eq_term vc vc t t m m = Some (m', m') \<and> fp_term vc t (m, h) = (m', h')"
proof (induction t arbitrary: m h)
  case (Node op s ks p)
  obtain m1 where e: "eq_head vc vc (Node op s ks p) (Node op s ks p) m m = Some (m1, m1)"
    and f: "fst (fp_head vc (Node op s ks p) (m, h)) = m1"
    using eq_head_refl Node.prems by (metis all_nodes_root)
  obtain h1 where f': "fp_head vc (Node op s ks p) (m, h) = (m1, h1)" using f by (metis prod.collapse)
  have "\<exists>m' h'. eq_terms vc vc ks ks m1 m1 = Some (m', m') \<and> fold (fp_term vc) ks (m1, h1) = (m', h')"
    using Node by (intro eq_terms_refl_step) simp
  with e f' show ?case by (simp add: fp_term_head [of vc "Node op s ks p"])
qed

lemma refine_vc_equal_refl:
  assumes "refine_vc_fingerprint vc \<noteq> 0" and "vc_all_nodes (apps_declared vc) vc"
  shows "refine_vc_equal same vc vc"
proof -
  have "\<exists>m' h'. eq_terms vc vc (hyps vc) (hyps vc) vcid_init vcid_init = Some (m', m')
      \<and> fold (fp_term vc) (hyps vc) (vcid_init, fp_mix 0xcbf29ce484222325 (of_nat (length (hyps vc)))) = (m', h')"
    using assms(2) by (intro eq_terms_refl_step eq_term_refl) (simp add: vc_all_nodes_def)
  then obtain m h where m: "eq_terms vc vc (hyps vc) (hyps vc) vcid_init vcid_init = Some (m, m)"
      "fold (fp_term vc) (hyps vc) (vcid_init, fp_mix 0xcbf29ce484222325 (of_nat (length (hyps vc)))) = (m, h)"
    by blast
  show ?thesis
  proof (cases "goal vc")
    case None
    then show ?thesis using assms(1) m by (auto simp: refine_vc_equal_def refine_vc_fingerprint_def Let_def)
  next
    case (Some g)
    have "all_nodes (apps_declared vc) g" using assms(2) Some by (simp add: vc_all_nodes_def)
    then obtain m' h' where "eq_term vc vc g g m m = Some (m', m')" "fp_term vc g (m, fp_mix h 0x60a1) = (m', h')"
      using eq_term_refl by blast
    then show ?thesis using assms(1) Some m by (auto simp: refine_vc_equal_def refine_vc_fingerprint_def Let_def)
  qed
qed

section \<open>The table\<close>

definition REFINE_MEMO_CAP :: nat where "REFINE_MEMO_CAP = 2048"

text \<open>The hint of a slot, as it is printed: \<open>None\<close> in \<open>ms_hint\<close> is \<open>hint_done\<close> false.\<close>

datatype hintshow = ShowInt int | ShowReal f64 | ShowVar string

record hintnote =
  hn_op :: hintop
  hn_var :: string
  hn_arg :: hintshow
  hn_real :: bool

record memoslot =
  ms_fp :: u64
  ms_vc :: refinevc
  ms_proven :: bool
  ms_hint :: "hintnote option option"

record memo =
  g_memo :: "memoslot option list"
  g_memo_len :: nat

definition memo_reset :: memo where
  "memo_reset = \<lparr>g_memo = replicate REFINE_MEMO_CAP None, g_memo_len = 0\<rparr>"

text \<open>
  The first slot, from the one the fingerprint names, that is free or holds this condition. A slot
  keeps a pointer to its condition; for \<open>same\<close> the model passes that the slot's condition is the
  one asked about. Two objects that are alike are not one object, but the comparison says the same
  of them: \<open>refine_vc_equal_refl\<close>, a nonzero fingerprint is all it needs.
\<close>

definition memo_match :: "refinevc \<Rightarrow> u64 \<Rightarrow> memoslot option \<Rightarrow> bool" where
  "memo_match vc fp sl = (case sl of None \<Rightarrow> False | Some s \<Rightarrow> ms_fp s = fp \<and> refine_vc_equal (ms_vc s = vc) (ms_vc s) vc)"

definition memo_home :: "u64 \<Rightarrow> nat" where
  "memo_home fp = unat fp mod REFINE_MEMO_CAP"

definition memo_probe :: "memo \<Rightarrow> refinevc \<Rightarrow> u64 \<Rightarrow> nat option" where
  "memo_probe m vc fp =
     probe REFINE_MEMO_CAP REFINE_MEMO_CAP (\<lambda>i. g_memo m ! i = None \<or> memo_match vc fp (g_memo m ! i)) (memo_home fp)"

definition memo_slot :: "memo \<Rightarrow> refinevc \<Rightarrow> u64 \<Rightarrow> nat option" where
  "memo_slot m vc fp =
     (if fp = 0 then None
      else case memo_probe m vc fp of
             None \<Rightarrow> None
           | Some i \<Rightarrow> if g_memo m ! i = None then None else Some i)"

definition memo_lookup :: "memo \<Rightarrow> refinevc \<Rightarrow> u64 \<Rightarrow> bool option" where
  "memo_lookup m vc fp = map_option (\<lambda>i. ms_proven (the (g_memo m ! i))) (memo_slot m vc fp)"

definition memo_insert :: "memo \<Rightarrow> refinevc \<Rightarrow> u64 \<Rightarrow> bool \<Rightarrow> memo" where
  "memo_insert m vc fp proven =
     (if fp = 0 \<or> REFINE_MEMO_CAP div 2 \<le> g_memo_len m then m
      else case memo_probe m vc fp of
             None \<Rightarrow> m
           | Some i \<Rightarrow>
               if g_memo m ! i = None then
                 m\<lparr>g_memo := (g_memo m)[i := Some \<lparr>ms_fp = fp, ms_vc = vc, ms_proven = proven, ms_hint = None\<rparr>],
                   g_memo_len := g_memo_len m + 1\<rparr>
               else m)"

definition memo_set_hint :: "memo \<Rightarrow> nat \<Rightarrow> hintnote option \<Rightarrow> memo" where
  "memo_set_hint m i h =
     m\<lparr>g_memo := (g_memo m)[i := map_option (\<lambda>s. s\<lparr>ms_hint := Some h\<rparr>) (g_memo m ! i)]\<rparr>"

text \<open>
  The invariant: the table is at most half full, and what a slot calls proven is entailed (\<open>sound\<close>
  is the set of conditions whose entailment the verdicts vouch for).
\<close>

definition memo_inv :: "memo \<Rightarrow> bool" where
  "memo_inv m \<longleftrightarrow> length (g_memo m) = REFINE_MEMO_CAP \<and> g_memo_len m \<le> REFINE_MEMO_CAP div 2
     \<and> g_memo_len m = card {i. i < REFINE_MEMO_CAP \<and> g_memo m ! i \<noteq> None}
     \<and> (\<forall>s. Some s \<in> set (g_memo m) \<longrightarrow> ms_fp s \<noteq> 0)"

definition memo_sound :: "memo \<Rightarrow> bool" where
  "memo_sound m \<longleftrightarrow> (\<forall>s. Some s \<in> set (g_memo m) \<longrightarrow> ms_proven s \<longrightarrow> entailed (ms_vc s))"

lemma memo_home_less [simp]: "memo_home fp < REFINE_MEMO_CAP"
  by (simp add: memo_home_def REFINE_MEMO_CAP_def)

lemma memo_reset_ok: "memo_inv memo_reset \<and> memo_sound memo_reset"
  by (auto simp: memo_inv_def memo_sound_def memo_reset_def)

lemma memo_probe_less: "memo_probe m vc fp = Some i \<Longrightarrow> i < REFINE_MEMO_CAP"
  unfolding memo_probe_def using probe_bound memo_home_less by blast

lemma memo_probe_stop: "memo_probe m vc fp = Some i \<Longrightarrow> g_memo m ! i = None \<or> memo_match vc fp (g_memo m ! i)"
  unfolding memo_probe_def by (rule probe_stop)

lemma memo_slot_Some:
  assumes "memo_inv m" and "memo_slot m vc fp = Some i"
  shows "i < REFINE_MEMO_CAP \<and> (\<exists>s. g_memo m ! i = Some s \<and> Some s \<in> set (g_memo m) \<and> ms_fp s = fp \<and> refine_vc_equal (ms_vc s = vc) (ms_vc s) vc)"
proof -
  obtain s where p: "memo_probe m vc fp = Some i" and s: "g_memo m ! i = Some s"
    using assms(2) by (auto simp: memo_slot_def split: option.splits if_splits)
  then have "i < REFINE_MEMO_CAP" using memo_probe_less by blast
  moreover have "Some s \<in> set (g_memo m)" using s calculation assms(1) by (metis memo_inv_def nth_mem)
  ultimately show ?thesis using s memo_probe_stop [OF p] by (simp add: memo_match_def)
qed

text \<open>A hit on a proven slot is a proof of the condition asked about.\<close>

lemma memo_lookup_sound:
  assumes "memo_inv m" and "memo_sound m" and "memo_lookup m vc fp = Some True"
  shows "entailed vc"
proof -
  obtain i where i: "memo_slot m vc fp = Some i" "ms_proven (the (g_memo m ! i))"
    using assms(3) by (auto simp: memo_lookup_def)
  then show ?thesis
    using memo_slot_Some [OF assms(1) i(1)] assms(2) refine_vc_equal_entailed by (fastforce simp: memo_sound_def)
qed

text \<open>There is always a free slot, so the probe ends.\<close>

lemma memo_free:
  assumes "memo_inv m"
  shows "\<exists>i<REFINE_MEMO_CAP. g_memo m ! i = None"
proof (rule ccontr)
  assume "\<not> ?thesis"
  then have "{i. i < REFINE_MEMO_CAP \<and> g_memo m ! i \<noteq> None} = {..<REFINE_MEMO_CAP}" by auto
  then have "g_memo_len m = REFINE_MEMO_CAP" using assms by (simp add: memo_inv_def)
  then show False using assms by (simp add: memo_inv_def REFINE_MEMO_CAP_def)
qed

lemma memo_probe_total:
  assumes "memo_inv m"
  shows "\<exists>i. memo_probe m vc fp = Some i"
proof -
  obtain i where "i < REFINE_MEMO_CAP" "g_memo m ! i = None" using memo_free [OF assms] by blast
  then show ?thesis unfolding memo_probe_def by (intro probe_total [of _ _ i]) simp_all
qed

lemma memo_insert_cases:
  "memo_insert m vc fp b = m \<or>
   (\<exists>i<REFINE_MEMO_CAP. memo_probe m vc fp = Some i \<and> fp \<noteq> 0 \<and> g_memo_len m < REFINE_MEMO_CAP div 2 \<and> g_memo m ! i = None \<and>
      memo_insert m vc fp b = m\<lparr>g_memo := (g_memo m)[i := Some \<lparr>ms_fp = fp, ms_vc = vc, ms_proven = b, ms_hint = None\<rparr>],
                   g_memo_len := g_memo_len m + 1\<rparr>)"
  using memo_probe_less [of m vc fp] by (auto simp: memo_insert_def split: option.split)

lemma memo_insert_room:
  assumes "memo_inv m"
  shows "memo_inv (memo_insert m vc fp b)"
  using memo_insert_cases [of m vc fp b]
proof (elim disjE exE conjE)
  fix i
  let ?s = "\<lparr>ms_fp = fp, ms_vc = vc, ms_proven = b, ms_hint = None\<rparr>"
  assume i: "i < REFINE_MEMO_CAP" and fp: "fp \<noteq> 0" and n: "g_memo_len m < REFINE_MEMO_CAP div 2" and f: "g_memo m ! i = None"
    and e: "memo_insert m vc fp b = m\<lparr>g_memo := (g_memo m)[i := Some ?s], g_memo_len := g_memo_len m + 1\<rparr>"
  have len: "length (g_memo m) = REFINE_MEMO_CAP" using assms(1) by (simp add: memo_inv_def)
  have sub: "set ((g_memo m)[i := Some ?s]) \<subseteq> insert (Some ?s) (set (g_memo m))" by (rule set_update_subset_insert)
  have "{j. j < REFINE_MEMO_CAP \<and> (g_memo m)[i := Some ?s] ! j \<noteq> None} = insert i {j. j < REFINE_MEMO_CAP \<and> g_memo m ! j \<noteq> None}"
    using i len by (auto simp: nth_list_update)
  then have "card {j. j < REFINE_MEMO_CAP \<and> (g_memo m)[i := Some ?s] ! j \<noteq> None} = g_memo_len m + 1"
    using f assms(1) by (simp add: memo_inv_def)
  then show ?thesis using assms(1) n fp sub len by (auto simp: memo_inv_def e)
qed (use assms in simp)

lemma memo_insert_sound:
  assumes "memo_sound m" and "b \<Longrightarrow> entailed vc"
  shows "memo_sound (memo_insert m vc fp b)"
  using memo_insert_cases [of m vc fp b]
proof (elim disjE exE conjE)
  fix i
  let ?s = "\<lparr>ms_fp = fp, ms_vc = vc, ms_proven = b, ms_hint = None\<rparr>"
  assume e: "memo_insert m vc fp b = m\<lparr>g_memo := (g_memo m)[i := Some ?s], g_memo_len := g_memo_len m + 1\<rparr>"
  have "set ((g_memo m)[i := Some ?s]) \<subseteq> insert (Some ?s) (set (g_memo m))" by (rule set_update_subset_insert)
  then show ?thesis using assms by (auto simp: memo_sound_def e)
qed (use assms in simp)

lemma memo_insert_inv:
  assumes "memo_inv m" and "memo_sound m" and "b \<Longrightarrow> entailed vc"
  shows "memo_inv (memo_insert m vc fp b) \<and> memo_sound (memo_insert m vc fp b)"
  using memo_insert_room [OF assms(1)] memo_insert_sound [OF assms(2,3)] by blast

text \<open>A probe is not disturbed by a change off its path.\<close>

lemma probe_stable:
  "probe fuel cap stop s = Some t \<Longrightarrow> (\<And>x. x = t \<or> \<not> stop x \<Longrightarrow> stop' x = stop x) \<Longrightarrow> probe fuel cap stop' s = Some t"
proof (induction fuel cap stop s rule: probe.induct)
  case (2 fuel cap stop s)
  show ?case
  proof (cases "stop s")
    case True
    then have "s = t" using 2(2) by simp
    then have "stop' s = stop s" using 2(3) by blast
    then show ?thesis using True \<open>s = t\<close> by simp
  next
    case False
    then have "\<not> stop' s" using 2(3) by blast
    moreover have "probe fuel cap stop ((s + 1) mod cap) = Some t" using 2(2) False by simp
    ultimately show ?thesis using 2(1) [OF False] 2(3) by simp
  qed
qed simp

text \<open>What was decided stays decided: an insertion changes no earlier answer.\<close>

lemma memo_insert_keeps:
  assumes "memo_inv m" and "memo_lookup m vc' fp' = Some b'"
  shows "memo_lookup (memo_insert m vc fp b) vc' fp' = Some b'"
  using memo_insert_cases [of m vc fp b]
proof (elim disjE exE conjE)
  fix i
  let ?s = "\<lparr>ms_fp = fp, ms_vc = vc, ms_proven = b, ms_hint = None\<rparr>"
  assume i: "i < REFINE_MEMO_CAP" and f: "g_memo m ! i = None"
    and e: "memo_insert m vc fp b = m\<lparr>g_memo := (g_memo m)[i := Some ?s], g_memo_len := g_memo_len m + 1\<rparr>"
  obtain j where j: "memo_slot m vc' fp' = Some j" "b' = ms_proven (the (g_memo m ! j))"
    using assms(2) by (auto simp: memo_lookup_def)
  have p: "memo_probe m vc' fp' = Some j" and nz: "fp' \<noteq> 0" and js: "g_memo m ! j \<noteq> None"
    using j(1) by (auto simp: memo_slot_def split: option.splits if_splits)
  then have ij: "i \<noteq> j" using f by auto
  have "memo_probe (memo_insert m vc fp b) vc' fp' = Some j"
    unfolding memo_probe_def
  proof (rule probe_stable [OF p [unfolded memo_probe_def]])
    fix x
    assume "x = j \<or> \<not> (g_memo m ! x = None \<or> memo_match vc' fp' (g_memo m ! x))"
    then have "x \<noteq> i" using f ij by auto
    then show "(g_memo (memo_insert m vc fp b) ! x = None \<or> memo_match vc' fp' (g_memo (memo_insert m vc fp b) ! x)) =
        (g_memo m ! x = None \<or> memo_match vc' fp' (g_memo m ! x))" by (simp add: e)
  qed
  then show ?thesis using nz js ij j(2) by (simp add: memo_lookup_def memo_slot_def e)
qed (use assms in simp)

text \<open>And what was just decided is found again, by any condition equal to it.\<close>

lemma memo_insert_lookup:
  assumes inv: "memo_inv m" and room: "g_memo_len m < REFINE_MEMO_CAP div 2" and new: "memo_lookup m vc fp = None"
    and eq: "fp = refine_vc_fingerprint vc" "refine_vc_equal False vc vc"
  shows "memo_lookup (memo_insert m vc fp b) vc fp = Some b"
proof -
  have fp: "fp \<noteq> 0" using refine_vc_equal_fingerprint [OF eq(2)] eq(1) by simp
  obtain i where p: "memo_probe m vc fp = Some i" using memo_probe_total [OF inv] by blast
  then have f: "g_memo m ! i = None" using new fp by (auto simp: memo_lookup_def memo_slot_def split: if_splits)
  have i: "i < length (g_memo m)" using memo_probe_less [OF p] inv by (simp add: memo_inv_def)
  let ?m = "memo_insert m vc fp b"
  let ?s = "\<lparr>ms_fp = fp, ms_vc = vc, ms_proven = b, ms_hint = None\<rparr>"
  have e: "g_memo ?m = (g_memo m)[i := Some ?s]" using fp room p f by (simp add: memo_insert_def)
  have "memo_probe ?m vc fp = Some i"
    unfolding memo_probe_def
  proof (rule probe_stable [OF p [unfolded memo_probe_def]])
    fix x
    assume "x = i \<or> \<not> (g_memo m ! x = None \<or> memo_match vc fp (g_memo m ! x))"
    then show "(g_memo ?m ! x = None \<or> memo_match vc fp (g_memo ?m ! x)) = (g_memo m ! x = None \<or> memo_match vc fp (g_memo m ! x))"
      using f i eq(2) by (cases "x = i") (simp_all add: e memo_match_def refine_vc_equal_def)
  qed
  then show ?thesis using fp i by (simp add: memo_lookup_def memo_slot_def e)
qed

lemma memo_set_hint_slot:
  assumes "Some s \<in> set (g_memo (memo_set_hint m i h))"
  shows "\<exists>s'. Some s' \<in> set (g_memo m) \<and> ms_fp s = ms_fp s' \<and> ms_vc s = ms_vc s' \<and> ms_proven s = ms_proven s'"
proof -
  obtain j where j: "j < length (g_memo m)" "g_memo (memo_set_hint m i h) ! j = Some s"
    using assms by (auto simp: memo_set_hint_def in_set_conv_nth)
  show ?thesis
  proof (cases "j = i")
    case True
    then obtain s' where "g_memo m ! i = Some s'" "s = s'\<lparr>ms_hint := Some h\<rparr>" using j by (auto simp: memo_set_hint_def)
    then show ?thesis using True j nth_mem [of i "g_memo m"] by (intro exI [of _ s']) simp
  next
    case False
    then show ?thesis using j nth_mem [of j "g_memo m"] by (intro exI [of _ s]) (simp add: memo_set_hint_def)
  qed
qed

lemma memo_set_hint_room:
  assumes "memo_inv m"
  shows "memo_inv (memo_set_hint m i h)"
proof -
  have "g_memo (memo_set_hint m i h) ! j \<noteq> None \<longleftrightarrow> g_memo m ! j \<noteq> None" if "j < REFINE_MEMO_CAP" for j
    using assms that by (cases "j = i") (simp_all add: memo_set_hint_def memo_inv_def)
  then have "{j. j < REFINE_MEMO_CAP \<and> g_memo (memo_set_hint m i h) ! j \<noteq> None} = {j. j < REFINE_MEMO_CAP \<and> g_memo m ! j \<noteq> None}"
    by blast
  moreover have "ms_fp s \<noteq> 0" if "Some s \<in> set (g_memo (memo_set_hint m i h))" for s
    using memo_set_hint_slot [OF that] assms unfolding memo_inv_def by metis
  ultimately show ?thesis using assms unfolding memo_inv_def by (simp add: memo_set_hint_def)
qed

lemma memo_set_hint_inv:
  assumes "memo_inv m" and "memo_sound m"
  shows "memo_inv (memo_set_hint m i h) \<and> memo_sound (memo_set_hint m i h)"
proof
  show "memo_inv (memo_set_hint m i h)" using assms(1) by (rule memo_set_hint_room)
  show "memo_sound (memo_set_hint m i h)"
    using memo_set_hint_slot assms(2) unfolding memo_sound_def by metis
qed

end
