(* ===== verification/ModelSearch.thy ===== *)
theory ModelSearch
  imports VCSem
begin

text \<open>
  The bounded counterexample search of \<open>src/compiler/refine_solver.c\<close> (\<open>refine_model_search\<close>):
  candidate values per variable, an odometer over the assignments, and an exact evaluation of the
  hypotheses and the goal. The sticky flag \<open>EvalCtx.fail\<close> is the value None of an evaluation:
  once set it stays set, and nothing is read of a failed evaluation but the flag. The definition
  depth counts down from \<open>MODEL_DEF_DEPTH\<close>.
\<close>

definition MODEL_MAX_VARS :: nat where "MODEL_MAX_VARS = 8"
definition MODEL_MAX_EVALS :: nat where "MODEL_MAX_EVALS = 131072"
definition MODEL_MAX_CANDS :: nat where "MODEL_MAX_CANDS = 16"
definition MODEL_MAX_DEFS :: nat where "MODEL_MAX_DEFS = 256"
definition MODEL_DEF_DEPTH :: nat where "MODEL_DEF_DEPTH = 64"

section \<open>Values and definitions\<close>

datatype mval = MInt int | MReal f64

fun mv_i :: "mval \<Rightarrow> int" where "mv_i (MInt i) = i" | "mv_i (MReal r) = 0"

fun mv_r :: "mval \<Rightarrow> f64" where "mv_r (MInt i) = Fin 0" | "mv_r (MReal r) = r"

fun is_mreal :: "mval \<Rightarrow> bool" where "is_mreal (MInt i) = False" | "is_mreal (MReal r) = True"

definition mv_d :: "mval \<Rightarrow> f64" where
  "mv_d v = (if is_mreal v then mv_r v else f64_of_int (mv_i v))"

definition model_def_of :: "(vcterm \<times> vcterm) list \<Rightarrow> vcterm \<Rightarrow> vcterm option" where
  "model_def_of defs app = map_of defs app"

definition model_impl_parts :: "vcterm \<Rightarrow> (vcterm \<times> vcterm) option" where
  "model_impl_parts t =
     (if t_op t = VC_IMPLIES \<and> length (t_kids t) = 2 then Some (kid t 0, kid t 1)
      else if t_op t = VC_OR \<and> length (t_kids t) = 2 then
        (if t_op (kid t 0) = VC_NOT then Some (kid (kid t 0) 0, kid t 1)
         else if t_op (kid t 1) = VC_NOT then Some (kid (kid t 1) 0, kid t 0)
         else None)
      else None)"

text \<open>The application a hypothesis defines, and what it equals.\<close>

definition hyp_def :: "vcterm \<Rightarrow> (vcterm \<times> vcterm) option" where
  "hyp_def h =
     (if t_op h = VC_EQ \<and> length (t_kids h) = 2 then
        (if t_op (kid h 0) = VC_APP then Some (kid h 0, kid h 1)
         else if t_op (kid h 1) = VC_APP then Some (kid h 1, kid h 0) else None)
      else if t_op h = VC_APP \<and> t_sort h = VS_BOOL then Some (h, vc_bool True)
      else if t_op h = VC_NOT \<and> length (t_kids h) = 1 \<and> t_op (kid h 0) = VC_APP \<and> t_sort (kid h 0) = VS_BOOL
        then Some (kid h 0, vc_bool False)
      else if t_op h = VC_AND \<and> length (t_kids h) = 2 then
        (case (model_impl_parts (kid h 0), model_impl_parts (kid h 1)) of
           (Some (a1, b1), Some (a2, b2)) \<Rightarrow>
             (if a1 = b2 \<and> b1 = a2 then
                (if t_op a1 = VC_APP then Some (a1, b1)
                 else if t_op b1 = VC_APP then Some (b1, a1) else None)
              else None)
         | _ \<Rightarrow> None)
      else None)"

definition add_def :: "refinevc \<Rightarrow> vcterm \<Rightarrow> (vcterm \<times> vcterm) list \<Rightarrow> (vcterm \<times> vcterm) list" where
  "add_def vc h out =
     (if MODEL_MAX_DEFS \<le> length out then out
      else case hyp_def h of
             None \<Rightarrow> out
           | Some (app, def) \<Rightarrow>
               (if length (ufuncs vc) \<le> as_idx (t_as app) \<or> \<not> u_reflected (ufuncs vc ! as_idx (t_as app)) then out
                else if def = app then out
                else if app \<in> fst ` set out then out
                else out @ [(app, def)]))"

definition model_collect_defs :: "refinevc \<Rightarrow> (vcterm \<times> vcterm) list" where
  "model_collect_defs vc = fold (add_def vc) (hyps vc) []"

section \<open>Evaluation\<close>

text \<open>The loops of \<open>and\<close> and \<open>or\<close>: they stop at the first kid that decides, or fails.\<close>

fun and_loop :: "bool option list \<Rightarrow> bool option" where
  "and_loop [] = Some True"
| "and_loop (x # xs) = (case x of None \<Rightarrow> None | Some b \<Rightarrow> if b then and_loop xs else Some False)"

fun or_loop :: "bool option list \<Rightarrow> bool option" where
  "or_loop [] = Some False"
| "or_loop (x # xs) = (case x of None \<Rightarrow> None | Some b \<Rightarrow> if b then Some True else or_loop xs)"

definition ev_real :: "vcop \<Rightarrow> f64 \<Rightarrow> f64 \<Rightarrow> mval option" where
  "ev_real op x y =
     (case op of
        VC_ADD \<Rightarrow> Some (MReal (f64_add x y))
      | VC_SUB \<Rightarrow> Some (MReal (f64_sub x y))
      | VC_MUL \<Rightarrow> Some (MReal (f64_mul x y))
      | VC_DIV \<Rightarrow> if f64_eq y (Fin 0) then None else Some (MReal (f64_div x y))
      | _ \<Rightarrow> None)"

definition ev_int :: "vcop \<Rightarrow> int \<Rightarrow> int \<Rightarrow> mval option" where
  "ev_int op a b = map_option MInt (fold_int op a b)"

definition ev_rel :: "vcop \<Rightarrow> mval \<Rightarrow> mval \<Rightarrow> bool" where
  "ev_rel op a b =
     (if is_mreal a \<or> is_mreal b then
        (let x = mv_d a; y = mv_d b
         in if op = VC_EQ then f64_eq x y else if op = VC_LT then f64_lt x y else f64_le x y)
      else if op = VC_EQ then mv_i a = mv_i b else if op = VC_LT then mv_i a < mv_i b else mv_i a \<le> mv_i b)"

fun eval_bool :: "mval list \<Rightarrow> (vcterm \<times> vcterm) list \<Rightarrow> nat \<Rightarrow> vcterm \<Rightarrow> bool option"
  and eval_arith :: "mval list \<Rightarrow> (vcterm \<times> vcterm) list \<Rightarrow> nat \<Rightarrow> vcterm \<Rightarrow> mval option" where
  "eval_bool vals defs k (Node op s ks p) =
     (case (op, ks) of
        (VC_TRUE, _) \<Rightarrow> Some True
      | (VC_FALSE, _) \<Rightarrow> Some False
      | (VC_VAR, _) \<Rightarrow> if s \<noteq> VS_BOOL then None else Some (mv_i (vals ! as_idx p) \<noteq> 0)
      | (VC_NOT, [a]) \<Rightarrow> map_option Not (eval_bool vals defs k a)
      | (VC_AND, _) \<Rightarrow> and_loop (map (eval_bool vals defs k) ks)
      | (VC_OR, _) \<Rightarrow> or_loop (map (eval_bool vals defs k) ks)
      | (VC_IMPLIES, [a, b]) \<Rightarrow>
          (case eval_bool vals defs k a of
             None \<Rightarrow> None
           | Some x \<Rightarrow> if x then eval_bool vals defs k b else Some True)
      | (VC_APP, _) \<Rightarrow>
          (case (if s = VS_BOOL then model_def_of defs (Node op s ks p) else None) of
             None \<Rightarrow> None
           | Some d \<Rightarrow> (case k of 0 \<Rightarrow> None | Suc k' \<Rightarrow> eval_bool vals defs k' d))
      | (_, [a, b]) \<Rightarrow>
          if op \<noteq> VC_EQ \<and> op \<noteq> VC_LT \<and> op \<noteq> VC_LE then None
          else if t_sort a = VS_BOOL \<or> t_sort b = VS_BOOL then
            (if op \<noteq> VC_EQ then None
             else case (eval_bool vals defs k a, eval_bool vals defs k b) of
                    (Some x, Some y) \<Rightarrow> Some (x = y) | _ \<Rightarrow> None)
          else (case (eval_arith vals defs k a, eval_arith vals defs k b) of
                  (Some x, Some y) \<Rightarrow> Some (ev_rel op x y) | _ \<Rightarrow> None)
      | _ \<Rightarrow> None)"
| "eval_arith vals defs k (Node op s ks p) =
     (case (op, ks) of
        (VC_CONST_INT, _) \<Rightarrow> Some (MInt (as_int p))
      | (VC_CONST_REAL, _) \<Rightarrow> Some (MReal (as_real p))
      | (VC_VAR, _) \<Rightarrow> if s = VS_BOOL then None else Some (vals ! as_idx p)
      | (VC_NEG, [a]) \<Rightarrow>
          (case eval_arith vals defs k a of
             None \<Rightarrow> None
           | Some (MReal r) \<Rightarrow> Some (MReal (f64_neg r))
           | Some (MInt i) \<Rightarrow> map_option MInt (sub_ovf 0 i))
      | (VC_APP, _) \<Rightarrow>
          (case (if s \<noteq> VS_BOOL then model_def_of defs (Node op s ks p) else None) of
             None \<Rightarrow> None
           | Some d \<Rightarrow> (case k of 0 \<Rightarrow> None | Suc k' \<Rightarrow> eval_arith vals defs k' d))
      | (_, [a, b]) \<Rightarrow>
          if op \<notin> {VC_ADD, VC_SUB, VC_MUL, VC_DIV, VC_MOD} then None
          else (case (eval_arith vals defs k a, eval_arith vals defs k b) of
                  (Some x, Some y) \<Rightarrow>
                    if is_mreal x \<or> is_mreal y then ev_real op (mv_d x) (mv_d y) else ev_int op (mv_i x) (mv_i y)
                | _ \<Rightarrow> None)
      | _ \<Rightarrow> None)"

section \<open>Candidates\<close>

fun collect_lits :: "vcterm \<Rightarrow> mval list \<Rightarrow> mval list" where
  "collect_lits (Node op s ks p) out =
     (if MODEL_MAX_CANDS \<le> length out then out
      else if op = VC_CONST_INT then
        (if \<exists>v\<in>set out. \<not> is_mreal v \<and> mv_i v = as_int p then out else out @ [MInt (as_int p)])
      else if op = VC_CONST_REAL then
        (if \<exists>v\<in>set out. is_mreal v \<and> f64_eq (mv_r v) (as_real p) then out else out @ [MReal (as_real p)])
      else fold collect_lits ks out)"

definition add_cand_int :: "int \<Rightarrow> mval list \<Rightarrow> mval list" where
  "add_cand_int v c =
     (if MODEL_MAX_CANDS \<le> length c then c
      else if \<exists>x\<in>set c. mv_i x = v then c else c @ [MInt v])"

definition add_cand_real :: "f64 \<Rightarrow> mval list \<Rightarrow> mval list" where
  "add_cand_real v c =
     (if MODEL_MAX_CANDS \<le> length c then c
      else if \<exists>x\<in>set c. f64_eq (mv_r x) v then c else c @ [MReal v])"

definition int_cands :: "mval list \<Rightarrow> mval list" where
  "int_cands lits =
     fold (\<lambda>l c. if is_mreal l then c
                 else let c1 = add_cand_int (mv_i l) c;
                          c2 = (if mv_i l < INT64_MAX then add_cand_int (mv_i l + 1) c1 else c1)
                      in if INT64_MIN < mv_i l then add_cand_int (mv_i l - 1) c2 else c2)
       lits (fold add_cand_int [-2, -1, 0, 1, 2] [])"

definition real_cands :: "mval list \<Rightarrow> mval list" where
  "real_cands lits =
     fold (\<lambda>l c. let d = mv_d l
                 in add_cand_real (f64_sub d (Fin (1 / 2)))
                      (add_cand_real (f64_add d (Fin (1 / 2))) (add_cand_real d c)))
       lits (fold add_cand_real [Fin 0, Fin (1 / 2), Fin (- 1 / 2), Fin 1, Fin (-1)] [])"

definition var_cands :: "refinevc \<Rightarrow> mval list \<Rightarrow> nat \<Rightarrow> mval list" where
  "var_cands vc lits v =
     (if v \<in> set (ctor_consts vc) then add_cand_int (INT64_MIN sdiv 2 + int v) []
      else case v_sort (vars vc ! v) of
             VS_BOOL \<Rightarrow> add_cand_int 1 (add_cand_int 0 [])
           | VS_INT \<Rightarrow> int_cands lits
           | VS_REAL \<Rightarrow> real_cands lits)"

section \<open>The search\<close>

text \<open>The assignments in the order of the odometer: the first variable turns fastest.\<close>

fun odometer :: "'a list list \<Rightarrow> 'a list list" where
  "odometer [] = [[]]"
| "odometer (c # cs) = concat (map (\<lambda>rest. map (\<lambda>x. x # rest) c) (odometer cs))"

text \<open>Whether an assignment is a witness: None when its evaluation fails.\<close>

definition model_check :: "refinevc \<Rightarrow> vcterm \<Rightarrow> (vcterm \<times> vcterm) list \<Rightarrow> mval list \<Rightarrow> bool option" where
  "model_check vc g defs vals =
     (case and_loop (map (eval_bool vals defs MODEL_DEF_DEPTH) (hyps vc)) of
        None \<Rightarrow> None
      | Some sat \<Rightarrow> if \<not> sat then Some False else map_option Not (eval_bool vals defs MODEL_DEF_DEPTH g))"

fun model_scan :: "refinevc \<Rightarrow> vcterm \<Rightarrow> (vcterm \<times> vcterm) list \<Rightarrow> bool \<Rightarrow> mval list list \<Rightarrow> mval list option" where
  "model_scan vc g defs first [] = None"
| "model_scan vc g defs first (vals # rest) =
     (case model_check vc g defs vals of
        Some True \<Rightarrow> Some vals
      | Some False \<Rightarrow> model_scan vc g defs False rest
      | None \<Rightarrow> if first then None else model_scan vc g defs False rest)"

record binding =
  b_name :: string
  b_is_real :: bool
  b_is_bool :: bool
  b_ival :: int
  b_rval :: f64

definition model_bindings :: "refinevc \<Rightarrow> mval list \<Rightarrow> binding list" where
  "model_bindings vc vals =
     map (\<lambda>v. \<lparr>b_name = v_name (vars vc ! v), b_is_real = (v_sort (vars vc ! v) = VS_REAL),
               b_is_bool = (v_sort (vars vc ! v) = VS_BOOL), b_ival = mv_i (vals ! v), b_rval = mv_r (vals ! v)\<rparr>)
       (filter (\<lambda>v. v \<notin> set (ctor_consts vc)) [0..<length (vars vc)])"

definition model_evals :: "mval list list \<Rightarrow> nat" where
  "model_evals cands = fold (\<lambda>c n. if n \<le> MODEL_MAX_EVALS then n * length c else n) cands 1"

definition model_cands :: "refinevc \<Rightarrow> vcterm \<Rightarrow> mval list list" where
  "model_cands vc g =
     (let lits = collect_lits g (fold collect_lits (hyps vc) [])
      in map (var_cands vc lits) [0..<length (vars vc)])"

definition refine_model_search :: "refinevc \<Rightarrow> binding list option" where
  "refine_model_search vc =
     (case goal vc of
        None \<Rightarrow> None
      | Some g \<Rightarrow>
          if ufuncs vc \<noteq> [] \<and> \<not> reflect_model_ok vc then None
          else
            let defs = (if ufuncs vc \<noteq> [] then model_collect_defs vc else [])
            in if hyps_dropped vc then None
               else if MODEL_MAX_VARS < length (vars vc) then None
               else
                 let cands = model_cands vc g
                 in if [] \<in> set cands then None
                    else if MODEL_MAX_EVALS < model_evals cands then None
                    else map_option (model_bindings vc) (model_scan vc g defs True (odometer cands)))"

section \<open>A model is a counterexample\<close>

text \<open>
  On a condition without reals and without uninterpreted functions the evaluation is the meaning.
  (Over reals it is C's double arithmetic, the arithmetic of the emitted runtime check, and not
  the meaning over the real numbers.)
\<close>

definition int_node :: "nat \<Rightarrow> vcterm \<Rightarrow> bool" where
  "int_node n t \<longleftrightarrow> t_sort t \<noteq> VS_REAL \<and> t_op t \<noteq> VC_CONST_REAL \<and> (t_op t = VC_VAR \<longrightarrow> as_idx (t_as t) < n)"

definition val_interp :: "mval list \<Rightarrow> interp" where
  "val_interp vals = \<lparr>i_var = (\<lambda>i. of_int (mv_i (vals ! i))), i_app = (\<lambda>_ _. 0), i_undef = (\<lambda>_ _ _. 0)\<rparr>"

lemma and_loop_Some: "and_loop xs = Some b \<Longrightarrow> b \<longleftrightarrow> (\<forall>x\<in>set xs. x = Some True)"
  by (induction xs) (auto split: option.splits if_splits)

lemma and_loop_eval:
  "and_loop (map f ks) = Some b \<Longrightarrow> (\<And>k x. k \<in> set ks \<Longrightarrow> f k = Some x \<Longrightarrow> eval I k = of_bool x) \<Longrightarrow>
   (\<forall>k\<in>set ks. eval I k \<noteq> 0) = b"
proof (induction ks)
  case (Cons k ks)
  then obtain x where x: "f k = Some x" by (cases "f k") auto
  then have e: "eval I k = of_bool x" using Cons.prems(2) by simp
  show ?case
  proof (cases x)
    case True
    then show ?thesis using Cons.IH Cons.prems x e by simp
  next
    case False
    then show ?thesis using Cons.prems(1) x e by simp
  qed
qed simp

lemma or_loop_eval:
  "or_loop (map f ks) = Some b \<Longrightarrow> (\<And>k x. k \<in> set ks \<Longrightarrow> f k = Some x \<Longrightarrow> eval I k = of_bool x) \<Longrightarrow>
   (\<exists>k\<in>set ks. eval I k \<noteq> 0) = b"
proof (induction ks)
  case (Cons k ks)
  then obtain x where x: "f k = Some x" by (cases "f k") auto
  then have e: "eval I k = of_bool x" using Cons.prems(2) by simp
  show ?case
  proof (cases x)
    case False
    then show ?thesis using Cons.IH Cons.prems x e by simp
  next
    case True
    then show ?thesis using Cons.prems(1) x e by simp
  qed
qed simp

lemma ev_int_eval:
  assumes "ev_int op i j = Some v" and "s \<noteq> VS_REAL"
  shows "\<not> is_mreal v \<and> op_sem I op s p [of_int i, of_int j] = of_int (mv_i v)"
  using assms
  by (cases op) (auto simp: ev_int_def fold_int_def op_sem_def div_sem_def mod_sem_def split: if_splits)

lemma ev_rel_int:
  "\<not> is_mreal x \<Longrightarrow> \<not> is_mreal y \<Longrightarrow> op \<in> {VC_EQ, VC_LT, VC_LE} \<Longrightarrow>
   op_sem I op s p [of_int (mv_i x), of_int (mv_i y)] = of_bool (ev_rel op x y)"
  by (auto simp: ev_rel_def op_sem_def)

text \<open>The shape of a successful evaluation, one fact per kind of node.\<close>

definition ev_ok :: "interp \<Rightarrow> mval list \<Rightarrow> nat \<Rightarrow> vcterm \<Rightarrow> bool" where
  "ev_ok I vals k t \<longleftrightarrow> (\<forall>b. eval_bool vals [] k t = Some b \<longrightarrow> eval I t = of_bool b)
     \<and> (\<forall>v. eval_arith vals [] k t = Some v \<longrightarrow> \<not> is_mreal v \<and> eval I t = of_int (mv_i v))"

lemma ev_ok_bin:
  assumes "ev_ok I vals k a" "ev_ok I vals k b" and "op \<in> {VC_EQ, VC_LT, VC_LE}"
  shows "ev_ok I vals k (Node op s [a, b] p)"
proof -
  have "eval I (Node op s [a, b] p) = of_bool r" if e: "eval_bool vals [] k (Node op s [a, b] p) = Some r" for r
  proof (cases "t_sort a = VS_BOOL \<or> t_sort b = VS_BOOL")
    case True
    then obtain x y where "op = VC_EQ" "eval_bool vals [] k a = Some x" "eval_bool vals [] k b = Some y" "r = (x = y)"
      using e assms(3) by (auto split: option.splits if_splits)
    then show ?thesis using assms(1,2) by (simp add: ev_ok_def op_sem_def)
  next
    case False
    then obtain x y where xy: "eval_arith vals [] k a = Some x" "eval_arith vals [] k b = Some y" "r = ev_rel op x y"
      using e assms(3) by (auto split: option.splits)
    then have v: "eval I a = of_int (mv_i x)" "eval I b = of_int (mv_i y)" "\<not> is_mreal x" "\<not> is_mreal y"
      using assms(1,2) by (auto simp: ev_ok_def)
    show ?thesis using ev_rel_int [OF v(3,4) assms(3), of I s p] xy(3) v(1,2) by simp
  qed
  moreover have "eval_arith vals [] k (Node op s [a, b] p) = None" using assms(3) by auto
  ultimately show ?thesis by (simp add: ev_ok_def)
qed

lemma ev_ok_arith:
  assumes "ev_ok I vals k a" "ev_ok I vals k b" and op: "op \<in> {VC_ADD, VC_SUB, VC_MUL, VC_DIV, VC_MOD}" and s: "s \<noteq> VS_REAL"
  shows "ev_ok I vals k (Node op s [a, b] p)"
proof -
  have "\<not> is_mreal r \<and> eval I (Node op s [a, b] p) = of_int (mv_i r)"
    if e: "eval_arith vals [] k (Node op s [a, b] p) = Some r" for r
  proof -
    obtain x y where xy: "eval_arith vals [] k a = Some x" "eval_arith vals [] k b = Some y"
      using e op by (auto split: option.splits)
    then have v: "eval I a = of_int (mv_i x)" "eval I b = of_int (mv_i y)" "\<not> is_mreal x" "\<not> is_mreal y"
      using assms(1,2) by (auto simp: ev_ok_def)
    have "ev_int op (mv_i x) (mv_i y) = Some r" using e op xy v(3,4) by auto
    then show ?thesis using ev_int_eval [OF _ s, of op "mv_i x" "mv_i y" r I p] v(1,2) by simp
  qed
  moreover have "eval_bool vals [] k (Node op s [a, b] p) = None" using op by auto
  ultimately show ?thesis by (simp add: ev_ok_def)
qed

lemma eval_shape:
  "op = VC_CONST_REAL \<or> op \<in> {VC_TRUE, VC_FALSE, VC_CONST_INT} \<or> op = VC_VAR \<or> op \<in> {VC_AND, VC_OR}
   \<or> (\<exists>a b. op \<in> {VC_EQ, VC_LT, VC_LE} \<and> ks = [a, b])
   \<or> (\<exists>a b. op \<in> {VC_ADD, VC_SUB, VC_MUL, VC_DIV, VC_MOD} \<and> ks = [a, b])
   \<or> (\<exists>a b. op = VC_IMPLIES \<and> ks = [a, b]) \<or> (\<exists>a. op = VC_NOT \<and> ks = [a]) \<or> (\<exists>a. op = VC_NEG \<and> ks = [a])
   \<or> eval_bool vals [] k (Node op s ks p) = None \<and> eval_arith vals [] k (Node op s ks p) = None"
  by (cases op) (simp_all add: model_def_of_def split: list.split)

lemma ev_ok_node:
  assumes vals: "\<forall>v\<in>set vals. \<not> is_mreal v" and n: "int_node (length vals) (Node op s ks p)"
    and kid: "\<And>x. x \<in> set ks \<Longrightarrow> ev_ok (val_interp vals) vals k x"
  shows "ev_ok (val_interp vals) vals k (Node op s ks p)"
proof -
  let ?I = "val_interp vals" and ?t = "Node op s ks p"
  have s: "s \<noteq> VS_REAL" and op: "op \<noteq> VC_CONST_REAL" using n by (auto simp: int_node_def)
  from eval_shape [of op ks vals k s p] show ?thesis
  proof (elim disjE exE conjE)
    assume "op = VC_CONST_REAL"
    then show ?thesis using op by simp
  next
    assume "op \<in> {VC_TRUE, VC_FALSE, VC_CONST_INT}"
    then show ?thesis by (elim insertE emptyE) (simp_all add: ev_ok_def op_sem_def split: list.split)
  next
    assume var: "op = VC_VAR"
    then have "as_idx p < length vals" using n by (simp add: int_node_def)
    then have "\<not> is_mreal (vals ! as_idx p)" using vals by simp
    with var s show ?thesis by (cases s) (auto simp: ev_ok_def op_sem_def val_interp_def coerce_def)
  next
    assume conn: "op \<in> {VC_AND, VC_OR}"
    have e: "eval_bool vals [] k x = Some b \<Longrightarrow> eval ?I x = of_bool b" if "x \<in> set ks" for x b
      using kid [OF that] by (simp add: ev_ok_def)
    from conn show ?thesis
      using and_loop_eval [of "eval_bool vals [] k" ks _ ?I] or_loop_eval [of "eval_bool vals [] k" ks _ ?I] e
      by (elim insertE emptyE) (simp_all add: ev_ok_def op_sem_def split: list.split)
  next
    fix a b
    assume "op \<in> {VC_EQ, VC_LT, VC_LE}" "ks = [a, b]"
    then show ?thesis using ev_ok_bin kid by simp
  next
    fix a b
    assume "op \<in> {VC_ADD, VC_SUB, VC_MUL, VC_DIV, VC_MOD}" "ks = [a, b]"
    then show ?thesis using ev_ok_arith s kid by simp
  next
    fix a b
    assume "op = VC_IMPLIES" "ks = [a, b]"
    then show ?thesis using kid [of a] kid [of b] by (auto simp: ev_ok_def op_sem_def split: option.splits if_splits)
  next
    fix a
    assume "op = VC_NOT" "ks = [a]"
    then show ?thesis using kid [of a] by (auto simp: ev_ok_def op_sem_def)
  next
    fix a
    assume "op = VC_NEG" "ks = [a]"
    then show ?thesis using kid [of a] by (auto simp: ev_ok_def op_sem_def split: option.splits mval.splits)
  next
    assume "eval_bool vals [] k ?t = None" "eval_arith vals [] k ?t = None"
    then show ?thesis by (simp add: ev_ok_def)
  qed
qed

lemma eval_model_sound:
  assumes "\<forall>v\<in>set vals. \<not> is_mreal v" and "all_nodes (int_node (length vals)) t"
  shows "ev_ok (val_interp vals) vals k t"
  using assms(2)
proof (induction t)
  case (Node op s ks p)
  then show ?case using ev_ok_node [OF assms(1)] by simp
qed

section \<open>The search finds a model\<close>

definition all_int :: "mval list \<Rightarrow> bool" where
  "all_int c \<longleftrightarrow> (\<forall>x\<in>set c. \<not> is_mreal x)"

lemma all_int_Nil [simp]: "all_int []"
  by (simp add: all_int_def)

lemma all_int_add [simp]: "all_int c \<Longrightarrow> all_int (add_cand_int v c)"
  by (auto simp: all_int_def add_cand_int_def)

lemma all_int_fold: "all_int c \<Longrightarrow> all_int (fold add_cand_int vs c)"
  by (induction vs arbitrary: c) simp_all

lemma int_cands_ok: "all_int (int_cands lits)"
proof -
  have "all_int (fold (\<lambda>l c. if is_mreal l then c
                 else let c1 = add_cand_int (mv_i l) c;
                          c2 = (if mv_i l < INT64_MAX then add_cand_int (mv_i l + 1) c1 else c1)
                      in if INT64_MIN < mv_i l then add_cand_int (mv_i l - 1) c2 else c2) lits c)"
    if "all_int c" for c
    using that
  proof (induction lits arbitrary: c)
    case (Cons l lits)
    show ?case using Cons.prems by (simp add: Let_def Cons.IH)
  qed simp
  then show ?thesis unfolding int_cands_def using all_int_fold all_int_Nil by blast
qed

lemma odometer_ok:
  "vals \<in> set (odometer cs) \<Longrightarrow> length vals = length cs \<and> (\<forall>i<length cs. vals ! i \<in> set (cs ! i))"
  by (induction cs arbitrary: vals) (auto simp: less_Suc_eq_0_disj)

lemma model_scan_ok:
  "model_scan vc g defs first vs = Some vals \<Longrightarrow> vals \<in> set vs \<and> model_check vc g defs vals = Some True"
  by (induction vs arbitrary: first) (auto split: option.splits bool.splits if_splits)

theorem refine_model_search_sound:
  assumes m: "refine_model_search vc = Some m" and g: "goal vc = Some g" and u: "ufuncs vc = []"
    and sorts: "\<forall>v\<in>set (vars vc). v_sort v \<noteq> VS_REAL"
    and nodes: "\<forall>t\<in>set (g # hyps vc). all_nodes (int_node (length (vars vc))) t"
  shows "\<exists>I. holds_all I (hyps vc) \<and> \<not> holds I g"
proof -
  let ?cands = "model_cands vc g"
  obtain vals where s: "model_scan vc g [] True (odometer ?cands) = Some vals"
    using m g u by (auto simp: refine_model_search_def Let_def split: if_splits)
  note ok = model_scan_ok [OF s]
  have len: "length vals = length (vars vc)" using odometer_ok [of vals ?cands] ok by (simp add: model_cands_def Let_def)
  have ints: "\<forall>v\<in>set vals. \<not> is_mreal v"
  proof
    fix x
    assume "x \<in> set vals"
    then obtain i where i: "i < length vals" "x = vals ! i" by (auto simp: in_set_conv_nth)
    then have "x \<in> set (?cands ! i)" using odometer_ok [of vals ?cands] ok len by (auto simp: model_cands_def Let_def)
    then have "x \<in> set (var_cands vc (collect_lits g (fold collect_lits (hyps vc) [])) i)"
      using i len by (simp add: model_cands_def Let_def)
    moreover have "v_sort (vars vc ! i) \<noteq> VS_REAL" using sorts i len by simp
    then have "all_int (var_cands vc lits i)" for lits
      by (auto simp: var_cands_def int_cands_ok split: vcsort.split)
    ultimately show "\<not> is_mreal x" using i(2) unfolding all_int_def by blast
  qed
  have ev: "ev_ok (val_interp vals) vals MODEL_DEF_DEPTH t" if "t \<in> set (g # hyps vc)" for t
    using eval_model_sound [OF ints, unfolded len] nodes that by blast
  have hy: "and_loop (map (eval_bool vals [] MODEL_DEF_DEPTH) (hyps vc)) = Some True"
    and gl: "eval_bool vals [] MODEL_DEF_DEPTH g = Some False"
    using ok by (auto simp: model_check_def split: option.splits if_splits)
  have "holds_all (val_interp vals) (hyps vc)"
    using and_loop_Some [OF hy] ev by (auto simp: holds_all_def holds_def ev_ok_def)
  moreover have "\<not> holds (val_interp vals) g" using ev [of g] gl by (auto simp: holds_def ev_ok_def)
  ultimately show ?thesis by blast
qed

end
