(* ===== verification/Discharge.thy ===== *)
theory Discharge
  imports Memo ModelSearch
begin

text \<open>
  The discharge pass (\<open>src/compiler/refine_discharge.c\<close>): one obligation is decided by the memo or
  by the chain, an undecided one is tried by the bounded model search, and the verdict is counted,
  recorded on the obligation and reported. \<open>refine_vc_build\<close> (another file) is a parameter: its
  result is the field \<open>ob_vc\<close>. A report is its diagnostic code with the data it prints; the texts,
  the dump and the counters of unfoldings and caps are left out.
\<close>

section \<open>Obligations, statistics and reports\<close>

record obligation =
  ob_vc :: "refinevc option"
  ob_fuel_out :: bool
  ob_runtime_guarded :: bool
  ob_speculative :: bool
  ob_path_probe :: bool
  ob_quiet :: bool
  ob_discharged :: bool
  ob_proven :: bool
  ob_memo_hit :: bool
  ob_refuted :: bool
  ob_refuted_closed :: bool
  ob_decided_by :: "string option"
  ob_counterex :: "binding list option"

record refinestats =
  rs_collected :: nat
  rs_proven :: nat
  rs_invalid :: nat
  rs_unknown :: nat
  rs_backend_calls :: nat
  rs_templates_tried :: nat
  rs_inferred :: nat
  rs_memo_hits :: nat
  rs_path_probes :: nat
  rs_proven_by_path :: nat

definition stats_zero :: refinestats where
  "stats_zero = \<lparr>rs_collected = 0, rs_proven = 0, rs_invalid = 0, rs_unknown = 0, rs_backend_calls = 0,
     rs_templates_tried = 0, rs_inferred = 0, rs_memo_hits = 0, rs_path_probes = 0, rs_proven_by_path = 0\<rparr>"

datatype severity = DIAG_ERROR | DIAG_WARNING

datatype prednote = PN_UNKNOWN | PN_REFUTED | PN_REFUTED_CLOSED

datatype diag =
    TUR_E0371_REFINE_NOT_PROVED
  | TUR_W0372_REFINE_UNKNOWN severity
  | TUR_W0373_REFINE_NONLINEAR
  | TUR_W0385_REFLECT_FUEL_EXHAUSTED severity
  | NotePredicate prednote
  | NoteModel "binding list"
  | HelpHint hintnote

record dstate =
  ds_memo :: memo
  ds_stats :: refinestats
  ds_strict :: bool
  ds_diags :: "diag list"

definition refine_discharge_reset :: "bool \<Rightarrow> dstate" where
  "refine_discharge_reset strict = \<lparr>ds_memo = memo_reset, ds_stats = stats_zero, ds_strict = strict, ds_diags = []\<rparr>"

definition emit :: "diag list \<Rightarrow> dstate \<Rightarrow> dstate" where
  "emit d st = st\<lparr>ds_diags := ds_diags st @ d\<rparr>"

definition bump :: "(refinestats \<Rightarrow> refinestats) \<Rightarrow> dstate \<Rightarrow> dstate" where
  "bump f st = st\<lparr>ds_stats := f (ds_stats st)\<rparr>"

definition refine_note_split_proven :: "dstate \<Rightarrow> dstate" where
  "refine_note_split_proven =
     bump (\<lambda>s. s\<lparr>rs_collected := rs_collected s + 1, rs_proven := rs_proven s + 1,
                 rs_proven_by_path := rs_proven_by_path s + 1\<rparr>)"

section \<open>Reports\<close>

definition VC_GROUND_MAX_DEPTH :: nat where "VC_GROUND_MAX_DEPTH = 64"

fun vc_term_is_ground :: "vcterm \<Rightarrow> nat \<Rightarrow> bool" where
  "vc_term_is_ground (Node op s ks p) depth =
     (if VC_GROUND_MAX_DEPTH \<le> depth then False
      else if op = VC_VAR \<or> op = VC_APP then False
      else (\<forall>k\<in>set ks. vc_term_is_ground k (depth + 1)))"

definition emit_model_note :: "binding list option \<Rightarrow> bool \<Rightarrow> dstate \<Rightarrow> dstate" where
  "emit_model_note m cls st =
     (if cls then st
      else case m of None \<Rightarrow> st | Some [] \<Rightarrow> st | Some bs \<Rightarrow> emit [NoteModel bs] st)"

definition hint_show :: "refinevc \<Rightarrow> hint \<Rightarrow> hintnote" where
  "hint_show vc h =
     (let v = vars vc ! h_var h; real = (v_sort v = VS_REAL)
      in \<lparr>hn_op = h_op h, hn_var = v_name v,
          hn_arg = (case h_arg h of
                      HLit b \<Rightarrow> if real then ShowReal (f64_of_int b) else ShowInt b
                    | HVar j \<Rightarrow> ShowVar (v_name (vars vc ! j))),
          hn_real = real\<rparr>)"

definition emit_help :: "hintnote option \<Rightarrow> dstate \<Rightarrow> dstate" where
  "emit_help h st = (case h of None \<Rightarrow> st | Some n \<Rightarrow> emit [HelpHint n] st)"

definition emit_hint :: "(vcterm \<Rightarrow> u32) \<Rightarrow> bool \<Rightarrow> refinevc \<Rightarrow> dstate \<Rightarrow> dstate" where
  "emit_hint idf inc vc st =
     (let slot = memo_slot (ds_memo st) vc (refine_vc_fingerprint vc);
          search = map_option (hint_show vc) (refine_hint_search idf inc vc)
      in case slot of
           None \<Rightarrow> emit_help search st
         | Some i \<Rightarrow>
             (case ms_hint (the (g_memo (ds_memo st) ! i)) of
                Some h \<Rightarrow> emit_help h st
              | None \<Rightarrow> emit_help search (st\<lparr>ds_memo := memo_set_hint (ds_memo st) i search\<rparr>)))"

definition refine_emit_obligation_notes ::
  "(vcterm \<Rightarrow> u32) \<Rightarrow> bool \<Rightarrow> obligation \<Rightarrow> bool \<Rightarrow> bool \<Rightarrow> dstate \<Rightarrow> dstate" where
  "refine_emit_obligation_notes idf inc ob refuted cls st =
     (let st1 = (if refuted then
                   emit_model_note (ob_counterex ob) cls
                     (emit [NotePredicate (if cls then PN_REFUTED_CLOSED else PN_REFUTED)] st)
                 else emit [NotePredicate PN_UNKNOWN] st)
      in case ob_vc ob of None \<Rightarrow> st1 | Some vc \<Rightarrow> emit_hint idf inc vc st1)"

section \<open>Deciding one condition\<close>

record decision =
  dc_verdict :: verdict
  dc_model :: "binding list option"
  dc_by :: "string option"
  dc_hit :: bool

text \<open>The memo, else the chain, whose answer the memo takes.\<close>

definition decide_proof :: "(vcterm \<Rightarrow> u32) \<Rightarrow> bool \<Rightarrow> refinevc \<Rightarrow> dstate \<Rightarrow> decision \<times> dstate" where
  "decide_proof idf inc vc st =
     (let fp = refine_vc_fingerprint vc
      in case memo_lookup (ds_memo st) vc fp of
           Some proven \<Rightarrow>
             (\<lparr>dc_verdict = (if proven then RT_VALID else RT_UNKNOWN), dc_model = None, dc_by = None, dc_hit = True\<rparr>,
              bump (\<lambda>s. s\<lparr>rs_memo_hits := rs_memo_hits s + 1\<rparr>) st)
         | None \<Rightarrow>
             let (v, calls, d) = run_counted (CHAIN_CC idf inc) 0 vc cc_empty
             in (\<lparr>dc_verdict = v, dc_model = None, dc_by = map_option (\<lambda>i. CHAIN_NAMES ! i) d, dc_hit = False\<rparr>,
                 bump (\<lambda>s. s\<lparr>rs_backend_calls := rs_backend_calls s + calls\<rparr>)
                   (st\<lparr>ds_memo := memo_insert (ds_memo st) vc fp (v = RT_VALID)\<rparr>)))"

text \<open>What stays unknown is handed to the counterexample search.\<close>

definition decide_refute :: "refinevc \<Rightarrow> decision \<Rightarrow> decision" where
  "decide_refute vc d =
     (if dc_verdict d \<noteq> RT_UNKNOWN then d
      else case refine_model_search vc of
             None \<Rightarrow> d
           | Some m \<Rightarrow> d\<lparr>dc_verdict := RT_INVALID, dc_model := Some m, dc_by := Some ''bounded model search''\<rparr>)"

definition is_closed :: "refinevc \<Rightarrow> binding list option \<Rightarrow> bool" where
  "is_closed vc m =
     (m = None \<or> m = Some [] \<or> (case goal vc of None \<Rightarrow> True | Some g \<Rightarrow> vc_term_is_ground g 0))"

section \<open>The pass\<close>

definition strict_sev :: "dstate \<Rightarrow> severity" where
  "strict_sev st = (if ds_strict st then DIAG_ERROR else DIAG_WARNING)"

text \<open>A speculative probe reports nothing and is not an obligation of the program.\<close>

definition discharge_probe :: "(vcterm \<Rightarrow> u32) \<Rightarrow> bool \<Rightarrow> obligation \<Rightarrow> dstate \<Rightarrow> bool \<times> obligation \<times> dstate" where
  "discharge_probe idf inc ob st =
     (let st1 = bump (\<lambda>s. if ob_path_probe ob then s\<lparr>rs_path_probes := rs_path_probes s + 1\<rparr>
                          else s\<lparr>rs_templates_tried := rs_templates_tried s + 1\<rparr>) st
      in case ob_vc ob of
           None \<Rightarrow> (False, ob, st1)
         | Some vc \<Rightarrow>
             let (v, calls, d) = run_counted (CHAIN_CC idf inc) 0 vc cc_empty;
                 st2 = bump (\<lambda>s. s\<lparr>rs_backend_calls := rs_backend_calls s + calls\<rparr>) st1
             in if v = RT_VALID then
                  (True, ob\<lparr>ob_proven := True\<rparr>,
                   (if ob_path_probe ob then st2 else bump (\<lambda>s. s\<lparr>rs_inferred := rs_inferred s + 1\<rparr>) st2))
                else (False, ob, st2))"

text \<open>The condition could not be built.\<close>

definition discharge_unencoded :: "obligation \<Rightarrow> dstate \<Rightarrow> bool \<times> obligation \<times> dstate" where
  "discharge_unencoded ob st =
     (let st1 = bump (\<lambda>s. s\<lparr>rs_unknown := rs_unknown s + 1\<rparr>) st
      in if ob_quiet ob then (False, ob, st1)
         else if ds_strict st \<or> \<not> ob_runtime_guarded ob
              then (False, ob, emit [TUR_W0372_REFINE_UNKNOWN (strict_sev st)] st1)
              else (False, ob, st1))"

definition discharge_invalid ::
  "(vcterm \<Rightarrow> u32) \<Rightarrow> bool \<Rightarrow> refinevc \<Rightarrow> binding list option \<Rightarrow> obligation \<Rightarrow> dstate \<Rightarrow> bool \<times> obligation \<times> dstate" where
  "discharge_invalid idf inc vc m ob st =
     (let cls = is_closed vc m
      in if ob_runtime_guarded ob \<and> \<not> cls \<and> \<not> ds_strict st
         then (False, ob, bump (\<lambda>s. s\<lparr>rs_unknown := rs_unknown s + 1\<rparr>) st)
         else
           let ob1 = ob\<lparr>ob_counterex := m\<rparr>; st1 = bump (\<lambda>s. s\<lparr>rs_invalid := rs_invalid s + 1\<rparr>) st
           in if ob_quiet ob then (False, ob1\<lparr>ob_refuted := True, ob_refuted_closed := cls\<rparr>, st1)
              else (False, ob1,
                    emit_hint idf inc vc (emit_model_note m cls
                      (emit [TUR_E0371_REFINE_NOT_PROVED, NotePredicate (if cls then PN_REFUTED_CLOSED else PN_REFUTED)] st1))))"

definition discharge_unknown ::
  "(vcterm \<Rightarrow> u32) \<Rightarrow> bool \<Rightarrow> refinevc \<Rightarrow> obligation \<Rightarrow> dstate \<Rightarrow> bool \<times> obligation \<times> dstate" where
  "discharge_unknown idf inc vc ob st =
     (let st1 = bump (\<lambda>s. s\<lparr>rs_unknown := rs_unknown s + 1\<rparr>) st
      in if ob_quiet ob then (False, ob, st1)
         else if ds_strict st \<or> \<not> ob_runtime_guarded ob then
           (False, ob,
            emit_hint idf inc vc
              (emit ((if ob_fuel_out ob then [TUR_W0385_REFLECT_FUEL_EXHAUSTED (strict_sev st)] else [])
                     @ [TUR_W0372_REFINE_UNKNOWN (strict_sev st), NotePredicate PN_UNKNOWN]) st1))
         else (False, ob, st1))"

definition warn_nonlinear :: "refinevc \<Rightarrow> obligation \<Rightarrow> dstate \<Rightarrow> dstate" where
  "warn_nonlinear vc ob st =
     (if (\<exists>u\<in>set (ufuncs vc). u_nonlinear u) \<and> \<not> ob_runtime_guarded ob
      then emit [TUR_W0373_REFINE_NONLINEAR] st else st)"

definition refine_discharge_one :: "(vcterm \<Rightarrow> u32) \<Rightarrow> bool \<Rightarrow> obligation \<Rightarrow> dstate \<Rightarrow> bool \<times> obligation \<times> dstate" where
  "refine_discharge_one idf inc ob st =
     (if ob_discharged ob then (ob_proven ob, ob, st)
      else
        let ob0 = ob\<lparr>ob_discharged := True\<rparr>
        in if ob_speculative ob then discharge_probe idf inc ob0 st
           else
             let st1 = bump (\<lambda>s. s\<lparr>rs_collected := rs_collected s + 1\<rparr>) st
             in case ob_vc ob of
                  None \<Rightarrow> discharge_unencoded ob0 st1
                | Some vc \<Rightarrow>
                    let (d0, st2) = decide_proof idf inc vc (warn_nonlinear vc ob st1);
                        d = decide_refute vc d0;
                        ob1 = ob0\<lparr>ob_memo_hit := dc_hit d, ob_decided_by := (case dc_by d of None \<Rightarrow> ob_decided_by ob | Some n \<Rightarrow> Some n)\<rparr>
                    in case dc_verdict d of
                         RT_VALID \<Rightarrow> (True, ob1\<lparr>ob_proven := True\<rparr>, bump (\<lambda>s. s\<lparr>rs_proven := rs_proven s + 1\<rparr>) st2)
                       | RT_INVALID \<Rightarrow> discharge_invalid idf inc vc (dc_model d) ob1 st2
                       | RT_UNKNOWN \<Rightarrow> discharge_unknown idf inc vc ob1 st2)"

fun refine_discharge_all :: "(vcterm \<Rightarrow> u32) \<Rightarrow> bool \<Rightarrow> obligation list \<Rightarrow> dstate \<Rightarrow> obligation list \<times> dstate" where
  "refine_discharge_all idf inc [] st = ([], st)"
| "refine_discharge_all idf inc (ob # obs) st =
     (let (r, ob', st1) = refine_discharge_one idf inc ob st;
          (obs', st2) = refine_discharge_all idf inc obs st1
      in (ob' # obs', st2))"

end
