(* ===== verification/DischargeSound.thy ===== *)
theory DischargeSound
  imports Discharge
begin

text \<open>
  Correctness of the discharge pass: a proven obligation is entailed, whether the chain or the memo
  answered; the memo stays sound; every obligation is counted once; a refutation comes with a
  counterexample; and deciding twice is deciding once.
\<close>

definition balanced :: "refinestats \<Rightarrow> bool" where
  "balanced s \<longleftrightarrow> rs_collected s = rs_proven s + rs_invalid s + rs_unknown s"

definition dstate_ok :: "dstate \<Rightarrow> bool" where
  "dstate_ok st \<longleftrightarrow> memo_inv (ds_memo st) \<and> memo_sound (ds_memo st) \<and> balanced (ds_stats st)"

named_theorems ds_frame \<open>what the small state updates leave alone\<close>

lemma emit_frame [ds_frame]:
  "ds_memo (emit d st) = ds_memo st" "ds_stats (emit d st) = ds_stats st" "ds_strict (emit d st) = ds_strict st"
  "ds_diags (emit d st) = ds_diags st @ d"
  by (simp_all add: emit_def)

lemma bump_frame [ds_frame]:
  "ds_memo (bump f st) = ds_memo st" "ds_stats (bump f st) = f (ds_stats st)" "ds_strict (bump f st) = ds_strict st"
  "ds_diags (bump f st) = ds_diags st"
  by (simp_all add: bump_def)

lemma emit_model_note_frame [ds_frame]:
  "ds_memo (emit_model_note m c st) = ds_memo st" "ds_stats (emit_model_note m c st) = ds_stats st"
  "ds_strict (emit_model_note m c st) = ds_strict st"
  by (simp_all add: emit_model_note_def ds_frame split: option.split list.split)

lemma emit_help_frame [ds_frame]:
  "ds_memo (emit_help h st) = ds_memo st" "ds_stats (emit_help h st) = ds_stats st"
  "ds_strict (emit_help h st) = ds_strict st"
  by (simp_all add: emit_help_def ds_frame split: option.split)

lemma emit_hint_frame [ds_frame]:
  "ds_stats (emit_hint idf inc vc st) = ds_stats st" "ds_strict (emit_hint idf inc vc st) = ds_strict st"
  by (simp_all add: emit_hint_def Let_def ds_frame split: option.split)

lemma emit_hint_memo:
  assumes "memo_inv (ds_memo st)" and "memo_sound (ds_memo st)"
  shows "memo_inv (ds_memo (emit_hint idf inc vc st)) \<and> memo_sound (ds_memo (emit_hint idf inc vc st))"
  using assms memo_set_hint_inv [OF assms] by (simp add: emit_hint_def Let_def ds_frame split: option.split)

section \<open>Deciding\<close>

lemma decide_proof_ok:
  assumes d: "decide_proof idf inc vc st = (d, st')" and f: "chain_frag vc"
    and m: "memo_inv (ds_memo st)" "memo_sound (ds_memo st)"
  shows "memo_inv (ds_memo st') \<and> memo_sound (ds_memo st') \<and> (dc_verdict d = RT_VALID \<longrightarrow> entailed vc)
     \<and> dc_verdict d \<noteq> RT_INVALID"
proof (cases "memo_lookup (ds_memo st) vc (refine_vc_fingerprint vc)")
  case None
  obtain v n k where r: "run_counted (CHAIN_CC idf inc) 0 vc cc_empty = (v, n, k)" by (metis prod_cases3)
  have v: "v = run_chain idf inc vc"
    using run_counted_verdict [of "CHAIN_CC idf inc" 0 vc cc_empty] r by (simp add: run_chain_def)
  have "v = RT_VALID \<Longrightarrow> entailed vc" using run_chain_sound [OF f] v by simp
  then have "memo_inv (memo_insert (ds_memo st) vc (refine_vc_fingerprint vc) (v = RT_VALID))
      \<and> memo_sound (memo_insert (ds_memo st) vc (refine_vc_fingerprint vc) (v = RT_VALID))"
    using memo_insert_inv [OF m] by blast
  moreover have "dc_verdict d = v" "ds_memo st' = memo_insert (ds_memo st) vc (refine_vc_fingerprint vc) (v = RT_VALID)"
    using d None r by (auto simp: decide_proof_def Let_def ds_frame)
  ultimately show ?thesis using run_chain_sound [OF f] run_chain_not_invalid v by simp
next
  case (Some p)
  then show ?thesis using d m memo_lookup_sound [OF m, of vc "refine_vc_fingerprint vc"]
    by (cases p) (auto simp: decide_proof_def Let_def ds_frame)
qed

lemma decide_proof_frame:
  assumes "decide_proof idf inc vc st = (d, st')"
  shows "balanced (ds_stats st') = balanced (ds_stats st)" "ds_strict st' = ds_strict st" "ds_diags st' = ds_diags st"
    "rs_collected (ds_stats st') = rs_collected (ds_stats st)" "rs_proven (ds_stats st') = rs_proven (ds_stats st)"
    "rs_invalid (ds_stats st') = rs_invalid (ds_stats st)" "rs_unknown (ds_stats st') = rs_unknown (ds_stats st)"
  using assms by (auto simp: decide_proof_def Let_def ds_frame balanced_def split: option.splits prod.splits)

lemma decide_refute_cases:
  "decide_refute vc d = d \<or> dc_verdict d = RT_UNKNOWN \<and>
     (\<exists>m. refine_model_search vc = Some m \<and> dc_verdict (decide_refute vc d) = RT_INVALID \<and> dc_model (decide_refute vc d) = Some m)"
  by (auto simp: decide_refute_def split: option.split)

lemma decide_refute_ok:
  assumes "dc_verdict d \<noteq> RT_INVALID"
  shows "dc_verdict (decide_refute vc d) = RT_VALID \<Longrightarrow> dc_verdict d = RT_VALID"
    and "dc_verdict (decide_refute vc d) = RT_INVALID \<Longrightarrow>
       dc_model (decide_refute vc d) \<noteq> None \<and> dc_model (decide_refute vc d) = refine_model_search vc"
  using assms decide_refute_cases [of vc d] by auto

section \<open>One obligation\<close>

definition ob_frag :: "obligation \<Rightarrow> bool" where
  "ob_frag ob \<longleftrightarrow> (\<forall>vc. ob_vc ob = Some vc \<longrightarrow> chain_frag vc)"

definition ob_entailed :: "obligation \<Rightarrow> bool" where
  "ob_entailed ob \<longleftrightarrow> (\<exists>vc. ob_vc ob = Some vc \<and> entailed vc)"

text \<open>What every way through the pass promises of the answer and of the state.\<close>

definition discharged_ok :: "obligation \<Rightarrow> bool \<times> obligation \<times> dstate \<Rightarrow> bool" where
  "discharged_ok ob r = (case r of (b, ob', st') \<Rightarrow>
     dstate_ok st' \<and> ob_discharged ob' \<and> ob_vc ob' = ob_vc ob \<and> b = ob_proven ob' \<and> (b \<longrightarrow> ob_entailed ob))"

lemma probe_ok:
  assumes "dstate_ok st" "ob_frag ob" "ob_discharged ob" "\<not> ob_proven ob"
  shows "discharged_ok ob (discharge_probe idf inc ob st)"
proof (cases "ob_vc ob")
  case None
  then show ?thesis using assms
    by (simp add: discharge_probe_def discharged_ok_def dstate_ok_def balanced_def Let_def ds_frame)
next
  case (Some vc)
  obtain v n k where r: "run_counted (CHAIN_CC idf inc) 0 vc cc_empty = (v, n, k)" by (metis prod_cases3)
  have "v = run_chain idf inc vc"
    using run_counted_verdict [of "CHAIN_CC idf inc" 0 vc cc_empty] r by (simp add: run_chain_def)
  then have "v = RT_VALID \<Longrightarrow> ob_entailed ob"
    using run_chain_sound Some assms(2) by (auto simp: ob_frag_def ob_entailed_def)
  then show ?thesis using assms Some r
    by (simp add: discharge_probe_def discharged_ok_def dstate_ok_def balanced_def Let_def ds_frame ob_entailed_def)
qed

definition owes_one :: "dstate \<Rightarrow> bool" where
  "owes_one st \<longleftrightarrow> memo_inv (ds_memo st) \<and> memo_sound (ds_memo st)
     \<and> rs_collected (ds_stats st) = rs_proven (ds_stats st) + rs_invalid (ds_stats st) + rs_unknown (ds_stats st) + 1"

lemma unencoded_ok:
  assumes "owes_one st" "ob_discharged ob" "\<not> ob_proven ob"
  shows "discharged_ok ob (discharge_unencoded ob st)"
  using assms
  by (simp add: discharge_unencoded_def discharged_ok_def dstate_ok_def balanced_def owes_one_def Let_def ds_frame)

lemma invalid_ok:
  assumes "owes_one st" "ob_discharged ob" "\<not> ob_proven ob"
  shows "discharged_ok ob (discharge_invalid idf inc vc m ob st)"
  using assms emit_hint_memo
  by (simp add: discharge_invalid_def discharged_ok_def dstate_ok_def balanced_def owes_one_def Let_def ds_frame)

lemma unknown_ok:
  assumes "owes_one st" "ob_discharged ob" "\<not> ob_proven ob"
  shows "discharged_ok ob (discharge_unknown idf inc vc ob st)"
  using assms emit_hint_memo
  by (simp add: discharge_unknown_def discharged_ok_def dstate_ok_def balanced_def owes_one_def Let_def ds_frame)

lemma discharged_ok_vc: "discharged_ok ob1 r \<Longrightarrow> ob_vc ob1 = ob_vc ob \<Longrightarrow> discharged_ok ob r"
  by (auto simp: discharged_ok_def ob_entailed_def)

lemma warn_nonlinear_frame [ds_frame]:
  "ds_memo (warn_nonlinear vc ob st) = ds_memo st" "ds_stats (warn_nonlinear vc ob st) = ds_stats st"
  "ds_strict (warn_nonlinear vc ob st) = ds_strict st"
  by (simp_all add: warn_nonlinear_def ds_frame)

lemma refine_discharge_one_ok:
  assumes st: "dstate_ok st" and f: "ob_frag ob" and new: "\<not> ob_discharged ob" "\<not> ob_proven ob"
  shows "discharged_ok ob (refine_discharge_one idf inc ob st)"
proof -
  let ?ob0 = "ob\<lparr>ob_discharged := True\<rparr>"
  let ?st1 = "bump (\<lambda>s. s\<lparr>rs_collected := rs_collected s + 1\<rparr>) st"
  have owes: "owes_one ?st1" using st by (simp add: owes_one_def dstate_ok_def balanced_def ds_frame)
  consider (probe) "ob_speculative ob" | (none) "\<not> ob_speculative ob" "ob_vc ob = None"
    | (some) vc where "\<not> ob_speculative ob" "ob_vc ob = Some vc" by blast
  then show ?thesis
  proof cases
    case probe
    have "discharged_ok ?ob0 (discharge_probe idf inc ?ob0 st)"
      using st f new by (intro probe_ok) (auto simp: ob_frag_def)
    then have "discharged_ok ob (discharge_probe idf inc ?ob0 st)" by (rule discharged_ok_vc) simp
    then show ?thesis using probe new by (simp add: refine_discharge_one_def Let_def)
  next
    case none
    have "discharged_ok ?ob0 (discharge_unencoded ?ob0 ?st1)" using owes new by (intro unencoded_ok) auto
    then have "discharged_ok ob (discharge_unencoded ?ob0 ?st1)" by (rule discharged_ok_vc) simp
    then show ?thesis using none new by (simp add: refine_discharge_one_def Let_def)
  next
    case some
    let ?st = "warn_nonlinear vc ob ?st1"
    obtain d0 st2 where d0: "decide_proof idf inc vc ?st = (d0, st2)" by fastforce
    have fr: "chain_frag vc" using f some by (simp add: ob_frag_def)
    have p: "memo_inv (ds_memo st2) \<and> memo_sound (ds_memo st2) \<and> (dc_verdict d0 = RT_VALID \<longrightarrow> entailed vc) \<and> dc_verdict d0 \<noteq> RT_INVALID"
      using owes by (intro decide_proof_ok [OF d0 fr]) (simp_all add: owes_one_def ds_frame)
    have o2: "owes_one st2" using owes p decide_proof_frame(4-7) [OF d0] by (simp add: owes_one_def ds_frame)
    define d where "d = decide_refute vc d0"
    define ob1 where "ob1 = ?ob0\<lparr>ob_memo_hit := dc_hit d, ob_decided_by := (case dc_by d of None \<Rightarrow> ob_decided_by ob | Some n \<Rightarrow> Some n)\<rparr>"
    have ob1: "ob_discharged ob1" "\<not> ob_proven ob1" "ob_vc ob1 = ob_vc ob" using new by (simp_all add: ob1_def)
    have e: "refine_discharge_one idf inc ob st =
        (case dc_verdict d of
           RT_VALID \<Rightarrow> (True, ob1\<lparr>ob_proven := True\<rparr>, bump (\<lambda>s. s\<lparr>rs_proven := rs_proven s + 1\<rparr>) st2)
         | RT_INVALID \<Rightarrow> discharge_invalid idf inc vc (dc_model d) ob1 st2
         | RT_UNKNOWN \<Rightarrow> discharge_unknown idf inc vc ob1 st2)"
      using some new d0 unfolding refine_discharge_one_def Let_def d_def ob1_def by simp
    show ?thesis
    proof (cases "dc_verdict d")
      case RT_VALID
      then have "entailed vc" using p decide_refute_ok(1) by (simp add: d_def)
      then show ?thesis using RT_VALID e o2 ob1 some
        by (simp add: discharged_ok_def dstate_ok_def balanced_def owes_one_def ds_frame ob_entailed_def)
    next
      case RT_INVALID
      then show ?thesis using e discharged_ok_vc [OF invalid_ok [OF o2 ob1(1,2)] ob1(3)] by simp
    next
      case RT_UNKNOWN
      then show ?thesis using e discharged_ok_vc [OF unknown_ok [OF o2 ob1(1,2)] ob1(3)] by simp
    qed
  qed
qed

text \<open>An obligation is decided once.\<close>

lemma refine_discharge_one_idem:
  assumes "refine_discharge_one idf inc ob st = (b, ob', st')" and "ob_discharged ob'" and "b = ob_proven ob'"
  shows "refine_discharge_one idf inc ob' st'' = (b, ob', st'')"
  using assms(2,3) by (simp add: refine_discharge_one_def)

section \<open>All obligations\<close>

definition fresh_ob :: "obligation \<Rightarrow> bool" where
  "fresh_ob ob \<longleftrightarrow> ob_frag ob \<and> \<not> ob_discharged ob \<and> \<not> ob_proven ob"

lemma refine_discharge_all_ok:
  "dstate_ok st \<Longrightarrow> \<forall>ob\<in>set obs. fresh_ob ob \<Longrightarrow> refine_discharge_all idf inc obs st = (obs', st') \<Longrightarrow>
   dstate_ok st' \<and> list_all2 (\<lambda>ob ob'. ob_vc ob' = ob_vc ob \<and> ob_discharged ob' \<and> (ob_proven ob' \<longrightarrow> ob_entailed ob)) obs obs'"
proof (induction obs arbitrary: st obs' st')
  case (Cons ob obs)
  obtain b ob1 st1 where o: "refine_discharge_one idf inc ob st = (b, ob1, st1)" by (metis prod_cases3)
  obtain obs2 st2 where a: "refine_discharge_all idf inc obs st1 = (obs2, st2)" by fastforce
  have "discharged_ok ob (b, ob1, st1)"
    using refine_discharge_one_ok [of st ob idf inc] Cons.prems o by (simp add: fresh_ob_def)
  then show ?case using Cons.IH [OF _ _ a] Cons.prems o a by (auto simp: discharged_ok_def)
qed auto

section \<open>For any condition\<close>

text \<open>
  The bookkeeping holds whatever the conditions are: the memo stays a table, every obligation is
  discharged and counted once, and the answer is the one recorded.
\<close>

definition booked :: "obligation \<Rightarrow> bool \<times> obligation \<times> dstate \<Rightarrow> bool" where
  "booked ob r = (case r of (b, ob', st') \<Rightarrow>
     memo_inv (ds_memo st') \<and> balanced (ds_stats st') \<and> ob_discharged ob' \<and> ob_vc ob' = ob_vc ob \<and> b = ob_proven ob')"

definition booking :: "dstate \<Rightarrow> bool" where
  "booking st \<longleftrightarrow> memo_inv (ds_memo st)
     \<and> rs_collected (ds_stats st) = rs_proven (ds_stats st) + rs_invalid (ds_stats st) + rs_unknown (ds_stats st) + 1"

lemma emit_hint_room: "memo_inv (ds_memo st) \<Longrightarrow> memo_inv (ds_memo (emit_hint idf inc vc st))"
  using memo_set_hint_room by (simp add: emit_hint_def Let_def ds_frame split: option.split)

lemma decide_proof_room:
  assumes "decide_proof idf inc vc st = (d, st')" and "memo_inv (ds_memo st)"
  shows "memo_inv (ds_memo st')"
  using assms memo_insert_room by (auto simp: decide_proof_def Let_def ds_frame split: option.splits prod.splits)

lemma outcome_booked:
  assumes "booking st" "ob_discharged ob" "\<not> ob_proven ob"
  shows "booked ob (discharge_unencoded ob st)" "booked ob (discharge_invalid idf inc vc m ob st)"
    "booked ob (discharge_unknown idf inc vc ob st)"
  using assms emit_hint_room
  by (simp_all add: discharge_unencoded_def discharge_invalid_def discharge_unknown_def booked_def balanced_def booking_def
      Let_def ds_frame)

lemma probe_booked:
  assumes "memo_inv (ds_memo st)" "balanced (ds_stats st)" "ob_discharged ob" "\<not> ob_proven ob"
  shows "booked ob (discharge_probe idf inc ob st)"
  using assms
  by (simp add: discharge_probe_def booked_def balanced_def Let_def ds_frame split: option.split prod.split)

lemma booked_vc: "booked ob1 r \<Longrightarrow> ob_vc ob1 = ob_vc ob \<Longrightarrow> booked ob r"
  by (auto simp: booked_def)

lemma refine_discharge_one_booked:
  assumes st: "memo_inv (ds_memo st)" "balanced (ds_stats st)" and new: "\<not> ob_discharged ob" "\<not> ob_proven ob"
  shows "booked ob (refine_discharge_one idf inc ob st)"
proof -
  let ?ob0 = "ob\<lparr>ob_discharged := True\<rparr>"
  let ?st1 = "bump (\<lambda>s. s\<lparr>rs_collected := rs_collected s + 1\<rparr>) st"
  have owes: "booking ?st1" using st by (simp add: booking_def balanced_def ds_frame)
  consider (probe) "ob_speculative ob" | (none) "\<not> ob_speculative ob" "ob_vc ob = None"
    | (some) vc where "\<not> ob_speculative ob" "ob_vc ob = Some vc" by blast
  then show ?thesis
  proof cases
    case probe
    have "booked ob (discharge_probe idf inc ?ob0 st)" using st new by (intro booked_vc [OF probe_booked]) simp_all
    then show ?thesis using probe new by (simp add: refine_discharge_one_def Let_def)
  next
    case none
    have "booked ob (discharge_unencoded ?ob0 ?st1)" using owes new by (intro booked_vc [OF outcome_booked(1)]) simp_all
    then show ?thesis using none new by (simp add: refine_discharge_one_def Let_def)
  next
    case some
    let ?st = "warn_nonlinear vc ob ?st1"
    obtain d0 st2 where d0: "decide_proof idf inc vc ?st = (d0, st2)" by fastforce
    have o2: "booking st2"
      using owes decide_proof_room [OF d0] decide_proof_frame(4-7) [OF d0] by (simp add: booking_def ds_frame)
    define d where "d = decide_refute vc d0"
    define ob1 where "ob1 = ?ob0\<lparr>ob_memo_hit := dc_hit d, ob_decided_by := (case dc_by d of None \<Rightarrow> ob_decided_by ob | Some n \<Rightarrow> Some n)\<rparr>"
    have ob1: "ob_discharged ob1" "\<not> ob_proven ob1" "ob_vc ob1 = ob_vc ob" using new by (simp_all add: ob1_def)
    have e: "refine_discharge_one idf inc ob st =
        (case dc_verdict d of
           RT_VALID \<Rightarrow> (True, ob1\<lparr>ob_proven := True\<rparr>, bump (\<lambda>s. s\<lparr>rs_proven := rs_proven s + 1\<rparr>) st2)
         | RT_INVALID \<Rightarrow> discharge_invalid idf inc vc (dc_model d) ob1 st2
         | RT_UNKNOWN \<Rightarrow> discharge_unknown idf inc vc ob1 st2)"
      using some new d0 unfolding refine_discharge_one_def Let_def d_def ob1_def by simp
    show ?thesis
      using e o2 ob1 booked_vc [OF outcome_booked(2) [OF o2 ob1(1,2)] ob1(3)] booked_vc [OF outcome_booked(3) [OF o2 ob1(1,2)] ob1(3)]
      by (cases "dc_verdict d") (simp_all add: booked_def balanced_def booking_def ds_frame)
  qed
qed

lemma refine_discharge_all_booked:
  "memo_inv (ds_memo st) \<Longrightarrow> balanced (ds_stats st) \<Longrightarrow> \<forall>ob\<in>set obs. \<not> ob_discharged ob \<and> \<not> ob_proven ob \<Longrightarrow>
   refine_discharge_all idf inc obs st = (obs', st') \<Longrightarrow>
   memo_inv (ds_memo st') \<and> balanced (ds_stats st') \<and> list_all2 (\<lambda>ob ob'. ob_vc ob' = ob_vc ob \<and> ob_discharged ob') obs obs'"
proof (induction obs arbitrary: st obs' st')
  case (Cons ob obs)
  obtain b ob1 st1 where o: "refine_discharge_one idf inc ob st = (b, ob1, st1)" by (metis prod_cases3)
  obtain obs2 st2 where a: "refine_discharge_all idf inc obs st1 = (obs2, st2)" by fastforce
  have "booked ob (b, ob1, st1)"
    using refine_discharge_one_booked [of st ob idf inc] Cons.prems o by simp
  then show ?case using Cons.IH [OF _ _ _ a] Cons.prems o a by (auto simp: booked_def)
qed auto

section \<open>A closed refutation holds for every assignment\<close>

lemma and_loop_cong: "(\<And>x. x \<in> set ks \<Longrightarrow> f x = g x) \<Longrightarrow> and_loop (map f ks) = and_loop (map g ks)"
  by (simp cong: map_cong)

lemma or_loop_cong: "(\<And>x. x \<in> set ks \<Longrightarrow> f x = g x) \<Longrightarrow> or_loop (map f ks) = or_loop (map g ks)"
  by (simp cong: map_cong)

lemma ground_eval:
  "vc_term_is_ground t depth \<Longrightarrow>
   eval_bool vals defs k t = eval_bool vals' defs' k' t \<and> eval_arith vals defs k t = eval_arith vals' defs' k' t"
proof (induction t arbitrary: depth)
  case (Node op s ks p)
  have g: "op \<noteq> VC_VAR" "op \<noteq> VC_APP" and kg: "\<And>x. x \<in> set ks \<Longrightarrow> vc_term_is_ground x (depth + 1)"
    using Node.prems by (auto split: if_splits)
  have b: "eval_bool vals defs k x = eval_bool vals' defs' k' x" and a: "eval_arith vals defs k x = eval_arith vals' defs' k' x"
    if "x \<in> set ks" for x
    using Node.IH [OF that kg [OF that]] by auto
  note loops = and_loop_cong [of ks "eval_bool vals defs k" "eval_bool vals' defs' k'", OF b]
    or_loop_cong [of ks "eval_bool vals defs k" "eval_bool vals' defs' k'", OF b]
  show ?case
  proof (cases "op = VC_AND \<or> op = VC_OR")
    case True
    then show ?thesis using loops by (auto split: list.split)
  next
    case False
    then show ?thesis using g a b by (cases op) (simp_all split: list.split cong: option.case_cong if_cong)
  qed
qed

end
