(* ===== verification/Examples.thy ===== *)
theory Examples
  imports DischargeSound
begin

text \<open>
  Small conditions built with the constructors of the code, on which the properties are applied:
  from \<open>x < y\<close> and \<open>y \<le> 3\<close> follow \<open>x < 4\<close> (by arithmetic) and \<open>x < y\<close> (at once); \<open>x < 0\<close> is not
  valid.
\<close>

definition ex_x :: vcterm where "ex_x = Node VC_VAR VS_INT [] (PIdx 0)"

definition ex_y :: vcterm where "ex_y = Node VC_VAR VS_INT [] (PIdx 1)"

definition ex_less :: "vcterm \<Rightarrow> vcterm \<Rightarrow> vcterm" where
  "ex_less a b = Node VC_LT VS_BOOL [a, b] PNone"

definition ex_with :: "vcterm \<Rightarrow> vcterm \<Rightarrow> refinevc" where
  "ex_with a b =
     (let (v1, x) = vc_declare_var vc_new ''x'' VS_INT;
          (v2, y) = vc_declare_var v1 ''y'' VS_INT;
          h1 = vc_mk VC_LT [vc_var_ref v2 x, vc_var_ref v2 y];
          h2 = vc_mk VC_LE [vc_var_ref v2 y, vc_int 3]
      in vc_set_goal (vc_add_hyp (vc_add_hyp v2 h1) h2) (vc_mk VC_LT [a, b]))"

definition ex_vc :: refinevc where "ex_vc = ex_with ex_x (vc_int 4)"

definition ex_hyp :: refinevc where "ex_hyp = ex_with ex_x ex_y"

definition ex_bad :: refinevc where
  "ex_bad =
     (let (v1, x) = vc_declare_var vc_new ''x'' VS_INT
      in vc_set_goal v1 (vc_mk VC_LT [vc_var_ref v1 x, vc_int 0]))"

lemma ex_with_eq:
  "ex_vc = vc_new\<lparr>vars := [\<lparr>v_name = ''x'', v_sort = VS_INT\<rparr>, \<lparr>v_name = ''y'', v_sort = VS_INT\<rparr>],
     hyps := [ex_less ex_x ex_y, Node VC_LE VS_BOOL [ex_y, vc_int 3] PNone], goal := Some (ex_less ex_x (vc_int 4))\<rparr>"
  "ex_hyp = vc_new\<lparr>vars := [\<lparr>v_name = ''x'', v_sort = VS_INT\<rparr>, \<lparr>v_name = ''y'', v_sort = VS_INT\<rparr>],
     hyps := [ex_less ex_x ex_y, Node VC_LE VS_BOOL [ex_y, vc_int 3] PNone], goal := Some (ex_less ex_x ex_y)\<rparr>"
  "ex_bad = vc_new\<lparr>vars := [\<lparr>v_name = ''x'', v_sort = VS_INT\<rparr>], goal := Some (ex_less ex_x (vc_int 0))\<rparr>"
  by code_simp+

lemmas ex_defs = ex_with_eq vc_new_def ex_less_def ex_x_def ex_y_def vc_int_def

lemma ex_frag: "chain_frag ex_vc" "chain_frag ex_hyp" "chain_frag ex_bad"
  by (simp_all add: ex_defs chain_frag_def wf_vc_def vc_all_nodes_def wf_term_def node_ok_def
      s3_node_def s1_node_def real_lit_exact_def op_uniform_def lit_canon_def is_num_lit_def is_int_lit_def is_real_lit_def)

lemma ex_wf: "wf_vc ex_vc" "wf_vc ex_hyp" "wf_vc ex_bad"
  using ex_frag chain_frag_stages(1) by blast+

lemma ex_hyp_valid: "run_chain (\<lambda>_. 0) True ex_hyp = RT_VALID"
  by code_simp

lemma ex_goal: "goal ex_bad = Some (ex_less ex_x (vc_int 0))"
  by (simp add: ex_with_eq)

section \<open>The counterexample of the last\<close>

lemma ex_bad_cands: "model_cands ex_bad (ex_less ex_x (vc_int 0)) = [map MInt [-2, -1, 0, 1, 2]]"
  by code_simp

lemma ex_bad_scan:
  "model_scan ex_bad (ex_less ex_x (vc_int 0)) [] True (odometer [map MInt [-2, -1, 0, 1, 2]]) = Some [MInt 0]"
  by code_simp

definition ex_model :: "binding list" where
  "ex_model = [\<lparr>b_name = ''x'', b_is_real = False, b_is_bool = False, b_ival = 0, b_rval = Fin 0\<rparr>]"

lemma ex_bad_bindings: "model_bindings ex_bad [MInt 0] = ex_model"
  by code_simp

lemma ex_bad_model: "refine_model_search ex_bad = Some ex_model"
proof -
  have "ufuncs ex_bad = []" "\<not> hyps_dropped ex_bad" "length (vars ex_bad) = 1"
    by (simp_all add: ex_with_eq vc_new_def)
  then show ?thesis
    using ex_bad_scan ex_goal
    by (simp add: refine_model_search_def Let_def ex_bad_cands model_evals_def ex_bad_bindings MODEL_MAX_VARS_def MODEL_MAX_EVALS_def)
qed

section \<open>An obligation for a condition\<close>

definition ex_ob :: "refinevc \<Rightarrow> obligation" where
  "ex_ob vc = \<lparr>ob_vc = Some vc, ob_fuel_out = False, ob_runtime_guarded = False, ob_speculative = False,
     ob_path_probe = False, ob_quiet = False, ob_discharged = False, ob_proven = False, ob_memo_hit = False,
     ob_refuted = False, ob_refuted_closed = False, ob_decided_by = None, ob_counterex = None\<rparr>"

lemma ex_ob_fresh: "chain_frag vc \<Longrightarrow> fresh_ob (ex_ob vc)"
  by (simp add: fresh_ob_def ex_ob_def ob_frag_def)

lemma reset_ok: "dstate_ok (refine_discharge_reset s)"
  using memo_reset_ok by (simp add: dstate_ok_def refine_discharge_reset_def balanced_def stats_zero_def)

end
