(* ===== verification/VCAxioms.thy ===== *)
theory VCAxioms
  imports VCSem
begin

text \<open>
  The division axioms (\<open>vc_add_divmod_axioms\<close> in \<open>src/compiler/refine_vc.c\<close>) are valid: every
  hypothesis they add holds under every interpretation, so adding them changes no verdict.
\<close>

lemma vc_mk2_rel:
  assumes op: "op \<in> {VC_EQ, VC_LT, VC_LE}" and wf: "wf_term fs a" "wf_term fs b" and nl: "\<not> (is_num_lit a \<and> is_num_lit b)"
  shows "wf_term fs (vc_mk2 op a b) \<and> t_sort (vc_mk2 op a b) = VS_BOOL
     \<and> eval I (vc_mk2 op a b) = op_sem I op VS_BOOL PNone [eval I a, eval I b]"
proof -
  have m: "vc_mk2 op a b = vc_mk_rel op a b" using op by (auto simp: vc_mk2_def vc_mk_def)
  have "wf_term fs (vc_mk_rel op a b) \<and> t_sort (vc_mk_rel op a b) = VS_BOOL"
    using op wf nl by (auto simp: vc_mk_rel_def vc_bool_def wf_term_def node_ok_def)
  moreover have "eval I (vc_mk_rel op a b) = op_sem I op VS_BOOL PNone [eval I a, eval I b]"
    using vc_mk_rel_eval [OF op wf, of I] nl op by (auto simp: fold_exact_def)
  ultimately show ?thesis by (simp add: m)
qed

lemma vc_mk2_arith_node:
  assumes op: "op \<in> {VC_ADD, VC_SUB, VC_MUL, VC_DIV, VC_MOD}" and wf: "wf_term fs a" "wf_term fs b"
    and nl: "\<not> (is_num_lit a \<and> is_num_lit b)"
  shows "eval I (vc_mk2 op a b) = op_sem I op (arith_sort a b) PNone [eval I a, eval I b]
     \<and> wf_term fs (vc_mk2 op a b)
     \<and> (\<not> is_num_lit a \<and> (is_num_lit b \<longrightarrow> t_sort b = t_sort a) \<or> op = VC_MUL \<and> \<not> is_num_lit b \<longrightarrow> \<not> is_num_lit (vc_mk2 op a b))"
proof -
  have "\<not> (is_int_lit a \<and> is_int_lit b)" using nl by (auto simp: is_num_lit_def)
  then have m: "vc_mk2 op a b = mk_unit_arith op a b"
    using op nl by (auto simp: vc_mk2_def vc_mk_def vc_mk_arith_def)
  have "wf_term fs (Node op (arith_sort a b) [a, b] PNone)" using op wf by (auto simp: wf_term_def node_ok_def)
  then have "wf_term fs (mk_unit_arith op a b)" using wf by (simp add: mk_unit_arith_def)
  then show ?thesis
    using mk_unit_arith_eval [OF op wf, of I] nl op unfolding m
    by (auto simp: mk_unit_arith_def is_lit_val_def is_num_lit_def is_int_lit_def is_real_lit_def)
qed

lemma holds_rel:
  assumes "op \<in> {VC_EQ, VC_LT, VC_LE}" and "wf_term fs a" "wf_term fs b" and "\<not> is_num_lit a \<or> \<not> is_num_lit b"
  shows "holds I (vc_mk2 op a b) =
     (if op = VC_EQ then eval I a = eval I b else if op = VC_LT then eval I a < eval I b else eval I a \<le> eval I b)"
  using vc_mk2_rel [OF assms(1-3), of I] assms(1,4) by (auto simp: holds_def op_sem_def)

text \<open>The setting: an int term that is not a literal, and a nonzero int literal.\<close>

definition divmod_ok :: "(nat \<Rightarrow> vcsort) \<Rightarrow> vcterm \<Rightarrow> vcterm \<Rightarrow> bool" where
  "divmod_ok fs a k \<longleftrightarrow> wf_term fs a \<and> t_sort a = VS_INT \<and> \<not> is_num_lit a
     \<and> wf_term fs k \<and> is_int_lit k \<and> as_int (t_as k) \<noteq> 0"

lemma divmod_parts:
  fixes I :: interp
  assumes d: "divmod_ok fs a k"
  defines "K \<equiv> as_int (t_as k)" and "A \<equiv> \<lfloor>eval I a\<rfloor>"
    and "q \<equiv> vc_mk2 VC_DIV a k" and "r \<equiv> vc_mk2 VC_MOD a k"
  shows "eval I a = of_int A" "eval I q = of_int (A sdiv K)" "eval I r = of_int (A smod K)"
    "wf_term fs q" "wf_term fs r" "\<not> is_num_lit q" "\<not> is_num_lit r"
    "eval I (vc_mk2 VC_ADD (vc_mk2 VC_MUL k q) r) = of_int (K * (A sdiv K) + A smod K)"
    "wf_term fs (vc_mk2 VC_ADD (vc_mk2 VC_MUL k q) r)"
proof -
  have a: "wf_term fs a" "t_sort a = VS_INT" "\<not> is_num_lit a" and k: "wf_term fs k" "is_int_lit k" "K \<noteq> 0"
    using d by (auto simp: divmod_ok_def K_def)
  have ks: "t_sort k = VS_INT" using k wf_term_node [OF k(1)] by (auto simp: is_int_lit_def node_ok_def Let_def)
  then have s: "arith_sort a k = VS_INT" using a by (simp add: arith_sort_def)
  have ek: "eval I k = of_int K" using int_lit_eval [OF k(2)] by (simp add: K_def)
  show ea: "eval I a = of_int A" using int_value_floor [OF a(1), of I] a(2) unfolding A_def by (metis vcsort.distinct(1))
  have q: "eval I q = op_sem I VC_DIV (arith_sort a k) PNone [eval I a, eval I k] \<and> wf_term fs q \<and> \<not> is_num_lit q"
    using vc_mk2_arith_node [of VC_DIV fs a k I] a k ks by (simp add: q_def)
  have r: "eval I r = op_sem I VC_MOD (arith_sort a k) PNone [eval I a, eval I k] \<and> wf_term fs r \<and> \<not> is_num_lit r"
    using vc_mk2_arith_node [of VC_MOD fs a k I] a k ks by (simp add: r_def)
  show eq: "eval I q = of_int (A sdiv K)" using q ea ek k(3) s by (simp add: op_sem_def div_sem_def)
  show er: "eval I r = of_int (A smod K)" using r ea ek k(3) s by (simp add: op_sem_def mod_sem_def)
  show "wf_term fs q" "wf_term fs r" "\<not> is_num_lit q" "\<not> is_num_lit r" using q r by auto
  have m: "eval I (vc_mk2 VC_MUL k q) = of_int (K * (A sdiv K)) \<and> wf_term fs (vc_mk2 VC_MUL k q) \<and> \<not> is_num_lit (vc_mk2 VC_MUL k q)"
    using vc_mk2_arith_node [of VC_MUL fs k q I] q k ek eq by (simp add: op_sem_def)
  have p: "eval I (vc_mk2 VC_ADD (vc_mk2 VC_MUL k q) r) = of_int (K * (A sdiv K) + A smod K) \<and> wf_term fs (vc_mk2 VC_ADD (vc_mk2 VC_MUL k q) r)"
    using vc_mk2_arith_node [of VC_ADD fs "vc_mk2 VC_MUL k q" r I] m r er by (simp add: op_sem_def)
  show "eval I (vc_mk2 VC_ADD (vc_mk2 VC_MUL k q) r) = of_int (K * (A sdiv K) + A smod K)"
    "wf_term fs (vc_mk2 VC_ADD (vc_mk2 VC_MUL k q) r)" using p by auto
qed

lemma wf_vc_int [simp]: "wf_term fs (vc_int v)" and eval_vc_int [simp]: "eval I (vc_int v) = of_int v"
  by (simp_all add: vc_int_def wf_term_def node_ok_def op_sem_def)

text \<open>The facts the axioms state.\<close>

lemma divmod_facts:
  assumes d: "divmod_ok fs a k"
  defines "K \<equiv> \<bar>as_int (t_as k)\<bar>" and "q \<equiv> vc_mk2 VC_DIV a k" and "r \<equiv> vc_mk2 VC_MOD a k"
  shows "holds I (vc_mk2 VC_EQ a (vc_mk2 VC_ADD (vc_mk2 VC_MUL k q) r))"
    and "holds I (vc_mk2 VC_LE (vc_int (- (K - 1))) r)" and "holds I (vc_mk2 VC_LE r (vc_int (K - 1)))"
    and "holds I (vc_mk2 VC_OR
           (vc_mk VC_AND [vc_mk2 VC_LE (vc_int 0) a, vc_mk2 VC_LE (vc_int 0) r, vc_mk2 VC_LE r (vc_int (K - 1))])
           (vc_mk VC_AND [vc_mk2 VC_LT a (vc_int 0), vc_mk2 VC_LE (vc_int (- (K - 1))) r, vc_mk2 VC_LE r (vc_int 0)]))"
proof -
  let ?k = "as_int (t_as k)" and ?A = "\<lfloor>eval I a\<rfloor>"
  note parts = divmod_parts(1-3,8) [OF d, of I] divmod_parts(4-7,9) [OF d]
  have a: "wf_term fs a" "\<not> is_num_lit a" and k: "?k \<noteq> 0" using d by (auto simp: divmod_ok_def)
  have r: "wf_term fs r" "\<not> is_num_lit r" "eval I r = of_int (?A smod ?k)" using parts by (auto simp: r_def)
  have dec: "?A = ?k * (?A sdiv ?k) + ?A smod ?k" by (rule sdiv_smod_decomp)
  show "holds I (vc_mk2 VC_EQ a (vc_mk2 VC_ADD (vc_mk2 VC_MUL k q) r))"
    using holds_rel [of VC_EQ fs a "vc_mk2 VC_ADD (vc_mk2 VC_MUL k q) r" I] a parts dec
    by (simp add: q_def r_def del: of_int_add of_int_mult)
  have b: "- (K - 1) \<le> ?A smod ?k" "?A smod ?k \<le> K - 1" using smod_abs_bounds [OF k, of ?A] by (auto simp: K_def)
  show "holds I (vc_mk2 VC_LE (vc_int (- (K - 1))) r)"
    using holds_rel [of VC_LE fs "vc_int (- (K - 1))" r I] r b(1) by (simp del: of_int_diff of_int_minus)
  show "holds I (vc_mk2 VC_LE r (vc_int (K - 1)))"
    using holds_rel [of VC_LE fs r "vc_int (K - 1)" I] r b(2) by (simp del: of_int_diff)
  have le: "holds I (vc_mk2 VC_LE (vc_int v) r) = (v \<le> ?A smod ?k)" "holds I (vc_mk2 VC_LE r (vc_int v)) = (?A smod ?k \<le> v)"
      "holds I (vc_mk2 VC_LE (vc_int v) a) = (v \<le> ?A)" "holds I (vc_mk2 VC_LT a (vc_int v)) = (?A < v)" for v
    using holds_rel [of VC_LE fs "vc_int v" r I] holds_rel [of VC_LE fs r "vc_int v" I] holds_rel [of VC_LE fs "vc_int v" a I]
      holds_rel [of VC_LT fs a "vc_int v" I] r a by (simp_all add: le_floor_iff floor_less_iff)
  have "0 \<le> ?A \<Longrightarrow> 0 \<le> ?A smod ?k \<and> ?A smod ?k \<le> K - 1" using smod_nonneg [of ?A ?k] k by (simp add: K_def)
  moreover have "?A < 0 \<Longrightarrow> - (K - 1) \<le> ?A smod ?k \<and> ?A smod ?k \<le> 0" using smod_neg [of ?A ?k] k by (simp add: K_def)
  moreover have "holds I (vc_mk2 VC_OR x y) = (holds I x \<or> holds I y)" for x y
    using vc_mk_andor_holds [of VC_OR I "[x, y]"] by (simp add: vc_mk2_def vc_mk_def conn_sem_simps)
  moreover have "holds I (vc_mk VC_AND [x, y, z]) = (holds I x \<and> holds I y \<and> holds I z)" for x y z
    using vc_mk_andor_holds [of VC_AND I "[x, y, z]"] by (simp add: vc_mk_def conn_sem_simps)
  ultimately show "holds I (vc_mk2 VC_OR
           (vc_mk VC_AND [vc_mk2 VC_LE (vc_int 0) a, vc_mk2 VC_LE (vc_int 0) r, vc_mk2 VC_LE r (vc_int (K - 1))])
           (vc_mk VC_AND [vc_mk2 VC_LT a (vc_int 0), vc_mk2 VC_LE (vc_int (- (K - 1))) r, vc_mk2 VC_LE r (vc_int 0)]))"
    using le by (metis not_le)
qed

text \<open>A condition grown by valid hypotheses only.\<close>

definition grown :: "refinevc \<Rightarrow> refinevc \<Rightarrow> bool" where
  "grown vc vc' \<longleftrightarrow> goal vc' = goal vc \<and> set (hyps vc) \<subseteq> set (hyps vc')
     \<and> (\<forall>h\<in>set (hyps vc'). h \<in> set (hyps vc) \<or> (\<forall>I. holds I h))"

lemma grown_refl: "grown vc vc"
  by (simp add: grown_def)

lemma grown_add: "grown vc vc' \<Longrightarrow> (\<And>I. holds I t) \<Longrightarrow> grown vc (vc_add_hyp vc' t)"
  by (auto simp: grown_def vc_add_hyp_def)

lemma grown_splits: "grown vc vc' \<Longrightarrow> grown vc (vc'\<lparr>n_divmod_splits := n\<rparr>)"
  by (simp add: grown_def)

lemma vc_add_divmod_axioms_grown:
  assumes a: "wf_term fs a" and k: "wf_term fs k"
  shows "grown vc (vc_add_divmod_axioms vc a k)"
proof (cases "t_op k \<noteq> VC_CONST_INT \<or> as_int (t_as k) = 0 \<or> t_sort a \<noteq> VS_INT \<or> t_op a = VC_CONST_INT
      \<or> t_op a = VC_CONST_REAL \<or> as_int (t_as k) = INT64_MIN")
  case True
  then show ?thesis by (auto simp: vc_add_divmod_axioms_def grown_refl)
next
  case False
  then have d: "divmod_ok fs a k" using a k by (auto simp: divmod_ok_def is_num_lit_def is_int_lit_def is_real_lit_def)
  note facts = divmod_facts [OF d]
  show ?thesis
    using False unfolding vc_add_divmod_axioms_def Let_def
    by (simp add: grown_refl) (intro conjI impI grown_add grown_splits grown_refl facts [simplified])
qed

lemma grown_entailed:
  assumes "grown vc vc'"
  shows "entailed vc' = entailed vc"
proof -
  have "holds_all I (hyps vc') = holds_all I (hyps vc)" for I
    using assms by (auto simp: grown_def holds_all_def)
  then show ?thesis using assms by (simp add: entailed_def grown_def)
qed

end
