(* ===== verification/SolverProps.thy ===== *)
theory SolverProps
  imports Examples VCAxioms
begin

text \<open>
  The properties of the refinement solver, from the whole pass down to its data: the pass and the
  chain, the cubes, the theories, the identity of conditions and the memo.
\<close>

section \<open>The pass\<close>

text \<open>
  C1: a condition of the fragment \<open>chain_frag\<close> that the chain of stages calls valid is entailed: its
  goal holds under every interpretation of its hypotheses. The fragment are the well-sorted
  conditions in which \<open>/\<close> is used at one sort (all int or all real), and so is \<open>mod\<close>, and every
  real literal is finite and exactly the fraction the decimal reading of \<open>rat_of_double\<close> makes of
  it, or refused by it. Outside the fragment the chain can prove what is not entailed: congruence
  ignores sorts, and 0.1 is read as 1/10, which the double is not.
\<close>

theorem chain_valid_entailed:
  assumes "chain_frag vc" and "run_chain idf inc vc = RT_VALID"
  shows "entailed vc"
  using assms by (rule run_chain_sound)

theorem chain_valid_entailed_witness: "entailed ex_hyp"
  by (rule chain_valid_entailed [OF ex_frag(2) ex_hyp_valid])

text \<open>
  C2: a run over obligations not yet decided discharges every one, keeps the memo a table and counts
  each once (collected = proven + invalid + unknown), whatever the conditions. If moreover every
  condition lies in the fragment \<open>chain_frag\<close> (one sort for each of \<open>/\<close> and \<open>mod\<close>, real literals
  finite and exactly their decimal reading) and the memo was sound, then the memo stays sound and
  every obligation called proven, by the chain or by the memo, is entailed.
\<close>

theorem discharge_all_correct:
  assumes "memo_inv (ds_memo st)" and "balanced (ds_stats st)" and "\<forall>ob\<in>set obs. \<not> ob_discharged ob \<and> \<not> ob_proven ob"
    and "refine_discharge_all idf inc obs st = (obs', st')"
  shows "memo_inv (ds_memo st') \<and> balanced (ds_stats st')
     \<and> list_all2 (\<lambda>ob ob'. ob_vc ob' = ob_vc ob \<and> ob_discharged ob') obs obs'
     \<and> (memo_sound (ds_memo st) \<and> (\<forall>ob\<in>set obs. \<forall>vc. ob_vc ob = Some vc \<longrightarrow> chain_frag vc) \<longrightarrow>
          memo_sound (ds_memo st') \<and> list_all2 (\<lambda>ob ob'. ob_proven ob' \<longrightarrow> ob_entailed ob) obs obs')"
proof -
  have "memo_sound (ds_memo st') \<and> list_all2 (\<lambda>ob ob'. ob_proven ob' \<longrightarrow> ob_entailed ob) obs obs'"
    if "memo_sound (ds_memo st)" "\<forall>ob\<in>set obs. ob_frag ob"
  proof -
    have "dstate_ok st" "\<forall>ob\<in>set obs. fresh_ob ob" using assms(1-3) that by (simp_all add: dstate_ok_def fresh_ob_def)
    from refine_discharge_all_ok [OF this assms(4)] show ?thesis by (auto simp: dstate_ok_def elim: list_all2_mono)
  qed
  then show ?thesis using refine_discharge_all_booked [OF assms] by (simp add: ob_frag_def)
qed

theorem discharge_all_correct_witness:
  "memo_sound (ds_memo (snd (refine_discharge_all (\<lambda>_. 0) True [ex_ob ex_hyp, ex_ob ex_bad, ex_ob ex_hyp] (refine_discharge_reset False))))"
proof -
  let ?obs = "[ex_ob ex_hyp, ex_ob ex_bad, ex_ob ex_hyp]"
  have "\<forall>ob\<in>set ?obs. \<not> ob_discharged ob \<and> \<not> ob_proven ob" "\<forall>ob\<in>set ?obs. \<forall>vc. ob_vc ob = Some vc \<longrightarrow> chain_frag vc"
    using ex_frag by (simp_all add: ex_ob_def)
  moreover have "memo_inv (ds_memo (refine_discharge_reset False))" "memo_sound (ds_memo (refine_discharge_reset False))"
    "balanced (ds_stats (refine_discharge_reset False))"
    using reset_ok [of False] by (simp_all add: dstate_ok_def)
  ultimately show ?thesis using discharge_all_correct [OF _ _ _ surjective_pairing] by blast
qed



text \<open>C4: when the model search finds an assignment for an integer and boolean condition, the hypotheses can hold with the goal false.\<close>

theorem model_search_refutes:
  assumes "refine_model_search vc = Some m" and "goal vc = Some g" and "ufuncs vc = []"
    and "\<forall>v\<in>set (vars vc). v_sort v \<noteq> VS_REAL"
    and "\<forall>t\<in>set (g # hyps vc). all_nodes (int_node (length (vars vc))) t"
  shows "\<not> entailed vc"
  using refine_model_search_sound [OF assms] assms(2) by (auto simp: entailed_def)

theorem model_search_refutes_witness: "\<not> entailed ex_bad"
  by (rule model_search_refutes [OF ex_bad_model ex_goal])
    (simp_all add: ex_defs int_node_def)

section \<open>Cubes\<close>

text \<open>C5: when the cubes could be built, the condition is entailed exactly when it is trivial or no cube holds under any interpretation.\<close>

theorem cubes_exact:
  assumes "wf_vc vc" and "fst (refine_cubes_build vc)"
  shows "entailed vc \<longleftrightarrow> cs_trivial (snd (refine_cubes_build vc))
     \<or> (\<forall>c\<in>set (cs_cubes (snd (refine_cubes_build vc))). \<forall>I. \<not> holds_all I c)"
  using refine_cubes_build_entailed [of vc "snd (refine_cubes_build vc)"] assms by (simp add: prod_eq_iff)

theorem cubes_exact_witness:
  "entailed ex_vc \<longleftrightarrow> cs_trivial (snd (refine_cubes_build ex_vc))
     \<or> (\<forall>c\<in>set (cs_cubes (snd (refine_cubes_build ex_vc))). \<forall>I. \<not> holds_all I c)"
proof (rule cubes_exact [OF ex_wf(1)])
  show "fst (refine_cubes_build ex_vc)" by code_simp
qed

text \<open>Pushing a negation inwards gives a well-formed formula that holds exactly when the negation does.\<close>

theorem nnf_equivalent:
  assumes "wf_term fs t" and "t_sort t = VS_BOOL"
  shows "(holds I (nnf t neg) \<longleftrightarrow> holds I t \<noteq> neg) \<and> wf_term fs (nnf t neg)"
  using nnf_ok [OF assms, of I neg] by auto

theorem nnf_equivalent_witness:
  "\<forall>I. holds I (nnf (ex_less ex_x ex_y) True) \<longleftrightarrow> \<not> holds I (ex_less ex_x ex_y)"
proof
  fix I
  have "wf_term (\<lambda>_. VS_INT) (ex_less ex_x ex_y)" "t_sort (ex_less ex_x ex_y) = VS_BOOL"
    by (simp_all add: ex_less_def ex_x_def ex_y_def wf_term_def node_ok_def is_num_lit_def is_int_lit_def is_real_lit_def)
  from nnf_equivalent [OF this, of I True]
  show "holds I (nnf (ex_less ex_x ex_y) True) \<longleftrightarrow> \<not> holds I (ex_less ex_x ex_y)" by simp
qed

text \<open>
  What the builder does with two literals: it compares them through \<open>double\<close>, and it computes with
  them in \<open>double\<close> as soon as one is real (a quotient by zero is left alone).
\<close>

definition both_lits :: "vcterm list \<Rightarrow> bool" where
  "both_lits ks \<longleftrightarrow> is_num_lit (ks ! 0) \<and> is_num_lit (ks ! 1)"

definition folds_reals :: "vcop \<Rightarrow> vcterm list \<Rightarrow> bool" where
  "folds_reals op ks \<longleftrightarrow> op \<in> {VC_ADD, VC_SUB, VC_MUL, VC_DIV} \<and> both_lits ks
     \<and> \<not> (is_int_lit (ks ! 0) \<and> is_int_lit (ks ! 1)) \<and> \<not> (op = VC_DIV \<and> lit_rat (ks ! 1) = 0)"

text \<open>The literals \<open>double\<close> holds exactly: ints within \<open>2 ^ 53\<close>, and finite reals.\<close>

definition lit_holds :: "vcterm \<Rightarrow> bool" where
  "lit_holds t \<longleftrightarrow> (if is_int_lit t then \<bar>as_int (t_as t)\<bar> \<le> 2 ^ 53 else \<exists>q. as_real (t_as t) = Fin q)"

definition lits_hold :: "vcop \<Rightarrow> vcterm list \<Rightarrow> bool" where
  "lits_hold op ks \<longleftrightarrow>
     (op \<in> {VC_EQ, VC_LT, VC_LE} \<and> both_lits ks
        \<or> op \<in> {VC_ADD, VC_SUB, VC_MUL, VC_DIV} \<and> both_lits ks \<and> \<not> (is_int_lit (ks ! 0) \<and> is_int_lit (ks ! 1))
        \<longrightarrow> lit_holds (ks ! 0) \<and> lit_holds (ks ! 1))
     \<and> (op = VC_NEG \<and> is_real_lit (ks ! 0) \<longrightarrow> lit_holds (ks ! 0))"

lemma lit_holds_exact: "lit_holds t \<Longrightarrow> lit_exact t"
  by (auto simp: lit_holds_def lit_exact_def num_of_def f64_of_small_int)

lemma lits_hold_exact:
  assumes "lits_hold op ks" and "\<not> folds_reals op ks"
  shows "fold_exact op ks"
proof -
  have "fold_real op (num_of (ks ! 0)) (num_of (ks ! 1)) = None"
    if "op \<in> {VC_ADD, VC_SUB, VC_MUL, VC_DIV}" "both_lits ks" "\<not> (is_int_lit (ks ! 0) \<and> is_int_lit (ks ! 1))"
  proof -
    have "op = VC_DIV" "lit_rat (ks ! 1) = 0" using that assms(2) by (auto simp: folds_reals_def)
    moreover have "num_of (ks ! 1) = Fin (lit_rat (ks ! 1))"
      using that assms(1) lit_holds_exact by (intro lit_exact_num_of) (auto simp: lits_hold_def both_lits_def)
    ultimately show ?thesis by (simp add: fold_real_def)
  qed
  then show ?thesis using assms(1) lit_holds_exact by (auto simp: fold_exact_def lits_hold_def both_lits_def)
qed

lemma folded_real:
  assumes "folds_reals op ks" and "lits_hold op ks"
  shows "vc_mk op ks = vc_real (fl (arith_rat op (lit_rat (ks ! 0)) (lit_rat (ks ! 1))))"
proof -
  have n: "num_of (ks ! 0) = Fin (lit_rat (ks ! 0))" "num_of (ks ! 1) = Fin (lit_rat (ks ! 1))"
    using assms lit_holds_exact by (auto simp: folds_reals_def lits_hold_def both_lits_def intro!: lit_exact_num_of)
  have l: "op \<in> {VC_ADD, VC_SUB, VC_MUL, VC_DIV}" "is_num_lit (ks ! 0)" "is_num_lit (ks ! 1)"
    "\<not> (is_int_lit (ks ! 0) \<and> is_int_lit (ks ! 1))" "op = VC_DIV \<Longrightarrow> lit_rat (ks ! 1) \<noteq> 0"
    using assms(1) by (auto simp: folds_reals_def both_lits_def)
  then have "vc_mk op ks = vc_mk_arith op (ks ! 0) (ks ! 1)" by (auto simp: vc_mk_def)
  also have "\<dots> = vc_real (fl (arith_rat op (lit_rat (ks ! 0)) (lit_rat (ks ! 1))))"
    using l n by (auto simp: vc_mk_arith_def fold_real_def arith_rat_def f64_sub_def)
  finally show ?thesis .
qed

text \<open>
  C7: folding, flattening and unit rules of the term constructor keep the value: what it returns
  means what the operator means on its operands. The exception is what \<open>double\<close> rounds: an
  operation on two literals of which one is real becomes the literal that is the exact result
  rounded once to \<open>double\<close>. Both need that the literals it computes with in \<open>double\<close> are held
  exactly: ints within \<open>2 ^ 53\<close> (larger ones are compared wrongly) and finite reals.
\<close>

theorem vc_mk_meaning:
  assumes "mk_args_ok fs op ks" and "lits_hold op ks"
  shows "if folds_reals op ks then vc_mk op ks = vc_real (fl (arith_rat op (lit_rat (ks ! 0)) (lit_rat (ks ! 1))))
     else eval I (vc_mk op ks) = op_sem I op (mk_sort op ks) PNone (map (eval I) ks)"
  using vc_mk_value [OF assms(1) lits_hold_exact [OF assms(2)]] folded_real [OF _ assms(2)] by simp

theorem vc_mk_meaning_witness:
  "(\<forall>I. eval I (vc_mk VC_ADD [ex_x, vc_int 0]) = op_sem I VC_ADD VS_INT PNone [eval I ex_x, eval I (vc_int 0)])
   \<and> vc_mk VC_DIV [vc_real (Fin 1), vc_int 10] = vc_real (fl (1 / 10))"
proof (intro conjI allI)
  fix I
  have "mk_args_ok (\<lambda>_. VS_INT) VC_ADD [ex_x, vc_int 0]" "lits_hold VC_ADD [ex_x, vc_int 0]" "\<not> folds_reals VC_ADD [ex_x, vc_int 0]"
    "mk_sort VC_ADD [ex_x, vc_int 0] = VS_INT"
    by (simp_all add: mk_args_ok_def lits_hold_def folds_reals_def both_lits_def mk_sort_def arith_sort_def ex_x_def vc_int_def
        wf_term_def node_ok_def is_num_lit_def is_int_lit_def is_real_lit_def)
  then show "eval I (vc_mk VC_ADD [ex_x, vc_int 0]) = op_sem I VC_ADD VS_INT PNone [eval I ex_x, eval I (vc_int 0)]"
    using vc_mk_meaning [of "\<lambda>_. VS_INT" VC_ADD "[ex_x, vc_int 0]" I] by simp
next
  let ?ks = "[vc_real (Fin 1), vc_int 10]"
  have "mk_args_ok (\<lambda>_. VS_INT) VC_DIV ?ks" "lits_hold VC_DIV ?ks" "folds_reals VC_DIV ?ks"
    by (simp_all add: mk_args_ok_def lits_hold_def lit_holds_def folds_reals_def both_lits_def lit_rat_def vc_int_def vc_real_def
        wf_term_def node_ok_def is_num_lit_def is_int_lit_def is_real_lit_def)
  from vc_mk_meaning [OF this(1,2), of undefined] this(3) show "vc_mk VC_DIV ?ks = vc_real (fl (1 / 10))"
    by (simp add: arith_rat_def lit_rat_def vc_int_def vc_real_def is_int_lit_def)
qed

text \<open>C8: the axioms added for a division by a literal change what is known, not what is entailed.\<close>

theorem divmod_axioms_conservative:
  assumes "wf_term fs a" and "wf_term fs k"
  shows "entailed (vc_add_divmod_axioms vc a k) \<longleftrightarrow> entailed vc"
  using grown_entailed [OF vc_add_divmod_axioms_grown [OF assms]] by simp

theorem divmod_axioms_conservative_witness:
  "hyps (vc_add_divmod_axioms ex_bad ex_x (vc_int 7)) \<noteq> hyps ex_bad \<and> (entailed (vc_add_divmod_axioms ex_bad ex_x (vc_int 7)) \<longleftrightarrow> entailed ex_bad)"
proof
  show "hyps (vc_add_divmod_axioms ex_bad ex_x (vc_int 7)) \<noteq> hyps ex_bad" by code_simp
  show "entailed (vc_add_divmod_axioms ex_bad ex_x (vc_int 7)) \<longleftrightarrow> entailed ex_bad"
    by (rule divmod_axioms_conservative [of "\<lambda>_. VS_INT"]) (simp_all add: ex_x_def vc_int_def wf_term_def node_ok_def)
qed

end
