(* ===== verification/TheoryProps.thy ===== *)
theory TheoryProps
  imports Examples
begin

text \<open>
  The properties of the two theories of the solver, linear arithmetic and congruence closure, and
  of the identity of conditions with the memo that rests on it.
\<close>

section \<open>Linear arithmetic\<close>

definition ex_chain :: cube where
  "ex_chain = [ex_less ex_x ex_y, Node VC_LE VS_BOOL [ex_y, vc_int 3] PNone, Node VC_LE VS_BOOL [vc_int 4, ex_x] PNone]"

text \<open>
  C9: a cube of well-sorted literals whose real literals are read exactly, or refused, by
  \<open>rat_of_double\<close> (\<open>real_lit_exact\<close>) and which the arithmetic stage calls unsatisfiable holds under
  no interpretation, integer or real. For a literal like 0.1, read as 1/10, this can fail: the stage
  refutes \<open>y = 0.1\<close> with \<open>1 < 10 * y\<close>, which the double 0.1 satisfies.
\<close>

theorem arith_refutes:
  assumes "\<forall>l\<in>set c. lit_ok fs l \<and> all_nodes real_lit_exact l" and "la_unsat (snd (la_assert_cube la_new c))"
  shows "\<not> holds_all I c"
  using assms by (rule s2_refute_sound)

theorem arith_refutes_witness: "\<forall>I. \<not> holds_all I ex_chain"
proof
  fix I
  have "\<forall>l\<in>set ex_chain. lit_ok (\<lambda>_. VS_INT) l \<and> all_nodes real_lit_exact l"
    by (simp add: ex_chain_def ex_less_def ex_x_def ex_y_def vc_int_def lit_ok_def wf_term_def node_ok_def real_lit_exact_def
        is_num_lit_def is_int_lit_def is_real_lit_def refine_lit_atom_def)
  moreover have "la_unsat (snd (la_assert_cube la_new ex_chain))" by code_simp
  ultimately show "\<not> holds_all I ex_chain" by (rule arith_refutes)
qed

text \<open>C10: scaling an integer constraint to coprime coefficients and rounding its bound keeps its integer solutions; a refused one has none.\<close>

theorem int_normalize_equivalent:
  assumes "cok (length vs) c" and "ivals sorts vs" and "length vs \<le> REFINE_MAX_LA_VARS"
    and "int_normalize sorts c = (ok, c')"
  shows "(csat vs c' \<longleftrightarrow> csat vs c) \<and> (\<not> ok \<longrightarrow> \<not> csat vs c)"
  using int_normalize_ok [OF assms] by blast

definition ex_linc :: linc where
  "ex_linc = \<lparr>lc_coef = rat_of 2 # rat_of 4 # replicate (REFINE_MAX_LA_VARS - 2) (rat_of 0), lc_konst = rat_of (-7), lc_strict = False, lc_eq = False, lc_bad = False\<rparr>"

theorem int_normalize_equivalent_witness:
  "\<forall>x y. csat [of_int x, of_int y] (snd (int_normalize [VS_INT, VS_INT] ex_linc)) \<longleftrightarrow> csat [of_int x, of_int y] ex_linc"
proof (intro allI)
  fix x y :: int
  have "cok (length [of_int x, of_int y :: real]) ex_linc" "ivals [VS_INT, VS_INT] [of_int x, of_int y]"
    "length [of_int x, of_int y :: real] \<le> REFINE_MAX_LA_VARS"
    by (simp_all add: cok_def coefs_ok_def ex_linc_def rat_of_def rok_def rval_def ivals_def REFINE_MAX_LA_VARS_def)
  from int_normalize_equivalent [OF this surjective_pairing]
  show "csat [of_int x, of_int y] (snd (int_normalize [VS_INT, VS_INT] ex_linc)) \<longleftrightarrow> csat [of_int x, of_int y] ex_linc" by simp
qed

text \<open>Eliminating the equalities never refutes a system with a solution, and what is left has it too.\<close>

theorem eq_eliminate_keeps:
  assumes "all_sat vs cur" and "ivals sorts vs" and "length vs \<le> REFINE_MAX_LA_VARS"
  shows "\<exists>cs. eq_eliminate sorts cur = Some cs \<and> all_sat vs cs"
  using assms by (rule eq_eliminate_ok)

theorem eq_eliminate_keeps_witness:
  "\<exists>cs. eq_eliminate [VS_INT, VS_INT] [ex_linc\<lparr>lc_eq := True, lc_konst := rat_of (-10)\<rparr>] = Some cs \<and> all_sat [1, 2] cs"
  by (rule eq_eliminate_keeps)
    (simp_all add: csat_def lhs_def cok_def coefs_ok_def ex_linc_def rat_of_def rok_def rval_def ivals_def REFINE_MAX_LA_VARS_def)

text \<open>
  C12: an equality between shared terms that arithmetic passes on holds in every model of its
  constraints, and asking changes none of them (terms well-sorted, their real literals read exactly).
\<close>

theorem la_entails_equal:
  assumes "wf_term fs x" "wf_term fs y" "lin_exact x" "lin_exact y" and "la_ok fs st" and "la_entails_eq st x y = (b, st')"
  shows "(\<forall>I. la_sat I st' = la_sat I st) \<and> (b \<longrightarrow> (\<forall>I. la_sat I st \<longrightarrow> eval I x = eval I y))"
  using la_entails_eq_ok [OF assms] by blast

text \<open>Two constraints, \<open>x \<le> y\<close> and \<open>y \<le> x\<close>, from which the equality is derived and passed on.\<close>

definition ex_between :: cube where
  "ex_between = [Node VC_LE VS_BOOL [ex_x, ex_y] PNone, Node VC_LE VS_BOOL [ex_y, ex_x] PNone]"

definition ex_between_la :: lastate where
  "ex_between_la = snd (la_assert_cube la_new ex_between)"

theorem la_entails_equal_witness:
  "fst (la_entails_eq ex_between_la ex_x ex_y) \<and> length (la_cs ex_between_la) = 2
   \<and> {I. la_sat I ex_between_la} \<subseteq> {I. eval I ex_x = eval I ex_y} \<and> (\<exists>I. la_sat I ex_between_la)"
proof -
  have e: "fst (la_entails_eq ex_between_la ex_x ex_y)" "length (la_cs ex_between_la) = 2" by code_simp+
  have s: "la_step (\<lambda>_. VS_INT) (\<lambda>I. holds_all I ex_between) la_new ex_between_la"
    unfolding ex_between_la_def
    by (rule la_assert_cube_ok)
       (simp_all add: ex_between_def ex_x_def ex_y_def lit_ok_def wf_term_def node_ok_def real_lit_exact_def
          is_num_lit_def is_int_lit_def is_real_lit_def)
  have "\<exists>I. holds_all I ex_between"
    by (rule exI [of _ "\<lparr>i_var = \<lambda>_. 0, i_app = \<lambda>_ _. 0, i_undef = \<lambda>_ _ _. 0\<rparr>"])
       (simp add: ex_between_def ex_x_def ex_y_def holds_all_def holds_def op_sem_def coerce_def)
  then have "\<exists>I. la_sat I ex_between_la" using s by (auto simp: la_step_def la_sat_def la_new_def)
  then show ?thesis
    using la_entails_equal [of "\<lambda>_. VS_INT" ex_x ex_y ex_between_la, OF _ _ _ _ _ surjective_pairing] e s
    by (auto simp: ex_x_def ex_y_def wf_term_def node_ok_def lin_exact_def real_lit_exact_def la_step_def)
qed

text \<open>Addition and multiplication of int64 fractions either report overflow or give the exact result in lowest terms (the common divisor taken over the integers, where C negates \<open>INT64_MIN\<close>).\<close>

theorem rat_ops_exact:
  assumes "rok a" and "rok b"
  shows "(\<not> r_bad (rat_add a b) \<longrightarrow> rok (rat_add a b) \<and> rval (rat_add a b) = rval a + rval b)
    \<and> (\<not> r_bad (rat_mul a b) \<longrightarrow> rok (rat_mul a b) \<and> rval (rat_mul a b) = rval a * rval b)"
  using rsem_add [OF rok_rsem [OF assms(1)] rok_rsem [OF assms(2)]] rsem_mul [OF rok_rsem [OF assms(1)] rok_rsem [OF assms(2)]]
  by (auto simp: rsem_def)

theorem rat_ops_exact_witness:
  "rval (rat_add (CRat 1 6 False) (CRat 1 3 False)) = rval (CRat 1 6 False) + rval (CRat 1 3 False)
   \<and> r_bad (rat_mul (CRat (2 ^ 62) 1 False) (CRat 2 1 False))"
proof
  have "\<not> r_bad (rat_add (CRat 1 6 False) (CRat 1 3 False))" by code_simp
  then show "rval (rat_add (CRat 1 6 False) (CRat 1 3 False)) = rval (CRat 1 6 False) + rval (CRat 1 3 False)"
    using rat_ops_exact [of "CRat 1 6 False" "CRat 1 3 False"] by (simp add: rok_def)
  show "r_bad (rat_mul (CRat (2 ^ 62) 1 False) (CRat 2 1 False))" by code_simp
qed

section \<open>Congruence closure\<close>



text \<open>
  C15: for literals that are well-sorted, use \<open>/\<close> at one sort and \<open>mod\<close> at one sort, and have
  finite double literals (\<open>lit_good\<close>), a cube congruence closure refutes holds under no
  interpretation, and one it survives leaves every model of the cube a model of the state. Where int
  and real division meet it can refute a cube that holds: the closure ignores the sorts.
\<close>

theorem euf_refutes:
  assumes "es_inv idf (goodt fs d) st" and "\<forall>l\<in>set c. lit_good fs d l" and "euf_assert_cube idf st c = (ok, st')"
    and "es_sat I st" and "holds_all I c"
  shows "ok \<and> es_sat I st'"
  using es_assert_cube [OF assms(1-3)] assms(4,5) by (auto simp: es_step_def)

theorem euf_refutes_witness:
  "\<exists>I. fst (euf_assert_cube (\<lambda>_. 0) euf_new [ex_less ex_x ex_y]) \<and> holds_all I [ex_less ex_x ex_y]"
proof -
  let ?I = "\<lparr>i_var = real, i_app = (\<lambda>_ _. 0), i_undef = (\<lambda>_ _ _. 0)\<rparr> :: interp"
  have c: "\<forall>l\<in>set [ex_less ex_x ex_y]. lit_good (\<lambda>_. VS_INT) (VS_INT, VS_INT) l"
    by (simp add: ex_less_def ex_x_def ex_y_def lit_good_def s1_node_def op_uniform_def lit_canon_def lit_ok_def wf_term_def
        node_ok_def is_num_lit_def is_int_lit_def is_real_lit_def refine_lit_atom_def)
  have h: "holds_all ?I [ex_less ex_x ex_y]"
    by (simp add: ex_less_def ex_x_def ex_y_def holds_def op_sem_def coerce_def)
  show ?thesis using euf_refutes [OF es_new(1) c surjective_pairing es_new(2) h] h by blast
qed

section \<open>Identity and memo\<close>

text \<open>
  C16: conditions the comparison calls equal, one object or alike up to the names of their variables
  and functions, are entailed together, neither without the other, and have the same fingerprint,
  which is nonzero unless they are one object: the verdict of one, found under its fingerprint, is
  right for the other.
\<close>

theorem vc_equal_verdict:
  assumes "refine_vc_equal same a b" and "same \<longrightarrow> a = b"
  shows "(entailed a \<longleftrightarrow> entailed b) \<and> refine_vc_fingerprint a = refine_vc_fingerprint b \<and> (same \<or> refine_vc_fingerprint a \<noteq> 0)"
proof (cases same)
  case True
  then show ?thesis using assms by simp
next
  case False
  then have "refine_vc_equal False a b" using assms(1) by simp
  then show ?thesis using refine_vc_equal_entailed [of False a b] refine_vc_equal_fingerprint [of a b] by metis
qed

definition ex_renamed :: refinevc where
  "ex_renamed = ex_hyp\<lparr>vars := [\<lparr>v_name = ''a'', v_sort = VS_INT\<rparr>, \<lparr>v_name = ''b'', v_sort = VS_INT\<rparr>]\<rparr>"

theorem vc_equal_verdict_witness: "ex_renamed \<noteq> ex_hyp \<and> entailed ex_renamed"
proof
  show "ex_renamed \<noteq> ex_hyp" by (simp add: ex_renamed_def ex_defs)
  have "refine_vc_equal False ex_hyp ex_renamed" by code_simp
  then show "entailed ex_renamed" using vc_equal_verdict [of False] run_chain_sound [OF ex_frag(2) ex_hyp_valid] by blast
qed

text \<open>C17: below half load a condition not in the memo is found after its insertion with the verdict given, and every earlier verdict stays.\<close>

theorem memo_remembers:
  assumes "memo_inv m" and "g_memo_len m < REFINE_MEMO_CAP div 2" and "memo_lookup m vc (refine_vc_fingerprint vc) = None"
    and "refine_vc_equal False vc vc"
  shows "memo_lookup (memo_insert m vc (refine_vc_fingerprint vc) b) vc (refine_vc_fingerprint vc) = Some b
    \<and> (\<forall>vc' fp' b'. memo_lookup m vc' fp' = Some b' \<longrightarrow> memo_lookup (memo_insert m vc (refine_vc_fingerprint vc) b) vc' fp' = Some b')"
  using memo_insert_lookup [OF assms(1-3) refl assms(4)] memo_insert_keeps [OF assms(1)] by blast

theorem memo_remembers_witness:
  "memo_lookup (memo_insert memo_reset ex_vc (refine_vc_fingerprint ex_vc) True) ex_vc (refine_vc_fingerprint ex_vc) = Some True"
proof -
  have e: "memo_lookup memo_reset ex_vc (refine_vc_fingerprint ex_vc) = None"
    by (auto simp: memo_lookup_def memo_slot_def memo_reset_def memo_probe_def split: option.splits)
      (metis memo_home_less nth_replicate option.discI probe_bound)
  have "refine_vc_equal False ex_vc ex_vc" by code_simp
  then show ?thesis
    using memo_remembers [OF conjunct1 [OF memo_reset_ok] _ e] by (simp add: memo_reset_def REFINE_MEMO_CAP_def)
qed

text \<open>An insertion keeps the memo sound when a verdict of proven is given only to an entailed condition: no lookup then answers proven for one that is not.\<close>

theorem memo_never_lies:
  assumes "memo_inv m" and "memo_sound m" and "b \<Longrightarrow> entailed vc"
    and "memo_lookup (memo_insert m vc fp b) vc' fp' = Some True"
  shows "entailed vc'"
  using memo_lookup_sound [of "memo_insert m vc fp b" vc' fp'] memo_insert_inv [OF assms(1-3)] assms(4) by blast

theorem memo_never_lies_witness:
  "memo_lookup (memo_insert memo_reset ex_bad (refine_vc_fingerprint ex_bad) False) ex_bad (refine_vc_fingerprint ex_bad) \<noteq> Some True"
proof
  assume "memo_lookup (memo_insert memo_reset ex_bad (refine_vc_fingerprint ex_bad) False) ex_bad (refine_vc_fingerprint ex_bad) = Some True"
  then have "entailed ex_bad" using memo_never_lies [of memo_reset False ex_bad] memo_reset_ok by blast
  moreover have "\<not> holds \<lparr>i_var = (\<lambda>_. 1), i_app = (\<lambda>_ _. 0), i_undef = (\<lambda>_ _ _. 0)\<rparr> (ex_less ex_x (vc_int 0))"
    by (simp add: ex_less_def ex_x_def vc_int_def holds_def op_sem_def coerce_def)
  ultimately show False by (auto simp: entailed_def ex_with_eq vc_new_def holds_all_def)
qed

end
