(* ===== verification/NameTables.thy ===== *)
theory NameTables
  imports Prelude "HOL-Library.List_Lexorder" "HOL-Library.Char_ord"
begin

text \<open>
  The reserved-name tables of the mangler (\<open>src/compiler/mangle.c\<close>) and the binary search over
  them. The order is \<open>strcmp\<close>'s, the lexicographic order of the bytes. The tables must be sorted
  for the search to find every entry; here that is proved of the tables as they stand.
\<close>

section \<open>Binary search\<close>

text \<open>The C library's \<open>bsearch\<close>, on the half-open range from \<open>lo\<close> to \<open>hi\<close>.\<close>

function bsearch :: "'a::linorder \<Rightarrow> 'a list \<Rightarrow> nat \<Rightarrow> nat \<Rightarrow> bool" where
  "bsearch x xs lo hi =
     (if hi \<le> lo then False
      else let m = (lo + hi) div 2
           in if x < xs ! m then bsearch x xs lo m
              else if xs ! m < x then bsearch x xs (m + 1) hi
              else True)"
  by pat_completeness auto
termination by (relation "measure (\<lambda>(x, xs, lo, hi). hi - lo)") auto

declare bsearch.simps [simp del]

lemma bsearch_iff:
  assumes "sorted_wrt (<) xs" and "hi \<le> length xs"
  shows "bsearch x xs lo hi \<longleftrightarrow> (\<exists>i. lo \<le> i \<and> i < hi \<and> xs ! i = x)"
  using assms
proof (induction x xs lo hi rule: bsearch.induct)
  case (1 x xs lo hi)
  show ?case
  proof (cases "hi \<le> lo")
    case True
    then show ?thesis by (simp add: bsearch.simps [of x xs lo hi])
  next
    case False
    let ?m = "(lo + hi) div 2"
    have m: "lo \<le> ?m" "?m < hi" using False by auto
    have lt: "i < j \<Longrightarrow> j < length xs \<Longrightarrow> xs ! i < xs ! j" for i j
      using sorted_wrt_nth_less [OF "1.prems"(1)] by blast
    consider "x < xs ! ?m" | "xs ! ?m < x" | "x = xs ! ?m" by fastforce
    then show ?thesis
    proof cases
      case 1
      then have e: "bsearch x xs lo hi = bsearch x xs lo ?m" using False by (simp add: bsearch.simps [of x xs lo hi])
      have "lo \<le> i \<and> i < hi \<and> xs ! i = x \<longleftrightarrow> lo \<le> i \<and> i < ?m \<and> xs ! i = x" for i
        using 1 lt [of ?m i] "1.prems"(2) m by (cases "i = ?m"; cases "i < ?m") auto
      moreover have "bsearch x xs lo ?m \<longleftrightarrow> (\<exists>i. lo \<le> i \<and> i < ?m \<and> xs ! i = x)"
        using m "1.prems" by (intro "1.IH"(1) [OF False refl 1]) auto
      ultimately show ?thesis using e by simp
    next
      case 2
      then have nl: "\<not> x < xs ! ?m" by simp
      have e: "bsearch x xs lo hi = bsearch x xs (?m + 1) hi" using 2 nl False by (simp add: bsearch.simps [of x xs lo hi])
      have "lo \<le> i \<and> i < hi \<and> xs ! i = x \<longleftrightarrow> ?m + 1 \<le> i \<and> i < hi \<and> xs ! i = x" for i
        using 2 lt [of i ?m] "1.prems"(2) m by (cases "i = ?m"; cases "i < ?m") auto
      moreover have "bsearch x xs (?m + 1) hi \<longleftrightarrow> (\<exists>i. ?m + 1 \<le> i \<and> i < hi \<and> xs ! i = x)"
        using "1.prems" by (intro "1.IH"(2) [OF False refl nl 2]) auto
      ultimately show ?thesis using e by simp
    next
      case 3
      then have "bsearch x xs lo hi" using False by (simp add: bsearch.simps [of "xs ! ?m" xs lo hi])
      then show ?thesis using m 3 by blast
    qed
  qed
qed

lemma bsearch_member: "sorted_wrt (<) xs \<Longrightarrow> bsearch x xs 0 (length xs) \<longleftrightarrow> x \<in> set xs"
  using bsearch_iff [of xs "length xs" x 0] by (auto simp: in_set_conv_nth)

text \<open>Strict order of the neighbours is strict order of the list.\<close>

fun ascending :: "'a::linorder list \<Rightarrow> bool" where
  "ascending (x # y # xs) = (x < y \<and> ascending (y # xs))"
| "ascending _ = True"

lemma ascending_sorted: "ascending xs \<Longrightarrow> sorted_wrt (<) xs"
proof (induction xs rule: ascending.induct)
  case (1 x y xs)
  then show ?case by (auto intro: less_trans)
qed auto

lemma ascending_append:
  "ascending xs \<Longrightarrow> ascending ys \<Longrightarrow> xs \<noteq> [] \<Longrightarrow> ys \<noteq> [] \<Longrightarrow> last xs < hd ys \<Longrightarrow> ascending (xs @ ys)"
proof (induction xs)
  case (Cons x xs)
  then show ?case by (cases xs; cases ys) auto
qed simp

section \<open>The tables\<close>

definition c_keywords :: "string list" where
  "c_keywords =
    [''_Alignas'', ''_Alignof'', ''_Atomic'', ''_BitInt'', ''_Bool'', ''_Complex'',
     ''_Decimal128'', ''_Decimal32'', ''_Decimal64'', ''_Generic'', ''_Imaginary'',
     ''_Noreturn'', ''_Static_assert'', ''_Thread_local'', ''alignas'', ''alignof'', ''asm'',
     ''auto'', ''bool'', ''break'', ''case'', ''char'', ''const'', ''constexpr'', ''continue'',
     ''default'', ''do'', ''double'', ''else'', ''enum'', ''extern'', ''false'', ''float'',
     ''for'', ''goto'', ''if'', ''inline'', ''int'', ''long'', ''nullptr'', ''register'',
     ''restrict'', ''return'', ''short'', ''signed'', ''sizeof'', ''static'',
     ''static_assert'', ''struct'', ''switch'', ''thread_local'', ''true'', ''typedef'',
     ''typeof'', ''typeof_unqual'', ''union'', ''unsigned'', ''void'', ''volatile'', ''while'']"

definition libm_names :: "string list" where
  "libm_names =
    [''acos'', ''acosf'', ''acosh'', ''acoshf'', ''acoshl'', ''acosl'', ''asin'', ''asinf'',
     ''asinh'', ''asinhf'', ''asinhl'', ''asinl'', ''atan'', ''atan2'', ''atan2f'', ''atan2l'',
     ''atanf'', ''atanh'', ''atanhf'', ''atanhl'', ''atanl'', ''canonicalize'',
     ''canonicalizef'', ''canonicalizel'', ''cbrt'', ''cbrtf'', ''cbrtl'', ''ceil'', ''ceilf'',
     ''ceill'', ''copysign'', ''copysignf'', ''copysignl'', ''cos'', ''cosf'', ''cosh'',
     ''coshf'', ''coshl'', ''cosl'', ''drem'', ''dremf'', ''dreml'', ''erf'', ''erfc'',
     ''erfcf'', ''erfcl'', ''erff'', ''erfl'', ''exp'', ''exp10'', ''exp10f'', ''exp10l'',
     ''exp2'', ''exp2f'', ''exp2l'', ''expf'', ''expl'', ''expm1'', ''expm1f'', ''expm1l'',
     ''fabs'', ''fabsf'', ''fabsl'', ''fdim'', ''fdimf'', ''fdiml'', ''finite'', ''finitef'',
     ''finitel'', ''floor'', ''floorf'', ''floorl'', ''fma'', ''fmaf'', ''fmal'', ''fmax'',
     ''fmaxf'', ''fmaximum'', ''fmaximum_mag'', ''fmaximum_mag_num'', ''fmaximum_mag_numf'',
     ''fmaximum_mag_numl'', ''fmaximum_magf'', ''fmaximum_magl'', ''fmaximum_num'',
     ''fmaximum_numf'', ''fmaximum_numl'', ''fmaximumf'', ''fmaximuml'', ''fmaxl'',
     ''fmaxmag'', ''fmaxmagf'', ''fmaxmagl'', ''fmin'', ''fminf'', ''fminimum'',
     ''fminimum_mag'', ''fminimum_mag_num'', ''fminimum_mag_numf'', ''fminimum_mag_numl'',
     ''fminimum_magf'', ''fminimum_magl'', ''fminimum_num'', ''fminimum_numf'',
     ''fminimum_numl'', ''fminimumf'', ''fminimuml'', ''fminl'', ''fminmag'', ''fminmagf'',
     ''fminmagl'', ''fmod'', ''fmodf'', ''fmodl'', ''frexp'', ''frexpf'', ''frexpl'',
     ''fromfp'', ''fromfpf'', ''fromfpl'', ''fromfpx'', ''fromfpxf'', ''fromfpxl'', ''gamma'',
     ''gammaf'', ''gammal'', ''getpayload'', ''getpayloadf'', ''getpayloadl'', ''hypot'',
     ''hypotf'', ''hypotl'', ''ilogb'', ''ilogbf'', ''ilogbl'', ''isinf'', ''isinff'',
     ''isinfl'', ''isnan'', ''isnanf'', ''isnanl'', ''j0'', ''j0f'', ''j0l'', ''j1'', ''j1f'',
     ''j1l'', ''jn'', ''jnf'', ''jnl'', ''ldexp'', ''ldexpf'', ''ldexpl'', ''lgamma'',
     ''lgamma_r'', ''lgammaf'', ''lgammaf_r'', ''lgammal'', ''lgammal_r'', ''llogb'',
     ''llogbf'', ''llogbl'', ''llrint'', ''llrintf'', ''llrintl'', ''llround'', ''llroundf'',
     ''llroundl'', ''log'', ''log10'', ''log10f'', ''log10l'', ''log1p'', ''log1pf'',
     ''log1pl'', ''log2'', ''log2f'', ''log2l'', ''logb'', ''logbf'', ''logbl'', ''logf'',
     ''logl'', ''lrint'', ''lrintf'', ''lrintl'', ''lround'', ''lroundf'', ''lroundl'',
     ''modf'', ''modff'', ''modfl'', ''nan'', ''nanf'', ''nanl'', ''nearbyint'',
     ''nearbyintf'', ''nearbyintl'', ''nextafter'', ''nextafterf'', ''nextafterl'',
     ''nextdown'', ''nextdownf'', ''nextdownl'', ''nexttoward'', ''nexttowardf'',
     ''nexttowardl'', ''nextup'', ''nextupf'', ''nextupl'', ''pow'', ''powf'', ''powl'',
     ''remainder'', ''remainderf'', ''remainderl'', ''remquo'', ''remquof'', ''remquol'',
     ''rint'', ''rintf'', ''rintl'', ''round'', ''roundeven'', ''roundevenf'', ''roundevenl'',
     ''roundf'', ''roundl'', ''scalb'', ''scalbf'', ''scalbl'', ''scalbln'', ''scalblnf'',
     ''scalblnl'', ''scalbn'', ''scalbnf'', ''scalbnl'', ''setpayload'', ''setpayloadf'',
     ''setpayloadl'', ''setpayloadsig'', ''setpayloadsigf'', ''setpayloadsigl'',
     ''significand'', ''significandf'', ''significandl'', ''sin'', ''sincos'', ''sincosf'',
     ''sincosl'', ''sinf'', ''sinh'', ''sinhf'', ''sinhl'', ''sinl'', ''sqrt'', ''sqrtf'',
     ''sqrtl'', ''tan'', ''tanf'', ''tanh'', ''tanhf'', ''tanhl'', ''tanl'', ''tgamma'',
     ''tgammaf'', ''tgammal'', ''totalorder'', ''totalorderf'', ''totalorderl'',
     ''totalordermag'', ''totalordermagf'', ''totalordermagl'', ''trunc'', ''truncf'',
     ''truncl'', ''ufromfp'', ''ufromfpf'', ''ufromfpl'', ''ufromfpx'', ''ufromfpxf'',
     ''ufromfpxl'', ''y0'', ''y0f'', ''y0l'', ''y1'', ''y1f'', ''y1l'', ''yn'', ''ynf'', ''ynl'']"

definition libc_names_1 :: "string list" where
  "libc_names_1 =
    [''a64l'', ''abort'', ''abs'', ''accept'', ''accept4'', ''access'', ''acct'', ''alarm'',
     ''aligned_alloc'', ''alloca'', ''arc4random'', ''arc4random_buf'', ''arc4random_uniform'',
     ''asctime'', ''asctime_r'', ''asprintf'', ''at_quick_exit'', ''atexit'', ''atof'',
     ''atoi'', ''atol'', ''atoll'', ''basename'', ''bcmp'', ''bcopy'', ''bind'',
     ''bindresvport'', ''bindresvport6'', ''brk'', ''bsearch'', ''bzero'', ''calloc'',
     ''canonicalize_file_name'', ''cgets'', ''chdir'', ''chmod'', ''chown'', ''chroot'',
     ''chsize'', ''clearenv'', ''clearerr'', ''clearerr_unlocked'', ''clock'',
     ''clock_adjtime'', ''clock_getcpuclockid'', ''clock_getres'', ''clock_gettime'',
     ''clock_nanosleep'', ''clock_settime'', ''clone'', ''close'', ''close_range'',
     ''closefrom'', ''commit'', ''confstr'', ''connect'', ''copy_file_range'', ''cprintf'',
     ''cputs'', ''creat'', ''creat64'', ''crypt'', ''cscanf'', ''ctermid'', ''ctime'',
     ''ctime_r'', ''cuserid'', ''daemon'', ''difftime'', ''div'', ''dprintf'', ''drand48'',
     ''drand48_r'', ''dup'', ''dup2'', ''dup3'', ''dysize'', ''eaccess'', ''ecvt'', ''ecvt_r'',
     ''endusershell'', ''eof'', ''erand48'', ''erand48_r'', ''euidaccess'', ''execl'',
     ''execle'', ''execlp'', ''execv'', ''execve'', ''execveat'', ''execvp'', ''execvpe'',
     ''exit'', ''explicit_bzero'', ''faccessat'', ''fallocate'', ''fallocate64'', ''fchdir'',
     ''fchown'', ''fchownat'', ''fclose'', ''fcloseall'', ''fcntl'', ''fcntl64'', ''fcvt'',
     ''fcvt_r'', ''fdatasync'', ''fdopen'', ''feof'', ''feof_unlocked'', ''ferror'',
     ''ferror_unlocked'', ''fexecve'', ''fflush'', ''fflush_unlocked'', ''ffs'', ''ffsl'',
     ''ffsll'', ''fgetc'', ''fgetc_unlocked'', ''fgetchar'', ''fgetpos'', ''fgetpos64'',
     ''fgets'', ''fgets_unlocked'', ''filelength'', ''fileno'', ''fileno_unlocked'']"

definition libc_names_2 :: "string list" where
  "libc_names_2 =
    [''flockfile'', ''flushall'', ''fmemopen'', ''fopen'', ''fopen64'', ''fopencookie'',
     ''fork'', ''fpathconf'', ''fprintf'', ''fputc'', ''fputc_unlocked'', ''fputchar'',
     ''fputs'', ''fputs_unlocked'', ''fread'', ''fread_unlocked'', ''free'', ''freopen'',
     ''freopen64'', ''fscanf'', ''fseek'', ''fseeko'', ''fseeko64'', ''fsetpos'',
     ''fsetpos64'', ''fstat'', ''fsync'', ''ftell'', ''ftello'', ''ftello64'', ''ftruncate'',
     ''ftruncate64'', ''ftrylockfile'', ''fullpath'', ''funlockfile'', ''fwrite'',
     ''fwrite_unlocked'', ''gcvt'', ''get_current_dir_name'', ''getc'', ''getc_unlocked'',
     ''getch'', ''getchar'', ''getchar_unlocked'', ''getche'', ''getcontext'', ''getcpu'',
     ''getcwd'', ''getdate'', ''getdate_r'', ''getdcwd'', ''getdelim'', ''getdomainname'',
     ''getdtablesize'', ''getegid'', ''getentropy'', ''getenv'', ''geteuid'', ''getgid'',
     ''getgroups'', ''gethostid'', ''gethostname'', ''getipv4sourcefilter'', ''getline'',
     ''getloadavg'', ''getlogin'', ''getlogin_r'', ''getopt'', ''getpagesize'', ''getpass'',
     ''getpeername'', ''getpgid'', ''getpgrp'', ''getpid'', ''getppid'', ''getpt'',
     ''getresgid'', ''getresuid'', ''gets'', ''getsid'', ''getsockname'', ''getsockopt'',
     ''getsourcefilter'', ''getsubopt'', ''gettid'', ''getuid'', ''getusershell'', ''getw'',
     ''getwd'', ''gmtime'', ''gmtime_r'', ''grantpt'', ''group_member'', ''heapchk'',
     ''heapmin'', ''heapset'', ''heapwalk'', ''htonl'', ''htons'', ''index'',
     ''inet6_opt_append'', ''inet6_opt_find'', ''inet6_opt_finish'', ''inet6_opt_get_val'',
     ''inet6_opt_init'', ''inet6_opt_next'', ''inet6_opt_set_val'', ''inet6_option_alloc'',
     ''inet6_option_append'', ''inet6_option_find'', ''inet6_option_init'',
     ''inet6_option_next'']"

definition libc_names_3 :: "string list" where
  "libc_names_3 =
    [''inet6_option_space'', ''inet6_rth_add'', ''inet6_rth_getaddr'', ''inet6_rth_init'',
     ''inet6_rth_reverse'', ''inet6_rth_segments'', ''inet6_rth_space'', ''inet_addr'',
     ''inet_aton'', ''inet_lnaof'', ''inet_makeaddr'', ''inet_net_ntop'', ''inet_net_pton'',
     ''inet_neta'', ''inet_netof'', ''inet_network'', ''inet_nsap_addr'', ''inet_nsap_ntoa'',
     ''inet_ntoa'', ''inet_ntop'', ''inet_pton'', ''initstate'', ''initstate_r'', ''isatty'',
     ''isfdtype'', ''itoa'', ''jrand48'', ''jrand48_r'', ''kbhit'', ''kill'', ''l64a'',
     ''labs'', ''lchown'', ''lcong48'', ''lcong48_r'', ''ldiv'', ''link'', ''linkat'',
     ''listen'', ''llabs'', ''lldiv'', ''localtime'', ''localtime_r'', ''lockf'', ''lockf64'',
     ''locking'', ''longjmp'', ''lrand48'', ''lrand48_r'', ''lseek'', ''lseek64'', ''lstat'',
     ''ltoa'', ''makecontext'', ''makepath'', ''malloc'', ''mblen'', ''mbstowcs'', ''mbtowc'',
     ''memccpy'', ''memchr'', ''memcmp'', ''memcpy'', ''memfrob'', ''memicmp'', ''memmem'',
     ''memmove'', ''mempcpy'', ''memrchr'', ''memset'', ''mkdir'', ''mkdtemp'', ''mkostemp'',
     ''mkostemp64'', ''mkostemps'', ''mkostemps64'', ''mkstemp'', ''mkstemp64'', ''mkstemps'',
     ''mkstemps64'', ''mktemp'', ''mktime'', ''mrand48'', ''mrand48_r'', ''name_to_handle_at'',
     ''nanosleep'', ''nice'', ''nrand48'', ''nrand48_r'', ''ntohl'', ''ntohs'',
     ''obstack_printf'', ''obstack_vprintf'', ''on_exit'', ''onexit'', ''open'', ''open64'',
     ''open_by_handle_at'', ''open_memstream'', ''openat'', ''openat64'', ''pathconf'',
     ''pause'', ''pclose'', ''perror'', ''pipe'', ''pipe2'', ''poll'', ''popen'',
     ''posix_fadvise'', ''posix_fadvise64'', ''posix_fallocate'', ''posix_fallocate64'',
     ''posix_memalign'', ''posix_openpt'', ''pread'', ''pread64'', ''printf'']"

definition libc_names_4 :: "string list" where
  "libc_names_4 =
    [''profil'', ''pselect'', ''pthread_atfork'', ''pthread_attr_destroy'',
     ''pthread_attr_getaffinity_np'', ''pthread_attr_getdetachstate'',
     ''pthread_attr_getguardsize'', ''pthread_attr_getinheritsched'',
     ''pthread_attr_getschedparam'', ''pthread_attr_getschedpolicy'',
     ''pthread_attr_getscope'', ''pthread_attr_getsigmask_np'', ''pthread_attr_getstack'',
     ''pthread_attr_getstackaddr'', ''pthread_attr_getstacksize'', ''pthread_attr_init'',
     ''pthread_attr_setaffinity_np'', ''pthread_attr_setdetachstate'',
     ''pthread_attr_setguardsize'', ''pthread_attr_setinheritsched'',
     ''pthread_attr_setschedparam'', ''pthread_attr_setschedpolicy'',
     ''pthread_attr_setscope'', ''pthread_attr_setsigmask_np'', ''pthread_attr_setstack'',
     ''pthread_attr_setstackaddr'', ''pthread_attr_setstacksize'', ''pthread_barrier_destroy'',
     ''pthread_barrier_init'', ''pthread_barrier_wait'', ''pthread_barrierattr_destroy'',
     ''pthread_barrierattr_getpshared'', ''pthread_barrierattr_init'',
     ''pthread_barrierattr_setpshared'', ''pthread_cancel'', ''pthread_clockjoin_np'',
     ''pthread_cond_broadcast'', ''pthread_cond_clockwait'', ''pthread_cond_destroy'',
     ''pthread_cond_init'', ''pthread_cond_signal'', ''pthread_cond_timedwait'',
     ''pthread_cond_wait'', ''pthread_condattr_destroy'', ''pthread_condattr_getclock'',
     ''pthread_condattr_getpshared'', ''pthread_condattr_init'', ''pthread_condattr_setclock'',
     ''pthread_condattr_setpshared'', ''pthread_create'', ''pthread_detach'',
     ''pthread_equal'', ''pthread_exit'']"

definition libc_names_5 :: "string list" where
  "libc_names_5 =
    [''pthread_getaffinity_np'', ''pthread_getattr_default_np'', ''pthread_getattr_np'',
     ''pthread_getconcurrency'', ''pthread_getcpuclockid'', ''pthread_getname_np'',
     ''pthread_getschedparam'', ''pthread_getspecific'', ''pthread_join'',
     ''pthread_key_create'', ''pthread_key_delete'', ''pthread_mutex_clocklock'',
     ''pthread_mutex_consistent'', ''pthread_mutex_consistent_np'', ''pthread_mutex_destroy'',
     ''pthread_mutex_getprioceiling'', ''pthread_mutex_init'', ''pthread_mutex_lock'',
     ''pthread_mutex_setprioceiling'', ''pthread_mutex_timedlock'', ''pthread_mutex_trylock'',
     ''pthread_mutex_unlock'', ''pthread_mutexattr_destroy'',
     ''pthread_mutexattr_getprioceiling'', ''pthread_mutexattr_getprotocol'',
     ''pthread_mutexattr_getpshared'', ''pthread_mutexattr_getrobust'',
     ''pthread_mutexattr_getrobust_np'', ''pthread_mutexattr_gettype'',
     ''pthread_mutexattr_init'', ''pthread_mutexattr_setprioceiling'',
     ''pthread_mutexattr_setprotocol'', ''pthread_mutexattr_setpshared'',
     ''pthread_mutexattr_setrobust'', ''pthread_mutexattr_setrobust_np'',
     ''pthread_mutexattr_settype'', ''pthread_once'', ''pthread_rwlock_clockrdlock'',
     ''pthread_rwlock_clockwrlock'', ''pthread_rwlock_destroy'', ''pthread_rwlock_init'',
     ''pthread_rwlock_rdlock'', ''pthread_rwlock_timedrdlock'', ''pthread_rwlock_timedwrlock'',
     ''pthread_rwlock_tryrdlock'', ''pthread_rwlock_trywrlock'', ''pthread_rwlock_unlock'',
     ''pthread_rwlock_wrlock'', ''pthread_rwlockattr_destroy'']"

definition libc_names_6 :: "string list" where
  "libc_names_6 =
    [''pthread_rwlockattr_getkind_np'', ''pthread_rwlockattr_getpshared'',
     ''pthread_rwlockattr_init'', ''pthread_rwlockattr_setkind_np'',
     ''pthread_rwlockattr_setpshared'', ''pthread_self'', ''pthread_setaffinity_np'',
     ''pthread_setattr_default_np'', ''pthread_setcancelstate'', ''pthread_setcanceltype'',
     ''pthread_setconcurrency'', ''pthread_setname_np'', ''pthread_setschedparam'',
     ''pthread_setschedprio'', ''pthread_setspecific'', ''pthread_spin_destroy'',
     ''pthread_spin_init'', ''pthread_spin_lock'', ''pthread_spin_trylock'',
     ''pthread_spin_unlock'', ''pthread_testcancel'', ''pthread_timedjoin_np'',
     ''pthread_tryjoin_np'', ''pthread_yield'', ''ptsname'', ''ptsname_r'', ''putc'',
     ''putc_unlocked'', ''putch'', ''putchar'', ''putchar_unlocked'', ''putenv'', ''puts'',
     ''putw'', ''pwrite'', ''pwrite64'', ''qecvt'', ''qecvt_r'', ''qfcvt'', ''qfcvt_r'',
     ''qgcvt'', ''qsort'', ''qsort_r'', ''quick_exit'', ''raise'', ''rand'', ''rand_r'',
     ''random'', ''random_r'', ''rawmemchr'', ''read'', ''readahead'', ''readlink'',
     ''readlinkat'', ''realloc'', ''reallocarray'', ''realpath'', ''recv'', ''recvfrom'',
     ''recvmmsg'', ''recvmsg'', ''remove'', ''rename'', ''renameat'', ''renameat2'',
     ''revoke'', ''rewind'', ''rindex'', ''rmdir'', ''rmtmp'', ''rpmatch'', ''sbrk'',
     ''scanf'', ''sched_get_priority_max'', ''sched_get_priority_min'', ''sched_getaffinity'',
     ''sched_getcpu'', ''sched_getparam'', ''sched_getscheduler'', ''sched_rr_get_interval'',
     ''sched_setaffinity'', ''sched_setparam'', ''sched_setscheduler'']"

definition libc_names_7 :: "string list" where
  "libc_names_7 =
    [''sched_yield'', ''searchenv'', ''secure_getenv'', ''seed48'', ''seed48_r'', ''select'',
     ''send'', ''sendmmsg'', ''sendmsg'', ''sendto'', ''setbuf'', ''setbuffer'',
     ''setcontext'', ''setdomainname'', ''setegid'', ''setenv'', ''seteuid'', ''setgid'',
     ''sethostid'', ''sethostname'', ''setipv4sourcefilter'', ''setjmp'', ''setlinebuf'',
     ''setlogin'', ''setmode'', ''setns'', ''setpgid'', ''setpgrp'', ''setregid'',
     ''setresgid'', ''setresuid'', ''setreuid'', ''setsid'', ''setsockopt'',
     ''setsourcefilter'', ''setstate'', ''setstate_r'', ''setuid'', ''setusershell'',
     ''setvbuf'', ''shutdown'', ''sigabbrev_np'', ''sigdescr_np'', ''siglongjmp'', ''signal'',
     ''sleep'', ''snprintf'', ''sockatmark'', ''socket'', ''socketpair'', ''sopen'',
     ''splice'', ''splitpath'', ''sprintf'', ''srand'', ''srand48'', ''srand48_r'',
     ''srandom'', ''srandom_r'', ''sscanf'', ''stat'', ''stpcpy'', ''stpncpy'', ''strcasecmp'',
     ''strcasecmp_l'', ''strcasestr'', ''strcat'', ''strchr'', ''strchrnul'', ''strcmp'',
     ''strcmpi'', ''strcoll'', ''strcoll_l'', ''strcpy'', ''strcspn'', ''strdup'',
     ''strerror'', ''strerror_l'', ''strerror_r'', ''strerrordesc_np'', ''strerrorname_np'',
     ''strfromd'', ''strfromf'', ''strfromf128'', ''strfromf32'', ''strfromf32x'',
     ''strfromf64'', ''strfromf64x'', ''strfroml'', ''strfry'', ''strftime'', ''strftime_l'',
     ''stricmp'', ''strlcat'', ''strlcpy'', ''strlen'', ''strlwr'', ''strncasecmp'',
     ''strncasecmp_l'', ''strncat'', ''strncmp'', ''strncpy'', ''strndup'', ''strnicmp'',
     ''strnlen'', ''strnset'', ''strpbrk'', ''strptime'', ''strptime_l'', ''strrchr'',
     ''strrev'', ''strsep'', ''strset'', ''strsignal'', ''strspn'', ''strstr'', ''strtod'',
     ''strtod_l'', ''strtof'', ''strtof128'', ''strtof128_l'', ''strtof32'']"

definition libc_names_8 :: "string list" where
  "libc_names_8 =
    [''strtof32_l'', ''strtof32x'', ''strtof32x_l'', ''strtof64'', ''strtof64_l'',
     ''strtof64x'', ''strtof64x_l'', ''strtof_l'', ''strtok'', ''strtok_r'', ''strtol'',
     ''strtol_l'', ''strtold'', ''strtold_l'', ''strtoll'', ''strtoll_l'', ''strtoq'',
     ''strtoul'', ''strtoul_l'', ''strtoull'', ''strtoull_l'', ''strtouq'', ''strupr'',
     ''strverscmp'', ''strxfrm'', ''strxfrm_l'', ''swab'', ''swapcontext'', ''symlink'',
     ''symlinkat'', ''sync'', ''sync_file_range'', ''syncfs'', ''syscall'', ''sysconf'',
     ''system'', ''tcgetpgrp'', ''tcsetpgrp'', ''tee'', ''tell'', ''tempnam'', ''time'',
     ''timegm'', ''timelocal'', ''timer_create'', ''timer_delete'', ''timer_getoverrun'',
     ''timer_gettime'', ''timer_settime'', ''times'', ''timespec_get'', ''timespec_getres'',
     ''tmpfile'', ''tmpfile64'', ''tmpnam'', ''tmpnam_r'', ''truncate'', ''truncate64'',
     ''ttyname'', ''ttyname_r'', ''ttyslot'', ''tzset'', ''ualarm'', ''ultoa'', ''ungetc'',
     ''ungetch'', ''unlink'', ''unlinkat'', ''unlockpt'', ''unsetenv'', ''unshare'',
     ''usleep'', ''valloc'', ''vasprintf'', ''vdprintf'', ''vfork'', ''vfprintf'', ''vfscanf'',
     ''vhangup'', ''vmsplice'', ''vprintf'', ''vscanf'', ''vsnprintf'', ''vsprintf'',
     ''vsscanf'', ''wait'', ''waitpid'', ''wcstombs'', ''wctomb'', ''write'']"

definition libc_names :: "string list" where
  "libc_names = libc_names_1 @ libc_names_2 @ libc_names_3 @ libc_names_4 @ libc_names_5 @ libc_names_6 @ libc_names_7 @ libc_names_8"

lemma libc_names_1_ends: "libc_names_1 \<noteq> [] \<and> hd libc_names_1 = ''a64l'' \<and> last libc_names_1 = ''fileno_unlocked''"
  by (simp add: libc_names_1_def)

lemma libc_names_1_ascending: "ascending libc_names_1"
  by code_simp

lemma libc_names_2_ends: "libc_names_2 \<noteq> [] \<and> hd libc_names_2 = ''flockfile'' \<and> last libc_names_2 = ''inet6_option_next''"
  by (simp add: libc_names_2_def)

lemma libc_names_2_ascending: "ascending libc_names_2"
  by code_simp

lemma libc_names_3_ends: "libc_names_3 \<noteq> [] \<and> hd libc_names_3 = ''inet6_option_space'' \<and> last libc_names_3 = ''printf''"
  by (simp add: libc_names_3_def)

lemma libc_names_3_ascending: "ascending libc_names_3"
  by code_simp

lemma libc_names_4_ends: "libc_names_4 \<noteq> [] \<and> hd libc_names_4 = ''profil'' \<and> last libc_names_4 = ''pthread_exit''"
  by (simp add: libc_names_4_def)

lemma libc_names_4_ascending: "ascending libc_names_4"
  by code_simp

lemma libc_names_5_ends: "libc_names_5 \<noteq> [] \<and> hd libc_names_5 = ''pthread_getaffinity_np'' \<and> last libc_names_5 = ''pthread_rwlockattr_destroy''"
  by (simp add: libc_names_5_def)

lemma libc_names_5_ascending: "ascending libc_names_5"
  by code_simp

lemma libc_names_6_ends: "libc_names_6 \<noteq> [] \<and> hd libc_names_6 = ''pthread_rwlockattr_getkind_np'' \<and> last libc_names_6 = ''sched_setscheduler''"
  by (simp add: libc_names_6_def)

lemma libc_names_6_ascending: "ascending libc_names_6"
  by code_simp

lemma libc_names_7_ends: "libc_names_7 \<noteq> [] \<and> hd libc_names_7 = ''sched_yield'' \<and> last libc_names_7 = ''strtof32''"
  by (simp add: libc_names_7_def)

lemma libc_names_7_ascending: "ascending libc_names_7"
  by code_simp

lemma libc_names_8_ends: "libc_names_8 \<noteq> [] \<and> hd libc_names_8 = ''strtof32_l'' \<and> last libc_names_8 = ''write''"
  by (simp add: libc_names_8_def)

lemma libc_names_8_ascending: "ascending libc_names_8"
  by code_simp

lemma c_keywords_sorted: "sorted_wrt (<) c_keywords"
  by (rule ascending_sorted) code_simp

lemma libm_names_sorted: "sorted_wrt (<) libm_names"
  by (rule ascending_sorted) code_simp

lemmas libc_ends = libc_names_1_ends libc_names_2_ends libc_names_3_ends libc_names_4_ends libc_names_5_ends
  libc_names_6_ends libc_names_7_ends libc_names_8_ends

lemma libc_names_sorted: "sorted_wrt (<) libc_names"
  unfolding libc_names_def
  by (rule ascending_sorted)
    (intro ascending_append libc_names_1_ascending libc_names_2_ascending libc_names_3_ascending libc_names_4_ascending
      libc_names_5_ascending libc_names_6_ascending libc_names_7_ascending libc_names_8_ascending,
     simp_all add: libc_ends less_list_code less_char_def)

section \<open>Lookup\<close>

text \<open>
  A name is the slice the caller passes; one with an interior NUL is not an identifier and matches
  nothing (the \<open>strlen\<close> guard).
\<close>

definition name_ok :: "string \<Rightarrow> bool" where
  "name_ok name \<longleftrightarrow> name \<noteq> [] \<and> CHR 0x00 \<notin> set name"

definition tur_name_collides_libc :: "string \<Rightarrow> bool" where
  "tur_name_collides_libc name =
     (if \<not> name_ok name then False
      else bsearch name libc_names 0 (length libc_names) \<or> bsearch name libm_names 0 (length libm_names))"

definition tur_name_is_c_keyword :: "string \<Rightarrow> bool" where
  "tur_name_is_c_keyword name =
     (if \<not> name_ok name then False else bsearch name c_keywords 0 (length c_keywords))"

end
