(* ===== verification/Mangle.thy ===== *)
theory Mangle
  imports NameTables
begin

text \<open>
  The C-identifier mangling of binding names (\<open>src/compiler/mangle.c\<close>): the injective scheme with
  its demangler, the lossy scheme for local names, and the bounded wrapper. A name is the list of
  its bytes. Proved: demangling inverts mangling, a mangled name is a C identifier in which two
  underscores never meet and which never carries the guard prefix.
\<close>

section \<open>Bytes\<close>

definition byte :: "char \<Rightarrow> nat" where
  "byte c = of_char c"

definition in_range :: "char \<Rightarrow> char \<Rightarrow> char \<Rightarrow> bool" where
  "in_range lo hi c \<longleftrightarrow> lo \<le> c \<and> c \<le> hi"

definition is_alnum :: "char \<Rightarrow> bool" where
  "is_alnum c \<longleftrightarrow>
     in_range (CHR ''a'') (CHR ''z'') c \<or> in_range (CHR ''A'') (CHR ''Z'') c \<or> in_range (CHR ''0'') (CHR ''9'') c"

text \<open>The two-letter mnemonics, and the inverse table.\<close>

definition sigil_table :: "(char \<times> string) list" where
  "sigil_table =
     [(CHR ''_'', ''un''), (CHR ''-'', ''hy''), (CHR ''/'', ''sl''), (CHR ''!'', ''ex''), (CHR ''?'', ''qu''),
      (CHR ''<'', ''lt''), (CHR ''>'', ''gt''), (CHR ''='', ''eq''), (CHR ''+'', ''pl''), (CHR ''*'', ''st''),
      (CHR ''%'', ''pc''), (CHR ''&'', ''am''), (CHR ''|'', ''ba''), (CHR ''^'', ''cr''), (CHR ''~'', ''td''),
      (CHR ''$'', ''dl''), (CHR ''@'', ''at''), (CHR ''.'', ''do''), (CHR '':'', ''cl''), (CHR 0x27, ''qt''),
      (CHR ''#'', ''hs''), (CHR '','', ''cm''), (CHR '';'', ''sc'')]"

definition sigil_mnemonic :: "char \<Rightarrow> string option" where
  "sigil_mnemonic c = map_of sigil_table c"

definition mnemonic_table :: "(string \<times> char) list" where
  "mnemonic_table =
     [(''un'', CHR ''_''), (''hy'', CHR ''-''), (''sl'', CHR ''/''), (''ex'', CHR ''!''), (''qu'', CHR ''?''),
      (''lt'', CHR ''<''), (''gt'', CHR ''>''), (''eq'', CHR ''=''), (''pl'', CHR ''+''), (''st'', CHR ''*''),
      (''pc'', CHR ''%''), (''am'', CHR ''&''), (''ba'', CHR ''|''), (''cr'', CHR ''^''), (''td'', CHR ''~''),
      (''dl'', CHR ''$''), (''at'', CHR ''@''), (''do'', CHR ''.''), (''cl'', CHR '':''), (''qt'', CHR 0x27),
      (''hs'', CHR ''#''), (''cm'', CHR '',''), (''sc'', CHR '';'')]"

definition mnemonic_byte :: "char \<Rightarrow> char \<Rightarrow> char option" where
  "mnemonic_byte a b = map_of mnemonic_table [a, b]"

definition hex_digit :: "nat \<Rightarrow> char" where
  "hex_digit v = char_of (if v < 10 then byte (CHR ''0'') + v else byte (CHR ''A'') + (v - 10))"

definition hex_value :: "char \<Rightarrow> nat option" where
  "hex_value c =
     (if in_range (CHR ''0'') (CHR ''9'') c then Some (byte c - byte (CHR ''0''))
      else if in_range (CHR ''A'') (CHR ''F'') c then Some (byte c - byte (CHR ''A'') + 10)
      else if in_range (CHR ''a'') (CHR ''f'') c then Some (byte c - byte (CHR ''a'') + 10)
      else None)"

definition tur_name_is_c_identifier :: "string \<Rightarrow> bool" where
  "tur_name_is_c_identifier name \<longleftrightarrow> (\<forall>c\<in>set name. is_alnum c \<or> c = CHR ''_'')"

section \<open>The injective scheme\<close>

definition tur_mangle_bound :: "nat \<Rightarrow> nat" where
  "tur_mangle_bound src_len = src_len * 4 + 1"

definition hex_escape :: "char \<Rightarrow> string" where
  "hex_escape c = [CHR ''x'', hex_digit (byte c div 16 mod 16), hex_digit (byte c mod 16)]"

definition mangle_byte :: "char \<Rightarrow> string" where
  "mangle_byte c =
     (if is_alnum c then [c]
      else CHR ''_'' # (case sigil_mnemonic c of Some m \<Rightarrow> m | None \<Rightarrow> hex_escape c))"

definition tur_mangle_append :: "string \<Rightarrow> string \<Rightarrow> string" where
  "tur_mangle_append dst name = dst @ concat (map mangle_byte name)"

section \<open>The legacy fold\<close>

definition legacy_byte :: "char \<Rightarrow> string" where
  "legacy_byte c =
     (if is_alnum c \<or> c = CHR ''_'' then [c]
      else if c = CHR ''-'' \<or> c = CHR ''/'' then [CHR ''_'']
      else CHR ''_'' # (case sigil_mnemonic c of
              Some m \<Rightarrow> (if c \<noteq> CHR ''_'' \<and> c \<noteq> CHR ''-'' \<and> c \<noteq> CHR ''/'' then m else hex_escape c)
            | None \<Rightarrow> hex_escape c))"

definition tur_mangle_legacy_append :: "string \<Rightarrow> string \<Rightarrow> string" where
  "tur_mangle_legacy_append dst name = dst @ concat (map legacy_byte name)"

section \<open>Into a fixed buffer\<close>

fun ident_loop :: "nat \<Rightarrow> string \<Rightarrow> string \<Rightarrow> string" where
  "ident_loop cap out [] = out"
| "ident_loop cap out (c # cs) =
     (let tmp = tur_mangle_append [] [c]
      in if cap \<le> length out + length tmp then out else ident_loop cap (out @ tmp) cs)"

text \<open>None when nothing is written (no room even for the terminator).\<close>

definition tur_mangle_ident :: "string \<Rightarrow> nat \<Rightarrow> string option" where
  "tur_mangle_ident name cap = (if cap = 0 then None else Some (ident_loop cap [] name))"

section \<open>Demangling\<close>

text \<open>
  The byte at an offset of a NUL-terminated string; the terminator past its end. The result of the
  loop is the text written and the count returned (0 for a malformed escape).
\<close>

definition peek :: "string \<Rightarrow> nat \<Rightarrow> char" where
  "peek p i = (if i < length p then p ! i else CHR 0x00)"

function demangle_loop :: "nat \<Rightarrow> string \<Rightarrow> string \<Rightarrow> string \<times> nat" where
  "demangle_loop cap out p =
     (if p = [] then (out, length out)
      else if hd p \<noteq> CHR ''_'' then
        (if cap \<le> length out + 1 then (out, length out) else demangle_loop cap (out @ [hd p]) (tl p))
      else if peek p 1 = CHR ''_'' then
        (if cap \<le> length out + 1 then (out, length out) else demangle_loop cap (out @ ''/'') (drop 2 p))
      else if peek p 1 = CHR ''x'' then
        (case (hex_value (peek p 2), hex_value (peek p 3)) of
           (Some hi, Some lo) \<Rightarrow>
             (if cap \<le> length out + 1 then (out, length out)
              else demangle_loop cap (out @ [char_of (hi * 16 + lo)]) (drop 4 p))
         | _ \<Rightarrow> (out, 0))
      else if peek p 1 \<noteq> CHR 0x00 \<and> peek p 2 \<noteq> CHR 0x00 then
        (case mnemonic_byte (peek p 1) (peek p 2) of
           None \<Rightarrow> (out, 0)
         | Some b \<Rightarrow>
             (if cap \<le> length out + 1 then (out, length out)
              else demangle_loop cap (out @ [b]) (drop 3 p)))
      else (out, 0))"
  by pat_completeness auto
termination
proof (relation "measure (\<lambda>(cap, out, p). length p)", goal_cases)
  case 1
  then show ?case by simp
qed (auto simp: neq_Nil_conv)

declare demangle_loop.simps [simp del]

definition tur_demangle :: "string \<Rightarrow> nat \<Rightarrow> string \<times> nat" where
  "tur_demangle mangled cap = (if cap = 0 then ([], 0) else demangle_loop cap [] mangled)"

section \<open>One byte, there and back\<close>

lemma alnum_simps [simp]: "\<not> is_alnum (CHR ''_'')" "\<not> is_alnum (CHR 0x00)" "is_alnum (CHR ''x'')"
  by (simp_all add: is_alnum_def in_range_def less_eq_char_def)

definition sigil_ok :: "char \<Rightarrow> string \<Rightarrow> bool" where
  "sigil_ok c m =
     (case m of
        [a, b] \<Rightarrow> is_alnum a \<and> is_alnum b \<and> a \<noteq> CHR ''x'' \<and> mnemonic_byte a b = Some c
      | _ \<Rightarrow> False)"

lemma sigil_table_ok: "list_all (\<lambda>(c, m). sigil_ok c m) sigil_table"
  by code_simp

lemma sigil_cases:
  assumes "sigil_mnemonic c = Some m"
  obtains a b where "m = [a, b]" "is_alnum a" "is_alnum b" "a \<noteq> CHR ''x''" "mnemonic_byte a b = Some c"
proof -
  have "(c, m) \<in> set sigil_table" using assms by (auto simp: sigil_mnemonic_def dest: map_of_SomeD)
  then have "sigil_ok c m" using sigil_table_ok by (auto simp: list_all_iff)
  then show ?thesis using that by (auto simp: sigil_ok_def split: list.splits)
qed

lemma hex_digit_value: "v < 16 \<Longrightarrow> hex_value (hex_digit v) = Some v \<and> is_alnum (hex_digit v)"
proof -
  have "\<forall>v\<in>{0..<16}. hex_value (hex_digit v) = Some v \<and> is_alnum (hex_digit v)"
    by code_simp
  then show "v < 16 \<Longrightarrow> ?thesis" by simp
qed

lemma byte_split: "char_of (byte c div 16 mod 16 * 16 + byte c mod 16) = c"
proof -
  have "byte c < 256" by (simp add: byte_def)
  then have "byte c div 16 mod 16 * 16 + byte c mod 16 = byte c" by (simp add: div_mult_mod_eq mod_less)
  then show ?thesis by (simp add: byte_def)
qed

lemma alnum_neq: "is_alnum a \<Longrightarrow> a \<noteq> CHR ''_''" "is_alnum a \<Longrightarrow> a \<noteq> CHR 0x00"
  using alnum_simps by metis+

lemma peek_simps [simp]:
  "peek (x # xs) 0 = x" "peek (x # xs) (Suc i) = peek xs i"
  by (simp_all add: peek_def)

text \<open>The demangler undoes the mangling of the next byte, whatever follows.\<close>

lemma demangle_byte:
  assumes "length out + 1 < cap"
  shows "demangle_loop cap out (mangle_byte c @ p) = demangle_loop cap (out @ [c]) p"
proof (cases "is_alnum c")
  case True
  then show ?thesis using assms alnum_neq
    by (subst demangle_loop.simps) (auto simp: mangle_byte_def)
next
  case False
  show ?thesis
  proof (cases "sigil_mnemonic c")
    case None
    have v: "hex_value (hex_digit (byte c div 16 mod 16)) = Some (byte c div 16 mod 16)"
      "hex_value (hex_digit (byte c mod 16)) = Some (byte c mod 16)"
      using hex_digit_value by simp_all
    show ?thesis using assms False None v byte_split [of c]
      by (subst demangle_loop.simps) (simp add: mangle_byte_def hex_escape_def numeral_2_eq_2 numeral_3_eq_3)
  next
    case (Some m)
    then obtain a b where m: "m = [a, b]" "is_alnum a" "is_alnum b" "a \<noteq> CHR ''x''" "mnemonic_byte a b = Some c"
      by (rule sigil_cases)
    then show ?thesis using assms False Some alnum_neq [of a] alnum_neq [of b]
      by (subst demangle_loop.simps) (simp add: mangle_byte_def numeral_2_eq_2)
  qed
qed

lemma demangle_mangle_loop:
  "length out + length name < cap \<Longrightarrow>
   demangle_loop cap out (concat (map mangle_byte name) @ p) = demangle_loop cap (out @ name) p"
proof (induction name arbitrary: out)
  case (Cons c name)
  then show ?case using demangle_byte [of out cap c "concat (map mangle_byte name) @ p"] by simp
qed simp

lemma demangle_end: "demangle_loop cap out [] = (out, length out)"
  by (simp add: demangle_loop.simps)

lemma demangle_mangle: "length name < cap \<Longrightarrow> tur_demangle (tur_mangle_append [] name) cap = (name, length name)"
  using demangle_mangle_loop [of "[]" name cap "[]"]
  by (simp add: tur_demangle_def tur_mangle_append_def demangle_end)

lemma mangle_injective: "tur_mangle_append dst a = tur_mangle_append dst b \<longleftrightarrow> a = b"
proof
  assume "tur_mangle_append dst a = tur_mangle_append dst b"
  then have "tur_mangle_append [] a = tur_mangle_append [] b" by (simp add: tur_mangle_append_def)
  then show "a = b"
    using demangle_mangle [of a "length a + length b + 1"] demangle_mangle [of b "length a + length b + 1"] by simp
qed simp

text \<open>A module path: the structural separator between two mangled names is a slash.\<close>

lemma demangle_module:
  assumes "length a + length b + 1 < cap"
  shows "tur_demangle (tur_mangle_append [] a @ ''__'' @ tur_mangle_append [] b) cap = (a @ ''/'' @ b, length a + length b + 1)"
proof -
  let ?q = "tur_mangle_append [] b"
  have "demangle_loop cap [] (tur_mangle_append [] a @ ''__'' @ ?q) = demangle_loop cap a (''__'' @ ?q)"
    using demangle_mangle_loop [of "[]" a cap "''__'' @ ?q"] assms by (simp add: tur_mangle_append_def)
  also have "\<dots> = demangle_loop cap (a @ ''/'') ?q"
    using assms by (subst demangle_loop.simps) (simp add: numeral_2_eq_2)
  also have "\<dots> = (a @ ''/'' @ b, length a + length b + 1)"
    using demangle_mangle_loop [of "a @ ''/''" b cap "[]"] assms by (simp add: tur_mangle_append_def demangle_end)
  finally show ?thesis using assms by (simp add: tur_demangle_def)
qed

section \<open>The shape of a mangled name\<close>

lemma hex_digit_alnum: "v < 16 \<Longrightarrow> is_alnum (hex_digit v)"
  using hex_digit_value by blast

lemma mangle_byte_shape:
  "(\<exists>c'. mangle_byte c = [c'] \<and> is_alnum c') \<or>
   (\<exists>a b. mangle_byte c = [CHR ''_'', a, b] \<and> is_alnum a \<and> is_alnum b \<and> mnemonic_byte a b = Some c) \<or>
   (\<exists>a b. mangle_byte c = [CHR ''_'', CHR ''x'', a, b] \<and> is_alnum a \<and> is_alnum b)"
proof (cases "is_alnum c")
  case True
  then show ?thesis by (simp add: mangle_byte_def)
next
  case False
  then show ?thesis
    by (cases "sigil_mnemonic c")
      (auto simp: mangle_byte_def hex_escape_def hex_digit_alnum elim: sigil_cases)
qed

lemma mangle_identifier: "tur_name_is_c_identifier (tur_mangle_append [] name)"
proof (induction name)
  case (Cons c name)
  have "tur_name_is_c_identifier (mangle_byte c)"
    using mangle_byte_shape [of c] by (auto simp: tur_name_is_c_identifier_def)
  then show ?case using Cons by (auto simp: tur_name_is_c_identifier_def tur_mangle_append_def)
qed (simp add: tur_name_is_c_identifier_def tur_mangle_append_def)

lemma mangle_length: "length (tur_mangle_append [] name) < tur_mangle_bound (length name)"
proof (induction name)
  case (Cons c name)
  have "length (mangle_byte c) \<le> 4" using mangle_byte_shape [of c] by auto
  then show ?case using Cons by (simp add: tur_mangle_append_def tur_mangle_bound_def)
qed (simp add: tur_mangle_append_def tur_mangle_bound_def)

text \<open>No two underscores in a row, and none at the end.\<close>

fun no_dunder :: "string \<Rightarrow> bool" where
  "no_dunder [] = True"
| "no_dunder [c] = (c \<noteq> CHR ''_'')"
| "no_dunder (c # d # s) = (\<not> (c = CHR ''_'' \<and> d = CHR ''_'') \<and> no_dunder (d # s))"

lemma no_dunder_alnum: "is_alnum c \<Longrightarrow> no_dunder s \<Longrightarrow> no_dunder (c # s)"
  using alnum_neq(1) [of c] by (cases s) auto

lemma no_dunder_escape: "is_alnum c \<Longrightarrow> no_dunder (c # s) \<Longrightarrow> no_dunder (CHR ''_'' # c # s)"
  using alnum_neq(1) [of c] by simp

lemma mangle_no_dunder: "no_dunder (tur_mangle_append [] name)"
proof (induction name)
  case (Cons c name)
  show ?case
    using mangle_byte_shape [of c] Cons
    by (auto simp: tur_mangle_append_def no_dunder_alnum no_dunder_escape simp del: no_dunder.simps(3))
qed (simp add: tur_mangle_append_def)

text \<open>The guard prefix is not the beginning of any mangled name.\<close>

definition TUR_NAME_GUARD_PREFIX :: string where "TUR_NAME_GUARD_PREFIX = ''tur_u_''"

lemma demangle_guard: "6 < cap \<Longrightarrow> tur_demangle (TUR_NAME_GUARD_PREFIX @ s) cap = (''tur'', 0)"
proof -
  assume "6 < cap"
  moreover have "mnemonic_byte (CHR ''u'') (CHR ''_'') = None" by code_simp
  ultimately show ?thesis
    by (simp add: tur_demangle_def TUR_NAME_GUARD_PREFIX_def demangle_loop.simps [of cap "[]"]
        demangle_loop.simps [of cap "''t''"] demangle_loop.simps [of cap "''tu''"] demangle_loop.simps [of cap "''tur''"] numeral_2_eq_2)
qed

lemma mangle_not_guarded: "tur_mangle_append [] name \<noteq> TUR_NAME_GUARD_PREFIX @ s"
proof
  assume e: "tur_mangle_append [] name = TUR_NAME_GUARD_PREFIX @ s"
  have "(name, length name) = tur_demangle (tur_mangle_append [] name) (length name + 7)" by (rule demangle_mangle [symmetric]) simp
  also have "\<dots> = (''tur'', 0)" unfolding e by (rule demangle_guard) simp
  finally have "name = ''tur''" "length name = 0" by (blast dest: Pair_inject)+
  then show False by simp
qed

section \<open>The bounded wrapper\<close>

text \<open>The output fits with its terminator, is the mangling of a prefix of the name, and is the whole of it
  when there is room.\<close>

lemma ident_loop_ok:
  "length out < cap \<Longrightarrow>
   \<exists>pre. (\<exists>post. cs = pre @ post) \<and> ident_loop cap out cs = out @ tur_mangle_append [] pre \<and> length (ident_loop cap out cs) < cap
     \<and> (length out + length (tur_mangle_append [] cs) < cap \<longrightarrow> pre = cs)"
proof (induction cs arbitrary: out)
  case Nil
  then show ?case by (auto simp: tur_mangle_append_def)
next
  case (Cons c cs)
  show ?case
  proof (cases "cap \<le> length out + length (mangle_byte c)")
    case True
    then show ?thesis using Cons.prems by (intro exI [of _ "[]"]) (auto simp: tur_mangle_append_def)
  next
    case False
    then have "length (out @ mangle_byte c) < cap" by simp
    from Cons.IH [OF this] obtain pre where pre: "\<exists>post. cs = pre @ post" "ident_loop cap (out @ mangle_byte c) cs = (out @ mangle_byte c) @ tur_mangle_append [] pre"
      "length (ident_loop cap (out @ mangle_byte c) cs) < cap"
      "length (out @ mangle_byte c) + length (tur_mangle_append [] cs) < cap \<longrightarrow> pre = cs" by blast
    then show ?thesis using False by (intro exI [of _ "c # pre"]) (auto simp: tur_mangle_append_def)
  qed
qed

lemma mangle_ident_full:
  assumes "length (tur_mangle_append [] name) < cap"
  shows "tur_mangle_ident name cap = Some (tur_mangle_append [] name)"
  using ident_loop_ok [of "[]" cap name] assms by (auto simp: tur_mangle_ident_def)

text \<open>The legacy fold is not injective, and gives identifiers too.\<close>

lemma legacy_collision: "tur_mangle_legacy_append [] ''foo-bar'' = tur_mangle_legacy_append [] ''foo_bar''"
  by code_simp

lemma legacy_identifier: "tur_name_is_c_identifier (tur_mangle_legacy_append [] name)"
proof (induction name)
  case (Cons c name)
  have "tur_name_is_c_identifier (legacy_byte c)"
    by (cases "sigil_mnemonic c")
      (auto simp: legacy_byte_def hex_escape_def hex_digit_alnum tur_name_is_c_identifier_def elim: sigil_cases)
  then show ?case using Cons by (auto simp: tur_name_is_c_identifier_def tur_mangle_legacy_append_def)
qed (simp add: tur_name_is_c_identifier_def tur_mangle_legacy_append_def)

end
