(* ===== verification/Demangle.thy ===== *)
theory Demangle
  imports Mangle
begin

text \<open>
  The filter \<open>tur demangle\<close> (\<open>src/cli/demangle.c\<close>): which tokens of a text are taken for mangled
  names, the guards around the decoder, and the streaming loop with its fixed token buffer. The
  buffer is never terminated by the loop, and starts with whatever the stack holds, so its content
  is part of the state. Proved: the output does not depend on it, the loop is the rewriting of the
  maximal identifier runs, and mangled names come back.
\<close>

section \<open>The recognizer\<close>

definition TOK_MAX :: nat where "TOK_MAX = 4096"

definition TUR_NAME_GUARD_PREFIX_LEN :: nat where "TUR_NAME_GUARD_PREFIX_LEN = 6"

definition is_ident_byte :: "char \<Rightarrow> bool" where
  "is_ident_byte c \<longleftrightarrow> is_alnum c \<or> c = CHR ''_''"

definition has_prefix :: "string \<Rightarrow> string \<Rightarrow> bool" where
  "has_prefix s p \<longleftrightarrow> length p \<le> length s \<and> take (length p) s = p"

fun contains_double_underscore :: "string \<Rightarrow> bool" where
  "contains_double_underscore (c # d # s) = (c = CHR ''_'' \<and> d = CHR ''_'' \<or> contains_double_underscore (d # s))"
| "contains_double_underscore _ = False"

text \<open>The C string at the start of a piece of memory.\<close>

definition c_str :: "string \<Rightarrow> string" where
  "c_str mem = takeWhile (\<lambda>c. c \<noteq> CHR 0x00) mem"

definition has_control_byte :: "string \<Rightarrow> bool" where
  "has_control_byte s \<longleftrightarrow> (\<exists>c\<in>set s. byte c < 0x20 \<or> byte c = 0x7f)"

definition signal_mnemonics :: "string list" where
  "signal_mnemonics = [''hy'', ''sl'', ''gt'', ''lt'', ''pc'', ''am'', ''td'', ''qt'', ''hs'']"

definition is_signal_mnemonic :: "char \<Rightarrow> char \<Rightarrow> bool" where
  "is_signal_mnemonic a b \<longleftrightarrow> [a, b] \<in> set signal_mnemonics"

text \<open>The scan of the escapes, with the two flags; three bytes must be left for a mnemonic.\<close>

function escape_scan :: "string \<Rightarrow> bool \<Rightarrow> bool \<Rightarrow> bool" where
  "escape_scan s sig lit =
     (case s of
        [] \<Rightarrow> sig \<or> \<not> lit
      | c # r \<Rightarrow>
          if c \<noteq> CHR ''_'' then escape_scan r sig True
          else if r \<noteq> [] \<and> hd r = CHR ''_'' then escape_scan (drop 1 r) True lit
          else if r \<noteq> [] \<and> hd r = CHR ''x'' then escape_scan (drop 3 r) True lit
          else if 2 \<le> length r then
            (let a = r ! 0; b = r ! 1
             in escape_scan (drop 2 r)
                  (sig \<or> is_signal_mnemonic a b \<or>
                   length r = 2 \<and> (a = CHR ''q'' \<and> b = CHR ''u'' \<or> a = CHR ''e'' \<and> b = CHR ''x'')) lit)
          else escape_scan r sig lit)"
  by pat_completeness auto
termination by (relation "measure (\<lambda>(s, sig, lit). length s)") auto

declare escape_scan.simps [simp del]

definition token_looks_mangled :: "string \<Rightarrow> bool" where
  "token_looks_mangled s = escape_scan s False False"

text \<open>
  The reserved-name tests read the token up to a NUL: they fail when more bytes follow it in
  memory.
\<close>

definition reserved_token :: "string \<Rightarrow> nat \<Rightarrow> bool" where
  "reserved_token mem len \<longleftrightarrow>
     length (c_str mem) = len \<and> (tur_name_is_c_keyword (take len mem) \<or> tur_name_collides_libc (take len mem))"

text \<open>\<open>tok\<close> is the memory at the token and \<open>len\<close> its length; the result is the text for \<open>out\<close>.\<close>

definition tur_demangle_token :: "string \<Rightarrow> nat \<Rightarrow> nat \<Rightarrow> bool \<Rightarrow> string option" where
  "tur_demangle_token mem len cap strict =
     (if len = 0 \<or> cap = 0 then None
      else if TOK_MAX \<le> len then None
      else
        let tok = take len mem; guarded = has_prefix tok TUR_NAME_GUARD_PREFIX;
            body = (if guarded then drop TUR_NAME_GUARD_PREFIX_LEN tok else tok)
        in if guarded \<and> body = [] then None
           else if \<not> guarded \<and>
             (CHR ''_'' \<notin> set tok \<or> has_prefix tok ''__'' \<or> reserved_token mem len
              \<or> \<not> strict \<and> \<not> token_looks_mangled tok) then None
           else if strict \<and> \<not> contains_double_underscore body then None
           else
             let (text, n) = tur_demangle (c_str body) TOK_MAX; decoded = c_str text
             in if n = 0 then None
                else if has_control_byte decoded then None
                else if \<not> guarded \<and> decoded = tok then None
                else if cap < length decoded + 1 then None
                else Some decoded)"

section \<open>The filter\<close>

definition emit_token :: "string \<Rightarrow> nat \<Rightarrow> bool \<Rightarrow> bool \<Rightarrow> string" where
  "emit_token mem len strict annotate =
     (case (if 0 < len then tur_demangle_token mem len TOK_MAX strict else None) of
        Some decoded \<Rightarrow> decoded @ (if annotate then ''['' @ take len mem @ '']'' else [])
      | None \<Rightarrow> take len mem)"

record filterst =
  fs_tok :: string
  fs_n :: nat
  fs_overflowed :: bool
  fs_out :: string

definition filter_byte :: "bool \<Rightarrow> bool \<Rightarrow> char \<Rightarrow> filterst \<Rightarrow> filterst" where
  "filter_byte strict annotate c st =
     (if is_ident_byte c then
        (if fs_overflowed st then st\<lparr>fs_out := fs_out st @ [c]\<rparr>
         else if TOK_MAX \<le> fs_n st + 1 then
           st\<lparr>fs_out := fs_out st @ take (fs_n st) (fs_tok st) @ [c], fs_n := 0, fs_overflowed := True\<rparr>
         else st\<lparr>fs_tok := (fs_tok st)[fs_n st := c], fs_n := fs_n st + 1\<rparr>)
      else
        st\<lparr>fs_out := fs_out st @ (if fs_overflowed st then [] else emit_token (fs_tok st) (fs_n st) strict annotate) @ [c],
           fs_overflowed := False, fs_n := 0\<rparr>)"

definition filter_stream :: "bool \<Rightarrow> bool \<Rightarrow> string \<Rightarrow> string \<Rightarrow> string" where
  "filter_stream strict annotate garbage input =
     (let st = fold (filter_byte strict annotate) input \<lparr>fs_tok = garbage, fs_n = 0, fs_overflowed = False, fs_out = []\<rparr>
      in fs_out st @ (if fs_overflowed st then [] else emit_token (fs_tok st) (fs_n st) strict annotate))"

text \<open>The flags, and argument mode: one line per name. An unknown flag gives the exit status 2.\<close>

fun demangle_flags :: "string list \<Rightarrow> bool \<Rightarrow> bool \<Rightarrow> nat + (bool \<times> bool \<times> string list)" where
  "demangle_flags [] strict annotate = Inr (strict, annotate, [])"
| "demangle_flags (a # as) strict annotate =
     (if a = ''--strict'' then demangle_flags as True annotate
      else if a = ''--annotate'' then demangle_flags as strict True
      else if a = ''--help'' \<or> a = ''-h'' then Inl 0
      else if a \<noteq> [] \<and> hd a = CHR ''-'' \<and> 1 < length a then Inl 2
      else Inr (strict, annotate, a # as))"

definition cmd_demangle :: "string list \<Rightarrow> string \<Rightarrow> string \<Rightarrow> nat \<times> string" where
  "cmd_demangle args garbage stdin =
     (case demangle_flags args False False of
        Inl status \<Rightarrow> (status, [])
      | Inr (strict, annotate, names) \<Rightarrow>
          (0, if names = [] then filter_stream strict annotate garbage stdin
              else concat (map (\<lambda>a. emit_token (a @ [CHR 0x00]) (length a) strict annotate @ [CHR 0x0a]) names)))"

section \<open>Reserved names carry no signal\<close>

text \<open>
  No entry of the three tables looks mangled, except those without an underscore or with two at
  the front, which are turned away first. So the outcome never hangs on the reserved-name tests.
\<close>

definition plain_c_name :: "string \<Rightarrow> bool" where
  "plain_c_name s \<longleftrightarrow> CHR ''_'' \<notin> set s \<or> has_prefix s ''__'' \<or> \<not> token_looks_mangled s \<and> \<not> contains_double_underscore s"

lemma c_keywords_plain: "list_all plain_c_name c_keywords"
  by code_simp

lemma libm_names_plain: "list_all plain_c_name libm_names"
  by code_simp

lemma libc_names_1_plain: "list_all plain_c_name libc_names_1"
  by code_simp

lemma libc_names_2_plain: "list_all plain_c_name libc_names_2"
  by code_simp

lemma libc_names_3_plain: "list_all plain_c_name libc_names_3"
  by code_simp

lemma libc_names_4_plain: "list_all plain_c_name libc_names_4"
  by code_simp

lemma libc_names_5_plain: "list_all plain_c_name libc_names_5"
  by code_simp

lemma libc_names_6_plain: "list_all plain_c_name libc_names_6"
  by code_simp

lemma libc_names_7_plain: "list_all plain_c_name libc_names_7"
  by code_simp

lemma libc_names_8_plain: "list_all plain_c_name libc_names_8"
  by code_simp

lemma libc_names_plain: "list_all plain_c_name libc_names"
  by (simp add: libc_names_def libc_names_1_plain libc_names_2_plain libc_names_3_plain libc_names_4_plain
      libc_names_5_plain libc_names_6_plain libc_names_7_plain libc_names_8_plain)

lemma reserved_plain: "tur_name_is_c_keyword s \<or> tur_name_collides_libc s \<Longrightarrow> plain_c_name s"
  using c_keywords_plain libm_names_plain libc_names_plain
    bsearch_member [OF c_keywords_sorted, of s] bsearch_member [OF libm_names_sorted, of s] bsearch_member [OF libc_names_sorted, of s]
  by (auto simp: tur_name_is_c_keyword_def tur_name_collides_libc_def list_all_iff split: if_splits)

lemma token_memory:
  assumes "take len mem = take len mem'"
  shows "tur_demangle_token mem len cap strict = tur_demangle_token mem' len cap strict"
proof -
  let ?tok = "take len mem'"
  have "reserved_token mem len \<or> reserved_token mem' len \<Longrightarrow> plain_c_name ?tok"
    using reserved_plain [of ?tok] assms by (auto simp: reserved_token_def)
  then show ?thesis
    using assms by (cases strict) (auto simp: tur_demangle_token_def Let_def plain_c_name_def)
qed

section \<open>The loop rewrites the runs\<close>

definition rewrite_token :: "bool \<Rightarrow> bool \<Rightarrow> string \<Rightarrow> string" where
  "rewrite_token strict annotate tok = emit_token (tok @ [CHR 0x00]) (length tok) strict annotate"

lemma emit_token_memory: "len \<le> length mem \<Longrightarrow> emit_token mem len strict annotate = rewrite_token strict annotate (take len mem)"
  using token_memory [of len mem "take len mem @ [CHR 0x00]" TOK_MAX strict]
  by (simp add: emit_token_def rewrite_token_def min_absorb2 cong: option.case_cong)

lemma rewrite_long: "TOK_MAX \<le> length tok \<Longrightarrow> rewrite_token strict annotate tok = tok"
  by (simp add: rewrite_token_def emit_token_def tur_demangle_token_def)

lemma rewrite_Nil [simp]: "rewrite_token strict annotate [] = []"
  by (simp add: rewrite_token_def emit_token_def)

text \<open>The specification: maximal runs of identifier bytes are rewritten, all else is copied.\<close>

function demangle_text :: "bool \<Rightarrow> bool \<Rightarrow> string \<Rightarrow> string" where
  "demangle_text strict annotate s =
     rewrite_token strict annotate (takeWhile is_ident_byte s) @
     (case dropWhile is_ident_byte s of [] \<Rightarrow> [] | c # r \<Rightarrow> c # demangle_text strict annotate r)"
  by pat_completeness auto
termination
proof (relation "measure (\<lambda>(a, b, s). length s)", goal_cases)
  case (2 strict annotate s c r)
  then show ?case using length_dropWhile_le [of is_ident_byte s] by simp
qed simp

declare demangle_text.simps [simp del]

definition after_run :: "bool \<Rightarrow> bool \<Rightarrow> string \<Rightarrow> string" where
  "after_run strict annotate s = (case s of [] \<Rightarrow> [] | c # r \<Rightarrow> c # demangle_text strict annotate r)"

lemma demangle_text_run:
  "list_all is_ident_byte p \<Longrightarrow> demangle_text strict annotate (p @ s) =
   rewrite_token strict annotate (p @ takeWhile is_ident_byte s) @ after_run strict annotate (dropWhile is_ident_byte s)"
  by (subst demangle_text.simps) (simp add: after_run_def list_all_iff takeWhile_append2 dropWhile_append2)

definition filter_end :: "bool \<Rightarrow> bool \<Rightarrow> filterst \<Rightarrow> string" where
  "filter_end strict annotate st =
     fs_out st @ (if fs_overflowed st then [] else emit_token (fs_tok st) (fs_n st) strict annotate)"

definition filter_inv :: "filterst \<Rightarrow> bool" where
  "filter_inv st \<longleftrightarrow> length (fs_tok st) = TOK_MAX \<and> fs_n st < TOK_MAX \<and> list_all is_ident_byte (take (fs_n st) (fs_tok st))"

lemma take_update_snoc: "n < length xs \<Longrightarrow> take (Suc n) (xs[n := c]) = take n xs @ [c]"
  by (simp add: take_Suc_conv_app_nth)

lemma filter_loop:
  "filter_inv st \<Longrightarrow> filter_end strict annotate (fold (filter_byte strict annotate) input st) = fs_out st @
     (if fs_overflowed st
      then takeWhile is_ident_byte input @ after_run strict annotate (dropWhile is_ident_byte input)
      else demangle_text strict annotate (take (fs_n st) (fs_tok st) @ input))"
proof (induction input arbitrary: st)
  case Nil
  then show ?case
    using demangle_text_run [of "take (fs_n st) (fs_tok st)" strict annotate "[]"]
    by (simp add: filter_end_def filter_inv_def after_run_def emit_token_memory)
next
  case (Cons c input)
  let ?st = "filter_byte strict annotate c st"
  note inv = Cons.prems [unfolded filter_inv_def]
  have i: "filter_inv ?st"
    using inv by (auto simp: filter_inv_def filter_byte_def take_update_snoc TOK_MAX_def)
  note ih = Cons.IH [OF i]
  have split: "demangle_text strict annotate (take (fs_n st) (fs_tok st) @ c # input) =
      rewrite_token strict annotate (take (fs_n st) (fs_tok st) @ takeWhile is_ident_byte (c # input))
      @ after_run strict annotate (dropWhile is_ident_byte (c # input))"
    using inv by (intro demangle_text_run) simp
  consider (over) "is_ident_byte c" "fs_overflowed st" | (full) "is_ident_byte c" "\<not> fs_overflowed st" "TOK_MAX \<le> fs_n st + 1"
    | (room) "is_ident_byte c" "\<not> fs_overflowed st" "\<not> TOK_MAX \<le> fs_n st + 1" | (other) "\<not> is_ident_byte c"
    by blast
  then show ?case
  proof cases
    case over
    then show ?thesis using ih by (simp add: filter_byte_def)
  next
    case full
    then have "TOK_MAX \<le> length (take (fs_n st) (fs_tok st) @ c # takeWhile is_ident_byte input)" using inv by simp
    then show ?thesis using full ih split by (simp add: filter_byte_def rewrite_long)
  next
    case room
    then show ?thesis using ih inv by (simp add: filter_byte_def take_update_snoc)
  next
    case other
    then show ?thesis using ih inv split by (simp add: filter_byte_def after_run_def emit_token_memory)
  qed
qed

lemma filter_stream_text:
  assumes "length garbage = TOK_MAX"
  shows "filter_stream strict annotate garbage input = demangle_text strict annotate input"
  using assms filter_loop [of "\<lparr>fs_tok = garbage, fs_n = 0, fs_overflowed = False, fs_out = []\<rparr>" strict annotate input]
  by (simp add: filter_stream_def filter_end_def filter_inv_def TOK_MAX_def Let_def)

section \<open>Names come back\<close>

lemma escape_scan_Nil [simp]: "escape_scan [] sig lit = (sig \<or> \<not> lit)"
  by (simp add: escape_scan.simps)

lemma escape_scan_signal: "escape_scan s True lit"
proof (induction "length s" arbitrary: s lit rule: less_induct)
  case less
  show ?case
  proof (cases s)
    case (Cons c r)
    then have "escape_scan r True l" "escape_scan (drop k r) True l" for l k using less by simp_all
    then show ?thesis using Cons by (subst escape_scan.simps) (simp add: Let_def)
  qed (simp add: escape_scan.simps)
qed

lemma escape_scan_byte: "\<exists>sig' lit'. escape_scan (mangle_byte c @ s) sig lit = escape_scan s sig' lit'"
  using mangle_byte_shape [of c]
proof (elim disjE exE conjE)
  fix c'
  assume "mangle_byte c = [c']" "is_alnum c'"
  then have "escape_scan (mangle_byte c @ s) sig lit = escape_scan s sig True"
    using alnum_neq(1) [of c'] by (subst escape_scan.simps) simp
  then show ?thesis by blast
next
  fix a b
  assume m: "mangle_byte c = [CHR ''_'', a, b]" "is_alnum a" "is_alnum b" "mnemonic_byte a b = Some c"
  show ?thesis
  proof (cases "a = CHR ''x''")
    case True
    then have "mnemonic_byte a b = None" by (simp add: mnemonic_byte_def mnemonic_table_def)
    then show ?thesis using m by simp
  next
    case False
    then show ?thesis using m alnum_neq(1) [of a] by (subst escape_scan.simps) (auto simp: Let_def)
  qed
next
  fix a b
  assume "mangle_byte c = [CHR ''_'', CHR ''x'', a, b]"
  then have "escape_scan (mangle_byte c @ s) sig lit = escape_scan s True lit"
    by (subst escape_scan.simps) (simp add: numeral_3_eq_3)
  then show ?thesis by blast
qed

lemma escape_scan_mangled: "\<exists>sig' lit'. escape_scan (tur_mangle_append [] name @ s) sig lit = escape_scan s sig' lit'"
proof (induction name arbitrary: sig lit)
  case (Cons c name)
  then show ?case
    using escape_scan_byte [of c "tur_mangle_append [] name @ s" sig lit] by (simp add: tur_mangle_append_def) metis
qed (auto simp: tur_mangle_append_def)

lemma module_looks_mangled: "token_looks_mangled (tur_mangle_append [] a @ ''__'' @ s)"
proof -
  have "escape_scan (''__'' @ s) sig lit" for sig lit
    by (subst escape_scan.simps) (simp add: escape_scan_signal)
  then show ?thesis using escape_scan_mangled [of a "''__'' @ s" False False] by (auto simp: token_looks_mangled_def)
qed

lemma contains_dunder_mid: "contains_double_underscore (s @ ''__'' @ t)"
proof (induction s)
  case (Cons c s)
  then show ?case by (cases s) auto
qed simp

lemma contains_dunder_drop: "contains_double_underscore (drop n s) \<Longrightarrow> contains_double_underscore s"
proof (induction n arbitrary: s)
  case (Suc n)
  then show ?case by (cases s rule: contains_double_underscore.cases) auto
qed simp

lemma mangle_length_ge: "length name \<le> length (tur_mangle_append [] name)"
proof (induction name)
  case (Cons c name)
  have "1 \<le> length (mangle_byte c)" using mangle_byte_shape [of c] by auto
  then show ?case using Cons by (simp add: tur_mangle_append_def)
qed simp

lemma mangle_no_nul: "CHR 0x00 \<notin> set (tur_mangle_append [] name)"
proof
  assume "CHR 0x00 \<in> set (tur_mangle_append [] name)"
  then show False using mangle_identifier [of name] by (auto simp: tur_name_is_c_identifier_def)
qed

lemma mangle_no_leading_dunder: "a \<noteq> [] \<Longrightarrow> \<not> has_prefix (tur_mangle_append [] a @ s) ''__''"
  using mangle_byte_shape [of "hd a"] alnum_neq(1)
  by (cases a) (fastforce simp: has_prefix_def tur_mangle_append_def)+

lemma c_str_whole: "CHR 0x00 \<notin> set s \<Longrightarrow> c_str s = s"
  by (auto simp: c_str_def takeWhile_eq_all_conv)

lemma no_control_nul: "\<not> has_control_byte s \<Longrightarrow> CHR 0x00 \<notin> set s"
  by (auto simp: has_control_byte_def byte_def)

lemma has_prefix_append: "has_prefix s p \<longleftrightarrow> (\<exists>t. s = p @ t)"
  by (auto simp: has_prefix_def) (metis append_take_drop_id)

lemma token_module:
  assumes a: "a \<noteq> []" and c: "\<not> has_control_byte (a @ b)"
    and l: "length (tur_mangle_append [] a @ ''__'' @ tur_mangle_append [] b) < TOK_MAX"
  shows "tur_demangle_token (tur_mangle_append [] a @ ''__'' @ tur_mangle_append [] b @ rest)
    (length (tur_mangle_append [] a @ ''__'' @ tur_mangle_append [] b)) TOK_MAX strict = Some (a @ ''/'' @ b)"
proof -
  let ?m = "tur_mangle_append [] a @ ''__'' @ tur_mangle_append [] b"
  have fits: "length a + length b + 1 < TOK_MAX" using l mangle_length_ge [of a] mangle_length_ge [of b] by simp
  have d: "tur_demangle ?m TOK_MAX = (a @ ''/'' @ b, length a + length b + 1)" by (rule demangle_module [OF fits])
  have g: "\<not> has_prefix ?m TUR_NAME_GUARD_PREFIX"
    using d demangle_guard [of TOK_MAX] by (auto simp: has_prefix_append TOK_MAX_def)
  have p: "\<not> plain_c_name ?m"
    using mangle_no_leading_dunder [OF a] contains_dunder_mid [of "tur_mangle_append [] a"]
    by (simp add: plain_c_name_def)
  then have r: "\<not> reserved_token (?m @ rest) (length ?m)" using reserved_plain by (auto simp: reserved_token_def)
  have n: "c_str ?m = ?m" by (rule c_str_whole) (simp add: mangle_no_nul)
  have ctl: "\<not> has_control_byte (a @ ''/'' @ b)" using c by (auto simp: has_control_byte_def byte_def)
  have ne: "a @ ''/'' @ b \<noteq> ?m"
    using mangle_length_ge [of a] mangle_length_ge [of b] by (auto dest: arg_cong [where f = length])
  have "take (length ?m) (?m @ rest) = ?m" by simp
  then show ?thesis
    using l g r n d ctl ne fits mangle_no_leading_dunder [OF a] module_looks_mangled [of a] c_str_whole [OF no_control_nul [OF ctl]]
      contains_dunder_mid [of "tur_mangle_append [] a" "tur_mangle_append [] b"]
    unfolding tur_demangle_token_def Let_def by (simp add: TOK_MAX_def)
qed

lemma token_guarded:
  assumes a: "name \<noteq> []" and c: "\<not> has_control_byte name"
    and l: "length (TUR_NAME_GUARD_PREFIX @ tur_mangle_append [] name) < TOK_MAX"
  shows "tur_demangle_token (TUR_NAME_GUARD_PREFIX @ tur_mangle_append [] name @ rest)
    (length (TUR_NAME_GUARD_PREFIX @ tur_mangle_append [] name)) TOK_MAX False = Some name"
proof -
  let ?m = "tur_mangle_append [] name"
  have fits: "length name < TOK_MAX" using l mangle_length_ge [of name] by simp
  have d: "tur_demangle ?m TOK_MAX = (name, length name)" by (rule demangle_mangle [OF fits])
  have n: "c_str ?m = ?m" by (rule c_str_whole) (rule mangle_no_nul)
  have b: "?m \<noteq> []" using mangle_length_ge [of name] a by auto
  have g: "has_prefix (TUR_NAME_GUARD_PREFIX @ ?m) TUR_NAME_GUARD_PREFIX" by (auto simp: has_prefix_append)
  have "take (length (TUR_NAME_GUARD_PREFIX @ ?m)) (TUR_NAME_GUARD_PREFIX @ ?m @ rest) = TUR_NAME_GUARD_PREFIX @ ?m" by simp
  moreover have "drop TUR_NAME_GUARD_PREFIX_LEN (TUR_NAME_GUARD_PREFIX @ ?m) = ?m"
    by (simp add: TUR_NAME_GUARD_PREFIX_LEN_def TUR_NAME_GUARD_PREFIX_def)
  ultimately show ?thesis
    using l n d b g a c fits c_str_whole [OF no_control_nul [OF c]]
    unfolding tur_demangle_token_def Let_def by (simp add: TOK_MAX_def)
qed

lemma token_result:
  assumes "tur_demangle_token mem len cap strict = Some d"
  shows "length d < cap \<and> \<not> has_control_byte d \<and> (strict \<longrightarrow> contains_double_underscore (take len mem))"
  using assms
  by (auto simp: tur_demangle_token_def Let_def split: if_splits prod.splits dest: contains_dunder_drop)

end
