(* ===== verification/NameProps.thy ===== *)
theory NameProps
  imports Demangle
begin

text \<open>The properties of the mangler, of its tables of reserved names, and of the demangling filter.\<close>

text \<open>C19: demangling a mangled name into a buffer with room for it gives back the name and its length.\<close>

theorem demangle_inverts_mangle:
  assumes "length name < cap"
  shows "tur_demangle (tur_mangle_append [] name) cap = (name, length name)"
  using assms by (rule demangle_mangle)

theorem demangle_inverts_mangle_witness: "tur_demangle (tur_mangle_append [] ''list->vec!'') 16 = (''list->vec!'', 10)"
  using demangle_inverts_mangle [of "''list->vec!''" 16] by simp

text \<open>
  C20: a mangled name is a C identifier without two underscores in a row and without the guard
  prefix, no two names share one, and it fits the bound the callers allocate.
\<close>

theorem mangle_shape:
  "tur_name_is_c_identifier (tur_mangle_append [] a) \<and> no_dunder (tur_mangle_append [] a)
   \<and> tur_mangle_append [] a \<noteq> TUR_NAME_GUARD_PREFIX @ s \<and> (tur_mangle_append [] a = tur_mangle_append [] b) = (a = b)
   \<and> length (tur_mangle_append [] a) < tur_mangle_bound (length a)"
  using mangle_identifier mangle_no_dunder mangle_not_guarded mangle_injective mangle_length by blast

text \<open>The bounded wrapper always leaves room for the terminator, mangles a prefix of the name, and all of it when it fits.\<close>

theorem mangle_ident_bounded:
  assumes "0 < cap"
  shows "\<exists>pre post out. name = pre @ post \<and> tur_mangle_ident name cap = Some out \<and> out = tur_mangle_append [] pre
     \<and> length out < cap \<and> (length (tur_mangle_append [] name) < cap \<longrightarrow> pre = name)"
  using ident_loop_ok [of "[]" cap name] assms by (auto simp: tur_mangle_ident_def)

theorem mangle_ident_bounded_witness:
  "\<exists>pre post out. ''a-b'' = pre @ post \<and> tur_mangle_ident ''a-b'' 4 = Some out \<and> out = tur_mangle_append [] pre \<and> length out < 4"
  using mangle_ident_bounded [of 4 "''a-b''"] by auto

text \<open>The binary searches over the tables decide membership: every entry of each table is found, so no table is out of order.\<close>

theorem reserved_names_found:
  "(tur_name_collides_libc name \<longleftrightarrow> name_ok name \<and> name \<in> set libc_names \<union> set libm_names)
   \<and> (tur_name_is_c_keyword name \<longleftrightarrow> name_ok name \<and> name \<in> set c_keywords)"
  using bsearch_member [OF c_keywords_sorted] bsearch_member [OF libm_names_sorted] bsearch_member [OF libc_names_sorted]
  by (auto simp: tur_name_collides_libc_def tur_name_is_c_keyword_def)

text \<open>
  C23: the streaming filter rewrites exactly the maximal identifier runs and copies all else, for
  every content of its uninitialised and unterminated token buffer.
\<close>

theorem filter_rewrites_runs:
  assumes "length garbage = TOK_MAX"
  shows "filter_stream strict annotate garbage input = demangle_text strict annotate input"
  using assms by (rule filter_stream_text)

theorem filter_rewrites_runs_witness:
  "filter_stream False False (replicate TOK_MAX (CHR ''z'')) '' a b'' = filter_stream False False (replicate TOK_MAX (CHR 0x00)) '' a b''"
  using filter_rewrites_runs [of "replicate TOK_MAX (CHR ''z'')" False False] filter_rewrites_runs [of "replicate TOK_MAX (CHR 0x00)" False False]
  by simp

text \<open>A module-qualified name is recovered from its mangled token, in the strict mode too.\<close>

theorem module_name_recovered:
  assumes "a \<noteq> []" and "\<not> has_control_byte (a @ b)"
    and "length (tur_mangle_append [] a @ ''__'' @ tur_mangle_append [] b) < TOK_MAX"
  shows "tur_demangle_token (tur_mangle_append [] a @ ''__'' @ tur_mangle_append [] b @ rest)
    (length (tur_mangle_append [] a @ ''__'' @ tur_mangle_append [] b)) TOK_MAX strict = Some (a @ ''/'' @ b)"
  using assms by (rule token_module)

theorem module_name_recovered_witness: "tur_demangle_token ''geom__add2'' (length ''geom__add2'') TOK_MAX True = Some ''geom/add2''"
proof -
  have m: "tur_mangle_append [] ''geom'' = ''geom''" "tur_mangle_append [] ''add2'' = ''add2''" by code_simp+
  have "\<not> has_control_byte (''geom'' @ ''add2'')" by code_simp
  then show ?thesis using module_name_recovered [of "''geom''" "''add2''" "[]" True] m by (simp add: TOK_MAX_def)
qed

text \<open>A name the emitter guarded because it is reserved in C is recovered without its guard.\<close>

theorem guarded_name_recovered:
  assumes "name \<noteq> []" and "\<not> has_control_byte name" and "length (TUR_NAME_GUARD_PREFIX @ tur_mangle_append [] name) < TOK_MAX"
  shows "tur_demangle_token (TUR_NAME_GUARD_PREFIX @ tur_mangle_append [] name @ rest)
    (length (TUR_NAME_GUARD_PREFIX @ tur_mangle_append [] name)) TOK_MAX False = Some name"
  using assms by (rule token_guarded)

theorem guarded_name_recovered_witness: "tur_demangle_token ''tur_u_double'' (length ''tur_u_double'') TOK_MAX False = Some ''double''"
proof -
  have m: "tur_mangle_append [] ''double'' = ''double''" by code_simp
  have "\<not> has_control_byte ''double''" by code_simp
  then show ?thesis using guarded_name_recovered [of "''double''" "[]"] m by (simp add: TOK_MAX_def TUR_NAME_GUARD_PREFIX_def)
qed

text \<open>
  A limit of the filter: an escaped NUL is not refused: the decoded name ends there, so two different tokens are
  rewritten to the same text and the rest of the name is lost.
\<close>

lemma escaped_nul_truncates:
  "tur_demangle_token ''ab_x00cd'' 8 TOK_MAX False = Some ''ab'' \<and> tur_demangle_token ''ab_x00'' 6 TOK_MAX False = Some ''ab''"
proof -
  have h: "hex_value (CHR ''0'') = Some 0" by code_simp
  have z: "char_of (0 :: nat) = CHR 0x00" by code_simp
  have g: "\<not> has_prefix ''ab_x00cd'' TUR_NAME_GUARD_PREFIX" "\<not> has_prefix ''ab_x00'' TUR_NAME_GUARD_PREFIX"
    "\<not> has_prefix ''ab_x00cd'' ''__''" "\<not> has_prefix ''ab_x00'' ''__''" by code_simp+
  have k: "token_looks_mangled ''ab_x00cd''" "token_looks_mangled ''ab_x00''" by code_simp+
  have p: "\<not> plain_c_name ''ab_x00cd''" "\<not> plain_c_name ''ab_x00''" by code_simp+
  have r: "\<not> reserved_token ''ab_x00cd'' 8" "\<not> reserved_token ''ab_x00'' 6"
    using p reserved_plain [of "''ab_x00cd''"] reserved_plain [of "''ab_x00''"] by (auto simp: reserved_token_def)
  have c: "c_str ''ab_x00cd'' = ''ab_x00cd''" "c_str ''ab_x00'' = ''ab_x00''" "c_str [CHR ''a'', CHR ''b'', CHR 0x00, CHR ''c'', CHR ''d''] = ''ab''"
    "c_str [CHR ''a'', CHR ''b'', CHR 0x00] = ''ab''" "\<not> has_control_byte ''ab''"
    by code_simp+
  have "tur_demangle ''ab_x00cd'' TOK_MAX = ([CHR ''a'', CHR ''b'', CHR 0x00, CHR ''c'', CHR ''d''], 5)"
    "tur_demangle ''ab_x00'' TOK_MAX = ([CHR ''a'', CHR ''b'', CHR 0x00], 3)"
    by (simp_all add: tur_demangle_def TOK_MAX_def demangle_loop.simps h z numeral_2_eq_2 numeral_3_eq_3)
  then show ?thesis using g k r c by (simp add: tur_demangle_token_def TOK_MAX_def)
qed

end
