(* ===== verification/RtTrail.thy ===== *)
theory RtTrail
  imports Prelude "HOL-Library.Multiset"
begin

text \<open>
  The runtime's trail (\<open>src/runtime/trail.c\<close>, \<open>trail.h\<close>): cells whose writes are recorded once per
  level, marks with generations, undo, commit, pausing, the packed mark of the scalar interface and
  the trailed substitution. A cell is named by a number, its pointer; the calls of the drop hook are
  a log. \<open>alloc n\<close> says whether \<open>realloc\<close> grants an array of \<open>n\<close> elements.
\<close>

section \<open>State\<close>

record btcell =
  bc_payload :: int
  bc_stamp :: nat
  bc_bound :: bool
  bc_write_once :: bool
  bc_clone :: "(int \<Rightarrow> int) option"
  bc_drop :: bool

record trailentry =
  te_cell :: nat
  te_old :: int
  te_old_stamp :: nat
  te_was_bound :: bool

record rtlevel =
  lv_base :: nat
  lv_generation :: u32

record tmark =
  tm_level :: nat
  tm_generation :: u32

record rtrail =
  rt_cells :: "nat \<Rightarrow> btcell"
  rt_trail :: "trailentry list"
  rt_trail_cap :: u32
  rt_levels :: "rtlevel list"
  rt_levels_cap :: u32
  rt_pause :: nat
  rt_generation :: u32
  rt_drops :: "(nat \<times> int) list"

definition tur_trail_level :: "rtrail \<Rightarrow> nat" where
  "tur_trail_level t = length (rt_levels t)"

definition tur_trail_depth :: "rtrail \<Rightarrow> nat" where
  "tur_trail_depth t = length (rt_trail t)"

definition tur_trail_pause :: "rtrail \<Rightarrow> rtrail" where
  "tur_trail_pause t = t\<lparr>rt_pause := rt_pause t + 1\<rparr>"

definition tur_trail_resume :: "rtrail \<Rightarrow> rtrail" where
  "tur_trail_resume t = (if rt_pause t \<noteq> 0 then t\<lparr>rt_pause := rt_pause t - 1\<rparr> else t)"

definition tur_trail_paused :: "rtrail \<Rightarrow> bool" where
  "tur_trail_paused t \<longleftrightarrow> rt_pause t \<noteq> 0"

section \<open>Growth\<close>

text \<open>
  The capacities are 32 bits wide and wrap: after \<open>2 ^ 31\<close> entries the doubled capacity is 0. What
  \<open>realloc\<close> then makes of the array is not represented: the entries are a list. Lengths and levels
  are natural numbers, compared with the capacities as 32-bit numbers.
\<close>

definition trail_grow :: "(nat \<Rightarrow> bool) \<Rightarrow> rtrail \<Rightarrow> bool \<times> rtrail" where
  "trail_grow alloc t =
     (let ncap = (if rt_trail_cap t \<noteq> 0 then rt_trail_cap t * 2 else 64)
      in if alloc (unat ncap) then (True, t\<lparr>rt_trail_cap := ncap\<rparr>) else (False, t))"

definition levels_grow :: "(nat \<Rightarrow> bool) \<Rightarrow> rtrail \<Rightarrow> bool \<times> rtrail" where
  "levels_grow alloc t =
     (let ncap = (if rt_levels_cap t \<noteq> 0 then rt_levels_cap t * 2 else 16)
      in if alloc (unat ncap) then (True, t\<lparr>rt_levels_cap := ncap\<rparr>) else (False, t))"

section \<open>Levels\<close>

definition tur_trail_mark :: "(nat \<Rightarrow> bool) \<Rightarrow> rtrail \<Rightarrow> tmark \<times> rtrail" where
  "tur_trail_mark alloc t =
     (let (ok, t1) = (if of_nat (length (rt_levels t)) = rt_levels_cap t then levels_grow alloc t else (True, t))
      in if \<not> ok then (\<lparr>tm_level = 0, tm_generation = 0\<rparr>, t1)
         else
           let g = rt_generation t1 + 1;
               t2 = t1\<lparr>rt_generation := g, rt_levels := rt_levels t1 @ [\<lparr>lv_base = length (rt_trail t1), lv_generation = g\<rparr>]\<rparr>
           in (\<lparr>tm_level = length (rt_levels t2), tm_generation = g\<rparr>, t2))"

definition mark_is_live :: "rtrail \<Rightarrow> tmark \<Rightarrow> bool" where
  "mark_is_live t m \<longleftrightarrow> tm_level m \<noteq> 0 \<and> tm_level m \<le> length (rt_levels t)
     \<and> lv_generation (rt_levels t ! (tm_level m - 1)) = tm_generation m"

definition undo_entry :: "trailentry \<Rightarrow> rtrail \<Rightarrow> rtrail" where
  "undo_entry e t =
     (let c = rt_cells t (te_cell e)
      in t\<lparr>rt_drops := (if bc_drop c \<and> bc_payload c \<noteq> 0 \<and> bc_payload c \<noteq> te_old e
                        then rt_drops t @ [(te_cell e, bc_payload c)] else rt_drops t),
           rt_cells := (rt_cells t)(te_cell e :=
             c\<lparr>bc_payload := te_old e, bc_stamp := te_old_stamp e, bc_bound := te_was_bound e\<rparr>)\<rparr>)"

definition tur_trail_undo_to :: "rtrail \<Rightarrow> tmark \<Rightarrow> bool \<times> rtrail" where
  "tur_trail_undo_to t m =
     (if \<not> mark_is_live t m then (False, t)
      else
        let base = lv_base (rt_levels t ! (tm_level m - 1))
        in (True, (fold undo_entry (rev (drop base (rt_trail t))) t)
                    \<lparr>rt_trail := take base (rt_trail t), rt_levels := take (tm_level m - 1) (rt_levels t)\<rparr>))"

definition commit_entry :: "trailentry \<Rightarrow> rtrail \<Rightarrow> rtrail" where
  "commit_entry e t =
     (let c = rt_cells t (te_cell e)
      in t\<lparr>rt_drops := (if bc_drop c \<and> te_old e \<noteq> 0 then rt_drops t @ [(te_cell e, te_old e)] else rt_drops t),
           rt_cells := (rt_cells t)(te_cell e := c\<lparr>bc_stamp := te_old_stamp e\<rparr>)\<rparr>)"

definition tur_trail_commit_to :: "rtrail \<Rightarrow> tmark \<Rightarrow> bool \<times> rtrail" where
  "tur_trail_commit_to t m =
     (if \<not> mark_is_live t m then (False, t)
      else
        let base = lv_base (rt_levels t ! (tm_level m - 1))
        in (True, (fold commit_entry (rev (drop base (rt_trail t))) t)
                    \<lparr>rt_trail := take base (rt_trail t), rt_levels := take (tm_level m - 1) (rt_levels t)\<rparr>))"

definition tur_trail_reset :: "rtrail \<Rightarrow> rtrail" where
  "tur_trail_reset t = t\<lparr>rt_trail := [], rt_trail_cap := 0, rt_levels := [], rt_levels_cap := 0, rt_pause := 0\<rparr>"

section \<open>Cells\<close>

definition tur_bt_cell_init :: "nat \<Rightarrow> int \<Rightarrow> (int \<Rightarrow> int) option \<Rightarrow> bool \<Rightarrow> rtrail \<Rightarrow> rtrail" where
  "tur_bt_cell_init i init cl dr t =
     t\<lparr>rt_cells := (rt_cells t)(i := \<lparr>bc_payload = init, bc_stamp = tur_trail_level t, bc_bound = True,
        bc_write_once = False, bc_clone = cl, bc_drop = dr\<rparr>)\<rparr>"

definition tur_bt_lvar_init :: "nat \<Rightarrow> int \<Rightarrow> (int \<Rightarrow> int) option \<Rightarrow> bool \<Rightarrow> rtrail \<Rightarrow> rtrail" where
  "tur_bt_lvar_init i unbound cl dr t =
     (let t1 = tur_bt_cell_init i unbound cl dr t
      in t1\<lparr>rt_cells := (rt_cells t1)(i := (rt_cells t1 i)\<lparr>bc_bound := False, bc_write_once := True\<rparr>)\<rparr>)"

definition record_entry :: "(nat \<Rightarrow> bool) \<Rightarrow> nat \<Rightarrow> rtrail \<Rightarrow> bool \<times> rtrail" where
  "record_entry alloc i t =
     (let (ok, t1) = (if of_nat (length (rt_trail t)) = rt_trail_cap t then trail_grow alloc t else (True, t)); c = rt_cells t1 i
      in if \<not> ok then (False, t1)
         else (True, t1\<lparr>rt_trail := rt_trail t1 @ [\<lparr>te_cell = i, te_old = bc_payload c, te_old_stamp = bc_stamp c,
                te_was_bound = bc_bound c\<rparr>]\<rparr>))"

definition tur_bt_set :: "(nat \<Rightarrow> bool) \<Rightarrow> nat \<Rightarrow> int \<Rightarrow> rtrail \<Rightarrow> bool \<times> rtrail" where
  "tur_bt_set alloc i v t =
     (let c = rt_cells t i; level = tur_trail_level t
      in if bc_write_once c \<and> bc_bound c then (False, t)
         else
           let (ok, t1) =
             (if 0 < level \<and> rt_pause t = 0 \<and> bc_stamp c < level then
                (let (r, t0) = record_entry alloc i t
                 in if \<not> r then (False, t0) else (True, t0\<lparr>rt_cells := (rt_cells t0)(i := c\<lparr>bc_stamp := level\<rparr>)\<rparr>))
              else if bc_drop c \<and> bc_payload c \<noteq> 0 \<and> bc_payload c \<noteq> v then (True, t\<lparr>rt_drops := rt_drops t @ [(i, bc_payload c)]\<rparr>)
              else (True, t))
           in if \<not> ok then (False, t1)
              else (True, t1\<lparr>rt_cells := (rt_cells t1)(i := (rt_cells t1 i)\<lparr>bc_payload := v, bc_bound := True\<rparr>)\<rparr>))"

definition tur_bt_get_owned :: "rtrail \<Rightarrow> nat \<Rightarrow> int" where
  "tur_bt_get_owned t i =
     (let c = rt_cells t i
      in case bc_clone c of Some f \<Rightarrow> if bc_payload c \<noteq> 0 then f (bc_payload c) else bc_payload c | None \<Rightarrow> bc_payload c)"

section \<open>The packed mark\<close>

unbundle bit_operations_syntax

definition mark_pack :: "tmark \<Rightarrow> u64" where
  "mark_pack m = push_bit 32 (of_nat (tm_level m)) OR ucast (tm_generation m)"

definition mark_unpack :: "u64 \<Rightarrow> tmark" where
  "mark_unpack p = \<lparr>tm_level = unat (ucast (drop_bit 32 p) :: u32), tm_generation = ucast (p AND 0xFFFFFFFF)\<rparr>"

lemma pack_parts:
  fixes l :: u64 and g :: u32
  assumes "unat l < 2 ^ 32"
  shows "ucast ((push_bit 32 l OR ucast g) AND 0xFFFFFFFF :: u64) = g" and "drop_bit 32 (push_bit 32 l OR ucast g) = l"
proof -
  have m: "(0xFFFFFFFF :: u64) = mask 32" by (simp add: mask_eq_exp_minus_1)
  show "ucast ((push_bit 32 l OR ucast g) AND 0xFFFFFFFF :: u64) = g"
    unfolding m by (rule bit_word_eqI) (simp add: bit_simps)
  have "take_bit 32 l = l"
    using assms by (simp add: word_unat_eq_iff unsigned_take_bit_eq take_bit_nat_eq_self)
  then have b: "n < 32" if "bit l n" for n using that by (metis bit_take_bit_iff)
  have g: "\<not> bit g (n + 32)" for n using bit_imp_le_length [of g "n + 32"] by auto
  show "drop_bit 32 (push_bit 32 l OR ucast g) = l"
    by (rule bit_word_eqI) (use b g in \<open>auto simp: bit_simps ac_simps\<close>)
qed

lemma mark_pack_roundtrip:
  assumes "tm_level m < 2 ^ 32"
  shows "mark_unpack (mark_pack m) = m"
proof -
  have u: "unat (of_nat (tm_level m) :: u64) = tm_level m" using assms by (simp add: unat_of_nat take_bit_nat_eq_self)
  note p = pack_parts [of "of_nat (tm_level m)" "tm_generation m", unfolded u, OF assms, folded mark_pack_def]
  have "unat (ucast (drop_bit 32 (mark_pack m)) :: u32) = tm_level m"
    unfolding p(2) using assms by (simp add: unsigned_ucast_eq unat_of_nat take_bit_nat_eq_self)
  then show ?thesis by (simp add: mark_unpack_def p(1))
qed

definition tur_trail_mark_packed :: "(nat \<Rightarrow> bool) \<Rightarrow> rtrail \<Rightarrow> u64 \<times> rtrail" where
  "tur_trail_mark_packed alloc t = (let (m, t') = tur_trail_mark alloc t in (mark_pack m, t'))"

definition tur_trail_undo_to_packed :: "rtrail \<Rightarrow> u64 \<Rightarrow> bool \<times> rtrail" where
  "tur_trail_undo_to_packed t p = tur_trail_undo_to t (mark_unpack p)"

definition tur_trail_commit_to_packed :: "rtrail \<Rightarrow> u64 \<Rightarrow> bool \<times> rtrail" where
  "tur_trail_commit_to_packed t p = tur_trail_commit_to t (mark_unpack p)"

lemma packed_as_plain:
  assumes "tm_level m < 2 ^ 32"
  shows "tur_trail_undo_to_packed t (mark_pack m) = tur_trail_undo_to t m"
    and "tur_trail_commit_to_packed t (mark_pack m) = tur_trail_commit_to t m"
  using mark_pack_roundtrip [OF assms] by (simp_all add: tur_trail_undo_to_packed_def tur_trail_commit_to_packed_def)

text \<open>Cells of the scalar interface have no hooks.\<close>

definition tur_bt_cell_new :: "nat \<Rightarrow> int \<Rightarrow> rtrail \<Rightarrow> rtrail" where
  "tur_bt_cell_new i init = tur_bt_cell_init i init None False"

definition tur_bt_lvar_new :: "nat \<Rightarrow> int \<Rightarrow> rtrail \<Rightarrow> rtrail" where
  "tur_bt_lvar_new i unbound = tur_bt_lvar_init i unbound None False"

section \<open>The trailed substitution\<close>

text \<open>
  Variable \<open>k\<close> is the cell \<open>uf_cells + k\<close>; \<open>2 k\<close> encodes the ground value \<open>k\<close> and \<open>2 k + 1\<close> the
  variable \<open>k\<close>. The sizes in the overflow guard are those of a 64-bit target. A walk over a cycle
  of bindings does not end, so it has fuel.
\<close>

definition TUR_UF_UNBOUND :: int where "TUR_UF_UNBOUND = -1"

record traileduf =
  uf_n :: int
  uf_cells :: nat

definition uf_size_ok :: "int \<Rightarrow> bool" where
  "uf_size_ok n_vars \<longleftrightarrow> n_vars - 1 \<le> (2 ^ 64 - 1 - 40) div 32"

definition tur_uf_new :: "(nat \<Rightarrow> bool) \<Rightarrow> int \<Rightarrow> nat \<Rightarrow> rtrail \<Rightarrow> traileduf option \<times> rtrail" where
  "tur_uf_new alloc n_vars loc t =
     (let n = (if n_vars \<le> 0 then 1 else n_vars)
      in if \<not> uf_size_ok n then (None, t)
         else if \<not> alloc (nat n) then (None, t)
         else (Some \<lparr>uf_n = n, uf_cells = loc\<rparr>,
               fold (\<lambda>i. tur_bt_lvar_init (loc + i) TUR_UF_UNBOUND None False) [0..<nat n] t))"

definition tur_uf_bind :: "(nat \<Rightarrow> bool) \<Rightarrow> traileduf \<Rightarrow> int \<Rightarrow> int \<Rightarrow> rtrail \<Rightarrow> bool \<times> rtrail" where
  "tur_uf_bind alloc u var val t =
     (if var < 0 \<or> uf_n u \<le> var then (False, t) else tur_bt_set alloc (uf_cells u + nat var) val t)"

fun tur_uf_walk :: "nat \<Rightarrow> rtrail \<Rightarrow> traileduf \<Rightarrow> int \<Rightarrow> int option" where
  "tur_uf_walk 0 t u cur = None"
| "tur_uf_walk (Suc k) t u cur =
     (if cur < 0 \<or> uf_n u \<le> cur then Some TUR_UF_UNBOUND
      else
        let c = rt_cells t (uf_cells u + nat cur); v = bc_payload c
        in if \<not> bc_bound c then Some (cur * 2 + 1)
           else if v = TUR_UF_UNBOUND then Some (cur * 2 + 1)
           else if even v then Some v
           else tur_uf_walk k t u (v div 2))"

end
