(* ===== verification/RtTrailSound.thy ===== *)
theory RtTrailSound
  imports RtTrail
begin

text \<open>
  What the runtime's trail promises: undoing to a mark restores every cell that existed at the mark,
  whatever happened in between but a commit; a mark whose level was left is refused; a payload is
  released at most once for every time it was given; a level costs a cell one entry.
\<close>

section \<open>Undo reads the first entry of a cell\<close>

definition cell_state :: "btcell \<Rightarrow> int \<times> nat \<times> bool" where
  "cell_state c = (bc_payload c, bc_stamp c, bc_bound c)"

definition entry_state :: "trailentry \<Rightarrow> int \<times> nat \<times> bool" where
  "entry_state e = (te_old e, te_old_stamp e, te_was_bound e)"

definition orig :: "trailentry list \<Rightarrow> (nat \<Rightarrow> btcell) \<Rightarrow> nat \<Rightarrow> int \<times> nat \<times> bool" where
  "orig es cs i = (case find (\<lambda>e. te_cell e = i) es of None \<Rightarrow> cell_state (cs i) | Some e \<Rightarrow> entry_state e)"

lemma orig_Nil [simp]: "orig [] cs i = cell_state (cs i)"
  by (simp add: orig_def)

lemma orig_Cons [simp]: "orig (e # es) cs i = (if te_cell e = i then entry_state e else orig es cs i)"
  by (simp add: orig_def)

lemma orig_append:
  "orig (es @ fs) cs i = (if i \<in> te_cell ` set es then orig es cs i else orig fs cs i)"
  by (induction es) auto

lemma orig_entry: "i \<in> te_cell ` set es \<Longrightarrow> orig es cs i = orig es cs' i"
  by (induction es) auto

lemma orig_none: "i \<notin> te_cell ` set es \<Longrightarrow> orig es cs i = cell_state (cs i)"
  by (induction es) auto

lemma undo_entry_frame [simp]:
  "rt_trail (undo_entry e t) = rt_trail t" "rt_levels (undo_entry e t) = rt_levels t" "rt_pause (undo_entry e t) = rt_pause t"
  "rt_generation (undo_entry e t) = rt_generation t" "rt_levels_cap (undo_entry e t) = rt_levels_cap t"
  by (simp_all add: undo_entry_def Let_def)

lemma undo_fold:
  "cell_state (rt_cells (fold undo_entry (rev es) t) i) = orig es (rt_cells t) i
   \<and> rt_trail (fold undo_entry (rev es) t) = rt_trail t \<and> rt_levels (fold undo_entry (rev es) t) = rt_levels t
   \<and> rt_pause (fold undo_entry (rev es) t) = rt_pause t \<and> rt_generation (fold undo_entry (rev es) t) = rt_generation t"
proof (induction es)
  case (Cons e es)
  then show ?case by (auto simp: undo_entry_def Let_def cell_state_def entry_state_def)
qed simp

section \<open>What the operations change\<close>

lemma record_cases:
  assumes "record_entry alloc i t = (b, t')"
  shows "rt_cells t' = rt_cells t \<and> rt_levels t' = rt_levels t \<and> rt_pause t' = rt_pause t \<and> rt_generation t' = rt_generation t
    \<and> rt_drops t' = rt_drops t
    \<and> rt_trail t' = (if b then rt_trail t @ [\<lparr>te_cell = i, te_old = bc_payload (rt_cells t i), te_old_stamp = bc_stamp (rt_cells t i),
        te_was_bound = bc_bound (rt_cells t i)\<rparr>] else rt_trail t)"
  using assms by (auto simp: record_entry_def trail_grow_def Let_def split: if_splits)

lemma set_cases:
  assumes "tur_bt_set alloc i v t = (b, t')"
  obtains (none) "rt_cells t' = rt_cells t" "rt_trail t' = rt_trail t" "\<not> b" "rt_drops t' = rt_drops t"
  | (recorded) "b" "rt_pause t = 0" "bc_stamp (rt_cells t i) < length (rt_levels t)" "rt_drops t' = rt_drops t"
      "rt_cells t' = (rt_cells t)(i := (rt_cells t i)\<lparr>bc_stamp := length (rt_levels t), bc_payload := v, bc_bound := True\<rparr>)"
      "rt_trail t' = rt_trail t @ [\<lparr>te_cell = i, te_old = bc_payload (rt_cells t i), te_old_stamp = bc_stamp (rt_cells t i),
        te_was_bound = bc_bound (rt_cells t i)\<rparr>]"
  | (plain) "b" "length (rt_levels t) = 0 \<or> rt_pause t \<noteq> 0 \<or> length (rt_levels t) \<le> bc_stamp (rt_cells t i)"
      "rt_cells t' = (rt_cells t)(i := (rt_cells t i)\<lparr>bc_payload := v, bc_bound := True\<rparr>)" "rt_trail t' = rt_trail t"
      "rt_drops t' = rt_drops t @ (if bc_drop (rt_cells t i) \<and> bc_payload (rt_cells t i) \<noteq> 0 \<and> bc_payload (rt_cells t i) \<noteq> v
         then [(i, bc_payload (rt_cells t i))] else [])"
proof -
  let ?c = "rt_cells t i"
  obtain r t0 where r: "record_entry alloc i t = (r, t0)" by fastforce
  note rc = record_cases [OF r]
  consider (refused) "bc_write_once ?c \<and> bc_bound ?c"
    | (rec) "\<not> (bc_write_once ?c \<and> bc_bound ?c)" "0 < length (rt_levels t)" "rt_pause t = 0" "bc_stamp ?c < length (rt_levels t)"
    | (keep) "\<not> (bc_write_once ?c \<and> bc_bound ?c)" "\<not> (0 < length (rt_levels t) \<and> rt_pause t = 0 \<and> bc_stamp ?c < length (rt_levels t))"
    by argo
  then show thesis
  proof cases
    case refused
    then have "(b, t') = (False, t)" using assms by (simp add: tur_bt_set_def Let_def)
    then show thesis using none by simp
  next
    case rec
    then have e: "(b, t') = (if \<not> r then (False, t0)
        else (True, t0\<lparr>rt_cells := (rt_cells t0)(i := ?c\<lparr>bc_stamp := length (rt_levels t), bc_payload := v, bc_bound := True\<rparr>)\<rparr>))"
      using assms r unfolding tur_bt_set_def Let_def tur_trail_level_def by (simp split: if_splits)
    show thesis
    proof (cases r)
      case True
      then show thesis using e rec rc by (intro recorded) auto
    next
      case False
      then show thesis using e rc by (intro none) auto
    qed
  next
    case keep
    then have e: "b" "t' = t\<lparr>rt_drops := rt_drops t @ (if bc_drop ?c \<and> bc_payload ?c \<noteq> 0 \<and> bc_payload ?c \<noteq> v then [(i, bc_payload ?c)] else []),
        rt_cells := (rt_cells t)(i := ?c\<lparr>bc_payload := v, bc_bound := True\<rparr>)\<rparr>"
      using assms unfolding tur_bt_set_def Let_def tur_trail_level_def by (auto split: if_splits)
    show thesis using e keep by (intro plain) auto
  qed
qed

lemma set_frame:
  assumes "tur_bt_set alloc i v t = (b, t')"
  shows "rt_levels t' = rt_levels t \<and> rt_pause t' = rt_pause t \<and> rt_generation t' = rt_generation t"
proof -
  obtain r t0 where r: "record_entry alloc i t = (r, t0)" by fastforce
  show ?thesis
    using assms r record_cases [OF r]
    by (cases r) (auto simp: tur_bt_set_def tur_trail_level_def Let_def split: if_splits)
qed

lemma mark_cases:
  assumes "tur_trail_mark alloc t = (m, t')"
  shows "rt_cells t' = rt_cells t \<and> rt_trail t' = rt_trail t \<and> rt_pause t' = rt_pause t \<and>
    (if tm_level m = 0 then rt_levels t' = rt_levels t \<and> rt_generation t' = rt_generation t
     else tm_level m = length (rt_levels t) + 1 \<and> tm_generation m = rt_generation t + 1 \<and> rt_generation t' = rt_generation t + 1
       \<and> rt_levels t' = rt_levels t @ [\<lparr>lv_base = length (rt_trail t), lv_generation = tm_generation m\<rparr>])"
  using assms by (auto simp: tur_trail_mark_def levels_grow_def Let_def split: if_splits)

section \<open>What a mark promises\<close>

definition rsince :: "nat set \<Rightarrow> rtrail \<Rightarrow> tmark \<Rightarrow> rtrail \<Rightarrow> bool" where
  "rsince D s0 m t \<longleftrightarrow>
     (let l = length (rt_levels s0); b = length (rt_trail s0); es = drop b (rt_trail t)
      in tm_level m = Suc l \<and> l < length (rt_levels t) \<and> take l (rt_levels t) = rt_levels s0
         \<and> rt_levels t ! l = \<lparr>lv_base = b, lv_generation = tm_generation m\<rparr>
         \<and> b \<le> length (rt_trail t) \<and> take b (rt_trail t) = rt_trail s0
         \<and> (\<forall>j<length (rt_levels t). l \<le> j \<longrightarrow> b \<le> lv_base (rt_levels t ! j))
         \<and> (\<forall>i\<in>D. orig es (rt_cells t) i = cell_state (rt_cells s0 i))
         \<and> (\<forall>i\<in>D. l < bc_stamp (rt_cells t i) \<longrightarrow> i \<in> te_cell ` set es)
         \<and> (\<forall>k<length es. te_cell (es ! k) \<in> D \<longrightarrow> l < te_old_stamp (es ! k) \<longrightarrow> te_cell (es ! k) \<in> te_cell ` set (take k es)))"

lemma rsince_mark:
  assumes "tur_trail_mark alloc s0 = (m, t)" and "tm_level m \<noteq> 0" and "\<forall>i\<in>D. bc_stamp (rt_cells s0 i) \<le> length (rt_levels s0)"
  shows "rsince D s0 m t"
  using mark_cases [OF assms(1)] assms(2,3) by (auto simp: rsince_def Let_def nth_append less_Suc_eq)

lemma rsince_cells:
  assumes "rsince D s0 m t" and "rt_trail t' = rt_trail t" "rt_levels t' = rt_levels t" and "\<And>i. i \<in> D \<Longrightarrow> rt_cells t' i = rt_cells t i"
  shows "rsince D s0 m t'"
  using assms by (simp add: rsince_def Let_def orig_def cong: option.case_cong)

lemma rsince_set:
  assumes s: "rsince D s0 m t" and p: "i \<notin> D \<or> rt_pause t = 0" and w: "tur_bt_set alloc i v t = (b, t')"
  shows "rsince D s0 m t'"
proof -
  have lv: "rt_levels t' = rt_levels t" using set_frame [OF w] by simp
  have len: "length (rt_levels s0) < length (rt_levels t)" using s by (simp add: rsince_def Let_def)
  from w show ?thesis
  proof (cases rule: set_cases)
    case none
    then show ?thesis using s lv by (intro rsince_cells [OF s]) auto
  next
    case recorded
    let ?b = "length (rt_trail s0)"
    let ?es = "drop ?b (rt_trail t)"
    let ?e = "\<lparr>te_cell = i, te_old = bc_payload (rt_cells t i), te_old_stamp = bc_stamp (rt_cells t i), te_was_bound = bc_bound (rt_cells t i)\<rparr>"
    have bl: "?b \<le> length (rt_trail t)" using s by (simp add: rsince_def Let_def)
    have es: "drop ?b (rt_trail t') = ?es @ [?e]" "take ?b (rt_trail t') = take ?b (rt_trail t)" using recorded bl by simp_all
    have o: "orig (?es @ [?e]) (rt_cells t') j = orig ?es (rt_cells t) j" for j
      using recorded orig_entry [of j ?es "rt_cells t'" "rt_cells t"] orig_none [of j ?es "rt_cells t"]
      by (auto simp: orig_append cell_state_def entry_state_def)
    have k: "te_cell ((?es @ [?e]) ! k) \<in> te_cell ` set (take k (?es @ [?e]))"
      if "k < length (?es @ [?e])" "te_cell ((?es @ [?e]) ! k) \<in> D" "length (rt_levels s0) < te_old_stamp ((?es @ [?e]) ! k)" for k
      using s that by (cases "k < length ?es") (auto simp: rsince_def Let_def nth_append)
    have st: "j \<in> te_cell ` set (?es @ [?e])" if "j \<in> D" "length (rt_levels s0) < bc_stamp (rt_cells t' j)" for j
      using s that recorded by (cases "j = i") (auto simp: rsince_def Let_def)
    show ?thesis unfolding rsince_def Let_def es o lv using s k st recorded by (simp add: rsince_def Let_def)
  next
    case plain
    show ?thesis
    proof (cases "i \<in> D")
      case False
      then show ?thesis using s lv plain by (intro rsince_cells [OF s]) auto
    next
      case True
      then have "length (rt_levels s0) < bc_stamp (rt_cells t i)" using plain p len by auto
      then have i: "i \<in> te_cell ` set (drop (length (rt_trail s0)) (rt_trail t))" using s True by (simp add: rsince_def Let_def)
      have "orig (drop (length (rt_trail s0)) (rt_trail t)) (rt_cells t') j = orig (drop (length (rt_trail s0)) (rt_trail t)) (rt_cells t) j" for j
        using orig_entry [OF i, of "rt_cells t'" "rt_cells t"] plain by (cases "j = i") (auto simp: orig_def split: option.split)
      then show ?thesis using s plain lv by (simp add: rsince_def Let_def)
    qed
  qed
qed

lemma rsince_undo:
  assumes s: "rsince D s0 m t" and l: "length (rt_levels s0) + 1 < tm_level n" and u: "tur_trail_undo_to t n = (b, t')"
  shows "rsince D s0 m t'"
proof (cases "mark_is_live t n")
  case False
  then show ?thesis using s u by (simp add: tur_trail_undo_to_def)
next
  case True
  let ?b = "length (rt_trail s0)" and ?l = "length (rt_levels s0)"
  define k where "k = lv_base (rt_levels t ! (tm_level n - 1))"
  define es where "es = drop ?b (rt_trail t)"
  define lo where "lo = drop ?b (take k (rt_trail t))"
  define hi where "hi = drop k (rt_trail t)"
  have n: "tm_level n \<le> length (rt_levels t)" using True by (simp add: mark_is_live_def)
  have bk: "?b \<le> k" using s l n by (auto simp: rsince_def Let_def k_def)
  have split: "es = lo @ hi" using bk by (simp add: es_def lo_def hi_def drop_take)
      (metis append_take_drop_id drop_drop le_add_diff_inverse2)
  have t': "rt_trail t' = take k (rt_trail t)" "rt_levels t' = take (tm_level n - 1) (rt_levels t)"
    and c: "cell_state (rt_cells t' i) = orig hi (rt_cells t) i" for i
    using u True undo_fold [of hi t i] by (auto simp: tur_trail_undo_to_def Let_def k_def hi_def)
  have bt: "?b \<le> length (rt_trail t)" using s by (simp add: rsince_def Let_def)
  have o: "orig lo (rt_cells t') i = orig es (rt_cells t) i" for i
    using orig_entry [of i lo "rt_cells t'" "rt_cells t"] orig_none [of i lo] c by (simp add: split orig_append)
  have old: "te_cell (es ! j) \<in> te_cell ` set (take j es)"
    if "j < length es" "te_cell (es ! j) \<in> D" "?l < te_old_stamp (es ! j)" for j
    using s that by (simp add: rsince_def Let_def es_def)
  have old_lo: "te_cell (lo ! j) \<in> te_cell ` set (take j lo)"
    if "j < length lo" "te_cell (lo ! j) \<in> D" "?l < te_old_stamp (lo ! j)" for j
    using old [of j] that by (simp add: split nth_append)
  have st: "i \<in> te_cell ` set lo" if i: "i \<in> D" "?l < bc_stamp (rt_cells t' i)" for i
  proof (cases "find (\<lambda>e. te_cell e = i) hi")
    case None
    then have "cell_state (rt_cells t' i) = cell_state (rt_cells t i)" by (simp add: c orig_def)
    then have "i \<in> te_cell ` set es" using s i by (simp add: rsince_def Let_def es_def cell_state_def)
    then show ?thesis using None by (auto simp: split find_None_iff)
  next
    case (Some e)
    then obtain q where q: "q < length hi" "te_cell (hi ! q) = i" "e = hi ! q" "\<forall>r<q. te_cell (hi ! r) \<noteq> i"
      by (auto simp: find_Some_iff)
    have "cell_state (rt_cells t' i) = entry_state e" using Some by (simp add: c orig_def)
    then have "?l < te_old_stamp (es ! (length lo + q))" using i q by (simp add: split nth_append cell_state_def entry_state_def)
    then have "i \<in> te_cell ` set (take (length lo + q) es)" using old [of "length lo + q"] q i by (simp add: split nth_append)
    moreover have "i \<notin> te_cell ` set (take q hi)" using q(4) by (auto simp: in_set_conv_nth) blast
    ultimately show ?thesis by (auto simp: split)
  qed
  have lv: "take ?l (rt_levels t') = take ?l (rt_levels t)" "rt_levels t' ! ?l = rt_levels t ! ?l" "?l < length (rt_levels t')"
    using l n by (auto simp: t' min_def)
  have tr: "?b \<le> length (rt_trail t')" "take ?b (rt_trail t') = take ?b (rt_trail t)" "drop ?b (rt_trail t') = lo"
    using bk bt by (auto simp: t' lo_def min_def)
  show ?thesis
    using s lv tr o old_lo st unfolding rsince_def Let_def by (simp add: es_def t')
qed

text \<open>
  What may happen between a mark and its undo: writes (those to the cells \<open>D\<close> not while paused),
  marks, undoing to marks above, new cells, pausing. A commit is not among them: it makes writes
  permanent.
\<close>

inductive rt_reach :: "(nat \<Rightarrow> bool) \<Rightarrow> nat set \<Rightarrow> nat \<Rightarrow> rtrail \<Rightarrow> rtrail \<Rightarrow> bool" for alloc D l s where
  reach_refl: "rt_reach alloc D l s s"
| reach_set: "rt_reach alloc D l s t \<Longrightarrow> i \<notin> D \<or> rt_pause t = 0 \<Longrightarrow> tur_bt_set alloc i v t = (b, t') \<Longrightarrow> rt_reach alloc D l s t'"
| reach_mark: "rt_reach alloc D l s t \<Longrightarrow> tur_trail_mark alloc t = (n, t') \<Longrightarrow> rt_reach alloc D l s t'"
| reach_undo: "rt_reach alloc D l s t \<Longrightarrow> l < tm_level n \<Longrightarrow> tur_trail_undo_to t n = (b, t') \<Longrightarrow> rt_reach alloc D l s t'"
| reach_cell: "rt_reach alloc D l s t \<Longrightarrow> i \<notin> D \<Longrightarrow> rt_reach alloc D l s (tur_bt_cell_init i v cl dr t)"
| reach_lvar: "rt_reach alloc D l s t \<Longrightarrow> i \<notin> D \<Longrightarrow> rt_reach alloc D l s (tur_bt_lvar_init i v cl dr t)"
| reach_pause: "rt_reach alloc D l s t \<Longrightarrow> rt_reach alloc D l s (tur_trail_pause t)"
| reach_resume: "rt_reach alloc D l s t \<Longrightarrow> rt_reach alloc D l s (tur_trail_resume t)"

lemma rsince_new_level:
  assumes s: "rsince D s0 m t" and n: "tur_trail_mark alloc t = (n, t')"
  shows "rsince D s0 m t'"
proof (cases "tm_level n = 0")
  case True
  then show ?thesis using mark_cases [OF n] by (intro rsince_cells [OF s]) auto
next
  case False
  note c = mark_cases [OF n]
  have "length (rt_trail s0) \<le> lv_base (rt_levels t' ! j)" if "j < length (rt_levels t')" "length (rt_levels s0) \<le> j" for j
    using s c False that by (cases "j < length (rt_levels t)") (auto simp: rsince_def Let_def nth_append less_Suc_eq)
  then show ?thesis using s c False unfolding rsince_def Let_def by (simp add: nth_append)
qed

lemma rsince_reach: "rt_reach alloc D (Suc (length (rt_levels s0))) s1 t \<Longrightarrow> rsince D s0 m s1 \<Longrightarrow> rsince D s0 m t"
proof (induction rule: rt_reach.induct)
  case (reach_set t i v b t')
  then show ?case using rsince_set by blast
next
  case (reach_mark t n t')
  then show ?case using rsince_new_level by blast
next
  case (reach_undo t n b t')
  then show ?case using rsince_undo by (metis Suc_eq_plus1)
next
  case (reach_cell t i v cl dr)
  show ?case using reach_cell.hyps by (intro rsince_cells [OF reach_cell.IH [OF reach_cell.prems]]) (auto simp: tur_bt_cell_init_def)
next
  case (reach_lvar t i v cl dr)
  show ?case using reach_lvar.hyps by (intro rsince_cells [OF reach_lvar.IH [OF reach_lvar.prems]]) (auto simp: tur_bt_lvar_init_def tur_bt_cell_init_def Let_def)
next
  case (reach_pause t)
  show ?case using reach_pause.hyps by (intro rsince_cells [OF reach_pause.IH [OF reach_pause.prems]]) (auto simp: tur_trail_pause_def)
next
  case (reach_resume t)
  show ?case using reach_resume.hyps by (intro rsince_cells [OF reach_resume.IH [OF reach_resume.prems]]) (auto simp: tur_trail_resume_def)
qed

lemma rt_undo_restores:
  assumes m: "tur_trail_mark alloc s0 = (m, s1)" "tm_level m \<noteq> 0" and d: "\<forall>i\<in>D. bc_stamp (rt_cells s0 i) \<le> length (rt_levels s0)"
    and r: "rt_reach alloc D (tm_level m) s1 s2"
  shows "\<exists>s3. tur_trail_undo_to s2 m = (True, s3) \<and> rt_levels s3 = rt_levels s0 \<and> rt_trail s3 = rt_trail s0
    \<and> (\<forall>i\<in>D. cell_state (rt_cells s3 i) = cell_state (rt_cells s0 i))"
proof -
  have l: "tm_level m = Suc (length (rt_levels s0))" using mark_cases [OF m(1)] m(2) by simp
  have s: "rsince D s0 m s2" using rsince_reach [OF r [unfolded l] rsince_mark [OF m d]] .
  then have live: "mark_is_live s2 m" and b: "lv_base (rt_levels s2 ! (tm_level m - 1)) = length (rt_trail s0)"
    and t: "take (tm_level m - 1) (rt_levels s2) = rt_levels s0" "take (length (rt_trail s0)) (rt_trail s2) = rt_trail s0"
    by (auto simp: rsince_def Let_def mark_is_live_def l)
  have "\<forall>i\<in>D. orig (drop (length (rt_trail s0)) (rt_trail s2)) (rt_cells s2) i = cell_state (rt_cells s0 i)"
    using s by (simp add: rsince_def Let_def)
  then show ?thesis using live b t undo_fold by (simp add: tur_trail_undo_to_def Let_def)
qed

section \<open>Stale marks\<close>

text \<open>Generations count the marks taken, modulo the width of the counter.\<close>

inductive rt_steps :: "(nat \<Rightarrow> bool) \<Rightarrow> nat \<Rightarrow> rtrail \<Rightarrow> rtrail \<Rightarrow> bool" for alloc where
  steps_refl: "rt_steps alloc 0 s s"
| steps_set: "rt_steps alloc n s t \<Longrightarrow> tur_bt_set alloc i v t = (b, t') \<Longrightarrow> rt_steps alloc n s t'"
| steps_mark: "rt_steps alloc n s t \<Longrightarrow> tur_trail_mark alloc t = (m, t') \<Longrightarrow> rt_steps alloc (Suc n) s t'"
| steps_undo: "rt_steps alloc n s t \<Longrightarrow> tur_trail_undo_to t m = (b, t') \<Longrightarrow> rt_steps alloc n s t'"
| steps_commit: "rt_steps alloc n s t \<Longrightarrow> tur_trail_commit_to t m = (b, t') \<Longrightarrow> rt_steps alloc n s t'"
| steps_cell: "rt_steps alloc n s t \<Longrightarrow> rt_steps alloc n s (tur_bt_cell_init i v cl dr t)"
| steps_lvar: "rt_steps alloc n s t \<Longrightarrow> rt_steps alloc n s (tur_bt_lvar_init i v cl dr t)"
| steps_pause: "rt_steps alloc n s t \<Longrightarrow> rt_steps alloc n s (tur_trail_pause t)"
| steps_resume: "rt_steps alloc n s t \<Longrightarrow> rt_steps alloc n s (tur_trail_resume t)"

lemma commit_fold_frame:
  "rt_trail (fold commit_entry es t) = rt_trail t \<and> rt_levels (fold commit_entry es t) = rt_levels t
   \<and> rt_pause (fold commit_entry es t) = rt_pause t \<and> rt_generation (fold commit_entry es t) = rt_generation t"
  by (induction es arbitrary: t) (auto simp: commit_entry_def Let_def)

text \<open>Between two states the levels above \<open>l\<close> were all taken with generations after the first.\<close>

definition fresh_gens :: "nat \<Rightarrow> nat \<Rightarrow> u32 \<Rightarrow> rtrail \<Rightarrow> bool" where
  "fresh_gens l n g t \<longleftrightarrow> (\<exists>k\<le>n. rt_generation t = g + of_nat k) \<and>
     (\<forall>j<length (rt_levels t). l \<le> j \<longrightarrow> (\<exists>k. 1 \<le> k \<and> k \<le> n \<and> lv_generation (rt_levels t ! j) = g + of_nat k))"

lemma fresh_gens_levels:
  assumes "fresh_gens l n g t" and "rt_generation t' = rt_generation t" and "rt_levels t' = take k (rt_levels t)"
  shows "fresh_gens l n g t'"
  using assms by (auto simp: fresh_gens_def)

lemma fresh_gens_mark:
  assumes f: "fresh_gens l n g t" and m: "tur_trail_mark alloc t = (m, t')"
  shows "fresh_gens l (Suc n) g t'"
proof -
  obtain k where k: "k \<le> n" "rt_generation t = g + of_nat k" using f by (auto simp: fresh_gens_def)
  have old: "\<exists>k. 1 \<le> k \<and> k \<le> Suc n \<and> lv_generation (rt_levels t ! j) = g + of_nat k"
    if "j < length (rt_levels t)" "l \<le> j" for j
    using f that by (fastforce simp: fresh_gens_def)
  show ?thesis
  proof (cases "tm_level m = 0")
    case True
    have "rt_generation t' = rt_generation t" "rt_levels t' = rt_levels t" using mark_cases [OF m] True by simp_all
    then show ?thesis using old k by (auto simp: fresh_gens_def intro!: exI [of _ k])
  next
    case False
    have e: "rt_generation t' = g + of_nat (Suc k)" and lv: "rt_levels t' = rt_levels t @ [\<lparr>lv_base = length (rt_trail t), lv_generation = g + of_nat (Suc k)\<rparr>]"
      using mark_cases [OF m] False k(2) by (simp_all add: algebra_simps)
    have "\<exists>k. 1 \<le> k \<and> k \<le> Suc n \<and> lv_generation (rt_levels t' ! j) = g + of_nat k"
      if j: "j < length (rt_levels t')" "l \<le> j" for j
    proof (cases "j < length (rt_levels t)")
      case True
      then show ?thesis using old [OF True j(2)] by (simp add: lv nth_append)
    next
      case False
      then show ?thesis using j k(1) by (intro exI [of _ "Suc k"]) (simp add: lv nth_append)
    qed
    then show ?thesis using e k(1) unfolding fresh_gens_def by (metis Suc_le_mono)
  qed
qed

lemma fresh_gens_steps: "rt_steps alloc n s t \<Longrightarrow> fresh_gens l 0 g s \<Longrightarrow> fresh_gens l n g t"
proof (induction rule: rt_steps.induct)
  case (steps_set n s t i v b t')
  then show ?case using set_frame [of alloc i v t b t'] by (intro fresh_gens_levels [of l n g t t' "length (rt_levels t)"]) auto
next
  case (steps_mark n s t m t')
  then show ?case using fresh_gens_mark by blast
next
  case (steps_undo n s t m b t')
  have "\<exists>k. rt_generation t' = rt_generation t \<and> rt_levels t' = take k (rt_levels t)"
    using steps_undo(2) undo_fold [of "drop (lv_base (rt_levels t ! (tm_level m - 1))) (rt_trail t)" t]
    by (cases "mark_is_live t m") (auto simp: tur_trail_undo_to_def Let_def intro: exI [of _ "length (rt_levels t)"])
  then show ?case using steps_undo fresh_gens_levels by metis
next
  case (steps_commit n s t m b t')
  have "\<exists>k. rt_generation t' = rt_generation t \<and> rt_levels t' = take k (rt_levels t)"
    using steps_commit(2) commit_fold_frame
    by (cases "mark_is_live t m") (auto simp: tur_trail_commit_to_def Let_def intro: exI [of _ "length (rt_levels t)"])
  then show ?case using steps_commit fresh_gens_levels by metis
next
  case (steps_resume n s t)
  then show ?case by (simp add: fresh_gens_def tur_trail_resume_def)
qed (simp_all add: fresh_gens_def tur_trail_pause_def tur_bt_lvar_init_def tur_bt_cell_init_def Let_def)

lemma steps_count: "rt_steps alloc n s t \<Longrightarrow> \<exists>k\<le>n. rt_generation t = rt_generation s + of_nat k"
proof -
  assume "rt_steps alloc n s t"
  moreover have "fresh_gens (length (rt_levels s)) 0 (rt_generation s) s" by (auto simp: fresh_gens_def)
  ultimately show ?thesis using fresh_gens_steps by (metis fresh_gens_def)
qed

lemma stale_mark_refused:
  assumes m: "tur_trail_mark alloc s0 = (m, s1)" "tm_level m \<noteq> 0"
    and a: "rt_steps alloc n1 s1 s2" and left: "length (rt_levels s2) < tm_level m"
    and b: "rt_steps alloc n2 s2 s3" and few: "n1 + n2 < 2 ^ 32"
  shows "tur_trail_undo_to s3 m = (False, s3) \<and> tur_trail_commit_to s3 m = (False, s3)"
proof -
  have g: "rt_generation s1 = tm_generation m" using mark_cases [OF m(1)] m(2) by simp
  obtain k1 where k1: "k1 \<le> n1" "rt_generation s2 = tm_generation m + of_nat k1" using steps_count [OF a] g by auto
  have "fresh_gens (tm_level m - 1) 0 (rt_generation s2) s2" using left by (auto simp: fresh_gens_def)
  then have f: "fresh_gens (tm_level m - 1) n2 (rt_generation s2) s3" using fresh_gens_steps [OF b] by blast
  have "\<not> mark_is_live s3 m"
  proof
    assume live: "mark_is_live s3 m"
    then have "tm_level m - 1 < length (rt_levels s3)" "lv_generation (rt_levels s3 ! (tm_level m - 1)) = tm_generation m"
      by (auto simp: mark_is_live_def)
    then obtain k where k: "1 \<le> k" "k \<le> n2" "tm_generation m = rt_generation s2 + of_nat k"
      using f unfolding fresh_gens_def by (metis order_refl)
    then have "(of_nat (k1 + k) :: u32) = 0" using k1 by (simp add: algebra_simps)
    then have "(2 :: nat) ^ 32 dvd k1 + k" by (simp only: word_of_nat_eq_0_iff) simp
    then show False using k k1 few by (auto dest: dvd_imp_le)
  qed
  then show ?thesis by (simp add: tur_trail_undo_to_def tur_trail_commit_to_def)
qed

end
