(* ===== verification/RtTrailUse.thy ===== *)
theory RtTrailUse
  imports RtTrailSound
begin

text \<open>
  More on the runtime's trail: the references it holds, the cost of repeated writes, what a commit
  keeps, three behaviours that differ from the notes in \<open>trail.h\<close>, and the trailed substitution.
\<close>

section \<open>References\<close>

text \<open>The references of a cell with a drop hook: its payload, what its entries saved, what was released.\<close>

definition given :: "int \<Rightarrow> int multiset" where
  "given v = (if v \<noteq> 0 then {#v#} else {#})"

definition refs_with :: "nat \<Rightarrow> trailentry list \<Rightarrow> rtrail \<Rightarrow> int multiset" where
  "refs_with i es t =
     given (bc_payload (rt_cells t i)) + mset (map te_old (filter (\<lambda>e. te_cell e = i \<and> te_old e \<noteq> 0) es))
       + mset (map snd (filter (\<lambda>d. fst d = i) (rt_drops t)))"

definition refs :: "nat \<Rightarrow> rtrail \<Rightarrow> int multiset" where
  "refs i t = refs_with i (rt_trail t) t"

lemma refs_undo_entry:
  assumes "bc_drop (rt_cells t i)"
  shows "refs_with i es (undo_entry e t) \<subseteq># refs_with i (es @ [e]) t" and "bc_drop (rt_cells (undo_entry e t) i)"
  using assms by (auto simp: refs_with_def undo_entry_def given_def Let_def)

lemma refs_undo_fold:
  "bc_drop (rt_cells t i) \<Longrightarrow> refs_with i pre (fold undo_entry (rev es) t) \<subseteq># refs_with i (pre @ es) t"
proof (induction es arbitrary: t rule: rev_induct)
  case (snoc e es)
  note s = refs_undo_entry [OF snoc.prems, where e = e]
  have "refs_with i pre (fold undo_entry (rev es) (undo_entry e t)) \<subseteq># refs_with i (pre @ es) (undo_entry e t)"
    by (rule snoc.IH [OF s(2)])
  also have "\<dots> \<subseteq># refs_with i (pre @ es @ [e]) t" using s(1) [of "pre @ es"] by simp
  finally show ?case by simp
qed simp

lemma refs_commit_entry:
  assumes "bc_drop (rt_cells t i)"
  shows "refs_with i es (commit_entry e t) \<subseteq># refs_with i (es @ [e]) t" and "bc_drop (rt_cells (commit_entry e t) i)"
  using assms by (auto simp: refs_with_def commit_entry_def given_def Let_def)

lemma refs_commit_fold:
  "bc_drop (rt_cells t i) \<Longrightarrow> refs_with i pre (fold commit_entry (rev es) t) \<subseteq># refs_with i (pre @ es) t"
proof (induction es arbitrary: t rule: rev_induct)
  case (snoc e es)
  note s = refs_commit_entry [OF snoc.prems, where e = e]
  have "refs_with i pre (fold commit_entry (rev es) (commit_entry e t)) \<subseteq># refs_with i (pre @ es) (commit_entry e t)"
    by (rule snoc.IH [OF s(2)])
  also have "\<dots> \<subseteq># refs_with i (pre @ es @ [e]) t" using s(1) [of "pre @ es"] by simp
  finally show ?case by simp
qed simp

lemma refs_trail [simp]: "refs i (t\<lparr>rt_trail := es, rt_levels := ls\<rparr>) = refs_with i es t"
  by (simp add: refs_def refs_with_def)

lemma refs_undo: "bc_drop (rt_cells t i) \<Longrightarrow> tur_trail_undo_to t m = (b, t') \<Longrightarrow> refs i t' \<subseteq># refs i t"
  using refs_undo_fold [of t i "take (lv_base (rt_levels t ! (tm_level m - 1))) (rt_trail t)"
      "drop (lv_base (rt_levels t ! (tm_level m - 1))) (rt_trail t)"]
  by (auto simp: tur_trail_undo_to_def Let_def split: if_splits) (simp add: refs_def)

lemma refs_commit: "bc_drop (rt_cells t i) \<Longrightarrow> tur_trail_commit_to t m = (b, t') \<Longrightarrow> refs i t' \<subseteq># refs i t"
  using refs_commit_fold [of t i "take (lv_base (rt_levels t ! (tm_level m - 1))) (rt_trail t)"
      "drop (lv_base (rt_levels t ! (tm_level m - 1))) (rt_trail t)"]
  by (auto simp: tur_trail_commit_to_def Let_def split: if_splits) (simp add: refs_def)

lemma refs_set:
  assumes w: "tur_bt_set alloc i v t = (b, t')" and d: "bc_drop (rt_cells t i)"
  shows "refs i t' \<subseteq># refs i t + given v" and "b \<Longrightarrow> v \<noteq> bc_payload (rt_cells t i) \<Longrightarrow> refs i t' = refs i t + given v"
    and "j \<noteq> i \<Longrightarrow> refs j t' = refs j t"
proof -
  from w show "refs i t' \<subseteq># refs i t + given v"
    by (cases rule: set_cases) (use d in \<open>auto simp: refs_def refs_with_def given_def\<close>)
  from w show "b \<Longrightarrow> v \<noteq> bc_payload (rt_cells t i) \<Longrightarrow> refs i t' = refs i t + given v"
    by (cases rule: set_cases) (use d in \<open>auto simp: refs_def refs_with_def given_def\<close>)
  from w show "j \<noteq> i \<Longrightarrow> refs j t' = refs j t"
    by (cases rule: set_cases) (auto simp: refs_def refs_with_def given_def)
qed

text \<open>
  A run over a cell with a drop hook, with the references its writes handed over. A write that fails
  hands nothing over.
\<close>

inductive owned_run :: "(nat \<Rightarrow> bool) \<Rightarrow> nat \<Rightarrow> rtrail \<Rightarrow> int multiset \<Rightarrow> rtrail \<Rightarrow> bool" for alloc i s where
  owned_refl: "owned_run alloc i s {#} s"
| owned_set: "owned_run alloc i s gs t \<Longrightarrow> tur_bt_set alloc j v t = (b, t') \<Longrightarrow>
    owned_run alloc i s (if b \<and> j = i then gs + given v else gs) t'"
| owned_mark: "owned_run alloc i s gs t \<Longrightarrow> tur_trail_mark alloc t = (m, t') \<Longrightarrow> owned_run alloc i s gs t'"
| owned_undo: "owned_run alloc i s gs t \<Longrightarrow> tur_trail_undo_to t m = (b, t') \<Longrightarrow> owned_run alloc i s gs t'"
| owned_commit: "owned_run alloc i s gs t \<Longrightarrow> tur_trail_commit_to t m = (b, t') \<Longrightarrow> owned_run alloc i s gs t'"
| owned_cell: "owned_run alloc i s gs t \<Longrightarrow> j \<noteq> i \<Longrightarrow> owned_run alloc i s gs (tur_bt_cell_init j v cl dr t)"
| owned_pause: "owned_run alloc i s gs t \<Longrightarrow> owned_run alloc i s gs (tur_trail_pause t)"
| owned_resume: "owned_run alloc i s gs t \<Longrightarrow> owned_run alloc i s gs (tur_trail_resume t)"

lemma refs_set_other: "tur_bt_set alloc j v t = (b, t') \<Longrightarrow> j \<noteq> i \<Longrightarrow> refs i t' = refs i t"
  by (erule set_cases) (auto simp: refs_def refs_with_def given_def)

lemma drop_undo_fold: "bc_drop (rt_cells (fold undo_entry es t) i) = bc_drop (rt_cells t i)"
  by (induction es arbitrary: t) (auto simp: undo_entry_def Let_def)

lemma drop_commit_fold: "bc_drop (rt_cells (fold commit_entry es t) i) = bc_drop (rt_cells t i)"
  by (induction es arbitrary: t) (auto simp: commit_entry_def Let_def)

lemma drop_undo: "tur_trail_undo_to t m = (b, t') \<Longrightarrow> bc_drop (rt_cells t' i) = bc_drop (rt_cells t i)"
  using drop_undo_fold by (auto simp: tur_trail_undo_to_def Let_def split: if_splits)

lemma drop_commit: "tur_trail_commit_to t m = (b, t') \<Longrightarrow> bc_drop (rt_cells t' i) = bc_drop (rt_cells t i)"
  using drop_commit_fold by (auto simp: tur_trail_commit_to_def Let_def split: if_splits)

lemma drop_set: "tur_bt_set alloc j v t = (b, t') \<Longrightarrow> bc_drop (rt_cells t' i) = bc_drop (rt_cells t i)"
  by (erule set_cases) auto

lemma set_refused: "tur_bt_set alloc j v t = (False, t') \<Longrightarrow> rt_cells t' = rt_cells t \<and> rt_trail t' = rt_trail t \<and> rt_drops t' = rt_drops t"
  by (erule set_cases) auto

lemma owned_refs:
  "owned_run alloc i s gs t \<Longrightarrow> bc_drop (rt_cells s i) \<Longrightarrow> refs i t \<subseteq># refs i s + gs \<and> bc_drop (rt_cells t i)"
proof (induction rule: owned_run.induct)
  case (owned_set gs t j v b t')
  then have h: "refs i t \<subseteq># refs i s + gs" "bc_drop (rt_cells t i)" by simp_all
  show ?case
  proof (cases "b \<and> j = i")
    case True
    then have "refs i t' \<subseteq># refs i t + given v" using refs_set(1) [of alloc i v t b t'] owned_set.hyps h by simp
    also have "\<dots> \<subseteq># refs i s + gs + given v" using h(1) by simp
    finally show ?thesis using True drop_set [OF owned_set.hyps(2)] h by (simp add: add.assoc)
  next
    case False
    then have "refs i t' = refs i t"
      using refs_set_other [OF owned_set.hyps(2), of i] set_refused [of alloc j v t t'] owned_set.hyps(2)
      by (cases "j = i") (simp_all add: refs_def refs_with_def)
    then show ?thesis using False drop_set [OF owned_set.hyps(2)] h by auto
  qed
next
  case (owned_mark gs t m t')
  have "rt_drops t' = rt_drops t"
    using owned_mark.hyps(2) by (auto simp: tur_trail_mark_def levels_grow_def Let_def split: if_splits)
  then show ?case using owned_mark mark_cases [of alloc t m t'] by (simp add: refs_def refs_with_def)
next
  case (owned_undo gs t m b t')
  then show ?case using refs_undo [of t i m b t'] drop_undo [of t m b t'] by (auto intro: subset_mset.order_trans)
next
  case (owned_commit gs t m b t')
  then show ?case using refs_commit [of t i m b t'] drop_commit [of t m b t'] by (auto intro: subset_mset.order_trans)
qed (simp_all add: refs_def refs_with_def tur_bt_cell_init_def tur_trail_pause_def tur_trail_resume_def)

text \<open>What the hook of a fresh cell released is among what the cell was given.\<close>

definition released :: "nat \<Rightarrow> rtrail \<Rightarrow> int multiset" where
  "released i t = mset (map snd (filter (\<lambda>d. fst d = i) (rt_drops t)))"

lemma owned_released:
  assumes "owned_run alloc i s gs t" and "bc_drop (rt_cells s i)" and "\<forall>e\<in>set (rt_trail s). te_cell e \<noteq> i" and "released i s = {#}"
  shows "released i t + given (bc_payload (rt_cells t i)) \<subseteq># given (bc_payload (rt_cells s i)) + gs"
proof -
  have "released i t + given (bc_payload (rt_cells t i)) \<subseteq># refs i t" by (simp add: refs_def refs_with_def released_def)
  also have "\<dots> \<subseteq># refs i s + gs" using owned_refs [OF assms(1,2)] by blast
  also have "filter (\<lambda>e. te_cell e = i \<and> te_old e \<noteq> 0) (rt_trail s) = []" using assms(3) by (auto simp: filter_empty_conv)
  then have "refs i s = given (bc_payload (rt_cells s i))" using assms(4) unfolding refs_def refs_with_def released_def by simp
  finally show ?thesis by simp
qed

section \<open>Cost and commit\<close>

text \<open>After one write that was not paused, further writes to the cell at this level record nothing.\<close>

definition write_all :: "(nat \<Rightarrow> bool) \<Rightarrow> nat \<Rightarrow> int list \<Rightarrow> rtrail \<Rightarrow> rtrail" where
  "write_all alloc i vs t = fold (\<lambda>v t. snd (tur_bt_set alloc i v t)) vs t"

lemma write_all_trail:
  "length (rt_levels t) \<le> bc_stamp (rt_cells t i) \<Longrightarrow> rt_trail (write_all alloc i vs t) = rt_trail t"
proof (induction vs arbitrary: t)
  case (Cons v vs)
  obtain b t' where w: "tur_bt_set alloc i v t = (b, t')" by fastforce
  have "length (rt_levels t') \<le> bc_stamp (rt_cells t' i) \<and> rt_trail t' = rt_trail t"
    using w set_frame [OF w] Cons.prems by (cases rule: set_cases) auto
  then show ?case using Cons.IH [of t'] w by (simp add: write_all_def)
qed (simp add: write_all_def)

lemma write_once_per_level:
  assumes "tur_bt_set alloc i v t = (True, t')" and "rt_pause t = 0"
  shows "rt_trail (write_all alloc i vs t') = rt_trail t' \<and> length (rt_trail t') \<le> length (rt_trail t) + 1"
proof -
  have "length (rt_levels t') \<le> bc_stamp (rt_cells t' i) \<and> length (rt_trail t') \<le> length (rt_trail t) + 1"
    using assms(1) set_frame [OF assms(1)] assms(2) by (cases rule: set_cases) auto
  then show ?thesis using write_all_trail by blast
qed

lemma commit_fold_cells:
  "bc_payload (rt_cells (fold commit_entry es t) i) = bc_payload (rt_cells t i)
   \<and> bc_bound (rt_cells (fold commit_entry es t) i) = bc_bound (rt_cells t i)"
  by (induction es arbitrary: t) (auto simp: commit_entry_def Let_def)

lemma commit_keeps:
  assumes "tur_trail_commit_to t m = (True, t')"
  shows "bc_payload (rt_cells t' i) = bc_payload (rt_cells t i) \<and> bc_bound (rt_cells t' i) = bc_bound (rt_cells t i)
    \<and> rt_levels t' = take (tm_level m - 1) (rt_levels t) \<and> \<not> mark_is_live t' m"
  using assms commit_fold_cells [of _ t i] by (auto simp: tur_trail_commit_to_def Let_def mark_is_live_def split: if_splits)

section \<open>Three surprises\<close>

definition rt_empty :: rtrail where
  "rt_empty = \<lparr>rt_cells = (\<lambda>_. \<lparr>bc_payload = 0, bc_stamp = 0, bc_bound = False, bc_write_once = False, bc_clone = None, bc_drop = False\<rparr>),
     rt_trail = [], rt_trail_cap = 0, rt_levels = [], rt_levels_cap = 0, rt_pause = 0, rt_generation = 1, rt_drops = []\<rparr>"

definition val_at :: "rtrail \<Rightarrow> nat \<Rightarrow> int" where
  "val_at t i = bc_payload (rt_cells t i)"

definition set_cell :: "nat \<Rightarrow> int \<Rightarrow> rtrail \<Rightarrow> rtrail" where
  "set_cell i v t = snd (tur_bt_set (\<lambda>_. True) i v t)"

text \<open>A cell made inside a level that is committed keeps the level as its stamp: the next write is not undone.\<close>

definition born_inside :: "bool \<times> bool \<times> int" where
  "born_inside =
     (let (m1, t1) = tur_trail_mark (\<lambda>_. True) rt_empty; t2 = tur_bt_cell_init 0 7 None False t1;
          (ok1, t3) = tur_trail_commit_to t2 m1; (m2, t4) = tur_trail_mark (\<lambda>_. True) t3;
          (ok2, t5) = tur_trail_undo_to (set_cell 0 9 t4) m2
      in (ok1, ok2, val_at t5 0))"

text \<open>A paused write to a cell already written at its level is undone with it.\<close>

definition paused_write :: "bool \<times> int" where
  "paused_write =
     (let t0 = tur_bt_cell_init 0 1 None False rt_empty; (m, t1) = tur_trail_mark (\<lambda>_. True) t0;
          t2 = tur_trail_resume (set_cell 0 3 (tur_trail_pause (set_cell 0 2 t1)));
          (ok, t3) = tur_trail_undo_to t2 m
      in (ok, val_at t3 0))"

text \<open>
  A commit below an outer level keeps the write to a cell the outer level had not written, and
  loses at the outer undo the write to one it had.
\<close>

definition nested_commit :: "int \<times> int" where
  "nested_commit =
     (let t0 = tur_bt_cell_init 1 0 None False (tur_bt_cell_init 0 0 None False rt_empty);
          (a, t1) = tur_trail_mark (\<lambda>_. True) t0; (b, t2) = tur_trail_mark (\<lambda>_. True) (set_cell 0 1 t1);
          (_, t3) = tur_trail_commit_to (set_cell 1 5 (set_cell 0 5 t2)) b; (_, t4) = tur_trail_undo_to t3 a
      in (val_at t4 0, val_at t4 1))"

lemma born_inside_value: "born_inside = (True, True, 9)" by code_simp

lemma paused_write_value: "paused_write = (True, 1)" by code_simp

lemma nested_commit_value: "nested_commit = (0, 5)" by code_simp

section \<open>The substitution\<close>

definition uf_cell :: "traileduf \<Rightarrow> int \<Rightarrow> nat" where
  "uf_cell u k = uf_cells u + nat k"

definition uf_range :: "traileduf \<Rightarrow> nat set" where
  "uf_range u = uf_cell u ` {0..<uf_n u}"

text \<open>The variable a variable is bound to, if it is bound to one.\<close>

definition uf_link :: "rtrail \<Rightarrow> traileduf \<Rightarrow> int \<Rightarrow> int option" where
  "uf_link t u k =
     (let c = rt_cells t (uf_cell u k); v = bc_payload c
      in if 0 \<le> k \<and> k < uf_n u \<and> bc_bound c \<and> v \<noteq> TUR_UF_UNBOUND \<and> odd v then Some (v div 2) else None)"

text \<open>The bindings from variable to variable, and what a walk that ends at a variable returns.\<close>

definition uf_links :: "rtrail \<Rightarrow> traileduf \<Rightarrow> (int \<times> int) set" where
  "uf_links t u = {(k, j). uf_link t u k = Some j}"

definition uf_value :: "rtrail \<Rightarrow> traileduf \<Rightarrow> int \<Rightarrow> int" where
  "uf_value t u k =
     (let c = rt_cells t (uf_cell u k)
      in if k < 0 \<or> uf_n u \<le> k then TUR_UF_UNBOUND
         else if \<not> bc_bound c \<or> bc_payload c = TUR_UF_UNBOUND then 2 * k + 1
         else bc_payload c)"

lemma uf_walk_ends:
  assumes "\<And>k j. uf_link t u k = Some j \<Longrightarrow> rank j < rank k" and "rank cur < fuel"
  shows "\<exists>e. (cur, e) \<in> (uf_links t u)\<^sup>* \<and> uf_link t u e = None \<and> tur_uf_walk fuel t u cur = Some (uf_value t u e)"
  using assms(2)
proof (induction fuel arbitrary: cur)
  case (Suc fuel)
  let ?c = "rt_cells t (uf_cell u cur)"
  show ?case
  proof (cases "uf_link t u cur")
    case None
    then show ?thesis
      by (intro exI [of _ cur]) (auto simp: uf_link_def uf_value_def uf_cell_def Let_def split: if_splits)
  next
    case (Some j)
    then have "j = bc_payload ?c div 2" "0 \<le> cur" "cur < uf_n u" "bc_bound ?c" "bc_payload ?c \<noteq> TUR_UF_UNBOUND" "odd (bc_payload ?c)"
      by (auto simp: uf_link_def Let_def split: if_splits)
    then have w: "tur_uf_walk (Suc fuel) t u cur = tur_uf_walk fuel t u j" by (simp add: uf_cell_def Let_def)
    have "rank j < fuel" using assms(1) [OF Some] Suc.prems by simp
    then obtain e where "(j, e) \<in> (uf_links t u)\<^sup>*" "uf_link t u e = None" "tur_uf_walk fuel t u j = Some (uf_value t u e)"
      using Suc.IH by blast
    moreover have "(cur, j) \<in> uf_links t u" using Some by (simp add: uf_links_def)
    ultimately show ?thesis using w by (metis converse_rtrancl_into_rtrancl)
  qed
qed simp

text \<open>Where no variable leads back to itself, the variables ahead of one grow fewer with every step.\<close>

definition uf_ahead :: "rtrail \<Rightarrow> traileduf \<Rightarrow> int \<Rightarrow> nat" where
  "uf_ahead t u k = card {x \<in> {0..<uf_n u}. (k, x) \<in> (uf_links t u)\<^sup>*}"

lemma uf_ahead_le: "uf_ahead t u k \<le> nat (uf_n u)"
proof -
  have "uf_ahead t u k \<le> card {0..<uf_n u}" unfolding uf_ahead_def by (rule card_mono) blast+
  then show ?thesis by simp
qed

lemma uf_ahead_less:
  assumes a: "acyclic (uf_links t u)" and l: "uf_link t u k = Some j"
  shows "uf_ahead t u j < uf_ahead t u k"
proof -
  have kj: "(k, j) \<in> uf_links t u" and r: "k \<in> {0..<uf_n u}"
    using l by (auto simp: uf_links_def uf_link_def Let_def split: if_splits)
  have "(j, k) \<notin> (uf_links t u)\<^sup>*" using a kj by (metis acyclic_def rtrancl_into_trancl2)
  then have "{x \<in> {0..<uf_n u}. (j, x) \<in> (uf_links t u)\<^sup>*} \<subset> {x \<in> {0..<uf_n u}. (k, x) \<in> (uf_links t u)\<^sup>*}"
    using kj r by (blast intro: converse_rtrancl_into_rtrancl)
  moreover have "finite {x \<in> {0..<uf_n u}. (k, x) \<in> (uf_links t u)\<^sup>*}" by (rule finite_subset [of _ "{0..<uf_n u}"]) blast+
  ultimately show ?thesis unfolding uf_ahead_def by (rule psubset_card_mono [rotated])
qed

lemma uf_walk_acyclic:
  assumes "acyclic (uf_links t u)"
  shows "\<exists>e. (cur, e) \<in> (uf_links t u)\<^sup>* \<and> uf_link t u e = None
    \<and> tur_uf_walk (Suc (nat (uf_n u))) t u cur = Some (uf_value t u e)"
  using uf_ahead_less [OF assms] uf_ahead_le [of t u cur]
  by (intro uf_walk_ends [where rank = "uf_ahead t u"]) simp_all

lemma uf_walk_cong:
  assumes "\<And>i. i \<in> uf_range u \<Longrightarrow> cell_state (rt_cells t' i) = cell_state (rt_cells t i)"
  shows "tur_uf_walk fuel t' u cur = tur_uf_walk fuel t u cur"
proof (induction fuel arbitrary: cur)
  case (Suc fuel)
  have "cell_state (rt_cells t' (uf_cells u + nat cur)) = cell_state (rt_cells t (uf_cells u + nat cur))" if "0 \<le> cur" "cur < uf_n u"
    using assms [of "uf_cells u + nat cur"] that by (auto simp: uf_range_def uf_cell_def)
  then show ?case using Suc.IH by (auto simp: cell_state_def Let_def)
qed simp

text \<open>Two variables bound to each other: no fuel is enough.\<close>

lemma uf_walk_cycle:
  assumes "uf_link t u i = Some j" and "uf_link t u j = Some i"
  shows "tur_uf_walk fuel t u i = None \<and> tur_uf_walk fuel t u j = None"
proof (induction fuel)
  case (Suc fuel)
  then show ?case using assms by (auto simp: uf_link_def uf_cell_def Let_def split: if_splits)
qed simp

end
