(* ===== verification/TimerWheel.thy ===== *)
theory TimerWheel
  imports Prelude "HOL-Library.Multiset"
begin

text \<open>
  The timing wheel of the async runtime (\<open>src/async/timer_wheel.c\<close>): 256 slots of timers, hashed by
  deadline, a lazy cancel, and a tick that advances one millisecond at a time. A timer is named by a
  number (its pointer and callback); the clock is an argument; the log is the calls made, with the
  millisecond at which the wheel stood. Times stay far from the ends of int64 and are integers.

  Each call is one step. In C an insertion reads the clock and picks the slot before it takes the
  lock: when the ticker passes that slot in between, the timer waits a turn of the wheel, as one
  with a delay of zero does here (\<open>zero_delay_late\<close>). Cancelling is for timers that have not run: a
  timer that has is no longer in the model's wheel and its cancellation does nothing, while in C its
  node has been freed and the flag is written into freed memory.
\<close>

definition TUR_WHEEL_SLOTS :: nat where "TUR_WHEEL_SLOTS = 256"

record timernode =
  tn_id :: nat
  tn_deadline :: int
  tn_cancelled :: bool

record wheel =
  w_slots :: "timernode list list"
  w_current :: int
  w_log :: "(int \<times> timernode) list"

text \<open>\<open>deadline & 255\<close>, on two's complement the remainder modulo 256.\<close>

definition wheel_slot :: "int \<Rightarrow> nat" where
  "wheel_slot ms = nat (ms mod int TUR_WHEEL_SLOTS)"

definition tur_timer_wheel_new :: "int \<Rightarrow> wheel" where
  "tur_timer_wheel_new now = \<lparr>w_slots = replicate TUR_WHEEL_SLOTS [], w_current = now, w_log = []\<rparr>"

definition tur_timer_wheel_insert :: "int \<Rightarrow> int \<Rightarrow> nat \<Rightarrow> wheel \<Rightarrow> wheel" where
  "tur_timer_wheel_insert now delay i w =
     (let node = \<lparr>tn_id = i, tn_deadline = now + delay, tn_cancelled = False\<rparr>; s = wheel_slot (now + delay)
      in w\<lparr>w_slots := (w_slots w)[s := node # w_slots w ! s]\<rparr>)"

definition cancel_node :: "nat \<Rightarrow> timernode \<Rightarrow> timernode" where
  "cancel_node i n = (if tn_id n = i then n\<lparr>tn_cancelled := True\<rparr> else n)"

definition tur_timer_wheel_cancel :: "nat \<Rightarrow> wheel \<Rightarrow> wheel" where
  "tur_timer_wheel_cancel i w = w\<lparr>w_slots := map (map (cancel_node i)) (w_slots w)\<rparr>"

text \<open>The scan of a slot: what is to fire, last found first, and what stays.\<close>

fun tick_scan :: "int \<Rightarrow> timernode list \<Rightarrow> timernode list \<Rightarrow> timernode list \<times> timernode list" where
  "tick_scan cur [] to_fire = (to_fire, [])"
| "tick_scan cur (n # ns) to_fire =
     (if tn_cancelled n then tick_scan cur ns to_fire
      else if tn_deadline n \<le> cur then tick_scan cur ns (n # to_fire)
      else let (f, keep) = tick_scan cur ns to_fire in (f, n # keep))"

definition tick_ms :: "wheel \<Rightarrow> wheel" where
  "tick_ms w =
     (let cur = w_current w + 1; s = wheel_slot cur; (fire, keep) = tick_scan cur (w_slots w ! s) []
      in w\<lparr>w_current := cur, w_slots := (w_slots w)[s := keep], w_log := w_log w @ map (Pair cur) fire\<rparr>)"

definition tur_timer_wheel_tick :: "int \<Rightarrow> wheel \<Rightarrow> wheel" where
  "tur_timer_wheel_tick now w =
     (let elapsed = now - w_current w in if elapsed \<le> 0 then w else (tick_ms ^^ nat elapsed) w)"

section \<open>The scan\<close>

lemma tick_scan_eq:
  "tick_scan cur ns to_fire =
     (rev (filter (\<lambda>n. \<not> tn_cancelled n \<and> tn_deadline n \<le> cur) ns) @ to_fire,
      filter (\<lambda>n. \<not> tn_cancelled n \<and> cur < tn_deadline n) ns)"
  by (induction ns arbitrary: to_fire) auto

section \<open>Well-formed wheels\<close>

text \<open>Every timer is in the slot of its deadline, which is still to come.\<close>

definition wheel_ok :: "wheel \<Rightarrow> bool" where
  "wheel_ok w \<longleftrightarrow> length (w_slots w) = TUR_WHEEL_SLOTS \<and>
     (\<forall>s<TUR_WHEEL_SLOTS. \<forall>n\<in>set (w_slots w ! s). wheel_slot (tn_deadline n) = s \<and> w_current w < tn_deadline n)"

definition pending :: "wheel \<Rightarrow> timernode set" where
  "pending w = {n. \<not> tn_cancelled n \<and> n \<in> set (concat (w_slots w))}"

lemma wheel_slot_less [simp]: "wheel_slot ms < TUR_WHEEL_SLOTS"
  by (simp add: wheel_slot_def TUR_WHEEL_SLOTS_def nat_less_iff)

lemma pending_nth:
  "length (w_slots w) = TUR_WHEEL_SLOTS \<Longrightarrow>
   n \<in> pending w \<longleftrightarrow> \<not> tn_cancelled n \<and> (\<exists>s<TUR_WHEEL_SLOTS. n \<in> set (w_slots w ! s))"
  by (auto simp: pending_def in_set_conv_nth [of _ "w_slots w"]) (metis nth_mem)+

lemma wheel_okD:
  assumes "wheel_ok w" and "s < TUR_WHEEL_SLOTS" and "n \<in> set (w_slots w ! s)"
  shows "wheel_slot (tn_deadline n) = s" and "w_current w < tn_deadline n"
  using assms unfolding wheel_ok_def by blast+

lemma pending_slot:
  assumes "wheel_ok w"
  shows "n \<in> pending w \<longleftrightarrow> \<not> tn_cancelled n \<and> n \<in> set (w_slots w ! wheel_slot (tn_deadline n))"
proof -
  have "length (w_slots w) = TUR_WHEEL_SLOTS" and d: "\<And>s n. s < TUR_WHEEL_SLOTS \<Longrightarrow> n \<in> set (w_slots w ! s) \<Longrightarrow> wheel_slot (tn_deadline n) = s"
    using assms by (simp_all add: wheel_ok_def)
  then show ?thesis using pending_nth [of w n] wheel_slot_less [of "tn_deadline n"] d by metis
qed

lemma pending_late: "wheel_ok w \<Longrightarrow> n \<in> pending w \<Longrightarrow> w_current w < tn_deadline n"
  using pending_slot [of w n] wheel_okD(2) wheel_slot_less by blast

lemma wheel_new_ok: "wheel_ok (tur_timer_wheel_new now) \<and> pending (tur_timer_wheel_new now) = {}"
  by (auto simp: wheel_ok_def tur_timer_wheel_new_def pending_def)

lemma wheel_insert_ok:
  assumes w: "wheel_ok w" and t: "w_current w \<le> now" "0 < delay"
  shows "wheel_ok (tur_timer_wheel_insert now delay i w) \<and>
    pending (tur_timer_wheel_insert now delay i w) = insert \<lparr>tn_id = i, tn_deadline = now + delay, tn_cancelled = False\<rparr> (pending w)"
proof
  let ?n = "\<lparr>tn_id = i, tn_deadline = now + delay, tn_cancelled = False\<rparr>"
  have l: "length (w_slots w) = TUR_WHEEL_SLOTS" using w by (simp add: wheel_ok_def)
  show ok: "wheel_ok (tur_timer_wheel_insert now delay i w)"
    using w t by (auto simp: wheel_ok_def tur_timer_wheel_insert_def Let_def nth_list_update)
  show "pending (tur_timer_wheel_insert now delay i w) = insert ?n (pending w)"
    unfolding set_eq_iff pending_slot [OF ok] insert_iff pending_slot [OF w]
    by (auto simp: tur_timer_wheel_insert_def Let_def nth_list_update l split: if_splits)
qed

lemma wheel_cancel_ok:
  assumes w: "wheel_ok w"
  shows "wheel_ok (tur_timer_wheel_cancel i w) \<and> pending (tur_timer_wheel_cancel i w) = {n \<in> pending w. tn_id n \<noteq> i}"
proof
  have l: "length (w_slots w) = TUR_WHEEL_SLOTS" using w by (simp add: wheel_ok_def)
  show ok: "wheel_ok (tur_timer_wheel_cancel i w)"
    using w by (auto simp: wheel_ok_def tur_timer_wheel_cancel_def cancel_node_def)
  show "pending (tur_timer_wheel_cancel i w) = {n \<in> pending w. tn_id n \<noteq> i}"
    unfolding set_eq_iff mem_Collect_eq pending_slot [OF ok] pending_slot [OF w]
    by (auto simp: tur_timer_wheel_cancel_def cancel_node_def l image_iff split: if_splits)
qed

section \<open>Counting\<close>

text \<open>The timers still to fire, with how often each is in the wheel.\<close>

definition pendings :: "wheel \<Rightarrow> timernode multiset" where
  "pendings w = mset (filter (\<lambda>n. \<not> tn_cancelled n) (concat (w_slots w)))"

lemma set_pendings: "set_mset (pendings w) = pending w"
  by (auto simp: pendings_def pending_def)

lemma count_concat: "count (mset (concat xs)) n = (\<Sum>i<length xs. count (mset (xs ! i)) n)"
proof (induction xs)
  case (Cons x xs)
  have "(\<Sum>i<length (x # xs). count (mset ((x # xs) ! i)) n) = count (mset x) n + (\<Sum>i<length xs. count (mset (xs ! i)) n)"
    by (simp add: sum.lessThan_Suc_shift del: sum.lessThan_Suc)
  then show ?case using Cons by simp
qed simp

lemma count_pendings:
  assumes w: "wheel_ok w"
  shows "count (pendings w) n = (if tn_cancelled n then 0 else count (mset (w_slots w ! wheel_slot (tn_deadline n))) n)"
proof -
  let ?s = "wheel_slot (tn_deadline n)"
  have l: "length (w_slots w) = TUR_WHEEL_SLOTS" using w by (simp add: wheel_ok_def)
  have "count (mset (w_slots w ! i)) n = 0" if "i < TUR_WHEEL_SLOTS" "i \<noteq> ?s" for i
    using wheel_okD(1) [OF w that(1), of n] that(2) by (auto simp: count_eq_zero_iff)
  then have "(\<Sum>i<TUR_WHEEL_SLOTS. count (mset (w_slots w ! i)) n) = (\<Sum>i\<in>{?s}. count (mset (w_slots w ! i)) n)"
    by (intro sum.mono_neutral_right) auto
  then have "count (mset (concat (w_slots w))) n = count (mset (w_slots w ! ?s)) n"
    by (simp add: count_concat l)
  then show ?thesis by (simp add: pendings_def)
qed

section \<open>A millisecond\<close>

lemma tick_ms_ok:
  assumes w: "wheel_ok w"
  shows "wheel_ok (tick_ms w) \<and> pending (tick_ms w) = {n \<in> pending w. w_current w + 1 < tn_deadline n} \<and> w_current (tick_ms w) = w_current w + 1
    \<and> w_log (tick_ms w) = w_log w @ map (Pair (w_current w + 1)) (rev (filter (\<lambda>n. \<not> tn_cancelled n \<and> tn_deadline n \<le> w_current w + 1)
        (w_slots w ! wheel_slot (w_current w + 1))))"
proof -
  let ?c = "w_current w + 1"
  have l: "length (w_slots w) = TUR_WHEEL_SLOTS" using w by (simp add: wheel_ok_def)
  have e: "tick_ms w = w\<lparr>w_current := ?c,
      w_slots := (w_slots w)[wheel_slot ?c := filter (\<lambda>n. \<not> tn_cancelled n \<and> ?c < tn_deadline n) (w_slots w ! wheel_slot ?c)],
      w_log := w_log w @ map (Pair ?c) (rev (filter (\<lambda>n. \<not> tn_cancelled n \<and> tn_deadline n \<le> ?c) (w_slots w ! wheel_slot ?c)))\<rparr>"
    by (simp add: tick_ms_def Let_def tick_scan_eq)
  have late: "?c < tn_deadline n" if "s < TUR_WHEEL_SLOTS" "n \<in> set (w_slots w ! s)" "s \<noteq> wheel_slot ?c" for s n
    using w that by (cases "tn_deadline n = ?c") (force simp: wheel_ok_def)+
  have ok: "wheel_ok (tick_ms w)"
    using w late by (auto simp: wheel_ok_def e nth_list_update)
  have "pending (tick_ms w) = {n \<in> pending w. ?c < tn_deadline n}"
    unfolding set_eq_iff mem_Collect_eq pending_slot [OF ok] pending_slot [OF w]
    using late [OF wheel_slot_less] by (auto simp: e nth_list_update l split: if_splits)
  then show ?thesis using ok by (simp add: e)
qed

lemma tick_ms_pendings:
  assumes w: "wheel_ok w"
  shows "pendings (tick_ms w) = {#n \<in># pendings w. w_current w + 1 < tn_deadline n#}"
proof (rule multiset_eqI)
  fix n
  let ?c = "w_current w + 1"
  have l: "length (w_slots w) = TUR_WHEEL_SLOTS" using w by (simp add: wheel_ok_def)
  have ok: "wheel_ok (tick_ms w)" using tick_ms_ok [OF w] by blast
  have late: "?c < tn_deadline n" if "n \<in> set (w_slots w ! wheel_slot (tn_deadline n))" "wheel_slot (tn_deadline n) \<noteq> wheel_slot ?c"
    using wheel_okD(2) [OF w wheel_slot_less that(1)] that(2) by (cases "tn_deadline n = ?c") auto
  have s: "w_slots (tick_ms w) = (w_slots w)[wheel_slot ?c := filter (\<lambda>n. \<not> tn_cancelled n \<and> ?c < tn_deadline n) (w_slots w ! wheel_slot ?c)]"
    by (simp add: tick_ms_def Let_def tick_scan_eq)
  show "count (pendings (tick_ms w)) n = count {#n \<in># pendings w. ?c < tn_deadline n#} n"
    using late unfolding count_pendings [OF ok] count_filter_mset count_pendings [OF w] s
    by (cases "wheel_slot (tn_deadline n) = wheel_slot ?c") (auto simp: nth_list_update l count_eq_zero_iff)
qed

text \<open>What fires is what is due, and the log carries the time it was due.\<close>

lemma tick_ms_log:
  assumes w: "wheel_ok w"
  shows "\<exists>fire. w_log (tick_ms w) = w_log w @ map (\<lambda>n. (tn_deadline n, n)) fire \<and>
    mset fire = {#n \<in># pendings w. tn_deadline n = w_current w + 1#}"
proof -
  let ?c = "w_current w + 1"
  let ?f = "rev (filter (\<lambda>n. \<not> tn_cancelled n \<and> tn_deadline n \<le> ?c) (w_slots w ! wheel_slot ?c))"
  have d: "tn_deadline n = ?c" if "n \<in> set ?f" for n
  proof -
    have "w_current w < tn_deadline n" using that by (intro wheel_okD(2) [OF w wheel_slot_less [of ?c]]) simp
    then show ?thesis using that by simp
  qed
  have "w_log (tick_ms w) = w_log w @ map (Pair ?c) ?f" using tick_ms_ok [OF w] by simp
  also have "map (Pair ?c) ?f = map (\<lambda>n. (tn_deadline n, n)) ?f" 
  proof (rule map_cong [OF refl])
    fix n
    assume "n \<in> set ?f"
    from d [OF this] show "(?c, n) = (tn_deadline n, n)" by simp
  qed
  finally have "w_log (tick_ms w) = w_log w @ map (\<lambda>n. (tn_deadline n, n)) ?f" .
  moreover have "mset ?f = {#n \<in># pendings w. tn_deadline n = ?c#}"
  proof (rule multiset_eqI)
    fix n
    show "count (mset ?f) n = count {#n \<in># pendings w. tn_deadline n = ?c#} n"
      using d [of n] count_pendings [OF w, of n] by (cases "tn_deadline n = ?c") (auto simp: count_eq_zero_iff)
  qed
  ultimately show ?thesis by blast
qed

section \<open>A tick against its specification\<close>

text \<open>The specification: everything due by now fires, in the order of the deadlines, and is gone.\<close>

definition fires :: "int \<Rightarrow> wheel \<Rightarrow> timernode list \<Rightarrow> bool" where
  "fires now w fire \<longleftrightarrow> mset fire = {#n \<in># pendings w. tn_deadline n \<le> now#} \<and> sorted (map tn_deadline fire)"

lemma none_due:
  assumes "wheel_ok w" and "now \<le> w_current w"
  shows "fires now w []" and "{#n \<in># pendings w. now < tn_deadline n#} = pendings w"
proof -
  have "now < tn_deadline n" if "n \<in># pendings w" for n
    using pending_late [OF assms(1)] that assms(2) by (force simp: set_pendings)
  then have l: "\<forall>n\<in>#pendings w. now < tn_deadline n" by blast
  then show "{#n \<in># pendings w. now < tn_deadline n#} = pendings w" by (simp add: filter_mset_eq_conv)
  have "{#n \<in># pendings w. tn_deadline n \<le> now#} = {#}" using l by (force simp: filter_mset_eq_conv)
  then show "fires now w []" by (simp add: fires_def)
qed

lemma tick_steps:
  assumes "wheel_ok w"
  shows "\<exists>fire. w_log ((tick_ms ^^ k) w) = w_log w @ map (\<lambda>n. (tn_deadline n, n)) fire \<and> fires (w_current w + int k) w fire
    \<and> wheel_ok ((tick_ms ^^ k) w) \<and> w_current ((tick_ms ^^ k) w) = w_current w + int k
    \<and> pendings ((tick_ms ^^ k) w) = {#n \<in># pendings w. w_current w + int k < tn_deadline n#}"
proof (induction k)
  case 0
  then show ?case using assms none_due [OF assms order_refl] by (intro exI [of _ "[]"]) simp
next
  case (Suc k)
  let ?w = "(tick_ms ^^ k) w"
  obtain f where f: "w_log ?w = w_log w @ map (\<lambda>n. (tn_deadline n, n)) f" "fires (w_current w + int k) w f" "wheel_ok ?w"
      "w_current ?w = w_current w + int k" "pendings ?w = {#n \<in># pendings w. w_current w + int k < tn_deadline n#}"
    using Suc.IH by blast
  obtain g where g: "w_log (tick_ms ?w) = w_log ?w @ map (\<lambda>n. (tn_deadline n, n)) g" "mset g = {#n \<in># pendings ?w. tn_deadline n = w_current ?w + 1#}"
    using tick_ms_log [OF f(3)] by blast
  have due: "tn_deadline n = w_current w + int k + 1" if "n \<in> set g" for n
  proof -
    from that have "n \<in># mset g" by simp
    then show ?thesis unfolding g(2) using f(4) by simp
  qed
  have past: "tn_deadline n \<le> w_current w + int k" if "n \<in> set f" for n
  proof -
    from that have "n \<in># mset f" by simp
    moreover have "mset f = {#n \<in># pendings w. tn_deadline n \<le> w_current w + int k#}" using f(2) by (simp add: fires_def)
    ultimately show ?thesis by (simp del: set_mset_mset)
  qed
  have "sorted (map tn_deadline g)" using due by (auto simp: sorted_iff_nth_mono)
  then have "sorted (map tn_deadline (f @ g))" using f(2) due past by (fastforce simp: fires_def sorted_append)
  moreover have "mset (f @ g) = {#n \<in># pendings w. tn_deadline n \<le> w_current w + int (Suc k)#}"
    using f(2,4,5) g(2) by (intro multiset_eqI) (auto simp: fires_def)
  ultimately have "fires (w_current w + int (Suc k)) w (f @ g)" by (simp only: fires_def)
  moreover have "pendings (tick_ms ?w) = {#n \<in># pendings w. w_current w + int (Suc k) < tn_deadline n#}"
    using tick_ms_pendings [OF f(3)] f(4,5) by (auto simp: filter_filter_mset intro!: filter_mset_cong)
  ultimately show ?case using f(1,4) g(1) tick_ms_ok [OF f(3)] by (intro exI [of _ "f @ g"]) simp
qed

lemma tick_correct:
  assumes "wheel_ok w"
  shows "\<exists>fire. w_log (tur_timer_wheel_tick now w) = w_log w @ map (\<lambda>n. (tn_deadline n, n)) fire \<and> fires now w fire
    \<and> wheel_ok (tur_timer_wheel_tick now w) \<and> pendings (tur_timer_wheel_tick now w) = {#n \<in># pendings w. now < tn_deadline n#}
    \<and> w_current (tur_timer_wheel_tick now w) = max now (w_current w)"
proof (cases "now - w_current w \<le> 0")
  case True
  then show ?thesis using assms none_due [OF assms, of now] by (intro exI [of _ "[]"]) (simp add: tur_timer_wheel_tick_def)
next
  case False
  then have "w_current w + int (nat (now - w_current w)) = now" by simp
  then show ?thesis using tick_steps [OF assms, of "nat (now - w_current w)"] False
    by (auto simp: tur_timer_wheel_tick_def Let_def)
qed

section \<open>Any use of a wheel\<close>

text \<open>The first argument is the last time the clock was read; it does not run backwards.\<close>

inductive wheel_reach :: "int \<Rightarrow> wheel \<Rightarrow> bool" where
  reach_new: "wheel_reach now (tur_timer_wheel_new now)"
| reach_insert: "wheel_reach t w \<Longrightarrow> t \<le> now \<Longrightarrow> 0 < delay \<Longrightarrow> wheel_reach now (tur_timer_wheel_insert now delay i w)"
| reach_cancel: "wheel_reach t w \<Longrightarrow> wheel_reach t (tur_timer_wheel_cancel i w)"
| reach_tick: "wheel_reach t w \<Longrightarrow> t \<le> now \<Longrightarrow> wheel_reach now (tur_timer_wheel_tick now w)"

lemma wheel_reach_ok: "wheel_reach t w \<Longrightarrow> wheel_ok w \<and> w_current w \<le> t"
proof (induction rule: wheel_reach.induct)
  case (reach_new now)
  then show ?case using wheel_new_ok by (simp add: tur_timer_wheel_new_def)
next
  case (reach_insert t w now delay i)
  then show ?case using wheel_insert_ok [of w now delay i] by (simp add: tur_timer_wheel_insert_def Let_def)
next
  case (reach_cancel t w i)
  then show ?case using wheel_cancel_ok [of w i] by (simp add: tur_timer_wheel_cancel_def)
next
  case (reach_tick t w now)
  then show ?case using tick_correct [of w now] by auto
qed

lemma pendings_new: "pendings (tur_timer_wheel_new now) = {#}"
  by (simp add: pendings_def tur_timer_wheel_new_def filter_empty_conv)

lemma pendings_insert:
  assumes r: "wheel_reach t w" and t: "t \<le> now" "0 < delay"
  shows "pendings (tur_timer_wheel_insert now delay i w) =
    add_mset \<lparr>tn_id = i, tn_deadline = now + delay, tn_cancelled = False\<rparr> (pendings w)"
proof (rule multiset_eqI)
  fix n
  let ?w = "tur_timer_wheel_insert now delay i w" and ?n = "\<lparr>tn_id = i, tn_deadline = now + delay, tn_cancelled = False\<rparr>"
  have w: "wheel_ok w" "w_current w \<le> now" using wheel_reach_ok [OF r] t by simp_all
  then have w': "wheel_ok ?w" using wheel_insert_ok [of w now delay i] t by simp
  have l: "length (w_slots w) = TUR_WHEEL_SLOTS" using w by (simp add: wheel_ok_def)
  show "count (pendings ?w) n = count (add_mset ?n (pendings w)) n"
    unfolding count_pendings [OF w'] count_add_mset count_pendings [OF w(1)]
    by (auto simp: tur_timer_wheel_insert_def Let_def nth_list_update l)
qed

lemma pendings_cancel:
  assumes "wheel_reach t w"
  shows "pendings (tur_timer_wheel_cancel i w) = {#n \<in># pendings w. tn_id n \<noteq> i#}"
proof -
  have "filter (\<lambda>n. \<not> tn_cancelled n) (map (cancel_node i) ns) = filter (\<lambda>n. tn_id n \<noteq> i) (filter (\<lambda>n. \<not> tn_cancelled n) ns)" for ns
    by (induction ns) (auto simp: cancel_node_def)
  then show ?thesis by (simp add: pendings_def tur_timer_wheel_cancel_def map_concat [symmetric] mset_filter [symmetric] del: mset_filter)
qed

text \<open>What a tick adds to the log, as a multiset, and what an insertion or a cancellation changes of it.\<close>

lemma tick_log:
  assumes "wheel_ok w"
  shows "mset (w_log (tur_timer_wheel_tick now w)) =
    mset (w_log w) + image_mset (\<lambda>n. (tn_deadline n, n)) {#n \<in># pendings w. tn_deadline n \<le> now#}"
  using tick_correct [OF assms, of now] by (auto simp: fires_def)

lemma insert_runs:
  assumes r: "wheel_reach t w" and t: "t \<le> now" "0 < delay"
  shows "mset (w_log (tur_timer_wheel_tick later (tur_timer_wheel_insert now delay i w))) = mset (w_log (tur_timer_wheel_tick later w))
    + (if now + delay \<le> later then {#(now + delay, \<lparr>tn_id = i, tn_deadline = now + delay, tn_cancelled = False\<rparr>)#} else {#})"
proof -
  have "wheel_ok (tur_timer_wheel_insert now delay i w)" "wheel_ok w"
    using wheel_reach_ok [OF r] wheel_reach_ok [OF wheel_reach.reach_insert [OF r t]] by blast+
  then show ?thesis by (simp add: tick_log pendings_insert [OF r t]) (simp add: tur_timer_wheel_insert_def Let_def)
qed

lemma cancel_runs:
  assumes r: "wheel_reach t w"
  shows "mset (w_log (tur_timer_wheel_tick later (tur_timer_wheel_cancel j w))) = mset (w_log w)
    + {#e \<in># mset (w_log (tur_timer_wheel_tick later w)) - mset (w_log w). tn_id (snd e) \<noteq> j#}"
proof -
  have "wheel_ok (tur_timer_wheel_cancel j w)" "wheel_ok w"
    using wheel_reach_ok [OF r] wheel_reach_ok [OF wheel_reach.reach_cancel [OF r]] by blast+
  moreover have "image_mset f {#n \<in># {#n \<in># M. Q n#}. P n#} = {#e \<in># image_mset f {#n \<in># M. P n#}. Q (snd e)#}"
    if "\<And>n. snd (f n) = n" for f :: "timernode \<Rightarrow> int \<times> timernode" and M P Q
    using that by (induction M) simp_all
  ultimately show ?thesis by (simp add: tick_log pendings_cancel [OF r]) (simp add: tur_timer_wheel_cancel_def)
qed

text \<open>Timers of one millisecond fire in the order they were inserted.\<close>

lemma tick_order:
  assumes "wheel_ok w" and "w_slots w ! wheel_slot (w_current w + 1) = later # earlier # rest"
    and "\<not> tn_cancelled later" "\<not> tn_cancelled earlier" "tn_deadline later = w_current w + 1" "tn_deadline earlier = w_current w + 1"
  shows "\<exists>before. w_log (tick_ms w) = before @ [(w_current w + 1, earlier), (w_current w + 1, later)]"
  using tick_ms_ok [OF assms(1)] assms(2-6) by simp

text \<open>A delay of zero waits a turn of the wheel: the slot of the present has been passed.\<close>

definition zero_delay :: "int \<Rightarrow> wheel" where
  "zero_delay now = tur_timer_wheel_insert now 0 7 (tur_timer_wheel_new now)"

lemma wheel_slot_eq: "wheel_slot (now + int k) = wheel_slot now \<longleftrightarrow> 256 dvd k"
proof -
  have "wheel_slot (now + int k) = wheel_slot now \<longleftrightarrow> (now + int k) mod 256 = now mod 256"
    by (auto simp: wheel_slot_def TUR_WHEEL_SLOTS_def nat_eq_iff2)
  also have "\<dots> \<longleftrightarrow> (256 :: int) dvd int k" by (simp add: mod_eq_dvd_iff)
  also have "\<dots> \<longleftrightarrow> 256 dvd k" by presburger
  finally show ?thesis .
qed

lemma zero_delay_steps: "k < 256 \<Longrightarrow> (tick_ms ^^ k) (zero_delay now) = (zero_delay now)\<lparr>w_current := now + int k\<rparr>"
proof (induction k)
  case 0
  then show ?case by (simp add: zero_delay_def tur_timer_wheel_insert_def tur_timer_wheel_new_def Let_def)
next
  case (Suc k)
  then have "\<not> 256 dvd Suc k" by (auto dest: dvd_imp_le)
  then have n: "wheel_slot (now + int k + 1) \<noteq> wheel_slot now" using wheel_slot_eq [of now "Suc k"] by (simp add: algebra_simps)
  have e: "w_slots (zero_delay now) ! wheel_slot (now + int k + 1) = []"
    using n wheel_slot_less by (simp add: zero_delay_def tur_timer_wheel_insert_def tur_timer_wheel_new_def Let_def)
  then have "tick_ms ((zero_delay now)\<lparr>w_current := now + int k\<rparr>) = (zero_delay now)\<lparr>w_current := now + int k + 1\<rparr>"
    using list_update_id [of "w_slots (zero_delay now)" "wheel_slot (now + int k + 1)"] by (simp add: tick_ms_def Let_def)
  then show ?case using Suc by (simp add: algebra_simps)
qed

lemma zero_delay_late:
  "w_log (tur_timer_wheel_tick (now + 255) (zero_delay now)) = [] \<and>
   w_log (tur_timer_wheel_tick (now + 256) (zero_delay now)) = [(now + 256, \<lparr>tn_id = 7, tn_deadline = now, tn_cancelled = False\<rparr>)]"
proof -
  have c: "w_current (zero_delay now) = now" "w_log (zero_delay now) = []"
    "w_slots (zero_delay now) ! wheel_slot now = [\<lparr>tn_id = 7, tn_deadline = now, tn_cancelled = False\<rparr>]"
    using wheel_slot_less by (simp_all add: zero_delay_def tur_timer_wheel_insert_def tur_timer_wheel_new_def Let_def)
  define n where "n = now + 256"
  have a: "(tick_ms ^^ 255) (zero_delay now) = (zero_delay now)\<lparr>w_current := n - 1\<rparr>" using zero_delay_steps [of 255 now] by (simp add: n_def)
  have s: "wheel_slot n = wheel_slot now" using wheel_slot_eq [of now 256] by (simp add: n_def)
  have l: "now \<le> n" by (simp add: n_def)
  have "(tick_ms ^^ 256) (zero_delay now) = tick_ms ((tick_ms ^^ 255) (zero_delay now))"
    using funpow.simps(2) [of 255 tick_ms] by simp
  also have "w_log \<dots> = [(n, \<lparr>tn_id = 7, tn_deadline = now, tn_cancelled = False\<rparr>)]"
    unfolding a using l by (simp add: tick_ms_def Let_def s c)
  finally show ?thesis using a c by (simp add: tur_timer_wheel_tick_def Let_def n_def)
qed

end
