(* ===== verification/AtomicQueue.thy ===== *)
theory AtomicQueue
  imports Prelude
begin

text \<open>
  The queue by which threads submit fibers to the scheduler (\<open>src/async/atomic_queue.c\<close>,
  \<open>atomic_queue.h\<close>): a ring of a power of two of slots, many producers, one consumer. First the
  calls as a single thread sees them, then every load, compare-and-swap and store as a step of its
  own. An item is a number, 0 the null pointer. The counters are naturals: a queue that has carried
  \<open>2 ^ 64\<close> items is outside the model. The steps interleave, and each is seen by all at once: what
  C11 allows beyond that is not modelled.
\<close>

unbundle bit_operations_syntax

section \<open>The capacity\<close>

definition smear :: "nat \<Rightarrow> 64 word \<Rightarrow> 64 word" where
  "smear w x = x OR drop_bit w x"

definition aq_round :: "64 word \<Rightarrow> 64 word" where
  "aq_round capacity =
     (let c = (if capacity < 2 then 2 else capacity) - 1
      in smear 32 (smear 16 (smear 8 (smear 4 (smear 2 (smear 1 c))))) + 1)"

lemma window_split:
  "(\<exists>m. i \<le> m \<and> m < i + 2 * w \<and> P m) \<longleftrightarrow> (\<exists>m. i \<le> m \<and> m < i + w \<and> P m) \<or> (\<exists>m. i + w \<le> m \<and> m < i + w + w \<and> P m)"
  for i w :: nat
proof
  assume "\<exists>m. i \<le> m \<and> m < i + 2 * w \<and> P m"
  then obtain m where m: "i \<le> m" "m < i + 2 * w" "P m" by blast
  show "(\<exists>m. i \<le> m \<and> m < i + w \<and> P m) \<or> (\<exists>m. i + w \<le> m \<and> m < i + w + w \<and> P m)"
  proof (cases "m < i + w")
    case False
    then have "i + w \<le> m" "m < i + w + w" using m(2) by simp_all
    then show ?thesis using m(3) by blast
  qed (use m in blast)
next
  assume "(\<exists>m. i \<le> m \<and> m < i + w \<and> P m) \<or> (\<exists>m. i + w \<le> m \<and> m < i + w + w \<and> P m)"
  then obtain m where "i \<le> m \<and> m < i + 2 * w \<and> P m" by force
  then show "\<exists>m. i \<le> m \<and> m < i + 2 * w \<and> P m" ..
qed

lemma smear_step:
  assumes "\<And>i. bit y i \<longleftrightarrow> (\<exists>m. i \<le> m \<and> m < i + w \<and> bit x m)"
  shows "bit (smear w y) i \<longleftrightarrow> (\<exists>m. i \<le> m \<and> m < i + 2 * w \<and> bit x m)"
proof -
  have "bit (smear w y) i \<longleftrightarrow> bit y i \<or> bit y (i + w)"
    by (simp add: smear_def bit_or_iff bit_drop_bit_eq add.commute)
  then show ?thesis unfolding window_split assms .
qed

lemma smear_all:
  "bit (smear 32 (smear 16 (smear 8 (smear 4 (smear 2 (smear 1 x)))))) i \<longleftrightarrow> (\<exists>m. i \<le> m \<and> m < i + 64 \<and> bit x m)"
  for x :: "64 word"
proof -
  have 0: "bit x i \<longleftrightarrow> (\<exists>m. i \<le> m \<and> m < i + 1 \<and> bit x m)" for i
    by (metis Suc_eq_plus1 less_Suc_eq_le order_antisym order_refl)
  show ?thesis
    using smear_step [OF smear_step [OF smear_step [OF smear_step [OF smear_step [OF smear_step [OF 0]]]]], of i] by simp
qed

lemma unat_lt: "unat (x :: 64 word) < 2 ^ 64"
  using unsigned_less [of x, where 'a = nat] by simp

lemma top_bit:
  fixes x :: "64 word"
  assumes "2 ^ j \<le> unat x" and "unat x < 2 ^ Suc j"
  shows "bit x m \<Longrightarrow> m \<le> j" and "bit x j" and "j < 64"
proof -
  have b: "bit x m \<longleftrightarrow> odd (unat x div 2 ^ m)" for m using bit_unsigned_iff [of x m, where 'a = nat] by (simp add: bit_iff_odd)
  have "unat x div 2 ^ j = 1" using assms by (simp add: div_nat_eqI)
  then show "bit x j" by (simp add: b)
  show "m \<le> j" if "bit x m" for m
  proof (rule ccontr)
    assume "\<not> m \<le> j"
    then have "(2::nat) ^ Suc j \<le> 2 ^ m" by (intro power_increasing) auto
    then have "unat x div 2 ^ m = 0" using assms(2) by simp
    then show False using that by (simp add: b)
  qed
  have "(2::nat) ^ j < 2 ^ 64" using assms(1) unat_lt [of x] by simp
  then show "j < 64" by (simp only: power_strict_increasing_iff)
qed

lemma smear_mask:
  fixes x :: "64 word"
  assumes "2 ^ j \<le> unat x" and "unat x < 2 ^ Suc j"
  shows "smear 32 (smear 16 (smear 8 (smear 4 (smear 2 (smear 1 x))))) = mask (Suc j)"
proof (rule bit_word_eqI)
  fix i
  assume "i < LENGTH(64)"
  then show "bit (smear 32 (smear 16 (smear 8 (smear 4 (smear 2 (smear 1 x)))))) i \<longleftrightarrow> bit (mask (Suc j) :: 64 word) i"
    unfolding smear_all bit_mask_iff using top_bit [OF assms]
    by (auto intro!: exI [of _ j] le_imp_less_Suc dest: order_trans)
qed

lemma aq_round_eq:
  fixes c :: "64 word"
  assumes "2 ^ j < max 2 (unat c)" and "max 2 (unat c) \<le> 2 ^ Suc j"
  shows "aq_round c = 2 ^ Suc j"
proof -
  let ?m = "if c < 2 then 2 else c"
  have "unat ?m = max 2 (unat c)" by (auto simp: word_less_nat_alt)
  moreover from this have "unat (?m - 1) = max 2 (unat c) - 1" by (subst unat_minus_one) auto
  moreover have "2 ^ j \<le> m - 1 \<and> m - 1 < 2 ^ Suc j" if "2 ^ j < m" "m \<le> 2 ^ Suc j" for m :: nat using that by (cases m) auto
  ultimately have "2 ^ j \<le> unat (?m - 1)" "unat (?m - 1) < 2 ^ Suc j" using assms by metis+
  then have "aq_round c = mask (Suc j) + 1" unfolding aq_round_def Let_def by (simp only: smear_mask)
  then show ?thesis by (simp add: mask_eq_exp_minus_1)
qed

text \<open>The capacity of a new queue is the least power of two that holds the request, at least two.\<close>

lemma aq_round_power:
  assumes "unat c \<le> 2 ^ 63"
  shows "\<exists>k. 1 \<le> k \<and> k \<le> 63 \<and> unat (aq_round c) = 2 ^ k \<and> max 2 (unat c) \<le> 2 ^ k \<and> (\<forall>j. max 2 (unat c) \<le> 2 ^ j \<longrightarrow> k \<le> j)"
proof -
  define k where "k = (LEAST k. max 2 (unat c) \<le> 2 ^ k)"
  have "max 2 (unat c) \<le> 2 ^ max 2 (unat c)" using less_exp [of "max 2 (unat c)"] by (rule less_imp_le)
  then have k: "max 2 (unat c) \<le> 2 ^ k" unfolding k_def by (rule LeastI)
  have le: "k \<le> j" if "max 2 (unat c) \<le> 2 ^ j" for j unfolding k_def using that by (rule Least_le)
  have "k \<noteq> 0" using k by (cases "k = 0") auto
  then obtain j where j: "k = Suc j" by (cases k) auto
  have l: "2 ^ j < max 2 (unat c)" using le [of j] j by (cases "max 2 (unat c) \<le> 2 ^ j") auto
  have k63: "k \<le> 63" using le [of 63] assms by simp
  then have "(2::nat) ^ k < 2 ^ 64" by (intro power_strict_increasing) simp_all
  then have u: "unat (2 ^ k :: 64 word) = 2 ^ k" using unat_of_nat [of "2 ^ k", where 'a = 64] by simp
  have "aq_round c = 2 ^ k" using aq_round_eq [OF l] k j by simp
  then show ?thesis using u k le j k63 by (intro exI [of _ k]) simp
qed

lemma aq_round_large:
  assumes "2 ^ 63 < unat c"
  shows "aq_round c = 0"
proof -
  have "aq_round c = 2 ^ Suc 63"
    using assms unat_lt [of c] by (intro aq_round_eq) (simp_all add: max_def)
  then show ?thesis by simp
qed

section \<open>The calls of one thread\<close>

record aqueue =
  aq_buffer :: "nat list"
  aq_capacity :: nat
  aq_mask :: nat
  aq_head :: nat
  aq_tail :: nat

definition aq_new :: "64 word \<Rightarrow> aqueue" where
  "aq_new capacity =
     (let c = aq_round capacity
      in \<lparr>aq_buffer = replicate (unat c) 0, aq_capacity = unat c, aq_mask = unat (c - 1), aq_head = 0, aq_tail = 0\<rparr>)"

text \<open>\<open>new_tail - head\<close> in \<open>size_t\<close>.\<close>

definition size_sub :: "nat \<Rightarrow> nat \<Rightarrow> nat" where
  "size_sub a b = (if b \<le> a then a - b else 2 ^ 64 - (b - a))"

definition aq_push :: "nat \<Rightarrow> aqueue \<Rightarrow> bool \<times> aqueue" where
  "aq_push item q =
     (if aq_capacity q \<le> size_sub (aq_tail q + 1) (aq_head q) then (False, q)
      else (True, q\<lparr>aq_tail := aq_tail q + 1, aq_buffer := (aq_buffer q)[aq_tail q AND aq_mask q := item]\<rparr>))"

definition aq_pop :: "aqueue \<Rightarrow> (bool \<times> nat) \<times> aqueue" where
  "aq_pop q =
     (if aq_tail q \<le> aq_head q then ((False, 0), q)
      else ((True, aq_buffer q ! (aq_head q AND aq_mask q)), q\<lparr>aq_head := aq_head q + 1\<rparr>))"

definition aq_empty :: "aqueue \<Rightarrow> bool" where
  "aq_empty q \<longleftrightarrow> aq_tail q \<le> aq_head q"

section \<open>The steps of many threads\<close>

text \<open>
  Where a producer stands: between calls; with \<open>tail\<close> read; with \<open>head\<close> read too; with the slot
  reserved and the item not yet stored. Where the consumer stands: between calls, with \<open>head\<close>
  read, with \<open>tail\<close> read, with the item read.
\<close>

datatype producer = PIdle | PTail nat nat | PHead nat nat nat | PReserved nat nat

datatype consumer = CIdle | CHead nat | CTail nat nat | CItem nat nat

text \<open>
  Beside the queue: what was reserved, in the order of the tickets, the tickets whose item was
  stored, the items handed out, and whether every item handed out had been stored when it was read.
\<close>

record aqsys =
  sy_queue :: aqueue
  sy_producer :: "nat \<Rightarrow> producer"
  sy_consumer :: consumer
  sy_reserved :: "nat list"
  sy_stored :: "nat set"
  sy_popped :: "nat list"
  sy_clean :: bool

definition aq_start :: "64 word \<Rightarrow> aqsys" where
  "aq_start capacity =
     \<lparr>sy_queue = aq_new capacity, sy_producer = (\<lambda>_. PIdle), sy_consumer = CIdle,
      sy_reserved = [], sy_stored = {}, sy_popped = [], sy_clean = True\<rparr>"

definition set_producer :: "nat \<Rightarrow> producer \<Rightarrow> aqsys \<Rightarrow> aqsys" where
  "set_producer p pc s = s\<lparr>sy_producer := (sy_producer s)(p := pc)\<rparr>"

text \<open>A call of \<open>aq_push\<close> by thread \<open>p\<close>, one access of shared memory at a time.\<close>

definition push_step :: "nat \<Rightarrow> nat \<Rightarrow> aqsys \<Rightarrow> aqsys" where
  "push_step p item s =
     (let q = sy_queue s
      in case sy_producer s p of
           PIdle \<Rightarrow> set_producer p (PTail item (aq_tail q)) s
         | PTail x tail \<Rightarrow> set_producer p (PHead x tail (aq_head q)) s
         | PHead x tail head \<Rightarrow>
             if aq_capacity q \<le> size_sub (tail + 1) head then set_producer p PIdle s
             else if aq_tail q \<noteq> tail then set_producer p PIdle s
             else set_producer p (PReserved x tail)
                    (s\<lparr>sy_queue := q\<lparr>aq_tail := tail + 1\<rparr>, sy_reserved := sy_reserved s @ [x]\<rparr>)
         | PReserved x tail \<Rightarrow>
             set_producer p PIdle
               (s\<lparr>sy_queue := q\<lparr>aq_buffer := (aq_buffer q)[tail AND aq_mask q := x]\<rparr>, sy_stored := insert tail (sy_stored s)\<rparr>))"

text \<open>A call of \<open>aq_pop\<close> by the consumer.\<close>

definition pop_step :: "aqsys \<Rightarrow> aqsys" where
  "pop_step s =
     (let q = sy_queue s
      in case sy_consumer s of
           CIdle \<Rightarrow> s\<lparr>sy_consumer := CHead (aq_head q)\<rparr>
         | CHead head \<Rightarrow> s\<lparr>sy_consumer := CTail head (aq_tail q)\<rparr>
         | CTail head tail \<Rightarrow>
             if tail \<le> head then s\<lparr>sy_consumer := CIdle\<rparr>
             else s\<lparr>sy_consumer := CItem head (aq_buffer q ! (head AND aq_mask q)), sy_clean := (sy_clean s \<and> head \<in> sy_stored s)\<rparr>
         | CItem head x \<Rightarrow>
             s\<lparr>sy_consumer := CIdle, sy_queue := q\<lparr>aq_head := head + 1\<rparr>, sy_popped := sy_popped s @ [x]\<rparr>)"

text \<open>Any number of producers and the one consumer, in any order.\<close>

inductive aq_reach :: "64 word \<Rightarrow> aqsys \<Rightarrow> bool" for capacity :: "64 word" where
  start: "aq_reach capacity (aq_start capacity)"
| push: "aq_reach capacity s \<Longrightarrow> aq_reach capacity (push_step p item s)"
| pop: "aq_reach capacity s \<Longrightarrow> aq_reach capacity (pop_step s)"

section \<open>Slots\<close>

lemma slot_of_mask: "(t :: nat) AND (2 ^ k - Suc 0) = t mod 2 ^ k"
  using take_bit_eq_mask [of k t] by (simp add: mask_eq_exp_minus_1 take_bit_eq_mod)

lemma mod_window:
  assumes "t mod m = t' mod m" and "lo \<le> t" "t < lo + m" "lo \<le> t'" "t' < lo + m"
  shows "t = (t' :: nat)"
proof -
  have "a = b" if "a mod m = b mod m" "a \<le> b" "lo \<le> a" "b < lo + m" for a b :: nat
  proof (rule ccontr)
    assume "a \<noteq> b"
    have "m dvd b - a" using mod_eq_dvd_iff_nat [of a b m] that(1,2) by simp
    then have "m \<le> b - a" using \<open>a \<noteq> b\<close> that(2) by (intro dvd_imp_le) simp_all
    then show False using that by simp
  qed
  then show ?thesis using assms by (metis nat_le_linear)
qed

section \<open>The invariant\<close>

definition queue_ok :: "nat \<Rightarrow> aqueue \<Rightarrow> bool" where
  "queue_ok k q \<longleftrightarrow> 1 \<le> k \<and> k \<le> 63 \<and> aq_capacity q = 2 ^ k \<and> aq_mask q = 2 ^ k - 1 \<and> length (aq_buffer q) = 2 ^ k
     \<and> aq_head q \<le> aq_tail q \<and> aq_tail q < aq_head q + 2 ^ k"

fun producer_ok :: "aqueue \<Rightarrow> nat list \<Rightarrow> nat set \<Rightarrow> producer \<Rightarrow> bool" where
  "producer_ok q rs st PIdle \<longleftrightarrow> True"
| "producer_ok q rs st (PTail x t) \<longleftrightarrow> t \<le> aq_tail q"
| "producer_ok q rs st (PHead x t h) \<longleftrightarrow> t \<le> aq_tail q \<and> h \<le> aq_head q"
| "producer_ok q rs st (PReserved x t) \<longleftrightarrow> t < aq_tail q \<and> rs ! t = x \<and> t \<notin> st"

fun consumer_ok :: "aqueue \<Rightarrow> bool \<Rightarrow> nat list \<Rightarrow> nat set \<Rightarrow> consumer \<Rightarrow> bool" where
  "consumer_ok q clean rs st CIdle \<longleftrightarrow> True"
| "consumer_ok q clean rs st (CHead h) \<longleftrightarrow> h = aq_head q"
| "consumer_ok q clean rs st (CTail h t) \<longleftrightarrow> h = aq_head q \<and> t \<le> aq_tail q"
| "consumer_ok q clean rs st (CItem h x) \<longleftrightarrow> h = aq_head q \<and> h < aq_tail q \<and> (clean \<longrightarrow> h \<in> st \<and> x = rs ! h)"

definition clean_ok :: "nat \<Rightarrow> aqsys \<Rightarrow> bool" where
  "clean_ok k s \<longleftrightarrow> (sy_clean s \<longrightarrow>
     sy_popped s = take (aq_head (sy_queue s)) (sy_reserved s) \<and> {..<aq_head (sy_queue s)} \<subseteq> sy_stored s \<and>
     (\<forall>t\<in>sy_stored s. aq_head (sy_queue s) \<le> t \<longrightarrow> aq_buffer (sy_queue s) ! (t mod 2 ^ k) = sy_reserved s ! t))"

definition covered :: "nat \<Rightarrow> nat set \<Rightarrow> (nat \<Rightarrow> producer) \<Rightarrow> bool" where
  "covered n st pcs \<longleftrightarrow> (\<forall>t<n. t \<in> st \<or> (\<exists>p x. pcs p = PReserved x t))"

definition owners :: "(nat \<Rightarrow> producer) \<Rightarrow> bool" where
  "owners pcs \<longleftrightarrow> (\<forall>p p' x x' t. pcs p = PReserved x t \<longrightarrow> pcs p' = PReserved x' t \<longrightarrow> p = p')"

definition sys_ok :: "nat \<Rightarrow> aqsys \<Rightarrow> bool" where
  "sys_ok k s \<longleftrightarrow> queue_ok k (sy_queue s)
     \<and> length (sy_reserved s) = aq_tail (sy_queue s) \<and> length (sy_popped s) = aq_head (sy_queue s)
     \<and> sy_stored s \<subseteq> {..<aq_tail (sy_queue s)}
     \<and> covered (aq_tail (sy_queue s)) (sy_stored s) (sy_producer s) \<and> owners (sy_producer s)
     \<and> (\<forall>p. producer_ok (sy_queue s) (sy_reserved s) (sy_stored s) (sy_producer s p))
     \<and> consumer_ok (sy_queue s) (sy_clean s) (sy_reserved s) (sy_stored s) (sy_consumer s) \<and> clean_ok k s"

lemma aq_new_ok:
  assumes "unat c \<le> 2 ^ 63"
  shows "\<exists>k. queue_ok k (aq_new c) \<and> max 2 (unat c) \<le> 2 ^ k"
proof -
  obtain k where k: "1 \<le> k" "k \<le> 63" "unat (aq_round c) = 2 ^ k" "max 2 (unat c) \<le> 2 ^ k" using aq_round_power [OF assms] by blast
  have "aq_round c \<noteq> 0" using k(3) by (intro notI) simp
  then have "unat (aq_round c - 1) = 2 ^ k - 1" using k(3) by (simp add: unat_minus_one)
  then show ?thesis using k by (intro exI [of _ k]) (simp add: queue_ok_def aq_new_def Let_def)
qed

lemma aq_start_ok: "queue_ok k (aq_new c) \<Longrightarrow> sys_ok k (aq_start c)"
  by (simp add: sys_ok_def aq_start_def clean_ok_def aq_new_def Let_def covered_def owners_def)

lemma producer_ok_head:
  "producer_ok q rs st pc \<Longrightarrow> producer_ok (q\<lparr>aq_head := Suc (aq_head q)\<rparr>) rs st pc"
  by (cases pc) auto

lemma pop_step_ok:
  assumes s: "sys_ok k s"
  shows "sys_ok k (pop_step s)"
proof (cases "sy_consumer s")
  case CIdle
  then show ?thesis using s by (simp add: pop_step_def Let_def sys_ok_def clean_ok_def)
next
  case (CHead h)
  then show ?thesis using s by (simp add: pop_step_def Let_def sys_ok_def clean_ok_def)
next
  case (CTail h t)
  then show ?thesis
    using s by (auto simp: pop_step_def Let_def sys_ok_def clean_ok_def queue_ok_def slot_of_mask)
next
  case (CItem h x)
  have "take (Suc h) (sy_reserved s) = take h (sy_reserved s) @ [sy_reserved s ! h]" if "h < length (sy_reserved s)"
    using that by (rule take_Suc_conv_app_nth)
  with CItem s show ?thesis
    by (auto simp: pop_step_def Let_def sys_ok_def clean_ok_def queue_ok_def lessThan_Suc producer_ok_head)
qed

lemma producer_ok_tail:
  "producer_ok q rs st pc \<Longrightarrow> length rs = aq_tail q \<Longrightarrow> producer_ok (q\<lparr>aq_tail := Suc (aq_tail q)\<rparr>) (rs @ [x]) st pc"
  by (cases pc) (auto simp: nth_append)

lemma consumer_ok_tail:
  "consumer_ok q clean rs st pc \<Longrightarrow> length rs = aq_tail q \<Longrightarrow> consumer_ok (q\<lparr>aq_tail := Suc (aq_tail q)\<rparr>) clean (rs @ [x]) st pc"
  by (cases pc) (auto simp: nth_append)

lemma consumer_ok_store:
  "consumer_ok q clean rs st pc \<Longrightarrow> consumer_ok (q\<lparr>aq_buffer := b\<rparr>) clean rs (insert t st) pc"
  by (cases pc) auto

lemma producer_ok_store:
  "producer_ok q rs st pc \<Longrightarrow> (\<And>x. pc \<noteq> PReserved x t) \<Longrightarrow> producer_ok (q\<lparr>aq_buffer := b\<rparr>) rs (insert t st) pc"
  by (cases pc) auto

lemma size_sub_room: "h \<le> t \<Longrightarrow> \<not> c \<le> size_sub (t + 1) h \<Longrightarrow> t + 1 < h + c"
  by (simp add: size_sub_def)

lemma covered_idle: "covered n st pcs \<Longrightarrow> (\<And>x t. pcs p \<noteq> PReserved x t) \<Longrightarrow> covered n st (pcs(p := pc))"
  unfolding covered_def by (metis fun_upd_other)

lemma covered_reserve: "covered n st pcs \<Longrightarrow> (\<And>x t. pcs p \<noteq> PReserved x t) \<Longrightarrow> covered (Suc n) st (pcs(p := PReserved x n))"
  unfolding covered_def by (metis fun_upd_other fun_upd_same less_SucE)

lemma covered_store: "covered n st pcs \<Longrightarrow> pcs p = PReserved x t \<Longrightarrow> covered n (insert t st) (pcs(p := pc))"
  unfolding covered_def by (metis fun_upd_other insert_iff producer.inject(3))

lemma owners_idle: "owners pcs \<Longrightarrow> (\<And>x t. pc \<noteq> PReserved x t) \<Longrightarrow> owners (pcs(p := pc))"
  unfolding owners_def by (metis fun_upd_apply)

lemma owners_reserve: "owners pcs \<Longrightarrow> (\<And>p x. pcs p \<noteq> PReserved x n) \<Longrightarrow> owners (pcs(p := PReserved y n))"
  unfolding owners_def by (metis fun_upd_apply producer.inject(3))

lemma set_producer_ok:
  assumes "sys_ok k s" and "producer_ok (sy_queue s) (sy_reserved s) (sy_stored s) pc" and "\<And>x t. pc \<noteq> PReserved x t"
    and "\<And>x t. sy_producer s p \<noteq> PReserved x t"
  shows "sys_ok k (set_producer p pc s)"
  using assms by (simp add: sys_ok_def set_producer_def clean_ok_def covered_idle owners_idle)

lemma reserve_ok:
  assumes s: "sys_ok k s" and p: "sy_producer s p = PHead x (aq_tail (sy_queue s)) h"
    and room: "\<not> aq_capacity (sy_queue s) \<le> size_sub (aq_tail (sy_queue s) + 1) h"
  shows "sys_ok k (set_producer p (PReserved x (aq_tail (sy_queue s)))
    (s\<lparr>sy_queue := (sy_queue s)\<lparr>aq_tail := aq_tail (sy_queue s) + 1\<rparr>, sy_reserved := sy_reserved s @ [x]\<rparr>))"
    (is "sys_ok k ?s")
proof -
  let ?q = "sy_queue s" and ?t = "aq_tail (sy_queue s)"
  have q: "queue_ok k ?q" and l: "length (sy_reserved s) = ?t" "length (sy_popped s) = aq_head ?q" and st: "sy_stored s \<subseteq> {..<?t}"
    and po: "\<And>p. producer_ok ?q (sy_reserved s) (sy_stored s) (sy_producer s p)"
    and co: "consumer_ok ?q (sy_clean s) (sy_reserved s) (sy_stored s) (sy_consumer s)" and cl: "clean_ok k s"
    and c: "covered ?t (sy_stored s) (sy_producer s)" and o: "owners (sy_producer s)"
    using s by (simp_all add: sys_ok_def)
  have h: "h \<le> aq_head ?q" using po [of p] p by simp
  have "queue_ok k (sy_queue ?s)"
    using q h size_sub_room [OF _ room] by (simp add: queue_ok_def set_producer_def)
  moreover have "clean_ok k ?s"
    using cl l q st by (auto simp: clean_ok_def set_producer_def nth_append queue_ok_def)
  moreover have "sy_producer s p' \<noteq> PReserved y ?t" for p' y using po [of p'] by (cases "sy_producer s p'") auto
  then have "owners (sy_producer ?s)" using owners_reserve [OF o] by (simp add: set_producer_def)
  moreover have "covered (Suc ?t) (sy_stored s) (sy_producer ?s)" using covered_reserve [OF c, of p x] p by (simp add: set_producer_def)
  moreover have "producer_ok (sy_queue ?s) (sy_reserved ?s) (sy_stored ?s) (sy_producer ?s p')" for p'
    using producer_ok_tail [OF po [of p'] l(1)] l st by (auto simp: set_producer_def nth_append)
  ultimately show ?thesis using l st consumer_ok_tail [OF co l(1)]
    by (auto simp: sys_ok_def set_producer_def)
qed

lemma store_ok:
  assumes s: "sys_ok k s" and p: "sy_producer s p = PReserved x t"
  shows "sys_ok k (set_producer p PIdle
    (s\<lparr>sy_queue := (sy_queue s)\<lparr>aq_buffer := (aq_buffer (sy_queue s))[t AND aq_mask (sy_queue s) := x]\<rparr>, sy_stored := insert t (sy_stored s)\<rparr>))"
    (is "sys_ok k ?s")
proof -
  let ?q = "sy_queue s"
  have q: "queue_ok k ?q" and l: "length (sy_reserved s) = aq_tail ?q" and st: "sy_stored s \<subseteq> {..<aq_tail ?q}"
    and po: "\<And>p. producer_ok ?q (sy_reserved s) (sy_stored s) (sy_producer s p)"
    and co: "consumer_ok ?q (sy_clean s) (sy_reserved s) (sy_stored s) (sy_consumer s)" and cl: "clean_ok k s"
    and own: "\<And>p' x'. sy_producer s p' = PReserved x' t \<Longrightarrow> p' = p"
    using s p unfolding sys_ok_def owners_def by blast+
  have c: "covered (aq_tail ?q) (sy_stored s) (sy_producer s)" and o: "owners (sy_producer s)"
    and lp: "length (sy_popped s) = aq_head ?q" using s by (simp_all add: sys_ok_def)
  have t: "t < aq_tail ?q" "sy_reserved s ! t = x" "t \<notin> sy_stored s" using po [of p] p by simp_all
  have "clean_ok k ?s"
    unfolding clean_ok_def
  proof (intro impI conjI ballI)
    assume c: "sy_clean ?s"
    then have c': "sy_popped s = take (aq_head ?q) (sy_reserved s)" "{..<aq_head ?q} \<subseteq> sy_stored s"
      "\<And>u. u \<in> sy_stored s \<Longrightarrow> aq_head ?q \<le> u \<Longrightarrow> aq_buffer ?q ! (u mod 2 ^ k) = sy_reserved s ! u"
      using cl by (auto simp: clean_ok_def set_producer_def)
    then show "sy_popped ?s = take (aq_head (sy_queue ?s)) (sy_reserved ?s)" "{..<aq_head (sy_queue ?s)} \<subseteq> sy_stored ?s"
      by (auto simp: set_producer_def)
    have h: "aq_head ?q \<le> t" using c'(2) t(3) by (meson lessThan_iff not_le subsetD)
    fix u
    assume u: "u \<in> sy_stored ?s" "aq_head (sy_queue ?s) \<le> u"
    then have "aq_head ?q \<le> u" "u < aq_tail ?q" using st t(1) by (auto simp: set_producer_def)
    then have "u mod 2 ^ k = t mod 2 ^ k \<longleftrightarrow> u = t"
      using mod_window [of u "2 ^ k" t "aq_head ?q"] h t(1) q by (auto simp: queue_ok_def)
    then show "aq_buffer (sy_queue ?s) ! (u mod 2 ^ k) = sy_reserved ?s ! u"
      using u c'(3) t(2) q by (auto simp: set_producer_def queue_ok_def slot_of_mask nth_list_update)
  qed
  moreover have "producer_ok (sy_queue ?s) (sy_reserved ?s) (sy_stored ?s) (sy_producer ?s p')" for p'
    using producer_ok_store [OF po [of p'], of t] own by (auto simp: set_producer_def)
  moreover have "queue_ok k (sy_queue ?s)" using q by (simp add: queue_ok_def set_producer_def)
  ultimately show ?thesis using l lp t(1) st consumer_ok_store [OF co] covered_store [OF c p] owners_idle [OF o]
    by (simp add: sys_ok_def set_producer_def)
qed

lemma push_step_ok:
  assumes s: "sys_ok k s"
  shows "sys_ok k (push_step p item s)"
proof -
  have po: "producer_ok (sy_queue s) (sy_reserved s) (sy_stored s) (sy_producer s p)" using s by (simp add: sys_ok_def)
  show ?thesis
    using po reserve_ok [OF s] store_ok [OF s] set_producer_ok [OF s, of _ p]
    by (cases "sy_producer s p") (auto simp: push_step_def Let_def)
qed

lemma reach_ok:
  assumes "aq_reach c s" and "unat c \<le> 2 ^ 63"
  shows "\<exists>k. sys_ok k s \<and> max 2 (unat c) \<le> 2 ^ k"
proof -
  obtain k where k: "queue_ok k (aq_new c)" "max 2 (unat c) \<le> 2 ^ k" using aq_new_ok [OF assms(2)] by blast
  from assms(1) have "sys_ok k s"
    by induction (simp_all add: aq_start_ok [OF k(1)] push_step_ok pop_step_ok)
  then show ?thesis using k(2) by blast
qed

section \<open>What the invariant gives\<close>

lemma reach_bounds:
  assumes "aq_reach c s" and "unat c \<le> 2 ^ 63"
  shows "aq_head (sy_queue s) \<le> aq_tail (sy_queue s) \<and> aq_tail (sy_queue s) - aq_head (sy_queue s) < aq_capacity (sy_queue s)
    \<and> length (aq_buffer (sy_queue s)) = aq_capacity (sy_queue s) \<and> length (sy_popped s) = aq_head (sy_queue s)"
  using reach_ok [OF assms] by (auto simp: sys_ok_def queue_ok_def)

lemma reach_fifo:
  assumes "aq_reach c s" and "unat c \<le> 2 ^ 63" and "sy_clean s"
  shows "\<exists>waiting. sy_reserved s = sy_popped s @ waiting \<and> length waiting = aq_tail (sy_queue s) - aq_head (sy_queue s)"
proof -
  obtain k where k: "sys_ok k s" using reach_ok [OF assms(1,2)] by blast
  then have "sy_popped s = take (aq_head (sy_queue s)) (sy_reserved s)" "length (sy_reserved s) = aq_tail (sy_queue s)"
    using assms(3) by (simp_all add: sys_ok_def clean_ok_def)
  then show ?thesis by (intro exI [of _ "drop (aq_head (sy_queue s)) (sy_reserved s)"]) simp
qed

text \<open>A run stays clean as long as the consumer reads an item only when no producer holds a slot.\<close>

lemma pop_stays_clean:
  assumes "aq_reach c s" and "unat c \<le> 2 ^ 63" and "sy_clean s" and "\<And>p x t. sy_producer s p \<noteq> PReserved x t"
  shows "sy_clean (pop_step s)"
proof -
  obtain k where k: "sys_ok k s" using reach_ok [OF assms(1,2)] by blast
  have "h \<in> sy_stored s" if "sy_consumer s = CTail h t" "\<not> t \<le> h" for h t
  proof -
    have "h < aq_tail (sy_queue s)" using k that by (auto simp: sys_ok_def)
    then show ?thesis using k assms(4) unfolding sys_ok_def covered_def by blast
  qed
  then show ?thesis using assms(3) by (auto simp: pop_step_def Let_def split: consumer.split)
qed

lemma push_stays_clean: "sy_clean (push_step p x s) = sy_clean s"
  by (auto simp: push_step_def Let_def set_producer_def split: producer.split)

text \<open>
  A compare-and-swap fails only because another producer won: the queue has moved on since this one
  read it.
\<close>

lemma cas_lost:
  assumes "aq_reach c s" and "unat c \<le> 2 ^ 63" and "sy_producer s p = PHead x t h" and "aq_tail (sy_queue s) \<noteq> t"
  shows "t < length (sy_reserved s)"
proof -
  obtain k where k: "sys_ok k s" using reach_ok [OF assms(1,2)] by blast
  then have "producer_ok (sy_queue s) (sy_reserved s) (sy_stored s) (sy_producer s p)" by (simp add: sys_ok_def)
  then show ?thesis using k assms(3,4) by (simp add: sys_ok_def)
qed

section \<open>A thread alone\<close>

lemma push_alone:
  assumes "sy_producer s p = PIdle"
  shows "sy_queue ((push_step p x ^^ (if fst (aq_push x (sy_queue s)) then 4 else 3)) s) = snd (aq_push x (sy_queue s))
    \<and> sy_producer ((push_step p x ^^ (if fst (aq_push x (sy_queue s)) then 4 else 3)) s) = sy_producer s"
  using assms by (auto simp: push_step_def aq_push_def Let_def set_producer_def numeral_eq_Suc fun_eq_iff)

lemma pop_alone:
  assumes "sy_consumer s = CIdle"
  shows "sy_queue ((pop_step ^^ (if aq_empty (sy_queue s) then 3 else 4)) s) = snd (aq_pop (sy_queue s))
    \<and> sy_popped ((pop_step ^^ (if aq_empty (sy_queue s) then 3 else 4)) s) =
       sy_popped s @ (if fst (fst (aq_pop (sy_queue s))) then [snd (fst (aq_pop (sy_queue s)))] else [])"
  using assms by (auto simp: pop_step_def aq_pop_def aq_empty_def Let_def numeral_eq_Suc)

section \<open>One thread: a bounded queue\<close>

text \<open>The contract a caller of one thread relies on: a list of items with a limit.\<close>

datatype qcall = Push nat | Pop

fun run_calls :: "(nat \<Rightarrow> 'q \<Rightarrow> bool \<times> 'q) \<Rightarrow> ('q \<Rightarrow> (bool \<times> nat) \<times> 'q) \<Rightarrow> qcall list \<Rightarrow> 'q \<Rightarrow> (bool \<times> nat) list \<times> 'q" where
  "run_calls enq deq [] q = ([], q)"
| "run_calls enq deq (Push x # cs) q = (let (b, q') = enq x q; (rs, q'') = run_calls enq deq cs q' in ((b, x) # rs, q''))"
| "run_calls enq deq (Pop # cs) q = (let (r, q') = deq q; (rs, q'') = run_calls enq deq cs q' in (r # rs, q''))"

definition list_enq :: "nat \<Rightarrow> nat \<Rightarrow> nat list \<Rightarrow> bool \<times> nat list" where
  "list_enq limit x xs = (if length xs < limit then (True, xs @ [x]) else (False, xs))"

fun list_deq :: "nat list \<Rightarrow> (bool \<times> nat) \<times> nat list" where
  "list_deq [] = ((False, 0), [])"
| "list_deq (x # xs) = ((True, x), xs)"

locale bounded_queue =
  fixes enq :: "nat \<Rightarrow> 'q \<Rightarrow> bool \<times> 'q" and deq :: "'q \<Rightarrow> (bool \<times> nat) \<times> 'q"
    and items :: "'q \<Rightarrow> nat list" and ok :: "'q \<Rightarrow> bool" and limit :: nat
  assumes enq_spec: "ok q \<Longrightarrow> ok (snd (enq x q)) \<and> (fst (enq x q), items (snd (enq x q))) = list_enq limit x (items q)"
    and deq_spec: "ok q \<Longrightarrow> ok (snd (deq q)) \<and> (fst (deq q), items (snd (deq q))) = list_deq (items q)"
begin

lemma calls_spec:
  "ok q \<Longrightarrow> ok (snd (run_calls enq deq cs q)) \<and>
    (fst (run_calls enq deq cs q), items (snd (run_calls enq deq cs q))) = run_calls (list_enq limit) list_deq cs (items q)"
proof (induction cs arbitrary: q)
  case (Cons c cs)
  show ?case
  proof (cases c)
    case (Push x)
    obtain b q' where e: "enq x q = (b, q')" by (cases "enq x q")
    then have "ok q'" "list_enq limit x (items q) = (b, items q')" using enq_spec [OF Cons.prems, of x] by simp_all
    then show ?thesis using Cons.IH [of q'] Push e by (auto simp: split_def prod_eq_iff Let_def)
  next
    case Pop
    obtain r q' where e: "deq q = (r, q')" by (cases "deq q")
    then have "ok q'" "list_deq (items q) = (r, items q')" using deq_spec [OF Cons.prems] by simp_all
    then show ?thesis using Cons.IH [of q'] Pop e by (auto simp: split_def prod_eq_iff Let_def)
  qed
qed simp

lemma items_bounded: "ok q \<Longrightarrow> length (items q) \<le> limit \<Longrightarrow> length (items (snd (enq x q))) \<le> limit"
  using enq_spec [of q x] by (auto simp: list_enq_def split: if_splits)

end

definition aq_items :: "aqueue \<Rightarrow> nat list" where
  "aq_items q = map (\<lambda>t. aq_buffer q ! (t AND aq_mask q)) [aq_head q..<aq_tail q]"

lemma push_spec:
  assumes q: "queue_ok k q"
  shows "queue_ok k (snd (aq_push x q)) \<and> (fst (aq_push x q), aq_items (snd (aq_push x q))) = list_enq (2 ^ k - 1) x (aq_items q)"
proof (cases "2 ^ k \<le> aq_tail q + 1 - aq_head q")
  case True
  then show ?thesis using q by (simp add: aq_push_def size_sub_def queue_ok_def list_enq_def aq_items_def)
next
  case False
  let ?b = "(aq_buffer q)[aq_tail q mod 2 ^ k := x]"
  have "?b ! (t mod 2 ^ k) = aq_buffer q ! (t mod 2 ^ k)" if "aq_head q \<le> t" "t < aq_tail q" for t
    using mod_window [of t "2 ^ k" "aq_tail q" "aq_head q"] that q by (auto simp: queue_ok_def nth_list_update)
  then have "map (\<lambda>t. ?b ! (t mod 2 ^ k)) [aq_head q..<aq_tail q] = map (\<lambda>t. aq_buffer q ! (t mod 2 ^ k)) [aq_head q..<aq_tail q]" by simp
  then show ?thesis
    using False q by (auto simp: aq_push_def size_sub_def queue_ok_def list_enq_def aq_items_def slot_of_mask)
qed

lemma pop_spec:
  assumes q: "queue_ok k q"
  shows "queue_ok k (snd (aq_pop q)) \<and> (fst (aq_pop q), aq_items (snd (aq_pop q))) = list_deq (aq_items q)"
  using q by (auto simp: aq_pop_def queue_ok_def aq_items_def upt_conv_Cons)

interpretation ring: bounded_queue aq_push aq_pop aq_items "queue_ok k" "2 ^ k - 1" for k
  by unfold_locales (simp_all add: push_spec pop_spec)

text \<open>Any calls of one thread on a new queue answer as the list does.\<close>

lemma calls_fifo:
  assumes "unat c \<le> 2 ^ 63"
  shows "\<exists>k. max 2 (unat c) \<le> 2 ^ k \<and> aq_capacity (aq_new c) = 2 ^ k
    \<and> fst (run_calls aq_push aq_pop cs (aq_new c)) = fst (run_calls (list_enq (2 ^ k - 1)) list_deq cs [])"
proof -
  obtain k where k: "queue_ok k (aq_new c)" "max 2 (unat c) \<le> 2 ^ k" using aq_new_ok [OF assms] by blast
  have "aq_items (aq_new c) = []" by (simp add: aq_items_def aq_new_def Let_def)
  then have "fst (run_calls aq_push aq_pop cs (aq_new c)) = fst (run_calls (list_enq (2 ^ k - 1)) list_deq cs [])"
    using ring.calls_spec [OF k(1), of cs] by (metis fst_conv)
  then show ?thesis using k by (intro exI [of _ k]) (simp add: queue_ok_def)
qed

section \<open>A slot read too early\<close>

text \<open>
  Two threads: 1 reserves slot 0 for item 5; the consumer pops, with success, what the slot held
  before; 1 stores its item, which is never handed out.
\<close>

definition early_pop :: aqsys where
  "early_pop = push_step 1 5 ((pop_step ^^ 4) ((push_step 1 5 ^^ 3) (aq_start 4)))"

lemma reach_pops: "aq_reach c s \<Longrightarrow> aq_reach c ((pop_step ^^ n) s)"
  by (induction n) (simp_all add: aq_reach.pop)

lemma reach_pushes: "aq_reach c s \<Longrightarrow> aq_reach c ((push_step p x ^^ n) s)"
  by (induction n) (simp_all add: aq_reach.push)

lemma early_pop_reach: "aq_reach 4 early_pop"
  unfolding early_pop_def by (intro aq_reach.push reach_pops reach_pushes aq_reach.start)

lemma early_pop_value:
  "sy_reserved early_pop = [5] \<and> sy_popped early_pop = [0] \<and> aq_empty (sy_queue early_pop)"
  by code_simp

end
