(* ===== verification/RuntimeProps.thy ===== *)
theory RuntimeProps
  imports RtTrailUse TimerWheel AtomicQueue TrailC
begin

text \<open>The properties of the runtime: its trail, its timers, its queue; and of the compiler's trail.\<close>

section \<open>The runtime's trail\<close>

text \<open>
  C26: undoing to a mark, after any writes, marks and inner undos that no pause hid, succeeds and
  gives each cell whose stamp at the mark was not above the number of levels then open its payload,
  stamp and binding of then. Above it is only the stamp of a cell made or written inside a level
  that was committed since: such a cell is not restored (\<open>born_inside_value\<close>).
\<close>

theorem trail_undo_restores:
  assumes "tur_trail_mark alloc s0 = (m, s1)" and "tm_level m \<noteq> 0" and "\<forall>i\<in>D. bc_stamp (rt_cells s0 i) \<le> length (rt_levels s0)"
    and "rt_reach alloc D (tm_level m) s1 s2"
  shows "\<exists>s3. tur_trail_undo_to s2 m = (True, s3) \<and> rt_levels s3 = rt_levels s0 \<and> rt_trail s3 = rt_trail s0
    \<and> (\<forall>i\<in>D. cell_state (rt_cells s3 i) = cell_state (rt_cells s0 i))"
  using assms by (rule rt_undo_restores)

definition one_mark :: "tmark \<times> rtrail" where
  "one_mark = tur_trail_mark (\<lambda>_. True) rt_empty"

lemma one_mark_eq: "tur_trail_mark (\<lambda>_. True) rt_empty = (\<lparr>tm_level = 1, tm_generation = 2\<rparr>, snd one_mark)"
  by (simp add: one_mark_def tur_trail_mark_def levels_grow_def rt_empty_def)

theorem trail_undo_restores_witness:
  "\<exists>s3. tur_trail_undo_to (set_cell 4 11 (snd one_mark)) \<lparr>tm_level = 1, tm_generation = 2\<rparr> = (True, s3) \<and> bc_payload (rt_cells s3 4) = 0"
proof -
  have p: "rt_pause (snd one_mark) = 0" by code_simp
  have r: "rt_reach (\<lambda>_. True) {4} 1 (snd one_mark) (set_cell 4 11 (snd one_mark))"
    using rt_reach.reach_set [OF rt_reach.reach_refl disjI2 [OF p] prod.collapse [symmetric], of "\<lambda>_. True" "{4}" 1 4 11]
    by (simp add: set_cell_def)
  have s: "\<forall>i\<in>{4}. bc_stamp (rt_cells rt_empty i) \<le> length (rt_levels rt_empty)" by (simp add: rt_empty_def)
  obtain s3 where u: "tur_trail_undo_to (set_cell 4 11 (snd one_mark)) \<lparr>tm_level = 1, tm_generation = 2\<rparr> = (True, s3)"
    and c: "cell_state (rt_cells s3 4) = cell_state (rt_cells rt_empty 4)"
    using trail_undo_restores [OF one_mark_eq _ s] r by auto
  then show ?thesis by (intro exI [of _ s3]) (simp add: cell_state_def rt_empty_def)
qed

text \<open>
  C27: a mark whose level has been left, by an undo or a commit, is refused by both from then on,
  and the refusal changes nothing, as long as fewer than \<open>2 ^ 32\<close> marks were taken meanwhile.
\<close>

theorem left_mark_refused:
  assumes "tur_trail_mark alloc s0 = (m, s1)" and "tm_level m \<noteq> 0" and "rt_steps alloc n1 s1 s2"
    and "length (rt_levels s2) < tm_level m" and "rt_steps alloc n2 s2 s3" and "n1 + n2 < 2 ^ 32"
  shows "tur_trail_undo_to s3 m = (False, s3) \<and> tur_trail_commit_to s3 m = (False, s3)"
  using assms by (rule stale_mark_refused)

definition left_once :: rtrail where
  "left_once = snd (tur_trail_undo_to (snd one_mark) \<lparr>tm_level = 1, tm_generation = 2\<rparr>)"

theorem left_mark_refused_witness:
  "tur_trail_undo_to left_once \<lparr>tm_level = 1, tm_generation = 2\<rparr> = (False, left_once)"
proof -
  have a: "rt_steps (\<lambda>_. True) 0 (snd one_mark) left_once"
    unfolding left_once_def using rt_steps.steps_undo [OF rt_steps.steps_refl prod.collapse [symmetric]] .
  have "length (rt_levels left_once) = 0" by code_simp
  then show ?thesis using left_mark_refused [OF one_mark_eq _ a _ rt_steps.steps_refl] by simp
qed

text \<open>
  C28: no reference is released twice: what the drop hook of a cell was called with, and what the
  cell holds now, are together no more than what it started with and what its writes handed over.
\<close>

theorem references_released_once:
  assumes "owned_run alloc i s gs t" and "bc_drop (rt_cells s i)" and "\<forall>e\<in>set (rt_trail s). te_cell e \<noteq> i" and "released i s = {#}"
  shows "released i t + given (bc_payload (rt_cells t i)) \<subseteq># given (bc_payload (rt_cells s i)) + gs"
  using assms by (rule owned_released)

theorem references_released_once_witness:
  "released 0 (set_cell 0 5 (tur_bt_cell_init 0 3 None True rt_empty)) \<subseteq># {#3, 5#}"
proof -
  let ?s = "tur_bt_cell_init 0 3 None True rt_empty"
  have r: "owned_run (\<lambda>_. True) 0 ?s (if fst (tur_bt_set (\<lambda>_. True) 0 5 ?s) \<and> 0 = (0::nat) then {#} + given 5 else {#}) (set_cell 0 5 ?s)"
    unfolding set_cell_def by (rule owned_run.owned_set [OF owned_run.owned_refl]) simp
  have "fst (tur_bt_set (\<lambda>_. True) 0 5 ?s)" "bc_drop (rt_cells ?s 0)" "bc_payload (rt_cells ?s 0) = 3" by code_simp+
  moreover have "rt_trail ?s = []" "rt_drops ?s = []" by code_simp+
  ultimately have "released 0 (set_cell 0 5 ?s) + given (bc_payload (rt_cells (set_cell 0 5 ?s) 0)) \<subseteq># given 3 + given 5"
    using references_released_once [OF r] by (simp add: released_def)
  then have "released 0 (set_cell 0 5 ?s) \<subseteq># given 3 + given 5" by (rule subset_mset.order_trans [OF mset_subset_eq_add_left])
  then show ?thesis by (simp add: given_def add_mset_commute)
qed

text \<open>A level records one entry per cell: after a write that succeeded unpaused, no further writes to the cell record anything.\<close>

theorem one_entry_per_level:
  assumes "tur_bt_set alloc i v t = (True, t')" and "rt_pause t = 0"
  shows "rt_trail (write_all alloc i vs t') = rt_trail t' \<and> length (rt_trail t') \<le> length (rt_trail t) + 1"
  using assms by (rule write_once_per_level)

theorem one_entry_per_level_witness:
  "rt_trail (write_all (\<lambda>_. True) 0 [4, 5] (set_cell 0 3 (snd one_mark))) = rt_trail (set_cell 0 3 (snd one_mark))"
proof -
  have "tur_bt_set (\<lambda>_. True) 0 3 (snd one_mark) = (True, set_cell 0 3 (snd one_mark))"
    unfolding set_cell_def by (rule prod_eqI) (simp, code_simp, simp)
  moreover have "rt_pause (snd one_mark) = 0" by code_simp
  ultimately show ?thesis using one_entry_per_level by blast
qed

text \<open>A commit keeps every value, drops the level and those above it, and ends the mark.\<close>

theorem commit_promotes:
  assumes "tur_trail_commit_to t m = (True, t')"
  shows "bc_payload (rt_cells t' i) = bc_payload (rt_cells t i) \<and> bc_bound (rt_cells t' i) = bc_bound (rt_cells t i)
    \<and> rt_levels t' = take (tm_level m - 1) (rt_levels t) \<and> \<not> mark_is_live t' m"
  using assms by (rule commit_keeps)

theorem commit_promotes_witness:
  "bc_payload (rt_cells (snd (tur_trail_commit_to (set_cell 0 3 (snd one_mark)) \<lparr>tm_level = 1, tm_generation = 2\<rparr>)) 0) = 3"
proof -
  let ?t = "set_cell 0 3 (snd one_mark)" and ?m = "\<lparr>tm_level = 1, tm_generation = 2\<rparr>"
  have f: "fst (tur_trail_commit_to ?t ?m)" "bc_payload (rt_cells ?t 0) = 3" by code_simp+
  then have "tur_trail_commit_to ?t ?m = (True, snd (tur_trail_commit_to ?t ?m))" by (intro prod_eqI) simp_all
  from commit_promotes [OF this, of 0] show ?thesis using f(2) by simp
qed

text \<open>
  C31: when no variable leads back to itself along the bindings (nothing in \<open>tur_uf_bind\<close> checks
  that), walking the substitution ends within one step more than there are variables, at the end of
  the bindings from the variable asked for, and returns what that end stands for: its own number,
  tagged, if it is unbound, its value if it is bound to one, and \<open>TUR_UF_UNBOUND\<close> if it is out of range.
\<close>

theorem walk_ends:
  assumes "acyclic (uf_links t u)"
  shows "\<exists>e. (cur, e) \<in> (uf_links t u)\<^sup>* \<and> uf_link t u e = None
    \<and> tur_uf_walk (Suc (nat (uf_n u))) t u cur = Some (uf_value t u e)"
  using assms by (rule uf_walk_acyclic)

text \<open>Two variables, 0 bound to 1.\<close>

definition two_vars :: rtrail where
  "two_vars = snd (tur_uf_bind (\<lambda>_. True) \<lparr>uf_n = 2, uf_cells = 10\<rparr> 0 3 (snd (tur_uf_new (\<lambda>_. True) 2 10 rt_empty)))"

lemma two_vars_link: "uf_link two_vars \<lparr>uf_n = 2, uf_cells = 10\<rparr> k = Some j \<Longrightarrow> k = 0 \<and> j = 1"
proof -
  assume l: "uf_link two_vars \<lparr>uf_n = 2, uf_cells = 10\<rparr> k = Some j"
  then have "k = 0 \<or> k = 1" by (auto simp: uf_link_def Let_def split: if_splits)
  moreover have "uf_link two_vars \<lparr>uf_n = 2, uf_cells = 10\<rparr> 0 = Some 1" "uf_link two_vars \<lparr>uf_n = 2, uf_cells = 10\<rparr> 1 = None" by code_simp+
  ultimately show "k = 0 \<and> j = 1" using l by auto
qed

theorem walk_ends_witness: "tur_uf_walk 3 two_vars \<lparr>uf_n = 2, uf_cells = 10\<rparr> 0 = Some 3"
proof -
  let ?u = "\<lparr>uf_n = 2, uf_cells = 10\<rparr>"
  have l: "uf_link two_vars ?u 0 = Some 1" "uf_value two_vars ?u 1 = 3" by code_simp+
  have r: "uf_links two_vars ?u = {(0, 1)}" using two_vars_link l(1) by (auto simp: uf_links_def)
  have "acyclic {(0::int, 1)}" by (simp add: acyclic_insert) (simp add: acyclic_def)
  from walk_ends [of two_vars ?u 0, unfolded r, OF this]
  obtain e where e: "(0, e) \<in> {(0::int, 1)}\<^sup>*" "uf_link two_vars ?u e = None" "tur_uf_walk (Suc (nat 2)) two_vars ?u 0 = Some (uf_value two_vars ?u e)"
    by auto
  from e(1) have "e = 0 \<or> e = 1" by (cases rule: rtranclE) auto
  then have "e = 1" using e(2) l(1) by auto
  then show ?thesis using e(3) l(2) by (simp add: numeral_3_eq_3 numeral_2_eq_2)
qed

section \<open>Timers\<close>

text \<open>
  C32: on a wheel whose timers were all inserted with a positive delay (\<open>wheel_reach\<close>), a tick,
  however late it comes, runs each timer that is due exactly once, at its deadline and in the order
  of the deadlines, runs no other, and leaves exactly the rest to run. A timer with a delay of zero
  or less is put into a slot the wheel has passed and waits a turn of 256 ms (\<open>zero_delay_late\<close>).
\<close>

theorem tick_runs_due:
  assumes "wheel_reach t w" and "t \<le> now"
  shows "\<exists>fire. w_log (tur_timer_wheel_tick now w) = w_log w @ map (\<lambda>n. (tn_deadline n, n)) fire
    \<and> mset fire = {#n \<in># pendings w. tn_deadline n \<le> now#} \<and> sorted (map tn_deadline fire)
    \<and> pendings (tur_timer_wheel_tick now w) = {#n \<in># pendings w. now < tn_deadline n#}"
  using tick_correct [of w now] wheel_reach_ok [OF assms(1)] unfolding fires_def by blast

theorem tick_runs_due_witness:
  "w_log (tur_timer_wheel_tick 5 (tur_timer_wheel_insert 0 3 1 (tur_timer_wheel_new 0))) = [(3, \<lparr>tn_id = 1, tn_deadline = 3, tn_cancelled = False\<rparr>)]"
proof -
  let ?w = "tur_timer_wheel_insert 0 3 1 (tur_timer_wheel_new 0)" and ?n = "\<lparr>tn_id = 1, tn_deadline = 3, tn_cancelled = False\<rparr>"
  have r: "wheel_reach 0 ?w" by (rule wheel_reach.reach_insert [OF wheel_reach.reach_new order_refl]) simp
  have p: "pendings ?w = {#?n#}" using pendings_insert [OF wheel_reach.reach_new [of 0] order_refl, of 3 1] pendings_new by simp
  obtain fire where f: "w_log (tur_timer_wheel_tick 5 ?w) = w_log ?w @ map (\<lambda>n. (tn_deadline n, n)) fire"
      "mset fire = {#n \<in># pendings ?w. tn_deadline n \<le> 5#}"
    using tick_runs_due [OF r, of 5] by auto
  from f(2) have "fire = [?n]" unfolding p by simp
  moreover have "w_log ?w = []" by (simp add: tur_timer_wheel_insert_def tur_timer_wheel_new_def Let_def)
  ultimately show ?thesis using f(1) by simp
qed

text \<open>
  C33: on such a wheel, inserting a timer with a positive delay adds to what any later tick runs this
  timer, once, at its deadline, if that has come, and nothing else; cancelling one takes from it the
  runs of this timer and nothing else.
\<close>

theorem insert_cancel_runs:
  assumes "wheel_reach t w" and "t \<le> now" and "0 < delay"
  shows "mset (w_log (tur_timer_wheel_tick later (tur_timer_wheel_insert now delay i w))) = mset (w_log (tur_timer_wheel_tick later w))
      + (if now + delay \<le> later then {#(now + delay, \<lparr>tn_id = i, tn_deadline = now + delay, tn_cancelled = False\<rparr>)#} else {#})
    \<and> mset (w_log (tur_timer_wheel_tick later (tur_timer_wheel_cancel j w))) = mset (w_log w)
      + {#e \<in># mset (w_log (tur_timer_wheel_tick later w)) - mset (w_log w). tn_id (snd e) \<noteq> j#}"
  using insert_runs [OF assms] cancel_runs [OF assms(1)] by blast

theorem insert_cancel_runs_witness:
  "mset (w_log (tur_timer_wheel_tick 300 (tur_timer_wheel_insert 0 257 1 (tur_timer_wheel_new 0)))) = {#(257, \<lparr>tn_id = 1, tn_deadline = 257, tn_cancelled = False\<rparr>)#}
   \<and> mset (w_log (tur_timer_wheel_tick 300 (tur_timer_wheel_cancel 1 (tur_timer_wheel_insert 0 257 1 (tur_timer_wheel_new 0))))) = {#}"
proof -
  have e: "mset (w_log (tur_timer_wheel_tick 300 (tur_timer_wheel_new 0))) = {#}"
    using tick_log [OF conjunct1 [OF wheel_new_ok], of 300 0] by (simp add: pendings_new) (simp add: tur_timer_wheel_new_def)
  have i: "mset (w_log (tur_timer_wheel_tick 300 (tur_timer_wheel_insert 0 257 1 (tur_timer_wheel_new 0)))) =
      {#(257, \<lparr>tn_id = 1, tn_deadline = 257, tn_cancelled = False\<rparr>)#}"
    using insert_cancel_runs [OF wheel_reach.reach_new [of 0] order_refl, of 257 300 1] e by simp
  have "wheel_reach 0 (tur_timer_wheel_insert 0 257 1 (tur_timer_wheel_new 0))"
    by (rule wheel_reach.reach_insert [OF wheel_reach.reach_new order_refl]) simp
  from insert_cancel_runs [OF this order_refl, of 1 300 _ 1] i
  show ?thesis by (simp add: tur_timer_wheel_insert_def tur_timer_wheel_new_def Let_def)
qed

section \<open>The queue of the scheduler\<close>

text \<open>
  C34: whatever the producers and the consumer interleave, at most capacity less one items wait; and
  as long as no slot was read before its item was stored, the items handed out are the first of
  those reserved, in order, each once.
\<close>

theorem queue_fifo:
  assumes "aq_reach c s" and "unat c \<le> 2 ^ 63"
  shows "aq_head (sy_queue s) \<le> aq_tail (sy_queue s) \<and> aq_tail (sy_queue s) - aq_head (sy_queue s) < aq_capacity (sy_queue s)
    \<and> (sy_clean s \<longrightarrow> (\<exists>waiting. sy_reserved s = sy_popped s @ waiting \<and> length waiting = aq_tail (sy_queue s) - aq_head (sy_queue s)))"
  using reach_bounds [OF assms] reach_fifo [OF assms] by blast

theorem queue_fifo_witness:
  "\<exists>waiting. sy_reserved ((push_step 1 8 ^^ 4) (aq_start 4)) = sy_popped ((push_step 1 8 ^^ 4) (aq_start 4)) @ waiting"
proof -
  have "sy_clean ((push_step 1 8 ^^ 4) (aq_start 4))" by code_simp
  then show ?thesis using queue_fifo [OF reach_pushes [OF aq_reach.start [of 4], where n = 4 and p = 1 and x = 8]] by auto
qed

text \<open>To one thread a new queue answers every sequence of calls as a list of at most capacity less one items, where the capacity is a power of two that holds the request.\<close>

theorem queue_calls:
  assumes "unat c \<le> 2 ^ 63"
  shows "\<exists>k. max 2 (unat c) \<le> 2 ^ k \<and> aq_capacity (aq_new c) = 2 ^ k
    \<and> fst (run_calls aq_push aq_pop cs (aq_new c)) = fst (run_calls (list_enq (2 ^ k - 1)) list_deq cs [])"
  using assms by (rule calls_fifo)

theorem queue_calls_witness: "fst (run_calls aq_push aq_pop [Push 5, Push 6, Pop, Pop, Pop] (aq_new 4)) = [(True, 5), (True, 6), (True, 5), (True, 6), (False, 0)]"
proof -
  obtain k where k: "max 2 (unat (4 :: 64 word)) \<le> 2 ^ k"
    "fst (run_calls aq_push aq_pop [Push 5, Push 6, Pop, Pop, Pop] (aq_new 4)) =
     fst (run_calls (list_enq (2 ^ k - 1)) list_deq [Push 5, Push 6, Pop, Pop, Pop] [])"
    using queue_calls [of 4 "[Push 5, Push 6, Pop, Pop, Pop]"] by auto
  then have "4 \<le> (2::nat) ^ k" by simp
  then show ?thesis unfolding k(2) by (simp add: list_enq_def)
qed

end
