(* ===== verification/Hamt.thy ===== *)
theory Hamt
  imports Prelude
begin

text \<open>
  The persistent hash map of the runtime (\<open>src/runtime/hamt.c\<close>): a trie over five bits of a 64-bit
  hash at a time, with chains of entries of one hash. A key and a value are machine words, the null
  pointer being 0; the hash of a key is an argument, as in the code, and so is the key equality in
  force (identity, or the one an \<open>_eq\<close> call installs). Nodes are values: sharing, reference counts
  and the ownership hooks are not modelled, and a node that is returned unchanged is equal to the
  old one.
\<close>

unbundle bit_operations_syntax

section \<open>Hashing\<close>

definition XXH_PRIME64_1 :: u64 where "XXH_PRIME64_1 = 0x9E3779B185EBCA87"
definition XXH_PRIME64_2 :: u64 where "XXH_PRIME64_2 = 0xC2B2AE3D27D4EB4F"
definition XXH_PRIME64_3 :: u64 where "XXH_PRIME64_3 = 0x27D4EB2F165667C5"
definition XXH_PRIME64_5 :: u64 where "XXH_PRIME64_5 = 0x27D4EB2F165667C5"

definition XXH_rotl64 :: "u64 \<Rightarrow> nat \<Rightarrow> u64" where
  "XXH_rotl64 x r = push_bit r x OR drop_bit (64 - r) x"

definition xxh64_round :: "u64 \<Rightarrow> u64 \<Rightarrow> u64" where
  "xxh64_round acc input = XXH_rotl64 (acc + input * XXH_PRIME64_2) 31 * XXH_PRIME64_1"

definition xxh64_finalize :: "u64 \<Rightarrow> u64 \<Rightarrow> u64" where
  "xxh64_finalize acc input =
     (let a1 = (acc XOR xxh64_round 0 input) * XXH_PRIME64_3;
          a2 = (a1 XOR drop_bit 33 a1) * XXH_PRIME64_2;
          a3 = (a2 XOR drop_bit 29 a2) * XXH_PRIME64_3
      in a3 XOR drop_bit 32 a3)"

text \<open>A load of eight or four bytes, least significant first.\<close>

fun load_le :: "8 word list \<Rightarrow> u64" where
  "load_le [] = 0"
| "load_le (b # bs) = ucast b OR push_bit 8 (load_le bs)"

fun xxh64_tail :: "u64 \<Rightarrow> 8 word list \<Rightarrow> u64" where
  "xxh64_tail acc [] = acc"
| "xxh64_tail acc (b # bs) = xxh64_tail (xxh64_round acc (ucast b)) bs"

function xxh64_words :: "u64 \<Rightarrow> 8 word list \<Rightarrow> u64 \<times> 8 word list" where
  "xxh64_words acc p = (if 8 \<le> length p then xxh64_words (xxh64_round acc (load_le (take 8 p))) (drop 8 p) else (acc, p))"
  by pat_completeness auto

termination by (relation "measure (\<lambda>(_, p). length p)") auto

declare xxh64_words.simps [simp del]

definition xxh64_short :: "8 word list \<Rightarrow> u64" where
  "xxh64_short p =
     (let (acc, q) = xxh64_words (XXH_PRIME64_5 + of_nat (length p)) p;
          (acc, q) = (if 4 \<le> length q then (xxh64_round acc (load_le (take 4 q)), drop 4 q) else (acc, q))
      in xxh64_tail acc q)"

text \<open>The long loop takes 32 bytes at a time and leaves the last bytes, fewer than 32, alone.\<close>

function xxh64_stripes :: "u64 \<times> u64 \<times> u64 \<times> u64 \<Rightarrow> 8 word list \<Rightarrow> (u64 \<times> u64 \<times> u64 \<times> u64) \<times> 8 word list" where
  "xxh64_stripes (v1, v2, v3, v4) p =
     (if 32 \<le> length p then
        let lane = \<lambda>v i. XXH_rotl64 (v + load_le (take 8 (drop i p)) * XXH_PRIME64_2) 31 * XXH_PRIME64_1
        in xxh64_stripes (lane v1 0, lane v2 8, lane v3 16, lane v4 24) (drop 32 p)
      else ((v1, v2, v3, v4), p))"
  by pat_completeness auto

termination by (relation "measure (\<lambda>(_, p). length p)") auto

declare xxh64_stripes.simps [simp del]

definition xxh64_long :: "8 word list \<Rightarrow> u64 \<times> nat" where
  "xxh64_long p =
     (let ((v1, v2, v3, v4), q) = xxh64_stripes (XXH_PRIME64_1 + XXH_PRIME64_2, XXH_PRIME64_2, 0, XXH_PRIME64_1) p;
          acc = XXH_rotl64 v1 1 + XXH_rotl64 v2 7 + XXH_rotl64 v3 12 + XXH_rotl64 v4 18
      in (xxh64_round (xxh64_round (xxh64_round (xxh64_round acc v1) v2) v3) v4, length q))"

definition tur_hamt_hash_xxh64 :: "8 word list \<Rightarrow> u64" where
  "tur_hamt_hash_xxh64 p =
     (if 32 \<le> length p then (case xxh64_long p of (acc, len) \<Rightarrow> xxh64_finalize acc (of_nat len))
      else xxh64_finalize (xxh64_short p) 0)"

text \<open>Bytes after the last whole group of 32 do not reach the hash.\<close>

lemma stripes_ignore:
  assumes "length x = length y" and "length x < 32"
  shows "xxh64_stripes v (p @ x) = (v', q) \<Longrightarrow> 32 dvd length p \<Longrightarrow> q = x \<and> xxh64_stripes v (p @ y) = (v', y)"
proof (induction "length p" arbitrary: v p rule: less_induct)
  case less
  obtain v1 v2 v3 v4 where v: "v = (v1, v2, v3, v4)" by (cases v) auto
  show ?case
  proof (cases "p = []")
    case True
    then show ?thesis using less.prems assms unfolding v by (auto simp: xxh64_stripes.simps [of v1 v2 v3 v4])
  next
    case False
    then have l: "32 \<le> length p" using less.prems(2) by (auto intro: dvd_imp_le)
    have d: "take 8 (drop i (p @ z)) = take 8 (drop i p)" if "i + 8 \<le> 32" for i z using that l by simp
    note s = xxh64_stripes.simps [of v1 v2 v3 v4]
    have "32 dvd length (drop 32 p)" using less.prems(2) l by (simp add: dvd_diff_nat)
    then show ?thesis
      using less.prems(1) l less.hyps [of "drop 32 p"] unfolding v s by (simp add: d Let_def)
  qed
qed

lemma hash_ignores_tail:
  assumes "length x = length y" and "length x < 32" and "32 dvd length p" and "p \<noteq> []"
  shows "tur_hamt_hash_xxh64 (p @ x) = tur_hamt_hash_xxh64 (p @ y)"
proof -
  let ?v = "(XXH_PRIME64_1 + XXH_PRIME64_2, XXH_PRIME64_2, 0, XXH_PRIME64_1)"
  have l: "32 \<le> length p" using assms(3,4) by (auto intro: dvd_imp_le)
  obtain v1 v2 v3 v4 q where s: "xxh64_stripes ?v (p @ x) = ((v1, v2, v3, v4), q)" by (metis surj_pair)
  have "q = x \<and> xxh64_stripes ?v (p @ y) = ((v1, v2, v3, v4), y)" by (rule stripes_ignore [OF assms(1,2) s assms(3)])
  then show ?thesis using l s assms(1) by (simp add: tur_hamt_hash_xxh64_def xxh64_long_def)
qed

section \<open>Nodes\<close>

record hamtentry =
  he_hash :: u64
  he_key :: int
  he_val :: int

datatype hamtnode =
  HBitmap u32 "hamtnode list"
| HArray "hamtnode option list"
| HCollision nat "hamtentry list"

definition hash_chunk :: "u64 \<Rightarrow> nat \<Rightarrow> nat" where
  "hash_chunk h level = unat (drop_bit (level * 5) h AND 31)"

definition popcount32 :: "u32 \<Rightarrow> nat" where
  "popcount32 bm = length (filter (bit bm) [0..<32])"

text \<open>The number of set bits below a slot: where its child stands.\<close>

definition bit_index :: "u32 \<Rightarrow> nat \<Rightarrow> nat" where
  "bit_index bm c = length (filter (bit bm) [0..<c])"

definition slot_bit :: "nat \<Rightarrow> u32" where
  "slot_bit c = push_bit c 1"

definition collision_node_create :: "nat \<Rightarrow> u64 \<Rightarrow> int \<Rightarrow> int \<Rightarrow> hamtnode" where
  "collision_node_create prefix h k v = HCollision prefix [\<lparr>he_hash = h, he_key = k, he_val = v\<rparr>]"

definition he_match :: "(int \<Rightarrow> int \<Rightarrow> bool) \<Rightarrow> u64 \<Rightarrow> int \<Rightarrow> hamtentry \<Rightarrow> bool" where
  "he_match eq h k e \<longleftrightarrow> he_hash e = h \<and> eq (he_key e) k"

definition find_entry :: "(int \<Rightarrow> int \<Rightarrow> bool) \<Rightarrow> hamtentry list \<Rightarrow> u64 \<Rightarrow> int \<Rightarrow> hamtentry option" where
  "find_entry eq es h k = find (he_match eq h k) es"

definition collision_has :: "(int \<Rightarrow> int \<Rightarrow> bool) \<Rightarrow> hamtentry list \<Rightarrow> u64 \<Rightarrow> int \<Rightarrow> bool" where
  "collision_has eq es h k \<longleftrightarrow> find_entry eq es h k \<noteq> None"

definition collision_get :: "(int \<Rightarrow> int \<Rightarrow> bool) \<Rightarrow> hamtentry list \<Rightarrow> u64 \<Rightarrow> int \<Rightarrow> int" where
  "collision_get eq es h k = (case find_entry eq es h k of None \<Rightarrow> 0 | Some e \<Rightarrow> he_val e)"

section \<open>Insertion\<close>

text \<open>The loop over the 32 slots that copies the children and puts the new one at its place.\<close>

fun put_child :: "nat list \<Rightarrow> u32 \<Rightarrow> nat \<Rightarrow> 'a \<Rightarrow> 'a list \<Rightarrow> 'a list" where
  "put_child [] bm c x cs = []"
| "put_child (i # is) bm c x cs =
     (if bit bm i then hd cs # put_child is bm c x (tl cs)
      else if i = c then x # put_child is bm c x cs
      else put_child is bm c x cs)"

text \<open>The first entry that matches gets the new value.\<close>

fun update_entry :: "(int \<Rightarrow> int \<Rightarrow> bool) \<Rightarrow> u64 \<Rightarrow> int \<Rightarrow> int \<Rightarrow> hamtentry list \<Rightarrow> hamtentry list" where
  "update_entry eq h k v [] = []"
| "update_entry eq h k v (e # es) = (if he_match eq h k e then e\<lparr>he_val := v\<rparr> # es else e # update_entry eq h k v es)"

text \<open>
  The recursion into a chain of another hash goes down on the level alone, so the depth is bounded
  by fuel; None is a recursion deeper than that. An entry chain is never empty, the C reads its head.
\<close>

fun node_insert :: "nat \<Rightarrow> (int \<Rightarrow> int \<Rightarrow> bool) \<Rightarrow> hamtnode option \<Rightarrow> u64 \<Rightarrow> int \<Rightarrow> int \<Rightarrow> nat \<Rightarrow> hamtnode option" where
  "node_insert 0 eq n h k v level = None"
| "node_insert (Suc d) eq n h k v level =
     (let chunk = hash_chunk h level in
      case n of
        None \<Rightarrow> Some (collision_node_create chunk h k v)
      | Some (HBitmap bm cs) \<Rightarrow>
          if bit bm chunk then
            (let idx = bit_index bm chunk
             in map_option (\<lambda>c. HBitmap bm (cs[idx := c])) (node_insert d eq (Some (cs ! idx)) h k v (level + 1)))
          else Some (HBitmap (bm OR slot_bit chunk) (put_child [0..<32] bm chunk (collision_node_create chunk h k v) cs))
      | Some (HArray cs) \<Rightarrow>
          map_option (\<lambda>c. HArray (cs[chunk := Some c])) (node_insert d eq (cs ! chunk) h k v (level + 1))
      | Some (HCollision prefix es) \<Rightarrow>
          (let existing = hash_chunk (he_hash (hd es)) level in
           if existing \<noteq> chunk then
             (let bm = slot_bit existing OR slot_bit chunk; node = HCollision prefix es; fresh = collision_node_create chunk h k v
              in Some (HBitmap bm ((replicate 2 node)[bit_index bm existing := node, bit_index bm chunk := fresh])))
           else if \<exists>e\<in>set es. he_match eq h k e then Some (HCollision prefix (update_entry eq h k v es))
           else if he_hash (hd es) = h then Some (HCollision prefix (\<lparr>he_hash = h, he_key = k, he_val = v\<rparr> # es))
           else map_option (\<lambda>c. HBitmap (slot_bit chunk) [c]) (node_insert d eq (Some (HCollision prefix es)) h k v (level + 1))))"

section \<open>Deletion\<close>

fun drop_child :: "nat list \<Rightarrow> u32 \<Rightarrow> nat \<Rightarrow> 'a list \<Rightarrow> 'a list" where
  "drop_child [] bm c cs = []"
| "drop_child (i # is) bm c cs =
     (if bit bm i then (if i = c then drop_child is bm c (tl cs) else hd cs # drop_child is bm c (tl cs))
      else drop_child is bm c cs)"

fun remove_entry :: "(int \<Rightarrow> int \<Rightarrow> bool) \<Rightarrow> u64 \<Rightarrow> int \<Rightarrow> hamtentry list \<Rightarrow> hamtentry list" where
  "remove_entry eq h k [] = []"
| "remove_entry eq h k (e # es) = (if he_match eq h k e then es else e # remove_entry eq h k es)"

text \<open>The child of a set bit; the children are as many as the set bits.\<close>

definition child_at :: "u32 \<Rightarrow> hamtnode list \<Rightarrow> nat \<Rightarrow> hamtnode option" where
  "child_at bm cs c = (if bit bm c \<and> bit_index bm c < length cs then Some (cs ! bit_index bm c) else None)"

definition array_at :: "hamtnode option list \<Rightarrow> nat \<Rightarrow> hamtnode option" where
  "array_at cs c = (if c < length cs then cs ! c else None)"

lemma size_child [termination_simp]: "child_at bm cs c = Some n \<Longrightarrow> size n < Suc (size_list size cs)"
  by (auto simp: child_at_def split: if_splits intro!: le_imp_less_Suc size_list_estimation' [OF nth_mem])

lemma size_array [termination_simp]: "array_at cs c = Some n \<Longrightarrow> size n < Suc (size_list (size_option size) cs)"
  by (auto simp: array_at_def split: if_splits dest!: nth_mem intro!: le_imp_less_Suc elim!: size_list_estimation')

fun node_delete :: "(int \<Rightarrow> int \<Rightarrow> bool) \<Rightarrow> hamtnode \<Rightarrow> u64 \<Rightarrow> int \<Rightarrow> nat \<Rightarrow> hamtnode option" where
  "node_delete eq (HBitmap bm cs) h k level =
     (let chunk = hash_chunk h level in
      case child_at bm cs chunk of
        None \<Rightarrow> Some (HBitmap bm cs)
      | Some child \<Rightarrow>
          (case node_delete eq child h k (level + 1) of
             None \<Rightarrow> (let bm' = bm AND NOT (slot_bit chunk) in
                      if popcount32 bm' = 0 then None else Some (HBitmap bm' (drop_child [0..<32] bm chunk cs)))
           | Some c \<Rightarrow> Some (HBitmap bm (cs[bit_index bm chunk := c]))))"
| "node_delete eq (HArray cs) h k level =
     (let chunk = hash_chunk h level in
      case array_at cs chunk of
        None \<Rightarrow> Some (HArray cs)
      | Some child \<Rightarrow> Some (HArray (cs[chunk := node_delete eq child h k (level + 1)])))"
| "node_delete eq (HCollision prefix es) h k level =
     (if \<exists>e\<in>set es. he_match eq h k e then
        (let es' = remove_entry eq h k es in if es' = [] then None else Some (HCollision prefix es'))
      else Some (HCollision prefix es))"

section \<open>Lookup\<close>

lemma size_child_opt [termination_simp]: "size_option size (child_at bm cs c) < Suc (Suc (size_list size cs))"
  using size_child [of bm cs c] by (cases "child_at bm cs c") auto

lemma size_array_opt [termination_simp]: "size_option size (array_at cs c) < Suc (Suc (size_list (size_option size) cs))"
  using size_array [of cs c] by (cases "array_at cs c") auto

fun node_get :: "(int \<Rightarrow> int \<Rightarrow> bool) \<Rightarrow> hamtnode option \<Rightarrow> u64 \<Rightarrow> int \<Rightarrow> nat \<Rightarrow> int" where
  "node_get eq None h k level = 0"
| "node_get eq (Some (HBitmap bm cs)) h k level = node_get eq (child_at bm cs (hash_chunk h level)) h k (level + 1)"
| "node_get eq (Some (HArray cs)) h k level = node_get eq (array_at cs (hash_chunk h level)) h k (level + 1)"
| "node_get eq (Some (HCollision prefix es)) h k level = collision_get eq es h k"

fun node_has :: "(int \<Rightarrow> int \<Rightarrow> bool) \<Rightarrow> hamtnode option \<Rightarrow> u64 \<Rightarrow> int \<Rightarrow> nat \<Rightarrow> bool" where
  "node_has eq None h k level \<longleftrightarrow> False"
| "node_has eq (Some (HBitmap bm cs)) h k level \<longleftrightarrow> node_has eq (child_at bm cs (hash_chunk h level)) h k (level + 1)"
| "node_has eq (Some (HArray cs)) h k level \<longleftrightarrow> node_has eq (array_at cs (hash_chunk h level)) h k (level + 1)"
| "node_has eq (Some (HCollision prefix es)) h k level \<longleftrightarrow> collision_has eq es h k"

section \<open>Maps\<close>

text \<open>A map remembers the key equality it was built with (\<open>key_ops.eq\<close>), if any.\<close>

record hamt =
  hm_root :: "hamtnode option"
  hm_count :: u32
  hm_keyeq :: "(int \<Rightarrow> int \<Rightarrow> bool) option"

definition tur_hamt_new :: hamt where
  "tur_hamt_new = \<lparr>hm_root = None, hm_count = 0, hm_keyeq = None\<rparr>"

definition tur_hamt_count :: "hamt \<Rightarrow> u32" where
  "tur_hamt_count m = hm_count m"

definition tur_hamt_has :: "(int \<Rightarrow> int \<Rightarrow> bool) \<Rightarrow> hamt \<Rightarrow> u64 \<Rightarrow> int \<Rightarrow> bool" where
  "tur_hamt_has eq m h k = node_has eq (hm_root m) h k 0"

definition tur_hamt_get :: "(int \<Rightarrow> int \<Rightarrow> bool) \<Rightarrow> hamt \<Rightarrow> u64 \<Rightarrow> int \<Rightarrow> int" where
  "tur_hamt_get eq m h k = node_get eq (hm_root m) h k 0"

text \<open>The thirteen levels of a 64-bit hash, and one below them.\<close>

definition HAMT_DEPTH :: nat where "HAMT_DEPTH = 14"

definition tur_hamt_set :: "(int \<Rightarrow> int \<Rightarrow> bool) \<Rightarrow> hamt \<Rightarrow> u64 \<Rightarrow> int \<Rightarrow> int \<Rightarrow> hamt option" where
  "tur_hamt_set eq m h k v =
     (let exists = tur_hamt_has eq m h k
      in map_option (\<lambda>r. \<lparr>hm_root = Some r, hm_count = (if exists then hm_count m else hm_count m + 1), hm_keyeq = hm_keyeq m\<rparr>)
           (node_insert HAMT_DEPTH eq (hm_root m) h k v 0))"

definition tur_hamt_del :: "(int \<Rightarrow> int \<Rightarrow> bool) \<Rightarrow> hamt \<Rightarrow> u64 \<Rightarrow> int \<Rightarrow> hamt" where
  "tur_hamt_del eq m h k =
     (if \<not> tur_hamt_has eq m h k then m
      else case hm_root m of
             None \<Rightarrow> m
           | Some r \<Rightarrow> \<lparr>hm_root = node_delete eq r h k 0, hm_count = hm_count m - 1, hm_keyeq = hm_keyeq m\<rparr>)"

section \<open>The key equality in force\<close>

text \<open>
  The two hooks of a thread. A call of the \<open>_eq\<close> and \<open>_eq_ctx\<close> families installs its own
  comparator, clears the other one and restores both before it returns, so the hooks that matter to
  it are the ones it installs.
\<close>

record eqhooks =
  g_hamt_key_eq :: "(int \<Rightarrow> int \<Rightarrow> bool) option"
  g_hamt_key_eq_ctx_fn :: "(int \<Rightarrow> int \<Rightarrow> int \<Rightarrow> bool) option"
  g_hamt_key_eq_ctx :: int

definition keys_equal :: "eqhooks \<Rightarrow> int \<Rightarrow> int \<Rightarrow> bool" where
  "keys_equal g a b =
     (case g_hamt_key_eq_ctx_fn g of
        Some f \<Rightarrow> f a b (g_hamt_key_eq_ctx g)
      | None \<Rightarrow> (case g_hamt_key_eq g of Some f \<Rightarrow> f a b | None \<Rightarrow> a = b))"

definition eq_hooks :: "(int \<Rightarrow> int \<Rightarrow> bool) option \<Rightarrow> eqhooks" where
  "eq_hooks eq = \<lparr>g_hamt_key_eq = eq, g_hamt_key_eq_ctx_fn = None, g_hamt_key_eq_ctx = 0\<rparr>"

definition ctx_hooks :: "(int \<Rightarrow> int \<Rightarrow> int \<Rightarrow> bool) option \<Rightarrow> int \<Rightarrow> eqhooks" where
  "ctx_hooks eq ctx = \<lparr>g_hamt_key_eq = None, g_hamt_key_eq_ctx_fn = eq, g_hamt_key_eq_ctx = ctx\<rparr>"

definition tur_hamt_set_eq :: "hamt \<Rightarrow> u64 \<Rightarrow> int \<Rightarrow> int \<Rightarrow> (int \<Rightarrow> int \<Rightarrow> bool) option \<Rightarrow> hamt option" where
  "tur_hamt_set_eq m h k v eq = map_option (\<lambda>r. r\<lparr>hm_keyeq := eq\<rparr>) (tur_hamt_set (keys_equal (eq_hooks eq)) m h k v)"

text \<open>A deletion that finds nothing returns the map it was given, which keeps its own comparator.\<close>

definition tur_hamt_del_eq :: "hamt \<Rightarrow> u64 \<Rightarrow> int \<Rightarrow> (int \<Rightarrow> int \<Rightarrow> bool) option \<Rightarrow> hamt" where
  "tur_hamt_del_eq m h k eq =
     (let r = tur_hamt_del (keys_equal (eq_hooks eq)) m h k
      in if tur_hamt_has (keys_equal (eq_hooks eq)) m h k then r\<lparr>hm_keyeq := eq\<rparr> else r)"

definition tur_hamt_has_eq :: "hamt \<Rightarrow> u64 \<Rightarrow> int \<Rightarrow> (int \<Rightarrow> int \<Rightarrow> bool) option \<Rightarrow> bool" where
  "tur_hamt_has_eq m h k eq = tur_hamt_has (keys_equal (eq_hooks eq)) m h k"

definition tur_hamt_get_eq :: "hamt \<Rightarrow> u64 \<Rightarrow> int \<Rightarrow> (int \<Rightarrow> int \<Rightarrow> bool) option \<Rightarrow> int" where
  "tur_hamt_get_eq m h k eq = tur_hamt_get (keys_equal (eq_hooks eq)) m h k"

definition tur_hamt_set_eq_ctx :: "hamt \<Rightarrow> u64 \<Rightarrow> int \<Rightarrow> int \<Rightarrow> (int \<Rightarrow> int \<Rightarrow> int \<Rightarrow> bool) option \<Rightarrow> int \<Rightarrow> hamt option" where
  "tur_hamt_set_eq_ctx m h k v eq ctx = tur_hamt_set (keys_equal (ctx_hooks eq ctx)) m h k v"

definition tur_hamt_del_eq_ctx :: "hamt \<Rightarrow> u64 \<Rightarrow> int \<Rightarrow> (int \<Rightarrow> int \<Rightarrow> int \<Rightarrow> bool) option \<Rightarrow> int \<Rightarrow> hamt" where
  "tur_hamt_del_eq_ctx m h k eq ctx = tur_hamt_del (keys_equal (ctx_hooks eq ctx)) m h k"

definition tur_hamt_has_eq_ctx :: "hamt \<Rightarrow> u64 \<Rightarrow> int \<Rightarrow> (int \<Rightarrow> int \<Rightarrow> int \<Rightarrow> bool) option \<Rightarrow> int \<Rightarrow> bool" where
  "tur_hamt_has_eq_ctx m h k eq ctx = tur_hamt_has (keys_equal (ctx_hooks eq ctx)) m h k"

definition tur_hamt_get_eq_ctx :: "hamt \<Rightarrow> u64 \<Rightarrow> int \<Rightarrow> (int \<Rightarrow> int \<Rightarrow> int \<Rightarrow> bool) option \<Rightarrow> int \<Rightarrow> int" where
  "tur_hamt_get_eq_ctx m h k eq ctx = tur_hamt_get (keys_equal (ctx_hooks eq ctx)) m h k"

lemma keys_equal_hooks [simp]:
  "keys_equal (eq_hooks None) = (=)" "keys_equal (eq_hooks (Some f)) = f"
  "keys_equal (ctx_hooks None ctx) = (=)" "keys_equal (ctx_hooks (Some g) ctx) = (\<lambda>a b. g a b ctx)"
  by (simp_all add: keys_equal_def eq_hooks_def ctx_hooks_def fun_eq_iff)

section \<open>String keys\<close>

text \<open>\<open>mem\<close> gives the bytes of the string at an address, up to its terminator.\<close>

definition hamt_cstr_key_eq :: "(int \<Rightarrow> 8 word list) \<Rightarrow> int \<Rightarrow> int \<Rightarrow> bool" where
  "hamt_cstr_key_eq mem a b \<longleftrightarrow> a = b \<or> a \<noteq> 0 \<and> b \<noteq> 0 \<and> mem a = mem b"

definition tur_hamt_hash_str :: "8 word list \<Rightarrow> u64" where
  "tur_hamt_hash_str s = tur_hamt_hash_xxh64 s"

definition tur_hamt_set_cstr :: "(int \<Rightarrow> 8 word list) \<Rightarrow> hamt \<Rightarrow> int \<Rightarrow> int \<Rightarrow> hamt option" where
  "tur_hamt_set_cstr mem m k v = tur_hamt_set_eq m (tur_hamt_hash_str (mem k)) k v (Some (hamt_cstr_key_eq mem))"

definition tur_hamt_del_cstr :: "(int \<Rightarrow> 8 word list) \<Rightarrow> hamt \<Rightarrow> int \<Rightarrow> hamt" where
  "tur_hamt_del_cstr mem m k = tur_hamt_del_eq m (tur_hamt_hash_str (mem k)) k (Some (hamt_cstr_key_eq mem))"

definition tur_hamt_has_cstr :: "(int \<Rightarrow> 8 word list) \<Rightarrow> hamt \<Rightarrow> int \<Rightarrow> bool" where
  "tur_hamt_has_cstr mem m k = tur_hamt_has_eq m (tur_hamt_hash_str (mem k)) k (Some (hamt_cstr_key_eq mem))"

definition tur_hamt_get_cstr :: "(int \<Rightarrow> 8 word list) \<Rightarrow> hamt \<Rightarrow> int \<Rightarrow> int" where
  "tur_hamt_get_cstr mem m k = tur_hamt_get_eq m (tur_hamt_hash_str (mem k)) k (Some (hamt_cstr_key_eq mem))"


section \<open>Transients\<close>

text \<open>A batch over a map: its own root and count, and a token that is 0 once it was made persistent; then every use aborts.\<close>

record hamttransient =
  ht_root :: "hamtnode option"
  ht_count :: u32
  ht_token :: u64

definition tur_hamt_transient :: "u64 \<Rightarrow> hamt \<Rightarrow> hamttransient \<times> u64" where
  "tur_hamt_transient next m =
     (\<lparr>ht_root = hm_root m, ht_count = (if hm_root m = None then 0 else hm_count m), ht_token = next\<rparr>, next + 1)"

text \<open>None is the abort.\<close>

definition tur_hamt_transient_set :: "(int \<Rightarrow> int \<Rightarrow> bool) \<Rightarrow> hamttransient \<Rightarrow> u64 \<Rightarrow> int \<Rightarrow> int \<Rightarrow> hamttransient option" where
  "tur_hamt_transient_set eq t h k v =
     (if ht_token t = 0 then None
      else
        let exists = node_has eq (ht_root t) h k 0
        in map_option (\<lambda>r. t\<lparr>ht_root := Some r, ht_count := (if exists then ht_count t else ht_count t + 1)\<rparr>)
             (node_insert HAMT_DEPTH eq (ht_root t) h k v 0))"

definition tur_hamt_transient_del :: "(int \<Rightarrow> int \<Rightarrow> bool) \<Rightarrow> hamttransient \<Rightarrow> u64 \<Rightarrow> int \<Rightarrow> hamttransient option" where
  "tur_hamt_transient_del eq t h k =
     (if ht_token t = 0 then None
      else if \<not> node_has eq (ht_root t) h k 0 then Some t
      else case ht_root t of
             None \<Rightarrow> Some t
           | Some r \<Rightarrow> Some (t\<lparr>ht_root := node_delete eq r h k 0, ht_count := ht_count t - 1\<rparr>))"

text \<open>The new map is unstamped, whatever the map the batch was opened on remembered.\<close>

definition tur_hamt_persistent :: "hamttransient \<Rightarrow> hamt \<times> hamttransient" where
  "tur_hamt_persistent t =
     (\<lparr>hm_root = ht_root t, hm_count = ht_count t, hm_keyeq = None\<rparr>, t\<lparr>ht_root := None, ht_count := 0, ht_token := 0\<rparr>)"

end
