(* ===== verification/HamtIter.thy ===== *)
theory HamtIter
  imports Hamt
begin

text \<open>
  Iteration over a map (\<open>tur_hamt_iter_init\<close>, \<open>tur_hamt_iter_next\<close> of \<open>hamt.c\<close>): a stack of nodes
  with the position in each, and the rest of the chain being read. One turn of the loop is a
  function; the loop is its iteration, and it ends because the nodes still to visit get fewer. The
  children of a bitmap are counted by their list, which is as long as the bits are many (\<open>node_ok\<close>).
\<close>

record hamtiter =
  it_stack :: "(hamtnode \<times> nat) list"
  it_chain :: "hamtentry list"
  it_done :: bool

definition tur_hamt_iter_init :: "hamtnode option \<Rightarrow> hamtiter" where
  "tur_hamt_iter_init rt =
     (case rt of
        None \<Rightarrow> \<lparr>it_stack = [], it_chain = [], it_done = True\<rparr>
      | Some r \<Rightarrow> \<lparr>it_stack = [(r, 0)], it_chain = [], it_done = False\<rparr>)"

text \<open>Whether the loop goes on, the entry it returns with when it does not, and the state.\<close>

datatype iterturn = Again | Found hamtentry | Exhausted

definition iter_turn :: "hamtiter \<Rightarrow> iterturn \<times> hamtiter" where
  "iter_turn it =
     (if it_done it then (Exhausted, it)
      else
        case it_chain it of
          e # es \<Rightarrow> (Found e, it\<lparr>it_chain := es\<rparr>)
        | [] \<Rightarrow>
            (case it_stack it of
               [] \<Rightarrow> (Again, it\<lparr>it_done := True\<rparr>)
             | (n, i) # rest \<Rightarrow>
                 (case n of
                    HCollision prefix es \<Rightarrow>
                      (case es of
                         e # es' \<Rightarrow> (Found e, it\<lparr>it_stack := rest, it_chain := es'\<rparr>)
                       | [] \<Rightarrow> (Again, it\<lparr>it_stack := rest\<rparr>))
                  | HBitmap bm cs \<Rightarrow>
                      if i < length cs then (Again, it\<lparr>it_stack := (cs ! i, 0) # (n, i + 1) # rest\<rparr>)
                      else (Again, it\<lparr>it_stack := rest\<rparr>)
                  | HArray cs \<Rightarrow>
                      if i < length cs then
                        (Again, it\<lparr>it_stack := (case cs ! i of None \<Rightarrow> (n, i + 1) # rest | Some c \<Rightarrow> (c, 0) # (n, i + 1) # rest)\<rparr>)
                      else (Again, it\<lparr>it_stack := rest\<rparr>))))"

text \<open>What is left to do, in turns.\<close>

fun node_work :: "hamtnode \<Rightarrow> nat" where
  "node_work (HBitmap bm cs) = Suc (sum_list (map (\<lambda>c. Suc (node_work c)) cs))"
| "node_work (HArray cs) = Suc (sum_list (map (\<lambda>c. case c of None \<Rightarrow> 1 | Some n \<Rightarrow> Suc (node_work n)) cs))"
| "node_work (HCollision prefix es) = Suc (length es)"

fun frame_work :: "hamtnode \<times> nat \<Rightarrow> nat" where
  "frame_work (HBitmap bm cs, i) = Suc (sum_list (map (\<lambda>c. Suc (node_work c)) (drop i cs)))"
| "frame_work (HArray cs, i) = Suc (sum_list (map (\<lambda>c. case c of None \<Rightarrow> 1 | Some n \<Rightarrow> Suc (node_work n)) (drop i cs)))"
| "frame_work (HCollision prefix es, i) = Suc (length es)"

definition iter_work :: "hamtiter \<Rightarrow> nat" where
  "iter_work it = length (it_chain it) + sum_list (map frame_work (it_stack it)) + (if it_done it then 0 else 1)"

lemma frame_work_0 [simp]: "frame_work (n, 0) = node_work n"
  by (cases n) simp_all

lemma sum_drop: "i < length cs \<Longrightarrow> sum_list (map f (drop i cs)) = f (cs ! i) + sum_list (map f (drop (Suc i) cs))" for f :: "'a \<Rightarrow> nat"
  by (simp add: Cons_nth_drop_Suc [symmetric])

lemma iter_turn_less: "iter_turn it = (r, it') \<Longrightarrow> r \<noteq> Exhausted \<Longrightarrow> iter_work it' < iter_work it"
  by (auto simp: iter_turn_def iter_work_def sum_drop split: if_splits list.splits hamtnode.splits option.splits)

function tur_hamt_iter_next :: "hamtiter \<Rightarrow> hamtentry option \<times> hamtiter" where
  "tur_hamt_iter_next it =
     (case iter_turn it of
        (Again, it') \<Rightarrow> tur_hamt_iter_next it'
      | (Found e, it') \<Rightarrow> (Some e, it')
      | (Exhausted, it') \<Rightarrow> (None, it'))"
  by pat_completeness auto

termination
  by (relation "measure iter_work") (auto dest: iter_turn_less [OF sym])

declare tur_hamt_iter_next.simps [simp del]

lemma iter_next_less: "tur_hamt_iter_next it = (Some e, it') \<Longrightarrow> iter_work it' < iter_work it"
proof (induction it rule: tur_hamt_iter_next.induct)
  case (1 it)
  obtain r it1 where t: "iter_turn it = (r, it1)" by fastforce
  show ?case
  proof (cases r)
    case Again
    then have "tur_hamt_iter_next it1 = (Some e, it')" using 1(2) t by (subst (asm) tur_hamt_iter_next.simps) simp
    then show ?thesis using 1(1) [OF t [symmetric] Again] iter_turn_less [OF t] Again by simp
  next
    case (Found f)
    then show ?thesis using 1(2) t iter_turn_less [OF t] by (subst (asm) tur_hamt_iter_next.simps) simp
  next
    case Exhausted
    then show ?thesis using 1(2) t by (subst (asm) tur_hamt_iter_next.simps) simp
  qed
qed

text \<open>The boxed iterator of compiled loops, with the entry it is at.\<close>

record iterbox =
  ib_iter :: hamtiter
  ib_hash :: u64
  ib_key :: int
  ib_val :: int

definition tur_hamt_iter_alloc :: "hamtnode option \<Rightarrow> iterbox" where
  "tur_hamt_iter_alloc rt = \<lparr>ib_iter = tur_hamt_iter_init rt, ib_hash = 0, ib_key = 0, ib_val = 0\<rparr>"

definition tur_hamt_iter_advance :: "iterbox \<Rightarrow> bool \<times> iterbox" where
  "tur_hamt_iter_advance b =
     (case tur_hamt_iter_next (ib_iter b) of
        (None, it) \<Rightarrow> (False, b\<lparr>ib_iter := it\<rparr>)
      | (Some e, it) \<Rightarrow> (True, \<lparr>ib_iter = it, ib_hash = he_hash e, ib_key = he_key e, ib_val = he_val e\<rparr>))"

text \<open>The loops of the bulk operations: a step for every entry, in the order of the iterator.\<close>

function iter_loop :: "(hamtentry \<Rightarrow> 'a \<Rightarrow> 'a) \<Rightarrow> hamtiter \<Rightarrow> 'a \<Rightarrow> 'a" where
  "iter_loop f it acc =
     (case tur_hamt_iter_next it of
        (Some e, it') \<Rightarrow> iter_loop f it' (f e acc)
      | (None, it') \<Rightarrow> acc)"
  by pat_completeness auto

termination
  by (relation "measure (\<lambda>(_, it, _). iter_work it)") (auto dest: iter_next_less [OF sym])

declare iter_loop.simps [simp del]

section \<open>The order of the entries\<close>

fun node_entries :: "hamtnode \<Rightarrow> hamtentry list" where
  "node_entries (HBitmap bm cs) = concat (map node_entries cs)"
| "node_entries (HArray cs) = concat (map (\<lambda>c. case c of None \<Rightarrow> [] | Some n \<Rightarrow> node_entries n) cs)"
| "node_entries (HCollision prefix es) = es"

definition opt_entries :: "hamtnode option \<Rightarrow> hamtentry list" where
  "opt_entries n = (case n of None \<Rightarrow> [] | Some m \<Rightarrow> node_entries m)"

lemma opt_entries_simps [simp]: "opt_entries None = []" "opt_entries (Some n) = node_entries n"
  by (simp_all add: opt_entries_def)

fun frame_entries :: "hamtnode \<times> nat \<Rightarrow> hamtentry list" where
  "frame_entries (HBitmap bm cs, i) = concat (map node_entries (drop i cs))"
| "frame_entries (HArray cs, i) = concat (map opt_entries (drop i cs))"
| "frame_entries (HCollision prefix es, i) = es"

definition iter_rest :: "hamtiter \<Rightarrow> hamtentry list" where
  "iter_rest it = (if it_done it then [] else it_chain it @ concat (map frame_entries (it_stack it)))"

lemma array_entries: "node_entries (HArray cs) = concat (map opt_entries cs)"
  by (simp add: opt_entries_def [abs_def])

lemma frame_entries_0 [simp]: "frame_entries (n, 0) = node_entries n"
  by (cases n) (simp_all add: array_entries del: node_entries.simps(2))

lemma concat_drop: "i < length cs \<Longrightarrow> concat (map f (drop i cs)) = f (cs ! i) @ concat (map f (drop (Suc i) cs))"
  by (simp add: Cons_nth_drop_Suc [symmetric])

lemma iter_turn_rest:
  "iter_turn it = (r, it') \<Longrightarrow>
     iter_rest it = (case r of Again \<Rightarrow> iter_rest it' | Found e \<Rightarrow> e # iter_rest it' | Exhausted \<Rightarrow> [])"
  by (auto simp: iter_turn_def iter_rest_def concat_drop split: if_splits list.splits hamtnode.splits option.splits)

lemma iter_next_rest:
  "tur_hamt_iter_next it = (r, it') \<Longrightarrow> iter_rest it = (case r of None \<Rightarrow> [] | Some e \<Rightarrow> e # iter_rest it')"
proof (induction it rule: tur_hamt_iter_next.induct)
  case (1 it)
  obtain t it1 where t: "iter_turn it = (t, it1)" by fastforce
  show ?case
    using 1(1) [OF t [symmetric]] 1(2) t iter_turn_rest [OF t]
    by (subst (asm) (2) tur_hamt_iter_next.simps) (cases t; auto)
qed

lemma iter_loop_fold: "iter_loop f it acc = fold f (iter_rest it) acc"
proof (induction f it acc rule: iter_loop.induct)
  case (1 f it acc)
  obtain r it1 where r: "tur_hamt_iter_next it = (r, it1)" by fastforce
  show ?case
    using 1 [OF r [symmetric]] r iter_next_rest [OF r] by (subst iter_loop.simps) (cases r; auto)
qed

lemma iter_init_rest: "iter_rest (tur_hamt_iter_init rt) = opt_entries rt"
  by (cases rt) (simp_all add: tur_hamt_iter_init_def iter_rest_def)

text \<open>A loop over a map takes its entries in order, each once.\<close>

lemma iter_map: "iter_loop f (tur_hamt_iter_init rt) acc = fold f (opt_entries rt) acc"
  by (simp add: iter_loop_fold iter_init_rest)

text \<open>An advance of the boxed iterator moves to the next entry of what is left.\<close>

lemma advance_next:
  "tur_hamt_iter_advance b = (True, b') \<Longrightarrow>
     iter_rest (ib_iter b) = \<lparr>he_hash = ib_hash b', he_key = ib_key b', he_val = ib_val b'\<rparr> # iter_rest (ib_iter b')"
  "tur_hamt_iter_advance b = (False, b') \<Longrightarrow> iter_rest (ib_iter b) = []"
  using iter_next_rest [of "ib_iter b"] by (auto simp: tur_hamt_iter_advance_def split: prod.splits option.splits)

end
