(* ===== verification/HamtSound.thy ===== *)
theory HamtSound
  imports HamtIter "HOL-Library.Multiset"
begin

text \<open>The invariant of the trie, and what insertion, deletion and lookup do to the map it stands for.\<close>

section \<open>Chunks of a hash\<close>

lemma hash_chunk_less [simp]: "hash_chunk h l < 32"
proof -
  have "unat (drop_bit (l * 5) h AND 31 :: u64) \<le> unat (31 :: u64)"
    by (metis word_and_le1 word_le_nat_alt)
  then show ?thesis by (simp add: hash_chunk_def)
qed

lemma chunk_bit:
  assumes "hash_chunk h l = hash_chunk h' l" and "i < 5"
  shows "bit h (l * 5 + i) = bit h' (l * 5 + i)"
proof -
  have e: "drop_bit (l * 5) h AND 31 = drop_bit (l * 5) h' AND (31 :: u64)"
    using assms(1) by (simp add: hash_chunk_def word_unat_eq_iff)
  have m: "(31 :: u64) = mask 5" by (simp add: mask_eq_exp_minus_1)
  have "bit (drop_bit (l * 5) h AND 31) i = bit (drop_bit (l * 5) h' AND 31) i" by (simp only: e)
  then show ?thesis using assms(2) unfolding m by (simp add: bit_simps add.commute)
qed

lemma chunks_determine:
  assumes "\<And>j. j < 13 \<Longrightarrow> hash_chunk h j = hash_chunk h' j"
  shows "h = h'"
proof (rule bit_word_eqI)
  fix n
  assume "n < LENGTH(64)"
  then have "n div 5 < 13" by simp
  from chunk_bit [OF assms [OF this], of "n mod 5"] show "bit h n = bit h' n" by simp
qed

section \<open>Slots of a bitmap\<close>

lemma filter_index:
  assumes "P c" and "c < n"
  shows "filter P [0..<n] ! length (filter P [0..<c]) = c" and "length (filter P [0..<c]) < length (filter P [0..<n])"
proof -
  have s: "[0..<n] = [0..<c] @ c # [Suc c..<n]" using assms(2) using upt_add_eq_append [of 0 c "n - c"] upt_conv_Cons [of c n] by simp
  show "filter P [0..<n] ! length (filter P [0..<c]) = c" "length (filter P [0..<c]) < length (filter P [0..<n])"
    unfolding s using assms(1) by (simp_all add: nth_append)
qed

definition slots_of :: "u32 \<Rightarrow> nat list" where
  "slots_of bm = filter (bit bm) [0..<32]"

lemma slots_popcount: "popcount32 bm = length (slots_of bm)"
  unfolding popcount32_def slots_of_def ..

lemma slots_set: "c \<in> set (slots_of bm) \<longleftrightarrow> bit bm c \<and> c < 32"
  unfolding slots_of_def set_filter set_upt by auto

lemma slots_index: "bit bm c \<Longrightarrow> c < 32 \<Longrightarrow> slots_of bm ! bit_index bm c = c"
  unfolding bit_index_def slots_of_def by (rule filter_index(1))

lemma index_less: "bit bm c \<Longrightarrow> c < 32 \<Longrightarrow> bit_index bm c < popcount32 bm"
  unfolding bit_index_def popcount32_def by (rule filter_index(2))

lemma index_inj: "bit bm c \<Longrightarrow> bit bm c' \<Longrightarrow> c < 32 \<Longrightarrow> c' < 32 \<Longrightarrow> bit_index bm c = bit_index bm c' \<Longrightarrow> c = c'"
  using slots_index [of bm c] slots_index [of bm c'] by metis

lemma slots_distinct: "distinct (slots_of bm)"
  unfolding slots_of_def by (rule distinct_filter [OF distinct_upt])

lemma child_at_map:
  assumes "length cs = popcount32 bm" and "c < 32"
  shows "child_at bm cs c = map_of (zip (slots_of bm) cs) c"
proof (cases "bit bm c")
  case True
  have i: "bit_index bm c < length cs" using index_less [OF True assms(2)] assms(1) by simp
  then have "map_of (zip (slots_of bm) cs) (slots_of bm ! bit_index bm c) = Some (cs ! bit_index bm c)"
    using assms(1) slots_distinct by (intro map_of_zip_nth) (simp_all add: slots_popcount)
  then show ?thesis using slots_index [OF True assms(2)] True i by (simp add: child_at_def)
next
  case False
  then have "c \<notin> fst ` set (zip (slots_of bm) cs)" by (auto dest: set_zip_leftD simp: slots_set)
  then have "map_of (zip (slots_of bm) cs) c = None" by (simp add: map_of_eq_None_iff)
  then show ?thesis using False by (simp add: child_at_def)
qed

lemma child_at_update:
  assumes "length cs = popcount32 bm" and "bit bm c" and "c < 32" "c' < 32"
  shows "child_at bm (cs[bit_index bm c := x]) c' = (if c' = c then Some x else child_at bm cs c')"
proof -
  have "bit_index bm c < length cs" using index_less [OF assms(2,3)] assms(1) by simp
  moreover have "bit bm c' \<Longrightarrow> c' \<noteq> c \<Longrightarrow> bit_index bm c \<noteq> bit_index bm c'" using index_inj [OF assms(2) _ assms(3,4)] by metis
  ultimately show ?thesis using assms(2) by (auto simp: child_at_def)
qed

lemma child_at_set:
  assumes "length cs = popcount32 bm"
  shows "n \<in> set cs \<longleftrightarrow> (\<exists>c<32. child_at bm cs c = Some n)"
proof
  assume "n \<in> set cs"
  then obtain i where i: "i < length cs" "cs ! i = n" by (auto simp: in_set_conv_nth)
  let ?c = "slots_of bm ! i"
  have l: "i < length (slots_of bm)" using i assms by (simp add: slots_popcount)
  then have c: "?c < 32" using slots_set [of ?c bm] nth_mem [OF l] by simp
  have "map_of (zip (slots_of bm) cs) ?c = Some (cs ! i)"
    using l i(1) assms slots_distinct by (intro map_of_zip_nth) (simp_all add: slots_popcount)
  then have "child_at bm cs ?c = Some n" unfolding child_at_map [OF assms c] i(2) .
  then show "\<exists>c<32. child_at bm cs c = Some n" using c by blast
next
  assume "\<exists>c<32. child_at bm cs c = Some n"
  then show "n \<in> set cs" by (auto simp: child_at_def split: if_splits)
qed

lemma bit_slot_bit: "bit (slot_bit c) i \<longleftrightarrow> i = c \<and> i < 32"
  by (auto simp: slot_bit_def bit_exp_iff)

lemma bit_set_bit: "bit (bm OR slot_bit c) i \<longleftrightarrow> bit bm i \<or> i = c \<and> i < 32"
  by (simp add: bit_or_iff bit_slot_bit)

lemma bit_unset_bit: "bit (bm AND NOT (slot_bit c)) i \<longleftrightarrow> bit bm i \<and> i \<noteq> c"
  using bit_imp_le_length [of bm i] by (auto simp: bit_and_iff bit_not_iff bit_slot_bit)

lemma put_child_ok:
  assumes "\<not> bit bm c" and "c < 32"
  shows "distinct ls \<Longrightarrow> length cs = length (filter (bit bm) ls) \<Longrightarrow>
    length (put_child ls bm c x cs) = length (filter (bit (bm OR slot_bit c)) ls)
    \<and> mset (put_child ls bm c x cs) = mset cs + (if c \<in> set ls then {#x#} else {#})
    \<and> map_of (zip (filter (bit (bm OR slot_bit c)) ls) (put_child ls bm c x cs)) =
       (if c \<in> set ls then (map_of (zip (filter (bit bm) ls) cs))(c \<mapsto> x) else map_of (zip (filter (bit bm) ls) cs))"
proof (induction ls arbitrary: cs)
  case (Cons i ls)
  show ?case
  proof (cases "bit bm i")
    case True
    then obtain y ys where cs: "cs = y # ys" using Cons.prems by (cases cs) auto
    have "i \<noteq> c" using True assms(1) by auto
    then show ?thesis using Cons.IH [of ys] Cons.prems True cs by (auto simp: bit_set_bit fun_upd_twist)
  next
    case False
    then show ?thesis using Cons.IH [of cs] Cons.prems assms by (cases "i = c") (auto simp: bit_set_bit)
  qed
qed simp

lemma drop_child_ok:
  "distinct ls \<Longrightarrow> length cs = length (filter (bit bm) ls) \<Longrightarrow>
    length (drop_child ls bm c cs) = length (filter (bit (bm AND NOT (slot_bit c))) ls)
    \<and> map_of (zip (filter (bit (bm AND NOT (slot_bit c))) ls) (drop_child ls bm c cs)) = (map_of (zip (filter (bit bm) ls) cs))(c := None)
    \<and> mset cs = mset (drop_child ls bm c cs) + (case map_of (zip (filter (bit bm) ls) cs) c of None \<Rightarrow> {#} | Some x \<Rightarrow> {#x#})"
proof (induction ls arbitrary: cs)
  case (Cons i ls)
  show ?case
  proof (cases "bit bm i")
    case True
    then obtain y ys where cs: "cs = y # ys" using Cons.prems by (cases cs) auto
    have l: "length ys = length (filter (bit bm) ls)" using Cons.prems True cs by simp
    note IH = Cons.IH [OF _ l]
    show ?thesis
    proof (cases "i = c")
      case c: True
      have "c \<notin> set (map fst (zip (filter (bit bm) ls) ys))" using Cons.prems c by (auto dest: set_zip_leftD)
      then have "map_of (zip (filter (bit bm) ls) ys) c = None" by (simp add: map_of_eq_None_iff)
      then show ?thesis using IH Cons.prems True cs c by (auto simp: bit_unset_bit fun_eq_iff)
    next
      case False
      then show ?thesis using IH Cons.prems True cs by (auto simp: bit_unset_bit fun_upd_twist)
    qed
  next
    case False
    then show ?thesis using Cons.IH [of cs] Cons.prems by (auto simp: bit_unset_bit)
  qed
qed simp

section \<open>Chains\<close>

text \<open>One hash, and no two keys that are equal for the equality in force.\<close>

definition chain_ok :: "(int \<Rightarrow> int \<Rightarrow> bool) \<Rightarrow> hamtentry list \<Rightarrow> bool" where
  "chain_ok eq es \<longleftrightarrow> es \<noteq> [] \<and> (\<forall>e\<in>set es. he_hash (hd es) = he_hash e) \<and> sorted_wrt (\<lambda>a b. \<not> eq (he_key a) (he_key b)) es"

definition chain_find :: "(int \<Rightarrow> int \<Rightarrow> bool) \<Rightarrow> hamtentry list \<Rightarrow> u64 \<Rightarrow> int \<Rightarrow> int option" where
  "chain_find eq es h k = map_option he_val (find (he_match eq h k) es)"

lemma find_split: "find P (x # xs) = (if P x then Some x else find P xs)"
  by simp

lemma eqv_step: "equivp eq \<Longrightarrow> eq a k \<Longrightarrow> eq a k' = eq k k'"
  by (metis equivp_symp equivp_transp)

lemma update_entry_set: "he_hash ` set (update_entry eq h k v es) = he_hash ` set es"
  by (induction es) auto

lemma update_entry_keys: "map he_key (update_entry eq h k v es) = map he_key es" "map he_hash (update_entry eq h k v es) = map he_hash es"
  by (induction es) auto

lemma chain_ok_map:
  "chain_ok eq es \<longleftrightarrow> map he_hash es \<noteq> [] \<and> (\<forall>x\<in>set (map he_hash es). hd (map he_hash es) = x) \<and> sorted_wrt (\<lambda>a b. \<not> eq a b) (map he_key es)"
  by (cases es) (simp_all add: chain_ok_def sorted_wrt_map)

lemma chain_ok_update: "chain_ok eq es \<Longrightarrow> chain_ok eq (update_entry eq h k v es)"
  unfolding chain_ok_map update_entry_keys .

lemma find_update:
  assumes "equivp eq"
  shows "\<exists>e\<in>set es. he_match eq h k e \<Longrightarrow>
    chain_find eq (update_entry eq h k v es) h' k' = (if h' = h \<and> eq k k' then Some v else chain_find eq es h' k')"
proof (induction es)
  case (Cons e es)
  show ?case
  proof (cases "he_match eq h k e")
    case True
    then have "he_match eq h' k' e \<longleftrightarrow> h' = h \<and> eq k k'" using eqv_step [OF assms] by (auto simp: he_match_def)
    then show ?thesis using True by (auto simp: chain_find_def he_match_def)
  next
    case False
    then have "he_match eq h' k' e \<Longrightarrow> \<not> (h' = h \<and> eq k k')"
      using assms by (auto simp: he_match_def) (metis equivp_symp equivp_transp)
    then show ?thesis using Cons False by (auto simp: chain_find_def)
  qed
qed simp

lemma find_remove:
  assumes eq: "equivp eq"
  shows "sorted_wrt (\<lambda>a b. \<not> eq (he_key a) (he_key b)) es \<Longrightarrow>
    chain_find eq (remove_entry eq h k es) h' k' = (if h' = h \<and> eq k k' then None else chain_find eq es h' k')"
proof (induction es)
  case (Cons e es)
  show ?case
  proof (cases "he_match eq h k e")
    case True
    have "\<not> he_match eq h k' f" if "f \<in> set es" "eq k k'" for f
      using Cons.prems True that eq by (auto simp: he_match_def) (metis equivp_symp equivp_transp)
    then have "find (he_match eq h k') es = None" if "eq k k'" using that by (auto simp: find_None_iff)
    moreover have "he_match eq h' k' e \<longleftrightarrow> h' = h \<and> eq k k'" using True eqv_step [OF eq] by (auto simp: he_match_def)
    ultimately show ?thesis using True by (auto simp: chain_find_def)
  next
    case False
    then have "he_match eq h' k' e \<Longrightarrow> \<not> (h' = h \<and> eq k k')"
      using eq by (auto simp: he_match_def) (metis equivp_symp equivp_transp)
    then show ?thesis using Cons False by (auto simp: chain_find_def)
  qed
qed (simp add: chain_find_def)

lemma remove_entry_set: "set (remove_entry eq h k es) \<subseteq> set es"
  by (induction es) auto

lemma remove_entry_length: "\<exists>e\<in>set es. he_match eq h k e \<Longrightarrow> length (remove_entry eq h k es) + 1 = length es"
  by (induction es) auto

lemma remove_entry_sorted: "sorted_wrt P es \<Longrightarrow> sorted_wrt P (remove_entry eq h k es)"
proof (induction es)
  case (Cons e es)
  then show ?case using remove_entry_set [of eq h k es] by auto
qed simp

lemma chain_ok_remove: "chain_ok eq es \<Longrightarrow> remove_entry eq h k es \<noteq> [] \<Longrightarrow> chain_ok eq (remove_entry eq h k es)"
proof -
  assume c: "chain_ok eq es" and n: "remove_entry eq h k es \<noteq> []"
  have "hd (remove_entry eq h k es) \<in> set es" using n remove_entry_set hd_in_set by blast
  then show ?thesis using c n remove_entry_set [of eq h k es] remove_entry_sorted
    unfolding chain_ok_def by (metis subset_iff)
qed

lemma chain_find_None: "chain_find eq es h k = None \<longleftrightarrow> \<not> (\<exists>e\<in>set es. he_match eq h k e)"
  by (auto simp: chain_find_def find_None_iff)

section \<open>The invariant\<close>

definition in_chunk :: "nat \<Rightarrow> nat \<Rightarrow> hamtnode \<Rightarrow> bool" where
  "in_chunk level c n \<longleftrightarrow> (\<forall>e\<in>set (node_entries n). hash_chunk (he_hash e) level = c)"

text \<open>
  At every level the children of a bitmap are as many as its bits, and hold the entries of their own
  chunk. No operation makes an array node.
\<close>

fun node_ok :: "(int \<Rightarrow> int \<Rightarrow> bool) \<Rightarrow> nat \<Rightarrow> hamtnode \<Rightarrow> bool" where
  "node_ok eq level (HBitmap bm cs) \<longleftrightarrow> level \<le> 12 \<and> popcount32 bm = length cs \<and>
     (\<forall>n\<in>set cs. node_ok eq (level + 1) n) \<and> (\<forall>c<32. \<forall>n. child_at bm cs c = Some n \<longrightarrow> in_chunk level c n)"
| "node_ok eq level (HArray cs) \<longleftrightarrow> False"
| "node_ok eq level (HCollision prefix es) \<longleftrightarrow> chain_ok eq es"

fun node_find :: "(int \<Rightarrow> int \<Rightarrow> bool) \<Rightarrow> hamtnode option \<Rightarrow> u64 \<Rightarrow> int \<Rightarrow> nat \<Rightarrow> int option" where
  "node_find eq None h k level = None"
| "node_find eq (Some (HBitmap bm cs)) h k level = node_find eq (child_at bm cs (hash_chunk h level)) h k (level + 1)"
| "node_find eq (Some (HArray cs)) h k level = node_find eq (array_at cs (hash_chunk h level)) h k (level + 1)"
| "node_find eq (Some (HCollision prefix es)) h k level = chain_find eq es h k"

lemma node_get_find: "node_get eq n h k level = (case node_find eq n h k level of None \<Rightarrow> 0 | Some v \<Rightarrow> v)"
  by (induction eq n h k level rule: node_get.induct)
    (auto simp: collision_get_def find_entry_def chain_find_def split: option.splits)

lemma node_has_find: "node_has eq n h k level \<longleftrightarrow> node_find eq n h k level \<noteq> None"
  by (induction eq n h k level rule: node_has.induct) (auto simp: collision_has_def find_entry_def chain_find_def)

lemma chain_find_hash: "(\<And>e. e \<in> set es \<Longrightarrow> he_hash e \<noteq> h) \<Longrightarrow> chain_find eq es h k = None"
  by (auto simp: chain_find_None he_match_def)

text \<open>A hash of another chunk is not in the node.\<close>

lemma find_absent:
  "node_ok eq level n \<Longrightarrow> (\<And>e. e \<in> set (node_entries n) \<Longrightarrow> he_hash e \<noteq> h) \<Longrightarrow> node_find eq (Some n) h k level = None"
proof (induction eq level n rule: node_ok.induct)
  case (1 eq level bm cs)
  show ?case
  proof (cases "child_at bm cs (hash_chunk h level)")
    case (Some m)
    then have m: "m \<in> set cs" using 1(2) child_at_set [of cs bm m] hash_chunk_less by auto
    have "node_ok eq (level + 1) m" using m 1(2) by simp
    moreover have "he_hash e \<noteq> h" if "e \<in> set (node_entries m)" for e using 1(3) m that by force
    ultimately show ?thesis using 1(1) [OF m] Some by simp
  qed simp
qed (simp_all add: chain_find_hash)

section \<open>Insertion\<close>

text \<open>What an insertion has to deliver: the node stands for the updated map and counts its entries.\<close>

definition inserted :: "(int \<Rightarrow> int \<Rightarrow> bool) \<Rightarrow> nat \<Rightarrow> hamtnode option \<Rightarrow> u64 \<Rightarrow> int \<Rightarrow> int \<Rightarrow> hamtnode \<Rightarrow> bool" where
  "inserted eq level n h k v n' \<longleftrightarrow> node_ok eq level n'
     \<and> he_hash ` set (node_entries n') \<subseteq> insert h (he_hash ` set (opt_entries n))
     \<and> (\<forall>h' k'. node_find eq (Some n') h' k' level = (if h' = h \<and> eq k k' then Some v else node_find eq n h' k' level))
     \<and> length (node_entries n') = length (opt_entries n) + (if node_find eq n h k level = None then 1 else 0)"

lemma insertedD:
  assumes "inserted eq level n h k v n'"
  shows "node_ok eq level n'" "he_hash ` set (node_entries n') \<subseteq> insert h (he_hash ` set (opt_entries n))"
    "node_find eq (Some n') h' k' level = (if h' = h \<and> eq k k' then Some v else node_find eq n h' k' level)"
    "length (node_entries n') = length (opt_entries n) + (if node_find eq n h k level = None then 1 else 0)"
  using assms unfolding inserted_def by blast+

lemma inserted_fresh: "equivp eq \<Longrightarrow> inserted eq level None h k v (collision_node_create c h k v)"
  by (auto simp: inserted_def collision_node_create_def chain_ok_def chain_find_def he_match_def)

lemma concat_update_length:
  "i < length xs \<Longrightarrow> length (concat (map f (xs[i := x]))) + length (f (xs ! i)) = length (concat (map f xs)) + length (f x)"
proof (induction xs arbitrary: i)
  case (Cons y ys)
  then show ?case by (cases i) fastforce+
qed simp

lemma concat_length_mset: "length (concat (map f xs)) = sum_mset (image_mset (\<lambda>x. length (f x)) (mset xs))"
  by (induction xs) auto

lemma bitmap_child:
  assumes "node_ok eq level (HBitmap bm cs)" and "child_at bm cs c = Some m" and "c < 32"
  shows "node_ok eq (level + 1) m" "in_chunk level c m" "m \<in> set cs"
proof -
  show "m \<in> set cs" using assms child_at_set [of cs bm m] by auto
  then show "node_ok eq (level + 1) m" using assms by simp
  show "in_chunk level c m" using assms by simp
qed

lemma inserted_update:
  assumes n: "node_ok eq level (HBitmap bm cs)" and b: "bit bm (hash_chunk h level)"
    and c: "inserted eq (level + 1) (Some (cs ! bit_index bm (hash_chunk h level))) h k v c'"
  shows "inserted eq level (Some (HBitmap bm cs)) h k v (HBitmap bm (cs[bit_index bm (hash_chunk h level) := c']))"
proof -
  let ?c = "hash_chunk h level" and ?i = "bit_index bm (hash_chunk h level)"
  have l: "length cs = popcount32 bm" using n by simp
  have i: "?i < length cs" using index_less [OF b] l by simp
  have m: "child_at bm cs ?c = Some (cs ! ?i)" using b i by (simp add: child_at_def)
  note old = bitmap_child [OF n m hash_chunk_less]
  note up = child_at_update [OF l b hash_chunk_less hash_chunk_less]
  have "in_chunk level ?c c'" using insertedD(2) [OF c] old(2) by (force simp: in_chunk_def)
  then have ch: "in_chunk level d x" if "d < 32" "child_at bm (cs[?i := c']) d = Some x" for d x
    using that n child_at_update [OF l b hash_chunk_less that(1), of c'] by (auto split: if_splits)
  have "\<forall>x\<in>set (cs[?i := c']). node_ok eq (level + 1) x" using n insertedD(1) [OF c] set_update_subset_insert by fastforce
  then have ok: "node_ok eq level (HBitmap bm (cs[?i := c']))" using n l ch by simp
  have "node_find eq (Some (HBitmap bm (cs[?i := c']))) h' k' level =
      (if h' = h \<and> eq k k' then Some v else node_find eq (Some (HBitmap bm cs)) h' k' level)" for h' k'
    using insertedD(3) [OF c, of h' k'] m by (auto simp: up)
  moreover have "he_hash ` set (node_entries (HBitmap bm (cs[?i := c']))) \<subseteq> insert h (he_hash ` set (node_entries (HBitmap bm cs)))"
  proof -
    have "he_hash ` set (node_entries x) \<subseteq> insert h (he_hash ` set (node_entries (HBitmap bm cs)))" if "x \<in> set (cs[?i := c'])" for x
    proof (cases "x = c'")
      case True
      then show ?thesis using insertedD(2) [OF c] old(3) by force
    next
      case False
      then have "x \<in> set cs" using that set_update_subset_insert by fastforce
      then show ?thesis by force
    qed
    then show ?thesis by force
  qed
  moreover have "length (node_entries (HBitmap bm (cs[?i := c']))) =
      length (node_entries (HBitmap bm cs)) + (if node_find eq (Some (HBitmap bm cs)) h k level = None then 1 else 0)"
    using concat_update_length [OF i, of node_entries c'] insertedD(4) [OF c] m by (auto split: if_splits)
  ultimately show ?thesis using ok by (simp add: inserted_def)
qed

lemma inserted_put:
  assumes eq: "equivp eq" and n: "node_ok eq level (HBitmap bm cs)" and b: "\<not> bit bm (hash_chunk h level)"
  shows "inserted eq level (Some (HBitmap bm cs)) h k v
    (HBitmap (bm OR slot_bit (hash_chunk h level)) (put_child [0..<32] bm (hash_chunk h level) (collision_node_create (hash_chunk h level) h k v) cs))"
proof -
  let ?c = "hash_chunk h level" and ?f = "collision_node_create (hash_chunk h level) h k v"
  let ?bm = "bm OR slot_bit ?c" and ?cs = "put_child [0..<32] bm ?c ?f cs"
  have l: "length cs = popcount32 bm" using n by simp
  have lf: "length cs = length (filter (bit bm) [0..<32])" using l unfolding popcount32_def .
  have "?c \<in> set [0..<32]" by (simp only: set_upt atLeastLessThan_iff hash_chunk_less le0 simp_thms)
  then have p: "length ?cs = popcount32 ?bm" "mset ?cs = mset cs + {#?f#}"
    "map_of (zip (slots_of ?bm) ?cs) = (map_of (zip (slots_of bm) cs))(?c \<mapsto> ?f)"
    using put_child_ok [OF b hash_chunk_less distinct_upt lf] unfolding popcount32_def slots_of_def by metis+
  have at: "child_at ?bm ?cs d = (if d = ?c then Some ?f else child_at bm cs d)" if "d < 32" for d
    using child_at_map [OF p(1) that] child_at_map [OF l that] p(3) by simp
  have fr: "inserted eq (level + 1) None h k v ?f" by (rule inserted_fresh [OF eq])
  have "set ?cs = insert ?f (set cs)" using p(2) by (metis add_mset_add_single set_mset_add_mset_insert set_mset_mset)
  moreover have "in_chunk level ?c ?f" by (simp add: in_chunk_def collision_node_create_def)
  ultimately have ok: "node_ok eq level (HBitmap ?bm ?cs)" and e: "he_hash ` set (node_entries (HBitmap ?bm ?cs)) \<subseteq> insert h (he_hash ` set (node_entries (HBitmap bm cs)))"
    using n p(1) at insertedD(1,2) [OF fr] by auto
  have none: "child_at bm cs ?c = None" using b by (simp add: child_at_def)
  have "node_find eq (Some (HBitmap ?bm ?cs)) h' k' level = (if h' = h \<and> eq k k' then Some v else node_find eq (Some (HBitmap bm cs)) h' k' level)" for h' k'
    using insertedD(3) [OF fr, of h' k'] none by (auto simp: at)
  moreover have "length (node_entries (HBitmap ?bm ?cs)) = length (node_entries (HBitmap bm cs)) + 1"
    using p(2) by (simp add: concat_length_mset collision_node_create_def)
  ultimately show ?thesis using ok e none by (simp add: inserted_def)
qed

text \<open>A chain that is pushed down becomes a bitmap of its own slot and the new one.\<close>

lemma popcount_card: "popcount32 bm = card {c. bit bm c \<and> c < 32}"
proof -
  have "popcount32 bm = card (set (slots_of bm))" by (simp add: slots_popcount distinct_card slots_distinct)
  also have "set (slots_of bm) = {c. bit bm c \<and> c < 32}" using slots_set by auto
  finally show ?thesis .
qed

lemma bit_pair: "bit (slot_bit a OR slot_bit b) c \<longleftrightarrow> (c = a \<or> c = b) \<and> c < 32"
  by (auto simp: bit_or_iff bit_slot_bit)

lemma popcount_pair: "a < 32 \<Longrightarrow> b < 32 \<Longrightarrow> a \<noteq> b \<Longrightarrow> popcount32 (slot_bit a OR slot_bit b) = 2"
proof -
  assume "a < 32" "b < 32" "a \<noteq> b"
  then have "{c. bit (slot_bit a OR slot_bit b) c \<and> c < 32} = {a, b}" unfolding bit_pair by auto
  then show ?thesis using \<open>a \<noteq> b\<close> by (simp add: popcount_card)
qed

lemma popcount_one: "a < 32 \<Longrightarrow> popcount32 (slot_bit a) = 1"
proof -
  assume "a < 32"
  then have "{c. bit (slot_bit a) c \<and> c < 32} = {a}" unfolding bit_slot_bit by auto
  then show ?thesis by (simp add: popcount_card)
qed

lemma pair_cases:
  assumes "a < 32" "b < 32" "a \<noteq> b"
  shows "(replicate 2 x)[bit_index (slot_bit a OR slot_bit b) a := x, bit_index (slot_bit a OR slot_bit b) b := y] \<in> {[x, y], [y, x]}"
proof -
  have "bit_index (slot_bit a OR slot_bit b) b < 2" using index_less [of "slot_bit a OR slot_bit b" b] popcount_pair [OF assms] assms bit_pair by simp
  then consider "bit_index (slot_bit a OR slot_bit b) b = 0" | "bit_index (slot_bit a OR slot_bit b) b = 1" by linarith
  moreover have "(replicate 2 x)[i := x] = [x, x]" for i by (cases i) (auto simp: numeral_2_eq_2 split: nat.split)
  ultimately show ?thesis by cases simp_all
qed

lemma inserted_two:
  assumes eq: "equivp eq" and n: "chain_ok eq es" and c: "hash_chunk (he_hash (hd es)) level \<noteq> hash_chunk h level" and l: "level \<le> 12"
    and pc: "popcount32 bm = length cs"
    and cs: "cs \<in> {[HCollision prefix es, collision_node_create (hash_chunk h level) h k v], [collision_node_create (hash_chunk h level) h k v, HCollision prefix es]}"
    and at: "\<And>d. d < 32 \<Longrightarrow> child_at bm cs d = (if d = hash_chunk h level then Some (collision_node_create (hash_chunk h level) h k v)
        else if d = hash_chunk (he_hash (hd es)) level then Some (HCollision prefix es) else None)"
  shows "inserted eq level (Some (HCollision prefix es)) h k v (HBitmap bm cs)"
proof -
  let ?a = "hash_chunk (he_hash (hd es)) level" and ?b = "hash_chunk h level" and ?f = "collision_node_create (hash_chunk h level) h k v"
  let ?n = "HCollision prefix es"
  have fr: "inserted eq (level + 1) None h k v ?f" by (rule inserted_fresh [OF eq])
  have ic: "in_chunk level ?b ?f" "in_chunk level ?a ?n"
    using n by (auto simp: in_chunk_def collision_node_create_def chain_ok_def)
  have "node_ok eq (level + 1) m" if "m \<in> set cs" for m using cs that n insertedD(1) [OF fr] by auto
  then have ok: "node_ok eq level (HBitmap bm cs)"
    using l pc ic by (auto simp: at split: if_splits)
  have "node_find eq (Some (HBitmap bm cs)) h' k' level = (if h' = h \<and> eq k k' then Some v else node_find eq (Some ?n) h' k' level)" for h' k'
  proof -
    have "chain_find eq es h' k' = None" if "hash_chunk h' level \<noteq> ?a"
      using n that by (intro chain_find_hash) (auto simp: chain_ok_def)
    then show ?thesis using insertedD(3) [OF fr, of h' k'] c by (auto simp: at)
  qed
  moreover have "chain_find eq es h k = None" using n c by (intro chain_find_hash) (auto simp: chain_ok_def)
  moreover have "he_hash ` set (node_entries (HBitmap bm cs)) \<subseteq> insert h (he_hash ` set es)"
      "length (node_entries (HBitmap bm cs)) = length es + 1"
    using cs by (auto simp: collision_node_create_def)
  ultimately show ?thesis using ok by (simp add: inserted_def)
qed

lemma inserted_pair:
  assumes eq: "equivp eq" and n: "chain_ok eq es" and c: "hash_chunk (he_hash (hd es)) level \<noteq> hash_chunk h level" and l: "level \<le> 12"
  shows "inserted eq level (Some (HCollision prefix es)) h k v
    (HBitmap (slot_bit (hash_chunk (he_hash (hd es)) level) OR slot_bit (hash_chunk h level))
      ((replicate 2 (HCollision prefix es))
        [bit_index (slot_bit (hash_chunk (he_hash (hd es)) level) OR slot_bit (hash_chunk h level)) (hash_chunk (he_hash (hd es)) level) := HCollision prefix es,
         bit_index (slot_bit (hash_chunk (he_hash (hd es)) level) OR slot_bit (hash_chunk h level)) (hash_chunk h level)
           := collision_node_create (hash_chunk h level) h k v]))"
    (is "inserted eq level (Some ?n) h k v (HBitmap ?bm ?cs)")
proof (rule inserted_two [OF eq n c l])
  let ?a = "hash_chunk (he_hash (hd es)) level" and ?b = "hash_chunk h level"
  show "?cs \<in> {[?n, collision_node_create ?b h k v], [collision_node_create ?b h k v, ?n]}"
    by (rule pair_cases [OF hash_chunk_less hash_chunk_less c])
  have pc: "length (replicate 2 ?n) = popcount32 ?bm" "length ((replicate 2 ?n)[bit_index ?bm ?a := ?n]) = popcount32 ?bm"
    using popcount_pair [OF hash_chunk_less hash_chunk_less c] by simp_all
  show "popcount32 ?bm = length ?cs" using pc by (simp only: length_list_update)
  have ba: "bit ?bm ?a" "bit ?bm ?b" by (simp_all add: bit_pair)
  fix d :: nat
  assume d: "d < 32"
  have "child_at ?bm ?cs d = (if d = ?b then Some (collision_node_create ?b h k v) else child_at ?bm ((replicate 2 ?n)[bit_index ?bm ?a := ?n]) d)"
    by (rule child_at_update [OF pc(2) ba(2) hash_chunk_less d])
  also have "child_at ?bm ((replicate 2 ?n)[bit_index ?bm ?a := ?n]) d = (if d = ?a then Some ?n else child_at ?bm (replicate 2 ?n) d)"
    by (rule child_at_update [OF pc(1) ba(1) hash_chunk_less d])
  finally show "child_at ?bm ?cs d = (if d = ?b then Some (collision_node_create ?b h k v) else if d = ?a then Some ?n else None)"
    by (simp add: child_at_def [of ?bm "replicate 2 ?n"] bit_pair)
qed

lemma inserted_wrap:
  assumes n: "inserted eq (level + 1) (Some (HCollision prefix es)) h k v c" and e: "\<forall>e\<in>set es. hash_chunk (he_hash e) level = hash_chunk h level"
    and l: "level \<le> 12"
  shows "inserted eq level (Some (HCollision prefix es)) h k v (HBitmap (slot_bit (hash_chunk h level)) [c])"
proof -
  let ?b = "hash_chunk h level"
  have pc: "popcount32 (slot_bit ?b) = 1" using popcount_one by simp
  have at: "child_at (slot_bit ?b) [c] d = (if d = ?b then Some c else None)" if "d < 32" for d
    using index_less [of "slot_bit ?b" ?b] pc by (auto simp: child_at_def bit_slot_bit)
  have "in_chunk level ?b c" using insertedD(2) [OF n] e by (force simp: in_chunk_def)
  then have ok: "node_ok eq level (HBitmap (slot_bit ?b) [c])"
    using insertedD(1) [OF n] l pc by (auto simp: at split: if_splits)
  have "node_find eq (Some (HBitmap (slot_bit ?b) [c])) h' k' level =
      (if h' = h \<and> eq k k' then Some v else node_find eq (Some (HCollision prefix es)) h' k' level)" for h' k'
  proof -
    have "chain_find eq es h' k' = None" if "hash_chunk h' level \<noteq> ?b"
      using e that by (intro chain_find_hash) auto
    then show ?thesis using insertedD(3) [OF n, of h' k'] by (auto simp: at)
  qed
  moreover have "he_hash ` set (node_entries (HBitmap (slot_bit ?b) [c])) \<subseteq> insert h (he_hash ` set (opt_entries (Some (HCollision prefix es))))"
      "length (node_entries (HBitmap (slot_bit ?b) [c])) = length (opt_entries (Some (HCollision prefix es))) +
        (if node_find eq (Some (HCollision prefix es)) h k level = None then 1 else 0)"
    using insertedD(2,4) [OF n] by simp_all
  ultimately show ?thesis using ok unfolding inserted_def by blast
qed

lemma insert_bitmap:
  "node_insert (Suc d) eq (Some (HBitmap bm cs)) h k v level =
     (if bit bm (hash_chunk h level) then
        map_option (\<lambda>c. HBitmap bm (cs[bit_index bm (hash_chunk h level) := c]))
          (node_insert d eq (Some (cs ! bit_index bm (hash_chunk h level))) h k v (level + 1))
      else Some (HBitmap (bm OR slot_bit (hash_chunk h level))
        (put_child [0..<32] bm (hash_chunk h level) (collision_node_create (hash_chunk h level) h k v) cs)))"
  unfolding node_insert.simps Let_def option.case hamtnode.case ..

lemma insert_chain:
  "node_insert (Suc d) eq (Some (HCollision prefix es)) h k v level =
     (if hash_chunk (he_hash (hd es)) level \<noteq> hash_chunk h level then
        Some (HBitmap (slot_bit (hash_chunk (he_hash (hd es)) level) OR slot_bit (hash_chunk h level))
          ((replicate 2 (HCollision prefix es))
            [bit_index (slot_bit (hash_chunk (he_hash (hd es)) level) OR slot_bit (hash_chunk h level)) (hash_chunk (he_hash (hd es)) level) := HCollision prefix es,
             bit_index (slot_bit (hash_chunk (he_hash (hd es)) level) OR slot_bit (hash_chunk h level)) (hash_chunk h level)
               := collision_node_create (hash_chunk h level) h k v]))
      else if \<exists>e\<in>set es. he_match eq h k e then Some (HCollision prefix (update_entry eq h k v es))
      else if he_hash (hd es) = h then Some (HCollision prefix (\<lparr>he_hash = h, he_key = k, he_val = v\<rparr> # es))
      else map_option (\<lambda>c. HBitmap (slot_bit (hash_chunk h level)) [c]) (node_insert d eq (Some (HCollision prefix es)) h k v (level + 1)))"
  unfolding node_insert.simps Let_def option.case hamtnode.case ..

text \<open>Fourteen levels are enough: the chunks of thirteen make the whole hash.\<close>

lemma node_insert_ok:
  assumes eq: "equivp eq"
  shows "\<forall>m. n = Some m \<longrightarrow> node_ok eq level m \<Longrightarrow> \<forall>e\<in>set (opt_entries n). \<forall>j<level. hash_chunk (he_hash e) j = hash_chunk h j \<Longrightarrow>
    14 \<le> level + d \<Longrightarrow> level \<le> 13 \<Longrightarrow> \<exists>n'. node_insert d eq n h k v level = Some n' \<and> inserted eq level n h k v n'"
proof (induction d arbitrary: n level)
  case (Suc d)
  let ?c = "hash_chunk h level"
  show ?case
  proof (cases n)
    case None
    then show ?thesis using inserted_fresh [OF eq] by simp
  next
    case (Some m)
    show ?thesis
    proof (cases m)
      case (HBitmap bm cs)
      have ok: "node_ok eq level (HBitmap bm cs)" using Suc.prems(1) Some HBitmap by simp
      show ?thesis
      proof (cases "bit bm ?c")
        case True
        have m: "child_at bm cs ?c = Some (cs ! bit_index bm ?c)"
          using True index_less [OF True] ok by (simp add: child_at_def)
        note old = bitmap_child [OF ok m hash_chunk_less]
        have "\<forall>e\<in>set (opt_entries (Some (cs ! bit_index bm ?c))). \<forall>j<level + 1. hash_chunk (he_hash e) j = hash_chunk h j"
          using old Suc.prems(2) Some HBitmap by (force simp: in_chunk_def less_Suc_eq)
        then obtain c' where c': "node_insert d eq (Some (cs ! bit_index bm ?c)) h k v (level + 1) = Some c'"
            "inserted eq (level + 1) (Some (cs ! bit_index bm ?c)) h k v c'"
          using Suc.IH [of "Some (cs ! bit_index bm ?c)" "level + 1"] old(1) Suc.prems(3) ok by auto
        then show ?thesis using inserted_update [OF ok True c'(2)] True Some HBitmap by (simp add: insert_bitmap)
      next
        case False
        have "inserted eq level n h k v (HBitmap (bm OR slot_bit ?c) (put_child [0..<32] bm ?c (collision_node_create ?c h k v) cs))"
          using inserted_put [OF eq ok False] Some HBitmap by blast
        moreover have "node_insert (Suc d) eq n h k v level =
            Some (HBitmap (bm OR slot_bit ?c) (put_child [0..<32] bm ?c (collision_node_create ?c h k v) cs))"
          using False unfolding Some HBitmap insert_bitmap by (simp only: if_False)
        ultimately show ?thesis by blast
      qed
    next
      case (HArray cs)
      then show ?thesis using Suc.prems(1) Some by simp
    next
      case (HCollision prefix es)
      have ch: "chain_ok eq es" using Suc.prems(1) Some HCollision by simp
      have hd: "hd es \<in> set es" using ch by (simp add: chain_ok_def)
      have all: "\<forall>e\<in>set es. he_hash (hd es) = he_hash e" using ch by (simp add: chain_ok_def)
      have same: "he_hash (hd es) = h" if "13 \<le> level \<or> (level = 12 \<and> hash_chunk (he_hash (hd es)) level = ?c)"
      proof (rule chunks_determine)
        fix j :: nat
        assume "j < 13"
        then show "hash_chunk (he_hash (hd es)) j = hash_chunk h j"
          using that Suc.prems(2) Some HCollision hd by (cases "j = 12") auto
      qed
      show ?thesis
      proof (cases "hash_chunk (he_hash (hd es)) level = ?c")
        case False
        then have "\<not> 13 \<le> level" using same by auto
        then have l: "level \<le> 12" by linarith
        then show ?thesis using inserted_pair [OF eq ch False l] False unfolding Some HCollision insert_chain by (simp only: if_True not_False_eq_True) blast
      next
        case c: True
        show ?thesis
        proof (cases "\<exists>e\<in>set es. he_match eq h k e")
          case True
          have "length (update_entry eq h k v es) = length es" by (metis length_map update_entry_keys(1))
          then have "inserted eq level n h k v (HCollision prefix (update_entry eq h k v es))"
            using True Some HCollision chain_ok_update [OF ch] update_entry_set [of eq h k v es] find_update [OF eq True]
            by (auto simp: inserted_def chain_find_None)
          then show ?thesis using c True Some HCollision by (simp add: insert_chain)
        next
          case none: False
          show ?thesis
          proof (cases "he_hash (hd es) = h")
            case True
            have "\<not> eq k (he_key e)" if "e \<in> set es" for e
              using none that all True eq by (auto simp: he_match_def dest: equivp_symp)
            then have "chain_ok eq (\<lparr>he_hash = h, he_key = k, he_val = v\<rparr> # es)" using ch all True by (simp add: chain_ok_def)
            then have "inserted eq level n h k v (HCollision prefix (\<lparr>he_hash = h, he_key = k, he_val = v\<rparr> # es))"
              using none Some HCollision by (auto simp: inserted_def chain_find_def he_match_def find_None_iff)
            then show ?thesis using c none True Some HCollision by (simp add: insert_chain)
          next
            case False
            then have "\<not> 13 \<le> level" "level \<noteq> 12" using same c by auto
            then have l: "level \<le> 11" by linarith
            have e: "\<forall>e\<in>set es. hash_chunk (he_hash e) level = ?c" using all c by metis
            then have "\<forall>e\<in>set (opt_entries (Some (HCollision prefix es))). \<forall>j<level + 1. hash_chunk (he_hash e) j = hash_chunk h j"
              using Suc.prems(2) Some HCollision by (auto simp: less_Suc_eq)
            then obtain c' where c': "node_insert d eq (Some (HCollision prefix es)) h k v (level + 1) = Some c'"
                "inserted eq (level + 1) (Some (HCollision prefix es)) h k v c'"
              using Suc.IH [of "Some (HCollision prefix es)" "level + 1"] ch Suc.prems(3) l by auto
            then show ?thesis using inserted_wrap [OF c'(2) e] l c none False Some HCollision by (simp add: insert_chain)
          qed
        qed
      qed
    qed
  qed
qed simp

section \<open>Deletion\<close>

definition deleted :: "(int \<Rightarrow> int \<Rightarrow> bool) \<Rightarrow> nat \<Rightarrow> hamtnode \<Rightarrow> u64 \<Rightarrow> int \<Rightarrow> hamtnode option \<Rightarrow> bool" where
  "deleted eq level n h k r \<longleftrightarrow> (\<forall>m. r = Some m \<longrightarrow> node_ok eq level m)
     \<and> he_hash ` set (opt_entries r) \<subseteq> he_hash ` set (node_entries n)
     \<and> (\<forall>h' k'. node_find eq r h' k' level = (if h' = h \<and> eq k k' then None else node_find eq (Some n) h' k' level))
     \<and> length (opt_entries r) + (if node_find eq (Some n) h k level = None then 0 else 1) = length (node_entries n)"

lemma deletedD:
  assumes "deleted eq level n h k r"
  shows "r = Some m \<Longrightarrow> node_ok eq level m" "he_hash ` set (opt_entries r) \<subseteq> he_hash ` set (node_entries n)"
    "node_find eq r h' k' level = (if h' = h \<and> eq k k' then None else node_find eq (Some n) h' k' level)"
    "length (opt_entries r) + (if node_find eq (Some n) h k level = None then 0 else 1) = length (node_entries n)"
  using assms unfolding deleted_def by blast+

lemma deleted_update:
  assumes n: "node_ok eq level (HBitmap bm cs)" and m: "child_at bm cs (hash_chunk h level) = Some m"
    and c: "deleted eq (level + 1) m h k (Some c')"
  shows "deleted eq level (HBitmap bm cs) h k (Some (HBitmap bm (cs[bit_index bm (hash_chunk h level) := c'])))"
proof -
  let ?c = "hash_chunk h level" and ?i = "bit_index bm (hash_chunk h level)"
  have l: "length cs = popcount32 bm" using n by simp
  have b: "bit bm ?c" "?i < length cs" "cs ! ?i = m" using m by (auto simp: child_at_def split: if_splits)
  note old = bitmap_child [OF n m hash_chunk_less]
  note up = child_at_update [OF l b(1) hash_chunk_less hash_chunk_less]
  have "in_chunk level ?c c'" using deletedD(2) [OF c] old(2) by (force simp: in_chunk_def)
  then have ch: "in_chunk level d x" if "d < 32" "child_at bm (cs[?i := c']) d = Some x" for d x
    using that n child_at_update [OF l b(1) hash_chunk_less that(1), of c'] by (auto split: if_splits)
  have "\<forall>x\<in>set (cs[?i := c']). node_ok eq (level + 1) x" using n deletedD(1) [OF c refl] set_update_subset_insert by fastforce
  then have ok: "node_ok eq level (HBitmap bm (cs[?i := c']))" using n l ch by simp
  have "node_find eq (Some (HBitmap bm (cs[?i := c']))) h' k' level =
      (if h' = h \<and> eq k k' then None else node_find eq (Some (HBitmap bm cs)) h' k' level)" for h' k'
    using deletedD(3) [OF c, of h' k'] m by (auto simp: up)
  moreover have "he_hash ` set (node_entries (HBitmap bm (cs[?i := c']))) \<subseteq> he_hash ` set (node_entries (HBitmap bm cs))"
  proof -
    have "he_hash ` set (node_entries x) \<subseteq> he_hash ` set (node_entries (HBitmap bm cs))" if "x \<in> set (cs[?i := c'])" for x
    proof (cases "x = c'")
      case True
      then show ?thesis using deletedD(2) [OF c] old(3) by force
    next
      case False
      then have "x \<in> set cs" using that set_update_subset_insert by fastforce
      then show ?thesis by force
    qed
    then show ?thesis by force
  qed
  moreover have "length (node_entries (HBitmap bm (cs[?i := c']))) + (if node_find eq (Some (HBitmap bm cs)) h k level = None then 0 else 1) =
      length (node_entries (HBitmap bm cs))"
    using concat_update_length [OF b(2), of node_entries c'] deletedD(4) [OF c] m b(3) by (auto split: if_splits)
  ultimately show ?thesis using ok by (simp add: deleted_def)
qed

lemma deleted_drop:
  assumes n: "node_ok eq level (HBitmap bm cs)" and m: "child_at bm cs (hash_chunk h level) = Some m"
    and c: "deleted eq (level + 1) m h k None"
  shows "deleted eq level (HBitmap bm cs) h k
    (if popcount32 (bm AND NOT (slot_bit (hash_chunk h level))) = 0 then None
     else Some (HBitmap (bm AND NOT (slot_bit (hash_chunk h level))) (drop_child [0..<32] bm (hash_chunk h level) cs)))"
proof -
  let ?c = "hash_chunk h level" and ?bm = "bm AND NOT (slot_bit (hash_chunk h level))"
  let ?cs = "drop_child [0..<32] bm ?c cs"
  have l: "length cs = popcount32 bm" using n by simp
  have lf: "length cs = length (filter (bit bm) [0..<32])" using l unfolding popcount32_def .
  have p: "length ?cs = popcount32 ?bm" "map_of (zip (slots_of ?bm) ?cs) = (map_of (zip (slots_of bm) cs))(?c := None)"
    "mset cs = mset ?cs + (case map_of (zip (slots_of bm) cs) ?c of None \<Rightarrow> {#} | Some x \<Rightarrow> {#x#})"
    using drop_child_ok [OF distinct_upt lf, of ?c] unfolding popcount32_def slots_of_def by metis+
  have ms: "mset cs = add_mset m (mset ?cs)" using p(3) m unfolding child_at_map [OF l hash_chunk_less] by simp
  have at: "child_at ?bm ?cs d = (if d = ?c then None else child_at bm cs d)" if "d < 32" for d
    using child_at_map [OF p(1) that] child_at_map [OF l that] p(2) by simp
  have sub: "set ?cs \<subseteq> set cs" using ms by (metis set_mset_add_mset_insert set_mset_mset subset_insertI)
  have ok: "node_ok eq level (HBitmap ?bm ?cs)" using n p(1) at sub by auto
  have none: "node_find eq (child_at ?bm ?cs (hash_chunk h' level)) h' k' (Suc level) =
      (if h' = h \<and> eq k k' then None else node_find eq (child_at bm cs (hash_chunk h' level)) h' k' (Suc level))" for h' k'
    using deletedD(3) [OF c, of h' k'] m by (auto simp: at)
  have len: "length (concat (map node_entries cs)) = length (concat (map node_entries ?cs)) + length (node_entries m)"
    unfolding concat_length_mset ms by simp
  have lm: "length (node_entries m) = (if node_find eq (Some m) h k (level + 1) = None then 0 else 1)" using deletedD(4) [OF c] by simp
  show ?thesis
  proof (cases "popcount32 ?bm = 0")
    case True
    then have "?cs = []" using p(1) by simp
    moreover from True have "child_at ?bm ?cs d = None" for d using \<open>?cs = []\<close> by (simp add: child_at_def)
    ultimately have "node_find eq (child_at bm cs (hash_chunk h' level)) h' k' (Suc level) = None" if "\<not> (h' = h \<and> eq k k')" for h' k'
      using none [of h' k'] that by simp
    then show ?thesis using True \<open>?cs = []\<close> len lm m unfolding deleted_def by auto
  next
    case False
    have "he_hash ` set (node_entries (HBitmap ?bm ?cs)) \<subseteq> he_hash ` set (node_entries (HBitmap bm cs))"
      using sub by (intro image_mono) auto
    then show ?thesis using False ok none len lm m unfolding deleted_def by simp
  qed
qed

lemma delete_chain:
  assumes eq: "equivp eq" and ch: "chain_ok eq es"
  shows "deleted eq level (HCollision prefix es) h k (node_delete eq (HCollision prefix es) h k level)"
proof (cases "\<exists>e\<in>set es. he_match eq h k e")
  case True
  have so: "sorted_wrt (\<lambda>a b. \<not> eq (he_key a) (he_key b)) es" using ch by (simp add: chain_ok_def)
  have f: "chain_find eq (remove_entry eq h k es) h' k' = (if h' = h \<and> eq k k' then None else chain_find eq es h' k')" for h' k'
    by (rule find_remove [OF eq so])
  have len: "length (remove_entry eq h k es) + 1 = length es" by (rule remove_entry_length [OF True])
  have found: "chain_find eq es h k \<noteq> None" using True by (simp add: chain_find_None)
  show ?thesis
  proof (cases "remove_entry eq h k es = []")
    case nil: True
    have "chain_find eq [] h' k' = None" for h' k' by (simp add: chain_find_def)
    then have "chain_find eq es h' k' = None" if "\<not> (h' = h \<and> eq k k')" for h' k'
      using f [of h' k'] that unfolding nil by (simp only: if_False)
    then show ?thesis using True nil len found unfolding deleted_def by (auto simp: Let_def)
  next
    case False
    then show ?thesis using True len found f chain_ok_remove [OF ch False] remove_entry_set [of eq h k es]
      by (auto simp: deleted_def Let_def)
  qed
next
  case False
  have "chain_find eq es h k' = None" if "eq k k'" for k'
    using False that eq by (auto simp: chain_find_None he_match_def) (metis equivp_symp equivp_transp)
  then show ?thesis using False ch chain_find_None [of eq es h k] by (auto simp: deleted_def)
qed

lemma node_delete_ok:
  "equivp eq \<Longrightarrow> node_ok eq level n \<Longrightarrow> deleted eq level n h k (node_delete eq n h k level)"
proof (induction eq n h k level rule: node_delete.induct)
  case (1 eq bm cs h k level)
  let ?c = "hash_chunk h level"
  show ?case
  proof (cases "child_at bm cs ?c")
    case None
    then show ?thesis using 1(3) by (auto simp: deleted_def Let_def)
  next
    case (Some m)
    have d: "deleted eq (level + 1) m h k (node_delete eq m h k (level + 1))"
      using 1(1) [OF refl Some 1(2)] bitmap_child(1) [OF 1(3) Some hash_chunk_less] by simp
    show ?thesis
    proof (cases "node_delete eq m h k (level + 1)")
      case None
      have "node_delete eq (HBitmap bm cs) h k level = (if popcount32 (bm AND NOT (slot_bit ?c)) = 0 then None
          else Some (HBitmap (bm AND NOT (slot_bit ?c)) (drop_child [0..<32] bm ?c cs)))"
        unfolding node_delete.simps Let_def Some option.case None ..
      then show ?thesis using deleted_drop [OF 1(3) Some d [unfolded None]] by (simp only:)
    next
      case (Some c')
      then show ?thesis using deleted_update [OF 1(3) \<open>child_at bm cs ?c = Some m\<close> d [unfolded Some]] \<open>child_at bm cs ?c = Some m\<close>
        by (simp add: Let_def)
    qed
  qed
next
  case (3 eq prefix es h k level)
  then show ?case using delete_chain by simp
qed simp

end
