(* ===== verification/HamtBulk.thy ===== *)
theory HamtBulk
  imports HamtIter
begin

text \<open>
  The bulk operations of \<open>hamt.c\<close>: loops of the iterator over one map that build or compare
  another. A null map is None where the code tells it from an empty one. The result of an insertion
  is optional because of its fuel, and so is that of a loop of insertions.
\<close>

text \<open>One insertion of a loop, into the map the loop has so far.\<close>

definition put_step :: "(int \<Rightarrow> int \<Rightarrow> bool) \<Rightarrow> hamtentry \<Rightarrow> int \<Rightarrow> hamt option \<Rightarrow> hamt option" where
  "put_step eq e v r = Option.bind r (\<lambda>m. tur_hamt_set eq m (he_hash e) (he_key e) v)"

definition tur_hamt_merge :: "(int \<Rightarrow> int \<Rightarrow> bool) \<Rightarrow> hamt option \<Rightarrow> hamt option \<Rightarrow> hamt option option" where
  "tur_hamt_merge eq a b =
     (case a of
        None \<Rightarrow> Some b
      | Some ma \<Rightarrow>
          (case b of
             None \<Rightarrow> Some a
           | Some mb \<Rightarrow> map_option Some (iter_loop (\<lambda>e. put_step eq e (he_val e)) (tur_hamt_iter_init (hm_root mb)) (Some ma))))"

definition tur_hamt_map :: "(int \<Rightarrow> int \<Rightarrow> bool) \<Rightarrow> hamt \<Rightarrow> (int \<Rightarrow> int) \<Rightarrow> hamt option" where
  "tur_hamt_map eq m f = iter_loop (\<lambda>e. put_step eq e (f (he_val e))) (tur_hamt_iter_init (hm_root m)) (Some tur_hamt_new)"

definition tur_hamt_filter :: "(int \<Rightarrow> int \<Rightarrow> bool) \<Rightarrow> hamt \<Rightarrow> (int \<Rightarrow> int \<Rightarrow> bool) \<Rightarrow> hamt option" where
  "tur_hamt_filter eq m p =
     iter_loop (\<lambda>e r. if p (he_key e) (he_val e) then put_step eq e (he_val e) r else r)
       (tur_hamt_iter_init (hm_root m)) (Some tur_hamt_new)"

definition tur_hamt_reduce :: "hamt \<Rightarrow> ('a \<Rightarrow> int \<Rightarrow> int \<Rightarrow> 'a) \<Rightarrow> 'a \<Rightarrow> 'a" where
  "tur_hamt_reduce m f init = iter_loop (\<lambda>e acc. f acc (he_key e) (he_val e)) (tur_hamt_iter_init (hm_root m)) init"

text \<open>A value of 0 in the first map counts as missing.\<close>

definition merge_value :: "(int \<Rightarrow> int \<Rightarrow> bool) \<Rightarrow> (int \<Rightarrow> int \<Rightarrow> int) \<Rightarrow> hamtentry \<Rightarrow> hamt \<Rightarrow> int" where
  "merge_value eq f e m =
     (let va = tur_hamt_get eq m (he_hash e) (he_key e) in if va \<noteq> 0 then f va (he_val e) else he_val e)"

definition tur_hamt_merge_with :: "(int \<Rightarrow> int \<Rightarrow> bool) \<Rightarrow> hamt option \<Rightarrow> hamt option \<Rightarrow> (int \<Rightarrow> int \<Rightarrow> int) \<Rightarrow> hamt option option" where
  "tur_hamt_merge_with eq a b f =
     (case a of
        None \<Rightarrow> Some b
      | Some ma \<Rightarrow>
          (case b of
             None \<Rightarrow> Some a
           | Some mb \<Rightarrow> map_option Some
               (iter_loop (\<lambda>e r. Option.bind r (\<lambda>m. put_step eq e (merge_value eq f e m) (Some m)))
                  (tur_hamt_iter_init (hm_root mb)) (Some ma))))"

section \<open>Equality of two maps\<close>

definition tur_hamt_get_dynamic :: "(int \<Rightarrow> int \<Rightarrow> bool) \<Rightarrow> hamt \<Rightarrow> u64 \<Rightarrow> int \<Rightarrow> (int \<Rightarrow> int \<Rightarrow> bool) option \<Rightarrow> int" where
  "tur_hamt_get_dynamic eq m h k keyeq =
     (case keyeq of Some f \<Rightarrow> tur_hamt_get_eq m h k (Some f) | None \<Rightarrow> tur_hamt_get eq m h k)"

definition tur_hamt_has_dynamic :: "(int \<Rightarrow> int \<Rightarrow> bool) \<Rightarrow> hamt \<Rightarrow> u64 \<Rightarrow> int \<Rightarrow> (int \<Rightarrow> int \<Rightarrow> bool) option \<Rightarrow> bool" where
  "tur_hamt_has_dynamic eq m h k keyeq =
     (case keyeq of Some f \<Rightarrow> tur_hamt_has_eq m h k (Some f) | None \<Rightarrow> tur_hamt_has eq m h k)"

text \<open>The loop leaves at the first entry that the other map does not have, or has with another value.\<close>

function eq_loop :: "(u64 \<Rightarrow> int \<Rightarrow> int) \<Rightarrow> (int \<Rightarrow> int \<Rightarrow> bool) \<Rightarrow> hamtiter \<Rightarrow> bool" where
  "eq_loop look cmp it =
     (case tur_hamt_iter_next it of
        (None, it') \<Rightarrow> True
      | (Some e, it') \<Rightarrow>
          (let w = look (he_hash e) (he_key e) in
           if w = 0 then False
           else if \<not> cmp (he_val e) w then False
           else eq_loop look cmp it'))"
  by pat_completeness auto

termination
  by (relation "measure (\<lambda>(_, _, it). iter_work it)") (auto dest: iter_next_less [OF sym])

declare eq_loop.simps [simp del]

text \<open>A handle may be null, and so may the map it holds, which is then an empty one.\<close>

definition null_map :: "hamt option \<Rightarrow> hamt" where
  "null_map m = (case m of None \<Rightarrow> tur_hamt_new | Some x \<Rightarrow> x)"

definition tur_hamt_eq_dynamic :: "(int \<Rightarrow> int \<Rightarrow> bool) \<Rightarrow> hamt option option \<Rightarrow> hamt option option \<Rightarrow> (int \<Rightarrow> int \<Rightarrow> bool) \<Rightarrow> bool" where
  "tur_hamt_eq_dynamic eq ma mb cmp =
     (case (ma, mb) of
        (None, None) \<Rightarrow> True
      | (None, Some _) \<Rightarrow> False
      | (Some _, None) \<Rightarrow> False
      | (Some a, Some b) \<Rightarrow>
          (if tur_hamt_count (null_map a) \<noteq> tur_hamt_count (null_map b) then False
           else eq_loop (\<lambda>h k. tur_hamt_get_dynamic eq (null_map b) h k (hm_keyeq (null_map a))) cmp
                  (tur_hamt_iter_init (hm_root (null_map a)))))"

lemma eq_loop_all:
  "eq_loop look cmp it \<longleftrightarrow>
     (\<forall>e\<in>set (iter_rest it). look (he_hash e) (he_key e) \<noteq> 0 \<and> cmp (he_val e) (look (he_hash e) (he_key e)))"
proof (induction look cmp it rule: eq_loop.induct)
  case (1 look cmp it)
  obtain r it1 where r: "tur_hamt_iter_next it = (r, it1)" by fastforce
  show ?case
    using 1 [OF r [symmetric]] r iter_next_rest [OF r] by (subst eq_loop.simps) (cases r; auto simp: Let_def)
qed

lemma eq_map: "eq_loop look cmp (tur_hamt_iter_init rt) \<longleftrightarrow>
    (\<forall>e\<in>set (opt_entries rt). look (he_hash e) (he_key e) \<noteq> 0 \<and> cmp (he_val e) (look (he_hash e) (he_key e)))"
  by (simp add: eq_loop_all iter_init_rest)

end
