(* ===== verification/HashMap.thy ===== *)
theory HashMap
  imports Hamt
begin

text \<open>
  The contract of a hash map, as the callers of \<open>hamt.c\<close> use one: what a lookup finds after an
  insertion or a deletion, and that the items it lists are its bindings, each once. The loops of the
  bulk operations and sequences of updates are verified here, over any map that keeps the contract.
\<close>

definition same_key :: "(int \<Rightarrow> int \<Rightarrow> bool) \<Rightarrow> hamtentry \<Rightarrow> hamtentry \<Rightarrow> bool" where
  "same_key eq a b \<longleftrightarrow> he_hash a = he_hash b \<and> eq (he_key a) (he_key b)"

definition look_up :: "(int \<Rightarrow> int \<Rightarrow> bool) \<Rightarrow> hamtentry list \<Rightarrow> u64 \<Rightarrow> int \<Rightarrow> int option" where
  "look_up eq es h k = map_option he_val (List.find (he_match eq h k) es)"

text \<open>An update, on a map and on what it stands for.\<close>

datatype mapop = MSet u64 int int | MDel u64 int

fun run_op :: "('m \<Rightarrow> u64 \<Rightarrow> int \<Rightarrow> int \<Rightarrow> 'm option) \<Rightarrow> ('m \<Rightarrow> u64 \<Rightarrow> int \<Rightarrow> 'm option) \<Rightarrow> mapop \<Rightarrow> 'm option \<Rightarrow> 'm option" where
  "run_op put del (MSet h k v) r = Option.bind r (\<lambda>m. put m h k v)"
| "run_op put del (MDel h k) r = Option.bind r (\<lambda>m. del m h k)"

fun spec_op :: "(int \<Rightarrow> int \<Rightarrow> bool) \<Rightarrow> mapop \<Rightarrow> (u64 \<Rightarrow> int \<Rightarrow> int option) \<Rightarrow> u64 \<Rightarrow> int \<Rightarrow> int option" where
  "spec_op eq (MSet h k v) f = (\<lambda>h' k'. if h' = h \<and> eq k k' then Some v else f h' k')"
| "spec_op eq (MDel h k) f = (\<lambda>h' k'. if h' = h \<and> eq k k' then None else f h' k')"

text \<open>One turn of a bulk loop: what is stored under a key may depend on what the map has there; None stores nothing.\<close>

definition visit :: "('m \<Rightarrow> u64 \<Rightarrow> int \<Rightarrow> int option) \<Rightarrow> ('m \<Rightarrow> u64 \<Rightarrow> int \<Rightarrow> int \<Rightarrow> 'm option) \<Rightarrow>
    (hamtentry \<Rightarrow> int option \<Rightarrow> int option) \<Rightarrow> hamtentry \<Rightarrow> 'm option \<Rightarrow> 'm option" where
  "visit look put g e r =
     Option.bind r (\<lambda>m. case g e (look m (he_hash e) (he_key e)) of
       None \<Rightarrow> Some m | Some v \<Rightarrow> put m (he_hash e) (he_key e) v)"

definition visited :: "(int \<Rightarrow> int \<Rightarrow> bool) \<Rightarrow> (hamtentry \<Rightarrow> int option \<Rightarrow> int option) \<Rightarrow> hamtentry list \<Rightarrow>
    (u64 \<Rightarrow> int \<Rightarrow> int option) \<Rightarrow> u64 \<Rightarrow> int \<Rightarrow> int option" where
  "visited eq g es f h k =
     (case List.find (he_match eq h k) es of
        None \<Rightarrow> f h k
      | Some e \<Rightarrow> (case g e (f h k) of None \<Rightarrow> f h k | Some v \<Rightarrow> Some v))"

lemma match_cong: "equivp eq \<Longrightarrow> eq k k' \<Longrightarrow> he_match eq h k = he_match eq h k'"
proof -
  assume a: "equivp eq" "eq k k'"
  have "eq a k = eq a k'" for a using a by (metis equivp_symp equivp_transp)
  then show ?thesis by (simp add: he_match_def fun_eq_iff)
qed

lemma match_same: "equivp eq \<Longrightarrow> he_match eq h k e \<Longrightarrow> he_match eq h k f \<Longrightarrow> same_key eq e f"
  by (auto simp: he_match_def same_key_def) (metis equivp_symp equivp_transp)

lemma match_self: "equivp eq \<Longrightarrow> he_match eq (he_hash e) (he_key e) e"
  by (simp add: he_match_def equivp_reflp)

lemma match_iff: "he_match eq h k e \<longleftrightarrow> h = he_hash e \<and> eq (he_key e) k"
  by (auto simp: he_match_def)

text \<open>In a list without two entries of a key the first match is the only one.\<close>

lemma find_unique:
  assumes "equivp eq" and "sorted_wrt (\<lambda>a b. \<not> same_key eq a b) es" and "e \<in> set es" and "he_match eq h k e"
  shows "List.find (he_match eq h k) es = Some e"
  using assms(2,3)
proof (induction es)
  case (Cons f es)
  then show ?case using match_same [OF assms(1), of h k f e] assms(4) by auto
qed simp

locale hash_map =
  fixes eq :: "int \<Rightarrow> int \<Rightarrow> bool"
    and look :: "'m \<Rightarrow> u64 \<Rightarrow> int \<Rightarrow> int option"
    and put :: "'m \<Rightarrow> u64 \<Rightarrow> int \<Rightarrow> int \<Rightarrow> 'm option"
    and del :: "'m \<Rightarrow> u64 \<Rightarrow> int \<Rightarrow> 'm option"
    and items :: "'m \<Rightarrow> hamtentry list"
    and ok :: "'m \<Rightarrow> bool"
  assumes eqv: "ok m \<Longrightarrow> equivp eq"
    and put_law: "ok m \<Longrightarrow> \<exists>m'. put m h k v = Some m' \<and> ok m' \<and> look m' = spec_op eq (MSet h k v) (look m)"
    and del_law: "ok m \<Longrightarrow> \<exists>m'. del m h k = Some m' \<and> ok m' \<and> look m' = spec_op eq (MDel h k) (look m)"
    and items_law: "ok m \<Longrightarrow> look m h k = look_up eq (items m) h k"
    and once_law: "ok m \<Longrightarrow> sorted_wrt (\<lambda>a b. \<not> same_key eq a b) (items m)"
begin

lemma look_cong: "ok m \<Longrightarrow> eq k k' \<Longrightarrow> look m h k = look m h k'"
  using match_cong [OF eqv] by (simp add: items_law look_up_def)

lemma run_ops: "ok m \<Longrightarrow> \<exists>m'. fold (run_op put del) ops (Some m) = Some m' \<and> ok m' \<and> look m' = fold (spec_op eq) ops (look m)"
proof (induction ops arbitrary: m)
  case (Cons p ops)
  have "\<exists>m1. run_op put del p (Some m) = Some m1 \<and> ok m1 \<and> look m1 = spec_op eq p (look m)"
    using put_law [OF Cons.prems] del_law [OF Cons.prems] by (cases p) (simp_all only: run_op.simps bind.bind_lunit)
  then obtain m1 where "run_op put del p (Some m) = Some m1" "ok m1" "look m1 = spec_op eq p (look m)" by blast
  then show ?case using Cons.IH [of m1] by simp
qed simp

lemma visit_all:
  "ok m \<Longrightarrow> sorted_wrt (\<lambda>a b. \<not> same_key eq a b) es \<Longrightarrow>
    \<exists>m'. fold (visit look put g) es (Some m) = Some m' \<and> ok m' \<and> look m' = visited eq g es (look m)"
proof (induction es arbitrary: m)
  case Nil
  then show ?case by (simp add: visited_def [abs_def])
next
  case (Cons e es)
  define w where "w = g e (look m (he_hash e) (he_key e))"
  have q: "equivp eq" by (rule eqv [OF Cons.prems(1)])
  obtain m1 where m1: "visit look put g e (Some m) = Some m1" "ok m1"
      "look m1 = (\<lambda>h k. if he_match eq h k e then (case w of None \<Rightarrow> look m h k | Some v \<Rightarrow> Some v) else look m h k)"
  proof (cases w)
    case None
    have "visit look put g e (Some m) = Some m" using None by (simp add: visit_def w_def)
    moreover have "look m = (\<lambda>h k. if he_match eq h k e then (case w of None \<Rightarrow> look m h k | Some v \<Rightarrow> Some v) else look m h k)"
      unfolding None option.case(1) if_cancel ..
    ultimately show ?thesis using Cons.prems(1) that by blast
  next
    case (Some v)
    obtain m1 where m1: "put m (he_hash e) (he_key e) v = Some m1" "ok m1" "look m1 = spec_op eq (MSet (he_hash e) (he_key e) v) (look m)"
      using put_law [OF Cons.prems(1)] by blast
    have "visit look put g e (Some m) = Some m1" using Some m1(1) by (simp add: visit_def w_def)
    moreover have "look m1 = (\<lambda>h k. if he_match eq h k e then (case w of None \<Rightarrow> look m h k | Some v \<Rightarrow> Some v) else look m h k)"
      unfolding m1(3) Some option.case match_iff spec_op.simps ..
    ultimately show ?thesis using m1(2) that by blast
  qed
  obtain m' where m': "fold (visit look put g) es (Some m1) = Some m'" "ok m'" "look m' = visited eq g es (look m1)"
    using Cons.IH [OF m1(2)] Cons.prems(2) by auto
  have "visited eq g es (look m1) h k = visited eq g (e # es) (look m) h k" for h k
  proof (cases "he_match eq h k e")
    case True
    have "\<not> he_match eq h k f" if "f \<in> set es" for f
      using match_same [OF q True] Cons.prems(2) that by auto
    then have "List.find (he_match eq h k) es = None" by (simp add: find_None_iff)
    moreover have "look m (he_hash e) (he_key e) = look m h k"
      using True look_cong [OF Cons.prems(1)] by (auto simp: he_match_def)
    ultimately show ?thesis using True m1(3) by (simp add: visited_def w_def)
  next
    case False
    then show ?thesis using m1(3) by (simp add: visited_def)
  qed
  then show ?case using m' m1(1) by (auto simp: fun_eq_iff)
qed

lemma item_found:
  assumes "ok m" and "e \<in> set (items m)"
  shows "look m (he_hash e) (he_key e) = Some (he_val e)"
  using find_unique [OF eqv [OF assms(1)] once_law [OF assms(1)] assms(2) match_self [OF eqv [OF assms(1)]]] items_law [OF assms(1)]
  by (simp add: look_up_def)

lemma found_item:
  assumes "ok m" and "look m h k = Some v"
  shows "\<exists>e\<in>set (items m). he_match eq h k e \<and> he_val e = v"
  using assms items_law [OF assms(1)] by (auto simp: look_up_def find_Some_iff)

text \<open>The bindings of one map are among those of another, as its items are.\<close>

lemma items_within:
  assumes "ok a" and "ok b"
  shows "(\<forall>e\<in>set (items a). look b (he_hash e) (he_key e) = Some (he_val e)) \<longleftrightarrow>
    (\<forall>h k v. look a h k = Some v \<longrightarrow> look b h k = Some v)"
proof
  assume l: "\<forall>e\<in>set (items a). look b (he_hash e) (he_key e) = Some (he_val e)"
  show "\<forall>h k v. look a h k = Some v \<longrightarrow> look b h k = Some v"
  proof (intro allI impI)
    fix h k v
    assume "look a h k = Some v"
    then obtain e where e: "e \<in> set (items a)" "he_match eq h k e" "he_val e = v" using found_item [OF assms(1)] by blast
    then have "look b h k = look b (he_hash e) (he_key e)" using look_cong [OF assms(2), of "he_key e" k] by (simp add: match_iff)
    then show "look b h k = Some v" using l e by simp
  qed
qed (use item_found [OF assms(1)] in blast)

definition classes :: "'m \<Rightarrow> (u64 \<times> int set) set" where
  "classes m = (\<lambda>e. (he_hash e, {k. eq (he_key e) k})) ` set (items m)"

lemma classes_dom:
  assumes "ok m"
  shows "look m h k \<noteq> None \<longleftrightarrow> (h, {k'. eq k k'}) \<in> classes m"
proof -
  have q: "equivp eq" by (rule eqv [OF assms])
  have "he_match eq h k e \<longleftrightarrow> (h, {k'. eq k k'}) = (he_hash e, {k'. eq (he_key e) k'})" for e
  proof -
    have "{k'. eq k k'} = {k'. eq (he_key e) k'} \<longleftrightarrow> eq (he_key e) k"
      using q by (metis Collect_cong equivp_def mem_Collect_eq)
    then show ?thesis by (auto simp: match_iff)
  qed
  then show ?thesis using items_law [OF assms, of h k] by (auto simp: look_up_def classes_def find_None_iff)
qed

lemma classes_card:
  assumes "ok m"
  shows "card (classes m) = length (items m)"
proof -
  have q: "equivp eq" by (rule eqv [OF assms])
  have n: "distinct (map (\<lambda>e. (he_hash e, {k. eq (he_key e) k})) es)" if "sorted_wrt (\<lambda>a b. \<not> same_key eq a b) es" for es
    using that
  proof (induction es)
    case (Cons e es)
    have "{k. eq (he_key e) k} \<noteq> {k. eq (he_key f) k}" if "he_hash e = he_hash f" "f \<in> set es" for f
    proof
      assume "{k. eq (he_key e) k} = {k. eq (he_key f) k}"
      then have "eq (he_key e) (he_key f)" using equivp_reflp [OF q, of "he_key f"] by blast
      then show False using Cons.prems that by (auto simp: same_key_def)
    qed
    then show ?case using Cons by auto
  qed simp
  show ?thesis unfolding classes_def set_map [symmetric] using distinct_card [OF n [OF once_law [OF assms]]] by simp
qed

text \<open>As many items and no binding that the other lacks: the same map.\<close>

lemma same_maps:
  assumes "ok a" and "ok b" and len: "length (items a) = length (items b)"
    and sub: "\<forall>h k v. look a h k = Some v \<longrightarrow> look b h k = Some v"
  shows "look a = look b"
proof -
  have "classes a \<subseteq> classes b"
  proof
    fix c
    assume c: "c \<in> classes a"
    then obtain h k where hk: "c = (h, {k'. eq k k'})" by (auto simp: classes_def)
    then show "c \<in> classes b" using c classes_dom [OF assms(1), of h k] classes_dom [OF assms(2), of h k] sub by auto
  qed
  moreover have "finite (classes b)" by (simp add: classes_def)
  moreover have "card (classes a) = card (classes b)" using len classes_card assms(1,2) by simp
  ultimately have e: "classes a = classes b" by (metis card_subset_eq)
  have "look a h k = look b h k" for h k
  proof (cases "look a h k")
    case None
    then have "look b h k = None" using classes_dom [OF assms(1), of h k] classes_dom [OF assms(2), of h k] e by auto
    then show ?thesis using None by simp
  qed (use sub in simp)
  then show ?thesis by (simp add: fun_eq_iff)
qed

end

end
