(* ===== verification/HamtMap.thy ===== *)
theory HamtMap
  imports HamtSound HamtBulk HashMap
begin

text \<open>
  The trie keeps the contract of a hash map: insertion and deletion refine the update of a function
  of hashes and keys, the entries are its bindings, and the interpretation of the contract gives
  what sequences of updates, batches and the bulk operations compute.
\<close>

section \<open>Entries and lookups\<close>

lemma sorted_wrt_concat:
  "(\<forall>xs\<in>set xss. sorted_wrt P xs) \<Longrightarrow> sorted_wrt (\<lambda>xs ys. \<forall>x\<in>set xs. \<forall>y\<in>set ys. P x y) xss \<Longrightarrow> sorted_wrt P (concat xss)"
  by (induction xss) (auto simp: sorted_wrt_append)

lemma child_at_slot:
  assumes "length cs = popcount32 bm" and "i < length cs"
  shows "child_at bm cs (slots_of bm ! i) = Some (cs ! i)" and "slots_of bm ! i < 32"
proof -
  have l: "i < length (slots_of bm)" using assms by (simp add: slots_popcount)
  then show c: "slots_of bm ! i < 32" using slots_set [of "slots_of bm ! i" bm] nth_mem [OF l] by simp
  have "map_of (zip (slots_of bm) cs) (slots_of bm ! i) = Some (cs ! i)"
    using l assms slots_distinct by (intro map_of_zip_nth) (simp_all add: slots_popcount)
  then show "child_at bm cs (slots_of bm ! i) = Some (cs ! i)" unfolding child_at_map [OF assms(1) c] .
qed

lemma entries_once: "node_ok eq level n \<Longrightarrow> sorted_wrt (\<lambda>a b. \<not> same_key eq a b) (node_entries n)"
proof (induction eq level n rule: node_ok.induct)
  case (1 eq level bm cs)
  have l: "length cs = popcount32 bm" using 1(2) by simp
  have "sorted_wrt (\<lambda>a b. \<not> same_key eq a b) (node_entries n)" if "n \<in> set cs" for n using 1(1) [OF that] 1(2) that by simp
  moreover have "\<forall>x\<in>set (node_entries (cs ! i)). \<forall>y\<in>set (node_entries (cs ! j)). \<not> same_key eq x y"
    if ij: "i < j" "j < length cs" for i j
  proof -
    have c: "in_chunk level (slots_of bm ! i) (cs ! i)" "in_chunk level (slots_of bm ! j) (cs ! j)"
      using 1(2) child_at_slot [OF l, of i] child_at_slot [OF l, of j] ij by auto
    have "slots_of bm ! i \<noteq> slots_of bm ! j"
      using ij l slots_distinct [of bm] by (simp add: nth_eq_iff_index_eq slots_popcount)
    then show ?thesis using c by (auto simp: in_chunk_def same_key_def)
  qed
  then have "sorted_wrt (\<lambda>xs ys. \<forall>x\<in>set xs. \<forall>y\<in>set ys. \<not> same_key eq x y) (map node_entries cs)"
    by (simp add: sorted_wrt_iff_nth_less)
  ultimately show ?case unfolding node_entries.simps by (intro sorted_wrt_concat) simp_all
next
  case (3 eq level prefix es)
  then show ?case by (auto simp: chain_ok_def same_key_def elim!: sorted_wrt_mono_rel [rotated])
qed simp

lemma find_entries:
  "node_ok eq level n \<Longrightarrow> node_find eq (Some n) h k level = Some v \<Longrightarrow>
    \<exists>e\<in>set (node_entries n). he_hash e = h \<and> eq (he_key e) k \<and> he_val e = v"
proof (induction eq level n rule: node_ok.induct)
  case (1 eq level bm cs)
  then obtain m where m: "child_at bm cs (hash_chunk h level) = Some m" by (cases "child_at bm cs (hash_chunk h level)") auto
  note b = bitmap_child [OF 1(2) m hash_chunk_less]
  show ?case using 1(1) [OF b(3)] b m 1(3) by force
next
  case (3 eq level prefix es)
  then show ?case by (auto simp: chain_find_def he_match_def find_Some_iff)
qed simp

lemma node_find_cong:
  assumes "equivp eq" and "eq k k'"
  shows "node_find eq n h k level = node_find eq n h k' level"
proof -
  have "chain_find eq es h k = chain_find eq es h k'" for es using match_cong [OF assms] by (simp add: chain_find_def)
  then show ?thesis using assms by (induction eq n h k level rule: node_find.induct) auto
qed

lemma chain_find_in: "equivp eq \<Longrightarrow> sorted_wrt (\<lambda>a b. \<not> eq (he_key a) (he_key b)) es \<Longrightarrow> \<forall>e\<in>set es. he_hash e = h \<Longrightarrow> e \<in> set es \<Longrightarrow>
    chain_find eq es h (he_key e) = Some (he_val e)"
proof (induction es)
  case (Cons f es)
  then show ?case
    by (cases "e = f") (auto simp: chain_find_def he_match_def equivp_reflp)
qed simp

lemma entries_find:
  "equivp eq \<Longrightarrow> node_ok eq level n \<Longrightarrow> e \<in> set (node_entries n) \<Longrightarrow> node_find eq (Some n) (he_hash e) (he_key e) level = Some (he_val e)"
proof (induction eq level n rule: node_ok.induct)
  case (1 eq level bm cs)
  obtain m where m: "m \<in> set cs" "e \<in> set (node_entries m)" using 1(4) by auto
  have l: "length cs = popcount32 bm" using 1(3) by simp
  obtain c where c: "c < 32" "child_at bm cs c = Some m" using m(1) child_at_set [OF l] by blast
  note b = bitmap_child [OF 1(3) c(2,1)]
  have h: "hash_chunk (he_hash e) level = c" using b(2) m(2) by (simp add: in_chunk_def)
  show ?case unfolding node_find.simps h c(2) by (rule 1(1) [OF m(1) 1(2) b(1) m(2)])
next
  case (3 eq level prefix es)
  then have ch: "chain_ok eq es" and e: "e \<in> set es" by simp_all
  have "he_hash f = he_hash e" if "f \<in> set es" for f
    using ch e that unfolding chain_ok_def by metis
  moreover have "sorted_wrt (\<lambda>a b. \<not> eq (he_key a) (he_key b)) es" using ch unfolding chain_ok_def by blast
  ultimately show ?case unfolding node_find.simps by (intro chain_find_in [OF 3(1) _ _ e]) blast+
qed simp

section \<open>The map behind the record\<close>

definition hamt_ok :: "(int \<Rightarrow> int \<Rightarrow> bool) \<Rightarrow> hamt \<Rightarrow> bool" where
  "hamt_ok eq m \<longleftrightarrow> (\<forall>r. hm_root m = Some r \<longrightarrow> node_ok eq 0 r) \<and> hm_count m = of_nat (length (opt_entries (hm_root m)))"

definition hamt_find :: "(int \<Rightarrow> int \<Rightarrow> bool) \<Rightarrow> hamt \<Rightarrow> u64 \<Rightarrow> int \<Rightarrow> int option" where
  "hamt_find eq m h k = node_find eq (hm_root m) h k 0"

definition hamt_items :: "hamt \<Rightarrow> hamtentry list" where
  "hamt_items m = opt_entries (hm_root m)"

lemma get_find: "tur_hamt_get eq m h k = (case hamt_find eq m h k of None \<Rightarrow> 0 | Some v \<Rightarrow> v)"
  unfolding tur_hamt_get_def hamt_find_def node_get_find ..

lemma has_find: "tur_hamt_has eq m h k \<longleftrightarrow> hamt_find eq m h k \<noteq> None"
  unfolding tur_hamt_has_def hamt_find_def node_has_find ..

lemma hamt_new_ok: "hamt_ok eq tur_hamt_new \<and> hamt_find eq tur_hamt_new h k = None"
  by (simp add: hamt_ok_def hamt_find_def tur_hamt_new_def)

lemma insert_root:
  assumes "equivp eq" and "\<forall>r. rt = Some r \<longrightarrow> node_ok eq 0 r"
  shows "\<exists>r. node_insert HAMT_DEPTH eq rt h k v 0 = Some r \<and> inserted eq 0 rt h k v r"
  using node_insert_ok [OF assms, where h = h and d = HAMT_DEPTH and k = k and v = v] by (simp add: HAMT_DEPTH_def)

lemma hamt_set_ok:
  assumes eq: "equivp eq" and m: "hamt_ok eq m"
  shows "\<exists>m'. tur_hamt_set eq m h k v = Some m' \<and> hamt_ok eq m' \<and>
    (\<forall>h' k'. hamt_find eq m' h' k' = (if h' = h \<and> eq k k' then Some v else hamt_find eq m h' k'))"
proof -
  obtain r where r: "node_insert HAMT_DEPTH eq (hm_root m) h k v 0 = Some r" "inserted eq 0 (hm_root m) h k v r"
    using insert_root [OF eq, of "hm_root m" h k v] m by (auto simp: hamt_ok_def)
  then show ?thesis using m insertedD [OF r(2)] has_find [of eq m h k]
    by (auto simp: tur_hamt_set_def Let_def hamt_ok_def hamt_find_def)
qed

lemma hamt_del_ok:
  assumes eq: "equivp eq" and m: "hamt_ok eq m"
  shows "hamt_ok eq (tur_hamt_del eq m h k) \<and>
    (\<forall>h' k'. hamt_find eq (tur_hamt_del eq m h k) h' k' = (if h' = h \<and> eq k k' then None else hamt_find eq m h' k'))"
proof (cases "hm_root m")
  case None
  then show ?thesis using m by (simp add: tur_hamt_del_def hamt_find_def)
next
  case (Some r)
  have d: "deleted eq 0 r h k (node_delete eq r h k 0)" using node_delete_ok [OF eq, of 0 r h k] m Some by (simp add: hamt_ok_def)
  show ?thesis
  proof (cases "tur_hamt_has eq m h k")
    case True
    then have "length (node_entries r) = length (opt_entries (node_delete eq r h k 0)) + 1"
      using deletedD(4) [OF d] Some by (auto simp: has_find hamt_find_def)
    then show ?thesis using True m Some deletedD(1,3) [OF d] by (auto simp: tur_hamt_del_def hamt_ok_def hamt_find_def)
  next
    case False
    then have "hamt_find eq m h k' = None" if "eq k k'" for k'
      using node_find_cong [OF eq that, of "hm_root m" h 0] by (simp add: has_find hamt_find_def)
    then show ?thesis using False m Some by (simp add: tur_hamt_del_def hamt_find_def)
  qed
qed

lemma hamt_items_law:
  assumes eq: "equivp eq" and m: "hamt_ok eq m"
  shows "hamt_find eq m h k = look_up eq (hamt_items m) h k"
proof (cases "hm_root m")
  case None
  then show ?thesis by (simp add: hamt_find_def look_up_def hamt_items_def)
next
  case (Some r)
  have r: "node_ok eq 0 r" using m Some by (simp add: hamt_ok_def)
  show ?thesis
  proof (cases "hamt_find eq m h k")
    case None
    have "\<not> he_match eq h k e" if "e \<in> set (node_entries r)" for e
      using entries_find [OF eq r that] None Some node_find_cong [OF eq, of "he_key e" k "Some r" h 0]
      by (auto simp: hamt_find_def he_match_def)
    then have "List.find (he_match eq h k) (node_entries r) = None" by (simp add: find_None_iff)
    then show ?thesis using None Some by (simp add: look_up_def hamt_items_def)
  next
    case (Some v)
    then have "node_find eq (Some r) h k 0 = Some v" using \<open>hm_root m = Some r\<close> by (simp add: hamt_find_def)
    then obtain e where e: "e \<in> set (node_entries r)" "he_hash e = h" "eq (he_key e) k" "he_val e = v"
      using find_entries [OF r] by blast
    then show ?thesis using find_unique [OF eq entries_once [OF r] e(1), of h k] Some \<open>hm_root m = Some r\<close>
      by (simp add: look_up_def hamt_items_def he_match_def)
  qed
qed

lemma hamt_once: "hamt_ok eq m \<Longrightarrow> sorted_wrt (\<lambda>a b. \<not> same_key eq a b) (hamt_items m)"
  using entries_once by (cases "hm_root m") (auto simp: hamt_ok_def hamt_items_def)

section \<open>The contract\<close>

definition map_ok :: "(int \<Rightarrow> int \<Rightarrow> bool) \<Rightarrow> hamt \<Rightarrow> bool" where
  "map_ok eq m \<longleftrightarrow> equivp eq \<and> hamt_ok eq m"

definition del_some :: "(int \<Rightarrow> int \<Rightarrow> bool) \<Rightarrow> hamt \<Rightarrow> u64 \<Rightarrow> int \<Rightarrow> hamt option" where
  "del_some eq m h k = Some (tur_hamt_del eq m h k)"

lemma map_new_ok: "equivp eq \<Longrightarrow> map_ok eq tur_hamt_new"
  by (simp add: map_ok_def hamt_new_ok)

lemma find_new [simp]: "hamt_find eq tur_hamt_new = (\<lambda>h k. None)"
  using hamt_new_ok by (simp add: fun_eq_iff)

interpretation hm: hash_map eq "hamt_find eq" "tur_hamt_set eq" "del_some eq" hamt_items "map_ok eq" for eq
proof
  fix m h k v
  assume "map_ok eq m"
  then have a: "equivp eq" "hamt_ok eq m" by (simp_all add: map_ok_def)
  show "equivp eq" by (rule a(1))
  show "\<exists>m'. tur_hamt_set eq m h k v = Some m' \<and> map_ok eq m' \<and> hamt_find eq m' = spec_op eq (MSet h k v) (hamt_find eq m)"
    using hamt_set_ok [OF a, of h k v] a(1) by (auto simp: map_ok_def fun_eq_iff)
  show "\<exists>m'. del_some eq m h k = Some m' \<and> map_ok eq m' \<and> hamt_find eq m' = spec_op eq (MDel h k) (hamt_find eq m)"
    using hamt_del_ok [OF a, of h k] a(1) by (auto simp: map_ok_def fun_eq_iff del_some_def)
  show "hamt_find eq m h k = look_up eq (hamt_items m) h k" by (rule hamt_items_law [OF a])
  show "sorted_wrt (\<lambda>a b. \<not> same_key eq a b) (hamt_items m)" by (rule hamt_once [OF a(2)])
qed

section \<open>The bulk operations\<close>

lemma put_visit: "put_step eq e v = visit (hamt_find eq) (tur_hamt_set eq) (\<lambda>_ _. Some v) e"
  by (simp add: put_step_def visit_def fun_eq_iff)

lemma filter_visit: "(if p then put_step eq e v r else r) = visit (hamt_find eq) (tur_hamt_set eq) (\<lambda>_ _. if p then Some v else None) e r"
  by (simp add: put_step_def visit_def)

lemma value_visit:
  "Option.bind r (\<lambda>m. put_step eq e (merge_value eq f e m) (Some m)) =
    visit (hamt_find eq) (tur_hamt_set eq)
      (\<lambda>e o'. Some (case o' of None \<Rightarrow> he_val e | Some va \<Rightarrow> if va = 0 then he_val e else f va (he_val e))) e r"
proof -
  have "merge_value eq f e m =
      (case hamt_find eq m (he_hash e) (he_key e) of None \<Rightarrow> he_val e | Some va \<Rightarrow> if va = 0 then he_val e else f va (he_val e))" for m
    by (simp add: merge_value_def get_find Let_def split: option.split)
  then show ?thesis by (simp add: put_step_def visit_def)
qed

lemma case_same: "(case x of None \<Rightarrow> None | Some y \<Rightarrow> Some y) = x"
  by (cases x) auto

lemma visit_arg: "visit look put (\<lambda>_ _. g e) e = visit look put (\<lambda>e _. g e) e"
  by (simp add: visit_def fun_eq_iff)

lemma bulk:
  assumes m: "map_ok eq m" and b: "hamt_ok eq b"
  shows "\<exists>m'. iter_loop (visit (hamt_find eq) (tur_hamt_set eq) g) (tur_hamt_iter_init (hm_root b)) (Some m) = Some m' \<and>
    map_ok eq m' \<and> hamt_find eq m' = visited eq g (hamt_items b) (hamt_find eq m)"
  unfolding iter_map using hm.visit_all [OF m hamt_once [OF b], of g] by (simp only: hamt_items_def)

lemma visited_look:
  assumes "\<And>e h k. e \<in> set es \<Longrightarrow> he_match eq h k e \<Longrightarrow> g e (f h k) = w h k (he_val e)"
  shows "visited eq g es f h k =
    (case look_up eq es h k of None \<Rightarrow> f h k | Some v \<Rightarrow> (case w h k v of None \<Rightarrow> f h k | Some x \<Rightarrow> Some x))"
proof (cases "List.find (he_match eq h k) es")
  case (Some e)
  then have "e \<in> set es" "he_match eq h k e" by (auto simp: find_Some_iff)
  then show ?thesis using assms Some by (simp add: visited_def look_up_def)
qed (simp add: visited_def look_up_def)

text \<open>What a loop over \<open>b\<close> makes of \<open>m\<close>, when what it stores depends on the key up to the equality.\<close>

lemma bulk_find:
  assumes m: "map_ok eq m" and b: "hamt_ok eq b"
    and w: "\<And>e h k. he_match eq h k e \<Longrightarrow> g e (hamt_find eq m h k) = w h k (he_val e)"
  shows "\<exists>m'. iter_loop (visit (hamt_find eq) (tur_hamt_set eq) g) (tur_hamt_iter_init (hm_root b)) (Some m) = Some m' \<and>
    hamt_ok eq m' \<and> (\<forall>h k. hamt_find eq m' h k =
      (case hamt_find eq b h k of None \<Rightarrow> hamt_find eq m h k
       | Some v \<Rightarrow> (case w h k v of None \<Rightarrow> hamt_find eq m h k | Some x \<Rightarrow> Some x)))"
proof -
  have "visited eq g (hamt_items b) (hamt_find eq m) h k =
      (case hamt_find eq b h k of None \<Rightarrow> hamt_find eq m h k
       | Some v \<Rightarrow> (case w h k v of None \<Rightarrow> hamt_find eq m h k | Some x \<Rightarrow> Some x))" if "equivp eq" for h k
    unfolding hamt_items_law [OF that b] by (rule visited_look) (rule w)
  then show ?thesis using bulk [OF m b, of g] by (auto simp: map_ok_def)
qed

lemma merge_find:
  assumes "map_ok eq a" and "hamt_ok eq b"
  shows "\<exists>m'. tur_hamt_merge eq (Some a) (Some b) = Some (Some m') \<and> hamt_ok eq m' \<and>
    (\<forall>h k. hamt_find eq m' h k = (case hamt_find eq b h k of None \<Rightarrow> hamt_find eq a h k | Some v \<Rightarrow> Some v))"
  using bulk_find [OF assms, of "\<lambda>e _. Some (he_val e)" "\<lambda>_ _. Some"]
  by (auto simp: tur_hamt_merge_def put_visit visit_arg [of _ _ "\<lambda>e. Some (he_val e)"] cong: option.case_cong)

lemma map_find:
  assumes "equivp eq" and "hamt_ok eq m"
  shows "\<exists>m'. tur_hamt_map eq m f = Some m' \<and> hamt_ok eq m' \<and> (\<forall>h k. hamt_find eq m' h k = map_option f (hamt_find eq m h k))"
  using bulk_find [OF map_new_ok [OF assms(1)] assms(2), of "\<lambda>e _. Some (f (he_val e))" "\<lambda>_ _ v. Some (f v)"]
  by (auto simp: tur_hamt_map_def put_visit visit_arg [of _ _ "\<lambda>e. Some (f (he_val e))"] map_option_case cong: option.case_cong)

lemma filter_find:
  assumes "equivp eq" and "hamt_ok eq m" and "\<And>k k' v. eq k k' \<Longrightarrow> p k v = p k' v"
  shows "\<exists>m'. tur_hamt_filter eq m p = Some m' \<and> hamt_ok eq m' \<and>
    (\<forall>h k. hamt_find eq m' h k = (case hamt_find eq m h k of None \<Rightarrow> None | Some v \<Rightarrow> if p k v then Some v else None))"
  using bulk_find [OF map_new_ok [OF assms(1)] assms(2), of "\<lambda>e _. if p (he_key e) (he_val e) then Some (he_val e) else None"
      "\<lambda>_ k v. if p k v then Some v else None"] assms(3)
  by (auto simp: tur_hamt_filter_def filter_visit he_match_def case_same
      visit_arg [of _ _ "\<lambda>e. if p (he_key e) (he_val e) then Some (he_val e) else None"] cong: option.case_cong)

lemma merge_with_find:
  assumes "map_ok eq a" and "hamt_ok eq b"
  shows "\<exists>m'. tur_hamt_merge_with eq (Some a) (Some b) f = Some (Some m') \<and> hamt_ok eq m' \<and>
    (\<forall>h k. hamt_find eq m' h k = (case hamt_find eq b h k of None \<Rightarrow> hamt_find eq a h k
      | Some vb \<Rightarrow> Some (case hamt_find eq a h k of None \<Rightarrow> vb | Some va \<Rightarrow> if va = 0 then vb else f va vb)))"
  using bulk_find [OF assms, of "\<lambda>e o'. Some (case o' of None \<Rightarrow> he_val e | Some va \<Rightarrow> if va = 0 then he_val e else f va (he_val e))"
      "\<lambda>h k vb. Some (case hamt_find eq a h k of None \<Rightarrow> vb | Some va \<Rightarrow> if va = 0 then vb else f va vb)"]
  by (auto simp: tur_hamt_merge_with_def value_visit cong: option.case_cong)

end
