(* ===== verification/HamtUse.thy ===== *)
theory HamtUse
  imports HamtMap
begin

text \<open>
  Maps in use: batches through a transient, maps keyed by strings, and the equality of two maps.
\<close>

section \<open>Updates\<close>

abbreviation run_hamt :: "(int \<Rightarrow> int \<Rightarrow> bool) \<Rightarrow> mapop list \<Rightarrow> hamt \<Rightarrow> hamt option" where
  "run_hamt eq ops m \<equiv> fold (run_op (tur_hamt_set eq) (del_some eq)) ops (Some m)"

abbreviation spec_map :: "(int \<Rightarrow> int \<Rightarrow> bool) \<Rightarrow> mapop list \<Rightarrow> u64 \<Rightarrow> int \<Rightarrow> int option" where
  "spec_map eq ops \<equiv> fold (spec_op eq) ops (\<lambda>h k. None)"

text \<open>The bindings of a function, keys that are equal counted once.\<close>

definition bindings :: "(int \<Rightarrow> int \<Rightarrow> bool) \<Rightarrow> (u64 \<Rightarrow> int \<Rightarrow> int option) \<Rightarrow> (u64 \<times> int set) set" where
  "bindings eq f = {(h, {k'. eq k k'}) |h k. f h k \<noteq> None}"

lemma bindings_classes:
  assumes "map_ok eq m"
  shows "bindings eq (hamt_find eq m) = hm.classes eq m"
proof
  show "bindings eq (hamt_find eq m) \<subseteq> hm.classes eq m" using hm.classes_dom [OF assms] by (auto simp: bindings_def)
  show "hm.classes eq m \<subseteq> bindings eq (hamt_find eq m)"
  proof
    fix c
    assume c: "c \<in> hm.classes eq m"
    then obtain h k where hk: "c = (h, {k'. eq k k'})" by (auto simp: hm.classes_def)
    then have "hamt_find eq m h k \<noteq> None" using c hm.classes_dom [OF assms, of h k] by simp
    then show "c \<in> bindings eq (hamt_find eq m)" using hk unfolding bindings_def by blast
  qed
qed

lemma count_bindings: "map_ok eq m \<Longrightarrow> tur_hamt_count m = of_nat (card (bindings eq (hamt_find eq m)))"
  using hm.classes_card [of eq m] by (simp add: bindings_classes tur_hamt_count_def map_ok_def hamt_ok_def hamt_items_def)

lemma run_new:
  assumes "equivp eq"
  shows "\<exists>m. run_hamt eq ops tur_hamt_new = Some m \<and> map_ok eq m \<and> hamt_find eq m = spec_map eq ops"
  using hm.run_ops [OF map_new_ok [OF assms], of ops] by simp

section \<open>Batches\<close>

abbreviation run_transient :: "(int \<Rightarrow> int \<Rightarrow> bool) \<Rightarrow> mapop list \<Rightarrow> hamttransient \<Rightarrow> hamttransient option" where
  "run_transient eq ops t \<equiv> fold (run_op (tur_hamt_transient_set eq) (tur_hamt_transient_del eq)) ops (Some t)"

text \<open>The batch and the map have the same root and count.\<close>

definition mirrors :: "hamttransient \<Rightarrow> hamt \<Rightarrow> bool" where
  "mirrors t m \<longleftrightarrow> ht_root t = hm_root m \<and> ht_count t = hm_count m \<and> ht_token t \<noteq> 0"

lemma mirrors_op:
  assumes "mirrors t m"
  shows "rel_option mirrors (run_op (tur_hamt_transient_set eq) (tur_hamt_transient_del eq) p (Some t))
    (run_op (tur_hamt_set eq) (del_some eq) p (Some m))"
proof (cases p)
  case (MSet h k v)
  then show ?thesis using assms
    by (cases "node_insert HAMT_DEPTH eq (hm_root m) h k v 0")
      (auto simp: mirrors_def tur_hamt_transient_set_def tur_hamt_set_def tur_hamt_has_def Let_def)
next
  case (MDel h k)
  then show ?thesis using assms
    by (auto simp: mirrors_def tur_hamt_transient_del_def tur_hamt_del_def tur_hamt_has_def del_some_def split: option.splits)
qed

lemma run_none: "fold (run_op put del) ops None = None"
proof (induction ops)
  case (Cons p ops)
  then show ?case by (cases p) auto
qed simp

lemma mirrors_run: "mirrors t m \<Longrightarrow> rel_option mirrors (run_transient eq ops t) (run_hamt eq ops m)"
proof (induction ops arbitrary: t m)
  case (Cons p ops)
  have "rel_option mirrors (run_op (tur_hamt_transient_set eq) (tur_hamt_transient_del eq) p (Some t))
      (run_op (tur_hamt_set eq) (del_some eq) p (Some m))"
    by (rule mirrors_op [OF Cons.prems])
  then show ?case unfolding fold_Cons comp_apply by cases (simp_all only: run_none Cons.IH option.rel_inject)
qed simp

lemma transient_mirrors: "next \<noteq> 0 \<Longrightarrow> hamt_ok eq m \<Longrightarrow> mirrors (fst (tur_hamt_transient next m)) m"
  by (auto simp: mirrors_def tur_hamt_transient_def hamt_ok_def)

lemma mirrors_persistent: "mirrors t m \<Longrightarrow> fst (tur_hamt_persistent t) = m\<lparr>hm_keyeq := None\<rparr>"
  by (simp add: mirrors_def tur_hamt_persistent_def)

text \<open>Once it was made persistent a batch takes no update.\<close>

lemma persistent_aborts:
  "tur_hamt_transient_set eq (snd (tur_hamt_persistent t)) h k v = None"
  "tur_hamt_transient_del eq (snd (tur_hamt_persistent t)) h k = None"
  by (simp_all add: tur_hamt_persistent_def tur_hamt_transient_set_def tur_hamt_transient_del_def)

section \<open>String keys\<close>

datatype strop = SSet int int | SDel int

fun run_str :: "(int \<Rightarrow> 8 word list) \<Rightarrow> strop \<Rightarrow> hamt option \<Rightarrow> hamt option" where
  "run_str mem (SSet k v) r = Option.bind r (\<lambda>m. tur_hamt_set_cstr mem m k v)"
| "run_str mem (SDel k) r = Option.bind r (\<lambda>m. Some (tur_hamt_del_cstr mem m k))"

fun spec_str :: "(int \<Rightarrow> 8 word list) \<Rightarrow> strop \<Rightarrow> (8 word list \<Rightarrow> int option) \<Rightarrow> 8 word list \<Rightarrow> int option" where
  "spec_str mem (SSet k v) f = f(mem k \<mapsto> v)"
| "spec_str mem (SDel k) f = f(mem k := None)"

fun str_key :: "strop \<Rightarrow> int" where
  "str_key (SSet k v) = k"
| "str_key (SDel k) = k"

lemma cstr_equivp: "equivp (hamt_cstr_key_eq mem)"
  by (rule equivpI) (auto simp: hamt_cstr_key_eq_def reflp_def symp_def transp_def)

definition str_ok :: "(int \<Rightarrow> 8 word list) \<Rightarrow> hamt \<Rightarrow> (8 word list \<Rightarrow> int option) \<Rightarrow> bool" where
  "str_ok mem m f \<longleftrightarrow> map_ok (hamt_cstr_key_eq mem) m \<and>
     (\<forall>k. k \<noteq> 0 \<longrightarrow> hamt_find (hamt_cstr_key_eq mem) m (tur_hamt_hash_str (mem k)) k = f (mem k))"

lemma stamp_find [simp]: "hamt_find eq (m\<lparr>hm_keyeq := c\<rparr>) = hamt_find eq m" "map_ok eq (m\<lparr>hm_keyeq := c\<rparr>) = map_ok eq m"
  by (simp_all add: hamt_find_def map_ok_def hamt_ok_def fun_eq_iff)

lemma str_step:
  assumes m: "str_ok mem m f" and k: "str_key p \<noteq> 0"
  shows "\<exists>m'. run_str mem p (Some m) = Some m' \<and> str_ok mem m' (spec_str mem p f)"
proof (cases p)
  case (SSet j v)
  let ?eq = "hamt_cstr_key_eq mem" and ?h = "\<lambda>k. tur_hamt_hash_str (mem k)"
  have "map_ok ?eq m" using m by (simp add: str_ok_def)
  then obtain m' where m': "tur_hamt_set ?eq m (?h j) j v = Some m'" "map_ok ?eq m'" "hamt_find ?eq m' = spec_op ?eq (MSet (?h j) j v) (hamt_find ?eq m)"
    using hm.put_law by blast
  then show ?thesis using m k SSet
    by (auto simp: str_ok_def tur_hamt_set_cstr_def tur_hamt_set_eq_def hamt_cstr_key_eq_def)
next
  case (SDel j)
  let ?eq = "hamt_cstr_key_eq mem" and ?h = "\<lambda>k. tur_hamt_hash_str (mem k)"
  have "map_ok ?eq m" using m by (simp add: str_ok_def)
  then have m': "map_ok ?eq (tur_hamt_del ?eq m (?h j) j)"
      "hamt_find ?eq (tur_hamt_del ?eq m (?h j) j) = spec_op ?eq (MDel (?h j) j) (hamt_find ?eq m)"
    using hm.del_law unfolding del_some_def by blast+
  then show ?thesis using m k SDel
    by (auto simp: str_ok_def tur_hamt_del_cstr_def tur_hamt_del_eq_def hamt_cstr_key_eq_def Let_def)
qed

lemma str_run:
  "str_ok mem m f \<Longrightarrow> 0 \<notin> str_key ` set ops \<Longrightarrow>
    \<exists>m'. fold (run_str mem) ops (Some m) = Some m' \<and> str_ok mem m' (fold (spec_str mem) ops f)"
proof (induction ops arbitrary: m f)
  case (Cons p ops)
  obtain m1 where "run_str mem p (Some m) = Some m1" "str_ok mem m1 (spec_str mem p f)"
    using str_step [OF Cons.prems(1), of p] Cons.prems(2) by auto
  then show ?case using Cons.IH [of m1 "spec_str mem p f"] Cons.prems(2) by simp
qed simp

lemma str_new: "str_ok mem tur_hamt_new Map.empty"
  by (simp add: str_ok_def map_new_ok cstr_equivp)

section \<open>Equality of maps\<close>

text \<open>The comparator of a comparison is the one the first map remembers, or the one in force.\<close>

definition map_keyeq :: "(int \<Rightarrow> int \<Rightarrow> bool) \<Rightarrow> hamt \<Rightarrow> int \<Rightarrow> int \<Rightarrow> bool" where
  "map_keyeq eq m = (case hm_keyeq m of None \<Rightarrow> eq | Some f \<Rightarrow> f)"

lemma get_dynamic: "tur_hamt_get_dynamic eq b h k (hm_keyeq a) = (case hamt_find (map_keyeq eq a) b h k of None \<Rightarrow> 0 | Some v \<Rightarrow> v)"
  by (simp add: tur_hamt_get_dynamic_def map_keyeq_def tur_hamt_get_eq_def get_find split: option.split)

lemma eq_dynamic_items:
  "tur_hamt_eq_dynamic eq (Some (Some a)) (Some (Some b)) (=) \<longleftrightarrow> tur_hamt_count a = tur_hamt_count b \<and>
    (\<forall>e\<in>set (hamt_items a). hamt_find (map_keyeq eq a) b (he_hash e) (he_key e) = Some (he_val e) \<and> he_val e \<noteq> 0)"
  by (auto simp: tur_hamt_eq_dynamic_def null_map_def eq_map get_dynamic hamt_items_def split: option.splits)

lemma eq_dynamic_find:
  assumes a: "map_ok (map_keyeq eq a) a" and b: "map_ok (map_keyeq eq a) b"
    and la: "length (hamt_items a) < 2 ^ 32" and lb: "length (hamt_items b) < 2 ^ 32"
  shows "tur_hamt_eq_dynamic eq (Some (Some a)) (Some (Some b)) (=) \<longleftrightarrow>
    hamt_find (map_keyeq eq a) a = hamt_find (map_keyeq eq a) b \<and> (\<forall>h k. hamt_find (map_keyeq eq a) a h k \<noteq> Some 0)"
proof -
  let ?eq = "map_keyeq eq a"
  have count: "tur_hamt_count m = of_nat (length (hamt_items m))" if "map_ok ?eq m" for m
    using that by (simp add: tur_hamt_count_def map_ok_def hamt_ok_def hamt_items_def)
  have len: "tur_hamt_count a = tur_hamt_count b \<longleftrightarrow> length (hamt_items a) = length (hamt_items b)"
    unfolding count [OF a] count [OF b] using la lb by (simp add: word_of_nat_eq_iff take_bit_nat_eq_self)
  have zero: "(\<forall>e\<in>set (hamt_items a). he_val e \<noteq> 0) \<longleftrightarrow> (\<forall>h k. hamt_find ?eq a h k \<noteq> Some 0)"
    using hm.item_found [OF a] hm.found_item [OF a] by metis
  have same: "length (hamt_items a) = length (hamt_items b)" if "hamt_find ?eq a = hamt_find ?eq b"
    using that hm.classes_card [OF a] hm.classes_card [OF b] bindings_classes [OF a] bindings_classes [OF b] by simp
  show ?thesis
    unfolding eq_dynamic_items len ball_conj_distrib hm.items_within [OF a b] zero
    using same hm.same_maps [OF a b] by auto
qed

end
