(* ===== verification/HamtProps.thy ===== *)
theory HamtProps
  imports HamtUse
begin

text \<open>The properties of the persistent hash map, each with a concrete instance where it has a hypothesis.\<close>

definition one_map :: "u64 \<Rightarrow> int \<Rightarrow> int \<Rightarrow> hamt" where
  "one_map h k v = \<lparr>hm_root = Some (HCollision 0 [\<lparr>he_hash = h, he_key = k, he_val = v\<rparr>]), hm_count = 1, hm_keyeq = None\<rparr>"

lemma one_map_ok: "map_ok (=) (one_map h k v)"
  by (simp add: map_ok_def identity_equivp hamt_ok_def one_map_def chain_ok_def)

lemma one_map_find: "hamt_find (=) (one_map h k v) h' k' = (if h' = h \<and> k' = k then Some v else None)"
  by (simp add: hamt_find_def one_map_def chain_find_def he_match_def)

text \<open>
  C36: Updates refine a function of hashes and keys: any sequence of insertions and deletions, from
  the empty map and for any key equality that is an equivalence, yields a map (the fourteen levels
  of fuel are enough, whatever hashes collide), in which \<open>tur_hamt_has\<close> and \<open>tur_hamt_get\<close> answer
  as the function does, updated by the same sequence, and whose count is the number of its bindings.
\<close>

theorem updates_refine:
  assumes "equivp eq"
  shows "\<exists>m. fold (run_op (tur_hamt_set eq) (\<lambda>m h k. Some (tur_hamt_del eq m h k))) ops (Some tur_hamt_new) = Some m \<and>
    (\<forall>h k. tur_hamt_has eq m h k = (fold (spec_op eq) ops (\<lambda>_ _. None) h k \<noteq> None) \<and>
           tur_hamt_get eq m h k = (case fold (spec_op eq) ops (\<lambda>_ _. None) h k of None \<Rightarrow> 0 | Some v \<Rightarrow> v)) \<and>
    tur_hamt_count m = of_nat (card (bindings eq (fold (spec_op eq) ops (\<lambda>_ _. None))))"
proof -
  obtain m where m: "run_hamt eq ops tur_hamt_new = Some m" "map_ok eq m" "hamt_find eq m = spec_map eq ops"
    using run_new [OF assms] by blast
  have "del_some eq = (\<lambda>m h k. Some (tur_hamt_del eq m h k))" by (simp add: del_some_def fun_eq_iff)
  then show ?thesis using m count_bindings [OF m(2)] by (auto simp: has_find get_find)
qed

text \<open>Three keys of one hash, one of them deleted again, one overwritten.\<close>

theorem updates_refine_witness:
  "\<exists>m. fold (run_op (tur_hamt_set (=)) (\<lambda>m h k. Some (tur_hamt_del (=) m h k)))
         [MSet 7 1 10, MSet 7 2 20, MSet 7 3 30, MDel 7 2, MSet 7 1 11] (Some tur_hamt_new) = Some m \<and>
     tur_hamt_get (=) m 7 1 = 11 \<and> \<not> tur_hamt_has (=) m 7 2 \<and> tur_hamt_get (=) m 7 3 = 30"
proof -
  note u = updates_refine [OF identity_equivp, of "[MSet 7 1 10, MSet 7 2 20, MSet 7 3 30, MDel 7 2, MSet 7 1 11]"]
  then obtain m where m: "fold (run_op (tur_hamt_set (=)) (\<lambda>m h k. Some (tur_hamt_del (=) m h k)))
         [MSet 7 1 10, MSet 7 2 20, MSet 7 3 30, MDel 7 2, MSet 7 1 11] (Some tur_hamt_new) = Some m"
      "\<And>h k. tur_hamt_has (=) m h k = (fold (spec_op (=)) [MSet 7 1 10, MSet 7 2 20, MSet 7 3 30, MDel 7 2, MSet 7 1 11] (\<lambda>_ _. None) h k \<noteq> None)"
      "\<And>h k. tur_hamt_get (=) m h k = (case fold (spec_op (=)) [MSet 7 1 10, MSet 7 2 20, MSet 7 3 30, MDel 7 2, MSet 7 1 11] (\<lambda>_ _. None) h k of None \<Rightarrow> 0 | Some v \<Rightarrow> v)"
    by blast
  have "tur_hamt_get (=) m 7 1 = 11" "\<not> tur_hamt_has (=) m 7 2" "tur_hamt_get (=) m 7 3 = 30" unfolding m(2,3) by simp_all
  then show ?thesis using m(1) by blast
qed

text \<open>
  C37: The bulk operations, for an equivalence of keys: the result exists and keeps the invariant,
  \<open>tur_hamt_merge\<close> is the override of the first map by the second, \<open>tur_hamt_merge_with\<close> combines
  the values of keys that both have, except that where the first map holds the value 0 the function
  is not called and the second map's value is taken (\<open>hamt.h\<close> says that it is called for every such
  key), \<open>tur_hamt_map\<close>
  applies the function to every value, \<open>tur_hamt_filter\<close> keeps the bindings the predicate accepts
  (when it does not tell equal keys apart), and \<open>tur_hamt_reduce\<close> folds over a list of the entries
  that has no key twice and is the map.
\<close>

theorem bulk_operations:
  assumes "equivp eq" and "hamt_ok eq a" and "hamt_ok eq b" and "\<And>k k' v. eq k k' \<Longrightarrow> p k v = p k' v"
  shows "(\<exists>m. tur_hamt_merge eq (Some a) (Some b) = Some (Some m) \<and> hamt_ok eq m \<and>
      (\<forall>h k. hamt_find eq m h k = (case hamt_find eq b h k of None \<Rightarrow> hamt_find eq a h k | Some v \<Rightarrow> Some v))) \<and>
    (\<exists>m. tur_hamt_merge_with eq (Some a) (Some b) g = Some (Some m) \<and> hamt_ok eq m \<and>
      (\<forall>h k. hamt_find eq m h k = (case hamt_find eq b h k of None \<Rightarrow> hamt_find eq a h k
        | Some vb \<Rightarrow> Some (case hamt_find eq a h k of None \<Rightarrow> vb | Some va \<Rightarrow> if va = 0 then vb else g va vb)))) \<and>
    (\<exists>m. tur_hamt_map eq a f = Some m \<and> hamt_ok eq m \<and> (\<forall>h k. hamt_find eq m h k = map_option f (hamt_find eq a h k))) \<and>
    (\<exists>m. tur_hamt_filter eq a p = Some m \<and> hamt_ok eq m \<and>
      (\<forall>h k. hamt_find eq m h k = (case hamt_find eq a h k of None \<Rightarrow> None | Some v \<Rightarrow> if p k v then Some v else None))) \<and>
    (\<exists>es. tur_hamt_reduce a (\<lambda>acc k v. r acc k v) i = foldl (\<lambda>acc e. r acc (he_key e) (he_val e)) i es \<and>
      sorted_wrt (\<lambda>x y. \<not> same_key eq x y) es \<and> (\<forall>h k. look_up eq es h k = hamt_find eq a h k))"
proof (intro conjI)
  have a: "map_ok eq a" using assms by (simp add: map_ok_def)
  show "\<exists>m. tur_hamt_merge eq (Some a) (Some b) = Some (Some m) \<and> hamt_ok eq m \<and>
      (\<forall>h k. hamt_find eq m h k = (case hamt_find eq b h k of None \<Rightarrow> hamt_find eq a h k | Some v \<Rightarrow> Some v))"
    by (rule merge_find [OF a assms(3)])
  show "\<exists>m. tur_hamt_merge_with eq (Some a) (Some b) g = Some (Some m) \<and> hamt_ok eq m \<and>
      (\<forall>h k. hamt_find eq m h k = (case hamt_find eq b h k of None \<Rightarrow> hamt_find eq a h k
        | Some vb \<Rightarrow> Some (case hamt_find eq a h k of None \<Rightarrow> vb | Some va \<Rightarrow> if va = 0 then vb else g va vb)))"
    by (rule merge_with_find [OF a assms(3)])
  show "\<exists>m. tur_hamt_map eq a f = Some m \<and> hamt_ok eq m \<and> (\<forall>h k. hamt_find eq m h k = map_option f (hamt_find eq a h k))"
    by (rule map_find [OF assms(1,2)])
  show "\<exists>m. tur_hamt_filter eq a p = Some m \<and> hamt_ok eq m \<and>
      (\<forall>h k. hamt_find eq m h k = (case hamt_find eq a h k of None \<Rightarrow> None | Some v \<Rightarrow> if p k v then Some v else None))"
    by (rule filter_find [OF assms(1,2,4)])
  show "\<exists>es. tur_hamt_reduce a (\<lambda>acc k v. r acc k v) i = foldl (\<lambda>acc e. r acc (he_key e) (he_val e)) i es \<and>
      sorted_wrt (\<lambda>x y. \<not> same_key eq x y) es \<and> (\<forall>h k. look_up eq es h k = hamt_find eq a h k)"
    using hm.items_law [OF a] hm.once_law [OF a]
    by (intro exI [of _ "hamt_items a"]) (simp add: tur_hamt_reduce_def iter_map hamt_items_def foldl_conv_fold)
qed

text \<open>The key 1 is in both maps, the value of the second wins; doubled and filtered it is gone.\<close>

theorem bulk_operations_witness:
  "(\<exists>m. tur_hamt_merge (=) (Some (one_map 7 1 10)) (Some (one_map 7 1 20)) = Some (Some m) \<and> hamt_find (=) m 7 1 = Some 20) \<and>
   (\<exists>m. tur_hamt_merge_with (=) (Some (one_map 7 1 10)) (Some (one_map 7 1 20)) (+) = Some (Some m) \<and> hamt_find (=) m 7 1 = Some 30) \<and>
   (\<exists>m. tur_hamt_filter (=) (one_map 7 1 10) (\<lambda>k v. v < 0) = Some m \<and> hamt_find (=) m 7 1 = None)"
proof -
  have o: "hamt_ok (=) (one_map h k v)" for h k v using one_map_ok [of h k v] by (simp add: map_ok_def)
  note b = bulk_operations [OF identity_equivp o o, where p = "\<lambda>k v. v < 0" and g = "(+)" and f = id and r = "\<lambda>acc k v. acc + v" and i = "0 :: int"]
  show ?thesis using b [of 7 1 10 7 1 20] by (auto simp: one_map_find)
qed

text \<open>
  C38: A batch is its updates: a transient forked from a map, any sequence of updates through it
  and \<open>tur_hamt_persistent\<close> give the map that the same sequence of persistent updates gives, root and
  count, except that it forgets the key comparator; and the transient is then dead, every further update
  of it aborts.
\<close>

theorem transient_batch:
  assumes "next \<noteq> 0" and "hamt_ok eq m"
  shows "map_option (\<lambda>t. fst (tur_hamt_persistent t))
      (fold (run_op (tur_hamt_transient_set eq) (tur_hamt_transient_del eq)) ops (Some (fst (tur_hamt_transient next m)))) =
    map_option (\<lambda>r. r\<lparr>hm_keyeq := None\<rparr>)
      (fold (run_op (tur_hamt_set eq) (\<lambda>m h k. Some (tur_hamt_del eq m h k))) ops (Some m)) \<and>
    (\<forall>t p. run_op (tur_hamt_transient_set eq) (tur_hamt_transient_del eq) p (Some (snd (tur_hamt_persistent t))) = None)"
proof (intro conjI allI)
  have d: "del_some eq = (\<lambda>m h k. Some (tur_hamt_del eq m h k))" by (simp add: del_some_def fun_eq_iff)
  show "map_option (\<lambda>t. fst (tur_hamt_persistent t))
      (fold (run_op (tur_hamt_transient_set eq) (tur_hamt_transient_del eq)) ops (Some (fst (tur_hamt_transient next m)))) =
    map_option (\<lambda>r. r\<lparr>hm_keyeq := None\<rparr>)
      (fold (run_op (tur_hamt_set eq) (\<lambda>m h k. Some (tur_hamt_del eq m h k))) ops (Some m))"
    using mirrors_run [OF transient_mirrors [OF assms], of eq ops] unfolding d
    by cases (auto simp: mirrors_persistent)
  show "run_op (tur_hamt_transient_set eq) (tur_hamt_transient_del eq) p (Some (snd (tur_hamt_persistent t))) = None" for t p
    by (cases p) (simp_all add: persistent_aborts)
qed

theorem transient_batch_witness:
  "map_option (\<lambda>t. fst (tur_hamt_persistent t))
      (fold (run_op (tur_hamt_transient_set (=)) (tur_hamt_transient_del (=))) [MDel 7 1] (Some (fst (tur_hamt_transient 1 (one_map 7 1 10))))) =
   Some tur_hamt_new"
proof -
  have o: "hamt_ok (=) (one_map 7 1 10)" using one_map_ok [of 7 1 10] by (simp add: map_ok_def)
  show ?thesis using transient_batch [OF one_neq_zero o, of "[MDel 7 1]"]
    by (simp add: tur_hamt_del_def tur_hamt_has_def one_map_def collision_has_def find_entry_def he_match_def tur_hamt_new_def)
qed

text \<open>
  The string maps are maps from strings: after any sequence of \<open>tur_hamt_set_cstr\<close> and
  \<open>tur_hamt_del_cstr\<close> on keys that are not null, a lookup by the address of a string finds what the
  same sequence stores under its bytes, whatever the address, and whatever the hash does.
\<close>

theorem string_maps:
  assumes "0 \<notin> str_key ` set ops" and "k \<noteq> 0"
  shows "\<exists>m. fold (run_str mem) ops (Some tur_hamt_new) = Some m \<and>
    tur_hamt_has_cstr mem m k = (fold (spec_str mem) ops Map.empty (mem k) \<noteq> None) \<and>
    tur_hamt_get_cstr mem m k = (case fold (spec_str mem) ops Map.empty (mem k) of None \<Rightarrow> 0 | Some v \<Rightarrow> v)"
proof -
  obtain m where "fold (run_str mem) ops (Some tur_hamt_new) = Some m" "str_ok mem m (fold (spec_str mem) ops Map.empty)"
    using str_run [OF str_new assms(1)] by blast
  then show ?thesis using assms(2)
    by (simp add: str_ok_def tur_hamt_has_cstr_def tur_hamt_has_eq_def tur_hamt_get_cstr_def tur_hamt_get_eq_def has_find get_find)
qed

text \<open>Two addresses of one string.\<close>

theorem string_maps_witness:
  "\<exists>m. fold (run_str (\<lambda>p. if p = 3 then [98] else [97])) [SSet 1 10, SSet 3 20] (Some tur_hamt_new) = Some m \<and>
     tur_hamt_has_cstr (\<lambda>p. if p = 3 then [98] else [97]) m 2 \<and> tur_hamt_get_cstr (\<lambda>p. if p = 3 then [98] else [97]) m 2 = 10"
  using string_maps [of "[SSet 1 10, SSet 3 20]" 2 "\<lambda>p. if p = 3 then [98] else [97]"] by auto

text \<open>
  C40: Equality of maps: two maps that are good for the comparator the comparison uses, the one the
  first map remembers or the one in force, and that have fewer than \<open>2 ^ 32\<close> entries are equal for
  \<open>tur_hamt_eq_dynamic\<close>, with values compared by identity, exactly when they are the same function
  and no value is 0: a map that holds a 0 is not equal to itself.
\<close>

theorem eq_dynamic_exact:
  assumes "equivp (map_keyeq eq a)" and "hamt_ok (map_keyeq eq a) a" and "hamt_ok (map_keyeq eq a) b"
    and "length (hamt_items a) < 2 ^ 32" and "length (hamt_items b) < 2 ^ 32"
  shows "tur_hamt_eq_dynamic eq (Some (Some a)) (Some (Some b)) (=) =
    (hamt_find (map_keyeq eq a) a = hamt_find (map_keyeq eq a) b \<and> (\<forall>h k. hamt_find (map_keyeq eq a) a h k \<noteq> Some 0))"
  using eq_dynamic_find [of eq a b] assms by (simp add: map_ok_def)

theorem eq_dynamic_exact_witness:
  "tur_hamt_eq_dynamic (=) (Some (Some (one_map 7 1 10))) (Some (Some (one_map 7 1 10))) (=) \<and>
   \<not> tur_hamt_eq_dynamic (=) (Some (Some (one_map 7 1 0))) (Some (Some (one_map 7 1 0))) (=)"
proof -
  have k: "map_keyeq (=) (one_map h k v) = (=)" for h k v by (simp add: map_keyeq_def one_map_def)
  have o: "hamt_ok (=) (one_map h k v)" for h k v using one_map_ok [of h k v] by (simp add: map_ok_def)
  have l: "length (hamt_items (one_map h k v)) < 2 ^ 32" for h k v by (simp add: hamt_items_def one_map_def)
  note e = eq_dynamic_exact [of "(=)" "one_map 7 1 v" "one_map 7 1 v" for v, unfolded k, OF identity_equivp o o l l]
  show ?thesis unfolding e by (auto simp: one_map_find)
qed

end
