(* ===== verification/Stm.thy ===== *)
theory Stm
  imports Prelude "HOL-Library.AList"
begin

text \<open>
  Software transactional memory (\<open>src/runtime/stm.c\<close>, \<open>stm.h\<close>): transactional variables with version
  stamps, transactions with read and write sets, commit under striped locks, retry, deferred actions.
  First the calls as one thread makes them when no other runs, then every load, store and lock
  operation as a step of its own. A variable is its address, a value a machine word (0 is null), a
  deferred action a number. Stamps and the clock are naturals: \<open>2 ^ 63\<close> commits are outside the model.
\<close>

unbundle bit_operations_syntax

section \<open>State\<close>

definition STM_NUM_LOCK_BUCKETS :: nat where "STM_NUM_LOCK_BUCKETS = 64"
definition STM_MAX_READ_SET :: nat where "STM_MAX_READ_SET = 256"
definition STM_MAX_WRITE_SET :: nat where "STM_MAX_WRITE_SET = 128"
definition STM_MAX_DEFERS :: nat where "STM_MAX_DEFERS = 32"

text \<open>A bucket's mutex is the thread that holds it.\<close>

record stm =
  st_clock :: nat
  st_version :: "nat \<Rightarrow> nat"
  st_value :: "nat \<Rightarrow> int"
  st_lock :: "nat \<Rightarrow> nat option"
  st_seq :: "nat \<Rightarrow> nat"

record stmtx =
  tx_reads :: "(nat \<times> nat) list"
  tx_writes :: "(nat \<times> int) list"
  tx_defers :: "(nat \<times> bool) list"
  tx_stamp :: nat
  tx_retry :: bool
  tx_aborted :: bool
  tx_committed :: bool

definition stm_do_init :: "(nat \<Rightarrow> int) \<Rightarrow> stm" where
  "stm_do_init mem = \<lparr>st_clock = 0, st_version = (\<lambda>_. 0), st_value = mem, st_lock = (\<lambda>_. None), st_seq = (\<lambda>_. 0)\<rparr>"

definition tvar_to_bucket :: "nat \<Rightarrow> nat" where
  "tvar_to_bucket tv = drop_bit 4 tv AND (STM_NUM_LOCK_BUCKETS - 1)"

definition tur_tvar_new :: "nat \<Rightarrow> int \<Rightarrow> stm \<Rightarrow> stm" where
  "tur_tvar_new tv v st = st\<lparr>st_value := (st_value st)(tv := v), st_version := (st_version st)(tv := 0)\<rparr>"

definition tur_stm_new_transaction :: stmtx where
  "tur_stm_new_transaction = \<lparr>tx_reads = [], tx_writes = [], tx_defers = [], tx_stamp = 0, tx_retry = False, tx_aborted = False, tx_committed = False\<rparr>"

section \<open>Reads and writes\<close>

definition record_read :: "nat \<Rightarrow> nat \<Rightarrow> stmtx \<Rightarrow> stmtx" where
  "record_read tv v tx =
     (if length (tx_reads tx) < STM_MAX_READ_SET \<and> tv \<notin> fst ` set (tx_reads tx) then tx\<lparr>tx_reads := tx_reads tx @ [(tv, v)]\<rparr> else tx)"

text \<open>A stamp that is locked or newer than the transaction.\<close>

definition read_refused :: "stmtx \<Rightarrow> nat \<Rightarrow> bool" where
  "read_refused tx v \<longleftrightarrow> v AND 1 \<noteq> 0 \<or> tx_stamp tx < v"

definition tur_tvar_read :: "stm \<Rightarrow> stmtx \<Rightarrow> nat \<Rightarrow> int \<times> stmtx" where
  "tur_tvar_read st tx tv =
     (case map_of (tx_writes tx) tv of
        Some x \<Rightarrow> (x, tx)
      | None \<Rightarrow>
          let v1 = st_version st tv in
          if read_refused tx v1 then (0, tx\<lparr>tx_aborted := True\<rparr>)
          else
            let val = st_value st tv; v2 = st_version st tv in
            if v1 \<noteq> v2 then (0, tx\<lparr>tx_aborted := True\<rparr>) else (val, record_read tv v1 tx))"

definition tur_tvar_write :: "stmtx \<Rightarrow> nat \<Rightarrow> int \<Rightarrow> stmtx" where
  "tur_tvar_write tx tv x =
     (if tv \<in> fst ` set (tx_writes tx) \<or> length (tx_writes tx) < STM_MAX_WRITE_SET then tx\<lparr>tx_writes := AList.update tv x (tx_writes tx)\<rparr> else tx)"

definition tur_tvar_modify :: "stm \<Rightarrow> stmtx \<Rightarrow> nat \<Rightarrow> (int \<Rightarrow> int) \<Rightarrow> int \<times> stmtx" where
  "tur_tvar_modify st tx tv f = (let (old, tx1) = tur_tvar_read st tx tv in (old, tur_tvar_write tx1 tv (f old)))"

definition tur_tvar_swap :: "stm \<Rightarrow> stmtx \<Rightarrow> nat \<Rightarrow> int \<Rightarrow> int \<times> stmtx" where
  "tur_tvar_swap st tx tv x = (let (old, tx1) = tur_tvar_read st tx tv in (old, tur_tvar_write tx1 tv x))"

definition tur_tvar_cas :: "stm \<Rightarrow> stmtx \<Rightarrow> nat \<Rightarrow> int \<Rightarrow> int \<Rightarrow> bool \<times> stmtx" where
  "tur_tvar_cas st tx tv old x =
     (let (cur, tx1) = tur_tvar_read st tx tv in if cur = old then (True, tur_tvar_write tx1 tv x) else (False, tx1))"

definition tur_stm_retry :: "stmtx \<Rightarrow> stmtx" where
  "tur_stm_retry tx = tx\<lparr>tx_retry := True\<rparr>"

definition tur_stm_check :: "bool \<Rightarrow> stmtx \<Rightarrow> stmtx" where
  "tur_stm_check c tx = (if c then tx else tur_stm_retry tx)"

section \<open>Deferred actions\<close>

definition tur_stm_defer_on_commit :: "stmtx \<Rightarrow> nat \<Rightarrow> bool \<times> stmtx" where
  "tur_stm_defer_on_commit tx f = (if STM_MAX_DEFERS \<le> length (tx_defers tx) then (False, tx) else (True, tx\<lparr>tx_defers := tx_defers tx @ [(f, True)]\<rparr>))"

definition tur_stm_defer_on_abort :: "stmtx \<Rightarrow> nat \<Rightarrow> bool \<times> stmtx" where
  "tur_stm_defer_on_abort tx f = (if STM_MAX_DEFERS \<le> length (tx_defers tx) then (False, tx) else (True, tx\<lparr>tx_defers := tx_defers tx @ [(f, False)]\<rparr>))"

text \<open>The actions that run, the last registered first.\<close>

definition tur_stm_fire_commit_defers :: "stmtx \<Rightarrow> nat list" where
  "tur_stm_fire_commit_defers tx = map fst (filter snd (rev (tx_defers tx)))"

definition tur_stm_fire_abort_defers :: "stmtx \<Rightarrow> nat list" where
  "tur_stm_fire_abort_defers tx = map fst (filter (\<lambda>d. \<not> snd d) (rev (tx_defers tx)))"

definition tur_stm_abort :: "stmtx \<Rightarrow> stmtx \<times> nat list" where
  "tur_stm_abort tx = (if tx_committed tx then (tx, []) else (tx\<lparr>tx_aborted := True\<rparr>, tur_stm_fire_abort_defers tx))"

section \<open>Commit\<close>

definition version_moved :: "nat \<Rightarrow> nat \<Rightarrow> bool" where
  "version_moved cur v \<longleftrightarrow> cur AND 1 \<noteq> 0 \<or> cur \<noteq> v"

definition tur_stm_validate :: "stm \<Rightarrow> stmtx \<Rightarrow> bool" where
  "tur_stm_validate st tx \<longleftrightarrow> list_all (\<lambda>(tv, v). \<not> version_moved (st_version st tv) v) (tx_reads tx)"

text \<open>The distinct buckets of the write set, in ascending order by insertion.\<close>

definition shift_in :: "nat \<Rightarrow> nat list \<Rightarrow> nat list" where
  "shift_in k xs = takeWhile (\<lambda>x. x \<le> k) xs @ k # dropWhile (\<lambda>x. x \<le> k) xs"

definition stm_collect_write_buckets :: "stmtx \<Rightarrow> nat list" where
  "stm_collect_write_buckets tx =
     fold shift_in (fold (\<lambda>w n. let b = tvar_to_bucket (fst w) in if b \<in> set n then n else n @ [b]) (tx_writes tx) []) []"

definition lock_bucket :: "nat \<Rightarrow> nat \<Rightarrow> stm \<Rightarrow> stm" where
  "lock_bucket t b st = st\<lparr>st_lock := (st_lock st)(b := Some t)\<rparr>"

definition unlock_bucket :: "nat \<Rightarrow> stm \<Rightarrow> stm" where
  "unlock_bucket b st = st\<lparr>st_lock := (st_lock st)(b := None)\<rparr>"

definition bump_seq :: "nat \<Rightarrow> stm \<Rightarrow> stm" where
  "bump_seq b st = st\<lparr>st_seq := (st_seq st)(b := st_seq st b + 1)\<rparr>"

text \<open>Publication of one variable: lock its stamp, store the value, store the new stamp.\<close>

definition mark_locked :: "nat \<Rightarrow> stm \<Rightarrow> stm" where
  "mark_locked tv st = st\<lparr>st_version := (st_version st)(tv := st_version st tv OR 1)\<rparr>"

definition store_value :: "nat \<Rightarrow> int \<Rightarrow> stm \<Rightarrow> stm" where
  "store_value tv x st = st\<lparr>st_value := (st_value st)(tv := x)\<rparr>"

definition store_stamp :: "nat \<Rightarrow> nat \<Rightarrow> stm \<Rightarrow> stm" where
  "store_stamp tv wv st = st\<lparr>st_version := (st_version st)(tv := wv)\<rparr>"

definition publish :: "nat \<Rightarrow> nat \<times> int \<Rightarrow> stm \<Rightarrow> stm" where
  "publish wv w st = store_stamp (fst w) wv (store_value (fst w) (snd w) (mark_locked (fst w) st))"

definition tur_stm_commit :: "nat \<Rightarrow> stm \<Rightarrow> stmtx \<Rightarrow> bool \<times> stm \<times> stmtx \<times> nat list" where
  "tur_stm_commit t st tx =
     (let bs = stm_collect_write_buckets tx;
          st1 = fold (lock_bucket t) bs st;
          wv = st_clock st1 + 2;
          st2 = st1\<lparr>st_clock := wv\<rparr>
      in if \<not> tur_stm_validate st2 tx then (False, fold unlock_bucket (rev bs) st2, tx, [])
         else
           let st3 = fold (publish wv) (tx_writes tx) st2;
               tx1 = tx\<lparr>tx_committed := True\<rparr>;
               st4 = fold bump_seq bs st3
           in (True, fold unlock_bucket (rev bs) st4, tx1, tur_stm_fire_commit_defers tx1))"

section \<open>The loop of a transaction\<close>

text \<open>What a new attempt clears: not the deferred actions.\<close>

definition tx_begin :: "nat \<Rightarrow> stmtx \<Rightarrow> stmtx" where
  "tx_begin clock tx = tx\<lparr>tx_reads := [], tx_writes := [], tx_retry := False, tx_aborted := False, tx_committed := False, tx_stamp := clock\<rparr>"

text \<open>Parking: the sequence numbers of the buckets read, and whether one has moved since.\<close>

definition park_add :: "stm \<Rightarrow> nat \<times> nat \<Rightarrow> (nat \<times> nat) list \<Rightarrow> (nat \<times> nat) list" where
  "park_add st r n = (let b = tvar_to_bucket (fst r) in if b \<in> fst ` set n then n else n @ [(b, st_seq st b)])"

definition park_sample :: "stm \<Rightarrow> stmtx \<Rightarrow> (nat \<times> nat) list" where
  "park_sample st tx = fold (park_add st) (tx_reads tx) []"

definition park_over :: "stm \<Rightarrow> (nat \<times> nat) list \<Rightarrow> bool" where
  "park_over st sample \<longleftrightarrow> sample = [] \<or> (\<exists>(b, s)\<in>set sample. st_seq st b \<noteq> s)"

definition last_written :: "stmtx \<Rightarrow> int" where
  "last_written tx = (if tx_writes tx = [] then 0 else snd (last (tx_writes tx)))"

text \<open>
  The body of a transaction: any closure that reads, writes, asks for a retry or registers an
  action, what it does next depending on what it has read.
\<close>

datatype txbody =
  BDone
| BRead nat "int \<Rightarrow> txbody"
| BWrite nat int txbody
| BRetry txbody
| BDefer nat txbody

primrec run_body :: "txbody \<Rightarrow> stm \<Rightarrow> stmtx \<Rightarrow> stmtx" where
  "run_body BDone st tx = tx"
| "run_body (BRead tv k) st tx = (let r = tur_tvar_read st tx tv in run_body (k (fst r)) st (snd r))"
| "run_body (BWrite tv x p) st tx = run_body p st (tur_tvar_write tx tv x)"
| "run_body (BRetry p) st tx = run_body p st (tur_stm_retry tx)"
| "run_body (BDefer f p) st tx = run_body p st (snd (tur_stm_defer_on_commit tx f))"

text \<open>
  What other threads do between two steps of the call is a list of changes of the state, taken one
  at a time. A parked call returns when a bucket it has read is bumped.
\<close>

definition take_env :: "(stm \<Rightarrow> stm) list \<Rightarrow> stm \<Rightarrow> stm \<times> (stm \<Rightarrow> stm) list" where
  "take_env env st = (case env of [] \<Rightarrow> (st, []) | e # env' \<Rightarrow> (e st, env'))"

fun stm_park :: "(nat \<times> nat) list \<Rightarrow> (stm \<Rightarrow> stm) list \<Rightarrow> stm \<Rightarrow> (stm \<times> (stm \<Rightarrow> stm) list) option" where
  "stm_park sample env st =
     (if park_over st sample then Some (st, env)
      else case env of [] \<Rightarrow> None | e # env' \<Rightarrow> stm_park sample env' (e st))"

declare stm_park.simps [simp del]

text \<open>The loop, with fuel for its attempts; None is a call that does not return in as many.\<close>

fun atomically_loop :: "nat \<Rightarrow> nat \<Rightarrow> txbody \<Rightarrow> (stm \<Rightarrow> stm) list \<Rightarrow> stm \<Rightarrow> stmtx \<Rightarrow> (int \<times> stm \<times> nat list) option" where
  "atomically_loop 0 t p env st tx = None"
| "atomically_loop (Suc n) t p env st tx =
     (let tx1 = run_body p st (tx_begin (st_clock st) tx) in
      if tx_retry tx1 then
        (case stm_park (park_sample st tx1) env st of
           None \<Rightarrow> None
         | Some (st1, env1) \<Rightarrow> atomically_loop n t p env1 st1 tx1)
      else
        (case take_env env st of
           (st1, env1) \<Rightarrow>
             if tx_aborted tx1 then atomically_loop n t p env1 st1 tx1
             else
               (case tur_stm_commit t st1 tx1 of
                  (True, st2, tx2, fired) \<Rightarrow> Some (last_written tx2, st2, fired)
                | (False, st2, tx2, fired) \<Rightarrow> atomically_loop n t p env1 st2 tx2)))"

definition tur_atomically :: "nat \<Rightarrow> nat \<Rightarrow> txbody \<Rightarrow> (stm \<Rightarrow> stm) list \<Rightarrow> stm \<Rightarrow> (int \<times> stm \<times> nat list) option" where
  "tur_atomically n t p env st = atomically_loop n t p env st tur_stm_new_transaction"

section \<open>Threads\<close>

text \<open>
  Where a thread is: outside a transaction, in the body, between the loads of a read, or in the
  commit with what it still has to do. \<open>th_seen\<close> records what the reads have returned, with the
  stamps they found; the program does not use it.
\<close>

datatype pc =
  Idle
| Body
| Read1 nat nat
| Read2 nat nat int
| Locking "nat list"
| Validate "(nat \<times> nat) list" nat
| Publish "(nat \<times> int) list" nat
| Marked nat int "(nat \<times> int) list" nat
| Stored nat "(nat \<times> int) list" nat
| Bumping "nat list"
| Unlocking "nat list"

record thread =
  th_pc :: pc
  th_tx :: stmtx
  th_seen :: "(nat \<times> nat \<times> int) list"

text \<open>What the body asks for next; in the commit the thread just goes on.\<close>

datatype act = Go | DoRead nat | DoWrite nat int | DoRetry | DoDefer nat | Finish

definition goto_pc :: "pc \<Rightarrow> thread \<Rightarrow> thread" where
  "goto_pc p th = th\<lparr>th_pc := p\<rparr>"

definition abort_read :: "thread \<Rightarrow> thread" where
  "abort_read th = th\<lparr>th_pc := Body, th_tx := (th_tx th)\<lparr>tx_aborted := True\<rparr>\<rparr>"

text \<open>
  A body that asked for a retry, or met a conflict, is run again from the start; parking only delays
  that. After a commit the next call has a new transaction.
\<close>

fun body_step :: "stm \<Rightarrow> act \<Rightarrow> thread \<Rightarrow> thread option" where
  "body_step st (DoRead tv) th =
     (if map_of (tx_writes (th_tx th)) tv \<noteq> None then Some th
      else if read_refused (th_tx th) (st_version st tv) then Some (abort_read th)
      else Some (goto_pc (Read1 tv (st_version st tv)) th))"
| "body_step st (DoWrite tv x) th = Some (th\<lparr>th_tx := tur_tvar_write (th_tx th) tv x\<rparr>)"
| "body_step st DoRetry th = Some (th\<lparr>th_tx := tur_stm_retry (th_tx th)\<rparr>)"
| "body_step st (DoDefer f) th = Some (th\<lparr>th_tx := snd (tur_stm_defer_on_commit (th_tx th) f)\<rparr>)"
| "body_step st Finish th =
     (if tx_retry (th_tx th) \<or> tx_aborted (th_tx th) then Some (goto_pc Idle th)
      else Some (goto_pc (Locking (stm_collect_write_buckets (th_tx th))) th))"
| "body_step st Go th = None"

fun thread_step :: "nat \<Rightarrow> act \<Rightarrow> pc \<Rightarrow> stm \<Rightarrow> thread \<Rightarrow> (stm \<times> thread) option" where
  "thread_step t a Idle st th =
     Some (st, th\<lparr>th_pc := Body, th_seen := [],
       th_tx := tx_begin (st_clock st) (if tx_committed (th_tx th) then tur_stm_new_transaction else th_tx th)\<rparr>)"
| "thread_step t a Body st th = map_option (\<lambda>th'. (st, th')) (body_step st a th)"
| "thread_step t a (Read1 tv v1) st th = Some (st, goto_pc (Read2 tv v1 (st_value st tv)) th)"
| "thread_step t a (Read2 tv v1 val) st th =
     (if st_version st tv \<noteq> v1 then Some (st, abort_read th)
      else Some (st, th\<lparr>th_pc := Body, th_tx := record_read tv v1 (th_tx th), th_seen := th_seen th @ [(tv, v1, val)]\<rparr>))"
| "thread_step t a (Locking (b # bs)) st th =
     (if st_lock st b = None then Some (lock_bucket t b st, goto_pc (Locking bs) th) else None)"
| "thread_step t a (Locking []) st th =
     Some (st\<lparr>st_clock := st_clock st + 2\<rparr>, goto_pc (Validate (tx_reads (th_tx th)) (st_clock st + 2)) th)"
| "thread_step t a (Validate ((tv, v) # rs) wv) st th =
     (if version_moved (st_version st tv) v then Some (st, goto_pc (Unlocking (rev (stm_collect_write_buckets (th_tx th)))) th)
      else Some (st, goto_pc (Validate rs wv) th))"
| "thread_step t a (Validate [] wv) st th = Some (st, goto_pc (Publish (tx_writes (th_tx th)) wv) th)"
| "thread_step t a (Publish ((tv, x) # ws) wv) st th = Some (mark_locked tv st, goto_pc (Marked tv x ws wv) th)"
| "thread_step t a (Marked tv x ws wv) st th = Some (store_value tv x st, goto_pc (Stored tv ws wv) th)"
| "thread_step t a (Stored tv ws wv) st th = Some (store_stamp tv wv st, goto_pc (Publish ws wv) th)"
| "thread_step t a (Publish [] wv) st th =
     Some (st, th\<lparr>th_pc := Bumping (stm_collect_write_buckets (th_tx th)), th_tx := (th_tx th)\<lparr>tx_committed := True\<rparr>\<rparr>)"
| "thread_step t a (Bumping (b # bs)) st th = Some (bump_seq b st, goto_pc (Bumping bs) th)"
| "thread_step t a (Bumping []) st th = Some (st, goto_pc (Unlocking (rev (stm_collect_write_buckets (th_tx th)))) th)"
| "thread_step t a (Unlocking (b # bs)) st th = Some (unlock_bucket b st, goto_pc (Unlocking bs) th)"
| "thread_step t a (Unlocking []) st th = Some (st, goto_pc Idle th)"

type_synonym world = "stm \<times> (nat \<Rightarrow> thread)"

definition world_step :: "nat \<Rightarrow> act \<Rightarrow> world \<Rightarrow> world option" where
  "world_step t a w = (case w of (st, ths) \<Rightarrow> map_option (\<lambda>(st', th'). (st', ths(t := th'))) (thread_step t a (th_pc (ths t)) st (ths t)))"

definition idle_thread :: thread where
  "idle_thread = \<lparr>th_pc = Idle, th_tx = tur_stm_new_transaction, th_seen = []\<rparr>"

inductive stm_reach :: "(nat \<Rightarrow> int) \<Rightarrow> world \<Rightarrow> bool" for mem where
  stm_start: "stm_reach mem (stm_do_init mem, \<lambda>_. idle_thread)"
| stm_step: "stm_reach mem w \<Longrightarrow> world_step t a w = Some w' \<Longrightarrow> stm_reach mem w'"

fun run_world :: "(nat \<times> act) list \<Rightarrow> world \<Rightarrow> world option" where
  "run_world [] w = Some w"
| "run_world ((t, a) # sched) w = Option.bind (world_step t a w) (run_world sched)"

lemma run_reach: "stm_reach mem w \<Longrightarrow> run_world sched w = Some w' \<Longrightarrow> stm_reach mem w'"
proof (induction sched arbitrary: w)
  case (Cons p sched)
  then show ?case by (cases p) (auto simp: bind_eq_Some_conv intro: stm_step)
qed simp

end
