(* ===== verification/StmSound.thy ===== *)
theory StmSound
  imports Stm
begin

text \<open>
  What every interleaving of transactions keeps. The invariant of a thread is stable under what
  the other threads may do (they leave the locks it holds, and the variables below them, alone, and
  only ever raise stamps), and every step of a thread does no more than that to the others.
\<close>

section \<open>Buckets\<close>

lemma split_shift: "set (takeWhile P xs) \<union> set (dropWhile P xs) = set xs"
  by (metis set_append takeWhile_dropWhile_id)

lemma shift_in_set [simp]: "set (shift_in k xs) = insert k (set xs)"
  using split_shift [of "\<lambda>x. x \<le> k" xs] by (auto simp: shift_in_def)

lemma fold_shift_set: "set (fold shift_in ks xs) = set ks \<union> set xs"
  by (induction ks arbitrary: xs) auto

lemma shift_in_distinct: "distinct xs \<Longrightarrow> k \<notin> set xs \<Longrightarrow> distinct (shift_in k xs)"
proof -
  assume d: "distinct xs" "k \<notin> set xs"
  have "set (takeWhile P xs) \<inter> set (dropWhile P xs) = {}" for P
    using d(1) by (metis distinct_append takeWhile_dropWhile_id)
  then show ?thesis using d by (auto simp: shift_in_def dest: set_takeWhileD set_dropWhileD)
qed

lemma fold_shift_distinct: "distinct xs \<Longrightarrow> distinct ks \<Longrightarrow> set ks \<inter> set xs = {} \<Longrightarrow> distinct (fold shift_in ks xs)"
  using shift_in_distinct by (induction ks arbitrary: xs) auto

lemma fold_dedup:
  "distinct n \<Longrightarrow> distinct (fold (\<lambda>w n. let b = f w in if b \<in> set n then n else n @ [b]) ws n) \<and>
    set (fold (\<lambda>w n. let b = f w in if b \<in> set n then n else n @ [b]) ws n) = f ` set ws \<union> set n"
  by (induction ws arbitrary: n) (auto simp: Let_def)

lemma buckets_set: "set (stm_collect_write_buckets tx) = tvar_to_bucket ` fst ` set (tx_writes tx)"
  using fold_dedup [of "[]" "\<lambda>w. tvar_to_bucket (fst w)" "tx_writes tx"]
  by (simp add: stm_collect_write_buckets_def fold_shift_set image_image)

lemma buckets_distinct: "distinct (stm_collect_write_buckets tx)"
  using fold_dedup [of "[]" "\<lambda>w. tvar_to_bucket (fst w)" "tx_writes tx"]
  by (simp add: stm_collect_write_buckets_def fold_shift_distinct)

lemma refused_iff: "read_refused tx v \<longleftrightarrow> odd v \<or> tx_stamp tx < v"
  by (simp add: read_refused_def and_one_eq odd_iff_mod_2_eq_one del: One_nat_def)

lemma moved_iff: "version_moved cur v \<longleftrightarrow> odd cur \<or> cur \<noteq> v"
  by (simp add: version_moved_def and_one_eq odd_iff_mod_2_eq_one del: One_nat_def)

lemma or_1_even: "even v \<Longrightarrow> v OR 1 = v + 1" for v :: nat
  by (simp add: or_one_eq del: One_nat_def)

lemma update_distinct: "distinct (map fst ws) \<Longrightarrow> distinct (map fst (AList.update tv x ws))"
  by (rule distinct_update)

section \<open>A thread in its commit\<close>

definition holds :: "thread \<Rightarrow> nat set" where
  "holds th =
     (case th_pc th of
        Locking bs \<Rightarrow> set (stm_collect_write_buckets (th_tx th)) - set bs
      | Validate rs wv \<Rightarrow> set (stm_collect_write_buckets (th_tx th))
      | Publish ws wv \<Rightarrow> set (stm_collect_write_buckets (th_tx th))
      | Marked tv x ws wv \<Rightarrow> set (stm_collect_write_buckets (th_tx th))
      | Stored tv ws wv \<Rightarrow> set (stm_collect_write_buckets (th_tx th))
      | Bumping bs \<Rightarrow> set (stm_collect_write_buckets (th_tx th))
      | Unlocking bs \<Rightarrow> set bs
      | _ \<Rightarrow> {})"

text \<open>The variables it has still to publish, the one whose stamp it has locked, the new stamp.\<close>

definition pending :: "thread \<Rightarrow> nat set" where
  "pending th =
     (case th_pc th of
        Validate rs wv \<Rightarrow> fst ` set (tx_writes (th_tx th))
      | Publish ws wv \<Rightarrow> fst ` set ws
      | Marked tv x ws wv \<Rightarrow> fst ` set ws
      | Stored tv ws wv \<Rightarrow> fst ` set ws
      | _ \<Rightarrow> {})"

definition marked :: "thread \<Rightarrow> nat option" where
  "marked th = (case th_pc th of Marked tv x ws wv \<Rightarrow> Some tv | Stored tv ws wv \<Rightarrow> Some tv | _ \<Rightarrow> None)"

definition new_stamp :: "thread \<Rightarrow> nat option" where
  "new_stamp th =
     (case th_pc th of
        Validate rs wv \<Rightarrow> Some wv | Publish ws wv \<Rightarrow> Some wv | Marked tv x ws wv \<Rightarrow> Some wv | Stored tv ws wv \<Rightarrow> Some wv
      | _ \<Rightarrow> None)"

text \<open>What it was told, and is being told, of the memory.\<close>

definition knows :: "thread \<Rightarrow> (nat \<times> nat \<times> int) set" where
  "knows th = set (th_seen th) \<union> (case th_pc th of Read2 tv v x \<Rightarrow> {(tv, v, x)} | _ \<Rightarrow> {})"

definition checked :: "thread \<Rightarrow> (nat \<times> nat) set" where
  "checked th =
     (case th_pc th of
        Validate rs wv \<Rightarrow> set (take (length (tx_reads (th_tx th)) - length rs) (tx_reads (th_tx th)))
      | Publish ws wv \<Rightarrow> set (tx_reads (th_tx th))
      | Marked tv x ws wv \<Rightarrow> set (tx_reads (th_tx th))
      | Stored tv ws wv \<Rightarrow> set (tx_reads (th_tx th))
      | _ \<Rightarrow> {})"

lemmas pc_defs = holds_def pending_def marked_def new_stamp_def knows_def checked_def

definition reads_seen :: "thread \<Rightarrow> bool" where
  "reads_seen th \<longleftrightarrow> (\<forall>tv v. (tv, v) \<in> set (tx_reads (th_tx th)) \<longrightarrow> (\<exists>x. (tv, v, x) \<in> set (th_seen th)))"

lemma reads_seen_pc [simp]:
  "reads_seen (th\<lparr>th_pc := p\<rparr>) = reads_seen th"
  "reads_seen (th\<lparr>th_pc := p, th_tx := (th_tx th)\<lparr>tx_committed := c\<rparr>\<rparr>) = reads_seen th"
  by (simp_all add: reads_seen_def)

definition thread_wf :: "thread \<Rightarrow> bool" where
  "thread_wf th \<longleftrightarrow> distinct (map fst (tx_writes (th_tx th))) \<and> reads_seen th \<and>
     (case th_pc th of
        Locking bs \<Rightarrow> distinct bs \<and> set bs \<subseteq> set (stm_collect_write_buckets (th_tx th))
      | Validate rs wv \<Rightarrow> (\<exists>ds. tx_reads (th_tx th) = ds @ rs)
      | Publish ws wv \<Rightarrow> distinct (map fst ws) \<and> set ws \<subseteq> set (tx_writes (th_tx th))
      | Marked tv x ws wv \<Rightarrow> distinct (tv # map fst ws) \<and> set ((tv, x) # ws) \<subseteq> set (tx_writes (th_tx th))
      | Stored tv ws wv \<Rightarrow> distinct (tv # map fst ws) \<and> tv \<in> fst ` set (tx_writes (th_tx th)) \<and> set ws \<subseteq> set (tx_writes (th_tx th))
      | Unlocking bs \<Rightarrow> distinct bs \<and> set bs \<subseteq> set (stm_collect_write_buckets (th_tx th))
      | _ \<Rightarrow> True)"

text \<open>The invariant of a thread in a state.\<close>

definition thread_ok :: "nat \<Rightarrow> stm \<Rightarrow> thread \<Rightarrow> bool" where
  "thread_ok t st th \<longleftrightarrow>
     (\<forall>b\<in>holds th. st_lock st b = Some t) \<and>
     (\<forall>wv. new_stamp th = Some wv \<longrightarrow> even wv \<and> wv \<le> st_clock st \<and>
        (\<forall>tv\<in>pending th. even (st_version st tv) \<and> st_version st tv < wv) \<and>
        (\<forall>tv. marked th = Some tv \<longrightarrow> odd (st_version st tv) \<and> st_version st tv < wv)) \<and>
     (\<forall>tv v x. (tv, v, x) \<in> knows th \<longrightarrow> even v \<and> v \<le> st_version st tv \<and> (st_version st tv = v \<longrightarrow> st_value st tv = x)) \<and>
     (\<forall>tv v. th_pc th = Read1 tv v \<longrightarrow> even v \<and> v \<le> st_version st tv) \<and>
     (\<forall>tv v. (tv, v) \<in> checked th \<longrightarrow> tv \<in> pending th \<longrightarrow> st_version st tv = v) \<and>
     (\<forall>tv x ws wv v y. th_pc th = Marked tv x ws wv \<longrightarrow> (tv, v) \<in> set (tx_reads (th_tx th)) \<longrightarrow> (tv, v, y) \<in> set (th_seen th) \<longrightarrow> st_value st tv = y)"

lemma thread_okD:
  assumes "thread_ok t st th"
  shows "b \<in> holds th \<Longrightarrow> st_lock st b = Some t"
    "new_stamp th = Some wv \<Longrightarrow> even wv \<and> wv \<le> st_clock st"
    "new_stamp th = Some wv \<Longrightarrow> tv \<in> pending th \<Longrightarrow> even (st_version st tv) \<and> st_version st tv < wv"
    "new_stamp th = Some wv \<Longrightarrow> marked th = Some tv \<Longrightarrow> odd (st_version st tv) \<and> st_version st tv < wv"
    "(tv, v, x) \<in> knows th \<Longrightarrow> even v \<and> v \<le> st_version st tv \<and> (st_version st tv = v \<longrightarrow> st_value st tv = x)"
    "th_pc th = Read1 tv v \<Longrightarrow> even v \<and> v \<le> st_version st tv"
    "(tv, v) \<in> checked th \<Longrightarrow> tv \<in> pending th \<Longrightarrow> st_version st tv = v"
    "th_pc th = Marked tv x ws wv \<Longrightarrow> (tv, v) \<in> set (tx_reads (th_tx th)) \<Longrightarrow> (tv, v, y) \<in> set (th_seen th) \<Longrightarrow> st_value st tv = y"
  using assms unfolding thread_ok_def by blast+

lemma thread_okI:
  assumes "\<And>b. b \<in> holds th \<Longrightarrow> st_lock st b = Some t"
    and "\<And>wv. new_stamp th = Some wv \<Longrightarrow> even wv \<and> wv \<le> st_clock st"
    and "\<And>wv tv. new_stamp th = Some wv \<Longrightarrow> tv \<in> pending th \<Longrightarrow> even (st_version st tv) \<and> st_version st tv < wv"
    and "\<And>wv tv. new_stamp th = Some wv \<Longrightarrow> marked th = Some tv \<Longrightarrow> odd (st_version st tv) \<and> st_version st tv < wv"
    and "\<And>tv v x. (tv, v, x) \<in> knows th \<Longrightarrow> even v \<and> v \<le> st_version st tv \<and> (st_version st tv = v \<longrightarrow> st_value st tv = x)"
    and "\<And>tv v. th_pc th = Read1 tv v \<Longrightarrow> even v \<and> v \<le> st_version st tv"
    and "\<And>tv v. (tv, v) \<in> checked th \<Longrightarrow> tv \<in> pending th \<Longrightarrow> st_version st tv = v"
    and "\<And>tv x ws wv v y. th_pc th = Marked tv x ws wv \<Longrightarrow> (tv, v) \<in> set (tx_reads (th_tx th)) \<Longrightarrow> (tv, v, y) \<in> set (th_seen th) \<Longrightarrow> st_value st tv = y"
  shows "thread_ok t st th"
  unfolding thread_ok_def using assms by (intro conjI allI ballI impI) simp_all

text \<open>What the others may do to the state of a thread.\<close>

definition others_ok :: "nat \<Rightarrow> stm \<Rightarrow> stm \<Rightarrow> bool" where
  "others_ok t st st' \<longleftrightarrow>
     (\<forall>b. st_lock st b = Some t \<longrightarrow> st_lock st' b = Some t) \<and>
     st_clock st \<le> st_clock st' \<and>
     (\<forall>tv. st_version st tv \<le> st_version st' tv) \<and>
     (\<forall>tv. even (st_version st tv) \<longrightarrow> st_version st' tv = st_version st tv \<longrightarrow> st_value st' tv = st_value st tv) \<and>
     (\<forall>tv. st_lock st (tvar_to_bucket tv) = Some t \<longrightarrow> st_version st' tv = st_version st tv \<and> st_value st' tv = st_value st tv)"

text \<open>What it has locked covers what it is about to publish.\<close>

lemma covered:
  assumes "thread_wf th" and "thread_ok t st th" and "tv \<in> pending th \<or> marked th = Some tv"
  shows "st_lock st (tvar_to_bucket tv) = Some t"
proof -
  have "tvar_to_bucket tv \<in> holds th"
    using assms(1,3) by (auto simp: pc_defs thread_wf_def buckets_set split: pc.splits) force+
  then show ?thesis using assms(2) by (simp add: thread_ok_def)
qed

lemma othersD:
  assumes "others_ok t st st'"
  shows "st_lock st b = Some t \<Longrightarrow> st_lock st' b = Some t" "st_clock st \<le> st_clock st'" "st_version st tv \<le> st_version st' tv"
    "even (st_version st tv) \<Longrightarrow> st_version st' tv = st_version st tv \<Longrightarrow> st_value st' tv = st_value st tv"
    "st_lock st (tvar_to_bucket tv) = Some t \<Longrightarrow> st_version st' tv = st_version st tv"
    "st_lock st (tvar_to_bucket tv) = Some t \<Longrightarrow> st_value st' tv = st_value st tv"
  using assms unfolding others_ok_def by blast+

lemma thread_ok_others:
  assumes w: "thread_wf th" and k: "thread_ok t st th" and r: "others_ok t st st'"
  shows "thread_ok t st' th"
proof -
  note c = othersD(5) [OF r covered [OF w k]] othersD(6) [OF r covered [OF w k]]
  note d = thread_okD [OF k]
  show ?thesis
  proof (rule thread_okI)
    show "st_lock st' b = Some t" if "b \<in> holds th" for b using d(1) [OF that] othersD(1) [OF r] by blast
    show "even wv \<and> wv \<le> st_clock st'" if "new_stamp th = Some wv" for wv using d(2) [OF that] othersD(2) [OF r] by simp
    show "even (st_version st' tv) \<and> st_version st' tv < wv" if "new_stamp th = Some wv" "tv \<in> pending th" for wv tv
      unfolding c(1) [OF disjI1 [OF that(2)]] by (rule d(3) [OF that])
    show "odd (st_version st' tv) \<and> st_version st' tv < wv" if "new_stamp th = Some wv" "marked th = Some tv" for wv tv
      unfolding c(1) [OF disjI2 [OF that(2)]] by (rule d(4) [OF that])
    show "even v \<and> v \<le> st_version st' tv \<and> (st_version st' tv = v \<longrightarrow> st_value st' tv = x)" if "(tv, v, x) \<in> knows th" for tv v x
    proof (intro conjI impI)
      note o = d(5) [OF that]
      show "even v" "v \<le> st_version st' tv" using o othersD(3) [OF r, of tv] by linarith+
      assume e: "st_version st' tv = v"
      then have "st_version st tv = v" using o othersD(3) [OF r, of tv] by linarith
      then show "st_value st' tv = x" using o othersD(4) [OF r, of tv] e by metis
    qed
    show "even v \<and> v \<le> st_version st' tv" if "th_pc th = Read1 tv v" for tv v
      using d(6) [OF that] othersD(3) [OF r, of tv] by linarith
    show "st_version st' tv = v" if "(tv, v) \<in> checked th" "tv \<in> pending th" for tv v
      unfolding c(1) [OF disjI1 [OF that(2)]] by (rule d(7) [OF that])
    show "st_value st' tv = y" if "th_pc th = Marked tv x ws wv" "(tv, v) \<in> set (tx_reads (th_tx th))" "(tv, v, y) \<in> set (th_seen th)" for tv x ws wv v y
    proof -
      have "marked th = Some tv" using that(1) by (simp add: marked_def)
      then show ?thesis unfolding c(2) [OF disjI2 [OF \<open>marked th = Some tv\<close>]] by (intro d(8) [OF that])
    qed
  qed
qed

section \<open>A step\<close>

lemma others_refl [simp]: "others_ok t st st"
  by (simp add: others_ok_def)

lemma others_clock: "others_ok t st (st\<lparr>st_clock := st_clock st + 2\<rparr>)"
  by (simp add: others_ok_def)

lemma others_lock: "st_lock st b = None \<Longrightarrow> others_ok t' st (lock_bucket t b st)"
  by (auto simp: others_ok_def lock_bucket_def)

lemma others_unlock: "st_lock st b = Some t \<Longrightarrow> t' \<noteq> t \<Longrightarrow> others_ok t' st (unlock_bucket b st)"
  by (auto simp: others_ok_def unlock_bucket_def)

lemma others_bump: "others_ok t' st (bump_seq b st)"
  by (simp add: others_ok_def bump_seq_def)

lemma others_mark: "st_lock st (tvar_to_bucket tv) = Some t \<Longrightarrow> t' \<noteq> t \<Longrightarrow> even (st_version st tv) \<Longrightarrow> others_ok t' st (mark_locked tv st)"
  by (auto simp: others_ok_def mark_locked_def or_1_even simp del: One_nat_def)

lemma others_store: "st_lock st (tvar_to_bucket tv) = Some t \<Longrightarrow> t' \<noteq> t \<Longrightarrow> odd (st_version st tv) \<Longrightarrow> others_ok t' st (store_value tv x st)"
  by (auto simp: others_ok_def store_value_def)

lemma others_stamp: "st_lock st (tvar_to_bucket tv) = Some t \<Longrightarrow> t' \<noteq> t \<Longrightarrow> odd (st_version st tv) \<Longrightarrow> st_version st tv < wv \<Longrightarrow> others_ok t' st (store_stamp tv wv st)"
  by (auto simp: others_ok_def store_stamp_def)

lemma step_others:
  assumes w: "thread_wf th" and k: "thread_ok t st th" and s: "thread_step t a (th_pc th) st th = Some (st', th')" and t: "t' \<noteq> t"
  shows "others_ok t' st st'"
proof (cases "th_pc th")
  case (Locking bs)
  then show ?thesis using s by (cases bs) (auto simp: others_lock others_clock split: if_splits simp del: add_2_eq_Suc')
next
  case (Validate rs wv)
  then show ?thesis using s by (cases "(t, a, th_pc th, st, th)" rule: thread_step.cases) (auto split: if_splits)
next
  case (Publish ws wv)
  show ?thesis
  proof (cases ws)
    case (Cons p ws')
    obtain tv x where p: "p = (tv, x)" by (cases p)
    have i: "tv \<in> pending th" using Publish Cons p by (simp add: pending_def)
    have "even (st_version st tv)" using thread_okD(3) [OF k _ i] Publish by (simp add: new_stamp_def)
    then show ?thesis using others_mark [OF covered [OF w k disjI1 [OF i]] t] s Publish Cons p by simp
  qed (use s Publish in simp)
next
  case (Marked tv x ws wv)
  have m: "marked th = Some tv" "new_stamp th = Some wv" using Marked by (simp_all add: marked_def new_stamp_def)
  then show ?thesis using others_store [OF covered [OF w k disjI2 [OF m(1)]] t, of x] thread_okD(4) [OF k m(2,1)] s Marked by simp
next
  case (Stored tv ws wv)
  have m: "marked th = Some tv" "new_stamp th = Some wv" using Stored by (simp_all add: marked_def new_stamp_def)
  then show ?thesis using others_stamp [OF covered [OF w k disjI2 [OF m(1)]] t, of wv] thread_okD(4) [OF k m(2,1)] s Stored by simp
next
  case (Bumping bs)
  then show ?thesis using s by (cases bs) (auto simp: others_bump)
next
  case (Unlocking bs)
  show ?thesis
  proof (cases bs)
    case (Cons b bs')
    then have "st_lock st b = Some t" using thread_okD(1) [OF k, of b] Unlocking by (simp add: holds_def)
    then show ?thesis using others_unlock [of st b t t'] t s Unlocking Cons by simp
  qed (use s Unlocking in simp)
qed (use s in \<open>auto split: if_splits\<close>)

lemma write_wf: "distinct (map fst (tx_writes tx)) \<Longrightarrow> distinct (map fst (tx_writes (tur_tvar_write tx tv x)))"
  by (simp add: tur_tvar_write_def update_distinct)

lemma wf_step:
  assumes w: "thread_wf th" and s: "thread_step t a (th_pc th) st th = Some (st', th')"
  shows "thread_wf th'"
proof (cases "th_pc th")
  case Idle
  then show ?thesis using s by (auto simp: thread_wf_def tx_begin_def reads_seen_def)
next
  case Body
  then show ?thesis using w s
    by (cases a) (auto simp: thread_wf_def goto_pc_def abort_read_def tur_stm_retry_def tur_stm_defer_on_commit_def tur_tvar_write_def
        update_distinct buckets_distinct reads_seen_def split: if_splits)
next
  case (Read2 tv v x)
  then show ?thesis using w s by (auto simp: thread_wf_def abort_read_def record_read_def reads_seen_def split: if_splits) blast+
next
  case (Locking bs)
  then show ?thesis using w s by (cases bs) (auto simp: thread_wf_def goto_pc_def split: if_splits)
next
  case (Validate rs wv)
  then show ?thesis using w s
    by (cases "(t, a, th_pc th, st, th)" rule: thread_step.cases) (auto simp: thread_wf_def goto_pc_def buckets_distinct split: if_splits)
next
  case (Publish ws wv)
  then show ?thesis using w s
    by (cases "(t, a, th_pc th, st, th)" rule: thread_step.cases) (auto simp: thread_wf_def goto_pc_def split: if_splits)
next
  case (Bumping bs)
  then show ?thesis using w s by (cases bs) (auto simp: thread_wf_def goto_pc_def buckets_distinct)
next
  case (Unlocking bs)
  then show ?thesis using w s by (cases bs) (auto simp: thread_wf_def goto_pc_def)
next
  case (Marked tv x ws wv)
  then show ?thesis using w s by (auto simp: thread_wf_def goto_pc_def) force
qed (use w s in \<open>auto simp: thread_wf_def goto_pc_def\<close>)

section \<open>The invariant\<close>

definition stamps_ok :: "stm \<Rightarrow> (nat \<Rightarrow> thread) \<Rightarrow> bool" where
  "stamps_ok st ths \<longleftrightarrow> even (st_clock st) \<and>
     (\<forall>tv. if even (st_version st tv) then st_version st tv \<le> st_clock st else (\<exists>t. marked (ths t) = Some tv))"

definition world_ok :: "world \<Rightarrow> bool" where
  "world_ok w \<longleftrightarrow> stamps_ok (fst w) (snd w) \<and> (\<forall>t. thread_wf (snd w t) \<and> thread_ok t (fst w) (snd w t))"

text \<open>A variable below a lock of the thread, whose stamp it has not locked, is at rest.\<close>

lemma free_stamp:
  assumes "world_ok (st, ths)" and "st_lock st (tvar_to_bucket tv) = Some t" and "marked (ths t) \<noteq> Some tv"
  shows "even (st_version st tv)" "st_version st tv \<le> st_clock st"
proof -
  have "\<exists>t'. marked (ths t') = Some tv" if "odd (st_version st tv)"
    using assms(1) that by (auto simp: world_ok_def stamps_ok_def split: if_splits)
  moreover have "st_lock st (tvar_to_bucket tv) = Some t'" if "marked (ths t') = Some tv" for t'
    using assms(1) that covered [of "ths t'" t' st tv] by (simp add: world_ok_def)
  ultimately show "even (st_version st tv)" using assms(2,3) by (metis option.inject)
  then show "st_version st tv \<le> st_clock st" using assms(1) by (auto simp: world_ok_def stamps_ok_def split: if_splits)
qed

lemma write_pc [simp]: "th_pc (goto_pc p th) = p" "th_tx (goto_pc p th) = th_tx th" "th_seen (goto_pc p th) = th_seen th"
  by (simp_all add: goto_pc_def)

lemma checked_take: "tx_reads (th_tx th) = ds @ rs \<Longrightarrow> th_pc th = Validate rs wv \<Longrightarrow> checked th = set ds"
  by (simp add: checked_def)

lemma own_step:
  assumes g: "world_ok (st, ths)" and s: "thread_step t a (th_pc (ths t)) st (ths t) = Some (st', th')"
  shows "thread_ok t st' th'"
proof -
  define th where "th = ths t"
  have w: "thread_wf th" and k: "thread_ok t st th" using g by (simp_all add: world_ok_def th_def)
  have s: "thread_step t a (th_pc th) st th = Some (st', th')" using s by (simp add: th_def)
  note d = thread_okD [OF k]
  show ?thesis
  proof (cases "th_pc th")
    case Idle
    then show ?thesis using s by (intro thread_okI) (auto simp: pc_defs)
  next
    case Body
    have n: "(tv, v, x) \<in> set (th_seen th) \<Longrightarrow> even v \<and> v \<le> st_version st tv \<and> (st_version st tv = v \<longrightarrow> st_value st tv = x)" for tv v x
      using d(5) unfolding knows_def by blast
    have "st' = st" "th_seen th' = th_seen th" and pc: "(\<forall>tv v. th_pc th' = Read1 tv v \<longrightarrow> even v \<and> v = st_version st tv)"
      "th_pc th' = Body \<or> th_pc th' = Idle \<or> (\<exists>tv v. th_pc th' = Read1 tv v) \<or> th_pc th' = Locking (stm_collect_write_buckets (th_tx th'))"
      using Body s by (cases a; auto simp: abort_read_def refused_iff split: if_splits)+
    then show ?thesis using n pc by (intro thread_okI) (auto simp: pc_defs split: pc.splits)
  next
    case (Read1 tv v)
    have n: "even v \<and> v \<le> st_version st tv" using d(6) Read1 by simp
    show ?thesis
    proof (rule thread_okI)
      fix tv' v' x
      assume i: "(tv', v', x) \<in> knows th'"
      show "even v' \<and> v' \<le> st_version st' tv' \<and> (st_version st' tv' = v' \<longrightarrow> st_value st' tv' = x)"
      proof (cases "(tv', v', x) \<in> knows th")
        case True
        then show ?thesis using d(5) s Read1 by auto
      next
        case False
        then show ?thesis using i n s Read1 by (auto simp: knows_def)
      qed
    qed (use s Read1 in \<open>auto simp: pc_defs\<close>)
  next
    case (Read2 tv v x)
    have "knows th' \<subseteq> knows th" using s Read2 by (auto simp: knows_def abort_read_def split: if_splits)
    then show ?thesis using d(5) s Read2 by (intro thread_okI) (auto simp: holds_def new_stamp_def pending_def marked_def checked_def abort_read_def split: if_splits)
  next
    case (Locking bs)
    have kn: "knows th' = knows th" using s Locking by (cases bs) (auto simp: knows_def split: if_splits)
    show ?thesis
    proof (cases bs)
      case Nil
      have lk: "st_lock st (tvar_to_bucket tv) = Some t" if "tv \<in> fst ` set (tx_writes (th_tx th))" for tv
        using d(1) [of "tvar_to_bucket tv"] that Locking Nil by (auto simp: holds_def buckets_set)
      have fr: "even (st_version st tv)" "st_version st tv \<le> st_clock st" if "tv \<in> fst ` set (tx_writes (th_tx th))" for tv
        using free_stamp [OF g lk [OF that]] Locking by (simp_all add: marked_def th_def)
      have ev: "even (st_clock st)" using g by (simp add: world_ok_def stamps_ok_def)
      have st: "st' = st\<lparr>st_clock := st_clock st + 2\<rparr>" and th: "th' = goto_pc (Validate (tx_reads (th_tx th)) (st_clock st + 2)) th"
        using s Locking Nil by auto
      show ?thesis
      proof (rule thread_okI)
        show "st_lock st' b = Some t" if "b \<in> holds th'" for b using d(1) [of b] that Locking Nil by (simp add: holds_def st th)
        show "even wv \<and> wv \<le> st_clock st'" if "new_stamp th' = Some wv" for wv using that ev by (auto simp: new_stamp_def st th)
        show "even (st_version st' tv) \<and> st_version st' tv < wv" if "new_stamp th' = Some wv" "tv \<in> pending th'" for wv tv
          using that fr [of tv] by (auto simp: new_stamp_def pending_def st th)
      qed (use d(5) kn in \<open>auto simp: marked_def checked_def st th\<close>)
    next
      case (Cons b bs')
      then show ?thesis using s Locking d(1,5) kn
        by (intro thread_okI) (auto simp: holds_def new_stamp_def pending_def marked_def checked_def lock_bucket_def split: if_splits)
    qed
  next
    case (Validate rs wv)
    have kn: "knows th' = knows th" and st: "st' = st" using s Validate by (cases rs; auto simp: knows_def split: if_splits)+
    obtain ds where ds: "tx_reads (th_tx th) = ds @ rs" using w Validate by (auto simp: thread_wf_def)
    show ?thesis
    proof (cases rs)
      case Nil
      have "th' = goto_pc (Publish (tx_writes (th_tx th)) wv) th" using s Validate Nil by simp
      then have e: "holds th' = holds th" "new_stamp th' = new_stamp th" "pending th' = pending th" "marked th' = marked th" "checked th' = checked th"
        using Validate Nil by (simp_all add: holds_def new_stamp_def pending_def marked_def checked_def)
      have "th_pc th' = Publish (tx_writes (th_tx th)) wv" using s Validate Nil by auto
      then show ?thesis using d(1-5,7) by (intro thread_okI) (simp_all add: kn st e)
    next
      case (Cons p rs')
      obtain tv v where p: "p = (tv, v)" by (cases p)
      show ?thesis
      proof (cases "version_moved (st_version st tv) v")
        case True
        then have "th' = goto_pc (Unlocking (rev (stm_collect_write_buckets (th_tx th)))) th" using s Validate Cons p by simp
        then show ?thesis using d(1,5) kn st Validate
          by (intro thread_okI) (auto simp: holds_def new_stamp_def pending_def marked_def checked_def)
      next
        case False
        then have th: "th' = goto_pc (Validate rs' wv) th" using s Validate Cons p by simp
        then have e: "holds th' = holds th" "new_stamp th' = new_stamp th" "pending th' = pending th" "marked th' = marked th" "checked th' = insert (tv, v) (checked th)"
          using Validate Cons ds p checked_take [of th' "ds @ [p]" rs'] checked_take [OF ds Validate]
          by (simp_all add: holds_def new_stamp_def pending_def marked_def)
        have "st_version st tv = v" using False by (simp add: moved_iff)
        moreover have "th_pc th' = Validate rs' wv" using th by simp
        ultimately show ?thesis using d(1-5,7) by (intro thread_okI) (auto simp: kn st e)
      qed
    qed
  next
    case (Publish ws wv)
    show ?thesis
    proof (cases ws)
      case Nil
      then have "st' = st" "knows th' = knows th" "holds th' = holds th" "new_stamp th' = None" "pending th' = {}" "marked th' = None" "checked th' = {}"
        using s Publish by (auto simp: pc_defs stm_collect_write_buckets_def)
      then show ?thesis using d(1,5) s Publish Nil by (intro thread_okI) auto
    next
      case (Cons p ws')
      obtain tv x where p: "p = (tv, x)" by (cases p)
      have st: "st' = mark_locked tv st" and th: "th' = goto_pc (Marked tv x ws' wv) th" using s Publish Cons p by auto
      have i: "tv \<in> pending th" "new_stamp th = Some wv" using Publish Cons p by (simp_all add: pending_def new_stamp_def)
      have v: "even (st_version st tv)" "st_version st tv < wv" "even wv" using d(3) [OF i(2,1)] d(2) [OF i(2)] by simp_all
      then have lt: "st_version st tv + 1 < wv" by presburger
      have ver: "st_version st' = (st_version st)(tv := st_version st tv + 1)" "st_value st' = st_value st" "st_lock st' = st_lock st" "st_clock st' = st_clock st"
        using v(1) by (simp_all add: st mark_locked_def or_1_even del: One_nat_def)
      have e: "holds th' = holds th" "new_stamp th' = new_stamp th" "pending th = insert tv (pending th')" "marked th' = Some tv" "checked th' = checked th"
          "knows th' = knows th" "checked th = set (tx_reads (th_tx th))"
        using Publish Cons p by (simp_all add: th pc_defs)
      have ni: "tv \<notin> pending th'" using w Publish Cons p by (simp add: thread_wf_def th pending_def)
      show ?thesis
      proof (rule thread_okI)
        show "st_lock st' b = Some t" if "b \<in> holds th'" for b using d(1) that by (simp add: e ver)
        show "even wv' \<and> wv' \<le> st_clock st'" if "new_stamp th' = Some wv'" for wv' using d(2) that by (simp add: e ver)
        show "even (st_version st' tv') \<and> st_version st' tv' < wv'" if "new_stamp th' = Some wv'" "tv' \<in> pending th'" for wv' tv'
          using d(3) [of wv' tv'] that ni by (auto simp: e ver)
        show "odd (st_version st' tv') \<and> st_version st' tv' < wv'" if "new_stamp th' = Some wv'" "marked th' = Some tv'" for wv' tv'
          using that i v lt by (auto simp: e ver)
        show "even v' \<and> v' \<le> st_version st' tv' \<and> (st_version st' tv' = v' \<longrightarrow> st_value st' tv' = y)" if "(tv', v', y) \<in> knows th'" for tv' v' y
          using d(5) [of tv' v' y] that v(1) by (auto simp: e ver)
        show "st_version st' tv' = v'" if "(tv', v') \<in> checked th'" "tv' \<in> pending th'" for tv' v'
          using d(7) [of tv' v'] that ni by (auto simp: e ver)
        show "st_value st' tv' = y" if "th_pc th' = Marked tv' x' ws'' wv'" "(tv', v') \<in> set (tx_reads (th_tx th'))" "(tv', v', y) \<in> set (th_seen th')" for tv' x' ws'' wv' v' y
        proof -
          have "tv' = tv" "(tv, v') \<in> checked th" "(tv, v', y) \<in> knows th" using that e(7) by (auto simp: th knows_def)
          then show ?thesis using d(5) d(7) i(1) by (simp add: ver)
        qed
      qed (simp add: th)
    qed
  next
    case (Marked tv x ws wv)
    have st: "st' = store_value tv x st" and th: "th' = goto_pc (Stored tv ws wv) th" using s Marked by auto
    have i: "marked th = Some tv" "new_stamp th = Some wv" using Marked by (simp_all add: marked_def new_stamp_def)
    have o: "odd (st_version st tv)" using d(4) [OF i(2,1)] by simp
    have ver: "st_version st' = st_version st" "st_value st' = (st_value st)(tv := x)" "st_lock st' = st_lock st" "st_clock st' = st_clock st"
      by (simp_all add: st store_value_def)
    have e: "holds th' = holds th" "new_stamp th' = new_stamp th" "pending th' = pending th" "marked th' = marked th" "checked th' = checked th" "knows th' = knows th"
      using Marked by (simp_all add: th pc_defs)
    have pc: "th_pc th' = Stored tv ws wv" by (simp add: th)
    show ?thesis
    proof (rule thread_okI)
      show "even v' \<and> v' \<le> st_version st' tv' \<and> (st_version st' tv' = v' \<longrightarrow> st_value st' tv' = y)" if "(tv', v', y) \<in> knows th'" for tv' v' y
        using d(5) [of tv' v' y] that o by (auto simp: e ver)
      show "st_version st' tv' = v'" if "(tv', v') \<in> checked th'" "tv' \<in> pending th'" for tv' v'
        using d(7) [of tv' v'] that by (simp add: e ver)
    qed (use d(1-4) pc in \<open>simp_all add: e ver\<close>)
  next
    case (Stored tv ws wv)
    have st: "st' = store_stamp tv wv st" and th: "th' = goto_pc (Publish ws wv) th" using s Stored by auto
    have i: "marked th = Some tv" "new_stamp th = Some wv" using Stored by (simp_all add: marked_def new_stamp_def)
    have o: "st_version st tv < wv" using d(4) [OF i(2,1)] by simp
    have ver: "st_version st' = (st_version st)(tv := wv)" "st_value st' = st_value st" "st_lock st' = st_lock st" "st_clock st' = st_clock st"
      by (simp_all add: st store_stamp_def)
    have e: "holds th' = holds th" "new_stamp th' = new_stamp th" "pending th' = pending th" "marked th' = None" "checked th' = checked th" "knows th' = knows th"
      using Stored by (simp_all add: th pc_defs)
    have ni: "tv \<notin> pending th" using w Stored by (simp add: thread_wf_def pending_def)
    have pc: "th_pc th' = Publish ws wv" by (simp add: th)
    show ?thesis
    proof (rule thread_okI)
      show "even v' \<and> v' \<le> st_version st' tv' \<and> (st_version st' tv' = v' \<longrightarrow> st_value st' tv' = y)" if "(tv', v', y) \<in> knows th'" for tv' v' y
        using d(5) [of tv' v' y] that o by (auto simp: e ver)
      show "even (st_version st' tv') \<and> st_version st' tv' < wv'" if "new_stamp th' = Some wv'" "tv' \<in> pending th'" for wv' tv'
        using d(3) [of wv' tv'] that ni by (auto simp: e ver)
      show "st_version st' tv' = v'" if "(tv', v') \<in> checked th'" "tv' \<in> pending th'" for tv' v'
        using d(7) [of tv' v'] that ni by (auto simp: e ver)
    qed (use d(1-4) pc in \<open>simp_all add: e ver\<close>)
  next
    case (Bumping bs)
    have "st_lock st' = st_lock st" "knows th' = knows th" "st_version st' = st_version st" "st_value st' = st_value st" "holds th' = holds th"
      using s Bumping by (cases bs; auto simp: knows_def holds_def bump_seq_def)+
    then show ?thesis using d(1,5) s Bumping
      by (intro thread_okI) (cases bs; auto simp: new_stamp_def pending_def marked_def checked_def)+
  next
    case (Unlocking bs)
    have dis: "distinct bs" using w Unlocking by (simp add: thread_wf_def)
    have "knows th' = knows th" "st_version st' = st_version st" "st_value st' = st_value st"
      using s Unlocking by (cases bs; auto simp: knows_def unlock_bucket_def)+
    moreover have "st_lock st' b = Some t" if "b \<in> holds th'" for b
      using s Unlocking d(1) [of b] that dis by (cases bs) (auto simp: holds_def unlock_bucket_def)
    ultimately show ?thesis using d(5) s Unlocking
      by (intro thread_okI) (cases bs; auto simp: new_stamp_def pending_def marked_def checked_def)+
  qed
qed

lemma stamps_same:
  assumes "stamps_ok st ths" and "st_version st' = st_version st" and "st_clock st \<le> st_clock st'" "even (st_clock st')" and "marked th' = marked (ths t)"
  shows "stamps_ok st' (ths(t := th'))"
  unfolding stamps_ok_def
proof (intro conjI allI)
  show "even (st_clock st')" by (rule assms(4))
  fix tv
  show "if even (st_version st' tv) then st_version st' tv \<le> st_clock st' else \<exists>u. marked ((ths(t := th')) u) = Some tv"
  proof (cases "even (st_version st tv)")
    case True
    then have "st_version st tv \<le> st_clock st" using assms(1) by (simp add: stamps_ok_def)
    then show ?thesis using True assms(2,3) by simp
  next
    case False
    then have "\<exists>u. marked (ths u) = Some tv" using assms(1) by (simp add: stamps_ok_def)
    then obtain u where "marked (ths u) = Some tv" ..
    then have "marked ((ths(t := th')) u) = Some tv" using assms(5) by (cases "u = t") auto
    then have "\<exists>u. marked ((ths(t := th')) u) = Some tv" ..
    then show ?thesis using False by (simp only: assms(2) if_False)
  qed
qed

lemma stamps_step:
  assumes g: "world_ok (st, ths)" and s: "thread_step t a (th_pc (ths t)) st (ths t) = Some (st', th')"
  shows "stamps_ok st' (ths(t := th'))"
proof -
  define th where "th = ths t"
  have k: "thread_ok t st th" and o: "stamps_ok st ths" using g by (simp_all add: world_ok_def th_def)
  have s: "thread_step t a (th_pc th) st th = Some (st', th')" using s by (simp add: th_def)
  have ev: "even (st_clock st)" using o by (simp add: stamps_ok_def)
  note same = stamps_same [OF o, of st' th' t, folded th_def]
  note d = thread_okD [OF k]
  show ?thesis
  proof (cases "th_pc th")
    case Body
    have "marked th' = None" using s Body by (cases a) (auto simp: marked_def abort_read_def split: if_splits)
    then show ?thesis using s Body ev by (intro same) (auto simp: marked_def)
  next
    case (Locking bs)
    have "marked th' = None" using s Locking by (cases bs) (auto simp: marked_def split: if_splits)
    then show ?thesis using s Locking ev by (intro same) (cases bs; auto simp: marked_def lock_bucket_def split: if_splits)+
  next
    case (Validate rs wv)
    have "marked th' = None" "st' = st" using s Validate by (cases rs; auto simp: marked_def split: if_splits)+
    then show ?thesis using Validate ev by (intro same) (auto simp: marked_def)
  next
    case (Publish ws wv)
    have n: "marked th = None" using Publish by (simp add: marked_def)
    show ?thesis
    proof (cases ws)
      case Nil
      then have "st' = st" "marked th' = None" using s Publish by (auto simp: marked_def)
      then show ?thesis using n ev by (intro same) auto
    next
      case (Cons p ws')
      obtain tv x where p: "p = (tv, x)" by (cases p)
      have st: "st' = mark_locked tv st" and m: "marked th' = Some tv" using s Publish Cons p by (auto simp: marked_def)
      have i: "tv \<in> pending th" "new_stamp th = Some wv" using Publish Cons p by (simp_all add: pending_def new_stamp_def)
      have v: "even (st_version st tv)" using d(3) [OF i(2,1)] by simp
      show ?thesis
        unfolding stamps_ok_def
      proof (intro conjI allI)
        show "even (st_clock st')" using ev by (simp add: st mark_locked_def)
        fix tv'
        show "if even (st_version st' tv') then st_version st' tv' \<le> st_clock st' else \<exists>u. marked ((ths(t := th')) u) = Some tv'"
        proof (cases "tv' = tv")
          case True
          then show ?thesis using v m by (auto simp: st mark_locked_def or_1_even simp del: One_nat_def)
        next
          case False
          have "\<exists>u. u \<noteq> t \<and> marked (ths u) = Some tv'" if "odd (st_version st tv')"
            using o that n by (metis option.distinct(1) stamps_ok_def th_def)
          then show ?thesis using False o by (auto simp: st mark_locked_def stamps_ok_def split: if_splits)
        qed
      qed
    qed
  next
    case (Marked tv x ws wv)
    then have "marked th' = marked th" "st' = store_value tv x st" using s by (auto simp: marked_def)
    then show ?thesis using ev by (intro same) (auto simp: store_value_def)
  next
    case (Stored tv ws wv)
    have st: "st' = store_stamp tv wv st" and m: "marked th' = None" using s Stored by (auto simp: marked_def)
    have i: "marked th = Some tv" "new_stamp th = Some wv" using Stored by (simp_all add: marked_def new_stamp_def)
    have wv: "even wv" "wv \<le> st_clock st" using d(2) [OF i(2)] by simp_all
    show ?thesis
      unfolding stamps_ok_def
    proof (intro conjI allI)
      show "even (st_clock st')" using ev by (simp add: st store_stamp_def)
      fix tv'
      show "if even (st_version st' tv') then st_version st' tv' \<le> st_clock st' else \<exists>u. marked ((ths(t := th')) u) = Some tv'"
      proof (cases "tv' = tv")
        case True
        then show ?thesis using wv by (simp add: st store_stamp_def)
      next
        case False
        have "\<exists>u. u \<noteq> t \<and> marked (ths u) = Some tv'" if "odd (st_version st tv')"
          using o that i(1) False by (metis option.inject stamps_ok_def th_def)
        then show ?thesis using False o by (auto simp: st store_stamp_def stamps_ok_def split: if_splits)
      qed
    qed
  next
    case (Bumping bs)
    have "marked th' = None" "marked th = None" "st_version st' = st_version st" "st_clock st' = st_clock st"
      using s Bumping by (cases bs; auto simp: marked_def bump_seq_def)+
    then show ?thesis using ev by (intro same) auto
  next
    case (Unlocking bs)
    have "marked th' = None" "marked th = None" "st_version st' = st_version st" "st_clock st' = st_clock st"
      using s Unlocking by (cases bs; auto simp: marked_def unlock_bucket_def)+
    then show ?thesis using ev by (intro same) auto
  qed (use s ev in \<open>intro same; auto simp: marked_def abort_read_def split: if_splits\<close>)+
qed

lemma world_ok_step:
  assumes g: "world_ok w" and s: "world_step t a w = Some w'"
  shows "world_ok w'"
proof -
  obtain st ths where w: "w = (st, ths)" by (cases w)
  obtain st' th' where st: "thread_step t a (th_pc (ths t)) st (ths t) = Some (st', th')" and w': "w' = (st', ths(t := th'))"
    using s by (auto simp: world_step_def w)
  have g: "world_ok (st, ths)" using g w by simp
  then have k: "thread_wf (ths u)" "thread_ok u st (ths u)" for u by (simp_all add: world_ok_def)
  have "thread_ok u st' ((ths(t := th')) u)" for u
    using own_step [OF g st] thread_ok_others [OF k step_others [OF k st]] by (cases "u = t") auto
  moreover have "thread_wf ((ths(t := th')) u)" for u using wf_step [OF k(1) st] k(1) by (cases "u = t") auto
  ultimately show ?thesis using stamps_step [OF g st] by (simp add: world_ok_def w')
qed

lemma world_ok_init: "world_ok (stm_do_init mem, \<lambda>_. idle_thread)"
  by (auto simp: world_ok_def stamps_ok_def stm_do_init_def thread_wf_def reads_seen_def idle_thread_def tur_stm_new_transaction_def pc_defs intro!: thread_okI)

lemma world_ok_reach: "stm_reach mem w \<Longrightarrow> world_ok w"
  by (induction rule: stm_reach.induct) (use world_ok_init world_ok_step in blast)+

end
