(* ===== verification/StmSerial.thy ===== *)
theory StmSerial
  imports StmSound
begin

text \<open>
  Commits that no other thread falls into: the effect of a whole commit, runs in which commits are
  whole while the loads of reads interleave, and a transaction that runs alone.
\<close>

section \<open>The effect of a commit\<close>

definition written_over :: "('a \<times> 'b) list \<Rightarrow> ('a \<Rightarrow> 'b) \<Rightarrow> 'a \<Rightarrow> 'b" where
  "written_over ws m tv = (case map_of ws tv of None \<Rightarrow> m tv | Some x \<Rightarrow> x)"

lemma publish_state:
  "distinct (map fst ws) \<Longrightarrow>
    st_value (fold (publish wv) ws st) = written_over ws (st_value st) \<and>
    st_version (fold (publish wv) ws st) = (\<lambda>tv. if tv \<in> fst ` set ws then wv else st_version st tv) \<and>
    st_clock (fold (publish wv) ws st) = st_clock st \<and> st_lock (fold (publish wv) ws st) = st_lock st"
proof (induction ws arbitrary: st)
  case (Cons w ws)
  have o: "map_of ws (fst w) = None" using Cons.prems by (simp add: map_of_eq_None_iff)
  have p: "st_value (publish wv w st) = (st_value st)(fst w := snd w)" "st_version (publish wv w st) = (st_version st)(fst w := wv)"
    "st_clock (publish wv w st) = st_clock st" "st_lock (publish wv w st) = st_lock st"
    by (simp_all add: publish_def store_stamp_def store_value_def mark_locked_def)
  show ?case
    using Cons.IH [of "publish wv w st"] Cons.prems o unfolding p
    by (cases w) (auto simp: written_over_def fun_eq_iff split: option.splits)
qed (simp add: written_over_def [abs_def])

lemma lock_state: "st_value (fold (lock_bucket t) bs st) = st_value st" "st_version (fold (lock_bucket t) bs st) = st_version st"
  "st_clock (fold (lock_bucket t) bs st) = st_clock st"
  "st_lock (fold (lock_bucket t) bs st) = (\<lambda>b. if b \<in> set bs then Some t else st_lock st b)"
  by (induction bs arbitrary: st) (auto simp: lock_bucket_def fun_eq_iff)

lemma unlock_state: "st_value (fold unlock_bucket bs st) = st_value st" "st_version (fold unlock_bucket bs st) = st_version st"
  "st_clock (fold unlock_bucket bs st) = st_clock st"
  "st_lock (fold unlock_bucket bs st) = (\<lambda>b. if b \<in> set bs then None else st_lock st b)"
  by (induction bs arbitrary: st) (auto simp: unlock_bucket_def fun_eq_iff)

lemma bump_state: "st_value (fold bump_seq bs st) = st_value st" "st_version (fold bump_seq bs st) = st_version st"
  "st_clock (fold bump_seq bs st) = st_clock st" "st_lock (fold bump_seq bs st) = st_lock st"
  by (induction bs arbitrary: st) (auto simp: bump_seq_def)

lemmas phase_state = lock_state unlock_state bump_state

lemma validate_cong: "st_version st' = st_version st \<Longrightarrow> tur_stm_validate st' tx = tur_stm_validate st tx"
  by (simp add: tur_stm_validate_def)

lemma commit_state:
  assumes "distinct (map fst (tx_writes tx))" and "\<And>b. st_lock st b = None" and "tur_stm_commit t st tx = (ok, st', tx', fired)"
  shows "ok = tur_stm_validate st tx" "st_clock st' = st_clock st + 2" "st_lock st' b = None"
    "st_value st' = (if ok then written_over (tx_writes tx) (st_value st) else st_value st)"
    "st_version st' = (if ok then (\<lambda>tv. if tv \<in> fst ` set (tx_writes tx) then st_clock st + 2 else st_version st tv) else st_version st)"
    "tx' = (if ok then tx\<lparr>tx_committed := True\<rparr> else tx)"
    "fired = (if ok then tur_stm_fire_commit_defers tx else [])"
proof -
  let ?bs = "stm_collect_write_buckets tx"
  let ?st = "(fold (lock_bucket t) ?bs st)\<lparr>st_clock := st_clock st + 2\<rparr>"
  have v: "tur_stm_validate ?st tx = tur_stm_validate st tx" by (rule validate_cong) (simp add: phase_state)
  note p = publish_state [OF assms(1), of "st_clock st + 2" ?st]
  have f: "tur_stm_fire_commit_defers (tx\<lparr>tx_committed := True\<rparr>) = tur_stm_fire_commit_defers tx"
    by (simp add: tur_stm_fire_commit_defers_def)
  have run: "tur_stm_commit t st tx =
      (if tur_stm_validate st tx then
         (True, fold unlock_bucket (rev ?bs) (fold bump_seq ?bs (fold (publish (st_clock st + 2)) (tx_writes tx) ?st)),
          tx\<lparr>tx_committed := True\<rparr>, tur_stm_fire_commit_defers tx)
       else (False, fold unlock_bucket (rev ?bs) ?st, tx, []))"
    unfolding tur_stm_commit_def Let_def lock_state(3) v f by (simp only: if_not_P if_P split: if_split) blast
  have l: "st_lock ?st b = (if b \<in> set ?bs then Some t else None)" for b using assms(2) by (simp add: phase_state)
  have "ok = tur_stm_validate st tx \<and> st_clock st' = st_clock st + 2 \<and> st_lock st' b = None \<and>
    st_value st' = (if ok then written_over (tx_writes tx) (st_value st) else st_value st) \<and>
    st_version st' = (if ok then (\<lambda>tv. if tv \<in> fst ` set (tx_writes tx) then st_clock st + 2 else st_version st tv) else st_version st) \<and>
    tx' = (if ok then tx\<lparr>tx_committed := True\<rparr> else tx) \<and> fired = (if ok then tur_stm_fire_commit_defers tx else [])"
  proof (cases "tur_stm_validate st tx")
    case True
    then have e: "ok" "st' = fold unlock_bucket (rev ?bs) (fold bump_seq ?bs (fold (publish (st_clock st + 2)) (tx_writes tx) ?st))"
        "tx' = tx\<lparr>tx_committed := True\<rparr>" "fired = tur_stm_fire_commit_defers tx" using assms(3) unfolding run by simp_all
    have "st_value ?st = st_value st" "st_version ?st = st_version st" by (simp_all add: phase_state)
    then show ?thesis using True e(1,3,4) p l unfolding e(2) phase_state by (simp only: if_True set_rev) simp
  next
    case False
    then have e: "\<not> ok" "st' = fold unlock_bucket (rev ?bs) ?st" "tx' = tx" "fired = []" using assms(3) unfolding run by auto
    have "st_value ?st = st_value st" "st_version ?st = st_version st" by (simp_all add: phase_state)
    then show ?thesis using False e(1,3,4) l unfolding e(2) phase_state by (simp only: if_False set_rev) simp
  qed
  then show "ok = tur_stm_validate st tx" "st_clock st' = st_clock st + 2" "st_lock st' b = None"
    "st_value st' = (if ok then written_over (tx_writes tx) (st_value st) else st_value st)"
    "st_version st' = (if ok then (\<lambda>tv. if tv \<in> fst ` set (tx_writes tx) then st_clock st + 2 else st_version st tv) else st_version st)"
    "tx' = (if ok then tx\<lparr>tx_committed := True\<rparr> else tx)"
    "fired = (if ok then tur_stm_fire_commit_defers tx else [])" by blast+
qed

section \<open>Whole commits\<close>

text \<open>A step of a run whose commits are whole: the end of a body that may commit is its commit.\<close>

definition whole_step :: "nat \<Rightarrow> act \<Rightarrow> world \<Rightarrow> world option" where
  "whole_step t a w =
     (case w of (st, ths) \<Rightarrow>
        if th_pc (ths t) = Body \<and> a = Finish \<and> \<not> tx_retry (th_tx (ths t)) \<and> \<not> tx_aborted (th_tx (ths t)) then
          (case tur_stm_commit t st (th_tx (ths t)) of
             (ok, st', tx', fired) \<Rightarrow> Some (st', ths(t := (ths t)\<lparr>th_pc := Idle, th_tx := tx'\<rparr>)))
        else world_step t a w)"

text \<open>With each thread the memory at the start of its transaction.\<close>

inductive whole_reach :: "(nat \<Rightarrow> int) \<Rightarrow> world \<Rightarrow> (nat \<Rightarrow> nat \<Rightarrow> int) \<Rightarrow> bool" for mem where
  whole_start: "whole_reach mem (stm_do_init mem, \<lambda>_. idle_thread) (\<lambda>_. mem)"
| whole_step: "whole_reach mem (st, ths) snap \<Longrightarrow> whole_step t a (st, ths) = Some w' \<Longrightarrow>
    whole_reach mem w' (if th_pc (ths t) = Idle then snap(t := st_value st) else snap)"

definition at_rest :: "stm \<Rightarrow> bool" where
  "at_rest st \<longleftrightarrow> even (st_clock st) \<and> (\<forall>tv. even (st_version st tv) \<and> st_version st tv \<le> st_clock st) \<and> (\<forall>b. st_lock st b = None)"

lemma at_rest_commit:
  assumes "at_rest st" and "distinct (map fst (tx_writes tx))" and "tur_stm_commit t st tx = (ok, st', tx', fired)"
  shows "at_rest st'"
proof -
  have l: "\<And>b. st_lock st b = None" and e: "even (st_clock st)" "\<And>tv. even (st_version st tv)" "\<And>tv. st_version st tv \<le> st_clock st"
    using assms(1) by (simp_all add: at_rest_def)
  note c = commit_state [OF assms(2) l assms(3)]
  have "st_version st tv \<le> st_clock st + 2" for tv using e(3) [of tv] by linarith
  then show ?thesis unfolding at_rest_def c(2,5) using e c(3) by (auto split: if_splits)
qed

text \<open>A thread whose reads agree with its snapshot, as far as stamps not newer than it go.\<close>

definition snap_ok :: "stm \<Rightarrow> (nat \<Rightarrow> int) \<Rightarrow> thread \<Rightarrow> bool" where
  "snap_ok st m th \<longleftrightarrow> distinct (map fst (tx_writes (th_tx th))) \<and> reads_seen th \<and>
     (\<forall>tv v x. (tv, v, x) \<in> set (th_seen th) \<longrightarrow>
        (length (tx_reads (th_tx th)) < STM_MAX_READ_SET \<longrightarrow> tv \<in> fst ` set (tx_reads (th_tx th)))) \<and>
     (th_pc th \<noteq> Idle \<longrightarrow> tx_stamp (th_tx th) \<le> st_clock st \<and>
        (\<forall>tv. st_version st tv \<le> tx_stamp (th_tx th) \<longrightarrow> st_value st tv = m tv) \<and>
        (\<forall>tv v x. (tv, v, x) \<in> set (th_seen th) \<longrightarrow> v \<le> tx_stamp (th_tx th) \<and> x = m tv)) \<and>
     (case th_pc th of
        Idle \<Rightarrow> True
      | Body \<Rightarrow> True
      | Read1 tv v \<Rightarrow> v \<le> tx_stamp (th_tx th)
      | Read2 tv v x \<Rightarrow> v \<le> tx_stamp (th_tx th) \<and> (st_version st tv = v \<longrightarrow> x = m tv)
      | _ \<Rightarrow> False)"

lemma snap_okD:
  assumes "snap_ok st m th"
  shows "distinct (map fst (tx_writes (th_tx th)))" "reads_seen th"
    "(tv, v, x) \<in> set (th_seen th) \<Longrightarrow> length (tx_reads (th_tx th)) < STM_MAX_READ_SET \<Longrightarrow> tv \<in> fst ` set (tx_reads (th_tx th))"
    "th_pc th \<noteq> Idle \<Longrightarrow> tx_stamp (th_tx th) \<le> st_clock st"
    "th_pc th \<noteq> Idle \<Longrightarrow> st_version st tv \<le> tx_stamp (th_tx th) \<Longrightarrow> st_value st tv = m tv"
    "th_pc th \<noteq> Idle \<Longrightarrow> (tv, v, x) \<in> set (th_seen th) \<Longrightarrow> v \<le> tx_stamp (th_tx th) \<and> x = m tv"
  using assms unfolding snap_ok_def by blast+

lemma record_tx [simp]: "tx_writes (record_read tv v tx) = tx_writes tx" "tx_stamp (record_read tv v tx) = tx_stamp tx"
  by (simp_all add: record_read_def)

lemma record_in:
  assumes "p \<in> set (tx_reads (record_read tv v tx))"
  shows "p \<in> set (tx_reads tx) \<or> p = (tv, v)"
  using assms by (auto simp: record_read_def split: if_splits)

lemma record_length: "length (tx_reads tx) \<le> length (tx_reads (record_read tv v tx))"
  by (simp add: record_read_def)

lemma record_room: "length (tx_reads (record_read tv v tx)) < STM_MAX_READ_SET \<Longrightarrow> fst ` set (tx_reads (record_read tv v tx)) = insert tv (fst ` set (tx_reads tx))"
  by (auto simp: record_read_def split: if_splits)

lemma snap_record:
  assumes k: "snap_ok st m th" and p: "th_pc th = Read2 tv v x" and v: "st_version st tv = v"
  shows "snap_ok st m (th\<lparr>th_pc := Body, th_tx := record_read tv v (th_tx th), th_seen := th_seen th @ [(tv, v, x)]\<rparr>)"
proof -
  note d = snap_okD [OF k]
  have n: "v \<le> tx_stamp (th_tx th)" "x = m tv" using k p v by (simp_all add: snap_ok_def)
  have i: "th_pc th \<noteq> Idle" using p by simp
  let ?th = "th\<lparr>th_pc := Body, th_tx := record_read tv v (th_tx th), th_seen := th_seen th @ [(tv, v, x)]\<rparr>"
  have rs: "reads_seen ?th"
    using d(2) record_in [of _ tv v "th_tx th"] unfolding reads_seen_def by fastforce
  have room: "tv' \<in> fst ` set (tx_reads (th_tx ?th))"
    if "(tv', v', y) \<in> set (th_seen ?th)" "length (tx_reads (th_tx ?th)) < STM_MAX_READ_SET" for tv' v' y
  proof -
    have r: "length (tx_reads (record_read tv v (th_tx th))) < STM_MAX_READ_SET" using that(2) by simp
    then have "length (tx_reads (th_tx th)) < STM_MAX_READ_SET" using record_length [of "th_tx th" tv v] by linarith
    then have "tv' = tv \<or> tv' \<in> fst ` set (tx_reads (th_tx th))" using that(1) d(3) by auto
    then show ?thesis using record_room [OF r] by simp
  qed
  have seen: "v' \<le> tx_stamp (th_tx ?th) \<and> y = m tv'" if "(tv', v', y) \<in> set (th_seen ?th)" for tv' v' y
    using that d(6) [OF i] n by auto
  show ?thesis using d(1,4,5) i rs room seen unfolding snap_ok_def by simp
qed

text \<open>Another thread's commit gives only newer stamps.\<close>

lemma snap_commit:
  assumes k: "snap_ok st m th" and r: "at_rest st" and d: "distinct (map fst (tx_writes tx))" and c: "tur_stm_commit t st tx = (ok, st', tx', fired)"
  shows "snap_ok st' m th"
proof -
  have l: "\<And>b. st_lock st b = None" using r by (simp add: at_rest_def)
  note c = commit_state [OF d l c]
  have old: "st_version st' tv = st_version st tv \<and> st_value st' tv = st_value st tv" if "st_version st' tv < st_clock st + 2" for tv
  proof (cases "ok \<and> tv \<in> fst ` set (tx_writes tx)")
    case True
    then show ?thesis using that unfolding c(5) by simp
  next
    case False
    then have "ok \<Longrightarrow> map_of (tx_writes tx) tv = None" by (simp add: map_of_eq_None_iff)
    then show ?thesis using False unfolding c(4,5) by (auto simp: written_over_def)
  qed
  show ?thesis
  proof (cases "th_pc th = Idle")
    case False
    have s: "tx_stamp (th_tx th) \<le> st_clock st" "\<And>tv. st_version st tv \<le> tx_stamp (th_tx th) \<Longrightarrow> st_value st tv = m tv"
      using k False by (simp_all add: snap_ok_def)
    have o: "st_version st' tv = st_version st tv \<and> st_value st' tv = st_value st tv" if "st_version st' tv \<le> tx_stamp (th_tx th)" for tv
      using old [of tv] that s(1) by linarith
    have n: "\<forall>tv. st_version st' tv \<le> tx_stamp (th_tx th) \<longrightarrow> st_value st' tv = m tv" using o s(2) by metis
    have q: "tx_stamp (th_tx th) \<le> st_clock st'" using s(1) unfolding c(2) by linarith
    have "\<forall>tv v x. th_pc th = Read2 tv v x \<longrightarrow> st_version st' tv = v \<longrightarrow> x = m tv"
    proof (intro allI impI)
      fix tv v x
      assume p: "th_pc th = Read2 tv v x" "st_version st' tv = v"
      then have "v \<le> tx_stamp (th_tx th)" "st_version st tv = v \<longrightarrow> x = m tv" using k by (simp_all add: snap_ok_def)
      then show "x = m tv" using o [of tv] p(2) by simp
    qed
    then show ?thesis using k False n q unfolding snap_ok_def by (auto split: pc.splits)
  qed (use k in \<open>simp add: snap_ok_def\<close>)
qed

lemma snap_keep:
  assumes k: "snap_ok st m th" and i: "th_pc th \<noteq> Idle"
    and e: "th_seen th' = th_seen th" "tx_reads (th_tx th') = tx_reads (th_tx th)" "tx_stamp (th_tx th') = tx_stamp (th_tx th)"
    and d: "distinct (map fst (tx_writes (th_tx th')))"
    and p: "case th_pc th' of Idle \<Rightarrow> True | Body \<Rightarrow> True | Read1 tv v \<Rightarrow> v \<le> tx_stamp (th_tx th)
      | Read2 tv v x \<Rightarrow> v \<le> tx_stamp (th_tx th) \<and> (st_version st tv = v \<longrightarrow> x = m tv) | _ \<Rightarrow> False"
  shows "snap_ok st m th'"
proof -
  have "reads_seen th'" using snap_okD(2) [OF k] e by (simp add: reads_seen_def)
  then show ?thesis using snap_okD(3-6) [OF k] i d p unfolding snap_ok_def e by blast
qed

lemma snap_step:
  assumes k: "snap_ok st m th" and s: "thread_step t a (th_pc th) st th = Some (st', th')"
    and a: "\<not> (th_pc th = Body \<and> a = Finish \<and> \<not> tx_retry (th_tx th) \<and> \<not> tx_aborted (th_tx th))"
  shows "st' = st \<and> snap_ok st (if th_pc th = Idle then st_value st else m) th'"
proof (cases "th_pc th")
  case Idle
  then show ?thesis using s by (auto simp: snap_ok_def tx_begin_def reads_seen_def)
next
  case Body
  note keep = snap_keep [OF k, of th']
  have d: "distinct (map fst (tx_writes (th_tx th)))" by (rule snap_okD(1) [OF k])
  have "st' = st" using s Body by auto
  moreover have "th_seen th' = th_seen th" "tx_reads (th_tx th') = tx_reads (th_tx th)" "tx_stamp (th_tx th') = tx_stamp (th_tx th)"
    "distinct (map fst (tx_writes (th_tx th')))"
    using s Body d by (cases a; auto simp: abort_read_def tur_tvar_write_def tur_stm_retry_def tur_stm_defer_on_commit_def update_distinct split: if_splits)+
  moreover have "th_pc th' = Body \<or> th_pc th' = Idle \<or> (\<exists>tv v. th_pc th' = Read1 tv v \<and> v \<le> tx_stamp (th_tx th))"
    using s Body a by (cases a) (auto simp: abort_read_def refused_iff split: if_splits)
  ultimately show ?thesis using keep Body by auto
next
  case (Read1 tv v)
  have v: "v \<le> tx_stamp (th_tx th)" using k Read1 by (simp add: snap_ok_def)
  have e: "st' = st" "th' = goto_pc (Read2 tv v (st_value st tv)) th" using s Read1 by auto
  have "st_version st tv = v \<longrightarrow> st_value st tv = m tv" using v snap_okD(5) [OF k, of tv] Read1 by auto
  then show ?thesis using snap_keep [OF k, of th'] snap_okD(1) [OF k] Read1 v e by simp
next
  case (Read2 tv v x)
  show ?thesis
  proof (cases "st_version st tv = v")
    case True
    then have e: "st' = st" "th' = th\<lparr>th_pc := Body, th_tx := record_read tv v (th_tx th), th_seen := th_seen th @ [(tv, v, x)]\<rparr>"
      using s Read2 by auto
    show ?thesis using snap_record [OF k Read2 True] Read2 unfolding e by simp
  next
    case False
    then have e: "st' = st" "th' = abort_read th" using s Read2 by auto
    then show ?thesis using snap_keep [OF k, of th'] snap_okD(1) [OF k] Read2 by (simp add: abort_read_def)
  qed
qed (use k in \<open>simp_all add: snap_ok_def\<close>)

lemma whole_ok:
  "whole_reach mem w snap \<Longrightarrow> at_rest (fst w) \<and> (\<forall>t. snap_ok (fst w) (snap t) (snd w t))"
proof (induction rule: whole_reach.induct)
  case whole_start
  then show ?case
    by (auto simp: at_rest_def snap_ok_def stm_do_init_def idle_thread_def tur_stm_new_transaction_def reads_seen_def)
next
  case (whole_step st ths snap t a w')
  have r: "at_rest st" and k: "snap_ok st (snap u) (ths u)" for u using whole_step.IH by simp_all
  show ?case
  proof (cases "th_pc (ths t) = Body \<and> a = Finish \<and> \<not> tx_retry (th_tx (ths t)) \<and> \<not> tx_aborted (th_tx (ths t))")
    case True
    obtain ok st' tx' fired where c: "tur_stm_commit t st (th_tx (ths t)) = (ok, st', tx', fired)" by (metis surj_pair)
    have w': "w' = (st', ths(t := (ths t)\<lparr>th_pc := Idle, th_tx := tx'\<rparr>))" using whole_step.hyps(2) True c by (simp add: whole_step_def)
    have d: "distinct (map fst (tx_writes (th_tx (ths t))))" using k [of t] by (simp add: snap_ok_def)
    have l: "\<And>b. st_lock st b = None" using r by (simp add: at_rest_def)
    have "snap_ok st' (snap t) ((ths t)\<lparr>th_pc := Idle, th_tx := tx'\<rparr>)"
      using k [of t] commit_state(6) [OF d l c] by (auto simp: snap_ok_def reads_seen_def)
    then show ?thesis using True at_rest_commit [OF r d c] snap_commit [OF k r d c] by (simp add: w')
  next
    case False
    then have "whole_step t a (st, ths) = world_step t a (st, ths)" unfolding whole_step_def prod.case by (simp only: if_False)
    then have "world_step t a (st, ths) = Some w'" using whole_step.hyps(2) by simp
    then obtain st' th' where s: "thread_step t a (th_pc (ths t)) st (ths t) = Some (st', th')" and w': "w' = (st', ths(t := th'))"
      by (auto simp: world_step_def)
    show ?thesis using snap_step [OF k s False] k r by (cases "th_pc (ths t) = Idle") (simp_all add: w')
  qed
qed

lemma validate_in: "tur_stm_validate st tx \<Longrightarrow> (tv, v) \<in> set (tx_reads tx) \<Longrightarrow> st_version st tv = v"
  by (auto simp: tur_stm_validate_def list_all_iff moved_iff)

text \<open>A transaction that commits in such a run has read what the memory holds at that instant.\<close>

lemma whole_commit:
  assumes w: "whole_reach mem (st, ths) snap" and p: "th_pc (ths t) = Body" and c: "tur_stm_commit t st (th_tx (ths t)) = (True, st', tx', fired)"
    and n: "length (tx_reads (th_tx (ths t))) < STM_MAX_READ_SET" and i: "(tv, v, x) \<in> set (th_seen (ths t))"
  shows "st_value st tv = x"
proof -
  have r: "at_rest st" and k: "snap_ok st (snap t) (ths t)" using whole_ok [OF w] by simp_all
  have d: "distinct (map fst (tx_writes (th_tx (ths t))))" and l: "\<And>b. st_lock st b = None" using k r by (simp_all add: snap_ok_def at_rest_def)
  obtain v' where v': "(tv, v') \<in> set (tx_reads (th_tx (ths t)))" using snap_okD(3) [OF k i n] by auto
  have e: "st_version st tv = v'" using validate_in [OF _ v'] commit_state(1) [OF d l c] by simp
  obtain y where y: "(tv, v', y) \<in> set (th_seen (ths t))" using snap_okD(2) [OF k] v' unfolding reads_seen_def by blast
  have pc: "th_pc (ths t) \<noteq> Idle" using p by simp
  have "st_version st tv \<le> tx_stamp (th_tx (ths t))" unfolding e using snap_okD(6) [OF k pc y] ..
  then have "st_value st tv = snap t tv" by (rule snap_okD(5) [OF k pc])
  then show ?thesis using snap_okD(6) [OF k pc i] by simp
qed

section \<open>A whole commit is its steps\<close>

inductive goes :: "nat \<Rightarrow> stm \<Rightarrow> thread \<Rightarrow> stm \<Rightarrow> thread \<Rightarrow> bool" for t where
  goes_refl: "goes t st th st th"
| goes_step: "thread_step t Go (th_pc th) st th = Some (st1, th1) \<Longrightarrow> goes t st1 th1 st2 th2 \<Longrightarrow> goes t st th st2 th2"

lemma goes_trans: "goes t st th st1 th1 \<Longrightarrow> goes t st1 th1 st2 th2 \<Longrightarrow> goes t st th st2 th2"
  by (induction rule: goes.induct) (auto intro: goes_step)

lemma goto_goto [simp]: "goto_pc p (goto_pc q th) = goto_pc p th"
  by (simp add: goto_pc_def)

lemma goes_lock:
  "distinct bs \<Longrightarrow> (\<And>b. b \<in> set bs \<Longrightarrow> st_lock st b = None) \<Longrightarrow>
    goes t st (goto_pc (Locking bs) th) (fold (lock_bucket t) bs st) (goto_pc (Locking []) th)"
proof (induction bs arbitrary: st)
  case (Cons b bs)
  have "goes t (lock_bucket t b st) (goto_pc (Locking bs) th) (fold (lock_bucket t) bs (lock_bucket t b st)) (goto_pc (Locking []) th)"
    using Cons.prems by (intro Cons.IH) (auto simp: lock_bucket_def)
  moreover have "thread_step t Go (th_pc (goto_pc (Locking (b # bs)) th)) st (goto_pc (Locking (b # bs)) th) = Some (lock_bucket t b st, goto_pc (Locking bs) th)"
    using Cons.prems(2) [of b] by simp
  ultimately show ?case using goes_step by simp
qed (simp add: goes_refl)

lemma goes_validate:
  "goes t st (goto_pc (Validate rs wv) th) st
    (if list_all (\<lambda>(tv, v). \<not> version_moved (st_version st tv) v) rs then goto_pc (Validate [] wv) th
     else goto_pc (Unlocking (rev (stm_collect_write_buckets (th_tx th)))) th)"
proof (induction rs)
  case (Cons r rs)
  obtain tv v where r: "r = (tv, v)" by (cases r)
  show ?case
  proof (cases "version_moved (st_version st tv) v")
    case True
    then show ?thesis by (auto simp: r intro!: goes_step [OF _ goes_refl])
  next
    case False
    have "goes t st (goto_pc (Validate (r # rs) wv) th) st (goto_pc (Validate rs wv) th)"
      using False by (auto simp: r intro!: goes_step [OF _ goes_refl])
    from goes_trans [OF this Cons.IH] show ?thesis using False by (simp add: r)
  qed
qed (simp add: goes_refl)

lemma goes_publish: "goes t st (goto_pc (Publish ws wv) th) (fold (publish wv) ws st) (goto_pc (Publish [] wv) th)"
proof (induction ws arbitrary: st)
  case (Cons w ws)
  obtain tv x where w: "w = (tv, x)" by (cases w)
  have "goes t st (goto_pc (Publish (w # ws) wv) th) (publish wv w st) (goto_pc (Publish ws wv) th)"
    by (rule goes_step [of _ _ _ "mark_locked tv st" "goto_pc (Marked tv x ws wv) th"], simp add: w,
        rule goes_step [of _ _ _ "store_value tv x (mark_locked tv st)" "goto_pc (Stored tv ws wv) th"], simp,
        rule goes_step [OF _ goes_refl], simp add: w publish_def)
  from goes_trans [OF this Cons.IH] show ?case by simp
qed (simp add: goes_refl)

lemma goes_bump: "goes t st (goto_pc (Bumping bs) th) (fold bump_seq bs st) (goto_pc (Bumping []) th)"
proof (induction bs arbitrary: st)
  case (Cons b bs)
  show ?case by (rule goes_step [of _ _ _ "bump_seq b st" "goto_pc (Bumping bs) th"]) (use Cons.IH in simp_all)
qed (simp add: goes_refl)

lemma goes_unlock: "goes t st (goto_pc (Unlocking bs) th) (fold unlock_bucket bs st) (goto_pc Idle th)"
proof (induction bs arbitrary: st)
  case Nil
  show ?case by (rule goes_step [OF _ goes_refl]) simp
next
  case (Cons b bs)
  show ?case by (rule goes_step [of _ _ _ "unlock_bucket b st" "goto_pc (Unlocking bs) th"]) (use Cons.IH in simp_all)
qed

text \<open>The steps of a thread that goes on undisturbed have the result of \<open>tur_stm_commit\<close>.\<close>

lemma commit_goes:
  assumes l: "\<And>b. st_lock st b = None" and c: "tur_stm_commit t st (th_tx th) = (ok, st', tx', fired)"
  shows "goes t st (goto_pc (Locking (stm_collect_write_buckets (th_tx th))) th) st' (th\<lparr>th_pc := Idle, th_tx := tx'\<rparr>)"
proof -
  let ?bs = "stm_collect_write_buckets (th_tx th)"
  let ?st1 = "fold (lock_bucket t) ?bs st"
  let ?wv = "st_clock ?st1 + 2"
  let ?st2 = "?st1\<lparr>st_clock := ?wv\<rparr>"
  let ?th1 = "th\<lparr>th_tx := (th_tx th)\<lparr>tx_committed := True\<rparr>\<rparr>"
  have a1: "goes t st (goto_pc (Locking ?bs) th) ?st1 (goto_pc (Locking []) th)"
    by (rule goes_lock [OF buckets_distinct l])
  have a2: "goes t ?st1 (goto_pc (Locking []) th) ?st2 (goto_pc (Validate (tx_reads (th_tx th)) ?wv) th)"
    by (rule goes_step [OF _ goes_refl]) (simp only: write_pc thread_step.simps goto_goto)
  have v: "goes t st (goto_pc (Locking ?bs) th) ?st2 (if tur_stm_validate ?st2 (th_tx th) then goto_pc (Validate [] ?wv) th else goto_pc (Unlocking (rev ?bs)) th)"
    unfolding tur_stm_validate_def by (rule goes_trans [OF goes_trans [OF a1 a2] goes_validate])
  have b: "stm_collect_write_buckets (th_tx ?th1) = ?bs" by (simp add: stm_collect_write_buckets_def)
  show ?thesis
  proof (cases "tur_stm_validate ?st2 (th_tx th)")
    case True
    let ?st3 = "fold (publish ?wv) (tx_writes (th_tx th)) ?st2"
    let ?st4 = "fold bump_seq ?bs ?st3"
    have b1: "goes t ?st2 (goto_pc (Validate [] ?wv) th) ?st2 (goto_pc (Publish (tx_writes (th_tx th)) ?wv) th)"
      by (rule goes_step [OF _ goes_refl]) (simp only: write_pc thread_step.simps goto_goto)
    have b2: "goes t ?st3 (goto_pc (Publish [] ?wv) th) ?st3 (goto_pc (Bumping ?bs) ?th1)"
      by (rule goes_step [OF _ goes_refl]) (simp add: goto_pc_def)
    have b3: "goes t ?st4 (goto_pc (Bumping []) ?th1) ?st4 (goto_pc (Unlocking (rev ?bs)) ?th1)"
      by (rule goes_step [OF _ goes_refl]) (simp only: write_pc thread_step.simps goto_goto b)
    note g = goes_trans [OF b1 goes_trans [OF goes_publish goes_trans [OF b2 goes_trans [OF goes_bump goes_trans [OF b3 goes_unlock]]]]]
    have "st' = fold unlock_bucket (rev ?bs) (fold bump_seq ?bs ?st3)" "tx' = (th_tx th)\<lparr>tx_committed := True\<rparr>"
      using c unfolding tur_stm_commit_def Let_def by (simp_all only: True simp_thms if_False prod.inject)
    then have e: "st' = fold unlock_bucket (rev ?bs) (fold bump_seq ?bs ?st3)" "th\<lparr>th_pc := Idle, th_tx := tx'\<rparr> = goto_pc Idle ?th1"
      by (simp_all only:) (simp add: goto_pc_def)
    show ?thesis unfolding e by (rule goes_trans [OF v [unfolded if_P [OF True]] g])
  next
    case False
    have "st' = fold unlock_bucket (rev ?bs) ?st2" "tx' = th_tx th"
      using c unfolding tur_stm_commit_def Let_def by (simp_all only: False simp_thms if_True prod.inject, auto)
    then have e: "st' = fold unlock_bucket (rev ?bs) ?st2" "th\<lparr>th_pc := Idle, th_tx := tx'\<rparr> = goto_pc Idle th"
      by (simp_all only:) (simp add: goto_pc_def)
    show ?thesis unfolding e by (rule goes_trans [OF v [unfolded if_not_P [OF False]] goes_unlock])
  qed
qed

lemma goes_reach: "goes t st th st' th' \<Longrightarrow> stm_reach mem (st, ths(t := th)) \<Longrightarrow> stm_reach mem (st', ths(t := th'))"
proof (induction rule: goes.induct)
  case (goes_step th st st1 th1 st2 th2)
  have "world_step t Go (st, ths(t := th)) = Some (st1, ths(t := th1))" using goes_step.hyps(1) by (simp add: world_step_def)
  then show ?case by (rule goes_step.IH [OF stm_step [OF goes_step.prems]])
qed

text \<open>Runs with whole commits are runs.\<close>

lemma whole_is_reach: "whole_reach mem w snap \<Longrightarrow> stm_reach mem w"
proof (induction rule: whole_reach.induct)
  case whole_start
  show ?case by (rule stm_start)
next
  case (whole_step st ths snap t a w')
  show ?case
  proof (cases "th_pc (ths t) = Body \<and> a = Finish \<and> \<not> tx_retry (th_tx (ths t)) \<and> \<not> tx_aborted (th_tx (ths t))")
    case True
    obtain ok st' tx' fired where c: "tur_stm_commit t st (th_tx (ths t)) = (ok, st', tx', fired)" by (metis surj_pair)
    have w': "w' = (st', ths(t := (ths t)\<lparr>th_pc := Idle, th_tx := tx'\<rparr>))" using whole_step.hyps(2) True c by (simp add: whole_step_def)
    have l: "st_lock st b = None" for b using whole_ok [OF whole_step.hyps(1)] by (simp add: at_rest_def)
    have "world_step t Finish (st, ths) = Some (st, ths(t := goto_pc (Locking (stm_collect_write_buckets (th_tx (ths t)))) (ths t)))"
      using True by (simp add: world_step_def)
    from goes_reach [OF commit_goes [OF l c] stm_step [OF whole_step.IH this]] show ?thesis by (simp add: w')
  next
    case False
    then have "whole_step t a (st, ths) = world_step t a (st, ths)" unfolding whole_step_def prod.case by (simp only: if_False)
    then show ?thesis using whole_step.hyps(2) stm_step [OF whole_step.IH] by simp
  qed
qed

section \<open>A transaction that runs alone\<close>

text \<open>The body run directly on the memory, the variables it writes, and whether it asks for a retry.\<close>

primrec exec_body :: "txbody \<Rightarrow> (nat \<Rightarrow> int) \<Rightarrow> nat \<Rightarrow> int" where
  "exec_body BDone m = m"
| "exec_body (BRead tv k) m = exec_body (k (m tv)) m"
| "exec_body (BWrite tv x p) m = exec_body p (m(tv := x))"
| "exec_body (BRetry p) m = exec_body p m"
| "exec_body (BDefer f p) m = exec_body p m"

primrec body_writes :: "txbody \<Rightarrow> (nat \<Rightarrow> int) \<Rightarrow> nat set" where
  "body_writes BDone m = {}"
| "body_writes (BRead tv k) m = body_writes (k (m tv)) m"
| "body_writes (BWrite tv x p) m = insert tv (body_writes p (m(tv := x)))"
| "body_writes (BRetry p) m = body_writes p m"
| "body_writes (BDefer f p) m = body_writes p m"

primrec body_retries :: "txbody \<Rightarrow> (nat \<Rightarrow> int) \<Rightarrow> bool" where
  "body_retries BDone m \<longleftrightarrow> False"
| "body_retries (BRead tv k) m \<longleftrightarrow> body_retries (k (m tv)) m"
| "body_retries (BWrite tv x p) m \<longleftrightarrow> body_retries p (m(tv := x))"
| "body_retries (BRetry p) m \<longleftrightarrow> True"
| "body_retries (BDefer f p) m \<longleftrightarrow> body_retries p m"

lemma finite_writes [simp]: "finite (body_writes p m)"
  by (induction p arbitrary: m) auto

definition tx_fresh :: "stm \<Rightarrow> stmtx \<Rightarrow> bool" where
  "tx_fresh st tx \<longleftrightarrow> tx_stamp tx = st_clock st \<and> \<not> tx_aborted tx \<and> \<not> tx_retry tx \<and> distinct (map fst (tx_writes tx)) \<and>
     (\<forall>(tv, v)\<in>set (tx_reads tx). st_version st tv = v)"

lemma fresh_read:
  assumes "at_rest st" and "tx_fresh st tx"
  shows "fst (tur_tvar_read st tx tv) = written_over (tx_writes tx) (st_value st) tv \<and> tx_fresh st (snd (tur_tvar_read st tx tv)) \<and>
    tx_writes (snd (tur_tvar_read st tx tv)) = tx_writes tx"
proof (cases "map_of (tx_writes tx) tv")
  case None
  have "\<not> read_refused tx (st_version st tv)" using assms by (auto simp: refused_iff at_rest_def tx_fresh_def not_less)
  then have "tur_tvar_read st tx tv = (st_value st tv, record_read tv (st_version st tv) tx)"
    using None by (simp add: tur_tvar_read_def Let_def)
  then show ?thesis using None assms(2) by (auto simp: written_over_def tx_fresh_def record_read_def)
qed (use assms in \<open>simp add: tur_tvar_read_def written_over_def\<close>)

lemma written_update: "written_over (AList.update tv x ws) m = (written_over ws m)(tv := x)"
  by (auto simp: written_over_def update_conv fun_eq_iff)

lemma update_dom: "fst ` set (AList.update tv x ws) = insert tv (fst ` set ws)"
  by (induction ws) auto

lemma fresh_write:
  assumes "tx_fresh st tx" and "card (insert tv (fst ` set (tx_writes tx))) \<le> STM_MAX_WRITE_SET"
  shows "tx_fresh st (tur_tvar_write tx tv x) \<and> tx_writes (tur_tvar_write tx tv x) = AList.update tv x (tx_writes tx)"
proof -
  have "card (fst ` set (tx_writes tx)) = length (tx_writes tx)"
    using assms(1) distinct_card [of "map fst (tx_writes tx)"] by (simp add: tx_fresh_def)
  then have "tv \<in> fst ` set (tx_writes tx) \<or> length (tx_writes tx) < STM_MAX_WRITE_SET" using assms(2) by (cases "tv \<in> fst ` set (tx_writes tx)") (simp_all add: card_insert_if)
  then have "tur_tvar_write tx tv x = tx\<lparr>tx_writes := AList.update tv x (tx_writes tx)\<rparr>" by (simp add: tur_tvar_write_def)
  then show ?thesis using assms(1) by (simp add: tx_fresh_def update_distinct)
qed

lemma alone_body:
  assumes r: "at_rest st"
  shows "tx_fresh st tx \<Longrightarrow> written_over (tx_writes tx) (st_value st) = m \<Longrightarrow> \<not> body_retries p m \<Longrightarrow>
    card (fst ` set (tx_writes tx) \<union> body_writes p m) \<le> STM_MAX_WRITE_SET \<Longrightarrow>
    tx_fresh st (run_body p st tx) \<and> written_over (tx_writes (run_body p st tx)) (st_value st) = exec_body p m"
proof (induction p arbitrary: tx m)
  case (BRead tv k)
  have f: "fst (tur_tvar_read st tx tv) = m tv" "tx_fresh st (snd (tur_tvar_read st tx tv))" "tx_writes (snd (tur_tvar_read st tx tv)) = tx_writes tx"
    using fresh_read [OF r BRead.prems(1), of tv] BRead.prems(2) by auto
  show ?case using BRead.IH [OF rangeI, of "snd (tur_tvar_read st tx tv)" m "m tv"] BRead.prems(2-4) f by (simp add: Let_def)
next
  case (BWrite tv x p)
  have s: "insert tv (fst ` set (tx_writes tx)) \<subseteq> fst ` set (tx_writes tx) \<union> body_writes (BWrite tv x p) m" by auto
  have "card (insert tv (fst ` set (tx_writes tx))) \<le> STM_MAX_WRITE_SET"
    using card_mono [OF _ s] BWrite.prems(4) by simp
  then have f: "tx_fresh st (tur_tvar_write tx tv x)" "tx_writes (tur_tvar_write tx tv x) = AList.update tv x (tx_writes tx)"
    using fresh_write [OF BWrite.prems(1)] by blast+
  have "fst ` set (AList.update tv x (tx_writes tx)) \<union> body_writes p (m(tv := x)) = fst ` set (tx_writes tx) \<union> body_writes (BWrite tv x p) m"
    by (simp add: update_dom)
  then have c: "card (fst ` set (tx_writes (tur_tvar_write tx tv x)) \<union> body_writes p (m(tv := x))) \<le> STM_MAX_WRITE_SET"
    unfolding f(2) using BWrite.prems(4) by simp
  have i: "written_over (tx_writes (tur_tvar_write tx tv x)) (st_value st) = m(tv := x)"
    unfolding f(2) written_update BWrite.prems(2) ..
  have n: "\<not> body_retries p (m(tv := x))" using BWrite.prems(3) by simp
  show ?case unfolding run_body.simps exec_body.simps by (rule BWrite.IH [OF f(1) i n c])
next
  case (BDefer f p)
  have "tx_fresh st (snd (tur_stm_defer_on_commit tx f))" "tx_writes (snd (tur_stm_defer_on_commit tx f)) = tx_writes tx"
    using BDefer.prems(1) by (auto simp: tx_fresh_def tur_stm_defer_on_commit_def)
  then show ?case using BDefer.IH [of "snd (tur_stm_defer_on_commit tx f)" m] BDefer.prems(2-4) by simp
qed simp_all

lemma fresh_begin: "tx_fresh st (tx_begin (st_clock st) tx)"
  by (simp add: tx_fresh_def tx_begin_def)

lemma fresh_validates: "at_rest st \<Longrightarrow> tx_fresh st tx \<Longrightarrow> tur_stm_validate st tx"
  by (auto simp: tur_stm_validate_def list_all_iff moved_iff at_rest_def tx_fresh_def)

text \<open>With no other thread the first attempt commits, and does what the body does.\<close>

lemma alone_commits:
  assumes r: "at_rest st" and n: "\<not> body_retries p (st_value st)" and c: "card (body_writes p (st_value st)) \<le> STM_MAX_WRITE_SET"
  shows "\<exists>x st' fired. tur_atomically (Suc k) t p [] st = Some (x, st', fired) \<and> at_rest st' \<and> st_value st' = exec_body p (st_value st)"
proof -
  let ?tx0 = "tx_begin (st_clock st) tur_stm_new_transaction"
  define tx where "tx = run_body p st ?tx0"
  have w: "tx_writes ?tx0 = []" by (simp add: tx_begin_def)
  have f: "tx_fresh st tx" and v: "written_over (tx_writes tx) (st_value st) = exec_body p (st_value st)"
    using alone_body [OF r fresh_begin, of tur_stm_new_transaction "st_value st" p] n c by (simp_all add: w tx_def written_over_def [abs_def])
  obtain ok st' tx' fired where co: "tur_stm_commit t st tx = (ok, st', tx', fired)" by (metis surj_pair)
  have d: "distinct (map fst (tx_writes tx))" using f by (simp add: tx_fresh_def)
  have l: "\<And>b. st_lock st b = None" using r by (simp add: at_rest_def)
  note s = commit_state [OF d l co]
  have ok: "ok" using s(1) fresh_validates [OF r f] by simp
  have "tur_atomically (Suc k) t p [] st = Some (last_written tx', st', fired)"
    using f co ok by (simp add: tur_atomically_def tx_fresh_def take_env_def tx_def [symmetric])
  then show ?thesis using at_rest_commit [OF r d co] s(4) ok v by auto
qed

end
