(* ===== verification/StmUse.thy ===== *)
theory StmUse
  imports StmSerial
begin

text \<open>
  Transactions in use: increments, none of which is lost whatever the interleaving, and what goes
  wrong: runs in which a commit is seen half done, writes beyond the capacity of a transaction,
  deferred actions of attempts that failed, a wake-up that is missed.
\<close>

section \<open>Increments\<close>

text \<open>The value written is one more than the value the transaction has read.\<close>

definition bumps :: "nat \<Rightarrow> int \<Rightarrow> thread \<Rightarrow> bool" where
  "bumps tv x th \<longleftrightarrow> (\<exists>(a, v)\<in>set (tx_reads (th_tx th)). a = tv \<and> (tv, v, x - 1) \<in> set (th_seen th))"

definition only_bumps :: "nat \<Rightarrow> thread \<Rightarrow> bool" where
  "only_bumps tv th \<longleftrightarrow> (\<forall>x. (tv, x) \<in> set (tx_writes (th_tx th)) \<longrightarrow> bumps tv x th)"

text \<open>Runs in which every write to the variable is an increment, with the number of increments stored so far.\<close>

inductive inc_reach :: "(nat \<Rightarrow> int) \<Rightarrow> nat \<Rightarrow> nat \<Rightarrow> world \<Rightarrow> bool" for mem tv where
  inc_start: "inc_reach mem tv 0 (stm_do_init mem, \<lambda>_. idle_thread)"
| inc_step: "inc_reach mem tv n (st, ths) \<Longrightarrow> (\<And>x. a = DoWrite tv x \<Longrightarrow> bumps tv x (ths t)) \<Longrightarrow> world_step t a (st, ths) = Some w' \<Longrightarrow>
    inc_reach mem tv (n + (case th_pc (ths t) of Marked tv' x ws wv \<Rightarrow> if tv' = tv then 1 else 0 | _ \<Rightarrow> 0)) w'"

definition stores :: "nat \<Rightarrow> thread \<Rightarrow> nat" where
  "stores tv th = (case th_pc th of Marked tv' x ws wv \<Rightarrow> if tv' = tv then 1 else 0 | _ \<Rightarrow> 0)"

text \<open>Such a run as a function of a schedule.\<close>

definition inc_allowed :: "nat \<Rightarrow> act \<Rightarrow> thread \<Rightarrow> bool" where
  "inc_allowed tv a th \<longleftrightarrow> (case a of DoWrite tv' x \<Rightarrow> tv' = tv \<longrightarrow> bumps tv x th | _ \<Rightarrow> True)"

fun run_inc :: "nat \<Rightarrow> (nat \<times> act) list \<Rightarrow> nat \<Rightarrow> world \<Rightarrow> (nat \<times> world) option" where
  "run_inc tv [] n w = Some (n, w)"
| "run_inc tv ((t, a) # sched) n w =
     (if inc_allowed tv a (snd w t) then Option.bind (world_step t a w) (run_inc tv sched (n + stores tv (snd w t))) else None)"

lemma run_inc_reach: "inc_reach mem tv n w \<Longrightarrow> run_inc tv sched n w = Some (k, w') \<Longrightarrow> inc_reach mem tv k w'"
proof (induction sched arbitrary: n w)
  case (Cons p sched)
  obtain t a where p: "p = (t, a)" by (cases p)
  obtain st ths where w: "w = (st, ths)" by (cases w)
  obtain w1 where w1: "inc_allowed tv a (ths t)" "world_step t a (st, ths) = Some w1" "run_inc tv sched (n + stores tv (ths t)) w1 = Some (k, w')"
    using Cons.prems(2) by (auto simp: p w bind_eq_Some_conv split: if_splits)
  have b: "bumps tv x (ths t)" if "a = DoWrite tv x" for x using w1(1) that by (simp add: inc_allowed_def)
  show ?case by (rule Cons.IH [OF inc_step [OF Cons.prems(1) [unfolded w] b w1(2), folded stores_def] w1(3)])
qed simp

lemma update_set: "(tv, y) \<in> set (AList.update tv' x ws) \<Longrightarrow> (tv = tv' \<and> y = x) \<or> (tv, y) \<in> set ws"
  by (induction ws) (auto split: if_splits)

lemma bumps_mono:
  "bumps tv x th \<Longrightarrow> set (tx_reads (th_tx th)) \<subseteq> set (tx_reads (th_tx th')) \<Longrightarrow> set (th_seen th) \<subseteq> set (th_seen th') \<Longrightarrow> bumps tv x th'"
  by (auto simp: bumps_def)

lemma only_bumps_keep:
  "only_bumps tv th \<Longrightarrow> set (tx_writes (th_tx th')) \<subseteq> set (tx_writes (th_tx th)) \<Longrightarrow> set (tx_reads (th_tx th)) \<subseteq> set (tx_reads (th_tx th')) \<Longrightarrow>
    set (th_seen th) \<subseteq> set (th_seen th') \<Longrightarrow> only_bumps tv th'"
  using bumps_mono by (force simp: only_bumps_def)

lemma record_reads [simp]: "p \<in> set (tx_reads tx) \<Longrightarrow> p \<in> set (tx_reads (record_read tv v tx))" "tx_writes (record_read tv v tx) = tx_writes tx"
  by (auto simp: record_read_def)

lemma only_bumps_step:
  assumes o: "only_bumps tv th" and a: "\<And>x. a = DoWrite tv x \<Longrightarrow> bumps tv x th" and s: "thread_step t a (th_pc th) st th = Some (st', th')"
  shows "only_bumps tv th'"
proof (cases "th_pc th")
  case Idle
  then show ?thesis using s by (auto simp: only_bumps_def tx_begin_def)
next
  case Body
  show ?thesis
  proof (cases a)
    case (DoWrite tv' x)
    have r: "tx_reads (th_tx th') = tx_reads (th_tx th)" "th_seen th' = th_seen th" using s Body DoWrite by (auto simp: tur_tvar_write_def)
    then have b: "bumps tv y th' = bumps tv y th" for y by (simp add: bumps_def)
    have "bumps tv y th" if "(tv, y) \<in> set (tx_writes (th_tx th'))" for y
      using that s Body DoWrite o a by (auto simp: tur_tvar_write_def only_bumps_def split: if_splits dest!: update_set)
    then show ?thesis by (simp add: only_bumps_def b)
  qed (use s Body o in \<open>auto simp: abort_read_def tur_stm_retry_def tur_stm_defer_on_commit_def split: if_splits elim!: only_bumps_keep\<close>)
next
  case (Locking bs)
  then show ?thesis using o s by (cases bs) (auto split: if_splits elim!: only_bumps_keep)
next
  case (Validate rs wv)
  then show ?thesis using o s by (cases rs) (auto split: if_splits elim!: only_bumps_keep)
next
  case (Publish ws wv)
  then show ?thesis using o s by (cases ws) (auto elim!: only_bumps_keep)
next
  case (Bumping bs)
  then show ?thesis using o s by (cases bs) (auto elim!: only_bumps_keep)
next
  case (Unlocking bs)
  then show ?thesis using o s by (cases bs) (auto elim!: only_bumps_keep)
qed (use o s in \<open>auto simp: abort_read_def split: if_splits elim!: only_bumps_keep\<close>)

lemma inc_reach_stm: "inc_reach mem tv n w \<Longrightarrow> stm_reach mem w"
  by (induction rule: inc_reach.induct) (auto intro: stm_start stm_step)

text \<open>A step that is not the store of the variable leaves its value.\<close>

lemma value_step:
  "thread_step t a (th_pc th) st th = Some (st', th') \<Longrightarrow> \<not> (\<exists>x ws wv. th_pc th = Marked tv x ws wv) \<Longrightarrow> st_value st' tv = st_value st tv"
  by (cases "(t, a, th_pc th, st, th)" rule: thread_step.cases)
    (auto simp: lock_bucket_def unlock_bucket_def bump_seq_def mark_locked_def store_value_def store_stamp_def split: if_splits)

lemma inc_counts: "inc_reach mem tv n w \<Longrightarrow> st_value (fst w) tv = mem tv + int n \<and> (\<forall>t. only_bumps tv (snd w t))"
proof (induction rule: inc_reach.induct)
  case inc_start
  then show ?case by (simp add: stm_do_init_def only_bumps_def idle_thread_def tur_stm_new_transaction_def)
next
  case (inc_step n st ths a t w')
  obtain st' th' where s: "thread_step t a (th_pc (ths t)) st (ths t) = Some (st', th')" and w': "w' = (st', ths(t := th'))"
    using inc_step.hyps(3) by (auto simp: world_step_def)
  have o: "only_bumps tv (ths t)" using inc_step.IH by simp
  have "only_bumps tv th'" by (rule only_bumps_step [OF o inc_step.hyps(2) s])
  moreover have "st_value st' tv = mem tv + int (n + (case th_pc (ths t) of Marked tv' x ws wv \<Rightarrow> if tv' = tv then 1 else 0 | _ \<Rightarrow> 0))"
  proof (cases "\<exists>x ws wv. th_pc (ths t) = Marked tv x ws wv")
    case True
    then obtain x ws wv where m: "th_pc (ths t) = Marked tv x ws wv" by blast
    have g: "thread_wf (ths t)" "thread_ok t st (ths t)"
      using world_ok_reach [OF inc_reach_stm [OF inc_step.hyps(1)]] by (simp_all add: world_ok_def)
    have "(tv, x) \<in> set (tx_writes (th_tx (ths t)))" using g(1) m by (simp add: thread_wf_def)
    then obtain v where v: "(tv, v) \<in> set (tx_reads (th_tx (ths t)))" "(tv, v, x - 1) \<in> set (th_seen (ths t))"
      using o by (auto simp: only_bumps_def bumps_def)
    have "st_value st tv = x - 1" by (rule thread_okD(8) [OF g(2) m v])
    then show ?thesis using inc_step.IH s m by (auto simp: store_value_def)
  next
    case False
    then have "(case th_pc (ths t) of Marked tv' x ws wv \<Rightarrow> if tv' = tv then 1 else 0 | _ \<Rightarrow> 0) = (0 :: nat)" by (auto split: pc.splits)
    then show ?thesis using value_step [OF s, of tv] False inc_step.IH by simp
  qed
  ultimately show ?case using inc_step.IH by (simp add: w')
qed

section \<open>What goes wrong\<close>

text \<open>
  Thread 1 sets two variables of different buckets to 1, thread 2 starts between the two stores and
  reads both. Thread 2 commits, having seen the new value of one and the old value of the other:
  the stamp of the second is not locked before its own turn, and a reader takes no bucket lock.
\<close>

definition torn_schedule :: "(nat \<times> act) list" where
  "torn_schedule =
     [(1, Go), (1, DoWrite 16 1), (1, DoWrite 32 1), (1, Finish), (1, Go), (1, Go), (1, Go), (1, Go), (1, Go), (1, Go), (1, Go),
      (2, Go), (2, DoRead 16), (2, Go), (2, Go), (2, DoRead 32), (2, Go), (2, Go), (2, Finish),
      (2, Go), (2, Go), (2, Go), (2, Go), (2, Go)]"

definition zero_world :: world where
  "zero_world = (stm_do_init (\<lambda>_. 0), \<lambda>_. idle_thread)"

lemma torn_run:
  "map_option (\<lambda>(st, ths). (map (\<lambda>(tv, v, x). (tv, x)) (th_seen (ths 2)), tx_committed (th_tx (ths 2)), st_value st 16, st_value st 32, tx_committed (th_tx (ths 1))))
     (run_world torn_schedule zero_world) = Some ([(16, 1), (32, 0)], True, 1, 0, False)"
  by code_simp

text \<open>
  Two transactions of which each reads what the other writes, both at once: both commit, each
  having read 0, which no order of the two explains.
\<close>

definition skew_schedule :: "(nat \<times> act) list" where
  "skew_schedule =
     [(1, Go), (1, DoRead 32), (1, Go), (1, Go), (1, DoWrite 16 1), (1, Finish),
      (2, Go), (2, DoRead 16), (2, Go), (2, Go), (2, DoWrite 32 1), (2, Finish),
      (1, Go), (2, Go), (1, Go), (2, Go), (1, Go), (2, Go), (1, Go), (2, Go),
      (1, Go), (1, Go), (1, Go), (2, Go), (2, Go), (2, Go), (1, Go), (2, Go)]"

lemma skew_run:
  "map_option (\<lambda>(st, ths). (map (\<lambda>(tv, v, x). (tv, x)) (th_seen (ths 1)), map (\<lambda>(tv, v, x). (tv, x)) (th_seen (ths 2)),
       tx_committed (th_tx (ths 1)), tx_committed (th_tx (ths 2)), st_value st 16, st_value st 32))
     (run_world skew_schedule zero_world) = Some ([(32, 0)], [(16, 0)], True, True, 1, 1)"
  by code_simp

text \<open>A write to one variable more than the write set holds is dropped, and a read to one more than the read set holds is not validated.\<close>

lemma write_dropped: "length (tx_writes tx) = STM_MAX_WRITE_SET \<Longrightarrow> tv \<notin> fst ` set (tx_writes tx) \<Longrightarrow> tur_tvar_write tx tv x = tx"
  by (simp add: tur_tvar_write_def)

lemma read_unrecorded: "length (tx_reads tx) = STM_MAX_READ_SET \<Longrightarrow> record_read tv v tx = tx"
  by (simp add: record_read_def)

text \<open>The actions an attempt has deferred stay when the next one starts.\<close>

lemma defers_kept: "tx_defers (tx_begin clock tx) = tx_defers tx"
  by (simp add: tx_begin_def)

text \<open>
  A commit to a variable that was read, after the body has ended and before the sequence numbers of
  its bucket are taken, does not wake the thread that parks on it.
\<close>

lemma park_add_current: "\<forall>p\<in>set n. st_seq st (fst p) = snd p \<Longrightarrow> \<forall>p\<in>set (fold (park_add st) rs n). st_seq st (fst p) = snd p"
proof (induction rs arbitrary: n)
  case (Cons r rs)
  have "\<forall>p\<in>set (park_add st r n). st_seq st (fst p) = snd p" using Cons.prems by (auto simp: park_add_def Let_def)
  from Cons.IH [OF this] show ?case by simp
qed simp

lemma park_add_keeps: "n \<noteq> [] \<Longrightarrow> fold (park_add st) rs n \<noteq> []"
  by (induction rs arbitrary: n) (auto simp: park_add_def Let_def)

lemma missed_wakeup:
  assumes "tx_reads tx \<noteq> []"
  shows "\<not> park_over st (park_sample st tx)"
proof -
  obtain r rs where r: "tx_reads tx = r # rs" using assms by (cases "tx_reads tx") auto
  have "park_sample st tx \<noteq> []" unfolding park_sample_def r fold_Cons comp_apply by (rule park_add_keeps) (simp add: park_add_def Let_def)
  moreover have "\<forall>p\<in>set (park_sample st tx). st_seq st (fst p) = snd p" unfolding park_sample_def by (rule park_add_current) simp
  ultimately show ?thesis by (auto simp: park_over_def)
qed

end
