(* ===== verification/StmProps.thy ===== *)
theory StmProps
  imports StmUse
begin

text \<open>The properties of the transactional memory.\<close>

text \<open>
  C29: no increment is lost. Under every interleaving of the loads, stores and lock operations of
  any number of transactions, if every write to a variable is one more than a value of it that the
  transaction has read (and recorded), then the variable has been raised by exactly the number of
  stores commits have made to it; other variables may be read and written in any way.
\<close>

theorem increments_counted:
  assumes "inc_reach mem tv n (st, ths)"
  shows "st_value st tv = mem tv + int n"
  using inc_counts [OF assms] by simp

text \<open>Two threads read the variable at once; one increments it, the other is refused and tries again.\<close>

definition race_schedule :: "(nat \<times> act) list" where
  "race_schedule =
     [(1, Go), (1, DoRead 16), (1, Go), (1, Go), (1, DoWrite 16 6), (1, Finish),
      (2, Go), (2, DoRead 16), (2, Go), (2, Go), (2, DoWrite 16 6), (2, Finish)]
     @ replicate 12 (1, Go) @ replicate 5 (2, Go)
     @ [(2, Go), (2, DoRead 16), (2, Go), (2, Go), (2, DoWrite 16 7), (2, Finish)] @ replicate 12 (2, Go)"

definition five_world :: world where
  "five_world = (stm_do_init (\<lambda>_. 5), \<lambda>_. idle_thread)"

lemma race_run: "map_option fst (run_inc 16 race_schedule 0 five_world) = Some 2"
  by code_simp

theorem increments_counted_witness: "\<exists>st ths. inc_reach (\<lambda>_. 5) 16 2 (st, ths) \<and> st_value st 16 = 7"
proof -
  obtain w where w: "run_inc 16 race_schedule 0 five_world = Some (2, w)" using race_run by (cases "run_inc 16 race_schedule 0 five_world") auto
  obtain st ths where p: "w = (st, ths)" by (cases w)
  have r: "inc_reach (\<lambda>_. 5) 16 2 (st, ths)" using run_inc_reach [OF inc_start w [unfolded five_world_def]] by (simp add: p)
  then show ?thesis using increments_counted [OF r] by auto
qed

text \<open>
  C25: transactions are serializable when no other thread falls into a commit. In such a run, in
  which the loads of reads still interleave with everything, whatever a transaction has read in its
  current attempt is what the memory held when the attempt began (also in an attempt that will not
  commit); and if it commits with fewer than 256 reads in its read set, it is what the memory holds
  at the commit. The read set holds 256; reads after that are not checked, so of a full one nothing
  is claimed. The commit changes exactly the variables in the write set, each to its last value there.
  The write set holds 128 variables; a write to another one after that is dropped without a panic,
  and the commit does not make it. An attempt that is refused changes none.
\<close>

theorem whole_commits_serializable:
  assumes "whole_reach mem (st, ths) snap" and "th_pc (ths t) = Body" and "(tv, v, x) \<in> set (th_seen (ths t))"
    and "tur_stm_commit t st (th_tx (ths t)) = (ok, st', tx', fired)"
  shows "x = snap t tv \<and> (ok \<and> length (tx_reads (th_tx (ths t))) < STM_MAX_READ_SET \<longrightarrow> x = st_value st tv) \<and>
    st_value st' = (if ok then (\<lambda>a. case map_of (tx_writes (th_tx (ths t))) a of None \<Rightarrow> st_value st a | Some y \<Rightarrow> y) else st_value st)"
proof -
  have r: "at_rest st" and k: "snap_ok st (snap t) (ths t)" using whole_ok [OF assms(1)] by simp_all
  have pc: "th_pc (ths t) \<noteq> Idle" using assms(2) by simp
  have d: "distinct (map fst (tx_writes (th_tx (ths t))))" and l: "\<And>b. st_lock st b = None" using snap_okD(1) [OF k] r by (simp_all add: at_rest_def)
  have "x = snap t tv" using snap_okD(6) [OF k pc assms(3)] ..
  moreover have "x = st_value st tv" if "ok" "length (tx_reads (th_tx (ths t))) < STM_MAX_READ_SET"
    using whole_commit [OF assms(1,2) _ that(2) assms(3)] assms(4) that(1) by simp
  moreover have "st_value st' = (if ok then (\<lambda>a. case map_of (tx_writes (th_tx (ths t))) a of None \<Rightarrow> st_value st a | Some y \<Rightarrow> y) else st_value st)"
    using commit_state(4) [OF d l assms(4)] by (simp add: written_over_def [abs_def])
  ultimately show ?thesis by blast
qed

text \<open>
  C11: a transaction that runs alone commits at its first attempt, whatever its body does next
  after what it has read, as long as it asks for no retry and writes no more variables than the
  write set holds; and the memory is then what running the body directly on it gives.
\<close>

theorem alone_refines:
  assumes "at_rest st" and "\<not> body_retries p (st_value st)" and "card (body_writes p (st_value st)) \<le> STM_MAX_WRITE_SET"
  shows "\<exists>x st' fired. tur_atomically 1 t p [] st = Some (x, st', fired) \<and> at_rest st' \<and> st_value st' = exec_body p (st_value st)"
  using alone_commits [OF assms, of 0] by simp

text \<open>A transfer of what one variable holds, if it is positive, to another.\<close>

definition transfer :: txbody where
  "transfer = BRead 16 (\<lambda>a. if 0 < a then BRead 32 (\<lambda>b. BWrite 32 (a + b) (BWrite 16 0 BDone)) else BDone)"

theorem alone_refines_witness:
  "\<exists>x st' fired. tur_atomically 1 7 transfer [] (stm_do_init (\<lambda>tv. if tv = 16 then 3 else 4)) = Some (x, st', fired) \<and>
     st_value st' 16 = 0 \<and> st_value st' 32 = 7"
proof -
  let ?st = "stm_do_init (\<lambda>tv. if tv = 16 then 3 else 4)"
  have r: "at_rest ?st" by (simp add: at_rest_def stm_do_init_def)
  have "\<not> body_retries transfer (st_value ?st)" "card (body_writes transfer (st_value ?st)) \<le> STM_MAX_WRITE_SET"
    by (simp_all add: transfer_def stm_do_init_def STM_MAX_WRITE_SET_def)
  from alone_refines [OF r this, of 7] show ?thesis by (auto simp: transfer_def stm_do_init_def)
qed

definition read_once :: "world option" where
  "read_once = run_world [(1, Go), (1, DoRead 16), (1, Go), (1, Go), (1, DoWrite 16 6)] five_world"

lemma read_once_run:
  "map_option (\<lambda>(st, ths). (th_pc (ths 1), th_seen (ths 1), tx_writes (th_tx (ths 1)), fst (tur_stm_commit 1 st (th_tx (ths 1))))) read_once =
     Some (Body, [(16, 0, 5)], [(16, 6)], True)"
  by code_simp

lemma whole_from_run:
  "whole_reach mem w snap \<Longrightarrow> run_world sched w = Some w' \<Longrightarrow> list_all (\<lambda>p. snd p \<noteq> Finish) sched \<Longrightarrow> \<exists>snap'. whole_reach mem w' snap'"
proof (induction sched arbitrary: w snap)
  case (Cons p sched)
  obtain t a where p: "p = (t, a)" by (cases p)
  obtain st ths where w: "w = (st, ths)" by (cases w)
  obtain w1 where w1: "world_step t a (st, ths) = Some w1" "run_world sched w1 = Some w'"
    using Cons.prems(2) by (auto simp: p w bind_eq_Some_conv)
  have "whole_step t a (st, ths) = Some w1" using w1(1) Cons.prems(3) by (simp add: whole_step_def p)
  then obtain s1 where s1: "whole_reach mem w1 s1" using whole_reach.whole_step [OF Cons.prems(1) [unfolded w]] by blast
  show ?case by (rule Cons.IH [OF s1 w1(2)]) (use Cons.prems(3) in simp)
qed auto

theorem whole_commits_serializable_witness:
  "\<exists>st ths snap st' tx' fired. whole_reach (\<lambda>_. 5) (st, ths) snap \<and> tur_stm_commit 1 st (th_tx (ths 1)) = (True, st', tx', fired) \<and>
     snap 1 16 = 5 \<and> st_value st' 16 = 6"
proof -
  obtain st ths where w: "read_once = Some (st, ths)" using read_once_run by (cases read_once) auto
  have e: "th_pc (ths 1) = Body" "th_seen (ths 1) = [(16, 0, 5)]" "tx_writes (th_tx (ths 1)) = [(16, 6)]" "fst (tur_stm_commit 1 st (th_tx (ths 1)))"
    using read_once_run by (simp_all add: w)
  obtain snap where r: "whole_reach (\<lambda>_. 5) (st, ths) snap"
    using whole_from_run [OF whole_start w [unfolded read_once_def five_world_def]] by auto
  obtain st' tx' fired where c: "tur_stm_commit 1 st (th_tx (ths 1)) = (True, st', tx', fired)" using e(4) by (metis prod.collapse)
  have i: "(16, 0, 5) \<in> set (th_seen (ths 1))" unfolding e(2) by simp
  have "snap 1 16 = 5" "st_value st' 16 = 6" using whole_commits_serializable [OF r e(1) i c] unfolding e(3) by simp_all
  then show ?thesis using r c by blast
qed

end
