(* ===== verification/Crc.thy ===== *)
theory Crc
  imports Prelude
begin

text \<open>
  The checksum of serialized continuations (\<open>src/runtime/serial.c\<close>): the CRC-32 of ISO 3309 in its
  reflected form, driven by a table of 256 words. The table is compared with the shift register it
  abbreviates, which gives the algebra of the checksum: it can be computed piecewise, and a change
  confined to four neighbouring bytes always changes it.
\<close>

type_synonym u8 = "8 word"
type_synonym u16 = "16 word"
type_synonym bytes = "8 word list"

section \<open>The table and the checksum\<close>

text \<open>One turn of the inner loop of \<open>crc32_build_table\<close>.\<close>

definition crc_bit :: "u32 \<Rightarrow> u32" where
  "crc_bit crc = (if and crc 1 \<noteq> 0 then xor (drop_bit 1 crc) 0xEDB88320 else drop_bit 1 crc)"

definition crc_entry :: "u32 \<Rightarrow> u32" where
  "crc_entry i = (crc_bit ^^ 8) i"

text \<open>
  The program fills the table at the first use and sets \<open>s_crc32_init\<close>; it never changes afterwards.
\<close>

definition crc32_build_table :: "u32 list" where
  "crc32_build_table = map (\<lambda>i. crc_entry (of_nat i)) [0..<256]"

definition crc_byte :: "u32 \<Rightarrow> u8 \<Rightarrow> u32" where
  "crc_byte crc b =
     xor (drop_bit 8 crc) (crc32_build_table ! unat (and (xor crc (ucast b)) 0xFF))"

definition serial_crc32 :: "u32 \<Rightarrow> bytes \<Rightarrow> u32" where
  "serial_crc32 crc buf = not (fold (\<lambda>b c. crc_byte c b) buf (not crc))"


section \<open>The shift register\<close>

text \<open>
  The reference: every byte is added to the low end of the register, which then steps eight times.
\<close>

definition crc_shift :: "u32 \<Rightarrow> u8 \<Rightarrow> u32" where
  "crc_shift crc b = (crc_bit ^^ 8) (xor crc (ucast b))"

lemma and_1_odd: "and (c::u32) 1 \<noteq> 0 \<longleftrightarrow> bit c 0"
  by (simp add: and_one_eq bit_0 odd_iff_mod_2_eq_one)

lemma crc_bit_xor: "crc_bit (xor a b) = xor (crc_bit a) (crc_bit b)"
proof -
  have "bit (xor a b) 0 \<longleftrightarrow> bit a 0 \<noteq> bit b 0" by (simp add: bit_xor_iff)
  then show ?thesis
    unfolding crc_bit_def and_1_odd
    by (cases "bit a 0"; cases "bit b 0") (simp_all add: xor.assoc xor.left_commute xor.commute)
qed

lemma crc_bits_xor: "(crc_bit ^^ n) (xor a b) = xor ((crc_bit ^^ n) a) ((crc_bit ^^ n) b)"
  by (induction n) (simp_all add: crc_bit_xor)

lemma crc_bit_zero: "crc_bit c = 0 \<Longrightarrow> c = 0"
proof -
  assume z: "crc_bit c = 0"
  have even: "\<not> bit c 0"
  proof
    assume o: "bit c 0"
    have "bit (crc_bit c) 31"
      using o by (auto simp: crc_bit_def and_1_odd bit_xor_iff bit_drop_bit_eq dest: bit_imp_le_length)
    with z show False by simp
  qed
  with z have d: "drop_bit 1 c = 0" unfolding crc_bit_def and_1_odd by simp
  show "c = 0"
  proof (rule bit_word_eqI)
    fix n
    show "bit c n \<longleftrightarrow> bit (0::u32) n"
    proof (cases n)
      case 0
      with even show ?thesis by simp
    next
      case (Suc m)
      have "bit (drop_bit 1 c) m = bit c (Suc m)" by (simp add: bit_drop_bit_eq)
      with d Suc show ?thesis by simp
    qed
  qed
qed

lemma crc_bits_inj: "(crc_bit ^^ n) a = (crc_bit ^^ n) b \<longleftrightarrow> a = b"
proof
  assume e: "(crc_bit ^^ n) a = (crc_bit ^^ n) b"
  have z: "(crc_bit ^^ n) c = 0 \<Longrightarrow> c = 0" for c by (induction n) (auto dest: crc_bit_zero)
  have "(crc_bit ^^ n) (xor a b) = 0" using e by (simp add: crc_bits_xor)
  then have "xor a b = 0" by (rule z)
  then show "a = b" by (metis xor.left_neutral xor.right_neutral xor_self_eq xor.assoc)
qed simp

text \<open>Low zeros are shifted out without any feedback.\<close>

lemma crc_bits_push: "n \<le> k \<Longrightarrow> (crc_bit ^^ n) (push_bit k c) = drop_bit n (push_bit k c)"
proof (induction n)
  case 0
  then show ?case by simp
next
  case (Suc n)
  have "\<not> bit (drop_bit n (push_bit k c)) 0"
    using Suc.prems by (simp add: bit_drop_bit_eq bit_push_bit_iff)
  with Suc show ?case by (simp add: crc_bit_def and_1_odd)
qed

lemma xor_split8: "(x::u32) = xor (push_bit 8 (drop_bit 8 x)) (and x 0xFF)"
proof (rule bit_word_eqI)
  fix n assume n: "n < LENGTH(32)"
  have m: "(0xFF::u32) = mask 8" by (simp add: mask_eq_exp_minus_1)
  show "bit x n \<longleftrightarrow> bit (xor (push_bit 8 (drop_bit 8 x)) (and x 0xFF)) n"
    unfolding m using n by (auto simp: bit_simps)
qed

lemma crc_entry_at: "crc32_build_table ! unat (and x 0xFF) = crc_entry (and (x::u32) 0xFF)"
proof -
  have m: "(0xFF::u32) = mask 8" by (simp add: mask_eq_exp_minus_1)
  have "unat (and x 0xFF) < 256"
  proof -
    have "unat (and x (mask 8)) = take_bit 8 (unat x)"
      by (simp add: take_bit_eq_mask [symmetric] unsigned_take_bit_eq)
    also have "\<dots> < 2 ^ 8" by (rule take_bit_nat_less_exp)
    finally show ?thesis by (simp add: m)
  qed
  then show ?thesis by (simp add: crc32_build_table_def)
qed

lemma drop_ucast8 [simp]: "drop_bit 8 (ucast (b::u8) :: u32) = 0"
  by (rule bit_word_eqI) (auto simp: bit_simps dest: bit_imp_le_length)

text \<open>The table step is the eightfold register step.\<close>

lemma crc_byte_shift: "crc_byte c b = crc_shift c b"
proof -
  let ?x = "xor c (ucast b)"
  have "crc_shift c b = (crc_bit ^^ 8) (xor (push_bit 8 (drop_bit 8 ?x)) (and ?x 0xFF))"
    unfolding crc_shift_def using xor_split8 [of ?x] by simp
  also have "\<dots> = xor ((crc_bit ^^ 8) (push_bit 8 (drop_bit 8 ?x))) (crc_entry (and ?x 0xFF))"
    by (simp only: crc_bits_xor crc_entry_def)
  also have "(crc_bit ^^ 8) (push_bit 8 (drop_bit 8 ?x)) = drop_bit 8 (push_bit 8 (drop_bit 8 ?x))"
    by (rule crc_bits_push) simp
  also have "\<dots> = drop_bit 8 c"
    by (rule bit_word_eqI) (auto simp: bit_simps dest: bit_imp_le_length)
  finally show ?thesis by (simp only: crc_byte_def crc_entry_at)
qed


definition crc_run :: "u32 \<Rightarrow> bytes \<Rightarrow> u32" where
  "crc_run c bs = foldl crc_shift c bs"

lemma crc_run_simps [simp]:
  "crc_run c [] = c"
  "crc_run c (b # bs) = crc_run (crc_shift c b) bs"
  "crc_run c (as @ bs) = crc_run (crc_run c as) bs"
  by (simp_all add: crc_run_def)

lemma serial_crc32_run: "serial_crc32 crc buf = not (crc_run (not crc) buf)"
proof -
  have "fold (\<lambda>b c. crc_byte c b) buf c = crc_run c buf" for c
    by (induction buf arbitrary: c) (simp_all add: crc_byte_shift)
  then show ?thesis by (simp add: serial_crc32_def)
qed

lemma serial_crc32_append: "serial_crc32 crc (a @ b) = serial_crc32 (serial_crc32 crc a) b"
  by (simp add: serial_crc32_run)

lemma crc_shift_inj: "crc_shift c b = crc_shift d b \<longleftrightarrow> c = d"
proof -
  have "xor c x = xor d x \<longleftrightarrow> c = d" for x :: u32
    by (metis xor.assoc xor_self_eq xor.right_neutral)
  then show ?thesis by (simp add: crc_shift_def crc_bits_inj)
qed

lemma crc_run_inj: "crc_run c bs = crc_run d bs \<longleftrightarrow> c = d"
  by (induction bs arbitrary: c d) (simp_all add: crc_shift_inj)


section \<open>Little-endian words and bursts\<close>

text \<open>The word four bytes spell, the first byte lowest.\<close>

fun le_word :: "bytes \<Rightarrow> u32" where
  "le_word [] = 0"
| "le_word (b # bs) = xor (ucast b) (push_bit 8 (le_word bs))"

lemma bit_le_word_Cons:
  "bit (le_word (b # bs)) n \<longleftrightarrow> n < 32 \<and> (if n < 8 then bit b n else bit (le_word bs) (n - 8))"
  by (auto simp: bit_simps dest: bit_imp_le_length)

declare le_word.simps(2) [simp del]

lemma le_word_high: "bit (le_word bs) n \<Longrightarrow> n < 8 * length bs"
proof (induction bs arbitrary: n)
  case Nil
  then show ?case by simp
next
  case (Cons b bs)
  show ?case
  proof (cases "n < 8")
    case False
    with Cons.prems have "bit (le_word bs) (n - 8)" by (simp add: bit_le_word_Cons)
    then have "n - 8 < 8 * length bs" by (rule Cons.IH)
    then show ?thesis by simp
  qed simp
qed

lemma le_word_inj:
  "length bs = length cs \<Longrightarrow> length bs \<le> 4 \<Longrightarrow> le_word bs = le_word cs \<Longrightarrow> bs = cs"
proof (induction bs arbitrary: cs)
  case Nil
  then show ?case by simp
next
  case (Cons b bs)
  then obtain c cs' where cs: "cs = c # cs'" and len: "length bs = length cs'" by (cases cs) auto
  have eq: "bit (le_word (b # bs)) n = bit (le_word (c # cs')) n" for n
    using Cons.prems(3) cs by simp
  have bc: "b = c"
  proof (rule bit_word_eqI)
    fix n assume "n < LENGTH(8)"
    then show "bit b n = bit c n" using eq [of n] by (simp add: bit_le_word_Cons)
  qed
  have "le_word bs = le_word cs'"
  proof (rule bit_word_eqI)
    fix n assume "n < LENGTH(32)"
    have nb: "length xs \<le> 3 \<Longrightarrow> bit (le_word xs) n \<Longrightarrow> n + 8 < 32" for xs
      using le_word_high [of xs n] by auto
    show "bit (le_word bs) n = bit (le_word cs') n"
      using eq [of "n + 8"] nb [of bs] nb [of cs'] len Cons.prems(2)
      by (cases "n + 8 < 32") (auto simp: bit_le_word_Cons)
  qed
  with Cons.IH [OF len] Cons.prems(2) bc cs show ?case by simp
qed

lemma crc_run_short:
  "length bs \<le> 4 \<Longrightarrow> crc_run c bs = (crc_bit ^^ (8 * length bs)) (xor c (le_word bs))"
proof (induction bs arbitrary: c)
  case Nil
  then show ?case by simp
next
  case (Cons b bs)
  let ?w = "le_word bs"
  have "length bs \<le> 3" using Cons.prems by simp
  then have high: "bit ?w n \<Longrightarrow> n < 24" for n using le_word_high [of bs n] by simp
  have sh: "(crc_bit ^^ 8) (push_bit 8 ?w) = ?w"
  proof -
    have "(crc_bit ^^ 8) (push_bit 8 ?w) = drop_bit 8 (push_bit 8 ?w)"
      by (rule crc_bits_push) simp
    also have "\<dots> = ?w"
      by (rule bit_word_eqI) (auto simp: bit_simps dest: high)
    finally show ?thesis .
  qed
  have "(crc_bit ^^ 8) (xor c (le_word (b # bs))) =
      (crc_bit ^^ 8) (xor (xor c (ucast b)) (push_bit 8 ?w))"
    by (simp add: le_word.simps(2) xor.assoc)
  also have "\<dots> = xor (crc_shift c b) ?w" by (simp only: crc_bits_xor sh crc_shift_def)
  finally have one: "(crc_bit ^^ 8) (xor c (le_word (b # bs))) = xor (crc_shift c b) ?w" .
  have "crc_run c (b # bs) = (crc_bit ^^ (8 * length bs)) (xor (crc_shift c b) ?w)"
    using Cons by simp
  also have "\<dots> = (crc_bit ^^ (8 * length bs + 8)) (xor c (le_word (b # bs)))"
    by (simp only: one [symmetric] funpow_add o_apply)
  also have "8 * length bs + 8 = 8 * length (b # bs)" by simp
  finally show ?case .
qed

lemma crc_run_burst:
  assumes "length w = length w'" and "length w \<le> 4" and "crc_run c w = crc_run c w'"
  shows "w = w'"
proof -
  have "xor c (le_word w) = xor c (le_word w')"
    using assms by (simp add: crc_run_short crc_bits_inj)
  then have "le_word w = le_word w'"
    by (metis xor.assoc xor_self_eq xor.left_neutral)
  with assms show ?thesis by (blast intro: le_word_inj)
qed

end
