(* ===== verification/Serial.thy ===== *)
theory Serial
  imports Crc RtTrail
begin

text \<open>
  Serialized continuations (\<open>src/runtime/serial.c\<close>, \<open>serial.h\<close>): frames with tagged fields, the
  registry of reconstruction functions, the writer of the wire format over a growing buffer, and the
  reader over a cursor. Frames of a chain live in a heap and are linked by their parent pointer;
  \<open>mem n\<close> says whether the allocator grants \<open>n\<close> bytes. A string in memory is the list of its bytes
  with whatever follows its terminator; every operation that takes a C string cuts it at the first
  zero byte. A double travels as its 64 bits.
\<close>

section \<open>Frames\<close>

text \<open>
  The tag and the union of \<open>SerialField\<close> together; \<open>SOther\<close> is a tag the enumeration does not have.
\<close>

datatype svalue =
    SNil
  | SInt64 u64
  | SFloat64 u64
  | SBool bool
  | SCstr "bytes option"
  | SBytes bytes
  | SPtr u64
  | SOther u32

fun stag :: "svalue \<Rightarrow> u32" where
  "stag SNil = 0"
| "stag (SInt64 _) = 1"
| "stag (SFloat64 _) = 2"
| "stag (SBool _) = 3"
| "stag (SCstr _) = 4"
| "stag (SBytes _) = 5"
| "stag (SPtr _) = 6"
| "stag (SOther t) = t"

record sfield =
  sf_name :: "bytes option"
  sf_value :: svalue

record sframe =
  fr_symbol_key :: "bytes option"
  fr_schema_ver :: u32
  fr_fields :: "sfield list"

record hframe =
  hf_frame :: sframe
  hf_parent :: "nat option"

text \<open>What \<open>strlen\<close>, \<open>strcmp\<close> and printing see of the bytes at a \<open>char *\<close>.\<close>

definition cut_nul :: "bytes \<Rightarrow> bytes" where
  "cut_nul s = takeWhile (\<lambda>b. b \<noteq> 0) s"

definition serial_schema_ver :: "(bytes \<times> u32) list \<Rightarrow> u32" where
  "serial_schema_ver flds =
     fold (\<lambda>(name, tag) crc. serial_crc32 (serial_crc32 crc (cut_nul name @ [0])) [ucast tag]) flds 0"


section \<open>The registry\<close>

record regentry =
  re_symbol_key :: bytes
  re_frame_size :: nat
  re_reconstruct :: "(sframe \<Rightarrow> sframe option) option"

definition SERIAL_REGISTRY_MAX :: nat where "SERIAL_REGISTRY_MAX = 4096"

definition serial_register ::
  "bytes \<Rightarrow> nat \<Rightarrow> (sframe \<Rightarrow> sframe option) option \<Rightarrow> regentry list \<Rightarrow> bool \<times> regentry list" where
  "serial_register key sz fn reg =
     (if length reg \<ge> SERIAL_REGISTRY_MAX then (False, reg)
      else (True, reg @ [\<lparr>re_symbol_key = key, re_frame_size = sz, re_reconstruct = fn\<rparr>]))"

fun serial_lookup :: "regentry list \<Rightarrow> bytes \<Rightarrow> (sframe \<Rightarrow> sframe option) option" where
  "serial_lookup [] key = None"
| "serial_lookup (e # reg) key =
     (if cut_nul (re_symbol_key e) = cut_nul key then re_reconstruct e else serial_lookup reg key)"


section \<open>The set of seen frames\<close>

record ptrset =
  ps_ptrs :: "nat list"
  ps_cap :: nat

definition PTRSET_INITIAL :: nat where "PTRSET_INITIAL = 64"

definition serial_ptrset_alloc :: "(nat \<Rightarrow> bool) \<Rightarrow> ptrset option" where
  "serial_ptrset_alloc mem =
     (if \<not> mem 24 then None
      else if \<not> mem (PTRSET_INITIAL * 8) then None
      else Some \<lparr>ps_ptrs = [], ps_cap = PTRSET_INITIAL\<rparr>)"

definition serial_ptrset_contains :: "(nat \<Rightarrow> bool) \<Rightarrow> nat \<Rightarrow> ptrset \<Rightarrow> bool \<times> ptrset" where
  "serial_ptrset_contains mem p seen =
     (if p \<in> set (ps_ptrs seen) then (True, seen)
      else if length (ps_ptrs seen) \<ge> ps_cap seen then
        (if \<not> mem (2 * ps_cap seen * 8) then (False, seen)
         else (False, \<lparr>ps_ptrs = ps_ptrs seen @ [p], ps_cap = 2 * ps_cap seen\<rparr>))
      else (False, seen\<lparr>ps_ptrs := ps_ptrs seen @ [p]\<rparr>))"


section \<open>The write buffer\<close>

record wirebuf =
  wb_data :: bytes
  wb_cap :: nat

text \<open>A writer returns false, or it calls \<open>abort\<close>.\<close>

datatype werr = WFalse | WAbort

fun wthen :: "werr + 'a \<Rightarrow> ('a \<Rightarrow> werr + 'b) \<Rightarrow> werr + 'b" where
  "wthen (Inl e) f = Inl e"
| "wthen (Inr x) f = f x"

function grow_cap :: "nat \<Rightarrow> nat \<Rightarrow> nat" where
  "grow_cap cap need = (if 0 < cap \<and> cap < need then grow_cap (2 * cap) need else cap)"
  by pat_completeness auto
termination by (relation "measure (\<lambda>(cap, need). need - cap)") auto

declare grow_cap.simps [simp del]

definition wire_reserve :: "(nat \<Rightarrow> bool) \<Rightarrow> nat \<Rightarrow> wirebuf \<Rightarrow> werr + wirebuf" where
  "wire_reserve mem extra wb =
     (let need = length (wb_data wb) + extra
      in if need \<le> wb_cap wb then Inr wb
         else let cap = grow_cap (if wb_cap wb \<noteq> 0 then wb_cap wb * 2 else 256) need
           in if \<not> mem cap then Inl WFalse else Inr (wb\<lparr>wb_cap := cap\<rparr>))"

definition wire_put :: "(nat \<Rightarrow> bool) \<Rightarrow> bytes \<Rightarrow> wirebuf \<Rightarrow> werr + wirebuf" where
  "wire_put mem bs wb =
     wthen (wire_reserve mem (length bs) wb) (\<lambda>wb. Inr (wb\<lparr>wb_data := wb_data wb @ bs\<rparr>))"

definition wire_u8 :: "(nat \<Rightarrow> bool) \<Rightarrow> u8 \<Rightarrow> wirebuf \<Rightarrow> werr + wirebuf" where
  "wire_u8 mem v = wire_put mem [v]"

definition wire_u16le :: "(nat \<Rightarrow> bool) \<Rightarrow> u16 \<Rightarrow> wirebuf \<Rightarrow> werr + wirebuf" where
  "wire_u16le mem v = wire_put mem [ucast (and v 0xff), ucast (and (drop_bit 8 v) 0xff)]"

definition u32_bytes :: "u32 \<Rightarrow> bytes" where
  "u32_bytes v = [ucast (and v 0xff), ucast (and (drop_bit 8 v) 0xff),
                  ucast (and (drop_bit 16 v) 0xff), ucast (and (drop_bit 24 v) 0xff)]"

definition wire_u32le :: "(nat \<Rightarrow> bool) \<Rightarrow> u32 \<Rightarrow> wirebuf \<Rightarrow> werr + wirebuf" where
  "wire_u32le mem v = wire_put mem (u32_bytes v)"

text \<open>The loop of \<open>wire_u64le\<close>, with the turns that are left.\<close>

fun u64_loop :: "nat \<Rightarrow> u64 \<Rightarrow> bytes" where
  "u64_loop 0 v = []"
| "u64_loop (Suc i) v = ucast (and v 0xff) # u64_loop i (drop_bit 8 v)"

definition wire_u64le :: "(nat \<Rightarrow> bool) \<Rightarrow> u64 \<Rightarrow> wirebuf \<Rightarrow> werr + wirebuf" where
  "wire_u64le mem v = wire_put mem (u64_loop 8 v)"

text \<open>
  A length is cast to 32 bits before it is written, and that many bytes are copied.
\<close>

definition wire_counted :: "(nat \<Rightarrow> bool) \<Rightarrow> bytes \<Rightarrow> wirebuf \<Rightarrow> werr + wirebuf" where
  "wire_counted mem bs wb =
     (let n = (of_nat (length bs) :: u32)
      in wthen (wire_u32le mem n wb)
           (\<lambda>wb. if n > 0 then wire_put mem (take (unat n) bs) wb else Inr wb))"

definition wire_lstr :: "(nat \<Rightarrow> bool) \<Rightarrow> bytes option \<Rightarrow> wirebuf \<Rightarrow> werr + wirebuf" where
  "wire_lstr mem s = wire_counted mem (case s of None \<Rightarrow> [] | Some s \<Rightarrow> cut_nul s)"

fun wire_field_payload :: "(nat \<Rightarrow> bool) \<Rightarrow> svalue \<Rightarrow> wirebuf \<Rightarrow> werr + wirebuf" where
  "wire_field_payload mem (SInt64 i) wb = wire_u64le mem i wb"
| "wire_field_payload mem (SFloat64 bits) wb = wire_u64le mem bits wb"
| "wire_field_payload mem (SBool b) wb = wire_u8 mem (if b then 1 else 0) wb"
| "wire_field_payload mem (SCstr s) wb = wire_lstr mem s wb"
| "wire_field_payload mem (SBytes bs) wb = wire_counted mem bs wb"
| "wire_field_payload mem (SPtr p) wb = Inl WAbort"
| "wire_field_payload mem SNil wb = Inr wb"
| "wire_field_payload mem (SOther t) wb = Inl WFalse"


section \<open>Serialisation\<close>

text \<open>The bytes of \<open>TSER\<close>.\<close>

definition SERIAL_WIRE_MAGIC :: bytes where
  "SERIAL_WIRE_MAGIC = [0x54, 0x53, 0x45, 0x52]"

definition SERIAL_WIRE_VERSION :: u16 where "SERIAL_WIRE_VERSION = 1"

fun write_fields :: "(nat \<Rightarrow> bool) \<Rightarrow> sfield list \<Rightarrow> wirebuf \<Rightarrow> werr + wirebuf" where
  "write_fields mem [] wb = Inr wb"
| "write_fields mem (fld # flds) wb =
     wthen (wire_lstr mem (sf_name fld) wb) (\<lambda>wb.
     wthen (wire_u8 mem (ucast (stag (sf_value fld))) wb) (\<lambda>wb.
     wthen (wire_field_payload mem (sf_value fld) wb) (\<lambda>wb.
     write_fields mem flds wb)))"

definition write_frame :: "(nat \<Rightarrow> bool) \<Rightarrow> sframe \<Rightarrow> wirebuf \<Rightarrow> werr + wirebuf" where
  "write_frame mem f wb =
     wthen (wire_lstr mem (fr_symbol_key f) wb) (\<lambda>wb.
     wthen (wire_u32le mem (fr_schema_ver f) wb) (\<lambda>wb.
     wthen (wire_u32le mem (of_nat (length (fr_fields f))) wb) (\<lambda>wb.
     write_fields mem (fr_fields f) wb)))"

text \<open>
  Both loops over the chain follow parent pointers until \<open>NULL\<close>; None is a loop that never ends.
\<close>

partial_function (option) count_frames :: "(nat \<Rightarrow> hframe) \<Rightarrow> nat option \<Rightarrow> u32 \<Rightarrow> u32 option" where
  "count_frames h f n =
     (case f of None \<Rightarrow> Some n | Some a \<Rightarrow> count_frames h (hf_parent (h a)) (n + 1))"

partial_function (option) write_frames ::
  "(nat \<Rightarrow> bool) \<Rightarrow> (nat \<Rightarrow> hframe) \<Rightarrow> nat option \<Rightarrow> ptrset \<Rightarrow> wirebuf \<Rightarrow> (werr + wirebuf) option" where
  "write_frames mem h f seen wb =
     (case f of None \<Rightarrow> Some (Inr wb)
      | Some a \<Rightarrow>
          if fst (serial_ptrset_contains mem a seen) then Some (Inl WFalse)
          else case write_frame mem (hf_frame (h a)) wb of
            Inl e \<Rightarrow> Some (Inl e)
          | Inr wb' \<Rightarrow>
              write_frames mem h (hf_parent (h a)) (snd (serial_ptrset_contains mem a seen)) wb')"

text \<open>
  \<open>Inl WFalse\<close> stands for the result \<open>NULL\<close>. The trail is the one of the runtime.
\<close>

definition serial_cont_to_bytes ::
  "(nat \<Rightarrow> bool) \<Rightarrow> rtrail \<Rightarrow> (nat \<Rightarrow> hframe) \<Rightarrow> nat option \<Rightarrow> (werr + bytes) option" where
  "serial_cont_to_bytes mem tr h head =
     (if tur_trail_level tr \<noteq> 0 then Some (Inl WFalse)
      else case count_frames h head 0 of None \<Rightarrow> None
      | Some n_frames \<Rightarrow>
        (case serial_ptrset_alloc mem of None \<Rightarrow> Some (Inl WFalse)
         | Some seen \<Rightarrow>
           (case wthen (wire_put mem SERIAL_WIRE_MAGIC \<lparr>wb_data = [], wb_cap = 0\<rparr>) (\<lambda>wb.
                 wthen (wire_u16le mem SERIAL_WIRE_VERSION wb) (wire_u32le mem n_frames)) of
              Inl e \<Rightarrow> Some (Inl e)
            | Inr wb \<Rightarrow>
              (case write_frames mem h head seen wb of None \<Rightarrow> None
               | Some (Inl e) \<Rightarrow> Some (Inl e)
               | Some (Inr wb) \<Rightarrow>
                   Some (wthen (wire_u32le mem (serial_crc32 0 (wb_data wb)) wb)
                           (\<lambda>wb. Inr (wb_data wb)))))))"


section \<open>The cursor\<close>

record wirecursor =
  wc_data :: bytes
  wc_len :: nat
  wc_pos :: nat

definition cur_left :: "wirecursor \<Rightarrow> nat" where
  "cur_left c = (if wc_pos c \<le> wc_len c then wc_len c - wc_pos c else 0)"

definition cur_read :: "wirecursor \<Rightarrow> nat \<Rightarrow> (bytes \<times> wirecursor) option" where
  "cur_read c n =
     (if n > cur_left c then None
      else Some (take n (drop (wc_pos c) (wc_data c)), c\<lparr>wc_pos := wc_pos c + n\<rparr>))"

definition cur_u8 :: "wirecursor \<Rightarrow> (u8 \<times> wirecursor) option" where
  "cur_u8 c = map_option (\<lambda>(b, c). (b ! 0, c)) (cur_read c 1)"

definition cur_u16le :: "wirecursor \<Rightarrow> (u16 \<times> wirecursor) option" where
  "cur_u16le c = map_option (\<lambda>(b, c). (or (ucast (b ! 0)) (push_bit 8 (ucast (b ! 1))), c)) (cur_read c 2)"

definition bytes_u32 :: "bytes \<Rightarrow> u32" where
  "bytes_u32 b = or (or (or (ucast (b ! 0)) (push_bit 8 (ucast (b ! 1))))
                        (push_bit 16 (ucast (b ! 2)))) (push_bit 24 (ucast (b ! 3)))"

definition cur_u32le :: "wirecursor \<Rightarrow> (u32 \<times> wirecursor) option" where
  "cur_u32le c = map_option (\<lambda>(b, c). (bytes_u32 b, c)) (cur_read c 4)"

definition bytes_u64 :: "bytes \<Rightarrow> u64" where
  "bytes_u64 b = fold (\<lambda>i v. or v (push_bit (8 * i) (ucast (b ! i)))) [0..<8] 0"

definition cur_u64le :: "wirecursor \<Rightarrow> (u64 \<times> wirecursor) option" where
  "cur_u64le c = map_option (\<lambda>(b, c). (bytes_u64 b, c)) (cur_read c 8)"

text \<open>A string, and the payload of a byte field: a length and that many bytes, copied to fresh memory.\<close>

definition cur_lstr :: "(nat \<Rightarrow> bool) \<Rightarrow> wirecursor \<Rightarrow> (bytes \<times> wirecursor) option" where
  "cur_lstr mem c =
     (case cur_u32le c of None \<Rightarrow> None
      | Some (slen, c) \<Rightarrow>
          if unat slen > cur_left c then None
          else if \<not> mem (unat slen + 1) then None
          else if slen > 0 then cur_read c (unat slen) else Some ([], c))"

definition cur_blob :: "(nat \<Rightarrow> bool) \<Rightarrow> wirecursor \<Rightarrow> (bytes \<times> wirecursor) option" where
  "cur_blob mem c =
     (case cur_u32le c of None \<Rightarrow> None
      | Some (dlen, c) \<Rightarrow>
          if unat dlen > cur_left c then None
          else if dlen > 0 then
            (if \<not> mem (unat dlen) then None else cur_read c (unat dlen))
          else Some ([], c))"


section \<open>Deserialisation\<close>

datatype derr = EShort | EMagic | EVersion | ECrc | EOom | EUnknown | ESchema | ETag

text \<open>A failed read is reported as \<open>e\<close>.\<close>

fun or_else :: "derr \<Rightarrow> 'a option \<Rightarrow> ('a \<Rightarrow> derr + 'b) \<Rightarrow> derr + 'b" where
  "or_else e None f = Inl e"
| "or_else e (Some x) f = f x"

definition read_value :: "(nat \<Rightarrow> bool) \<Rightarrow> u8 \<Rightarrow> wirecursor \<Rightarrow> derr + svalue \<times> wirecursor" where
  "read_value mem tag c =
     (if tag = 1 then or_else EShort (cur_u64le c) (\<lambda>(v, c). Inr (SInt64 v, c))
      else if tag = 2 then or_else EShort (cur_u64le c) (\<lambda>(v, c). Inr (SFloat64 v, c))
      else if tag = 3 then or_else EShort (cur_u8 c) (\<lambda>(v, c). Inr (SBool (v \<noteq> 0), c))
      else if tag = 4 then or_else EShort (cur_lstr mem c) (\<lambda>(s, c). Inr (SCstr (Some s), c))
      else if tag = 5 then or_else EShort (cur_blob mem c) (\<lambda>(s, c). Inr (SBytes s, c))
      else if tag = 6 then Inl ETag
      else if tag = 0 then Inr (SNil, c)
      else Inl ETag)"

fun read_fields :: "(nat \<Rightarrow> bool) \<Rightarrow> nat \<Rightarrow> wirecursor \<Rightarrow> derr + sfield list \<times> wirecursor" where
  "read_fields mem 0 c = Inr ([], c)"
| "read_fields mem (Suc n) c =
     or_else EShort (cur_lstr mem c) (\<lambda>(name, c).
     or_else EShort (cur_u8 c) (\<lambda>(tag, c).
     (case read_value mem tag c of Inl e \<Rightarrow> Inl e
      | Inr (v, c) \<Rightarrow>
          (case read_fields mem n c of Inl e \<Rightarrow> Inl e
           | Inr (flds, c) \<Rightarrow> Inr (\<lparr>sf_name = Some name, sf_value = v\<rparr> # flds, c)))))"

text \<open>The sizes of \<open>SerialFrame\<close> and \<open>SerialField\<close> on a 64-bit target.\<close>

definition serial_frame_alloc :: "(nat \<Rightarrow> bool) \<Rightarrow> nat \<Rightarrow> sframe option" where
  "serial_frame_alloc mem n =
     (if \<not> mem 40 then None
      else if n > 0 \<and> \<not> mem (n * 32) then None
      else Some \<lparr>fr_symbol_key = None, fr_schema_ver = 0,
                 fr_fields = replicate n \<lparr>sf_name = None, sf_value = SNil\<rparr>\<rparr>)"

definition read_frame ::
  "(nat \<Rightarrow> bool) \<Rightarrow> regentry list \<Rightarrow> wirecursor \<Rightarrow> derr + sframe \<times> wirecursor" where
  "read_frame mem reg c =
     or_else EShort (cur_lstr mem c) (\<lambda>(sym_key, c).
     or_else EShort (cur_u32le c) (\<lambda>(schema_ver, c).
     or_else EUnknown (serial_lookup reg sym_key) (\<lambda>reconstruct.
     or_else EShort (cur_u32le c) (\<lambda>(n_fields, c).
     if unat n_fields > cur_left c div 5 then Inl EShort
     else or_else EOom (serial_frame_alloc mem (unat n_fields)) (\<lambda>wf.
       (case read_fields mem (unat n_fields) c of Inl e \<Rightarrow> Inl e
        | Inr (flds, c) \<Rightarrow>
            or_else ESchema
              (reconstruct (wf\<lparr>fr_symbol_key := Some sym_key, fr_schema_ver := schema_ver,
                               fr_fields := flds\<rparr>))
              (\<lambda>live. Inr (live, c))))))))"

fun read_frames ::
  "(nat \<Rightarrow> bool) \<Rightarrow> regentry list \<Rightarrow> nat \<Rightarrow> wirecursor \<Rightarrow> sframe list \<Rightarrow> derr + sframe list" where
  "read_frames mem reg 0 c chain = Inr chain"
| "read_frames mem reg (Suc n) c chain =
     (case read_frame mem reg c of Inl e \<Rightarrow> Inl e
      | Inr (live, c) \<Rightarrow> read_frames mem reg n c (chain @ [live]))"

text \<open>The chain that is built, innermost frame first.\<close>

definition serial_cont_from_bytes ::
  "(nat \<Rightarrow> bool) \<Rightarrow> regentry list \<Rightarrow> bytes \<Rightarrow> derr + sframe list" where
  "serial_cont_from_bytes mem reg data =
     (if length data < 4 + 2 + 4 + 4 then Inl EShort
      else if bytes_u32 (drop (length data - 4) data)
            \<noteq> serial_crc32 0 (take (length data - 4) data) then Inl ECrc
      else or_else EShort (cur_read \<lparr>wc_data = data, wc_len = length data - 4, wc_pos = 0\<rparr> 4) (\<lambda>(magic, c).
      if magic \<noteq> SERIAL_WIRE_MAGIC then Inl EMagic
      else or_else EShort (cur_u16le c) (\<lambda>(ver, c).
      if ver \<noteq> SERIAL_WIRE_VERSION then Inl EVersion
      else or_else EShort (cur_u32le c) (\<lambda>(n_frames, c).
        read_frames mem reg (unat n_frames) c []))))"

end
