(* ===== verification/SerialSound.thy ===== *)
theory SerialSound
  imports Serial
begin

text \<open>
  Facts about serialized continuations: what each writer appends, what each reader takes off, that
  the readers invert the writers, what a successful reading needs, and when the loops over a chain
  end.
\<close>

section \<open>Little-endian words\<close>

lemma length_u32_bytes [simp]: "length (u32_bytes v) = 4"
  by (simp add: u32_bytes_def)

lemma length_u64_loop [simp]: "length (u64_loop i v) = i"
  by (induction i v rule: u64_loop.induct) simp_all

lemma bytes_u32_inv [simp]: "bytes_u32 (u32_bytes v @ r) = v"
proof (rule bit_word_eqI)
  fix n assume n: "n < LENGTH(32)"
  have m: "(0xFF::u32) = mask 8" by (simp add: mask_eq_exp_minus_1)
  consider "n < 8" | "8 \<le> n" "n < 16" | "16 \<le> n" "n < 24" | "24 \<le> n" by linarith
  then show "bit (bytes_u32 (u32_bytes v @ r)) n = bit v n"
    using n unfolding bytes_u32_def u32_bytes_def m
    by cases (auto simp: bit_simps numeral_2_eq_2 numeral_3_eq_3)
qed

lemma bytes_u32_inv' [simp]: "bytes_u32 (u32_bytes v) = v"
  using bytes_u32_inv [of v "[]"] by simp

lemma u64_loop_nth: "j < i \<Longrightarrow> u64_loop i v ! j = ucast (and (drop_bit (8 * j) v) 0xff)"
proof (induction i v arbitrary: j rule: u64_loop.induct)
  case (1 v)
  then show ?case by simp
next
  case (2 i v)
  then show ?case by (cases j) (simp_all add: drop_bit_drop_bit add.commute)
qed

lemma bit_or_bytes:
  "bit (fold (\<lambda>i v. or v (push_bit (8 * i) (ucast (b ! i :: u8)))) [0..<k] (a::u64)) n \<longleftrightarrow>
   bit a n \<or> (\<exists>i<k. 8 * i \<le> n \<and> n < 64 \<and> bit (b ! i) (n - 8 * i))"
  by (induction k) (auto simp: bit_simps less_Suc_eq)

lemma bytes_u64_inv [simp]: "bytes_u64 (u64_loop 8 v) = v"
proof (rule bit_word_eqI)
  fix n assume n: "n < LENGTH(64)"
  have m: "(0xFF::u64) = mask 8" by (simp add: mask_eq_exp_minus_1)
  have at: "bit (u64_loop 8 v ! i) (n - 8 * i) \<longleftrightarrow> n - 8 * i < 8 \<and> bit v n"
    if "i < 8" and "8 * i \<le> n" for i
    using that n by (simp add: u64_loop_nth bit_simps m) auto
  have "n div 8 < 8" and "8 * (n div 8) \<le> n" and "n - 8 * (n div 8) < 8" using n by auto
  then show "bit (bytes_u64 (u64_loop 8 v)) n = bit v n"
    using n at unfolding bytes_u64_def bit_or_bytes by auto
qed

lemma bytes_u32_le_word: "length b = 4 \<Longrightarrow> bytes_u32 b = le_word b"
proof -
  assume "length b = 4"
  then obtain b0 b1 b2 b3 where b: "b = [b0, b1, b2, b3]"
    by (auto simp: eval_nat_numeral length_Suc_conv)
  show ?thesis
  proof (rule bit_word_eqI)
    fix n assume "n < LENGTH(32)"
    then show "bit (bytes_u32 b) n = bit (le_word b) n"
      unfolding b bytes_u32_def
      by (auto simp: bit_simps bit_le_word_Cons dest: bit_imp_le_length)
  qed
qed


section \<open>What the writers append\<close>

text \<open>The encoding of a value, a field and a frame, as plain lists of bytes.\<close>

definition enc_counted :: "bytes \<Rightarrow> bytes" where
  "enc_counted bs = u32_bytes (of_nat (length bs)) @ take (unat (of_nat (length bs) :: u32)) bs"

definition str_bytes :: "bytes option \<Rightarrow> bytes" where
  "str_bytes s = (case s of None \<Rightarrow> [] | Some s \<Rightarrow> cut_nul s)"

fun enc_value :: "svalue \<Rightarrow> bytes" where
  "enc_value (SInt64 i) = u64_loop 8 i"
| "enc_value (SFloat64 i) = u64_loop 8 i"
| "enc_value (SBool b) = [if b then 1 else 0]"
| "enc_value (SCstr s) = enc_counted (str_bytes s)"
| "enc_value (SBytes bs) = enc_counted bs"
| "enc_value _ = []"

definition enc_field :: "sfield \<Rightarrow> bytes" where
  "enc_field fld =
     enc_counted (str_bytes (sf_name fld)) @ [ucast (stag (sf_value fld))] @ enc_value (sf_value fld)"

definition enc_frame :: "sframe \<Rightarrow> bytes" where
  "enc_frame f =
     enc_counted (str_bytes (fr_symbol_key f)) @ u32_bytes (fr_schema_ver f) @
     u32_bytes (of_nat (length (fr_fields f))) @ concat (map enc_field (fr_fields f))"

definition enc_head :: "u32 \<Rightarrow> bytes" where
  "enc_head n = SERIAL_WIRE_MAGIC @ [1, 0] @ u32_bytes n"

text \<open>Values a writer can write: no pointer and no tag outside the enumeration.\<close>

fun writable :: "svalue \<Rightarrow> bool" where
  "writable (SPtr _) = False"
| "writable (SOther _) = False"
| "writable _ = True"

lemma wire_put_grants: "\<forall>n. mem n \<Longrightarrow> \<exists>wb'. wire_put mem bs wb = Inr wb' \<and> wb_data wb' = wb_data wb @ bs"
  by (simp add: wire_put_def wire_reserve_def Let_def)

lemma wire_put_data: "wire_put mem bs wb = Inr wb' \<Longrightarrow> wb_data wb' = wb_data wb @ bs"
  by (auto simp: wire_put_def wire_reserve_def Let_def split: if_splits)

lemma wire_put_error: "wire_put mem bs wb = Inl e \<Longrightarrow> e = WFalse"
  by (auto simp: wire_put_def wire_reserve_def Let_def split: if_splits)

text \<open>
  \<open>appends mem w bs\<close>: given the memory it asks for, the writer appends exactly \<open>bs\<close>.
\<close>

definition appends :: "(wirebuf \<Rightarrow> werr + wirebuf) \<Rightarrow> bytes \<Rightarrow> bool" where
  "appends w bs \<longleftrightarrow> (\<forall>wb. \<exists>wb'. w wb = Inr wb' \<and> wb_data wb' = wb_data wb @ bs)"

named_theorems wire_append \<open>what the writers append\<close>

lemma appends_put [wire_append]: "\<forall>n. mem n \<Longrightarrow> appends (wire_put mem bs) bs"
  using wire_put_grants unfolding appends_def by blast

lemma appends_then:
  assumes "appends v as" and "appends w bs"
  shows "appends (\<lambda>wb. wthen (v wb) w) (as @ bs)"
  unfolding appends_def
proof
  fix wb
  from assms(1) obtain wb1 where 1: "v wb = Inr wb1" "wb_data wb1 = wb_data wb @ as"
    unfolding appends_def by blast
  from assms(2) obtain wb2 where "w wb1 = Inr wb2" "wb_data wb2 = wb_data wb1 @ bs"
    unfolding appends_def by blast
  with 1 show "\<exists>wb'. wthen (v wb) w = Inr wb' \<and> wb_data wb' = wb_data wb @ as @ bs" by simp
qed

lemma appends_done [wire_append]: "appends Inr []"
  by (simp add: appends_def)

lemma u16_version: "[ucast (and SERIAL_WIRE_VERSION 0xff), ucast (and (drop_bit 8 SERIAL_WIRE_VERSION) 0xff)] = [1, 0::u8]"
  by (simp add: SERIAL_WIRE_VERSION_def)

lemma appends_u8 [wire_append]: "\<forall>n. mem n \<Longrightarrow> appends (wire_u8 mem v) [v]"
  unfolding wire_u8_def by (rule appends_put)

lemma appends_u32 [wire_append]: "\<forall>n. mem n \<Longrightarrow> appends (wire_u32le mem v) (u32_bytes v)"
  unfolding wire_u32le_def by (rule appends_put)

lemma appends_u64 [wire_append]: "\<forall>n. mem n \<Longrightarrow> appends (wire_u64le mem v) (u64_loop 8 v)"
  unfolding wire_u64le_def by (rule appends_put)

lemma appends_counted [wire_append]: "\<forall>n. mem n \<Longrightarrow> appends (wire_counted mem bs) (enc_counted bs)"
proof -
  assume m: "\<forall>n. mem n"
  let ?n = "of_nat (length bs) :: u32"
  let ?tail = "\<lambda>wb. if ?n > 0 then wire_put mem (take (unat ?n) bs) wb else Inr wb"
  have "appends ?tail (take (unat ?n) bs)"
  proof (cases "?n > 0")
    case True
    then show ?thesis using appends_put [OF m] by simp
  next
    case False
    then have "unat ?n = 0" by (metis unat_0 word_neq_0_conv)
    with False show ?thesis using appends_done by simp
  qed
  from appends_then [OF appends_u32 [OF m, where v = ?n] this]
  show ?thesis unfolding wire_counted_def enc_counted_def Let_def .
qed

lemma appends_lstr [wire_append]: "\<forall>n. mem n \<Longrightarrow> appends (wire_lstr mem s) (enc_counted (str_bytes s))"
  unfolding wire_lstr_def str_bytes_def by (rule appends_counted)

lemma appends_value [wire_append]:
  "\<forall>n. mem n \<Longrightarrow> writable v \<Longrightarrow> appends (wire_field_payload mem v) (enc_value v)"
  using appends_done appends_u64 [of mem] appends_u8 [of mem] appends_lstr [of mem] appends_counted [of mem]
  by (cases v) (simp_all add: appends_def)

lemma appends_fields:
  "\<forall>n. mem n \<Longrightarrow> (\<And>fld. fld \<in> set flds \<Longrightarrow> writable (sf_value fld)) \<Longrightarrow>
   appends (write_fields mem flds) (concat (map enc_field flds))"
proof (induction flds)
  case Nil
  have "write_fields mem [] = Inr" by (rule ext) simp
  then show ?case by (simp add: appends_done)
next
  case (Cons fld flds)
  have w: "writable (sf_value fld)" using Cons.prems(2) by simp
  have r: "appends (write_fields mem flds) (concat (map enc_field flds))"
    by (rule Cons.IH [OF Cons.prems(1)]) (simp add: Cons.prems(2))
  have e: "write_fields mem (fld # flds) = (\<lambda>wb. wthen (wire_lstr mem (sf_name fld) wb)
      (\<lambda>wb. wthen (wire_u8 mem (ucast (stag (sf_value fld))) wb)
      (\<lambda>wb. wthen (wire_field_payload mem (sf_value fld) wb) (write_fields mem flds))))"
    by (rule ext) simp
  have "appends (write_fields mem (fld # flds))
      (enc_counted (str_bytes (sf_name fld)) @ [ucast (stag (sf_value fld))] @
       enc_value (sf_value fld) @ concat (map enc_field flds))"
    unfolding e
    by (intro appends_then appends_lstr appends_u8 appends_value w r Cons.prems(1))
  then show ?case by (simp only: list.map concat.simps enc_field_def [of fld] append_assoc)
qed

lemma appends_frame:
  assumes "\<forall>n. mem n" and "\<And>fld. fld \<in> set (fr_fields f) \<Longrightarrow> writable (sf_value fld)"
  shows "appends (write_frame mem f) (enc_frame f)"
proof -
  have e: "write_frame mem f = (\<lambda>wb. wthen (wire_lstr mem (fr_symbol_key f) wb)
      (\<lambda>wb. wthen (wire_u32le mem (fr_schema_ver f) wb)
      (\<lambda>wb. wthen (wire_u32le mem (of_nat (length (fr_fields f))) wb) (write_fields mem (fr_fields f)))))"
    by (rule ext) (simp add: write_frame_def)
  show ?thesis
    unfolding e enc_frame_def
    by (intro appends_then appends_lstr appends_u32 appends_fields assms)
qed


section \<open>The readers take off what was written\<close>

text \<open>\<open>cur_at c r\<close>: the cursor is inside its input and \<open>r\<close> is what it has left to read.\<close>

definition cur_at :: "wirecursor \<Rightarrow> bytes \<Rightarrow> bool" where
  "cur_at c r \<longleftrightarrow> wc_pos c \<le> wc_len c \<and> wc_len c \<le> length (wc_data c) \<and>
                drop (wc_pos c) (take (wc_len c) (wc_data c)) = r"

lemma cur_at_left: "cur_at c r \<Longrightarrow> cur_left c = length r"
  by (auto simp: cur_at_def cur_left_def)

text \<open>\<open>takes rd bs x\<close>: in front of \<open>bs\<close> the reader succeeds with \<open>x\<close> and stands behind it.\<close>

definition takes :: "(wirecursor \<Rightarrow> ('a \<times> wirecursor) option) \<Rightarrow> bytes \<Rightarrow> 'a \<Rightarrow> bool" where
  "takes rd bs x \<longleftrightarrow> (\<forall>c r. cur_at c (bs @ r) \<longrightarrow> (\<exists>c'. rd c = Some (x, c') \<and> cur_at c' r))"

lemma takesD: "takes rd bs x \<Longrightarrow> cur_at c (bs @ r) \<Longrightarrow> \<exists>c'. rd c = Some (x, c') \<and> cur_at c' r"
  unfolding takes_def by blast

lemma takes_read: "takes (\<lambda>c. cur_read c (length bs)) bs bs"
  unfolding takes_def
proof (intro allI impI)
  fix c r assume a: "cur_at c (bs @ r)"
  let ?c = "c\<lparr>wc_pos := wc_pos c + length bs\<rparr>"
  have l: "cur_left c = length bs + length r" using cur_at_left [OF a] by simp
  have d: "drop (wc_pos c) (take (wc_len c) (wc_data c)) = bs @ r"
    and b: "wc_pos c \<le> wc_len c" "wc_len c \<le> length (wc_data c)" using a by (auto simp: cur_at_def)
  have "length (bs @ r) = wc_len c - wc_pos c" using b by (simp flip: d)
  then have e: "wc_pos c + length bs \<le> wc_len c" using b by auto
  have "take (length bs) (drop (wc_pos c) (wc_data c)) =
      take (length bs) (drop (wc_pos c) (take (wc_len c) (wc_data c)))"
    using e by (simp add: drop_take min_absorb1)
  also have "\<dots> = bs" by (simp add: d)
  finally have t: "take (length bs) (drop (wc_pos c) (wc_data c)) = bs" .
  have "drop (wc_pos c + length bs) (take (wc_len c) (wc_data c)) =
      drop (length bs) (drop (wc_pos c) (take (wc_len c) (wc_data c)))"
    by (simp add: add.commute)
  also have "\<dots> = r" by (simp add: d)
  finally have "cur_at ?c r" using e b by (simp add: cur_at_def)
  with t l show "\<exists>c'. cur_read c (length bs) = Some (bs, c') \<and> cur_at c' r"
    by (simp add: cur_read_def)
qed

lemma takes_map: "takes rd bs x \<Longrightarrow> takes (\<lambda>c. map_option (\<lambda>(b, c). (f b, c)) (rd c)) bs (f x)"
  unfolding takes_def by fastforce

lemma takes_n: "length bs = n \<Longrightarrow> takes (\<lambda>c. cur_read c n) bs bs"
  using takes_read by blast

lemma takes_u8: "takes cur_u8 [b] b"
  using takes_map [OF takes_n [of "[b]" 1], of "\<lambda>b. b ! 0"] by (simp add: cur_u8_def [abs_def])

lemma takes_u32: "takes cur_u32le (u32_bytes v) v"
  using takes_map [OF takes_n [of "u32_bytes v" 4], of bytes_u32] by (simp add: cur_u32le_def [abs_def])

lemma takes_u64: "takes cur_u64le (u64_loop 8 v) v"
  using takes_map [OF takes_n [of "u64_loop 8 v" 8], of bytes_u64] by (simp add: cur_u64le_def [abs_def])

lemma unat_length: "length (bs::bytes) < 2 ^ 32 \<Longrightarrow> unat (of_nat (length bs) :: u32) = length bs"
  by (simp add: unsigned_of_nat take_bit_nat_eq_self)

lemma enc_counted_short: "length bs < 2 ^ 32 \<Longrightarrow> enc_counted bs = u32_bytes (of_nat (length bs)) @ bs"
  by (simp add: enc_counted_def unat_length)

lemma takes_counted:
  assumes "\<forall>n. mem n" and l: "length bs < 2 ^ 32"
  shows "takes (cur_lstr mem) (enc_counted bs) bs" and "takes (cur_blob mem) (enc_counted bs) bs"
proof -
  let ?n = "of_nat (length bs) :: u32"
  have main: "\<exists>c1. cur_u32le c = Some (?n, c1) \<and> unat ?n \<le> cur_left c1 \<and>
      (\<exists>c2. (if ?n > 0 then cur_read c1 (unat ?n) else Some ([], c1)) = Some (bs, c2) \<and> cur_at c2 r)"
    if a: "cur_at c (enc_counted bs @ r)" for c r
  proof -
    from a have "cur_at c (u32_bytes ?n @ bs @ r)" by (simp add: enc_counted_short [OF l])
    then obtain c1 where c1: "cur_u32le c = Some (?n, c1)" "cur_at c1 (bs @ r)"
      using takesD [OF takes_u32] by blast
    obtain c2 where c2: "cur_read c1 (length bs) = Some (bs, c2)" "cur_at c2 r"
      using takesD [OF takes_read c1(2)] by blast
    have z: "bs = []" if "\<not> ?n > 0"
    proof -
      have "unat ?n = 0" using that by (metis unat_0 word_neq_0_conv)
      then show ?thesis using unat_length [OF l] by simp
    qed
    show ?thesis
      using c1 c2 z unat_length [OF l] cur_at_left [OF c1(2)] by (cases "?n > 0") auto
  qed
  show "takes (cur_lstr mem) (enc_counted bs) bs"
    unfolding takes_def cur_lstr_def using main assms(1) by fastforce
  show "takes (cur_blob mem) (enc_counted bs) bs"
    unfolding takes_def cur_blob_def using main assms(1) by fastforce
qed


text \<open>
  What arrives of a value, a field and a frame: strings without what follows their terminator, and
  the empty string for \<open>NULL\<close>.
\<close>

fun wire_value :: "svalue \<Rightarrow> svalue" where
  "wire_value (SCstr s) = SCstr (Some (str_bytes s))"
| "wire_value v = v"

definition wire_field :: "sfield \<Rightarrow> sfield" where
  "wire_field fld = \<lparr>sf_name = Some (str_bytes (sf_name fld)), sf_value = wire_value (sf_value fld)\<rparr>"

definition wire_frame :: "sframe \<Rightarrow> sframe" where
  "wire_frame f = \<lparr>fr_symbol_key = Some (str_bytes (fr_symbol_key f)), fr_schema_ver = fr_schema_ver f,
                   fr_fields = map wire_field (fr_fields f)\<rparr>"

fun value_fits :: "svalue \<Rightarrow> bool" where
  "value_fits (SCstr s) = (length (str_bytes s) < 2 ^ 32)"
| "value_fits (SBytes bs) = (length bs < 2 ^ 32)"
| "value_fits (SPtr _) = False"
| "value_fits (SOther _) = False"
| "value_fits _ = True"

definition field_fits :: "sfield \<Rightarrow> bool" where
  "field_fits fld \<longleftrightarrow> length (str_bytes (sf_name fld)) < 2 ^ 32 \<and> value_fits (sf_value fld)"

definition frame_fits :: "sframe \<Rightarrow> bool" where
  "frame_fits f \<longleftrightarrow> length (str_bytes (fr_symbol_key f)) < 2 ^ 32 \<and> length (fr_fields f) < 2 ^ 32 \<and>
                  list_all field_fits (fr_fields f)"

lemma fits_writable: "value_fits v \<Longrightarrow> writable v"
  by (cases v) auto

definition yields :: "(wirecursor \<Rightarrow> derr + 'a \<times> wirecursor) \<Rightarrow> bytes \<Rightarrow> 'a \<Rightarrow> bool" where
  "yields rd bs x \<longleftrightarrow> (\<forall>c r. cur_at c (bs @ r) \<longrightarrow> (\<exists>c'. rd c = Inr (x, c') \<and> cur_at c' r))"

lemma yieldsD: "yields rd bs x \<Longrightarrow> cur_at c (bs @ r) \<Longrightarrow> \<exists>c'. rd c = Inr (x, c') \<and> cur_at c' r"
  unfolding yields_def by blast

lemma yields_map: "takes rd bs x \<Longrightarrow> yields (\<lambda>c. or_else e (rd c) (\<lambda>(v, c). Inr (g v, c))) bs (g x)"
  unfolding takes_def yields_def by fastforce

lemma yields_value:
  assumes "\<forall>n. mem n" and "value_fits v"
  shows "yields (read_value mem (ucast (stag v))) (enc_value v) (wire_value v)"
proof (cases v)
  case SNil
  then show ?thesis by (simp add: read_value_def [abs_def] yields_def)
next
  case (SInt64 i)
  with yields_map [OF takes_u64, of EShort SInt64] show ?thesis by (simp add: read_value_def [abs_def])
next
  case (SFloat64 i)
  with yields_map [OF takes_u64, of EShort SFloat64] show ?thesis by (simp add: read_value_def [abs_def])
next
  case (SBool b)
  with yields_map [OF takes_u8, of EShort "\<lambda>v. SBool (v \<noteq> 0)" "if b then 1 else 0"]
  show ?thesis by (cases b) (simp_all add: read_value_def [abs_def])
next
  case (SCstr s)
  with yields_map [OF takes_counted(1) [OF assms(1), of "str_bytes s"], where e = EShort and g = "\<lambda>s. SCstr (Some s)"] assms(2)
  show ?thesis by (simp add: read_value_def [abs_def])
next
  case (SBytes bs)
  with yields_map [OF takes_counted(2) [OF assms(1), of bs], where e = EShort and g = SBytes] assms(2)
  show ?thesis by (simp add: read_value_def [abs_def])
qed (use assms in auto)

lemma yields_fields:
  assumes mem: "\<forall>n. mem n"
  shows "list_all field_fits flds \<Longrightarrow>
    yields (read_fields mem (length flds)) (concat (map enc_field flds)) (map wire_field flds)"
proof (induction flds)
  case Nil
  then show ?case by (simp add: yields_def)
next
  case (Cons fld flds)
  let ?tag = "ucast (stag (sf_value fld)) :: u8" and ?name = "str_bytes (sf_name fld)"
  from Cons have f: "length ?name < 2 ^ 32" "value_fits (sf_value fld)"
    and ih: "yields (read_fields mem (length flds)) (concat (map enc_field flds)) (map wire_field flds)"
    by (simp_all add: field_fits_def)
  show ?case
    unfolding yields_def
  proof (intro allI impI)
    fix c r assume "cur_at c (concat (map enc_field (fld # flds)) @ r)"
    then have c: "cur_at c (enc_counted ?name @ [?tag] @ enc_value (sf_value fld) @
        concat (map enc_field flds) @ r)" by (simp add: enc_field_def [of fld])
    obtain c1 where c1: "cur_lstr mem c = Some (?name, c1)"
        "cur_at c1 ([?tag] @ enc_value (sf_value fld) @ concat (map enc_field flds) @ r)"
      using takesD [OF takes_counted(1) [OF mem f(1)] c] by blast
    obtain c2 where c2: "cur_u8 c1 = Some (?tag, c2)"
        "cur_at c2 (enc_value (sf_value fld) @ concat (map enc_field flds) @ r)"
      using takesD [OF takes_u8 c1(2)] by blast
    obtain c3 where c3: "read_value mem ?tag c2 = Inr (wire_value (sf_value fld), c3)"
        "cur_at c3 (concat (map enc_field flds) @ r)"
      using yieldsD [OF yields_value [OF mem f(2)] c2(2)] by blast
    obtain c4 where c4: "read_fields mem (length flds) c3 = Inr (map wire_field flds, c4)" "cur_at c4 r"
      using yieldsD [OF ih c3(2)] by blast
    show "\<exists>c'. read_fields mem (length (fld # flds)) c = Inr (map wire_field (fld # flds), c') \<and> cur_at c' r"
      using c1(1) c2(1) c3(1) c4 by (simp add: wire_field_def [of fld])
  qed
qed

text \<open>Every field is at least five bytes long, so a count that was written passes the check.\<close>

lemma enc_field_length: "5 \<le> length (enc_field fld)"
  by (simp add: enc_field_def enc_counted_def)

lemma enc_fields_length: "5 * length flds \<le> length (concat (map enc_field flds))"
proof (induction flds)
  case (Cons fld flds)
  then show ?case using enc_field_length [of fld] by simp
qed simp

lemma yields_frame:
  assumes mem: "\<forall>n. mem n" and fits: "frame_fits f"
    and key: "serial_lookup reg (str_bytes (fr_symbol_key f)) = Some rc" and live: "rc (wire_frame f) = Some g"
  shows "yields (read_frame mem reg) (enc_frame f) g"
  unfolding yields_def
proof (intro allI impI)
  let ?key = "str_bytes (fr_symbol_key f)" and ?n = "of_nat (length (fr_fields f)) :: u32"
  let ?flds = "concat (map enc_field (fr_fields f))"
  have l: "length ?key < 2 ^ 32" "length (fr_fields f) < 2 ^ 32" and ff: "list_all field_fits (fr_fields f)"
    using fits by (simp_all add: frame_fits_def)
  have n: "unat ?n = length (fr_fields f)" using l(2) by (simp add: unsigned_of_nat take_bit_nat_eq_self)
  fix c r assume "cur_at c (enc_frame f @ r)"
  then have c: "cur_at c (enc_counted ?key @ u32_bytes (fr_schema_ver f) @ u32_bytes ?n @ ?flds @ r)"
    by (simp add: enc_frame_def)
  obtain c1 where c1: "cur_lstr mem c = Some (?key, c1)"
      "cur_at c1 (u32_bytes (fr_schema_ver f) @ u32_bytes ?n @ ?flds @ r)"
    using takesD [OF takes_counted(1) [OF mem l(1)] c] by blast
  obtain c2 where c2: "cur_u32le c1 = Some (fr_schema_ver f, c2)" "cur_at c2 (u32_bytes ?n @ ?flds @ r)"
    using takesD [OF takes_u32 c1(2)] by blast
  obtain c3 where c3: "cur_u32le c2 = Some (?n, c3)" "cur_at c3 (?flds @ r)"
    using takesD [OF takes_u32 c2(2)] by blast
  have "length (fr_fields f) \<le> cur_left c3 div 5"
    using enc_fields_length [of "fr_fields f"] cur_at_left [OF c3(2)] by simp
  moreover obtain wf where "serial_frame_alloc mem (length (fr_fields f)) = Some wf"
    using mem by (simp add: serial_frame_alloc_def)
  moreover obtain c4 where "read_fields mem (length (fr_fields f)) c3 = Inr (map wire_field (fr_fields f), c4)"
      "cur_at c4 r"
    using yieldsD [OF yields_fields [OF mem ff] c3(2)] by blast
  moreover have "wf\<lparr>fr_symbol_key := Some ?key, fr_schema_ver := fr_schema_ver f,
      fr_fields := map wire_field (fr_fields f)\<rparr> = wire_frame f" for wf :: sframe
    by (simp add: wire_frame_def)
  ultimately show "\<exists>c'. read_frame mem reg c = Inr (g, c') \<and> cur_at c' r"
    using c1(1) c2(1) c3(1) key live n by (simp add: read_frame_def)
qed

lemma yields_frames:
  assumes mem: "\<forall>n. mem n"
    and ok: "\<And>f. f \<in> set fs \<Longrightarrow> frame_fits f \<and>
        (\<exists>rc. serial_lookup reg (str_bytes (fr_symbol_key f)) = Some rc \<and> rc (wire_frame f) = Some (live f))"
    and "cur_at c (concat (map enc_frame fs) @ r)"
  shows "read_frames mem reg (length fs) c chain = Inr (chain @ map live fs)"
  using ok assms(3)
proof (induction fs arbitrary: c chain)
  case Nil
  then show ?case by simp
next
  case (Cons f fs)
  have c: "cur_at c (enc_frame f @ concat (map enc_frame fs) @ r)" using Cons.prems(2) by simp
  from Cons.prems(1) [of f] obtain rc where "frame_fits f"
      "serial_lookup reg (str_bytes (fr_symbol_key f)) = Some rc" "rc (wire_frame f) = Some (live f)" by auto
  then obtain c' where "read_frame mem reg c = Inr (live f, c')" "cur_at c' (concat (map enc_frame fs) @ r)"
    using yieldsD [OF yields_frame [OF mem] c] by blast
  then show ?case using Cons.IH [of c' "chain @ [live f]"] Cons.prems(1) by simp
qed


section \<open>Chains of frames\<close>

text \<open>The frames from a pointer up to \<open>NULL\<close>.\<close>

fun frame_chain :: "(nat \<Rightarrow> hframe) \<Rightarrow> nat option \<Rightarrow> nat list \<Rightarrow> bool" where
  "frame_chain h p [] = (p = None)"
| "frame_chain h p (a # as) = (p = Some a \<and> frame_chain h (hf_parent (h a)) as)"

lemma frame_chain_fun: "frame_chain h p as \<Longrightarrow> frame_chain h p bs \<Longrightarrow> as = bs"
proof (induction as arbitrary: p bs)
  case Nil
  then show ?case by (cases bs) auto
next
  case (Cons a as)
  then show ?case by (cases bs) auto
qed

lemma frame_chain_suffix: "frame_chain h p (as @ a # bs) \<Longrightarrow> frame_chain h (Some a) (a # bs)"
  by (induction as arbitrary: p) auto

lemma frame_chain_distinct: "frame_chain h p as \<Longrightarrow> distinct as"
proof (induction as arbitrary: p)
  case Nil
  then show ?case by simp
next
  case (Cons a as)
  have "a \<notin> set as"
  proof
    assume "a \<in> set as"
    then obtain xs ys where as: "as = xs @ a # ys" by (auto simp: in_set_conv_decomp)
    have "frame_chain h (Some a) (a # ys)" using Cons.prems as frame_chain_suffix [of h p "a # xs" a ys] by simp
    moreover have "frame_chain h (Some a) (a # as)" using Cons.prems by simp
    ultimately have "a # as = a # ys" by (rule frame_chain_fun [rotated])
    with as show False by simp
  qed
  with Cons show ?case by auto
qed

lemma count_chain: "frame_chain h p as \<Longrightarrow> count_frames h p n = Some (n + of_nat (length as))"
proof (induction as arbitrary: p n)
  case Nil
  then show ?case by (simp add: count_frames.simps)
next
  case (Cons a as)
  then show ?case by (simp add: count_frames.simps [of h "Some a"] add.assoc)
qed

lemma count_ends:
  assumes "count_frames h p n = Some m"
  shows "\<exists>as. frame_chain h p as"
proof (rule count_frames.raw_induct [OF _ assms, of "\<lambda>h p n m. \<exists>as. frame_chain h p as"])
  fix count h p n m
  assume ih: "\<And>h p n m. count h p n = Some m \<Longrightarrow> \<exists>as. frame_chain h p as"
    and step: "(case p of None \<Rightarrow> Some n | Some a \<Rightarrow> count h (hf_parent (h a)) (n + 1)) = Some m"
  show "\<exists>as. frame_chain h p as"
  proof (cases p)
    case None
    then show ?thesis by (intro exI [of _ "[]"]) simp
  next
    case (Some a)
    with step ih obtain as where "frame_chain h (hf_parent (h a)) as" by fastforce
    with Some show ?thesis by (intro exI [of _ "a # as"]) simp
  qed
qed

lemma write_ends: "frame_chain h p as \<Longrightarrow> \<exists>r. write_frames mem h p seen wb = Some r"
proof (induction as arbitrary: p seen wb)
  case Nil
  then show ?case by (simp add: write_frames.simps)
next
  case (Cons a as)
  then show ?case by (auto simp: write_frames.simps [of mem h "Some a"] split: sum.split)
qed

lemma seen_step:
  assumes "a \<notin> set (ps_ptrs seen)"
  shows "\<not> fst (serial_ptrset_contains mem a seen)"
    and "set (ps_ptrs (snd (serial_ptrset_contains mem a seen))) \<subseteq> insert a (set (ps_ptrs seen))"
  using assms by (auto simp: serial_ptrset_contains_def)

lemma write_chain:
  assumes mem: "\<forall>n. mem n"
  shows "frame_chain h p as \<Longrightarrow> distinct as \<Longrightarrow> set as \<inter> set (ps_ptrs seen) = {} \<Longrightarrow>
    (\<And>a. a \<in> set as \<Longrightarrow> frame_fits (hf_frame (h a))) \<Longrightarrow>
    \<exists>wb'. write_frames mem h p seen wb = Some (Inr wb') \<and>
          wb_data wb' = wb_data wb @ concat (map (\<lambda>a. enc_frame (hf_frame (h a))) as)"
proof (induction as arbitrary: p seen wb)
  case Nil
  then show ?case by (simp add: write_frames.simps)
next
  case (Cons a as)
  let ?seen = "snd (serial_ptrset_contains mem a seen)"
  have new: "a \<notin> set (ps_ptrs seen)" using Cons.prems by auto
  have dis: "set as \<inter> set (ps_ptrs ?seen) = {}"
    using seen_step(2) [OF new, of mem] Cons.prems(2,3) by auto
  have p: "p = Some a" and c: "frame_chain h (hf_parent (h a)) as" using Cons.prems(1) by simp_all
  have "frame_fits (hf_frame (h a))" by (rule Cons.prems(4)) simp
  then have "\<And>fld. fld \<in> set (fr_fields (hf_frame (h a))) \<Longrightarrow> writable (sf_value fld)"
    by (auto simp: frame_fits_def list_all_iff field_fits_def fits_writable)
  from appends_frame [OF mem this] obtain wb1
    where 1: "write_frame mem (hf_frame (h a)) wb = Inr wb1"
      "wb_data wb1 = wb_data wb @ enc_frame (hf_frame (h a))"
    unfolding appends_def by blast
  obtain wb2 where 2: "write_frames mem h (hf_parent (h a)) ?seen wb1 = Some (Inr wb2)"
      "wb_data wb2 = wb_data wb1 @ concat (map (\<lambda>a. enc_frame (hf_frame (h a))) as)"
    using Cons.IH [OF c _ dis] Cons.prems(2,4) by fastforce
  show ?case
    unfolding p write_frames.simps [of mem h "Some a"]
    using seen_step(1) [OF new, of mem] 1 2 by simp
qed

lemma magic_eq: "SERIAL_WIRE_MAGIC \<noteq> []" "length SERIAL_WIRE_MAGIC = 4"
  by (simp_all add: SERIAL_WIRE_MAGIC_def)

lemma appends_head:
  "\<forall>n. mem n \<Longrightarrow> appends (\<lambda>wb. wthen (wire_put mem SERIAL_WIRE_MAGIC wb)
     (\<lambda>wb. wthen (wire_u16le mem SERIAL_WIRE_VERSION wb) (wire_u32le mem n))) (enc_head n)"
  unfolding enc_head_def wire_u16le_def u16_version
  by (intro appends_then appends_put appends_u32)

text \<open>The bytes of a whole chain.\<close>

definition enc_chain :: "sframe list \<Rightarrow> bytes" where
  "enc_chain fs = enc_head (of_nat (length fs)) @ concat (map enc_frame fs)"

definition enc_blob :: "sframe list \<Rightarrow> bytes" where
  "enc_blob fs = enc_chain fs @ u32_bytes (serial_crc32 0 (enc_chain fs))"

lemma to_bytes_blob:
  assumes "\<forall>n. mem n" and "tur_trail_level tr = 0" and "frame_chain h p as"
    and "\<forall>a\<in>set as. frame_fits (hf_frame (h a))"
  shows "serial_cont_to_bytes mem tr h p = Some (Inr (enc_blob (map (\<lambda>a. hf_frame (h a)) as)))"
proof -
  let ?fs = "map (\<lambda>a. hf_frame (h a)) as" and ?n = "of_nat (length as) :: u32"
  have n: "count_frames h p 0 = Some ?n" using count_chain [OF assms(3), of 0] by simp
  obtain seen where seen: "serial_ptrset_alloc mem = Some seen" "ps_ptrs seen = []"
    using assms(1) by (simp add: serial_ptrset_alloc_def)
  obtain wb where wb: "wthen (wire_put mem SERIAL_WIRE_MAGIC \<lparr>wb_data = [], wb_cap = 0\<rparr>)
      (\<lambda>wb. wthen (wire_u16le mem SERIAL_WIRE_VERSION wb) (wire_u32le mem ?n)) = Inr wb"
      "wb_data wb = enc_head ?n"
    using appends_head [OF assms(1), of ?n] unfolding appends_def by (metis append_Nil wirebuf.select_convs(1))
  obtain wb' where wb': "write_frames mem h p seen wb = Some (Inr wb')"
      "wb_data wb' = wb_data wb @ concat (map (\<lambda>a. enc_frame (hf_frame (h a))) as)"
    using write_chain [OF assms(1,3) frame_chain_distinct [OF assms(3)], of seen wb] seen(2) assms(4) by auto
  have d: "wb_data wb' = enc_chain ?fs" using wb' wb by (simp add: enc_chain_def comp_def)
  obtain wb'' where "wire_u32le mem (serial_crc32 0 (wb_data wb')) wb' = Inr wb''"
      "wb_data wb'' = wb_data wb' @ u32_bytes (serial_crc32 0 (wb_data wb'))"
    using appends_u32 [OF assms(1)] unfolding appends_def by blast
  with n seen(1) wb(1) wb'(1) d assms(2) show ?thesis by (simp add: serial_cont_to_bytes_def enc_blob_def)
qed

lemma from_bytes_blob:
  assumes mem: "\<forall>n. mem n" and len: "length fs < 2 ^ 32"
    and ok: "\<And>f. f \<in> set fs \<Longrightarrow> frame_fits f \<and>
        (\<exists>rc. serial_lookup reg (str_bytes (fr_symbol_key f)) = Some rc \<and> rc (wire_frame f) = Some (live f))"
  shows "serial_cont_from_bytes mem reg (enc_blob fs) = Inr (map live fs)"
proof -
  let ?n = "of_nat (length fs) :: u32" and ?body = "concat (map enc_frame fs)"
  let ?d = "enc_blob fs"
  let ?c = "\<lparr>wc_data = ?d, wc_len = length ?d - 4, wc_pos = 0\<rparr>"
  have l: "length ?d = length (enc_chain fs) + 4" by (simp add: enc_blob_def)
  have cl: "length (enc_chain fs) = 10 + length ?body" by (simp add: enc_chain_def enc_head_def magic_eq)
  have t: "take (length ?d - 4) ?d = enc_chain fs" "drop (length ?d - 4) ?d = u32_bytes (serial_crc32 0 (enc_chain fs))"
    using l by (simp_all add: enc_blob_def)
  have c: "cur_at ?c (SERIAL_WIRE_MAGIC @ [1, 0] @ u32_bytes ?n @ ?body @ [])"
    using l t(1) by (simp add: cur_at_def enc_chain_def enc_head_def)
  obtain c1 where c1: "cur_read ?c 4 = Some (SERIAL_WIRE_MAGIC, c1)" "cur_at c1 ([1, 0] @ u32_bytes ?n @ ?body @ [])"
    using takesD [OF takes_n [OF magic_eq(2)] c] by blast
  have v: "or (ucast ([1, 0::u8] ! 0)) (push_bit 8 (ucast ([1, 0::u8] ! 1))) = SERIAL_WIRE_VERSION"
    by (simp add: SERIAL_WIRE_VERSION_def)
  have "takes cur_u16le [1, 0] SERIAL_WIRE_VERSION"
    using takes_map [OF takes_n [of "[1, 0::u8]" 2], of "\<lambda>b. or (ucast (b ! 0)) (push_bit 8 (ucast (b ! 1)))"] v
    by (simp add: cur_u16le_def [abs_def])
  from takesD [OF this c1(2)] obtain c2
    where c2: "cur_u16le c1 = Some (SERIAL_WIRE_VERSION, c2)" "cur_at c2 (u32_bytes ?n @ ?body @ [])" by blast
  obtain c3 where c3: "cur_u32le c2 = Some (?n, c3)" "cur_at c3 (?body @ [])"
    using takesD [OF takes_u32 c2(2)] by blast
  have n: "unat ?n = length fs" using len by (simp add: unsigned_of_nat take_bit_nat_eq_self)
  have "read_frames mem reg (length fs) c3 [] = Inr (map live fs)"
    using yields_frames [OF mem ok c3(2)] by simp
  with c1(1) c2(1) c3(1) n l cl t show ?thesis by (simp add: serial_cont_from_bytes_def)
qed

text \<open>The writer ends exactly on the chains that reach \<open>NULL\<close>.\<close>

lemma to_bytes_ends:
  "tur_trail_level tr = 0 \<Longrightarrow>
   serial_cont_to_bytes mem tr h p = None \<longleftrightarrow> \<not> (\<exists>as. frame_chain h p as)"
proof
  assume l: "tur_trail_level tr = 0" and none: "serial_cont_to_bytes mem tr h p = None"
  show "\<not> (\<exists>as. frame_chain h p as)"
  proof
    assume "\<exists>as. frame_chain h p as"
    then obtain as where as: "frame_chain h p as" by blast
    have "\<exists>r. write_frames mem h p seen wb = Some r" for seen wb by (rule write_ends [OF as])
    then show False
      using none l count_chain [OF as, of 0]
      by (auto simp: serial_cont_to_bytes_def split: option.splits sum.splits) (metis option.distinct(1))+
  qed
next
  assume l: "tur_trail_level tr = 0" and no: "\<not> (\<exists>as. frame_chain h p as)"
  then have "count_frames h p 0 = None" using count_ends [of h p 0] by (cases "count_frames h p 0") auto
  with l show "serial_cont_to_bytes mem tr h p = None" by (simp add: serial_cont_to_bytes_def)
qed


section \<open>The checksum\<close>

text \<open>Whoever passes the check leaves the register, run over the whole blob, in one fixed state.\<close>

definition crc_ok :: "bytes \<Rightarrow> bool" where
  "crc_ok data \<longleftrightarrow> bytes_u32 (drop (length data - 4) data) = serial_crc32 0 (take (length data - 4) data)"

lemma xor_ones: "xor a b = not (0::u32) \<longleftrightarrow> b = not a"
  by (auto simp: bit_eq_iff bit_simps)

lemma crc_ok_residue:
  assumes "4 \<le> length data"
  shows "crc_ok data \<longleftrightarrow> crc_run (not 0) data = (crc_bit ^^ 32) (not 0)"
proof -
  let ?b = "take (length data - 4) data" and ?s = "drop (length data - 4) data"
  have l: "length ?s = 4" using assms by simp
  have "crc_run (not 0) data = crc_run (crc_run (not 0) ?b) ?s"
    by (metis append_take_drop_id crc_run_simps(3))
  also have "\<dots> = (crc_bit ^^ 32) (xor (crc_run (not 0) ?b) (bytes_u32 ?s))"
    using l by (simp add: crc_run_short bytes_u32_le_word)
  finally have "crc_run (not 0) data = (crc_bit ^^ 32) (not 0) \<longleftrightarrow>
      xor (crc_run (not 0) ?b) (bytes_u32 ?s) = not 0"
    by (simp only: crc_bits_inj)
  also have "\<dots> \<longleftrightarrow> bytes_u32 ?s = not (crc_run (not 0) ?b)"
    by (rule xor_ones)
  finally show ?thesis by (simp add: crc_ok_def serial_crc32_run)
qed

lemma crc_ok_burst:
  assumes "4 \<le> length (pre @ w @ post)" and "length w' = length w" and "length w \<le> 4"
    and "crc_ok (pre @ w @ post)" and "crc_ok (pre @ w' @ post)"
  shows "w' = w"
proof -
  let ?c = "crc_run (not 0) pre"
  have "crc_run (not 0) (pre @ w @ post) = crc_run (not 0) (pre @ w' @ post)"
    using assms crc_ok_residue [of "pre @ w @ post"] crc_ok_residue [of "pre @ w' @ post"] by simp
  then have "crc_run ?c w = crc_run ?c w'" by (simp add: crc_run_inj)
  then show ?thesis using assms(2,3) crc_run_burst [of w w' ?c] by simp
qed

lemma from_bytes_bad_crc:
  "14 \<le> length data \<Longrightarrow> \<not> crc_ok data \<Longrightarrow> serial_cont_from_bytes mem reg data = Inl ECrc"
  by (simp add: serial_cont_from_bytes_def crc_ok_def)

section \<open>What reading needs\<close>

lemma cur_read_keeps:
  "cur_read c n = Some (b, c') \<Longrightarrow> wc_len c' = wc_len c \<and> cur_left c = cur_left c' + n"
  by (auto simp: cur_read_def cur_left_def split: if_splits)

lemma cur_u8_keeps: "cur_u8 c = Some (v, c') \<Longrightarrow> wc_len c' = wc_len c \<and> cur_left c = cur_left c' + 1"
  unfolding cur_u8_def using cur_read_keeps [of c 1] by auto

lemma cur_u16le_keeps: "cur_u16le c = Some (v, c') \<Longrightarrow> wc_len c' = wc_len c \<and> cur_left c = cur_left c' + 2"
  unfolding cur_u16le_def using cur_read_keeps [of c 2] by auto

lemma cur_u32le_keeps: "cur_u32le c = Some (v, c') \<Longrightarrow> wc_len c' = wc_len c \<and> cur_left c = cur_left c' + 4"
  unfolding cur_u32le_def using cur_read_keeps [of c 4] by auto

lemma cur_u64le_keeps: "cur_u64le c = Some (v, c') \<Longrightarrow> wc_len c' = wc_len c \<and> cur_left c = cur_left c' + 8"
  unfolding cur_u64le_def using cur_read_keeps [of c 8] by auto

lemma cur_lstr_keeps: "cur_lstr mem c = Some (v, c') \<Longrightarrow> wc_len c' = wc_len c \<and> cur_left c \<ge> cur_left c' + 4"
  unfolding cur_lstr_def
  by (auto split: option.splits if_splits dest!: cur_u32le_keeps cur_read_keeps)

lemma cur_blob_keeps: "cur_blob mem c = Some (v, c') \<Longrightarrow> wc_len c' = wc_len c \<and> cur_left c \<ge> cur_left c' + 4"
  unfolding cur_blob_def
  by (auto split: option.splits if_splits dest!: cur_u32le_keeps cur_read_keeps)

lemma or_else_Inr: "or_else e x f = Inr y \<longleftrightarrow> (\<exists>z. x = Some z \<and> f z = Inr y)"
  by (cases x) auto

lemma case_Inr: "(case r of Inl e \<Rightarrow> Inl e | Inr x \<Rightarrow> f x) = Inr y \<longleftrightarrow> (\<exists>x. r = Inr x \<and> f x = Inr y)"
  by (cases r) auto

lemma read_value_keeps: "read_value mem t c = Inr (v, c') \<Longrightarrow> wc_len c' = wc_len c \<and> cur_left c' \<le> cur_left c"
  unfolding read_value_def
  by (auto simp: or_else_Inr split: if_splits
      dest!: cur_u64le_keeps cur_u8_keeps cur_lstr_keeps cur_blob_keeps)

lemma read_fields_keeps: "read_fields mem n c = Inr (v, c') \<Longrightarrow> wc_len c' = wc_len c \<and> cur_left c' \<le> cur_left c"
proof (induction n arbitrary: c v)
  case 0
  then show ?case by simp
next
  case (Suc n)
  then show ?case
    by (fastforce simp: or_else_Inr case_Inr dest: cur_lstr_keeps cur_u8_keeps read_value_keeps)
qed

lemma read_frame_keeps:
  "read_frame mem reg c = Inr (g, c') \<Longrightarrow> wc_len c' = wc_len c \<and> cur_left c' + 12 \<le> cur_left c"
  unfolding read_frame_def
  by (auto simp: or_else_Inr case_Inr split: if_splits
      dest!: cur_lstr_keeps cur_u32le_keeps read_fields_keeps)

lemma read_frames_length:
  "read_frames mem reg n c chain = Inr fs \<Longrightarrow> 12 * length fs \<le> 12 * length chain + cur_left c"
proof (induction n arbitrary: c chain)
  case 0
  then show ?case by simp
next
  case (Suc n)
  then show ?case by (fastforce split: sum.splits dest: read_frame_keeps)
qed

text \<open>\<open>L\<close> is the length of the whole input; every request stays below seven times that.\<close>

definition granted :: "(nat \<Rightarrow> bool) \<Rightarrow> nat \<Rightarrow> wirecursor \<Rightarrow> bool" where
  "granted mem L c \<longleftrightarrow> 14 \<le> L \<and> wc_len c + 4 \<le> L \<and> (\<forall>n\<le>7 * L. mem n)"

abbreviation "all_mem \<equiv> \<lambda>n::nat. True"

lemma cur_left_len: "cur_left c \<le> wc_len c"
  by (simp add: cur_left_def)

lemma granted_keeps: "granted mem L c \<Longrightarrow> wc_len c' = wc_len c \<Longrightarrow> granted mem L c'"
  by (simp add: granted_def)

lemma granted_length:
  "granted mem L c \<Longrightarrow> cur_u32le c = Some (v, c') \<Longrightarrow> n \<le> cur_left c' \<Longrightarrow> mem n \<and> mem (Suc n)"
  using cur_left_len [of c] by (auto simp: granted_def dest!: cur_u32le_keeps)

lemma granted_lstr: "granted mem L c \<Longrightarrow> cur_lstr mem c = cur_lstr all_mem c"
  unfolding cur_lstr_def using granted_length [of mem L c] by (auto split: option.split)

lemma granted_blob: "granted mem L c \<Longrightarrow> cur_blob mem c = cur_blob all_mem c"
  unfolding cur_blob_def using granted_length [of mem L c] by (auto split: option.split)

lemma granted_value: "granted mem L c \<Longrightarrow> read_value mem t c = read_value all_mem t c"
  unfolding read_value_def by (simp add: granted_lstr granted_blob)

lemma or_else_cong: "(\<And>y. x = Some y \<Longrightarrow> f y = g y) \<Longrightarrow> or_else e x f = or_else e x g"
  by (cases x) auto

lemma granted_fields: "granted mem L c \<Longrightarrow> read_fields mem n c = read_fields all_mem n c"
proof (induction n arbitrary: c)
  case 0
  then show ?case by simp
next
  case (Suc n)
  have "or_else EShort (cur_lstr all_mem c) (\<lambda>(name, c). or_else EShort (cur_u8 c) (\<lambda>(tag, c).
       case read_value mem tag c of Inl e \<Rightarrow> Inl e
       | Inr (v, c) \<Rightarrow> (case read_fields mem n c of Inl e \<Rightarrow> Inl e
           | Inr (flds, c) \<Rightarrow> Inr (\<lparr>sf_name = Some name, sf_value = v\<rparr> # flds, c)))) =
      read_fields all_mem (Suc n) c"
    unfolding read_fields.simps
  proof (rule or_else_cong, clarify, rule or_else_cong, clarify)
    fix name c1 tag c2
    assume c: "cur_lstr all_mem c = Some (name, c1)" "cur_u8 c1 = Some (tag, c2)"
    then have g: "granted mem L c2"
      using Suc.prems by (auto dest!: cur_lstr_keeps cur_u8_keeps intro: granted_keeps)
    have k: "read_value all_mem tag c2 = Inr (v, c3) \<Longrightarrow> read_fields mem n c3 = read_fields all_mem n c3" for v c3
      by (rule Suc.IH) (auto dest!: read_value_keeps intro: granted_keeps [OF g])
    show "(case read_value mem tag c2 of Inl e \<Rightarrow> Inl e
       | Inr (v, c) \<Rightarrow> (case read_fields mem n c of Inl e \<Rightarrow> Inl e
           | Inr (flds, c) \<Rightarrow> Inr (\<lparr>sf_name = Some name, sf_value = v\<rparr> # flds, c))) =
      (case read_value all_mem tag c2 of Inl e \<Rightarrow> Inl e
       | Inr (v, c) \<Rightarrow> (case read_fields all_mem n c of Inl e \<Rightarrow> Inl e
           | Inr (flds, c) \<Rightarrow> Inr (\<lparr>sf_name = Some name, sf_value = v\<rparr> # flds, c)))"
      unfolding granted_value [OF g] using k by (auto split: sum.split)
  qed
  then show ?case by (simp add: granted_lstr [OF Suc.prems])
qed

lemma granted_alloc:
  "granted mem L c \<Longrightarrow> n \<le> cur_left c div 5 \<Longrightarrow> serial_frame_alloc mem n = serial_frame_alloc all_mem n"
  using cur_left_len [of c] by (auto simp: serial_frame_alloc_def granted_def)

lemma granted_frame: "granted mem L c \<Longrightarrow> read_frame mem reg c = read_frame all_mem reg c"
  unfolding read_frame_def granted_lstr
proof (rule or_else_cong, clarify, rule or_else_cong, clarify, rule or_else_cong, rule or_else_cong, clarify)
  fix key c1 ver c2 rc n c3
  assume g0: "granted mem L c" and c: "cur_lstr all_mem c = Some (key, c1)"
    "cur_u32le c1 = Some (ver, c2)" "cur_u32le c2 = Some (n, c3)"
  have g: "granted mem L c3"
    using c by (auto dest!: cur_lstr_keeps cur_u32le_keeps intro: granted_keeps [OF g0])
  show "(if unat n > cur_left c3 div 5 then Inl EShort
     else or_else EOom (serial_frame_alloc mem (unat n)) (\<lambda>wf.
       (case read_fields mem (unat n) c3 of Inl e \<Rightarrow> Inl e
        | Inr (flds, c) \<Rightarrow> or_else ESchema (rc (wf\<lparr>fr_symbol_key := Some key, fr_schema_ver := ver,
                               fr_fields := flds\<rparr>)) (\<lambda>live. Inr (live, c))))) =
    (if unat n > cur_left c3 div 5 then Inl EShort
     else or_else EOom (serial_frame_alloc all_mem (unat n)) (\<lambda>wf.
       (case read_fields all_mem (unat n) c3 of Inl e \<Rightarrow> Inl e
        | Inr (flds, c) \<Rightarrow> or_else ESchema (rc (wf\<lparr>fr_symbol_key := Some key, fr_schema_ver := ver,
                               fr_fields := flds\<rparr>)) (\<lambda>live. Inr (live, c)))))"
    using granted_alloc [OF g, of "unat n"] granted_fields [OF g, of "unat n"] by simp
qed

lemma granted_frames: "granted mem L c \<Longrightarrow> read_frames mem reg n c chain = read_frames all_mem reg n c chain"
proof (induction n arbitrary: c chain)
  case 0
  then show ?case by simp
next
  case (Suc n)
  have "read_frames mem reg n c' ch = read_frames all_mem reg n c' ch"
    if "read_frame all_mem reg c = Inr (g, c')" for g c' ch
    using that by (intro Suc.IH) (auto dest!: read_frame_keeps intro: granted_keeps [OF Suc.prems])
  then show ?case by (auto simp: granted_frame [OF Suc.prems] split: sum.split)
qed

lemma from_bytes_memory:
  assumes "\<forall>n\<le>7 * length data. mem n"
  shows "serial_cont_from_bytes mem reg data = serial_cont_from_bytes all_mem reg data"
proof (cases "14 \<le> length data")
  case True
  let ?c = "\<lparr>wc_data = data, wc_len = length data - 4, wc_pos = 0\<rparr>"
  have g: "granted mem (length data) ?c" using True assms by (simp add: granted_def)
  have "read_frames mem reg n c3 [] = read_frames all_mem reg n c3 []"
    if "cur_read ?c 4 = Some (magic, c1)" "cur_u16le c1 = Some (ver, c2)" "cur_u32le c2 = Some (k, c3)"
    for magic c1 ver c2 k c3 n
    using that by (intro granted_frames [of mem "length data"])
      (auto dest!: cur_read_keeps cur_u16le_keeps cur_u32le_keeps intro: granted_keeps [OF g])
  then show ?thesis
    unfolding serial_cont_from_bytes_def
    by (intro if_cong refl or_else_cong) (auto intro!: or_else_cong)
next
  case False
  then show ?thesis by (simp add: serial_cont_from_bytes_def)
qed

lemma from_bytes_length:
  assumes "serial_cont_from_bytes mem reg data = Inr fs"
  shows "14 + 12 * length fs \<le> length data"
proof -
  let ?c = "\<lparr>wc_data = data, wc_len = length data - 4, wc_pos = 0\<rparr>"
  from assms obtain magic c1 ver c2 n c3 where l: "14 \<le> length data"
    and c: "cur_read ?c 4 = Some (magic, c1)" "cur_u16le c1 = Some (ver, c2)" "cur_u32le c2 = Some (n, c3)"
    and r: "read_frames mem reg (unat n) c3 [] = Inr fs"
    unfolding serial_cont_from_bytes_def by (auto simp: or_else_Inr split: if_splits)
  have "cur_left ?c = length data - 4" by (simp add: cur_left_def)
  with l c read_frames_length [OF r] show ?thesis
    by (auto dest!: cur_read_keeps cur_u16le_keeps cur_u32le_keeps)
qed

end
