(* ===== verification/SerialProps.thy ===== *)
theory SerialProps
  imports SerialSound RtTrailUse
begin

text \<open>The properties of serialized continuations.\<close>

section \<open>The registry\<close>

text \<open>The first registration of a key wins, and a full registry changes nothing.\<close>

lemma serial_lookup_append:
  "serial_lookup (reg @ [e]) key =
     (if \<exists>e\<in>set reg. cut_nul (re_symbol_key e) = cut_nul key then serial_lookup reg key
      else if cut_nul (re_symbol_key e) = cut_nul key then re_reconstruct e else None)"
  by (induction reg) auto

lemma serial_lookup_register:
  "length reg < SERIAL_REGISTRY_MAX \<Longrightarrow>
   serial_lookup (snd (serial_register key sz fn reg)) k =
     (if \<exists>e\<in>set reg. cut_nul (re_symbol_key e) = cut_nul k then serial_lookup reg k
      else if cut_nul key = cut_nul k then fn else None)"
  by (simp add: serial_register_def serial_lookup_append)

lemma serial_register_full:
  "length reg \<ge> SERIAL_REGISTRY_MAX \<Longrightarrow> serial_register key sz fn reg = (False, reg)"
  by (simp add: serial_register_def)


section \<open>Properties\<close>

text \<open>
  C24: outside every trail scope a chain of frames whose values can be written, with lengths below
  \<open>2 ^ 32\<close>, is serialized, and reading the blob gives the frames the registered functions
  reconstruct, in the order of the chain: names and keys cut at their terminator, \<open>NULL\<close> strings as
  empty ones, everything else as it was.
\<close>

theorem cont_round_trip:
  assumes "\<forall>n. mem n" and "\<forall>n. mem' n" and "tur_trail_level tr = 0"
    and "frame_chain h head as" and "length as < 2 ^ 32"
    and frames: "\<forall>a\<in>set as. frame_fits (hf_frame (h a)) \<and>
        (\<exists>rc. serial_lookup reg (str_bytes (fr_symbol_key (hf_frame (h a)))) = Some rc \<and>
              rc (wire_frame (hf_frame (h a))) = Some (live a))"
  shows "\<exists>data. serial_cont_to_bytes mem tr h head = Some (Inr data) \<and>
                serial_cont_from_bytes mem' reg data = Inr (map live as)"
proof -
  let ?fs = "map (\<lambda>a. hf_frame (h a)) as"
  let ?live = "\<lambda>f. the (the (serial_lookup reg (str_bytes (fr_symbol_key f))) (wire_frame f))"
  have l: "map ?live ?fs = map live as" using frames by auto
  have "serial_cont_from_bytes mem' reg (enc_blob ?fs) = Inr (map ?live ?fs)"
    using frames assms(5) by (intro from_bytes_blob [OF assms(2)]) auto
  moreover have "serial_cont_to_bytes mem tr h head = Some (Inr (enc_blob ?fs))"
    using frames by (intro to_bytes_blob [OF assms(1,3,4)]) auto
  ultimately show ?thesis using l by simp
qed

text \<open>Two frames, with a field of each kind that can be written.\<close>

definition two_frames :: "nat \<Rightarrow> hframe" where
  "two_frames a = (if a = 0
     then \<lparr>hf_frame = \<lparr>fr_symbol_key = Some [102, 48, 0], fr_schema_ver = 7,
             fr_fields = [\<lparr>sf_name = Some [120, 0], sf_value = SInt64 (- 2)\<rparr>, \<lparr>sf_name = None, sf_value = SBool True\<rparr>,
                          \<lparr>sf_name = Some [121], sf_value = SCstr (Some [104, 105, 0, 9])\<rparr>]\<rparr>, hf_parent = Some 1\<rparr>
     else \<lparr>hf_frame = \<lparr>fr_symbol_key = Some [102, 48, 0], fr_schema_ver = 7,
             fr_fields = [\<lparr>sf_name = Some [122], sf_value = SBytes [1, 0, 2]\<rparr>, \<lparr>sf_name = Some [], sf_value = SNil\<rparr>]\<rparr>,
           hf_parent = None\<rparr>)"

definition keep_registry :: "regentry list" where
  "keep_registry = [\<lparr>re_symbol_key = [102, 48], re_frame_size = 16, re_reconstruct = Some Some\<rparr>]"

theorem cont_round_trip_witness:
  "\<exists>data. serial_cont_to_bytes (\<lambda>_. True) rt_empty two_frames (Some 0) = Some (Inr data) \<and>
          serial_cont_from_bytes (\<lambda>_. True) keep_registry data =
            Inr [\<lparr>fr_symbol_key = Some [102, 48], fr_schema_ver = 7,
                  fr_fields = [\<lparr>sf_name = Some [120], sf_value = SInt64 (- 2)\<rparr>, \<lparr>sf_name = Some [], sf_value = SBool True\<rparr>,
                    \<lparr>sf_name = Some [121], sf_value = SCstr (Some [104, 105])\<rparr>]\<rparr>,
                 \<lparr>fr_symbol_key = Some [102, 48], fr_schema_ver = 7,
                  fr_fields = [\<lparr>sf_name = Some [122], sf_value = SBytes [1, 0, 2]\<rparr>, \<lparr>sf_name = Some [], sf_value = SNil\<rparr>]\<rparr>]"
  using cont_round_trip [of "\<lambda>_. True" "\<lambda>_. True" rt_empty two_frames "Some 0" "[0, 1]" keep_registry
      "\<lambda>a. wire_frame (hf_frame (two_frames a))"]
  by (simp add: two_frames_def keep_registry_def tur_trail_level_def rt_empty_def frame_fits_def field_fits_def
      str_bytes_def cut_nul_def wire_frame_def wire_field_def)

text \<open>
  C18: if a blob passes the checksum, then no blob that differs from it only within four neighbouring
  bytes does, wherever they are, the checksum itself included: it is refused as corrupt.
\<close>

theorem burst_rejected:
  assumes "14 \<le> length (pre @ w @ post)" and "serial_cont_from_bytes mem reg (pre @ w @ post) \<noteq> Inl ECrc"
    and "length w' = length w" and "length w \<le> 4" and "w' \<noteq> w"
  shows "serial_cont_from_bytes mem' reg' (pre @ w' @ post) = Inl ECrc"
proof -
  have "crc_ok (pre @ w @ post)" using assms(1,2) from_bytes_bad_crc by blast
  then have "\<not> crc_ok (pre @ w' @ post)" using crc_ok_burst [of pre w post w'] assms by auto
  then show ?thesis using assms(1,3) by (intro from_bytes_bad_crc) simp_all
qed

theorem burst_rejected_witness:
  "serial_cont_from_bytes (\<lambda>_. True) [] ([0x54, 0x54] @ drop 2 (enc_blob [])) = Inl ECrc"
proof -
  have e: "enc_blob [] = [0x54] @ [0x53] @ drop 2 (enc_blob [])" and l: "length (enc_blob []) = 14"
    by (simp_all add: enc_blob_def enc_chain_def enc_head_def SERIAL_WIRE_MAGIC_def)
  have "serial_cont_from_bytes (\<lambda>_. True) [] (enc_blob []) = Inr []"
    using from_bytes_blob [of "\<lambda>_. True" "[]" "[]"] by simp
  then show ?thesis
    using burst_rejected [of "[0x54]" "[0x53]" "drop 2 (enc_blob [])" "\<lambda>_. True" "[]" "[0x54]" "\<lambda>_. True" "[]"] e l
    by simp
qed

text \<open>
  With requests of up to seven times the length of the input granted, the result of reading it is the
  one with unlimited memory, whatever lengths and counts the input claims; and every frame that is
  delivered was paid for with at least twelve bytes.
\<close>

theorem decode_bounded:
  assumes "\<forall>n\<le>7 * length data. mem n"
  shows "serial_cont_from_bytes mem reg data = serial_cont_from_bytes (\<lambda>_. True) reg data \<and>
         (case serial_cont_from_bytes mem reg data of Inl e \<Rightarrow> True | Inr fs \<Rightarrow> 14 + 12 * length fs \<le> length data)"
  using from_bytes_memory [OF assms] from_bytes_length [of mem reg data] by (auto split: sum.split)

theorem decode_bounded_witness:
  "serial_cont_from_bytes (\<lambda>n. n \<le> 98) [] (enc_blob []) = Inr []"
  using decode_bounded [of "enc_blob []" "\<lambda>n. n \<le> 98" "[]"] from_bytes_blob [of "\<lambda>_. True" "[]" "[]"]
  by (simp add: enc_blob_def enc_chain_def enc_head_def SERIAL_WIRE_MAGIC_def)

text \<open>
  C35: outside a trail scope the writer fails to return exactly on the chains that never reach
  \<open>NULL\<close>. The count of the frames walks the whole chain before the guard against circular references
  is first asked, so a circular chain is not refused.
\<close>

theorem serialize_ends:
  "serial_cont_to_bytes mem tr h head = None \<longleftrightarrow>
   tur_trail_level tr = 0 \<and> \<not> (\<exists>as. frame_chain h head as)"
proof (cases "tur_trail_level tr = 0")
  case False
  then show ?thesis by (simp add: serial_cont_to_bytes_def)
qed (simp add: to_bytes_ends)

text \<open>A frame that is its own parent.\<close>

lemma circular_hangs:
  "serial_cont_to_bytes mem rt_empty (\<lambda>a. \<lparr>hf_frame = f, hf_parent = Some a\<rparr>) (Some 0) = None"
proof -
  have "\<not> frame_chain (\<lambda>a. \<lparr>hf_frame = f, hf_parent = Some a\<rparr>) (Some 0) as" for as
    by (induction as) auto
  moreover have "tur_trail_level rt_empty = 0" by (simp add: tur_trail_level_def rt_empty_def)
  ultimately show ?thesis by (simp add: to_bytes_ends)
qed

text \<open>
  C22: the checksum driven by the table is the one of the bit-wise shift register with the reflected
  polynomial, and it may be computed piece by piece.
\<close>

theorem crc_table_register:
  "serial_crc32 crc (a @ b) = serial_crc32 (serial_crc32 crc a) b \<and>
   serial_crc32 crc a = not (foldl (\<lambda>c b. (crc_bit ^^ 8) (xor c (ucast b))) (not crc) a)"
  using serial_crc32_append serial_crc32_run [of crc a] by (simp add: crc_run_def crc_shift_def [abs_def])

end
