(* ===== verification/CpsPrompt.thy ===== *)
theory CpsPrompt
  imports Prelude "HOL-Library.Multiset"
begin

text \<open>
  Delimited control (\<open>src/runtime/cps_prompt.c\<close>, \<open>cps_prompt.h\<close>): continuations as chains of nodes,
  prompts and effect handlers as markers in them, shift and perform by copying a slice of the chain.
  A chain is the list of its nodes up to \<open>NULL\<close>; the machine never changes a node that is reachable
  from elsewhere. The functions the nodes point to are compiled from the program: a program assigns
  to each pointer the calls it makes on the machine. References held by the environments of frames
  are counted in a multiset.
\<close>

section \<open>Nodes\<close>

datatype dkkind =
    DKK_DONE
  | DKK_FRAME
  | DKK_PROMPT
  | DKK_SHIFT
  | DKK_SHIFT0
  | DKK_HANDLER
  | DKK_RESUME_FRAME

text \<open>Function pointers are numbers; the hooks of an environment may be \<open>NULL\<close>.\<close>

record dk =
  dk_kind :: dkkind
  dk_fn :: nat
  dk_env :: int
  dk_tag :: int
  dk_body :: nat
  dk_body_env :: int
  dk_handler_fn :: nat
  dk_handler_env :: int
  dk_is_shallow :: bool
  dk_rfn :: nat
  dk_env_clone :: "nat option"
  dk_env_drop :: "nat option"

definition DK_ROOT_TAG :: int where "DK_ROOT_TAG = 0"

definition dk_new :: "dkkind \<Rightarrow> dk" where
  "dk_new kind = \<lparr>dk_kind = kind, dk_fn = 0, dk_env = 0, dk_tag = 0, dk_body = 0, dk_body_env = 0,
     dk_handler_fn = 0, dk_handler_env = 0, dk_is_shallow = False, dk_rfn = 0,
     dk_env_clone = None, dk_env_drop = None\<rparr>"

definition dk_done :: "dk list" where
  "dk_done = [dk_new DKK_DONE]"

definition dk_frame :: "nat \<Rightarrow> int \<Rightarrow> dk list \<Rightarrow> dk list" where
  "dk_frame fn env next = (dk_new DKK_FRAME)\<lparr>dk_fn := fn, dk_env := env\<rparr> # next"

definition dk_frame_owning :: "nat \<Rightarrow> int \<Rightarrow> nat option \<Rightarrow> nat option \<Rightarrow> dk list \<Rightarrow> dk list" where
  "dk_frame_owning fn env cl dr next =
     (dk_new DKK_FRAME)\<lparr>dk_fn := fn, dk_env := env, dk_env_clone := cl, dk_env_drop := dr\<rparr> # next"

definition dk_frame_resume :: "nat \<Rightarrow> int \<Rightarrow> dk list \<Rightarrow> dk list" where
  "dk_frame_resume fn env next = (dk_new DKK_RESUME_FRAME)\<lparr>dk_rfn := fn, dk_env := env\<rparr> # next"

definition dk_prompt :: "int \<Rightarrow> dk list \<Rightarrow> dk list" where
  "dk_prompt tag next = (dk_new DKK_PROMPT)\<lparr>dk_tag := tag\<rparr> # next"

definition dk_shift_impl :: "dkkind \<Rightarrow> int \<Rightarrow> nat \<Rightarrow> int \<Rightarrow> dk list \<Rightarrow> dk list" where
  "dk_shift_impl kind tag body env next =
     (dk_new kind)\<lparr>dk_tag := tag, dk_body := body, dk_body_env := env\<rparr> # next"

definition dk_shift :: "int \<Rightarrow> nat \<Rightarrow> int \<Rightarrow> dk list \<Rightarrow> dk list" where
  "dk_shift = dk_shift_impl DKK_SHIFT"

definition dk_shift0 :: "int \<Rightarrow> nat \<Rightarrow> int \<Rightarrow> dk list \<Rightarrow> dk list" where
  "dk_shift0 = dk_shift_impl DKK_SHIFT0"

definition dk_handler_impl :: "int \<Rightarrow> nat \<Rightarrow> int \<Rightarrow> bool \<Rightarrow> dk list \<Rightarrow> dk list" where
  "dk_handler_impl tag fn env shallow next =
     (dk_new DKK_HANDLER)\<lparr>dk_tag := tag, dk_handler_fn := fn, dk_handler_env := env,
        dk_is_shallow := shallow\<rparr> # next"

definition dk_handler :: "int \<Rightarrow> nat \<Rightarrow> int \<Rightarrow> dk list \<Rightarrow> dk list" where
  "dk_handler tag fn env = dk_handler_impl tag fn env False"

definition dk_handler_shallow :: "int \<Rightarrow> nat \<Rightarrow> int \<Rightarrow> dk list \<Rightarrow> dk list" where
  "dk_handler_shallow tag fn env = dk_handler_impl tag fn env True"

fun dk_has_prompt :: "dk list \<Rightarrow> bool" where
  "dk_has_prompt [] = False"
| "dk_has_prompt (p # k) = (if dk_kind p = DKK_PROMPT then True else dk_has_prompt k)"

fun dk_has_handler :: "dk list \<Rightarrow> int \<Rightarrow> bool" where
  "dk_has_handler [] tag = False"
| "dk_has_handler (p # k) tag =
     (if dk_kind p = DKK_HANDLER \<and> dk_tag p = tag then True else dk_has_handler k tag)"


section \<open>References held by environments\<close>

text \<open>
  The live references, each with the hook that releases it, and whether every reference that was
  used, cloned or released so far was live.
\<close>

record owns =
  ow_live :: "(nat \<times> int) multiset"
  ow_ok :: bool

definition ow_use :: "dk \<Rightarrow> owns \<Rightarrow> owns" where
  "ow_use n s = (case dk_env_drop n of None \<Rightarrow> s
     | Some d \<Rightarrow> s\<lparr>ow_ok := (ow_ok s \<and> (d, dk_env n) \<in># ow_live s)\<rparr>)"

definition ow_add :: "dk \<Rightarrow> owns \<Rightarrow> owns" where
  "ow_add n s = (case dk_env_drop n of None \<Rightarrow> s
     | Some d \<Rightarrow> s\<lparr>ow_live := ow_live s + {#(d, dk_env n)#}\<rparr>)"

text \<open>\<open>cl c\<close> is what the clone hook \<open>c\<close> returns.\<close>

definition dk_copy_node :: "(nat \<Rightarrow> int \<Rightarrow> int) \<Rightarrow> dk \<Rightarrow> owns \<Rightarrow> dk \<times> owns" where
  "dk_copy_node cl n s =
     (case dk_env_clone n of None \<Rightarrow> (n, s)
      | Some c \<Rightarrow> (let n' = n\<lparr>dk_env := cl c (dk_env n)\<rparr> in (n', ow_add n' (ow_use n s))))"

fun dk_copy :: "(nat \<Rightarrow> int \<Rightarrow> int) \<Rightarrow> dk list \<Rightarrow> owns \<Rightarrow> dk list \<times> owns" where
  "dk_copy cl [] s = ([], s)"
| "dk_copy cl (p # k) s =
     (let (c, s) = dk_copy_node cl p s; (cs, s) = dk_copy cl k s in (c # cs, s))"

text \<open>Only the handlers before the end of the chain, and a fresh end.\<close>

fun dk_copy_enclosing_handlers :: "(nat \<Rightarrow> int \<Rightarrow> int) \<Rightarrow> dk list \<Rightarrow> owns \<Rightarrow> dk list \<times> owns" where
  "dk_copy_enclosing_handlers cl [] s = (dk_done, s)"
| "dk_copy_enclosing_handlers cl (p # k) s =
     (if dk_kind p = DKK_DONE then (dk_done, s)
      else if dk_kind p \<noteq> DKK_HANDLER then dk_copy_enclosing_handlers cl k s
      else let (c, s) = dk_copy_node cl p s; (cs, s) = dk_copy_enclosing_handlers cl k s
        in (c # cs, s))"

definition dk_append :: "dk list \<Rightarrow> dk list \<Rightarrow> dk list" where
  "dk_append a b = a @ b"

definition dk_free_node :: "dk \<Rightarrow> owns \<Rightarrow> owns" where
  "dk_free_node n s = (case dk_env_drop n of None \<Rightarrow> s
     | Some d \<Rightarrow> s\<lparr>ow_ok := (ow_ok s \<and> (d, dk_env n) \<in># ow_live s),
                  ow_live := ow_live s - {#(d, dk_env n)#}\<rparr>)"

fun dk_free :: "dk list \<Rightarrow> owns \<Rightarrow> owns" where
  "dk_free [] s = s"
| "dk_free (n # k) s = dk_free k (dk_free_node n s)"


section \<open>Programs\<close>

text \<open>
  What the function of a node may do with the machine: return; resume the chain it was handed; put
  frames of its own in front of that chain and perform an effect there or deliver a value to it; run a
  chain of its own. The frames it makes it frees when the call has returned.
\<close>

datatype cmd =
    CReturn int
  | CInvoke int "int \<Rightarrow> cmd"
  | CPerform int int "dk list" "int \<Rightarrow> cmd"
  | CDeliver int "dk list" "int \<Rightarrow> cmd"
  | CRun int "dk list" "int \<Rightarrow> cmd"

record dkprog =
  frame_code :: "nat \<Rightarrow> int \<Rightarrow> int \<Rightarrow> cmd"
  resume_code :: "nat \<Rightarrow> int \<Rightarrow> int \<Rightarrow> dk list \<Rightarrow> cmd"
  body_code :: "nat \<Rightarrow> int \<Rightarrow> dk list \<Rightarrow> cmd"
  handler_code :: "nat \<Rightarrow> int \<Rightarrow> int \<Rightarrow> dk list \<Rightarrow> cmd"
  clone_code :: "nat \<Rightarrow> int \<Rightarrow> int"

datatype dkres = RVal int | RAbort


section \<open>The machine\<close>

text \<open>Where the searches for a prompt and for a handler stop.\<close>

definition stops_shift :: "int \<Rightarrow> dk \<Rightarrow> bool" where
  "stops_shift tag p \<longleftrightarrow> dk_kind p = DKK_PROMPT \<and> dk_tag p = tag \<or> dk_kind p = DKK_DONE"

definition stops_perform :: "int \<Rightarrow> dk \<Rightarrow> bool" where
  "stops_perform tag p \<longleftrightarrow> dk_kind p = DKK_HANDLER \<and> dk_tag p = tag \<or> dk_kind p = DKK_DONE"

definition at_root :: "dk list \<Rightarrow> bool" where
  "at_root P \<longleftrightarrow> P = [] \<or> dk_kind (hd P) = DKK_DONE"

text \<open>The captured chain of a shift whose search stopped at \<open>P\<close>, after the nodes \<open>mid\<close>.\<close>

definition shift_sub :: "(nat \<Rightarrow> int \<Rightarrow> int) \<Rightarrow> dk \<Rightarrow> dk list \<Rightarrow> dk list \<Rightarrow> owns \<Rightarrow> dk list \<times> owns" where
  "shift_sub cl n mid P s =
     (let (sub, s) = dk_copy cl mid s;
          tail = (if dk_kind n = DKK_SHIFT
                  then dk_prompt (if at_root P then DK_ROOT_TAG else dk_tag n) dk_done
                  else dk_done)
      in (dk_append sub tail, s))"

text \<open>The captured chain of a perform that found the handler \<open>H\<close> with \<open>rest\<close> behind it.\<close>

definition perform_sub :: "(nat \<Rightarrow> int \<Rightarrow> int) \<Rightarrow> int \<Rightarrow> dk list \<Rightarrow> dk \<Rightarrow> dk list \<Rightarrow> owns \<Rightarrow> dk list \<times> owns" where
  "perform_sub cl tag mid H rest s =
     (let (sub, s) = dk_copy cl mid s;
          (tail, s) = (if dk_is_shallow H then dk_copy_enclosing_handlers cl rest s
                       else (dk_handler tag (dk_handler_fn H) (dk_handler_env H) dk_done, s))
      in (dk_append sub tail, s))"

text \<open>What follows the value of a call; an abort ends the program.\<close>

fun after_call :: "(dkres \<times> owns) option \<Rightarrow> (int \<Rightarrow> owns \<Rightarrow> (dkres \<times> owns) option) \<Rightarrow> (dkres \<times> owns) option" where
  "after_call None f = None"
| "after_call (Some (RVal v, s)) f = f v s"
| "after_call (Some (RAbort, s)) f = Some (RAbort, s)"

text \<open>The first argument is fuel: None is a computation that has not ended with it.\<close>

function dk_run_impl :: "nat \<Rightarrow> dkprog \<Rightarrow> dk list \<Rightarrow> int \<Rightarrow> bool \<Rightarrow> owns \<Rightarrow> (dkres \<times> owns) option"
  and dk_invoke :: "nat \<Rightarrow> dkprog \<Rightarrow> dk list \<Rightarrow> int \<Rightarrow> owns \<Rightarrow> (dkres \<times> owns) option"
  and dk_perform :: "nat \<Rightarrow> dkprog \<Rightarrow> int \<Rightarrow> int \<Rightarrow> dk list \<Rightarrow> owns \<Rightarrow> (dkres \<times> owns) option"
  and callback :: "nat \<Rightarrow> dkprog \<Rightarrow> cmd \<Rightarrow> dk list \<Rightarrow> owns \<Rightarrow> (dkres \<times> owns) option" where
  "dk_run_impl 0 pr k v rt s = None"
| "dk_run_impl (Suc m) pr ks v rt s =
     (case ks of [] \<Rightarrow> Some (RVal v, s)
      | n # k \<Rightarrow>
     (case dk_kind n of
        DKK_DONE \<Rightarrow> Some (RVal v, s)
      | DKK_PROMPT \<Rightarrow> dk_run_impl m pr k v rt s
      | DKK_HANDLER \<Rightarrow> dk_run_impl m pr k v rt s
      | DKK_FRAME \<Rightarrow>
          after_call (callback m pr (frame_code pr (dk_fn n) (dk_env n) v) [] (ow_use n s))
            (\<lambda>v s. dk_run_impl m pr k v rt s)
      | DKK_RESUME_FRAME \<Rightarrow>
          callback m pr (resume_code pr (dk_rfn n) (dk_env n) v k) k (ow_use n s)
      | _ \<Rightarrow>
          (let mid = takeWhile (\<lambda>p. \<not> stops_shift (dk_tag n) p) k;
               P = dropWhile (\<lambda>p. \<not> stops_shift (dk_tag n) p) k;
               (sub, s) = shift_sub (clone_code pr) n mid P s
           in after_call (callback m pr (body_code pr (dk_body n) (dk_body_env n) sub) sub s)
                (\<lambda>bodyval s. if at_root P then Some (RVal bodyval, dk_free sub s)
                   else dk_run_impl m pr (tl P) bodyval rt (dk_free sub s)))))"
| "dk_invoke 0 pr sub w s = None"
| "dk_invoke (Suc m) pr sub w s =
     (let (c, s) = dk_copy (clone_code pr) sub s
      in after_call (dk_run_impl m pr c w False s) (\<lambda>r s. Some (RVal r, dk_free c s)))"
| "dk_perform 0 pr tag arg k s = None"
| "dk_perform (Suc m) pr tag arg k s =
     (let mid = takeWhile (\<lambda>p. \<not> stops_perform tag p) k;
          H = dropWhile (\<lambda>p. \<not> stops_perform tag p) k
      in if at_root H then Some (RAbort, s)
         else let (sub, s) = perform_sub (clone_code pr) tag mid (hd H) (tl H) s
           in after_call
                (callback m pr (handler_code pr (dk_handler_fn (hd H)) (dk_handler_env (hd H)) arg sub) sub s)
                (\<lambda>r s. dk_run_impl m pr (tl H) r False (dk_free sub s)))"
| "callback 0 pr cc ch s = None"
| "callback (Suc m) pr cc ch s =
     (case cc of
        CReturn v \<Rightarrow> Some (RVal v, s)
      | CInvoke w c \<Rightarrow> after_call (dk_invoke m pr ch w s) (\<lambda>r s. callback m pr (c r) ch s)
      | CPerform tag arg ns c \<Rightarrow>
          after_call (dk_perform m pr tag arg (ns @ ch) (fold ow_add ns s))
            (\<lambda>r s. callback m pr (c r) ch (dk_free ns s))
      | CDeliver v ns c \<Rightarrow>
          after_call (dk_run_impl m pr (ns @ ch) v False (fold ow_add ns s))
            (\<lambda>r s. callback m pr (c r) ch (dk_free ns s))
      | CRun v ns c \<Rightarrow>
          after_call (dk_run_impl m pr ns v False (fold ow_add ns s))
            (\<lambda>r s. callback m pr (c r) ch (dk_free ns s)))"
  by pat_completeness auto
termination
  by (relation "measure (\<lambda>x. case x of Inl (Inl a) \<Rightarrow> fst a | Inl (Inr a) \<Rightarrow> fst a
        | Inr (Inl a) \<Rightarrow> fst a | Inr (Inr a) \<Rightarrow> fst a)") auto

definition dk_run :: "nat \<Rightarrow> dkprog \<Rightarrow> dk list \<Rightarrow> int \<Rightarrow> owns \<Rightarrow> (dkres \<times> owns) option" where
  "dk_run m pr k v s = dk_run_impl m pr k v False s"

definition dk_run_root :: "nat \<Rightarrow> dkprog \<Rightarrow> dk list \<Rightarrow> int \<Rightarrow> owns \<Rightarrow> (dkres \<times> owns) option" where
  "dk_run_root m pr k v s = dk_run_impl m pr k v True s"

end
