(* ===== verification/CpsPromptSound.thy ===== *)
theory CpsPromptSound
  imports CpsPrompt
begin

text \<open>
  Facts about the delimited-control machine: more fuel changes nothing; the references of frames are
  balanced; values do not depend on them; a captured context computes what the context computes where
  it stands; and what a resumed computation finds of the handlers.
\<close>

declare dk_run_impl.simps(2) [simp del] dk_invoke.simps(2) [simp del]
  dk_perform.simps(2) [simp del] callback.simps(2) [simp del]

section \<open>One call after another\<close>

text \<open>What a call and its continuation have in common, whatever relation is followed.\<close>

definition fuel_le :: "'a option \<Rightarrow> 'a option \<Rightarrow> bool" where
  "fuel_le x y \<longleftrightarrow> x = None \<or> x = y"

lemma fuel_le_refl [simp]: "fuel_le x x" and fuel_le_None [simp]: "fuel_le None x"
  by (simp_all add: fuel_le_def)

lemma after_call_cases:
  obtains "x = None" | v s where "x = Some (RVal v, s)" | s where "x = Some (RAbort, s)"
proof (cases x)
  case (Some p)
  then show ?thesis using that by (cases p; cases "fst p") auto
qed (use that in blast)

lemma fuel_le_after:
  "fuel_le x y \<Longrightarrow> (\<And>v s. fuel_le (f v s) (g v s)) \<Longrightarrow> fuel_le (after_call x f) (after_call y g)"
proof (cases x rule: after_call_cases)
  case (2 v s)
  assume "fuel_le x y" and f: "\<And>v s. fuel_le (f v s) (g v s)"
  with 2 have "y = Some (RVal v, s)" by (simp add: fuel_le_def)
  with 2 f [of v s] show ?thesis by simp
qed (auto simp: fuel_le_def)

lemma after_call_RVal:
  "after_call x f = Some (RVal r, s') \<longleftrightarrow> (\<exists>v s. x = Some (RVal v, s) \<and> f v s = Some (RVal r, s'))"
  by (cases x rule: after_call_cases) auto


section \<open>Fuel\<close>

definition fuels_le :: "dkprog \<Rightarrow> nat \<Rightarrow> nat \<Rightarrow> bool" where
  "fuels_le pr m n \<longleftrightarrow>
     (\<forall>k v rt s. fuel_le (dk_run_impl m pr k v rt s) (dk_run_impl n pr k v rt s)) \<and>
     (\<forall>k v s. fuel_le (dk_invoke m pr k v s) (dk_invoke n pr k v s)) \<and>
     (\<forall>tag v k s. fuel_le (dk_perform m pr tag v k s) (dk_perform n pr tag v k s)) \<and>
     (\<forall>cc k s. fuel_le (callback m pr cc k s) (callback n pr cc k s))"

lemma fuels_le_Suc:
  assumes "fuels_le pr m n"
  shows "fuels_le pr (Suc m) (Suc n)"
proof -
  from assms have ih: "fuel_le (dk_run_impl m pr k v rt s) (dk_run_impl n pr k v rt s)"
      "fuel_le (dk_invoke m pr k v s) (dk_invoke n pr k v s)"
      "fuel_le (dk_perform m pr tag v k s) (dk_perform n pr tag v k s)"
      "fuel_le (callback m pr cc k s) (callback n pr cc k s)" for k v rt s tag cc
    by (simp_all add: fuels_le_def)
  note le = fuel_le_after ih
  have "fuel_le (dk_run_impl (Suc m) pr k v rt s) (dk_run_impl (Suc n) pr k v rt s)" for k v rt s
    unfolding dk_run_impl.simps(2)
    by (auto simp: Let_def intro!: le split: list.split dkkind.split prod.split)
  moreover have "fuel_le (dk_invoke (Suc m) pr k v s) (dk_invoke (Suc n) pr k v s)" for k v s
    unfolding dk_invoke.simps(2) by (auto intro!: le split: prod.split)
  moreover have "fuel_le (dk_perform (Suc m) pr tag v k s) (dk_perform (Suc n) pr tag v k s)" for tag k v s
    unfolding dk_perform.simps(2) by (auto simp: Let_def intro!: le split: prod.split)
  moreover have "fuel_le (callback (Suc m) pr cc k s) (callback (Suc n) pr cc k s)" for cc k s
    unfolding callback.simps(2) by (auto intro!: le split: cmd.split)
  ultimately show ?thesis by (simp add: fuels_le_def)
qed

lemma fuel_step_all: "fuels_le pr m (Suc m)"
  by (induction m) (simp add: fuels_le_def, rule fuels_le_Suc)

lemma fuel_step:
  "fuel_le (dk_run_impl m pr k v rt s) (dk_run_impl (Suc m) pr k v rt s)"
  "fuel_le (dk_invoke m pr k v s) (dk_invoke (Suc m) pr k v s)"
  "fuel_le (dk_perform m pr tag v k s) (dk_perform (Suc m) pr tag v k s)"
  "fuel_le (callback m pr cc k s) (callback (Suc m) pr cc k s)"
  using fuel_step_all [of pr m] by (simp_all add: fuels_le_def)

lemma fuel_mono:
  assumes step: "\<And>m. fuel_le (f m) (f (Suc m))" and "f m = Some x" and "m \<le> n"
  shows "f n = Some x"
  using assms(3,2)
proof (induction n rule: dec_induct)
  case (step n)
  then show ?case using assms(1) [of n] by (auto simp: fuel_le_def)
qed

lemmas run_mono = fuel_mono [of "\<lambda>m. dk_run_impl m pr k v rt s" for pr k v rt s, OF fuel_step(1)]
lemmas invoke_mono = fuel_mono [of "\<lambda>m. dk_invoke m pr k v s" for pr k v s, OF fuel_step(2)]
lemmas perform_mono = fuel_mono [of "\<lambda>m. dk_perform m pr tag v k s" for pr tag v k s, OF fuel_step(3)]
lemmas callback_mono = fuel_mono [of "\<lambda>m. callback m pr cc k s" for pr cc k s, OF fuel_step(4)]

text \<open>The root flag is never looked at.\<close>

lemma root_unused: "dk_run_impl m pr k v rt s = dk_run_impl m pr k v rt' s"
proof (induction m arbitrary: k v s)
  case (Suc m)
  show ?case unfolding dk_run_impl.simps(2) [of m] Suc.IH ..
qed simp


section \<open>References are balanced\<close>

text \<open>A clone hook comes with a hook that releases what it returns, and the other way round.\<close>

definition paired :: "dk \<Rightarrow> bool" where
  "paired n \<longleftrightarrow> (dk_env_clone n = None \<longleftrightarrow> dk_env_drop n = None)"

fun owned :: "dk list \<Rightarrow> (nat \<times> int) multiset" where
  "owned [] = {#}"
| "owned (n # k) = (case dk_env_drop n of None \<Rightarrow> owned k | Some d \<Rightarrow> add_mset (d, dk_env n) (owned k))"

definition ow_plus :: "(nat \<times> int) multiset \<Rightarrow> owns \<Rightarrow> owns" where
  "ow_plus M s = s\<lparr>ow_live := ow_live s + M\<rparr>"

text \<open>A chain whose references are live.\<close>

definition sound_chain :: "dk list \<Rightarrow> owns \<Rightarrow> bool" where
  "sound_chain k s \<longleftrightarrow> ow_ok s \<and> owned k \<subseteq># ow_live s \<and> list_all paired k"

primrec cmd_ok :: "cmd \<Rightarrow> bool" where
  "cmd_ok (CReturn v) = True"
| "cmd_ok (CInvoke w c) = (\<forall>r. cmd_ok (c r))"
| "cmd_ok (CPerform tag arg ns c) = (list_all paired ns \<and> (\<forall>r. cmd_ok (c r)))"
| "cmd_ok (CDeliver v ns c) = (list_all paired ns \<and> (\<forall>r. cmd_ok (c r)))"
| "cmd_ok (CRun v ns c) = (list_all paired ns \<and> (\<forall>r. cmd_ok (c r)))"

definition prog_ok :: "dkprog \<Rightarrow> bool" where
  "prog_ok pr \<longleftrightarrow> (\<forall>f e v. cmd_ok (frame_code pr f e v)) \<and> (\<forall>f e v k. cmd_ok (resume_code pr f e v k)) \<and>
                 (\<forall>f e k. cmd_ok (body_code pr f e k)) \<and> (\<forall>f e a k. cmd_ok (handler_code pr f e a k))"

lemma owned_append [simp]: "owned (a @ b) = owned a + owned b"
  by (induction a) (auto split: option.split)

lemma ow_plus_simps [simp]:
  "ow_live (ow_plus M s) = ow_live s + M" "ow_ok (ow_plus M s) = ow_ok s"
  "ow_plus {#} s = s" "ow_plus N (ow_plus M s) = ow_plus (M + N) s"
  by (simp_all add: ow_plus_def ac_simps)

lemma sound_chain_append: "sound_chain (a @ b) s \<Longrightarrow> sound_chain a s" "sound_chain (a @ b) s \<Longrightarrow> sound_chain b s"
  by (auto simp: sound_chain_def intro: subset_mset.order_trans [rotated])

lemma sound_chain_plus: "sound_chain k s \<Longrightarrow> sound_chain k (ow_plus M s)"
  by (auto simp: sound_chain_def intro: subset_mset.trans)

lemma sound_chain_tail: "sound_chain (n # k) s \<Longrightarrow> sound_chain k s"
  using sound_chain_append(2) [of "[n]" k s] by simp

lemma ow_use_id: "sound_chain (n # k) s \<Longrightarrow> ow_use n s = s"
  by (auto simp: sound_chain_def ow_use_def split: option.splits dest: mset_subset_eqD)

lemma copy_node_sound:
  assumes "sound_chain (n # k) s" and "dk_copy_node cl n s = (c, s')"
  shows "s' = ow_plus (owned [c]) s \<and> paired c"
proof (cases "dk_env_drop n")
  case None
  then have "dk_env_clone n = None" using assms(1) by (simp add: sound_chain_def paired_def)
  with None assms show ?thesis by (auto simp: dk_copy_node_def sound_chain_def)
next
  case (Some d)
  then obtain cl' where "dk_env_clone n = Some cl'" using assms(1) by (auto simp: sound_chain_def paired_def)
  with Some assms ow_use_id [OF assms(1)] show ?thesis
    by (auto simp: dk_copy_node_def ow_add_def ow_plus_def paired_def Let_def)
qed

lemma copy_sound:
  "sound_chain k s \<Longrightarrow> dk_copy cl k s = (c, s') \<Longrightarrow> s' = ow_plus (owned c) s \<and> list_all paired c"
proof (induction k arbitrary: s c s')
  case Nil
  then show ?case by simp
next
  case (Cons n k)
  obtain c1 s1 cs where c1: "dk_copy_node cl n s = (c1, s1)" and cs: "dk_copy cl k s1 = (cs, s')" and c: "c = c1 # cs"
    using Cons.prems(2) by (auto split: prod.splits)
  have 1: "s1 = ow_plus (owned [c1]) s" "paired c1" using copy_node_sound [OF Cons.prems(1) c1] by auto
  have "sound_chain k s1" unfolding 1(1) by (rule sound_chain_plus [OF sound_chain_tail [OF Cons.prems(1)]])
  from Cons.IH [OF this cs] 1 c show ?case by (auto simp: ac_simps split: option.split)
qed

lemma copy_handlers_sound:
  "sound_chain k s \<Longrightarrow> dk_copy_enclosing_handlers cl k s = (c, s') \<Longrightarrow>
   s' = ow_plus (owned c) s \<and> list_all paired c"
proof (induction k arbitrary: s c s')
  case Nil
  then show ?case by (auto simp: dk_done_def dk_new_def paired_def)
next
  case (Cons n k)
  have t: "sound_chain k s" by (rule sound_chain_tail [OF Cons.prems(1)])
  show ?case
  proof (cases "dk_kind n = DKK_HANDLER")
    case True
    then obtain c1 s1 cs where c1: "dk_copy_node cl n s = (c1, s1)"
        and cs: "dk_copy_enclosing_handlers cl k s1 = (cs, s')" and c: "c = c1 # cs"
      using Cons.prems(2) by (auto split: prod.splits)
    have 1: "s1 = ow_plus (owned [c1]) s" "paired c1" using copy_node_sound [OF Cons.prems(1) c1] by auto
    have "sound_chain k s1" unfolding 1(1) by (rule sound_chain_plus [OF t])
    from Cons.IH [OF this cs] 1 c show ?thesis by (auto simp: ac_simps split: option.split)
  next
    case False
    then show ?thesis
      using Cons.prems(2) Cons.IH [OF t]
      by (auto simp: dk_done_def dk_new_def paired_def split: if_splits)
  qed
qed

lemma free_sound: "ow_ok s \<Longrightarrow> dk_free c (ow_plus (owned c) s) = s"
proof (induction c arbitrary: s)
  case Nil
  then show ?case by simp
next
  case (Cons n c)
  have "dk_free_node n (ow_plus (owned (n # c)) s) = ow_plus (owned c) s"
    using Cons.prems by (auto simp: dk_free_node_def ow_plus_def split: option.split)
  with Cons show ?case by simp
qed

lemma add_sound: "fold ow_add ns s = ow_plus (owned ns) s"
  by (induction ns arbitrary: s) (auto simp: ow_add_def ow_plus_def ac_simps split: option.split)

text \<open>The outcome of a computation that gives back every reference it took.\<close>

definition keeps :: "(dkres \<times> owns) option \<Rightarrow> owns \<Rightarrow> bool" where
  "keeps x s \<longleftrightarrow> (\<forall>r s'. x = Some (r, s') \<longrightarrow> ow_ok s' \<and> (\<forall>v. r = RVal v \<longrightarrow> s' = s))"

lemma keeps_None [simp]: "keeps None s" and keeps_RVal [simp]: "keeps (Some (RVal v, s)) s \<longleftrightarrow> ow_ok s"
  and keeps_RAbort [simp]: "keeps (Some (RAbort, t)) s \<longleftrightarrow> ow_ok t"
  by (auto simp: keeps_def)

lemma keeps_after: "keeps x s1 \<Longrightarrow> (\<And>v. keeps (f v s1) s) \<Longrightarrow> keeps (after_call x f) s"
  by (cases x rule: after_call_cases) (auto simp: keeps_def)

lemma sound_chain_ok: "sound_chain k s \<Longrightarrow> ow_ok s"
  by (simp add: sound_chain_def)

lemma sound_takeWhile: "sound_chain k s \<Longrightarrow> sound_chain (takeWhile P k) s"
  and sound_dropWhile: "sound_chain k s \<Longrightarrow> sound_chain (dropWhile P k) s"
  using sound_chain_append [of "takeWhile P k" "dropWhile P k" s] by simp_all

lemma sound_tl: "sound_chain k s \<Longrightarrow> sound_chain (tl k) s"
  by (cases k) (auto dest: sound_chain_tail)

lemma shift_sub_sound:
  assumes "sound_chain mid s" and "shift_sub cl n mid P s = (sub, s')"
  shows "s' = ow_plus (owned sub) s \<and> sound_chain sub s'"
proof -
  obtain c where c: "dk_copy cl mid s = (c, s')" and sub: "sub = c @ (if dk_kind n = DKK_SHIFT
      then dk_prompt (if at_root P then DK_ROOT_TAG else dk_tag n) dk_done else dk_done)"
    using assms(2) by (auto simp: shift_sub_def dk_append_def split: prod.splits)
  from copy_sound [OF assms(1) c] sub sound_chain_ok [OF assms(1)] show ?thesis
    by (auto simp: dk_prompt_def dk_done_def dk_new_def paired_def sound_chain_def)
qed

lemma perform_sub_sound:
  assumes m: "sound_chain mid s" and r: "sound_chain rest s" and "perform_sub cl tag mid H rest s = (sub, s')"
  shows "s' = ow_plus (owned sub) s \<and> sound_chain sub s'"
proof -
  obtain c s1 where c: "dk_copy cl mid s = (c, s1)" by fastforce
  have 1: "s1 = ow_plus (owned c) s" "list_all paired c" using copy_sound [OF m c] by auto
  show ?thesis
  proof (cases "dk_is_shallow H")
    case True
    obtain t s2 where t: "dk_copy_enclosing_handlers cl rest s1 = (t, s2)" by fastforce
    have "sound_chain rest s1" unfolding 1(1) by (rule sound_chain_plus [OF r])
    from copy_handlers_sound [OF this t] 1 True assms(3) c t sound_chain_ok [OF m] show ?thesis
      by (auto simp: perform_sub_def dk_append_def sound_chain_def ac_simps)
  next
    case False
    with 1 assms(3) c sound_chain_ok [OF m] show ?thesis
      by (auto simp: perform_sub_def dk_append_def sound_chain_def dk_handler_def dk_handler_impl_def dk_done_def
          dk_new_def paired_def)
  qed
qed


text \<open>All four functions of the machine with a given amount of fuel.\<close>

definition refs_kept :: "dkprog \<Rightarrow> nat \<Rightarrow> bool" where
  "refs_kept pr m \<longleftrightarrow>
     (\<forall>k v rt s. sound_chain k s \<longrightarrow> keeps (dk_run_impl m pr k v rt s) s) \<and>
     (\<forall>k v s. sound_chain k s \<longrightarrow> keeps (dk_invoke m pr k v s) s) \<and>
     (\<forall>tag v k s. sound_chain k s \<longrightarrow> keeps (dk_perform m pr tag v k s) s) \<and>
     (\<forall>cc k s. cmd_ok cc \<longrightarrow> sound_chain k s \<longrightarrow> keeps (callback m pr cc k s) s)"

lemma balancedD:
  assumes "refs_kept pr m"
  shows "sound_chain k s \<Longrightarrow> keeps (dk_run_impl m pr k v rt s) s"
    and "sound_chain k s \<Longrightarrow> keeps (dk_invoke m pr k v s) s"
    and "sound_chain k s \<Longrightarrow> keeps (dk_perform m pr tag v k s) s"
    and "cmd_ok cc \<Longrightarrow> sound_chain k s \<Longrightarrow> keeps (callback m pr cc k s) s"
  using assms by (simp_all add: refs_kept_def)

lemma balanced_shift:
  assumes b: "refs_kept pr m" and pr: "prog_ok pr" and k: "sound_chain k s"
    and sub: "shift_sub (clone_code pr) n (takeWhile Q k) P s = (sub, s1)" and "P = dropWhile Q k"
  shows "keeps (after_call (callback m pr (body_code pr f e sub) sub s1)
           (\<lambda>v s. if at_root P then Some (RVal v, dk_free sub s)
              else dk_run_impl m pr (tl P) v rt (dk_free sub s))) s"
proof -
  have ok: "ow_ok s" using k by (rule sound_chain_ok)
  have 1: "s1 = ow_plus (owned sub) s" "sound_chain sub s1"
    using shift_sub_sound [OF sound_takeWhile [OF k] sub] by auto
  have "keeps (callback m pr (body_code pr f e sub) sub s1) s1"
    using pr 1(2) by (intro balancedD(4) [OF b]) (auto simp: prog_ok_def)
  moreover have "dk_free sub s1 = s" using free_sound [OF ok] 1(1) by simp
  ultimately show ?thesis
    using ok balancedD(1) [OF b sound_tl [OF sound_dropWhile [OF k]]] assms(5)
    by (intro keeps_after [where ?s1.0 = s1]) auto
qed

lemma balanced_run:
  assumes b: "refs_kept pr m" and pr: "prog_ok pr" and k: "sound_chain ks s"
  shows "keeps (dk_run_impl (Suc m) pr ks v rt s) s"
proof (cases ks)
  case Nil
  then show ?thesis using sound_chain_ok [OF k] by (simp add: dk_run_impl.simps(2))
next
  case (Cons n k')
  have t: "sound_chain k' s" and u: "ow_use n s = s" and e: "sound_chain [] s" and ok: "ow_ok s"
    using k Cons sound_chain_tail [of n k' s] ow_use_id [of n k' s] by (auto simp: sound_chain_def)
  have sh: "keeps (case shift_sub (clone_code pr) n (takeWhile (\<lambda>p. \<not> stops_shift (dk_tag n) p) k')
        (dropWhile (\<lambda>p. \<not> stops_shift (dk_tag n) p) k') s of (sub, s) \<Rightarrow>
      after_call (callback m pr (body_code pr (dk_body n) (dk_body_env n) sub) sub s)
        (\<lambda>v s. if at_root (dropWhile (\<lambda>p. \<not> stops_shift (dk_tag n) p) k') then Some (RVal v, dk_free sub s)
           else dk_run_impl m pr (tl (dropWhile (\<lambda>p. \<not> stops_shift (dk_tag n) p) k')) v rt (dk_free sub s))) s"
    using balanced_shift [OF b pr t _ refl] by (auto split: prod.split)
  have fr: "keeps (after_call (callback m pr (frame_code pr f env v) [] s) (\<lambda>v s. dk_run_impl m pr k' v rt s)) s" for f env
    using pr by (intro keeps_after [where ?s1.0 = s] balancedD(4) [OF b _ e] balancedD(1) [OF b t]) (simp add: prog_ok_def)
  have re: "keeps (callback m pr (resume_code pr f env v k') k' s) s" for f env
    using pr by (intro balancedD(4) [OF b _ t]) (auto simp: prog_ok_def)
  show ?thesis
    unfolding dk_run_impl.simps(2) Cons Let_def
    using sh fr re ok balancedD(1) [OF b t] by (auto simp: u split: dkkind.split)
qed

lemma balanced_invoke:
  assumes b: "refs_kept pr m" and k: "sound_chain k s"
  shows "keeps (dk_invoke (Suc m) pr k v s) s"
proof -
  obtain c s1 where c: "dk_copy (clone_code pr) k s = (c, s1)" by fastforce
  have ok: "ow_ok s" using k by (rule sound_chain_ok)
  have 1: "s1 = ow_plus (owned c) s" "list_all paired c" using copy_sound [OF k c] by auto
  then have "sound_chain c s1" using ok by (simp add: sound_chain_def)
  then have "keeps (dk_run_impl m pr c v False s1) s1" by (rule balancedD(1) [OF b])
  then show ?thesis
    unfolding dk_invoke.simps(2) using c free_sound [OF ok, of c] 1(1) ok
    by (auto intro!: keeps_after [where ?s1.0 = s1])
qed

lemma balanced_perform:
  assumes b: "refs_kept pr m" and pr: "prog_ok pr" and k: "sound_chain k s"
  shows "keeps (dk_perform (Suc m) pr tag v k s) s"
proof -
  let ?Q = "\<lambda>p. \<not> stops_perform tag p"
  let ?H = "dropWhile ?Q k"
  have ok: "ow_ok s" and H: "sound_chain (tl ?H) s"
    using k sound_tl [OF sound_dropWhile [OF k]] by (auto intro: sound_chain_ok)
  obtain sub s1 where sub: "perform_sub (clone_code pr) tag (takeWhile ?Q k) (hd ?H) (tl ?H) s = (sub, s1)" by fastforce
  have 1: "s1 = ow_plus (owned sub) s" "sound_chain sub s1"
    using perform_sub_sound [OF sound_takeWhile [OF k] H sub] by auto
  have "keeps (callback m pr (handler_code pr f e v sub) sub s1) s1" for f e
    using pr 1(2) by (intro balancedD(4) [OF b]) (auto simp: prog_ok_def)
  moreover have "dk_free sub s1 = s" using free_sound [OF ok] 1(1) by simp
  ultimately show ?thesis
    unfolding dk_perform.simps(2) Let_def using sub ok balancedD(1) [OF b H]
    by (auto intro!: keeps_after [where ?s1.0 = s1])
qed

lemma sound_pushed:
  assumes "sound_chain k s" and "list_all paired ns"
  shows "sound_chain (ns @ k) (ow_plus (owned ns) s)" and "sound_chain ns (ow_plus (owned ns) s)"
  using assms by (auto simp: sound_chain_def add.commute)

lemma balanced_callback:
  assumes b: "refs_kept pr m" and c: "cmd_ok cc" and k: "sound_chain k s"
  shows "keeps (callback (Suc m) pr cc k s) s"
proof -
  have ok: "ow_ok s" using k by (rule sound_chain_ok)
  have free: "dk_free ns (ow_plus (owned ns) s) = s" for ns by (rule free_sound [OF ok])
  show ?thesis
  proof (cases cc)
    case (CReturn v)
    then show ?thesis using ok by (simp add: callback.simps(2))
  next
    case (CInvoke w f)
    then show ?thesis
      using c by (auto simp: callback.simps(2) intro!: keeps_after [OF balancedD(2) [OF b k]] balancedD(4) [OF b _ k])
  next
    case (CPerform tag arg ns f)
    then show ?thesis
      using c by (auto simp: callback.simps(2) add_sound free
          intro!: keeps_after [OF balancedD(3) [OF b sound_pushed(1) [OF k]]] balancedD(4) [OF b _ k])
  next
    case (CDeliver v ns f)
    then show ?thesis
      using c by (auto simp: callback.simps(2) add_sound free
          intro!: keeps_after [OF balancedD(1) [OF b sound_pushed(1) [OF k]]] balancedD(4) [OF b _ k])
  next
    case (CRun v ns f)
    then show ?thesis
      using c by (auto simp: callback.simps(2) add_sound free
          intro!: keeps_after [OF balancedD(1) [OF b sound_pushed(2) [OF k]]] balancedD(4) [OF b _ k])
  qed
qed

lemma all_balanced: "prog_ok pr \<Longrightarrow> refs_kept pr m"
proof (induction m)
  case 0
  show ?case by (simp add: refs_kept_def)
next
  case (Suc m)
  note b = Suc.IH [OF Suc.prems]
  show ?case
    using balanced_run [OF b Suc.prems] balanced_invoke [OF b] balanced_perform [OF b Suc.prems] balanced_callback [OF b]
    by (simp add: refs_kept_def)
qed


section \<open>Values do not depend on the references\<close>

definition same_value :: "(dkres \<times> owns) option \<Rightarrow> (dkres \<times> owns) option \<Rightarrow> bool" where
  "same_value x y \<longleftrightarrow> map_option fst x = map_option fst y"

lemma same_value_simps [simp]: "same_value None None" "same_value (Some (r, s)) (Some (r', s')) \<longleftrightarrow> r = r'"
  by (simp_all add: same_value_def)

lemma same_value_after:
  "same_value x y \<Longrightarrow> (\<And>v s t. same_value (f v s) (g v t)) \<Longrightarrow> same_value (after_call x f) (after_call y g)"
  by (cases x rule: after_call_cases; cases y rule: after_call_cases) (auto simp: same_value_def)

lemma copy_node_value: "fst (dk_copy_node cl n s) = fst (dk_copy_node cl n t)"
  by (simp add: dk_copy_node_def Let_def split: option.split)

lemma copy_value: "fst (dk_copy cl k s) = fst (dk_copy cl k t)"
proof (induction k arbitrary: s t)
  case (Cons n k)
  then show ?case using copy_node_value [of cl n s t] by (auto simp: case_prod_beta Let_def)
qed simp

lemma copy_handlers_value: "fst (dk_copy_enclosing_handlers cl k s) = fst (dk_copy_enclosing_handlers cl k t)"
proof (induction k arbitrary: s t)
  case (Cons n k)
  then show ?case using copy_node_value [of cl n s t] by (auto simp: case_prod_beta Let_def)
qed simp

lemma shift_sub_value: "fst (shift_sub cl n mid P s) = fst (shift_sub cl n mid P t)"
  using copy_value [of cl mid s t] by (simp add: shift_sub_def case_prod_beta Let_def)

lemma perform_sub_value: "fst (perform_sub cl tag mid H rest s) = fst (perform_sub cl tag mid H rest t)"
  using copy_value [of cl mid s t]
    copy_handlers_value [of cl rest "snd (dk_copy cl mid s)" "snd (dk_copy cl mid t)"]
  by (simp add: perform_sub_def case_prod_beta Let_def)

definition values_same :: "dkprog \<Rightarrow> nat \<Rightarrow> bool" where
  "values_same pr m \<longleftrightarrow>
     (\<forall>k v rt s t. same_value (dk_run_impl m pr k v rt s) (dk_run_impl m pr k v rt t)) \<and>
     (\<forall>k v s t. same_value (dk_invoke m pr k v s) (dk_invoke m pr k v t)) \<and>
     (\<forall>tag v k s t. same_value (dk_perform m pr tag v k s) (dk_perform m pr tag v k t)) \<and>
     (\<forall>cc k s t. same_value (callback m pr cc k s) (callback m pr cc k t))"

lemma values_same: "values_same pr m"
proof (induction m)
  case 0
  show ?case by (simp add: values_same_def)
next
  case (Suc m)
  then have ih: "same_value (dk_run_impl m pr k v rt s) (dk_run_impl m pr k v rt t)"
      "same_value (dk_invoke m pr k v s) (dk_invoke m pr k v t)"
      "same_value (dk_perform m pr tag v k s) (dk_perform m pr tag v k t)"
      "same_value (callback m pr cc k s) (callback m pr cc k t)" for k v rt s t tag cc
    by (simp_all add: values_same_def)
  note sv = same_value_after ih
  have "same_value (dk_run_impl (Suc m) pr k v rt s) (dk_run_impl (Suc m) pr k v rt t)" for k v rt s t
    unfolding dk_run_impl.simps(2) Let_def case_prod_beta shift_sub_value [of _ _ _ _ s t]
    by (auto intro!: sv split: list.split dkkind.split)
  moreover have "same_value (dk_invoke (Suc m) pr k v s) (dk_invoke (Suc m) pr k v t)" for k v s t
    unfolding dk_invoke.simps(2) Let_def case_prod_beta copy_value [of _ _ s t] by (auto intro!: sv)
  moreover have "same_value (dk_perform (Suc m) pr tag v k s) (dk_perform (Suc m) pr tag v k t)" for tag v k s t
    unfolding dk_perform.simps(2) Let_def case_prod_beta perform_sub_value [of _ _ _ _ _ s t] by (auto intro!: sv)
  moreover have "same_value (callback (Suc m) pr cc k s) (callback (Suc m) pr cc k t)" for cc k s t
    unfolding callback.simps(2) by (auto intro!: sv split: cmd.split)
  ultimately show ?case by (simp add: values_same_def)
qed


section \<open>Results, whatever the fuel\<close>

definition runs :: "dkprog \<Rightarrow> dk list \<Rightarrow> int \<Rightarrow> int \<Rightarrow> bool" where
  "runs pr k v r \<longleftrightarrow> (\<exists>m s s'. dk_run_impl m pr k v False s = Some (RVal r, s'))"

definition calls :: "dkprog \<Rightarrow> cmd \<Rightarrow> dk list \<Rightarrow> int \<Rightarrow> bool" where
  "calls pr cc ch r \<longleftrightarrow> (\<exists>m s s'. callback m pr cc ch s = Some (RVal r, s'))"

lemma same_value_RVal: "same_value x y \<Longrightarrow> x = Some (RVal r, s) \<Longrightarrow> \<exists>s'. y = Some (RVal r, s')"
  by (cases y) (auto simp: same_value_def)

lemma value_of_run: "same_value (dk_run_impl m pr k v rt s) (dk_run_impl m pr k v rt t)"
  and value_of_call: "same_value (callback m pr cc k s) (callback m pr cc k t)"
  using values_same [of pr m] by (simp_all add: values_same_def)

lemma run_elsewhere:
  "dk_run_impl m pr k v rt s = Some (RVal r, s') \<Longrightarrow> \<exists>t'. dk_run_impl m pr k v rt t = Some (RVal r, t')"
  using same_value_RVal value_of_run by blast

lemma call_elsewhere:
  "callback m pr cc k s = Some (RVal r, s') \<Longrightarrow> \<exists>t'. callback m pr cc k t = Some (RVal r, t')"
  using same_value_RVal value_of_call by blast

lemma runs_at: "runs pr k v r \<longleftrightarrow> (\<exists>m s'. dk_run_impl m pr k v False s = Some (RVal r, s'))"
  unfolding runs_def using run_elsewhere by blast

lemma calls_at: "calls pr cc k r \<longleftrightarrow> (\<exists>m s'. callback m pr cc k s = Some (RVal r, s'))"
  unfolding calls_def using call_elsewhere by blast

lemma runs_I: "dk_run_impl m pr k v False s = Some (RVal r, s') \<Longrightarrow> runs pr k v r"
  unfolding runs_def by blast

lemma calls_I: "callback m pr cc k s = Some (RVal r, s') \<Longrightarrow> calls pr cc k r"
  unfolding calls_def by blast

text \<open>A call and a run after it, with fuel enough for both.\<close>

lemma call_then_run:
  assumes "calls pr cc ch x" and "runs pr k x r"
  obtains m s1 s2 where "callback m pr cc ch s = Some (RVal x, s1)"
    and "dk_run_impl m pr k x False (g s1) = Some (RVal r, s2)"
proof -
  obtain m1 s1 where 1: "callback m1 pr cc ch s = Some (RVal x, s1)" using assms(1) calls_at by blast
  obtain m2 s2 where 2: "dk_run_impl m2 pr k x False (g s1) = Some (RVal r, s2)" using assms(2) runs_at by blast
  show thesis
    by (rule that [of "max m1 m2"]) (rule callback_mono [OF 1], simp, rule run_mono [OF 2], simp)
qed

lemma runs_first:
  "runs pr k v r \<longleftrightarrow> (\<exists>m s s'. dk_run_impl (Suc m) pr k v False s = Some (RVal r, s'))"
proof
  assume "runs pr k v r"
  then obtain m s s' where r: "dk_run_impl m pr k v False s = Some (RVal r, s')" unfolding runs_def by blast
  then show "\<exists>m s s'. dk_run_impl (Suc m) pr k v False s = Some (RVal r, s')" using run_mono [OF r, of "Suc m"] by auto
qed (blast intro: runs_I)

lemma runs_done: "dk_kind n = DKK_DONE \<Longrightarrow> runs pr (n # k) v r \<longleftrightarrow> r = v"
  unfolding runs_first by (auto simp: dk_run_impl.simps(2))

lemma runs_skip:
  "dk_kind n = DKK_PROMPT \<or> dk_kind n = DKK_HANDLER \<Longrightarrow> runs pr (n # k) v r \<longleftrightarrow> runs pr k v r"
  unfolding runs_first [of pr "n # k"] unfolding runs_def by (elim disjE) (simp_all add: dk_run_impl.simps(2))

lemma runs_frame:
  assumes "dk_kind n = DKK_FRAME"
  shows "runs pr (n # k) v r \<longleftrightarrow>
    (\<exists>x. calls pr (frame_code pr (dk_fn n) (dk_env n) v) [] x \<and> runs pr k x r)"
proof
  assume "runs pr (n # k) v r"
  then show "\<exists>x. calls pr (frame_code pr (dk_fn n) (dk_env n) v) [] x \<and> runs pr k x r"
    using assms unfolding runs_first [of pr "n # k"]
    by (auto simp: dk_run_impl.simps(2) after_call_RVal intro: calls_I runs_I)
next
  fix s :: owns
  assume "\<exists>x. calls pr (frame_code pr (dk_fn n) (dk_env n) v) [] x \<and> runs pr k x r"
  then obtain x m s1 s2 where
      "callback m pr (frame_code pr (dk_fn n) (dk_env n) v) [] (ow_use n s) = Some (RVal x, s1)"
      "dk_run_impl m pr k x False s1 = Some (RVal r, s2)"
    using call_then_run [where g = "\<lambda>s. s" and s = "ow_use n s"] by metis
  then have "dk_run_impl (Suc m) pr (n # k) v False s = Some (RVal r, s2)"
    using assms by (simp add: dk_run_impl.simps(2))
  then show "runs pr (n # k) v r" by (rule runs_I)
qed

lemma runs_shift:
  fixes s :: owns
  assumes n: "dk_kind n = DKK_SHIFT \<or> dk_kind n = DKK_SHIFT0" and nr: "\<not> at_root P"
    and P: "P = dropWhile (\<lambda>p. \<not> stops_shift (dk_tag n) p) k"
    and sub: "sub = fst (shift_sub (clone_code pr) n (takeWhile (\<lambda>p. \<not> stops_shift (dk_tag n) p) k) P s)"
  shows "runs pr (n # k) v r \<longleftrightarrow>
    (\<exists>x. calls pr (body_code pr (dk_body n) (dk_body_env n) sub) sub x \<and> runs pr (tl P) x r)"
proof
  have any: "fst (shift_sub (clone_code pr) n (takeWhile (\<lambda>p. \<not> stops_shift (dk_tag n) p) k) P t) = sub" for t
    unfolding sub by (rule shift_sub_value)
  assume "runs pr (n # k) v r"
  then show "\<exists>x. calls pr (body_code pr (dk_body n) (dk_body_env n) sub) sub x \<and> runs pr (tl P) x r"
    using n nr any unfolding runs_first [of pr "n # k"] P [symmetric]
    by (auto simp: dk_run_impl.simps(2) Let_def case_prod_beta after_call_RVal P [symmetric])
      (blast intro: calls_I runs_I)+
next
  assume "\<exists>x. calls pr (body_code pr (dk_body n) (dk_body_env n) sub) sub x \<and> runs pr (tl P) x r"
  then obtain x m s1 s2 where
      "callback m pr (body_code pr (dk_body n) (dk_body_env n) sub) sub
         (snd (shift_sub (clone_code pr) n (takeWhile (\<lambda>p. \<not> stops_shift (dk_tag n) p) k) P s)) = Some (RVal x, s1)"
      "dk_run_impl m pr (tl P) x False (dk_free sub s1) = Some (RVal r, s2)"
    using call_then_run [where g = "dk_free sub"] by metis
  then have "dk_run_impl (Suc m) pr (n # k) v False s = Some (RVal r, s2)"
    using n nr sub by (auto simp: dk_run_impl.simps(2) Let_def case_prod_beta P [symmetric])
  then show "runs pr (n # k) v r" by (rule runs_I)
qed


section \<open>A captured context\<close>

text \<open>
  A context in front of a prompt with tag \<open>t\<close>: frames, markers and captures that are delimited by a
  prompt of the context or by that prompt.
\<close>

fun delimited :: "int \<Rightarrow> dk list \<Rightarrow> bool" where
  "delimited t [] = True"
| "delimited t (n # E) =
     ((dk_kind n = DKK_FRAME \<or> dk_kind n = DKK_PROMPT \<or> dk_kind n = DKK_HANDLER \<or>
       (dk_kind n = DKK_SHIFT \<or> dk_kind n = DKK_SHIFT0) \<and>
       (dk_tag n = t \<or> (\<exists>p\<in>set E. dk_kind p = DKK_PROMPT \<and> dk_tag p = dk_tag n)))
      \<and> delimited t E)"

lemma delimited_no_done: "delimited t E \<Longrightarrow> p \<in> set E \<Longrightarrow> dk_kind p \<noteq> DKK_DONE"
  by (induction E) auto

lemma delimited_suffix: "delimited t (a @ b) \<Longrightarrow> delimited t b"
  by (induction a) auto

lemma delimited_after: "delimited t E \<Longrightarrow> delimited t (tl (dropWhile Q E))"
proof -
  assume "delimited t E"
  then have "delimited t (takeWhile Q E @ dropWhile Q E)" by simp
  then have "delimited t (dropWhile Q E)" by (rule delimited_suffix)
  moreover have "delimited t xs \<Longrightarrow> delimited t (tl xs)" for xs by (cases xs) auto
  ultimately show ?thesis by blast
qed

lemma prompt_kind: "dk_prompt t K = p # K' \<Longrightarrow> dk_kind p = DKK_PROMPT \<and> dk_tag p = t \<and> K' = K"
  by (auto simp: dk_prompt_def dk_new_def)

lemma runs_prompt: "runs pr (dk_prompt t K) v r \<longleftrightarrow> runs pr K v r"
  unfolding dk_prompt_def by (rule runs_skip) (simp add: dk_new_def)

lemma runs_dk_done: "runs pr dk_done v r \<longleftrightarrow> r = v"
  unfolding dk_done_def by (rule runs_done) (simp add: dk_new_def)

lemma shift_search:
  assumes d: "delimited t E" and tag: "tag = t \<or> (\<exists>p\<in>set E. dk_kind p = DKK_PROMPT \<and> dk_tag p = tag)"
  shows "takeWhile (\<lambda>p. \<not> stops_shift tag p) (E @ dk_prompt t K) = takeWhile (\<lambda>p. \<not> stops_shift tag p) E"
    and "\<not> at_root (dropWhile (\<lambda>p. \<not> stops_shift tag p) (E @ dk_prompt t K))"
    and "tl (dropWhile (\<lambda>p. \<not> stops_shift tag p) (E @ dk_prompt t K)) =
      (if \<exists>p\<in>set E. stops_shift tag p then tl (dropWhile (\<lambda>p. \<not> stops_shift tag p) E) @ dk_prompt t K else K)"
proof -
  let ?Q = "\<lambda>p. \<not> stops_shift tag p"
  have *: "takeWhile ?Q (E @ dk_prompt t K) = takeWhile ?Q E \<and> \<not> at_root (dropWhile ?Q (E @ dk_prompt t K)) \<and>
    tl (dropWhile ?Q (E @ dk_prompt t K)) =
      (if \<exists>p\<in>set E. stops_shift tag p then tl (dropWhile ?Q E) @ dk_prompt t K else K)"
  proof (cases "\<exists>p\<in>set E. stops_shift tag p")
    case True
    then have "dropWhile ?Q E \<noteq> []" by (simp add: dropWhile_eq_Nil_conv)
    then obtain y ys where dw: "dropWhile ?Q E = y # ys" by (cases "dropWhile ?Q E") auto
    then have "y \<in> set E" by (metis list.set_intros(1) set_dropWhileD)
    then have "dk_kind y \<noteq> DKK_DONE" by (rule delimited_no_done [OF d])
    moreover from True obtain x where "x \<in> set E" "\<not> ?Q x" by blast
    then have "dropWhile ?Q (E @ b) = dropWhile ?Q E @ b" and "takeWhile ?Q (E @ b) = takeWhile ?Q E" for b
      by (blast intro: dropWhile_append1 takeWhile_append1)+
    ultimately show ?thesis using True by (simp add: at_root_def dw)
  next
    case False
    with tag have "tag = t" by (auto simp: stops_shift_def)
    have all: "x \<in> set E \<Longrightarrow> ?Q x" for x using False by blast
    then have "takeWhile ?Q E = E" and "takeWhile ?Q (E @ b) = E @ takeWhile ?Q b"
        and "dropWhile ?Q (E @ b) = dropWhile ?Q b" for b
      by (simp_all add: takeWhile_eq_all_conv takeWhile_append2 dropWhile_append2)
    moreover have "takeWhile ?Q (dk_prompt t K) = []" and "dropWhile ?Q (dk_prompt t K) = dk_prompt t K"
      using \<open>tag = t\<close> by (simp_all add: dk_prompt_def dk_new_def stops_shift_def)
    moreover have "\<not> at_root (dk_prompt t K)" and "tl (dk_prompt t K) = K"
      by (simp_all add: at_root_def dk_prompt_def dk_new_def)
    ultimately show ?thesis using False by (simp del: takeWhile_eq_all_conv)
  qed
  then show "takeWhile ?Q (E @ dk_prompt t K) = takeWhile ?Q E" and "\<not> at_root (dropWhile ?Q (E @ dk_prompt t K))"
    and "tl (dropWhile ?Q (E @ dk_prompt t K)) =
      (if \<exists>p\<in>set E. stops_shift tag p then tl (dropWhile ?Q E) @ dk_prompt t K else K)" by blast+
qed

lemma context_law:
  "delimited t E \<Longrightarrow> runs pr (E @ dk_prompt t K) w r \<longleftrightarrow>
     (\<exists>x. runs pr (E @ dk_prompt t dk_done) w x \<and> runs pr K x r)"
proof (induction E arbitrary: w r rule: length_induct)
  case (1 E)
  have ih: "runs pr (F @ dk_prompt t K) w r \<longleftrightarrow> (\<exists>x. runs pr (F @ dk_prompt t dk_done) w x \<and> runs pr K x r)"
    if "length F < length E" "delimited t F" for F w r using 1 that by blast
  show ?case
  proof (cases E)
    case Nil
    then show ?thesis by (simp add: runs_prompt runs_dk_done)
  next
    case (Cons n F)
    have d: "delimited t F" and l: "length F < length E" using 1(2) Cons by auto
    consider "dk_kind n = DKK_FRAME" | "dk_kind n = DKK_PROMPT \<or> dk_kind n = DKK_HANDLER"
      | "dk_kind n = DKK_SHIFT \<or> dk_kind n = DKK_SHIFT0"
        "dk_tag n = t \<or> (\<exists>p\<in>set F. dk_kind p = DKK_PROMPT \<and> dk_tag p = dk_tag n)"
      using 1(2) Cons by auto
    then show ?thesis
    proof cases
      case 1
      then show ?thesis by (auto simp: Cons runs_frame ih [OF l d])
    next
      case 2
      then show ?thesis by (simp add: Cons runs_skip ih [OF l d])
    next
      case 3
      let ?Q = "\<lambda>p. \<not> stops_shift (dk_tag n) p"
      fix s :: owns
      let ?sub = "fst (shift_sub (clone_code pr) n (takeWhile ?Q F) (dropWhile ?Q (F @ dk_prompt t K)) s)"
      note ss = shift_search [OF d 3(2)]
      have same: "?sub = fst (shift_sub (clone_code pr) n (takeWhile ?Q F) (dropWhile ?Q (F @ dk_prompt t dk_done)) s)"
        using ss(2) by (simp add: shift_sub_def case_prod_beta Let_def)
      have a: "runs pr (n # F @ dk_prompt t K) w r \<longleftrightarrow>
          (\<exists>y. calls pr (body_code pr (dk_body n) (dk_body_env n) ?sub) ?sub y \<and>
               runs pr (tl (dropWhile ?Q (F @ dk_prompt t K))) y r)" for w r
        by (rule runs_shift [OF 3(1) ss(2) refl]) (simp only: ss(1))
      have b: "runs pr (n # F @ dk_prompt t dk_done) w r \<longleftrightarrow>
          (\<exists>y. calls pr (body_code pr (dk_body n) (dk_body_env n) ?sub) ?sub y \<and>
               runs pr (tl (dropWhile ?Q (F @ dk_prompt t dk_done))) y r)" for w r
        by (rule runs_shift [OF 3(1) ss(2) refl]) (simp only: ss(1) same)
      have "length (dropWhile ?Q F) \<le> length F" by (rule length_dropWhile_le)
      then have l': "length (tl (dropWhile ?Q F)) < length E" using l by simp
      show ?thesis
      proof (cases "\<exists>p\<in>set F. stops_shift (dk_tag n) p")
        case True
        then show ?thesis
          unfolding Cons append_Cons a b ss(3) using ih [OF l' delimited_after [OF d]] by auto
      next
        case False
        then show ?thesis unfolding Cons append_Cons a b ss(3) by (auto simp: runs_dk_done)
      qed
    qed
  qed
qed

text \<open>
  What a copy is does not depend on the references. It has the nodes of the original, with the
  environments the clone hooks return, and is the original where the hooks return what they are given.
\<close>

definition copied :: "(nat \<Rightarrow> int \<Rightarrow> int) \<Rightarrow> dk list \<Rightarrow> dk list" where
  "copied cl k = map (\<lambda>n. case dk_env_clone n of None \<Rightarrow> n | Some c \<Rightarrow> n\<lparr>dk_env := cl c (dk_env n)\<rparr>) k"

definition same_handles :: "(nat \<Rightarrow> int \<Rightarrow> int) \<Rightarrow> dk list \<Rightarrow> bool" where
  "same_handles cl k \<longleftrightarrow> (\<forall>n\<in>set k. \<forall>c. dk_env_clone n = Some c \<longrightarrow> cl c (dk_env n) = dk_env n)"

lemma copy_copied: "fst (dk_copy cl k s) = copied cl k"
  by (induction k arbitrary: s) (auto simp: copied_def dk_copy_node_def Let_def case_prod_beta split: option.split)

lemma copied_append: "copied cl (a @ b) = copied cl a @ copied cl b"
  by (simp add: copied_def)

lemma copied_prompt: "copied cl (dk_prompt t dk_done) = dk_prompt t dk_done"
  by (simp add: copied_def dk_prompt_def dk_done_def dk_new_def)

lemma copied_same: "same_handles cl k \<Longrightarrow> copied cl k = k"
  unfolding copied_def same_handles_def by (rule map_idI) (auto split: option.split)

lemma copied_delimited: "delimited t E \<Longrightarrow> delimited t (copied cl E)"
proof (induction E)
  case (Cons n E)
  let ?f = "\<lambda>n. case dk_env_clone n of None \<Rightarrow> n | Some c \<Rightarrow> n\<lparr>dk_env := cl c (dk_env n)\<rparr>"
  have k: "dk_kind (?f p) = dk_kind p" "dk_tag (?f p) = dk_tag p" for p by (simp_all split: option.split)
  have "(\<exists>p\<in>set (copied cl E). dk_kind p = DKK_PROMPT \<and> dk_tag p = dk_tag n) \<longleftrightarrow> (\<exists>p\<in>set E. dk_kind p = DKK_PROMPT \<and> dk_tag p = dk_tag n)"
    by (simp add: copied_def k)
  moreover have "copied cl (n # E) = ?f n # copied cl E" by (simp add: copied_def)
  ultimately show ?case using Cons by (simp only: delimited.simps k)
qed (simp add: copied_def)

lemma invoke_runs: "(\<exists>m s'. dk_invoke m pr k w s = Some (RVal x, s')) \<longleftrightarrow> runs pr (copied (clone_code pr) k) w x"
proof
  assume "\<exists>m s'. dk_invoke m pr k w s = Some (RVal x, s')"
  then obtain m s' where i: "dk_invoke m pr k w s = Some (RVal x, s')" by blast
  then obtain m' where "m = Suc m'" by (cases m) auto
  with i show "runs pr (copied (clone_code pr) k) w x"
    using copy_copied [of "clone_code pr" k s]
    by (auto simp: dk_invoke.simps(2) case_prod_beta Let_def after_call_RVal intro: runs_I)
next
  assume "runs pr (copied (clone_code pr) k) w x"
  then obtain m s' where "dk_run_impl m pr (copied (clone_code pr) k) w False (snd (dk_copy (clone_code pr) k s)) = Some (RVal x, s')"
    using runs_at by blast
  then have "dk_invoke (Suc m) pr k w s = Some (RVal x, dk_free (copied (clone_code pr) k) s')"
    using copy_copied [of "clone_code pr" k s] by (simp add: dk_invoke.simps(2) case_prod_beta Let_def)
  then show "\<exists>m s'. dk_invoke m pr k w s = Some (RVal x, s')" by blast
qed


section \<open>Handlers of a resumed computation\<close>

text \<open>The handler a perform finds: its function, its environment and whether it is shallow.\<close>

definition nearest :: "int \<Rightarrow> dk list \<Rightarrow> (nat \<times> int \<times> bool) option" where
  "nearest tag k =
     (let H = dropWhile (\<lambda>p. \<not> stops_perform tag p) k
      in if at_root H then None else Some (dk_handler_fn (hd H), dk_handler_env (hd H), dk_is_shallow (hd H)))"

lemma nearest_simps:
  "nearest tag [] = None"
  "nearest tag (p # k) =
     (if dk_kind p = DKK_HANDLER \<and> dk_tag p = tag then Some (dk_handler_fn p, dk_handler_env p, dk_is_shallow p)
      else if dk_kind p = DKK_DONE then None else nearest tag k)"
  by (auto simp: nearest_def at_root_def stops_perform_def)

lemma nearest_append:
  "(\<And>p. p \<in> set a \<Longrightarrow> dk_kind p \<noteq> DKK_DONE) \<Longrightarrow>
   nearest tag (a @ b) = (case nearest tag a of None \<Rightarrow> nearest tag b | Some h \<Rightarrow> Some h)"
  by (induction a) (auto simp: nearest_simps)

lemma copy_node_kind:
  "dk_kind (fst (dk_copy_node cl n s)) = dk_kind n \<and> dk_tag (fst (dk_copy_node cl n s)) = dk_tag n \<and>
   dk_handler_fn (fst (dk_copy_node cl n s)) = dk_handler_fn n \<and>
   dk_handler_env (fst (dk_copy_node cl n s)) = dk_handler_env n \<and>
   dk_is_shallow (fst (dk_copy_node cl n s)) = dk_is_shallow n"
  by (auto simp: dk_copy_node_def Let_def split: option.split)

lemma copy_kinds: "map dk_kind (fst (dk_copy cl k s)) = map dk_kind k"
  by (induction k arbitrary: s) (auto simp: case_prod_beta Let_def copy_node_kind)

lemma nearest_copy: "nearest tag (fst (dk_copy cl k s)) = nearest tag k"
  by (induction k arbitrary: s) (auto simp: case_prod_beta Let_def nearest_simps copy_node_kind)

lemma nearest_done: "nearest tag dk_done = None"
  by (simp add: dk_done_def nearest_simps dk_new_def)

lemma nearest_handlers: "nearest tag (fst (dk_copy_enclosing_handlers cl k s)) = nearest tag k"
  by (induction k arbitrary: s)
    (auto simp: case_prod_beta Let_def nearest_simps nearest_done copy_node_kind)

lemma nearest_sub:
  assumes "\<forall>p\<in>set mid. dk_kind p \<noteq> DKK_DONE" and "dk_kind H = DKK_HANDLER" and "dk_tag H = tag"
  shows "nearest t (fst (perform_sub cl tag mid H rest s)) =
    (if dk_is_shallow H then nearest t (mid @ rest) else nearest t (mid @ [H]))"
proof -
  have nd: "p \<in> set (fst (dk_copy cl mid s)) \<Longrightarrow> dk_kind p \<noteq> DKK_DONE" for p
    using assms(1) copy_kinds [of cl mid s] by (metis image_eqI image_iff list.set_map)
  have a: "nearest t (fst (dk_copy cl mid s) @ b) = (case nearest t mid of None \<Rightarrow> nearest t b | Some h \<Rightarrow> Some h)" for b
    using nearest_append [OF nd] by (simp add: nearest_copy)
  have m: "nearest t (mid @ b) = (case nearest t mid of None \<Rightarrow> nearest t b | Some h \<Rightarrow> Some h)" for b
    using assms(1) by (intro nearest_append) auto
  show ?thesis
    using assms(2,3)
    by (auto simp: perform_sub_def dk_append_def case_prod_beta Let_def a m nearest_handlers dk_handler_def
        dk_handler_impl_def nearest_simps nearest_done dk_new_def split: option.split)
qed

lemma perform_unhandled: "nearest tag k = None \<Longrightarrow> dk_perform (Suc m) pr tag arg k s = Some (RAbort, s)"
  by (auto simp: nearest_def dk_perform.simps(2) Let_def split: if_splits)

end
