(* ===== verification/CpsProps.thy ===== *)
theory CpsProps
  imports CpsPromptSound
begin

text \<open>The properties of the delimited-control machine.\<close>

section \<open>A program to try them on\<close>

text \<open>
  Frames add their environment, the body resumes with 10 and with 20 and adds the results, the
  handler resumes with its argument; hooks count references to a shared cell.
\<close>

definition sample_prog :: dkprog where
  "sample_prog =
     \<lparr>frame_code = (\<lambda>f e v. CReturn (v + e)),
      resume_code = (\<lambda>f e v k. CPerform 2 v [] CReturn),
      body_code = (\<lambda>f e k. CInvoke 10 (\<lambda>a. CInvoke 20 (\<lambda>b. CReturn (a + b)))),
      handler_code = (\<lambda>f e a k. CInvoke a CReturn),
      clone_code = (\<lambda>c e. e)\<rparr>"

definition no_refs :: owns where "no_refs = \<lparr>ow_live = {#}, ow_ok = True\<rparr>"

lemma sample_prog_ok: "prog_ok sample_prog"
  by (simp add: prog_ok_def sample_prog_def)

lemmas machine_simps = dk_run_def dk_run_impl.simps(2) dk_invoke.simps(2) dk_perform.simps(2) callback.simps(2)
  sample_prog_def no_refs_def dk_shift_def dk_shift_impl_def dk_frame_def dk_frame_owning_def dk_prompt_def
  dk_done_def dk_new_def dk_frame_resume_def dk_handler_def dk_handler_impl_def shift_sub_def perform_sub_def
  dk_append_def stops_shift_def stops_perform_def at_root_def dk_copy_node_def ow_use_def ow_add_def dk_free_node_def
  eval_nat_numeral

text \<open>A shift over a frame that holds a reference to a cell with the payload 5.\<close>

definition owning_chain :: "dk list" where
  "owning_chain = dk_shift 1 0 0 (dk_frame_owning 0 5 (Some 7) (Some 8) (dk_prompt 1 dk_done))"


section \<open>Properties\<close>

text \<open>
  C6: whatever the functions of a program do with the machine, in any run and any perform over a
  chain whose environments carry both hooks or none, no reference is used, cloned or released that is
  not live; and when the call returns and the chain is freed, every reference has been released as
  often as it was taken, however often a continuation was resumed.
\<close>

theorem references_balanced:
  assumes "prog_ok pr" and "list_all paired k" and "ow_ok s"
    and "dk_run m pr k v (ow_plus (owned k) s) = Some (r, s') \<or>
         dk_perform m pr tag v k (ow_plus (owned k) s) = Some (r, s')"
  shows "ow_ok s' \<and> (r = RAbort \<or> dk_free k s' = s)"
proof -
  have k: "sound_chain k (ow_plus (owned k) s)" using assms(2,3) by (simp add: sound_chain_def)
  note b = all_balanced [OF assms(1), of m]
  have "keeps (Some (r, s')) (ow_plus (owned k) s)"
    using assms(4) balancedD(1) [OF b k, of v False] balancedD(3) [OF b k, of tag v] by (auto simp: dk_run_def)
  then show ?thesis using free_sound [OF assms(3), of k] by (cases r) (auto simp: keeps_def)
qed

lemma owning_run: "\<exists>s'. dk_run 20 sample_prog owning_chain 0 (ow_plus (owned owning_chain) no_refs) = Some (RVal 40, s')"
  by (simp add: owning_chain_def machine_simps)

theorem references_balanced_witness:
  "\<exists>s'. dk_run 20 sample_prog owning_chain 0 (ow_plus (owned owning_chain) no_refs) = Some (RVal 40, s') \<and>
        ow_ok s' \<and> dk_free owning_chain s' = no_refs"
proof -
  obtain s' where r: "dk_run 20 sample_prog owning_chain 0 (ow_plus (owned owning_chain) no_refs) = Some (RVal 40, s')"
    using owning_run by blast
  have "list_all paired owning_chain" and "ow_ok no_refs"
    by (simp_all add: owning_chain_def paired_def dk_shift_def dk_shift_impl_def dk_frame_owning_def dk_prompt_def
        dk_done_def dk_new_def no_refs_def)
  then show ?thesis
    using references_balanced [OF sample_prog_ok, of owning_chain no_refs 20 0 "RVal 40" s' 0] r by auto
qed

text \<open>
  C39: what a shift captures is its context, for contexts of frames, markers, handlers and shifts
  whose prompt lies in the context or is the one behind it (\<open>delimited\<close>: no resume frame, no shift to
  a prompt further out). In front of a prompt with its tag, a shift hands its body a copy of the
  context with the prompt put back, in which each frame has the environment its clone hook returns.
  Resuming with a value copies once more, and computes what that copy computes where the context
  stood: running it with the rest of the continuation behind it delivers exactly the result of the
  resumption to what is behind the prompt. Where the clone hooks of the context return the handle
  they are given, and where there are none, the copies are the context itself.
\<close>

theorem captured_context:
  fixes pr :: dkprog and s :: owns and E :: "dk list"
  assumes "delimited t E" and "dk_kind n = DKK_SHIFT" and "dk_tag n = t" and "\<forall>p\<in>set E. \<not> stops_shift t p"
  defines "E1 \<equiv> fst (dk_copy (clone_code pr) E s)" and "E2 \<equiv> fst (dk_copy (clone_code pr) (fst (dk_copy (clone_code pr) E s)) s)"
  shows "fst (shift_sub (clone_code pr) n (takeWhile (\<lambda>p. \<not> stops_shift t p) (E @ dk_prompt t K))
              (dropWhile (\<lambda>p. \<not> stops_shift t p) (E @ dk_prompt t K)) s) = E1 @ dk_prompt t dk_done
     \<and> ((\<exists>m s'. dk_run m pr (E2 @ dk_prompt t K) w s = Some (RVal r, s')) \<longleftrightarrow>
        (\<exists>x. (\<exists>m s'. dk_invoke m pr (E1 @ dk_prompt t dk_done) w s = Some (RVal x, s')) \<and>
             (\<exists>m s'. dk_run m pr K x s = Some (RVal r, s'))))
     \<and> (same_handles (clone_code pr) E \<longrightarrow> E1 = E \<and> E2 = E)"
proof (intro conjI)
  note ss = shift_search [OF assms(1), of t K, simplified]
  have "takeWhile (\<lambda>p. \<not> stops_shift t p) E = E" using assms(4) by (simp add: takeWhile_eq_all_conv)
  then show "fst (shift_sub (clone_code pr) n (takeWhile (\<lambda>p. \<not> stops_shift t p) (E @ dk_prompt t K))
      (dropWhile (\<lambda>p. \<not> stops_shift t p) (E @ dk_prompt t K)) s) = E1 @ dk_prompt t dk_done"
    using assms(2,3) ss(2)
    unfolding ss(1) E1_def
    by (simp add: shift_sub_def case_prod_beta Let_def dk_append_def del: takeWhile_eq_all_conv)
  show "(\<exists>m s'. dk_run m pr (E2 @ dk_prompt t K) w s = Some (RVal r, s')) \<longleftrightarrow>
      (\<exists>x. (\<exists>m s'. dk_invoke m pr (E1 @ dk_prompt t dk_done) w s = Some (RVal x, s')) \<and>
           (\<exists>m s'. dk_run m pr K x s = Some (RVal r, s')))"
    unfolding dk_run_def runs_at [symmetric] invoke_runs E1_def E2_def copy_copied copied_append copied_prompt
    by (intro context_law copied_delimited assms(1))
  show "same_handles (clone_code pr) E \<longrightarrow> E1 = E \<and> E2 = E"
    unfolding E1_def E2_def copy_copied by (simp add: copied_same)
qed

theorem captured_context_witness:
  "\<exists>m s'. dk_run m sample_prog (dk_frame 0 1 [] @ dk_prompt 1 (dk_frame 0 100 dk_done)) 3 no_refs = Some (RVal 104, s')"
proof -
  let ?E = "dk_frame 0 1 []" and ?K = "dk_frame 0 100 dk_done"
  obtain s1 s2 where r: "dk_invoke 9 sample_prog (?E @ dk_prompt 1 dk_done) 3 no_refs = Some (RVal 4, s1)"
      "dk_run 9 sample_prog ?K 4 no_refs = Some (RVal 104, s2)"
    by (simp add: machine_simps)
  have d: "delimited 1 ?E" and q: "\<forall>p\<in>set ?E. \<not> stops_shift 1 p" and h: "same_handles (clone_code sample_prog) ?E"
    by (simp_all add: dk_frame_def dk_new_def stops_shift_def same_handles_def)
  have n: "dk_kind ((dk_new DKK_SHIFT)\<lparr>dk_tag := 1\<rparr>) = DKK_SHIFT" "dk_tag ((dk_new DKK_SHIFT)\<lparr>dk_tag := 1\<rparr>) = 1"
    by (simp_all add: dk_new_def)
  note cc = captured_context [OF d n q, where pr = sample_prog and s = no_refs and K = ?K and w = 3 and r = 104]
  have e: "fst (dk_copy (clone_code sample_prog) ?E no_refs) = ?E" using cc h by blast
  have "(\<exists>m s'. dk_run m sample_prog (?E @ dk_prompt 1 ?K) 3 no_refs = Some (RVal 104, s')) \<longleftrightarrow>
      (\<exists>x. (\<exists>m s'. dk_invoke m sample_prog (?E @ dk_prompt 1 dk_done) 3 no_refs = Some (RVal x, s')) \<and>
           (\<exists>m s'. dk_run m sample_prog ?K x no_refs = Some (RVal 104, s')))"
    using conjunct1 [OF conjunct2 [OF cc]] unfolding e .
  then show ?thesis using r by blast
qed

text \<open>
  C30: the handlers a resumed computation finds. Under a shallow handler it finds, for every tag, the
  handler it would have found with that handler taken out; under a deep handler it finds the handlers
  inside and the deep handler itself, and no other: an effect of a handler further out, performed
  after the resumption, is unhandled and aborts.
\<close>

theorem resumed_handlers:
  assumes "\<forall>p\<in>set mid. \<not> stops_perform tag p" and "dk_kind H = DKK_HANDLER" and "dk_tag H = tag"
  shows "nearest t (fst (perform_sub cl tag mid H rest s)) =
           (if dk_is_shallow H then nearest t (mid @ rest) else nearest t (mid @ [H]))
     \<and> (nearest t (fst (perform_sub cl tag mid H rest s)) = None \<longrightarrow>
        dk_perform (Suc m) pr t arg (fst (perform_sub cl tag mid H rest s)) s' = Some (RAbort, s'))"
proof
  have "\<forall>p\<in>set mid. dk_kind p \<noteq> DKK_DONE" using assms(1) by (auto simp: stops_perform_def)
  then show "nearest t (fst (perform_sub cl tag mid H rest s)) =
      (if dk_is_shallow H then nearest t (mid @ rest) else nearest t (mid @ [H]))"
    by (rule nearest_sub [OF _ assms(2,3)])
qed (blast intro: perform_unhandled)

text \<open>
  An inner deep handler of effect 1 inside a handler of effect 2: the second effect is handled where
  the first is performed, and aborts in the computation the first handler resumes.
\<close>

theorem resumed_handlers_witness:
  "nearest 2 (dk_frame 0 0 (dk_handler 1 5 0 (dk_handler 2 6 0 dk_done))) = Some (6, 0, False) \<and>
   dk_perform 1 sample_prog 2 0
     (fst (perform_sub (clone_code sample_prog) 1 (dk_frame 0 0 []) (hd (dk_handler 1 5 0 []))
             (dk_handler 2 6 0 dk_done) no_refs)) no_refs = Some (RAbort, no_refs)"
  using resumed_handlers [of "dk_frame 0 0 []" 1 "hd (dk_handler 1 5 0 [])" 2 "clone_code sample_prog"
      "dk_handler 2 6 0 dk_done" no_refs 0 sample_prog 0 no_refs]
  by (simp add: nearest_simps dk_frame_def dk_new_def stops_perform_def dk_handler_def dk_handler_impl_def)

text \<open>The machine does not distinguish a run under the implicit root prompt from any other.\<close>

lemma run_root_same: "dk_run_root m pr k v s = dk_run m pr k v s"
  unfolding dk_run_root_def dk_run_def by (rule root_unused)

end
