(* ===== verification/Gc.thy ===== *)
theory Gc
  imports Prelude
begin

text \<open>
  The cycle collector (\<open>src/runtime/gc.c\<close>, \<open>gc.h\<close>) over the control blocks of \<open>rc.h\<close>: the state of
  the collector, its registry and candidate buffer, and the traversals of a collection up to the set
  of blocks it frees. A block is named by a number, its address; the payload of a block is the list of
  the references it holds, those that are not \<open>NULL\<close>, in the order in which its drop glue releases
  them. \<open>mem n\<close> says whether \<open>realloc\<close> grants a vector of \<open>n\<close> pointers. Writing a block that has been
  freed, and freeing it again, sets a flag.
\<close>

section \<open>Control blocks\<close>

datatype gccolor = GC_WHITE | GC_GREY | GC_BLACK | GC_PURPLE

text \<open>\<open>reserved[0]\<close>; for existentials \<open>reserved[1]\<close> says whether the payload is a reference.\<close>

datatype rckind = RCK_OPAQUE | RCK_EXISTENTIAL | RCK_STRUCT

text \<open>
  The drop function of a payload: glue that only releases memory, or glue that lets go of the
  references of the payload as well (\<open>drop_rc_payload\<close>, \<open>drop_weak_payload\<close> and the glue the compiler
  emits for structs).
\<close>

datatype dropfn = DropPlain | DropRefs

datatype rref = RStrong nat | RWeak nat

fun strongs :: "rref list \<Rightarrow> nat list" where
  "strongs [] = []"
| "strongs (RStrong t # rs) = t # strongs rs"
| "strongs (RWeak t # rs) = strongs rs"

record rccb =
  cb_strong :: nat
  cb_weak :: nat
  cb_value :: "rref list option"
  cb_drop :: dropfn
  cb_walk :: bool
  cb_vtk :: nat
  cb_color :: gccolor
  cb_cycles :: bool
  cb_index :: "nat option"
  cb_buffered :: bool
  cb_trial :: nat
  cb_collecting :: bool
  cb_kind :: rckind
  cb_payload_rc :: bool

datatype gcmode = GC_DISABLED | GC_MANUAL | GC_THRESHOLD | GC_AUTO

record gcst =
  gc_heap :: "nat \<Rightarrow> rccb option"
  gc_fault :: bool
  gc_suspects :: "nat list"
  gc_suspect_cap :: nat
  gc_grey :: "nat list"
  gc_grey_cap :: nat
  gc_all :: "nat list"
  gc_all_cap :: nat
  gc_pending :: "nat list"
  gc_pending_cap :: nat
  gc_cands :: "nat list"
  gc_cand_cap :: nat
  gc_mode :: gcmode
  gc_enabled :: bool
  gc_collections :: nat
  gc_objects_freed :: nat
  gc_high_water :: nat
  gc_allocs :: nat
  gc_in_collection :: bool
  fq_init :: bool
  fq_items :: "nat list"
  fq_head :: nat
  fq_cap :: nat
  fq_draining :: bool

definition GC_SUSPECT_INITIAL_CAPACITY :: nat where "GC_SUSPECT_INITIAL_CAPACITY = 256"
definition GC_WORK_QUEUE_INITIAL_CAPACITY :: nat where "GC_WORK_QUEUE_INITIAL_CAPACITY = 256"
definition GC_GLOBAL_REGISTRY_INITIAL_CAPACITY :: nat where "GC_GLOBAL_REGISTRY_INITIAL_CAPACITY = 4096"
definition GC_SUSPECT_THRESHOLD :: nat where "GC_SUSPECT_THRESHOLD = 128"
definition GC_AUTO_ALLOC_INTERVAL :: nat where "GC_AUTO_ALLOC_INTERVAL = 4096"
definition RC_VT_REF :: nat where "RC_VT_REF = 8"

definition null_block :: rccb where
  "null_block = \<lparr>cb_strong = 0, cb_weak = 0, cb_value = None, cb_drop = DropPlain, cb_walk = False, cb_vtk = 0,
     cb_color = GC_WHITE, cb_cycles = False, cb_index = None, cb_buffered = False, cb_trial = 0,
     cb_collecting = False, cb_kind = RCK_OPAQUE, cb_payload_rc = False\<rparr>"

definition blk :: "gcst \<Rightarrow> nat \<Rightarrow> rccb" where
  "blk st b = (case gc_heap st b of None \<Rightarrow> null_block | Some c \<Rightarrow> c)"

definition upd :: "nat \<Rightarrow> (rccb \<Rightarrow> rccb) \<Rightarrow> gcst \<Rightarrow> gcst" where
  "upd b f st = (case gc_heap st b of None \<Rightarrow> st\<lparr>gc_fault := True\<rparr>
     | Some c \<Rightarrow> st\<lparr>gc_heap := (gc_heap st)(b := Some (f c))\<rparr>)"

text \<open>\<open>free\<close>.\<close>

definition free_block :: "nat \<Rightarrow> gcst \<Rightarrow> gcst" where
  "free_block b st = (case gc_heap st b of None \<Rightarrow> st\<lparr>gc_fault := True\<rparr>
     | Some c \<Rightarrow> st\<lparr>gc_heap := (gc_heap st)(b := None)\<rparr>)"

definition gc_set_color :: "nat \<Rightarrow> gccolor \<Rightarrow> gcst \<Rightarrow> gcst" where
  "gc_set_color b col = upd b (\<lambda>c. c\<lparr>cb_color := col\<rparr>)"

definition gc_get_color :: "gcst \<Rightarrow> nat \<Rightarrow> gccolor" where
  "gc_get_color st b = cb_color (blk st b)"


section \<open>Vectors, the registry and the candidate buffer\<close>

text \<open>The new capacity, or None when \<open>realloc\<close> fails.\<close>

function gc_grow :: "nat \<Rightarrow> nat \<Rightarrow> nat" where
  "gc_grow ncap needed =
     (if 0 < ncap \<and> ncap < needed then (if ncap > 0xFFFFFFFF div 2 then needed else gc_grow (2 * ncap) needed)
      else ncap)"
  by pat_completeness auto
termination by (relation "measure (\<lambda>(ncap, needed). needed - ncap)") auto

declare gc_grow.simps [simp del]

definition gc_vec_reserve :: "(nat \<Rightarrow> bool) \<Rightarrow> nat \<Rightarrow> nat \<Rightarrow> nat option" where
  "gc_vec_reserve mem cap needed =
     (if cap \<ge> needed then Some cap
      else let ncap = gc_grow (if cap \<noteq> 0 then cap else 256) needed in if mem ncap then Some ncap else None)"

definition gc_init :: "(nat \<Rightarrow> bool) \<Rightarrow> gcst \<Rightarrow> gcst" where
  "gc_init mem st = st\<lparr>
     gc_suspect_cap := (case gc_vec_reserve mem (gc_suspect_cap st) GC_SUSPECT_INITIAL_CAPACITY of
       None \<Rightarrow> gc_suspect_cap st | Some n \<Rightarrow> n),
     gc_grey_cap := (case gc_vec_reserve mem (gc_grey_cap st) GC_WORK_QUEUE_INITIAL_CAPACITY of
       None \<Rightarrow> gc_grey_cap st | Some n \<Rightarrow> n),
     gc_suspects := [], gc_grey := [], gc_collections := 0, gc_objects_freed := 0, gc_high_water := 0,
     gc_enabled := True\<rparr>"

definition gc_shutdown :: "gcst \<Rightarrow> gcst" where
  "gc_shutdown st = st\<lparr>gc_suspects := [], gc_suspect_cap := 0, gc_grey := [], gc_grey_cap := 0,
     gc_enabled := False\<rparr>"

text \<open>Removal by moving the last element to the place of the first occurrence.\<close>

fun swap_remove :: "nat \<Rightarrow> nat list \<Rightarrow> nat list" where
  "swap_remove b [] = []"
| "swap_remove b (x # xs) =
     (if x = b then (if xs = [] then [] else last xs # butlast xs) else x # swap_remove b xs)"

definition gc_remove_suspect :: "nat \<Rightarrow> gcst \<Rightarrow> gcst" where
  "gc_remove_suspect b st =
     (if \<not> cb_buffered (blk st b) then st
      else if b \<in> set (gc_suspects st) then
        upd b (\<lambda>c. c\<lparr>cb_buffered := False\<rparr>) (st\<lparr>gc_suspects := swap_remove b (gc_suspects st)\<rparr>)
      else st)"

text \<open>Appending to the candidate buffer; whether there was room.\<close>

definition suspect_append :: "(nat \<Rightarrow> bool) \<Rightarrow> nat \<Rightarrow> gcst \<Rightarrow> bool \<times> gcst" where
  "suspect_append mem b st =
     (case (if length (gc_suspects st) \<ge> gc_suspect_cap st
            then gc_vec_reserve mem (gc_suspect_cap st) (length (gc_suspects st) + 1)
            else Some (gc_suspect_cap st)) of
        None \<Rightarrow> (False, st)
      | Some cap \<Rightarrow>
          (let st = upd b (\<lambda>c. c\<lparr>cb_buffered := True\<rparr>) (st\<lparr>gc_suspect_cap := cap\<rparr>);
               st = st\<lparr>gc_suspects := gc_suspects st @ [b]\<rparr>;
               st = (if length (gc_suspects st) > gc_high_water st
                     then st\<lparr>gc_high_water := length (gc_suspects st)\<rparr> else st)
           in (True, gc_set_color b GC_PURPLE st)))"

definition gc_enqueue_grey :: "(nat \<Rightarrow> bool) \<Rightarrow> nat \<Rightarrow> gcst \<Rightarrow> gcst" where
  "gc_enqueue_grey mem b st =
     (case (if length (gc_grey st) \<ge> gc_grey_cap st
            then gc_vec_reserve mem (gc_grey_cap st) (length (gc_grey st) + 1)
            else Some (gc_grey_cap st)) of
        None \<Rightarrow> st
      | Some cap \<Rightarrow> st\<lparr>gc_grey_cap := cap, gc_grey := gc_grey st @ [b]\<rparr>)"

definition gc_dequeue_grey :: "gcst \<Rightarrow> (nat \<times> gcst) option" where
  "gc_dequeue_grey st =
     (case gc_grey st of [] \<Rightarrow> None
      | b # bs \<Rightarrow> Some (b, st\<lparr>gc_grey := (if bs = [] then [] else last bs # butlast bs)\<rparr>))"

text \<open>Joining the registry, after the allocation checkpoint has run.\<close>

definition registry_insert :: "(nat \<Rightarrow> bool) \<Rightarrow> nat \<Rightarrow> gcst \<Rightarrow> gcst" where
  "registry_insert mem b st =
     (let st = upd b (\<lambda>c. c\<lparr>cb_buffered := False\<rparr>) st;
          born = (\<lambda>c. c\<lparr>cb_color := GC_WHITE, cb_cycles := True\<rparr>)
      in case (if length (gc_all st) \<ge> gc_all_cap st
               then gc_vec_reserve mem (gc_all_cap st)
                      (if gc_all_cap st \<noteq> 0 then length (gc_all st) + 1 else GC_GLOBAL_REGISTRY_INITIAL_CAPACITY)
               else Some (gc_all_cap st)) of
        None \<Rightarrow> upd b (\<lambda>c. born (c\<lparr>cb_index := None\<rparr>)) st
      | Some cap \<Rightarrow>
          upd b (\<lambda>c. born (c\<lparr>cb_index := Some (length (gc_all st))\<rparr>))
            (st\<lparr>gc_all_cap := cap, gc_all := gc_all st @ [b]\<rparr>))"

definition gc_unregister_block :: "nat \<Rightarrow> gcst \<Rightarrow> gcst" where
  "gc_unregister_block b st =
     (let st = gc_remove_suspect b st;
          none = upd b (\<lambda>c. c\<lparr>cb_index := None\<rparr>)
      in case cb_index (blk st b) of None \<Rightarrow> none st
      | Some i \<Rightarrow>
          if i \<ge> length (gc_all st) \<or> gc_all st ! i \<noteq> b then none st
          else let l = last (gc_all st);
                   st = upd l (\<lambda>c. c\<lparr>cb_index := Some i\<rparr>) (st\<lparr>gc_all := (gc_all st)[i := l]\<rparr>)
            in none (st\<lparr>gc_all := butlast (gc_all st)\<rparr>))"


section \<open>The traversals\<close>

text \<open>The references a collection follows.\<close>

definition gc_children :: "rccb \<Rightarrow> nat list" where
  "gc_children c =
     (case cb_value c of None \<Rightarrow> []
      | Some v \<Rightarrow>
          if cb_kind c = RCK_EXISTENTIAL \<and> cb_payload_rc c then take 1 (strongs v)
          else if cb_kind c = RCK_STRUCT \<and> cb_walk c then strongs v
          else [])"

fun gc_each_child :: "(nat \<Rightarrow> gcst \<Rightarrow> gcst option) \<Rightarrow> nat list \<Rightarrow> gcst \<Rightarrow> gcst option" where
  "gc_each_child fn [] st = Some st"
| "gc_each_child fn (t # ts) st =
     (case fn t st of None \<Rightarrow> None | Some st \<Rightarrow> gc_each_child fn ts st)"

text \<open>
  The recursions go as deep as the references do; the first argument bounds the depth, and None is a
  recursion that is deeper.
\<close>

definition trial_dec :: "nat \<Rightarrow> gcst \<Rightarrow> gcst" where
  "trial_dec t = upd t (\<lambda>c. if cb_trial c > 0 then c\<lparr>cb_trial := cb_trial c - 1\<rparr> else c)"

primrec gc_mark_gray :: "nat \<Rightarrow> nat \<Rightarrow> gcst \<Rightarrow> gcst option" where
  "gc_mark_gray 0 s st = None"
| "gc_mark_gray (Suc m) s st =
     (if gc_get_color st s = GC_GREY then Some st
      else gc_each_child (\<lambda>t st. gc_mark_gray m t (trial_dec t st)) (gc_children (blk st s))
             (gc_set_color s GC_GREY st))"

definition trial_inc :: "nat \<Rightarrow> gcst \<Rightarrow> gcst" where
  "trial_inc t = upd t (\<lambda>c. c\<lparr>cb_trial := (cb_trial c + 1) mod 2 ^ 64\<rparr>)"

primrec gc_scan_black :: "nat \<Rightarrow> nat \<Rightarrow> gcst \<Rightarrow> gcst option" where
  "gc_scan_black 0 s st = None"
| "gc_scan_black (Suc m) s st =
     gc_each_child
       (\<lambda>t st. if gc_get_color (trial_inc t st) t \<noteq> GC_BLACK then gc_scan_black m t (trial_inc t st)
               else Some (trial_inc t st))
       (gc_children (blk st s)) (gc_set_color s GC_BLACK st)"

primrec gc_scan :: "nat \<Rightarrow> nat \<Rightarrow> gcst \<Rightarrow> gcst option" where
  "gc_scan 0 s st = None"
| "gc_scan (Suc m) s st =
     (if gc_get_color st s \<noteq> GC_GREY then Some st
      else if cb_trial (blk st s) > 0 then gc_scan_black m s st
      else gc_each_child (\<lambda>t st. gc_scan m t st) (gc_children (blk st s)) (gc_set_color s GC_WHITE st))"

primrec gc_collect_white :: "(nat \<Rightarrow> bool) \<Rightarrow> nat \<Rightarrow> nat \<Rightarrow> gcst \<Rightarrow> gcst option" where
  "gc_collect_white mem 0 s st = None"
| "gc_collect_white mem (Suc m) s st =
     (if gc_get_color st s \<noteq> GC_WHITE \<or> cb_buffered (blk st s) then Some st
      else let kids = gc_children (blk st s);
               st = gc_set_color s GC_BLACK st
        in case (if length (gc_pending st) \<ge> gc_pending_cap st
                 then gc_vec_reserve mem (gc_pending_cap st) (length (gc_pending st) + 1)
                 else Some (gc_pending_cap st)) of
             None \<Rightarrow> Some st
           | Some cap \<Rightarrow>
               gc_each_child (\<lambda>t st. gc_collect_white mem m t st) kids
                 (st\<lparr>gc_pending_cap := cap, gc_pending := gc_pending st @ [s]\<rparr>))"


section \<open>Finding the garbage of a collection\<close>

text \<open>Every registered block starts with its reference count.\<close>

definition trial_reset :: "gcst \<Rightarrow> gcst" where
  "trial_reset st = fold (\<lambda>b. upd b (\<lambda>c. c\<lparr>cb_trial := cb_strong c\<rparr>)) (gc_all st) st"

definition gc_mark_roots :: "nat \<Rightarrow> gcst \<Rightarrow> gcst option" where
  "gc_mark_roots m st =
     gc_each_child (\<lambda>s st. if gc_get_color st s = GC_PURPLE \<and> cb_strong (blk st s) > 0
                           then gc_mark_gray m s st else Some st) (gc_suspects st) st"

definition gc_scan_roots :: "nat \<Rightarrow> gcst \<Rightarrow> gcst option" where
  "gc_scan_roots m st =
     gc_each_child (\<lambda>s st. if cb_strong (blk st s) > 0 then gc_scan m s st else Some st) (gc_suspects st) st"

text \<open>
  The candidates leave the buffer; the zombies stay. A candidate that does not fit into the vector of
  candidates is forgotten.
\<close>

fun gc_drain :: "(nat \<Rightarrow> bool) \<Rightarrow> nat list \<Rightarrow> nat list \<Rightarrow> gcst \<Rightarrow> gcst" where
  "gc_drain mem [] kept st = st\<lparr>gc_suspects := kept\<rparr>"
| "gc_drain mem (s # ss) kept st =
     (if cb_strong (blk st s) > 0 then
        (let st = upd s (\<lambda>c. c\<lparr>cb_buffered := False\<rparr>) st
         in case (if length (gc_cands st) < gc_cand_cap st then Some (gc_cand_cap st)
                  else gc_vec_reserve mem (gc_cand_cap st) (length (gc_cands st) + 1)) of
              None \<Rightarrow> gc_drain mem ss kept st
            | Some cap \<Rightarrow> gc_drain mem ss kept (st\<lparr>gc_cand_cap := cap, gc_cands := gc_cands st @ [s]\<rparr>))
      else gc_drain mem ss (kept @ [s]) st)"

definition gc_collect_roots :: "(nat \<Rightarrow> bool) \<Rightarrow> nat \<Rightarrow> gcst \<Rightarrow> gcst option" where
  "gc_collect_roots mem m st =
     (let st = gc_drain mem (gc_suspects st) [] (st\<lparr>gc_pending := [], gc_cands := []\<rparr>)
      in map_option (\<lambda>st. st\<lparr>gc_cands := []\<rparr>)
           (gc_each_child (\<lambda>s st. gc_collect_white mem m s st) (gc_cands st) st))"

text \<open>The first part of \<open>gc_cycle_collect_phase\<close>, up to the list of the blocks that are freed.\<close>

definition gc_find_white :: "(nat \<Rightarrow> bool) \<Rightarrow> nat \<Rightarrow> gcst \<Rightarrow> gcst option" where
  "gc_find_white mem m st =
     (if gc_suspects st = [] then Some (st\<lparr>gc_pending := []\<rparr>)
      else case gc_mark_roots m (trial_reset st) of None \<Rightarrow> None
      | Some st \<Rightarrow> (case gc_scan_roots m st of None \<Rightarrow> None
        | Some st \<Rightarrow> gc_collect_roots mem m st))"


section \<open>The mark phase before the sweep of the zombies\<close>

definition gc_mark_struct_child :: "(nat \<Rightarrow> bool) \<Rightarrow> nat \<Rightarrow> gcst \<Rightarrow> gcst" where
  "gc_mark_struct_child mem t st =
     (if gc_get_color st t \<noteq> GC_BLACK then gc_enqueue_grey mem t (gc_set_color t GC_BLACK st) else st)"

primrec gc_propagate :: "(nat \<Rightarrow> bool) \<Rightarrow> nat \<Rightarrow> gcst \<Rightarrow> gcst option" where
  "gc_propagate mem 0 st = None"
| "gc_propagate mem (Suc m) st =
     (case gc_dequeue_grey st of None \<Rightarrow> Some st
      | Some (b, st) \<Rightarrow> gc_propagate mem m (fold (gc_mark_struct_child mem) (gc_children (blk st b)) st))"

definition gc_mark_phase :: "(nat \<Rightarrow> bool) \<Rightarrow> nat \<Rightarrow> gcst \<Rightarrow> gcst option" where
  "gc_mark_phase mem m st =
     (let st = fold (\<lambda>b. gc_set_color b GC_WHITE) (gc_all st) st;
          st = fold (\<lambda>b st. if cb_strong (blk st b) > 0
                            then gc_enqueue_grey mem b (gc_set_color b GC_BLACK st) else st) (gc_all st) st
      in gc_propagate mem m st)"

end
