(* ===== verification/GcSound.thy ===== *)
theory GcSound
  imports Gc
begin

text \<open>
  What a collection finds: after the three traversals the blocks on the list to be freed are exactly
  those reachable from a candidate that nothing outside what is reachable from the candidates keeps.
\<close>

section \<open>Views of the state\<close>

abbreviation "color_of st b \<equiv> cb_color (blk st b)"
abbreviation "trial_of st b \<equiv> cb_trial (blk st b)"
abbreviation "strong_of st b \<equiv> cb_strong (blk st b)"

definition kids :: "gcst \<Rightarrow> nat \<Rightarrow> nat list" where
  "kids st b = gc_children (blk st b)"

definition alloc :: "gcst \<Rightarrow> nat \<Rightarrow> bool" where
  "alloc st b \<longleftrightarrow> gc_heap st b \<noteq> None"

text \<open>Everything but colours and trial counts.\<close>

definition erase :: "gcst \<Rightarrow> gcst" where
  "erase st = st\<lparr>gc_heap := \<lambda>b. map_option (\<lambda>c. c\<lparr>cb_color := GC_WHITE, cb_trial := 0\<rparr>) (gc_heap st b)\<rparr>"

lemma erase_heap:
  "erase st = erase st' \<Longrightarrow>
   map_option (\<lambda>c. c\<lparr>cb_color := GC_WHITE, cb_trial := 0\<rparr>) (gc_heap st b) =
   map_option (\<lambda>c. c\<lparr>cb_color := GC_WHITE, cb_trial := 0\<rparr>) (gc_heap st' b)"
proof -
  assume "erase st = erase st'"
  then have "gc_heap (erase st) b = gc_heap (erase st') b" by simp
  then show ?thesis by (simp add: erase_def)
qed

lemma erase_blk:
  assumes "erase st = erase st'"
  shows "(blk st b)\<lparr>cb_color := GC_WHITE, cb_trial := 0\<rparr> = (blk st' b)\<lparr>cb_color := GC_WHITE, cb_trial := 0\<rparr>"
  using erase_heap [OF assms, of b] by (auto simp: blk_def split: option.splits)

lemma gc_children_erase: "gc_children (c\<lparr>cb_color := x, cb_trial := y\<rparr>) = gc_children c"
  "gc_children (c\<lparr>cb_color := x\<rparr>) = gc_children c" "gc_children (c\<lparr>cb_trial := y\<rparr>) = gc_children c"
  "gc_children (c\<lparr>cb_buffered := z\<rparr>) = gc_children c"
  by (cases "cb_value c"; simp add: gc_children_def)+

lemma erase_same:
  assumes "erase st = erase st'"
  shows "kids st = kids st'" and "strong_of st b = strong_of st' b" and "alloc st = alloc st'"
    and "cb_buffered (blk st b) = cb_buffered (blk st' b)"
    and "gc_suspects st = gc_suspects st'" and "gc_pending st = gc_pending st'"
    and "gc_all st = gc_all st'" and "gc_fault st = gc_fault st'"
    and "gc_cands st = gc_cands st'"
proof -
  show "kids st = kids st'"
    using erase_blk [OF assms] by (intro ext) (metis kids_def gc_children_erase(1))
  show "strong_of st b = strong_of st' b" and "cb_buffered (blk st b) = cb_buffered (blk st' b)"
    using arg_cong [OF erase_blk [OF assms, of b], of cb_strong] arg_cong [OF erase_blk [OF assms, of b], of cb_buffered]
    by simp_all
  show "alloc st = alloc st'" unfolding alloc_def
  proof
    fix b show "(gc_heap st b \<noteq> None) = (gc_heap st' b \<noteq> None)"
      using erase_heap [OF assms, of b] by (cases "gc_heap st b"; cases "gc_heap st' b") auto
  qed
  show "gc_suspects st = gc_suspects st'" using arg_cong [OF assms, of gc_suspects] by (simp add: erase_def)
  show "gc_pending st = gc_pending st'" using arg_cong [OF assms, of gc_pending] by (simp add: erase_def)
  show "gc_all st = gc_all st'" using arg_cong [OF assms, of gc_all] by (simp add: erase_def)
  show "gc_fault st = gc_fault st'" using arg_cong [OF assms, of gc_fault] by (simp add: erase_def)
  show "gc_cands st = gc_cands st'" using arg_cong [OF assms, of gc_cands] by (simp add: erase_def)
qed

lemma blk_upd: "alloc st b \<Longrightarrow> blk (upd b f st) x = (if x = b then f (blk st b) else blk st x)"
  by (auto simp: alloc_def upd_def blk_def)

lemma upd_erase:
  assumes "alloc st b" and "\<And>c. (f c)\<lparr>cb_color := GC_WHITE, cb_trial := 0\<rparr> = c\<lparr>cb_color := GC_WHITE, cb_trial := 0\<rparr>"
  shows "erase (upd b f st) = erase st"
  using assms by (auto simp: alloc_def upd_def erase_def fun_eq_iff)

lemma color_erase [simp]: "alloc st b \<Longrightarrow> erase (gc_set_color b c st) = erase st"
  unfolding gc_set_color_def by (rule upd_erase) simp_all

lemma dec_erase [simp]: "alloc st b \<Longrightarrow> erase (trial_dec b st) = erase st"
  unfolding trial_dec_def by (rule upd_erase) simp_all

lemma inc_erase [simp]: "alloc st b \<Longrightarrow> erase (trial_inc b st) = erase st"
  unfolding trial_inc_def by (rule upd_erase) simp_all

lemma color_set [simp]:
  "alloc st b \<Longrightarrow> color_of (gc_set_color b c st) x = (if x = b then c else color_of st x)"
  "alloc st b \<Longrightarrow> trial_of (gc_set_color b c st) x = trial_of st x"
  by (simp_all add: gc_set_color_def blk_upd)

lemma trial_dec [simp]:
  "alloc st b \<Longrightarrow> trial_of (trial_dec b st) x = (if x = b then trial_of st x - 1 else trial_of st x)"
  "alloc st b \<Longrightarrow> color_of (trial_dec b st) x = color_of st x"
  by (simp_all add: trial_dec_def blk_upd)

lemma trial_inc_color [simp]:
  "alloc st b \<Longrightarrow> color_of (trial_inc b st) x = color_of st x"
  "alloc st b \<Longrightarrow> x \<noteq> b \<Longrightarrow> trial_of (trial_inc b st) x = trial_of st x"
  by (simp_all add: trial_inc_def blk_upd)

definition closed :: "gcst \<Rightarrow> nat set \<Rightarrow> bool" where
  "closed st A \<longleftrightarrow> (\<forall>b\<in>A. alloc st b \<and> set (kids st b) \<subseteq> A)"

lemma closed_erase: "erase st = erase st' \<Longrightarrow> closed st A \<longleftrightarrow> closed st' A"
  using erase_same(1,3) [of st st'] by (simp add: closed_def)

lemma closedD: "closed st A \<Longrightarrow> b \<in> A \<Longrightarrow> alloc st b" "closed st A \<Longrightarrow> b \<in> A \<Longrightarrow> set (kids st b) \<subseteq> A"
  by (auto simp: closed_def)

text \<open>Reachability along the references a collection follows.\<close>

inductive_set reach :: "(nat \<Rightarrow> nat list) \<Rightarrow> nat set \<Rightarrow> nat set" for K S where
  reach_root: "s \<in> S \<Longrightarrow> s \<in> reach K S"
| reach_step: "x \<in> reach K S \<Longrightarrow> y \<in> set (K x) \<Longrightarrow> y \<in> reach K S"

lemma reach_mono: "x \<in> reach K S \<Longrightarrow> S \<subseteq> reach K T \<Longrightarrow> x \<in> reach K T"
  by (induction rule: reach.induct) (auto intro: reach.intros)

lemma reach_closed: "x \<in> reach K S \<Longrightarrow> S \<subseteq> A \<Longrightarrow> (\<And>b. b \<in> A \<Longrightarrow> set (K b) \<subseteq> A) \<Longrightarrow> x \<in> A"
  by (induction rule: reach.induct) auto

lemma reach_kid: "t \<in> set (K s) \<Longrightarrow> reach K {t} \<subseteq> reach K {s}"
proof
  fix x assume t: "t \<in> set (K s)" and "x \<in> reach K {t}"
  then show "x \<in> reach K {s}" by (elim reach_mono) (auto intro: reach_step reach_root)
qed


lemma reach_kids: "reach K (set (K s)) \<subseteq> reach K {s}"
proof
  fix x assume "x \<in> reach K (set (K s))"
  then show "x \<in> reach K {s}" by (rule reach_mono) (auto intro: reach_step reach_root)
qed


section \<open>Marking grey\<close>

text \<open>How many references the blocks of a set hold to a block.\<close>

definition seen_refs :: "(nat \<Rightarrow> nat list) \<Rightarrow> nat set \<Rightarrow> nat \<Rightarrow> nat" where
  "seen_refs K N b = (\<Sum>x\<in>N. count_list (K x) b)"

lemma seen_refs_empty [simp]: "seen_refs K {} b = 0"
  by (simp add: seen_refs_def)

lemma seen_refs_union: "finite M \<Longrightarrow> finite N \<Longrightarrow> M \<inter> N = {} \<Longrightarrow> seen_refs K (M \<union> N) b = seen_refs K M b + seen_refs K N b"
  by (simp add: seen_refs_def sum.union_disjoint)

lemma seen_refs_insert: "finite N \<Longrightarrow> s \<notin> N \<Longrightarrow> seen_refs K (insert s N) b = count_list (K s) b + seen_refs K N b"
  by (simp add: seen_refs_def)

definition greys :: "gcst \<Rightarrow> nat set" where
  "greys st = {b. color_of st b = GC_GREY}"

text \<open>
  What marking does: it makes the blocks of a set \<open>N\<close> grey, takes \<open>d b\<close> and the references of \<open>N\<close>
  off the trial count of \<open>b\<close>, and leaves only grey children behind.
\<close>

definition marks :: "gcst \<Rightarrow> gcst \<Rightarrow> nat set \<Rightarrow> (nat \<Rightarrow> nat) \<Rightarrow> bool" where
  "marks st st' N d \<longleftrightarrow>
     erase st' = erase st \<and> finite N \<and> N \<inter> greys st = {} \<and> greys st' = greys st \<union> N \<and>
     (\<forall>x\<in>N. \<forall>y\<in>set (kids st x). y \<in> greys st') \<and>
     (\<forall>b. trial_of st' b = trial_of st b - (d b + seen_refs (kids st) N b)) \<and>
     (\<forall>b. b \<notin> N \<longrightarrow> color_of st' b = color_of st b)"

lemma marks_refl: "marks st st {} (\<lambda>_. 0)"
  by (simp add: marks_def)

lemma marks_trans:
  assumes "marks st st1 M d" and "marks st1 st2 N e"
  shows "marks st st2 (M \<union> N) (\<lambda>b. d b + e b)"
proof -
  have K: "kids st1 = kids st" using assms(1) erase_same(1) by (metis marks_def)
  have "M \<inter> N = {}" using assms by (auto simp: marks_def)
  then have "seen_refs (kids st) (M \<union> N) b = seen_refs (kids st) M b + seen_refs (kids st) N b" for b
    using assms by (intro seen_refs_union) (auto simp: marks_def)
  then show ?thesis using assms K by (auto simp: marks_def)
qed

lemma mark_gray_marks:
  assumes "closed st A" and "s \<in> A" and "gc_mark_gray m s st = Some st'"
  shows "\<exists>N. marks st st' N (\<lambda>_. 0) \<and> s \<in> greys st' \<and> N \<subseteq> reach (kids st) {s}"
  using assms
proof (induction m arbitrary: s st st')
  case 0
  then show ?case by simp
next
  case (Suc m)
  let ?f = "\<lambda>t st. gc_mark_gray m t (trial_dec t st)"
  have each: "\<exists>N. marks st st' N (count_list ts) \<and> set ts \<subseteq> greys st' \<and> N \<subseteq> reach (kids st) (set ts)"
    if "closed st A" "set ts \<subseteq> A" "gc_each_child ?f ts st = Some st'" for ts st st'
    using that
  proof (induction ts arbitrary: st)
    case Nil
    then show ?case using marks_refl by (intro exI [of _ "{}"]) simp
  next
    case (Cons t ts)
    let ?st0 = "trial_dec t st"
    have a: "alloc st t" using Cons.prems by (auto simp: closed_def)
    have er: "erase ?st0 = erase st" using a by simp
    obtain st1 where 1: "gc_mark_gray m t ?st0 = Some st1" "gc_each_child ?f ts st1 = Some st'"
      using Cons.prems(3) by (auto split: option.splits)
    have c0: "closed ?st0 A" using Cons.prems(1) closed_erase [OF er] by simp
    obtain M where M: "marks ?st0 st1 M (\<lambda>_. 0)" "t \<in> greys st1" "M \<subseteq> reach (kids ?st0) {t}"
      using Suc.IH [OF c0 _ 1(1)] Cons.prems(2) by auto
    have K0: "kids ?st0 = kids st" by (rule erase_same(1) [OF er])
    have er1: "erase st1 = erase st" using M(1) er by (simp add: marks_def)
    then have K1: "kids st1 = kids st" by (rule erase_same(1))
    have c1: "closed st1 A" using Cons.prems(1) closed_erase [OF er1] by simp
    obtain N where N: "marks st1 st' N (count_list ts)" "set ts \<subseteq> greys st'" "N \<subseteq> reach (kids st1) (set ts)"
      using Cons.IH [OF c1 _ 1(2)] Cons.prems(2) by auto
    have "marks st st1 M (\<lambda>b. if b = t then 1 else 0)"
      using M(1) a er K0 by (auto simp: marks_def greys_def)
    from marks_trans [OF this N(1)] have "marks st st' (M \<union> N) (count_list (t # ts))"
      by (rule back_subst [where P = "marks st st' (M \<union> N)"]) (auto simp: fun_eq_iff)
    moreover have "set (t # ts) \<subseteq> greys st'" using N(1,2) M(2) by (auto simp: marks_def)
    moreover have "M \<union> N \<subseteq> reach (kids st) (set (t # ts))"
      using M(3) N(3) K0 K1 by (auto intro: reach_mono reach_root)
    ultimately show ?case by blast
  qed
  show ?case
  proof (cases "color_of st s = GC_GREY")
    case True
    then show ?thesis using Suc.prems marks_refl by (intro exI [of _ "{}"]) (simp add: gc_get_color_def greys_def)
  next
    case False
    let ?st0 = "gc_set_color s GC_GREY st"
    have a: "alloc st s" using Suc.prems by (auto simp: closed_def)
    have er: "erase ?st0 = erase st" using a by simp
    have K0: "kids ?st0 = kids st" by (rule erase_same(1) [OF er])
    have "closed ?st0 A" using Suc.prems(1) closed_erase [OF er] by simp
    moreover have "set (kids st s) \<subseteq> A" using Suc.prems by (auto simp: closed_def)
    moreover have "gc_each_child ?f (kids st s) ?st0 = Some st'"
      using Suc.prems(3) False by (simp add: gc_get_color_def kids_def)
    ultimately obtain N where N: "marks ?st0 st' N (count_list (kids st s))" "set (kids st s) \<subseteq> greys st'"
        "N \<subseteq> reach (kids ?st0) (set (kids st s))" using each by blast
    have g0: "greys ?st0 = insert s (greys st)" using a by (auto simp: greys_def)
    have sN: "s \<notin> N" and sg: "s \<notin> greys st" using N(1) g0 False by (auto simp: marks_def greys_def)
    have fin: "finite N" using N(1) by (simp add: marks_def)
    have "marks st st' (insert s N) (\<lambda>_. 0)"
      unfolding marks_def
      using N(1,2) g0 K0 er a sg seen_refs_insert [OF fin sN, of "kids st"]
      by (auto simp: marks_def)
    moreover have "s \<in> greys st'" using N(1) g0 by (auto simp: marks_def)
    moreover have "insert s N \<subseteq> reach (kids st) {s}"
      using N(3) K0 reach_kids [of "kids st" s] by (auto intro: reach_root)
    ultimately show ?thesis by blast
  qed
qed

text \<open>A depth above the number of the blocks that are not grey is enough.\<close>

lemma mark_gray_ends:
  assumes "closed st A" and "finite A" and "s \<in> A" and "card (A - greys st) < m"
  shows "\<exists>st'. gc_mark_gray m s st = Some st'"
  using assms
proof (induction m arbitrary: s st)
  case 0
  then show ?case by simp
next
  case (Suc m)
  let ?f = "\<lambda>t st. gc_mark_gray m t (trial_dec t st)"
  have each: "\<exists>st'. gc_each_child ?f ts st = Some st'"
    if "closed st A" "set ts \<subseteq> A" "card (A - greys st) < m" for ts st
    using that
  proof (induction ts arbitrary: st)
    case Nil
    then show ?case by simp
  next
    case (Cons t ts)
    let ?st0 = "trial_dec t st"
    have a: "alloc st t" and tA: "t \<in> A" using Cons.prems by (auto simp: closed_def)
    have er: "erase ?st0 = erase st" using a by simp
    have c0: "closed ?st0 A" using Cons.prems(1) closed_erase [OF er] by simp
    have g0: "greys ?st0 = greys st" using a by (simp add: greys_def)
    obtain st1 where 1: "gc_mark_gray m t ?st0 = Some st1"
      using Suc.IH [OF c0 Suc.prems(2) tA] Cons.prems(3) g0 by auto
    obtain M where M: "marks ?st0 st1 M (\<lambda>_. 0)" using mark_gray_marks [OF c0 tA 1] by blast
    then have er1: "erase st1 = erase st" and sub: "greys st \<subseteq> greys st1" using er g0 by (auto simp: marks_def)
    have "card (A - greys st1) \<le> card (A - greys st)"
      using sub Suc.prems(2) by (intro card_mono) auto
    then have "\<exists>st'. gc_each_child ?f ts st1 = Some st'"
      using Cons.prems closed_erase [OF er1] by (intro Cons.IH) auto
    with 1 show ?case by simp
  qed
  show ?case
  proof (cases "color_of st s = GC_GREY")
    case True
    then show ?thesis by (simp add: gc_get_color_def)
  next
    case False
    let ?st0 = "gc_set_color s GC_GREY st"
    have a: "alloc st s" using Suc.prems by (auto simp: closed_def)
    have er: "erase ?st0 = erase st" using a by simp
    have "greys ?st0 = insert s (greys st)" using a by (auto simp: greys_def)
    then have "A - greys ?st0 = (A - greys st) - {s}" by auto
    moreover have "s \<in> A - greys st" using Suc.prems(3) False by (simp add: greys_def)
    ultimately have "card (A - greys ?st0) < card (A - greys st)"
      using Suc.prems(2) by (metis card_Diff1_less finite_Diff)
    then have "\<exists>st'. gc_each_child ?f (kids st s) ?st0 = Some st'"
      using Suc.prems closed_erase [OF er] by (intro each) (auto simp: closed_def)
    then show ?thesis using False by (simp add: gc_get_color_def kids_def)
  qed
qed


section \<open>Scanning\<close>

definition blacks :: "gcst \<Rightarrow> nat set" where
  "blacks st = {b. color_of st b = GC_BLACK}"

text \<open>
  Making everything below a block black: the blocks that are not black afterwards are untouched.
\<close>

definition blackens :: "gcst \<Rightarrow> gcst \<Rightarrow> nat set \<Rightarrow> bool" where
  "blackens st st' R \<longleftrightarrow>
     erase st' = erase st \<and> blacks st \<subseteq> blacks st' \<and> blacks st' \<subseteq> blacks st \<union> R \<and>
     (\<forall>x\<in>blacks st' - blacks st. \<forall>y\<in>set (kids st x). y \<in> blacks st') \<and>
     (\<forall>b. b \<notin> blacks st' \<longrightarrow> color_of st' b = color_of st b \<and> trial_of st' b = trial_of st b)"

lemma blackensI:
  assumes "erase st' = erase st" and "blacks st \<subseteq> blacks st'" and "blacks st' \<subseteq> blacks st \<union> R"
    and "\<And>x y. x \<in> blacks st' \<Longrightarrow> x \<notin> blacks st \<Longrightarrow> y \<in> set (kids st x) \<Longrightarrow> y \<in> blacks st'"
    and "\<And>b. b \<notin> blacks st' \<Longrightarrow> color_of st' b = color_of st b \<and> trial_of st' b = trial_of st b"
  shows "blackens st st' R"
  unfolding blackens_def using assms by blast

lemma blackensD:
  assumes "blackens st st' R"
  shows "erase st' = erase st" and "blacks st \<subseteq> blacks st'" and "blacks st' \<subseteq> blacks st \<union> R"
    and "x \<in> blacks st' \<Longrightarrow> x \<notin> blacks st \<Longrightarrow> y \<in> set (kids st x) \<Longrightarrow> y \<in> blacks st'"
    and "b \<notin> blacks st' \<Longrightarrow> color_of st' b = color_of st b"
    and "b \<notin> blacks st' \<Longrightarrow> trial_of st' b = trial_of st b"
  using assms by (simp_all add: blackens_def)

lemma blackens_trans:
  assumes 1: "blackens st st1 R" and 2: "blackens st1 st2 S"
  shows "blackens st st2 (R \<union> S)"
proof (rule blackensI)
  have K: "kids st1 = kids st" by (rule erase_same(1) [OF blackensD(1) [OF 1]])
  note sub = blackensD(2) [OF 1] blackensD(2) [OF 2]
  show "erase st2 = erase st" using blackensD(1) [OF 1] blackensD(1) [OF 2] by simp
  show "blacks st \<subseteq> blacks st2" using sub by blast
  show "blacks st2 \<subseteq> blacks st \<union> (R \<union> S)" using blackensD(3) [OF 1] blackensD(3) [OF 2] by blast
  show "y \<in> blacks st2" if "x \<in> blacks st2" "x \<notin> blacks st" "y \<in> set (kids st x)" for x y
    using that sub K blackensD(4) [OF 1, of x y] blackensD(4) [OF 2, of x y] by (cases "x \<in> blacks st1") auto
  show "color_of st2 b = color_of st b \<and> trial_of st2 b = trial_of st b" if "b \<notin> blacks st2" for b
    using that sub blackensD(5,6) [OF 1, of b] blackensD(5,6) [OF 2, of b] by auto
qed

lemma blackens_mono: "blackens st st' R \<Longrightarrow> R \<subseteq> S \<Longrightarrow> blackens st st' S"
  unfolding blackens_def by auto

lemma scan_black_blackens:
  assumes "closed st A" and "s \<in> A" and "gc_scan_black m s st = Some st'"
  shows "blackens st st' (reach (kids st) {s}) \<and> s \<in> blacks st' \<and> set (kids st s) \<subseteq> blacks st'"
  using assms
proof (induction m arbitrary: s st st')
  case 0
  then show ?case by simp
next
  case (Suc m)
  let ?f = "\<lambda>t st. if gc_get_color (trial_inc t st) t \<noteq> GC_BLACK then gc_scan_black m t (trial_inc t st)
               else Some (trial_inc t st)"
  have each: "blackens st st' (reach (kids st) (set ts)) \<and> set ts \<subseteq> blacks st'"
    if "closed st A" "set ts \<subseteq> A" "gc_each_child ?f ts st = Some st'" for ts st st'
    using that
  proof (induction ts arbitrary: st)
    case Nil
    then show ?case by (simp add: blackens_def)
  next
    case (Cons t ts)
    let ?st0 = "trial_inc t st"
    have a: "alloc st t" and tA: "t \<in> A" using Cons.prems by (auto simp: closed_def)
    have er: "erase ?st0 = erase st" using a by simp
    have b0: "blacks ?st0 = blacks st" using a by (simp add: blacks_def)
    have c0: "closed ?st0 A" using Cons.prems(1) closed_erase [OF er] by simp
    have K0: "kids ?st0 = kids st" by (rule erase_same(1) [OF er])
    obtain st1 where 1: "?f t st = Some st1" "gc_each_child ?f ts st1 = Some st'"
      using Cons.prems(3) by (auto split: option.splits)
    have B: "blackens st st1 (reach (kids st) {t})" and tB: "t \<in> blacks st1"
    proof -
      have "blackens st st1 (reach (kids st) {t}) \<and> t \<in> blacks st1"
      proof (cases "color_of st t = GC_BLACK")
        case True
        with 1(1) a have "st1 = ?st0" by (simp add: gc_get_color_def)
        moreover have "trial_of ?st0 b = trial_of st b" if "color_of st b \<noteq> GC_BLACK" for b
          using that True a by (cases "b = t") auto
        ultimately show ?thesis using True a er b0 by (auto simp: blackens_def blacks_def)
      next
        case False
        with 1(1) a have "gc_scan_black m t ?st0 = Some st1" by (simp add: gc_get_color_def)
        then have *: "blackens ?st0 st1 (reach (kids st) {t}) \<and> t \<in> blacks st1"
          using Suc.IH [OF c0 tA] K0 by simp
        have "blackens st st1 (reach (kids st) {t})"
        proof (rule blackensI)
          show "color_of st1 b = color_of st b \<and> trial_of st1 b = trial_of st b" if "b \<notin> blacks st1" for b
            using that * a blackensD(5,6) [of ?st0 st1 _ b] by (cases "b = t") auto
          show "y \<in> blacks st1" if "x \<in> blacks st1" "x \<notin> blacks st" "y \<in> set (kids st x)" for x y
            using that * b0 K0 blackensD(4) [of ?st0 st1 _ x y] by auto
        qed (use * er b0 blackensD(1,2,3) [of ?st0 st1] in auto)
        with * show ?thesis by blast
      qed
      then show "blackens st st1 (reach (kids st) {t})" and "t \<in> blacks st1" by blast+
    qed
    have er1: "erase st1 = erase st" using B by (simp add: blackens_def)
    have K1: "kids st1 = kids st" by (rule erase_same(1) [OF er1])
    have c1: "closed st1 A" using Cons.prems(1) closed_erase [OF er1] by simp
    have R: "blackens st1 st' (reach (kids st) (set ts))" "set ts \<subseteq> blacks st'"
      using Cons.IH [OF c1 _ 1(2)] Cons.prems(2) K1 by auto
    have "reach (kids st) {t} \<union> reach (kids st) (set ts) \<subseteq> reach (kids st) (set (t # ts))"
      by (auto intro: reach_mono reach_root)
    then have "blackens st st' (reach (kids st) (set (t # ts)))"
      using blackens_mono [OF blackens_trans [OF B R(1)]] by blast
    moreover have "set (t # ts) \<subseteq> blacks st'" using R tB by (auto simp: blackens_def)
    ultimately show ?case by blast
  qed
  let ?st0 = "gc_set_color s GC_BLACK st"
  have a: "alloc st s" using Suc.prems by (auto simp: closed_def)
  have er: "erase ?st0 = erase st" using a by simp
  have K0: "kids ?st0 = kids st" by (rule erase_same(1) [OF er])
  have c0: "closed ?st0 A" using Suc.prems(1) closed_erase [OF er] by simp
  have sub: "set (kids st s) \<subseteq> A" using Suc.prems by (auto simp: closed_def)
  have E: "blackens ?st0 st' (reach (kids st) (set (kids st s)))" "set (kids st s) \<subseteq> blacks st'"
    using each [OF c0 sub, of st'] Suc.prems(3) K0 by (auto simp: kids_def)
  have b0: "blacks ?st0 = insert s (blacks st)" using a by (auto simp: blacks_def)
  have "reach (kids st) (set (kids st s)) \<subseteq> reach (kids st) {s}" by (rule reach_kids)
  moreover have "s \<in> reach (kids st) {s}" by (simp add: reach_root)
  ultimately have "blackens st st' (reach (kids st) {s})"
    using E b0 K0 a er blackensD(2,3) [OF E(1)] blackensD(1) [OF E(1)]
  proof (intro blackensI)
    show "y \<in> blacks st'" if "x \<in> blacks st'" "x \<notin> blacks st" "y \<in> set (kids st x)" for x y
      using that E(2) b0 K0 blackensD(4) [OF E(1), of x y] by (cases "x = s") auto
    show "color_of st' b = color_of st b \<and> trial_of st' b = trial_of st b" if "b \<notin> blacks st'" for b
      using that blackensD(2) [OF E(1)] blackensD(5,6) [OF E(1), of b] b0 a by (cases "b = s") auto
  qed auto
  moreover have "s \<in> blacks st'" using E(1) b0 by (auto simp: blackens_def)
  ultimately show ?case using E(2) by blast
qed

lemma scan_black_ends:
  assumes "closed st A" and "finite A" and "s \<in> A" and "card (A - insert s (blacks st)) < m"
  shows "\<exists>st'. gc_scan_black m s st = Some st'"
  using assms
proof (induction m arbitrary: s st)
  case 0
  then show ?case by simp
next
  case (Suc m)
  let ?f = "\<lambda>t st. if gc_get_color (trial_inc t st) t \<noteq> GC_BLACK then gc_scan_black m t (trial_inc t st)
               else Some (trial_inc t st)"
  have each: "\<exists>st'. gc_each_child ?f ts st = Some st'"
    if "closed st A" "set ts \<subseteq> A" "card (A - blacks st) < Suc m" for ts st
    using that
  proof (induction ts arbitrary: st)
    case Nil
    then show ?case by simp
  next
    case (Cons t ts)
    let ?st0 = "trial_inc t st"
    have a: "alloc st t" and tA: "t \<in> A" using Cons.prems by (auto simp: closed_def)
    have er: "erase ?st0 = erase st" using a by simp
    have b0: "blacks ?st0 = blacks st" using a by (simp add: blacks_def)
    have c0: "closed ?st0 A" using Cons.prems(1) closed_erase [OF er] by simp
    have "\<exists>st1. ?f t st = Some st1 \<and> erase st1 = erase st \<and> blacks st \<subseteq> blacks st1"
    proof (cases "color_of st t = GC_BLACK")
      case True
      then show ?thesis using a er b0 by (simp add: gc_get_color_def)
    next
      case False
      then have "t \<in> A - blacks ?st0" using tA b0 by (simp add: blacks_def)
      then have "card (A - insert t (blacks ?st0)) < card (A - blacks ?st0)"
        using Suc.prems(2) by (intro psubset_card_mono) auto
      then obtain st1 where 1: "gc_scan_black m t ?st0 = Some st1"
        using Suc.IH [OF c0 Suc.prems(2) tA] Cons.prems(3) b0 by auto
      with scan_black_blackens [OF c0 tA 1] er b0 False a show ?thesis
        by (auto simp: blackens_def gc_get_color_def)
    qed
    then obtain st1 where 1: "?f t st = Some st1" "erase st1 = erase st" "blacks st \<subseteq> blacks st1" by blast
    have "card (A - blacks st1) \<le> card (A - blacks st)" using 1(3) Suc.prems(2) by (intro card_mono) auto
    then have "\<exists>st'. gc_each_child ?f ts st1 = Some st'"
      using Cons.prems closed_erase [OF 1(2)] by (intro Cons.IH) auto
    with 1(1) show ?case by simp
  qed
  let ?st0 = "gc_set_color s GC_BLACK st"
  have a: "alloc st s" using Suc.prems by (auto simp: closed_def)
  have er: "erase ?st0 = erase st" using a by simp
  have "blacks ?st0 = insert s (blacks st)" using a by (auto simp: blacks_def)
  then have "\<exists>st'. gc_each_child ?f (kids st s) ?st0 = Some st'"
    using Suc.prems closed_erase [OF er] by (intro each) (auto simp: closed_def)
  then show ?case by (simp add: kids_def)
qed


text \<open>
  The state while a region \<open>R\<close> is scanned, with the trial counts \<open>T\<close> it had before: what is not black
  has its count still, what is white has none, and what is black is closed and below a block with one.
\<close>

definition scanned :: "nat set \<Rightarrow> (nat \<Rightarrow> nat) \<Rightarrow> gcst \<Rightarrow> bool" where
  "scanned R T st \<longleftrightarrow> closed st R \<and>
     (\<forall>b\<in>R. color_of st b \<noteq> GC_PURPLE) \<and>
     (\<forall>b\<in>R. color_of st b \<noteq> GC_BLACK \<longrightarrow> trial_of st b = T b) \<and>
     (\<forall>b\<in>R. color_of st b = GC_WHITE \<longrightarrow> T b = 0) \<and>
     (\<forall>b\<in>R. color_of st b = GC_BLACK \<longrightarrow>
        (\<forall>y\<in>set (kids st b). color_of st y = GC_BLACK) \<and> b \<in> reach (kids st) {x \<in> R. T x > 0})"

lemma scannedD:
  assumes "scanned R T st"
  shows "closed st R" and "b \<in> R \<Longrightarrow> color_of st b \<noteq> GC_PURPLE"
    and "b \<in> R \<Longrightarrow> color_of st b \<noteq> GC_BLACK \<Longrightarrow> trial_of st b = T b"
    and "b \<in> R \<Longrightarrow> color_of st b = GC_WHITE \<Longrightarrow> T b = 0"
    and "b \<in> R \<Longrightarrow> color_of st b = GC_BLACK \<Longrightarrow> y \<in> set (kids st b) \<Longrightarrow> color_of st y = GC_BLACK"
    and "b \<in> R \<Longrightarrow> color_of st b = GC_BLACK \<Longrightarrow> b \<in> reach (kids st) {x \<in> R. T x > 0}"
  using assms by (simp_all add: scanned_def)

text \<open>What scanning changes: grey goes, black stays, and a grey block that turns white has no grey child left.\<close>

definition scan_step :: "nat set \<Rightarrow> gcst \<Rightarrow> gcst \<Rightarrow> bool" where
  "scan_step R st st' \<longleftrightarrow> erase st' = erase st \<and>
     (\<forall>b. b \<notin> R \<longrightarrow> color_of st' b = color_of st b) \<and>
     (\<forall>b\<in>R. color_of st b \<noteq> GC_GREY \<longrightarrow> color_of st' b \<noteq> GC_GREY) \<and>
     (\<forall>b\<in>R. color_of st b = GC_BLACK \<longrightarrow> color_of st' b = GC_BLACK) \<and>
     (\<forall>b\<in>R. color_of st b = GC_GREY \<longrightarrow> color_of st' b \<noteq> GC_GREY \<longrightarrow> color_of st' b \<noteq> GC_BLACK \<longrightarrow>
        (\<forall>y\<in>set (kids st b). color_of st' y \<noteq> GC_GREY))"

lemma scan_stepD:
  assumes "scan_step R st st'"
  shows "erase st' = erase st" and "b \<notin> R \<Longrightarrow> color_of st' b = color_of st b"
    and "b \<in> R \<Longrightarrow> color_of st b \<noteq> GC_GREY \<Longrightarrow> color_of st' b \<noteq> GC_GREY"
    and "b \<in> R \<Longrightarrow> color_of st b = GC_BLACK \<Longrightarrow> color_of st' b = GC_BLACK"
    and "b \<in> R \<Longrightarrow> color_of st b = GC_GREY \<Longrightarrow> color_of st' b \<noteq> GC_GREY \<Longrightarrow> color_of st' b \<noteq> GC_BLACK \<Longrightarrow>
         y \<in> set (kids st b) \<Longrightarrow> color_of st' y \<noteq> GC_GREY"
  using assms by (simp_all add: scan_step_def)

lemma scan_step_refl: "scan_step R st st"
  by (simp add: scan_step_def)

lemma scan_step_trans:
  assumes c: "closed st R" and 1: "scan_step R st st1" and 2: "scan_step R st1 st2"
  shows "scan_step R st st2"
proof -
  have K: "kids st1 = kids st" by (rule erase_same(1) [OF scan_stepD(1) [OF 1]])
  have "color_of st2 y \<noteq> GC_GREY"
    if "b \<in> R" "color_of st b = GC_GREY" "color_of st2 b \<noteq> GC_GREY" "color_of st2 b \<noteq> GC_BLACK"
      "y \<in> set (kids st b)" for b y
  proof (cases "color_of st1 b = GC_GREY")
    case True
    then show ?thesis using that K scan_stepD(5) [OF 2, of b y] by simp
  next
    case False
    have y: "y \<in> R" using closedD(2) [OF c that(1)] that(5) by blast
    have "color_of st1 b \<noteq> GC_BLACK" using that(1,4) scan_stepD(4) [OF 2, of b] by auto
    then have "color_of st1 y \<noteq> GC_GREY" using that False scan_stepD(5) [OF 1, of b y] by blast
    then show ?thesis using scan_stepD(3) [OF 2 y] by blast
  qed
  then show ?thesis
    unfolding scan_step_def
  proof (intro conjI allI ballI impI)
    show "erase st2 = erase st" using scan_stepD(1) [OF 1] scan_stepD(1) [OF 2] by simp
    show "color_of st2 b = color_of st b" if "b \<notin> R" for b
      using scan_stepD(2) [OF 1 that] scan_stepD(2) [OF 2 that] by simp
    show "color_of st2 b \<noteq> GC_GREY" if "b \<in> R" "color_of st b \<noteq> GC_GREY" for b
      by (rule scan_stepD(3) [OF 2 that(1) scan_stepD(3) [OF 1 that]])
    show "color_of st2 b = GC_BLACK" if "b \<in> R" "color_of st b = GC_BLACK" for b
      by (rule scan_stepD(4) [OF 2 that(1) scan_stepD(4) [OF 1 that]])
  qed blast
qed

lemma scanned_white:
  assumes sc: "scanned R T st" and s: "s \<in> R" and 3: "color_of st s = GC_GREY" "trial_of st s = 0"
  shows "scanned R T (gc_set_color s GC_WHITE st)"
proof -
  let ?st0 = "gc_set_color s GC_WHITE st"
  have cl: "closed st R" by (rule scannedD(1) [OF sc])
  have a: "alloc st s" by (rule closedD(1) [OF cl s])
  have er: "erase ?st0 = erase st" using a by simp
  have K0: "kids ?st0 = kids st" by (rule erase_same(1) [OF er])
  have T0: "T s = 0" using 3 scannedD(3) [OF sc s] by simp
  show ?thesis
      unfolding scanned_def
  proof (intro conjI ballI impI)
    show "closed ?st0 R" using cl closed_erase [OF er] by simp
    fix b assume b: "b \<in> R"
    show "color_of ?st0 b \<noteq> GC_PURPLE" using scannedD(2) [OF sc b] a by simp
    show "trial_of ?st0 b = T b" if "color_of ?st0 b \<noteq> GC_BLACK"
      using that scannedD(3) [OF sc b] a 3 T0 by (cases "b = s") auto
    show "T b = 0" if "color_of ?st0 b = GC_WHITE"
      using that scannedD(4) [OF sc b] a T0 by (cases "b = s") auto
    assume bk: "color_of ?st0 b = GC_BLACK"
    then have bb: "b \<noteq> s" "color_of st b = GC_BLACK" using a by (auto split: if_splits)
    show "b \<in> reach (kids ?st0) {x \<in> R. T x > 0}" using scannedD(6) [OF sc b bb(2)] K0 by simp
    fix y assume "y \<in> set (kids ?st0 b)"
    then have "color_of st y = GC_BLACK" using scannedD(5) [OF sc b bb(2)] K0 by simp
    then show "color_of ?st0 y = GC_BLACK" using 3 a by auto
    qed
qed

lemma scanned_black:
  assumes sc: "scanned R T st" and s: "s \<in> R" and 2: "color_of st s = GC_GREY" "trial_of st s > 0"
    and bl: "blackens st st' (reach (kids st) {s})"
  shows "scanned R T st' \<and> scan_step R st st'"
proof
  have cl: "closed st R" by (rule scannedD(1) [OF sc])
  have K: "kids st' = kids st" by (rule erase_same(1) [OF blackensD(1) [OF bl]])
  have inR: "reach (kids st) {s} \<subseteq> R"
  proof
    fix x assume "x \<in> reach (kids st) {s}"
    then show "x \<in> R" by (rule reach_closed) (use s closedD(2) [OF cl] in auto)
  qed
  have Ts: "T s > 0" using 2 scannedD(3) [OF sc s] by simp
  have top: "reach (kids st) {s} \<subseteq> reach (kids st) {x \<in> R. T x > 0}"
  proof
    fix x assume "x \<in> reach (kids st) {s}"
    then show "x \<in> reach (kids st) {x \<in> R. T x > 0}"
      by (rule reach_mono) (use Ts s in \<open>auto intro: reach_root\<close>)
  qed
  have col: "color_of st' b = (if b \<in> blacks st' then GC_BLACK else color_of st b)" for b
    using blackensD(5) [OF bl, of b] by (auto simp: blacks_def)
  have new: "b \<in> blacks st' \<Longrightarrow> b \<in> blacks st \<or> b \<in> reach (kids st) {s}" for b
    using blackensD(3) [OF bl] by blast
  show "scanned R T st'"
    unfolding scanned_def
  proof (intro conjI ballI impI)
    show "closed st' R" using cl closed_erase [OF blackensD(1) [OF bl]] by simp
    fix b assume b: "b \<in> R"
    show "color_of st' b \<noteq> GC_PURPLE" using scannedD(2) [OF sc b] by (simp add: col)
    show "trial_of st' b = T b" if "color_of st' b \<noteq> GC_BLACK"
      using that scannedD(3) [OF sc b] blackensD(6) [OF bl, of b] by (auto simp: col split: if_splits)
    show "T b = 0" if "color_of st' b = GC_WHITE"
      using that scannedD(4) [OF sc b] by (auto simp: col split: if_splits)
    assume bk: "color_of st' b = GC_BLACK"
    then have bb: "b \<in> blacks st'" by (simp add: blacks_def)
    show "b \<in> reach (kids st') {x \<in> R. T x > 0}"
      using new [OF bb] scannedD(6) [OF sc b] top K by (auto simp: blacks_def)
    fix y assume y: "y \<in> set (kids st' b)"
    have "y \<in> blacks st'"
    proof (cases "b \<in> blacks st")
      case True
      then have "color_of st y = GC_BLACK" using scannedD(5) [OF sc b] y K by (simp add: blacks_def)
      then show ?thesis using blackensD(2) [OF bl] by (auto simp: blacks_def)
    next
      case False
      then show ?thesis using blackensD(4) [OF bl bb, of y] y K by simp
    qed
    then show "color_of st' y = GC_BLACK" by (simp add: blacks_def)
  qed
  show "scan_step R st st'"
    unfolding scan_step_def
  proof (intro conjI allI ballI impI)
    show "erase st' = erase st" by (rule blackensD(1) [OF bl])
    show "color_of st' b = color_of st b" if "b \<notin> R" for b
    proof (cases "b \<in> blacks st'")
      case True
      then have "b \<in> blacks st" using new inR that by blast
      with True show ?thesis by (simp add: blacks_def)
    qed (simp add: col)
    show "color_of st' b \<noteq> GC_GREY" if "color_of st b \<noteq> GC_GREY" for b using that by (simp add: col)
    show "color_of st' b = GC_BLACK" if "color_of st b = GC_BLACK" for b
      using that blackensD(2) [OF bl] by (auto simp: blacks_def)
    show "color_of st' y \<noteq> GC_GREY"
      if "color_of st b = GC_GREY" "color_of st' b \<noteq> GC_GREY" "color_of st' b \<noteq> GC_BLACK" for b y
      using that col [of b] by (simp split: if_splits)
  qed
qed

lemma scan_spec:
  assumes "scanned R T st" and "s \<in> R" and "gc_scan m s st = Some st'"
  shows "scanned R T st' \<and> scan_step R st st' \<and> color_of st' s \<noteq> GC_GREY"
  using assms
proof (induction m arbitrary: s st st')
  case 0
  then show ?case by simp
next
  case (Suc m)
  have each: "scanned R T st' \<and> scan_step R st st' \<and> (\<forall>t\<in>set ts. color_of st' t \<noteq> GC_GREY)"
    if "scanned R T st" "set ts \<subseteq> R" "gc_each_child (\<lambda>t st. gc_scan m t st) ts st = Some st'" for ts st st'
    using that
  proof (induction ts arbitrary: st)
    case Nil
    then show ?case by (simp add: scan_step_refl)
  next
    case (Cons t ts)
    obtain st1 where 1: "gc_scan m t st = Some st1" "gc_each_child (\<lambda>t st. gc_scan m t st) ts st1 = Some st'"
      using Cons.prems(3) by (auto split: option.splits)
    have t: "t \<in> R" and ts: "set ts \<subseteq> R" using Cons.prems(2) by auto
    have A: "scanned R T st1" "scan_step R st st1" "color_of st1 t \<noteq> GC_GREY"
      using Suc.IH [OF Cons.prems(1) t 1(1)] by blast+
    have B: "scanned R T st'" "scan_step R st1 st'" "\<forall>t\<in>set ts. color_of st' t \<noteq> GC_GREY"
      using Cons.IH [OF A(1) ts 1(2)] by blast+
    have "scan_step R st st'" by (rule scan_step_trans [OF scannedD(1) [OF Cons.prems(1)] A(2) B(2)])
    moreover have "color_of st' t \<noteq> GC_GREY" using scan_stepD(3) [OF B(2) t A(3)] .
    ultimately show ?case using B by simp
  qed
  have cl: "closed st R" by (rule scannedD(1) [OF Suc.prems(1)])
  consider "color_of st s \<noteq> GC_GREY" | "color_of st s = GC_GREY" "trial_of st s > 0"
    | "color_of st s = GC_GREY" "trial_of st s = 0" by blast
  then show ?case
  proof cases
    case 1
    then show ?thesis using Suc.prems by (simp add: gc_get_color_def scan_step_refl)
  next
    case 2
    then have sb: "gc_scan_black m s st = Some st'" using Suc.prems(3) by (simp add: gc_get_color_def)
    note B = scan_black_blackens [OF cl Suc.prems(2) sb]
    then have bl: "blackens st st' (reach (kids st) {s})" and sb': "s \<in> blacks st'" by blast+
    from scanned_black [OF Suc.prems(1,2) 2 bl] sb' show ?thesis by (simp add: blacks_def)
  next
    case 3
    let ?st0 = "gc_set_color s GC_WHITE st"
    have a: "alloc st s" by (rule closedD(1) [OF cl Suc.prems(2)])
    have er: "erase ?st0 = erase st" using a by simp
    have K0: "kids ?st0 = kids st" by (rule erase_same(1) [OF er])
    have T0: "T s = 0" using 3 scannedD(3) [OF Suc.prems(1,2)] by simp
    have "scanned R T ?st0" by (rule scanned_white [OF Suc.prems(1,2) 3])
    moreover have "set (kids st s) \<subseteq> R" by (rule closedD(2) [OF cl Suc.prems(2)])
    moreover have "gc_each_child (\<lambda>t st. gc_scan m t st) (kids st s) ?st0 = Some st'"
      using Suc.prems(3) 3 by (simp add: gc_get_color_def kids_def)
    ultimately have "scanned R T st' \<and> scan_step R ?st0 st' \<and> (\<forall>t\<in>set (kids st s). color_of st' t \<noteq> GC_GREY)"
      by (rule each)
    then have E: "scanned R T st'" "scan_step R ?st0 st'" "\<forall>t\<in>set (kids st s). color_of st' t \<noteq> GC_GREY"
      by simp_all
    have sg: "color_of st' s \<noteq> GC_GREY" using scan_stepD(3) [OF E(2) Suc.prems(2)] a by simp
    have "scan_step R st st'"
      unfolding scan_step_def
    proof (intro conjI allI ballI impI)
      show "erase st' = erase st" using scan_stepD(1) [OF E(2)] er by simp
      show "color_of st' b = color_of st b" if "b \<notin> R" for b
        using that scan_stepD(2) [OF E(2) that] a Suc.prems(2) by auto
      fix b assume b: "b \<in> R"
      show "color_of st' b \<noteq> GC_GREY" if "color_of st b \<noteq> GC_GREY"
        using that scan_stepD(3) [OF E(2) b] a by auto
      show "color_of st' b = GC_BLACK" if "color_of st b = GC_BLACK"
        using that scan_stepD(4) [OF E(2) b] a 3 by (cases "b = s") auto
      fix y assume "color_of st b = GC_GREY" "color_of st' b \<noteq> GC_GREY" "color_of st' b \<noteq> GC_BLACK"
        "y \<in> set (kids st b)"
      then show "color_of st' y \<noteq> GC_GREY"
        using E(3) scan_stepD(5) [OF E(2) b, of y] a K0 by (cases "b = s") auto
    qed
    then show ?thesis using E(1) sg by blast
  qed
qed

lemma scan_ends:
  assumes "scanned R T st" and "finite R" and "s \<in> R" and "card R + card (R \<inter> greys st) < m"
  shows "\<exists>st'. gc_scan m s st = Some st'"
  using assms
proof (induction m arbitrary: s st)
  case 0
  then show ?case by simp
next
  case (Suc m)
  have each: "\<exists>st'. gc_each_child (\<lambda>t st. gc_scan m t st) ts st = Some st'"
    if "scanned R T st" "set ts \<subseteq> R" "card R + card (R \<inter> greys st) < m" for ts st
    using that
  proof (induction ts arbitrary: st)
    case Nil
    then show ?case by simp
  next
    case (Cons t ts)
    have t: "t \<in> R" using Cons.prems(2) by simp
    obtain st1 where 1: "gc_scan m t st = Some st1" using Suc.IH [OF Cons.prems(1) Suc.prems(2) t Cons.prems(3)] by blast
    have A: "scanned R T st1" "scan_step R st st1" using scan_spec [OF Cons.prems(1) t 1] by blast+
    have "R \<inter> greys st1 \<subseteq> R \<inter> greys st" using scan_stepD(3) [OF A(2)] by (auto simp: greys_def)
    then have "card (R \<inter> greys st1) \<le> card (R \<inter> greys st)" using Suc.prems(2) by (intro card_mono) auto
    then have "\<exists>st'. gc_each_child (\<lambda>t st. gc_scan m t st) ts st1 = Some st'"
      using Cons.prems A(1) by (intro Cons.IH) auto
    with 1 show ?case by simp
  qed
  have cl: "closed st R" by (rule scannedD(1) [OF Suc.prems(1)])
  have a: "alloc st s" by (rule closedD(1) [OF cl Suc.prems(3)])
  consider "color_of st s \<noteq> GC_GREY" | "color_of st s = GC_GREY" "trial_of st s > 0"
    | "color_of st s = GC_GREY" "trial_of st s = 0" by blast
  then show ?case
  proof cases
    case 1
    then show ?thesis by (simp add: gc_get_color_def)
  next
    case 2
    have "s \<in> R \<inter> greys st" using 2 Suc.prems(3) by (simp add: greys_def)
    then have "0 < card (R \<inter> greys st)" using Suc.prems(2) by (metis card_gt_0_iff empty_iff finite_Int)
    moreover have "card (R - insert s (blacks st)) \<le> card R" using Suc.prems(2) by (intro card_mono) auto
    ultimately have "card (R - insert s (blacks st)) < m" using Suc.prems(4) by simp
    then show ?thesis using scan_black_ends [OF cl Suc.prems(2,3)] 2 by (simp add: gc_get_color_def)
  next
    case 3
    let ?st0 = "gc_set_color s GC_WHITE st"
    have er: "erase ?st0 = erase st" using a by simp
    have "scanned R T ?st0" by (rule scanned_white [OF Suc.prems(1,3) 3])
    moreover have "R \<inter> greys ?st0 = (R \<inter> greys st) - {s}" using a by (auto simp: greys_def)
    then have "card (R \<inter> greys ?st0) < card (R \<inter> greys st)"
      using Suc.prems(2,3) 3 by (metis (mono_tags) IntI card_Diff1_less finite_Int greys_def mem_Collect_eq)
    ultimately have "\<exists>st'. gc_each_child (\<lambda>t st. gc_scan m t st) (kids st s) ?st0 = Some st'"
      using Suc.prems(4) closedD(2) [OF cl Suc.prems(3)] by (intro each) auto
    then show ?thesis using 3 by (simp add: gc_get_color_def kids_def)
  qed
qed


section \<open>Gathering\<close>

definition unseen :: "gcst \<Rightarrow> nat \<Rightarrow> bool" where
  "unseen st b \<longleftrightarrow> color_of st b = GC_WHITE \<and> \<not> cb_buffered (blk st b)"

abbreviation with_pending :: "nat list \<Rightarrow> nat \<Rightarrow> gcst \<Rightarrow> gcst" where
  "with_pending p n st \<equiv> st\<lparr>gc_pending_cap := n, gc_pending := p\<rparr>"

lemma with_pending_blk [simp]:
  "blk (with_pending p n st) b = blk st b" "kids (with_pending p n st) = kids st" "alloc (with_pending p n st) = alloc st"
  "unseen (with_pending p n st) b = unseen st b" "closed (with_pending p n st) A = closed st A"
  by (auto simp: blk_def kids_def alloc_def unseen_def closed_def fun_eq_iff)

text \<open>
  Gathering from a block: the blocks \<open>ns\<close> join the list, each was white and unbuffered, is black then, and
  leaves no such child behind.
\<close>

definition gathers :: "gcst \<Rightarrow> gcst \<Rightarrow> nat list \<Rightarrow> bool" where
  "gathers st st' ns \<longleftrightarrow>
     erase (with_pending (gc_pending st) (gc_pending_cap st) st') = erase st \<and>
     gc_pending st' = gc_pending st @ ns \<and> distinct ns \<and>
     (\<forall>b. color_of st' b = (if b \<in> set ns then GC_BLACK else color_of st b)) \<and>
     (\<forall>b\<in>set ns. unseen st b \<and> (\<forall>y\<in>set (kids st b). \<not> unseen st' y))"

lemma gathersD:
  assumes "gathers st st' ns"
  shows "kids st' = kids st" and "alloc st' = alloc st" and "gc_pending st' = gc_pending st @ ns" and "distinct ns"
    and "color_of st' b = (if b \<in> set ns then GC_BLACK else color_of st b)"
    and "b \<in> set ns \<Longrightarrow> unseen st b"
    and "b \<in> set ns \<Longrightarrow> y \<in> set (kids st b) \<Longrightarrow> \<not> unseen st' y"
    and "cb_buffered (blk st' b) = cb_buffered (blk st b)"
    and "erase (with_pending (gc_pending st) (gc_pending_cap st) st') = erase st"
proof -
  have e: "erase (with_pending (gc_pending st) (gc_pending_cap st) st') = erase st" using assms by (simp add: gathers_def)
  then show "erase (with_pending (gc_pending st) (gc_pending_cap st) st') = erase st" .
  show "kids st' = kids st" "alloc st' = alloc st" "cb_buffered (blk st' b) = cb_buffered (blk st b)"
    using erase_same(1,3) [OF e] erase_same(4) [OF e, of b] by simp_all
qed (use assms in \<open>simp_all add: gathers_def\<close>)

lemma gathers_unseen:
  assumes "gathers st st' ns"
  shows "unseen st' b \<longleftrightarrow> unseen st b \<and> b \<notin> set ns"
  using gathersD(5) [OF assms, of b] gathersD(8) [OF assms, of b] by (auto simp: unseen_def)

lemma gathers_refl: "gathers st st []"
  by (simp add: gathers_def)

lemma erase_with_pending: "erase (with_pending p n st) = with_pending p n (erase st)"
  by (simp add: erase_def)

lemma gathers_trans:
  assumes 1: "gathers st st1 ns" and 2: "gathers st1 st2 ms"
  shows "gathers st st2 (ns @ ms)"
proof -
  have dis: "set ns \<inter> set ms = {}" using gathersD(6) [OF 2] gathers_unseen [OF 1] by blast
  have "erase (with_pending (gc_pending st) (gc_pending_cap st) st2) =
      with_pending (gc_pending st) (gc_pending_cap st) (erase (with_pending (gc_pending st1) (gc_pending_cap st1) st2))"
    by (simp add: erase_with_pending)
  also have "\<dots> = erase (with_pending (gc_pending st) (gc_pending_cap st) st1)"
    unfolding gathersD(9) [OF 2] by (simp add: erase_with_pending)
  finally have "erase (with_pending (gc_pending st) (gc_pending_cap st) st2) = erase st" using gathersD(9) [OF 1] by simp
  moreover have "\<not> unseen st2 y" if "b \<in> set ns" "y \<in> set (kids st b)" for b y
    using gathersD(7) [OF 1 that] gathers_unseen [OF 2] by blast
  moreover have "\<not> unseen st2 y" if "b \<in> set ms" "y \<in> set (kids st b)" for b y
    using gathersD(7) [OF 2 that(1), of y] that(2) gathersD(1) [OF 1] by simp
  ultimately show ?thesis
    using dis gathersD(3,4) [OF 1] gathersD(3,4) [OF 2] gathersD(5) [OF 1] gathersD(5) [OF 2]
      gathersD(6) [OF 1] gathersD(6) [OF 2] gathers_unseen [OF 1]
    unfolding gathers_def by auto
qed

lemma reserve_granted: "\<forall>n. mem n \<Longrightarrow> \<exists>cap. (if len \<ge> c then gc_vec_reserve mem c (len + 1) else Some c) = Some cap"
  by (simp add: gc_vec_reserve_def Let_def)

lemma collect_white_gathers:
  assumes mem: "\<forall>n. mem n" and "closed st A" and "s \<in> A" and "gc_collect_white mem m s st = Some st'"
  shows "\<exists>ns. gathers st st' ns \<and> \<not> unseen st' s \<and> set ns \<subseteq> reach (kids st) {s}"
  using assms(2-)
proof (induction m arbitrary: s st st')
  case 0
  then show ?case by simp
next
  case (Suc m)
  have each: "\<exists>ns. gathers st st' ns \<and> (\<forall>t\<in>set ts. \<not> unseen st' t) \<and> set ns \<subseteq> reach (kids st) (set ts)"
    if "closed st A" "set ts \<subseteq> A" "gc_each_child (\<lambda>t st. gc_collect_white mem m t st) ts st = Some st'" for ts st st'
    using that
  proof (induction ts arbitrary: st)
    case Nil
    then show ?case using gathers_refl by (intro exI [of _ "[]"]) simp
  next
    case (Cons t ts)
    obtain st1 where 1: "gc_collect_white mem m t st = Some st1"
        "gc_each_child (\<lambda>t st. gc_collect_white mem m t st) ts st1 = Some st'"
      using Cons.prems(3) by (auto split: option.splits)
    obtain ms where M: "gathers st st1 ms" "\<not> unseen st1 t" "set ms \<subseteq> reach (kids st) {t}"
      using Suc.IH [OF Cons.prems(1) _ 1(1)] Cons.prems(2) by auto
    have "closed st1 A" using Cons.prems(1) gathersD(1,2) [OF M(1)] by (simp add: closed_def)
    then obtain ns where N: "gathers st1 st' ns" "\<forall>t\<in>set ts. \<not> unseen st' t" "set ns \<subseteq> reach (kids st1) (set ts)"
      using Cons.IH [OF _ _ 1(2)] Cons.prems(2) by auto
    have "gathers st st' (ms @ ns)" by (rule gathers_trans [OF M(1) N(1)])
    moreover have "\<not> unseen st' t" using M(2) gathers_unseen [OF N(1)] by blast
    moreover have "set (ms @ ns) \<subseteq> reach (kids st) (set (t # ts))"
      using M(3) N(3) gathersD(1) [OF M(1)] by (auto intro: reach_mono reach_root)
    ultimately show ?case using N(2) by (intro exI [of _ "ms @ ns"]) simp
  qed
  show ?case
  proof (cases "unseen st s")
    case False
    then have "st' = st" using Suc.prems(3) by (auto simp: unseen_def gc_get_color_def)
    then show ?thesis using False gathers_refl by (intro exI [of _ "[]"]) simp
  next
    case True
    let ?st0 = "gc_set_color s GC_BLACK st"
    have a: "alloc st s" by (rule closedD(1) [OF Suc.prems(1,2)])
    have er: "erase ?st0 = erase st" using a by simp
    have K0: "kids ?st0 = kids st" by (rule erase_same(1) [OF er])
    have p0: "gc_pending ?st0 = gc_pending st" by (rule erase_same(6) [OF er])
    obtain cap where cap: "(if length (gc_pending ?st0) \<ge> gc_pending_cap ?st0
        then gc_vec_reserve mem (gc_pending_cap ?st0) (length (gc_pending ?st0) + 1) else Some (gc_pending_cap ?st0)) = Some cap"
      using reserve_granted [OF mem] by blast
    let ?st1 = "with_pending (gc_pending st @ [s]) cap ?st0"
    have run: "gc_each_child (\<lambda>t st. gc_collect_white mem m t st) (kids st s) ?st1 = Some st'"
      using Suc.prems(3) True cap unfolding unseen_def gc_collect_white.simps
      by (simp add: gc_get_color_def kids_def p0)
    have c1: "closed ?st1 A" using Suc.prems(1) closed_erase [OF er] by simp
    obtain ns where N: "gathers ?st1 st' ns" "\<forall>t\<in>set (kids st s). \<not> unseen st' t" "set ns \<subseteq> reach (kids st) (set (kids st s))"
      using each [OF c1 closedD(2) [OF Suc.prems(1,2)] run] K0 by auto
    have u1: "unseen ?st1 b \<longleftrightarrow> unseen st b \<and> b \<noteq> s" for b
      using a erase_same(4) [OF er, of b] by (auto simp: unseen_def)
    have sn: "s \<notin> set ns" using gathersD(6) [OF N(1), of s] u1 by blast
    have "erase (with_pending (gc_pending st) (gc_pending_cap st) st') =
        with_pending (gc_pending st) (gc_pending_cap st) (erase (with_pending (gc_pending ?st1) (gc_pending_cap ?st1) st'))"
      by (simp add: erase_with_pending)
    also have "\<dots> = with_pending (gc_pending st) (gc_pending_cap st) (erase st)"
      unfolding gathersD(9) [OF N(1)] by (simp add: erase_with_pending er)
    also have "\<dots> = erase st" by (simp add: erase_def)
    finally have "gathers st st' (s # ns)"
      using N(2) sn gathersD(3,4) [OF N(1)] gathersD(5) [OF N(1)] gathersD(6,7) [OF N(1)] u1 True a K0
      unfolding gathers_def by auto
    moreover have "\<not> unseen st' s" using gathers_unseen [OF N(1)] u1 by blast
    moreover have "set (s # ns) \<subseteq> reach (kids st) {s}"
      using N(3) reach_kids [of "kids st" s] by (auto intro: reach_root)
    ultimately show ?thesis by blast
  qed
qed

lemma collect_white_ends:
  assumes mem: "\<forall>n. mem n" and "closed st A" and "finite A" and "s \<in> A" and "card {b \<in> A. unseen st b} < m"
  shows "\<exists>st'. gc_collect_white mem m s st = Some st'"
  using assms(2-)
proof (induction m arbitrary: s st)
  case 0
  then show ?case by simp
next
  case (Suc m)
  have each: "\<exists>st'. gc_each_child (\<lambda>t st. gc_collect_white mem m t st) ts st = Some st'"
    if "closed st A" "set ts \<subseteq> A" "card {b \<in> A. unseen st b} < m" for ts st
    using that
  proof (induction ts arbitrary: st)
    case Nil
    then show ?case by simp
  next
    case (Cons t ts)
    have t: "t \<in> A" using Cons.prems(2) by simp
    obtain st1 where 1: "gc_collect_white mem m t st = Some st1"
      using Suc.IH [OF Cons.prems(1) Suc.prems(2) t Cons.prems(3)] by blast
    obtain ms where M: "gathers st st1 ms" using collect_white_gathers [OF mem Cons.prems(1) t 1] by blast
    have "card {b \<in> A. unseen st1 b} \<le> card {b \<in> A. unseen st b}"
      using Suc.prems(2) gathers_unseen [OF M] by (intro card_mono) auto
    then have less: "card {b \<in> A. unseen st1 b} < m" using Cons.prems(3) by simp
    have c1: "closed st1 A" using Cons.prems(1) gathersD(1,2) [OF M] by (simp add: closed_def)
    have "set ts \<subseteq> A" using Cons.prems(2) by simp
    then have "\<exists>st'. gc_each_child (\<lambda>t st. gc_collect_white mem m t st) ts st1 = Some st'"
      by (rule Cons.IH [OF c1 _ less])
    with 1 show ?case by simp
  qed
  show ?case
  proof (cases "unseen st s")
    case False
    then show ?thesis by (auto simp: unseen_def gc_get_color_def)
  next
    case True
    let ?st0 = "gc_set_color s GC_BLACK st"
    have a: "alloc st s" by (rule closedD(1) [OF Suc.prems(1,3)])
    have er: "erase ?st0 = erase st" using a by simp
    have p0: "gc_pending ?st0 = gc_pending st" by (rule erase_same(6) [OF er])
    obtain cap where cap: "(if length (gc_pending ?st0) \<ge> gc_pending_cap ?st0
        then gc_vec_reserve mem (gc_pending_cap ?st0) (length (gc_pending ?st0) + 1) else Some (gc_pending_cap ?st0)) = Some cap"
      using reserve_granted [OF mem] by blast
    let ?st1 = "with_pending (gc_pending st @ [s]) cap ?st0"
    have u1: "unseen ?st1 b \<longleftrightarrow> unseen st b \<and> b \<noteq> s" for b
      using a erase_same(4) [OF er, of b] by (auto simp: unseen_def)
    have "{b \<in> A. unseen ?st1 b} = {b \<in> A. unseen st b} - {s}" unfolding u1 by blast
    moreover have "s \<in> {b \<in> A. unseen st b}" using True Suc.prems(3) by blast
    ultimately have less: "card {b \<in> A. unseen ?st1 b} < card {b \<in> A. unseen st b}"
      using Suc.prems(2) by (simp only:) (intro card_Diff1_less, simp_all)
    have c1: "closed ?st1 A" using Suc.prems(1) closed_erase [OF er] by simp
    have "\<exists>st'. gc_each_child (\<lambda>t st. gc_collect_white mem m t st) (kids st s) ?st1 = Some st'"
      by (rule each [OF c1 closedD(2) [OF Suc.prems(1,3)]]) (use less Suc.prems(4) in linarith)
    then show ?thesis using True cap unfolding unseen_def gc_collect_white.simps
      by (simp add: gc_get_color_def kids_def p0)
  qed
qed

end
