(* ===== verification/GcFind.thy ===== *)
theory GcFind
  imports GcSound
begin

text \<open>
  The phases of a collection put together: which blocks \<open>gc_find_white\<close> puts on the list, and that it
  changes nothing but colours, trial counts, the candidate buffer and that list.
\<close>

section \<open>A heap ready for a collection\<close>

definition cands :: "gcst \<Rightarrow> nat set" where
  "cands st = {s \<in> set (gc_suspects st). strong_of st s > 0}"

text \<open>
  Every registered block is allocated and refers to registered blocks only; the flag says who is in
  the buffer; candidates are purple and nobody is grey; and the count of a block covers at least the
  references that the collector can see.
\<close>

definition heap_ok :: "gcst \<Rightarrow> bool" where
  "heap_ok st \<longleftrightarrow> closed st (set (gc_all st)) \<and> set (gc_suspects st) \<subseteq> set (gc_all st) \<and>
     (\<forall>b\<in>set (gc_all st). cb_buffered (blk st b) \<longleftrightarrow> b \<in> set (gc_suspects st)) \<and>
     (\<forall>s\<in>cands st. color_of st s = GC_PURPLE) \<and> greys st = {} \<and>
     (\<forall>b\<in>set (gc_all st). seen_refs (kids st) (set (gc_all st)) b \<le> strong_of st b)"

text \<open>What is reachable from the candidates, and the part of it that nothing outside it keeps.\<close>

definition region :: "gcst \<Rightarrow> nat set" where
  "region st = reach (kids st) (cands st)"

definition anchors :: "gcst \<Rightarrow> nat set" where
  "anchors st = {x \<in> region st. seen_refs (kids st) (region st) x < strong_of st x}"

definition garbage :: "gcst \<Rightarrow> nat set" where
  "garbage st = region st - reach (kids st) (anchors st)"

lemma heap_okD:
  assumes "heap_ok st"
  shows "closed st (set (gc_all st))" and "set (gc_suspects st) \<subseteq> set (gc_all st)"
    and "b \<in> set (gc_all st) \<Longrightarrow> cb_buffered (blk st b) \<longleftrightarrow> b \<in> set (gc_suspects st)"
    and "s \<in> cands st \<Longrightarrow> color_of st s = GC_PURPLE" and "greys st = {}"
    and "b \<in> set (gc_all st) \<Longrightarrow> seen_refs (kids st) (set (gc_all st)) b \<le> strong_of st b"
  using assms by (simp_all add: heap_ok_def)

lemma region_all: "heap_ok st \<Longrightarrow> region st \<subseteq> set (gc_all st)"
proof
  fix x assume h: "heap_ok st" and "x \<in> region st"
  then have "x \<in> reach (kids st) (cands st)" by (simp add: region_def)
  then show "x \<in> set (gc_all st)"
    by (rule reach_closed) (use heap_okD(2) [OF h] closedD(2) [OF heap_okD(1) [OF h]] in \<open>auto simp: cands_def\<close>)
qed

lemma region_closed: "heap_ok st \<Longrightarrow> closed st (region st)"
  using region_all [of st] heap_okD(1) [of st] by (auto simp: closed_def region_def intro: reach_step)

lemma seen_refs_mono: "finite A \<Longrightarrow> B \<subseteq> A \<Longrightarrow> seen_refs K B b \<le> seen_refs K A b"
  by (simp add: seen_refs_def sum_mono2)

lemma seen_refs_pos: "finite A \<Longrightarrow> x \<in> A \<Longrightarrow> b \<in> set (K x) \<Longrightarrow> 0 < seen_refs K A b"
  unfolding seen_refs_def by (rule sum_pos2 [of A x]) (auto simp: count_list_0_iff simp flip: neq0_conv)

lemma region_strong:
  assumes h: "heap_ok st" and b: "b \<in> region st"
  shows "0 < strong_of st b"
  using b unfolding region_def
proof (cases rule: reach.cases)
  case (reach_step x)
  then have "x \<in> set (gc_all st)" using region_all [OF h] by (auto simp: region_def)
  then have "0 < seen_refs (kids st) (set (gc_all st)) b" using reach_step(2) by (intro seen_refs_pos) auto
  also have "\<dots> \<le> strong_of st b" using region_all [OF h] b by (intro heap_okD(6) [OF h]) auto
  finally show ?thesis .
qed (simp add: cands_def)

text \<open>A buffered block of the region is a candidate.\<close>

lemma region_buffered:
  assumes h: "heap_ok st" and b: "b \<in> region st" and "cb_buffered (blk st b)"
  shows "b \<in> cands st"
  using assms heap_okD(3) [OF h, of b] region_all [OF h] region_strong [OF h b] by (auto simp: cands_def)


section \<open>Marking and scanning from the roots\<close>

lemma trial_reset_fold:
  assumes "\<forall>b\<in>set bs. alloc st b"
  shows "erase (fold (\<lambda>b. upd b (\<lambda>c. c\<lparr>cb_trial := cb_strong c\<rparr>)) bs st) = erase st \<and>
    (\<forall>b. color_of (fold (\<lambda>b. upd b (\<lambda>c. c\<lparr>cb_trial := cb_strong c\<rparr>)) bs st) b = color_of st b) \<and>
    (\<forall>b\<in>set bs. trial_of (fold (\<lambda>b. upd b (\<lambda>c. c\<lparr>cb_trial := cb_strong c\<rparr>)) bs st) b = strong_of st b)"
  using assms
proof (induction bs rule: rev_induct)
  case (snoc x bs)
  let ?st = "fold (\<lambda>b. upd b (\<lambda>c. c\<lparr>cb_trial := cb_strong c\<rparr>)) bs st"
  have IH: "erase ?st = erase st" "\<forall>b. color_of ?st b = color_of st b" "\<forall>b\<in>set bs. trial_of ?st b = strong_of st b"
    using snoc by auto
  have a: "alloc ?st x" using snoc.prems erase_same(3) [OF IH(1)] by simp
  have "strong_of ?st x = strong_of st x" by (rule erase_same(2) [OF IH(1)])
  then show ?case using IH a upd_erase [OF a, of "\<lambda>c. c\<lparr>cb_trial := cb_strong c\<rparr>"] by (auto simp: blk_upd)
qed simp

lemma trial_reset_ok:
  assumes "closed st (set (gc_all st))"
  shows "erase (trial_reset st) = erase st" and "color_of (trial_reset st) b = color_of st b"
    and "b \<in> set (gc_all st) \<Longrightarrow> trial_of (trial_reset st) b = strong_of st b"
  using trial_reset_fold [of "gc_all st" st] closedD(1) [OF assms] by (simp_all add: trial_reset_def)

lemma mark_roots_each:
  assumes "closed st A" and "finite A" and "card A < m" and "set ss \<subseteq> A"
    and "\<forall>s\<in>set ss. strong_of st s > 0 \<longrightarrow> color_of st s = GC_PURPLE \<or> color_of st s = GC_GREY"
  shows "\<exists>st' N. gc_each_child (\<lambda>s st. if gc_get_color st s = GC_PURPLE \<and> cb_strong (blk st s) > 0
                           then gc_mark_gray m s st else Some st) ss st = Some st' \<and>
    marks st st' N (\<lambda>_. 0) \<and> {s \<in> set ss. strong_of st s > 0} \<subseteq> greys st' \<and>
    N \<subseteq> reach (kids st) {s \<in> set ss. strong_of st s > 0}"
  using assms
proof (induction ss arbitrary: st)
  case Nil
  then show ?case using marks_refl by auto
next
  case (Cons s ss)
  have s: "s \<in> A" using Cons.prems(4) by simp
  have "\<exists>st1 M. (if gc_get_color st s = GC_PURPLE \<and> cb_strong (blk st s) > 0 then gc_mark_gray m s st else Some st) = Some st1 \<and>
      marks st st1 M (\<lambda>_. 0) \<and> (strong_of st s > 0 \<longrightarrow> s \<in> greys st1) \<and> M \<subseteq> reach (kids st) {s' \<in> {s}. strong_of st s' > 0}"
  proof (cases "color_of st s = GC_PURPLE \<and> strong_of st s > 0")
    case True
    have "card (A - greys st) \<le> card A" by (rule card_mono) (use Cons.prems(2) in auto)
    then have "card (A - greys st) < m" using Cons.prems(3) by simp
    then obtain st1 where 1: "gc_mark_gray m s st = Some st1"
      using mark_gray_ends [OF Cons.prems(1,2) s] by blast
    obtain M where M: "marks st st1 M (\<lambda>_. 0)" "s \<in> greys st1" "M \<subseteq> reach (kids st) {s}"
      using mark_gray_marks [OF Cons.prems(1) s 1] by blast
    have "{s' \<in> {s}. strong_of st s' > 0} = {s}" using True by auto
    then show ?thesis using True 1 M by (auto simp: gc_get_color_def)
  next
    case False
    then have "strong_of st s > 0 \<longrightarrow> s \<in> greys st" using Cons.prems(5) by (auto simp: greys_def)
    then show ?thesis using False marks_refl [of st] by (auto simp: gc_get_color_def)
  qed
  then obtain st1 M where 1: "(if gc_get_color st s = GC_PURPLE \<and> cb_strong (blk st s) > 0 then gc_mark_gray m s st else Some st) = Some st1"
      and M: "marks st st1 M (\<lambda>_. 0)" "strong_of st s > 0 \<longrightarrow> s \<in> greys st1" "M \<subseteq> reach (kids st) {s' \<in> {s}. strong_of st s' > 0}"
    by (elim exE conjE) (rule that)
  have er: "erase st1 = erase st" using M(1) by (simp add: marks_def)
  have K: "kids st1 = kids st" by (rule erase_same(1) [OF er])
  have S: "strong_of st1 b = strong_of st b" for b by (rule erase_same(2) [OF er])
  have g1: "color_of st1 b = color_of st b \<or> color_of st1 b = GC_GREY" for b
    using M(1) unfolding marks_def greys_def by blast
  have "closed st1 A" using Cons.prems(1) closed_erase [OF er] by simp
  moreover have "\<forall>s\<in>set ss. strong_of st1 s > 0 \<longrightarrow> color_of st1 s = GC_PURPLE \<or> color_of st1 s = GC_GREY"
    using Cons.prems(5) S g1 by (metis list.set_intros(2))
  ultimately obtain st' N where N: "gc_each_child (\<lambda>s st. if gc_get_color st s = GC_PURPLE \<and> cb_strong (blk st s) > 0
                           then gc_mark_gray m s st else Some st) ss st1 = Some st'"
      "marks st1 st' N (\<lambda>_. 0)" "{s \<in> set ss. strong_of st s > 0} \<subseteq> greys st'"
      "N \<subseteq> reach (kids st) {s \<in> set ss. strong_of st s > 0}"
    using Cons.IH [of st1] Cons.prems(2,3,4) S K by auto
  have "marks st st' (M \<union> N) (\<lambda>_. 0)" using marks_trans [OF M(1) N(2)] by simp
  moreover have "{s' \<in> set (s # ss). strong_of st s' > 0} \<subseteq> greys st'"
    using M(2) N(2,3) by (auto simp: marks_def)
  moreover have "M \<union> N \<subseteq> reach (kids st) {s' \<in> set (s # ss). strong_of st s' > 0}"
    using M(3) N(4) by (auto intro: reach_mono reach_root)
  ultimately show ?case using 1 N(1) by auto
qed

text \<open>After marking, the region is grey and the rest is not, and trial counts are without its references.\<close>

lemma mark_phase:
  assumes h: "heap_ok st" and m: "length (gc_all st) < m"
  shows "\<exists>st'. gc_mark_roots m (trial_reset st) = Some st' \<and> erase st' = erase st \<and> greys st' = region st \<and>
    (\<forall>b. b \<notin> region st \<longrightarrow> color_of st' b = color_of st b) \<and>
    (\<forall>b\<in>region st. trial_of st' b = strong_of st b - seen_refs (kids st) (region st) b)"
proof -
  let ?A = "set (gc_all st)" and ?st0 = "trial_reset st"
  note cl = heap_okD(1) [OF h]
  note er = trial_reset_ok(1) [OF cl]
  have K: "kids ?st0 = kids st" and S: "strong_of ?st0 b = strong_of st b" and su: "gc_suspects ?st0 = gc_suspects st" for b
    using erase_same(1,2,5) [OF er] by simp_all
  have C: "{s \<in> set (gc_suspects st). strong_of ?st0 s > 0} = cands st" by (simp add: cands_def S)
  have cl0: "closed ?st0 ?A" using cl closed_erase [OF er] by simp
  have "card ?A < m" using m card_length [of "gc_all st"] by simp
  then obtain st' N where 1: "gc_mark_roots m ?st0 = Some st'" and N: "marks ?st0 st' N (\<lambda>_. 0)"
      and g: "cands st \<subseteq> greys st'" "N \<subseteq> region st"
    using mark_roots_each [OF cl0, of m "gc_suspects st"] heap_okD(2,4) [OF h] trial_reset_ok(2) [OF cl] K C
    by (auto simp: gc_mark_roots_def su region_def cands_def S)
  have g0: "greys ?st0 = {}" using heap_okD(5) [OF h] trial_reset_ok(2) [OF cl] by (simp add: greys_def)
  have gN: "greys st' = N" using N g0 by (simp add: marks_def)
  have "N = region st"
  proof
    show "region st \<subseteq> N"
    proof
      fix x assume "x \<in> region st"
      then have "x \<in> reach (kids st) (cands st)" by (simp add: region_def)
      then show "x \<in> N" by (rule reach_closed) (use g(1) gN N K in \<open>auto simp: marks_def\<close>)
    qed
  qed (rule g(2))
  moreover have "erase st' = erase st" using N er by (simp add: marks_def)
  moreover have "color_of st' b = color_of st b" if "b \<notin> N" for b
    using that N trial_reset_ok(2) [OF cl] by (simp add: marks_def)
  moreover have "trial_of st' b = strong_of st b - seen_refs (kids st) (region st) b" if "b \<in> region st" for b
  proof -
    have "b \<in> ?A" using region_all [OF h] that by blast
    then show ?thesis using N trial_reset_ok(3) [OF cl] K \<open>N = region st\<close> by (simp add: marks_def)
  qed
  ultimately show ?thesis using 1 gN by auto
qed

lemma scan_roots_each:
  assumes "scanned R T st" and "finite R" and "2 * card R < m"
    and "\<forall>s\<in>set ss. strong_of st s > 0 \<longrightarrow> s \<in> R"
  shows "\<exists>st'. gc_each_child (\<lambda>s st. if cb_strong (blk st s) > 0 then gc_scan m s st else Some st) ss st = Some st' \<and>
    scanned R T st' \<and> scan_step R st st' \<and> (\<forall>s\<in>set ss. strong_of st s > 0 \<longrightarrow> color_of st' s \<noteq> GC_GREY)"
  using assms
proof (induction ss arbitrary: st)
  case Nil
  then show ?case by (simp add: scan_step_refl)
next
  case (Cons s ss)
  have "\<exists>st1. (if cb_strong (blk st s) > 0 then gc_scan m s st else Some st) = Some st1 \<and> scanned R T st1 \<and>
      scan_step R st st1 \<and> (strong_of st s > 0 \<longrightarrow> color_of st1 s \<noteq> GC_GREY)"
  proof (cases "strong_of st s > 0")
    case True
    then have s: "s \<in> R" using Cons.prems(4) by simp
    have "card (R \<inter> greys st) \<le> card R" by (rule card_mono) (use Cons.prems(2) in auto)
    then have "card R + card (R \<inter> greys st) < m" using Cons.prems(3) by simp
    then obtain st1 where 1: "gc_scan m s st = Some st1" using scan_ends [OF Cons.prems(1,2) s] by blast
    then show ?thesis using True scan_spec [OF Cons.prems(1) s 1] by (intro exI [of _ st1]) simp
  next
    case False
    then show ?thesis using Cons.prems(1) scan_step_refl by (intro exI [of _ st]) simp
  qed
  then obtain st1 where 1: "(if cb_strong (blk st s) > 0 then gc_scan m s st else Some st) = Some st1"
      and A: "scanned R T st1" "scan_step R st st1" "strong_of st s > 0 \<longrightarrow> color_of st1 s \<noteq> GC_GREY"
    by (elim exE conjE) (rule that)
  have S: "strong_of st1 b = strong_of st b" for b by (rule erase_same(2) [OF scan_stepD(1) [OF A(2)]])
  obtain st' where B: "gc_each_child (\<lambda>s st. if cb_strong (blk st s) > 0 then gc_scan m s st else Some st) ss st1 = Some st'"
      "scanned R T st'" "scan_step R st1 st'" "\<forall>s\<in>set ss. strong_of st s > 0 \<longrightarrow> color_of st' s \<noteq> GC_GREY"
  proof -
    have "\<forall>s\<in>set ss. strong_of st1 s > 0 \<longrightarrow> s \<in> R" using Cons.prems(4) S by simp
    from Cons.IH [OF A(1) Cons.prems(2,3) this] show ?thesis
      unfolding S by (elim exE conjE) (rule that)
  qed
  have "scan_step R st st'" by (rule scan_step_trans [OF scannedD(1) [OF Cons.prems(1)] A(2) B(3)])
  moreover have "strong_of st s > 0 \<longrightarrow> color_of st' s \<noteq> GC_GREY"
    using A(3) scan_stepD(3) [OF B(3), of s] Cons.prems(4) by simp
  ultimately show ?case using 1 B by (intro exI [of _ st']) simp
qed

text \<open>After scanning, the white blocks of the region are the garbage, and the others are black.\<close>

lemma scan_phase:
  assumes h: "heap_ok st" and m: "2 * length (gc_all st) < m"
    and er: "erase st1 = erase st" and g: "greys st1 = region st"
    and out: "\<forall>b. b \<notin> region st \<longrightarrow> color_of st1 b = color_of st b"
    and tr: "\<forall>b\<in>region st. trial_of st1 b = strong_of st b - seen_refs (kids st) (region st) b"
  shows "\<exists>st'. gc_scan_roots m st1 = Some st' \<and> erase st' = erase st \<and>
    (\<forall>b. b \<notin> region st \<longrightarrow> color_of st' b = color_of st b) \<and>
    (\<forall>b\<in>region st. color_of st' b = (if b \<in> garbage st then GC_WHITE else GC_BLACK))"
proof -
  let ?R = "region st" and ?T = "\<lambda>b. strong_of st b - seen_refs (kids st) (region st) b"
  have K: "kids st1 = kids st" and S: "strong_of st1 b = strong_of st b" and su: "gc_suspects st1 = gc_suspects st" for b
    using erase_same(1,2,5) [OF er] by simp_all
  have grey: "b \<in> ?R \<Longrightarrow> color_of st1 b = GC_GREY" for b using g by (auto simp: greys_def)
  have T: "{x \<in> ?R. ?T x > 0} = anchors st" by (auto simp: anchors_def)
  have sc: "scanned ?R ?T st1"
    using region_closed [OF h] closed_erase [OF er] grey tr by (simp add: scanned_def)
  have fin: "finite ?R" using region_all [OF h] finite_subset by blast
  have "card ?R \<le> length (gc_all st)"
    using card_mono [OF _ region_all [OF h]] card_length [of "gc_all st"] by simp
  then have "2 * card ?R < m" using m by simp
  moreover have "\<forall>s\<in>set (gc_suspects st). strong_of st s > 0 \<longrightarrow> s \<in> ?R"
    by (auto simp: region_def cands_def intro: reach_root)
  ultimately obtain st' where 1: "gc_scan_roots m st1 = Some st'" and A: "scanned ?R ?T st'" "scan_step ?R st1 st'"
      and ng: "\<forall>s\<in>cands st. color_of st' s \<noteq> GC_GREY"
    using scan_roots_each [OF sc fin, of m "gc_suspects st"] S by (auto simp: gc_scan_roots_def su cands_def)
  have K': "kids st' = kids st" using erase_same(1) [OF scan_stepD(1) [OF A(2)]] K by simp
  have nongrey: "color_of st' b \<noteq> GC_GREY" if "b \<in> ?R" for b
    using that unfolding region_def
  proof (induction rule: reach.induct)
    case (reach_root s)
    then show ?case using ng by blast
  next
    case (reach_step x y)
    then have x: "x \<in> ?R" by (simp add: region_def)
    show ?case
    proof (cases "color_of st' x = GC_BLACK")
      case True
      then show ?thesis using scannedD(5) [OF A(1) x True, of y] reach_step(2) K' by simp
    next
      case False
      then show ?thesis
        using scan_stepD(5) [OF A(2) x grey [OF x] reach_step(3) False, of y] reach_step(2) K by simp
    qed
  qed
  have black: "color_of st' b = GC_BLACK" if "b \<in> reach (kids st) (anchors st)" for b
    using that
  proof (induction rule: reach.induct)
    case (reach_root s)
    then have s: "s \<in> ?R" and Ts: "?T s > 0" by (auto simp: anchors_def)
    then have "color_of st' s \<noteq> GC_WHITE" using scannedD(4) [OF A(1) s] by auto
    then show ?case using nongrey [OF s] scannedD(2) [OF A(1) s] by (cases "color_of st' s") auto
  next
    case (reach_step x y)
    have "x \<in> ?R"
      by (rule reach_closed [OF reach_step(1)]) (use region_closed [OF h] in \<open>auto simp: anchors_def closed_def\<close>)
    then show ?case using scannedD(5) [OF A(1) _ reach_step(3), of y] reach_step(2) K' by simp
  qed
  have "color_of st' b = (if b \<in> garbage st then GC_WHITE else GC_BLACK)" if b: "b \<in> ?R" for b
  proof (cases "b \<in> garbage st")
    case True
    then have "color_of st' b \<noteq> GC_BLACK" using scannedD(6) [OF A(1) b] K' T by (auto simp: garbage_def)
    then show ?thesis using True nongrey [OF b] scannedD(2) [OF A(1) b] by (cases "color_of st' b") auto
  next
    case False
    then show ?thesis using b black by (simp add: garbage_def)
  qed
  then show ?thesis using 1 scan_stepD(1,2) [OF A(2)] er out by auto
qed


section \<open>Draining the buffer and gathering\<close>

text \<open>Everything but colours, trial counts, the candidate buffer and the lists of a collection.\<close>

definition shape :: "gcst \<Rightarrow> gcst" where
  "shape st = st\<lparr>gc_heap := \<lambda>b. map_option (\<lambda>c. c\<lparr>cb_color := GC_WHITE, cb_trial := 0, cb_buffered := False\<rparr>) (gc_heap st b),
     gc_suspects := [], gc_pending := [], gc_pending_cap := 0, gc_cands := [], gc_cand_cap := 0\<rparr>"

lemma shape_erase: "shape (erase st) = shape st"
  by (auto simp: shape_def erase_def option.map_comp o_def)

lemma shape_lists [simp]:
  "shape (st\<lparr>gc_suspects := x\<rparr>) = shape st" "shape (st\<lparr>gc_pending := x\<rparr>) = shape st"
  "shape (st\<lparr>gc_pending_cap := n\<rparr>) = shape st" "shape (st\<lparr>gc_cands := x\<rparr>) = shape st"
  "shape (st\<lparr>gc_cand_cap := n\<rparr>) = shape st"
  by (simp_all add: shape_def)

lemma erase_shape: "erase st = erase st' \<Longrightarrow> shape st = shape st'"
  by (metis shape_erase)

lemma gathers_shape: "gathers st st' ns \<Longrightarrow> shape st' = shape st"
  using erase_shape [OF gathersD(9)] by simp

abbreviation clear_buffered :: "nat \<Rightarrow> gcst \<Rightarrow> gcst" where
  "clear_buffered s \<equiv> upd s (\<lambda>c. c\<lparr>cb_buffered := False\<rparr>)"

lemma clear_buffered:
  assumes "alloc st s"
  shows "shape (clear_buffered s st) = shape st" and "color_of (clear_buffered s st) b = color_of st b"
    and "kids (clear_buffered s st) = kids st" and "alloc (clear_buffered s st) = alloc st"
    and "strong_of (clear_buffered s st) b = strong_of st b"
    and "cb_buffered (blk (clear_buffered s st) b) = (b \<noteq> s \<and> cb_buffered (blk st b))"
    and "gc_pending (clear_buffered s st) = gc_pending st" and "gc_cands (clear_buffered s st) = gc_cands st"
  using assms
  by (auto simp: alloc_def upd_def shape_def kids_def blk_def fun_eq_iff gc_children_erase split: option.splits)

lemma drain_drains:
  assumes mem: "\<forall>n. mem n" and "\<forall>s\<in>set ss. alloc st s"
  shows "let st' = gc_drain mem ss kept st in
    shape st' = shape st \<and> gc_suspects st' = kept @ filter (\<lambda>s. strong_of st s = 0) ss \<and>
    gc_cands st' = gc_cands st @ filter (\<lambda>s. strong_of st s > 0) ss \<and> kids st' = kids st \<and> alloc st' = alloc st \<and>
    gc_pending st' = gc_pending st \<and> (\<forall>b. color_of st' b = color_of st b) \<and> (\<forall>b. strong_of st' b = strong_of st b) \<and>
    (\<forall>b. cb_buffered (blk st' b) \<longleftrightarrow> cb_buffered (blk st b) \<and> \<not> (b \<in> set ss \<and> strong_of st b > 0))"
  using assms(2)
proof (induction ss arbitrary: kept st)
  case Nil
  have "blk (st\<lparr>gc_suspects := kept\<rparr>) b = blk st b" for b by (simp add: blk_def)
  moreover have "alloc (st\<lparr>gc_suspects := kept\<rparr>) = alloc st" by (simp add: alloc_def fun_eq_iff)
  ultimately show ?case by (simp add: Let_def kids_def fun_eq_iff)
next
  case (Cons s ss)
  show ?case
  proof (cases "strong_of st s > 0")
    case False
    then show ?thesis using Cons.IH [of st "kept @ [s]"] Cons.prems by (auto simp: Let_def)
  next
    case True
    let ?st1 = "clear_buffered s st"
    have a: "alloc st s" using Cons.prems by simp
    obtain cap where cap: "(if length (gc_cands ?st1) < gc_cand_cap ?st1 then Some (gc_cand_cap ?st1)
        else gc_vec_reserve mem (gc_cand_cap ?st1) (length (gc_cands ?st1) + 1)) = Some cap"
      using mem by (fastforce simp: gc_vec_reserve_def Let_def)
    let ?st2 = "?st1\<lparr>gc_cand_cap := cap, gc_cands := gc_cands st @ [s]\<rparr>"
    have run: "gc_drain mem (s # ss) kept st = gc_drain mem ss kept ?st2"
      using True cap clear_buffered(8) [OF a] by (simp add: Let_def)
    have b2: "blk ?st2 b = blk ?st1 b" for b by (simp add: blk_def)
    have k2: "kids ?st2 = kids st" using clear_buffered(3) [OF a] by (simp add: kids_def b2 fun_eq_iff)
    have a2: "alloc ?st2 = alloc st" using clear_buffered(4) [OF a] by (simp add: alloc_def fun_eq_iff)
    have "\<forall>s\<in>set ss. alloc ?st2 s" using Cons.prems a2 by simp
    note IH = Cons.IH [OF this, of kept, unfolded Let_def]
    show ?thesis
      unfolding run Let_def
      using IH clear_buffered(1,2,5,6,7,8) [OF a] True by (auto simp: b2 k2 a2)
  qed
qed

lemma collect_each:
  assumes mem: "\<forall>n. mem n" and "closed st A" and "finite A" and "card A < m" and "set ss \<subseteq> A"
  shows "\<exists>st' ns. gc_each_child (\<lambda>s st. gc_collect_white mem m s st) ss st = Some st' \<and> gathers st st' ns \<and>
    (\<forall>s\<in>set ss. \<not> unseen st' s) \<and> set ns \<subseteq> reach (kids st) (set ss)"
  using assms(2-)
proof (induction ss arbitrary: st)
  case Nil
  then show ?case using gathers_refl by (intro exI [of _ st] exI [of _ "[]"]) simp
next
  case (Cons s ss)
  have s: "s \<in> A" using Cons.prems(4) by simp
  have "card {b \<in> A. unseen st b} \<le> card A" by (rule card_mono) (use Cons.prems(2) in auto)
  then have "card {b \<in> A. unseen st b} < m" using Cons.prems(3) by simp
  then obtain st1 where 1: "gc_collect_white mem m s st = Some st1"
    using collect_white_ends [OF mem Cons.prems(1,2) s] by blast
  obtain ms where M: "gathers st st1 ms" "\<not> unseen st1 s" "set ms \<subseteq> reach (kids st) {s}"
    using collect_white_gathers [OF mem Cons.prems(1) s 1] by blast
  have c1: "closed st1 A" using Cons.prems(1) gathersD(1,2) [OF M(1)] by (simp add: closed_def)
  have "set ss \<subseteq> A" using Cons.prems(4) by simp
  from Cons.IH [OF c1 Cons.prems(2,3) this] obtain st' ns where
    N: "gc_each_child (\<lambda>s st. gc_collect_white mem m s st) ss st1 = Some st'" "gathers st1 st' ns"
      "\<forall>s\<in>set ss. \<not> unseen st' s" "set ns \<subseteq> reach (kids st1) (set ss)" by blast
  have "gathers st st' (ms @ ns)" by (rule gathers_trans [OF M(1) N(2)])
  moreover have "\<not> unseen st' s" using M(2) gathers_unseen [OF N(2)] by blast
  moreover have "set (ms @ ns) \<subseteq> reach (kids st) (set (s # ss))"
    using M(3) N(4) gathersD(1) [OF M(1)] by (auto intro: reach_mono reach_root)
  ultimately show ?case using 1 N(1,3) by (intro exI [of _ st'] exI [of _ "ms @ ns"]) simp
qed

text \<open>Gathering from all candidates finds every block of the garbage, and nothing else.\<close>

lemma collect_phase:
  assumes h: "heap_ok st" and mem: "\<forall>n. mem n" and m: "length (gc_all st) < m"
    and er: "erase st1 = erase st"
    and out: "\<forall>b. b \<notin> region st \<longrightarrow> color_of st1 b = color_of st b"
    and col: "\<forall>b\<in>region st. color_of st1 b = (if b \<in> garbage st then GC_WHITE else GC_BLACK)"
  shows "\<exists>st'. gc_collect_roots mem m st1 = Some st' \<and> shape st' = shape st \<and>
    gc_suspects st' = filter (\<lambda>s. strong_of st s = 0) (gc_suspects st) \<and>
    distinct (gc_pending st') \<and> set (gc_pending st') = garbage st \<and>
    (\<forall>b. color_of st' b = (if b \<in> region st then GC_BLACK else color_of st b)) \<and>
    (\<forall>b. cb_buffered (blk st' b) \<longleftrightarrow> cb_buffered (blk st b) \<and> b \<notin> cands st)"
proof -
  let ?st1 = "st1\<lparr>gc_pending := [], gc_cands := []\<rparr>"
  let ?st2 = "gc_drain mem (gc_suspects st1) [] ?st1"
  have b1: "blk ?st1 b = blk st1 b" for b by (simp add: blk_def)
  have a1: "alloc ?st1 = alloc st" using erase_same(3) [OF er] by (simp add: alloc_def fun_eq_iff)
  have k1: "kids ?st1 = kids st" using erase_same(1) [OF er] by (simp add: kids_def b1 fun_eq_iff)
  have S: "strong_of st1 b = strong_of st b" and su: "gc_suspects st1 = gc_suspects st" for b
    using erase_same(2,5) [OF er] by simp_all
  have C: "set (filter (\<lambda>s. strong_of st s > 0) (gc_suspects st)) = cands st" by (simp add: cands_def)
  have "\<forall>s\<in>set (gc_suspects st1). alloc ?st1 s"
    using heap_okD(2) [OF h] closedD(1) [OF heap_okD(1) [OF h]] a1 su by auto
  note D = drain_drains [OF mem this, of "[]", unfolded Let_def b1 S]
  have k2: "kids ?st2 = kids st" and a2: "alloc ?st2 = alloc st" and p2: "gc_pending ?st2 = []"
      and c2: "gc_cands ?st2 = filter (\<lambda>s. strong_of st s > 0) (gc_suspects st)"
      and s2: "gc_suspects ?st2 = filter (\<lambda>s. strong_of st s = 0) (gc_suspects st)"
      and col2: "color_of ?st2 b = color_of st1 b" and sh2: "shape ?st2 = shape st" for b
    using D k1 a1 su erase_shape [OF er] by simp_all
  have bf2: "cb_buffered (blk ?st2 b) \<longleftrightarrow> cb_buffered (blk st b) \<and> b \<notin> cands st" for b
    using D erase_same(4) [OF er, of b] by (simp add: cands_def su)
  have cl2: "closed ?st2 (set (gc_all st))" using heap_okD(1) [OF h] k2 a2 by (simp add: closed_def)
  have "set (gc_cands ?st2) \<subseteq> set (gc_all st)" using heap_okD(2) [OF h] c2 by auto
  moreover have "card (set (gc_all st)) < m" using m card_length [of "gc_all st"] by simp
  ultimately obtain st3 ns where 3: "gc_each_child (\<lambda>s st. gc_collect_white mem m s st) (gc_cands ?st2) ?st2 = Some st3"
      and G: "gathers ?st2 st3 ns" "\<forall>s\<in>set (gc_cands ?st2). \<not> unseen st3 s" "set ns \<subseteq> reach (kids ?st2) (set (gc_cands ?st2))"
    using collect_each [OF mem cl2] by (meson List.finite_set)
  have u2: "unseen ?st2 b \<longleftrightarrow> b \<in> garbage st" if "b \<in> region st" for b
    using col that col2 bf2 region_buffered [OF h that] by (auto simp: unseen_def)
  have sub: "set ns \<subseteq> region st" using G(3) by (simp add: k2 c2 region_def cands_def)
  have "set ns = garbage st"
  proof
    show "set ns \<subseteq> garbage st" using gathersD(6) [OF G(1)] u2 sub by blast
    have "b \<in> garbage st \<longrightarrow> b \<in> set ns" if "b \<in> reach (kids st) (cands st)" for b
      using that
    proof (induction rule: reach.induct)
      case (reach_root s)
      then have "s \<in> region st" and "\<not> unseen st3 s" using G(2) c2 C by (auto simp: region_def intro: reach.reach_root)
      then show ?case using u2 gathers_unseen [OF G(1)] by blast
    next
      case (reach_step x y)
      show ?case
      proof
        assume y: "y \<in> garbage st"
        then have "x \<in> garbage st"
          using reach_step(1,2) by (auto simp: garbage_def region_def intro: reach.reach_step)
        then have "\<not> unseen st3 y" using reach_step(2,3) gathersD(7) [OF G(1), of x y] k2 by simp
        then show "y \<in> set ns" using y u2 [of y] gathers_unseen [OF G(1), of y] by (auto simp: garbage_def)
      qed
    qed
    then show "garbage st \<subseteq> set ns" by (auto simp: garbage_def region_def)
  qed
  then have "color_of st3 b = (if b \<in> region st then GC_BLACK else color_of st b)" for b
    using gathersD(5) [OF G(1), of b] col2 [of b] col out by (auto simp: garbage_def)
  moreover note \<open>set ns = garbage st\<close>
  moreover have "gc_suspects st3 = gc_suspects ?st2"
    using erase_same(5) [OF gathersD(9) [OF G(1)]] by simp
  moreover have "shape st3 = shape st" using gathers_shape [OF G(1)] sh2 by simp
  ultimately have "gc_collect_roots mem m st1 = Some (st3\<lparr>gc_cands := []\<rparr>)" and
    "shape (st3\<lparr>gc_cands := []\<rparr>) = shape st" and
    "gc_suspects (st3\<lparr>gc_cands := []\<rparr>) = filter (\<lambda>s. strong_of st s = 0) (gc_suspects st)" and
    "distinct (gc_pending (st3\<lparr>gc_cands := []\<rparr>))" and "set (gc_pending (st3\<lparr>gc_cands := []\<rparr>)) = garbage st" and
    "color_of (st3\<lparr>gc_cands := []\<rparr>) b = (if b \<in> region st then GC_BLACK else color_of st b)" and
    "cb_buffered (blk (st3\<lparr>gc_cands := []\<rparr>) b) \<longleftrightarrow> cb_buffered (blk st b) \<and> b \<notin> cands st" for b
    using 3 s2 p2 gathersD(3,4) [OF G(1)] gathersD(8) [OF G(1), of b] bf2 [of b]
    by (simp_all add: gc_collect_roots_def Let_def) (simp_all add: blk_def)
  then show ?thesis by blast
qed

text \<open>
  The list a collection frees is exactly the garbage; twice the number of the registered blocks is
  depth enough.
\<close>

lemma find_white:
  assumes h: "heap_ok st" and mem: "\<forall>n. mem n" and m: "2 * length (gc_all st) < m"
  shows "\<exists>st'. gc_find_white mem m st = Some st' \<and> shape st' = shape st \<and>
    gc_suspects st' = filter (\<lambda>s. strong_of st s = 0) (gc_suspects st) \<and>
    distinct (gc_pending st') \<and> set (gc_pending st') = garbage st \<and>
    (\<forall>b. color_of st' b = (if b \<in> region st then GC_BLACK else color_of st b)) \<and>
    (\<forall>b. cb_buffered (blk st' b) \<longleftrightarrow> cb_buffered (blk st b) \<and> b \<notin> cands st)"
proof (cases "gc_suspects st = []")
  case True
  have "reach (kids st) {} = {}"
  proof -
    have "x \<in> reach (kids st) {} \<Longrightarrow> False" for x by (induction rule: reach.induct) auto
    then show ?thesis by blast
  qed
  then have "garbage st = {}" and "cands st = {}" and "region st = {}"
    using True by (simp_all add: garbage_def region_def cands_def)
  then show ?thesis using True by (simp add: gc_find_white_def blk_def)
next
  case False
  have m': "length (gc_all st) < m" using m by simp
  obtain st1 where 1: "gc_mark_roots m (trial_reset st) = Some st1" "erase st1 = erase st" "greys st1 = region st"
      "\<forall>b. b \<notin> region st \<longrightarrow> color_of st1 b = color_of st b"
      "\<forall>b\<in>region st. trial_of st1 b = strong_of st b - seen_refs (kids st) (region st) b"
    using mark_phase [OF h m'] by blast
  obtain st2 where 2: "gc_scan_roots m st1 = Some st2" "erase st2 = erase st"
      "\<forall>b. b \<notin> region st \<longrightarrow> color_of st2 b = color_of st b"
      "\<forall>b\<in>region st. color_of st2 b = (if b \<in> garbage st then GC_WHITE else GC_BLACK)"
    using scan_phase [OF h m 1(2-5)] by blast
  show ?thesis
    using collect_phase [OF h mem m' 2(2-4)] 1(1) 2(1) False by (simp add: gc_find_white_def)
qed

text \<open>A block outside the region anchors what it refers to inside.\<close>

lemma outside_anchors:
  assumes h: "heap_ok st" and x: "x \<in> set (gc_all st)" "x \<notin> region st" and y: "y \<in> set (kids st x)" "y \<in> region st"
  shows "y \<in> anchors st"
proof -
  have sub: "insert x (region st) \<subseteq> set (gc_all st)" using region_all [OF h] x(1) by blast
  have fin: "finite (region st)" using region_all [OF h] finite_subset by blast
  have "seen_refs (kids st) (region st) y < count_list (kids st x) y + seen_refs (kids st) (region st) y"
    using y(1) by (simp add: count_list_0_iff flip: neq0_conv)
  also have "\<dots> = seen_refs (kids st) (insert x (region st)) y" by (rule seen_refs_insert [OF fin x(2), symmetric])
  also have "\<dots> \<le> seen_refs (kids st) (set (gc_all st)) y" by (rule seen_refs_mono [OF _ sub]) simp
  also have "\<dots> \<le> strong_of st y" using region_all [OF h] y(2) by (intro heap_okD(6) [OF h]) blast
  finally show ?thesis using y(2) by (simp add: anchors_def)
qed

text \<open>Nothing that a block held from elsewhere reaches is garbage.\<close>

lemma held_survives:
  assumes h: "heap_ok st" and r: "r \<in> set (gc_all st)" "seen_refs (kids st) (set (gc_all st)) r < strong_of st r"
    and b: "b \<in> reach (kids st) {r}"
  shows "b \<notin> garbage st"
proof -
  let ?A = "set (gc_all st)"
  have "b \<in> ?A \<and> (b \<in> region st \<longrightarrow> b \<in> reach (kids st) (anchors st))"
    using b
  proof (induction rule: reach.induct)
    case (reach_root s)
    have "seen_refs (kids st) (region st) r \<le> seen_refs (kids st) ?A r" by (intro seen_refs_mono region_all [OF h]) simp
    then show ?case using reach_root r by (auto simp: anchors_def intro!: reach.reach_root)
  next
    case (reach_step x y)
    have y: "y \<in> ?A" using closedD(2) [OF heap_okD(1) [OF h], of x] reach_step(2,3) by blast
    moreover have "y \<in> reach (kids st) (anchors st)" if yr: "y \<in> region st"
    proof (cases "x \<in> region st")
      case True
      then show ?thesis using reach_step by (blast intro: reach.reach_step)
    next
      case False
      have "y \<in> anchors st" using outside_anchors [OF h _ False] reach_step yr by blast
      then show ?thesis by (rule reach.reach_root)
    qed
    ultimately show ?case by blast
  qed
  then show ?thesis by (auto simp: garbage_def)
qed

text \<open>What garbage refers to and is not garbage keeps more references than the garbage holds.\<close>

lemma survivor_count:
  assumes h: "heap_ok st" and t: "t \<notin> garbage st" "t \<in> region st"
  shows "seen_refs (kids st) (garbage st) t < strong_of st t"
proof -
  have sub: "garbage st \<subseteq> region st" and fin: "finite (region st)"
    using region_all [OF h] finite_subset by (auto simp: garbage_def)
  have le: "seen_refs (kids st) (region st) t \<le> strong_of st t"
    using seen_refs_mono [OF _ region_all [OF h], of "kids st" t] heap_okD(6) [OF h, of t] region_all [OF h] t(2) by force
  have "t \<in> reach (kids st) (anchors st)" using t by (simp add: garbage_def)
  then show ?thesis
  proof (cases rule: reach.cases)
    case reach_root
    then have "seen_refs (kids st) (region st) t < strong_of st t" by (simp add: anchors_def)
    then show ?thesis using seen_refs_mono [OF fin sub, of "kids st" t] by simp
  next
    case (reach_step z)
    have z: "z \<in> region st"
      by (rule reach_closed [OF reach_step(1)]) (use region_closed [OF h] in \<open>auto simp: anchors_def closed_def\<close>)
    have zn: "z \<notin> garbage st" using reach_step(1) by (simp add: garbage_def)
    have "0 < count_list (kids st z) t" using reach_step(2) by (simp add: count_list_0_iff flip: neq0_conv)
    then have "seen_refs (kids st) (garbage st) t < seen_refs (kids st) (insert z (garbage st)) t"
      using seen_refs_insert [OF finite_subset [OF sub fin] zn, of "kids st" t] by simp
    also have "\<dots> \<le> seen_refs (kids st) (region st) t" using z sub by (intro seen_refs_mono [OF fin]) auto
    finally show ?thesis using le by simp
  qed
qed

lemma survivors_closed:
  assumes h: "heap_ok st" and x: "x \<in> set (gc_all st)" "x \<notin> garbage st" and y: "y \<in> set (kids st x)"
  shows "y \<notin> garbage st"
proof (cases "x \<in> region st")
  case True
  then have "x \<in> reach (kids st) (anchors st)" using x(2) by (simp add: garbage_def)
  then show ?thesis using y by (auto simp: garbage_def intro: reach_step)
next
  case False
  then show ?thesis using outside_anchors [OF h x(1) False y] by (auto simp: garbage_def intro: reach_root)
qed

end
