(* ===== verification/Rc.thy ===== *)
theory Rc
  imports Gc
begin

text \<open>
  Reference counts (\<open>src/runtime/rc.c\<close>), the queue of deferred frees (\<open>rc_free_queue.c\<close>) and the rest of
  the collector (\<open>gc.c\<close>): the three call each other, from a decrement down to a whole collection and
  from there, through the drop glue of payloads, to decrements again. Every function takes as
  \<open>call\<close> what the calls it makes back into this circle do; \<open>runtime\<close> ties the knot with fuel, and None
  is a computation that has not ended with it. Returned counts and flags that no caller in these files
  reads are left out. A failed allocation of a block ends the program and is left out.
\<close>

datatype rcall =
    CStrong nat
  | CWeak nat
  | CDrain
  | CDrainLoop
  | CCollect


section \<open>Values\<close>

text \<open>The glue of a payload, releasing its references in order.\<close>

fun drop_refs :: "(rcall \<Rightarrow> gcst \<Rightarrow> gcst option) \<Rightarrow> rref list \<Rightarrow> gcst \<Rightarrow> gcst option" where
  "drop_refs call [] st = Some st"
| "drop_refs call (RStrong t # rs) st =
     Option.bind (call (CStrong t) st) (\<lambda>st. Option.bind (call CDrain st) (drop_refs call rs))"
| "drop_refs call (RWeak t # rs) st = Option.bind (call (CWeak t) st) (drop_refs call rs)"

definition run_drop_fn :: "(rcall \<Rightarrow> gcst \<Rightarrow> gcst option) \<Rightarrow> nat \<Rightarrow> gcst \<Rightarrow> gcst option" where
  "run_drop_fn call b st =
     (case cb_value (blk st b) of None \<Rightarrow> Some st
      | Some v \<Rightarrow> (case cb_drop (blk st b) of DropPlain \<Rightarrow> Some st | DropRefs \<Rightarrow> drop_refs call v st))"

definition clear_value :: "nat \<Rightarrow> gcst \<Rightarrow> gcst" where
  "clear_value b = upd b (\<lambda>c. c\<lparr>cb_value := None\<rparr>)"

definition rc_release_value :: "(rcall \<Rightarrow> gcst \<Rightarrow> gcst option) \<Rightarrow> nat \<Rightarrow> gcst \<Rightarrow> gcst option" where
  "rc_release_value call b st =
     (case cb_value (blk st b) of None \<Rightarrow> Some st
      | Some v \<Rightarrow>
          Option.bind
            (if cb_kind (blk st b) = RCK_EXISTENTIAL \<and> cb_payload_rc (blk st b) then
               (case strongs v of [] \<Rightarrow> Some st | t # ts \<Rightarrow> call (CStrong t) st)
             else Some st)
            (\<lambda>st. Option.bind (run_drop_fn call b st) (\<lambda>st. Some (clear_value b st))))"

definition rc_cb_free :: "(rcall \<Rightarrow> gcst \<Rightarrow> gcst option) \<Rightarrow> nat \<Rightarrow> gcst \<Rightarrow> gcst option" where
  "rc_cb_free call b st =
     Option.bind (rc_release_value call b (gc_unregister_block b st)) (\<lambda>st. Some (free_block b st))"


section \<open>The queue of deferred frees\<close>

text \<open>The capacity has 32 bits; the queue is a list, also past a capacity that wrapped to 0.\<close>

definition RC_FREE_QUEUE_CAPACITY :: nat where "RC_FREE_QUEUE_CAPACITY = 65536"

definition rc_free_queue_init :: "gcst \<Rightarrow> gcst" where
  "rc_free_queue_init st =
     (if fq_init st then st
      else st\<lparr>fq_init := True, fq_cap := RC_FREE_QUEUE_CAPACITY, fq_items := [], fq_head := 0, fq_draining := False\<rparr>)"

definition rc_free_queue_compact :: "gcst \<Rightarrow> gcst" where
  "rc_free_queue_compact st =
     (if fq_head st = 0 then st else st\<lparr>fq_items := drop (fq_head st) (fq_items st), fq_head := 0\<rparr>)"

definition rc_free_queue_push ::
  "(nat \<Rightarrow> bool) \<Rightarrow> (rcall \<Rightarrow> gcst \<Rightarrow> gcst option) \<Rightarrow> nat \<Rightarrow> gcst \<Rightarrow> gcst option" where
  "rc_free_queue_push mem call b st =
     (let st = rc_free_queue_init st;
          append = (\<lambda>st. st\<lparr>fq_items := fq_items st @ [b]\<rparr>)
      in if length (fq_items st) \<ge> fq_cap st then
           (let st = rc_free_queue_compact st
            in Option.bind
                 (if \<not> fq_draining st \<and> length (fq_items st) \<ge> fq_cap st then call CDrain st else Some st)
                 (\<lambda>st. if length (fq_items st) \<ge> fq_cap st then
                         (let ncap = (if fq_cap st \<noteq> 0 then fq_cap st * 2 mod 2 ^ 32 else RC_FREE_QUEUE_CAPACITY)
                          in if \<not> mem ncap then Some st else Some (append (st\<lparr>fq_cap := ncap\<rparr>)))
                       else Some (append st)))
         else Some (append st))"

definition rc_free_queue_drain :: "(rcall \<Rightarrow> gcst \<Rightarrow> gcst option) \<Rightarrow> gcst \<Rightarrow> gcst option" where
  "rc_free_queue_drain call st =
     (if \<not> fq_init st \<or> fq_items st = [] then Some st
      else if fq_draining st then Some st
      else Option.bind (call CDrainLoop (st\<lparr>fq_draining := True\<rparr>))
             (\<lambda>st. Some (st\<lparr>fq_items := [], fq_head := 0, fq_draining := False\<rparr>)))"

text \<open>The loop of the drain, which reads the queue again at every turn.\<close>

definition drain_loop :: "(rcall \<Rightarrow> gcst \<Rightarrow> gcst option) \<Rightarrow> gcst \<Rightarrow> gcst option" where
  "drain_loop call st =
     (if fq_head st < length (fq_items st) then
        Option.bind (rc_cb_free call (fq_items st ! fq_head st) (st\<lparr>fq_head := fq_head st + 1\<rparr>)) (call CDrainLoop)
      else Some st)"

definition rc_free_queue_shutdown :: "(rcall \<Rightarrow> gcst \<Rightarrow> gcst option) \<Rightarrow> gcst \<Rightarrow> gcst option" where
  "rc_free_queue_shutdown call st =
     (if fq_init st then
        Option.bind (rc_free_queue_drain call st)
          (\<lambda>st. Some (st\<lparr>fq_init := False, fq_cap := 0, fq_items := [], fq_head := 0, fq_draining := False\<rparr>))
      else Some st)"

definition rc_free_queue_reset_drain_state :: "gcst \<Rightarrow> gcst" where
  "rc_free_queue_reset_drain_state st = st\<lparr>fq_draining := False\<rparr>"

definition rc_free_queue_size :: "gcst \<Rightarrow> nat" where
  "rc_free_queue_size st = length (fq_items st) - fq_head st"

definition rc_free_queue_is_empty :: "gcst \<Rightarrow> bool" where
  "rc_free_queue_is_empty st \<longleftrightarrow> rc_free_queue_size st = 0"


section \<open>Candidates\<close>

definition gc_add_suspect ::
  "(nat \<Rightarrow> bool) \<Rightarrow> (rcall \<Rightarrow> gcst \<Rightarrow> gcst option) \<Rightarrow> nat \<Rightarrow> gcst \<Rightarrow> gcst option" where
  "gc_add_suspect mem call b st =
     (if \<not> gc_enabled st \<or> gc_mode st = GC_DISABLED then Some st
      else if cb_buffered (blk st b) then Some st
      else if \<not> cb_cycles (blk st b) then Some st
      else let (added, st) = suspect_append mem b st
        in if added \<and> gc_mode st = GC_THRESHOLD \<and> length (gc_suspects st) \<ge> GC_SUSPECT_THRESHOLD
           then call CCollect st else Some st)"

definition gc_possible_root ::
  "(nat \<Rightarrow> bool) \<Rightarrow> (rcall \<Rightarrow> gcst \<Rightarrow> gcst option) \<Rightarrow> nat \<Rightarrow> gcst \<Rightarrow> gcst option" where
  "gc_possible_root mem call b st =
     (if \<not> gc_enabled st \<or> gc_mode st = GC_DISABLED then Some st else gc_add_suspect mem call b st)"

definition gc_on_strong_decrement ::
  "(nat \<Rightarrow> bool) \<Rightarrow> (rcall \<Rightarrow> gcst \<Rightarrow> gcst option) \<Rightarrow> nat \<Rightarrow> gcst \<Rightarrow> gcst option" where
  "gc_on_strong_decrement mem call b st =
     (if \<not> gc_enabled st \<or> gc_mode st = GC_DISABLED then Some st
      else if cb_weak (blk st b) > 0 then
        Option.bind (gc_add_suspect mem call b st) (\<lambda>st. Some (gc_set_color b GC_PURPLE st))
      else Some st)"


section \<open>Counts\<close>

text \<open>Counts have 64 bits.\<close>

definition dec64 :: "nat \<Rightarrow> nat" where
  "dec64 n = (n + (2 ^ 64 - 1)) mod 2 ^ 64"

definition set_strong :: "nat \<Rightarrow> (nat \<Rightarrow> nat) \<Rightarrow> gcst \<Rightarrow> gcst" where
  "set_strong b f = upd b (\<lambda>c. c\<lparr>cb_strong := f (cb_strong c)\<rparr>)"

definition set_weak :: "nat \<Rightarrow> (nat \<Rightarrow> nat) \<Rightarrow> gcst \<Rightarrow> gcst" where
  "set_weak b f = upd b (\<lambda>c. c\<lparr>cb_weak := f (cb_weak c)\<rparr>)"

definition rc_strong_increment :: "nat \<Rightarrow> gcst \<Rightarrow> gcst" where
  "rc_strong_increment b = set_strong b (\<lambda>n. (n + 1) mod 2 ^ 64)"

definition rc_strong_decrement ::
  "(nat \<Rightarrow> bool) \<Rightarrow> (rcall \<Rightarrow> gcst \<Rightarrow> gcst option) \<Rightarrow> nat \<Rightarrow> gcst \<Rightarrow> gcst option" where
  "rc_strong_decrement mem call b st =
     (if cb_collecting (blk st b) then
        Some (if cb_strong (blk st b) > 0 then set_strong b dec64 st else st)
      else let st = set_strong b dec64 st
        in if cb_strong (blk st b) = 0 then
             (if cb_weak (blk st b) > 0 then
                Option.bind (rc_release_value call b st) (gc_on_strong_decrement mem call b)
              else rc_free_queue_push mem call b st)
           else if gc_mode st \<noteq> GC_DISABLED then gc_possible_root mem call b st else Some st)"

definition rc_weak_increment :: "nat \<Rightarrow> gcst \<Rightarrow> gcst" where
  "rc_weak_increment b = set_weak b (\<lambda>n. (n + 1) mod 2 ^ 64)"

definition rc_weak_decrement :: "(rcall \<Rightarrow> gcst \<Rightarrow> gcst option) \<Rightarrow> nat \<Rightarrow> gcst \<Rightarrow> gcst option" where
  "rc_weak_decrement call b st =
     (let st = set_weak b dec64 st
      in if cb_weak (blk st b) = 0 \<and> cb_strong (blk st b) = 0 then rc_cb_free call b st else Some st)"

definition rc_strong_count :: "gcst \<Rightarrow> nat \<Rightarrow> nat" where
  "rc_strong_count st b = cb_strong (blk st b)"

definition rc_weak_count :: "gcst \<Rightarrow> nat \<Rightarrow> nat" where
  "rc_weak_count st b = cb_weak (blk st b)"

definition rc_is_alive :: "gcst \<Rightarrow> nat \<Rightarrow> bool" where
  "rc_is_alive st b \<longleftrightarrow> cb_strong (blk st b) > 0"

text \<open>Whether the upgrade succeeded.\<close>

definition rc_upgrade :: "nat \<Rightarrow> gcst \<Rightarrow> bool \<times> gcst" where
  "rc_upgrade b st = (if cb_strong (blk st b) > 0 then (True, rc_strong_increment b st) else (False, st))"

definition rc_get_value :: "gcst \<Rightarrow> nat \<Rightarrow> rref list option" where
  "rc_get_value st b = cb_value (blk st b)"

definition RC_VT_RC :: nat where "RC_VT_RC = 9"
definition RC_VT_WEAK :: nat where "RC_VT_WEAK = 10"

definition default_drop_fn_for_type :: "nat \<Rightarrow> dropfn" where
  "default_drop_fn_for_type vt = (if vt = RC_VT_RC \<or> vt = RC_VT_WEAK then DropRefs else DropPlain)"

definition rc_set_value :: "nat \<Rightarrow> rref list option \<Rightarrow> dropfn option \<Rightarrow> gcst \<Rightarrow> gcst" where
  "rc_set_value b v fn =
     upd b (\<lambda>c. c\<lparr>cb_value := v,
                  cb_drop := (case fn of Some d \<Rightarrow> d | None \<Rightarrow> default_drop_fn_for_type (cb_vtk c))\<rparr>)"


section \<open>Collection\<close>

definition flag_all :: "nat list \<Rightarrow> gcst \<Rightarrow> gcst" where
  "flag_all bs = fold (\<lambda>b. upd b (\<lambda>c. c\<lparr>cb_collecting := True\<rparr>)) bs"

text \<open>The collector calls the drop function itself.\<close>

definition drop_value :: "(rcall \<Rightarrow> gcst \<Rightarrow> gcst option) \<Rightarrow> nat \<Rightarrow> gcst \<Rightarrow> gcst option" where
  "drop_value call b st =
     (if cb_value (blk st b) = None then Some st
      else Option.bind (run_drop_fn call b st) (\<lambda>st. Some (clear_value b st)))"

fun run_drops :: "(rcall \<Rightarrow> gcst \<Rightarrow> gcst option) \<Rightarrow> nat list \<Rightarrow> gcst \<Rightarrow> gcst option" where
  "run_drops call [] st = Some st"
| "run_drops call (b # bs) st = Option.bind (drop_value call b st) (run_drops call bs)"

definition gc_free_block :: "nat \<Rightarrow> gcst \<Rightarrow> gcst" where
  "gc_free_block b st = (free_block b st)\<lparr>gc_objects_freed := gc_objects_freed st + 1\<rparr>"

definition release_white :: "nat \<Rightarrow> gcst \<Rightarrow> gcst" where
  "release_white b st =
     (let st = set_strong b (\<lambda>_. 0) (gc_unregister_block b st)
      in if cb_weak (blk st b) > 0 then upd b (\<lambda>c. c\<lparr>cb_collecting := False\<rparr>) st else gc_free_block b st)"

definition gc_cycle_collect_phase ::
  "(nat \<Rightarrow> bool) \<Rightarrow> (rcall \<Rightarrow> gcst \<Rightarrow> gcst option) \<Rightarrow> nat \<Rightarrow> gcst \<Rightarrow> gcst option" where
  "gc_cycle_collect_phase mem call m st =
     (if gc_suspects st = [] then Some st
      else Option.bind (gc_find_white mem m st) (\<lambda>st.
        if gc_pending st = [] then Some st
        else Option.bind (run_drops call (gc_pending st) (flag_all (gc_pending st) st))
               (\<lambda>st. Some ((fold release_white (gc_pending st) st)\<lparr>gc_pending := []\<rparr>))))"

text \<open>The sweep over the buffer, from its place \<open>i\<close> on.\<close>

primrec gc_trial_deletion_phase :: "(rcall \<Rightarrow> gcst \<Rightarrow> gcst option) \<Rightarrow> nat \<Rightarrow> nat \<Rightarrow> gcst \<Rightarrow> gcst option" where
  "gc_trial_deletion_phase call 0 i st = None"
| "gc_trial_deletion_phase call (Suc m) i st =
     (if i \<ge> length (gc_suspects st) then Some st
      else let b = gc_suspects st ! i
        in if gc_get_color st b = GC_BLACK \<or> gc_get_color st b = GC_GREY then
             gc_trial_deletion_phase call m (i + 1) st
           else if cb_strong (blk st b) > 0 then
             gc_trial_deletion_phase call m i (gc_set_color b GC_BLACK (gc_remove_suspect b st))
           else
             Option.bind (drop_value call b (gc_unregister_block b (gc_remove_suspect b st))) (\<lambda>st.
               gc_trial_deletion_phase call m i (if cb_weak (blk st b) = 0 then gc_free_block b st else st)))"

definition gc_collect :: "(nat \<Rightarrow> bool) \<Rightarrow> (rcall \<Rightarrow> gcst \<Rightarrow> gcst option) \<Rightarrow> nat \<Rightarrow> gcst \<Rightarrow> gcst option" where
  "gc_collect mem call m st =
     (if \<not> gc_enabled st \<or> gc_mode st = GC_DISABLED then Some st
      else if gc_in_collection st then Some st
      else Option.bind
             (gc_cycle_collect_phase mem call m
               (st\<lparr>gc_in_collection := True, gc_allocs := 0, gc_collections := gc_collections st + 1\<rparr>)) (\<lambda>st.
           let st = st\<lparr>gc_grey := []\<rparr>
           in Option.bind
                (if gc_suspects st \<noteq> [] then
                   Option.bind (gc_mark_phase mem m st) (gc_trial_deletion_phase call m 0)
                 else Some st)
                (\<lambda>st. Some (st\<lparr>gc_in_collection := False\<rparr>))))"

text \<open>The knot.\<close>

primrec runtime :: "(nat \<Rightarrow> bool) \<Rightarrow> nat \<Rightarrow> rcall \<Rightarrow> gcst \<Rightarrow> gcst option" where
  "runtime mem 0 c st = None"
| "runtime mem (Suc m) c st =
     (case c of
        CStrong b \<Rightarrow> rc_strong_decrement mem (runtime mem m) b st
      | CWeak b \<Rightarrow> rc_weak_decrement (runtime mem m) b st
      | CDrain \<Rightarrow> rc_free_queue_drain (runtime mem m) st
      | CDrainLoop \<Rightarrow> drain_loop (runtime mem m) st
      | CCollect \<Rightarrow> gc_collect mem (runtime mem m) m st)"

lemma runtime_calls:
  "runtime mem (Suc m) (CStrong b) = rc_strong_decrement mem (runtime mem m) b"
  "runtime mem (Suc m) (CWeak b) = rc_weak_decrement (runtime mem m) b"
  "runtime mem (Suc m) CDrain = rc_free_queue_drain (runtime mem m)"
  "runtime mem (Suc m) CDrainLoop = drain_loop (runtime mem m)"
  "runtime mem (Suc m) CCollect = gc_collect mem (runtime mem m) m"
  by (simp_all add: fun_eq_iff)

declare runtime.simps(2) [simp del]

definition gc_force :: "(nat \<Rightarrow> bool) \<Rightarrow> nat \<Rightarrow> gcst \<Rightarrow> gcst option" where
  "gc_force mem m = runtime mem m CCollect"

definition gc_enable :: "gcst \<Rightarrow> gcst" where
  "gc_enable st = st\<lparr>gc_enabled := True, gc_mode := (if gc_mode st = GC_DISABLED then GC_MANUAL else gc_mode st)\<rparr>"

definition gc_disable :: "gcst \<Rightarrow> gcst" where
  "gc_disable st = st\<lparr>gc_enabled := False, gc_mode := GC_DISABLED\<rparr>"

definition gc_set_mode :: "gcmode \<Rightarrow> gcst \<Rightarrow> gcst" where
  "gc_set_mode md st = st\<lparr>gc_mode := md\<rparr>"

definition gc_auto :: "gcst \<Rightarrow> gcst" where
  "gc_auto st = st\<lparr>gc_enabled := True, gc_mode := GC_AUTO, gc_allocs := 0\<rparr>"

definition gc_is_alive :: "gcst \<Rightarrow> nat \<Rightarrow> bool" where
  "gc_is_alive st b \<longleftrightarrow> cb_strong (blk st b) > 0 \<or> gc_get_color st b = GC_BLACK \<or> gc_get_color st b = GC_GREY"


section \<open>Allocation\<close>

definition gc_on_alloc_checkpoint ::
  "(rcall \<Rightarrow> gcst \<Rightarrow> gcst option) \<Rightarrow> gcst \<Rightarrow> gcst option" where
  "gc_on_alloc_checkpoint call st =
     (if gc_mode st \<noteq> GC_AUTO \<or> \<not> gc_enabled st then Some st
      else if gc_in_collection st then Some st
      else let st = st\<lparr>gc_allocs := gc_allocs st + 1\<rparr>
        in if \<not> (length (gc_suspects st) \<ge> GC_SUSPECT_THRESHOLD) \<and> \<not> (gc_allocs st \<ge> GC_AUTO_ALLOC_INTERVAL)
           then Some st else call CCollect st)"

definition gc_register_block ::
  "(nat \<Rightarrow> bool) \<Rightarrow> (rcall \<Rightarrow> gcst \<Rightarrow> gcst option) \<Rightarrow> nat \<Rightarrow> gcst \<Rightarrow> gcst option" where
  "gc_register_block mem call b st =
     Option.bind (gc_on_alloc_checkpoint call st) (\<lambda>st. Some (registry_insert mem b st))"

text \<open>
  A new block at the address \<open>b\<close> that \<open>malloc\<close> returned. A payload that the caller has not written yet
  holds no references.
\<close>

definition new_block :: "rref list \<Rightarrow> nat \<Rightarrow> dropfn \<Rightarrow> rckind \<Rightarrow> bool \<Rightarrow> rccb" where
  "new_block v vt fn kind prc = \<lparr>cb_strong = 1, cb_weak = 0, cb_value = Some v, cb_drop = fn, cb_walk = False,
     cb_vtk = vt, cb_color = GC_WHITE, cb_cycles = True, cb_index = None, cb_buffered = False, cb_trial = 0,
     cb_collecting = False, cb_kind = kind, cb_payload_rc = prc\<rparr>"

definition rc_cb_alloc_kinded ::
  "(nat \<Rightarrow> bool) \<Rightarrow> (rcall \<Rightarrow> gcst \<Rightarrow> gcst option) \<Rightarrow> nat \<Rightarrow> nat \<Rightarrow> dropfn option \<Rightarrow> rckind \<Rightarrow> bool \<Rightarrow> gcst \<Rightarrow> gcst option" where
  "rc_cb_alloc_kinded mem call b vt fn kind prc st =
     (let d = (case fn of Some d \<Rightarrow> d | None \<Rightarrow> default_drop_fn_for_type vt)
      in Option.bind (gc_register_block mem call b (st\<lparr>gc_heap := (gc_heap st)(b \<mapsto> new_block [] vt d kind prc)\<rparr>))
           (\<lambda>st. Some (if vt < RC_VT_REF then upd b (\<lambda>c. c\<lparr>cb_cycles := False\<rparr>) st else st)))"

definition rc_cb_alloc ::
  "(nat \<Rightarrow> bool) \<Rightarrow> (rcall \<Rightarrow> gcst \<Rightarrow> gcst option) \<Rightarrow> nat \<Rightarrow> nat \<Rightarrow> dropfn option \<Rightarrow> gcst \<Rightarrow> gcst option" where
  "rc_cb_alloc mem call b vt fn = rc_cb_alloc_kinded mem call b vt fn RCK_OPAQUE False"

definition rc_cb_alloc_struct ::
  "(nat \<Rightarrow> bool) \<Rightarrow> (rcall \<Rightarrow> gcst \<Rightarrow> gcst option) \<Rightarrow> nat \<Rightarrow> nat \<Rightarrow> dropfn option \<Rightarrow> bool \<Rightarrow> gcst \<Rightarrow> gcst option" where
  "rc_cb_alloc_struct mem call b vt fn walk st =
     Option.bind (rc_cb_alloc_kinded mem call b vt fn RCK_STRUCT False st)
       (\<lambda>st. Some (upd b (\<lambda>c. c\<lparr>cb_walk := walk\<rparr>) st))"

definition tur_rc_from_ref ::
  "(nat \<Rightarrow> bool) \<Rightarrow> (rcall \<Rightarrow> gcst \<Rightarrow> gcst option) \<Rightarrow> nat \<Rightarrow> rref list \<Rightarrow> nat \<Rightarrow> gcst \<Rightarrow> gcst option" where
  "tur_rc_from_ref mem call b v vt st =
     gc_register_block mem call b
       (st\<lparr>gc_heap := (gc_heap st)(b \<mapsto> new_block v vt (default_drop_fn_for_type vt) RCK_OPAQUE False)\<rparr>)"

text \<open>The payload, or None when the program is aborted because the reference is not unique.\<close>

definition tur_ref_from_rc :: "nat \<Rightarrow> gcst \<Rightarrow> (rref list option \<times> gcst) option" where
  "tur_ref_from_rc b st =
     (if cb_strong (blk st b) \<noteq> 1 \<or> cb_weak (blk st b) \<noteq> 0 then None
      else Some (cb_value (blk st b), free_block b (gc_unregister_block b (clear_value b st))))"

end
