(* ===== verification/RcSound.thy ===== *)
theory RcSound
  imports GcFind Rc
begin

text \<open>
  What a collection does with the garbage it has found: the drop functions run while every member of
  the garbage is flagged, each reference they release from a block that survives leaves it alive, and
  then the blocks are freed; the heap that is left is ready for the next collection.
\<close>

section \<open>Single updates\<close>

lemma upd_sel [simp]:
  "gc_suspects (upd b f st) = gc_suspects st" "gc_suspect_cap (upd b f st) = gc_suspect_cap st"
  "gc_all (upd b f st) = gc_all st" "gc_pending (upd b f st) = gc_pending st"
  "gc_mode (upd b f st) = gc_mode st" "gc_enabled (upd b f st) = gc_enabled st"
  "gc_in_collection (upd b f st) = gc_in_collection st" "fq_init (upd b f st) = fq_init st"
  "fq_items (upd b f st) = fq_items st" "fq_draining (upd b f st) = fq_draining st" "alloc (upd b f st) = alloc st"
  by (auto simp: upd_def alloc_def fun_eq_iff split: option.split)

lemma upd_fault [simp]: "alloc st b \<Longrightarrow> gc_fault (upd b f st) = gc_fault st"
  by (auto simp: upd_def alloc_def)

lemma free_block_sel [simp]:
  "gc_suspects (free_block b st) = gc_suspects st" "gc_all (free_block b st) = gc_all st"
  "alloc st b \<Longrightarrow> gc_fault (free_block b st) = gc_fault st"
  "alloc (free_block b st) x \<longleftrightarrow> alloc st x \<and> x \<noteq> b"
  "x \<noteq> b \<Longrightarrow> blk (free_block b st) x = blk st x"
  by (auto simp: free_block_def alloc_def blk_def split: option.split)

lemma blk_lists [simp]:
  "blk (st\<lparr>gc_suspects := x\<rparr>) b = blk st b" "blk (st\<lparr>gc_suspect_cap := n\<rparr>) b = blk st b"
  "blk (st\<lparr>gc_high_water := n\<rparr>) b = blk st b" "blk (st\<lparr>gc_all := x\<rparr>) b = blk st b"
  "blk (st\<lparr>gc_pending := x\<rparr>) b = blk st b" "blk (st\<lparr>gc_objects_freed := n\<rparr>) b = blk st b"
  "alloc (st\<lparr>gc_suspects := x\<rparr>) b = alloc st b" "alloc (st\<lparr>gc_suspect_cap := n\<rparr>) b = alloc st b"
  "alloc (st\<lparr>gc_high_water := n\<rparr>) b = alloc st b" "alloc (st\<lparr>gc_all := x\<rparr>) b = alloc st b"
  "alloc (st\<lparr>gc_pending := x\<rparr>) b = alloc st b" "alloc (st\<lparr>gc_objects_freed := n\<rparr>) b = alloc st b"
  by (simp_all add: blk_def alloc_def)


section \<open>The candidate buffer while values are dropped\<close>

text \<open>What stays of a block, whoever is collected around it.\<close>

definition strip :: "rccb \<Rightarrow> rccb" where
  "strip c = c\<lparr>cb_color := GC_WHITE, cb_trial := 0, cb_buffered := False, cb_strong := 0, cb_index := None\<rparr>"

lemma strip_sel:
  assumes "strip c = strip d"
  shows "cb_weak c = cb_weak d" and "cb_value c = cb_value d" and "cb_drop c = cb_drop d"
    and "cb_collecting c = cb_collecting d" and "cb_cycles c = cb_cycles d" and "gc_children c = gc_children d"
proof -
  show "cb_weak c = cb_weak d" "cb_value c = cb_value d" "cb_drop c = cb_drop d"
    "cb_collecting c = cb_collecting d" "cb_cycles c = cb_cycles d"
    using arg_cong [OF assms, of cb_weak] arg_cong [OF assms, of cb_value] arg_cong [OF assms, of cb_drop]
      arg_cong [OF assms, of cb_collecting] arg_cong [OF assms, of cb_cycles] by (simp_all add: strip_def)
  have "gc_children (strip x) = gc_children x" for x by (cases "cb_value x"; simp add: gc_children_def strip_def)
  then show "gc_children c = gc_children d" using assms by metis
qed

text \<open>
  The state after the references \<open>D\<close> have been released and the values of \<open>X\<close> cleared, from the state
  \<open>st0\<close> on, while the blocks of \<open>W\<close> are flagged.
\<close>

definition dropping :: "nat set \<Rightarrow> gcst \<Rightarrow> nat set \<Rightarrow> nat list \<Rightarrow> gcst \<Rightarrow> bool" where
  "dropping W st0 X D st \<longleftrightarrow>
     alloc st = alloc st0 \<and> gc_all st = gc_all st0 \<and> gc_pending st = gc_pending st0 \<and> gc_fault st = gc_fault st0 \<and>
     gc_mode st = gc_mode st0 \<and> gc_enabled st = gc_enabled st0 \<and> gc_in_collection st = gc_in_collection st0 \<and>
     (fq_items st = [] \<or> fq_draining st) \<and>
     (\<forall>b. strip (blk st b) = strip (if b \<in> X then (blk st0 b)\<lparr>cb_value := None\<rparr> else blk st0 b)) \<and>
     (\<forall>b. cb_index (blk st b) = cb_index (blk st0 b)) \<and>
     (\<forall>b. b \<notin> W \<longrightarrow> strong_of st b = strong_of st0 b - count_list D b) \<and>
     (\<exists>new. gc_suspects st = gc_suspects st0 @ new \<and> set new \<subseteq> set D - W \<and>
        (\<forall>b. color_of st b = (if b \<in> set new then GC_PURPLE else color_of st0 b)) \<and>
        (\<forall>b. cb_buffered (blk st b) \<longleftrightarrow> cb_buffered (blk st0 b) \<or> b \<in> set new))"

lemma droppingD:
  assumes "dropping W st0 X D st"
  shows "alloc st = alloc st0" and "gc_all st = gc_all st0" and "gc_pending st = gc_pending st0"
    and "gc_fault st = gc_fault st0" and "gc_mode st = gc_mode st0" and "gc_enabled st = gc_enabled st0"
    and "gc_in_collection st = gc_in_collection st0" and "fq_items st = [] \<or> fq_draining st"
    and "strip (blk st b) = strip (if b \<in> X then (blk st0 b)\<lparr>cb_value := None\<rparr> else blk st0 b)"
    and "cb_index (blk st b) = cb_index (blk st0 b)"
    and "b \<notin> W \<Longrightarrow> strong_of st b = strong_of st0 b - count_list D b"
    and "\<exists>new. gc_suspects st = gc_suspects st0 @ new \<and> set new \<subseteq> set D - W \<and>
        (\<forall>b. color_of st b = (if b \<in> set new then GC_PURPLE else color_of st0 b)) \<and>
        (\<forall>b. cb_buffered (blk st b) \<longleftrightarrow> cb_buffered (blk st0 b) \<or> b \<in> set new)"
  using assms by (simp_all add: dropping_def)

lemma dropping_refl: "fq_items st = [] \<or> fq_draining st \<Longrightarrow> dropping W st {} [] st"
  by (simp add: dropping_def exI [of _ "[]"])

text \<open>Offering a candidate inside a collection.\<close>

lemma add_suspect_inside:
  assumes mem: "\<forall>n. mem n" and a: "alloc st b" and "gc_enabled st" and "gc_mode st \<noteq> GC_DISABLED"
    and inc: "gc_in_collection st"
  shows "\<exists>st'. gc_possible_root mem (runtime mem (Suc m)) b st = Some st' \<and> alloc st' = alloc st \<and>
     gc_all st' = gc_all st \<and> gc_pending st' = gc_pending st \<and> gc_fault st' = gc_fault st \<and>
     gc_mode st' = gc_mode st \<and> gc_enabled st' = gc_enabled st \<and> gc_in_collection st' = gc_in_collection st \<and>
     fq_items st' = fq_items st \<and> fq_draining st' = fq_draining st \<and>
     (\<forall>x. strip (blk st' x) = strip (blk st x) \<and> strong_of st' x = strong_of st x \<and> cb_index (blk st' x) = cb_index (blk st x)) \<and>
     (\<exists>new. gc_suspects st' = gc_suspects st @ new \<and> set new \<subseteq> {b} \<and>
        (\<forall>x. color_of st' x = (if x \<in> set new then GC_PURPLE else color_of st x)) \<and>
        (\<forall>x. cb_buffered (blk st' x) \<longleftrightarrow> cb_buffered (blk st x) \<or> x \<in> set new))"
proof (cases "cb_buffered (blk st b) \<or> \<not> cb_cycles (blk st b)")
  case True
  then show ?thesis using assms
    by (intro exI [of _ st]) (auto simp: gc_possible_root_def gc_add_suspect_def intro!: exI [of _ "[]"])
next
  case False
  obtain cap where cap: "(if length (gc_suspects st) \<ge> gc_suspect_cap st
      then gc_vec_reserve mem (gc_suspect_cap st) (length (gc_suspects st) + 1) else Some (gc_suspect_cap st)) = Some cap"
    using reserve_granted [OF mem] by blast
  define st1 where "st1 = upd b (\<lambda>c. c\<lparr>cb_buffered := True\<rparr>) (st\<lparr>gc_suspect_cap := cap\<rparr>)"
  define st2 where "st2 = st1\<lparr>gc_suspects := gc_suspects st1 @ [b]\<rparr>"
  define st3 where "st3 = (if length (gc_suspects st2) > gc_high_water st2
      then st2\<lparr>gc_high_water := length (gc_suspects st2)\<rparr> else st2)"
  define st4 where "st4 = gc_set_color b GC_PURPLE st3"
  have app: "suspect_append mem b st = (True, st4)"
    using cap by (simp add: suspect_append_def Let_def st1_def st2_def st3_def st4_def)
  have a1: "alloc (st\<lparr>gc_suspect_cap := cap\<rparr>) b" using a by simp
  have a3: "alloc st3 b" and al3: "alloc st3 = alloc st"
    using a by (auto simp: st3_def st2_def st1_def fun_eq_iff)
  have sel3: "gc_all st3 = gc_all st" "gc_pending st3 = gc_pending st" "gc_fault st3 = gc_fault st"
    "gc_mode st3 = gc_mode st" "gc_enabled st3 = gc_enabled st" "gc_in_collection st3 = gc_in_collection st"
    "fq_items st3 = fq_items st" "fq_draining st3 = fq_draining st" "gc_suspects st3 = gc_suspects st @ [b]"
    "blk st3 x = (if x = b then (blk st b)\<lparr>cb_buffered := True\<rparr> else blk st x)" for x
    using a1 by (simp_all add: st3_def st2_def st1_def blk_upd)
  have sel4: "gc_all st4 = gc_all st" "gc_pending st4 = gc_pending st" "gc_fault st4 = gc_fault st"
    "gc_mode st4 = gc_mode st" "gc_enabled st4 = gc_enabled st" "gc_in_collection st4 = gc_in_collection st"
    "fq_items st4 = fq_items st" "fq_draining st4 = fq_draining st" "gc_suspects st4 = gc_suspects st @ [b]"
    "alloc st4 = alloc st"
    "blk st4 x = (if x = b then (blk st b)\<lparr>cb_buffered := True, cb_color := GC_PURPLE\<rparr> else blk st x)" for x
    using a3 sel3 al3 by (simp_all add: st4_def gc_set_color_def blk_upd)
  have "runtime mem (Suc m) CCollect st4 = Some st4"
    using assms(3,4) inc sel4 by (simp add: runtime_calls gc_collect_def)
  then have "gc_possible_root mem (runtime mem (Suc m)) b st = Some st4"
    using False assms(3,4) app by (simp add: gc_possible_root_def gc_add_suspect_def)
  then show ?thesis
    using sel4 by (intro exI [of _ st4]) (auto simp: strip_def intro!: exI [of _ "[b]"])
qed

text \<open>One reference of a member of the garbage is released.\<close>

lemma drop_one:
  assumes mem: "\<forall>n. mem n" and J: "dropping W st0 X D st" and a: "alloc st0 t"
    and st0: "gc_enabled st0" "gc_mode st0 \<noteq> GC_DISABLED" "gc_in_collection st0"
    and W: "\<forall>b. cb_collecting (blk st0 b) \<longleftrightarrow> b \<in> W" and X: "X \<subseteq> W"
    and room: "t \<notin> W \<Longrightarrow> count_list D t + 1 < strong_of st0 t \<and> strong_of st0 t < 2 ^ 64"
  shows "\<exists>st'. runtime mem (Suc (Suc m)) (CStrong t) st = Some st' \<and> dropping W st0 X (D @ [t]) st'"
proof -
  have a': "alloc st t" using a droppingD(1) [OF J] by simp
  have sc: "cb_collecting (blk st t) \<longleftrightarrow> t \<in> W"
    using strip_sel(4) [OF droppingD(9) [OF J, of t]] W by (auto split: if_splits)
  obtain new where new: "gc_suspects st = gc_suspects st0 @ new" "set new \<subseteq> set D - W"
      "\<forall>b. color_of st b = (if b \<in> set new then GC_PURPLE else color_of st0 b)"
      "\<forall>b. cb_buffered (blk st b) \<longleftrightarrow> cb_buffered (blk st0 b) \<or> b \<in> set new"
    using droppingD(12) [OF J] by blast
  have set_s: "blk (set_strong t f st) x = (if x = t then (blk st t)\<lparr>cb_strong := f (strong_of st t)\<rparr> else blk st x)" for f x
    using a' by (simp add: set_strong_def blk_upd)
  have st1: "dropping W st0 X (D @ [t]) (set_strong t f st)" if "t \<notin> W \<longrightarrow> f (strong_of st t) = strong_of st t - 1" for f
    unfolding dropping_def
  proof (intro conjI allI impI)
    show "fq_items (set_strong t f st) = [] \<or> fq_draining (set_strong t f st)"
      using droppingD(8) [OF J] by (simp add: set_strong_def)
    show "strip (blk (set_strong t f st) b) = strip (if b \<in> X then (blk st0 b)\<lparr>cb_value := None\<rparr> else blk st0 b)" for b
    proof -
      have "strip (blk (set_strong t f st) b) = strip (blk st b)" by (simp add: set_s strip_def)
      then show ?thesis using droppingD(9) [OF J, of b] by simp
    qed
    show "strong_of (set_strong t f st) b = strong_of st0 b - count_list (D @ [t]) b" if "b \<notin> W" for b
      using droppingD(11) [OF J that] that \<open>t \<notin> W \<longrightarrow> _\<close> by (auto simp: set_s count_list_append)
    show "\<exists>n. gc_suspects (set_strong t f st) = gc_suspects st0 @ n \<and> set n \<subseteq> set (D @ [t]) - W \<and>
        (\<forall>b. color_of (set_strong t f st) b = (if b \<in> set n then GC_PURPLE else color_of st0 b)) \<and>
        (\<forall>b. cb_buffered (blk (set_strong t f st) b) \<longleftrightarrow> cb_buffered (blk st0 b) \<or> b \<in> set n)"
    proof (intro exI [of _ new] conjI allI)
      show "gc_suspects (set_strong t f st) = gc_suspects st0 @ new" using new(1) by (simp add: set_strong_def)
      show "set new \<subseteq> set (D @ [t]) - W" using new(2) by auto
      show "color_of (set_strong t f st) b = (if b \<in> set new then GC_PURPLE else color_of st0 b)" for b
        using new(3) by (simp add: set_s)
      show "cb_buffered (blk (set_strong t f st) b) \<longleftrightarrow> cb_buffered (blk st0 b) \<or> b \<in> set new" for b
        using new(4) by (simp add: set_s)
    qed
  qed (use droppingD(1-7,10) [OF J] a' in \<open>simp_all add: set_strong_def blk_upd\<close>)
  show ?thesis
  proof (cases "t \<in> W")
    case True
    show ?thesis
    proof (cases "strong_of st t > 0")
      case pos: True
      then show ?thesis using st1 [of dec64] True sc by (simp add: runtime_calls rc_strong_decrement_def)
    next
      case False
      have "set_strong t (\<lambda>n. n) st = st" using a' by (auto simp: set_strong_def upd_def alloc_def fun_upd_idem)
      then have "dropping W st0 X (D @ [t]) st" using st1 [of "\<lambda>n. n"] True by simp
      then show ?thesis using True False sc by (simp add: runtime_calls rc_strong_decrement_def)
    qed
  next
    case False
    let ?st1 = "set_strong t dec64 st"
    have s: "strong_of st t = strong_of st0 t - count_list D t" by (rule droppingD(11) [OF J False])
    have r: "1 < strong_of st t" "strong_of st t < 2 ^ 64" using room [OF False] s by linarith+
    have d: "dec64 (strong_of st t) = strong_of st t - 1"
    proof -
      obtain n where n: "strong_of st t = Suc n" using r(1) by (cases "strong_of st t") auto
      then have "strong_of st t + (2 ^ 64 - 1) = n + 2 ^ 64" by simp
      then show ?thesis using n r(2) by (simp add: dec64_def)
    qed
    have J1: "dropping W st0 X (D @ [t]) ?st1" by (rule st1) (simp add: d)
    have s1: "strong_of ?st1 t > 0" using r d by (simp add: set_s)
    have a1: "alloc ?st1 t" using a' by (simp add: set_strong_def)
    have m1: "gc_enabled ?st1" "gc_mode ?st1 \<noteq> GC_DISABLED" "gc_in_collection ?st1"
      using st0 droppingD(5,6,7) [OF J1] by simp_all
    obtain st2 where 2: "gc_possible_root mem (runtime mem (Suc m)) t ?st1 = Some st2"
      and e: "alloc st2 = alloc ?st1 \<and> gc_all st2 = gc_all ?st1 \<and> gc_pending st2 = gc_pending ?st1 \<and> gc_fault st2 = gc_fault ?st1 \<and>
     gc_mode st2 = gc_mode ?st1 \<and> gc_enabled st2 = gc_enabled ?st1 \<and> gc_in_collection st2 = gc_in_collection ?st1 \<and>
     fq_items st2 = fq_items ?st1 \<and> fq_draining st2 = fq_draining ?st1 \<and>
     (\<forall>x. strip (blk st2 x) = strip (blk ?st1 x) \<and> strong_of st2 x = strong_of ?st1 x \<and> cb_index (blk st2 x) = cb_index (blk ?st1 x))"
      and n: "\<exists>new. gc_suspects st2 = gc_suspects ?st1 @ new \<and> set new \<subseteq> {t} \<and>
        (\<forall>x. color_of st2 x = (if x \<in> set new then GC_PURPLE else color_of ?st1 x)) \<and>
        (\<forall>x. cb_buffered (blk st2 x) \<longleftrightarrow> cb_buffered (blk ?st1 x) \<or> x \<in> set new)"
      using add_suspect_inside [OF mem a1 m1, of m] by blast
    have run: "runtime mem (Suc (Suc m)) (CStrong t) st = Some st2"
      using False sc s1 m1(2) 2 by (simp add: runtime_calls rc_strong_decrement_def)
    obtain n2 where n2: "gc_suspects st2 = gc_suspects ?st1 @ n2" "set n2 \<subseteq> {t}"
        "\<forall>x. color_of st2 x = (if x \<in> set n2 then GC_PURPLE else color_of ?st1 x)"
        "\<forall>x. cb_buffered (blk st2 x) \<longleftrightarrow> cb_buffered (blk ?st1 x) \<or> x \<in> set n2" using n by blast
    obtain n1 where n1: "gc_suspects ?st1 = gc_suspects st0 @ n1" "set n1 \<subseteq> set (D @ [t]) - W"
        "\<forall>b. color_of ?st1 b = (if b \<in> set n1 then GC_PURPLE else color_of st0 b)"
        "\<forall>b. cb_buffered (blk ?st1 b) \<longleftrightarrow> cb_buffered (blk st0 b) \<or> b \<in> set n1"
      using droppingD(12) [OF J1] by blast
    have "dropping W st0 X (D @ [t]) st2"
      unfolding dropping_def
    proof (intro conjI allI impI)
      show "\<exists>n. gc_suspects st2 = gc_suspects st0 @ n \<and> set n \<subseteq> set (D @ [t]) - W \<and>
          (\<forall>b. color_of st2 b = (if b \<in> set n then GC_PURPLE else color_of st0 b)) \<and>
          (\<forall>b. cb_buffered (blk st2 b) \<longleftrightarrow> cb_buffered (blk st0 b) \<or> b \<in> set n)"
      proof (intro exI [of _ "n1 @ n2"] conjI allI)
        show "gc_suspects st2 = gc_suspects st0 @ n1 @ n2" using n1(1) n2(1) by simp
        show "set (n1 @ n2) \<subseteq> set (D @ [t]) - W" using n1(2) n2(2) False by auto
        show "color_of st2 b = (if b \<in> set (n1 @ n2) then GC_PURPLE else color_of st0 b)" for b
          using n1(3) n2(3) by auto
        show "cb_buffered (blk st2 b) \<longleftrightarrow> cb_buffered (blk st0 b) \<or> b \<in> set (n1 @ n2)" for b
          using n1(4) n2(4) by auto
      qed
    qed (use e droppingD(1-11) [OF J1] in simp_all)
    with run show ?thesis by blast
  qed
qed

lemma drain_inside:
  assumes "dropping W st0 X D st"
  shows "runtime mem (Suc m) CDrain st = Some st"
  using droppingD(8) [OF assms] by (auto simp: runtime_calls rc_free_queue_drain_def)

text \<open>The glue of a block whose references are all strong.\<close>

lemma drop_refs_drops:
  assumes mem: "\<forall>n. mem n" and "dropping W st0 X D st"
    and st0: "gc_enabled st0" "gc_mode st0 \<noteq> GC_DISABLED" "gc_in_collection st0"
    and W: "\<forall>b. cb_collecting (blk st0 b) \<longleftrightarrow> b \<in> W" and X: "X \<subseteq> W"
    and "\<forall>r\<in>set rs. \<exists>t. r = RStrong t" and "\<forall>t\<in>set (strongs rs). alloc st0 t"
    and "\<forall>t. t \<in> set (strongs rs) \<longrightarrow> t \<notin> W \<longrightarrow> count_list (D @ strongs rs) t < strong_of st0 t \<and> strong_of st0 t < 2 ^ 64"
  shows "\<exists>st'. drop_refs (runtime mem (Suc (Suc m))) rs st = Some st' \<and> dropping W st0 X (D @ strongs rs) st'"
  using assms(2,8-)
proof (induction rs arbitrary: D st)
  case Nil
  then show ?case by simp
next
  case (Cons r rs)
  obtain t where r: "r = RStrong t" using Cons.prems(2) by auto
  have room: "t \<notin> W \<Longrightarrow> count_list D t + 1 < strong_of st0 t \<and> strong_of st0 t < 2 ^ 64"
    using Cons.prems(4) r count_list_append [of D "t # strongs rs" t] by fastforce
  have "alloc st0 t" using Cons.prems(3) r by simp
  from drop_one [OF mem Cons.prems(1) this st0 W X room] obtain st1 where
    1: "runtime mem (Suc (Suc m)) (CStrong t) st = Some st1" "dropping W st0 X (D @ [t]) st1" by blast
  have "\<forall>x. x \<in> set (strongs rs) \<longrightarrow> x \<notin> W \<longrightarrow>
      count_list ((D @ [t]) @ strongs rs) x < strong_of st0 x \<and> strong_of st0 x < 2 ^ 64"
    using Cons.prems(4) r by simp
  then obtain st' where 2: "drop_refs (runtime mem (Suc (Suc m))) rs st1 = Some st'"
      "dropping W st0 X ((D @ [t]) @ strongs rs) st'"
    using Cons.IH [OF 1(2)] Cons.prems(2,3) r by auto
  then show ?case using 1(1) drain_inside [OF 1(2), of mem "Suc m"] r by simp
qed

text \<open>A block whose drop function releases exactly the references the collector follows.\<close>

definition plain_glue :: "rccb \<Rightarrow> bool" where
  "plain_glue c \<longleftrightarrow>
     (case cb_value c of None \<Rightarrow> True
      | Some v \<Rightarrow> (case cb_drop c of DropPlain \<Rightarrow> gc_children c = []
           | DropRefs \<Rightarrow> gc_children c = strongs v \<and> (\<forall>r\<in>set v. \<exists>t. r = RStrong t)))"

lemma dropping_clear:
  assumes J: "dropping W st0 X D st" and a: "alloc st0 b"
  shows "dropping W st0 (insert b X) D (clear_value b st)"
proof -
  have a': "alloc st b" using a droppingD(1) [OF J] by simp
  have bl: "blk (clear_value b st) x = (if x = b then (blk st b)\<lparr>cb_value := None\<rparr> else blk st x)" for x
    using a' by (simp add: clear_value_def blk_upd)
  have "strip (blk (clear_value b st) x) = strip (if x \<in> insert b X then (blk st0 x)\<lparr>cb_value := None\<rparr> else blk st0 x)" for x
  proof (cases "x = b")
    case True
    have "(strip c)\<lparr>cb_value := None\<rparr> = strip (c\<lparr>cb_value := None\<rparr>)" for c by (simp add: strip_def)
    then have "strip ((blk st b)\<lparr>cb_value := None\<rparr>) =
        (strip (if b \<in> X then (blk st0 b)\<lparr>cb_value := None\<rparr> else blk st0 b))\<lparr>cb_value := None\<rparr>"
      using droppingD(9) [OF J, of b] by metis
    then show ?thesis using True by (simp add: bl strip_def)
  next
    case False
    then show ?thesis using droppingD(9) [OF J, of x] by (simp add: bl)
  qed
  moreover have "\<exists>n. gc_suspects (clear_value b st) = gc_suspects st0 @ n \<and> set n \<subseteq> set D - W \<and>
      (\<forall>x. color_of (clear_value b st) x = (if x \<in> set n then GC_PURPLE else color_of st0 x)) \<and>
      (\<forall>x. cb_buffered (blk (clear_value b st) x) \<longleftrightarrow> cb_buffered (blk st0 x) \<or> x \<in> set n)"
  proof -
    have same: "color_of (clear_value b st) x = color_of st x" "cb_buffered (blk (clear_value b st) x) = cb_buffered (blk st x)" for x
      by (simp_all add: bl)
    show ?thesis unfolding same using droppingD(12) [OF J] by (simp add: clear_value_def)
  qed
  moreover have "strong_of (clear_value b st) x = strong_of st x" "cb_index (blk (clear_value b st) x) = cb_index (blk st x)" for x
    by (simp_all add: bl)
  ultimately show ?thesis
    unfolding dropping_def using droppingD(1-8,10,11) [OF J] a' by (simp add: clear_value_def)
qed

lemma drop_value_drops:
  assumes mem: "\<forall>n. mem n" and J: "dropping W st0 X D st"
    and st0: "gc_enabled st0" "gc_mode st0 \<noteq> GC_DISABLED" "gc_in_collection st0"
    and W: "\<forall>b. cb_collecting (blk st0 b) \<longleftrightarrow> b \<in> W" and X: "X \<subseteq> W"
    and b: "b \<in> W - X" "alloc st0 b" "plain_glue (blk st0 b)" and al: "\<forall>t\<in>set (kids st0 b). alloc st0 t"
    and room: "\<forall>t. t \<in> set (kids st0 b) \<longrightarrow> t \<notin> W \<longrightarrow> count_list (D @ kids st0 b) t < strong_of st0 t \<and> strong_of st0 t < 2 ^ 64"
  shows "\<exists>st'. drop_value (runtime mem (Suc (Suc m))) b st = Some st' \<and> dropping W st0 (insert b X) (D @ kids st0 b) st'"
proof -
  have "strip (blk st b) = strip (blk st0 b)" using droppingD(9) [OF J, of b] b(1) by simp
  note same = strip_sel [OF this]
  show ?thesis
  proof (cases "cb_value (blk st0 b)")
    case None
    then have "kids st0 b = []" by (simp add: kids_def gc_children_def)
    moreover have "(blk st0 b)\<lparr>cb_value := None\<rparr> = blk st0 b" using None by simp
    then have "dropping W st0 (insert b X) D st"
      using J unfolding dropping_def by auto
    ultimately show ?thesis using None same(2) by (simp add: drop_value_def)
  next
    case (Some v)
    show ?thesis
    proof (cases "cb_drop (blk st0 b)")
      case DropPlain
      then have "kids st0 b = []" using b(3) Some by (simp add: plain_glue_def kids_def)
      then show ?thesis
        using DropPlain Some same(2,3) dropping_clear [OF J b(2)] by (simp add: drop_value_def run_drop_fn_def)
    next
      case DropRefs
      then have v: "kids st0 b = strongs v" "\<forall>r\<in>set v. \<exists>t. r = RStrong t"
        using b(3) Some by (simp_all add: plain_glue_def kids_def)
      obtain st1 where 1: "drop_refs (runtime mem (Suc (Suc m))) v st = Some st1" "dropping W st0 X (D @ kids st0 b) st1"
        using drop_refs_drops [OF mem J st0 W X v(2), of m] al room v(1) by auto
      then show ?thesis
        using DropRefs Some same(2,3) dropping_clear [OF 1(2) b(2)] by (simp add: drop_value_def run_drop_fn_def)
    qed
  qed
qed

lemma run_drops_drops:
  assumes mem: "\<forall>n. mem n" and "dropping W st0 X D st"
    and st0: "gc_enabled st0" "gc_mode st0 \<noteq> GC_DISABLED" "gc_in_collection st0"
    and W: "\<forall>b. cb_collecting (blk st0 b) \<longleftrightarrow> b \<in> W" and "X \<subseteq> W" and "set bs \<subseteq> W - X" and "distinct bs"
    and al: "\<forall>b\<in>W. alloc st0 b \<and> plain_glue (blk st0 b) \<and> (\<forall>t\<in>set (kids st0 b). alloc st0 t)"
    and "\<forall>t. t \<in> set (concat (map (kids st0) bs)) \<longrightarrow> t \<notin> W \<longrightarrow>
      count_list (D @ concat (map (kids st0) bs)) t < strong_of st0 t \<and> strong_of st0 t < 2 ^ 64"
  shows "\<exists>st'. run_drops (runtime mem (Suc (Suc m))) bs st = Some st' \<and>
    dropping W st0 (X \<union> set bs) (D @ concat (map (kids st0) bs)) st'"
  using assms(2,7-9,11)
proof (induction bs arbitrary: X D st)
  case Nil
  then show ?case by simp
next
  case (Cons b bs)
  have b: "b \<in> W - X" "alloc st0 b" "plain_glue (blk st0 b)" "\<forall>t\<in>set (kids st0 b). alloc st0 t"
    using Cons.prems(3) al by auto
  have room: "\<forall>t. t \<in> set (kids st0 b) \<longrightarrow> t \<notin> W \<longrightarrow> count_list (D @ kids st0 b) t < strong_of st0 t \<and> strong_of st0 t < 2 ^ 64"
  proof (intro allI impI)
    fix t assume t: "t \<in> set (kids st0 b)" "t \<notin> W"
    then have "count_list (D @ concat (map (kids st0) (b # bs))) t < strong_of st0 t \<and> strong_of st0 t < 2 ^ 64"
      using Cons.prems(5) by simp
    then show "count_list (D @ kids st0 b) t < strong_of st0 t \<and> strong_of st0 t < 2 ^ 64"
      by (simp add: count_list_append)
  qed
  obtain st1 where 1: "drop_value (runtime mem (Suc (Suc m))) b st = Some st1"
      "dropping W st0 (insert b X) (D @ kids st0 b) st1"
    using drop_value_drops [OF mem Cons.prems(1) st0 W Cons.prems(2) b room] by blast
  have "\<exists>st'. run_drops (runtime mem (Suc (Suc m))) bs st1 = Some st' \<and>
      dropping W st0 (insert b X \<union> set bs) ((D @ kids st0 b) @ concat (map (kids st0) bs)) st'"
    using Cons.prems(2-5) b(1) by (intro Cons.IH [OF 1(2)]) auto
  then show ?case using 1(1) by simp
qed

lemma count_concat_kids: "distinct bs \<Longrightarrow> count_list (concat (map K bs)) t = seen_refs K (set bs) t"
  by (induction bs) (simp_all add: count_list_append seen_refs_insert)


section \<open>Freeing the garbage\<close>

definition reg_ok :: "gcst \<Rightarrow> bool" where
  "reg_ok st \<longleftrightarrow> distinct (gc_all st) \<and>
     (\<forall>i<length (gc_all st). alloc st (gc_all st ! i) \<and> cb_index (blk st (gc_all st ! i)) = Some i)"

definition noidx :: "rccb \<Rightarrow> rccb" where
  "noidx c = c\<lparr>cb_index := None\<rparr>"

lemma noidx_sel:
  assumes "noidx c = noidx d"
  shows "cb_weak c = cb_weak d" and "cb_value c = cb_value d" and "cb_strong c = cb_strong d"
    and "cb_color c = cb_color d" and "cb_buffered c = cb_buffered d" and "strip c = strip d"
proof -
  show "cb_weak c = cb_weak d" "cb_value c = cb_value d" "cb_strong c = cb_strong d" "cb_color c = cb_color d"
    "cb_buffered c = cb_buffered d"
    using arg_cong [OF assms, of cb_weak] arg_cong [OF assms, of cb_value] arg_cong [OF assms, of cb_strong]
      arg_cong [OF assms, of cb_color] arg_cong [OF assms, of cb_buffered] by (simp_all add: noidx_def)
  have "strip (noidx x) = strip x" for x by (simp add: strip_def noidx_def)
  then show "strip c = strip d" using assms by metis
qed

lemma swap_last:
  assumes "distinct xs" and "i < length xs"
  shows "set (butlast (xs[i := last xs])) = set xs - {xs ! i}" and "distinct (butlast (xs[i := last xs]))"
    and "j < length xs - 1 \<Longrightarrow> butlast (xs[i := last xs]) ! j = (if j = i then last xs else xs ! j)"
proof -
  have ne: "xs \<noteq> []" using assms(2) by auto
  define n where "n = length xs - 1"
  have len: "length xs = Suc n" using ne by (simp add: n_def)
  have la: "last xs = xs ! n" using ne by (simp add: last_conv_nth n_def)
  have nth: "butlast (xs[i := last xs]) ! j = (if j = i then last xs else xs ! j)" if "j < n" for j
    using that len assms(2) by (simp add: nth_butlast nth_list_update)
  then show "j < length xs - 1 \<Longrightarrow> butlast (xs[i := last xs]) ! j = (if j = i then last xs else xs ! j)" for j
    by (simp add: n_def)
  have inj: "xs ! a = xs ! b \<longleftrightarrow> a = b" if "a \<le> n" "b \<le> n" for a b
    using that len assms(1) by (simp add: nth_eq_iff_index_eq)
  let ?ys = "butlast (xs[i := last xs])"
  have ly: "length ?ys = n" using len by simp
  have i: "i \<le> n" using assms(2) len by simp
  show "distinct ?ys"
    unfolding distinct_conv_nth ly
  proof (intro allI impI)
    fix a b assume "a < n" "b < n" "a \<noteq> b"
    then show "?ys ! a \<noteq> ?ys ! b" using nth [of a] nth [of b] inj [of a b] inj [of n b] inj [of a n] la by auto
  qed
  show "set ?ys = set xs - {xs ! i}"
  proof
    show "set ?ys \<subseteq> set xs - {xs ! i}"
    proof
      fix x assume "x \<in> set ?ys"
      then obtain j where j: "j < n" "x = ?ys ! j" using ly by (auto simp: in_set_conv_nth)
      then have "x = (if j = i then xs ! n else xs ! j)" using nth la by simp
      then show "x \<in> set xs - {xs ! i}" using j(1) i inj [of n i] inj [of j i] len by (auto split: if_splits)
    qed
    show "set xs - {xs ! i} \<subseteq> set ?ys"
    proof
      fix x assume "x \<in> set xs - {xs ! i}"
      then obtain j where j: "j \<le> n" "x = xs ! j" "j \<noteq> i" using len by (auto simp: in_set_conv_nth less_Suc_eq_le)
      show "x \<in> set ?ys"
      proof (cases "j = n")
        case True
        then have "i < n" using i j(3) by simp
        then have "?ys ! i = x" using nth [of i] la j(2) True by simp
        then show ?thesis using \<open>i < n\<close> ly by (metis nth_mem)
      next
        case False
        then have "?ys ! j = x" "j < n" using nth [of j] j by simp_all
        then show ?thesis using ly by (metis nth_mem)
      qed
    qed
  qed
qed

lemma unregister_one:
  assumes reg: "reg_ok st" and b: "b \<in> set (gc_all st)" and nb: "\<not> cb_buffered (blk st b)"
  shows "set (gc_all (gc_unregister_block b st)) = set (gc_all st) - {b}"
    and "reg_ok (gc_unregister_block b st)" and "gc_fault (gc_unregister_block b st) = gc_fault st"
    and "gc_suspects (gc_unregister_block b st) = gc_suspects st" and "alloc (gc_unregister_block b st) = alloc st"
    and "noidx (blk (gc_unregister_block b st) x) = noidx (blk st x)"
proof -
  let ?xs = "gc_all st"
  obtain i where i: "i < length ?xs" "b = ?xs ! i" using b by (auto simp: in_set_conv_nth)
  have d: "distinct ?xs" and idx: "\<And>j. j < length ?xs \<Longrightarrow> cb_index (blk st (?xs ! j)) = Some j"
    and al: "\<And>j. j < length ?xs \<Longrightarrow> alloc st (?xs ! j)" using reg by (simp_all add: reg_ok_def)
  define l where "l = last ?xs"
  define st1 where "st1 = upd l (\<lambda>c. c\<lparr>cb_index := Some i\<rparr>) (st\<lparr>gc_all := ?xs[i := l]\<rparr>)"
  define st2 where "st2 = upd b (\<lambda>c. c\<lparr>cb_index := None\<rparr>) (st1\<lparr>gc_all := butlast (gc_all st1)\<rparr>)"
  have ne: "?xs \<noteq> []" using i by auto
  have ll: "l = ?xs ! (length ?xs - 1)" using ne by (simp add: l_def last_conv_nth)
  have la: "alloc st l" using al [of "length ?xs - 1"] ne ll by simp
  have ba: "alloc st b" using al i by simp
  have eq: "gc_unregister_block b st = st2"
    using nb idx [OF i(1)] i by (simp add: gc_unregister_block_def gc_remove_suspect_def Let_def st1_def st2_def l_def)
  have b1: "blk st1 x = (if x = l then (blk st l)\<lparr>cb_index := Some i\<rparr> else blk st x)" for x
    using la by (simp add: st1_def blk_upd)
  have a1: "alloc st1 = alloc st" by (simp add: st1_def fun_eq_iff)
  have b2: "blk st2 x = (if x = b then (blk st1 b)\<lparr>cb_index := None\<rparr> else blk st1 x)" for x
    using ba a1 by (simp add: st2_def blk_upd)
  have all2: "gc_all st2 = butlast (?xs[i := last ?xs])" by (simp add: st2_def st1_def l_def)
  show "set (gc_all (gc_unregister_block b st)) = set ?xs - {b}"
    unfolding eq all2 using swap_last(1) [OF d i(1)] i(2) by simp
  show a2: "alloc (gc_unregister_block b st) = alloc st" unfolding eq by (simp add: st2_def a1 fun_eq_iff)
  show "gc_fault (gc_unregister_block b st) = gc_fault st" "gc_suspects (gc_unregister_block b st) = gc_suspects st"
    unfolding eq using ba la a1 by (simp_all add: st2_def st1_def)
  show "noidx (blk (gc_unregister_block b st) x) = noidx (blk st x)" unfolding eq by (simp add: b2 b1 noidx_def)
  show "reg_ok (gc_unregister_block b st)"
    unfolding eq reg_ok_def all2
  proof (intro conjI allI impI)
    show "distinct (butlast (?xs[i := last ?xs]))" by (rule swap_last(2) [OF d i(1)])
    fix j assume "j < length (butlast (?xs[i := last ?xs]))"
    then have j: "j < length ?xs - 1" by simp
    note nj = swap_last(3) [OF d i(1) j]
    have neq: "?xs ! p = ?xs ! q \<longleftrightarrow> p = q" if "p < length ?xs" "q < length ?xs" for p q
      using that d by (simp add: nth_eq_iff_index_eq)
    show "alloc st2 (butlast (?xs[i := last ?xs]) ! j)"
      using a2 al [of j] la nj j unfolding eq by (simp add: l_def)
    have "butlast (?xs[i := last ?xs]) ! j \<noteq> b"
      using nj neq [of "length ?xs - 1" i] neq [of j i] ll l_def i j by (auto split: if_splits)
    then show "cb_index (blk st2 (butlast (?xs[i := last ?xs]) ! j)) = Some j"
      using nj idx [of j] neq [of j "length ?xs - 1"] ll l_def j by (auto simp: b2 b1)
  qed
qed

lemma release_one:
  assumes reg: "reg_ok st" and b: "b \<in> set (gc_all st)" and nb: "\<not> cb_buffered (blk st b)"
  shows "set (gc_all (release_white b st)) = set (gc_all st) - {b}"
    and "reg_ok (release_white b st)" and "gc_fault (release_white b st) = gc_fault st"
    and "gc_suspects (release_white b st) = gc_suspects st"
    and "x \<noteq> b \<Longrightarrow> alloc (release_white b st) x = alloc st x \<and> noidx (blk (release_white b st) x) = noidx (blk st x)"
    and "cb_weak (blk st b) = 0 \<Longrightarrow> \<not> alloc (release_white b st) b"
    and "cb_weak (blk st b) > 0 \<Longrightarrow> alloc (release_white b st) b \<and> cb_value (blk (release_white b st) b) = cb_value (blk st b)
       \<and> strong_of (release_white b st) b = 0 \<and> color_of (release_white b st) b = color_of st b"
proof -
  note u = unregister_one [OF reg b nb]
  let ?st1 = "gc_unregister_block b st" and ?st2 = "set_strong b (\<lambda>_. 0) (gc_unregister_block b st)"
  have a: "alloc st b" using reg b by (auto simp: reg_ok_def in_set_conv_nth)
  have a1: "alloc ?st1 b" using a u(5) by simp
  have bnot: "b \<notin> set (gc_all ?st1)" using u(1) by simp
  have b2: "blk ?st2 x = (if x = b then (blk ?st1 b)\<lparr>cb_strong := 0\<rparr> else blk ?st1 x)" for x
    using a1 by (simp add: set_strong_def blk_upd)
  have w: "cb_weak (blk ?st2 b) = cb_weak (blk st b)" using noidx_sel(1) [OF u(6), of b] by (simp add: b2)
  have s2: "gc_all ?st2 = gc_all ?st1" "gc_fault ?st2 = gc_fault st" "gc_suspects ?st2 = gc_suspects st" "alloc ?st2 = alloc st"
    using u(3-5) a1 by (simp_all add: set_strong_def)
  have out: "noidx (blk ?st2 x) = noidx (blk st x)" if "x \<noteq> b" for x using u(6) that by (simp add: b2)
  show "set (gc_all (release_white b st)) = set (gc_all st) - {b}" "gc_fault (release_white b st) = gc_fault st"
    "gc_suspects (release_white b st) = gc_suspects st"
    using u(1) s2 a by (simp_all add: release_white_def Let_def gc_free_block_def)
  show "alloc (release_white b st) x = alloc st x \<and> noidx (blk (release_white b st) x) = noidx (blk st x)" if "x \<noteq> b"
    using that s2(4) a out by (simp add: release_white_def Let_def gc_free_block_def blk_upd)
  show "\<not> alloc (release_white b st) b" if "cb_weak (blk st b) = 0"
    using that w by (simp add: release_white_def Let_def gc_free_block_def)
  show "alloc (release_white b st) b \<and> cb_value (blk (release_white b st) b) = cb_value (blk st b)
       \<and> strong_of (release_white b st) b = 0 \<and> color_of (release_white b st) b = color_of st b" if "cb_weak (blk st b) > 0"
    using that w s2(4) a noidx_sel(2,4) [OF u(6), of b] by (simp add: release_white_def Let_def blk_upd b2)
  have idx: "cb_index (blk (release_white b st) x) = cb_index (blk ?st1 x) \<and> alloc (release_white b st) x = alloc ?st1 x" if "x \<noteq> b" for x
    using that s2(4) a u(5) by (simp add: release_white_def Let_def gc_free_block_def blk_upd b2)
  have "gc_all (release_white b st) = gc_all ?st1"
    using s2(1) by (simp add: release_white_def Let_def gc_free_block_def)
  then show "reg_ok (release_white b st)"
    using u(2) bnot idx by (auto simp: reg_ok_def in_set_conv_nth)
qed

lemma release_all:
  assumes "reg_ok st" and "set bs \<subseteq> set (gc_all st)" and "distinct bs" and "\<forall>b\<in>set bs. \<not> cb_buffered (blk st b)"
  shows "set (gc_all (fold release_white bs st)) = set (gc_all st) - set bs \<and> reg_ok (fold release_white bs st) \<and>
    gc_fault (fold release_white bs st) = gc_fault st \<and> gc_suspects (fold release_white bs st) = gc_suspects st \<and>
    (\<forall>x. x \<notin> set bs \<longrightarrow> alloc (fold release_white bs st) x = alloc st x \<and>
       noidx (blk (fold release_white bs st) x) = noidx (blk st x)) \<and>
    (\<forall>b\<in>set bs. if cb_weak (blk st b) = 0 then \<not> alloc (fold release_white bs st) b
       else alloc (fold release_white bs st) b \<and> cb_value (blk (fold release_white bs st) b) = cb_value (blk st b) \<and>
            strong_of (fold release_white bs st) b = 0 \<and> color_of (fold release_white bs st) b = color_of st b)"
  using assms
proof (induction bs arbitrary: st)
  case Nil
  then show ?case by simp
next
  case (Cons b bs)
  have b: "b \<in> set (gc_all st)" "\<not> cb_buffered (blk st b)" "b \<notin> set bs" using Cons.prems by auto
  note r = release_one [OF Cons.prems(1) b(1,2)]
  let ?st1 = "release_white b st"
  have sub: "set bs \<subseteq> set (gc_all ?st1)" using r(1) Cons.prems(2) b(3) by auto
  have same: "noidx (blk ?st1 x) = noidx (blk st x)" if "x \<in> set bs" for x using r(5) [of x] that b(3) by auto
  have nb: "\<forall>x\<in>set bs. \<not> cb_buffered (blk ?st1 x)" using Cons.prems(4) noidx_sel(5) [OF same] by auto
  have "distinct bs" using Cons.prems(3) by simp
  note IH = Cons.IH [OF r(2) sub this nb]
  have b': "alloc (fold release_white bs ?st1) b = alloc ?st1 b" "noidx (blk (fold release_white bs ?st1) b) = noidx (blk ?st1 b)"
    using IH b(3) by blast+
  show ?case
  proof (intro conjI allI impI ballI)
    show "set (gc_all (fold release_white (b # bs) st)) = set (gc_all st) - set (b # bs)" using IH r(1) by auto
    show "reg_ok (fold release_white (b # bs) st)" using IH by simp
    show "gc_fault (fold release_white (b # bs) st) = gc_fault st" using IH r(3) by simp
    show "gc_suspects (fold release_white (b # bs) st) = gc_suspects st" using IH r(4) by simp
    show "alloc (fold release_white (b # bs) st) x = alloc st x" "noidx (blk (fold release_white (b # bs) st) x) = noidx (blk st x)"
      if "x \<notin> set (b # bs)" for x using that IH r(5) [of x] by auto
    fix x assume x: "x \<in> set (b # bs)"
    show "if cb_weak (blk st x) = 0 then \<not> alloc (fold release_white (b # bs) st) x
       else alloc (fold release_white (b # bs) st) x \<and> cb_value (blk (fold release_white (b # bs) st) x) = cb_value (blk st x) \<and>
            strong_of (fold release_white (b # bs) st) x = 0 \<and> color_of (fold release_white (b # bs) st) x = color_of st x"
    proof (cases "x = b")
      case True
      then show ?thesis using r(6,7) b'(1) noidx_sel(2,3,4) [OF b'(2)] by simp
    next
      case False
      then have xb: "x \<in> set bs" using x by simp
      then show ?thesis using IH noidx_sel(1,2,4) [OF same [OF xb]] by simp
    qed
  qed
qed

end
