(* ===== verification/RcCollect.thy ===== *)
theory RcCollect
  imports RcSound
begin

text \<open>The collection of cycles as a whole: from a heap that is ready for it to one that is.\<close>

lemma shape_same:
  assumes "shape st = shape st'"
  shows "alloc st = alloc st'" and "kids st = kids st'" and "strip (blk st b) = strip (blk st' b)"
    and "strong_of st b = strong_of st' b" and "cb_index (blk st b) = cb_index (blk st' b)"
    and "gc_all st = gc_all st'" and "gc_fault st = gc_fault st'" and "gc_mode st = gc_mode st'"
    and "gc_enabled st = gc_enabled st'" and "gc_in_collection st = gc_in_collection st'"
    and "fq_items st = fq_items st'" and "fq_draining st = fq_draining st'"
proof -
  let ?f = "\<lambda>c. c\<lparr>cb_color := GC_WHITE, cb_trial := 0, cb_buffered := False\<rparr>"
  have m: "map_option ?f (gc_heap st b) = map_option ?f (gc_heap st' b)" for b
    using arg_cong [OF assms, of "\<lambda>s. gc_heap s b"] by (simp add: shape_def)
  show "alloc st = alloc st'" unfolding alloc_def
  proof
    fix b show "(gc_heap st b \<noteq> None) = (gc_heap st' b \<noteq> None)"
      using m [of b] by (cases "gc_heap st b"; cases "gc_heap st' b") auto
  qed
  have f: "?f (blk st b) = ?f (blk st' b)" for b using m [of b] by (auto simp: blk_def split: option.splits)
  have "strip (?f c) = strip c" for c by (simp add: strip_def)
  then show s: "strip (blk st b) = strip (blk st' b)" for b using f [of b] by metis
  show "kids st = kids st'" using strip_sel(6) [OF s] by (simp add: kids_def fun_eq_iff)
  show "strong_of st b = strong_of st' b" "cb_index (blk st b) = cb_index (blk st' b)"
    using arg_cong [OF f [of b], of cb_strong] arg_cong [OF f [of b], of cb_index] by simp_all
  show "gc_all st = gc_all st'" "gc_fault st = gc_fault st'" "gc_mode st = gc_mode st'"
    "gc_enabled st = gc_enabled st'" "gc_in_collection st = gc_in_collection st'"
    "fq_items st = fq_items st'" "fq_draining st = fq_draining st'"
    using arg_cong [OF assms, of gc_all] arg_cong [OF assms, of gc_fault] arg_cong [OF assms, of gc_mode]
      arg_cong [OF assms, of gc_enabled] arg_cong [OF assms, of gc_in_collection]
      arg_cong [OF assms, of fq_items] arg_cong [OF assms, of fq_draining] by (simp_all add: shape_def)
qed

lemma flag_all_flags:
  assumes "\<forall>b\<in>set bs. alloc st b"
  shows "blk (flag_all bs st) b = (if b \<in> set bs then (blk st b)\<lparr>cb_collecting := True\<rparr> else blk st b) \<and>
    alloc (flag_all bs st) = alloc st \<and> gc_all (flag_all bs st) = gc_all st \<and> gc_fault (flag_all bs st) = gc_fault st \<and>
    gc_mode (flag_all bs st) = gc_mode st \<and> gc_enabled (flag_all bs st) = gc_enabled st \<and>
    gc_in_collection (flag_all bs st) = gc_in_collection st \<and> fq_items (flag_all bs st) = fq_items st \<and>
    fq_draining (flag_all bs st) = fq_draining st \<and> gc_suspects (flag_all bs st) = gc_suspects st \<and>
    gc_pending (flag_all bs st) = gc_pending st"
  using assms
proof (induction bs arbitrary: st)
  case (Cons x xs)
  have a: "alloc st x" using Cons.prems by simp
  let ?st1 = "upd x (\<lambda>c. c\<lparr>cb_collecting := True\<rparr>) st"
  have "\<forall>b\<in>set xs. alloc ?st1 b" using Cons.prems by simp
  from Cons.IH [OF this] show ?case using a by (auto simp: flag_all_def blk_upd)
qed (simp add: flag_all_def)

text \<open>The phase in terms of its parts; an empty list is no exception.\<close>

lemma phase_parts:
  assumes "gc_suspects st \<noteq> []" and "gc_find_white mem m st = Some st1"
    and "run_drops call (gc_pending st1) (flag_all (gc_pending st1) st1) = Some st2"
    and "gc_pending st2 = gc_pending st1"
  shows "gc_cycle_collect_phase mem call m st = Some ((fold release_white (gc_pending st1) st2)\<lparr>gc_pending := []\<rparr>)"
  using assms by (cases "gc_pending st1 = []") (auto simp: gc_cycle_collect_phase_def flag_all_def)

definition collectable :: "gcst \<Rightarrow> bool" where
  "collectable st \<longleftrightarrow> heap_ok st \<and> reg_ok st \<and> gc_enabled st \<and> gc_mode st \<noteq> GC_DISABLED \<and>
     (fq_items st = [] \<or> fq_draining st) \<and> (\<forall>b. \<not> cb_collecting (blk st b)) \<and>
     (\<forall>b\<in>set (gc_all st). strong_of st b < 2 ^ 64)"

lemma collectableD:
  assumes "collectable st"
  shows "heap_ok st" and "reg_ok st" and "gc_enabled st" and "gc_mode st \<noteq> GC_DISABLED"
    and "fq_items st = [] \<or> fq_draining st" and "\<not> cb_collecting (blk st b)"
    and "b \<in> set (gc_all st) \<Longrightarrow> strong_of st b < 2 ^ 64"
  using assms by (simp_all add: collectable_def)

text \<open>What a collection leaves of the heap.\<close>

definition collected :: "gcst \<Rightarrow> gcst \<Rightarrow> bool" where
  "collected st st' \<longleftrightarrow> gc_fault st' = gc_fault st \<and> set (gc_all st') = set (gc_all st) - garbage st \<and>
     (\<forall>b\<in>garbage st. if cb_weak (blk st b) = 0 then \<not> alloc st' b
        else alloc st' b \<and> cb_value (blk st' b) = None \<and> strong_of st' b = 0) \<and>
     (\<forall>b. b \<notin> garbage st \<longrightarrow> alloc st' b = alloc st b \<and> cb_value (blk st' b) = cb_value (blk st b) \<and>
        cb_weak (blk st' b) = cb_weak (blk st b) \<and> strong_of st' b = strong_of st b - seen_refs (kids st) (garbage st) b \<and>
        (strong_of st b > 0 \<longrightarrow> strong_of st' b > 0))"

lemma garbage_sub: "heap_ok st \<Longrightarrow> garbage st \<subseteq> set (gc_all st)"
  using region_all by (auto simp: garbage_def)

lemma garbage_kids: "b \<in> garbage st \<Longrightarrow> t \<in> set (kids st b) \<Longrightarrow> t \<in> region st"
  by (auto simp: garbage_def region_def intro: reach_step)

lemma survivor_alive:
  assumes h: "heap_ok st" and b: "b \<notin> garbage st" and s: "strong_of st b > 0"
  shows "seen_refs (kids st) (garbage st) b < strong_of st b"
proof (cases "b \<in> region st")
  case True
  then show ?thesis by (rule survivor_count [OF h b])
next
  case False
  then have "count_list (kids st x) b = 0" if "x \<in> garbage st" for x
    using garbage_kids [OF that] by (auto simp: count_list_0_iff)
  then show ?thesis using s by (simp add: seen_refs_def)
qed

lemma cycle_collect:
  assumes c: "collectable st" and mem: "\<forall>n. mem n" and inc: "gc_in_collection st"
    and glue: "\<forall>b\<in>garbage st. plain_glue (blk st b)" and m: "2 * length (gc_all st) < m"
  shows "\<exists>st'. gc_cycle_collect_phase mem (runtime mem (Suc (Suc k))) m st = Some st' \<and>
    collected st st' \<and> heap_ok st' \<and> reg_ok st' \<and>
    set (gc_suspects st') \<subseteq> {s \<in> set (gc_suspects st). strong_of st s = 0} \<union>
      ((\<Union>b\<in>garbage st. set (kids st b)) - garbage st)"
proof (cases "gc_suspects st = []")
  case True
  have "x \<in> reach (kids st) {} \<Longrightarrow> False" for x by (induction rule: reach.induct) auto
  then have "garbage st = {}" using True by (auto simp: garbage_def region_def cands_def)
  then show ?thesis using True collectableD(1,2) [OF c] by (simp add: gc_cycle_collect_phase_def collected_def)
next
  case False
  note h = collectableD(1) [OF c]
  let ?W = "garbage st" and ?A = "set (gc_all st)"
  obtain st1 where 1: "gc_find_white mem m st = Some st1" "shape st1 = shape st"
      "gc_suspects st1 = filter (\<lambda>s. strong_of st s = 0) (gc_suspects st)"
      "distinct (gc_pending st1)" "set (gc_pending st1) = ?W"
      "\<forall>b. color_of st1 b = (if b \<in> region st then GC_BLACK else color_of st b)"
      "\<forall>b. cb_buffered (blk st1 b) \<longleftrightarrow> cb_buffered (blk st b) \<and> b \<notin> cands st"
    using find_white [OF h mem m] by blast
  define ps where "ps = gc_pending st1"
  define st0 where "st0 = flag_all ps st1"
  note ss = shape_same [OF 1(2)]
  have ps: "set ps = ?W" "distinct ps" using 1(4,5) by (simp_all add: ps_def)
  have WA: "?W \<subseteq> ?A" by (rule garbage_sub [OF h])
  have alA: "alloc st b" if "b \<in> ?A" for b using closedD(1) [OF heap_okD(1) [OF h] that] .
  have "\<forall>b\<in>set ps. alloc st1 b" using ps(1) WA alA ss(1) by auto
  note F = flag_all_flags [OF this, folded st0_def]
  have b0: "blk st0 b = (if b \<in> ?W then (blk st1 b)\<lparr>cb_collecting := True\<rparr> else blk st1 b)" for b using F ps(1) by simp
  have al0: "alloc st0 = alloc st" and all0: "gc_all st0 = gc_all st" and fl0: "gc_fault st0 = gc_fault st"
    and su0: "gc_suspects st0 = filter (\<lambda>s. strong_of st s = 0) (gc_suspects st)" using F ss 1(3) by simp_all
  have g0: "gc_enabled st0" "gc_mode st0 \<noteq> GC_DISABLED" "gc_in_collection st0" "fq_items st0 = [] \<or> fq_draining st0"
    using F ss inc collectableD(3,4,5) [OF c] by simp_all
  have s0: "strong_of st0 b = strong_of st b" "cb_index (blk st0 b) = cb_index (blk st b)" for b
    using ss(4,5) by (simp_all add: b0)
  have gch: "gc_children (c\<lparr>cb_collecting := True\<rparr>) = gc_children c" for c
    by (cases "cb_value c") (simp_all add: gc_children_def)
  have ch0: "gc_children (blk st0 b) = gc_children (blk st b)" for b
    using strip_sel(6) [OF ss(3), of b] by (simp add: b0 gch)
  have K0: "kids st0 = kids st" by (simp add: kids_def ch0 fun_eq_iff)
  have v0: "cb_value (blk st0 b) = cb_value (blk st b)" "cb_drop (blk st0 b) = cb_drop (blk st b)"
    "cb_weak (blk st0 b) = cb_weak (blk st b)" for b
    using strip_sel(1,2,3) [OF ss(3), of b] by (simp_all add: b0)
  have W0: "\<forall>b. cb_collecting (blk st0 b) \<longleftrightarrow> b \<in> ?W"
    using strip_sel(4) [OF ss(3)] collectableD(6) [OF c] by (simp add: b0)
  have glue0: "\<forall>b\<in>?W. alloc st0 b \<and> plain_glue (blk st0 b) \<and> (\<forall>t\<in>set (kids st0 b). alloc st0 t)"
  proof (intro ballI conjI)
    fix b assume b: "b \<in> ?W"
    then show "alloc st0 b" using WA alA al0 by auto
    show "plain_glue (blk st0 b)" using glue b unfolding plain_glue_def v0 ch0 by blast
    show "alloc st0 t" if "t \<in> set (kids st0 b)" for t
      using that b WA closedD(2) [OF heap_okD(1) [OF h], of b] alA [of t] al0 K0 by auto
  qed
  define D where "D = concat (map (kids st0) ps)"
  have cD: "count_list D t = seen_refs (kids st) ?W t" for t
    unfolding D_def K0 count_concat_kids [OF ps(2)] ps(1) ..
  have Dr: "set D \<subseteq> region st" unfolding D_def K0 using ps(1) garbage_kids by auto
  have room: "\<forall>t. t \<in> set (concat (map (kids st0) ps)) \<longrightarrow> t \<notin> ?W \<longrightarrow>
      count_list ([] @ concat (map (kids st0) ps)) t < strong_of st0 t \<and> strong_of st0 t < 2 ^ 64"
  proof (intro allI impI)
    fix t assume t: "t \<in> set (concat (map (kids st0) ps))" "t \<notin> ?W"
    then have tr: "t \<in> region st" and ta: "t \<in> ?A" using Dr region_all [OF h] unfolding D_def by blast+
    show "count_list ([] @ concat (map (kids st0) ps)) t < strong_of st0 t \<and> strong_of st0 t < 2 ^ 64"
      using survivor_count [OF h t(2) tr] cD [of t] collectableD(7) [OF c ta] s0(1) [of t] unfolding D_def by simp
  qed
  obtain st2 where 2: "run_drops (runtime mem (Suc (Suc k))) ps st0 = Some st2" "dropping ?W st0 ({} \<union> set ps) ([] @ D) st2"
    using run_drops_drops [OF mem dropping_refl [OF g0(4)] g0(1-3) W0 _ _ ps(2) glue0 room, of k] ps(1)
    unfolding D_def by auto
  then have J: "dropping ?W st0 ?W D st2" using ps(1) by simp
  note j = droppingD [OF J]
  obtain new where new: "gc_suspects st2 = gc_suspects st0 @ new" "set new \<subseteq> set D - ?W"
      "\<forall>b. color_of st2 b = (if b \<in> set new then GC_PURPLE else color_of st0 b)"
      "\<forall>b. cb_buffered (blk st2 b) \<longleftrightarrow> cb_buffered (blk st0 b) \<or> b \<in> set new" using j(12) by blast
  have reg2: "reg_ok st2" using collectableD(2) [OF c] j(1,2,10) al0 all0 s0 by (simp add: reg_ok_def)
  have bf0: "cb_buffered (blk st0 b) \<longleftrightarrow> b \<in> set (gc_suspects st0)" if "b \<in> ?A" for b
    using 1(7) heap_okD(3) [OF h that] su0 by (auto simp: b0 cands_def)
  have bf2: "cb_buffered (blk st2 b) \<longleftrightarrow> b \<in> set (gc_suspects st2)" if "b \<in> ?A" for b
    using new(1,4) bf0 [OF that] by simp
  have z: "b \<notin> ?W" if "b \<in> set (gc_suspects st0)" for b
    using that su0 region_strong [OF h, of b] by (auto simp: garbage_def)
  have "\<forall>b\<in>set ps. \<not> cb_buffered (blk st2 b)"
    using bf2 z new(1,2) WA ps(1) by auto
  moreover have "set ps \<subseteq> set (gc_all st2)" using ps(1) WA j(2) all0 by simp
  ultimately have R: "set (gc_all (fold release_white ps st2)) = set (gc_all st2) - set ps \<and> reg_ok (fold release_white ps st2) \<and>
    gc_fault (fold release_white ps st2) = gc_fault st2 \<and> gc_suspects (fold release_white ps st2) = gc_suspects st2 \<and>
    (\<forall>x. x \<notin> set ps \<longrightarrow> alloc (fold release_white ps st2) x = alloc st2 x \<and>
       noidx (blk (fold release_white ps st2) x) = noidx (blk st2 x)) \<and>
    (\<forall>b\<in>set ps. if cb_weak (blk st2 b) = 0 then \<not> alloc (fold release_white ps st2) b
       else alloc (fold release_white ps st2) b \<and> cb_value (blk (fold release_white ps st2) b) = cb_value (blk st2 b) \<and>
            strong_of (fold release_white ps st2) b = 0 \<and> color_of (fold release_white ps st2) b = color_of st2 b)"
    by (intro release_all [OF reg2 _ ps(2)])
  define st3 where "st3 = fold release_white ps st2"
  define st' where "st' = st3\<lparr>gc_pending := []\<rparr>"
  note r = R [folded st3_def, unfolded ps(1)]
  have run: "gc_cycle_collect_phase mem (runtime mem (Suc (Suc k))) m st = Some st'"
    using phase_parts [OF False 1(1), of "runtime mem (Suc (Suc k))" st2] 2(1) j(3) F
    by (simp add: ps_def st0_def st3_def st'_def)
  have bl': "blk st' b = blk st3 b" "alloc st' b = alloc st3 b" for b by (simp_all add: st'_def)
  have w2: "cb_weak (blk st2 b) = cb_weak (blk st b)" for b
    using strip_sel(1) [OF j(9), of b] v0(3) by (simp split: if_splits)
  have out: "alloc st' b = alloc st b" "cb_value (blk st' b) = cb_value (blk st b)" "cb_weak (blk st' b) = cb_weak (blk st b)"
     "strong_of st' b = strong_of st b - seen_refs (kids st) ?W b" "gc_children (blk st' b) = gc_children (blk st b)"
     "color_of st' b = color_of st2 b" "cb_buffered (blk st' b) = cb_buffered (blk st2 b)" if b: "b \<notin> ?W" for b
  proof -
    have n: "noidx (blk st3 b) = noidx (blk st2 b)" and a: "alloc st3 b = alloc st2 b" using r b by auto
    note ns = noidx_sel [OF n]
    have s2: "strip (blk st2 b) = strip (blk st0 b)" using j(9) [of b] b by simp
    show "alloc st' b = alloc st b" using a j(1) al0 bl' by simp
    show "cb_value (blk st' b) = cb_value (blk st b)" using ns(2) strip_sel(2) [OF s2] v0(1) bl' by simp
    show "cb_weak (blk st' b) = cb_weak (blk st b)" using ns(1) w2 bl' by simp
    show "strong_of st' b = strong_of st b - seen_refs (kids st) ?W b" using ns(3) j(11) [OF b] s0(1) cD bl' by simp
    show "gc_children (blk st' b) = gc_children (blk st b)"
      using strip_sel(6) [OF ns(6)] strip_sel(6) [OF s2] ch0 bl' by simp
    show "color_of st' b = color_of st2 b" "cb_buffered (blk st' b) = cb_buffered (blk st2 b)"
      using ns(4,5) bl' by simp_all
  qed
  have all': "set (gc_all st') = ?A - ?W" using r j(2) all0 by (simp add: st'_def)
  have su': "gc_suspects st' = gc_suspects st0 @ new" using r new(1) by (simp add: st'_def)
  have Kout: "kids st' b = kids st b" if "b \<notin> ?W" for b using out(5) [OF that] by (simp add: kids_def)
  have gone: "if cb_weak (blk st b) = 0 then \<not> alloc st' b
      else alloc st' b \<and> cb_value (blk st' b) = None \<and> strong_of st' b = 0" if b: "b \<in> ?W" for b
  proof -
    have "cb_value (blk st2 b) = None" using strip_sel(2) [OF j(9), of b] b by simp
    then show ?thesis using r w2 [of b] b bl' by auto
  qed
  have col0: "color_of st0 b = (if b \<in> region st then GC_BLACK else color_of st b)" for b using 1(6) by (simp add: b0)
  have grey: "greys st' = {}"
  proof -
    have g2: "color_of st2 b \<noteq> GC_GREY" for b using new(3) col0 [of b] heap_okD(5) [OF h] by (auto simp: greys_def)
    have "color_of st' b \<noteq> GC_GREY" for b
    proof (cases "b \<in> ?W")
      case True
      then have "\<not> alloc st' b \<or> color_of st' b = color_of st2 b" using r bl' by (auto split: if_splits)
      then show ?thesis using g2 [of b] by (auto simp: blk_def alloc_def null_block_def)
    next
      case False
      then show ?thesis using out(6) g2 by simp
    qed
    then show ?thesis by (auto simp: greys_def)
  qed
  have rsum: "seen_refs (kids st') (?A - ?W) b + seen_refs (kids st) ?W b \<le> strong_of st b" if b: "b \<in> ?A" for b
  proof -
    have "seen_refs (kids st') (?A - ?W) b = seen_refs (kids st) (?A - ?W) b"
      unfolding seen_refs_def by (intro sum.cong refl) (simp add: Kout)
    moreover have "seen_refs (kids st) (?A - ?W \<union> ?W) b = seen_refs (kids st) (?A - ?W) b + seen_refs (kids st) ?W b"
      using finite_subset [OF WA] by (intro seen_refs_union) auto
    moreover have "?A - ?W \<union> ?W = ?A" using WA by blast
    ultimately show ?thesis using heap_okD(6) [OF h b] by simp
  qed
  have "heap_ok st'"
    unfolding heap_ok_def all'
  proof (intro conjI ballI)
    show "closed st' (?A - ?W)"
      using closedD [OF heap_okD(1) [OF h]] survivors_closed [OF h] out(1) Kout by (fastforce simp: closed_def)
    show "set (gc_suspects st') \<subseteq> ?A - ?W"
      using su' su0 z new(2) Dr region_all [OF h] heap_okD(2) [OF h] by auto
    show "cb_buffered (blk st' b) \<longleftrightarrow> b \<in> set (gc_suspects st')" if "b \<in> ?A - ?W" for b
      using that bf2 [of b] out(7) [of b] su' new(1) by simp
    show "color_of st' s = GC_PURPLE" if "s \<in> cands st'" for s
    proof -
      have s: "s \<in> set (gc_suspects st0) \<or> s \<in> set new" "strong_of st' s > 0" using that su' by (auto simp: cands_def)
      have "s \<notin> ?W" using s(1) z new(2) by blast
      then have "strong_of st s > 0" using s(2) out(4) by simp
      then have "s \<in> set new" using s(1) su0 by simp
      then show ?thesis using new(3) out(6) [OF \<open>s \<notin> ?W\<close>] by simp
    qed
    show "greys st' = {}" by (rule grey)
    show "seen_refs (kids st') (?A - ?W) b \<le> strong_of st' b" if "b \<in> ?A - ?W" for b
      using rsum [of b] out(4) [of b] that by simp
  qed
  moreover have "reg_ok st'" using r by (simp add: reg_ok_def st'_def)
  moreover have "collected st st'"
    unfolding collected_def
  proof (intro conjI allI ballI impI)
    show "gc_fault st' = gc_fault st" using r j(4) fl0 by (simp add: st'_def)
    show "strong_of st' b > 0" if "b \<notin> ?W" "strong_of st b > 0" for b
      using survivor_alive [OF h that] out(4) [OF that(1)] by simp
  qed (use all' gone out in auto)
  moreover have "set (gc_suspects st') \<subseteq> {s \<in> set (gc_suspects st). strong_of st s = 0} \<union>
      ((\<Union>b\<in>?W. set (kids st b)) - ?W)"
    using su' su0 new(2) ps(1) K0 by (auto simp: D_def)
  ultimately show ?thesis using run by blast
qed

section \<open>The whole collection\<close>

lemma same_heap:
  assumes h: "gc_heap st' = gc_heap st" and "gc_suspects st' = gc_suspects st" and "gc_all st' = gc_all st"
  shows "blk st' = blk st" and "kids st' = kids st" and "alloc st' = alloc st" and "garbage st' = garbage st"
    and "heap_ok st' = heap_ok st" and "reg_ok st' = reg_ok st"
proof -
  show b: "blk st' = blk st" and a: "alloc st' = alloc st" using h by (simp_all add: blk_def alloc_def fun_eq_iff)
  show k: "kids st' = kids st" using b by (simp add: kids_def fun_eq_iff)
  have s: "cands st' = cands st" "greys st' = greys st" "closed st' A = closed st A" for A
    using assms(2) by (simp_all add: cands_def greys_def closed_def a b k)
  show "garbage st' = garbage st" by (simp add: garbage_def anchors_def region_def s k b)
  show "heap_ok st' = heap_ok st" "reg_ok st' = reg_ok st"
    using assms(2,3) by (simp_all add: heap_ok_def reg_ok_def s k b a)
qed

text \<open>
  With no zombie in the buffer, and garbage that refers to garbage only, \<open>gc_force\<close> ends behind this
  phase, and the buffer is empty.
\<close>

lemma force_collects:
  assumes c: "collectable st" and mem: "\<forall>n. mem n" and out: "\<not> gc_in_collection st"
    and glue: "\<forall>b\<in>garbage st. plain_glue (blk st b)" and m: "2 * length (gc_all st) < Suc (Suc k)"
    and live: "\<forall>s\<in>set (gc_suspects st). strong_of st s > 0" and inner: "\<forall>b\<in>garbage st. set (kids st b) \<subseteq> garbage st"
  shows "\<exists>st'. gc_force mem (Suc (Suc (Suc k))) st = Some st' \<and> collected st st' \<and> heap_ok st' \<and> reg_ok st' \<and>
    gc_suspects st' = [] \<and> \<not> gc_in_collection st'"
proof -
  define e where "e = st\<lparr>gc_in_collection := True, gc_allocs := 0, gc_collections := gc_collections st + 1\<rparr>"
  have sel: "gc_suspects e = gc_suspects st" "gc_all e = gc_all st" "gc_enabled e = gc_enabled st" "gc_mode e = gc_mode st"
    "fq_items e = fq_items st" "fq_draining e = fq_draining st" "gc_in_collection e" "gc_fault e = gc_fault st"
    by (simp_all add: e_def)
  have "gc_heap e = gc_heap st" by (simp add: e_def)
  note se = same_heap [OF this sel(1,2)]
  have ce: "collectable e" using c unfolding collectable_def sel se .
  have ge: "\<forall>b\<in>garbage e. plain_glue (blk e b)" using glue unfolding se .
  have me: "2 * length (gc_all e) < Suc (Suc k)" using m unfolding sel .
  obtain st1 where 1: "gc_cycle_collect_phase mem (runtime mem (Suc (Suc k))) (Suc (Suc k)) e = Some st1"
      "collected e st1" "heap_ok st1" "reg_ok st1"
      "set (gc_suspects st1) \<subseteq> {s \<in> set (gc_suspects e). strong_of e s = 0} \<union>
        ((\<Union>b\<in>garbage e. set (kids e b)) - garbage e)"
    using cycle_collect [OF ce mem sel(7) ge me, of k] by (elim exE conjE) (rule that)
  have z: "{s \<in> set (gc_suspects e). strong_of e s = 0} = {}" using live unfolding sel se by auto
  have o: "(\<Union>b\<in>garbage e. set (kids e b)) - garbage e = {}" using inner unfolding se by blast
  have "set (gc_suspects st1) \<subseteq> {}" using 1(5) unfolding z o by simp
  then have su: "gc_suspects st1 = []" by simp
  define st' where "st' = st1\<lparr>gc_grey := [], gc_in_collection := False\<rparr>"
  have sel': "gc_suspects st' = gc_suspects st1" "gc_all st' = gc_all st1" "gc_fault st' = gc_fault st1"
    "\<not> gc_in_collection st'" by (simp_all add: st'_def)
  have "gc_heap st' = gc_heap st1" by (simp add: st'_def)
  note se' = same_heap [OF this sel'(1,2)]
  have g: "gc_enabled st" "gc_mode st \<noteq> GC_DISABLED" using collectableD(3,4) [OF c] by simp_all
  have "gc_force mem (Suc (Suc (Suc k))) st =
      Option.bind (gc_cycle_collect_phase mem (runtime mem (Suc (Suc k))) (Suc (Suc k)) e) (\<lambda>st.
        let st = st\<lparr>gc_grey := []\<rparr>
        in Option.bind
             (if gc_suspects st \<noteq> [] then
                Option.bind (gc_mark_phase mem (Suc (Suc k)) st) (gc_trial_deletion_phase (runtime mem (Suc (Suc k))) (Suc (Suc k)) 0)
              else Some st)
             (\<lambda>st. Some (st\<lparr>gc_in_collection := False\<rparr>)))"
    unfolding gc_force_def runtime_calls gc_collect_def e_def using g out by (simp only: if_False simp_thms)
  also have "\<dots> = Some st'"
    unfolding 1(1) by (simp add: su st'_def Let_def)
  finally have "gc_force mem (Suc (Suc (Suc k))) st = Some st'" .
  moreover have "collected st st'" using 1(2) unfolding collected_def sel se sel' se' .
  moreover have "heap_ok st'" "reg_ok st'" using 1(3,4) unfolding se' by blast+
  ultimately show ?thesis using su sel' by auto
qed

end
