(* ===== verification/RcExamples.thy ===== *)
theory RcExamples
  imports Rc
begin

text \<open>Small heaps on which the collector and the reference counts do what they should not.\<close>

section \<open>Small heaps\<close>

definition block_of :: "nat \<Rightarrow> nat \<Rightarrow> rref list \<Rightarrow> nat \<Rightarrow> bool \<Rightarrow> rccb" where
  "block_of strong weak v i buf = (new_block v 11 DropRefs RCK_STRUCT False)
     \<lparr>cb_strong := strong, cb_weak := weak, cb_walk := True, cb_index := Some i, cb_buffered := buf,
      cb_color := (if buf then GC_PURPLE else GC_WHITE)\<rparr>"

definition heap_of :: "(nat \<Rightarrow> rccb option) \<Rightarrow> nat list \<Rightarrow> nat list \<Rightarrow> gcst" where
  "heap_of h all susp = \<lparr>gc_heap = h, gc_fault = False, gc_suspects = susp, gc_suspect_cap = 256, gc_grey = [],
     gc_grey_cap = 256, gc_all = all, gc_all_cap = 4096, gc_pending = [], gc_pending_cap = 256, gc_cands = [],
     gc_cand_cap = 256, gc_mode = GC_MANUAL, gc_enabled = True, gc_collections = 0, gc_objects_freed = 0,
     gc_high_water = 0, gc_allocs = 0, gc_in_collection = False, fq_init = False, fq_items = [], fq_head = 0,
     fq_cap = 0, fq_draining = False\<rparr>"

text \<open>Evaluation enters a continuation only once its argument is known.\<close>

lemma bind_weak: "x = y \<Longrightarrow> Option.bind x f = Option.bind y f"
  by simp

lemma each_weak: "xs = ys \<Longrightarrow> st = st' \<Longrightarrow> gc_each_child f xs st = gc_each_child f ys st'"
  by simp

definition depth :: nat where "depth = Suc (Suc (Suc (Suc (Suc (Suc (Suc (Suc (Suc (Suc 0)))))))))"

lemmas rc_eval = runtime_calls rc_strong_decrement_def rc_weak_decrement_def rc_free_queue_drain_def drain_loop_def
  rc_cb_free_def rc_release_value_def run_drop_fn_def clear_value_def gc_collect_def gc_cycle_collect_phase_def
  gc_possible_root_def gc_add_suspect_def gc_on_strong_decrement_def drop_value_def release_white_def
  gc_free_block_def flag_all_def set_strong_def set_weak_def dec64_def rc_free_queue_push_def rc_free_queue_init_def
  rc_free_queue_compact_def RC_FREE_QUEUE_CAPACITY_def Let_def depth_def

lemmas gc_eval = gc_find_white_def trial_reset_def gc_mark_roots_def gc_scan_roots_def gc_collect_roots_def
  gc_get_color_def gc_set_color_def blk_def upd_def free_block_def gc_children_def trial_dec_def trial_inc_def
  gc_unregister_block_def gc_remove_suspect_def suspect_append_def gc_vec_reserve_def gc_mark_phase_def
  gc_mark_struct_child_def gc_enqueue_grey_def gc_dequeue_grey_def heap_of_def block_of_def new_block_def
  null_block_def GC_SUSPECT_THRESHOLD_def

text \<open>Two blocks that hold each other; the second has a weak reference to the first as well.\<close>

definition weak_cycle :: gcst where
  "weak_cycle = heap_of (\<lambda>b. if b = 0 then Some (block_of 1 1 [RStrong 1] 0 True)
     else if b = 1 then Some (block_of 1 0 [RStrong 0, RWeak 0] 1 False) else None) [0, 1] [0]"

text \<open>
  Releasing the weak reference finds both counts of the first block at zero and frees it, while it is
  on the list of the collection, which then frees it again.
\<close>

lemma weak_cycle_freed_twice:
  "map_option gc_fault (runtime (\<lambda>_. True) depth CCollect weak_cycle) = Some True"
  by (simp add: weak_cycle_def rc_eval gc_eval cong: bind_weak each_weak)

text \<open>
  A garbage cycle whose first block also holds block 2, which holds itself and is held from outside,
  and a zombie in the buffer.
\<close>

definition lost_candidate :: gcst where
  "lost_candidate = heap_of (\<lambda>b. if b = 0 then Some (block_of 1 0 [RStrong 1, RStrong 2] 0 True)
     else if b = 1 then Some (block_of 1 0 [RStrong 0] 1 False)
     else if b = 2 then Some (block_of 3 0 [RStrong 2] 2 False)
     else if b = 3 then Some ((block_of 0 1 [] 3 True)\<lparr>cb_value := None\<rparr>) else None) [0, 1, 2, 3] [0, 3]"

text \<open>
  The collection makes block 2 a candidate, the sweep for the zombie then turns it black; when its
  last reference from outside goes, it is still in the buffer, and the next collection passes it over.
\<close>

lemma lost_candidate_leaks:
  "map_option (\<lambda>st. (cb_strong (blk st 2), gc_suspects st, gc_fault st))
     (Option.bind (runtime (\<lambda>_. True) depth CCollect lost_candidate) (\<lambda>st.
      Option.bind (runtime (\<lambda>_. True) depth (CStrong 2) st) (runtime (\<lambda>_. True) depth CCollect)))
   = Some (1, [], False)"
  by (simp add: lost_candidate_def rc_eval gc_eval cong: bind_weak each_weak)

text \<open>
  A candidate whose count reaches zero waits in the queue of deferred frees and is in the buffer
  still: a collection before the drain takes it for a zombie and frees it, and the drain does so again.
\<close>

definition queued_candidate :: gcst where
  "queued_candidate = heap_of (\<lambda>b. if b = 0 then Some (block_of 1 0 [] 0 True) else None) [0] [0]"

lemma queued_candidate_freed_twice:
  "map_option gc_fault (Option.bind (runtime (\<lambda>_. True) depth (CStrong 0) queued_candidate) (\<lambda>st.
      Option.bind (runtime (\<lambda>_. True) depth CCollect st) (runtime (\<lambda>_. True) depth CDrain))) = Some True"
  by (simp add: queued_candidate_def rc_eval gc_eval cong: bind_weak each_weak)

text \<open>An existential in the garbage keeps the count of what it packs.\<close>

definition packed :: gcst where
  "packed = heap_of (\<lambda>b. if b = 0 then Some (block_of 1 0 [RStrong 1] 0 True)
     else if b = 1 then Some (block_of 1 0 [RStrong 0, RStrong 2] 1 False)
     else if b = 2 then Some ((block_of 1 0 [RStrong 3] 2 False)\<lparr>cb_kind := RCK_EXISTENTIAL, cb_payload_rc := True, cb_drop := DropPlain\<rparr>)
     else if b = 3 then Some (block_of 2 0 [] 3 False) else None) [0, 1, 2, 3] [0]"

lemma packed_leaks:
  "map_option (\<lambda>st. (gc_all st, cb_strong (blk st 3))) (runtime (\<lambda>_. True) depth CCollect packed) = Some ([3], 2)"
  by (simp add: packed_def rc_eval gc_eval cong: bind_weak each_weak)

end
