(* ===== verification/GcProps.thy ===== *)
theory GcProps
  imports RcCollect RcExamples
begin

text \<open>The properties of the cycle collector.\<close>

section \<open>A heap with garbage\<close>

text \<open>Blocks 0 and 1 hold each other, and 1 holds block 2, which the program holds as well.\<close>

definition two_cycle :: gcst where
  "two_cycle = heap_of (\<lambda>b. if b = 0 then Some (block_of 1 0 [RStrong 1] 0 True)
     else if b = 1 then Some (block_of 1 0 [RStrong 0, RStrong 2] 1 False)
     else if b = 2 then Some (block_of 2 0 [] 2 False) else None) [0, 1, 2] [0]"

lemma two_cycle_kids: "kids two_cycle b = (if b = 0 then [1] else if b = 1 then [0, 2] else [])"
  by (simp add: two_cycle_def heap_of_def kids_def blk_def gc_children_def block_of_def new_block_def null_block_def)

lemma two_cycle_blk: "blk two_cycle b = (if b = 0 then block_of 1 0 [RStrong 1] 0 True
     else if b = 1 then block_of 1 0 [RStrong 0, RStrong 2] 1 False
     else if b = 2 then block_of 2 0 [] 2 False else null_block)"
  by (simp add: two_cycle_def heap_of_def blk_def)

lemma two_cycle_refs: "seen_refs (kids two_cycle) {0, Suc 0, 2} b = (if b \<in> {0, 1, 2} then 1 else 0)"
  by (auto simp: seen_refs_def two_cycle_kids)

lemma two_cycle_sel [simp]: "gc_all two_cycle = [0, 1, 2]" "gc_suspects two_cycle = [0]" "gc_enabled two_cycle"
  "gc_mode two_cycle = GC_MANUAL" "fq_items two_cycle = []" "\<not> gc_fault two_cycle"
  by (simp_all add: two_cycle_def heap_of_def)

lemma two_cycle_alloc: "alloc two_cycle b \<longleftrightarrow> b \<in> {0, 1, 2}"
  by (auto simp: two_cycle_def heap_of_def alloc_def)

lemma two_cycle_ok: "heap_ok two_cycle"
proof -
  have "closed two_cycle {0, 1, 2}" by (auto simp: closed_def two_cycle_alloc two_cycle_kids)
  moreover have "greys two_cycle = {}"
    by (auto simp: greys_def two_cycle_blk block_of_def new_block_def null_block_def)
  ultimately show ?thesis
    by (auto simp: heap_ok_def cands_def two_cycle_refs two_cycle_blk block_of_def new_block_def)
qed

lemma two_cycle_garbage: "garbage two_cycle = {0, 1}"
proof -
  have c: "cands two_cycle = {0}" by (auto simp: cands_def two_cycle_blk block_of_def new_block_def)
  have r: "region two_cycle = {0, 1, 2}"
  proof
    show "region two_cycle \<subseteq> {0, 1, 2}" using region_all [OF two_cycle_ok] by auto
    have 0: "0 \<in> region two_cycle" by (simp add: region_def c reach_root)
    then have 1: "1 \<in> region two_cycle" unfolding region_def by (rule reach_step) (simp add: two_cycle_kids)
    then have "2 \<in> region two_cycle" unfolding region_def by (rule reach_step) (simp add: two_cycle_kids)
    then show "{0, 1, 2} \<subseteq> region two_cycle" using 0 1 by auto
  qed
  have a: "anchors two_cycle = {2}"
    by (auto simp: anchors_def r two_cycle_refs two_cycle_blk block_of_def new_block_def)
  have "x \<in> reach (kids two_cycle) {2} \<Longrightarrow> x = 2" for x
    by (induction rule: reach.induct) (auto simp: two_cycle_kids)
  then have "reach (kids two_cycle) {2} = {2}" by (auto intro: reach_root)
  then show ?thesis by (auto simp: garbage_def r a)
qed


section \<open>Properties\<close>

text \<open>
  C13: trial deletion finds exactly the garbage. The heap is well-formed (\<open>heap_ok\<close>):
  registered blocks are allocated and refer to registered blocks, the flag says who is in the buffer,
  every candidate that is no zombie is purple and no block grey, and the count of a block covers the
  references the collector can see. The mark phase before a sweep of zombies can leave a candidate
  black; such a heap is not well-formed, and its garbage is missed (\<open>lost_candidate_leaks\<close>). Then, if memory is granted for the vectors, the
  blocks put on the list to be freed, each once, are the blocks reachable from a candidate that no chain
  of references reaches from a block of that region with a reference from outside it; in particular
  nothing is on the list that is reachable from a block whose count exceeds the references seen, that
  is, from a block something else holds. A recursion depth of twice the number of registered blocks
  suffices.
\<close>

theorem garbage_found:
  assumes "heap_ok st" and "\<forall>n. mem n" and "2 * length (gc_all st) < m"
  shows "\<exists>st'. gc_find_white mem m st = Some st' \<and> distinct (gc_pending st') \<and>
     set (gc_pending st') = region st - reach (kids st) {x \<in> region st. seen_refs (kids st) (region st) x < strong_of st x} \<and>
     (\<forall>r\<in>set (gc_all st). seen_refs (kids st) (set (gc_all st)) r < strong_of st r \<longrightarrow>
        reach (kids st) {r} \<inter> set (gc_pending st') = {})"
proof -
  obtain st' where st': "gc_find_white mem m st = Some st'" "distinct (gc_pending st')" "set (gc_pending st') = garbage st"
    using find_white [OF assms] by blast
  then show ?thesis using held_survives [OF assms(1)] by (auto simp: garbage_def anchors_def)
qed

theorem garbage_found_witness:
  "\<exists>st'. gc_find_white (\<lambda>_. True) 7 two_cycle = Some st' \<and> set (gc_pending st') = {0, 1}"
  using garbage_found [OF two_cycle_ok, of "\<lambda>_. True" 7] two_cycle_garbage
  by (auto simp: garbage_def anchors_def)



end
