(* ===== verification/Spec2Isabelle.thy ===== *)
theory Spec2Isabelle
  imports SolverProps TheoryProps NameProps RuntimeProps HamtProps StmProps SerialProps CpsProps GcProps
begin

text \<open>
  A verification development for Turmeric, a typed Lisp that compiles to C. Modelled are the refinement
  solver of the compiler, the mangling of names into C identifiers and back, and nine parts of the
  runtime.

  \<^bold>\<open>The refinement solver\<close> (\<open>src/compiler/refine_*.c\<close>) decides whether
  a refinement holds where a value flows into a refined type; an obligation it calls valid loses its
  runtime check. Terms are hash-consed (\<open>VCTerm\<close>: \<open>refine_vc.c\<close>) and mean what
  \<open>VCSem\<close> says, over integers, reals and booleans. A condition, hypotheses and a goal, goes
  through a chain of solvers (\<open>Chain\<close>: \<open>refine_discharge.c\<close>), each over the
  cubes of its disjunctive normal form (\<open>Cubes\<close>: \<open>refine_solver.c\<close>,
  \<open>refine_solver_s0.c\<close>): S0 by syntax, S1 by congruence closure (\<open>Euf\<close>:
  \<open>refine_solver_euf.c\<close>, over the undo trail \<open>TrailC\<close>:
  \<open>trail_c.h\<close>), S2 by linear arithmetic over fractions of 64-bit integers
  (\<open>LinArith\<close>: \<open>refine_solver_arith.c\<close>), S3 by both exchanging equalities
  (\<open>NelsonOppen\<close>: \<open>refine_solver_no.c\<close>). What the chain leaves unknown the
  bounded model search may refute (\<open>ModelSearch\<close>). Verdicts are remembered under a
  fingerprint up to renaming (\<open>VCIdentity\<close>, \<open>Memo\<close>), and
  \<open>Discharge\<close> is the pass over all obligations with its diagnostics, hints and statistics.
  Doubles are exact rationals rounded to nearest even (\<open>Double64\<close>).

  \<^bold>\<open>Names\<close>: \<open>NameTables\<close> and \<open>Mangle\<close>
  (\<open>mangle.c\<close>) turn any name into a C identifier and back; \<open>Demangle\<close>
  (\<open>cli/demangle.c\<close>) is the filter that rewrites identifiers in a text.

  \<^bold>\<open>Runtime\<close>: \<open>RtTrail\<close> (\<open>runtime/trail.c\<close>) is the
  backtracking trail with its cells and its substitution; \<open>TimerWheel\<close>
  (\<open>async/timer_wheel.c\<close>) the timers; \<open>AtomicQueue\<close>
  (\<open>async/atomic_queue.c\<close>) the queue by which threads submit fibers, every access of shared
  memory a step of its own. \<open>Hamt\<close> (\<open>runtime/hamt.c\<close>) is the persistent hash
  map: its hash, the trie with insertion, deletion and lookup, the comparator hooks, string keys and
  transients; \<open>HamtIter\<close> its iterator and \<open>HamtBulk\<close> the operations that loop
  over a map. A map is a value, so the updates of the model are those of the code without the reference
  counts that share nodes. \<open>Stm\<close> (\<open>runtime/stm.c\<close>) is the transactional
  memory: its calls as one thread makes them, the loop of a transaction with retry and deferred actions,
  and every load, store and lock operation as a step of an interleaving of threads.
  \<open>Serial\<close> (\<open>runtime/serial.c\<close>) writes continuations to bytes and reads them
  back: frames in a heap, the registry of reconstruction functions, the writers over a growing buffer,
  the reader over a cursor, with the checksum of \<open>Crc\<close>; it asks \<open>RtTrail\<close>
  whether a level is open. What the allocator grants and what the registered functions return are
  parameters. \<open>CpsPrompt\<close> (\<open>runtime/cps_prompt.c\<close>) is the machine for
  delimited control and effect handlers: a continuation is the list of its nodes, the functions in the
  nodes, which the compiler emits, are a parameter that says what calls each makes on the machine, and
  the references that environments hold are counted. \<open>Gc\<close> (\<open>runtime/gc.c\<close>) is
  the first half of the cycle collector: the registry of blocks, the buffer of candidates, the grey
  queue, and the trial deletion that finds garbage; a heap maps addresses to control blocks, whose
  payload is the list of references it holds. \<open>Rc\<close> has the reference counts
  (\<open>runtime/rc.c\<close>), the queue of deferred frees (\<open>runtime/rc_free_queue.c\<close>)
  and the second half of the collector, which runs drop functions and so calls the first two again: each
  operation takes what the calls back do as an argument, and \<open>runtime\<close> ties the knot with
  fuel.

  \<^bold>\<open>What the lemmas show.\<close> \<open>LinRatSound\<close> to \<open>LinElimSound\<close>
  and \<open>LinRefute\<close>: each step of the arithmetic keeps the solutions, so a refuted system has
  none. \<open>EufInv\<close>, \<open>EufSound\<close>, \<open>EufRefute\<close>: the congruence state
  stays well-formed, merges only equal terms, and is restored by undo. \<open>Backend\<close> is the
  contract of a solver as a locale, interpreted for each of the four; with it \<open>Chain\<close> and
  \<open>DischargeSound\<close> carry soundness to the whole pass. \<open>RtTrailSound\<close> and
  \<open>RtTrailUse\<close>: undo restores, left marks are refused, references are released once, walks
  along acyclic bindings end with the value bound there. \<open>HashMap\<close> is the contract of a
  hash map as a locale, with what sequences of updates and loops do to any map that keeps it;
  \<open>HamtSound\<close> and \<open>HamtMap\<close> prove the invariant of the trie and interpret the
  contract on it, and \<open>HamtUse\<close> draws batches, string keys and equality from it.
  \<open>StmSound\<close> proves, by what each thread relies on and guarantees, the invariant that every
  interleaving of transactions keeps; \<open>StmSerial\<close> has the effect of a commit that no thread
  falls into, that its steps have that effect, and what transactions see and do in runs of such commits,
  and alone; \<open>StmUse\<close> counts increments, and shows runs in which a commit is seen half done
  and in which two transactions commit that no order explains. \<open>SerialSound\<close> has the bytes
  a chain is written as, that reading them gives the frames back, that the two loops over a chain end
  exactly on chains that do, and what the reader asks of the allocator; \<open>CpsPromptSound\<close>
  that references are balanced, that values do not depend on them or on the fuel, the law of captured
  contexts, and the handlers a chain offers. \<open>GcSound\<close> takes the collector's four
  traversals each to a statement about reachability, and \<open>GcFind\<close> puts them together: what
  trial deletion lists is the garbage. \<open>RcSound\<close> has what releasing a reference does while
  a collection runs, \<open>RcCollect\<close> that the collection frees the garbage and keeps the heap
  well-formed, and \<open>RcExamples\<close> the heaps on which the collector goes wrong outside those
  conditions. The properties themselves stand in \<open>SolverProps\<close> (C1 to C5, C7, C8),
  \<open>TheoryProps\<close> (C9, C10, C12, C14 to C17), \<open>NameProps\<close> (C19, C20, C23),
  \<open>RuntimeProps\<close> (C26 to C28, C31 to C34), \<open>HamtProps\<close> (C36 to C38, C40),
  \<open>StmProps\<close> (C11, C25, C29), \<open>SerialProps\<close> (C18, C22, C24, C35),
  \<open>CpsProps\<close> (C6, C30, C39) and \<open>GcProps\<close> (C13, C21), beside further theorems;
  \<open>Examples\<close> holds the conditions at which they are applied.

  \<^bold>\<open>Bounds and fuel.\<close> The caps of the source (cubes, literals, constraints, rounds,
  depth, the memo's capacity) are the same numbers in the model, where reaching one gives
  \<open>unknown\<close> as in the source. Probing a hash table of \<open>n\<close> slots has fuel
  \<open>n\<close>, which visits every slot. The walk of the runtime's substitution has fuel because a
  cycle of bindings makes it run forever; where they are acyclic, one more than the number of variables
  is enough (C31). An insertion into the hash map has fuel for the thirteen chunks of a hash and one
  level more, which is enough for any map (C36). The attempts of a transaction have fuel, as other
  threads may make it try again for ever; alone it needs one (C11). The loops over a chain of frames to
  write have no fuel but may be undefined, and are so exactly on chains without an end (C35). The
  delimited-control machine has fuel because a program may run for ever; more fuel never changes a
  result, and its properties hold for whatever fuel gives one. The traversals of the collector have a
  bound on their depth, and twice the number of registered blocks is enough (C13); the calls between
  counts, queue and collector have fuel, of which a collection of garbage needs two levels (C21).

  \<^bold>\<open>Not modelled.\<close> The telemetry of caps and the flags only it reads; growth of
  arenas, and allocation that fails (but for the runtime's trail, serialization and the vectors of the
  collector, where it is a parameter); the text of messages and the rendering of predicates;
  \<open>refine_vc_build\<close>, whose result is an input of an obligation; negation of the least
  64-bit integer in \<open>igcd\<close>, which is undefined in C and exact here; the sign of a zero
  double; a stack overflow of a recursion; what a 32-bit capacity that has wrapped does to its array;
  counters and times near the end of their range; orderings of memory accesses that C11 allows beyond
  interleaving, and the interleaving of timer insertions with the ticker; freeing, except by the
  reference counts and the collector; reference counts and the boxes of keys and values of the hash map.
  Of the rest of the repository, the reader, the elaborator, the emitter and the interpreter work over
  one large shared syntax tree and are not reached; drivers, packages, foreign calls and system calls
  are input and output.

  \<^bold>\<open>Where the claims end.\<close> The solver's soundness (C1, C2, C9, C15) is for
  conditions that use \<open>/\<close>, and \<open>mod\<close>, at one sort each and whose double
  literals are finite and exact in the ways \<open>chain_frag\<close>, \<open>lit_good\<close> and
  \<open>real_lit_exact\<close> say; outside it a stage can call a cube refuted that has a model. The
  timers' promises (C32, C33) are for positive delays, undo (C26) is for cells whose stamp is not above
  the open levels, the collector's (C13, C21) for drop functions that release what the collector
  follows.
\<close>

end
